(* ===== verification/Prelude.thy ===== *)
theory Prelude
  imports Main "HOL-Library.List_Lexorder" "HOL-Library.Char_ord" "HOL-Library.AList"
    "HOL-Library.Code_Target_Nat"
begin

text \<open>
  Shared vocabulary of the development: Rust's \<open>Result\<close>-returning code as
  state-and-error computations with a small weakest-precondition calculus,
  \<open>HashMap\<close>s as association lists in iteration order, decimal printing, and
  the list lemmas the component theories share.
\<close>

section \<open>Computations that read and change a world and may fail\<close>

text \<open>
  An \<open>async fn\<close> returning \<open>Result<A, E>\<close> is a function from the world before
  the call to its result and the world after it.  \<open>Inl\<close> is \<open>Err\<close>, \<open>Inr\<close> is
  \<open>Ok\<close>.  The world may be changed by other tasks inside any call, which is why
  the laws about external operations are stated as relations on worlds.
\<close>

type_synonym ('w, 'e, 'a) eff = "'w \<Rightarrow> ('e + 'a) \<times> 'w"

definition ret :: "'a \<Rightarrow> ('w, 'e, 'a) eff" where
  "ret x = (\<lambda>w. (Inr x, w))"

definition raise :: "'e \<Rightarrow> ('w, 'e, 'a) eff" where
  "raise e = (\<lambda>w. (Inl e, w))"

definition bindE :: "('w, 'e, 'a) eff \<Rightarrow> ('a \<Rightarrow> ('w, 'e, 'b) eff) \<Rightarrow> ('w, 'e, 'b) eff" where
  "bindE m f = (\<lambda>w. case m w of (Inl e, w') \<Rightarrow> (Inl e, w') | (Inr a, w') \<Rightarrow> f a w')"

definition map_errE :: "('e \<Rightarrow> 'f) \<Rightarrow> ('w, 'e, 'a) eff \<Rightarrow> ('w, 'f, 'a) eff" where
  "map_errE g m = (\<lambda>w. case m w of (Inl e, w') \<Rightarrow> (Inl (g e), w') | (Inr a, w') \<Rightarrow> (Inr a, w'))"

text \<open>\<open>match op().await { Ok(a) => f a, Err(e) => h e }\<close>\<close>
definition matchE :: "('w, 'e, 'a) eff \<Rightarrow> ('e \<Rightarrow> ('w, 'f, 'b) eff) \<Rightarrow> ('a \<Rightarrow> ('w, 'f, 'b) eff)
    \<Rightarrow> ('w, 'f, 'b) eff" where
  "matchE m h f = (\<lambda>w. case m w of (Inl e, w') \<Rightarrow> h e w' | (Inr a, w') \<Rightarrow> f a w')"

text \<open>A \<open>Result\<close> computed without touching the world, used with \<open>?\<close>.\<close>
definition liftR :: "'e + 'a \<Rightarrow> ('w, 'e, 'a) eff" where
  "liftR r = (\<lambda>w. (r, w))"

text \<open>Reading the world.\<close>
definition asks :: "('w \<Rightarrow> 'a) \<Rightarrow> ('w, 'e, 'a) eff" where
  "asks f = (\<lambda>w. (Inr (f w), w))"

definition modifyE :: "('w \<Rightarrow> 'w) \<Rightarrow> ('w, 'e, unit) eff" where
  "modifyE f = (\<lambda>w. (Inr (), f w))"

text \<open>Fold a fallible step over a list: \<open>for x in xs { acc = f(acc, x)?; }\<close>.\<close>
primrec foldE :: "('b \<Rightarrow> 'a \<Rightarrow> ('w, 'e, 'b) eff) \<Rightarrow> 'b \<Rightarrow> 'a list \<Rightarrow> ('w, 'e, 'b) eff" where
  "foldE f b [] = ret b"
| "foldE f b (x # xs) = bindE (f b x) (\<lambda>b'. foldE f b' xs)"

text \<open>\<open>collect::<Result<Vec<_>, _>>()\<close> of a mapped iterator: stop at the first error.\<close>
primrec map_result :: "('a \<Rightarrow> 'e + 'b) \<Rightarrow> 'a list \<Rightarrow> 'e + 'b list" where
  "map_result f [] = Inr []"
| "map_result f (x # xs) =
     (case f x of Inl e \<Rightarrow> Inl e
      | Inr y \<Rightarrow> (case map_result f xs of Inl e \<Rightarrow> Inl e | Inr ys \<Rightarrow> Inr (y # ys)))"

definition is_ok :: "'e + 'a \<Rightarrow> bool" where
  "is_ok r = (case r of Inl _ \<Rightarrow> False | Inr _ \<Rightarrow> True)"

lemma is_ok_simps [simp]: "is_ok (Inr a)" "\<not> is_ok (Inl e)"
  by (simp_all add: is_ok_def)

lemmas eff_defs = ret_def raise_def bindE_def map_errE_def matchE_def liftR_def asks_def modifyE_def

section \<open>Weakest preconditions\<close>

named_theorems wp_rules \<open>rewriting a weakest precondition through a combinator\<close>

definition wp :: "('w, 'e, 'a) eff \<Rightarrow> ('a \<Rightarrow> 'w \<Rightarrow> bool) \<Rightarrow> ('e \<Rightarrow> 'w \<Rightarrow> bool) \<Rightarrow> 'w \<Rightarrow> bool" where
  "wp m Q E w = (case m w of (Inl e, w') \<Rightarrow> E e w' | (Inr a, w') \<Rightarrow> Q a w')"

lemma wp_ret [wp_rules]: "wp (ret x) Q E = Q x"
  by (simp add: wp_def ret_def fun_eq_iff)

lemma wp_raise [wp_rules]: "wp (raise e) Q E = E e"
  by (simp add: wp_def raise_def fun_eq_iff)

lemma wp_bindE [wp_rules]: "wp (bindE m f) Q E = wp m (\<lambda>a. wp (f a) Q E) E"
  by (simp add: wp_def bindE_def fun_eq_iff split: prod.split sum.split)

lemma wp_map_errE [wp_rules]: "wp (map_errE g m) Q E = wp m Q (\<lambda>e. E (g e))"
  by (simp add: wp_def map_errE_def fun_eq_iff split: prod.split sum.split)

lemma wp_matchE [wp_rules]: "wp (matchE m h f) Q E = wp m (\<lambda>a. wp (f a) Q E) (\<lambda>e. wp (h e) Q E)"
  by (simp add: wp_def matchE_def fun_eq_iff split: prod.split sum.split)

lemma wp_liftR [wp_rules]: "wp (liftR r) Q E = (case r of Inl e \<Rightarrow> E e | Inr a \<Rightarrow> Q a)"
  by (simp add: wp_def liftR_def fun_eq_iff split: sum.split)

lemma wp_asks [wp_rules]: "wp (asks f) Q E = (\<lambda>w. Q (f w) w)"
  by (simp add: wp_def asks_def fun_eq_iff)

lemma wp_modifyE [wp_rules]: "wp (modifyE f) Q E = (\<lambda>w. Q () (f w))"
  by (simp add: wp_def modifyE_def fun_eq_iff)

lemma wp_if [wp_rules]: "wp (if c then m else n) Q E w = (if c then wp m Q E w else wp n Q E w)"
  by simp

lemma wp_mono:
  assumes "wp m Q E w" and "\<And>a w'. Q a w' \<Longrightarrow> Q' a w'" and "\<And>e w'. E e w' \<Longrightarrow> E' e w'"
  shows "wp m Q' E' w"
  using assms by (auto simp: wp_def split: prod.splits sum.splits)

lemma wp_conj: "wp m Q E w \<Longrightarrow> wp m Q' E' w \<Longrightarrow> wp m (\<lambda>a w'. Q a w' \<and> Q' a w') (\<lambda>e w'. E e w' \<and> E' e w') w"
  by (auto simp: wp_def split: prod.splits sum.splits)

lemma wp_okD: "wp m Q E w \<Longrightarrow> m w = (Inr a, w') \<Longrightarrow> Q a w'"
  by (simp add: wp_def)

lemma wp_errD: "wp m Q E w \<Longrightarrow> m w = (Inl e, w') \<Longrightarrow> E e w'"
  by (simp add: wp_def)

lemma wpI:
  assumes "\<And>a w'. m w = (Inr a, w') \<Longrightarrow> Q a w'" and "\<And>e w'. m w = (Inl e, w') \<Longrightarrow> E e w'"
  shows "wp m Q E w"
  using assms by (auto simp: wp_def split: prod.splits sum.splits)

text \<open>A loop invariant for \<^const>\<open>foldE\<close>, indexed by the elements already consumed.\<close>
lemma wp_foldE:
  assumes "I [] b w"
    and "\<And>ys x zs acc w'. xs = ys @ x # zs \<Longrightarrow> I ys acc w' \<Longrightarrow> wp (f acc x) (I (ys @ [x])) E w'"
    and "\<And>acc w'. I xs acc w' \<Longrightarrow> Q acc w'"
  shows "wp (foldE f b xs) Q E w"
proof -
  have "wp (foldE f acc zs) (I xs) E w'" if "xs = ys @ zs" "I ys acc w'" for ys zs acc w'
    using that
  proof (induction zs arbitrary: ys acc w')
    case Nil
    then show ?case by (simp add: wp_ret)
  next
    case (Cons x zs)
    have "wp (f acc x) (I (ys @ [x])) E w'"
      using assms(2) Cons.prems by blast
    then have "wp (f acc x) (\<lambda>acc'. wp (foldE f acc' zs) (I xs) E) E w'"
      by (rule wp_mono) (use Cons in auto)
    then show ?case by (simp add: wp_bindE)
  qed
  from this[of "[]" xs b w] assms(1) have "wp (foldE f b xs) (I xs) E w" by simp
  then show ?thesis by (rule wp_mono) (use assms(3) in auto)
qed

text \<open>Every run of a computation moves the world along \<open>R\<close>, whatever it returns.\<close>
definition moves :: "('w \<Rightarrow> 'w \<Rightarrow> bool) \<Rightarrow> ('w, 'e, 'a) eff \<Rightarrow> bool" where
  "moves R m = (\<forall>w. R w (snd (m w)))"

lemma moves_wp: "moves R m \<Longrightarrow> wp m (\<lambda>_. R w) (\<lambda>_. R w) w"
  unfolding moves_def wp_def by (metis (mono_tags, lifting) prod.case_eq_if sum.case_eq_if)

lemma wp_moves:
  assumes "moves R m" "\<And>a w'. R w w' \<Longrightarrow> Q a w'" "\<And>e w'. R w w' \<Longrightarrow> E e w'"
  shows "wp m Q E w"
  using moves_wp[OF assms(1)] by (rule wp_mono) (use assms(2,3) in auto)

lemma movesI_wp:
  assumes "\<And>w. wp m (\<lambda>_. R w) (\<lambda>_. R w) w"
  shows "moves R m"
  unfolding moves_def
proof
  fix w
  show "R w (snd (m w))"
    using assms[of w] by (cases "m w"; cases "fst (m w)") (auto simp: wp_def)
qed

lemma movesD: "moves R m \<Longrightarrow> m w = (r, w') \<Longrightarrow> R w w'"
  unfolding moves_def by (metis snd_conv)

lemma moves_mono: "moves R m \<Longrightarrow> (\<And>w w'. R w w' \<Longrightarrow> R' w w') \<Longrightarrow> moves R' m"
  by (simp add: moves_def)

lemma moves_ret [intro]: "reflp R \<Longrightarrow> moves R (ret x)"
  by (simp add: moves_def ret_def reflp_def)

lemma moves_raise [intro]: "reflp R \<Longrightarrow> moves R (raise x)"
  by (simp add: moves_def raise_def reflp_def)

lemma moves_liftR [intro]: "reflp R \<Longrightarrow> moves R (liftR x)"
  by (simp add: moves_def liftR_def reflp_def)

lemma moves_asks [intro]: "reflp R \<Longrightarrow> moves R (asks x)"
  by (simp add: moves_def asks_def reflp_def)

lemma moves_bindE [intro]:
  assumes "transp R" "moves R m" "\<And>a. moves R (f a)"
  shows "moves R (bindE m f)"
  unfolding moves_def
proof
  fix w
  show "R w (snd (bindE m f w))"
  proof (cases "m w")
    case (Pair r w')
    have "R w w'" using assms(2) Pair by (rule movesD)
    moreover have "R w' (snd (f a w'))" for a using assms(3) by (simp add: moves_def)
    ultimately show ?thesis
      using Pair assms(1) by (cases r) (auto simp: bindE_def dest: transpD)
  qed
qed

lemma moves_matchE [intro]:
  assumes "transp R" "moves R m" "\<And>a. moves R (f a)" "\<And>e. moves R (h e)"
  shows "moves R (matchE m h f)"
  unfolding moves_def
proof
  fix w
  show "R w (snd (matchE m h f w))"
  proof (cases "m w")
    case (Pair r w')
    have "R w w'" using assms(2) Pair by (rule movesD)
    moreover have "R w' (snd (f a w'))" "R w' (snd (h e w'))" for a e
      using assms(3,4) by (simp_all add: moves_def)
    ultimately show ?thesis
      using Pair assms(1) by (cases r) (auto simp: matchE_def dest: transpD)
  qed
qed

lemma moves_map_errE [intro]: "moves R m \<Longrightarrow> moves R (map_errE g m)"
  by (auto simp: moves_def map_errE_def split: prod.split sum.split) (metis snd_conv)+

lemma moves_foldE [intro]:
  assumes "reflp R" "transp R" "\<And>b x. moves R (f b x)"
  shows "moves R (foldE f b xs)"
  by (induction xs arbitrary: b) (auto intro: assms)

section \<open>Result lists\<close>

lemma map_result_OkD:
  "map_result f xs = Inr ys \<Longrightarrow> length ys = length xs \<and> (\<forall>i < length xs. f (xs ! i) = Inr (ys ! i))"
proof (induction xs arbitrary: ys)
  case (Cons x xs)
  then show ?case
    by (auto simp: nth_Cons split: sum.splits nat.splits)
qed simp

lemma map_result_eq_Inr_iff:
  "map_result f xs = Inr ys \<longleftrightarrow> list_all2 (\<lambda>x y. f x = Inr y) xs ys"
proof (induction xs arbitrary: ys)
  case (Cons x xs)
  show ?case
    by (cases ys; cases "f x") (auto simp: Cons.IH[symmetric] split: sum.split)
qed (auto split: sum.splits)

lemma map_result_ErrD: "map_result f xs = Inl e \<Longrightarrow> \<exists>x\<in>set xs. f x = Inl e"
  by (induction xs) (auto split: sum.splits)

section \<open>Hash maps\<close>

text \<open>
  A Rust \<open>HashMap\<close> is the list of its entries in iteration order: \<open>distinct (map fst m)\<close>
  holds of every map the code builds, and a theorem about all such lists is a theorem about
  every iteration order.
\<close>

type_synonym 'v hash_map = "(string \<times> 'v) list"

abbreviation hm_wf :: "(string \<times> 'v) list \<Rightarrow> bool" where
  "hm_wf m \<equiv> distinct (map fst m)"

abbreviation hm_get :: "(string \<times> 'v) list \<Rightarrow> string \<Rightarrow> 'v option" where
  "hm_get \<equiv> map_of"

abbreviation hm_insert :: "string \<Rightarrow> 'v \<Rightarrow> (string \<times> 'v) list \<Rightarrow> (string \<times> 'v) list" where
  "hm_insert \<equiv> AList.update"

abbreviation hm_remove :: "string \<Rightarrow> (string \<times> 'v) list \<Rightarrow> (string \<times> 'v) list" where
  "hm_remove \<equiv> AList.delete"

definition hm_contains :: "(string \<times> 'v) list \<Rightarrow> string \<Rightarrow> bool" where
  "hm_contains m k = (hm_get m k \<noteq> None)"

lemma hm_get_insert [simp]: "hm_get (hm_insert k v m) k' = (if k' = k then Some v else hm_get m k')"
  by (simp add: update_conv')

lemma hm_get_remove [simp]: "hm_get (hm_remove k m) k' = (if k' = k then None else hm_get m k')"
  by (simp add: delete_conv' map_of_eq_None_iff)

lemma hm_wf_insert [simp]: "hm_wf m \<Longrightarrow> hm_wf (hm_insert k v m)"
  by (rule distinct_update)

lemma hm_wf_remove [simp]: "hm_wf m \<Longrightarrow> hm_wf (hm_remove k m)"
  by (rule distinct_delete)

lemma hm_contains_iff: "hm_contains m k \<longleftrightarrow> k \<in> fst ` set m"
  by (simp add: hm_contains_def map_of_eq_None_iff)

section \<open>Decimal printing\<close>

definition digit_chars :: string where
  "digit_chars = ''0123456789''"

definition digit_char :: "nat \<Rightarrow> char" where
  "digit_char d = digit_chars ! d"

fun show_nat :: "nat \<Rightarrow> string" where
  "show_nat n = (if n < 10 then [digit_char n] else show_nat (n div 10) @ [digit_char (n mod 10)])"

declare show_nat.simps [simp del]

definition show_int :: "int \<Rightarrow> string" where
  "show_int i = (if i < 0 then CHR ''-'' # show_nat (nat (- i)) else show_nat (nat i))"

text \<open>Rust's \<open>Debug\<close> form of an \<open>Option<i64>\<close>.\<close>
definition show_opt_int :: "int option \<Rightarrow> string" where
  "show_opt_int v = (case v of None \<Rightarrow> ''None'' | Some i \<Rightarrow> ''Some('' @ show_int i @ '')'')"

definition digit_val :: "char \<Rightarrow> nat" where
  "digit_val c = of_char c - 48"

definition read_nat :: "string \<Rightarrow> nat" where
  "read_nat s = foldl (\<lambda>acc c. 10 * acc + digit_val c) 0 s"

lemma less_ten_cases: "d < (10::nat) \<Longrightarrow> d = 0 \<or> d = 1 \<or> d = 2 \<or> d = 3 \<or> d = 4 \<or> d = 5 \<or> d = 6 \<or> d = 7 \<or> d = 8 \<or> d = 9"
  by arith

lemma digit_val_char [simp]: "d < 10 \<Longrightarrow> digit_val (digit_char d) = d"
  by (drule less_ten_cases) (auto simp: digit_val_def digit_char_def digit_chars_def)

lemma read_show_nat [simp]: "read_nat (show_nat n) = n"
proof (induction n rule: show_nat.induct)
  case (1 n)
  then show ?case
    by (subst show_nat.simps) (auto simp: read_nat_def)
qed

lemma digit_char_in: "d < 10 \<Longrightarrow> digit_char d \<in> set digit_chars"
  by (drule less_ten_cases) (auto simp: digit_char_def digit_chars_def)

lemma show_nat_digits: "set (show_nat n) \<subseteq> set digit_chars"
proof (induction n rule: show_nat.induct)
  case (1 n)
  then show ?case
    using digit_char_in[of n] digit_char_in[of "n mod 10"]
    by (subst show_nat.simps) (auto split: if_splits)
qed

lemma show_nat_nonempty [simp]: "show_nat n \<noteq> []"
  by (subst show_nat.simps) simp

lemma show_nat_inject [simp]: "show_nat m = show_nat n \<longleftrightarrow> m = n"
  using read_show_nat by metis

lemma show_nat_not_minus: "show_nat n \<noteq> CHR ''-'' # s"
  using show_nat_digits[of n] by (auto simp: digit_chars_def)

lemma show_int_inject [simp]: "show_int i = show_int j \<longleftrightarrow> i = j"
proof -
  have "show_nat m = CHR ''-'' # s \<longleftrightarrow> False" "CHR ''-'' # s = show_nat m \<longleftrightarrow> False" for m s
    using show_nat_not_minus[of m s] by auto
  then show ?thesis
    by (cases "i < 0"; cases "j < 0") (simp_all add: show_int_def eq_nat_nat_iff)
qed

lemma show_int_chars: "set (show_int i) \<subseteq> insert CHR ''-'' (set digit_chars)"
  using show_nat_digits[of "nat i"] show_nat_digits[of "nat (- i)"]
  by (auto simp: show_int_def)

section \<open>Machine integers\<close>

text \<open>
  Two's-complement reduction to a signed width, as \<open>as i32\<close>, \<open>as i64\<close> and release-build
  arithmetic do it, and \<open>as usize\<close> on a 64-bit target.
\<close>

definition wrap_i32 :: "int \<Rightarrow> int" where
  "wrap_i32 x = (x + 2 ^ 31) mod 2 ^ 32 - 2 ^ 31"

definition wrap_i64 :: "int \<Rightarrow> int" where
  "wrap_i64 x = (x + 2 ^ 63) mod 2 ^ 64 - 2 ^ 63"

definition as_usize :: "int \<Rightarrow> nat" where
  "as_usize x = (if x < 0 then nat (x + 2 ^ 64) else nat x)"

lemma wrap_i32_id [simp]: "- (2 ^ 31) \<le> x \<Longrightarrow> x < 2 ^ 31 \<Longrightarrow> wrap_i32 x = x"
  by (simp add: wrap_i32_def)

lemma wrap_i64_id [simp]: "- (2 ^ 63) \<le> x \<Longrightarrow> x < 2 ^ 63 \<Longrightarrow> wrap_i64 x = x"
  by (simp add: wrap_i64_def)

lemma as_usize_nonneg [simp]: "0 \<le> x \<Longrightarrow> as_usize x = nat x"
  by (simp add: as_usize_def)

section \<open>Lists\<close>

lemma prefix_nth: "i < length xs \<Longrightarrow> (xs @ ys) ! i = xs ! i"
  by (simp add: nth_append)

lemma take_drop_nth:
  assumes "i < j" "j \<le> length xs"
  shows "take (j - i) (drop i xs) = xs ! i # take (j - Suc i) (drop (Suc i) xs)"
proof -
  have "drop i xs = xs ! i # drop (Suc i) xs"
    using assms by (simp add: Cons_nth_drop_Suc)
  then show ?thesis using assms by (simp add: take_Cons' Suc_diff_Suc)
qed

end
