(* ===== verification/Bus_Types.thy ===== *)
theory Bus_Types
  imports Prelude "HOL-Library.Word"
begin

text \<open>
  The messages of the AgentBus log (\<open>bus/proto/agent_bus.proto\<close> and the voter
  protos), as the Rust code sees them after \<open>prost\<close> generation: a \<open>message\<close> is a
  record, a \<open>oneof\<close> a datatype under an \<open>option\<close>, an enum field the raw \<open>int\<close>
  it carries on the wire, a \<open>map\<close> field a hash map.  A \<open>double\<close> is kept as its
  64-bit pattern because the modelled code only carries it.  Also the error type
  of the bus trait (\<open>bus/api/src/traits.rs\<close>) and the payload-type helpers
  (\<open>payload_types.rs\<close>, the filters of \<open>helpers.rs\<close>, \<open>intention_helpers.rs\<close>).
\<close>

section \<open>Voter configuration messages\<close>

record any_message =
  type_url :: string
  any_bytes :: string

record llm_voter_config =
  prompt_override :: string

datatype voter_rule_subject_kind = ExactBusId string | BusIdPrefix string

type_synonym voter_rule_subject = "voter_rule_subject_kind option"

record voter_rule =
  vr_pattern :: string
  vr_action :: int
  vr_match_type :: int
  vr_reason :: string
  vr_subjects :: "voter_rule_subject list"

record rule_based_voter_config =
  rbc_rules :: "voter_rule list"
  rbc_default_action :: int

datatype voter_config_kind =
    Llm llm_voter_config
  | RuleBased rule_based_voter_config
  | Custom any_message

type_synonym voter_config = "voter_config_kind option"

section \<open>Log entries\<close>

datatype decider_policy = OffByDefault | OnByDefault | FirstBooleanWins

fun decider_policy_as_i32 :: "decider_policy \<Rightarrow> int" where
  "decider_policy_as_i32 OffByDefault = 0"
| "decider_policy_as_i32 OnByDefault = 1"
| "decider_policy_as_i32 FirstBooleanWins = 2"

text \<open>\<open>DeciderPolicy::try_from(i32)\<close>: \<open>None\<close> for a number that is no variant.\<close>
definition decider_policy_try_from :: "int \<Rightarrow> decider_policy option" where
  "decider_policy_try_from i =
     (if i = 0 then Some OffByDefault else if i = 1 then Some OnByDefault
      else if i = 2 then Some FirstBooleanWins else None)"

datatype intention_kind = StringIntention string | GroupIntention "string list"

datatype policy_version_constraint =
    RequiredPolicyVersion int
  | MinimumPolicyVersion int

record intention =
  intention_body :: "intention_kind option"
  policy_version_constraint :: "policy_version_constraint option"

datatype vote_type_kind = BooleanVote bool | ProbabilityVote "64 word"

record vote =
  abstract_vote :: "vote_type_kind option option"
  vote_intention_id :: int
  vote_voter_config :: "voter_config option"
  vote_voter_id :: string
  vote_reason :: string

record commit =
  commit_intention_id :: int
  commit_reason :: string

record abort =
  abort_intention_id :: int
  abort_reason :: string

datatype voter_op_kind = AddOp "voter_config option" | RemoveOp

type_synonym voter_op = "voter_op_kind option"

record policy_batch =
  pb_decider_policy :: "int option"
  pb_voter_ops :: "voter_op hash_map"
  pb_expected_current_version :: "int option"
  pb_new_version :: int

datatype base_engine_control_kind =
    AddVoter "voter_config option"
  | RemoveVoter string
  | PolicyBatch policy_batch

type_synonym base_engine_control = "base_engine_control_kind option"

datatype control_kind = BaseEngineControl base_engine_control

type_synonym control = "control_kind option"

record action_output =
  ao_intention_id :: int
  ao_string_action_output :: "string option"

record mail_message =
  mm_body :: string
  mm_message_id :: string

record mail_reply =
  mr_message :: "mail_message option"
  mr_in_reply_to :: string

datatype mail_content = MailMessage mail_message | MailReply mail_reply

record mail =
  sender_agent_id :: string
  mail_content :: "mail_content option"

text \<open>The \<open>payload\<close> oneof.  The three string-carrying oneofs of inference and agent
  input and output keep their optional string.\<close>
datatype payload_kind =
    Intention intention
  | Vote vote
  | DeciderPolicy int
  | Commit commit
  | Abort abort
  | VoterPolicy "any_message option"
  | Control control
  | InferenceInput "string option"
  | InferenceOutput "string option"
  | ActionOutput action_output
  | AgentInput "string option"
  | AgentOutput "string option"
  | Mail mail

type_synonym payload = "payload_kind option"

record header =
  log_position :: int
  rt_timestamp_ms :: int

record bus_entry =
  entry_header :: "header option"
  entry_payload :: "payload option"

section \<open>Requests and responses\<close>

text \<open>A \<open>BusId\<close> message holds one string; a \<open>PayloadTypeFilter\<close> one list.\<close>

record append_request =
  ar_bus_id :: "string option"
  ar_payload :: "payload option"

record poll_request =
  pr_bus_id :: "string option"
  pr_start_log_position :: int
  pr_max_entries :: int
  pr_filter :: "int list option"

record poll_response =
  ps_entries :: "bus_entry list"
  ps_complete :: bool

record read_next_request =
  rn_bus_id :: "string option"
  rn_start_log_position :: int
  rn_end_log_position :: int
  rn_max_entries :: int
  rn_filter :: "int list option"

record read_next_response =
  rr_entries :: "bus_entry list"
  rr_next_start_position :: int

record blocking_poll_request =
  bp_bus_id :: "string option"
  bp_start_log_position :: int
  bp_max_entries :: int
  bp_filter :: "int list option"
  bp_timeout_ms :: int

section \<open>Errors\<close>

text \<open>
  The categories of \<open>AgentBusError\<close>; the \<open>anyhow\<close> messages inside are dropped.
  \<open>Panicked\<close> is not a value of the Rust type: it stands for an operation that
  unwinds, so that a panic is a visible branch of the model.
\<close>
datatype bus_error = PositionNotFound | InvalidArgument | BusTimeout | Unavailable | Internal | Panicked

section \<open>Payload types\<close>

datatype payload_type =
    PT_Intention | PT_Vote | PT_DeciderPolicy | PT_Commit | PT_Abort | PT_VoterPolicy | PT_Control
  | PT_InferenceInput | PT_InferenceOutput | PT_ActionOutput | PT_AgentInput | PT_AgentOutput | PT_Mail

fun payload_type_as_str :: "payload_type \<Rightarrow> string" where
  "payload_type_as_str PT_Intention = ''intention''"
| "payload_type_as_str PT_Vote = ''vote''"
| "payload_type_as_str PT_DeciderPolicy = ''decider_policy''"
| "payload_type_as_str PT_Commit = ''commit''"
| "payload_type_as_str PT_Abort = ''abort''"
| "payload_type_as_str PT_VoterPolicy = ''voter_policy''"
| "payload_type_as_str PT_Control = ''control''"
| "payload_type_as_str PT_InferenceInput = ''inference_input''"
| "payload_type_as_str PT_InferenceOutput = ''inference_output''"
| "payload_type_as_str PT_ActionOutput = ''action_output''"
| "payload_type_as_str PT_AgentInput = ''agent_input''"
| "payload_type_as_str PT_AgentOutput = ''agent_output''"
| "payload_type_as_str PT_Mail = ''mail''"

definition payload_type_from_str :: "string \<Rightarrow> payload_type option" where
  "payload_type_from_str s =
     (if s = ''intention'' then Some PT_Intention
      else if s = ''vote'' then Some PT_Vote
      else if s = ''decider_policy'' then Some PT_DeciderPolicy
      else if s = ''commit'' then Some PT_Commit
      else if s = ''abort'' then Some PT_Abort
      else if s = ''voter_policy'' then Some PT_VoterPolicy
      else if s = ''control'' then Some PT_Control
      else if s = ''inference_input'' then Some PT_InferenceInput
      else if s = ''inference_output'' then Some PT_InferenceOutput
      else if s = ''action_output'' then Some PT_ActionOutput
      else if s = ''agent_input'' then Some PT_AgentInput
      else if s = ''agent_output'' then Some PT_AgentOutput
      else if s = ''mail'' then Some PT_Mail
      else None)"

text \<open>The numbers of \<open>enum SelectivePollType\<close>.\<close>
fun to_proto_i32 :: "payload_type \<Rightarrow> int" where
  "to_proto_i32 PT_Intention = 1"
| "to_proto_i32 PT_Vote = 2"
| "to_proto_i32 PT_DeciderPolicy = 3"
| "to_proto_i32 PT_Commit = 4"
| "to_proto_i32 PT_Abort = 5"
| "to_proto_i32 PT_VoterPolicy = 6"
| "to_proto_i32 PT_Control = 7"
| "to_proto_i32 PT_InferenceInput = 8"
| "to_proto_i32 PT_InferenceOutput = 9"
| "to_proto_i32 PT_ActionOutput = 10"
| "to_proto_i32 PT_AgentInput = 11"
| "to_proto_i32 PT_AgentOutput = 12"
| "to_proto_i32 PT_Mail = 13"

fun has_string_payload :: "payload_type \<Rightarrow> bool" where
  "has_string_payload PT_Intention = True"
| "has_string_payload PT_InferenceInput = True"
| "has_string_payload PT_InferenceOutput = True"
| "has_string_payload PT_ActionOutput = True"
| "has_string_payload PT_AgentInput = True"
| "has_string_payload PT_AgentOutput = True"
| "has_string_payload PT_Control = True"
| "has_string_payload _ = False"

fun get_payload_type :: "payload \<Rightarrow> int option" where
  "get_payload_type (Some (Intention _)) = Some 1"
| "get_payload_type (Some (Vote _)) = Some 2"
| "get_payload_type (Some (DeciderPolicy _)) = Some 3"
| "get_payload_type (Some (VoterPolicy _)) = Some 6"
| "get_payload_type (Some (Commit _)) = Some 4"
| "get_payload_type (Some (Abort _)) = Some 5"
| "get_payload_type (Some (Control _)) = Some 7"
| "get_payload_type (Some (InferenceInput _)) = Some 8"
| "get_payload_type (Some (InferenceOutput _)) = Some 9"
| "get_payload_type (Some (ActionOutput _)) = Some 10"
| "get_payload_type (Some (AgentInput _)) = Some 11"
| "get_payload_type (Some (AgentOutput _)) = Some 12"
| "get_payload_type (Some (Mail _)) = Some 13"
| "get_payload_type None = None"

definition payload_matches_filter :: "payload \<Rightarrow> int list option \<Rightarrow> bool" where
  "payload_matches_filter p flt =
     (case flt of None \<Rightarrow> True
      | Some types \<Rightarrow> (case get_payload_type p of Some t \<Rightarrow> t \<in> set types | None \<Rightarrow> False))"

text \<open>Action strings in proposal order; an empty group is rejected.\<close>
fun intention_texts :: "intention_kind \<Rightarrow> bus_error + string list" where
  "intention_texts (StringIntention t) = Inr [t]"
| "intention_texts (GroupIntention g) = (if g = [] then Inl InvalidArgument else Inr g)"

section \<open>Lemmas\<close>

lemma decider_policy_roundtrip [simp]: "decider_policy_try_from (decider_policy_as_i32 p) = Some p"
  by (cases p) (simp_all add: decider_policy_try_from_def)

lemma decider_policy_try_from_SomeD: "decider_policy_try_from i = Some p \<Longrightarrow> decider_policy_as_i32 p = i"
  by (auto simp: decider_policy_try_from_def split: if_splits)

lemma payload_type_str_roundtrip: "payload_type_from_str (payload_type_as_str t) = Some t"
  by (cases t) (simp_all add: payload_type_from_str_def)

lemma payload_type_from_str_inverse: "payload_type_from_str s = Some t \<Longrightarrow> payload_type_as_str t = s"
  by (auto simp: payload_type_from_str_def split: if_splits)

lemma to_proto_i32_inject: "to_proto_i32 s = to_proto_i32 t \<longleftrightarrow> s = t"
  by (cases s; cases t) simp_all

lemma get_payload_type_None_iff [simp]: "get_payload_type p = None \<longleftrightarrow> p = None"
  by (cases p rule: get_payload_type.cases) simp_all

lemma get_payload_type_range: "get_payload_type p = Some t \<Longrightarrow> \<exists>pt. t = to_proto_i32 pt"
proof (cases p rule: get_payload_type.cases)
  case (14)
  then show "get_payload_type p = Some t \<Longrightarrow> ?thesis" by simp
qed (auto intro: exI[of _ PT_Intention] exI[of _ PT_Vote] exI[of _ PT_DeciderPolicy] exI[of _ PT_Commit]
      exI[of _ PT_Abort] exI[of _ PT_VoterPolicy] exI[of _ PT_Control] exI[of _ PT_InferenceInput]
      exI[of _ PT_InferenceOutput] exI[of _ PT_ActionOutput] exI[of _ PT_AgentInput]
      exI[of _ PT_AgentOutput] exI[of _ PT_Mail])

lemma payload_matches_no_filter [simp]: "payload_matches_filter p None"
  by (simp add: payload_matches_filter_def)

lemma payload_matches_filter_empty [simp]: "\<not> payload_matches_filter p (Some [])"
  by (simp add: payload_matches_filter_def split: option.split)

end
