(* ===== verification/Bus_Api.thy ===== *)
theory Bus_Api
  imports Bus_Types "HOL-Library.Sublist"
begin

text \<open>
  The client side of \<open>bus/api/src\<close>: bus-id validation (\<open>validation.rs\<close>), structured
  bus ids (\<open>agent_bus_id.rs\<close>), expiry (\<open>ttl.rs\<close>), the \<open>Environment\<close> and \<open>AgentBus\<close>
  traits as records of operations over a world, the generic clients \<open>read_range\<close> and
  \<open>blocking_poll_default\<close> of \<open>helpers.rs\<close>, and the contract of a bus as the locale
  \<open>log_bus\<close> with what those clients do on every bus that keeps it.
\<close>

section \<open>Bus ids\<close>

definition MIN_BUS_ID_LEN :: nat where "MIN_BUS_ID_LEN = 1"

definition MAX_BUS_ID_LEN :: nat where "MAX_BUS_ID_LEN = 256"

definition is_ascii_alphanumeric :: "char \<Rightarrow> bool" where
  "is_ascii_alphanumeric c \<longleftrightarrow>
     (CHR ''0'' \<le> c \<and> c \<le> CHR ''9'') \<or> (CHR ''A'' \<le> c \<and> c \<le> CHR ''Z'') \<or> (CHR ''a'' \<le> c \<and> c \<le> CHR ''z'')"

definition is_valid_bus_id_char :: "char \<Rightarrow> bool" where
  "is_valid_bus_id_char c \<longleftrightarrow>
     is_ascii_alphanumeric c \<or> c = CHR ''-'' \<or> c = CHR ''_'' \<or> c = CHR ''.'' \<or> c = CHR ''/''"

text \<open>\<open>None\<close> is the \<open>anyhow\<close> error.\<close>
definition validate_bus_id_string :: "string \<Rightarrow> unit option" where
  "validate_bus_id_string s =
     (if length s < MIN_BUS_ID_LEN \<or> MAX_BUS_ID_LEN < length s then None
      else if \<not> list_all is_valid_bus_id_char s then None
      else Some ())"

definition validate_bus_id :: "string option \<Rightarrow> bus_error + string" where
  "validate_bus_id b =
     (case b of None \<Rightarrow> Inl InvalidArgument
      | Some s \<Rightarrow> (case validate_bus_id_string s of None \<Rightarrow> Inl InvalidArgument | Some _ \<Rightarrow> Inr s))"

abbreviation valid_bus :: "string \<Rightarrow> bool" where
  "valid_bus s \<equiv> validate_bus_id_string s = Some ()"

lemma validate_bus_id_Some [simp]: "validate_bus_id (Some s) = (if valid_bus s then Inr s else Inl InvalidArgument)"
  by (simp add: validate_bus_id_def split: option.split)

lemma validate_bus_id_None [simp]: "validate_bus_id None = Inl InvalidArgument"
  by (simp add: validate_bus_id_def)

lemma validate_bus_id_OkD: "validate_bus_id b = Inr s \<Longrightarrow> b = Some s \<and> valid_bus s"
  by (cases b) (auto split: if_splits)

section \<open>Structured bus ids\<close>

record agent_bus_id =
  abi_namespace :: string
  abi_user :: string
  abi_session_id :: string
  abi_subagent_id :: "string option"

definition ensure_component :: "string \<Rightarrow> bool" where
  "ensure_component s \<longleftrightarrow> s \<noteq> [] \<and> CHR ''.'' \<notin> set s"

definition abi_try_new :: "string \<Rightarrow> string \<Rightarrow> string \<Rightarrow> string option \<Rightarrow> agent_bus_id option" where
  "abi_try_new ns user session sub =
     (if \<not> ensure_component ns then None
      else if \<not> ensure_component user then None
      else if \<not> ensure_component session then None
      else if (case sub of Some a \<Rightarrow> \<not> ensure_component a | None \<Rightarrow> False) then None
      else Some \<lparr>abi_namespace = ns, abi_user = user, abi_session_id = session, abi_subagent_id = sub\<rparr>)"

text \<open>\<open>str::split('.')\<close>: the pieces between the separators, never the empty list.\<close>
fun split_on :: "char \<Rightarrow> string \<Rightarrow> string list" where
  "split_on c [] = [[]]"
| "split_on c (x # xs) =
     (if x = c then [] # split_on c xs
      else (case split_on c xs of p # ps \<Rightarrow> (x # p) # ps | [] \<Rightarrow> [[x]]))"

text \<open>\<open>parts.next()\<close> at index \<open>i\<close>, with and without \<open>unwrap_or_default\<close>.\<close>
definition part :: "string list \<Rightarrow> nat \<Rightarrow> string option" where
  "part ps i = (if i < length ps then Some (ps ! i) else None)"

definition part_or_default :: "string list \<Rightarrow> nat \<Rightarrow> string" where
  "part_or_default ps i = (case part ps i of Some s \<Rightarrow> s | None \<Rightarrow> [])"

definition abi_parse :: "string \<Rightarrow> agent_bus_id option" where
  "abi_parse raw =
     (let ps = split_on (CHR ''.'') raw;
          ns = part_or_default ps 0; user = part_or_default ps 1; session = part_or_default ps 2
      in case (part ps 3, part ps 4, part ps 5) of
           (None, None, None) \<Rightarrow> abi_try_new ns user session None
         | (Some tag, Some sub, None) \<Rightarrow>
             if tag = ''agent'' then abi_try_new ns user session (Some sub) else None
         | _ \<Rightarrow> None)"

definition abi_to_string :: "agent_bus_id \<Rightarrow> string" where
  "abi_to_string a =
     abi_namespace a @ ''.'' @ abi_user a @ ''.'' @ abi_session_id a @
     (case abi_subagent_id a of Some s \<Rightarrow> ''.agent.'' @ s | None \<Rightarrow> [])"

lemma split_on_no_sep: "c \<notin> set s \<Longrightarrow> split_on c s = [s]"
  by (induction s) auto

lemma split_on_append: "c \<notin> set s \<Longrightarrow> split_on c (s @ c # t) = s # split_on c t"
  by (induction s) auto

lemma abi_try_new_SomeD:
  "abi_try_new ns u s sub = Some a \<Longrightarrow>
   ensure_component ns \<and> ensure_component u \<and> ensure_component s \<and> (\<forall>x. sub = Some x \<longrightarrow> ensure_component x) \<and>
   a = \<lparr>abi_namespace = ns, abi_user = u, abi_session_id = s, abi_subagent_id = sub\<rparr>"
  by (auto simp: abi_try_new_def split: if_splits option.splits)

lemma split_on_abi:
  assumes "abi_try_new ns u s sub = Some a"
  shows "split_on (CHR ''.'') (abi_to_string a) =
    [ns, u, s] @ (case sub of None \<Rightarrow> [] | Some x \<Rightarrow> [''agent'', x])"
proof -
  note c = abi_try_new_SomeD[OF assms]
  have dots: "CHR ''.'' \<notin> set ns" "CHR ''.'' \<notin> set u" "CHR ''.'' \<notin> set s"
    using c by (auto simp: ensure_component_def)
  show ?thesis
  proof (cases sub)
    case None
    then show ?thesis using c dots
      by (simp add: abi_to_string_def split_on_append split_on_no_sep)
  next
    case (Some x)
    then have "CHR ''.'' \<notin> set x" using c by (simp add: ensure_component_def)
    then have "split_on (CHR ''.'') (''agent'' @ CHR ''.'' # x) = [''agent'', x]"
      using split_on_append[of "CHR ''.''" "''agent''" x] by (simp add: split_on_no_sep)
    then show ?thesis using Some c dots
      by (simp add: abi_to_string_def split_on_append)
  qed
qed

lemma abi_parse_to_string:
  assumes "abi_try_new ns u s sub = Some a"
  shows "abi_parse (abi_to_string a) = Some a"
proof (cases sub)
  case None
  then show ?thesis
    using assms split_on_abi[OF assms]
    by (simp add: abi_parse_def part_def part_or_default_def)
next
  case (Some x)
  then show ?thesis
    using assms split_on_abi[OF assms]
    by (simp add: abi_parse_def part_def part_or_default_def)
qed

section \<open>Expiry\<close>

text \<open>Wall times are nanoseconds since the epoch; \<open>as_millis\<close> truncates.\<close>
definition as_millis :: "nat \<Rightarrow> nat" where
  "as_millis d = d div 1000000"

record ttl_check =
  tc_now :: nat
  tc_ttl :: nat

definition ttl_is_live :: "ttl_check \<Rightarrow> nat \<Rightarrow> bool" where
  "ttl_is_live c written_at \<longleftrightarrow> as_millis (tc_now c) < as_millis written_at + as_millis (tc_ttl c)"

section \<open>The environment and bus traits\<close>

text \<open>
  \<open>env_backoff upper\<close> is \<open>upper.mul_f64(environment.with_rng(|rng| rng.random_range(0.5..=1.0)))\<close>:
  the random number generator and floating-point scaling are outside the repository.
\<close>
record 'w environment =
  env_unsafe_wall_time :: "'w \<Rightarrow> nat \<times> 'w"
  env_monotonic_time :: "'w \<Rightarrow> nat \<times> 'w"
  env_sleep :: "nat \<Rightarrow> 'w \<Rightarrow> 'w"
  env_backoff :: "nat \<Rightarrow> 'w \<Rightarrow> nat \<times> 'w"

record 'w agent_bus =
  bus_append :: "append_request \<Rightarrow> ('w, bus_error, int) eff"
  bus_poll :: "poll_request \<Rightarrow> ('w, bus_error, poll_response) eff"
  bus_read_next :: "read_next_request \<Rightarrow> ('w, bus_error, read_next_response) eff"
  bus_check_tail :: "string option \<Rightarrow> ('w, bus_error, int) eff"

section \<open>Draining a range\<close>

function read_range_loop :: "'w agent_bus \<Rightarrow> string \<Rightarrow> int \<Rightarrow> int list option \<Rightarrow> int \<Rightarrow> int \<Rightarrow> bus_entry list
    \<Rightarrow> ('w, bus_error, bus_entry list \<times> int) eff" where
  "read_range_loop B bus_id stop flt cursor remaining entries w =
     (if cursor < stop \<and> 0 < remaining then
        (case bus_read_next B \<lparr>rn_bus_id = Some bus_id, rn_start_log_position = cursor,
              rn_end_log_position = stop, rn_max_entries = remaining, rn_filter = flt\<rparr> w of
           (Inl e, w') \<Rightarrow> (Inl e, w')
         | (Inr resp, w') \<Rightarrow>
             if rr_next_start_position resp \<le> cursor then (Inl Internal, w')
             else read_range_loop B bus_id stop flt (rr_next_start_position resp)
                    (wrap_i32 (remaining - wrap_i32 (int (length (rr_entries resp)))))
                    (entries @ rr_entries resp) w')
      else (Inr (entries, cursor), w))"
  by pat_completeness auto

termination read_range_loop
  by (relation "measure (\<lambda>(B, bus_id, stop, flt, cursor, r). nat (stop - cursor))") auto

declare read_range_loop.simps [simp del]

definition read_range :: "'w agent_bus \<Rightarrow> string \<Rightarrow> int \<Rightarrow> int \<Rightarrow> int \<Rightarrow> int list option
    \<Rightarrow> ('w, bus_error, bus_entry list \<times> int) eff" where
  "read_range B bus_id start stop max_entries flt = read_range_loop B bus_id stop flt start max_entries []"

section \<open>Blocking poll\<close>

record blocking_poll_response =
  bs_entries :: "bus_entry list"
  bs_next_start_position :: int

definition DEFAULT_MAX_BLOCKING_TIMEOUT_MS :: int where
  "DEFAULT_MAX_BLOCKING_TIMEOUT_MS = 30000"

definition from_millis :: "nat \<Rightarrow> nat" where
  "from_millis ms = ms * 1000000"

definition DEFAULT_POLL_INTERVAL :: nat where
  "DEFAULT_POLL_INTERVAL = from_millis 50"

text \<open>The wait loop: \<open>None\<close> is a run that never leaves it.\<close>
partial_function (option) blocking_poll_loop :: "'w agent_bus \<Rightarrow> 'w environment \<Rightarrow> blocking_poll_request
    \<Rightarrow> nat option \<Rightarrow> nat \<Rightarrow> 'w \<Rightarrow> ((bus_error + blocking_poll_response) \<times> 'w) option" where
  "blocking_poll_loop B env req interval deadline w =
     (case bus_check_tail B (bp_bus_id req) w of
        (Inl e, w1) \<Rightarrow> Some (Inl e, w1)
      | (Inr tail, w1) \<Rightarrow>
          if bp_start_log_position req < tail then
            Some (bindE (bus_read_next B \<lparr>rn_bus_id = bp_bus_id req,
                    rn_start_log_position = bp_start_log_position req, rn_end_log_position = tail,
                    rn_max_entries = bp_max_entries req, rn_filter = bp_filter req\<rparr>)
                  (\<lambda>resp. ret \<lparr>bs_entries = rr_entries resp,
                       bs_next_start_position = rr_next_start_position resp\<rparr>) w1)
          else
            (case env_monotonic_time env w1 of (now, w2) \<Rightarrow>
               if deadline \<le> now then
                 Some (Inr \<lparr>bs_entries = [], bs_next_start_position = bp_start_log_position req\<rparr>, w2)
               else blocking_poll_loop B env req interval deadline
                      (env_sleep env
                        (min (case interval of Some i \<Rightarrow> i | None \<Rightarrow> DEFAULT_POLL_INTERVAL) (deadline - now)) w2)))"

declare blocking_poll_loop.simps [code]

definition blocking_poll_default :: "'w agent_bus \<Rightarrow> 'w environment \<Rightarrow> blocking_poll_request \<Rightarrow> nat option
    \<Rightarrow> int option \<Rightarrow> 'w \<Rightarrow> ((bus_error + blocking_poll_response) \<times> 'w) option" where
  "blocking_poll_default B env req interval max_timeout_ms w =
     (if bp_timeout_ms req < 0 then Some (Inl InvalidArgument, w)
      else if bp_max_entries req \<le> 0 then Some (Inl InvalidArgument, w)
      else
        let max_ms = (case max_timeout_ms of Some m \<Rightarrow> m | None \<Rightarrow> DEFAULT_MAX_BLOCKING_TIMEOUT_MS);
            timeout_ms = min (bp_timeout_ms req) max_ms
        in (case env_monotonic_time env w of (now, w1) \<Rightarrow>
              blocking_poll_loop B env req interval (now + from_millis (as_usize timeout_ms)) w1))"

section \<open>The contract of a bus\<close>

text \<open>
  A bus keeps one growing sequence of entries per bus id.  The entry at index \<open>i\<close> has
  header position \<open>i\<close>.  Other tasks may append inside any call, so every law relates the
  world before to the world after by \<open>evolves\<close>, and an operation takes effect at some
  moment in between.  Any operation may fail; a failed append may or may not have
  written.
\<close>

definition well_numbered :: "bus_entry list \<Rightarrow> bool" where
  "well_numbered es \<longleftrightarrow>
     (\<forall>i < length es. \<exists>h. entry_header (es ! i) = Some h \<and> log_position h = int i \<and> entry_payload (es ! i) \<noteq> None)"

definition entry_matches :: "int list option \<Rightarrow> bus_entry \<Rightarrow> bool" where
  "entry_matches flt e \<longleftrightarrow>
     (case entry_payload e of Some p \<Rightarrow> payload_matches_filter p flt | None \<Rightarrow> False)"

text \<open>The entries of \<open>[start, stop)\<close>.\<close>
definition segment :: "bus_entry list \<Rightarrow> int \<Rightarrow> int \<Rightarrow> bus_entry list" where
  "segment es start stop = take (nat stop - nat start) (drop (nat start) es)"

locale log_bus =
  fixes B :: "'w agent_bus"
    and log :: "'w \<Rightarrow> string \<Rightarrow> bus_entry list"
    and inv :: "'w \<Rightarrow> bool"
    and evolves :: "'w \<Rightarrow> 'w \<Rightarrow> bool"
  assumes evolves_refl: "evolves w w"
    and evolves_trans: "evolves w w1 \<Longrightarrow> evolves w1 w2 \<Longrightarrow> evolves w w2"
    and evolves_inv: "evolves w w1 \<Longrightarrow> inv w \<Longrightarrow> inv w1"
    and evolves_log: "evolves w w1 \<Longrightarrow> inv w \<Longrightarrow> prefix (log w b) (log w1 b)"
    and log_numbered: "inv w \<Longrightarrow> well_numbered (log w b)"
    and append_evolves: "moves evolves (bus_append B req)"
    and append_law: "inv w \<Longrightarrow> bus_append B \<lparr>ar_bus_id = Some b, ar_payload = Some p\<rparr> w = (Inr pos, w') \<Longrightarrow>
        int (length (log w b)) \<le> pos \<and> pos < int (length (log w' b)) \<and>
        entry_payload (log w' b ! nat pos) = Some p"
    and tail_evolves: "moves evolves (bus_check_tail B bid)"
    and tail_law: "inv w \<Longrightarrow> bus_check_tail B (Some b) w = (Inr t, w') \<Longrightarrow>
        int (length (log w b)) \<le> t \<and> t \<le> int (length (log w' b))"
    and read_evolves: "moves evolves (bus_read_next B req2)"
    and read_law: "inv w \<Longrightarrow> rn_bus_id req2 = Some b \<Longrightarrow> 0 \<le> rn_start_log_position req2 \<Longrightarrow>
        rn_start_log_position req2 < rn_end_log_position req2 \<Longrightarrow>
        rn_end_log_position req2 \<le> int (length (log w b)) \<Longrightarrow>
        bus_read_next B req2 w = (Inr resp, w') \<Longrightarrow>
        rn_start_log_position req2 < rr_next_start_position resp \<and>
        rr_next_start_position resp \<le> rn_end_log_position req2 \<and>
        int (length (rr_entries resp)) \<le> rn_max_entries req2 \<and>
        rr_entries resp = filter (entry_matches (rn_filter req2))
          (segment (log w b) (rn_start_log_position req2) (rr_next_start_position resp))"

lemma segment_append:
  assumes "0 \<le> a" "a \<le> b" "b \<le> c"
  shows "segment es a b @ segment es b c = segment es a c"
proof -
  have *: "nat a \<le> nat b" "nat b \<le> nat c" using assms by auto
  have "take (nat c - nat a) (drop (nat a) es) =
      take (nat b - nat a) (drop (nat a) es) @ take (nat c - nat b) (drop (nat b - nat a) (drop (nat a) es))"
    using take_add[of "nat b - nat a" "nat c - nat b" "drop (nat a) es"] * by simp
  then show ?thesis using * by (simp add: segment_def)
qed

lemma segment_prefix:
  assumes "prefix xs ys" "b \<le> int (length xs)"
  shows "segment ys a b = segment xs a b"
  using assms by (auto simp: segment_def prefix_def)

lemma segment_empty [simp]: "segment es a a = []"
  by (simp add: segment_def)

lemma segment_Cons:
  assumes "k < n" "n \<le> length es"
  shows "segment es (int k) (int n) = es ! k # segment es (int (Suc k)) (int n)"
  using take_drop_nth[OF assms] by (simp add: segment_def nat_add_distrib)

lemma segment_nth:
  assumes "0 \<le> a" "b \<le> int (length es)" "i < length (segment es a b)"
  shows "segment es a b ! i = es ! (nat a + i)"
  using assms by (simp add: segment_def)

lemma segment_length [simp]:
  assumes "0 \<le> a" "a \<le> b" "b \<le> int (length es)"
  shows "int (length (segment es a b)) = b - a"
  using assms by (auto simp: segment_def)

lemma moves_read_range_loop:
  assumes "reflp R" "transp R" "\<And>req. moves R (bus_read_next B req)"
  shows "moves R (read_range_loop B b stop flt cursor remaining acc)"
proof -
  have "R w (snd (read_range_loop B b stop flt cursor remaining acc w))" for w
    using assms
  proof (induction B b stop flt cursor remaining acc w rule: read_range_loop.induct)
    case (1 B b stop flt cursor remaining acc w)
    let ?req = "\<lparr>rn_bus_id = Some b, rn_start_log_position = cursor, rn_end_log_position = stop,
      rn_max_entries = remaining, rn_filter = flt\<rparr>"
    have step: "R w w1" if "bus_read_next B ?req w = (r, w1)" for r w1
      using 1(4) that by (rule movesD)
    show ?case
    proof (cases "bus_read_next B ?req w")
      case (Pair r w1)
      have refl: "R w w" using 1(2) by (rule reflpD)
      show ?thesis
      proof (cases "cursor < stop \<and> 0 < remaining \<and> (\<exists>resp. r = Inr resp \<and> cursor < rr_next_start_position resp)")
        case True
        then obtain resp where r: "r = Inr resp" "\<not> rr_next_start_position resp \<le> cursor" by auto
        have c: "cursor < stop \<and> 0 < remaining" using True by blast
        show ?thesis
          using transpD[OF 1(3) step[OF Pair] 1(1)[OF c Pair[symmetric] r 1(2-4)]] Pair r c
          by (simp add: read_range_loop.simps[of _ _ _ _ cursor remaining acc w])
      next
        case False
        then show ?thesis
          using Pair refl step[OF Pair]
          by (auto simp: read_range_loop.simps[of _ _ _ _ cursor remaining acc w] split: sum.split)
      qed
    qed
  qed
  then show ?thesis by (simp add: moves_def)
qed

context log_bus
begin

lemma evolves_inv_log:
  assumes "inv w" "evolves w w'"
  shows "inv w'" "prefix (log w b) (log w' b)" "length (log w b) \<le> length (log w' b)"
  using assms evolves_inv evolves_log by (auto simp: prefix_length_le)

lemma log_nth_stable:
  assumes "inv w" "evolves w w'" "i < length (log w b)"
  shows "log w' b ! i = log w b ! i"
  using evolves_log[OF assms(2,1), of b] assms(3) by (auto simp: prefix_def nth_append)

lemma evolves_reflp_transp: "reflp evolves" "transp evolves"
  using evolves_refl evolves_trans by (auto intro: reflpI transpI)

lemma read_range_loop_evolves: "moves evolves (read_range_loop B b stop flt cursor remaining acc)"
  using moves_read_range_loop[OF evolves_reflp_transp read_evolves] .

text \<open>What a drain of \<open>[cursor, stop)\<close> returns: the matching entries up to the final cursor, and it
  stops early only with as many entries as were asked for.\<close>
lemma read_range_loop_sound:
  assumes "inv w" "0 \<le> cursor" "cursor \<le> stop" "stop \<le> int (length (log w b))"
    and "0 < remaining" "remaining < 2 ^ 31"
    and "read_range_loop B b stop flt cursor remaining acc w = (Inr (es, c), w')"
  shows "cursor \<le> c \<and> c \<le> stop \<and> es = acc @ filter (entry_matches flt) (segment (log w b) cursor c) \<and>
    int (length es) \<le> int (length acc) + remaining \<and>
    (c = stop \<or> int (length es) = int (length acc) + remaining)"
  using assms
proof (induction "nat (stop - cursor)" arbitrary: cursor remaining acc w rule: less_induct)
  case less
  let ?req = "\<lparr>rn_bus_id = Some b, rn_start_log_position = cursor, rn_end_log_position = stop,
      rn_max_entries = remaining, rn_filter = flt\<rparr>"
  show ?case
  proof (cases "cursor < stop")
    case False
    then show ?thesis
      using less.prems by (auto simp: read_range_loop.simps[of _ _ _ _ _ remaining acc w])
  next
    case True
    obtain resp w1 where call: "bus_read_next B ?req w = (Inr resp, w1)"
      and adv: "\<not> rr_next_start_position resp \<le> cursor"
      and rest: "read_range_loop B b stop flt (rr_next_start_position resp)
          (wrap_i32 (remaining - wrap_i32 (int (length (rr_entries resp))))) (acc @ rr_entries resp) w1
          = (Inr (es, c), w')"
      using less.prems True
      by (auto simp: read_range_loop.simps[of _ _ _ _ cursor remaining acc w] split: prod.splits sum.splits if_splits)
    have ev: "evolves w w1" using read_evolves call by (rule movesD)
    have grown: "inv w1" "prefix (log w b) (log w1 b)" "length (log w b) \<le> length (log w1 b)"
      using evolves_inv_log[OF less.prems(1) ev] by auto
    have law: "cursor < rr_next_start_position resp" "rr_next_start_position resp \<le> stop"
      "int (length (rr_entries resp)) \<le> remaining"
      "rr_entries resp = filter (entry_matches flt) (segment (log w b) cursor (rr_next_start_position resp))"
      using read_law[OF less.prems(1) _ _ _ _ call, of b] less.prems True by auto
    let ?n = "rr_next_start_position resp" and ?r = "remaining - int (length (rr_entries resp))"
    have wr: "wrap_i32 (remaining - wrap_i32 (int (length (rr_entries resp)))) = ?r"
      using law(3) less.prems(5,6) by simp
    have seg: "segment (log w b) cursor ?n @ segment (log w1 b) ?n c' = segment (log w b) cursor c'"
      if "?n \<le> c'" "c' \<le> stop" for c'
      using that law less.prems segment_prefix[OF grown(2), of c'] segment_append[of cursor ?n c' "log w b"]
      by simp
    show ?thesis
    proof (cases "0 < ?r")
      case True
      have "?n \<le> c \<and> c \<le> stop \<and>
          es = (acc @ rr_entries resp) @ filter (entry_matches flt) (segment (log w1 b) ?n c) \<and>
          int (length es) \<le> int (length (acc @ rr_entries resp)) + ?r \<and>
          (c = stop \<or> int (length es) = int (length (acc @ rr_entries resp)) + ?r)"
        by (rule less.hyps) (use True rest wr law less.prems grown in auto)
      then show ?thesis using law(1,4) seg[of c] by (auto simp flip: filter_append)
    next
      case False
      then have "es = acc @ rr_entries resp" "c = ?n" "?r = 0"
        using rest wr law(3) by (auto simp: read_range_loop.simps)
      then show ?thesis using law by auto
    qed
  qed
qed

lemma read_range_sound:
  assumes "inv w" "0 \<le> start" "start \<le> stop" "stop \<le> int (length (log w b))"
    and "0 < max_entries" "max_entries < 2 ^ 31"
    and "read_range B b start stop max_entries flt w = (Inr (es, c), w')"
  shows "start \<le> c" "c \<le> stop" "es = filter (entry_matches flt) (segment (log w b) start c)"
    "int (length es) \<le> max_entries" "c = stop \<or> int (length es) = max_entries"
  using read_range_loop_sound[OF assms(1-6), of flt "[]" es c w'] assms(7) by (auto simp: read_range_def)

lemma read_range_progress:
  assumes "inv w" "0 \<le> start" "start < stop" "stop \<le> int (length (log w b))"
    and "0 < max_entries" "max_entries < 2 ^ 31"
    and "read_range B b start stop max_entries flt w = (Inr (es, c), w')"
  shows "start < c"
proof (rule ccontr)
  assume "\<not> start < c"
  with read_range_sound[OF assms(1,2) less_imp_le[OF assms(3)] assms(4-7)]
  have "c = start" "es = []" "int (length es) = max_entries" using assms(3) by auto
  then show False using assms(5) by simp
qed

end

section \<open>Draining succeeds when reads do\<close>

text \<open>A log on which a well-formed read of a range inside the log does not fail.\<close>
locale readable_log_bus = log_bus +
  assumes read_succeeds: "inv w \<Longrightarrow> valid_bus b \<Longrightarrow> rn_bus_id req2 = Some b \<Longrightarrow> 0 \<le> rn_start_log_position req2 \<Longrightarrow>
      rn_start_log_position req2 < rn_end_log_position req2 \<Longrightarrow>
      rn_end_log_position req2 \<le> int (length (log w b)) \<Longrightarrow> 0 < rn_max_entries req2 \<Longrightarrow> rn_filter req2 \<noteq> Some [] \<Longrightarrow>
      \<exists>resp w'. bus_read_next B req2 w = (Inr resp, w')"
begin

lemma read_range_loop_returns:
  assumes "valid_bus b" "flt \<noteq> Some []" "inv w" "0 \<le> cursor" "stop \<le> int (length (log w b))" "remaining < 2 ^ 31"
  shows "\<exists>es c w'. read_range_loop B b stop flt cursor remaining acc w = (Inr (es, c), w')"
  using assms(3-)
proof (induction "nat (stop - cursor)" arbitrary: cursor remaining acc w rule: less_induct)
  case less
  let ?req = "\<lparr>rn_bus_id = Some b, rn_start_log_position = cursor, rn_end_log_position = stop,
      rn_max_entries = remaining, rn_filter = flt\<rparr>"
  show ?case
  proof (cases "cursor < stop \<and> 0 < remaining")
    case False
    then show ?thesis by (auto simp: read_range_loop.simps[of _ _ _ _ _ remaining acc w])
  next
    case True
    obtain resp w1 where call: "bus_read_next B ?req w = (Inr resp, w1)"
      using read_succeeds[OF less.prems(1) assms(1), of ?req] less.prems True assms(2) by auto
    have ev: "evolves w w1" using read_evolves call by (rule movesD)
    note grown = evolves_inv_log[OF less.prems(1) ev]
    have law: "cursor < rr_next_start_position resp" "int (length (rr_entries resp)) \<le> remaining"
      using read_law[OF less.prems(1) _ _ _ _ call, of b] less.prems True by auto
    have "\<exists>es c w'. read_range_loop B b stop flt (rr_next_start_position resp)
        (wrap_i32 (remaining - wrap_i32 (int (length (rr_entries resp))))) (acc @ rr_entries resp) w1 = (Inr (es, c), w')"
      by (rule less.hyps) (use law True less.prems grown(1) grown(3)[of b] in auto)
    then show ?thesis using True call law by (subst read_range_loop.simps) simp
  qed
qed

lemma read_range_returns:
  assumes "valid_bus b" "flt \<noteq> Some []" "inv w" "0 \<le> start" "start \<le> stop" "stop \<le> int (length (log w b))"
    and "0 < max_entries" "max_entries < 2 ^ 31"
  shows "\<exists>es c w'. read_range B b start stop max_entries flt w = (Inr (es, c), w') \<and> start \<le> c \<and> c \<le> stop \<and>
    es = filter (entry_matches flt) (segment (log w b) start c) \<and>
    int (length es) \<le> max_entries \<and> (c = stop \<or> int (length es) = max_entries)"
  using read_range_loop_returns[OF assms(1-4,6,8), of "[]"] read_range_sound[OF assms(3-8)]
  unfolding read_range_def by metis

end

section \<open>Printing and parsing bus ids are inverse\<close>

text \<open>Rust's \<open>join\<close> of the pieces with one separator character.\<close>
fun join_on :: "char \<Rightarrow> string list \<Rightarrow> string" where
  "join_on c [] = []"
| "join_on c [p] = p"
| "join_on c (p # q # ps) = p @ c # join_on c (q # ps)"

lemma split_on_nonempty: "split_on c s \<noteq> []"
  by (induction s) (auto split: list.splits)

lemma join_split: "join_on c (split_on c s) = s"
proof (induction s)
  case (Cons x xs)
  obtain p ps where ps: "split_on c xs = p # ps" using split_on_nonempty by (meson neq_Nil_conv)
  then show ?case using Cons by (cases ps) auto
qed simp

lemma abi_parse_SomeD:
  assumes "abi_parse raw = Some a"
  shows "abi_to_string a = raw \<and> abi_try_new (abi_namespace a) (abi_user a) (abi_session_id a) (abi_subagent_id a) = Some a"
proof -
  let ?ps = "split_on (CHR ''.'') raw"
  consider "part ?ps 3 = None" | tag sub where "part ?ps 3 = Some tag" "part ?ps 4 = Some sub" "part ?ps 5 = None" "tag = ''agent''"
    using assms by (auto simp: abi_parse_def Let_def split: option.splits if_splits)
  then show ?thesis
  proof cases
    case 1
    then have t: "abi_try_new (part_or_default ?ps 0) (part_or_default ?ps 1) (part_or_default ?ps 2) None = Some a"
      using assms by (auto simp: abi_parse_def Let_def split: option.splits)
    note c = abi_try_new_SomeD[OF t]
    have "length ?ps = 3"
    proof -
      have "part_or_default ?ps 2 \<noteq> []" using c by (simp add: ensure_component_def)
      then have "2 < length ?ps" by (rule contrapos_np) (simp add: part_or_default_def Bus_Api.part_def)
      moreover have "\<not> 3 < length ?ps" using 1 by (simp add: Bus_Api.part_def split: if_splits)
      ultimately show ?thesis by simp
    qed
    then obtain x y z where ps: "?ps = [x, y, z]" by (auto simp: eval_nat_numeral length_Suc_conv)
    then have "raw = x @ CHR ''.'' # y @ CHR ''.'' # z" using join_split[of "CHR ''.''" raw] by simp
    then show ?thesis using c t ps by (auto simp: abi_to_string_def part_or_default_def Bus_Api.part_def)
  next
    case (2 tag sub)
    then have t: "abi_try_new (part_or_default ?ps 0) (part_or_default ?ps 1) (part_or_default ?ps 2) (Some sub) = Some a"
      using assms by (auto simp: abi_parse_def Let_def split: option.splits)
    note c = abi_try_new_SomeD[OF t]
    have "4 < length ?ps" "\<not> 5 < length ?ps" using 2 by (auto simp: Bus_Api.part_def split: if_splits)
    then have "length ?ps = 5" by simp
    then obtain x y z u v where ps: "?ps = [x, y, z, u, v]" by (auto simp: eval_nat_numeral length_Suc_conv)
    then have "raw = x @ CHR ''.'' # y @ CHR ''.'' # z @ CHR ''.'' # u @ CHR ''.'' # v" using join_split[of "CHR ''.''" raw] by simp
    then show ?thesis using c t ps 2 by (auto simp: abi_to_string_def part_or_default_def Bus_Api.part_def)
  qed
qed

text \<open>
  C27. A raw string parses to a structured bus id exactly when it is the printed form of an id that
  the constructor accepts: parsing and printing are inverse in both directions.
\<close>
theorem bus_id_parse_print:
  "abi_parse raw = Some a \<longleftrightarrow> raw = abi_to_string a \<and>
     abi_try_new (abi_namespace a) (abi_user a) (abi_session_id a) (abi_subagent_id a) = Some a"
  using abi_parse_SomeD[of raw a] abi_parse_to_string by blast

end
