(* ===== verification/Retry.thy ===== *)
theory Retry
  imports Bus_Api
begin

text \<open>
  \<open>bus/api/src/retry.rs\<close>: bounded retries with equal-jitter exponential backoff.  The
  operation's state is the world together with whatever its \<open>FnMut\<close> closure captures;
  the classifier has its own state, as \<open>Decide: FnMut(&Err) -> RetryDecision\<close> may.
  Durations are nanoseconds.
\<close>

record retry_config =
  rc_max_retries :: nat
  rc_initial_backoff :: nat
  rc_max_backoff :: nat

text \<open>\<open>RetryConfig::try_new\<close>; \<open>None\<close> is the \<open>anyhow\<close> error.\<close>
definition retry_config_try_new :: "nat \<Rightarrow> nat \<Rightarrow> nat \<Rightarrow> retry_config option" where
  "retry_config_try_new max_retries initial_backoff max_backoff =
     (if initial_backoff = 0 then None
      else if max_backoff < initial_backoff then None
      else Some \<lparr>rc_max_retries = max_retries, rc_initial_backoff = initial_backoff, rc_max_backoff = max_backoff\<rparr>)"

datatype retry_decision = Stop | RetryImmediately | RetryWithBackoff

datatype 'e retry_failure = Stopped (stopped_error: 'e) | Exhausted (exhausted_retries: nat) (exhausted_error: 'e)

fun into_last_error :: "'e retry_failure \<Rightarrow> 'e" where
  "into_last_error (Stopped e) = e"
| "into_last_error (Exhausted _ e) = e"

text \<open>\<open>Duration::MAX\<close>, where \<open>saturating_mul\<close> stops.\<close>
definition DURATION_MAX :: nat where
  "DURATION_MAX = (2 ^ 64 - 1) * 1000000000 + 999999999"

definition next_backoff :: "retry_config \<Rightarrow> nat \<Rightarrow> nat" where
  "next_backoff cfg upper = min (min (upper * 2) DURATION_MAX) (rc_max_backoff cfg)"

text \<open>
  The loop, with the retries still allowed as the structural argument: \<open>retries == max_retries\<close>
  is \<open>left = 0\<close>.
\<close>
fun retry_loop :: "'w environment \<Rightarrow> retry_config \<Rightarrow> ('w, 'e, 'a) eff \<Rightarrow> ('e \<Rightarrow> 'd \<Rightarrow> retry_decision \<times> 'd)
    \<Rightarrow> nat \<Rightarrow> nat \<Rightarrow> 'd \<Rightarrow> ('w, 'e retry_failure, 'a) eff" where
  "retry_loop env cfg operation decide left upper d w =
     (case operation w of
        (Inr result, w1) \<Rightarrow> (Inr result, w1)
      | (Inl e, w1) \<Rightarrow>
          (case decide e d of (decision, d1) \<Rightarrow>
             if decision = Stop then (Inl (Stopped e), w1)
             else
               (case left of
                  0 \<Rightarrow> (Inl (Exhausted (rc_max_retries cfg) e), w1)
                | Suc left' \<Rightarrow>
                    if decision = RetryImmediately then retry_loop env cfg operation decide left' upper d1 w1
                    else
                      (case env_backoff env upper w1 of (scaled, w2) \<Rightarrow>
                         retry_loop env cfg operation decide left' (next_backoff cfg upper) d1
                           (env_sleep env (max scaled 1) w2)))))"

declare retry_loop.simps [simp del]

definition retry :: "'w environment \<Rightarrow> retry_config \<Rightarrow> ('w, 'e, 'a) eff \<Rightarrow> ('e \<Rightarrow> 'd \<Rightarrow> retry_decision \<times> 'd)
    \<Rightarrow> 'd \<Rightarrow> ('w, 'e retry_failure, 'a) eff" where
  "retry env cfg operation decide d =
     retry_loop env cfg operation decide (rc_max_retries cfg) (rc_initial_backoff cfg) d"

text \<open>An environment on the world, used by an operation that also threads captured variables.\<close>
definition lift_env :: "'w environment \<Rightarrow> ('w \<times> 'c) environment" where
  "lift_env env = \<lparr>env_unsafe_wall_time = (\<lambda>(w, c). case env_unsafe_wall_time env w of (t, w') \<Rightarrow> (t, (w', c))),
     env_monotonic_time = (\<lambda>(w, c). case env_monotonic_time env w of (t, w') \<Rightarrow> (t, (w', c))),
     env_sleep = (\<lambda>d (w, c). (env_sleep env d w, c)),
     env_backoff = (\<lambda>u (w, c). case env_backoff env u w of (t, w') \<Rightarrow> (t, (w', c)))\<rparr>"

text \<open>An effect on the world, lifted to the world with captured variables.\<close>
definition on_world :: "('w, 'e, 'a) eff \<Rightarrow> ('w \<times> 'c, 'e, 'a) eff" where
  "on_world m = (\<lambda>(w, c). case m w of (r, w') \<Rightarrow> (r, (w', c)))"

section \<open>Lemmas\<close>

lemma wp_on_world [wp_rules]:
  "wp (on_world m) Q E s = wp m (\<lambda>a w'. Q a (w', snd s)) (\<lambda>e w'. E e (w', snd s)) (fst s)"
  by (cases s) (simp add: wp_def on_world_def split: prod.split sum.split)

lemma lift_env_simps [simp]:
  "env_sleep (lift_env env) d (w, c) = (env_sleep env d w, c)"
  "snd (env_backoff (lift_env env) u (w, c)) = (snd (env_backoff env u w), c)"
  by (simp_all add: lift_env_def split: prod.split)

lemma next_backoff_bound: "next_backoff cfg upper \<le> rc_max_backoff cfg"
  by (simp add: next_backoff_def)

text \<open>
  A loop rule: an invariant \<open>I\<close> of the world that the operation and the environment keep, with what
  the operation establishes on success and on failure.
\<close>
lemma wp_retry_loop:
  assumes I: "I w"
    and op: "\<And>w. I w \<Longrightarrow> wp operation Q (\<lambda>e w'. I w' \<and> P e w') w"
    and sleep: "\<And>w d. I w \<Longrightarrow> I (env_sleep env d w)"
    and backoff: "\<And>w u. I w \<Longrightarrow> I (snd (env_backoff env u w))"
  shows "wp (retry_loop env cfg operation decide left upper d) Q (\<lambda>f w'. I w' \<and> P (into_last_error f) w') w"
  using I
proof (induction left arbitrary: upper d w)
  case 0
  from op[OF 0] show ?case
    by (auto simp: wp_def retry_loop.simps[of _ _ _ _ 0] split: prod.splits sum.splits)
next
  case (Suc left)
  show ?case
  proof (cases "operation w")
    case (Pair r w1)
    show ?thesis
    proof (cases r)
      case (Inr a)
      with Pair op[OF Suc.prems] show ?thesis by (simp add: wp_def retry_loop.simps)
    next
      case (Inl e)
      with Pair op[OF Suc.prems] have E: "I w1" "P e w1" by (simp_all add: wp_def)
      obtain dec d1 where dec: "decide e d = (dec, d1)" by fastforce
      obtain sc w2 where bo: "env_backoff env upper w1 = (sc, w2)" by fastforce
      have "I w2" using backoff[OF E(1), of upper] bo by simp
      then have "I (env_sleep env (max sc 1) w2)" by (rule sleep)
      from Suc.IH[OF this] Suc.IH[OF E(1)] E show ?thesis
        by (cases dec) (simp_all add: wp_def retry_loop.simps[of _ _ _ _ "Suc left"] Pair Inl dec bo)
    qed
  qed
qed

lemma wp_retry:
  assumes "I w" "\<And>w. I w \<Longrightarrow> wp operation Q (\<lambda>e w'. I w' \<and> P e w') w"
    and "\<And>w d. I w \<Longrightarrow> I (env_sleep env d w)" "\<And>w u. I w \<Longrightarrow> I (snd (env_backoff env u w))"
  shows "wp (retry env cfg operation decide d) Q (\<lambda>f w'. I w' \<and> P (into_last_error f) w') w"
  unfolding retry_def using assms by (rule wp_retry_loop)

lemma moves_retry_loop:
  assumes "reflp R" "transp R" "moves R operation"
    and "\<And>d w. R w (env_sleep env d w)" "\<And>u w. R w (snd (env_backoff env u w))"
  shows "moves R (retry_loop env cfg operation decide left upper d)"
proof -
  have "wp (retry_loop env cfg operation decide left upper d) (\<lambda>_. R w) (\<lambda>f w'. R w w' \<and> True) w" for w
  proof (rule wp_retry_loop[where P = "\<lambda>_ _. True"])
    show "R w w" using assms(1) by (rule reflpD)
    show "wp operation (\<lambda>_. R w) (\<lambda>e w'. R w w' \<and> True) w1" if "R w w1" for w1
      using moves_wp[OF assms(3), of w1] by (rule wp_mono) (use that assms(2) in \<open>auto dest: transpD\<close>)
  qed (use assms(2,4,5) in \<open>blast dest: transpD\<close>)+
  then show ?thesis by (intro movesI_wp) simp
qed

lemma moves_retry:
  assumes "reflp R" "transp R" "moves R operation"
    and "\<And>d w. R w (env_sleep env d w)" "\<And>u w. R w (snd (env_backoff env u w))"
  shows "moves R (retry env cfg operation decide d)"
  unfolding retry_def using assms by (rule moves_retry_loop)

text \<open>The number of operation calls, counted in the closure state, never exceeds one more than the limit.\<close>

definition counted :: "('w, 'e, 'a) eff \<Rightarrow> ('w \<times> nat, 'e, 'a) eff" where
  "counted m = (\<lambda>(w, n). case m w of (r, w') \<Rightarrow> (r, (w', Suc n)))"

lemma retry_loop_count:
  "n < snd (snd (retry_loop (lift_env env) cfg (counted operation) decide left upper d (w, n))) \<and>
   snd (snd (retry_loop (lift_env env) cfg (counted operation) decide left upper d (w, n))) \<le> n + Suc left"
proof (induction left arbitrary: upper d w n)
  case 0
  show ?case
    by (subst (1 2) retry_loop.simps) (auto simp: counted_def split: prod.split sum.split)
next
  case (Suc left)
  let ?env = "lift_env env :: (_ \<times> nat) environment"
  have IH: "n < snd (snd (retry_loop ?env cfg (counted operation) decide left u d' (w', Suc n))) \<and>
      snd (snd (retry_loop ?env cfg (counted operation) decide left u d' (w', Suc n))) \<le> n + Suc (Suc left)"
    for u d' w'
    using Suc.IH[where n = "Suc n" and upper = u and d = d' and w = w'] by simp
  have sleep: "env_sleep ?env x (w', m) = (env_sleep env x w', m)" for x w' m by (simp add: lift_env_def)
  have backoff: "env_backoff ?env u (w', m) = (fst (env_backoff env u w'), (snd (env_backoff env u w'), m))" for u w' m
    by (simp add: lift_env_def split: prod.split)
  obtain r w1 where op: "operation w = (r, w1)" by fastforce
  show ?case
  proof (cases r)
    case (Inr a)
    then show ?thesis by (simp add: retry_loop.simps[of _ _ _ _ "Suc left"] counted_def op)
  next
    case (Inl e)
    obtain dec d1 where "decide e d = (dec, d1)" by fastforce
    then show ?thesis
      using IH by (cases dec) (simp_all add: retry_loop.simps[of _ _ _ _ "Suc left"] counted_def op Inl sleep backoff)
  qed
qed

text \<open>
  A retried operation is called at least once and at most once more than the configured number of
  retries, whatever it returns and whatever the policy decides.
\<close>
theorem retry_attempts_bounded:
  "1 \<le> snd (snd (retry (lift_env env) cfg (counted operation) decide d (w, 0))) \<and>
   snd (snd (retry (lift_env env) cfg (counted operation) decide d (w, 0))) \<le> rc_max_retries cfg + 1"
  using retry_loop_count[of 0 env cfg operation decide "rc_max_retries cfg" "rc_initial_backoff cfg" d w]
  by (simp add: retry_def)

end
