(* ===== verification/Memory_Bus.thy ===== *)
theory Memory_Bus
  imports Bus_Api
begin

text \<open>
  The in-memory bus: \<open>bus/impls/simple/src/in_memory_agentbus_state.rs\<close> (the map from bus id
  to its stored entries and the operations on it) and \<open>in_memory_agentbus.rs\<close> (the service
  around it: argument validation, timestamps, expiry), over a world that also holds the
  simulator's logical clock (\<open>bus/simulator/src/lib.rs\<close>).  The theory discharges the
  \<open>log_bus\<close> contract for it.

  A \<open>Vec\<close> never holds more than \<open>isize::MAX\<close> bytes, so \<open>len() as i64\<close> is exact and positions
  are plain integers here.
\<close>

section \<open>State\<close>

record stored_entry =
  se_entry :: bus_entry
  se_written_at :: "nat option"

type_synonym buses = "string \<rightharpoonup> stored_entry list"

definition MAX_POLL_ENTRIES :: nat where "MAX_POLL_ENTRIES = 64"

definition stored_is_live :: "stored_entry \<Rightarrow> ttl_check option \<Rightarrow> bool" where
  "stored_is_live s chk =
     (case (se_written_at s, chk) of (Some t, Some c) \<Rightarrow> ttl_is_live c t | _ \<Rightarrow> True)"

definition state_append :: "buses \<Rightarrow> append_request \<Rightarrow> int \<Rightarrow> nat option \<Rightarrow> (bus_error + int) \<times> buses" where
  "state_append bs req ts written_at =
     (case validate_bus_id (ar_bus_id req) of
        Inl e \<Rightarrow> (Inl e, bs)
      | Inr bus_id \<Rightarrow>
          (case ar_payload req of
             None \<Rightarrow> (Inl InvalidArgument, bs)
           | Some p \<Rightarrow>
               let bus = (case bs bus_id of Some b \<Rightarrow> b | None \<Rightarrow> []);
                   position = int (length bus);
                   entry = \<lparr>entry_header = Some \<lparr>log_position = position, rt_timestamp_ms = ts\<rparr>,
                            entry_payload = Some p\<rparr>
               in (Inr position, bs(bus_id \<mapsto> bus @ [\<lparr>se_entry = entry, se_written_at = written_at\<rparr>]))))"

text \<open>The scan of \<open>fetch_entries\<close> with the entries collected so far.\<close>
fun fetch_scan :: "ttl_check option \<Rightarrow> int list option \<Rightarrow> nat \<Rightarrow> bus_entry list \<Rightarrow> stored_entry list
    \<Rightarrow> bus_error + bus_entry list \<times> bool" where
  "fetch_scan chk flt max_entries acc [] = Inr (acc, True)"
| "fetch_scan chk flt max_entries acc (s # ss) =
     (if \<not> stored_is_live s chk then Inl PositionNotFound
      else
        (case entry_payload (se_entry s) of
           None \<Rightarrow> fetch_scan chk flt max_entries acc ss
         | Some p \<Rightarrow>
             if \<not> payload_matches_filter p flt then fetch_scan chk flt max_entries acc ss
             else if max_entries \<le> length acc then Inr (acc, False)
             else fetch_scan chk flt max_entries (acc @ [se_entry s]) ss))"

definition fetch_entries :: "buses \<Rightarrow> string \<Rightarrow> int \<Rightarrow> nat \<Rightarrow> int list option \<Rightarrow> ttl_check option
    \<Rightarrow> bus_error + bus_entry list \<times> bool" where
  "fetch_entries bs bus_id start max_entries flt chk =
     (case bs bus_id of
        None \<Rightarrow> Inr ([], True)
      | Some bus \<Rightarrow>
          let start_idx = nat (max start 0);
              slice = (if start_idx < length bus then drop start_idx bus else [])
          in if flt = Some [] then Inr ([], True)
             else fetch_scan chk flt max_entries [] slice)"

definition state_poll :: "buses \<Rightarrow> poll_request \<Rightarrow> ttl_check option \<Rightarrow> bus_error + poll_response" where
  "state_poll bs req chk =
     (case validate_bus_id (pr_bus_id req) of
        Inl e \<Rightarrow> Inl e
      | Inr bus_id \<Rightarrow>
          (case fetch_entries bs bus_id (pr_start_log_position req)
                  (min (as_usize (pr_max_entries req)) MAX_POLL_ENTRIES) (pr_filter req) chk of
             Inl e \<Rightarrow> Inl e
           | Inr (es, complete) \<Rightarrow> Inr \<lparr>ps_entries = es, ps_complete = complete\<rparr>))"

definition get_tail :: "buses \<Rightarrow> string \<Rightarrow> int" where
  "get_tail bs bus_id = (case bs bus_id of None \<Rightarrow> 0 | Some bus \<Rightarrow> int (length bus))"

text \<open>The loop of \<open>read_filtered_entries\<close> over the slice, with the entries collected so far.\<close>
fun read_scan :: "ttl_check option \<Rightarrow> int list option \<Rightarrow> nat \<Rightarrow> int \<Rightarrow> bus_entry list \<Rightarrow> stored_entry list
    \<Rightarrow> bus_error + bus_entry list \<times> int" where
  "read_scan chk flt max_entries stop acc [] = Inr (acc, stop)"
| "read_scan chk flt max_entries stop acc (s # ss) =
     (if \<not> stored_is_live s chk then Inl PositionNotFound
      else
        (case entry_payload (se_entry s) of
           None \<Rightarrow> read_scan chk flt max_entries stop acc ss
         | Some p \<Rightarrow>
             if \<not> payload_matches_filter p flt then read_scan chk flt max_entries stop acc ss
             else
               let acc' = acc @ [se_entry s] in
               if max_entries \<le> length acc' then
                 (case entry_header (se_entry s) of
                    None \<Rightarrow> Inl PositionNotFound
                  | Some h \<Rightarrow> Inr (acc', log_position h + 1))
               else read_scan chk flt max_entries stop acc' ss))"

text \<open>The slice \<open>&bus[start_idx..end_idx]\<close> panics when the start is beyond the end.\<close>
definition read_filtered_entries :: "buses \<Rightarrow> string \<Rightarrow> int \<Rightarrow> nat \<Rightarrow> int list option \<Rightarrow> int
    \<Rightarrow> ttl_check option \<Rightarrow> bus_error + bus_entry list \<times> int" where
  "read_filtered_entries bs bus_id start max_entries flt stop chk =
     (if stop < start then Inl Internal
      else if start = stop then Inr ([], stop)
      else
        (case bs bus_id of
           None \<Rightarrow> Inr ([], stop)
         | Some bus \<Rightarrow>
             let start_idx = as_usize start; end_idx = min (as_usize stop) (length bus)
             in if end_idx < start_idx then Inl Panicked
                else read_scan chk flt max_entries stop [] (take (end_idx - start_idx) (drop start_idx bus))))"

section \<open>The service\<close>

record mem_world =
  mw_buses :: buses
  mw_elapsed :: nat
  mw_noise :: "int list"

text \<open>The fields of \<open>InMemoryAgentBus\<close> beside the shared state: its environment and expiry.\<close>
record 'w mem_bus =
  mb_environment :: "'w environment"
  mb_ttl :: "nat option"

definition mem_check :: "('w::type) mem_bus \<Rightarrow> 'w \<Rightarrow> ttl_check option \<times> 'w" where
  "mem_check mb w =
     (case mb_ttl mb of
        None \<Rightarrow> (None, w)
      | Some ttl \<Rightarrow> (case env_unsafe_wall_time (mb_environment mb) w of (now, w') \<Rightarrow>
          (Some \<lparr>tc_now = now, tc_ttl = ttl\<rparr>, w')))"

definition mem_append :: "'z mem_world_scheme mem_bus \<Rightarrow> append_request \<Rightarrow> ('z mem_world_scheme, bus_error, int) eff" where
  "mem_append mb req w =
     (case validate_bus_id (ar_bus_id req) of
        Inl e \<Rightarrow> (Inl e, w)
      | Inr bus_id \<Rightarrow>
          (case env_unsafe_wall_time (mb_environment mb) w of (wall, w1) \<Rightarrow>
          (case mem_check mb w1 of (chk, w2) \<Rightarrow>
          (case state_append (mw_buses w2) req (wrap_i64 (int (as_millis wall))) (map_option tc_now chk) of
             (r, bs) \<Rightarrow> (r, w2\<lparr>mw_buses := bs\<rparr>)))))"

definition mem_poll :: "'z mem_world_scheme mem_bus \<Rightarrow> poll_request \<Rightarrow> ('z mem_world_scheme, bus_error, poll_response) eff" where
  "mem_poll mb req w =
     (case validate_bus_id (pr_bus_id req) of
        Inl e \<Rightarrow> (Inl e, w)
      | Inr bus_id \<Rightarrow> (case mem_check mb w of (chk, w1) \<Rightarrow> (state_poll (mw_buses w1) req chk, w1)))"

definition mem_read_next :: "'z mem_world_scheme mem_bus \<Rightarrow> read_next_request
    \<Rightarrow> ('z mem_world_scheme, bus_error, read_next_response) eff" where
  "mem_read_next mb req w =
     (case validate_bus_id (rn_bus_id req) of
        Inl e \<Rightarrow> (Inl e, w)
      | Inr bus_id \<Rightarrow>
          if rn_max_entries req \<le> 0 then (Inl InvalidArgument, w)
          else if rn_start_log_position req < 0 then (Inl InvalidArgument, w)
          else if rn_end_log_position req < rn_start_log_position req then (Inl InvalidArgument, w)
          else if rn_filter req = Some [] then (Inl InvalidArgument, w)
          else
            (case mem_check mb w of (chk, w1) \<Rightarrow>
              (case read_filtered_entries (mw_buses w1) bus_id (rn_start_log_position req)
                      (as_usize (rn_max_entries req)) (rn_filter req) (rn_end_log_position req) chk of
                 Inl e \<Rightarrow> (Inl e, w1)
               | Inr (es, nxt) \<Rightarrow> (Inr \<lparr>rr_entries = es, rr_next_start_position = nxt\<rparr>, w1))))"

definition mem_check_tail :: "'z mem_world_scheme mem_bus \<Rightarrow> string option \<Rightarrow> ('z mem_world_scheme, bus_error, int) eff" where
  "mem_check_tail mb bid w =
     (case validate_bus_id bid of
        Inl e \<Rightarrow> (Inl e, w)
      | Inr bus_id \<Rightarrow> (Inr (get_tail (mw_buses w) bus_id), w))"

definition memory_bus :: "'z mem_world_scheme mem_bus \<Rightarrow> 'z mem_world_scheme agent_bus" where
  "memory_bus mb = \<lparr>bus_append = mem_append mb, bus_poll = mem_poll mb,
     bus_read_next = mem_read_next mb, bus_check_tail = mem_check_tail mb\<rparr>"

definition mem_blocking_poll :: "'z mem_world_scheme mem_bus \<Rightarrow> blocking_poll_request \<Rightarrow> 'z mem_world_scheme
    \<Rightarrow> ((bus_error + blocking_poll_response) \<times> 'z mem_world_scheme) option" where
  "mem_blocking_poll mb req = blocking_poll_default (memory_bus mb) (mb_environment mb) req None None"

section \<open>The simulator's clock\<close>

text \<open>
  \<open>LogicalClock\<close>: simulated time advances only when a task resumes from a sleep, and never goes
  back; the wall clock adds noise of at most a millisecond either way, drawn here from the list
  of upcoming draws of its generator.
\<close>

definition WALL_CLOCK_NOISE_US :: int where "WALL_CLOCK_NOISE_US = 1000"

definition advance_to :: "nat \<Rightarrow> 'z mem_world_scheme \<Rightarrow> 'z mem_world_scheme" where
  "advance_to target w = (if mw_elapsed w < target then w\<lparr>mw_elapsed := target\<rparr> else w)"

definition clock_unsafe_wall_time :: "'z mem_world_scheme \<Rightarrow> nat \<times> 'z mem_world_scheme" where
  "clock_unsafe_wall_time w =
     (let noise_us = (case mw_noise w of n # _ \<Rightarrow> n | [] \<Rightarrow> 0);
          noise = nat \<bar>noise_us\<bar> * 1000;
          w' = w\<lparr>mw_noise := tl (mw_noise w)\<rparr>
      in if 0 \<le> noise_us then (mw_elapsed w + noise, w') else (mw_elapsed w - noise, w'))"

definition clock_monotonic_time :: "'z mem_world_scheme \<Rightarrow> nat \<times> 'z mem_world_scheme" where
  "clock_monotonic_time w = (mw_elapsed w, w)"

text \<open>\<open>Simulator::sleep\<close> seen from the sleeping task: the executor resumes it after advancing the
  clock to the target time.\<close>
definition sim_sleep :: "nat \<Rightarrow> 'z mem_world_scheme \<Rightarrow> 'z mem_world_scheme" where
  "sim_sleep d w = advance_to (mw_elapsed w + d) w"

definition sim_environment :: "(nat \<Rightarrow> 'z mem_world_scheme \<Rightarrow> nat \<times> 'z mem_world_scheme) \<Rightarrow> 'z mem_world_scheme environment" where
  "sim_environment backoff = \<lparr>env_unsafe_wall_time = clock_unsafe_wall_time,
     env_monotonic_time = clock_monotonic_time, env_sleep = sim_sleep, env_backoff = backoff\<rparr>"

section \<open>Lemmas\<close>

definition stored :: "buses \<Rightarrow> string \<Rightarrow> stored_entry list" where
  "stored bs b = (case bs b of Some ss \<Rightarrow> ss | None \<Rightarrow> [])"

definition mem_log :: "'z mem_world_scheme \<Rightarrow> string \<Rightarrow> bus_entry list" where
  "mem_log w b = map se_entry (stored (mw_buses w) b)"

definition mem_inv :: "'z mem_world_scheme \<Rightarrow> bool" where
  "mem_inv w = (\<forall>b. well_numbered (mem_log w b))"

definition mem_evolves :: "'z mem_world_scheme \<Rightarrow> 'z mem_world_scheme \<Rightarrow> bool" where
  "mem_evolves w w' \<longleftrightarrow>
     (\<forall>b. prefix (stored (mw_buses w) b) (stored (mw_buses w') b)) \<and> (mem_inv w \<longrightarrow> mem_inv w')"

lemma stored_update [simp]: "stored (bs(b \<mapsto> ss)) b' = (if b' = b then ss else stored bs b')"
  by (simp add: stored_def)

lemma get_tail_stored: "get_tail bs b = int (length (stored bs b))"
  by (simp add: get_tail_def stored_def split: option.split)

lemma state_append_ok:
  assumes "valid_bus b"
  shows "state_append bs \<lparr>ar_bus_id = Some b, ar_payload = Some p\<rparr> ts at =
    (Inr (int (length (stored bs b))),
     bs(b \<mapsto> stored bs b @ [\<lparr>se_entry = \<lparr>entry_header = Some \<lparr>log_position = int (length (stored bs b)), rt_timestamp_ms = ts\<rparr>,
        entry_payload = Some p\<rparr>, se_written_at = at\<rparr>]))"
  using assms by (simp add: state_append_def stored_def Let_def split: option.split)

lemma state_append_cases:
  obtains (fail) e where "state_append bs req ts at = (Inl e, bs)"
  | (appended) b p where "ar_bus_id req = Some b" "ar_payload req = Some p" "valid_bus b"
      "state_append bs req ts at = (Inr (int (length (stored bs b))),
         bs(b \<mapsto> stored bs b @ [\<lparr>se_entry = \<lparr>entry_header = Some \<lparr>log_position = int (length (stored bs b)), rt_timestamp_ms = ts\<rparr>,
            entry_payload = Some p\<rparr>, se_written_at = at\<rparr>]))"
proof (cases "validate_bus_id (ar_bus_id req)")
  case (Inl e)
  then show ?thesis by (intro fail) (simp add: state_append_def)
next
  case (Inr b)
  note v = validate_bus_id_OkD[OF Inr]
  show ?thesis
  proof (cases "ar_payload req")
    case None
    then show ?thesis using Inr by (intro fail) (simp add: state_append_def)
  next
    case (Some p)
    show ?thesis
      by (rule appended[OF _ Some]) (use Some v in \<open>auto simp: state_append_def stored_def Let_def split: option.split\<close>)
  qed
qed

lemma well_numbered_snoc:
  "well_numbered es \<Longrightarrow> entry_header e = Some h \<Longrightarrow> log_position h = int (length es) \<Longrightarrow> entry_payload e = Some p \<Longrightarrow>
   well_numbered (es @ [e])"
  by (auto simp: well_numbered_def nth_append less_Suc_eq)

lemma read_scan_sound:
  assumes "well_numbered (map se_entry bus)" "k \<le> stop" "stop \<le> length bus" "length acc < m"
    and "read_scan chk flt m (int stop) acc (take (stop - k) (drop k bus)) = Inr (res, nxt)"
  shows "\<exists>n. nxt = int n \<and> k \<le> n \<and> n \<le> stop \<and> (k < stop \<longrightarrow> k < n) \<and> length res \<le> m \<and>
     res = acc @ filter (entry_matches flt) (segment (map se_entry bus) (int k) (int n))"
  using assms(2-)
proof (induction "stop - k" arbitrary: k acc)
  case 0
  then show ?case by (intro exI[of _ stop]) simp
next
  case (Suc d)
  let ?es = "map se_entry bus" and ?e = "se_entry (bus ! k)"
  have k: "k < stop" "k < length bus" using Suc by auto
  have slice: "take (stop - k) (drop k bus) = bus ! k # take (stop - Suc k) (drop (Suc k) bus)"
    using take_drop_nth[of k stop bus] Suc k by simp
  obtain h p where hdr: "entry_header ?e = Some h" "log_position h = int k" "entry_payload ?e = Some p"
    using assms(1) k by (auto simp: well_numbered_def)
  have live: "stored_is_live (bus ! k) chk"
    using Suc.prems(4) by (auto simp: slice split: if_splits)
  have seg: "segment ?es (int k) (int n) = ?e # segment ?es (int (Suc k)) (int n)" if "Suc k \<le> n" "n \<le> stop" for n
    using that segment_Cons[of k n ?es] Suc.prems k by simp
  have IH: "\<exists>n. nxt = int n \<and> Suc k \<le> n \<and> n \<le> stop \<and> length res \<le> m \<and>
     res = acc' @ filter (entry_matches flt) (segment ?es (int (Suc k)) (int n))"
    if "read_scan chk flt m (int stop) acc' (take (stop - Suc k) (drop (Suc k) bus)) = Inr (res, nxt)" "length acc' < m"
    for acc'
    proof -
    have "d = stop - Suc k" "Suc k \<le> stop" using Suc.hyps(2) k by auto
    from Suc.hyps(1)[OF this Suc.prems(2) that(2,1)] show ?thesis by blast
  qed
  show ?case
  proof (cases "payload_matches_filter p flt")
    case False
    then have "entry_matches flt ?e = False" using hdr by (simp add: entry_matches_def)
    moreover obtain n where "nxt = int n \<and> Suc k \<le> n \<and> n \<le> stop \<and> length res \<le> m \<and>
       res = acc @ filter (entry_matches flt) (segment ?es (int (Suc k)) (int n))"
      using IH[of acc] Suc.prems(3,4) False hdr live by (auto simp: slice)
    ultimately show ?thesis using seg by (intro exI[of _ n]) auto
  next
    case True
    then have match: "entry_matches flt ?e" using hdr by (simp add: entry_matches_def)
    show ?thesis
    proof (cases "m \<le> Suc (length acc)")
      case full: True
      then have "nxt = int (Suc k)" "res = acc @ [?e]"
        using Suc.prems(4) True hdr live by (auto simp: slice Let_def)
      then show ?thesis using seg[of "Suc k"] match k full Suc.prems(3) by (intro exI[of _ "Suc k"]) simp
    next
      case False
      then obtain n where "nxt = int n \<and> Suc k \<le> n \<and> n \<le> stop \<and> length res \<le> m \<and>
         res = (acc @ [?e]) @ filter (entry_matches flt) (segment ?es (int (Suc k)) (int n))"
        using IH[of "acc @ [?e]"] Suc.prems(4) True hdr live by (auto simp: slice Let_def)
      then show ?thesis using seg match by (intro exI[of _ n]) auto
    qed
  qed
qed

section \<open>The in-memory bus keeps the contract\<close>

text \<open>What the bus needs of its environment: reading the wall clock leaves the buses alone.\<close>
definition clock_keeps_buses :: "'z mem_world_scheme environment \<Rightarrow> bool" where
  "clock_keeps_buses env = (\<forall>w. mw_buses (snd (env_unsafe_wall_time env w)) = mw_buses w)"

lemma mem_evolves_same: "mw_buses w' = mw_buses w \<Longrightarrow> mem_evolves w w'"
  by (simp add: mem_evolves_def mem_inv_def mem_log_def)

lemma mem_check_buses:
  assumes "clock_keeps_buses (mb_environment mb)" "mem_check mb w = (chk, w')"
  shows "mw_buses w' = mw_buses w"
  using assms by (auto simp: mem_check_def clock_keeps_buses_def split: option.splits prod.splits) (metis snd_conv)

lemma mem_append_result:
  assumes "clock_keeps_buses (mb_environment mb)"
  obtains (fail) e w1 where "mem_append mb req w = (Inl e, w1)" "mw_buses w1 = mw_buses w"
  | (appended) b p ts at w1 where "ar_bus_id req = Some b" "ar_payload req = Some p" "valid_bus b"
      "mem_append mb req w = (Inr (int (length (stored (mw_buses w) b))), w1)"
      "mw_buses w1 = (mw_buses w)(b \<mapsto> stored (mw_buses w) b @
         [\<lparr>se_entry = \<lparr>entry_header = Some \<lparr>log_position = int (length (stored (mw_buses w) b)), rt_timestamp_ms = ts\<rparr>,
            entry_payload = Some p\<rparr>, se_written_at = at\<rparr>])"
proof (cases "validate_bus_id (ar_bus_id req)")
  case (Inl e)
  then show ?thesis by (intro fail[of e w]) (simp_all add: mem_append_def)
next
  case (Inr b)
  obtain wall w1 where wall: "env_unsafe_wall_time (mb_environment mb) w = (wall, w1)" by fastforce
  obtain chk w2 where chk: "mem_check mb w1 = (chk, w2)" by fastforce
  have same: "mw_buses w2 = mw_buses w"
    using mem_check_buses[OF assms chk] assms wall by (auto simp: clock_keeps_buses_def) (metis snd_conv)
  show ?thesis
    by (cases rule: state_append_cases[of "mw_buses w2" req "wrap_i64 (int (as_millis wall))" "map_option tc_now chk"])
      (use Inr wall chk same in \<open>auto simp: mem_append_def intro: fail appended\<close>)
qed

lemma mem_append_evolves:
  assumes "clock_keeps_buses (mb_environment mb)"
  shows "moves mem_evolves (mem_append mb req)"
  unfolding moves_def
proof
  fix w
  show "mem_evolves w (snd (mem_append mb req w))"
  proof (cases rule: mem_append_result[OF assms, of req w])
    case 1
    then show ?thesis by (simp add: mem_evolves_same)
  next
    case (2 b p ts at w1)
    have "mem_inv w \<Longrightarrow> mem_inv w1"
      using 2(5) by (auto simp: mem_inv_def mem_log_def intro!: well_numbered_snoc)
    then show ?thesis using 2 by (simp add: mem_evolves_def)
  qed
qed

lemma mem_read_next_evolves:
  assumes "clock_keeps_buses (mb_environment mb)"
  shows "moves mem_evolves (mem_read_next mb req)"
  unfolding moves_def mem_read_next_def
  using mem_check_buses[OF assms]
  by (auto simp: mem_evolves_same split: sum.split prod.split)

lemma mem_check_tail_evolves: "moves mem_evolves (mem_check_tail mb bid)"
  by (auto simp: moves_def mem_check_tail_def mem_evolves_same split: sum.split)

lemma mem_read_next_law:
  assumes "clock_keeps_buses (mb_environment mb)" "mem_inv w"
    and "rn_bus_id req = Some b" "0 \<le> rn_start_log_position req"
    and "rn_start_log_position req < rn_end_log_position req"
    and "rn_end_log_position req \<le> int (length (mem_log w b))"
    and "mem_read_next mb req w = (Inr resp, w')"
  shows "rn_start_log_position req < rr_next_start_position resp \<and>
    rr_next_start_position resp \<le> rn_end_log_position req \<and>
    int (length (rr_entries resp)) \<le> rn_max_entries req \<and>
    rr_entries resp = filter (entry_matches (rn_filter req))
      (segment (mem_log w b) (rn_start_log_position req) (rr_next_start_position resp))"
proof -
  obtain chk w1 where chk: "mem_check mb w = (chk, w1)" by fastforce
  have same: "mw_buses w1 = mw_buses w" using mem_check_buses[OF assms(1) chk] .
  let ?bus = "stored (mw_buses w) b"
  define k where "k = nat (rn_start_log_position req)"
  define stop where "stop = nat (rn_end_log_position req)"
  have pos: "rn_start_log_position req = int k" "rn_end_log_position req = int stop" "k < stop" "stop \<le> length ?bus"
    using assms(4-6) by (auto simp: k_def stop_def mem_log_def)
  then have some: "mw_buses w b = Some ?bus" by (auto simp: stored_def split: option.splits)
  have max: "0 < rn_max_entries req" using assms(3,7) by (auto simp: mem_read_next_def split: if_splits)
  have "read_scan chk (rn_filter req) (nat (rn_max_entries req)) (int stop) [] (take (stop - k) (drop k ?bus))
      = Inr (rr_entries resp, rr_next_start_position resp)"
    using assms(3,7) chk same some pos max
    by (auto simp: mem_read_next_def read_filtered_entries_def Let_def split: if_splits sum.splits prod.splits)
  from read_scan_sound[OF _ _ _ _ this] assms(2) pos max show ?thesis
    by (auto simp: mem_inv_def mem_log_def)
qed

locale memory_bus_env =
  fixes mb :: "'z mem_world_scheme mem_bus"
  assumes keeps: "clock_keeps_buses (mb_environment mb)"

sublocale memory_bus_env \<subseteq> log_bus "memory_bus mb" mem_log mem_inv mem_evolves
proof (standard, goal_cases)
  case (2 w w1 w2)
  then show ?case unfolding mem_evolves_def by (meson prefix_order.trans)
next
  case (4 w w1 b)
  then show ?case by (auto simp: mem_evolves_def mem_log_def map_mono_prefix)
next
  case (7 w b p pos w')
  then show ?case
    by (cases rule: mem_append_result[OF keeps, of "\<lparr>ar_bus_id = Some b, ar_payload = Some p\<rparr>" w])
      (auto simp: memory_bus_def mem_log_def nth_append)
next
  case (9 w b t w')
  then show ?case
    by (auto simp: memory_bus_def mem_check_tail_def get_tail_stored mem_log_def split: if_splits)
next
  case (11 w req b resp w')
  show ?case
    by (rule mem_read_next_law[OF keeps 11(1-5)]) (use 11(6) in \<open>simp add: memory_bus_def\<close>)
qed (use mem_append_evolves[OF keeps] mem_read_next_evolves[OF keeps] mem_check_tail_evolves in
      \<open>auto simp: memory_bus_def mem_evolves_def mem_inv_def\<close>)

lemma sim_clock_keeps_buses: "clock_keeps_buses (sim_environment bo)"
  by (simp add: clock_keeps_buses_def sim_environment_def clock_unsafe_wall_time_def Let_def)

interpretation sim_bus: memory_bus_env "\<lparr>mb_environment = sim_environment bo, mb_ttl = ttl\<rparr>"
  for bo and ttl
  by standard (simp add: sim_clock_keeps_buses)

section \<open>Without an expiry reads do not fail\<close>

lemma stored_is_live_None [simp]: "stored_is_live s None"
  by (simp add: stored_is_live_def split: option.split)

lemma read_scan_returns:
  assumes "\<forall>s \<in> set ss. entry_header (se_entry s) \<noteq> None"
  shows "\<exists>r. read_scan None flt m stop acc ss = Inr r"
  using assms
proof (induction ss arbitrary: acc)
  case (Cons s ss)
  then show ?case by (auto simp: Let_def split: option.splits)
qed simp

lemma mem_read_next_succeeds:
  assumes "mb_ttl mb = None" "mem_inv w" "valid_bus b" "rn_bus_id req = Some b" "0 \<le> rn_start_log_position req"
    and "rn_start_log_position req < rn_end_log_position req"
    and "rn_end_log_position req \<le> int (length (mem_log w b))" "0 < rn_max_entries req" "rn_filter req \<noteq> Some []"
  shows "\<exists>resp. mem_read_next mb req w = (Inr resp, w)"
proof -
  let ?bus = "stored (mw_buses w) b"
  have "?bus \<noteq> []" using assms(5-7) by (auto simp: mem_log_def)
  then have some: "mw_buses w b = Some ?bus" by (auto simp: stored_def split: option.splits)
  have headers: "entry_header (se_entry s) \<noteq> None" if "s \<in> set ?bus" for s
    using assms(2) that by (auto simp: mem_inv_def mem_log_def well_numbered_def in_set_conv_nth)
  define k where "k = nat (rn_start_log_position req)"
  define stop where "stop = nat (rn_end_log_position req)"
  have pos: "rn_start_log_position req = int k" "rn_end_log_position req = int stop" "k < stop" "stop \<le> length ?bus"
    using assms(5-7) by (auto simp: k_def stop_def mem_log_def)
  obtain r where "read_scan None (rn_filter req) (nat (rn_max_entries req)) (int stop) [] (take (stop - k) (drop k ?bus)) = Inr r"
    using read_scan_returns headers by (metis in_set_dropD in_set_takeD)
  then show ?thesis
    using assms(1,3,4,8,9) some pos
    by (cases r) (simp add: mem_read_next_def mem_check_def read_filtered_entries_def Let_def)
qed

locale lasting_memory_bus = memory_bus_env +
  assumes no_ttl: "mb_ttl mb = None"

sublocale lasting_memory_bus \<subseteq> readable_log_bus "memory_bus mb" mem_log mem_inv mem_evolves
proof (unfold_locales, goal_cases)
  case (1 w b req)
  then show ?case using mem_read_next_succeeds[OF no_ttl 1] by (auto simp: memory_bus_def)
qed

interpretation sim_lasting_bus: lasting_memory_bus "\<lparr>mb_environment = sim_environment bo, mb_ttl = None\<rparr>" for bo
  by unfold_locales simp

section \<open>Polling as a reference function\<close>

lemma fetch_scan_reference:
  assumes "length acc \<le> m"
  shows "fetch_scan None flt m acc ss =
    Inr (acc @ take (m - length acc) (filter (entry_matches flt) (map se_entry ss)),
         length acc + length (filter (entry_matches flt) (map se_entry ss)) \<le> m)"
  using assms
proof (induction ss arbitrary: acc)
  case (Cons s ss)
  show ?case
  proof (cases "entry_matches flt (se_entry s)")
    case True
    then obtain p where "entry_payload (se_entry s) = Some p" "payload_matches_filter p flt"
      by (auto simp: entry_matches_def split: option.splits)
    then show ?thesis
      using True Cons.IH[of "acc @ [se_entry s]"] Cons.prems
      by (cases "length acc = m") (auto simp: take_Cons' Suc_diff_Suc)
  next
    case False
    then show ?thesis
      using Cons by (auto simp: entry_matches_def split: option.splits)
  qed
qed simp

lemma entry_matches_empty: "\<not> entry_matches (Some []) e"
  by (simp add: entry_matches_def split: option.split)

text \<open>
  Without expiry a poll of a valid bus returns the first matching entries from its start position,
  at most the requested number and never more than 64, and says it is complete exactly when no
  further entry matches.
\<close>
theorem poll_reference:
  "state_poll bs req None =
   (case validate_bus_id (pr_bus_id req) of
      Inl e \<Rightarrow> Inl e
    | Inr b \<Rightarrow>
        let m = min (as_usize (pr_max_entries req)) MAX_POLL_ENTRIES;
            hits = filter (entry_matches (pr_filter req)) (drop (nat (pr_start_log_position req)) (map se_entry (stored bs b)))
        in Inr \<lparr>ps_entries = take m hits, ps_complete = (length hits \<le> m)\<rparr>)"
proof (cases "validate_bus_id (pr_bus_id req)")
  case (Inr b)
  have nat_max: "nat (max x 0) = nat x" for x by simp
  have slice: "(if n < length bus then drop n bus else []) = drop n bus" for n and bus :: "stored_entry list" by simp
  show ?thesis
    using Inr fetch_scan_reference[of "[]"] entry_matches_empty
    by (cases "bs b")
      (auto simp: state_poll_def fetch_entries_def stored_def Let_def nat_max slice drop_map simp del: drop_eq_Nil split: if_splits)
qed (simp add: state_poll_def)

text \<open>
  A negative \<open>max_entries\<close> does not ask for nothing: the cast to an unsigned size makes it the
  largest request, so the poll returns up to 64 entries.
\<close>
theorem poll_negative_max_entries:
  assumes "- (2 ^ 31) \<le> n" "n < 0"
  shows "state_poll bs (req\<lparr>pr_max_entries := n\<rparr>) chk = state_poll bs (req\<lparr>pr_max_entries := 64\<rparr>) chk"
proof -
  have "MAX_POLL_ENTRIES \<le> as_usize n" using assms by (simp add: as_usize_def MAX_POLL_ENTRIES_def)
  then show ?thesis
    by (cases "validate_bus_id (pr_bus_id req)") (simp_all add: state_poll_def MAX_POLL_ENTRIES_def min_def)
qed

theorem poll_negative_max_entries_witness:
  "state_poll (\<lambda>_. None) \<lparr>pr_bus_id = Some ''b'', pr_start_log_position = 0, pr_max_entries = - 1, pr_filter = None\<rparr> None =
   state_poll (\<lambda>_. None) \<lparr>pr_bus_id = Some ''b'', pr_start_log_position = 0, pr_max_entries = 64, pr_filter = None\<rparr> None"
  using poll_negative_max_entries[of "- 1" "\<lambda>_. None"
      "\<lparr>pr_bus_id = Some ''b'', pr_start_log_position = 0, pr_max_entries = 0, pr_filter = None\<rparr>" None] by simp

section \<open>Reading\<close>

text \<open>
  An appended payload can be read back at the position the append returned, and at every later
  moment: the entry there has that position and that payload.
\<close>
theorem append_then_read:
  assumes "clock_keeps_buses env" "mem_inv w"
    and "mem_append \<lparr>mb_environment = env, mb_ttl = None\<rparr> \<lparr>ar_bus_id = Some b, ar_payload = Some p\<rparr> w = (Inr pos, w1)"
    and "mem_evolves w1 w2"
  shows "\<exists>e. mem_read_next \<lparr>mb_environment = env, mb_ttl = None\<rparr> \<lparr>rn_bus_id = Some b, rn_start_log_position = pos,
       rn_end_log_position = pos + 1, rn_max_entries = 1, rn_filter = None\<rparr> w2
     = (Inr \<lparr>rr_entries = [e], rr_next_start_position = pos + 1\<rparr>, w2) \<and>
     entry_payload e = Some p \<and> map_option log_position (entry_header e) = Some pos"
proof -
  let ?mb = "\<lparr>mb_environment = env, mb_ttl = None\<rparr>" and ?req = "\<lparr>ar_bus_id = Some b, ar_payload = Some p\<rparr>"
  have k: "clock_keeps_buses (mb_environment ?mb)" using assms(1) by simp
  let ?n = "length (stored (mw_buses w) b)"
  obtain s where s: "pos = int ?n" "valid_bus b" "stored (mw_buses w1) b = stored (mw_buses w) b @ [s]"
    "entry_payload (se_entry s) = Some p" "map_option log_position (entry_header (se_entry s)) = Some pos"
    by (cases rule: mem_append_result[OF k, of ?req w]) (use assms(3) in auto)
  obtain rest where rest: "stored (mw_buses w2) b = stored (mw_buses w) b @ s # rest"
    using assms(4) s(3) unfolding mem_evolves_def prefix_def by (metis append.assoc append_Cons append_Nil)
  then have bus: "mw_buses w2 b = Some (stored (mw_buses w) b @ s # rest)"
    by (auto simp: stored_def split: option.splits)
  obtain h where h: "entry_header (se_entry s) = Some h" "log_position h = pos" using s(5) by auto
  have "read_filtered_entries (mw_buses w2) b pos 1 None (pos + 1) None = Inr ([se_entry s], pos + 1)"
    using bus s(1,4) h by (simp add: read_filtered_entries_def Let_def nat_add_distrib)
  then show ?thesis
    using s(1,2,4,5) by (intro exI[of _ "se_entry s"]) (simp add: mem_read_next_def mem_check_def)
qed

definition empty_mem_world :: mem_world where
  "empty_mem_world = \<lparr>mw_buses = Map.empty, mw_elapsed = 0, mw_noise = []\<rparr>"

definition unit_backoff :: "nat \<Rightarrow> mem_world \<Rightarrow> nat \<times> mem_world" where
  "unit_backoff u w = (u, w)"

definition mail_payload :: payload where
  "mail_payload = Some (AgentInput (Some ''hello''))"

lemma empty_mem_world_inv: "mem_inv empty_mem_world"
  by (simp add: mem_inv_def mem_log_def empty_mem_world_def stored_def well_numbered_def)

theorem append_then_read_witness:
  "\<exists>e. mem_read_next \<lparr>mb_environment = sim_environment unit_backoff, mb_ttl = None\<rparr> \<lparr>rn_bus_id = Some ''bus'', rn_start_log_position = 0,
       rn_end_log_position = 1, rn_max_entries = 1, rn_filter = None\<rparr>
       (snd (mem_append \<lparr>mb_environment = sim_environment unit_backoff, mb_ttl = None\<rparr> \<lparr>ar_bus_id = Some ''bus'', ar_payload = Some mail_payload\<rparr> empty_mem_world))
     = (Inr \<lparr>rr_entries = [e], rr_next_start_position = 1\<rparr>,
        snd (mem_append \<lparr>mb_environment = sim_environment unit_backoff, mb_ttl = None\<rparr> \<lparr>ar_bus_id = Some ''bus'', ar_payload = Some mail_payload\<rparr> empty_mem_world)) \<and>
     entry_payload e = Some mail_payload \<and> map_option log_position (entry_header e) = Some 0"
proof -
  let ?r = "mem_append \<lparr>mb_environment = sim_environment unit_backoff, mb_ttl = None\<rparr> \<lparr>ar_bus_id = Some ''bus'', ar_payload = Some mail_payload\<rparr> empty_mem_world"
  have "fst ?r = Inr 0" by code_simp
  then have "?r = (Inr 0, snd ?r)" by (metis prod.collapse)
  from append_then_read[OF sim_clock_keeps_buses empty_mem_world_inv this, of "snd ?r"] show ?thesis
    by (simp add: mem_evolves_def)
qed

text \<open>
  A read whose start lies beyond the last entry of an existing bus, with a later end, unwinds: the
  slice of the stored entries is taken with a start after its clamped end.
\<close>
theorem read_past_tail_panics:
  assumes "valid_bus b" "mw_buses w b = Some bus" "int (length bus) < start" "start < stop"
  shows "fst (mem_read_next \<lparr>mb_environment = env, mb_ttl = None\<rparr> \<lparr>rn_bus_id = Some b, rn_start_log_position = start,
      rn_end_log_position = stop, rn_max_entries = 1, rn_filter = None\<rparr> w) = Inl Panicked"
  using assms by (auto simp: mem_read_next_def mem_check_def read_filtered_entries_def Let_def min_def)

theorem read_past_tail_panics_witness:
  "fst (mem_read_next \<lparr>mb_environment = sim_environment unit_backoff, mb_ttl = None\<rparr> \<lparr>rn_bus_id = Some ''bus'', rn_start_log_position = 1,
      rn_end_log_position = 2, rn_max_entries = 1, rn_filter = None\<rparr> (empty_mem_world\<lparr>mw_buses := [''bus'' \<mapsto> []]\<rparr>)) = Inl Panicked"
proof -
  have "valid_bus ''bus''" by code_simp
  then show ?thesis
    using read_past_tail_panics[of "''bus''" "empty_mem_world\<lparr>mw_buses := [''bus'' \<mapsto> []]\<rparr>" "[]" 1 2 "sim_environment unit_backoff"] by simp
qed

context lasting_memory_bus
begin

lemma read_range_drained:
  assumes "valid_bus b" "flt \<noteq> Some []" "mem_inv w" "0 \<le> start" "start \<le> stop" "stop \<le> int (length (mem_log w b))"
    and "0 < max_entries" "max_entries < 2 ^ 31"
  shows "\<exists>es c w'. read_range (memory_bus mb) b start stop max_entries flt w = (Inr (es, c), w') \<and> start \<le> c \<and> c \<le> stop \<and>
    es = filter (entry_matches flt) (segment (mem_log w b) start c) \<and>
    int (length es) \<le> max_entries \<and> (c = stop \<or> int (length es) = max_entries)"
  by (rule read_range_returns[OF assms])

end

text \<open>
  Draining a range inside the log always returns: the matching entries up to the cursor it reports, stopping
  before the end only with as many entries as were asked for, and never with more.
\<close>
theorem read_range_drains:
  assumes "clock_keeps_buses (mb_environment mb)" "mb_ttl mb = None" "valid_bus b" "flt \<noteq> Some []" "mem_inv w" "0 \<le> start" "start \<le> stop"
    and "stop \<le> int (length (mem_log w b))" "0 < max_entries" "max_entries < 2 ^ 31"
  shows "\<exists>es c w'. read_range (memory_bus mb) b start stop max_entries flt w = (Inr (es, c), w') \<and> start \<le> c \<and> c \<le> stop \<and>
    es = filter (entry_matches flt) (segment (mem_log w b) start c) \<and>
    int (length es) \<le> max_entries \<and> (c = stop \<or> int (length es) = max_entries)"
proof -
  have "lasting_memory_bus mb" using assms(1,2) by (simp add: lasting_memory_bus_def lasting_memory_bus_axioms_def memory_bus_env_def)
  then show ?thesis using lasting_memory_bus.read_range_drained[OF _ assms(3-10)] by blast
qed

definition two_entry_world :: mem_world where
  "two_entry_world = (let mb = \<lparr>mb_environment = sim_environment unit_backoff, mb_ttl = None\<rparr>;
      req = \<lparr>ar_bus_id = Some ''bus'', ar_payload = Some mail_payload\<rparr>
    in snd (mem_append mb req (snd (mem_append mb req empty_mem_world))))"

lemma two_entry_world_inv: "mem_inv two_entry_world"
proof -
  have "mem_inv (snd (mem_append \<lparr>mb_environment = sim_environment unit_backoff, mb_ttl = None\<rparr> req w))"
    if "mem_inv w" for req and w :: mem_world
    using mem_append_evolves[of "\<lparr>mb_environment = sim_environment unit_backoff, mb_ttl = None\<rparr>" req] that sim_clock_keeps_buses[of unit_backoff]
    by (simp add: moves_def mem_evolves_def)
  then show ?thesis unfolding two_entry_world_def Let_def using empty_mem_world_inv by blast
qed

theorem read_range_drains_witness:
  "\<exists>es c w'. read_range (memory_bus \<lparr>mb_environment = sim_environment unit_backoff, mb_ttl = None\<rparr>) ''bus'' 0 2 1 None two_entry_world = (Inr (es, c), w') \<and>
     es = filter (entry_matches None) (segment (mem_log two_entry_world ''bus'') 0 c) \<and> length es = 1"
proof -
  let ?mb = "\<lparr>mb_environment = sim_environment unit_backoff, mb_ttl = None\<rparr> :: mem_world mem_bus"
  have len: "length (mem_log two_entry_world ''bus'') = 2" and valid: "valid_bus ''bus''" by code_simp+
  have all: "length (filter (entry_matches None) (segment (mem_log two_entry_world ''bus'') 0 2)) = 2" by code_simp
  have "clock_keeps_buses (mb_environment ?mb)" "mb_ttl ?mb = None" by (simp_all add: sim_clock_keeps_buses)
  from read_range_drains[OF this valid _ two_entry_world_inv, of None 0 2 1] len
  obtain es c w' where run: "read_range (memory_bus ?mb) ''bus'' 0 2 1 None two_entry_world = (Inr (es, c), w')"
    "es = filter (entry_matches None) (segment (mem_log two_entry_world ''bus'') 0 c)" "int (length es) \<le> 1" "c = 2 \<or> int (length es) = 1"
    by auto
  then have "length es = 1" using all by auto
  with run show ?thesis by blast
qed

section \<open>Blocking polls return\<close>

text \<open>The simulator's environment with what other tasks do while a task sleeps.\<close>
definition busy_environment :: "(nat \<Rightarrow> 'z mem_world_scheme \<Rightarrow> nat \<times> 'z mem_world_scheme) \<Rightarrow> ('z mem_world_scheme \<Rightarrow> 'z mem_world_scheme)
    \<Rightarrow> 'z mem_world_scheme environment" where
  "busy_environment bo others = (sim_environment bo)\<lparr>env_sleep := (\<lambda>d w. others (sim_sleep d w))\<rparr>"

lemma busy_environment_simps [simp]:
  "env_monotonic_time (busy_environment bo others) w = (mw_elapsed w, w)"
  "env_sleep (busy_environment bo others) d w = others (sim_sleep d w)"
  "env_unsafe_wall_time (busy_environment bo others) = clock_unsafe_wall_time"
  by (simp_all add: busy_environment_def sim_environment_def clock_monotonic_time_def)

lemma sim_sleep_elapsed [simp]: "mw_elapsed (sim_sleep d w) = mw_elapsed w + d"
  by (simp add: sim_sleep_def advance_to_def)

lemma mem_read_next_elapsed:
  assumes "mem_read_next \<lparr>mb_environment = busy_environment bo others, mb_ttl = ttl\<rparr> req w = (r, w')"
  shows "mw_elapsed w' = mw_elapsed w"
proof -
  have "mw_elapsed (snd (mem_check \<lparr>mb_environment = busy_environment bo others, mb_ttl = ttl\<rparr> w)) = mw_elapsed w"
    by (simp add: mem_check_def clock_unsafe_wall_time_def Let_def split: option.split)
  then show ?thesis using assms by (auto simp: mem_read_next_def split: sum.splits if_splits prod.splits)
qed

text \<open>The world after sleeps of the given lengths, and the tail there.\<close>
definition after_naps :: "('z mem_world_scheme \<Rightarrow> 'z mem_world_scheme) \<Rightarrow> nat list \<Rightarrow> 'z mem_world_scheme \<Rightarrow> 'z mem_world_scheme" where
  "after_naps others ds w = fold (\<lambda>d w. others (sim_sleep d w)) ds w"

abbreviation mem_tail :: "'z mem_world_scheme \<Rightarrow> string \<Rightarrow> int" where
  "mem_tail w b \<equiv> get_tail (mw_buses w) b"

text \<open>
  What a poll answers: it looks for the tail after naps of at most \<open>interval\<close>, reads when the tail has passed its
  start, and ends with nothing at the deadline.
\<close>
definition poll_outcome :: "'z mem_world_scheme mem_bus \<Rightarrow> ('z mem_world_scheme \<Rightarrow> 'z mem_world_scheme) \<Rightarrow> blocking_poll_request \<Rightarrow> string
    \<Rightarrow> nat \<Rightarrow> nat \<Rightarrow> 'z mem_world_scheme \<Rightarrow> bus_error + blocking_poll_response \<Rightarrow> 'z mem_world_scheme \<Rightarrow> bool" where
  "poll_outcome mb others req b interval deadline w r w' \<longleftrightarrow>
     (\<exists>ds. (\<forall>d \<in> set ds. 0 < d \<and> d \<le> interval) \<and> mw_elapsed w + sum_list ds \<le> deadline \<and>
        (\<forall>k < length ds. mem_tail (after_naps others (take k ds) w) b \<le> bp_start_log_position req) \<and>
        (let w1 = after_naps others ds w in
          if bp_start_log_position req < mem_tail w1 b
          then (case mem_read_next mb \<lparr>rn_bus_id = Some b, rn_start_log_position = bp_start_log_position req,
                    rn_end_log_position = mem_tail w1 b, rn_max_entries = bp_max_entries req, rn_filter = bp_filter req\<rparr> w1 of
                  (x, w2) \<Rightarrow> w' = w2 \<and> r = map_sum id (\<lambda>resp. \<lparr>bs_entries = rr_entries resp, bs_next_start_position = rr_next_start_position resp\<rparr>) x)
          else mw_elapsed w + sum_list ds = deadline \<and> w' = w1 \<and> r = Inr \<lparr>bs_entries = [], bs_next_start_position = bp_start_log_position req\<rparr>))"

lemma after_naps_elapsed:
  "(\<And>w. mw_elapsed (others w) = mw_elapsed w) \<Longrightarrow> mw_elapsed (after_naps others ds w) = mw_elapsed w + sum_list ds"
  by (induction ds arbitrary: w) (simp_all add: after_naps_def)

lemma poll_outcome_elapsed:
  assumes "\<And>w. mw_elapsed (others w) = mw_elapsed w"
    and "poll_outcome \<lparr>mb_environment = busy_environment bo others, mb_ttl = ttl\<rparr> others req b interval deadline w r w'"
  shows "mw_elapsed w \<le> mw_elapsed w' \<and> mw_elapsed w' \<le> deadline"
proof -
  obtain ds where ds: "mw_elapsed w + sum_list ds \<le> deadline" and "w' = after_naps others ds w \<or>
      (\<exists>req' x. mem_read_next \<lparr>mb_environment = busy_environment bo others, mb_ttl = ttl\<rparr> req' (after_naps others ds w) = (x, w'))"
    using assms(2) unfolding poll_outcome_def Let_def by (auto split: if_splits prod.splits)
  then have "mw_elapsed w' = mw_elapsed (after_naps others ds w)" using mem_read_next_elapsed by blast
  then show ?thesis using ds after_naps_elapsed[of others ds w, OF assms(1)] by simp
qed

lemma poll_outcome_now:
  assumes "bp_start_log_position req < mem_tail w b" "mw_elapsed w \<le> deadline"
    and "mem_read_next mb \<lparr>rn_bus_id = Some b, rn_start_log_position = bp_start_log_position req, rn_end_log_position = mem_tail w b,
      rn_max_entries = bp_max_entries req, rn_filter = bp_filter req\<rparr> w = (x, w')"
    and "r = map_sum id (\<lambda>resp. \<lparr>bs_entries = rr_entries resp, bs_next_start_position = rr_next_start_position resp\<rparr>) x"
  shows "poll_outcome mb others req b interval deadline w r w'"
  unfolding poll_outcome_def by (rule exI[of _ "[]"]) (simp add: assms after_naps_def)

lemma poll_outcome_late:
  assumes "\<not> bp_start_log_position req < mem_tail w b" "mw_elapsed w = deadline"
  shows "poll_outcome mb others req b interval deadline w (Inr \<lparr>bs_entries = [], bs_next_start_position = bp_start_log_position req\<rparr>) w"
  unfolding poll_outcome_def by (rule exI[of _ "[]"]) (use assms in \<open>simp add: after_naps_def\<close>)

lemma poll_outcome_nap:
  assumes "\<not> bp_start_log_position req < mem_tail w b" "0 < d" "d \<le> interval" "\<And>w. mw_elapsed (others w) = mw_elapsed w"
    and "poll_outcome mb others req b interval deadline (others (sim_sleep d w)) r w'"
  shows "poll_outcome mb others req b interval deadline w r w'"
proof -
  let ?w = "others (sim_sleep d w)"
  have step: "after_naps others (d # ds) w = after_naps others ds ?w" for ds by (simp add: after_naps_def)
  obtain ds where ds: "\<forall>d \<in> set ds. 0 < d \<and> d \<le> interval" "mw_elapsed ?w + sum_list ds \<le> deadline"
    "\<forall>k < length ds. mem_tail (after_naps others (take k ds) ?w) b \<le> bp_start_log_position req"
    "let w1 = after_naps others ds ?w in
      if bp_start_log_position req < mem_tail w1 b
      then (case mem_read_next mb \<lparr>rn_bus_id = Some b, rn_start_log_position = bp_start_log_position req,
                rn_end_log_position = mem_tail w1 b, rn_max_entries = bp_max_entries req, rn_filter = bp_filter req\<rparr> w1 of
              (x, w2) \<Rightarrow> w' = w2 \<and> r = map_sum id (\<lambda>resp. \<lparr>bs_entries = rr_entries resp, bs_next_start_position = rr_next_start_position resp\<rparr>) x)
      else mw_elapsed ?w + sum_list ds = deadline \<and> w' = w1 \<and> r = Inr \<lparr>bs_entries = [], bs_next_start_position = bp_start_log_position req\<rparr>"
    using assms(5) unfolding poll_outcome_def by blast
  have "mem_tail (after_naps others (take k (d # ds)) w) b \<le> bp_start_log_position req" if "k < length (d # ds)" for k
    using that ds(3) assms(1) by (cases k) (auto simp: step, simp add: after_naps_def)
  then show ?thesis unfolding poll_outcome_def
    using ds assms(2-4) by (intro exI[of _ "d # ds"]) (simp add: step Let_def add.assoc split: if_splits)
qed

lemma validate_bus_id_Inr: "validate_bus_id bid = Inr b \<Longrightarrow> bid = Some b"
  by (auto simp: validate_bus_id_def split: option.splits)

lemma blocking_poll_loop_by_deadline:
  assumes others: "\<And>w. mw_elapsed (others w) = mw_elapsed w" and interval: "i = (case interval of Some i \<Rightarrow> i | None \<Rightarrow> DEFAULT_POLL_INTERVAL)" "0 < i"
    and valid: "validate_bus_id (bp_bus_id req) = Inr b" and "mw_elapsed w \<le> deadline"
  shows "\<exists>r w'. blocking_poll_loop (memory_bus \<lparr>mb_environment = busy_environment bo others, mb_ttl = ttl\<rparr>) (busy_environment bo others)
      req interval deadline w = Some (r, w') \<and>
    poll_outcome \<lparr>mb_environment = busy_environment bo others, mb_ttl = ttl\<rparr> others req b i deadline w r w'"
  using assms(5)
proof (induction "deadline - mw_elapsed w" arbitrary: w rule: less_induct)
  case less
  let ?mb = "\<lparr>mb_environment = busy_environment bo others, mb_ttl = ttl\<rparr>"
  let ?start = "bp_start_log_position req"
  have id: "bp_bus_id req = Some b" using valid by (rule validate_bus_id_Inr)
  have tail: "bus_check_tail (memory_bus ?mb) (bp_bus_id req) w = (Inr (mem_tail w b), w)"
    using valid by (simp add: memory_bus_def mem_check_tail_def)
  consider (found) "?start < mem_tail w b" | (late) "\<not> ?start < mem_tail w b" "mw_elapsed w = deadline"
    | (waits) "\<not> ?start < mem_tail w b" "mw_elapsed w < deadline" using less.prems by linarith
  then show ?case
  proof cases
    case found
    let ?req = "\<lparr>rn_bus_id = Some b, rn_start_log_position = ?start, rn_end_log_position = mem_tail w b,
        rn_max_entries = bp_max_entries req, rn_filter = bp_filter req\<rparr>"
    obtain x w' where read: "mem_read_next ?mb ?req w = (x, w')" by fastforce
    have "blocking_poll_loop (memory_bus ?mb) (busy_environment bo others) req interval deadline w =
        Some (map_sum id (\<lambda>resp. \<lparr>bs_entries = rr_entries resp, bs_next_start_position = rr_next_start_position resp\<rparr>) x, w')"
      using found tail read id by (subst blocking_poll_loop.simps) (cases x; simp add: memory_bus_def bindE_def ret_def)
    then show ?thesis using poll_outcome_now[OF found less.prems read refl] by blast
  next
    case late
    then show ?thesis using tail poll_outcome_late[OF late] by (subst blocking_poll_loop.simps) simp
  next
    case waits
    let ?d = "min i (deadline - mw_elapsed w)"
    let ?w = "others (sim_sleep ?d w)"
    have d: "0 < ?d" "?d \<le> i" using waits(2) interval(2) by simp_all
    have "mw_elapsed ?w = mw_elapsed w + ?d" using others by simp
    then have "deadline - mw_elapsed ?w < deadline - mw_elapsed w" "mw_elapsed ?w \<le> deadline" using waits(2) d by linarith+
    from less.hyps[OF this] obtain r w' where run: "blocking_poll_loop (memory_bus ?mb) (busy_environment bo others) req interval deadline ?w = Some (r, w')"
      "poll_outcome ?mb others req b i deadline ?w r w'" by blast
    have "blocking_poll_loop (memory_bus ?mb) (busy_environment bo others) req interval deadline w = Some (r, w')"
      using run(1) waits tail interval(1) by (subst blocking_poll_loop.simps) simp
    then show ?thesis using poll_outcome_nap[OF waits(1) d others run(2)] by blast
  qed
qed



end
