(* ===== verification/Storage.thy ===== *)
theory Storage
  imports Retry Memory_Bus
begin

text \<open>
  The engine's key-value store (\<open>logact/commit_service/impls/v1/engine/src\<close>): the
  \<open>Storage\<close> trait with compare-and-swap writes and its in-memory implementation
  (\<open>storage.rs\<close>), the key-prefixing adapter (\<open>scoped_storage.rs\<close>), the error types
  of the apply layer (\<open>applicator.rs\<close>, \<open>applicator/storage_write_result.rs\<close>) and the
  retry classification of storage races (\<open>storage_concurrency_retry.rs\<close>).  Stored
  bytes are a type parameter \<open>'b\<close>: they are only produced and read by codecs.
  The locale \<open>cas_store\<close> is the contract the engine relies on.
\<close>

section \<open>The trait and its in-memory implementation\<close>

datatype storage_error = TransactionConflict | StorageTimeout | BackendUnavailable | InternalError

record ('b, 'w) storage =
  st_get :: "string \<Rightarrow> ('w, storage_error, ('b \<times> int) option) eff"
  st_put :: "string \<Rightarrow> 'b \<Rightarrow> int option \<Rightarrow> int \<Rightarrow> ('w, storage_error, bool) eff"

text \<open>The world of an engine node: the in-memory bus, the clock, and the store's data.\<close>
record 'b eng_world = mem_world +
  ew_data :: "string \<rightharpoonup> 'b \<times> int"

definition in_memory_get :: "string \<Rightarrow> (('b, 'z) eng_world_scheme, storage_error, ('b \<times> int) option) eff" where
  "in_memory_get key w = (Inr (ew_data w key), w)"

definition in_memory_put :: "string \<Rightarrow> 'b \<Rightarrow> int option \<Rightarrow> int \<Rightarrow> (('b, 'z) eng_world_scheme, storage_error, bool) eff" where
  "in_memory_put key v expected new_position w =
     (let current = map_option snd (ew_data w key) in
      if current \<noteq> expected then (Inr False, w)
      else if (case current of Some pos \<Rightarrow> new_position \<le> pos | None \<Rightarrow> False) then (Inr False, w)
      else (Inr True, w\<lparr>ew_data := (ew_data w)(key \<mapsto> (v, new_position))\<rparr>))"

definition in_memory_storage :: "('b, ('b, 'z) eng_world_scheme) storage" where
  "in_memory_storage = \<lparr>st_get = in_memory_get, st_put = in_memory_put\<rparr>"

section \<open>Scoped storage\<close>

definition scoped_key :: "string \<Rightarrow> string \<Rightarrow> string" where
  "scoped_key pfx key = pfx @ key"

definition scoped_storage :: "string \<Rightarrow> ('b, 'w) storage \<Rightarrow> ('b, 'w) storage" where
  "scoped_storage pfx inner =
     \<lparr>st_get = (\<lambda>key. st_get inner (scoped_key pfx key)),
      st_put = (\<lambda>key v expected new_position. st_put inner (scoped_key pfx key) v expected new_position)\<rparr>"

section \<open>Errors of the apply layer\<close>

datatype malformed_policy_batch_kind = MP_PolicyBatch | MP_AddVoter | MP_RemoveVoter | MP_DeciderPolicy

datatype deprecated_operation_kind = DO_AddVoter | DO_RemoveVoter | DO_SetDeciderPolicy

datatype storage_owner = OwnerEngine | OwnerVoter | OwnerDecider

text \<open>\<open>ConcurrencyError\<close>: three variants with the same fields, told apart by their owner.\<close>
datatype concurrency_error =
  ConcurrencyError (ce_owner: storage_owner) (ce_bus_id: string) (ce_position: int) (ce_source: "storage_error option")

datatype apply_error =
    StalePosition int int
  | MissingHeader
  | InvalidEngineState
  | MalformedPolicy malformed_policy_batch_kind
  | DeprecatedOperation deprecated_operation_kind
  | ApplyStorage storage_error
  | Concurrency concurrency_error
  | ApplyBus bus_error
  | Backend

definition conflict :: "storage_owner \<Rightarrow> string \<Rightarrow> int \<Rightarrow> storage_error option \<Rightarrow> apply_error" where
  "conflict owner bus_id position src = Concurrency (ConcurrencyError owner bus_id position src)"

fun into_apply_result :: "storage_owner \<Rightarrow> string \<Rightarrow> int \<Rightarrow> storage_error + bool \<Rightarrow> apply_error + unit" where
  "into_apply_result owner bus_id position (Inr True) = Inr ()"
| "into_apply_result owner bus_id position (Inr False) = Inl (conflict owner bus_id position None)"
| "into_apply_result owner bus_id position (Inl TransactionConflict) =
     Inl (conflict owner bus_id position (Some TransactionConflict))"
| "into_apply_result owner bus_id position (Inl e) = Inl (ApplyStorage e)"

text \<open>\<open>storage_write.await.into_..._apply_result(bus_id, position)?\<close>\<close>
definition apply_write :: "storage_owner \<Rightarrow> string \<Rightarrow> int \<Rightarrow> ('w, storage_error, bool) eff \<Rightarrow> ('w, apply_error, unit) eff" where
  "apply_write owner bus_id position m w = (case m w of (r, w') \<Rightarrow> (into_apply_result owner bus_id position r, w'))"

section \<open>Which storage races are retried\<close>

definition is_cas_rejection :: "concurrency_error \<Rightarrow> bool" where
  "is_cas_rejection e = (ce_source e = None)"

definition is_transaction_conflict :: "concurrency_error \<Rightarrow> bool" where
  "is_transaction_conflict e = (ce_source e = Some TransactionConflict)"

text \<open>\<open>ConcurrencyRetryPolicy::decide\<close>; the state is \<open>cas_retry_attempted\<close>.\<close>
definition concurrency_decide :: "concurrency_error \<Rightarrow> bool \<Rightarrow> retry_decision \<times> bool" where
  "concurrency_decide e attempted =
     (if is_cas_rejection e then
        if attempted then (Stop, attempted) else (RetryImmediately, True)
      else if is_transaction_conflict e then (RetryWithBackoff, attempted)
      else (Stop, attempted))"

section \<open>The contract\<close>

text \<open>
  Positions stored under a key never decrease and identify the value; \<open>get\<close> reads the store at
  some moment of the call; \<open>put\<close> either leaves the store to others or, at some moment at which
  the current position is the expected one and below the new one, writes.  A failed \<open>put\<close> may
  have written.
\<close>

definition store_grows :: "(string \<Rightarrow> ('b \<times> int) option) \<Rightarrow> (string \<Rightarrow> ('b \<times> int) option) \<Rightarrow> bool" where
  "store_grows s s' \<longleftrightarrow>
     (\<forall>k v p. s k = Some (v, p) \<longrightarrow> (\<exists>v' p'. s' k = Some (v', p') \<and> p \<le> p' \<and> (p' = p \<longrightarrow> v' = v)))"

definition cas_allowed :: "('b \<times> int) option \<Rightarrow> int option \<Rightarrow> int \<Rightarrow> bool" where
  "cas_allowed cur expected new_position \<longleftrightarrow>
     map_option snd cur = expected \<and> (case expected of Some p \<Rightarrow> p < new_position | None \<Rightarrow> True)"

locale cas_store =
  fixes S :: "('b, 'w) storage"
    and data :: "'w \<Rightarrow> string \<Rightarrow> ('b \<times> int) option"
    and evolves :: "'w \<Rightarrow> 'w \<Rightarrow> bool"
    and writes :: "'w \<Rightarrow> string \<Rightarrow> 'b \<times> int \<Rightarrow> 'w \<Rightarrow> bool"
  assumes evolves_refl: "evolves w w"
    and evolves_trans: "evolves w w1 \<Longrightarrow> evolves w1 w2 \<Longrightarrow> evolves w w2"
    and evolves_data: "evolves w w' \<Longrightarrow> store_grows (data w) (data w')"
    and writes_data: "writes w k x w' \<Longrightarrow> data w' = (data w)(k \<mapsto> x)"
    and get_law: "st_get S k w = (g, w') \<Longrightarrow>
        \<exists>w1. evolves w w1 \<and> evolves w1 w' \<and> (\<forall>x. g = Inr x \<longrightarrow> x = data w1 k)"
    and put_law: "st_put S k v expected n w = (r, w') \<Longrightarrow>
        (evolves w w' \<and> r \<noteq> Inr True) \<or>
        (\<exists>w1 w2. evolves w w1 \<and> cas_allowed (data w1 k) expected n \<and> writes w1 k (v, n) w2 \<and>
           evolves w2 w' \<and> r \<noteq> Inr False)"

lemma store_grows_refl: "store_grows s s"
  by (simp add: store_grows_def)

lemma store_grows_trans: "store_grows s s' \<Longrightarrow> store_grows s' s'' \<Longrightarrow> store_grows s s''"
  by (fastforce simp: store_grows_def)

lemma store_grows_write: "cas_allowed (s k) expected n \<Longrightarrow> store_grows s (s(k \<mapsto> (v, n)))"
  by (auto simp: store_grows_def cas_allowed_def split: option.splits)

lemma cas_lost:
  assumes "cas_allowed c e n" "s k = c" "store_grows (s(k \<mapsto> (v, n))) s'"
  shows "\<not> cas_allowed (s' k) e n'"
proof -
  obtain v' p' where s': "s' k = Some (v', p')" "n \<le> p'"
    using assms(3) by (force simp: store_grows_def)
  then show ?thesis
    using assms(1) by (cases e) (auto simp: cas_allowed_def)
qed

context cas_store
begin

lemma put_grows:
  assumes "st_put S k v expected n w = (r, w')"
  shows "store_grows (data w) (data w')"
  using put_law[OF assms] evolves_data writes_data store_grows_write store_grows_trans by metis

text \<open>No lost update: once a write with some expected position is acknowledged, no later write with
  the same expectation is.\<close>
lemma put_exclusive:
  assumes "st_put S k v expected n w = (Inr True, w1)" "evolves w1 w2"
    and "st_put S k v' expected n' w2 = (r, w3)"
  shows "r \<noteq> Inr True"
proof
  assume "r = Inr True"
  obtain a b where first: "cas_allowed (data a k) expected n" "writes a k (v, n) b" "evolves b w1"
    using put_law[OF assms(1)] by blast
  obtain c d where second: "evolves w2 c" "cas_allowed (data c k) expected n'"
    using put_law[OF assms(3)] \<open>r = Inr True\<close> by blast
  have "store_grows ((data a)(k \<mapsto> (v, n))) (data c)"
    using writes_data[OF first(2)] evolves_data evolves_trans first(3) assms(2) second(1) by metis
  from cas_lost[OF first(1) refl this] second(2) show False by blast
qed

end

lemma in_memory_put_cases:
  obtains (rejected) "in_memory_put k v expected n w = (Inr False, w)" "\<not> cas_allowed (ew_data w k) expected n"
  | (written) "in_memory_put k v expected n w = (Inr True, w\<lparr>ew_data := (ew_data w)(k \<mapsto> (v, n))\<rparr>)"
      "cas_allowed (ew_data w k) expected n"
  by (cases "cas_allowed (ew_data w k) expected n")
    (auto simp: in_memory_put_def cas_allowed_def Let_def split: option.splits if_splits)

text \<open>The relation the in-memory instance moves along, and its writes.\<close>
definition data_evolves :: "('b, 'z) eng_world_scheme \<Rightarrow> ('b, 'z) eng_world_scheme \<Rightarrow> bool" where
  "data_evolves w w' = store_grows (ew_data w) (ew_data w')"

definition data_writes :: "('b, 'z) eng_world_scheme \<Rightarrow> string \<Rightarrow> 'b \<times> int \<Rightarrow> ('b, 'z) eng_world_scheme \<Rightarrow> bool" where
  "data_writes w k x w' \<longleftrightarrow> w' = w\<lparr>ew_data := (ew_data w)(k \<mapsto> x)\<rparr>"

interpretation mem_store: cas_store in_memory_storage ew_data data_evolves data_writes
proof (standard, goal_cases)
  case (5 k w g w')
  then show ?case
    by (intro exI[of _ w]) (auto simp: in_memory_storage_def in_memory_get_def data_evolves_def store_grows_refl)
next
  case (6 k v expected n w r w')
  show ?case
  proof (cases rule: in_memory_put_cases[of k v expected n w])
    case rejected
    then show ?thesis using 6 by (auto simp: in_memory_storage_def data_evolves_def store_grows_refl)
  next
    case written
    then show ?thesis using 6
      by (intro disjI2 exI[of _ w] exI[of _ w'])
        (auto simp: in_memory_storage_def data_evolves_def data_writes_def store_grows_refl)
  qed
qed (auto simp: data_evolves_def store_grows_refl data_writes_def intro: store_grows_trans)

text \<open>A scope over a store is a store, with the scoped view of the data.\<close>
definition scoped_data :: "string \<Rightarrow> ('w \<Rightarrow> string \<Rightarrow> 'x) \<Rightarrow> 'w \<Rightarrow> string \<Rightarrow> 'x" where
  "scoped_data pfx dat w k = dat w (scoped_key pfx k)"

lemma scoped_key_inject [simp]: "scoped_key pfx k = scoped_key pfx k' \<longleftrightarrow> k = k'"
  by (simp add: scoped_key_def)

locale scoped_cas_store = cas_store S data evolves writes
  for S :: "('b, 'w) storage" and data evolves writes +
  fixes pfx :: string

sublocale scoped_cas_store \<subseteq> scoped: cas_store "scoped_storage pfx S" "scoped_data pfx data" evolves
  "\<lambda>w k. writes w (scoped_key pfx k)"
proof (standard, goal_cases)
  case (3 w w')
  from evolves_data[OF this] show ?case
    unfolding store_grows_def scoped_data_def by blast
next
  case (4 w k x w')
  from writes_data[OF this] show ?case by (auto simp: scoped_data_def)
next
  case (5 k w r w')
  then show ?case using get_law[of "scoped_key pfx k" w r w'] by (simp add: scoped_storage_def scoped_data_def)
next
  case (6 k v expected n w r w')
  then show ?case using put_law[of "scoped_key pfx k" v expected n w r w']
    by (simp add: scoped_storage_def scoped_data_def)
qed (auto intro: evolves_refl evolves_trans)

interpretation mem_scoped: scoped_cas_store in_memory_storage ew_data data_evolves data_writes pfx for pfx
  by unfold_locales

lemma scopes_disjoint:
  assumes "\<not> prefix p q" "\<not> prefix q p"
  shows "scoped_key p k \<noteq> scoped_key q k'"
  using assms by (auto simp: scoped_key_def append_eq_append_conv2 prefix_def)

lemma concurrency_decide_simps [simp]:
  "concurrency_decide (ConcurrencyError ow b p None) False = (RetryImmediately, True)"
  "concurrency_decide (ConcurrencyError ow b p None) True = (Stop, True)"
  "concurrency_decide (ConcurrencyError ow b p (Some TransactionConflict)) a = (RetryWithBackoff, a)"
  by (simp_all add: concurrency_decide_def is_cas_rejection_def is_transaction_conflict_def)

lemma wp_apply_write [wp_rules]:
  "wp (apply_write ow b p m) Q E w =
   (case m w of (r, w') \<Rightarrow> (case into_apply_result ow b p r of Inl e \<Rightarrow> E e w' | Inr u \<Rightarrow> Q u w'))"
  by (simp add: wp_def apply_write_def split: prod.split sum.split)

lemma into_apply_result_Ok_iff [simp]: "into_apply_result ow b p r = Inr () \<longleftrightarrow> r = Inr True"
  by (cases "(ow, b, p, r)" rule: into_apply_result.cases) (simp_all)

text \<open>
  An operation whose compare-and-swap keeps being rejected is tried exactly twice: the first
  rejection is retried at once, the second one ends the retries without any sleep.
\<close>
theorem rejected_cas_tried_twice:
  assumes "0 < rc_max_retries cfg" "\<And>w. fst (operation w) = Inl (ConcurrencyError ow b p None)"
  shows "\<exists>w'. retry (lift_env env) cfg (counted operation) concurrency_decide False (w, 0) =
    (Inl (Stopped (ConcurrencyError ow b p None)), (w', 2))"
proof -
  obtain n where n: "rc_max_retries cfg = Suc n" using assms(1) gr0_conv_Suc by auto
  obtain w1 where w1: "operation w = (Inl (ConcurrencyError ow b p None), w1)" by (metis assms(2) prod.collapse)
  obtain w2 where w2: "operation w1 = (Inl (ConcurrencyError ow b p None), w2)" by (metis assms(2) prod.collapse)
  show ?thesis
    by (intro exI[of _ w2], simp add: retry_def n, subst retry_loop.simps, simp add: counted_def w1,
        subst retry_loop.simps, simp add: counted_def w2)
qed

definition always_rejected :: "(nat, concurrency_error, unit) eff" where
  "always_rejected w = (Inl (ConcurrencyError OwnerEngine ''bus'' 0 None), Suc w)"

definition still_environment :: "nat environment" where
  "still_environment = \<lparr>env_unsafe_wall_time = (\<lambda>w. (0, w)), env_monotonic_time = (\<lambda>w. (0, w)),
     env_sleep = (\<lambda>_ w. w), env_backoff = (\<lambda>u w. (u, w))\<rparr>"

theorem rejected_cas_tried_twice_witness:
  "\<exists>w'. retry (lift_env still_environment) \<lparr>rc_max_retries = 7, rc_initial_backoff = 1, rc_max_backoff = 10\<rparr>
     (counted always_rejected) concurrency_decide False (0, 0) =
    (Inl (Stopped (ConcurrencyError OwnerEngine ''bus'' 0 None)), (w', 2))"
  by (rule rejected_cas_tried_twice) (simp_all add: always_rejected_def)

text \<open>
  No lost update: once a write expecting some position is acknowledged, no later write with the same
  expectation on that key is, whatever else the store's clients write in between.
\<close>
theorem in_memory_no_lost_update:
  assumes "st_put in_memory_storage k v expected n w = (Inr True, w1)" "data_evolves w1 w2"
  shows "fst (st_put in_memory_storage k v' expected n' w2) \<noteq> Inr True"
  using mem_store.put_exclusive[OF assms, of v' n'] by (metis prod.collapse)

definition one_key_world :: "nat eng_world" where
  "one_key_world = \<lparr>mw_buses = Map.empty, mw_elapsed = 0, mw_noise = [], ew_data = [''k'' \<mapsto> (1, 3)]\<rparr>"

theorem in_memory_no_lost_update_witness:
  "fst (st_put in_memory_storage ''k'' 9 (Some 3) 5 (one_key_world\<lparr>ew_data := [''k'' \<mapsto> (7, 4)]\<rparr>)) \<noteq> Inr True"
proof -
  have "st_put in_memory_storage ''k'' 7 (Some 3) 4 one_key_world = (Inr True, one_key_world\<lparr>ew_data := [''k'' \<mapsto> (7, 4)]\<rparr>)"
    by (simp add: in_memory_storage_def in_memory_put_def one_key_world_def Let_def)
  from in_memory_no_lost_update[OF this, of "one_key_world\<lparr>ew_data := [''k'' \<mapsto> (7, 4)]\<rparr>" 9 5] show ?thesis
    by (simp add: data_evolves_def store_grows_refl)
qed

text \<open>
  Scopes whose prefixes do not extend one another are isolated: a write through one scope leaves every
  read through the other scope as it was.
\<close>
theorem scopes_isolated:
  assumes "\<not> prefix p q" "\<not> prefix q p" "st_put (scoped_storage p in_memory_storage) k v expected n w = (r, w')"
  shows "st_get (scoped_storage q in_memory_storage) k' w' = (fst (st_get (scoped_storage q in_memory_storage) k' w), w')"
proof -
  have "ew_data w' (scoped_key q k') = ew_data w (scoped_key q k')"
    using assms(3) scopes_disjoint[OF assms(1,2), of k k']
    by (cases rule: in_memory_put_cases[of "scoped_key p k" v expected n w])
      (auto simp: scoped_storage_def in_memory_storage_def)
  then show ?thesis by (simp add: scoped_storage_def in_memory_storage_def in_memory_get_def)
qed

theorem scopes_isolated_witness:
  "st_get (scoped_storage ''b/'' in_memory_storage) ''k'' (snd (st_put (scoped_storage ''a/'' in_memory_storage) ''k'' 1 None 0 one_key_world)) =
   (Inr None, snd (st_put (scoped_storage ''a/'' in_memory_storage) ''k'' 1 None 0 one_key_world))"
  using scopes_isolated[of "''a/''" "''b/''" "''k''" 1 None 0 one_key_world
      "fst (st_put (scoped_storage ''a/'' in_memory_storage) ''k'' 1 None 0 one_key_world)"
      "snd (st_put (scoped_storage ''a/'' in_memory_storage) ''k'' 1 None 0 one_key_world)" "''k''"]
  by (simp add: scoped_storage_def in_memory_storage_def in_memory_get_def scoped_key_def one_key_world_def)

end
