(* ===== verification/Policy.thy ===== *)
theory Policy
  imports Storage
begin

text \<open>
  Desired policy (\<open>logact/commit_service/api/src/policy.rs\<close>), the planner that turns a
  desired policy into a batch of changes (\<open>policy.rs\<close> of the engine), the
  compare-and-swap register that stores a desired policy (\<open>policy_register.rs\<close>) and
  the provider that reads it (\<open>synchronous_register_provider.rs\<close>).  The protobuf
  codec of \<open>PolicyState\<close> is a parameter.
\<close>

section \<open>Policy states\<close>

record policy_state =
  pol_decider_policy :: "int option"
  pol_voters :: "voter_config hash_map"

record versioned_policy_state =
  vps_state :: policy_state
  vps_version :: int

definition policy_state_default :: policy_state where
  "policy_state_default = \<lparr>pol_decider_policy = None, pol_voters = []\<rparr>"

section \<open>Planning\<close>

datatype plan_error = NoDeciderPolicy | UnrecognizedDecider int | VoterConfigChanged string

text \<open>The loop over the desired voters.\<close>
fun plan_adds :: "voter_config hash_map \<Rightarrow> voter_config hash_map \<Rightarrow> voter_op hash_map \<Rightarrow> plan_error + voter_op hash_map" where
  "plan_adds current [] ops = Inr ops"
| "plan_adds current ((voter_id, config) # rest) ops =
     (case hm_get current voter_id of
        Some c \<Rightarrow> if c = config then plan_adds current rest ops else Inl (VoterConfigChanged voter_id)
      | None \<Rightarrow> plan_adds current rest (hm_insert voter_id (Some (AddOp (Some config))) ops))"

text \<open>The loop over the current voters.\<close>
definition plan_removes :: "voter_config hash_map \<Rightarrow> voter_config hash_map \<Rightarrow> voter_op hash_map \<Rightarrow> voter_op hash_map" where
  "plan_removes current desired ops =
     fold (\<lambda>(voter_id, _) ops. if \<not> hm_contains desired voter_id then hm_insert voter_id (Some RemoveOp) ops else ops)
       current ops"

definition plan :: "policy_state \<Rightarrow> int option \<Rightarrow> versioned_policy_state \<Rightarrow> plan_error + policy_batch option" where
  "plan current current_version desired =
     (if (case current_version of Some v \<Rightarrow> vps_version desired \<le> v | None \<Rightarrow> False) then Inr None
      else
        (case pol_decider_policy (vps_state desired) of
           None \<Rightarrow> Inl NoDeciderPolicy
         | Some raw_decider \<Rightarrow>
             (case decider_policy_try_from raw_decider of
                None \<Rightarrow> Inl (UnrecognizedDecider raw_decider)
              | Some _ \<Rightarrow>
                  let batch_decider =
                        (if pol_decider_policy current \<noteq> pol_decider_policy (vps_state desired)
                         then pol_decider_policy (vps_state desired) else None)
                  in (case plan_adds (pol_voters current) (pol_voters (vps_state desired)) [] of
                        Inl e \<Rightarrow> Inl e
                      | Inr ops \<Rightarrow>
                          Inr (Some \<lparr>pb_decider_policy = batch_decider,
                            pb_voter_ops = plan_removes (pol_voters current) (pol_voters (vps_state desired)) ops,
                            pb_expected_current_version = current_version,
                            pb_new_version = vps_version desired\<rparr>)))))"

section \<open>The policy register\<close>

datatype policy_register_error =
    Uninitialized string
  | RegisterStorage storage_error
  | RegisterMalformed
  | GenerationOverflow int
  | ConcurrentUpdate string

record 'b policy_codec =
  encode_policy :: "policy_state \<Rightarrow> 'b"
  decode_policy :: "'b \<Rightarrow> policy_state option"

record ('b, 'w) policy_register =
  reg_storage :: "('b, 'w) storage"
  reg_codec :: "'b policy_codec"
  reg_key :: string

definition decode_policy_state :: "('b, 'w) policy_register \<Rightarrow> 'b \<Rightarrow> policy_register_error + policy_state" where
  "decode_policy_state r b = (case decode_policy (reg_codec r) b of None \<Rightarrow> Inl RegisterMalformed | Some s \<Rightarrow> Inr s)"

definition validate_policy_state :: "policy_state \<Rightarrow> policy_register_error + unit" where
  "validate_policy_state s =
     (case pol_decider_policy s of
        None \<Rightarrow> Inl RegisterMalformed
      | Some raw \<Rightarrow>
          if decider_policy_try_from raw = None then Inl RegisterMalformed
          else if list_ex (\<lambda>(_, config). config = None) (pol_voters s) then Inl RegisterMalformed
          else Inr ())"

definition read_validated :: "('b, 'w) policy_register \<Rightarrow> ('w, policy_register_error, versioned_policy_state) eff" where
  "read_validated r =
     bindE (map_errE RegisterStorage (st_get (reg_storage r) (reg_key r)))
       (\<lambda>stored. case stored of
          None \<Rightarrow> raise (Uninitialized (reg_key r))
        | Some (b, version) \<Rightarrow>
            bindE (liftR (decode_policy_state r b)) (\<lambda>state.
            bindE (liftR (validate_policy_state state)) (\<lambda>_.
              ret \<lparr>vps_state = state, vps_version = version\<rparr>)))"

definition i64_max :: int where "i64_max = 2 ^ 63 - 1"

text \<open>\<open>i64::checked_add\<close>\<close>
definition checked_add_i64 :: "int \<Rightarrow> int \<Rightarrow> int option" where
  "checked_add_i64 a b = (if i64_max < a + b \<or> a + b < - i64_max - 1 then None else Some (a + b))"

definition set_policy :: "('b, 'w) policy_register \<Rightarrow> policy_state \<Rightarrow> int option \<Rightarrow> ('w, policy_register_error, int) eff" where
  "set_policy r state expected_version =
     bindE (liftR (validate_policy_state state)) (\<lambda>_.
     bindE (liftR (case expected_version of
                     Some version \<Rightarrow>
                       (case checked_add_i64 version 1 of
                          None \<Rightarrow> Inl (GenerationOverflow version) | Some v \<Rightarrow> Inr v)
                   | None \<Rightarrow> Inr 0)) (\<lambda>new_version.
     bindE (map_errE RegisterStorage
              (st_put (reg_storage r) (reg_key r) (encode_policy (reg_codec r) state) expected_version new_version))
       (\<lambda>updated. if \<not> updated then raise (ConcurrentUpdate (reg_key r)) else ret new_version)))"

definition DEFAULT_POLICY_REGISTER_BOOTSTRAP_MAX_RETRIES :: nat where
  "DEFAULT_POLICY_REGISTER_BOOTSTRAP_MAX_RETRIES = 7"

definition default_policy_register_bootstrap_retry_config :: "retry_config option" where
  "default_policy_register_bootstrap_retry_config =
     retry_config_try_new DEFAULT_POLICY_REGISTER_BOOTSTRAP_MAX_RETRIES (from_millis 10) (from_millis 100)"

definition bootstrap_decide :: "policy_register_error \<Rightarrow> unit \<Rightarrow> retry_decision \<times> unit" where
  "bootstrap_decide e u = (if e = RegisterStorage TransactionConflict then RetryWithBackoff else Stop, u)"

definition bootstrap_policy_register_if_absent ::
  "('b, 'w) policy_register \<Rightarrow> policy_state \<Rightarrow> 'w environment \<Rightarrow> retry_config \<Rightarrow> ('w, policy_register_error, bool) eff" where
  "bootstrap_policy_register_if_absent r state env cfg =
     map_errE into_last_error
       (retry env cfg
          (matchE (set_policy r state None)
             (\<lambda>e. case e of ConcurrentUpdate _ \<Rightarrow> ret False | _ \<Rightarrow> raise e)
             (\<lambda>_. ret True))
          bootstrap_decide ())"

section \<open>The register as a policy provider\<close>

datatype provider_error = ProviderRegister policy_register_error | UnsupportedPolicy

text \<open>\<open>validate_policy\<close> is the closure the node supplies; \<open>None\<close> is its error.\<close>
definition provider_read :: "('b, 'w) policy_register \<Rightarrow> (policy_state \<Rightarrow> unit option) \<Rightarrow> string
    \<Rightarrow> ('w, provider_error, versioned_policy_state) eff" where
  "provider_read r validate_policy bus_id =
     bindE (map_errE ProviderRegister (read_validated r)) (\<lambda>desired.
       case validate_policy (vps_state desired) of
         None \<Rightarrow> raise UnsupportedPolicy
       | Some _ \<Rightarrow> ret desired)"

section \<open>Lemmas on planning\<close>

lemma plan_adds_result:
  assumes "plan_adds current desired ops = Inr ops'" "hm_wf desired"
  shows "(\<forall>k c. hm_get desired k = Some c \<longrightarrow> hm_get current k = None \<or> hm_get current k = Some c) \<and>
    (\<forall>k. hm_get ops' k = (case hm_get desired k of
        Some c \<Rightarrow> if hm_get current k = None then Some (Some (AddOp (Some c))) else hm_get ops k
      | None \<Rightarrow> hm_get ops k))"
  using assms
proof (induction current desired ops rule: plan_adds.induct)
  case (2 current v c rest ops)
  have fresh: "hm_get rest v = None" using 2(4) by (auto simp: map_of_eq_None_iff)
  show ?case
  proof (cases "hm_get current v")
    case None
    with 2 fresh show ?thesis by (auto split: option.splits)
  next
    case (Some c')
    then have "c' = c" using 2(3) by (auto split: if_splits)
    with 2 Some fresh show ?thesis by (auto split: option.splits)
  qed
qed simp

lemma hm_wf_plan_adds: "plan_adds current desired ops = Inr ops' \<Longrightarrow> hm_wf ops \<Longrightarrow> hm_wf ops'"
  by (induction current desired ops rule: plan_adds.induct) (auto split: option.splits if_splits)

lemma plan_removes_get:
  "hm_get (plan_removes current desired ops) k =
   (if hm_contains current k \<and> \<not> hm_contains desired k then Some (Some RemoveOp) else hm_get ops k)"
  unfolding plan_removes_def hm_contains_iff[of current]
  by (induction current arbitrary: ops) auto

lemma hm_wf_plan_removes: "hm_wf ops \<Longrightarrow> hm_wf (plan_removes current desired ops)"
  unfolding plan_removes_def
  by (induction current arbitrary: ops) auto

lemma plan_SomeD:
  assumes "plan current v desired = Inr (Some batch)" "hm_wf (pol_voters (vps_state desired))"
  shows "pb_expected_current_version batch = v" "pb_new_version batch = vps_version desired"
    and "\<And>w. v = Some w \<Longrightarrow> w < vps_version desired"
    and "\<exists>p. pol_decider_policy (vps_state desired) = Some (decider_policy_as_i32 p)"
    and "pb_decider_policy batch = (if pol_decider_policy current = pol_decider_policy (vps_state desired) then None
           else pol_decider_policy (vps_state desired))"
    and "hm_wf (pb_voter_ops batch)"
    and "\<And>k. hm_get (pb_voter_ops batch) k =
      (case hm_get (pol_voters (vps_state desired)) k of
         Some c \<Rightarrow> if hm_get (pol_voters current) k = None then Some (Some (AddOp (Some c))) else None
       | None \<Rightarrow> if hm_contains (pol_voters current) k then Some (Some RemoveOp) else None)"
    and "\<And>k c c'. hm_get (pol_voters (vps_state desired)) k = Some c \<Longrightarrow> hm_get (pol_voters current) k = Some c' \<Longrightarrow> c = c'"
proof -
  obtain ops raw p where p:
    "pol_decider_policy (vps_state desired) = Some raw" "decider_policy_try_from raw = Some p"
    "plan_adds (pol_voters current) (pol_voters (vps_state desired)) [] = Inr ops"
    "batch = \<lparr>pb_decider_policy = (if pol_decider_policy current \<noteq> pol_decider_policy (vps_state desired)
         then pol_decider_policy (vps_state desired) else None),
       pb_voter_ops = plan_removes (pol_voters current) (pol_voters (vps_state desired)) ops,
       pb_expected_current_version = v, pb_new_version = vps_version desired\<rparr>"
    and newer: "\<not> (case v of Some v \<Rightarrow> vps_version desired \<le> v | None \<Rightarrow> False)"
    using assms(1) by (auto simp: plan_def Let_def split: if_splits option.splits sum.splits)
  note adds = plan_adds_result[OF p(3) assms(2)]
  show "pb_expected_current_version batch = v" "pb_new_version batch = vps_version desired"
    and "pb_decider_policy batch = (if pol_decider_policy current = pol_decider_policy (vps_state desired) then None
           else pol_decider_policy (vps_state desired))"
    using p(4) by simp_all
  show "\<And>w. v = Some w \<Longrightarrow> w < vps_version desired" using newer by simp
  show "\<exists>p. pol_decider_policy (vps_state desired) = Some (decider_policy_as_i32 p)"
    using p(1) decider_policy_try_from_SomeD[OF p(2)] by auto
  show "hm_wf (pb_voter_ops batch)"
    using p(4) hm_wf_plan_removes hm_wf_plan_adds[OF p(3)] by simp
  show "hm_get (pb_voter_ops batch) k =
      (case hm_get (pol_voters (vps_state desired)) k of
         Some c \<Rightarrow> if hm_get (pol_voters current) k = None then Some (Some (AddOp (Some c))) else None
       | None \<Rightarrow> if hm_contains (pol_voters current) k then Some (Some RemoveOp) else None)" for k
    using adds by (auto simp: p(4) plan_removes_get hm_contains_def split: option.split)
  show "\<And>k c c'. hm_get (pol_voters (vps_state desired)) k = Some c \<Longrightarrow> hm_get (pol_voters current) k = Some c' \<Longrightarrow> c = c'"
    using adds by fastforce
qed

section \<open>Lemmas on the register\<close>

lemma validate_policy_state_Ok:
  "validate_policy_state s = Inr () \<longleftrightarrow>
   (\<exists>p. pol_decider_policy s = Some (decider_policy_as_i32 p)) \<and> (\<forall>c \<in> snd ` set (pol_voters s). c \<noteq> None)"
proof (cases "pol_decider_policy s")
  case (Some raw)
  have "decider_policy_try_from raw \<noteq> None \<longleftrightarrow> (\<exists>p. raw = decider_policy_as_i32 p)"
    using decider_policy_roundtrip decider_policy_try_from_SomeD by (metis option.exhaust option.distinct(1))
  then show ?thesis
    by (auto simp: validate_policy_state_def Some list_ex_iff) force
qed (simp add: validate_policy_state_def)

text \<open>What an acknowledged \<open>set_policy\<close> wrote, on every store that keeps the contract.\<close>

context cas_store
begin

lemma set_policy_ok:
  assumes "reg_storage r = S" "set_policy r state expected w = (Inr v, w')"
  shows "validate_policy_state state = Inr ()"
    and "v = (case expected of None \<Rightarrow> 0 | Some e \<Rightarrow> e + 1)"
    and "\<exists>w1 w2. evolves w w1 \<and> cas_allowed (data w1 (reg_key r)) expected v \<and>
           writes w1 (reg_key r) (encode_policy (reg_codec r) state, v) w2 \<and> evolves w2 w'"
proof -
  have valid: "validate_policy_state state = Inr ()"
    using assms(2) by (cases "validate_policy_state state") (auto simp: set_policy_def eff_defs)
  obtain n where n: "n = v" "n = (case expected of None \<Rightarrow> 0 | Some e \<Rightarrow> e + 1)"
    and put: "st_put S (reg_key r) (encode_policy (reg_codec r) state) expected n w = (Inr True, w')"
    using assms valid
    by (auto simp: set_policy_def eff_defs checked_add_i64_def split: option.splits if_splits sum.splits prod.splits)
  show "validate_policy_state state = Inr ()" by (rule valid)
  show "v = (case expected of None \<Rightarrow> 0 | Some e \<Rightarrow> e + 1)" using n by simp
  show "\<exists>w1 w2. evolves w w1 \<and> cas_allowed (data w1 (reg_key r)) expected v \<and>
           writes w1 (reg_key r) (encode_policy (reg_codec r) state, v) w2 \<and> evolves w2 w'"
    using put_law[OF put] n(1) by auto
qed

text \<open>Two writers that read the same generation cannot both replace it.\<close>
lemma set_policy_exclusive:
  assumes "reg_storage r = S" "set_policy r state expected w = (Inr v, w1)" "evolves w1 w2"
    and "set_policy r state' expected w2 = (res, w3)"
  shows "\<not> is_ok res"
proof
  assume "is_ok res"
  then obtain v' where res: "res = Inr v'" by (cases res) auto
  from set_policy_ok(3)[OF assms(1,2)] obtain a b where
    a: "cas_allowed (data a (reg_key r)) expected v" "evolves b w1"
       "data b = (data a)(reg_key r \<mapsto> (encode_policy (reg_codec r) state, v))"
    using writes_data by blast
  from set_policy_ok(3)[OF assms(1) assms(4)[unfolded res]] obtain c where
    c: "evolves w2 c" "cas_allowed (data c (reg_key r)) expected v'" by blast
  have "store_grows (data b) (data c)"
    using evolves_data evolves_trans a(2) assms(3) c(1) by metis
  with cas_lost[where s = "data a" and k = "reg_key r", OF a(1) refl] a(3) c(2) show False by metis
qed

end

section \<open>Properties\<close>

text \<open>
  A policy that \<open>set_policy\<close> acknowledges is the one read back, under the generation that follows the
  expected one (0 for the first), for every codec that decodes what it encodes.
\<close>
theorem set_policy_then_read:
  assumes "reg_storage r = in_memory_storage" "\<And>s. decode_policy (reg_codec r) (encode_policy (reg_codec r) s) = Some s"
    and "set_policy r state expected w = (Inr v, w')"
  shows "read_validated r w' = (Inr \<lparr>vps_state = state, vps_version = v\<rparr>, w') \<and>
    v = (case expected of None \<Rightarrow> 0 | Some e \<Rightarrow> e + 1)"
proof
  show "v = (case expected of None \<Rightarrow> 0 | Some e \<Rightarrow> e + 1)"
    using mem_store.set_policy_ok(2)[OF assms(1,3)] .
  have valid: "validate_policy_state state = Inr ()"
    using mem_store.set_policy_ok(1)[OF assms(1,3)] .
  have "in_memory_put (reg_key r) (encode_policy (reg_codec r) state) expected v w = (Inr True, w')"
    using assms(1,3) valid
    by (auto simp: set_policy_def eff_defs in_memory_storage_def split: option.splits if_splits sum.splits prod.splits)
  then have "ew_data w' (reg_key r) = Some (encode_policy (reg_codec r) state, v)"
    by (cases rule: in_memory_put_cases[of "reg_key r" "encode_policy (reg_codec r) state" expected v w]) auto
  then show "read_validated r w' = (Inr \<lparr>vps_state = state, vps_version = v\<rparr>, w')"
    by (simp add: read_validated_def eff_defs assms(1) in_memory_storage_def in_memory_get_def decode_policy_state_def
        assms(2) valid)
qed

definition plain_register :: "(policy_state, policy_state eng_world) policy_register" where
  "plain_register = \<lparr>reg_storage = in_memory_storage, reg_codec = \<lparr>encode_policy = id, decode_policy = Some\<rparr>, reg_key = ''policy''\<rparr>"

definition empty_store_world :: "policy_state eng_world" where
  "empty_store_world = \<lparr>mw_buses = Map.empty, mw_elapsed = 0, mw_noise = [], ew_data = Map.empty\<rparr>"

definition default_on :: policy_state where
  "default_on = \<lparr>pol_decider_policy = Some 1, pol_voters = []\<rparr>"

theorem set_policy_then_read_witness:
  "fst (read_validated plain_register (snd (set_policy plain_register default_on None empty_store_world))) =
   Inr \<lparr>vps_state = default_on, vps_version = 0\<rparr>"
proof -
  have "set_policy plain_register default_on None empty_store_world = (Inr 0, snd (set_policy plain_register default_on None empty_store_world))"
    by (simp add: set_policy_def eff_defs plain_register_def default_on_def empty_store_world_def in_memory_storage_def
        in_memory_put_def validate_policy_state_def decider_policy_try_from_def)
  from set_policy_then_read[OF _ _ this] show ?thesis by (simp add: plain_register_def)
qed

text \<open>
  Two writers that expect the same generation of the register cannot both succeed, whatever the other
  clients of the store do between the two writes.
\<close>
theorem set_policy_exclusive_writers:
  assumes "reg_storage r = in_memory_storage" "set_policy r state expected w = (Inr v, w1)" "data_evolves w1 w2"
  shows "\<exists>e. fst (set_policy r state' expected w2) = Inl e"
proof -
  obtain res w3 where s: "set_policy r state' expected w2 = (res, w3)" by fastforce
  from mem_store.set_policy_exclusive[OF assms s] show ?thesis using s by (cases res) auto
qed

theorem set_policy_exclusive_writers_witness:
  "\<exists>e. fst (set_policy plain_register default_on None (snd (set_policy plain_register default_on None empty_store_world))) = Inl e"
proof -
  have "set_policy plain_register default_on None empty_store_world = (Inr 0, snd (set_policy plain_register default_on None empty_store_world))"
    by (simp add: set_policy_def eff_defs plain_register_def default_on_def empty_store_world_def in_memory_storage_def
        in_memory_put_def validate_policy_state_def decider_policy_try_from_def)
  from set_policy_exclusive_writers[OF _ this] show ?thesis
    by (simp add: plain_register_def data_evolves_def store_grows_refl)
qed

end
