(* ===== verification/Applicators.thy ===== *)
theory Applicators
  imports Policy
begin

text \<open>
  The state machines the engine drives (\<open>logact/commit_service/impls/v1/engine/src\<close>):
  the persisted per-bus engine state (\<open>engine_state.rs\<close>) and decider state
  (\<open>decider_state.rs\<close>), the three deciders (\<open>policy_decider_applicator.rs\<close>), the
  decider factory of \<open>base_engine.rs\<close>, and the adapter that runs a stateless voter
  (\<open>stateless_voter_adapter.rs\<close>).  Protobuf codecs and voter evaluation are
  parameters.
\<close>

type_synonym 'w applicator = "string \<Rightarrow> bus_entry \<Rightarrow> ('w, apply_error, payload option) eff"

section \<open>Engine state\<close>

record versioned_policy =
  vp_policy :: int
  vp_id :: int

record per_bus_engine_state =
  es_voter_configs :: "any_message list"
  es_voters :: "voter_config hash_map"
  es_decider :: "versioned_policy option"
  es_applied_policy_version :: "int option"

definition engine_state_default :: per_bus_engine_state where
  "engine_state_default = \<lparr>es_voter_configs = [], es_voters = [], es_decider = None, es_applied_policy_version = None\<rparr>"

definition engine_state_key :: "string \<Rightarrow> string" where
  "engine_state_key bus_id = ''engine:state:'' @ bus_id"

record 'b engine_codec =
  encode_engine :: "per_bus_engine_state \<Rightarrow> 'b"
  decode_engine :: "'b \<Rightarrow> per_bus_engine_state option"

datatype engine_state_load_error = LoadStorage storage_error | LoadDecode

fun load_error_into_apply :: "engine_state_load_error \<Rightarrow> apply_error" where
  "load_error_into_apply (LoadStorage e) = ApplyStorage e"
| "load_error_into_apply LoadDecode = InvalidEngineState"

definition engine_state_load :: "'b engine_codec \<Rightarrow> ('b, 'w) storage \<Rightarrow> string
    \<Rightarrow> ('w, engine_state_load_error, per_bus_engine_state \<times> int option) eff" where
  "engine_state_load codec S bus_id =
     bindE (map_errE LoadStorage (st_get S (engine_state_key bus_id)))
       (\<lambda>stored. case stored of
          Some (b, pos) \<Rightarrow>
            (case decode_engine codec b of None \<Rightarrow> raise LoadDecode | Some s \<Rightarrow> ret (s, Some pos))
        | None \<Rightarrow> ret (engine_state_default, None))"

definition engine_state_save :: "'b engine_codec \<Rightarrow> per_bus_engine_state \<Rightarrow> ('b, 'w) storage \<Rightarrow> string \<Rightarrow> int option \<Rightarrow> int
    \<Rightarrow> ('w, storage_error, bool) eff" where
  "engine_state_save codec s S bus_id expected new_position =
     st_put S (engine_state_key bus_id) (encode_engine codec s) expected new_position"

section \<open>Decider state\<close>

record decider_state =
  ds_last_payload :: "payload option"
  ds_policy_state :: "any_message option"

definition decider_state_default :: decider_state where
  "decider_state_default = \<lparr>ds_last_payload = None, ds_policy_state = None\<rparr>"

text \<open>\<open>FirstBooleanWinsState\<close> has the single field \<open>pending\<close>.\<close>
record 'b decider_codec =
  encode_decider :: "decider_state \<Rightarrow> 'b"
  decode_decider :: "'b \<Rightarrow> decider_state option"
  encode_fbw :: "int option \<Rightarrow> string"
  decode_fbw :: "string \<Rightarrow> int option option"

definition FIRST_BOOLEAN_WINS_STATE_TYPE_URL :: string where
  "FIRST_BOOLEAN_WINS_STATE_TYPE_URL = ''logact.decider.FirstBooleanWinsState''"

text \<open>\<open>None\<close> is the decoding error.\<close>
definition fbw_decode_state :: "'b decider_codec \<Rightarrow> any_message option \<Rightarrow> int option option" where
  "fbw_decode_state codec st =
     (case st of Some a \<Rightarrow> decode_fbw codec (any_bytes a) | None \<Rightarrow> Some None)"

definition fbw_encode_state :: "'b decider_codec \<Rightarrow> int option \<Rightarrow> any_message" where
  "fbw_encode_state codec pending =
     \<lparr>type_url = FIRST_BOOLEAN_WINS_STATE_TYPE_URL, any_bytes = encode_fbw codec pending\<rparr>"

definition state_key :: "string \<Rightarrow> int option \<Rightarrow> string" where
  "state_key bus_id sid =
     (case sid of Some i \<Rightarrow> ''decider:state:'' @ bus_id @ '':'' @ show_int i
      | None \<Rightarrow> ''decider:state:'' @ bus_id @ '':unconfigured'')"

definition load_policy_state :: "'b decider_codec \<Rightarrow> ('b, 'w) storage \<Rightarrow> string \<Rightarrow> int option
    \<Rightarrow> ('w, apply_error, decider_state \<times> int option) eff" where
  "load_policy_state codec S bus_id sid =
     bindE (map_errE ApplyStorage (st_get S (state_key bus_id sid)))
       (\<lambda>stored. case stored of
          Some (b, position) \<Rightarrow>
            (case decode_decider codec b of None \<Rightarrow> raise Backend | Some s \<Rightarrow> ret (s, Some position))
        | None \<Rightarrow> ret (decider_state_default, None))"

definition save_policy_state :: "'b decider_codec \<Rightarrow> ('b, 'w) storage \<Rightarrow> string \<Rightarrow> int option \<Rightarrow> decider_state
    \<Rightarrow> int option \<Rightarrow> int \<Rightarrow> ('w, storage_error, bool) eff" where
  "save_policy_state codec S bus_id sid s expected position =
     st_put S (state_key bus_id sid) (encode_decider codec s) expected position"

section \<open>Decisions\<close>

definition vote_approved :: "vote \<Rightarrow> bool option" where
  "vote_approved v =
     (case abstract_vote v of
        Some (Some (BooleanVote approved)) \<Rightarrow> Some approved
      | _ \<Rightarrow> None)"

definition decision_payload :: "int \<Rightarrow> bool \<Rightarrow> string \<Rightarrow> payload" where
  "decision_payload intention_id approved reason =
     (let reason' = (if reason = [] then ''decided by policy'' else reason) in
      if approved then Some (Commit \<lparr>commit_intention_id = intention_id, commit_reason = reason'\<rparr>)
      else Some (Abort \<lparr>abort_intention_id = intention_id, abort_reason = reason'\<rparr>))"

text \<open>\<open>entry.payload.as_ref().and_then(|p| p.payload.as_ref())\<close>\<close>
definition inner_payload :: "bus_entry \<Rightarrow> payload_kind option" where
  "inner_payload e = (case entry_payload e of Some p \<Rightarrow> p | None \<Rightarrow> None)"

definition header_position :: "bus_entry \<Rightarrow> int option" where
  "header_position e = map_option log_position (entry_header e)"

section \<open>The deciders\<close>

definition on_by_default_apply :: "'w applicator" where
  "on_by_default_apply bus_id entry =
     (case header_position entry of
        None \<Rightarrow> raise MissingHeader
      | Some position \<Rightarrow>
          (case inner_payload entry of
             Some (Intention _) \<Rightarrow> ret (Some (decision_payload position True ''ON_BY_DEFAULT policy''))
           | _ \<Rightarrow> ret None))"

definition off_by_default_apply :: "'w applicator" where
  "off_by_default_apply bus_id entry =
     (case header_position entry of
        None \<Rightarrow> raise MissingHeader
      | Some position \<Rightarrow>
          (case inner_payload entry of
             Some (Intention _) \<Rightarrow> ret (Some (decision_payload position False ''OFF_BY_DEFAULT policy''))
           | _ \<Rightarrow> ret None))"

text \<open>The transition of FIRST_BOOLEAN_WINS: the new pending intention and the decision, if any.\<close>
definition fbw_transition :: "int option \<Rightarrow> int \<Rightarrow> payload_kind \<Rightarrow> int option \<times> payload option" where
  "fbw_transition pending position inner =
     (case inner of
        Intention _ \<Rightarrow> (Some position, None)
      | Vote v \<Rightarrow>
          if pending \<noteq> Some (vote_intention_id v) then (pending, None)
          else (case vote_approved v of
                  Some approved \<Rightarrow> (None, Some (decision_payload (vote_intention_id v) approved (vote_reason v)))
                | None \<Rightarrow> (pending, None))
      | _ \<Rightarrow> (pending, None))"

text \<open>The part of \<open>apply\<close> after the position checks: take the transition and save it.\<close>
definition fbw_advance :: "'b decider_codec \<Rightarrow> ('b, 'w) storage \<Rightarrow> int option \<Rightarrow> string \<Rightarrow> int \<Rightarrow> payload_kind
    \<Rightarrow> decider_state \<Rightarrow> int option \<Rightarrow> ('w, apply_error, payload option) eff" where
  "fbw_advance codec S sid bus_id position inner st stored_position =
     (case fbw_decode_state codec (ds_policy_state st) of
        None \<Rightarrow> raise Backend
      | Some pending \<Rightarrow>
          (case fbw_transition pending position inner of (pending', decision) \<Rightarrow>
             bindE (apply_write OwnerDecider bus_id position
                      (save_policy_state codec S bus_id sid
                        \<lparr>ds_last_payload = decision, ds_policy_state = Some (fbw_encode_state codec pending')\<rparr>
                        stored_position position))
               (\<lambda>_. ret decision)))"

definition first_boolean_wins_apply :: "'b decider_codec \<Rightarrow> ('b, 'w) storage \<Rightarrow> int option \<Rightarrow> 'w applicator" where
  "first_boolean_wins_apply codec S sid bus_id entry =
     (case header_position entry of
        None \<Rightarrow> raise MissingHeader
      | Some position \<Rightarrow>
          (case inner_payload entry of
             None \<Rightarrow> ret None
           | Some inner \<Rightarrow>
               bindE (load_policy_state codec S bus_id sid) (\<lambda>(st, stored_position).
                 case stored_position of
                   Some last_position \<Rightarrow>
                     if position < last_position then raise (StalePosition position last_position)
                     else if position = last_position then ret (ds_last_payload st)
                     else fbw_advance codec S sid bus_id position inner st stored_position
                 | None \<Rightarrow> fbw_advance codec S sid bus_id position inner st stored_position)))"

text \<open>\<open>DeciderFactoryImpl::create_decider\<close>\<close>
fun create_decider :: "'b decider_codec \<Rightarrow> ('b, 'w) storage \<Rightarrow> int option \<Rightarrow> decider_policy \<Rightarrow> 'w applicator" where
  "create_decider codec S sid OnByDefault = on_by_default_apply"
| "create_decider codec S sid OffByDefault = off_by_default_apply"
| "create_decider codec S sid FirstBooleanWins = first_boolean_wins_apply codec S sid"

section \<open>The stateless voter adapter\<close>

text \<open>\<open>voter_evaluate bus_id text\<close> is the wrapped \<open>Voter::evaluate\<close>: a verdict and a reason.\<close>
record 'w immutable_voter =
  iv_voter_id :: string
  iv_config :: voter_config
  iv_evaluate :: "string \<Rightarrow> string \<Rightarrow> 'w \<Rightarrow> (bool \<times> string) \<times> 'w"

definition immutable_voter_vote :: "'w immutable_voter \<Rightarrow> string \<Rightarrow> int \<Rightarrow> string \<Rightarrow> 'w \<Rightarrow> payload \<times> 'w" where
  "immutable_voter_vote v bus_id intention_id text w =
     (case iv_evaluate v bus_id text w of ((approved, reason), w') \<Rightarrow>
        (Some (Vote \<lparr>abstract_vote = Some (Some (BooleanVote approved)), vote_intention_id = intention_id,
                     vote_voter_config = Some (iv_config v), vote_voter_id = iv_voter_id v,
                     vote_reason = reason\<rparr>), w'))"

definition stateless_voter_apply :: "'w immutable_voter \<Rightarrow> 'w applicator" where
  "stateless_voter_apply v bus_id entry =
     (case header_position entry of
        None \<Rightarrow> raise MissingHeader
      | Some position \<Rightarrow>
          (case inner_payload entry of
             Some (Intention i) \<Rightarrow>
               (case intention_body i of
                  Some (StringIntention text) \<Rightarrow>
                    (\<lambda>w. case immutable_voter_vote v bus_id position text w of (p, w') \<Rightarrow> (Inr (Some p), w'))
                | _ \<Rightarrow> ret None)
           | _ \<Rightarrow> ret None))"

section \<open>Keys\<close>

lemma engine_state_key_inject [simp]: "engine_state_key b = engine_state_key b' \<longleftrightarrow> b = b'"
  by (simp add: engine_state_key_def)

lemma decider_key_not_engine_key [simp]:
  "state_key b i \<noteq> engine_state_key b'" "engine_state_key b' \<noteq> state_key b i"
  by (auto simp: engine_state_key_def state_key_def split: option.splits)

lemma show_int_not_unconfigured: "show_int i \<noteq> ''unconfigured''"
  using show_int_chars[of i] by (auto simp: digit_chars_def)

lemma append_sep_inject:
  "c \<notin> set xs \<Longrightarrow> c \<notin> set ys \<Longrightarrow> xs @ c # s = ys @ c # t \<longleftrightarrow> xs = ys \<and> s = t"
proof (induction xs arbitrary: ys)
  case Nil
  then show ?case by (cases ys) auto
next
  case (Cons x xs)
  then show ?case by (cases ys) auto
qed

text \<open>Decider states of different buses, or of different deciders of a bus, never share a key.\<close>
lemma state_key_inject:
  assumes "CHR '':'' \<notin> set b" "CHR '':'' \<notin> set b'"
  shows "state_key b i = state_key b' i' \<longleftrightarrow> b = b' \<and> i = i'"
proof -
  define tag where "tag i = (case i of Some j \<Rightarrow> show_int j | None \<Rightarrow> ''unconfigured'')" for i
  have key: "state_key b i = ''decider:state:'' @ b @ CHR '':'' # tag i" for b i
    by (simp add: state_key_def tag_def split: option.split)
  have tag: "tag i = tag i' \<longleftrightarrow> i = i'"
    using show_int_not_unconfigured show_int_not_unconfigured[symmetric]
    by (auto simp: tag_def split: option.splits)
  show ?thesis
    unfolding key by (simp add: append_sep_inject[OF assms] tag)
qed

lemma valid_bus_no_colon: "valid_bus b \<Longrightarrow> CHR '':'' \<notin> set b"
  by (auto simp: validate_bus_id_string_def list_all_iff is_valid_bus_id_char_def is_ascii_alphanumeric_def
      less_eq_char_def split: if_splits)

section \<open>FIRST_BOOLEAN_WINS as a fold over the log\<close>

text \<open>The pure machine over numbered payloads: the pending intention and the decisions so far.\<close>
definition fbw_fold :: "int option \<times> payload list \<Rightarrow> int \<times> payload_kind \<Rightarrow> int option \<times> payload list" where
  "fbw_fold s e = (case fbw_transition (fst s) (fst e) (snd e) of (pending, d) \<Rightarrow>
     (pending, snd s @ (case d of None \<Rightarrow> [] | Some p \<Rightarrow> [p])))"

definition fbw_run :: "(int \<times> payload_kind) list \<Rightarrow> int option \<times> payload list" where
  "fbw_run es = foldl fbw_fold (None, []) es"

text \<open>The intention a decision is about.\<close>
fun decided_id :: "payload \<Rightarrow> int option" where
  "decided_id (Some (Commit c)) = Some (commit_intention_id c)"
| "decided_id (Some (Abort a)) = Some (abort_intention_id a)"
| "decided_id _ = None"

lemma decided_id_decision [simp]: "decided_id (decision_payload i a r) = Some i"
  by (simp add: decision_payload_def Let_def)

lemma fbw_run_snoc: "fbw_run (es @ [e]) = fbw_fold (fbw_run es) e"
  by (simp add: fbw_run_def)

lemma fbw_transition_cases:
  obtains (intention) i where "x = Intention i" "fbw_transition p n x = (Some n, None)"
  | (decide) v a where "x = Vote v" "p = Some (vote_intention_id v)" "vote_approved v = Some a"
      "fbw_transition p n x = (None, Some (decision_payload (vote_intention_id v) a (vote_reason v)))"
  | (keep) "fbw_transition p n x = (p, None)" "\<And>i. x \<noteq> Intention i"
  by (cases x; cases "p = Some (vote_intention_id (case x of Vote v \<Rightarrow> v))"; cases "vote_approved (case x of Vote v \<Rightarrow> v)")
    (auto simp: fbw_transition_def)

text \<open>Over strictly increasing positions, the pending intention and the decided ones stay below the last
  position, are pairwise different, and no intention is decided twice.\<close>
lemma fbw_run_inv:
  assumes "sorted_wrt (<) (map fst es)"
  shows "distinct (map decided_id (snd (fbw_run es))) \<and>
    (\<forall>d \<in> set (snd (fbw_run es)). \<exists>i. decided_id d = Some i \<and> i \<in> fst ` set es) \<and>
    (\<forall>i. fst (fbw_run es) = Some i \<longrightarrow> i \<in> fst ` set es \<and> Some i \<notin> decided_id ` set (snd (fbw_run es)))"
  using assms
proof (induction es rule: rev_induct)
  case Nil
  then show ?case by (simp add: fbw_run_def)
next
  case (snoc e es)
  then have IH: "distinct (map decided_id (snd (fbw_run es)))"
    "\<forall>d \<in> set (snd (fbw_run es)). \<exists>i. decided_id d = Some i \<and> i \<in> fst ` set es"
    "\<forall>i. fst (fbw_run es) = Some i \<longrightarrow> i \<in> fst ` set es \<and> Some i \<notin> decided_id ` set (snd (fbw_run es))"
    by (auto simp: sorted_wrt_append)
  have new: "fst e \<notin> fst ` set es"
    using snoc.prems by (fastforce simp: sorted_wrt_append)
  show ?case
  proof (cases rule: fbw_transition_cases[of "snd e" "fst (fbw_run es)" "fst e"])
    case (intention i)
    have "Some (fst e) \<notin> decided_id ` set (snd (fbw_run es))"
    proof
      assume "Some (fst e) \<in> decided_id ` set (snd (fbw_run es))"
      then obtain d where d: "d \<in> set (snd (fbw_run es))" "decided_id d = Some (fst e)" by auto
      from IH(2)[rule_format, OF d(1)] d(2) new show False by auto
    qed
    then show ?thesis using intention IH(1,2) by (auto simp: fbw_run_snoc fbw_fold_def) blast
  next
    case (decide v a)
    then show ?thesis using IH by (fastforce simp: fbw_run_snoc fbw_fold_def)
  next
    case keep
    then show ?thesis using IH by (fastforce simp: fbw_run_snoc fbw_fold_def)
  qed
qed

section \<open>The stored decider follows the fold\<close>

text \<open>What the code relies on of the protobuf codec of decider states: states whose last result is a
  decision or nothing read back as written.\<close>
definition decider_codec_ok :: "'b decider_codec \<Rightarrow> bool" where
  "decider_codec_ok codec \<longleftrightarrow>
     (\<forall>s. (\<forall>p. ds_last_payload s = Some p \<longrightarrow> decided_id p \<noteq> None) \<longrightarrow>
        decode_decider codec (encode_decider codec s) = Some s) \<and>
     (\<forall>p. decode_fbw codec (encode_fbw codec p) = Some p)"

text \<open>The stored record after the entries \<open>es\<close>: absent when there are none, else the encoding of the
  fold's pending intention and last result, at the last position.\<close>
definition fbw_stored :: "'b decider_codec \<Rightarrow> (int \<times> payload_kind) list \<Rightarrow> ('b \<times> int) option" where
  "fbw_stored codec es =
     (if es = [] then None
      else Some (encode_decider codec
          \<lparr>ds_last_payload = snd (fbw_transition (fst (fbw_run (butlast es))) (fst (last es)) (snd (last es))),
           ds_policy_state = Some (fbw_encode_state codec (fst (fbw_run es)))\<rparr>, fst (last es)))"

lemma fbw_transition_decision:
  "snd (fbw_transition p n x) = Some d \<Longrightarrow> \<exists>i. decided_id d = Some i"
  by (cases rule: fbw_transition_cases[of x p n]) auto

lemma fbw_run_pending: "fst (fbw_run (es @ [e])) = fst (fbw_transition (fst (fbw_run es)) (fst e) (snd e))"
  by (simp add: fbw_run_snoc fbw_fold_def split: prod.split)

lemma in_memory_load_policy_state:
  assumes "decider_codec_ok codec" "ew_data w (state_key b sid) = fbw_stored codec es"
  shows "load_policy_state codec in_memory_storage b sid w =
    (Inr (if es = [] then decider_state_default
          else \<lparr>ds_last_payload = snd (fbw_transition (fst (fbw_run (butlast es))) (fst (last es)) (snd (last es))),
                ds_policy_state = Some (fbw_encode_state codec (fst (fbw_run es)))\<rparr>,
          if es = [] then None else Some (fst (last es))), w)"
proof (cases "es = []")
  case True
  then show ?thesis
    using assms(2) by (simp add: load_policy_state_def in_memory_storage_def in_memory_get_def fbw_stored_def eff_defs)
next
  case False
  have "\<And>p. snd (fbw_transition (fst (fbw_run (butlast es))) (fst (last es)) (snd (last es))) = Some p \<Longrightarrow> decided_id p \<noteq> None"
    using fbw_transition_decision by fastforce
  then show ?thesis
    using False assms
    by (simp add: load_policy_state_def in_memory_storage_def in_memory_get_def fbw_stored_def eff_defs decider_codec_ok_def)
qed

text \<open>Applying the next entry over in-memory storage advances the stored machine by one step of the fold.\<close>
lemma fbw_apply_next:
  assumes "decider_codec_ok codec" "ew_data w (state_key b sid) = fbw_stored codec es"
    and "header_position entry = Some n" "inner_payload entry = Some x" "es \<noteq> [] \<longrightarrow> fst (last es) < n"
  shows "first_boolean_wins_apply codec in_memory_storage sid b entry w =
    (Inr (snd (fbw_transition (fst (fbw_run es)) n x)),
     w\<lparr>ew_data := (ew_data w)(state_key b sid := fbw_stored codec (es @ [(n, x)]))\<rparr>)"
proof -
  have dec: "decode_fbw codec (encode_fbw codec p) = Some p" for p
    using assms(1) by (simp add: decider_codec_ok_def)
  have adv: "fbw_advance codec in_memory_storage sid b n x st pos w =
      (Inr (snd (fbw_transition (fst (fbw_run es)) n x)),
       w\<lparr>ew_data := (ew_data w)(state_key b sid := fbw_stored codec (es @ [(n, x)]))\<rparr>)"
    if "fbw_decode_state codec (ds_policy_state st) = Some (fst (fbw_run es))"
       "map_option snd (ew_data w (state_key b sid)) = pos" "case pos of Some p \<Rightarrow> p < n | None \<Rightarrow> True" for st pos
    using that fbw_run_pending[of es "(n, x)"]
    by (auto simp: fbw_advance_def eff_defs apply_write_def save_policy_state_def in_memory_storage_def
        in_memory_put_def fbw_stored_def Let_def split: prod.split option.splits)
  show ?thesis
  proof (cases "es = []")
    case True
    then show ?thesis
      using assms adv[of decider_state_default None]
      by (simp add: first_boolean_wins_apply_def in_memory_load_policy_state[OF assms(1,2)] eff_defs
          decider_state_default_def fbw_decode_state_def fbw_run_def fbw_stored_def)
  next
    case False
    then show ?thesis
      using assms(3-5) adv[of _ "Some (fst (last es))"] assms(2)
      by (simp add: first_boolean_wins_apply_def in_memory_load_policy_state[OF assms(1,2)] eff_defs
          fbw_decode_state_def dec fbw_encode_state_def fbw_stored_def)
  qed
qed

text \<open>Re-delivery of the last entry replays its result; an older entry is reported stale.  Neither writes.\<close>
lemma fbw_apply_replay:
  assumes "decider_codec_ok codec" "ew_data w (state_key b sid) = fbw_stored codec (es @ [(n, x)])"
    and "header_position entry = Some n" "inner_payload entry \<noteq> None"
  shows "first_boolean_wins_apply codec in_memory_storage sid b entry w =
    (Inr (snd (fbw_transition (fst (fbw_run es)) n x)), w)"
  using assms(3,4)
  by (auto simp: first_boolean_wins_apply_def in_memory_load_policy_state[OF assms(1,2)] eff_defs)

lemma fbw_apply_stale:
  assumes "decider_codec_ok codec" "ew_data w (state_key b sid) = fbw_stored codec (es @ [(n, x)])"
    and "header_position entry = Some m" "m < n" "inner_payload entry \<noteq> None"
  shows "first_boolean_wins_apply codec in_memory_storage sid b entry w = (Inl (StalePosition m n), w)"
  using assms(3-5)
  by (auto simp: first_boolean_wins_apply_def in_memory_load_policy_state[OF assms(1,2)] eff_defs)

section \<open>Properties\<close>

lemma fbw_run_intentions:
  "(\<forall>i. fst (fbw_run es) = Some i \<longrightarrow> (\<exists>x. (i, Intention x) \<in> set es)) \<and>
   (\<forall>d \<in> set (snd (fbw_run es)). \<forall>i. decided_id d = Some i \<longrightarrow> (\<exists>x. (i, Intention x) \<in> set es))"
proof (induction es rule: rev_induct)
  case (snoc e es)
  show ?case
  proof (cases rule: fbw_transition_cases[of "snd e" "fst (fbw_run es)" "fst e"])
    case (intention i)
    then have "e = (fst e, Intention i)" by (metis prod.collapse)
    then have "\<exists>x. (fst e, Intention x) \<in> set (es @ [e])" by (metis in_set_conv_decomp)
    moreover have "fst (fbw_run (es @ [e])) = Some (fst e)" "snd (fbw_run (es @ [e])) = snd (fbw_run es)"
      using intention by (simp_all add: fbw_run_snoc fbw_fold_def)
    ultimately show ?thesis using snoc by (simp only: set_append) blast
  qed (use snoc in \<open>(simp add: fbw_run_snoc fbw_fold_def; blast)+\<close>)
qed (simp add: fbw_run_def)

text \<open>
  C8. Run over a log with increasing positions, FIRST_BOOLEAN_WINS decides no intention twice, and decides only
  positions that hold an intention.
\<close>
theorem fbw_decides_once:
  assumes "sorted_wrt (<) (map fst es)"
  shows "distinct (map decided_id (snd (fbw_run es))) \<and>
    (\<forall>d \<in> set (snd (fbw_run es)). \<exists>i x. decided_id d = Some i \<and> (i, Intention x) \<in> set es)"
  using fbw_run_inv[OF assms] fbw_run_intentions[of es] by blast

definition yes_vote :: "int \<Rightarrow> payload_kind" where
  "yes_vote i = Vote \<lparr>abstract_vote = Some (Some (BooleanVote True)), vote_intention_id = i, vote_voter_config = None,
     vote_voter_id = [], vote_reason = []\<rparr>"

definition an_intention :: payload_kind where
  "an_intention = Intention \<lparr>intention_body = None, policy_version_constraint = None\<rparr>"

theorem fbw_decides_once_witness:
  "distinct (map decided_id (snd (fbw_run [(0, an_intention), (1, yes_vote 0), (2, yes_vote 0), (3, an_intention), (4, yes_vote 3)])))
   \<and> length (snd (fbw_run [(0, an_intention), (1, yes_vote 0), (2, yes_vote 0), (3, an_intention), (4, yes_vote 3)])) = 2"
proof
  show "length (snd (fbw_run [(0, an_intention), (1, yes_vote 0), (2, yes_vote 0), (3, an_intention), (4, yes_vote 3)])) = 2"
    by code_simp
qed (rule fbw_decides_once[THEN conjunct1], simp)

text \<open>
  C26. Checkpoints of different owners never share a storage key: decider states are keyed injectively by bus and
  decider id, and never collide with an engine state, for buses whose id passes validation.
\<close>
theorem storage_keys_disjoint:
  assumes "valid_bus b" "valid_bus b'"
  shows "(state_key b i = state_key b' i' \<longleftrightarrow> b = b' \<and> i = i') \<and>
    (engine_state_key b = engine_state_key b' \<longleftrightarrow> b = b') \<and> state_key b i \<noteq> engine_state_key b'"
  using state_key_inject[OF valid_bus_no_colon valid_bus_no_colon, OF assms] by simp_all

theorem storage_keys_disjoint_witness:
  "state_key ''bus-1'' (Some 1) \<noteq> state_key ''bus'' (Some (- 11))"
proof -
  have "valid_bus ''bus-1''" "valid_bus ''bus''" by code_simp+
  from storage_keys_disjoint[OF this] show ?thesis by simp
qed

end
