(* ===== verification/Engine.thy ===== *)
theory Engine
  imports Applicators
begin

text \<open>
  The v1 engine, \<open>logact/commit_service/impls/v1/engine/src/base_engine.rs\<close>: proposing an
  intention, driving the log through deciders and voters, and checkpointing policy
  and cursor in one compare-and-swap.  Bus, storage, environment, voter factory,
  decider factory and policy provider are the records of operations the engine is
  generic over.
\<close>

section \<open>Parameters of the engine\<close>

text \<open>\<open>None\<close> is the \<open>anyhow\<close> error of either operation.\<close>
record 'w voter_factory =
  vf_validate_config :: "voter_config option \<Rightarrow> voter_config option"
  vf_create_voter :: "string \<Rightarrow> voter_config \<Rightarrow> 'w applicator option"

record ('b, 'w) engine_runtime =
  rt_bus :: "'w agent_bus"
  rt_voter_factory :: "'w voter_factory"
  rt_storage :: "('b, 'w) storage"
  rt_codec :: "'b engine_codec"
  rt_decider_factory :: "int option \<Rightarrow> decider_policy \<Rightarrow> 'w applicator"
  rt_environment :: "'w environment"
  rt_retry_config :: retry_config

record ('b, 'w, 'p) base_engine =
  be_runtime :: "('b, 'w) engine_runtime"
  be_policy_provider :: "string \<Rightarrow> ('w, 'p, versioned_policy_state) eff"

text \<open>The voter ids whose config the factory rejects stop the check.\<close>
definition validate_voter_configs :: "'w voter_factory \<Rightarrow> policy_state \<Rightarrow> unit option" where
  "validate_voter_configs vf policy =
     (if list_all (\<lambda>(_, config). vf_validate_config vf (Some config) \<noteq> None) (pol_voters policy)
      then Some () else None)"

record 'w applicator_binding =
  ab_types :: "int list"
  ab_applicator :: "'w applicator"

definition binding_matches :: "'w applicator_binding \<Rightarrow> payload \<Rightarrow> bool" where
  "binding_matches b p = (case get_payload_type p of Some t \<Rightarrow> t \<in> set (ab_types b) | None \<Rightarrow> False)"

section \<open>Outcomes and errors\<close>

record proposal_outcome =
  po_approved :: bool
  po_reason :: string
  po_log_position :: int

datatype engine_error =
    BusDataLoss
  | EngineStorage storage_error
  | EngineInvalidState
  | Playback apply_error
  | EngineBus bus_error
  | PolicyProviderFailed
  | EngineInternal

fun engine_error_from_bus :: "bus_error \<Rightarrow> engine_error" where
  "engine_error_from_bus PositionNotFound = BusDataLoss"
| "engine_error_from_bus e = EngineBus e"

fun engine_error_from_load :: "engine_state_load_error \<Rightarrow> engine_error" where
  "engine_error_from_load (LoadStorage e) = EngineStorage e"
| "engine_error_from_load LoadDecode = EngineInvalidState"

definition outcome_for :: "payload \<Rightarrow> int \<Rightarrow> proposal_outcome option" where
  "outcome_for p proposed_position =
     (case p of
        Some (Commit c) \<Rightarrow>
          if commit_intention_id c = proposed_position
          then Some \<lparr>po_approved = True, po_reason = commit_reason c, po_log_position = proposed_position\<rparr> else None
      | Some (Abort a) \<Rightarrow>
          if abort_intention_id a = proposed_position
          then Some \<lparr>po_approved = False, po_reason = abort_reason a, po_log_position = proposed_position\<rparr> else None
      | _ \<Rightarrow> None)"

definition abort_payload :: "int \<Rightarrow> string \<Rightarrow> payload" where
  "abort_payload intention_id reason = Some (Abort \<lparr>abort_intention_id = intention_id, abort_reason = reason\<rparr>)"

definition forced_abort :: "int \<Rightarrow> payload" where
  "forced_abort intention_id = abort_payload intention_id ''no decision before the log was drained''"

definition policy_constraint_failure :: "payload \<Rightarrow> int option \<Rightarrow> string option" where
  "policy_constraint_failure p applied_version =
     (case p of
        Some (Intention i) \<Rightarrow>
          (case policy_version_constraint i of
             Some (RequiredPolicyVersion required) \<Rightarrow>
               if applied_version \<noteq> Some required
               then Some (''required policy version '' @ show_int required @ '', but applied version is '' @ show_opt_int applied_version)
               else None
           | Some (MinimumPolicyVersion minimum) \<Rightarrow>
               if (case applied_version of None \<Rightarrow> True | Some applied \<Rightarrow> applied < minimum)
               then Some (''minimum policy version '' @ show_int minimum @ '', but applied version is '' @ show_opt_int applied_version)
               else None
           | None \<Rightarrow> None)
      | _ \<Rightarrow> None)"

definition DEFAULT_STORAGE_CONCURRENCY_MAX_RETRIES :: nat where
  "DEFAULT_STORAGE_CONCURRENCY_MAX_RETRIES = 7"

definition base_engine_config_default :: "retry_config option" where
  "base_engine_config_default =
     retry_config_try_new DEFAULT_STORAGE_CONCURRENCY_MAX_RETRIES (from_millis 10) (from_millis 100)"

section \<open>Snapshots\<close>

record engine_snapshot =
  sn_state :: per_bus_engine_state
  sn_position :: "int option"

record engine_context =
  ec_snapshot :: engine_snapshot
  ec_highest_append :: int

definition snapshot_load :: "('b, 'w) engine_runtime \<Rightarrow> string \<Rightarrow> ('w, engine_state_load_error, engine_snapshot) eff" where
  "snapshot_load rt bus_id =
     bindE (engine_state_load (rt_codec rt) (rt_storage rt) bus_id) (\<lambda>(state, position).
       ret \<lparr>sn_state = state, sn_position = position\<rparr>)"

definition check_append_position :: "engine_snapshot \<Rightarrow> int \<Rightarrow> engine_error + unit" where
  "check_append_position sn appended_position =
     (case sn_position sn of
        Some saved_position \<Rightarrow> if appended_position \<le> saved_position then Inl BusDataLoss else Inr ()
      | None \<Rightarrow> Inr ())"

text \<open>The cursor of a checkpoint: the next position to apply.\<close>
definition cursor_of :: "int option \<Rightarrow> int" where
  "cursor_of position = (case position of None \<Rightarrow> 0 | Some p \<Rightarrow> p + 1)"

section \<open>Which payloads matter to whom\<close>

definition DECIDER_TYPES :: "int list" where "DECIDER_TYPES = [to_proto_i32 PT_Intention, to_proto_i32 PT_Vote]"

definition VOTER_TYPES :: "int list" where "VOTER_TYPES = [to_proto_i32 PT_Intention]"

definition ENGINE_TYPES :: "int list" where "ENGINE_TYPES = [to_proto_i32 PT_Control, to_proto_i32 PT_DeciderPolicy]"

definition bind_voter_applicator :: "'w applicator \<Rightarrow> 'w applicator_binding" where
  "bind_voter_applicator voter = \<lparr>ab_types = VOTER_TYPES, ab_applicator = voter\<rparr>"

definition POLL_BATCH_SIZE :: int where "POLL_BATCH_SIZE = 64"

definition requires_application :: "bus_entry \<Rightarrow> bool" where
  "requires_application e =
     (case (case entry_payload e of Some p \<Rightarrow> get_payload_type p | None \<Rightarrow> None) of
        None \<Rightarrow> False
      | Some t \<Rightarrow> t \<in> set DECIDER_TYPES \<or> t \<in> set VOTER_TYPES \<or> t \<in> set ENGINE_TYPES)"

section \<open>Applying an entry to one voter or decider\<close>

definition tolerate_decide :: "apply_error \<Rightarrow> bool \<Rightarrow> retry_decision \<times> bool" where
  "tolerate_decide e attempted =
     (case e of
        Concurrency ce \<Rightarrow>
          if ce_owner ce = OwnerVoter \<or> ce_owner ce = OwnerDecider then concurrency_decide ce attempted
          else (Stop, attempted)
      | _ \<Rightarrow> (Stop, attempted))"

definition apply_tolerating_stale :: "'w applicator \<Rightarrow> string \<Rightarrow> bus_entry \<Rightarrow> 'w environment \<Rightarrow> retry_config
    \<Rightarrow> ('w, apply_error, payload option) eff" where
  "apply_tolerating_stale applicator bus_id entry env cfg =
     map_errE into_last_error
       (retry env cfg
          (matchE (applicator bus_id entry)
             (\<lambda>e. case e of StalePosition _ _ \<Rightarrow> ret None | _ \<Rightarrow> raise e)
             ret)
          tolerate_decide False)"

section \<open>Rebuilding deciders and voters from engine state\<close>

definition load_decider_spec_from_state :: "per_bus_engine_state \<Rightarrow> apply_error + (int option \<times> decider_policy)" where
  "load_decider_spec_from_state state =
     (case es_decider state of
        Some config \<Rightarrow>
          (case decider_policy_try_from (vp_policy config) of
             None \<Rightarrow> Inl InvalidEngineState
           | Some policy \<Rightarrow> Inr (Some (vp_id config), policy))
      | None \<Rightarrow> Inr (None, OnByDefault))"

definition state_voter_configs :: "per_bus_engine_state \<Rightarrow> (string \<times> voter_config) list" where
  "state_voter_configs state = sort_key fst (es_voters state)"

definition build_decider :: "('b, 'w) engine_runtime \<Rightarrow> per_bus_engine_state \<Rightarrow> apply_error + 'w applicator_binding" where
  "build_decider rt state =
     (case load_decider_spec_from_state state of
        Inl e \<Rightarrow> Inl e
      | Inr (sid, policy) \<Rightarrow> Inr \<lparr>ab_types = DECIDER_TYPES, ab_applicator = rt_decider_factory rt sid policy\<rparr>)"

text \<open>The \<open>anyhow\<close> error of a voter that cannot be built becomes \<open>ApplyError::Backend\<close> at the call.\<close>
definition build_voters :: "('b, 'w) engine_runtime \<Rightarrow> per_bus_engine_state \<Rightarrow> apply_error + 'w applicator_binding list" where
  "build_voters rt state =
     map_result (\<lambda>(voter_id, config).
         case vf_create_voter (rt_voter_factory rt) voter_id config of
           None \<Rightarrow> Inl Backend
         | Some v \<Rightarrow> Inr (bind_voter_applicator v))
       (state_voter_configs state)"

section \<open>Applying a policy batch to engine state\<close>

datatype validated_voter_op = VAdd voter_config | VRemove

definition validate_voter_op :: "'w voter_factory \<Rightarrow> per_bus_engine_state \<Rightarrow> string \<times> voter_op
    \<Rightarrow> apply_error + (string \<times> validated_voter_op)" where
  "validate_voter_op vf state vop =
     (case vop of (voter_id, op) \<Rightarrow>
        (case op of
           Some (AddOp config) \<Rightarrow>
             (case vf_validate_config vf config of
                None \<Rightarrow> Inl (MalformedPolicy MP_AddVoter)
              | Some c \<Rightarrow> Inr (voter_id, VAdd c))
         | Some RemoveOp \<Rightarrow>
             if \<not> hm_contains (es_voters state) voter_id then Inl (MalformedPolicy MP_RemoveVoter)
             else Inr (voter_id, VRemove)
         | None \<Rightarrow> Inl (MalformedPolicy MP_PolicyBatch)))"

definition upsert_voter_config :: "string \<Rightarrow> voter_config \<Rightarrow> per_bus_engine_state \<Rightarrow> per_bus_engine_state" where
  "upsert_voter_config voter_id config state = state\<lparr>es_voters := hm_insert voter_id config (es_voters state)\<rparr>"

definition remove_voter_config :: "string \<Rightarrow> per_bus_engine_state \<Rightarrow> per_bus_engine_state" where
  "remove_voter_config voter_id state = state\<lparr>es_voters := hm_remove voter_id (es_voters state)\<rparr>"

fun apply_voter_op :: "string \<times> validated_voter_op \<Rightarrow> per_bus_engine_state \<Rightarrow> per_bus_engine_state" where
  "apply_voter_op (voter_id, VAdd config) state = upsert_voter_config voter_id config state"
| "apply_voter_op (voter_id, VRemove) state = remove_voter_config voter_id state"

text \<open>\<open>None\<close> is the \<open>anyhow\<close> error.\<close>
definition set_decider_policy_in_engine_state :: "int option \<Rightarrow> int \<Rightarrow> per_bus_engine_state \<Rightarrow> per_bus_engine_state option" where
  "set_decider_policy_in_engine_state policy position state =
     (case policy of
        None \<Rightarrow> Some state
      | Some raw \<Rightarrow>
          (case decider_policy_try_from raw of
             None \<Rightarrow> None
           | Some p \<Rightarrow> Some (state\<lparr>es_decider := Some \<lparr>vp_policy = decider_policy_as_i32 p, vp_id = position\<rparr>\<rparr>)))"

definition apply_policy_batch :: "'w voter_factory \<Rightarrow> per_bus_engine_state \<Rightarrow> policy_batch \<Rightarrow> int
    \<Rightarrow> apply_error + per_bus_engine_state" where
  "apply_policy_batch vf state batch entry_position =
     (case map_result (validate_voter_op vf state) (pb_voter_ops batch) of
        Inl e \<Rightarrow> Inl e
      | Inr voter_ops \<Rightarrow>
          (case set_decider_policy_in_engine_state (pb_decider_policy batch) entry_position state of
             None \<Rightarrow> Inl (MalformedPolicy MP_PolicyBatch)
           | Some state1 \<Rightarrow>
               Inr (fold apply_voter_op voter_ops
                      (state1\<lparr>es_applied_policy_version := Some (pb_new_version batch)\<rparr>))))"

definition should_apply_policy_batch :: "per_bus_engine_state \<Rightarrow> policy_batch \<Rightarrow> bool" where
  "should_apply_policy_batch state batch \<longleftrightarrow>
     es_applied_policy_version state = pb_expected_current_version batch \<and>
     (case pb_expected_current_version batch of None \<Rightarrow> True | Some current \<Rightarrow> current < pb_new_version batch)"

definition base_engine_control_of :: "bus_entry \<Rightarrow> base_engine_control_kind option" where
  "base_engine_control_of e =
     (case inner_payload e of
        Some (Control (Some (BaseEngineControl base))) \<Rightarrow> base
      | _ \<Rightarrow> None)"

definition policy_batch_payload :: "policy_batch \<Rightarrow> payload" where
  "policy_batch_payload batch = Some (Control (Some (BaseEngineControl (Some (PolicyBatch batch)))))"

text \<open>Step 3 of \<open>apply_entry_once\<close> before the save: the engine state after the entry.\<close>
definition control_transition :: "'w voter_factory \<Rightarrow> per_bus_engine_state \<Rightarrow> bus_entry \<Rightarrow> int
    \<Rightarrow> apply_error + per_bus_engine_state" where
  "control_transition vf state entry entry_position =
     (case base_engine_control_of entry of
        Some (PolicyBatch batch) \<Rightarrow>
          if should_apply_policy_batch state batch then apply_policy_batch vf state batch entry_position
          else Inr state
      | Some (AddVoter _) \<Rightarrow> Inl (DeprecatedOperation DO_AddVoter)
      | Some (RemoveVoter _) \<Rightarrow> Inl (DeprecatedOperation DO_RemoveVoter)
      | None \<Rightarrow>
          (case inner_payload entry of
             Some (DeciderPolicy _) \<Rightarrow> Inl (DeprecatedOperation DO_SetDeciderPolicy)
           | _ \<Rightarrow> Inr state))"

section \<open>Driving one entry\<close>

text \<open>One binding of step 1: apply it if it matches and collect what it produces.\<close>
definition dispatch_one :: "('b, 'w) engine_runtime \<Rightarrow> string \<Rightarrow> bus_entry \<Rightarrow> payload \<Rightarrow> payload list
    \<Rightarrow> 'w applicator_binding \<Rightarrow> ('w, apply_error, payload list) eff" where
  "dispatch_one rt bus_id entry p produced b =
     (if binding_matches b p then
        bindE (apply_tolerating_stale (ab_applicator b) bus_id entry (rt_environment rt) (rt_retry_config rt))
          (\<lambda>r. ret (case r of Some q \<Rightarrow> produced @ [q] | None \<Rightarrow> produced))
      else ret produced)"

definition dispatch_entry :: "('b, 'w) engine_runtime \<Rightarrow> string \<Rightarrow> bus_entry \<Rightarrow> int \<Rightarrow> per_bus_engine_state
    \<Rightarrow> ('w, apply_error, payload list) eff" where
  "dispatch_entry rt bus_id entry entry_position state =
     (case entry_payload entry of
        None \<Rightarrow> ret []
      | Some p \<Rightarrow>
          (case policy_constraint_failure p (es_applied_policy_version state) of
             Some reason \<Rightarrow> ret [abort_payload entry_position reason]
           | None \<Rightarrow>
               bindE (liftR (build_decider rt state)) (\<lambda>decider.
               bindE (dispatch_one rt bus_id entry p [] decider) (\<lambda>produced.
               bindE (liftR (build_voters rt state)) (\<lambda>voters.
                 foldE (dispatch_one rt bus_id entry p) produced voters)))))"

text \<open>Step 2: append what was produced; the captured \<open>highest_append\<close> keeps the highest position.\<close>
definition append_produced :: "('b, 'w) engine_runtime \<Rightarrow> string \<Rightarrow> payload \<Rightarrow> ('w \<times> int, apply_error, unit) eff" where
  "append_produced rt bus_id p =
     bindE (map_errE ApplyBus (on_world (bus_append (rt_bus rt) \<lparr>ar_bus_id = Some bus_id, ar_payload = Some p\<rparr>)))
       (\<lambda>position. modifyE (\<lambda>(w, highest). (w, max highest position)))"

definition apply_entry_once :: "('b, 'w) engine_runtime \<Rightarrow> string \<Rightarrow> bus_entry \<Rightarrow> engine_snapshot
    \<Rightarrow> ('w \<times> int, apply_error, engine_snapshot) eff" where
  "apply_entry_once rt bus_id entry sn =
     (case header_position entry of
        None \<Rightarrow> raise MissingHeader
      | Some entry_position \<Rightarrow>
          if entry_position < cursor_of (sn_position sn) then ret sn
          else
            bindE (on_world (dispatch_entry rt bus_id entry entry_position (sn_state sn))) (\<lambda>produced.
            bindE (foldE (\<lambda>_. append_produced rt bus_id) () produced) (\<lambda>_.
            bindE (liftR (control_transition (rt_voter_factory rt) (sn_state sn) entry entry_position)) (\<lambda>state.
            bindE (on_world (apply_write OwnerEngine bus_id entry_position
                     (engine_state_save (rt_codec rt) state (rt_storage rt) bus_id (sn_position sn) entry_position)))
              (\<lambda>_. ret \<lparr>sn_state = state, sn_position = Some entry_position\<rparr>)))))"

definition playback_decide :: "apply_error \<Rightarrow> bool \<Rightarrow> retry_decision \<times> bool" where
  "playback_decide e attempted =
     (case e of
        Concurrency ce \<Rightarrow> if ce_owner ce = OwnerEngine then concurrency_decide ce attempted else (Stop, attempted)
      | _ \<Rightarrow> (Stop, attempted))"

text \<open>The retried closure: its captured variables are \<open>highest_append\<close> and \<open>initial_snapshot\<close>, which
  the first call takes.\<close>
definition playback_operation :: "('b, 'w) engine_runtime \<Rightarrow> string \<Rightarrow> bus_entry
    \<Rightarrow> (('w \<times> int) \<times> engine_snapshot option, apply_error, engine_snapshot) eff" where
  "playback_operation rt bus_id entry = (\<lambda>(s, initial_snapshot).
     on_world
       (case initial_snapshot of
          Some sn \<Rightarrow> apply_entry_once rt bus_id entry sn
        | None \<Rightarrow>
            bindE (map_errE load_error_into_apply (on_world (snapshot_load rt bus_id)))
              (apply_entry_once rt bus_id entry))
       (s, None))"

text \<open>\<open>Applicator<EngineContext>::apply\<close> of the runtime.\<close>
definition engine_apply :: "('b, 'w) engine_runtime \<Rightarrow> string \<Rightarrow> bus_entry \<Rightarrow> ('w \<times> engine_context, apply_error, unit) eff" where
  "engine_apply rt bus_id entry = (\<lambda>(w, ctx).
     case map_errE into_last_error
            (retry (lift_env (lift_env (rt_environment rt))) (rt_retry_config rt)
               (playback_operation rt bus_id entry) playback_decide False)
            ((w, ec_highest_append ctx), Some (ec_snapshot ctx)) of
       (Inl e, ((w', highest), _)) \<Rightarrow> (Inl e, (w', ctx\<lparr>ec_highest_append := highest\<rparr>))
     | (Inr sn, ((w', highest), _)) \<Rightarrow> (Inr (), (w', \<lparr>ec_snapshot = sn, ec_highest_append = highest\<rparr>)))"

section \<open>Driving the log to a decision\<close>

text \<open>The loop over one batch of entries: an outcome, or the new \<open>known_position\<close>.\<close>
primrec process_entries :: "('b, 'w) engine_runtime \<Rightarrow> string \<Rightarrow> int \<Rightarrow> bus_entry list \<Rightarrow> int
    \<Rightarrow> ('w \<times> engine_context, engine_error, proposal_outcome + int) eff" where
  "process_entries rt bus_id proposed [] known = ret (Inr known)"
| "process_entries rt bus_id proposed (e # es) known =
     (case entry_header e of
        None \<Rightarrow> raise (Playback MissingHeader)
      | Some _ \<Rightarrow>
          (case (case entry_payload e of Some p \<Rightarrow> outcome_for p proposed | None \<Rightarrow> None) of
             Some out \<Rightarrow> ret (Inl out)
           | None \<Rightarrow>
               if requires_application e then
                 bindE (map_errE Playback (engine_apply rt bus_id e)) (\<lambda>_.
                 bindE (asks (\<lambda>(w, ctx). ec_highest_append ctx)) (\<lambda>highest.
                   process_entries rt bus_id proposed es (max known highest)))
               else process_entries rt bus_id proposed es known))"

text \<open>Reading and processing the next batch.\<close>
definition sync_read :: "('b, 'w) engine_runtime \<Rightarrow> string \<Rightarrow> int \<Rightarrow> int \<Rightarrow> int
    \<Rightarrow> ('w \<times> engine_context, engine_error, proposal_outcome + int \<times> int) eff" where
  "sync_read rt bus_id proposed pos known =
     bindE (map_errE engine_error_from_bus
              (on_world (read_range (rt_bus rt) bus_id pos (known + 1) POLL_BATCH_SIZE None))) (\<lambda>(entries, next_cursor).
     bindE (process_entries rt bus_id proposed entries known) (\<lambda>r.
       case r of
         Inl out \<Rightarrow> ret (Inl out)
       | Inr known' \<Rightarrow> ret (Inr (next_cursor, known'))))"

text \<open>One iteration of the loop of \<open>sync_and_apply\<close>: an outcome, or the next \<open>(pos, known_position)\<close>.\<close>
definition sync_step :: "('b, 'w) engine_runtime \<Rightarrow> string \<Rightarrow> int \<Rightarrow> int \<Rightarrow> int
    \<Rightarrow> ('w \<times> engine_context, engine_error, proposal_outcome + int \<times> int) eff" where
  "sync_step rt bus_id proposed pos known =
     (if known < pos then
        bindE (map_errE engine_error_from_bus (on_world (bus_check_tail (rt_bus rt) (Some bus_id)))) (\<lambda>tail.
          if tail \<le> pos then
            bindE (map_errE engine_error_from_bus
                     (on_world (bus_append (rt_bus rt) \<lparr>ar_bus_id = Some bus_id, ar_payload = Some (forced_abort proposed)\<rparr>)))
              (\<lambda>position. ret (Inr (pos, max known position)))
          else sync_read rt bus_id proposed pos (tail - 1))
      else sync_read rt bus_id proposed pos known)"

partial_function (option) sync_loop :: "('b, 'w) engine_runtime \<Rightarrow> string \<Rightarrow> int \<Rightarrow> int \<Rightarrow> int \<Rightarrow> 'w \<times> engine_context
    \<Rightarrow> ((engine_error + proposal_outcome) \<times> 'w \<times> engine_context) option" where
  "sync_loop rt bus_id proposed pos known s =
     (case sync_step rt bus_id proposed pos known s of
        (Inl e, s') \<Rightarrow> Some (Inl e, s')
      | (Inr (Inl out), s') \<Rightarrow> Some (Inr out, s')
      | (Inr (Inr (pos', known')), s') \<Rightarrow> sync_loop rt bus_id proposed pos' known' s')"

declare sync_loop.simps [code]

definition sync_and_apply :: "('b, 'w) engine_runtime \<Rightarrow> string \<Rightarrow> int \<Rightarrow> 'w \<times> engine_context
    \<Rightarrow> ((engine_error + proposal_outcome) \<times> 'w \<times> engine_context) option" where
  "sync_and_apply rt bus_id proposed s =
     sync_loop rt bus_id proposed (cursor_of (sn_position (ec_snapshot (snd s)))) (ec_highest_append (snd s)) s"

section \<open>Proposing\<close>

definition current_policy_of :: "per_bus_engine_state \<Rightarrow> engine_error + policy_state" where
  "current_policy_of state =
     (case es_decider state of
        None \<Rightarrow> Inr \<lparr>pol_decider_policy = Some (decider_policy_as_i32 OnByDefault), pol_voters = es_voters state\<rparr>
      | Some d \<Rightarrow>
          (case decider_policy_try_from (vp_policy d) of
             None \<Rightarrow> Inl EngineInvalidState
           | Some p \<Rightarrow> Inr \<lparr>pol_decider_policy = Some (decider_policy_as_i32 p), pol_voters = es_voters state\<rparr>))"

definition append_resolved_policy :: "('b, 'w, 'p) base_engine \<Rightarrow> string \<Rightarrow> per_bus_engine_state
    \<Rightarrow> ('w, engine_error, int \<times> int option) eff" where
  "append_resolved_policy eng bus_id state =
     bindE (map_errE (\<lambda>_. PolicyProviderFailed) (be_policy_provider eng bus_id)) (\<lambda>desired.
     bindE (liftR (current_policy_of state)) (\<lambda>current.
     bindE (liftR (case plan current (es_applied_policy_version state) desired of
                     Inl _ \<Rightarrow> Inl EngineInternal | Inr b \<Rightarrow> Inr b)) (\<lambda>planned.
       case planned of
         None \<Rightarrow> ret (vps_version desired, None)
       | Some batch \<Rightarrow>
           bindE (map_errE engine_error_from_bus
                    (bus_append (rt_bus (be_runtime eng)) \<lparr>ar_bus_id = Some bus_id, ar_payload = Some (policy_batch_payload batch)\<rparr>))
             (\<lambda>position. ret (vps_version desired, Some position)))))"

text \<open>Everything of \<open>propose_intention\<close> before the drive: the proposal's position and context.\<close>
definition propose_append :: "('b, 'w, 'p) base_engine \<Rightarrow> string \<Rightarrow> payload \<Rightarrow> ('w, engine_error, int \<times> engine_context) eff" where
  "propose_append eng bus_id p =
     (case p of
        Some (Intention i) \<Rightarrow>
          if policy_version_constraint i \<noteq> None then raise EngineInternal
          else
            bindE (map_errE engine_error_from_load (snapshot_load (be_runtime eng) bus_id)) (\<lambda>sn.
            bindE (append_resolved_policy eng bus_id (sn_state sn)) (\<lambda>(policy_version, policy_position).
            bindE (map_errE engine_error_from_bus
                     (bus_append (rt_bus (be_runtime eng)) \<lparr>ar_bus_id = Some bus_id,
                        ar_payload = Some (Some (Intention
                          (i\<lparr>policy_version_constraint := Some (MinimumPolicyVersion policy_version)\<rparr>)))\<rparr>)) (\<lambda>position.
            bindE (liftR (check_append_position sn
                     (min (case policy_position of Some q \<Rightarrow> q | None \<Rightarrow> position) position))) (\<lambda>_.
              ret (position, \<lparr>ec_snapshot = sn, ec_highest_append = position\<rparr>)))))
      | _ \<Rightarrow> raise EngineInternal)"

definition propose_intention :: "('b, 'w, 'p) base_engine \<Rightarrow> string \<Rightarrow> payload \<Rightarrow> 'w
    \<Rightarrow> ((engine_error + proposal_outcome) \<times> 'w) option" where
  "propose_intention eng bus_id p w =
     (case propose_append eng bus_id p w of
        (Inl e, w1) \<Rightarrow> Some (Inl e, w1)
      | (Inr (position, ctx), w1) \<Rightarrow>
          map_option (\<lambda>(r, (w2, _)). (r, w2)) (sync_and_apply (be_runtime eng) bus_id position (w1, ctx)))"

section \<open>Creating a bus\<close>

definition create_bus :: "('b, 'w, 'p) base_engine \<Rightarrow> string \<Rightarrow> ('w, engine_error, unit) eff" where
  "create_bus eng bus_id =
     bindE (map_errE (\<lambda>_. PolicyProviderFailed) (be_policy_provider eng bus_id)) (\<lambda>desired.
     bindE (liftR (case plan policy_state_default None desired of
                     Inl _ \<Rightarrow> Inl EngineInternal
                   | Inr None \<Rightarrow> Inl EngineInternal
                   | Inr (Some b) \<Rightarrow> Inr b)) (\<lambda>batch.
     bindE (map_errE engine_error_from_bus
              (bus_append (rt_bus (be_runtime eng)) \<lparr>ar_bus_id = Some bus_id, ar_payload = Some (policy_batch_payload batch)\<rparr>)) (\<lambda>position.
       if position = 0 then
         bindE (liftR (case apply_policy_batch (rt_voter_factory (be_runtime eng)) engine_state_default batch position of
                         Inl e \<Rightarrow> Inl (Playback e) | Inr s \<Rightarrow> Inr s)) (\<lambda>state.
           matchE (engine_state_save (rt_codec (be_runtime eng)) state (rt_storage (be_runtime eng)) bus_id None 0)
             (\<lambda>_. ret ()) (\<lambda>_. ret ()))
       else ret ())))"

end
