(* ===== verification/Engine_Policy.thy ===== *)
theory Engine_Policy
  imports Engine "HOL-Library.Multiset"
begin

text \<open>
  What a log prefix means for policy.  The specification is a fold of the log into a
  \<open>policy_view\<close>; engine states refine it (\<open>control_transition\<close> commutes with the
  abstraction \<open>view_of\<close>), planning and applying a batch reach the desired policy, the
  applied version only grows, and the order in which a hash map of voter operations is
  iterated does not matter.
\<close>

section \<open>Specification\<close>

record policy_view =
  pv_voters :: "string \<rightharpoonup> voter_config"
  pv_decider :: "versioned_policy option"
  pv_version :: "int option"

definition initial_view :: policy_view where
  "initial_view = \<lparr>pv_voters = Map.empty, pv_decider = None, pv_version = None\<rparr>"

definition view_of :: "per_bus_engine_state \<Rightarrow> policy_view" where
  "view_of s = \<lparr>pv_voters = hm_get (es_voters s), pv_decider = es_decider s, pv_version = es_applied_policy_version s\<rparr>"

text \<open>Which operations a batch may contain, and their effect on the installed voters.\<close>
definition op_valid :: "(voter_config option \<Rightarrow> voter_config option) \<Rightarrow> policy_view \<Rightarrow> string \<times> voter_op \<Rightarrow> bool" where
  "op_valid check v kop =
     (case snd kop of
        Some (AddOp c) \<Rightarrow> check c \<noteq> None
      | Some RemoveOp \<Rightarrow> pv_voters v (fst kop) \<noteq> None
      | None \<Rightarrow> False)"

definition op_effect :: "(voter_config option \<Rightarrow> voter_config option) \<Rightarrow> string \<times> voter_op
    \<Rightarrow> (string \<rightharpoonup> voter_config) \<Rightarrow> (string \<rightharpoonup> voter_config)" where
  "op_effect check kop m =
     (case snd kop of
        Some (AddOp c) \<Rightarrow> m(fst kop := check c)
      | Some RemoveOp \<Rightarrow> m(fst kop := None)
      | None \<Rightarrow> m)"

definition batch_view :: "(voter_config option \<Rightarrow> voter_config option) \<Rightarrow> policy_view \<Rightarrow> policy_batch \<Rightarrow> int \<Rightarrow> policy_view option" where
  "batch_view check v batch pos =
     (if \<not> list_all (op_valid check v) (pb_voter_ops batch) then None
      else if (case pb_decider_policy batch of Some raw \<Rightarrow> decider_policy_try_from raw = None | None \<Rightarrow> False) then None
      else Some \<lparr>pv_voters = fold (op_effect check) (pb_voter_ops batch) (pv_voters v),
             pv_decider = (case pb_decider_policy batch of Some raw \<Rightarrow> Some \<lparr>vp_policy = raw, vp_id = pos\<rparr> | None \<Rightarrow> pv_decider v),
             pv_version = Some (pb_new_version batch)\<rparr>)"

definition batch_due :: "policy_view \<Rightarrow> policy_batch \<Rightarrow> bool" where
  "batch_due v batch \<longleftrightarrow> pv_version v = pb_expected_current_version batch \<and>
     (case pb_expected_current_version batch of None \<Rightarrow> True | Some c \<Rightarrow> c < pb_new_version batch)"

text \<open>The view after one more log entry; \<open>None\<close> where the log cannot be driven past the entry.\<close>
definition entry_view :: "(voter_config option \<Rightarrow> voter_config option) \<Rightarrow> policy_view \<Rightarrow> bus_entry \<Rightarrow> int \<Rightarrow> policy_view option" where
  "entry_view check v e pos =
     (case inner_payload e of
        Some (Control (Some (BaseEngineControl (Some c)))) \<Rightarrow>
          (case c of PolicyBatch batch \<Rightarrow> if batch_due v batch then batch_view check v batch pos else Some v
                   | _ \<Rightarrow> None)
      | Some (DeciderPolicy _) \<Rightarrow> None
      | _ \<Rightarrow> Some v)"

text \<open>The view after the first \<open>n\<close> entries.\<close>
primrec replay :: "(voter_config option \<Rightarrow> voter_config option) \<Rightarrow> bus_entry list \<Rightarrow> nat \<Rightarrow> policy_view option" where
  "replay check es 0 = Some initial_view"
| "replay check es (Suc n) =
     (case replay check es n of None \<Rightarrow> None | Some v \<Rightarrow> entry_view check v (es ! n) (int n))"

section \<open>Refinement\<close>

lemma view_of_default [simp]: "view_of engine_state_default = initial_view"
  by (simp add: view_of_def engine_state_default_def initial_view_def)

lemma validate_voter_op_cases:
  "validate_voter_op vf s kop =
     (if op_valid (vf_validate_config vf) (view_of s) kop
      then Inr (fst kop, (case snd kop of Some (AddOp c) \<Rightarrow> VAdd (the (vf_validate_config vf c)) | _ \<Rightarrow> VRemove))
      else Inl (case snd kop of Some (AddOp c) \<Rightarrow> MalformedPolicy MP_AddVoter
                | Some RemoveOp \<Rightarrow> MalformedPolicy MP_RemoveVoter | None \<Rightarrow> MalformedPolicy MP_PolicyBatch))"
  by (cases kop)
    (auto simp: validate_voter_op_def op_valid_def view_of_def hm_contains_def split: option.splits voter_op_kind.splits)

lemma map_result_validate:
  "map_result (validate_voter_op vf s) ops = Inr vops \<Longrightarrow>
   list_all (op_valid (vf_validate_config vf) (view_of s)) ops \<and>
   vops = map (\<lambda>kop. (fst kop, (case snd kop of Some (AddOp c) \<Rightarrow> VAdd (the (vf_validate_config vf c)) | _ \<Rightarrow> VRemove))) ops"
  by (induction ops arbitrary: vops) (auto simp: validate_voter_op_cases split: if_splits sum.splits)

lemma map_result_validate_error:
  "map_result (validate_voter_op vf s) ops = Inl e \<Longrightarrow>
   \<not> list_all (op_valid (vf_validate_config vf) (view_of s)) ops"
  by (induction ops) (auto simp: validate_voter_op_cases split: if_splits sum.splits)

lemma apply_voter_op_fields [simp]:
  "es_decider (apply_voter_op vop s) = es_decider s"
  "es_applied_policy_version (apply_voter_op vop s) = es_applied_policy_version s"
  "es_voter_configs (apply_voter_op vop s) = es_voter_configs s"
  by (cases "(vop, s)" rule: apply_voter_op.cases; simp add: upsert_voter_config_def remove_voter_config_def)+

lemma fold_apply_voter_op_fields [simp]:
  "es_decider (fold apply_voter_op vops s) = es_decider s"
  "es_applied_policy_version (fold apply_voter_op vops s) = es_applied_policy_version s"
  "es_voter_configs (fold apply_voter_op vops s) = es_voter_configs s"
  by (induction vops arbitrary: s) simp_all

lemma apply_voter_op_view:
  assumes "op_valid check v kop"
  shows "hm_get (es_voters (apply_voter_op
      (fst kop, (case snd kop of Some (AddOp c) \<Rightarrow> VAdd (the (check c)) | _ \<Rightarrow> VRemove)) s))
    = op_effect check kop (hm_get (es_voters s))"
  using assms
  by (auto simp: op_valid_def op_effect_def upsert_voter_config_def remove_voter_config_def
      split: option.splits voter_op_kind.splits)

lemma fold_apply_voter_op_view:
  assumes "list_all (op_valid check v) ops"
  shows "hm_get (es_voters (fold apply_voter_op
      (map (\<lambda>kop. (fst kop, (case snd kop of Some (AddOp c) \<Rightarrow> VAdd (the (check c)) | _ \<Rightarrow> VRemove))) ops) s))
    = fold (op_effect check) ops (hm_get (es_voters s))"
  using assms by (induction ops arbitrary: s) (simp_all add: apply_voter_op_view[where v = v])

lemma hm_wf_apply_voter_op: "hm_wf (es_voters s) \<Longrightarrow> hm_wf (es_voters (apply_voter_op vop s))"
  by (cases "(vop, s)" rule: apply_voter_op.cases) (auto simp: upsert_voter_config_def remove_voter_config_def)

lemma hm_wf_fold_voter_op: "hm_wf (es_voters s) \<Longrightarrow> hm_wf (es_voters (fold apply_voter_op vops s))"
  by (induction vops arbitrary: s) (auto simp: hm_wf_apply_voter_op)

lemma apply_policy_batch_view:
  "(case apply_policy_batch vf s batch pos of Inl _ \<Rightarrow> None | Inr s' \<Rightarrow> Some (view_of s')) =
   batch_view (vf_validate_config vf) (view_of s) batch pos"
proof (cases "map_result (validate_voter_op vf s) (pb_voter_ops batch)")
  case (Inl e)
  then show ?thesis using map_result_validate_error[OF Inl] by (simp add: apply_policy_batch_def batch_view_def)
next
  case (Inr vops)
  note ok = map_result_validate[OF Inr]
  then show ?thesis
    using Inr
    by (auto simp: apply_policy_batch_def batch_view_def set_decider_policy_in_engine_state_def view_of_def
        fold_apply_voter_op_view split: option.splits dest: decider_policy_try_from_SomeD)
qed

lemma hm_wf_apply_policy_batch:
  "apply_policy_batch vf s batch pos = Inr s' \<Longrightarrow> hm_wf (es_voters s) \<Longrightarrow> hm_wf (es_voters s')"
  by (auto simp: apply_policy_batch_def set_decider_policy_in_engine_state_def hm_wf_fold_voter_op
      split: sum.splits option.splits)

lemma control_transition_view:
  "(case control_transition vf s e pos of Inl _ \<Rightarrow> None | Inr s' \<Rightarrow> Some (view_of s')) =
   entry_view (vf_validate_config vf) (view_of s) e pos"
  using apply_policy_batch_view[of vf s _ pos]
  by (auto simp: control_transition_def entry_view_def base_engine_control_of_def should_apply_policy_batch_def
      batch_due_def view_of_def split: option.splits payload_kind.splits control_kind.splits
      base_engine_control_kind.splits)

lemma control_transition_okD:
  "control_transition vf s e pos = Inr s' \<Longrightarrow>
   entry_view (vf_validate_config vf) (view_of s) e pos = Some (view_of s')"
  using control_transition_view[of vf s e pos] by simp

lemma entry_view_quiet:
  assumes "\<not> requires_application e"
  shows "entry_view check v e pos = Some v"
  using assms
  by (auto simp: requires_application_def entry_view_def inner_payload_def DECIDER_TYPES_def VOTER_TYPES_def
      ENGINE_TYPES_def split: option.splits payload_kind.splits)

section \<open>Replay\<close>

lemma replay_prefix:
  assumes "prefix es es'" "n \<le> length es"
  shows "replay check es' n = replay check es n"
  using assms(2)
proof (induction n)
  case (Suc n)
  then have "es' ! n = es ! n" using assms(1) by (auto simp: prefix_def nth_append)
  with Suc show ?case by (simp split: option.split)
qed simp

text \<open>Entries that need no application leave the view as it is.\<close>
lemma replay_quiet:
  assumes "m \<le> n" "replay check es m = Some v" "\<And>i. m \<le> i \<Longrightarrow> i < n \<Longrightarrow> \<not> requires_application (es ! i)"
  shows "replay check es n = Some v"
  using assms
proof (induction n)
  case (Suc n)
  show ?case
  proof (cases "m = Suc n")
    case False
    then have "replay check es n = Some v" "\<not> requires_application (es ! n)" using Suc by auto
    then show ?thesis by (simp add: entry_view_quiet)
  qed (use Suc in simp)
qed simp

lemma batch_due_version: "batch_due v b \<Longrightarrow> batch_view check v b pos = Some v' \<Longrightarrow>
   pv_version v' = Some (pb_new_version b) \<and> (\<forall>c. pv_version v = Some c \<longrightarrow> c < pb_new_version b)"
  by (auto simp: batch_due_def batch_view_def split: if_splits option.splits)

lemma entry_view_version:
  assumes "entry_view check v e pos = Some v'"
  shows "v' = v \<or> (\<exists>n. pv_version v' = Some n \<and> (\<forall>c. pv_version v = Some c \<longrightarrow> c < n))"
  using assms batch_due_version
  by (fastforce simp: entry_view_def split: option.splits payload_kind.splits control_kind.splits
      base_engine_control_kind.splits if_splits)

text \<open>The applied version never decreases, and equal versions mean equal policy.\<close>
lemma replay_version_mono:
  assumes "m \<le> n" "replay check es m = Some v" "replay check es n = Some v'"
  shows "v' = v \<or> (\<exists>k. pv_version v' = Some k \<and> (\<forall>c. pv_version v = Some c \<longrightarrow> c < k))"
  using assms
proof (induction n arbitrary: v')
  case (Suc n)
  show ?case
  proof (cases "m = Suc n")
    case False
    then obtain u where u: "replay check es n = Some u" "entry_view check u (es ! n) (int n) = Some v'"
      using Suc.prems by (auto split: option.splits)
    from Suc.IH[OF _ Suc.prems(2) u(1)] False Suc.prems(1)
    have "u = v \<or> (\<exists>k. pv_version u = Some k \<and> (\<forall>c. pv_version v = Some c \<longrightarrow> c < k))" by simp
    moreover from entry_view_version[OF u(2)]
    have "v' = u \<or> (\<exists>n. pv_version v' = Some n \<and> (\<forall>c. pv_version u = Some c \<longrightarrow> c < n))" .
    ultimately show ?thesis by force
  qed (use Suc in simp)
qed simp

section \<open>Planning reaches the desired policy\<close>

lemma fold_op_effect_other: "k \<notin> fst ` set ops \<Longrightarrow> fold (op_effect check) ops m k = m k"
  by (induction ops arbitrary: m) (auto simp: op_effect_def split: option.splits voter_op_kind.splits)

text \<open>With one operation per voter, the effect of a batch is pointwise, whatever the iteration order.\<close>
lemma fold_op_effect_get:
  assumes "hm_wf ops"
  shows "fold (op_effect check) ops m k =
    (case hm_get ops k of
       Some (Some (AddOp c)) \<Rightarrow> check c
     | Some (Some RemoveOp) \<Rightarrow> None
     | _ \<Rightarrow> m k)"
  using assms
proof (induction ops arbitrary: m)
  case (Cons kop ops)
  obtain k' op where kop: "kop = (k', op)" by fastforce
  show ?case
  proof (cases "k = k'")
    case True
    then have "k \<notin> fst ` set ops" using Cons.prems kop by simp
    then have "fold (op_effect check) ops (op_effect check kop m) k = op_effect check kop m k"
      by (rule fold_op_effect_other)
    moreover have "op_effect check kop m k = (case op of Some (AddOp c) \<Rightarrow> check c | Some RemoveOp \<Rightarrow> None | _ \<Rightarrow> m k)"
      using True kop by (simp add: op_effect_def split: option.splits voter_op_kind.splits)
    ultimately show ?thesis using True kop by (simp split: option.splits)
  next
    case False
    then have "op_effect check kop m k = m k"
      by (auto simp: kop op_effect_def split: option.splits voter_op_kind.splits)
    then show ?thesis using Cons False kop by (simp split: option.split voter_op_kind.split)
  qed
qed simp

lemma batch_view_order:
  assumes "mset ops = mset (pb_voter_ops batch)" "hm_wf ops"
  shows "batch_view check v (batch\<lparr>pb_voter_ops := ops\<rparr>) pos = batch_view check v batch pos"
proof -
  have "set ops = set (pb_voter_ops batch)" using assms(1) by (rule mset_eq_setD)
  moreover have wf: "hm_wf (pb_voter_ops batch)"
    using assms by (metis mset_eq_imp_distinct_iff mset_map)
  ultimately have get: "hm_get ops = hm_get (pb_voter_ops batch)"
    using assms(2) wf by (auto simp: fun_eq_iff) (metis map_of_eq_Some_iff not_None_eq)
  have "fold (op_effect check) ops m = fold (op_effect check) (pb_voter_ops batch) m" for m
    by (rule ext) (simp add: fold_op_effect_get[OF assms(2)] fold_op_effect_get[OF wf] get)
  then show ?thesis
    using \<open>set ops = set (pb_voter_ops batch)\<close> by (simp add: batch_view_def list_all_iff)
qed

text \<open>The validation of a config that changes nothing, as the factories of the repository do it.\<close>
definition check_keeps :: "(voter_config option \<Rightarrow> voter_config option) \<Rightarrow> voter_config \<Rightarrow> bool" where
  "check_keeps check c \<longleftrightarrow> check (Some c) = Some c"

text \<open>The policy a view stands for: an unset decider is ON_BY_DEFAULT.\<close>
definition view_policy :: "policy_view \<Rightarrow> int" where
  "view_policy v = (case pv_decider v of None \<Rightarrow> decider_policy_as_i32 OnByDefault | Some d \<Rightarrow> vp_policy d)"

lemma current_policy_of_ok:
  assumes "current_policy_of s = Inr cur"
  shows "pol_voters cur = es_voters s" "pol_decider_policy cur = Some (view_policy (view_of s))"
  using assms
  by (auto simp: current_policy_of_def view_policy_def view_of_def split: option.splits
      dest: decider_policy_try_from_SomeD)

text \<open>
  A batch planned from a state is due in that state, is accepted, and leaves exactly the
  desired voters, decider policy and version.
\<close>
lemma plan_then_apply:
  assumes cur: "current_policy_of s = Inr cur"
    and plan: "plan cur (es_applied_policy_version s) desired = Inr (Some batch)"
    and wf: "hm_wf (pol_voters (vps_state desired))"
    and keeps: "\<And>k c. hm_get (pol_voters (vps_state desired)) k = Some c \<Longrightarrow> check_keeps (vf_validate_config vf) c"
  shows "should_apply_policy_batch s batch"
    and "\<exists>s'. apply_policy_batch vf s batch pos = Inr s' \<and>
      hm_get (es_voters s') = hm_get (pol_voters (vps_state desired)) \<and>
      Some (view_policy (view_of s')) = pol_decider_policy (vps_state desired) \<and>
      es_applied_policy_version s' = Some (vps_version desired)"
proof -
  note P = plan_SomeD[OF plan wf]
  note C = current_policy_of_ok[OF cur]
  show "should_apply_policy_batch s batch"
    using P(1-3) by (auto simp: should_apply_policy_batch_def split: option.split)
  let ?check = "vf_validate_config vf" and ?want = "hm_get (pol_voters (vps_state desired))"
  have ops: "hm_get (pb_voter_ops batch) k =
      (case ?want k of Some c \<Rightarrow> if hm_get (es_voters s) k = None then Some (Some (AddOp (Some c))) else None
       | None \<Rightarrow> if hm_contains (es_voters s) k then Some (Some RemoveOp) else None)" for k
    using P(7)[of k] unfolding C(1) .
  have "op_valid ?check (view_of s) (k, op)" if "(k, op) \<in> set (pb_voter_ops batch)" for k op
  proof -
    have "hm_get (pb_voter_ops batch) k = Some op" using that P(6) by simp
    then show ?thesis
      using ops[of k] keeps[of k]
      by (auto simp: op_valid_def view_of_def hm_contains_def check_keeps_def split: option.splits if_splits)
  qed
  then have valid: "list_all (op_valid ?check (view_of s)) (pb_voter_ops batch)" by (auto simp: list_all_iff)
  obtain p where p: "pol_decider_policy (vps_state desired) = Some (decider_policy_as_i32 p)" using P(4) by blast
  have voters: "fold (op_effect ?check) (pb_voter_ops batch) (hm_get (es_voters s)) = ?want"
  proof
    fix k
    show "fold (op_effect ?check) (pb_voter_ops batch) (hm_get (es_voters s)) k = ?want k"
      using ops[of k] keeps[of k] P(8)[of k] C(1)
      by (auto simp: fold_op_effect_get[OF P(6)] hm_contains_def check_keeps_def split: option.splits)
  qed
  have "batch_view ?check (view_of s) batch pos =
      Some \<lparr>pv_voters = ?want,
         pv_decider = (case pb_decider_policy batch of Some raw \<Rightarrow> Some \<lparr>vp_policy = raw, vp_id = pos\<rparr> | None \<Rightarrow> es_decider s),
         pv_version = Some (vps_version desired)\<rparr>"
    using valid voters P(2,5) p by (auto simp: batch_view_def view_of_def split: option.splits)
  then obtain s' where s': "apply_policy_batch vf s batch pos = Inr s'"
    "view_of s' = \<lparr>pv_voters = ?want,
         pv_decider = (case pb_decider_policy batch of Some raw \<Rightarrow> Some \<lparr>vp_policy = raw, vp_id = pos\<rparr> | None \<Rightarrow> es_decider s),
         pv_version = Some (vps_version desired)\<rparr>"
    using apply_policy_batch_view[of vf s batch pos] by (auto split: sum.splits)
  have "Some (view_policy (view_of s')) = pol_decider_policy (vps_state desired)"
    unfolding s'(2) using P(5) C(2) p
    by (auto simp: view_policy_def view_of_def split: option.splits if_splits)
  then show "\<exists>s'. apply_policy_batch vf s batch pos = Inr s' \<and>
      hm_get (es_voters s') = ?want \<and>
      Some (view_policy (view_of s')) = pol_decider_policy (vps_state desired) \<and>
      es_applied_policy_version s' = Some (vps_version desired)"
    using s' by (auto simp: view_of_def)
qed

section \<open>Properties\<close>

text \<open>
  C5. The engine's state transition on a log entry implements the specification: it succeeds exactly when the
  entry is acceptable to the fold of the log into a policy view, and then the new state stands for the new view.
\<close>
theorem control_transition_refines:
  "(case control_transition vf s e pos of Inl _ \<Rightarrow> None | Inr s' \<Rightarrow> Some (view_of s')) =
   entry_view (vf_validate_config vf) (view_of s) e pos"
  by (rule control_transition_view)

text \<open>
  C7. Planning converges: the batch planned from a state for a desired policy is due in that state, is accepted,
  and leaves exactly the desired voters, decider policy and version.
\<close>
theorem planned_batch_reaches_desired:
  assumes "current_policy_of s = Inr cur" "plan cur (es_applied_policy_version s) desired = Inr (Some batch)"
    and "hm_wf (pol_voters (vps_state desired))"
    and "\<And>k c. hm_get (pol_voters (vps_state desired)) k = Some c \<Longrightarrow> vf_validate_config vf (Some c) = Some c"
  shows "should_apply_policy_batch s batch \<and>
    (\<exists>s'. apply_policy_batch vf s batch pos = Inr s' \<and>
      hm_get (es_voters s') = hm_get (pol_voters (vps_state desired)) \<and>
      Some (view_policy (view_of s')) = pol_decider_policy (vps_state desired) \<and>
      es_applied_policy_version s' = Some (vps_version desired))"
  using plan_then_apply(1)[OF assms(1-3), of vf] plan_then_apply(2)[OF assms(1-3), of vf pos] assms(4)
  by (simp add: check_keeps_def)

definition accept_all :: "unit voter_factory" where
  "accept_all = \<lparr>vf_validate_config = id, vf_create_voter = (\<lambda>_ _. None)\<rparr>"

definition swap_policy :: versioned_policy_state where
  "swap_policy = \<lparr>vps_state = \<lparr>pol_decider_policy = Some 1, pol_voters = [(''new'', Some (Custom \<lparr>type_url = [], any_bytes = []\<rparr>))]\<rparr>,
     vps_version = 4\<rparr>"

definition swap_state :: per_bus_engine_state where
  "swap_state = engine_state_default\<lparr>es_voters := [(''old'', None)], es_applied_policy_version := Some 3\<rparr>"

definition swap_batch :: policy_batch where
  "swap_batch = \<lparr>pb_decider_policy = Some 1,
     pb_voter_ops = [(''old'', Some RemoveOp), (''new'', Some (AddOp (Some (Some (Custom \<lparr>type_url = [], any_bytes = []\<rparr>)))))],
     pb_expected_current_version = Some 3, pb_new_version = 4\<rparr>"

theorem planned_batch_reaches_desired_witness:
  "\<exists>s'. apply_policy_batch accept_all swap_state (the (projr (plan (projr (current_policy_of swap_state)) (Some 3) swap_policy))) 9 = Inr s' \<and>
      hm_get (es_voters s') = hm_get (pol_voters (vps_state swap_policy)) \<and> es_applied_policy_version s' = Some 4"
proof -
  have 1: "current_policy_of swap_state = Inr (projr (current_policy_of swap_state))"
    by (simp add: current_policy_of_def swap_state_def engine_state_default_def)
  have 2: "plan (projr (current_policy_of swap_state)) (es_applied_policy_version swap_state) swap_policy =
      Inr (Some (the (projr (plan (projr (current_policy_of swap_state)) (Some 3) swap_policy))))"
    by code_simp
  from planned_batch_reaches_desired[OF 1 2, of accept_all 9] show ?thesis
    by (auto simp: swap_policy_def accept_all_def)
qed

text \<open>
  The voter operations of a batch come from a hash map, whose iteration order is arbitrary: any order of
  the same operations is accepted or rejected alike and leaves the same policy.
\<close>
theorem batch_order_irrelevant:
  assumes "mset ops = mset (pb_voter_ops batch)" "hm_wf ops"
  shows "(case apply_policy_batch vf s (batch\<lparr>pb_voter_ops := ops\<rparr>) pos of Inl _ \<Rightarrow> None | Inr s' \<Rightarrow> Some (view_of s')) =
    (case apply_policy_batch vf s batch pos of Inl _ \<Rightarrow> None | Inr s' \<Rightarrow> Some (view_of s'))"
  by (simp only: apply_policy_batch_view batch_view_order[OF assms])

theorem batch_order_irrelevant_witness:
  "(case apply_policy_batch accept_all swap_state (swap_batch\<lparr>pb_voter_ops := rev (pb_voter_ops swap_batch)\<rparr>) 9 of
      Inl _ \<Rightarrow> None | Inr s' \<Rightarrow> Some (view_of s')) =
   (case apply_policy_batch accept_all swap_state swap_batch 9 of Inl _ \<Rightarrow> None | Inr s' \<Rightarrow> Some (view_of s'))"
  by (rule batch_order_irrelevant) (simp_all add: swap_batch_def)

primrec control_run :: "'w voter_factory \<Rightarrow> per_bus_engine_state \<Rightarrow> (bus_entry \<times> int) list
    \<Rightarrow> apply_error + per_bus_engine_state" where
  "control_run vf s [] = Inr s"
| "control_run vf s (x # xs) =
     (case control_transition vf s (fst x) (snd x) of Inl e \<Rightarrow> Inl e | Inr s' \<Rightarrow> control_run vf s' xs)"

definition version_raised :: "per_bus_engine_state \<Rightarrow> per_bus_engine_state \<Rightarrow> bool" where
  "version_raised s s' \<longleftrightarrow> (\<exists>k. es_applied_policy_version s' = Some k \<and> (\<forall>c. es_applied_policy_version s = Some c \<longrightarrow> c < k))"

lemma version_raised_trans: "version_raised s s' \<Longrightarrow> version_raised s' s'' \<Longrightarrow> version_raised s s''"
  by (fastforce simp: version_raised_def)

lemma control_transition_raises:
  assumes "control_transition vf s e pos = Inr s'"
  shows "s' = s \<or> version_raised s s'"
proof (cases "\<exists>b. base_engine_control_of e = Some (PolicyBatch b) \<and> should_apply_policy_batch s b")
  case True
  then obtain b where b: "base_engine_control_of e = Some (PolicyBatch b)" "should_apply_policy_batch s b" by blast
  then have "apply_policy_batch vf s b pos = Inr s'" using assms by (simp add: control_transition_def)
  then have "es_applied_policy_version s' = Some (pb_new_version b)"
    by (auto simp: apply_policy_batch_def split: sum.splits option.splits)
  then show ?thesis
    using b(2) by (auto simp: version_raised_def should_apply_policy_batch_def split: option.splits)
next
  case False
  then show ?thesis using assms
    by (auto simp: control_transition_def split: option.splits base_engine_control_kind.splits payload_kind.splits if_splits)
qed

text \<open>
  C10. Over any sequence of entries, the engine's state either stays as it is or its applied policy version has
  become strictly higher: a batch planned against an outdated version has no effect, and a policy never comes back
  under the version it had.
\<close>
theorem applied_version_monotonic:
  assumes "control_run vf s xs = Inr s'"
  shows "s' = s \<or> version_raised s s'"
  using assms
proof (induction xs arbitrary: s)
  case (Cons x xs)
  then obtain t where t: "control_transition vf s (fst x) (snd x) = Inr t" "control_run vf t xs = Inr s'"
    by (auto split: sum.splits)
  from Cons.IH[OF t(2)] control_transition_raises[OF t(1)] version_raised_trans show ?case by blast
qed simp

definition batch_entry :: "policy_batch \<Rightarrow> bus_entry" where
  "batch_entry b = \<lparr>entry_header = None, entry_payload = Some (policy_batch_payload b)\<rparr>"

definition first_batch :: policy_batch where
  "first_batch = \<lparr>pb_decider_policy = Some 1, pb_voter_ops = [], pb_expected_current_version = None, pb_new_version = 3\<rparr>"

theorem applied_version_monotonic_witness:
  "\<exists>s. control_run accept_all engine_state_default [(batch_entry first_batch, 0), (batch_entry first_batch, 1)] = Inr s \<and>
     es_applied_policy_version s = Some 3 \<and> version_raised engine_state_default s"
proof -
  let ?xs = "[(batch_entry first_batch, 0), (batch_entry first_batch, 1)]"
  have "map_sum id es_applied_policy_version (control_run accept_all engine_state_default ?xs) = Inr (Some 3)" by code_simp
  then obtain s where s: "control_run accept_all engine_state_default ?xs = Inr s" "es_applied_policy_version s = Some 3"
    by (cases "control_run accept_all engine_state_default ?xs") auto
  moreover have "s \<noteq> engine_state_default" using s(2) by (auto simp: engine_state_default_def)
  ultimately show ?thesis using applied_version_monotonic[OF s(1)] by blast
qed

end
