(* ===== verification/Engine_Drive.thy ===== *)
theory Engine_Drive
  imports Engine_Policy
begin

text \<open>
  What driving the log guarantees, on every bus and store that keep their contracts and
  while other tasks append and checkpoint: checkpoints always stand for the replay of
  the log up to their position, and a proposal returns the first decision logged for
  it after the checkpoint it started from.
\<close>

section \<open>Checkpoints and snapshots\<close>

definition snap_ok :: "(voter_config option \<Rightarrow> voter_config option) \<Rightarrow> bus_entry list \<Rightarrow> engine_snapshot \<Rightarrow> bool" where
  "snap_ok check es sn \<longleftrightarrow>
     (\<forall>p. sn_position sn = Some p \<longrightarrow> 0 \<le> p) \<and> cursor_of (sn_position sn) \<le> int (length es) \<and>
     replay check es (nat (cursor_of (sn_position sn))) = Some (view_of (sn_state sn))"

text \<open>A stored checkpoint decodes to the replay of the log up to its position.\<close>
definition checkpoint_ok :: "'b engine_codec \<Rightarrow> (voter_config option \<Rightarrow> voter_config option) \<Rightarrow> bus_entry list
    \<Rightarrow> ('b \<times> int) option \<Rightarrow> bool" where
  "checkpoint_ok codec check es stored_value \<longleftrightarrow>
     (\<forall>b p. stored_value = Some (b, p) \<longrightarrow>
        (\<exists>st. decode_engine codec b = Some st \<and> snap_ok check es \<lparr>sn_state = st, sn_position = Some p\<rparr>))"

definition stored_cursor :: "('b \<times> int) option \<Rightarrow> int" where
  "stored_cursor d = cursor_of (map_option snd d)"

text \<open>No entry of \<open>[a, n)\<close> needs application.\<close>
definition quiet :: "bus_entry list \<Rightarrow> int \<Rightarrow> int \<Rightarrow> bool" where
  "quiet es a n \<longleftrightarrow> (\<forall>i. a \<le> int i \<and> int i < n \<longrightarrow> \<not> requires_application (es ! i))"

lemma snap_ok_nonneg: "snap_ok check es sn \<Longrightarrow> 0 \<le> cursor_of (sn_position sn)"
  by (auto simp: snap_ok_def cursor_of_def split: option.splits)

lemma snap_ok_prefix: "snap_ok check es sn \<Longrightarrow> prefix es es' \<Longrightarrow> snap_ok check es' sn"
  using prefix_length_le[of es es'] replay_prefix[of es es' "nat (cursor_of (sn_position sn))" check]
  by (auto simp: snap_ok_def)

lemma checkpoint_ok_prefix: "checkpoint_ok codec check es d \<Longrightarrow> prefix es es' \<Longrightarrow> checkpoint_ok codec check es' d"
  unfolding checkpoint_ok_def using snap_ok_prefix by blast

lemma checkpoint_ok_cursor: "checkpoint_ok codec check es d \<Longrightarrow> 0 \<le> stored_cursor d"
  by (cases d) (auto simp: checkpoint_ok_def snap_ok_def stored_cursor_def cursor_of_def)

lemma stored_cursor_grows:
  assumes "store_grows s s'" "checkpoint_ok codec check es (s' k)"
  shows "stored_cursor (s k) \<le> stored_cursor (s' k)"
proof (cases "s k")
  case None
  then show ?thesis using checkpoint_ok_cursor[OF assms(2)] by (simp add: stored_cursor_def cursor_of_def)
next
  case (Some vp)
  obtain v p where vp: "vp = (v, p)" by fastforce
  then obtain v' p' where "s' k = Some (v', p')" "p \<le> p'" using assms(1) Some unfolding store_grows_def by blast
  then show ?thesis using Some vp by (simp add: stored_cursor_def cursor_of_def)
qed

lemma quiet_prefix: "quiet es a n \<Longrightarrow> prefix es es' \<Longrightarrow> n \<le> int (length es) \<Longrightarrow> quiet es' a n"
  by (fastforce simp: quiet_def prefix_def nth_append)

lemma quiet_mono: "quiet es a n \<Longrightarrow> a \<le> a' \<Longrightarrow> quiet es a' n"
  by (auto simp: quiet_def)

lemma snap_ok_advance:
  assumes "snap_ok check es sn" "cursor_of (sn_position sn) \<le> int n" "n < length es"
    and "quiet es (cursor_of (sn_position sn)) (int n)"
    and "entry_view check (view_of (sn_state sn)) (es ! n) (int n) = Some (view_of st)"
  shows "snap_ok check es \<lparr>sn_state = st, sn_position = Some (int n)\<rparr>"
proof -
  let ?c = "nat (cursor_of (sn_position sn))"
  have "replay check es n = Some (view_of (sn_state sn))"
  proof (rule replay_quiet[of ?c])
    show "?c \<le> n" using assms(2) by simp
    show "replay check es ?c = Some (view_of (sn_state sn))" using assms(1) by (simp add: snap_ok_def)
    show "\<not> requires_application (es ! i)" if "?c \<le> i" "i < n" for i
      using assms(4) that by (simp add: quiet_def nat_le_iff)
  qed
  then have "replay check es (Suc n) = Some (view_of st)" using assms(5) by simp
  then show ?thesis using assms(3) by (simp add: snap_ok_def cursor_of_def nat_add_distrib)
qed

text \<open>The decision an entry carries for a proposal, and the first such entry from \<open>c\<close> on.\<close>
definition entry_outcome :: "bus_entry \<Rightarrow> int \<Rightarrow> proposal_outcome option" where
  "entry_outcome e proposed = (case entry_payload e of Some p \<Rightarrow> outcome_for p proposed | None \<Rightarrow> None)"

definition undecided :: "bus_entry list \<Rightarrow> int \<Rightarrow> int \<Rightarrow> int \<Rightarrow> bool" where
  "undecided es c n proposed \<longleftrightarrow> (\<forall>i. c \<le> int i \<and> int i < n \<longrightarrow> entry_outcome (es ! i) proposed = None)"

text \<open>
  The specification of a decision does not mention \<open>outcome_for\<close>: an entry decides a position when it is the commit
  or the abort of exactly that position, with the reason reported.
\<close>
definition decides :: "bus_entry \<Rightarrow> int \<Rightarrow> proposal_outcome \<Rightarrow> bool" where
  "decides e proposed out \<longleftrightarrow> po_log_position out = proposed \<and>
     entry_payload e = Some (Some
       (if po_approved out then Commit \<lparr>commit_intention_id = proposed, commit_reason = po_reason out\<rparr>
        else Abort \<lparr>abort_intention_id = proposed, abort_reason = po_reason out\<rparr>))"

definition first_decision :: "bus_entry list \<Rightarrow> int \<Rightarrow> int \<Rightarrow> proposal_outcome \<Rightarrow> bool" where
  "first_decision es c proposed out \<longleftrightarrow>
     (\<exists>n < length es. c \<le> int n \<and> decides (es ! n) proposed out \<and>
        (\<forall>i < n. c \<le> int i \<longrightarrow> (\<forall>o'. \<not> decides (es ! i) proposed o')))"

lemma entry_outcome_decides: "entry_outcome e proposed = Some out \<longleftrightarrow> decides e proposed out"
proof
  show "entry_outcome e proposed = Some out \<Longrightarrow> decides e proposed out"
    by (auto simp: entry_outcome_def outcome_for_def decides_def split: option.splits payload_kind.splits if_splits)
  show "decides e proposed out \<Longrightarrow> entry_outcome e proposed = Some out"
    by (cases out) (auto simp: entry_outcome_def outcome_for_def decides_def split: if_splits)
qed

lemma first_decision_outcome:
  "first_decision es c proposed out \<longleftrightarrow>
     (\<exists>n < length es. c \<le> int n \<and> entry_outcome (es ! n) proposed = Some out \<and> undecided es c (int n) proposed)"
  unfolding first_decision_def undecided_def by (auto simp flip: entry_outcome_decides)

lemma entry_outcome_position: "entry_outcome e p = Some out \<Longrightarrow> po_log_position out = p"
  by (auto simp: entry_outcome_def outcome_for_def split: option.splits payload_kind.splits if_splits)

lemma undecided_prefix: "undecided es c n p \<Longrightarrow> prefix es es' \<Longrightarrow> n \<le> int (length es) \<Longrightarrow> undecided es' c n p"
  by (fastforce simp: undecided_def prefix_def nth_append)

lemma first_decision_prefix: "first_decision es c p out \<Longrightarrow> prefix es es' \<Longrightarrow> first_decision es' c p out"
  unfolding first_decision_outcome
  by (metis (no_types, lifting) less_imp_le_nat nth_append of_nat_le_iff order_less_le_trans prefixE
      prefix_length_le undecided_prefix)

lemma first_decision_unique:
  assumes "first_decision es c p out" "first_decision es c p out'"
  shows "out = out'"
proof -
  obtain n where n: "c \<le> int n" "entry_outcome (es ! n) p = Some out" "undecided es c (int n) p"
    using assms(1) unfolding first_decision_outcome by blast
  obtain n' where n': "c \<le> int n'" "entry_outcome (es ! n') p = Some out'" "undecided es c (int n') p"
    using assms(2) unfolding first_decision_outcome by blast
  have "\<not> n < n'" using n n'(3) by (auto simp: undecided_def)
  moreover have "\<not> n' < n" using n' n(3) by (auto simp: undecided_def)
  ultimately show ?thesis using n(2) n'(2) by (simp add: linorder_neq_iff)
qed

lemma wp_playback_operation:
  "wp (playback_operation rt b e) Q E (t, init) =
   wp (case init of Some sn \<Rightarrow> apply_entry_once rt b e sn
       | None \<Rightarrow> bindE (map_errE load_error_into_apply (on_world (snapshot_load rt b))) (apply_entry_once rt b e))
     (\<lambda>a t'. Q a (t', None)) (\<lambda>err t'. E err (t', None)) t"
  by (simp add: wp_def playback_operation_def on_world_def split: prod.splits sum.splits)

section \<open>The environment of an engine\<close>

text \<open>
  The bus and the store with a common notion of what other tasks may do in between, under
  which checkpoints stay sound; the codec of engine states; deciders, voters and the
  environment, which act within it.
\<close>

locale engine_env =
  bus: log_bus "rt_bus rt" log inv evolves + store: cas_store "rt_storage rt" data evolves writes
  for rt :: "('b, 'w) engine_runtime" and log inv evolves data writes +
  assumes codec: "\<exists>st'. decode_engine (rt_codec rt) (encode_engine (rt_codec rt) st) = Some st' \<and> view_of st' = view_of st"
    and evolves_checkpoint: "evolves w w' \<Longrightarrow> inv w \<Longrightarrow>
      checkpoint_ok (rt_codec rt) (vf_validate_config (rt_voter_factory rt)) (log w b) (data w (engine_state_key b)) \<Longrightarrow>
      checkpoint_ok (rt_codec rt) (vf_validate_config (rt_voter_factory rt)) (log w' b) (data w' (engine_state_key b))"
    and writes_log: "writes w k x w' \<Longrightarrow> log w' = log w"
    and writes_inv: "writes w k x w' \<Longrightarrow> inv w \<Longrightarrow> inv w'"
    and decider_moves: "moves evolves (rt_decider_factory rt sid pol bid e)"
    and voter_moves: "vf_create_voter (rt_voter_factory rt) vid c = Some a \<Longrightarrow> moves evolves (a bid e)"
    and sleep_moves: "evolves w (env_sleep (rt_environment rt) d w)"
    and backoff_moves: "evolves w (snd (env_backoff (rt_environment rt) u w))"
begin

abbreviation check where
  "check \<equiv> vf_validate_config (rt_voter_factory rt)"

definition good where
  "good w \<longleftrightarrow> inv w \<and> (\<forall>b. checkpoint_ok (rt_codec rt) check (log w b) (data w (engine_state_key b)))"

text \<open>What every engine operation does to a good world.\<close>
definition progress where
  "progress w w' \<longleftrightarrow>
     (good w \<longrightarrow> good w' \<and> (\<forall>b. prefix (log w b) (log w' b)) \<and> store_grows (data w) (data w'))"

lemma progress_refl: "progress w w"
  by (simp add: progress_def store_grows_refl)

lemma progress_trans: "progress w w1 \<Longrightarrow> progress w1 w2 \<Longrightarrow> progress w w2"
  unfolding progress_def using store_grows_trans prefix_order.trans by blast

lemma progress_reflp_transp: "reflp progress" "transp progress"
  using progress_refl progress_trans by (auto intro: reflpI transpI)

lemma evolves_progress: "evolves w w' \<Longrightarrow> progress w w'"
  unfolding progress_def good_def
  using bus.evolves_inv bus.evolves_log evolves_checkpoint store.evolves_data by blast

lemma evolves_moves: "moves evolves m \<Longrightarrow> moves progress m"
  using moves_mono[OF _ evolves_progress] .

lemma progress_stored_cursor:
  assumes "progress w w'" "good w"
  shows "stored_cursor (data w (engine_state_key b)) \<le> stored_cursor (data w' (engine_state_key b))"
  using assms stored_cursor_grows unfolding progress_def good_def by blast

lemma progress_length: "progress w w' \<Longrightarrow> good w \<Longrightarrow> length (log w b) \<le> length (log w' b)"
  by (auto simp: progress_def prefix_length_le)

lemma moves_apply_tolerating_stale:
  assumes "moves evolves (a bid e)"
  shows "moves evolves (apply_tolerating_stale a bid e (rt_environment rt) cfg)"
  unfolding apply_tolerating_stale_def
proof (intro moves_map_errE moves_retry bus.evolves_reflp_transp sleep_moves backoff_moves)
  show "moves evolves (matchE (a bid e) (\<lambda>e. case e of StalePosition _ _ \<Rightarrow> ret None | _ \<Rightarrow> raise e) ret)"
    by (intro moves_matchE bus.evolves_reflp_transp assms moves_ret)
      (auto split: apply_error.split intro!: moves_ret moves_raise bus.evolves_reflp_transp)
qed

lemma moves_dispatch_one:
  assumes "\<And>bid e. moves evolves (ab_applicator bd bid e)"
  shows "moves evolves (dispatch_one rt bid e p acc bd)"
  unfolding dispatch_one_def
  using moves_apply_tolerating_stale[OF assms] bus.evolves_reflp_transp by auto

lemma build_voters_moves:
  assumes "build_voters rt st = Inr vs" "v \<in> set vs"
  shows "moves evolves (ab_applicator v bid e)"
proof -
  obtain i where i: "i < length vs" "v = vs ! i" using assms(2) by (auto simp: in_set_conv_nth)
  obtain vid c a where "vf_create_voter (rt_voter_factory rt) vid c = Some a" "v = bind_voter_applicator a"
    using map_result_OkD[OF assms(1)[unfolded build_voters_def]] i
    by (cases "state_voter_configs st ! i") (auto split: option.splits)
  then show ?thesis using voter_moves by (simp add: bind_voter_applicator_def)
qed

lemma moves_foldE_dispatch:
  assumes "\<And>v. v \<in> set vs \<Longrightarrow> (\<And>bid e. moves evolves (ab_applicator v bid e))"
  shows "moves evolves (foldE (dispatch_one rt bid e p) acc vs)"
  using assms
proof (induction vs arbitrary: acc)
  case (Cons v vs)
  then have "moves evolves (dispatch_one rt bid e p acc v)" by (intro moves_dispatch_one) auto
  then show ?case using Cons bus.evolves_reflp_transp by auto
qed (use bus.evolves_reflp_transp in auto)

lemma moves_dispatch_entry: "moves evolves (dispatch_entry rt bid e n st)"
proof (cases "entry_payload e")
  case (Some p)
  note rt = bus.evolves_reflp_transp
  have dec: "moves evolves (dispatch_one rt bid e p [] d)" if "build_decider rt st = Inr d" for d
    using that by (intro moves_dispatch_one) (auto simp: build_decider_def decider_moves split: sum.splits prod.splits)
  have vot: "moves evolves (foldE (dispatch_one rt bid e p) acc vs)" if "build_voters rt st = Inr vs" for acc vs
    using build_voters_moves[OF that] by (rule moves_foldE_dispatch)
  show ?thesis
  proof (rule movesI_wp)
    fix w
    have v: "wp (bindE (liftR (build_voters rt st)) (\<lambda>vs. foldE (dispatch_one rt bid e p) acc vs)) (\<lambda>_. evolves w) (\<lambda>_. evolves w) w1"
      if "evolves w w1" for w1 acc
    proof (cases "build_voters rt st")
      case (Inr vs)
      show ?thesis
        unfolding Inr wp_bindE wp_liftR sum.case
        by (rule wp_moves[OF vot[OF Inr]]) (use that bus.evolves_trans in blast)+
    qed (use that in \<open>simp add: wp_bindE wp_liftR\<close>)
    show "wp (dispatch_entry rt bid e n st) (\<lambda>_. evolves w) (\<lambda>_. evolves w) w"
    proof (cases "policy_constraint_failure p (es_applied_policy_version st)")
      case None
      show ?thesis
      proof (cases "build_decider rt st")
        case (Inr d)
        show ?thesis
          unfolding dispatch_entry_def Some None Inr option.case wp_bindE[of "liftR _"] wp_liftR sum.case
            wp_bindE[of "dispatch_one _ _ _ _ _ _"]
          by (rule wp_moves[OF dec[OF Inr]]) (use v in \<open>simp_all add: wp_bindE wp_liftR\<close>)
      qed (simp add: dispatch_entry_def Some None wp_bindE wp_liftR bus.evolves_refl)
    qed (simp add: dispatch_entry_def Some wp_ret bus.evolves_refl)
  qed
qed (use bus.evolves_reflp_transp in \<open>auto simp: dispatch_entry_def\<close>)

text \<open>Appending the produced payloads: the world progresses and \<open>highest_append\<close> stays a written position.\<close>
lemma append_produced_sound:
  assumes "good w" "h < int (length (log w b))"
  shows "wp (foldE (\<lambda>_. append_produced rt b) () ps)
    (\<lambda>_ s. progress w (fst s) \<and> h \<le> snd s \<and> snd s < int (length (log (fst s) b)))
    (\<lambda>_ s. progress w (fst s) \<and> h \<le> snd s \<and> snd s < int (length (log (fst s) b))) (w, h)"
proof (rule wp_foldE[where I = "\<lambda>_ _ s. progress w (fst s) \<and> h \<le> snd s \<and> snd s < int (length (log (fst s) b))"])
  fix p and s :: "'w \<times> int"
  assume s: "progress w (fst s) \<and> h \<le> snd s \<and> snd s < int (length (log (fst s) b))"
  obtain w1 h1 where s1: "s = (w1, h1)" by fastforce
  let ?req = "\<lparr>ar_bus_id = Some b, ar_payload = Some p\<rparr>"
  obtain r w2 where call: "bus_append (rt_bus rt) ?req w1 = (r, w2)" by fastforce
  have pr: "progress w1 w2" using evolves_progress movesD[OF bus.append_evolves call] .
  have g1: "good w1" using s s1 assms(1) by (simp add: progress_def)
  have "inv w1" using g1 by (simp add: good_def)
  from bus.append_law[OF this, of b p] call
  have "\<And>pos. r = Inr pos \<Longrightarrow> pos < int (length (log w2 b))" by auto
  with pr s s1 progress_length[OF pr g1, of b] progress_trans[of w w1 w2]
  show "wp (append_produced rt b p)
      (\<lambda>_ s. progress w (fst s) \<and> h \<le> snd s \<and> snd s < int (length (log (fst s) b)))
      (\<lambda>_ s. progress w (fst s) \<and> h \<le> snd s \<and> snd s < int (length (log (fst s) b))) s"
    by (cases r) (auto simp: append_produced_def wp_rules, auto simp: wp_def call)
qed (use assms in \<open>simp_all add: progress_refl\<close>)

text \<open>The final compare-and-swap of an entry keeps every checkpoint sound.\<close>
lemma save_sound:
  assumes "good w" "snap_ok check (log w b) sn" "n < length (log w b)" "cursor_of (sn_position sn) \<le> int n"
    and "c0 \<le> stored_cursor (data w (engine_state_key b))" "quiet (log w b) c0 (int n)"
    and "entry_view check (view_of (sn_state sn)) (log w b ! n) (int n) = Some (view_of st)"
    and "engine_state_save (rt_codec rt) st (rt_storage rt) b (sn_position sn) (int n) w = (r, w')"
  shows "progress w w'" "r = Inr True \<Longrightarrow> int n < stored_cursor (data w' (engine_state_key b))"
    "r = Inr True \<Longrightarrow> snap_ok check (log w' b) \<lparr>sn_state = st, sn_position = Some (int n)\<rparr>"
proof -
  let ?k = "engine_state_key b"
  have put: "st_put (rt_storage rt) ?k (encode_engine (rt_codec rt) st) (sn_position sn) (int n) w = (r, w')"
    using assms(8) by (simp add: engine_state_save_def)
  have "progress w w' \<and> (r = Inr True \<longrightarrow> int n < stored_cursor (data w' ?k) \<and>
      snap_ok check (log w' b) \<lparr>sn_state = st, sn_position = Some (int n)\<rparr>)"
    using store.put_law[OF put]
  proof (elim disjE exE conjE)
    assume "evolves w w'" "r \<noteq> Inr True"
    then show ?thesis by (simp add: evolves_progress)
  next
    fix w1 w2
    assume w1: "evolves w w1" and cas: "cas_allowed (data w1 ?k) (sn_position sn) (int n)"
      and wr: "writes w1 ?k (encode_engine (rt_codec rt) st, int n) w2" and w2: "evolves w2 w'"
    have p1: "progress w w1" using evolves_progress[OF w1] .
    have g1: "good w1" and pre: "prefix (log w b) (log w1 b)" using p1 assms(1) by (auto simp: progress_def)
    have cur: "stored_cursor (data w1 ?k) = cursor_of (sn_position sn)"
      using cas by (simp add: cas_allowed_def stored_cursor_def)
    have "c0 \<le> cursor_of (sn_position sn)"
      using assms(5) progress_stored_cursor[OF p1 assms(1), of b] cur by simp
    then have "quiet (log w b) (cursor_of (sn_position sn)) (int n)" using quiet_mono[OF assms(6)] by blast
    from snap_ok_advance[OF assms(2,4,3) this assms(7)]
    have "snap_ok check (log w b) \<lparr>sn_state = st, sn_position = Some (int n)\<rparr>" .
    then have snap: "snap_ok check (log w1 b) \<lparr>sn_state = st, sn_position = Some (int n)\<rparr>"
      using pre by (rule snap_ok_prefix)
    have data2: "data w2 = (data w1)(?k \<mapsto> (encode_engine (rt_codec rt) st, int n))"
      using store.writes_data[OF wr] .
    have log2: "log w2 = log w1" using writes_log[OF wr] .
    obtain st' where st': "decode_engine (rt_codec rt) (encode_engine (rt_codec rt) st) = Some st'" "view_of st' = view_of st"
      using codec by blast
    have "checkpoint_ok (rt_codec rt) check (log w1 b) (Some (encode_engine (rt_codec rt) st, int n))"
      using snap st' by (simp add: checkpoint_ok_def snap_ok_def)
    then have g2: "good w2"
      using g1 writes_inv[OF wr] by (auto simp: good_def data2 log2)
    have "store_grows (data w1) (data w2)" unfolding data2 using cas by (rule store_grows_write)
    then have p12: "progress w1 w2" using g2 log2 by (simp add: progress_def)
    have "progress w2 w'" using evolves_progress[OF w2] .
    moreover from progress_stored_cursor[OF this g2, of b]
    have "int n < stored_cursor (data w' ?k)" by (simp add: data2 stored_cursor_def cursor_of_def)
    moreover have "snap_ok check (log w' b) \<lparr>sn_state = st, sn_position = Some (int n)\<rparr>"
      using snap_ok_prefix[OF snap, of "log w' b"] calculation(1) g2 log2 by (simp add: progress_def)
    ultimately show ?thesis using p1 p12 progress_trans by blast
  qed
  then show "progress w w'" "r = Inr True \<Longrightarrow> int n < stored_cursor (data w' ?k)"
    "r = Inr True \<Longrightarrow> snap_ok check (log w' b) \<lparr>sn_state = st, sn_position = Some (int n)\<rparr>" by auto
qed

text \<open>What holds of the world and the captured \<open>highest_append\<close> while entry \<open>n\<close> is being applied.\<close>
definition applying where
  "applying w0 b c0 n h0 s \<longleftrightarrow> progress w0 (fst s) \<and> good w0 \<and> n < length (log w0 b) \<and> quiet (log w0 b) c0 (int n) \<and>
     c0 \<le> stored_cursor (data (fst s) (engine_state_key b)) \<and>
     h0 \<le> snd s \<and> snd s < int (length (log (fst s) b))"

lemma applying_facts:
  assumes "applying w0 b c0 n h0 s"
  shows "good (fst s)" "n < length (log (fst s) b)" "quiet (log (fst s) b) c0 (int n)"
    "log (fst s) b ! n = log w0 b ! n" "prefix (log w0 b) (log (fst s) b)"
proof -
  from assms have g: "good (fst s)" and p: "prefix (log w0 b) (log (fst s) b)" and n: "n < length (log w0 b)"
    and q: "quiet (log w0 b) c0 (int n)"
    by (auto simp: applying_def progress_def)
  show "good (fst s)" "prefix (log w0 b) (log (fst s) b)" using g p by auto
  show "n < length (log (fst s) b)" using n prefix_length_le[OF p] by simp
  show "quiet (log (fst s) b) c0 (int n)" using quiet_prefix[OF q p] n by simp
  show "log (fst s) b ! n = log w0 b ! n" using p n by (auto simp: prefix_def nth_append)
qed

lemma applying_progress:
  assumes "applying w0 b c0 n h0 s" "progress (fst s) w'" "snd s \<le> h'" "h' < int (length (log w' b))"
  shows "applying w0 b c0 n h0 (w', h')"
  using assms progress_stored_cursor[OF assms(2) applying_facts(1)[OF assms(1)], of b] progress_trans
  unfolding applying_def by auto

lemma header_of_log:
  assumes "inv w" "n < length (log w b)"
  shows "header_position (log w b ! n) = Some (int n)" "entry_header (log w b ! n) \<noteq> None" "entry_payload (log w b ! n) \<noteq> None"
  using bus.log_numbered[OF assms(1), of b] assms(2) by (auto simp: well_numbered_def header_position_def)

lemma apply_entry_once_sound:
  assumes "applying w0 b c0 n h0 s" "snap_ok check (log (fst s) b) sn"
    and "cursor_of (sn_position sn) \<le> stored_cursor (data (fst s) (engine_state_key b))"
  shows "wp (apply_entry_once rt b (log w0 b ! n) sn)
    (\<lambda>sn' s'. applying w0 b c0 n h0 s' \<and> snap_ok check (log (fst s') b) sn' \<and> int n < cursor_of (sn_position sn') \<and>
       cursor_of (sn_position sn') \<le> stored_cursor (data (fst s') (engine_state_key b)))
    (\<lambda>_ s'. applying w0 b c0 n h0 s') s"
    (is "wp _ ?Q ?E s")
proof -
  obtain w h where s: "s = (w, h)" by fastforce
  let ?e = "log w0 b ! n"
  note A = applying_facts[OF assms(1), unfolded s fst_conv]
  have e: "header_position ?e = Some (int n)" using header_of_log(1)[of w n b] A by (simp add: good_def)
  have h: "h < int (length (log w b))" using assms(1) s by (simp add: applying_def)
  show ?thesis
  proof (cases "int n < cursor_of (sn_position sn)")
    case True
    then show ?thesis using e assms by (simp add: apply_entry_once_def wp_ret)
  next
    case False
    have save: "wp (on_world (apply_write OwnerEngine b (int n)
          (engine_state_save (rt_codec rt) st (rt_storage rt) b (sn_position sn) (int n))))
        (\<lambda>_ s'. ?Q \<lparr>sn_state = st, sn_position = Some (int n)\<rparr> s') ?E (w2, h2)"
      if s2: "applying w0 b c0 n h0 (w2, h2)" and pre: "prefix (log w b) (log w2 b)"
        and ctl: "control_transition (rt_voter_factory rt) (sn_state sn) ?e (int n) = Inr st" for w2 h2 st
    proof -
      note A2 = applying_facts[OF s2, unfolded fst_conv]
      obtain r w3 where call: "engine_state_save (rt_codec rt) st (rt_storage rt) b (sn_position sn) (int n) w2 = (r, w3)"
        by fastforce
      have snap2: "snap_ok check (log w2 b) sn" using assms(2) pre s by (simp add: snap_ok_prefix)
      have view: "entry_view check (view_of (sn_state sn)) (log w2 b ! n) (int n) = Some (view_of st)"
        using control_transition_okD[OF ctl] A2(4) by simp
      have c: "cursor_of (sn_position sn) \<le> int n" "c0 \<le> stored_cursor (data w2 (engine_state_key b))"
        using False s2 by (auto simp: applying_def)
      note saved = save_sound[OF A2(1) snap2 A2(2) c(1) c(2) A2(3) view call]
      have h2: "h2 < int (length (log w3 b))"
        using s2 progress_length[OF saved(1) A2(1), of b] by (simp add: applying_def)
      have "applying w0 b c0 n h0 (w3, h2)"
        by (rule applying_progress[OF s2]) (use saved(1) h2 in auto)
      then show ?thesis
        using saved(2,3)
        by (cases "into_apply_result OwnerEngine b (int n) r")
          (auto simp: wp_on_world wp_apply_write call cursor_of_def)
    qed
    have tail: "wp (bindE (foldE (\<lambda>_. append_produced rt b) () ps) (\<lambda>_.
        bindE (liftR (control_transition (rt_voter_factory rt) (sn_state sn) ?e (int n))) (\<lambda>st.
        bindE (on_world (apply_write OwnerEngine b (int n)
            (engine_state_save (rt_codec rt) st (rt_storage rt) b (sn_position sn) (int n))))
          (\<lambda>_. ret \<lparr>sn_state = st, sn_position = Some (int n)\<rparr>)))) ?Q ?E (w1, h)"
      if w1: "evolves w w1" for ps w1
    proof -
      have p1: "progress w w1" using evolves_progress[OF w1] .
      have g1: "good w1" and pre1: "prefix (log w b) (log w1 b)" using p1 A(1) by (auto simp: progress_def)
      have h1: "h < int (length (log w1 b))" using h prefix_length_le[OF pre1] by simp
      have adv: "applying w0 b c0 n h0 s2" "prefix (log w b) (log (fst s2) b)"
        if "progress w1 (fst s2) \<and> h \<le> snd s2 \<and> snd s2 < int (length (log (fst s2) b))" for s2
      proof -
        have p2: "progress w (fst s2)" using that p1 progress_trans by blast
        then show "prefix (log w b) (log (fst s2) b)" using A(1) by (simp add: progress_def)
        show "applying w0 b c0 n h0 s2"
          using applying_progress[OF assms(1), of "fst s2" "snd s2"] p2 that s by simp
      qed
      show ?thesis
        unfolding wp_bindE[of "foldE _ _ _"]
      proof (rule wp_mono[OF append_produced_sound[OF g1 h1]])
        fix a and s2 :: "'w \<times> int"
        assume s2: "progress w1 (fst s2) \<and> h \<le> snd s2 \<and> snd s2 < int (length (log (fst s2) b))"
        obtain w2 h2 where w2: "s2 = (w2, h2)" by fastforce
        show "wp (bindE (liftR (control_transition (rt_voter_factory rt) (sn_state sn) ?e (int n))) (\<lambda>st.
            bindE (on_world (apply_write OwnerEngine b (int n)
                (engine_state_save (rt_codec rt) st (rt_storage rt) b (sn_position sn) (int n))))
              (\<lambda>_. ret \<lparr>sn_state = st, sn_position = Some (int n)\<rparr>))) ?Q ?E s2"
        proof (cases "control_transition (rt_voter_factory rt) (sn_state sn) ?e (int n)")
          case (Inl err)
          then show ?thesis using adv(1)[OF s2] by (simp add: wp_bindE wp_liftR)
        next
          case (Inr st)
          then show ?thesis
            using save[of w2 h2 st] adv[OF s2] w2 by (simp add: wp_bindE[of "liftR _"] wp_liftR wp_bindE[of "on_world _"] wp_ret)
        qed
      qed (use adv(1) in auto)
    qed
    have "apply_entry_once rt b ?e sn = bindE (on_world (dispatch_entry rt b ?e (int n) (sn_state sn))) (\<lambda>ps.
        bindE (foldE (\<lambda>_. append_produced rt b) () ps) (\<lambda>_.
        bindE (liftR (control_transition (rt_voter_factory rt) (sn_state sn) ?e (int n))) (\<lambda>st.
        bindE (on_world (apply_write OwnerEngine b (int n)
            (engine_state_save (rt_codec rt) st (rt_storage rt) b (sn_position sn) (int n))))
          (\<lambda>_. ret \<lparr>sn_state = st, sn_position = Some (int n)\<rparr>))))"
      using False e by (simp add: apply_entry_once_def)
    moreover have "applying w0 b c0 n h0 (w', h)" if "evolves w w'" for w'
      using that assms(1) applying_progress[OF assms(1), of w' h] progress_length[OF evolves_progress[OF that] A(1), of b] h s
        evolves_progress by simp
    ultimately show ?thesis
      unfolding s using wp_moves[OF moves_dispatch_entry] tail by (simp add: wp_bindE[of "on_world _"] wp_on_world)
  qed
qed

lemma snapshot_load_sound:
  assumes "good w"
  shows "wp (snapshot_load rt b)
    (\<lambda>sn w'. evolves w w' \<and> snap_ok check (log w' b) sn \<and>
       cursor_of (sn_position sn) \<le> stored_cursor (data w' (engine_state_key b)))
    (\<lambda>_ w'. evolves w w') w"
proof -
  let ?k = "engine_state_key b"
  obtain r w' where call: "st_get (rt_storage rt) ?k w = (r, w')" by fastforce
  from store.get_law[OF call] obtain w1 where
    w1: "evolves w w1" "evolves w1 w'" "\<And>x. r = Inr x \<Longrightarrow> x = data w1 ?k" by blast
  have ev: "evolves w w'" using bus.evolves_trans[OF w1(1,2)] .
  have g1: "good w1" using evolves_progress[OF w1(1)] assms by (simp add: progress_def)
  have p: "progress w1 w'" using evolves_progress[OF w1(2)] .
  have pre: "prefix (log w1 b) (log w' b)" using p g1 by (simp add: progress_def)
  have cur: "stored_cursor (data w1 ?k) \<le> stored_cursor (data w' ?k)" using progress_stored_cursor[OF p g1] .
  have ck: "checkpoint_ok (rt_codec rt) check (log w1 b) (data w1 ?k)" using g1 by (simp add: good_def)
  have default: "snap_ok check (log w' b) \<lparr>sn_state = engine_state_default, sn_position = None\<rparr>"
    by (simp add: snap_ok_def cursor_of_def)
  show ?thesis
  proof (cases r)
    case (Inl e)
    then show ?thesis using ev call by (simp add: snapshot_load_def engine_state_load_def wp_rules) (simp add: wp_def)
  next
    case (Inr x)
    note x = w1(3)[OF Inr]
    show ?thesis
    proof (cases x)
      case None
      then have "stored_cursor (data w1 ?k) = 0" using x by (simp add: stored_cursor_def cursor_of_def)
      then have "0 \<le> stored_cursor (data w' ?k)" using cur by simp
      then show ?thesis using ev call Inr None default
        by (simp add: snapshot_load_def engine_state_load_def wp_rules) (simp add: wp_def wp_ret cursor_of_def)
    next
      case (Some bp)
      obtain bytes p where bp: "bp = (bytes, p)" by fastforce
      with ck Some x obtain st where st: "decode_engine (rt_codec rt) bytes = Some st"
        "snap_ok check (log w1 b) \<lparr>sn_state = st, sn_position = Some p\<rparr>"
        by (auto simp: checkpoint_ok_def)
      have "cursor_of (Some p) \<le> stored_cursor (data w' ?k)" using cur x Some bp
        by (metis stored_cursor_def option.simps(9) snd_conv)
      then show ?thesis using ev call Inr Some bp st(1) snap_ok_prefix[OF st(2) pre]
        by (simp add: snapshot_load_def engine_state_load_def wp_rules) (simp add: wp_def wp_ret ret_def bindE_def)
    qed
  qed
qed

text \<open>The whole of \<open>apply\<close>, retries included.\<close>
lemma playback_operation_sound:
  assumes "applying w0 b c0 n h0 (fst s)"
    and "\<And>sn. snd s = Some sn \<Longrightarrow> snap_ok check (log (fst (fst s)) b) sn \<and>
       cursor_of (sn_position sn) \<le> stored_cursor (data (fst (fst s)) (engine_state_key b))"
  shows "wp (playback_operation rt b (log w0 b ! n))
    (\<lambda>sn' s'. applying w0 b c0 n h0 (fst s') \<and> snap_ok check (log (fst (fst s')) b) sn' \<and> int n < cursor_of (sn_position sn') \<and>
       cursor_of (sn_position sn') \<le> stored_cursor (data (fst (fst s')) (engine_state_key b)))
    (\<lambda>_ s'. applying w0 b c0 n h0 (fst s') \<and> snd s' = None) s"
proof -
  obtain t init where s: "s = (t, init)" by fastforce
  let ?Q = "\<lambda>sn' s'. applying w0 b c0 n h0 s' \<and> snap_ok check (log (fst s') b) sn' \<and> int n < cursor_of (sn_position sn') \<and>
       cursor_of (sn_position sn') \<le> stored_cursor (data (fst s') (engine_state_key b))"
  have "wp (case init of Some sn \<Rightarrow> apply_entry_once rt b (log w0 b ! n) sn
      | None \<Rightarrow> bindE (map_errE load_error_into_apply (on_world (snapshot_load rt b))) (apply_entry_once rt b (log w0 b ! n)))
      ?Q (\<lambda>_ s'. applying w0 b c0 n h0 s') t"
  proof (cases init)
    case (Some sn)
    then show ?thesis using apply_entry_once_sound[of w0 b c0 n h0 t sn] assms s by simp
  next
    case None
    have g: "good (fst t)" using applying_facts(1)[OF assms(1)] s by simp
    have h: "snd t < int (length (log (fst t) b))" using assms(1) s by (simp add: applying_def)
    have ap: "applying w0 b c0 n h0 (w', snd t)" if "evolves (fst t) w'" for w'
      using applying_progress[of w0 b c0 n h0 t w' "snd t"] assms(1) s h evolves_progress[OF that]
        progress_length[OF evolves_progress[OF that] g, of b] by simp
    show ?thesis
      unfolding None option.case wp_bindE wp_map_errE wp_on_world
      by (rule wp_mono[OF snapshot_load_sound[OF g]]) (use ap apply_entry_once_sound in auto)
  qed
  then show ?thesis by (simp add: s wp_playback_operation)
qed

text \<open>What holds of a playback context between entries.\<close>
definition ctx_ok where
  "ctx_ok w b ctx \<longleftrightarrow> snap_ok check (log w b) (ec_snapshot ctx) \<and>
     cursor_of (sn_position (ec_snapshot ctx)) \<le> stored_cursor (data w (engine_state_key b)) \<and>
     ec_highest_append ctx < int (length (log w b))"

lemma ctx_ok_progress:
  assumes "ctx_ok w b ctx" "progress w w'" "good w"
  shows "ctx_ok w' b ctx"
proof -
  have "prefix (log w b) (log w' b)" using assms(2,3) by (simp add: progress_def)
  then show ?thesis
    using assms(1) progress_stored_cursor[OF assms(2,3), of b] progress_length[OF assms(2,3), of b] snap_ok_prefix
    unfolding ctx_ok_def by fastforce
qed

lemma engine_apply_sound:
  assumes "good w" "ctx_ok w b ctx" "n < length (log w b)"
    and "quiet (log w b) (cursor_of (sn_position (ec_snapshot ctx))) (int n)"
  shows "wp (engine_apply rt b (log w b ! n))
    (\<lambda>_ s. progress w (fst s) \<and> ctx_ok (fst s) b (snd s) \<and> int n < cursor_of (sn_position (ec_snapshot (snd s))))
    (\<lambda>_ s. progress w (fst s)) (w, ctx)"
proof -
  let ?c0 = "cursor_of (sn_position (ec_snapshot ctx))" and ?h0 = "ec_highest_append ctx"
  let ?ap = "applying w b ?c0 n ?h0"
  let ?I = "\<lambda>s. ?ap (fst s) \<and> (\<forall>sn. snd s = Some sn \<longrightarrow> snap_ok check (log (fst (fst s)) b) sn \<and>
       cursor_of (sn_position sn) \<le> stored_cursor (data (fst (fst s)) (engine_state_key b)))"
  let ?Q = "\<lambda>sn' s'. ?ap (fst s') \<and> snap_ok check (log (fst (fst s')) b) sn' \<and> int n < cursor_of (sn_position sn') \<and>
       cursor_of (sn_position sn') \<le> stored_cursor (data (fst (fst s')) (engine_state_key b))"
  have env: "?I ((w', h), init)" if "?I ((w1, h), init)" "evolves w1 w'" for w1 w' h init
  proof -
    have pr: "progress w1 w'" using evolves_progress[OF that(2)] .
    have g: "good w1" using applying_facts(1)[of w b ?c0 n ?h0 "(w1, h)"] that(1) by simp
    have pre: "prefix (log w1 b) (log w' b)" using pr g by (simp add: progress_def)
    have "?ap (w', h)"
      using applying_progress[of w b ?c0 n ?h0 "(w1, h)" w' h] that(1) pr progress_length[OF pr g, of b]
      by (simp add: applying_def)
    then show ?thesis
      using that(1) snap_ok_prefix[OF _ pre] progress_stored_cursor[OF pr g, of b] by fastforce
  qed
  have "wp (retry (lift_env (lift_env (rt_environment rt))) (rt_retry_config rt)
      (playback_operation rt b (log w b ! n)) playback_decide False) ?Q (\<lambda>f s'. ?I s' \<and> True)
      ((w, ?h0), Some (ec_snapshot ctx))"
  proof (rule wp_retry[where P = "\<lambda>_ _. True"])
    show "?I ((w, ?h0), Some (ec_snapshot ctx))"
      using assms by (simp add: applying_def progress_refl ctx_ok_def)
    show "wp (playback_operation rt b (log w b ! n)) ?Q (\<lambda>e s'. ?I s' \<and> True) s" if "?I s" for s
      by (rule wp_mono[OF playback_operation_sound[of w b ?c0 n ?h0 s]]) (use that in auto)
    show "?I (env_sleep (lift_env (lift_env (rt_environment rt))) d s)" if "?I s" for s d
    proof -
      obtain w1 h init where "s = ((w1, h), init)" by (metis surj_pair)
      then show ?thesis using env[of w1 h init "env_sleep (rt_environment rt) d w1"] that sleep_moves by simp
    qed
    show "?I (snd (env_backoff (lift_env (lift_env (rt_environment rt))) u s))" if "?I s" for s u
    proof -
      obtain w1 h init where "s = ((w1, h), init)" by (metis surj_pair)
      then show ?thesis using env[of w1 h init "snd (env_backoff (rt_environment rt) u w1)"] that backoff_moves by simp
    qed
  qed
  then have "wp (map_errE into_last_error (retry (lift_env (lift_env (rt_environment rt))) (rt_retry_config rt)
      (playback_operation rt b (log w b ! n)) playback_decide False)) ?Q (\<lambda>f s'. ?I s')
      ((w, ?h0), Some (ec_snapshot ctx))"
    unfolding wp_map_errE by (rule wp_mono) auto
  then show ?thesis
    unfolding engine_apply_def wp_def[of "\<lambda>(w, ctx). _ w ctx"]
    by (auto simp: wp_def applying_def ctx_ok_def split: prod.splits sum.splits)
qed

text \<open>The loop invariant of \<open>sync_and_apply\<close> at position \<open>pos\<close>, having started at \<open>c\<close>.\<close>
definition syncing where
  "syncing c proposed b pos s \<longleftrightarrow> good (fst s) \<and> ctx_ok (fst s) b (snd s) \<and> 0 \<le> c \<and> c \<le> pos \<and>
     pos \<le> int (length (log (fst s) b)) \<and>
     quiet (log (fst s) b) (cursor_of (sn_position (ec_snapshot (snd s)))) pos \<and>
     undecided (log (fst s) b) c pos proposed"

lemma syncing_progress:
  assumes "syncing c proposed b pos (w, ctx)" "progress w w'"
  shows "syncing c proposed b pos (w', ctx)"
proof -
  have g: "good w" and pre: "prefix (log w b) (log w' b)" using assms by (auto simp: syncing_def progress_def)
  then show ?thesis
    using assms ctx_ok_progress[OF _ assms(2) g, of b ctx] progress_length[OF assms(2) g, of b]
      quiet_prefix[OF _ pre] undecided_prefix[OF _ pre]
    by (auto simp: syncing_def progress_def)
qed

lemma syncing_advance:
  assumes "syncing c proposed b (int n) s" "n < length (log (fst s) b)"
    and "entry_outcome (log (fst s) b ! n) proposed = None"
    and "\<not> requires_application (log (fst s) b ! n) \<or> int n < cursor_of (sn_position (ec_snapshot (snd s)))"
  shows "syncing c proposed b (int (Suc n)) s"
proof -
  have n: "int i < int (Suc n) \<Longrightarrow> int i < int n \<or> i = n" for i by auto
  have "quiet (log (fst s) b) (cursor_of (sn_position (ec_snapshot (snd s)))) (int (Suc n))"
    using assms(1,4) n unfolding syncing_def quiet_def by (metis not_less)
  moreover have "undecided (log (fst s) b) c (int (Suc n)) proposed"
    using assms(1,3) n unfolding syncing_def undecided_def by metis
  ultimately show ?thesis using assms(1,2) by (auto simp: syncing_def)
qed

lemma process_entries_sound:
  assumes "syncing c proposed b (int n) (w, ctx)" "n \<le> m" "m \<le> length (log w b)" "known < int (length (log w b))"
  shows "wp (process_entries rt b proposed (segment (log w b) (int n) (int m)) known)
    (\<lambda>r s. progress w (fst s) \<and>
       (case r of Inl out \<Rightarrow> first_decision (log (fst s) b) c proposed out
        | Inr known' \<Rightarrow> syncing c proposed b (int m) s \<and> known \<le> known' \<and> known' < int (length (log (fst s) b))))
    (\<lambda>_ s. progress w (fst s)) (w, ctx)"
  using assms
proof (induction "m - n" arbitrary: n w ctx known)
  case 0
  then show ?case by (simp add: wp_ret progress_refl)
next
  case (Suc d)
  let ?e = "log w b ! n"
  have n: "n < m" "n < length (log w b)" using Suc.hyps(2) Suc.prems by auto
  have g: "good w" using Suc.prems(1) by (simp add: syncing_def)
  then have hd: "entry_header ?e \<noteq> None" using header_of_log(2) n by (simp add: good_def)
  have seg: "segment (log w b) (int n) (int m) = ?e # segment (log w b) (int (Suc n)) (int m)"
    using segment_Cons[of n m "log w b"] n Suc.prems(3) by simp
  show ?case
  proof (cases "entry_outcome ?e proposed")
    case (Some out)
    then have "first_decision (log w b) c proposed out"
      using Suc.prems(1) n unfolding first_decision_outcome syncing_def by auto
    then show ?thesis using hd Some by (auto simp: seg entry_outcome_def wp_ret progress_refl split: option.splits)
  next
    case None
    have rest: "wp (process_entries rt b proposed (segment (log w1 b) (int (Suc n)) (int m)) k)
        (\<lambda>r s. progress w1 (fst s) \<and>
           (case r of Inl out \<Rightarrow> first_decision (log (fst s) b) c proposed out
            | Inr known' \<Rightarrow> syncing c proposed b (int m) s \<and> k \<le> known' \<and> known' < int (length (log (fst s) b))))
        (\<lambda>_ s. progress w1 (fst s)) (w1, ctx1)"
      if "syncing c proposed b (int (Suc n)) (w1, ctx1)" "m \<le> length (log w1 b)" "k < int (length (log w1 b))" for w1 ctx1 k
      using Suc.hyps(1)[of "Suc n" w1 ctx1 k] Suc.hyps(2) n that by simp
    show ?thesis
    proof (cases "requires_application ?e")
      case False
      then have "syncing c proposed b (int (Suc n)) (w, ctx)"
        using syncing_advance[OF Suc.prems(1)] n None by simp
      from rest[OF this Suc.prems(3,4)] show ?thesis
        using hd None False by (auto simp: seg entry_outcome_def split: option.splits)
    next
      case True
      have q: "quiet (log w b) (cursor_of (sn_position (ec_snapshot ctx))) (int n)" and cx: "ctx_ok w b ctx"
        using Suc.prems(1) by (auto simp: syncing_def)
      have after: "wp (process_entries rt b proposed (segment (log w b) (int (Suc n)) (int m))
            (max known (ec_highest_append (snd s))))
          (\<lambda>r s. progress w (fst s) \<and>
             (case r of Inl out \<Rightarrow> first_decision (log (fst s) b) c proposed out
              | Inr known' \<Rightarrow> syncing c proposed b (int m) s \<and> known \<le> known' \<and> known' < int (length (log (fst s) b))))
          (\<lambda>_ s. progress w (fst s)) s"
        if s: "progress w (fst s) \<and> ctx_ok (fst s) b (snd s) \<and> int n < cursor_of (sn_position (ec_snapshot (snd s)))" for s
      proof -
        obtain w1 ctx1 where s1: "s = (w1, ctx1)" by fastforce
        have pr: "progress w w1" using s s1 by simp
        have pre: "prefix (log w b) (log w1 b)" using pr g by (simp add: progress_def)
        have len: "length (log w b) \<le> length (log w1 b)" using progress_length[OF pr g] .
        have same: "log w1 b ! n = log w b ! n" using pre n by (auto simp: prefix_def nth_append)
        have "syncing c proposed b (int n) (w1, ctx)" using syncing_progress[OF Suc.prems(1) pr] .
        then have "syncing c proposed b (int n) (w1, ctx1)"
          using s s1 quiet_mono[of "log w1 b" "cursor_of (sn_position (ec_snapshot ctx))" "int n"]
          by (auto simp: syncing_def quiet_def)
        then have sy: "syncing c proposed b (int (Suc n)) (w1, ctx1)"
          using syncing_advance[of c proposed b n "(w1, ctx1)"] s s1 len n None same by simp
        have sg: "segment (log w1 b) (int (Suc n)) (int m) = segment (log w b) (int (Suc n)) (int m)"
          using segment_prefix[OF pre] Suc.prems(3) by simp
        have "max known (ec_highest_append ctx1) < int (length (log w1 b))"
          using Suc.prems(4) len s s1 by (simp add: ctx_ok_def)
        from rest[OF sy _ this] len Suc.prems(3) sg
        show ?thesis
          unfolding s1 by (auto elim!: wp_mono intro: progress_trans[OF pr] split: sum.splits)
      qed
      have "wp (process_entries rt b proposed (segment (log w b) (int n) (int m)) known) Q E (w, ctx) =
          wp (engine_apply rt b ?e) (\<lambda>_ s. wp (process_entries rt b proposed (segment (log w b) (int (Suc n)) (int m))
            (max known (ec_highest_append (snd s)))) Q E s) (\<lambda>err. E (Playback err)) (w, ctx)" for Q E
        using hd None True
        by (auto simp: seg entry_outcome_def wp_bindE wp_map_errE wp_asks case_prod_beta split: option.splits)
      then show ?thesis
        using wp_mono[OF engine_apply_sound[OF g cx n(2) q]] after by simp
    qed
  qed
qed

text \<open>What one iteration establishes, and what the loop keeps.\<close>
abbreviation step_post where
  "step_post c proposed b w r s \<equiv> progress w (fst s) \<and>
     (case r of Inl out \<Rightarrow> first_decision (log (fst s) b) c proposed out
      | Inr (pos', known') \<Rightarrow> syncing c proposed b pos' s \<and> known' < int (length (log (fst s) b)))"

lemma sync_read_sound:
  assumes "syncing c proposed b pos (w, ctx)" "pos \<le> known" "known < int (length (log w b))"
  shows "wp (sync_read rt b proposed pos known) (step_post c proposed b w) (\<lambda>_ s. progress w (fst s)) (w, ctx)"
proof -
  have inv: "inv w" and pos: "0 \<le> pos" using assms(1) by (auto simp: syncing_def good_def)
  obtain r w1 where call: "read_range (rt_bus rt) b pos (known + 1) POLL_BATCH_SIZE None w = (r, w1)" by fastforce
  have "evolves w w1"
    using movesD[OF bus.read_range_loop_evolves, OF call[unfolded read_range_def]] .
  then have pr: "progress w w1" by (rule evolves_progress)
  have pre: "prefix (log w b) (log w1 b)" using pr assms(1) by (simp add: progress_def syncing_def)
  show ?thesis
  proof (cases r)
    case (Inl e)
    then show ?thesis using pr call
      by (simp add: sync_read_def wp_bindE wp_map_errE wp_on_world) (simp add: wp_def)
  next
    case (Inr ec)
    obtain es c' where ec: "ec = (es, c')" by fastforce
    note rr = bus.read_range_sound[OF inv pos _ _ _ _ call[unfolded Inr ec]]
    have c': "pos \<le> c'" "c' \<le> known + 1" and es: "es = filter (entry_matches None) (segment (log w b) pos c')"
      using rr assms by (auto simp: POLL_BATCH_SIZE_def)
    have len: "c' \<le> int (length (log w b))" using c' assms(3) by simp
    have "entry_matches None e" if mem: "e \<in> set (segment (log w b) pos c')" for e
    proof -
      obtain i where i: "i < length (segment (log w b) pos c')" "e = segment (log w b) pos c' ! i"
        using mem unfolding in_set_conv_nth by blast
      have "nat pos + i < length (log w b)" using i(1) len by (simp add: segment_def)
      then have "entry_payload (log w b ! (nat pos + i)) \<noteq> None" using header_of_log(3)[OF inv] by blast
      then show ?thesis using i segment_nth[OF pos len i(1)] by (auto simp: entry_matches_def)
    qed
    then have es': "es = segment (log w1 b) (int (nat pos)) (int (nat c'))"
      using es segment_prefix[OF pre len, of pos] pos c' by simp
    have sy: "syncing c proposed b (int (nat pos)) (w1, ctx)" using syncing_progress[OF assms(1) pr] pos by simp
    have l1: "nat c' \<le> length (log w1 b)" "known < int (length (log w1 b))"
      using len assms(3) prefix_length_le[OF pre] by auto
    have "wp (process_entries rt b proposed es known)
        (\<lambda>r s. step_post c proposed b w (case r of Inl out \<Rightarrow> Inl out | Inr known' \<Rightarrow> Inr (c', known')) s)
        (\<lambda>_ s. progress w (fst s)) (w1, ctx)"
      unfolding es'
      by (rule wp_mono[OF process_entries_sound[OF sy _ l1]])
        (use c' pos progress_trans[OF pr] in \<open>auto split: sum.splits\<close>)
    then show ?thesis
      using call Inr ec
      by (simp add: sync_read_def wp_bindE wp_map_errE wp_on_world wp_def[of "read_range _ _ _ _ _ _"])
        (auto simp: wp_ret elim!: wp_mono split: sum.splits)
  qed
qed

lemma sync_step_sound:
  assumes "syncing c proposed b pos (w, ctx)" "known < int (length (log w b))"
  shows "wp (sync_step rt b proposed pos known) (step_post c proposed b w) (\<lambda>_ s. progress w (fst s)) (w, ctx)"
proof (cases "known < pos")
  case False
  then show ?thesis using sync_read_sound[OF assms(1) _ assms(2)] by (simp add: sync_step_def)
next
  case True
  have inv: "inv w" and g: "good w" using assms(1) by (auto simp: syncing_def good_def)
  obtain r w1 where tail: "bus_check_tail (rt_bus rt) (Some b) w = (r, w1)" by fastforce
  have pr: "progress w w1" using evolves_progress[OF movesD[OF bus.tail_evolves tail]] .
  have sy: "syncing c proposed b pos (w1, ctx)" using syncing_progress[OF assms(1) pr] .
  have g1: "good w1" using sy by (simp add: syncing_def)
  show ?thesis
  proof (cases r)
    case (Inl e)
    then show ?thesis using tail pr True
      by (simp add: sync_step_def wp_bindE wp_map_errE wp_on_world) (simp add: wp_def)
  next
    case (Inr t)
    have t: "t \<le> int (length (log w1 b))" using bus.tail_law[OF inv] tail Inr by blast
    let ?m = "if t \<le> pos
      then bindE (map_errE engine_error_from_bus
             (on_world (bus_append (rt_bus rt) \<lparr>ar_bus_id = Some b, ar_payload = Some (forced_abort proposed)\<rparr>)))
           (\<lambda>position. ret (Inr (pos, max known position)))
      else sync_read rt b proposed pos (t - 1)"
    have "wp ?m (step_post c proposed b w1) (\<lambda>_ s. progress w1 (fst s)) (w1, ctx)"
    proof (cases "t \<le> pos")
      case False
      then show ?thesis using sync_read_sound[OF sy, of "t - 1"] t by simp
    next
      case True
      let ?req = "\<lparr>ar_bus_id = Some b, ar_payload = Some (forced_abort proposed)\<rparr>"
      obtain a w2 where app: "bus_append (rt_bus rt) ?req w1 = (a, w2)" by fastforce
      have pr2: "progress w1 w2" using evolves_progress[OF movesD[OF bus.append_evolves app]] .
      have "syncing c proposed b pos (w2, ctx)" using syncing_progress[OF sy pr2] .
      moreover have "known < int (length (log w2 b))"
        using assms(2) progress_length[OF pr g, of b] progress_length[OF pr2 g1, of b] by simp
      moreover have "\<And>p. a = Inr p \<Longrightarrow> p < int (length (log w2 b))"
        using bus.append_law[of w1 b "forced_abort proposed"] app g1 by (auto simp: good_def)
      ultimately show ?thesis
        using pr2 True app
        by (cases a) (simp_all add: wp_bindE wp_map_errE wp_on_world wp_ret, simp_all add: wp_def)
    qed
    then have "wp ?m (step_post c proposed b w) (\<lambda>_ s. progress w (fst s)) (w1, ctx)"
      by (rule wp_mono) (auto intro: progress_trans[OF pr])
    then show ?thesis
      using tail Inr True
      by (simp add: sync_step_def wp_bindE[of "map_errE _ _" "\<lambda>t. if _ t then _ t else _ t"] wp_map_errE wp_on_world
          wp_def[of "bus_check_tail _ _"])
  qed
qed

text \<open>Whenever the loop returns, checkpoints are sound, and an outcome is the first decision from \<open>c\<close> on.\<close>
lemma sync_loop_sound:
  assumes "sync_loop rt b proposed pos known s = Some (res, s')"
    and "syncing c proposed b pos s" "known < int (length (log (fst s) b))"
  shows "progress (fst s) (fst s') \<and> (\<forall>out. res = Inr out \<longrightarrow> first_decision (log (fst s') b) c proposed out)"
proof -
  define P where "P rt' b' p' pos known s y \<longleftrightarrow> rt' = rt \<longrightarrow> b' = b \<longrightarrow> p' = proposed \<longrightarrow>
      syncing c proposed b pos s \<longrightarrow> known < int (length (log (fst s) b)) \<longrightarrow>
      progress (fst s) (fst (snd y)) \<and> (\<forall>out. fst y = Inr out \<longrightarrow> first_decision (log (fst (snd y)) b) c proposed out)"
    for rt' b' p' pos known and s :: "'w \<times> engine_context" and y :: "(engine_error + proposal_outcome) \<times> 'w \<times> engine_context"
  have "P rt b proposed pos known s (res, s')"
  proof (rule sync_loop.raw_induct[OF _ assms(1)])
    fix loop rt' b' p' pos known and s :: "'w \<times> engine_context" and y
    assume IH: "\<And>rt b p pos known s y. loop rt b p pos known s = Some y \<Longrightarrow> P rt b p pos known s y"
      and body: "(case sync_step rt' b' p' pos known s of
          (Inl e, s') \<Rightarrow> Some (Inl e, s')
        | (Inr (Inl out), s') \<Rightarrow> Some (Inr out, s')
        | (Inr (Inr (pos', known')), s') \<Rightarrow> loop rt' b' p' pos' known' s') = Some y"
    show "P rt' b' p' pos known s y"
      unfolding P_def
    proof (intro impI)
      assume eqs: "rt' = rt" "b' = b" "p' = proposed"
        and sy: "syncing c proposed b pos s" and known: "known < int (length (log (fst s) b))"
      obtain w ctx where s: "s = (w, ctx)" by fastforce
      note step = sync_step_sound[OF sy[unfolded s], of known] known[unfolded s fst_conv]
      show "progress (fst s) (fst (snd y)) \<and> (\<forall>out. fst y = Inr out \<longrightarrow> first_decision (log (fst (snd y)) b) c proposed out)"
      proof -
        obtain r t where Pair: "sync_step rt b proposed pos known s = (r, t)" by (metis surj_pair)
        then have post: "case r of Inl e \<Rightarrow> progress w (fst t) | Inr a \<Rightarrow> step_post c proposed b w a t"
          using step s by (simp add: wp_def split: sum.splits)
        consider (err) e where "r = Inl e" | (out) out where "r = Inr (Inl out)"
          | (more) pos' known' where "r = Inr (Inr (pos', known'))"
          by (cases r) (auto, metis old.prod.exhaust old.sum.exhaust)
        then show ?thesis
        proof cases
          case more
          have "loop rt b proposed pos' known' t = Some y" using body Pair more eqs s by simp
          from IH[OF this] post more have
            "progress (fst t) (fst (snd y))" "\<forall>out. fst y = Inr out \<longrightarrow> first_decision (log (fst (snd y)) b) c proposed out"
            by (auto simp: P_def)
          then show ?thesis using post more s progress_trans by auto
        qed (use body Pair post eqs s in auto)
      qed
    qed
  qed
  then show ?thesis using assms(2,3) by (simp add: P_def)
qed

lemma moves_append_resolved_policy:
  assumes "be_runtime eng = rt" "\<And>bid. moves evolves (be_policy_provider eng bid)"
  shows "moves evolves (append_resolved_policy eng b st)"
  unfolding append_resolved_policy_def assms(1)
  by (intro moves_bindE moves_map_errE moves_liftR bus.evolves_reflp_transp assms(2))
    (auto split: option.split intro!: moves_bindE moves_map_errE moves_ret bus.evolves_reflp_transp bus.append_evolves)

text \<open>The appends of a proposal: the context it starts from is sound and its checkpoint precedes them.\<close>
lemma propose_append_sound:
  assumes "be_runtime eng = rt" "\<And>bid. moves evolves (be_policy_provider eng bid)" "good w"
  shows "wp (propose_append eng b p)
    (\<lambda>(position, ctx) w'. progress w w' \<and> ctx_ok w' b ctx \<and> 0 \<le> cursor_of (sn_position (ec_snapshot ctx)) \<and>
       cursor_of (sn_position (ec_snapshot ctx)) \<le> position \<and> position < int (length (log w' b)) \<and>
       ec_highest_append ctx = position \<and>
       (\<exists>i v. p = Some (Intention i) \<and> entry_payload (log w' b ! nat position) =
          Some (Some (Intention (i\<lparr>policy_version_constraint := Some (MinimumPolicyVersion v)\<rparr>)))))
    (\<lambda>_ w'. progress w w') w"
    (is "wp _ ?Q _ _")
proof (cases "\<exists>i. p = Some (Intention i) \<and> policy_version_constraint i = None")
  case False
  then show ?thesis
    by (auto simp: propose_append_def wp_raise progress_refl split: option.split payload_kind.split)
next
  case True
  then obtain i where i: "p = Some (Intention i)" "policy_version_constraint i = None" by blast
  have last: "wp (bindE (map_errE engine_error_from_bus (bus_append (rt_bus rt) \<lparr>ar_bus_id = Some b,
        ar_payload = Some (Some (Intention (i\<lparr>policy_version_constraint := Some (MinimumPolicyVersion v)\<rparr>)))\<rparr>)) (\<lambda>position.
      bindE (liftR (check_append_position sn (min (case q of Some q \<Rightarrow> q | None \<Rightarrow> position) position))) (\<lambda>_.
        ret (position, \<lparr>ec_snapshot = sn, ec_highest_append = position\<rparr>)))) ?Q (\<lambda>_ w'. progress w w') w2"
    if w2: "progress w w2" and sn: "snap_ok check (log w2 b) sn"
      "cursor_of (sn_position sn) \<le> stored_cursor (data w2 (engine_state_key b))" for w2 sn v q
  proof -
    let ?pl = "Some (Intention (i\<lparr>policy_version_constraint := Some (MinimumPolicyVersion v)\<rparr>))"
    obtain r w3 where call: "bus_append (rt_bus rt) \<lparr>ar_bus_id = Some b, ar_payload = Some ?pl\<rparr> w2 = (r, w3)" by fastforce
    have g2: "good w2" using w2 assms(3) by (simp add: progress_def)
    have p3: "progress w2 w3" using evolves_progress[OF movesD[OF bus.append_evolves call]] .
    have pw: "progress w w3" using progress_trans[OF w2 p3] .
    have pre: "prefix (log w2 b) (log w3 b)" using p3 g2 by (simp add: progress_def)
    have sn3: "snap_ok check (log w3 b) sn" "cursor_of (sn_position sn) \<le> stored_cursor (data w3 (engine_state_key b))"
      using snap_ok_prefix[OF sn(1) pre] sn(2) progress_stored_cursor[OF p3 g2, of b] by auto
    show ?thesis
    proof (cases r)
      case (Inl e)
      then show ?thesis using pw call by (simp add: wp_bindE wp_map_errE) (simp add: wp_def)
    next
      case (Inr pos)
      have law: "int (length (log w2 b)) \<le> pos" "pos < int (length (log w3 b))" "entry_payload (log w3 b ! nat pos) = Some ?pl"
        using bus.append_law[of w2 b ?pl pos w3] call Inr g2 by (auto simp: good_def)
      have "cursor_of (sn_position sn) \<le> pos" if "check_append_position sn m = Inr ()" "m \<le> pos" for m
        using that law(1) by (auto simp: check_append_position_def cursor_of_def split: option.splits if_splits)
      then show ?thesis
        using call Inr pw sn3 law i snap_ok_nonneg[OF sn(1)]
        by (cases "check_append_position sn (min (case q of Some q \<Rightarrow> q | None \<Rightarrow> pos) pos)")
          (auto simp: wp_bindE wp_map_errE wp_def[of "bus_append _ _"] wp_liftR wp_ret ctx_ok_def)
    qed
  qed
  have mid: "wp (bindE (append_resolved_policy eng b (sn_state sn)) (\<lambda>(v, q).
      bindE (map_errE engine_error_from_bus (bus_append (rt_bus rt) \<lparr>ar_bus_id = Some b,
        ar_payload = Some (Some (Intention (i\<lparr>policy_version_constraint := Some (MinimumPolicyVersion v)\<rparr>)))\<rparr>)) (\<lambda>position.
      bindE (liftR (check_append_position sn (min (case q of Some q \<Rightarrow> q | None \<Rightarrow> position) position))) (\<lambda>_.
        ret (position, \<lparr>ec_snapshot = sn, ec_highest_append = position\<rparr>))))) ?Q (\<lambda>_ w'. progress w w') w1"
    if w1: "evolves w w1 \<and> snap_ok check (log w1 b) sn \<and>
       cursor_of (sn_position sn) \<le> stored_cursor (data w1 (engine_state_key b))" for w1 sn
  proof -
    have p1: "progress w w1" and g1: "good w1" using w1 evolves_progress assms(3) by (auto simp: progress_def)
    have step: "progress w w2 \<and> snap_ok check (log w2 b) sn \<and>
        cursor_of (sn_position sn) \<le> stored_cursor (data w2 (engine_state_key b))" if "evolves w1 w2" for w2
    proof -
      have p2: "progress w1 w2" using evolves_progress[OF that] .
      have "prefix (log w1 b) (log w2 b)" using p2 g1 by (simp add: progress_def)
      then show ?thesis
        using w1 p1 p2 progress_trans snap_ok_prefix progress_stored_cursor[OF p2 g1, of b] by fastforce
    qed
    show ?thesis
      unfolding wp_bindE[of "append_resolved_policy _ _ _"]
      by (rule wp_moves[OF moves_append_resolved_policy[OF assms(1,2)]]) (use step last in \<open>auto split: prod.split\<close>)
  qed
  have eq: "propose_append eng b p = bindE (map_errE engine_error_from_load (snapshot_load rt b)) (\<lambda>sn.
      bindE (append_resolved_policy eng b (sn_state sn)) (\<lambda>(v, q).
      bindE (map_errE engine_error_from_bus (bus_append (rt_bus rt) \<lparr>ar_bus_id = Some b,
        ar_payload = Some (Some (Intention (i\<lparr>policy_version_constraint := Some (MinimumPolicyVersion v)\<rparr>)))\<rparr>)) (\<lambda>position.
      bindE (liftR (check_append_position sn (min (case q of Some q \<Rightarrow> q | None \<Rightarrow> position) position))) (\<lambda>_.
        ret (position, \<lparr>ec_snapshot = sn, ec_highest_append = position\<rparr>)))))"
    using i by (simp add: propose_append_def assms(1))
  show ?thesis
    unfolding eq wp_bindE[of "map_errE _ (snapshot_load _ _)"] wp_map_errE[of _ "snapshot_load _ _"]
    by (rule wp_mono[OF snapshot_load_sound[OF assms(3)]]) (use mid evolves_progress in auto)
qed

text \<open>
  The main result: whatever \<open>propose_intention\<close> returns, checkpoints stay sound and logs only grow, and a
  returned outcome is the first decision for the intention's own log position among all entries
  from a point at or before that position on.
\<close>
lemma propose_intention_sound:
  assumes "be_runtime eng = rt" "\<And>bid. moves evolves (be_policy_provider eng bid)" "good w"
    and "propose_intention eng b p w = Some (res, w')"
  shows "progress w w'"
    and "res = Inr out \<Longrightarrow> \<exists>c. 0 \<le> c \<and> c \<le> po_log_position out \<and> po_log_position out < int (length (log w' b)) \<and>
        first_decision (log w' b) c (po_log_position out) out \<and>
        (\<exists>i v. p = Some (Intention i) \<and> entry_payload (log w' b ! nat (po_log_position out)) =
          Some (Some (Intention (i\<lparr>policy_version_constraint := Some (MinimumPolicyVersion v)\<rparr>))))"
proof -
  note pa = propose_append_sound[OF assms(1-3), of b p]
  have "progress w w' \<and> (res = Inr out \<longrightarrow> (\<exists>c. 0 \<le> c \<and> c \<le> po_log_position out \<and>
        po_log_position out < int (length (log w' b)) \<and> first_decision (log w' b) c (po_log_position out) out \<and>
        (\<exists>i v. p = Some (Intention i) \<and> entry_payload (log w' b ! nat (po_log_position out)) =
          Some (Some (Intention (i\<lparr>policy_version_constraint := Some (MinimumPolicyVersion v)\<rparr>))))))" for out
  proof (cases "propose_append eng b p w")
    case (Pair r w1)
    show ?thesis
    proof (cases r)
      case (Inl e)
      then show ?thesis using pa Pair assms(4) by (auto simp: wp_def propose_intention_def)
    next
      case (Inr pc)
      obtain pos ctx where pc: "pc = (pos, ctx)" by fastforce
      let ?c = "cursor_of (sn_position (ec_snapshot ctx))"
      have A: "progress w w1" "ctx_ok w1 b ctx" "0 \<le> ?c" "?c \<le> pos" "pos < int (length (log w1 b))"
          "ec_highest_append ctx = pos"
        and pl: "\<exists>i v. p = Some (Intention i) \<and> entry_payload (log w1 b ! nat pos) =
          Some (Some (Intention (i\<lparr>policy_version_constraint := Some (MinimumPolicyVersion v)\<rparr>)))"
        using pa Pair Inr pc by (auto simp: wp_def)
      have g1: "good w1" using A(1) assms(3) by (simp add: progress_def)
      obtain s' where loop: "sync_loop rt b pos ?c pos (w1, ctx) = Some (res, s')" and w': "w' = fst s'"
        using assms(1,4) Pair Inr pc A(6) by (auto simp: propose_intention_def sync_and_apply_def)
      have "syncing ?c pos b ?c (w1, ctx)"
        using A g1 by (auto simp: syncing_def quiet_def undecided_def)
      from sync_loop_sound[OF loop this] A(5)
      have S: "progress w1 w'" "\<And>out. res = Inr out \<Longrightarrow> first_decision (log w' b) ?c pos out" by (auto simp: w')
      have pre: "prefix (log w1 b) (log w' b)" using S(1) g1 by (simp add: progress_def)
      have same: "log w' b ! nat pos = log w1 b ! nat pos" "pos < int (length (log w' b))"
        using pre A(3-5) prefix_length_le[OF pre] by (auto simp: prefix_def nth_append)
      have "po_log_position out = pos" if "first_decision (log w' b) ?c pos out"
        using that entry_outcome_position unfolding first_decision_outcome by blast
      then show ?thesis using S same A pl progress_trans[OF A(1) S(1)] by auto
    qed
  qed
  then show "progress w w'"
    and "res = Inr out \<Longrightarrow> \<exists>c. 0 \<le> c \<and> c \<le> po_log_position out \<and> po_log_position out < int (length (log w' b)) \<and>
        first_decision (log w' b) c (po_log_position out) out \<and>
        (\<exists>i v. p = Some (Intention i) \<and> entry_payload (log w' b ! nat (po_log_position out)) =
          Some (Some (Intention (i\<lparr>policy_version_constraint := Some (MinimumPolicyVersion v)\<rparr>))))"
    by auto
qed

text \<open>Creating a bus keeps checkpoints sound: the optimistic checkpoint at position 0 is the replay of the
  appended policy.\<close>
lemma create_bus_sound:
  assumes "be_runtime eng = rt" "\<And>bid. moves evolves (be_policy_provider eng bid)" "good w"
  shows "wp (create_bus eng b) (\<lambda>_. progress w) (\<lambda>_. progress w) w"
proof -
  have save: "wp (matchE (engine_state_save (rt_codec rt) st (rt_storage rt) b None 0) (\<lambda>_. ret ()) (\<lambda>_. ret ()))
      (\<lambda>_. progress w) (\<lambda>_. progress w) w2"
    if w2: "progress w w2" and e: "0 < length (log w2 b)" "entry_payload (log w2 b ! 0) = Some (policy_batch_payload batch)"
      and pl: "plan policy_state_default None desired = Inr (Some batch)"
      and ap: "apply_policy_batch (rt_voter_factory rt) engine_state_default batch 0 = Inr st" for w2 st batch desired
  proof -
    have g2: "good w2" using w2 assms(3) by (simp add: progress_def)
    obtain r w3 where call: "engine_state_save (rt_codec rt) st (rt_storage rt) b None 0 w2 = (r, w3)" by fastforce
    let ?sn = "\<lparr>sn_state = engine_state_default, sn_position = None\<rparr>"
    have "batch_due initial_view batch"
      using pl by (auto simp: plan_def batch_due_def initial_view_def Let_def split: option.splits sum.splits)
    then have "entry_view check initial_view (log w2 b ! 0) 0 = Some (view_of st)"
      using e(2) apply_policy_batch_view[of "rt_voter_factory rt" engine_state_default batch 0] ap
      by (simp add: entry_view_def inner_payload_def policy_batch_payload_def)
    moreover have "snap_ok check (log w2 b) ?sn" by (simp add: snap_ok_def cursor_of_def)
    moreover have "0 \<le> stored_cursor (data w2 (engine_state_key b))"
      using g2 checkpoint_ok_cursor unfolding good_def by blast
    ultimately have "progress w2 w3"
      using save_sound(1)[of w2 b ?sn 0 0 st r w3] g2 e(1) call by (simp add: cursor_of_def quiet_def)
    then show ?thesis using progress_trans[OF w2] call by (cases r) (auto simp: wp_matchE wp_ret wp_def)
  qed
  have app: "wp (map_errE engine_error_from_bus (bus_append (rt_bus rt) \<lparr>ar_bus_id = Some b, ar_payload = Some q\<rparr>))
      (\<lambda>pos w2. progress w w2 \<and> (pos = 0 \<longrightarrow> 0 < length (log w2 b) \<and> entry_payload (log w2 b ! 0) = Some q))
      (\<lambda>_. progress w) w1" if "progress w w1" for w1 q
  proof -
    have g1: "good w1" using that assms(3) by (simp add: progress_def)
    obtain r w2 where call: "bus_append (rt_bus rt) \<lparr>ar_bus_id = Some b, ar_payload = Some q\<rparr> w1 = (r, w2)" by fastforce
    have "progress w w2" using progress_trans[OF that evolves_progress[OF movesD[OF bus.append_evolves call]]] .
    then show ?thesis
      using bus.append_law[of w1 b q _ w2] call g1 by (cases r) (auto simp: wp_map_errE wp_def good_def)
  qed
  show ?thesis
    unfolding create_bus_def assms(1) wp_bindE[of "map_errE _ (be_policy_provider _ _)"] wp_map_errE[of _ "be_policy_provider _ _"]
  proof (rule wp_moves[OF assms(2)])
    fix desired w1
    assume "evolves w w1"
    then have w1: "progress w w1" by (rule evolves_progress)
    show "wp (bindE (liftR (case plan policy_state_default None desired of Inl _ \<Rightarrow> Inl EngineInternal
          | Inr None \<Rightarrow> Inl EngineInternal | Inr (Some b) \<Rightarrow> Inr b)) (\<lambda>batch.
        bindE (map_errE engine_error_from_bus
          (bus_append (rt_bus rt) \<lparr>ar_bus_id = Some b, ar_payload = Some (policy_batch_payload batch)\<rparr>)) (\<lambda>position.
          if position = 0
          then bindE (liftR (case apply_policy_batch (rt_voter_factory rt) engine_state_default batch position of
                 Inl e \<Rightarrow> Inl (Playback e) | Inr s \<Rightarrow> Inr s)) (\<lambda>state.
               matchE (engine_state_save (rt_codec rt) state (rt_storage rt) b None 0) (\<lambda>_. ret ()) (\<lambda>_. ret ()))
          else ret ()))) (\<lambda>_. progress w) (\<lambda>_. progress w) w1"
    proof (cases "\<exists>batch. plan policy_state_default None desired = Inr (Some batch)")
      case False
      then show ?thesis using w1 by (auto simp: wp_bindE wp_liftR split: sum.split option.split)
    next
      case True
      then obtain batch where batch: "plan policy_state_default None desired = Inr (Some batch)" by blast
      show ?thesis
        unfolding wp_bindE[of "liftR _"] wp_liftR wp_bindE[of "map_errE _ _"] batch sum.case option.case
        by (rule wp_mono[OF app[OF w1]])
          (auto simp: wp_ret wp_bindE wp_liftR intro: save[OF _ _ _ batch] split: sum.split)
    qed
  qed (use evolves_progress in auto)
qed

end

end
