(* ===== verification/Engine_Node.thy ===== *)
theory Engine_Node
  imports Engine_Drive
begin

text \<open>
  An engine over the in-memory bus and store: \<open>BaseEngine\<close> with \<open>InMemoryAgentBus\<close>,
  \<open>InMemoryStorage\<close> and \<open>DeciderFactoryImpl\<close>.  Bus and store operations are atomic here; other
  tasks run where the code really suspends, inside sleeps, voter evaluations and policy
  reads, and are only assumed to do what the engine's own operations are proved to do.
  The theory interprets the contracts of \<open>Engine_Drive\<close> on this node.
\<close>

section \<open>The node\<close>

record ('b, 'w) engine_node =
  nd_ttl :: "nat option"
  nd_environment :: "'w environment"
  nd_voter_factory :: "'w voter_factory"
  nd_engine_codec :: "'b engine_codec"
  nd_decider_codec :: "'b decider_codec"
  nd_retry_config :: retry_config
  nd_policy_provider :: "string \<Rightarrow> ('w, provider_error, versioned_policy_state) eff"

definition node_runtime :: "('b, ('b, 'z) eng_world_scheme) engine_node \<Rightarrow> ('b, ('b, 'z) eng_world_scheme) engine_runtime" where
  "node_runtime nd = \<lparr>rt_bus = memory_bus \<lparr>mb_environment = nd_environment nd, mb_ttl = nd_ttl nd\<rparr>,
     rt_voter_factory = nd_voter_factory nd, rt_storage = in_memory_storage, rt_codec = nd_engine_codec nd,
     rt_decider_factory = create_decider (nd_decider_codec nd) in_memory_storage,
     rt_environment = nd_environment nd, rt_retry_config = nd_retry_config nd\<rparr>"

definition node_engine :: "('b, ('b, 'z) eng_world_scheme) engine_node \<Rightarrow> ('b, ('b, 'z) eng_world_scheme, provider_error) base_engine" where
  "node_engine nd = \<lparr>be_runtime = node_runtime nd, be_policy_provider = nd_policy_provider nd\<rparr>"

section \<open>What a task may do to the world\<close>

text \<open>Every bus's checkpoint is the replay of its log.\<close>
definition checkpoints_ok :: "('b, ('b, 'z) eng_world_scheme) engine_node \<Rightarrow> ('b, 'z) eng_world_scheme \<Rightarrow> bool" where
  "checkpoints_ok nd w \<longleftrightarrow> (\<forall>b. checkpoint_ok (nd_engine_codec nd) (vf_validate_config (nd_voter_factory nd))
     (mem_log w b) (ew_data w (engine_state_key b)))"

definition node_good :: "('b, ('b, 'z) eng_world_scheme) engine_node \<Rightarrow> ('b, 'z) eng_world_scheme \<Rightarrow> bool" where
  "node_good nd w \<longleftrightarrow> mem_inv w \<and> checkpoints_ok nd w"

definition node_rely :: "('b, ('b, 'z) eng_world_scheme) engine_node \<Rightarrow> ('b, 'z) eng_world_scheme
    \<Rightarrow> ('b, 'z) eng_world_scheme \<Rightarrow> bool" where
  "node_rely nd w w' \<longleftrightarrow> mem_evolves w w' \<and> store_grows (ew_data w) (ew_data w') \<and>
     (\<forall>b. checkpoint_ok (nd_engine_codec nd) (vf_validate_config (nd_voter_factory nd)) (mem_log w b) (ew_data w (engine_state_key b)) \<longrightarrow>
          checkpoint_ok (nd_engine_codec nd) (vf_validate_config (nd_voter_factory nd)) (mem_log w' b) (ew_data w' (engine_state_key b)))"

text \<open>
  What is assumed of the node's parameters: engine states survive the protobuf codec up to the
  order of their maps; reading the wall clock touches neither bus nor store; voters, sleeps, the
  jitter source and the policy provider leave the world to tasks that behave.
\<close>
definition codec_keeps_view :: "'b engine_codec \<Rightarrow> bool" where
  "codec_keeps_view codec \<longleftrightarrow>
     (\<forall>st. \<exists>st'. decode_engine codec (encode_engine codec st) = Some st' \<and> view_of st' = view_of st)"

definition clock_keeps_world :: "('b, 'z) eng_world_scheme environment \<Rightarrow> bool" where
  "clock_keeps_world env \<longleftrightarrow>
     (\<forall>w. mw_buses (snd (env_unsafe_wall_time env w)) = mw_buses w \<and> ew_data (snd (env_unsafe_wall_time env w)) = ew_data w)"

definition node_ok :: "('b, ('b, 'z) eng_world_scheme) engine_node \<Rightarrow> bool" where
  "node_ok nd \<longleftrightarrow> codec_keeps_view (nd_engine_codec nd) \<and> clock_keeps_world (nd_environment nd) \<and>
     (\<forall>vid c a b e. vf_create_voter (nd_voter_factory nd) vid c = Some a \<longrightarrow> moves (node_rely nd) (a b e)) \<and>
     (\<forall>w d. node_rely nd w (env_sleep (nd_environment nd) d w)) \<and>
     (\<forall>w u. node_rely nd w (snd (env_backoff (nd_environment nd) u w))) \<and>
     (\<forall>b. moves (node_rely nd) (nd_policy_provider nd b))"

section \<open>The in-memory operations stay within it\<close>

lemma mem_evolves_refl: "mem_evolves w w"
  by (rule mem_evolves_same) simp

lemma mem_evolves_trans: "mem_evolves w w1 \<Longrightarrow> mem_evolves w1 w2 \<Longrightarrow> mem_evolves w w2"
  unfolding mem_evolves_def by (meson prefix_order.trans)

lemma mem_evolves_log: "mem_evolves w w' \<Longrightarrow> prefix (mem_log w b) (mem_log w' b)"
  by (auto simp: mem_evolves_def mem_log_def map_mono_prefix)

lemma node_rely_refl: "node_rely nd w w"
  by (simp add: node_rely_def mem_evolves_refl store_grows_refl)

lemma node_rely_trans: "node_rely nd w w1 \<Longrightarrow> node_rely nd w1 w2 \<Longrightarrow> node_rely nd w w2"
  unfolding node_rely_def using mem_evolves_trans store_grows_trans by blast

lemma node_rely_bus:
  assumes "mem_evolves w w'" "ew_data w' = ew_data w"
  shows "node_rely nd w w'"
  using assms checkpoint_ok_prefix[OF _ mem_evolves_log[OF assms(1)]]
  by (auto simp: node_rely_def store_grows_refl)

lemma clock_keeps_world_buses: "clock_keeps_world env \<Longrightarrow> clock_keeps_buses env"
  by (simp add: clock_keeps_world_def clock_keeps_buses_def)

lemma mem_check_data:
  assumes "clock_keeps_world (mb_environment mb)"
  shows "ew_data (snd (mem_check mb w)) = ew_data w"
  using assms by (auto simp: mem_check_def clock_keeps_world_def split: option.split prod.split) (metis snd_conv)

lemma mem_append_data:
  assumes "clock_keeps_world (mb_environment mb)"
  shows "ew_data (snd (mem_append mb req w)) = ew_data w"
proof (cases "validate_bus_id (ar_bus_id req)")
  case (Inr b)
  obtain wall w1 where wall: "env_unsafe_wall_time (mb_environment mb) w = (wall, w1)" by fastforce
  obtain chk w2 where chk: "mem_check mb w1 = (chk, w2)" by fastforce
  have "ew_data w2 = ew_data w"
    using mem_check_data[OF assms, of w1] chk wall assms unfolding clock_keeps_world_def by (metis snd_conv)
  then show ?thesis using Inr wall chk by (simp add: mem_append_def split: prod.split)
qed (simp add: mem_append_def)

lemma mem_read_next_data:
  assumes "clock_keeps_world (mb_environment mb)"
  shows "ew_data (snd (mem_read_next mb req w)) = ew_data w"
  using mem_check_data[OF assms, of w]
  by (auto simp: mem_read_next_def split: sum.split prod.split)

lemma mem_check_tail_same: "snd (mem_check_tail mb bid w) = w"
  by (simp add: mem_check_tail_def split: sum.split)

lemma moves_memory_bus:
  assumes "clock_keeps_world (mb_environment mb)"
  shows "moves (node_rely nd) (mem_append mb req)" "moves (node_rely nd) (mem_read_next mb req2)"
    "moves (node_rely nd) (mem_check_tail mb bid)"
proof -
  note k = clock_keeps_world_buses[OF assms]
  show "moves (node_rely nd) (mem_append mb req)"
    using mem_append_evolves[OF k] mem_append_data[OF assms] by (simp add: moves_def node_rely_bus)
  show "moves (node_rely nd) (mem_read_next mb req2)"
    using mem_read_next_evolves[OF k] mem_read_next_data[OF assms] by (simp add: moves_def node_rely_bus)
  show "moves (node_rely nd) (mem_check_tail mb bid)"
    by (simp add: moves_def mem_check_tail_same node_rely_refl)
qed

lemma mem_log_data_update [simp]: "mem_log (w\<lparr>ew_data := d\<rparr>) = mem_log w" "mem_inv (w\<lparr>ew_data := d\<rparr>) = mem_inv w"
  by (simp_all add: mem_log_def mem_inv_def fun_eq_iff)

lemma node_rely_write:
  assumes "cas_allowed (ew_data w k) expected n" "\<And>b. k \<noteq> engine_state_key b"
  shows "node_rely nd w (w\<lparr>ew_data := (ew_data w)(k \<mapsto> (v, n))\<rparr>)"
proof -
  have "engine_state_key b \<noteq> k" for b using assms(2) by metis
  then show ?thesis
    using store_grows_write[of "ew_data w" k expected n v] assms(1)
    by (simp add: node_rely_def mem_evolves_def)
qed

lemma moves_in_memory_put:
  assumes "\<And>b. k \<noteq> engine_state_key b"
  shows "moves (node_rely nd) (in_memory_put k v expected n)"
  unfolding moves_def
proof
  fix w
  show "node_rely nd w (snd (in_memory_put k v expected n w))"
    by (cases rule: in_memory_put_cases[of k v expected n w])
      (use assms in \<open>auto simp: node_rely_refl intro: node_rely_write\<close>)
qed

lemma moves_in_memory_get: "moves (node_rely nd) (in_memory_get k)"
  by (simp add: moves_def in_memory_get_def node_rely_refl)

lemma moves_apply_write: "moves R m \<Longrightarrow> moves R (apply_write ow b p m)"
  by (auto simp: moves_def apply_write_def split: prod.split) (metis snd_conv)

lemma node_rely_reflp_transp: "reflp (node_rely nd)" "transp (node_rely nd)"
  by (rule reflpI, rule node_rely_refl) (rule transpI, erule (1) node_rely_trans)

lemma moves_load_policy_state: "moves (node_rely nd) (load_policy_state dc in_memory_storage b sid)"
  unfolding load_policy_state_def in_memory_storage_def
  by (intro moves_bindE moves_map_errE node_rely_reflp_transp)
    (auto simp: moves_in_memory_get split: option.split intro!: moves_ret moves_raise node_rely_reflp_transp)

lemma moves_fbw_advance: "moves (node_rely nd) (fbw_advance dc in_memory_storage sid b n x st pos)"
  unfolding fbw_advance_def save_policy_state_def in_memory_storage_def
  by (auto split: option.split prod.split
      intro!: moves_bindE moves_apply_write moves_ret moves_raise moves_in_memory_put node_rely_reflp_transp)

lemma moves_create_decider: "moves (node_rely nd) (create_decider dc in_memory_storage sid pol b e)"
proof (cases pol)
  case FirstBooleanWins
  have "moves (node_rely nd) (first_boolean_wins_apply dc in_memory_storage sid b e)"
    unfolding first_boolean_wins_apply_def
    by (auto split: option.split prod.split intro!: moves_bindE moves_load_policy_state moves_fbw_advance
        moves_ret moves_raise node_rely_reflp_transp)
  then show ?thesis by (simp add: FirstBooleanWins)
qed (auto simp: on_by_default_apply_def off_by_default_apply_def node_rely_reflp_transp
      split: option.split payload_kind.split intro!: moves_ret moves_raise)

section \<open>The contracts hold\<close>

lemma node_log_bus:
  assumes "clock_keeps_world (mb_environment mb)"
  shows "log_bus (memory_bus mb) mem_log mem_inv (node_rely nd)"
proof (standard, goal_cases)
  case (2 w w1 w2)
  then show ?case by (rule node_rely_trans)
next
  case (4 w w1 b)
  then show ?case by (auto simp: node_rely_def intro: mem_evolves_log)
next
  case (7 w b p pos w')
  then show ?case
    by (cases rule: mem_append_result[OF clock_keeps_world_buses[OF assms], of "\<lparr>ar_bus_id = Some b, ar_payload = Some p\<rparr>" w])
      (auto simp: memory_bus_def mem_log_def nth_append)
next
  case (9 w b t w')
  then show ?case
    by (auto simp: memory_bus_def mem_check_tail_def get_tail_stored mem_log_def split: if_splits)
next
  case (11 w req b resp w')
  show ?case
    by (rule mem_read_next_law[OF clock_keeps_world_buses[OF assms] 11(1-5)]) (use 11(6) in \<open>simp add: memory_bus_def\<close>)
qed (use moves_memory_bus[OF assms] in
      \<open>auto simp: memory_bus_def node_rely_refl node_rely_def mem_evolves_def mem_inv_def\<close>)

lemma node_cas_store: "cas_store in_memory_storage ew_data (node_rely nd) data_writes"
proof (standard, goal_cases)
  case (2 w w1 w2)
  then show ?case by (rule node_rely_trans)
next
  case (5 k w g w')
  then show ?case
    by (intro exI[of _ w]) (auto simp: in_memory_storage_def in_memory_get_def node_rely_refl)
next
  case (6 k v expected n w r w')
  show ?case
  proof (cases rule: in_memory_put_cases[of k v expected n w])
    case rejected
    then show ?thesis using 6 by (auto simp: in_memory_storage_def node_rely_refl)
  next
    case written
    then show ?thesis using 6
      by (intro disjI2 exI[of _ w] exI[of _ w'])
        (auto simp: in_memory_storage_def data_writes_def node_rely_refl)
  qed
qed (auto simp: node_rely_refl node_rely_def data_writes_def)

lemma node_engine_env:
  assumes "node_ok nd"
  shows "engine_env (node_runtime nd) mem_log mem_inv (node_rely nd) ew_data data_writes"
proof -
  have clk: "clock_keeps_world (mb_environment \<lparr>mb_environment = nd_environment nd, mb_ttl = nd_ttl nd\<rparr>)"
    using assms by (simp add: node_ok_def)
  show ?thesis
    unfolding engine_env_def
  proof (intro conjI)
    show "log_bus (rt_bus (node_runtime nd)) mem_log mem_inv (node_rely nd)"
      using node_log_bus[OF clk] by (simp add: node_runtime_def)
    show "cas_store (rt_storage (node_runtime nd)) ew_data (node_rely nd) data_writes"
      using node_cas_store by (simp add: node_runtime_def)
    show "engine_env_axioms (node_runtime nd) mem_log mem_inv (node_rely nd) ew_data data_writes"
      using assms
      by unfold_locales
        (auto simp: node_runtime_def node_ok_def codec_keeps_view_def node_rely_def data_writes_def
          moves_create_decider)
  qed
qed

locale ok_node =
  fixes nd :: "('b, ('b, 'z) eng_world_scheme) engine_node"
  assumes ok: "node_ok nd"

sublocale ok_node \<subseteq> node: engine_env "node_runtime nd" mem_log mem_inv "node_rely nd" ew_data data_writes
  using ok by (rule node_engine_env)

context ok_node
begin

lemma node_good_iff: "node.good w \<longleftrightarrow> node_good nd w"
  unfolding node.good_def by (simp add: node_good_def checkpoints_ok_def node_runtime_def)

lemma provider_moves: "moves (node_rely nd) (be_policy_provider (node_engine nd) b)"
  using ok by (simp add: node_ok_def node_engine_def)

lemma propose_keeps:
  assumes "node_good nd w" "propose_intention (node_engine nd) b p w = Some (res, w')"
  shows "node_good nd w'" "prefix (mem_log w b') (mem_log w' b')" "store_grows (ew_data w) (ew_data w')"
  using node.propose_intention_sound(1)[OF _ provider_moves _ assms(2)] assms(1)
  by (auto simp: node.progress_def node_good_iff node_engine_def)

lemma propose_outcome:
  assumes "node_good nd w" "propose_intention (node_engine nd) b p w = Some (Inr out, w')"
  shows "\<exists>c. 0 \<le> c \<and> c \<le> po_log_position out \<and> po_log_position out < int (length (mem_log w' b)) \<and>
    first_decision (mem_log w' b) c (po_log_position out) out \<and>
    (\<exists>i v. p = Some (Intention i) \<and> entry_payload (mem_log w' b ! nat (po_log_position out)) =
      Some (Some (Intention (i\<lparr>policy_version_constraint := Some (MinimumPolicyVersion v)\<rparr>))))"
  using node.propose_intention_sound(2)[OF _ provider_moves _ assms(2)] assms(1)
  by (simp add: node_good_iff node_engine_def)

lemma create_bus_keeps:
  assumes "node_good nd w" "create_bus (node_engine nd) b w = (res, w')"
  shows "node_good nd w'" "prefix (mem_log w b') (mem_log w' b')" "store_grows (ew_data w) (ew_data w')"
  using node.create_bus_sound[OF _ provider_moves, of w b] assms
  by (cases res; auto simp: node.progress_def node_good_iff node_engine_def wp_def)+

end

section \<open>A concrete node\<close>

text \<open>A codec that keeps the values themselves, the simulator's environment, stateless voters whose
  evaluation does not touch the node, and a fixed desired policy.\<close>

datatype wire = WireEngine per_bus_engine_state | WireDecider decider_state | WirePolicy policy_state

definition wire_engine_codec :: "wire engine_codec" where
  "wire_engine_codec = \<lparr>encode_engine = WireEngine,
     decode_engine = (\<lambda>b. case b of WireEngine s \<Rightarrow> Some s | _ \<Rightarrow> None)\<rparr>"

text \<open>The pending position as decimal text, empty for none.\<close>
definition wire_decider_codec :: "wire decider_codec" where
  "wire_decider_codec = \<lparr>encode_decider = WireDecider,
     decode_decider = (\<lambda>b. case b of WireDecider s \<Rightarrow> Some s | _ \<Rightarrow> None),
     encode_fbw = (\<lambda>p. case p of None \<Rightarrow> [] | Some i \<Rightarrow> show_int i),
     decode_fbw = (\<lambda>s. case s of [] \<Rightarrow> Some None
        | c # cs \<Rightarrow> if c = CHR ''-'' then Some (Some (- int (read_nat cs))) else Some (Some (int (read_nat s))))\<rparr>"

type_synonym sim_world = "wire eng_world"

definition half_backoff :: "nat \<Rightarrow> sim_world \<Rightarrow> nat \<times> sim_world" where
  "half_backoff upper w = (upper div 2, w)"

definition pure_voter_factory :: "(string \<Rightarrow> string \<Rightarrow> bool \<times> string) \<Rightarrow> sim_world voter_factory" where
  "pure_voter_factory evaluate = \<lparr>vf_validate_config = (\<lambda>c. c),
     vf_create_voter = (\<lambda>vid c. Some (stateless_voter_apply
        \<lparr>iv_voter_id = vid, iv_config = c, iv_evaluate = (\<lambda>b t w. (evaluate b t, w))\<rparr>))\<rparr>"

definition sim_node :: "(string \<Rightarrow> string \<Rightarrow> bool \<times> string) \<Rightarrow> versioned_policy_state \<Rightarrow> (wire, sim_world) engine_node" where
  "sim_node evaluate desired = \<lparr>nd_ttl = None, nd_environment = sim_environment half_backoff,
     nd_voter_factory = pure_voter_factory evaluate,
     nd_engine_codec = wire_engine_codec, nd_decider_codec = wire_decider_codec,
     nd_retry_config = \<lparr>rc_max_retries = 7, rc_initial_backoff = from_millis 10, rc_max_backoff = from_millis 100\<rparr>,
     nd_policy_provider = (\<lambda>_. ret desired)\<rparr>"

definition sim_world_empty :: sim_world where
  "sim_world_empty = \<lparr>mw_buses = Map.empty, mw_elapsed = 0, mw_noise = [], ew_data = Map.empty\<rparr>"

lemma moves_stateless_voter:
  assumes "reflp R" "\<And>b t w. snd (iv_evaluate v b t w) = w"
  shows "moves R (stateless_voter_apply v b e)"
proof -
  have "snd (stateless_voter_apply v b e w) = w" for w
    using assms(2)
    by (auto simp: stateless_voter_apply_def raise_def ret_def immutable_voter_vote_def
        split: option.split payload_kind.split intention_kind.split prod.split) (metis snd_conv)
  then show ?thesis using assms(1) by (simp add: moves_def reflp_def)
qed

lemma sim_node_ok: "node_ok (sim_node evaluate desired)"
proof -
  have "node_rely nd w (env_sleep (sim_environment half_backoff) d w)" for nd :: "(wire, sim_world) engine_node" and w d
    by (rule node_rely_bus) (simp_all add: mem_evolves_same sim_environment_def sim_sleep_def advance_to_def)
  moreover have "moves (node_rely nd) (a b e)"
    if "vf_create_voter (pure_voter_factory evaluate) vid c = Some a" for nd :: "(wire, sim_world) engine_node" and vid c a b e
    using that by (auto simp: pure_voter_factory_def intro!: moves_stateless_voter node_rely_reflp_transp)
  ultimately show ?thesis
    by (auto simp: node_ok_def sim_node_def codec_keeps_view_def wire_engine_codec_def clock_keeps_world_def
        sim_environment_def clock_unsafe_wall_time_def Let_def half_backoff_def node_rely_refl
        intro!: moves_ret node_rely_reflp_transp)
qed

interpretation sim: ok_node "sim_node evaluate desired" for evaluate and desired
  by standard (rule sim_node_ok)

lemma sim_world_empty_good: "node_good nd sim_world_empty"
  by (simp add: node_good_def mem_inv_def mem_log_def sim_world_empty_def stored_def well_numbered_def
      checkpoints_ok_def checkpoint_ok_def)

section \<open>Policy version constraints\<close>

text \<open>When an intention may be decided under the applied policy version.\<close>
definition version_admitted :: "policy_version_constraint option \<Rightarrow> int option \<Rightarrow> bool" where
  "version_admitted c applied =
     (case c of
        None \<Rightarrow> True
      | Some (RequiredPolicyVersion v) \<Rightarrow> applied = Some v
      | Some (MinimumPolicyVersion v) \<Rightarrow> (case applied of None \<Rightarrow> False | Some a \<Rightarrow> v \<le> a))"

lemma policy_constraint_failure_met:
  "policy_constraint_failure (Some (Intention i)) applied = None \<longleftrightarrow> version_admitted (policy_version_constraint i) applied"
  by (auto simp: policy_constraint_failure_def version_admitted_def split: option.split policy_version_constraint.split)

lemma control_transition_intention:
  "entry_payload e = Some (Some (Intention i)) \<Longrightarrow> control_transition vf s e pos = Inr s"
  by (simp add: control_transition_def base_engine_control_of_def inner_payload_def)

text \<open>Two worlds between which bus \<open>b\<close> got one entry with payload \<open>p\<close>, and nothing else changed but, at
  most, the checkpoint of \<open>b\<close>.\<close>
definition only_appends :: "string \<Rightarrow> payload \<Rightarrow> ('b, 'z) eng_world_scheme \<Rightarrow> ('b, 'z) eng_world_scheme \<Rightarrow> bool" where
  "only_appends b p w w' \<longleftrightarrow>
     (\<exists>t. mem_log w' b = mem_log w b @ [\<lparr>entry_header = Some \<lparr>log_position = int (length (mem_log w b)), rt_timestamp_ms = t\<rparr>,
        entry_payload = Some p\<rparr>]) \<and>
     (\<forall>b'. b' \<noteq> b \<longrightarrow> mem_log w' b' = mem_log w b') \<and>
     (\<forall>k. k \<noteq> engine_state_key b \<longrightarrow> ew_data w' k = ew_data w k)"

lemma append_produced_node:
  assumes "clock_keeps_world (nd_environment nd)"
  obtains (fail) e w1 where "append_produced (node_runtime nd) b p (w, h) = (Inl e, (w1, h))"
      "mem_log w1 = mem_log w" "ew_data w1 = ew_data w"
  | (appended) w1 h1 where "append_produced (node_runtime nd) b p (w, h) = (Inr (), (w1, h1))"
      "only_appends b p w w1"
proof -
  let ?mb = "\<lparr>mb_environment = nd_environment nd, mb_ttl = nd_ttl nd\<rparr>"
  let ?req = "\<lparr>ar_bus_id = Some b, ar_payload = Some p\<rparr>"
  have data: "ew_data (snd (mem_append ?mb ?req w)) = ew_data w"
    by (rule mem_append_data) (simp add: assms)
  have clk: "clock_keeps_buses (mb_environment ?mb)" using assms by (simp add: clock_keeps_world_buses)
  show ?thesis
  proof (cases rule: mem_append_result[OF clk, of ?req w])
    case (1 e w1)
    then have "mem_log w1 = mem_log w" by (intro ext) (simp add: mem_log_def)
    then show ?thesis using data 1
      by (intro fail[of "ApplyBus e" w1])
        (simp_all add: append_produced_def eff_defs on_world_def node_runtime_def memory_bus_def)
  next
    case (2 b1 p1 ts at w1)
    then show ?thesis using data
      by (intro appended[of w1 "max h (int (length (stored (mw_buses w) b)))"])
        (auto simp: append_produced_def eff_defs on_world_def node_runtime_def memory_bus_def mem_log_def only_appends_def
          stored_def)
  qed
qed

text \<open>
  C9. An intention whose policy version constraint is not met under the applied policy version gets exactly one
  entry from the engine, its abort, and neither the decider nor any voter touches the node: no other log and no
  stored state but the engine's own checkpoint changes.  If the in-memory bus refuses the abort, nothing changes.
  An intention whose constraint is met is not aborted for it: the decider and then every voter are run on it.
\<close>
theorem unmet_constraint_aborts:
  assumes "clock_keeps_world (nd_environment nd)"
    and "header_position e = Some pos" "cursor_of (sn_position sn) \<le> pos"
    and "entry_payload e = Some (Some (Intention i))"
    and "apply_entry_once (node_runtime nd) b e sn (w, h) = (res, (w', h'))"
  shows "(if version_admitted (policy_version_constraint i) (es_applied_policy_version (sn_state sn))
     then dispatch_entry (node_runtime nd) b e pos (sn_state sn) =
       bindE (liftR (build_decider (node_runtime nd) (sn_state sn))) (\<lambda>decider.
       bindE (dispatch_one (node_runtime nd) b e (Some (Intention i)) [] decider) (\<lambda>produced.
       bindE (liftR (build_voters (node_runtime nd) (sn_state sn))) (\<lambda>voters.
         foldE (dispatch_one (node_runtime nd) b e (Some (Intention i))) produced voters)))
     else (\<exists>reason. only_appends b (Some (Abort \<lparr>abort_intention_id = pos, abort_reason = reason\<rparr>)) w w') \<and>
         (\<forall>sn'. res = Inr sn' \<longrightarrow> sn' = sn\<lparr>sn_position := Some pos\<rparr>) \<or>
       (\<exists>err. res = Inl err) \<and> mem_log w' = mem_log w \<and> ew_data w' = ew_data w)"
proof (cases "policy_constraint_failure (Some (Intention i)) (es_applied_policy_version (sn_state sn))")
  case None
  then have "version_admitted (policy_version_constraint i) (es_applied_policy_version (sn_state sn))"
    by (simp add: policy_constraint_failure_met)
  then show ?thesis using assms(4) None by (simp add: dispatch_entry_def)
next
  case (Some reason)
  let ?rt = "node_runtime nd" and ?abort = "abort_payload pos reason"
  have unmet: "\<not> version_admitted (policy_version_constraint i) (es_applied_policy_version (sn_state sn))"
    using Some policy_constraint_failure_met by (metis option.distinct(1))
  have disp: "dispatch_entry ?rt b e pos (sn_state sn) = ret [?abort]"
    using Some assms(4) by (simp add: dispatch_entry_def)
  have run: "apply_entry_once ?rt b e sn = bindE (append_produced ?rt b ?abort) (\<lambda>_.
      bindE (on_world (apply_write OwnerEngine b pos
        (engine_state_save (rt_codec ?rt) (sn_state sn) (rt_storage ?rt) b (sn_position sn) pos)))
      (\<lambda>_. ret \<lparr>sn_state = sn_state sn, sn_position = Some pos\<rparr>))"
    using assms(2-4)
    by (simp add: apply_entry_once_def disp control_transition_intention eff_defs on_world_def fun_eq_iff split: sum.split prod.split)
  show ?thesis
  proof (cases rule: append_produced_node[OF assms(1), of b ?abort w h])
    case (1 err w1)
    then show ?thesis using assms(5) unmet by (auto simp: run eff_defs)
  next
    case (2 w1 h1)
    let ?put = "in_memory_put (engine_state_key b) (encode_engine (rt_codec ?rt) (sn_state sn)) (sn_position sn) pos w1"
    have store: "rt_storage ?rt = in_memory_storage" by (simp add: node_runtime_def)
    have w': "w' = snd ?put" and res: "\<forall>sn'. res = Inr sn' \<longrightarrow> sn' = sn\<lparr>sn_position := Some pos\<rparr>"
      using assms(5) 2(1)
      by (auto simp: run store eff_defs on_world_def apply_write_def engine_state_save_def in_memory_storage_def
          split: prod.splits sum.splits)
    have "only_appends b ?abort w w'"
      using 2(2) unfolding w'
      by (cases rule: in_memory_put_cases[of "engine_state_key b" "encode_engine (rt_codec ?rt) (sn_state sn)" "sn_position sn" pos w1])
        (auto simp: only_appends_def)
    then show ?thesis using unmet res by (auto simp: abort_payload_def)
  qed
qed

definition stale_intention :: bus_entry where
  "stale_intention = \<lparr>entry_header = Some \<lparr>log_position = 4, rt_timestamp_ms = 0\<rparr>,
     entry_payload = Some (Some (Intention \<lparr>intention_body = None, policy_version_constraint = Some (MinimumPolicyVersion 5)\<rparr>))\<rparr>"

definition stale_run :: "(apply_error + engine_snapshot) \<times> (sim_world \<times> int)" where
  "stale_run = apply_entry_once (node_runtime (sim_node (\<lambda>_ _. (True, [])) \<lparr>vps_state = \<lparr>pol_decider_policy = None, pol_voters = []\<rparr>, vps_version = 0\<rparr>))
     ''bus'' stale_intention \<lparr>sn_state = swap_state, sn_position = None\<rparr> (sim_world_empty, 0)"

theorem unmet_constraint_aborts_witness:
  "\<exists>reason. only_appends ''bus'' (Some (Abort \<lparr>abort_intention_id = 4, abort_reason = reason\<rparr>)) sim_world_empty (fst (snd stale_run)) \<and>
     fst stale_run = Inr \<lparr>sn_state = swap_state, sn_position = Some 4\<rparr>"
proof -
  let ?nd = "sim_node (\<lambda>_ _. (True, [])) \<lparr>vps_state = \<lparr>pol_decider_policy = None, pol_voters = []\<rparr>, vps_version = 0\<rparr>"
  obtain res w' h' where run: "stale_run = (res, (w', h'))" by (metis prod.collapse)
  have "\<not> isl (fst stale_run)" by code_simp
  then obtain sn' where res: "res = Inr sn'" using run by (metis fst_conv isl_def sum.exhaust)
  have "clock_keeps_world (nd_environment ?nd)" using sim_node_ok[unfolded node_ok_def] by blast
  moreover have "header_position stale_intention = Some 4" by (simp add: stale_intention_def header_position_def)
  ultimately show ?thesis
    using unmet_constraint_aborts[of ?nd stale_intention 4 "\<lparr>sn_state = swap_state, sn_position = None\<rparr>"
        "\<lparr>intention_body = None, policy_version_constraint = Some (MinimumPolicyVersion 5)\<rparr>" "''bus''" sim_world_empty 0 res w' h']
      run res
    by (auto simp: stale_run_def stale_intention_def cursor_of_def version_admitted_def swap_state_def engine_state_default_def)
qed

end
