(* ===== verification/Engine_Live.thy ===== *)
theory Engine_Live
  imports Engine_Node
begin

text \<open>
  A proposal on an in-memory node returns.  Driving an intention may append votes and a
  decision, driving a vote only a decision, and nothing else appends, so the entries still to
  be read shrink in a lexicographic order; once the log is drained the forced abort is
  appended and found.
\<close>

section \<open>What applying an entry may append\<close>

definition is_intention :: "bus_entry \<Rightarrow> bool" where
  "is_intention e = (\<exists>i. inner_payload e = Some (Intention i))"

definition is_vote :: "bus_entry \<Rightarrow> bool" where
  "is_vote e = (\<exists>v. inner_payload e = Some (Vote v))"

text \<open>An intention begets votes and decisions, a vote decisions, other entries nothing.\<close>
definition begets :: "bus_entry \<Rightarrow> payload \<Rightarrow> bool" where
  "begets e p = (if is_intention e then (\<forall>i. p \<noteq> Some (Intention i))
     else if is_vote e then decided_id p \<noteq> None else False)"

text \<open>Stored decider results are decisions.\<close>
definition decider_store_ok :: "('b, ('b, 'z) eng_world_scheme) engine_node \<Rightarrow> ('b, 'z) eng_world_scheme \<Rightarrow> bool" where
  "decider_store_ok nd w \<longleftrightarrow>
     (\<forall>b sid v n st q. ew_data w (state_key b sid) = Some (v, n) \<longrightarrow>
        decode_decider (nd_decider_codec nd) v = Some st \<longrightarrow> ds_last_payload st = Some q \<longrightarrow> decided_id q \<noteq> None)"

definition extends_by :: "('b, ('b, 'z) eng_world_scheme) engine_node \<Rightarrow> string \<Rightarrow> (payload \<Rightarrow> bool)
    \<Rightarrow> ('b, 'z) eng_world_scheme \<Rightarrow> ('b, 'z) eng_world_scheme \<Rightarrow> bool" where
  "extends_by nd b A w w' \<longleftrightarrow>
     (decider_store_ok nd w \<longrightarrow> decider_store_ok nd w' \<and>
        (\<exists>es. mem_log w' b = mem_log w b @ es \<and> (\<forall>e \<in> set es. \<exists>p. entry_payload e = Some p \<and> A p)))"

text \<open>Voters that only vote and, like sleeps, jitter and policy reads, leave bus and store alone.\<close>
definition untouched :: "('b, 'z) eng_world_scheme \<Rightarrow> ('b, 'z) eng_world_scheme \<Rightarrow> bool" where
  "untouched w w' \<longleftrightarrow> mw_buses w' = mw_buses w \<and> ew_data w' = ew_data w"

definition node_calm :: "('b, ('b, 'z) eng_world_scheme) engine_node \<Rightarrow> bool" where
  "node_calm nd \<longleftrightarrow> decider_codec_ok (nd_decider_codec nd) \<and>
     (\<forall>vid c a b e w r w'. vf_create_voter (nd_voter_factory nd) vid c = Some a \<longrightarrow> a b e w = (r, w') \<longrightarrow>
        untouched w w' \<and> (\<forall>p i. r = Inr (Some p) \<longrightarrow> p \<noteq> Some (Intention i))) \<and>
     (\<forall>w d. untouched w (env_sleep (nd_environment nd) d w)) \<and>
     (\<forall>w u. untouched w (snd (env_backoff (nd_environment nd) u w))) \<and>
     (\<forall>b. moves untouched (nd_policy_provider nd b))"

lemma untouched_refl: "untouched w w"
  by (simp add: untouched_def)

lemma untouched_trans: "untouched w w1 \<Longrightarrow> untouched w1 w2 \<Longrightarrow> untouched w w2"
  by (simp add: untouched_def)

lemma untouched_extends: "untouched w w' \<Longrightarrow> extends_by nd b A w w'"
  by (auto simp: untouched_def extends_by_def decider_store_ok_def mem_log_def)

lemma extends_by_refl: "extends_by nd b A w w"
  by (rule untouched_extends) (rule untouched_refl)

lemma extends_by_trans:
  assumes "extends_by nd b A w w1" "extends_by nd b A w1 w2"
  shows "extends_by nd b A w w2"
  unfolding extends_by_def
proof
  assume "decider_store_ok nd w"
  with assms(1) obtain es where 1: "decider_store_ok nd w1" "mem_log w1 b = mem_log w b @ es"
    "\<forall>e \<in> set es. \<exists>p. entry_payload e = Some p \<and> A p"
    by (auto simp: extends_by_def)
  with assms(2) obtain es' where 2: "decider_store_ok nd w2" "mem_log w2 b = mem_log w1 b @ es'"
    "\<forall>e \<in> set es'. \<exists>p. entry_payload e = Some p \<and> A p"
    by (auto simp: extends_by_def)
  show "decider_store_ok nd w2 \<and> (\<exists>es. mem_log w2 b = mem_log w b @ es \<and> (\<forall>e \<in> set es. \<exists>p. entry_payload e = Some p \<and> A p))"
    using 1 2 by (intro conjI exI[of _ "es @ es'"]) auto
qed

lemma extends_by_reflp_transp: "reflp (extends_by nd b A)" "transp (extends_by nd b A)"
  by (rule reflpI, rule extends_by_refl) (rule transpI, erule (1) extends_by_trans)

lemma mem_append_extends:
  assumes "clock_keeps_world (mb_environment mb)" "A p"
  shows "moves (extends_by nd b A) (mem_append mb \<lparr>ar_bus_id = Some b, ar_payload = Some p\<rparr>)"
  unfolding moves_def
proof
  fix w
  let ?req = "\<lparr>ar_bus_id = Some b, ar_payload = Some p\<rparr>"
  have data: "ew_data (snd (mem_append mb ?req w)) = ew_data w" by (rule mem_append_data[OF assms(1)])
  show "extends_by nd b A w (snd (mem_append mb ?req w))"
  proof (cases rule: mem_append_result[OF clock_keeps_world_buses[OF assms(1)], of ?req w])
    case (1 e w1)
    then show ?thesis using data by (intro untouched_extends) (simp add: untouched_def)
  next
    case (2 b' q ts at w1)
    then show ?thesis
      using data assms(2) by (auto simp: extends_by_def decider_store_ok_def mem_log_def)
  qed
qed

lemma get_payload_type_intention: "get_payload_type q = Some 1 \<longleftrightarrow> (\<exists>i. q = Some (Intention i))"
  by (cases q rule: get_payload_type.cases) simp_all

lemma get_payload_type_vote: "get_payload_type q = Some 2 \<longleftrightarrow> (\<exists>v. q = Some (Vote v))"
  by (cases q rule: get_payload_type.cases) simp_all

lemma binding_matches_decider:
  "ab_types d = DECIDER_TYPES \<Longrightarrow> binding_matches d q \<longleftrightarrow> (\<exists>i. q = Some (Intention i)) \<or> (\<exists>v. q = Some (Vote v))"
  unfolding get_payload_type_intention[symmetric] get_payload_type_vote[symmetric]
  by (auto simp: binding_matches_def DECIDER_TYPES_def split: option.split)

lemma binding_matches_voter: "ab_types d = VOTER_TYPES \<Longrightarrow> binding_matches d q \<longleftrightarrow> (\<exists>i. q = Some (Intention i))"
  unfolding get_payload_type_intention[symmetric]
  by (auto simp: binding_matches_def VOTER_TYPES_def split: option.split)

section \<open>Deciders produce decisions\<close>

lemma decider_result:
  assumes "decider_codec_ok (nd_decider_codec nd)" "decider_store_ok nd w"
    and "create_decider (nd_decider_codec nd) in_memory_storage sid pol b e w = (r, w')"
  shows "mw_buses w' = mw_buses w \<and> decider_store_ok nd w' \<and> (\<forall>p. r = Inr (Some p) \<longrightarrow> decided_id p \<noteq> None)"
proof (cases pol)
  case OffByDefault
  then show ?thesis using assms(2,3)
    by (auto simp: off_by_default_apply_def raise_def ret_def split: option.splits payload_kind.splits)
next
  case OnByDefault
  then show ?thesis using assms(2,3)
    by (auto simp: on_by_default_apply_def raise_def ret_def split: option.splits payload_kind.splits)
next
  case FirstBooleanWins
  let ?dc = "nd_decider_codec nd"
  have adv: "mw_buses w'' = mw_buses w \<and> decider_store_ok nd w'' \<and> (\<forall>p. r' = Inr (Some p) \<longrightarrow> decided_id p \<noteq> None)"
    if adv: "fbw_advance ?dc in_memory_storage sid b n x st pos w = (r', w'')" for n x st pos r' w''
  proof (cases "fbw_decode_state ?dc (ds_policy_state st)")
    case None
    then show ?thesis using adv assms(2) by (auto simp: fbw_advance_def raise_def)
  next
    case (Some pending)
    obtain pending' d where t: "fbw_transition pending n x = (pending', d)" by fastforce
    have d: "d = Some q \<Longrightarrow> decided_id q \<noteq> None" for q
      using fbw_transition_decision[of pending n x q] t by auto
    let ?st = "\<lparr>ds_last_payload = d, ds_policy_state = Some (fbw_encode_state ?dc pending')\<rparr>"
    have enc: "decode_decider ?dc (encode_decider ?dc ?st) = Some ?st"
      using assms(1) d by (simp add: decider_codec_ok_def)
    let ?k = "state_key b sid"
    have ok: "decider_store_ok nd (w\<lparr>ew_data := (ew_data w)(?k \<mapsto> (encode_decider ?dc ?st, n))\<rparr>)"
      using assms(2) enc d by (auto simp: decider_store_ok_def split: if_splits)
    show ?thesis
      by (cases rule: in_memory_put_cases[of ?k "encode_decider ?dc ?st" pos n w])
        (use adv Some t d ok assms(2) in \<open>auto simp: fbw_advance_def eff_defs apply_write_def save_policy_state_def
          in_memory_storage_def\<close>)
  qed
  have load: "load_policy_state ?dc in_memory_storage b sid w = (Inr (st, Some n), w1) \<Longrightarrow> ds_last_payload st = Some p \<Longrightarrow> decided_id p \<noteq> None"
    for st n w1 p
    using assms(2)
    by (auto simp: load_policy_state_def in_memory_storage_def in_memory_get_def eff_defs decider_store_ok_def
        split: option.splits) blast
  have same: "snd (load_policy_state ?dc in_memory_storage b sid w) = w"
    by (auto simp: load_policy_state_def in_memory_storage_def in_memory_get_def eff_defs split: option.splits)
  have "first_boolean_wins_apply ?dc in_memory_storage sid b e w = (r, w')"
    using assms(3) FirstBooleanWins by simp
  then show ?thesis
    using assms(2) same adv load
    by (cases "load_policy_state ?dc in_memory_storage b sid w")
      (auto simp: first_boolean_wins_apply_def eff_defs split: option.splits sum.splits prod.splits if_splits)
qed

section \<open>The order in which the log is used up\<close>

definition begotten :: "bus_entry list \<Rightarrow> bus_entry list \<Rightarrow> bool" where
  "begotten es new \<longleftrightarrow> (\<forall>e \<in> set new. \<exists>x \<in> set es. \<exists>p. entry_payload e = Some p \<and> begets x p)"

text \<open>Whether the decision is still missing, then the intentions, the votes and the entries ahead.\<close>
definition ahead :: "int \<Rightarrow> bus_entry list \<Rightarrow> nat \<times> nat \<times> nat \<times> nat" where
  "ahead proposed rest = (if \<exists>e \<in> set rest. entry_outcome e proposed \<noteq> None then 0 else 1,
     length (filter is_intention rest), length (filter is_vote rest), length rest)"

definition closer :: "((nat \<times> nat \<times> nat \<times> nat) \<times> (nat \<times> nat \<times> nat \<times> nat)) set" where
  "closer = less_than <*lex*> less_than <*lex*> less_than <*lex*> less_than"

lemma wf_closer: "wf closer"
  by (auto simp: closer_def)

lemma begotten_Nil: "begotten es []"
  by (simp add: begotten_def)

lemma begotten_Cons:
  assumes "\<forall>e \<in> set new. \<exists>p. entry_payload e = Some p \<and> begets x p" "begotten es new'"
  shows "begotten (x # es) (new @ new')"
  using assms by (auto simp: begotten_def)

lemma begotten_no_intention:
  assumes "begotten es new" "e \<in> set new"
  shows "\<not> is_intention e" "\<not> (\<exists>x \<in> set es. is_intention x) \<Longrightarrow> \<not> is_vote e"
    "\<exists>x \<in> set es. is_intention x \<or> is_vote x"
proof -
  obtain x p where x: "x \<in> set es" "entry_payload e = Some p" "begets x p"
    using assms by (auto simp: begotten_def)
  show "\<not> is_intention e" using x by (auto simp: begets_def is_intention_def inner_payload_def split: if_splits)
  show "\<exists>x \<in> set es. is_intention x \<or> is_vote x" using x by (auto simp: begets_def split: if_splits)
  show "\<not> is_vote e" if "\<not> (\<exists>x \<in> set es. is_intention x)"
    using x that by (auto simp: begets_def is_vote_def inner_payload_def split: if_splits)
qed

lemma closer_step:
  assumes "es \<noteq> []" "\<forall>e \<in> set es. entry_outcome e proposed = None" "begotten es new"
  shows "(ahead proposed (rest @ new), ahead proposed (es @ rest)) \<in> closer"
proof -
  have I: "filter is_intention new = []" using begotten_no_intention(1)[OF assms(3)] by (simp add: filter_empty_conv)
  have F: "(if \<exists>e \<in> set (rest @ new). entry_outcome e proposed \<noteq> None then 0 else 1)
      \<le> (if \<exists>e \<in> set (es @ rest). entry_outcome e proposed \<noteq> None then 0 else 1 :: nat)"
    using assms(2) by auto
  consider (intention) "filter is_intention es \<noteq> []"
    | (vote) "filter is_intention es = []" "filter is_vote es \<noteq> []" "filter is_vote new = []"
    | (other) "filter is_intention es = []" "filter is_vote es = []" "new = []"
    using begotten_no_intention(2,3)[OF assms(3), of "hd new"] begotten_no_intention(2)[OF assms(3)]
    by (cases "new = []"; cases "filter is_intention es = []"; cases "filter is_vote es = []")
      (auto simp: filter_empty_conv)
  then show ?thesis
    using F I assms(1) by cases (auto simp: closer_def ahead_def le_less)
qed

lemma closer_abort:
  assumes "entry_outcome e proposed \<noteq> None"
  shows "(ahead proposed [e], ahead proposed []) \<in> closer"
  using assms by (simp add: closer_def ahead_def)

section \<open>Applying an entry on a calm node\<close>

locale calm_node = ok_node nd for nd :: "('b, ('b, 'z) eng_world_scheme) engine_node" +
  assumes calm: "node_calm nd"
begin

lemma clk: "clock_keeps_world (mb_environment \<lparr>mb_environment = nd_environment nd, mb_ttl = nd_ttl nd\<rparr>)"
  using ok by (simp add: node_ok_def)

lemma sleep_untouched: "untouched w (env_sleep (rt_environment (node_runtime nd)) d w)"
  using calm by (simp add: node_calm_def node_runtime_def)

lemma backoff_untouched: "untouched w (snd (env_backoff (rt_environment (node_runtime nd)) u w))"
  using calm by (simp add: node_calm_def node_runtime_def)

lemma dcodec: "decider_codec_ok (nd_decider_codec nd)"
  using calm by (simp add: node_calm_def)

lemma voter_calm:
  assumes "vf_create_voter (nd_voter_factory nd) vid c = Some a" "a b e w = (r, w')"
  shows "untouched w w' \<and> (\<forall>p i. r = Inr (Some p) \<longrightarrow> p \<noteq> Some (Intention i))"
  using calm assms unfolding node_calm_def by blast

lemma build_decider_applicator:
  assumes "build_decider (node_runtime nd) st = Inr d"
  obtains sid pol where "ab_applicator d = create_decider (nd_decider_codec nd) in_memory_storage sid pol" "ab_types d = DECIDER_TYPES"
  using assms by (auto simp: build_decider_def node_runtime_def split: sum.splits prod.splits)

text \<open>A retried applicator call: what it returns satisfies \<open>P\<close> and the bus stays.\<close>
lemma tolerating_stale_result:
  assumes "\<And>w r w'. decider_store_ok nd w \<Longrightarrow> a b e w = (r, w') \<Longrightarrow>
      mw_buses w' = mw_buses w \<and> decider_store_ok nd w' \<and> (\<forall>p. r = Inr (Some p) \<longrightarrow> P p)"
    and "decider_store_ok nd w"
  shows "wp (apply_tolerating_stale a b e (rt_environment (node_runtime nd)) cfg)
    (\<lambda>r w'. mw_buses w' = mw_buses w \<and> decider_store_ok nd w' \<and> (\<forall>p. r = Some p \<longrightarrow> P p))
    (\<lambda>_ w'. mw_buses w' = mw_buses w \<and> decider_store_ok nd w') w"
proof -
  let ?I = "\<lambda>w'. mw_buses w' = mw_buses w \<and> decider_store_ok nd w'"
  have u: "?I w2" if "?I w1" "untouched w1 w2" for w1 w2
    using that by (auto simp: untouched_def decider_store_ok_def)
  have "wp (retry (rt_environment (node_runtime nd)) cfg
      (matchE (a b e) (\<lambda>e. case e of StalePosition _ _ \<Rightarrow> ret None | _ \<Rightarrow> raise e) ret) tolerate_decide False)
      (\<lambda>r w'. ?I w' \<and> (\<forall>p. r = Some p \<longrightarrow> P p)) (\<lambda>f w'. ?I w' \<and> True) w"
  proof (rule wp_retry[where P = "\<lambda>_ _. True"])
    show "wp (matchE (a b e) (\<lambda>e. case e of StalePosition _ _ \<Rightarrow> ret None | _ \<Rightarrow> raise e) ret)
        (\<lambda>r w'. ?I w' \<and> (\<forall>p. r = Some p \<longrightarrow> P p)) (\<lambda>e w'. ?I w' \<and> True) w1" if "?I w1" for w1
      unfolding wp_matchE
    proof (rule wpI)
      fix r w2 assume "a b e w1 = (Inr r, w2)"
      from assms(1)[OF _ this] that show "wp (ret r) (\<lambda>r w'. ?I w' \<and> (\<forall>p. r = Some p \<longrightarrow> P p)) (\<lambda>e w'. ?I w' \<and> True) w2"
        by (simp add: wp_ret)
    next
      fix err w2 assume "a b e w1 = (Inl err, w2)"
      from assms(1)[OF _ this] that show "wp (case err of StalePosition _ _ \<Rightarrow> ret None | _ \<Rightarrow> raise err)
          (\<lambda>r w'. ?I w' \<and> (\<forall>p. r = Some p \<longrightarrow> P p)) (\<lambda>e w'. ?I w' \<and> True) w2"
        by (simp add: wp_ret wp_raise split: apply_error.split)
    qed
    show "?I (env_sleep (rt_environment (node_runtime nd)) d w1)" if "?I w1" for w1 d
      using u[OF that sleep_untouched] .
    show "?I (snd (env_backoff (rt_environment (node_runtime nd)) x w1))" if "?I w1" for w1 x
      using u[OF that backoff_untouched] .
  qed (use assms(2) in simp)
  then show ?thesis unfolding apply_tolerating_stale_def wp_map_errE by (rule wp_mono) auto
qed

lemma dispatch_one_begets:
  assumes "\<And>w r w'. decider_store_ok nd w \<Longrightarrow> ab_applicator bd b e w = (r, w') \<Longrightarrow>
      mw_buses w' = mw_buses w \<and> decider_store_ok nd w' \<and> (\<forall>p. r = Inr (Some p) \<longrightarrow> begets e p)"
    and "decider_store_ok nd w" "\<forall>p \<in> set acc. begets e p"
  shows "wp (dispatch_one (node_runtime nd) b e q acc bd)
    (\<lambda>ps w'. mw_buses w' = mw_buses w \<and> decider_store_ok nd w' \<and> (\<forall>p \<in> set ps. begets e p))
    (\<lambda>_ w'. mw_buses w' = mw_buses w \<and> decider_store_ok nd w') w"
proof (cases "binding_matches bd q")
  case True
  show ?thesis
    unfolding dispatch_one_def if_P[OF True] wp_bindE wp_ret
    by (rule wp_mono[OF tolerating_stale_result[OF assms(1,2)]]) (use assms(3) in \<open>auto split: option.split\<close>)
next
  case False
  then show ?thesis using assms(2,3) by (simp add: dispatch_one_def wp_ret)
qed

text \<open>Only deciders and voters whose types match run, and they produce what the entry begets.\<close>
lemma dispatch_begets:
  assumes "decider_store_ok nd w"
  shows "wp (dispatch_entry (node_runtime nd) b e n st)
    (\<lambda>ps w'. mw_buses w' = mw_buses w \<and> decider_store_ok nd w' \<and> (\<forall>p \<in> set ps. begets e p))
    (\<lambda>_ w'. mw_buses w' = mw_buses w \<and> decider_store_ok nd w') w"
  (is "wp _ ?Q ?E w")
proof (cases "entry_payload e")
  case None
  then show ?thesis using assms by (simp add: dispatch_entry_def wp_ret)
next
  case (Some q)
  have decision: "begets e p" if "decided_id p \<noteq> None" "is_intention e \<or> is_vote e" for p
    using that by (cases p rule: decided_id.cases) (auto simp: begets_def)
  have dec: "wp (dispatch_one (node_runtime nd) b e q [] d) ?Q ?E w" if d: "build_decider (node_runtime nd) st = Inr d" for d
  proof (cases "is_intention e \<or> is_vote e")
    case True
    obtain sid pol where d': "ab_applicator d = create_decider (nd_decider_codec nd) in_memory_storage sid pol"
      using build_decider_applicator[OF d] by metis
    have "mw_buses w' = mw_buses w1 \<and> decider_store_ok nd w' \<and> (\<forall>p. r = Inr (Some p) \<longrightarrow> begets e p)"
      if "decider_store_ok nd w1" "ab_applicator d b e w1 = (r, w')" for w1 r w'
      using decider_result[OF dcodec that(1) that(2)[unfolded d']] True decision by blast
    from dispatch_one_begets[OF this assms, where acc = "[]"] show ?thesis by simp
  next
    case False
    have "ab_types d = DECIDER_TYPES" by (rule build_decider_applicator[OF d])
    with False have "\<not> binding_matches d q"
      using Some by (auto simp: binding_matches_decider is_intention_def is_vote_def inner_payload_def)
    then show ?thesis using assms by (simp add: dispatch_one_def wp_ret)
  qed
  have voter: "wp (dispatch_one (node_runtime nd) b e q acc v) (\<lambda>ps w'. mw_buses w' = mw_buses w1 \<and> decider_store_ok nd w' \<and> (\<forall>p \<in> set ps. begets e p))
      (\<lambda>_ w'. mw_buses w' = mw_buses w1 \<and> decider_store_ok nd w') w1"
    if v: "build_voters (node_runtime nd) st = Inr vs" "v \<in> set vs" and w1: "decider_store_ok nd w1" "\<forall>p \<in> set acc. begets e p" for v vs acc w1
  proof -
    obtain i where i: "i < length vs" "v = vs ! i" using v(2) by (auto simp: in_set_conv_nth)
    obtain vid c a where a: "vf_create_voter (nd_voter_factory nd) vid c = Some a" "v = bind_voter_applicator a"
      using map_result_OkD[OF v(1)[unfolded build_voters_def]] i
      by (cases "state_voter_configs st ! i") (auto simp: node_runtime_def split: option.splits)
    show ?thesis
    proof (cases "is_intention e")
      case True
      have "mw_buses w'' = mw_buses w' \<and> decider_store_ok nd w'' \<and> (\<forall>p. r = Inr (Some p) \<longrightarrow> begets e p)"
        if "decider_store_ok nd w'" "ab_applicator v b e w' = (r, w'')" for w' r w''
      proof -
        have "untouched w' w'' \<and> (\<forall>p i. r = Inr (Some p) \<longrightarrow> p \<noteq> Some (Intention i))"
          using voter_calm[OF a(1)] that(2) a(2) by (simp add: bind_voter_applicator_def)
        then show ?thesis using that(1) True by (auto simp: untouched_def decider_store_ok_def begets_def)
      qed
      from dispatch_one_begets[OF this w1] show ?thesis .
    next
      case False
      then have "\<not> binding_matches v q"
        using a(2) Some binding_matches_voter[of v q]
        by (auto simp: bind_voter_applicator_def is_intention_def inner_payload_def)
      then show ?thesis using w1 by (simp add: dispatch_one_def wp_ret)
    qed
  qed
  have voters: "wp (foldE (dispatch_one (node_runtime nd) b e q) acc vs) ?Q ?E w1"
    if vs: "build_voters (node_runtime nd) st = Inr vs" and w1: "mw_buses w1 = mw_buses w" "decider_store_ok nd w1" "\<forall>p \<in> set acc. begets e p"
    for acc vs w1
  proof (rule wp_foldE[where I = "\<lambda>_ ps w'. mw_buses w' = mw_buses w \<and> decider_store_ok nd w' \<and> (\<forall>p \<in> set ps. begets e p)"])
    fix ys v zs acc' w'
    assume "vs = ys @ v # zs" "mw_buses w' = mw_buses w \<and> decider_store_ok nd w' \<and> (\<forall>p \<in> set acc'. begets e p)"
    then show "wp (dispatch_one (node_runtime nd) b e q acc' v) ?Q ?E w'"
      using voter[OF vs, of v w' acc'] by (auto elim!: wp_mono)
  qed (use w1 in auto)
  show ?thesis
  proof (cases "policy_constraint_failure q (es_applied_policy_version st)")
    case f: (Some reason)
    then have "is_intention e" using Some
      by (auto simp: policy_constraint_failure_def is_intention_def inner_payload_def split: option.splits payload_kind.splits)
    then show ?thesis using assms f Some by (simp add: dispatch_entry_def wp_ret begets_def abort_payload_def)
  next
    case None
    have rest: "wp (bindE (liftR (build_voters (node_runtime nd) st)) (foldE (dispatch_one (node_runtime nd) b e q) ps)) ?Q ?E w1"
      if "mw_buses w1 = mw_buses w \<and> decider_store_ok nd w1 \<and> (\<forall>p \<in> set ps. begets e p)" for ps w1
      using voters that by (cases "build_voters (node_runtime nd) st") (simp_all add: wp_bindE wp_liftR)
    show ?thesis
    proof (cases "build_decider (node_runtime nd) st")
      case (Inl err)
      then show ?thesis using assms None Some by (simp add: dispatch_entry_def wp_bindE wp_liftR)
    next
      case (Inr d)
      have "wp (bindE (dispatch_one (node_runtime nd) b e q [] d) (\<lambda>ps.
          bindE (liftR (build_voters (node_runtime nd) st)) (foldE (dispatch_one (node_runtime nd) b e q) ps))) ?Q ?E w"
        unfolding wp_bindE[of "dispatch_one _ _ _ _ _ _"]
        by (rule wp_mono[OF dec[OF Inr]]) (use rest in auto)
      then show ?thesis using None Some Inr by (simp add: dispatch_entry_def wp_bindE[of "liftR _"] wp_liftR)
    qed
  qed
qed

abbreviation ext where
  "ext b e s s' \<equiv> extends_by nd b (begets e) (fst s) (fst s')"

lemma ext_reflp_transp: "reflp (ext b e)" "transp (ext b e)"
  by (rule reflpI, rule extends_by_refl) (rule transpI, erule (1) extends_by_trans)

lemma append_produced_extends:
  assumes "begets e p"
  shows "moves (ext b e) (append_produced (node_runtime nd) b p)"
  unfolding append_produced_def
proof (intro moves_bindE moves_map_errE ext_reflp_transp)
  show "moves (ext b e) (on_world (bus_append (rt_bus (node_runtime nd)) \<lparr>ar_bus_id = Some b, ar_payload = Some p\<rparr>))"
    using mem_append_extends[OF clk, of "begets e" p nd b] assms
    by (auto simp: moves_def on_world_def node_runtime_def memory_bus_def split: prod.split) (metis snd_conv)
  show "moves (ext b e) (modifyE (\<lambda>(w, highest). (w, max highest pos)))" for pos
    by (auto simp: moves_def modifyE_def extends_by_refl split: prod.split)
qed

lemma append_all_extends:
  assumes "\<forall>p \<in> set ps. begets e p"
  shows "moves (ext b e) (foldE (\<lambda>_. append_produced (node_runtime nd) b) u ps)"
  using assms
proof (induction ps arbitrary: u)
  case Nil
  then show ?case by (auto intro: moves_ret ext_reflp_transp)
next
  case (Cons p ps)
  then show ?case by (auto intro!: moves_bindE append_produced_extends ext_reflp_transp)
qed

lemma save_extends: "moves (ext b e) (on_world (apply_write OwnerEngine b' n
    (engine_state_save (rt_codec (node_runtime nd)) st (rt_storage (node_runtime nd)) b' pos m)))"
proof -
  have "extends_by nd b (begets e) w (snd (in_memory_put (engine_state_key b') v pos m w))" for v w
    by (cases rule: in_memory_put_cases[of "engine_state_key b'" v pos m w])
      (auto simp: extends_by_refl, simp add: extends_by_def decider_store_ok_def)
  then show ?thesis
    by (auto simp: moves_def on_world_def apply_write_def engine_state_save_def node_runtime_def in_memory_storage_def
        split: prod.split) (metis snd_conv)
qed

lemma apply_entry_once_extends: "moves (ext b e) (apply_entry_once (node_runtime nd) b e sn)"
proof (rule movesI_wp)
  fix s :: "('b, 'z) eng_world_scheme \<times> int"
  obtain w h where s: "s = (w, h)" by fastforce
  let ?R = "\<lambda>_ s'. ext b e s s'"
  let ?rest = "\<lambda>n ps. bindE (foldE (\<lambda>_. append_produced (node_runtime nd) b) () ps) (\<lambda>_.
      bindE (liftR (control_transition (rt_voter_factory (node_runtime nd)) (sn_state sn) e n)) (\<lambda>st.
      bindE (on_world (apply_write OwnerEngine b n
          (engine_state_save (rt_codec (node_runtime nd)) st (rt_storage (node_runtime nd)) b (sn_position sn) n)))
        (\<lambda>_. ret \<lparr>sn_state = st, sn_position = Some n\<rparr>)))"
  have rest: "moves (ext b e) (?rest n ps)" if "\<forall>p \<in> set ps. begets e p" for n ps
    by (intro moves_bindE append_all_extends[OF that] moves_liftR moves_ret save_extends ext_reflp_transp)
  show "wp (apply_entry_once (node_runtime nd) b e sn) ?R ?R s"
  proof (cases "decider_store_ok nd w")
    case False
    then show ?thesis by (intro wpI) (simp_all add: s extends_by_def)
  next
    case ok: True
    show ?thesis
    proof (cases "header_position e")
      case None
      then show ?thesis by (simp add: apply_entry_once_def wp_raise extends_by_refl)
    next
      case (Some n)
      show ?thesis
      proof (cases "n < cursor_of (sn_position sn)")
        case True
        then show ?thesis using Some by (simp add: apply_entry_once_def wp_ret extends_by_refl)
      next
        case False
        have same: "extends_by nd b (begets e) w w1" if "mw_buses w1 = mw_buses w" "decider_store_ok nd w1" for w1
          using that by (simp add: extends_by_def mem_log_def)
        have go: "wp (?rest n ps) ?R ?R (w1, h)"
          if "mw_buses w1 = mw_buses w \<and> decider_store_ok nd w1 \<and> (\<forall>p \<in> set ps. begets e p)" for ps w1
          by (rule wp_moves[OF rest]) (use that s in \<open>auto intro: extends_by_trans[OF same]\<close>)
        have eq: "apply_entry_once (node_runtime nd) b e sn =
            bindE (on_world (dispatch_entry (node_runtime nd) b e n (sn_state sn))) (?rest n)"
          using Some False by (simp add: apply_entry_once_def)
        show ?thesis
          unfolding eq wp_bindE[of "on_world _"] wp_on_world s fst_conv snd_conv
          by (rule wp_mono[OF dispatch_begets[OF ok]]) (use go same s in auto)
      qed
    qed
  qed
qed

lemma playback_extends: "moves (\<lambda>s s'. ext b e (fst s) (fst s')) (playback_operation (node_runtime nd) b e)"
proof (rule movesI_wp)
  fix s :: "(('b, 'z) eng_world_scheme \<times> int) \<times> engine_snapshot option"
  obtain t init where s: "s = (t, init)" by fastforce
  have load: "moves (ext b e) (on_world (snapshot_load (node_runtime nd) b))"
  proof -
    have "snd (snapshot_load (node_runtime nd) b w) = w" for w
      by (auto simp: snapshot_load_def engine_state_load_def eff_defs node_runtime_def in_memory_storage_def
          in_memory_get_def split: option.split prod.split)
    then show ?thesis
      by (auto simp: moves_def on_world_def extends_by_refl split: prod.split) (metis extends_by_refl snd_conv)
  qed
  have "moves (ext b e) (case init of Some sn \<Rightarrow> apply_entry_once (node_runtime nd) b e sn
      | None \<Rightarrow> bindE (map_errE load_error_into_apply (on_world (snapshot_load (node_runtime nd) b))) (apply_entry_once (node_runtime nd) b e))"
    by (cases init) (auto intro!: apply_entry_once_extends moves_bindE moves_map_errE load ext_reflp_transp)
  from moves_wp[OF this, of t]
  show "wp (playback_operation (node_runtime nd) b e) (\<lambda>_ s'. ext b e (fst s) (fst s')) (\<lambda>_ s'. ext b e (fst s) (fst s')) s"
    by (simp add: s wp_playback_operation)
qed

text \<open>Driving an entry appends only what the entry begets.\<close>
lemma engine_apply_extends: "moves (ext b e) (engine_apply (node_runtime nd) b e)"
proof -
  let ?env = "lift_env (lift_env (rt_environment (node_runtime nd)))"
  let ?R = "\<lambda>s s'. ext b e (fst s) (fst s')"
  have "moves ?R (retry ?env (rt_retry_config (node_runtime nd)) (playback_operation (node_runtime nd) b e) playback_decide False)"
  proof (rule moves_retry[OF _ _ playback_extends])
    show "reflp ?R" by (rule reflpI, rule extends_by_refl)
    show "transp ?R" by (rule transpI, erule (1) extends_by_trans)
    show "?R s (env_sleep ?env d s)" for d s
      using untouched_extends[OF sleep_untouched] by (cases s; cases "fst s") simp
    show "?R s (snd (env_backoff ?env u s))" for u s
      using untouched_extends[OF backoff_untouched] by (cases s; cases "fst s") simp
  qed
  note run = moves_map_errE[OF this, of into_last_error]
  show ?thesis
    unfolding moves_def
  proof
    fix s :: "('b, 'z) eng_world_scheme \<times> engine_context"
    obtain w ctx where s: "s = (w, ctx)" by fastforce
    obtain r w' h' i where m: "map_errE into_last_error (retry ?env (rt_retry_config (node_runtime nd))
        (playback_operation (node_runtime nd) b e) playback_decide False)
        ((w, ec_highest_append ctx), Some (ec_snapshot ctx)) = (r, (w', h'), i)"
      by (metis prod.collapse)
    from movesD[OF run m] show "ext b e s (snd (engine_apply (node_runtime nd) b e s))"
      using m by (cases r) (simp_all add: s engine_apply_def)
  qed
qed

lemma process_entries_extends:
  assumes "decider_store_ok nd w"
  shows "wp (process_entries (node_runtime nd) b proposed es known)
    (\<lambda>r s. decider_store_ok nd (fst s) \<and> (\<exists>new. mem_log (fst s) b = mem_log w b @ new \<and>
       (\<forall>k. r = Inr k \<longrightarrow> (\<forall>e \<in> set es. entry_outcome e proposed = None) \<and> begotten es new)))
    (\<lambda>_ _. True) (w, ctx)"
  using assms
proof (induction es arbitrary: known w ctx)
  case Nil
  then show ?case by (simp add: wp_ret begotten_Nil)
next
  case (Cons e es)
  let ?Q = "\<lambda>w r s. decider_store_ok nd (fst s) \<and> (\<exists>new. mem_log (fst s) b = mem_log w b @ new \<and>
       (\<forall>k. r = Inr k \<longrightarrow> (\<forall>x \<in> set (e # es). entry_outcome x proposed = None) \<and> begotten (e # es) new))"
  have rest: "wp (process_entries (node_runtime nd) b proposed es k) (?Q w) (\<lambda>_ _. True) s"
    if "entry_outcome e proposed = None" "decider_store_ok nd (fst s)" "mem_log (fst s) b = mem_log w b @ new"
      "\<forall>x \<in> set new. \<exists>p. entry_payload x = Some p \<and> begets e p" for k s new
  proof -
    obtain w1 ctx1 where s: "s = (w1, ctx1)" by fastforce
    show ?thesis
      unfolding s
      by (rule wp_mono[OF Cons.IH]) (use that s in \<open>auto intro!: begotten_Cons\<close>)
  qed
  show ?case
  proof (cases "entry_header e = None \<or> entry_outcome e proposed \<noteq> None \<or> \<not> requires_application e")
    case True
    then show ?thesis
      using rest[of "(w, ctx)" "[]" known] Cons.prems
      by (auto simp: wp_ret wp_raise entry_outcome_def split: option.splits)
  next
    case False
    have "wp (engine_apply (node_runtime nd) b e)
        (\<lambda>_ s. wp (process_entries (node_runtime nd) b proposed es (max known (ec_highest_append (snd s)))) (?Q w) (\<lambda>_ _. True) s)
        (\<lambda>_ _. True) (w, ctx)"
    proof (rule wp_moves[OF engine_apply_extends])
      fix s :: "('b, 'z) eng_world_scheme \<times> engine_context"
      assume "ext b e (w, ctx) s"
      then show "wp (process_entries (node_runtime nd) b proposed es (max known (ec_highest_append (snd s)))) (?Q w) (\<lambda>_ _. True) s"
        using rest[of s] False Cons.prems by (auto simp: extends_by_def)
    qed simp
    then show ?thesis
      using False by (auto simp: entry_outcome_def wp_bindE wp_map_errE wp_asks case_prod_beta split: option.splits)
  qed
qed

lemma untouched_store: "untouched w w' \<Longrightarrow> decider_store_ok nd w \<Longrightarrow> decider_store_ok nd w'"
  by (simp add: untouched_def decider_store_ok_def)

lemma untouched_log: "untouched w w' \<Longrightarrow> mem_log w' b = mem_log w b"
  by (simp add: untouched_def mem_log_def)

lemma read_range_untouched: "moves untouched (read_range (rt_bus (node_runtime nd)) b start stop n flt)"
  unfolding read_range_def
proof (rule moves_read_range_loop)
  show "reflp untouched" "transp untouched"
    by (rule reflpI, rule untouched_refl) (rule transpI, erule (1) untouched_trans)
  show "moves untouched (bus_read_next (rt_bus (node_runtime nd)) req)" for req
    using mem_read_next_data[OF clk, of req] mem_check_buses[OF clock_keeps_world_buses[OF clk]]
    by (auto simp: moves_def untouched_def node_runtime_def memory_bus_def mem_read_next_def split: sum.split prod.split)
qed

abbreviation nearer where
  "nearer proposed b pos w r s \<equiv> decider_store_ok nd (fst s) \<and> (\<forall>pos' known'. r = Inr (pos', known') \<longrightarrow>
     (ahead proposed (drop (nat pos') (mem_log (fst s) b)), ahead proposed (drop (nat pos) (mem_log w b))) \<in> closer)"

lemma sync_read_nearer:
  assumes "node.syncing c proposed b pos (w, ctx)" "decider_store_ok nd w" "pos \<le> known" "known < int (length (mem_log w b))"
  shows "wp (sync_read (node_runtime nd) b proposed pos known) (nearer proposed b pos w) (\<lambda>_ _. True) (w, ctx)"
proof -
  have inv: "mem_inv w" and pos: "0 \<le> pos" using assms(1) by (auto simp: node.syncing_def node.good_def)
  obtain r w1 where call: "read_range (rt_bus (node_runtime nd)) b pos (known + 1) POLL_BATCH_SIZE None w = (r, w1)" by fastforce
  have un: "untouched w w1" using movesD[OF read_range_untouched call] .
  note un' = untouched_store[OF un assms(2)] untouched_log[OF un]
  show ?thesis
  proof (cases r)
    case (Inl e)
    then show ?thesis using call by (simp add: sync_read_def wp_bindE wp_map_errE wp_on_world) (simp add: wp_def)
  next
    case (Inr ec)
    obtain es c' where ec: "ec = (es, c')" by fastforce
    note rr = node.bus.read_range_sound[OF inv pos _ _ _ _ call[unfolded Inr ec]]
    have c': "pos < c'" "c' \<le> known + 1"
      using node.bus.read_range_progress[OF inv pos _ _ _ _ call[unfolded Inr ec]] rr assms by (auto simp: POLL_BATCH_SIZE_def)
    have es: "es = segment (mem_log w b) pos c'"
    proof -
      have "entry_matches None e" if "e \<in> set (segment (mem_log w b) pos c')" for e
      proof -
        have "e \<in> set (mem_log w b)" using that by (auto simp: segment_def dest: in_set_takeD in_set_dropD)
        then have "entry_payload e \<noteq> None" using inv by (auto simp: mem_inv_def well_numbered_def in_set_conv_nth)
        then show ?thesis by (auto simp: entry_matches_def)
      qed
      then show ?thesis using rr(3) assms by (simp add: POLL_BATCH_SIZE_def)
    qed
    have split: "drop (nat pos) (mem_log w b) = es @ drop (nat c') (mem_log w b)"
      using c' pos append_take_drop_id[of "nat c' - nat pos" "drop (nat pos) (mem_log w b)"] by (simp add: es segment_def)
    have ne: "es \<noteq> []" using c' pos assms(4) by (auto simp: es segment_def)
    have "wp (process_entries (node_runtime nd) b proposed es known)
        (\<lambda>r s. nearer proposed b pos w (case r of Inl out \<Rightarrow> Inl out | Inr known' \<Rightarrow> Inr (c', known')) s)
        (\<lambda>_ _. True) (w1, ctx)"
      by (rule wp_mono[OF process_entries_extends[OF un'(1)]])
        (use closer_step[OF ne] c' assms(4) un'(2) in \<open>auto simp: split split: sum.splits\<close>)
    then show ?thesis
      using call Inr ec
      by (simp add: sync_read_def wp_bindE wp_map_errE wp_on_world wp_def[of "read_range _ _ _ _ _ _"])
        (auto simp: wp_ret elim!: wp_mono split: sum.splits)
  qed
qed

lemma sync_step_nearer:
  assumes "node.syncing c proposed b pos (w, ctx)" "decider_store_ok nd w" "known < int (length (mem_log w b))"
  shows "wp (sync_step (node_runtime nd) b proposed pos known) (nearer proposed b pos w) (\<lambda>_ _. True) (w, ctx)"
proof (cases "known < pos")
  case False
  then show ?thesis using sync_read_nearer[OF assms(1,2) _ assms(3)] by (simp add: sync_step_def)
next
  case True
  have pos: "0 \<le> pos" "pos \<le> int (length (mem_log w b))" using assms(1) by (auto simp: node.syncing_def)
  have tail: "bus_check_tail (rt_bus (node_runtime nd)) (Some b) w =
      (if valid_bus b then (Inr (int (length (mem_log w b))), w) else (Inl InvalidArgument, w))"
    by (simp add: node_runtime_def memory_bus_def mem_check_tail_def get_tail_stored mem_log_def)
  show ?thesis
  proof (cases "valid_bus b \<and> int (length (mem_log w b)) \<le> pos")
    case drained: True
    let ?req = "\<lparr>ar_bus_id = Some b, ar_payload = Some (forced_abort proposed)\<rparr>"
    have rest: "drop (nat pos) (mem_log w b) = []" "nat pos = length (mem_log w b)" using drained pos by auto
    have "wp (bus_append (rt_bus (node_runtime nd)) ?req)
        (\<lambda>position w'. nearer proposed b pos w (Inr (pos, max known position)) (w', ctx)) (\<lambda>_ _. True) w"
    proof (rule wpI)
      fix p w' assume call: "bus_append (rt_bus (node_runtime nd)) ?req w = (Inr p, w')"
      have store: "decider_store_ok nd w'"
        using movesD[OF mem_append_extends[OF clk, of "\<lambda>_. True" "forced_abort proposed" nd b]] call assms(2)
        by (auto simp: node_runtime_def memory_bus_def extends_by_def)
      obtain e where e: "mem_log w' b = mem_log w b @ [e]" "entry_payload e = Some (forced_abort proposed)"
        using call
        by (cases rule: mem_append_result[OF clock_keeps_world_buses[OF clk], of ?req w])
          (auto simp: node_runtime_def memory_bus_def mem_log_def)
      have "entry_outcome e proposed \<noteq> None"
        using e(2) by (simp add: entry_outcome_def outcome_for_def forced_abort_def abort_payload_def)
      then show "nearer proposed b pos w (Inr (pos, max known p)) (w', ctx)"
        using store e(1) rest closer_abort by simp
    qed simp
    then show ?thesis
      using tail drained True
      by (simp add: sync_step_def wp_bindE wp_map_errE wp_on_world wp_def[of "bus_check_tail _ _"] wp_ret)
  next
    case False
    then show ?thesis
      using tail True sync_read_nearer[OF assms(1,2), of "int (length (mem_log w b)) - 1"]
      by (auto simp: sync_step_def wp_bindE wp_map_errE wp_on_world wp_def[of "bus_check_tail _ _"])
  qed
qed

text \<open>The loop of \<open>sync_and_apply\<close> returns.\<close>
lemma sync_loop_returns:
  assumes "node.syncing c proposed b pos s" "known < int (length (mem_log (fst s) b))" "decider_store_ok nd (fst s)"
  shows "sync_loop (node_runtime nd) b proposed pos known s \<noteq> None"
  using assms
proof (induction "ahead proposed (drop (nat pos) (mem_log (fst s) b))" arbitrary: pos known s rule: wf_induct_rule[OF wf_closer])
  case 1
  obtain w ctx where s: "s = (w, ctx)" by fastforce
  obtain r t where step: "sync_step (node_runtime nd) b proposed pos known s = (r, t)" by (metis surj_pair)
  note sound = node.sync_step_sound[OF 1(2)[unfolded s] 1(3)[unfolded s fst_conv]]
    and near = sync_step_nearer[OF 1(2)[unfolded s] 1(4)[unfolded s fst_conv] 1(3)[unfolded s fst_conv]]
  show ?case
  proof (cases "\<exists>pos' known'. r = Inr (Inr (pos', known'))")
    case True
    then obtain pos' known' where r: "r = Inr (Inr (pos', known'))" by blast
    have "sync_loop (node_runtime nd) b proposed pos' known' t \<noteq> None"
      using sound near step s r by (intro 1(1)) (auto simp: wp_def)
    then show ?thesis using step r by (subst sync_loop.simps) simp
  next
    case False
    then show ?thesis
      using step by (subst sync_loop.simps) (auto split: sum.splits)
  qed
qed

lemma append_keeps_store: "moves (\<lambda>w w'. decider_store_ok nd w \<longrightarrow> decider_store_ok nd w')
    (bus_append (rt_bus (node_runtime nd)) \<lparr>ar_bus_id = Some b, ar_payload = Some p\<rparr>)"
  using mem_append_extends[OF clk, of "\<lambda>_. True" p nd b]
  by (auto simp: moves_def node_runtime_def memory_bus_def extends_by_def)

lemma propose_append_keeps_store:
  "moves (\<lambda>w w'. decider_store_ok nd w \<longrightarrow> decider_store_ok nd w') (propose_append (node_engine nd) b p)"
  (is "moves ?R _")
proof -
  have R: "reflp ?R" "transp ?R" by (auto intro!: reflpI transpI)
  have load: "moves ?R (snapshot_load (node_runtime nd) b)"
    by (auto simp: moves_def snapshot_load_def engine_state_load_def eff_defs node_runtime_def in_memory_storage_def
          in_memory_get_def split: option.split prod.split)
  have "moves untouched (nd_policy_provider nd b)" using calm by (simp add: node_calm_def)
  then have prov: "moves ?R (be_policy_provider (node_engine nd) b)"
    using untouched_store by (auto simp: node_engine_def moves_def)
  have rt: "be_runtime (node_engine nd) = node_runtime nd" by (simp add: node_engine_def)
  have res: "moves ?R (append_resolved_policy (node_engine nd) b st)" for st
    unfolding append_resolved_policy_def rt
    by (intro moves_bindE moves_map_errE moves_liftR prov R)
      (auto split: option.split intro!: moves_bindE moves_map_errE moves_ret R append_keeps_store)
  show ?thesis
    unfolding propose_append_def rt
    by (auto split: option.split payload_kind.split prod.split
        intro!: moves_raise moves_bindE moves_map_errE moves_liftR moves_ret load res append_keeps_store R)
qed

text \<open>A proposal on a calm node returns.\<close>
lemma propose_returns:
  assumes "node_good nd w" "decider_store_ok nd w"
  shows "propose_intention (node_engine nd) b p w \<noteq> None"
proof (cases "propose_append (node_engine nd) b p w")
  case (Pair r w1)
  have rt: "be_runtime (node_engine nd) = node_runtime nd" by (simp add: node_engine_def)
  have store: "decider_store_ok nd w1" using movesD[OF propose_append_keeps_store Pair] assms(2) by simp
  have g: "node.good w" using assms(1) by (simp add: node_good_iff)
  show ?thesis
  proof (cases r)
    case (Inl e)
    then show ?thesis using Pair by (simp add: propose_intention_def)
  next
    case (Inr pc)
    obtain pos ctx where pc: "pc = (pos, ctx)" by fastforce
    let ?c = "cursor_of (sn_position (ec_snapshot ctx))"
    have A: "node.progress w w1" "node.ctx_ok w1 b ctx" "0 \<le> ?c" "?c \<le> pos" "pos < int (length (mem_log w1 b))"
        "ec_highest_append ctx = pos"
      using node.propose_append_sound[OF rt provider_moves g, of b p] Pair Inr pc by (auto simp: wp_def)
    have "node.syncing ?c pos b ?c (w1, ctx)"
      using A g by (auto simp: node.syncing_def node.progress_def quiet_def undecided_def)
    from sync_loop_returns[OF this, of pos] A(5,6) store Pair Inr pc show ?thesis
      by (simp add: propose_intention_def sync_and_apply_def rt)
  qed
qed

end

section \<open>The concrete node is calm\<close>

lemma wire_decider_codec_ok: "decider_codec_ok wire_decider_codec"
proof -
  have "decode_fbw wire_decider_codec (show_int i) = Some (Some i)" for i
  proof (cases "i < 0")
    case True
    then show ?thesis by (simp add: wire_decider_codec_def show_int_def)
  next
    case False
    obtain c cs where s: "show_nat (nat i) = c # cs" using show_nat_nonempty by (meson neq_Nil_conv)
    then have "c \<noteq> CHR ''-''" using show_nat_not_minus by metis
    then show ?thesis using False s read_show_nat[of "nat i"] by (simp add: wire_decider_codec_def show_int_def)
  qed
  moreover have "encode_fbw wire_decider_codec = (\<lambda>p. case p of None \<Rightarrow> [] | Some i \<Rightarrow> show_int i)"
    by (simp add: wire_decider_codec_def)
  moreover have "decode_fbw wire_decider_codec [] = Some None"
    by (simp add: wire_decider_codec_def)
  ultimately show ?thesis
    by (simp add: decider_codec_ok_def split: option.split) (simp add: wire_decider_codec_def)
qed

lemma stateless_voter_votes:
  assumes "\<And>b t w. snd (iv_evaluate v b t w) = w" "stateless_voter_apply v b e w = (r, w')"
  shows "w' = w \<and> (\<forall>p i. r = Inr (Some p) \<longrightarrow> p \<noteq> Some (Intention i))"
proof -
  have "w' = w"
    using moves_stateless_voter[OF _ assms(1), of "(=)" b e] assms(2) by (auto simp: moves_def reflp_def) (metis snd_conv)
  then show ?thesis
    using assms(2)
    by (auto simp: stateless_voter_apply_def immutable_voter_vote_def raise_def ret_def
        split: option.splits payload_kind.splits intention_kind.splits prod.splits)
qed

lemma sim_node_calm: "node_calm (sim_node evaluate desired)"
proof -
  have "untouched w w' \<and> (\<forall>p i. r = Inr (Some p) \<longrightarrow> p \<noteq> Some (Intention i))"
    if "vf_create_voter (pure_voter_factory evaluate) vid c = Some a" "a b e w = (r, w')" for vid c a b e w r w'
    using that stateless_voter_votes[of "\<lparr>iv_voter_id = vid, iv_config = c, iv_evaluate = (\<lambda>b t w. (evaluate b t, w))\<rparr>" b e w r w']
    by (auto simp: pure_voter_factory_def untouched_refl)
  then show ?thesis
    by (auto simp: node_calm_def sim_node_def wire_decider_codec_ok sim_environment_def sim_sleep_def advance_to_def
        half_backoff_def untouched_def moves_def ret_def)
qed

interpretation live_sim: calm_node "sim_node evaluate desired" for evaluate and desired
  by unfold_locales (rule sim_node_calm)

lemma sim_world_empty_store: "decider_store_ok nd sim_world_empty"
  by (simp add: decider_store_ok_def sim_world_empty_def)

section \<open>Properties\<close>

text \<open>
  C6. The stored FIRST_BOOLEAN_WINS decider implements the fold over the log: over in-memory storage holding the
  record of the entries \<open>es\<close>, the next entry advances the record by one step and returns that step's decision,
  re-delivery of the last entry returns its decision again, an older entry is stale, and neither writes.
\<close>
theorem fbw_apply_refines_fold:
  assumes "decider_codec_ok codec" "header_position entry = Some n" "inner_payload entry = Some x"
  shows "(ew_data w (state_key b sid) = fbw_stored codec es \<and> (es \<noteq> [] \<longrightarrow> fst (last es) < n) \<longrightarrow>
      first_boolean_wins_apply codec in_memory_storage sid b entry w =
        (Inr (snd (fbw_transition (fst (fbw_run es)) n x)),
         w\<lparr>ew_data := (ew_data w)(state_key b sid := fbw_stored codec (es @ [(n, x)]))\<rparr>)) \<and>
    (ew_data w (state_key b sid) = fbw_stored codec (es @ [(n, y)]) \<longrightarrow>
      first_boolean_wins_apply codec in_memory_storage sid b entry w = (Inr (snd (fbw_transition (fst (fbw_run es)) n y)), w)) \<and>
    (ew_data w (state_key b sid) = fbw_stored codec (es @ [(m, y)]) \<and> n < m \<longrightarrow>
      first_boolean_wins_apply codec in_memory_storage sid b entry w = (Inl (StalePosition n m), w))"
proof -
  have inner: "inner_payload entry \<noteq> None" using assms(3) by simp
  show ?thesis
    using fbw_apply_next[OF assms(1) _ assms(2,3), of w b sid es] fbw_apply_replay[OF assms(1) _ assms(2) inner, of w b sid es y]
      fbw_apply_stale[OF assms(1) _ assms(2) _ inner, of w b sid es m y]
    by simp
qed

definition intention_entry :: "int \<Rightarrow> bus_entry" where
  "intention_entry n = \<lparr>entry_header = Some \<lparr>log_position = n, rt_timestamp_ms = 0\<rparr>, entry_payload = Some (Some an_intention)\<rparr>"

theorem fbw_apply_refines_fold_witness:
  "first_boolean_wins_apply wire_decider_codec in_memory_storage (Some 0) ''bus'' (intention_entry 1) sim_world_empty =
   (Inr None, sim_world_empty\<lparr>ew_data := [state_key ''bus'' (Some 0) \<mapsto> the (fbw_stored wire_decider_codec [(1, an_intention)])]\<rparr>)"
  using fbw_apply_refines_fold[OF wire_decider_codec_ok, of "intention_entry 1" 1 an_intention sim_world_empty "''bus''" "Some 0" "[]"]
  by (simp add: intention_entry_def header_position_def inner_payload_def sim_world_empty_def fbw_stored_def fbw_run_def
      fbw_transition_def an_intention_def)

end
