(* ===== verification/Rule_Voter.thy ===== *)
theory Rule_Voter
  imports Bus_Api "HOL-Library.Sublist" "HOL-Library.Multiset"
begin

text \<open>
  The rule-based voter, \<open>bus/voters/rule-based/src/lib.rs\<close>: allow and deny rules over the text of an
  intention and its bus, with deny taking precedence.  The \<open>regex\<close> crate is the parameter
  \<open>regex_engine\<close>: a pattern either compiles or does not, and a compiled pattern matches a text or
  not.  The error value drops its message.
\<close>

section \<open>Rules\<close>

datatype rule_action = Allow | Deny

datatype match_type = Exact | Substring | Regex

datatype rule_subject = SubjectExact string | SubjectPrefix string

record rule =
  rule_pattern :: string
  rule_match_type :: match_type
  rule_action :: rule_action
  rule_reason :: string
  rule_subjects :: "rule_subject list"

datatype rule_based_voter_error = InvalidRule

text \<open>The getter of a protobuf enum field maps an unknown number to the default variant.\<close>
definition rule_action_from_proto :: "int \<Rightarrow> rule_action" where
  "rule_action_from_proto i = (if i = 1 then Allow else Deny)"

fun rule_action_to_proto :: "rule_action \<Rightarrow> int" where
  "rule_action_to_proto Allow = 1"
| "rule_action_to_proto Deny = 2"

fun rule_action_lowercase :: "rule_action \<Rightarrow> string" where
  "rule_action_lowercase Allow = ''allow''"
| "rule_action_lowercase Deny = ''deny''"

fun rule_action_display :: "rule_action \<Rightarrow> string" where
  "rule_action_display Allow = ''ALLOW''"
| "rule_action_display Deny = ''DENY''"

fun rule_subject_validate :: "rule_subject \<Rightarrow> rule_based_voter_error + unit" where
  "rule_subject_validate (SubjectExact b) =
     (case validate_bus_id_string b of None \<Rightarrow> Inl InvalidRule | Some _ \<Rightarrow> Inr ())"
| "rule_subject_validate (SubjectPrefix p) =
     (case validate_bus_id_string p of None \<Rightarrow> Inl InvalidRule | Some _ \<Rightarrow> Inr ())"

fun rule_subject_matches :: "rule_subject \<Rightarrow> string \<Rightarrow> bool" where
  "rule_subject_matches (SubjectExact v) bus_id = (bus_id = v)"
| "rule_subject_matches (SubjectPrefix v) bus_id = prefix v bus_id"

definition quoted :: "string \<Rightarrow> string" where
  "quoted s = CHR 0x22 # s @ [CHR 0x22]"

fun rule_subject_display :: "rule_subject \<Rightarrow> string" where
  "rule_subject_display (SubjectExact v) = ''bus_id = '' @ quoted v"
| "rule_subject_display (SubjectPrefix v) = ''bus_id starts with '' @ quoted v"

fun match_type_display :: "match_type \<Rightarrow> string" where
  "match_type_display Exact = ''exact''"
| "match_type_display Substring = ''contains''"
| "match_type_display Regex = ''matches''"

text \<open>Rust's \<open>join\<close> of strings.\<close>
fun join_with :: "string \<Rightarrow> string list \<Rightarrow> string" where
  "join_with sep [] = []"
| "join_with sep [x] = x"
| "join_with sep (x # y # ys) = x @ sep @ join_with sep (y # ys)"

definition rule_display :: "rule \<Rightarrow> string" where
  "rule_display r =
     (let pattern_display = (case rule_match_type r of Regex \<Rightarrow> ''/'' @ rule_pattern r @ ''/'' | _ \<Rightarrow> quoted (rule_pattern r));
          subjects = (if rule_subjects r = [] then []
                      else ''('' @ join_with '' or '' (map rule_subject_display (rule_subjects r)) @ '') and '')
      in rule_action_display (rule_action r) @ '' if '' @ subjects @ match_type_display (rule_match_type r) @ '' ''
         @ pattern_display @ '' (reason: '' @ rule_reason r @ '')'')"

section \<open>Compiling and matching\<close>

record 'r regex_engine =
  regex_new :: "string \<Rightarrow> 'r option"
  regex_is_match :: "'r \<Rightarrow> string \<Rightarrow> bool"

record 'r compiled_rule =
  cr_rule :: rule
  cr_regex :: "'r option"

definition rule_compile :: "'r regex_engine \<Rightarrow> rule \<Rightarrow> rule_based_voter_error + 'r compiled_rule" where
  "rule_compile rx r =
     (case map_result rule_subject_validate (rule_subjects r) of
        Inl e \<Rightarrow> Inl e
      | Inr _ \<Rightarrow>
          (case rule_match_type r of
             Regex \<Rightarrow> (case regex_new rx (rule_pattern r) of
                          None \<Rightarrow> Inl InvalidRule
                        | Some re \<Rightarrow> Inr \<lparr>cr_rule = r, cr_regex = Some re\<rparr>)
           | _ \<Rightarrow> Inr \<lparr>cr_rule = r, cr_regex = None\<rparr>))"

record voter_context =
  vc_bus_id :: string
  vc_intention :: string

definition compiled_rule_matches :: "'r regex_engine \<Rightarrow> 'r compiled_rule \<Rightarrow> voter_context \<Rightarrow> bool" where
  "compiled_rule_matches rx cr ctx =
     (if rule_subjects (cr_rule cr) \<noteq> [] \<and>
         \<not> list_ex (\<lambda>subject. rule_subject_matches subject (vc_bus_id ctx)) (rule_subjects (cr_rule cr))
      then False
      else (case rule_match_type (cr_rule cr) of
              Exact \<Rightarrow> vc_intention ctx = rule_pattern (cr_rule cr)
            | Substring \<Rightarrow> sublist (rule_pattern (cr_rule cr)) (vc_intention ctx)
            | Regex \<Rightarrow> (case cr_regex cr of Some re \<Rightarrow> regex_is_match rx re (vc_intention ctx) | None \<Rightarrow> False)))"

definition compile_rules :: "'r regex_engine \<Rightarrow> rule list \<Rightarrow> rule_based_voter_error + 'r compiled_rule list" where
  "compile_rules rx rules = map_result (rule_compile rx) rules"

definition evaluate_rules :: "'r regex_engine \<Rightarrow> voter_context \<Rightarrow> 'r compiled_rule list \<Rightarrow> rule_action
    \<Rightarrow> bool \<times> string \<times> string option" where
  "evaluate_rules rx ctx rules default_action =
     (case find (\<lambda>cr. rule_action (cr_rule cr) = Deny \<and> compiled_rule_matches rx cr ctx) rules of
        Some cr \<Rightarrow> (False, rule_reason (cr_rule cr), Some (rule_pattern (cr_rule cr)))
      | None \<Rightarrow>
          (case find (\<lambda>cr. rule_action (cr_rule cr) = Allow \<and> compiled_rule_matches rx cr ctx) rules of
             Some cr \<Rightarrow> (True, rule_reason (cr_rule cr), Some (rule_pattern (cr_rule cr)))
           | None \<Rightarrow> (default_action = Allow,
                      ''no matching rule - default '' @ rule_action_lowercase default_action, None)))"

definition display_rules :: "'r compiled_rule list \<Rightarrow> rule_action \<Rightarrow> string" where
  "display_rules rules default_action =
     join_with [CHR 0x0A] (map (rule_display \<circ> cr_rule) rules @ [''DEFAULT: '' @ rule_action_display default_action])"

section \<open>The wire form\<close>

definition match_type_from_proto :: "int \<Rightarrow> match_type" where
  "match_type_from_proto i = (if i = 1 then Exact else if i = 3 then Regex else Substring)"

fun match_type_to_proto :: "match_type \<Rightarrow> int" where
  "match_type_to_proto Exact = 1"
| "match_type_to_proto Substring = 2"
| "match_type_to_proto Regex = 3"

definition rule_subject_try_from :: "voter_rule_subject \<Rightarrow> rule_based_voter_error + rule_subject" where
  "rule_subject_try_from s =
     (case s of Some (ExactBusId v) \<Rightarrow> Inr (SubjectExact v)
      | Some (BusIdPrefix v) \<Rightarrow> Inr (SubjectPrefix v)
      | None \<Rightarrow> Inl InvalidRule)"

definition rule_try_from :: "voter_rule \<Rightarrow> rule_based_voter_error + rule" where
  "rule_try_from p =
     (case map_result rule_subject_try_from (vr_subjects p) of
        Inl e \<Rightarrow> Inl e
      | Inr subjects \<Rightarrow>
          Inr \<lparr>rule_pattern = vr_pattern p, rule_match_type = match_type_from_proto (vr_match_type p),
               rule_action = rule_action_from_proto (vr_action p), rule_reason = vr_reason p,
               rule_subjects = subjects\<rparr>)"

fun rule_subject_to_proto :: "rule_subject \<Rightarrow> voter_rule_subject" where
  "rule_subject_to_proto (SubjectExact v) = Some (ExactBusId v)"
| "rule_subject_to_proto (SubjectPrefix v) = Some (BusIdPrefix v)"

definition rule_to_proto :: "rule \<Rightarrow> voter_rule" where
  "rule_to_proto r =
     \<lparr>vr_pattern = rule_pattern r, vr_action = rule_action_to_proto (rule_action r),
      vr_match_type = match_type_to_proto (rule_match_type r), vr_reason = rule_reason r,
      vr_subjects = map rule_subject_to_proto (rule_subjects r)\<rparr>"

section \<open>The voter\<close>

record 'r rule_based_voter =
  rbv_rules :: "'r compiled_rule list"
  rbv_default_action :: rule_action

definition rbv_new_with_default_action :: "'r regex_engine \<Rightarrow> rule list \<Rightarrow> rule_action
    \<Rightarrow> rule_based_voter_error + 'r rule_based_voter" where
  "rbv_new_with_default_action rx rules default_action =
     (case compile_rules rx rules of
        Inl e \<Rightarrow> Inl e
      | Inr compiled \<Rightarrow> Inr \<lparr>rbv_rules = compiled, rbv_default_action = default_action\<rparr>)"

definition rbv_new :: "'r regex_engine \<Rightarrow> rule list \<Rightarrow> rule_based_voter_error + 'r rule_based_voter" where
  "rbv_new rx rules = rbv_new_with_default_action rx rules Deny"

definition rbv_evaluate :: "'r regex_engine \<Rightarrow> 'r rule_based_voter \<Rightarrow> voter_context \<Rightarrow> bool \<times> string" where
  "rbv_evaluate rx v ctx =
     (case evaluate_rules rx ctx (rbv_rules v) (rbv_default_action v) of (is_safe, reason, _) \<Rightarrow> (is_safe, reason))"

text \<open>\<open>to_msg\<close> stands for \<open>Any::to_msg::<RuleBasedVoterConfig>\<close> of the protobuf library.\<close>
definition rbv_apply_policy :: "'r regex_engine \<Rightarrow> (any_message \<Rightarrow> rule_based_voter_config option) \<Rightarrow> any_message
    \<Rightarrow> 'r rule_based_voter \<Rightarrow> 'r rule_based_voter" where
  "rbv_apply_policy rx to_msg config v =
     (case to_msg config of
        None \<Rightarrow> v
      | Some rb_config \<Rightarrow>
          (case (case map_result rule_try_from (rbc_rules rb_config) of
                   Inl e \<Rightarrow> Inl e | Inr rules \<Rightarrow> compile_rules rx rules) of
             Inl _ \<Rightarrow> v
           | Inr compiled \<Rightarrow> v\<lparr>rbv_rules := compiled,
                 rbv_default_action := rule_action_from_proto (rbc_default_action rb_config)\<rparr>))"

definition rbv_describe :: "'r rule_based_voter \<Rightarrow> string" where
  "rbv_describe v = ''RuleBasedVoter('' @ show_nat (length (rbv_rules v)) @ '' rules)''"

definition rbv_from_typed_config :: "'r regex_engine \<Rightarrow> rule_based_voter_config
    \<Rightarrow> rule_based_voter_error + 'r rule_based_voter" where
  "rbv_from_typed_config rx config =
     (case map_result rule_try_from (rbc_rules config) of
        Inl e \<Rightarrow> Inl e
      | Inr rules \<Rightarrow> rbv_new_with_default_action rx rules (rule_action_from_proto (rbc_default_action config)))"

section \<open>What the voter decides\<close>

definition matching :: "'r regex_engine \<Rightarrow> voter_context \<Rightarrow> rule_action \<Rightarrow> 'r compiled_rule list \<Rightarrow> bool" where
  "matching rx ctx a rules \<longleftrightarrow> (\<exists>cr \<in> set rules. rule_action (cr_rule cr) = a \<and> compiled_rule_matches rx cr ctx)"

lemma find_None_matching:
  "find (\<lambda>cr. rule_action (cr_rule cr) = a \<and> compiled_rule_matches rx cr ctx) rules = None \<longleftrightarrow> \<not> matching rx ctx a rules"
  by (auto simp: find_None_iff matching_def)

lemma find_Some_matching:
  "find (\<lambda>cr. rule_action (cr_rule cr) = a \<and> compiled_rule_matches rx cr ctx) rules = Some cr \<Longrightarrow>
   cr \<in> set rules \<and> rule_action (cr_rule cr) = a \<and> compiled_rule_matches rx cr ctx"
  by (auto simp: find_Some_iff)

lemma evaluate_rules_verdict:
  "fst (evaluate_rules rx ctx rules d) \<longleftrightarrow>
   \<not> matching rx ctx Deny rules \<and> (matching rx ctx Allow rules \<or> d = Allow)"
proof (cases "matching rx ctx Deny rules")
  case True
  then obtain cr where "find (\<lambda>cr. rule_action (cr_rule cr) = Deny \<and> compiled_rule_matches rx cr ctx) rules = Some cr"
    using find_None_matching by (metis not_None_eq)
  then show ?thesis using True by (simp add: evaluate_rules_def)
next
  case False
  then have "find (\<lambda>cr. rule_action (cr_rule cr) = Deny \<and> compiled_rule_matches rx cr ctx) rules = None"
    by (simp add: find_None_matching)
  then show ?thesis
    using False find_None_matching[of Allow rx ctx rules]
    by (auto simp: evaluate_rules_def split: option.split)
qed

lemma map_result_roundtrip: "(\<And>x. f (g x) = Inr x) \<Longrightarrow> map_result f (map g xs) = Inr xs"
  by (induction xs) simp_all

lemma rule_subject_roundtrip: "rule_subject_try_from (rule_subject_to_proto s) = Inr s"
  by (cases s) (simp_all add: rule_subject_try_from_def)

lemma match_type_roundtrip: "match_type_from_proto (match_type_to_proto t) = t"
  by (cases t) (simp_all add: match_type_from_proto_def)

lemma rule_action_roundtrip: "rule_action_from_proto (rule_action_to_proto a) = a"
  by (cases a) (simp_all add: rule_action_from_proto_def)

lemma rule_proto_roundtrip: "rule_try_from (rule_to_proto r) = Inr r"
  by (simp add: rule_try_from_def rule_to_proto_def map_result_roundtrip[of rule_subject_try_from rule_subject_to_proto] rule_subject_roundtrip
      match_type_roundtrip rule_action_roundtrip)

text \<open>A rule with subjects acts only on the buses its subjects name.\<close>
definition concerns :: "rule \<Rightarrow> string \<Rightarrow> bool" where
  "concerns r b \<longleftrightarrow> rule_subjects r = [] \<or> list_ex (\<lambda>s. rule_subject_matches s b) (rule_subjects r)"

lemma matches_concerns: "compiled_rule_matches rx cr ctx \<Longrightarrow> concerns (cr_rule cr) (vc_bus_id ctx)"
  by (auto simp: compiled_rule_matches_def concerns_def split: if_splits)

lemma find_filter: "(\<And>x. P x \<Longrightarrow> Q x) \<Longrightarrow> find P (filter Q xs) = find P xs"
  by (induction xs) auto

lemma evaluate_rules_concerned:
  "evaluate_rules rx ctx (filter (\<lambda>cr. concerns (cr_rule cr) (vc_bus_id ctx)) rules) d = evaluate_rules rx ctx rules d"
proof -
  have "find (\<lambda>cr. rule_action (cr_rule cr) = a \<and> compiled_rule_matches rx cr ctx)
      (filter (\<lambda>cr. concerns (cr_rule cr) (vc_bus_id ctx)) rules) =
    find (\<lambda>cr. rule_action (cr_rule cr) = a \<and> compiled_rule_matches rx cr ctx) rules" for a
    by (rule find_filter) (use matches_concerns in blast)
  then show ?thesis unfolding evaluate_rules_def by (simp only:)
qed

section \<open>Properties\<close>

text \<open>
  Deny takes precedence: an intention is approved exactly when no deny rule matches it and either an allow
  rule matches or the default is to allow.  The verdict therefore does not depend on the order of the rules.
\<close>
theorem rule_voter_deny_precedence:
  "fst (rbv_evaluate rx v ctx) \<longleftrightarrow> \<not> matching rx ctx Deny (rbv_rules v) \<and>
     (matching rx ctx Allow (rbv_rules v) \<or> rbv_default_action v = Allow)"
  using evaluate_rules_verdict[of rx ctx "rbv_rules v" "rbv_default_action v"]
  by (cases "evaluate_rules rx ctx (rbv_rules v) (rbv_default_action v)") (simp add: rbv_evaluate_def)

text \<open>
  Rules act only on the buses their subjects name: dropping every rule whose subjects do not cover a bus
  changes neither the verdict, the reason nor the reported pattern on that bus.
\<close>
theorem rule_subjects_confine:
  "evaluate_rules rx ctx (filter (\<lambda>cr. concerns (cr_rule cr) (vc_bus_id ctx)) rules) d = evaluate_rules rx ctx rules d"
  by (rule evaluate_rules_concerned)

text \<open>
  Installing a policy message in a running voter is all or nothing and agrees with building a fresh voter
  from the same configuration: a message that does not decode, or a rule that does not compile, changes nothing.
\<close>
theorem apply_policy_all_or_nothing:
  "rbv_apply_policy rx to_msg config v =
     (case to_msg config of
        None \<Rightarrow> v
      | Some c \<Rightarrow> (case rbv_from_typed_config rx c of Inl _ \<Rightarrow> v | Inr v' \<Rightarrow> v'))"
  by (auto simp: rbv_apply_policy_def rbv_from_typed_config_def rbv_new_with_default_action_def
      split: option.split sum.split)

end
