(* ===== verification/Commit_Service.thy ===== *)
theory Commit_Service
  imports Engine_Live Rule_Voter
begin

text \<open>
  The commit service on top of the engine: \<open>CommitServiceV1\<close> and its error categories
  (\<open>impls/v1/src/commit_service_v1.rs\<close>, \<open>api/src/traits.rs\<close>), the voter factories
  (\<open>impls/v1/src/voter_factory.rs\<close>) and the fixed policy provider
  (\<open>impls/static_config/src/lib.rs\<close>).  Evaluating an LLM voter is a call to a remote model and stays
  a parameter; the metrics and logging wrapper around a created voter is left out.
\<close>

section \<open>Requests, outcomes and errors\<close>

record create_bus_command =
  cb_bus_id :: string

record commit_intention_command =
  ci_bus_id :: string
  ci_intention :: intention_kind

record commit_intention_outcome =
  co_approved :: bool
  co_reason :: string
  co_log_position :: int

text \<open>\<open>CommitPanicked\<close> stands for a call that unwinds, as \<open>Panicked\<close> does for the bus.\<close>
datatype commit_error = CommitBusDataLoss | CommitInvalidArgument | CommitConcurrency | CommitTimeout
  | CommitUnavailable | CommitInternal | CommitPanicked

fun commit_error_from_bus :: "bus_error \<Rightarrow> commit_error" where
  "commit_error_from_bus PositionNotFound = CommitBusDataLoss"
| "commit_error_from_bus InvalidArgument = CommitInvalidArgument"
| "commit_error_from_bus BusTimeout = CommitTimeout"
| "commit_error_from_bus Unavailable = CommitUnavailable"
| "commit_error_from_bus Internal = CommitInternal"
| "commit_error_from_bus Panicked = CommitPanicked"

fun commit_error_from_storage :: "storage_error \<Rightarrow> commit_error" where
  "commit_error_from_storage TransactionConflict = CommitConcurrency"
| "commit_error_from_storage StorageTimeout = CommitTimeout"
| "commit_error_from_storage BackendUnavailable = CommitUnavailable"
| "commit_error_from_storage InternalError = CommitInternal"

fun commit_error_from_apply :: "apply_error \<Rightarrow> commit_error" where
  "commit_error_from_apply (ApplyBus PositionNotFound) = CommitBusDataLoss"
| "commit_error_from_apply (ApplyBus BusTimeout) = CommitTimeout"
| "commit_error_from_apply (ApplyBus Unavailable) = CommitUnavailable"
| "commit_error_from_apply (ApplyStorage TransactionConflict) = CommitConcurrency"
| "commit_error_from_apply (Concurrency _) = CommitConcurrency"
| "commit_error_from_apply (ApplyStorage StorageTimeout) = CommitTimeout"
| "commit_error_from_apply (ApplyStorage BackendUnavailable) = CommitUnavailable"
| "commit_error_from_apply (StalePosition _ _) = CommitInternal"
| "commit_error_from_apply MissingHeader = CommitInternal"
| "commit_error_from_apply InvalidEngineState = CommitInternal"
| "commit_error_from_apply (MalformedPolicy _) = CommitInternal"
| "commit_error_from_apply (DeprecatedOperation _) = CommitInternal"
| "commit_error_from_apply (ApplyStorage InternalError) = CommitInternal"
| "commit_error_from_apply (ApplyBus InvalidArgument) = CommitInternal"
| "commit_error_from_apply (ApplyBus Internal) = CommitInternal"
| "commit_error_from_apply Backend = CommitInternal"
| "commit_error_from_apply (ApplyBus Panicked) = CommitPanicked"

fun commit_error_from_engine :: "engine_error \<Rightarrow> commit_error" where
  "commit_error_from_engine BusDataLoss = CommitBusDataLoss"
| "commit_error_from_engine (EngineStorage e) = commit_error_from_storage e"
| "commit_error_from_engine EngineInvalidState = CommitInternal"
| "commit_error_from_engine (Playback e) = commit_error_from_apply e"
| "commit_error_from_engine (EngineBus e) = commit_error_from_bus e"
| "commit_error_from_engine PolicyProviderFailed = CommitInternal"
| "commit_error_from_engine EngineInternal = CommitInternal"

section \<open>The service\<close>

record ('b, 'w, 'p) commit_service_v1 =
  cs_bus :: "'w agent_bus"
  cs_engine :: "('b, 'w, 'p) base_engine"

definition commit_service_v1_new :: "'w agent_bus \<Rightarrow> ('w agent_bus \<Rightarrow> ('b, 'w, 'p) base_engine) \<Rightarrow> ('b, 'w, 'p) commit_service_v1" where
  "commit_service_v1_new bus build_engine = \<lparr>cs_bus = bus, cs_engine = build_engine bus\<rparr>"

definition intention_to_payload :: "intention_kind \<Rightarrow> payload" where
  "intention_to_payload i = Some (Intention \<lparr>intention_body = Some i, policy_version_constraint = None\<rparr>)"

definition cs_create_bus :: "('b, 'w, 'p) commit_service_v1 \<Rightarrow> create_bus_command \<Rightarrow> ('w, commit_error, unit) eff" where
  "cs_create_bus cs request = map_errE commit_error_from_engine (create_bus (cs_engine cs) (cb_bus_id request))"

definition cs_commit_intention :: "('b, 'w, 'p) commit_service_v1 \<Rightarrow> commit_intention_command \<Rightarrow> 'w
    \<Rightarrow> ((commit_error + commit_intention_outcome) \<times> 'w) option" where
  "cs_commit_intention cs request w =
     map_option (\<lambda>(r, w').
         (case r of
            Inl e \<Rightarrow> Inl (commit_error_from_engine e)
          | Inr out \<Rightarrow> Inr \<lparr>co_approved = po_approved out, co_reason = po_reason out, co_log_position = po_log_position out\<rparr>,
          w'))
       (propose_intention (cs_engine cs) (ci_bus_id request) (intention_to_payload (ci_intention request)) w)"

section \<open>Voter factories\<close>

text \<open>\<open>None\<close> is the \<open>anyhow\<close> error of an unsupported or invalid config.\<close>

definition llm_config :: "voter_config \<Rightarrow> llm_voter_config option" where
  "llm_config config = (case config of Some (Llm l) \<Rightarrow> Some l | _ \<Rightarrow> None)"

definition rule_based_config :: "voter_config \<Rightarrow> rule_based_voter_config option" where
  "rule_based_config config = (case config of Some (RuleBased r) \<Rightarrow> Some r | _ \<Rightarrow> None)"

record ('r, 'w) voter_backends =
  vb_regex :: "'r regex_engine"
  vb_llm_evaluate :: "llm_voter_config \<Rightarrow> string \<Rightarrow> string \<Rightarrow> 'w \<Rightarrow> (bool \<times> string) \<times> 'w"

definition llm_factory_validate_config :: "voter_config option \<Rightarrow> voter_config option" where
  "llm_factory_validate_config config =
     (case config of None \<Rightarrow> None | Some c \<Rightarrow> (case llm_config c of None \<Rightarrow> None | Some _ \<Rightarrow> Some c))"

definition llm_factory_create_voter :: "('r, 'w) voter_backends \<Rightarrow> string \<Rightarrow> voter_config \<Rightarrow> 'w applicator option" where
  "llm_factory_create_voter vb vid c =
     (case llm_config c of
        None \<Rightarrow> None
      | Some l \<Rightarrow> Some (stateless_voter_apply \<lparr>iv_voter_id = vid, iv_config = c, iv_evaluate = vb_llm_evaluate vb l\<rparr>))"

definition rule_factory_validate_config :: "'r regex_engine \<Rightarrow> voter_config option \<Rightarrow> voter_config option" where
  "rule_factory_validate_config rx config =
     (case config of
        None \<Rightarrow> None
      | Some c \<Rightarrow>
          (case rule_based_config c of
             None \<Rightarrow> None
           | Some r \<Rightarrow> (case rbv_from_typed_config rx r of Inl _ \<Rightarrow> None | Inr _ \<Rightarrow> Some c)))"

definition rule_factory_create_voter :: "'r regex_engine \<Rightarrow> string \<Rightarrow> voter_config \<Rightarrow> 'w applicator option" where
  "rule_factory_create_voter rx vid c =
     (case rule_based_config c of
        None \<Rightarrow> None
      | Some r \<Rightarrow>
          (case rbv_from_typed_config rx r of
             Inl _ \<Rightarrow> None
           | Inr v \<Rightarrow> Some (stateless_voter_apply \<lparr>iv_voter_id = vid, iv_config = c,
                 iv_evaluate = (\<lambda>b t w. (rbv_evaluate rx v \<lparr>vc_bus_id = b, vc_intention = t\<rparr>, w))\<rparr>)))"

definition delegating_validate_config :: "('r, 'w) voter_backends \<Rightarrow> voter_config option \<Rightarrow> voter_config option" where
  "delegating_validate_config vb config =
     (case config of
        None \<Rightarrow> None
      | Some c \<Rightarrow>
          (case c of
             Some (Llm _) \<Rightarrow> llm_factory_validate_config (Some c)
           | Some (RuleBased _) \<Rightarrow> rule_factory_validate_config (vb_regex vb) (Some c)
           | Some (Custom _) \<Rightarrow> None
           | None \<Rightarrow> None))"

definition delegating_create_voter :: "('r, 'w) voter_backends \<Rightarrow> string \<Rightarrow> voter_config \<Rightarrow> 'w applicator option" where
  "delegating_create_voter vb vid c =
     (case c of
        Some (Llm _) \<Rightarrow> llm_factory_create_voter vb vid c
      | Some (RuleBased _) \<Rightarrow> rule_factory_create_voter (vb_regex vb) vid c
      | Some (Custom _) \<Rightarrow> None
      | None \<Rightarrow> None)"

definition delegating_voter_factory :: "('r, 'w) voter_backends \<Rightarrow> 'w voter_factory" where
  "delegating_voter_factory vb =
     \<lparr>vf_validate_config = delegating_validate_config vb, vf_create_voter = delegating_create_voter vb\<rparr>"

section \<open>The fixed policy provider\<close>

definition STATIC_VERSION :: int where "STATIC_VERSION = 0"

record static_config_policy_provider =
  sc_decider_policy :: decider_policy
  sc_voters :: "voter_config hash_map"
  sc_validate_policy :: "policy_state \<Rightarrow> unit option"

definition static_config_new :: "decider_policy \<Rightarrow> voter_config list \<Rightarrow> (policy_state \<Rightarrow> unit option)
    \<Rightarrow> static_config_policy_provider" where
  "static_config_new decider_policy voter_configs validate_policy =
     \<lparr>sc_decider_policy = decider_policy,
      sc_voters = fold (\<lambda>(i, config). hm_insert (''static-voter-'' @ show_nat i) config) (enumerate 0 voter_configs) [],
      sc_validate_policy = validate_policy\<rparr>"

definition static_config_default :: static_config_policy_provider where
  "static_config_default = static_config_new OnByDefault [] (\<lambda>_. Some ())"

definition static_config_read :: "static_config_policy_provider \<Rightarrow> string \<Rightarrow> ('w, unit, versioned_policy_state) eff" where
  "static_config_read sc bus_id =
     (let state = \<lparr>pol_decider_policy = Some (decider_policy_as_i32 (sc_decider_policy sc)), pol_voters = sc_voters sc\<rparr>
      in case sc_validate_policy sc state of
           None \<Rightarrow> raise ()
         | Some _ \<Rightarrow> ret \<lparr>vps_state = state, vps_version = STATIC_VERSION\<rparr>)"

section \<open>Validated configs can be built\<close>

lemma delegating_validate_create:
  "delegating_validate_config vb (Some c) = (if delegating_create_voter vb vid c = None then None else Some c)"
  by (auto simp: delegating_validate_config_def delegating_create_voter_def llm_factory_validate_config_def
      llm_factory_create_voter_def rule_factory_validate_config_def rule_factory_create_voter_def llm_config_def
      rule_based_config_def split: option.split voter_config_kind.split sum.split)

text \<open>Voters of a replayed policy pass validation, so the engine can always build them.\<close>
definition voters_valid :: "(voter_config option \<Rightarrow> voter_config option) \<Rightarrow> (string \<rightharpoonup> voter_config) \<Rightarrow> bool" where
  "voters_valid check m \<longleftrightarrow> (\<forall>c \<in> ran m. check (Some c) \<noteq> None)"

text \<open>Validation returns a config that passes validation again.\<close>
definition check_stable :: "(voter_config option \<Rightarrow> voter_config option) \<Rightarrow> bool" where
  "check_stable check \<longleftrightarrow> (\<forall>c c'. check c = Some c' \<longrightarrow> check (Some c') \<noteq> None)"

lemma op_effect_valid:
  assumes "check_stable check" "voters_valid check m"
  shows "voters_valid check (op_effect check kop m)"
  using assms
  by (auto simp: voters_valid_def check_stable_def op_effect_def ran_def split: option.splits voter_op_kind.splits)

lemma fold_op_effect_valid:
  "check_stable check \<Longrightarrow> voters_valid check m \<Longrightarrow> voters_valid check (fold (op_effect check) ops m)"
  by (induction ops arbitrary: m) (auto intro: op_effect_valid)

lemma entry_view_valid:
  assumes "check_stable check" "voters_valid check (pv_voters v)" "entry_view check v e pos = Some v'"
  shows "voters_valid check (pv_voters v')"
  using assms(2,3) fold_op_effect_valid[OF assms(1,2)]
  by (auto simp: entry_view_def batch_view_def split: option.splits payload_kind.splits control_kind.splits
      base_engine_control_kind.splits if_splits)

lemma replay_valid:
  assumes "check_stable check" "replay check es n = Some v"
  shows "voters_valid check (pv_voters v)"
  using assms(2)
proof (induction n arbitrary: v)
  case 0
  then show ?case by (auto simp: initial_view_def voters_valid_def)
next
  case (Suc n)
  then show ?case using entry_view_valid[OF assms(1)] by (auto split: option.splits)
qed

lemma build_voters_ok:
  assumes "hm_wf (es_voters st)"
    and "\<And>vid c. hm_get (es_voters st) vid = Some c \<Longrightarrow> vf_create_voter (rt_voter_factory rt) vid c \<noteq> None"
  shows "\<exists>vs. build_voters rt st = Inr vs"
proof (cases "build_voters rt st")
  case (Inl e)
  then obtain vid c where "(vid, c) \<in> set (state_voter_configs st)" "vf_create_voter (rt_voter_factory rt) vid c = None"
    unfolding build_voters_def by (auto dest!: map_result_ErrD split: option.splits)
  then show ?thesis using assms by (auto simp: state_voter_configs_def)
qed simp

lemma delegating_check_stable: "check_stable (delegating_validate_config vb)"
  unfolding check_stable_def
proof (intro allI impI)
  fix c c' assume v: "delegating_validate_config vb c = Some c'"
  then obtain d where d: "c = Some d" by (cases c) (simp_all add: delegating_validate_config_def)
  then have "c' = d" using v delegating_validate_create[of vb d undefined] by (simp split: if_splits)
  then show "delegating_validate_config vb (Some c') \<noteq> None" using v d by simp
qed

lemma replayed_voters_build:
  assumes "rt_voter_factory rt = delegating_voter_factory vb" "hm_wf (es_voters st)"
    and "replay (delegating_validate_config vb) es n = Some (view_of st)"
  shows "\<exists>vs. build_voters rt st = Inr vs"
proof (rule build_voters_ok[OF assms(2)])
  fix vid c assume "hm_get (es_voters st) vid = Some c"
  then have "c \<in> ran (pv_voters (view_of st))" by (auto simp: view_of_def ran_def)
  then have "delegating_validate_config vb (Some c) \<noteq> None"
    using replay_valid[OF delegating_check_stable assms(3)] unfolding voters_valid_def by blast
  then show "vf_create_voter (rt_voter_factory rt) vid c \<noteq> None"
    using assms(1) delegating_validate_create[of vb c vid] by (auto simp: delegating_voter_factory_def split: if_splits)
qed

section \<open>The fixed provider's voter ids\<close>

definition static_id :: "nat \<Rightarrow> string" where
  "static_id i = ''static-voter-'' @ show_nat i"

lemma static_id_inject [simp]: "static_id i = static_id j \<longleftrightarrow> i = j"
  by (simp add: static_id_def)

definition static_voters_of :: "nat \<Rightarrow> voter_config list \<Rightarrow> voter_config hash_map \<Rightarrow> voter_config hash_map" where
  "static_voters_of k xs m = fold (\<lambda>(i, config). hm_insert (''static-voter-'' @ show_nat i) config) (enumerate k xs) m"

lemma static_voters_of_simps [simp]:
  "static_voters_of k [] m = m"
  "static_voters_of k (x # xs) m = static_voters_of (Suc k) xs (hm_insert (static_id k) x m)"
  by (simp_all add: static_voters_of_def static_id_def)

lemma static_voters_of_wf: "hm_wf m \<Longrightarrow> hm_wf (static_voters_of k xs m)"
  by (induction xs arbitrary: k m) simp_all

lemma static_voters_of_get:
  "hm_get (static_voters_of k xs m) (static_id i) =
     (if k \<le> i \<and> i < k + length xs then Some (xs ! (i - k)) else hm_get m (static_id i))"
proof (induction xs arbitrary: k m)
  case (Cons x xs)
  then show ?case by (cases "i = k") (auto simp: nth_Cons' Suc_diff_le)
qed auto

lemma static_voters_of_only:
  "hm_get (static_voters_of k xs m) key = Some c \<Longrightarrow> hm_get m key = Some c \<or> (\<exists>i < length xs. key = static_id (k + i))"
proof (induction xs arbitrary: k m)
  case (Cons x xs)
  have "hm_get (hm_insert (static_id k) x m) key = Some c \<or> (\<exists>i < length xs. key = static_id (Suc k + i))"
    using Cons.prems unfolding static_voters_of_simps by (rule Cons.IH)
  then consider "key = static_id (k + 0)" | "hm_get m key = Some c" | i where "i < length xs" "key = static_id (k + Suc i)"
    by (auto split: if_splits)
  then show ?case
  proof cases
    case (3 i)
    then show ?thesis by (intro disjI2 exI[of _ "Suc i"]) simp
  qed (auto intro: exI[of _ 0])
qed simp

lemma static_voters:
  "hm_wf (sc_voters (static_config_new d cs f))"
  "i < length cs \<Longrightarrow> hm_get (sc_voters (static_config_new d cs f)) (static_id i) = Some (cs ! i)"
  "hm_get (sc_voters (static_config_new d cs f)) key = Some c \<Longrightarrow> \<exists>i < length cs. key = static_id i"
  using static_voters_of_wf[of "[]" 0 cs] static_voters_of_get[of 0 cs "[]" i] static_voters_of_only[of 0 cs "[]" key c]
  by (simp_all add: static_config_new_def static_voters_of_def)

section \<open>Creating a bus again\<close>

lemma planned_initially: "plan policy_state_default None desired = Inr (Some batch) \<Longrightarrow> pb_expected_current_version batch = None"
  by (auto simp: plan_def Let_def split: option.splits sum.splits if_splits)

lemma batch_not_due_view:
  assumes "pv_version v \<noteq> None" "pb_expected_current_version batch = None"
    and "entry_payload e = Some (policy_batch_payload batch)"
  shows "entry_view check v e pos = Some v"
  using assms by (auto simp: entry_view_def inner_payload_def policy_batch_payload_def batch_due_def)

context calm_node
begin

text \<open>Creating a bus that already has entries only appends a batch that a log with a policy ignores.\<close>
lemma create_bus_again:
  assumes "create_bus (node_engine nd) b w = (r, w')" "mem_log w b \<noteq> []"
  shows "ew_data w' = ew_data w \<and> (mem_log w' b = mem_log w b \<or> (\<exists>e. mem_log w' b = mem_log w b @ [e] \<and>
    (\<forall>check v pos. pv_version v \<noteq> None \<longrightarrow> entry_view check v e pos = Some v)))"
proof -
  let ?mb = "\<lparr>mb_environment = nd_environment nd, mb_ttl = nd_ttl nd\<rparr>"
  obtain p w1 where prov: "nd_policy_provider nd b w = (p, w1)" by fastforce
  have un: "untouched w w1" using calm prov unfolding node_calm_def by (metis movesD)
  show ?thesis
  proof (cases "\<exists>desired batch. p = Inr desired \<and> plan policy_state_default None desired = Inr (Some batch)")
    case False
    then have "w' = w1"
      using assms(1) prov by (auto simp: create_bus_def eff_defs node_engine_def split: sum.splits option.splits prod.splits)
    then show ?thesis using un by (simp add: untouched_def mem_log_def)
  next
    case True
    then obtain desired batch where p: "p = Inr desired" and pl: "plan policy_state_default None desired = Inr (Some batch)"
      by blast
    let ?req = "\<lparr>ar_bus_id = Some b, ar_payload = Some (policy_batch_payload batch)\<rparr>"
    have len: "stored (mw_buses w1) b \<noteq> []" using assms(2) un by (simp add: untouched_def mem_log_def)
    have w': "w' = snd (mem_append ?mb ?req w1)"
      using assms(1) prov p pl len
      by (cases rule: mem_append_result[OF clock_keeps_world_buses[OF clk], of ?req w1])
        (auto simp: create_bus_def eff_defs node_engine_def node_runtime_def memory_bus_def split: if_splits)
    have data: "ew_data w' = ew_data w" using mem_append_data[OF clk, of ?req w1] w' un by (simp add: untouched_def)
    have "mem_log w' b = mem_log w b \<or> (\<exists>e. mem_log w' b = mem_log w b @ [e] \<and> entry_payload e = Some (policy_batch_payload batch))"
      by (cases rule: mem_append_result[OF clock_keeps_world_buses[OF clk], of ?req w1])
        (use w' un in \<open>auto simp: mem_log_def untouched_def\<close>)
    then show ?thesis using data batch_not_due_view[OF _ planned_initially[OF pl]] by blast
  qed
qed

end

section \<open>Properties\<close>

lemma calm_nodeI: "node_ok nd \<Longrightarrow> node_calm nd \<Longrightarrow> calm_node nd"
  by (simp add: calm_node_def ok_node_def calm_node_axioms_def)

text \<open>
  C3. Committing an intention terminates with an outcome or an error on every node whose voters, clock and policy
  provider do not append intentions of their own, from every world whose checkpoints agree with the logs.
\<close>
theorem commit_intention_returns:
  assumes "node_ok nd" "node_calm nd" "node_good nd w" "decider_store_ok nd w"
  shows "\<exists>r w'. cs_commit_intention (commit_service_v1_new bus (\<lambda>_. node_engine nd)) request w = Some (r, w')"
  using calm_node.propose_returns[OF calm_nodeI, OF assms, of "ci_bus_id request" "intention_to_payload (ci_intention request)"]
  by (auto simp: cs_commit_intention_def commit_service_v1_new_def)

definition quiet_policy :: versioned_policy_state where
  "quiet_policy = \<lparr>vps_state = \<lparr>pol_decider_policy = Some 2, pol_voters = []\<rparr>, vps_version = 0\<rparr>"

definition quiet_node :: "(wire, sim_world) engine_node" where
  "quiet_node = sim_node (\<lambda>_ _. (True, [])) quiet_policy"

definition quiet_bus :: "sim_world agent_bus" where
  "quiet_bus = memory_bus \<lparr>mb_environment = nd_environment quiet_node, mb_ttl = None\<rparr>"

theorem commit_intention_returns_witness:
  "\<exists>r w'. cs_commit_intention (commit_service_v1_new quiet_bus (\<lambda>_. node_engine quiet_node))
     \<lparr>ci_bus_id = ''bus'', ci_intention = StringIntention ''ls''\<rparr> sim_world_empty = Some (r, w')"
  unfolding quiet_node_def
  by (rule commit_intention_returns[OF sim_node_ok sim_node_calm sim_world_empty_good sim_world_empty_store])

text \<open>
  Voters that reached the engine's state through the log can always be built: the factories create a voter
  for every configuration they validated, so replaying a log never leaves a bus without its voters.
\<close>
theorem replayed_voters_buildable:
  assumes "rt_voter_factory rt = delegating_voter_factory vb" "hm_wf (es_voters st)"
    and "replay (delegating_validate_config vb) es n = Some (view_of st)"
  shows "\<exists>vs. build_voters rt st = Inr vs"
  using replayed_voters_build[OF assms] .

definition no_regex :: "unit regex_engine" where
  "no_regex = \<lparr>regex_new = (\<lambda>_. None), regex_is_match = (\<lambda>_ _. False)\<rparr>"

definition plain_backends :: "(unit, sim_world) voter_backends" where
  "plain_backends = \<lparr>vb_regex = no_regex, vb_llm_evaluate = (\<lambda>_ _ _ w. ((True, []), w))\<rparr>"

definition allow_ls :: voter_config where
  "allow_ls = Some (RuleBased \<lparr>rbc_rules = [\<lparr>vr_pattern = ''ls'', vr_action = 1, vr_match_type = 1, vr_reason = [],
     vr_subjects = []\<rparr>], rbc_default_action = 2\<rparr>)"

definition allow_ls_batch :: policy_batch where
  "allow_ls_batch = \<lparr>pb_decider_policy = Some 2, pb_voter_ops = [(''v'', Some (AddOp (Some allow_ls)))],
     pb_expected_current_version = None, pb_new_version = 0\<rparr>"

definition allow_ls_state :: per_bus_engine_state where
  "allow_ls_state = \<lparr>es_voter_configs = [], es_voters = [(''v'', allow_ls)],
     es_decider = Some \<lparr>vp_policy = 2, vp_id = 0\<rparr>, es_applied_policy_version = Some 0\<rparr>"

theorem replayed_voters_buildable_witness:
  "\<exists>vs. build_voters ((node_runtime quiet_node)\<lparr>rt_voter_factory := delegating_voter_factory plain_backends\<rparr>) allow_ls_state = Inr vs"
proof (rule replayed_voters_buildable[where vb = plain_backends and n = 1 and es = "[batch_entry allow_ls_batch]"])
  have "delegating_validate_config plain_backends (Some allow_ls) = Some allow_ls" by code_simp
  then show "replay (delegating_validate_config plain_backends) [batch_entry allow_ls_batch] 1 = Some (view_of allow_ls_state)"
    by (simp add: entry_view_def inner_payload_def batch_entry_def policy_batch_payload_def batch_due_def initial_view_def
        allow_ls_batch_def batch_view_def op_valid_def op_effect_def decider_policy_try_from_def view_of_def allow_ls_state_def
        fun_eq_iff)
qed (simp_all add: allow_ls_state_def)

text \<open>
  Creating a bus that already has entries writes no checkpoint and appends at most one entry, which leaves
  the policy of a log that has one as it is.
\<close>
theorem create_bus_again_harmless:
  assumes "node_ok nd" "node_calm nd" "mem_log w b \<noteq> []"
    and "cs_create_bus (commit_service_v1_new bus (\<lambda>_. node_engine nd)) \<lparr>cb_bus_id = b\<rparr> w = (r, w')"
  shows "ew_data w' = ew_data w \<and> (mem_log w' b = mem_log w b \<or> (\<exists>e. mem_log w' b = mem_log w b @ [e] \<and>
    (\<forall>check v pos. pv_version v \<noteq> None \<longrightarrow> entry_view check v e pos = Some v)))"
proof -
  obtain r0 where "create_bus (node_engine nd) b w = (r0, w')"
    using assms(4) by (auto simp: cs_create_bus_def commit_service_v1_new_def map_errE_def split: prod.splits sum.splits)
  from calm_node.create_bus_again[OF calm_nodeI[OF assms(1,2)] this assms(3)] show ?thesis .
qed

definition created_once :: sim_world where
  "created_once = snd (create_bus (node_engine quiet_node) ''bus'' sim_world_empty)"

theorem create_bus_again_harmless_witness:
  "ew_data (snd (cs_create_bus (commit_service_v1_new quiet_bus (\<lambda>_. node_engine quiet_node)) \<lparr>cb_bus_id = ''bus''\<rparr> created_once)) =
   ew_data created_once"
proof -
  have "length (mem_log created_once ''bus'') = 1" by code_simp
  then have "mem_log created_once ''bus'' \<noteq> []" by auto
  from create_bus_again_harmless[of quiet_node, OF _ _ this] show ?thesis
    unfolding quiet_node_def using sim_node_ok sim_node_calm by (metis prod.collapse)
qed

text \<open>
  The fixed policy provider installs exactly the configured voters, under pairwise different ids: the id with
  number \<open>i\<close> holds the \<open>i\<close>-th configuration, and there are no other ids.
\<close>
theorem static_config_installs_all:
  "hm_get (sc_voters (static_config_new d cs f)) key = Some c \<longleftrightarrow> (\<exists>i. i < length cs \<and> key = static_id i \<and> c = cs ! i)"
  using static_voters(2)[of _ cs d f] static_voters(3)[of d cs f key c] by auto

end
