(* ===== verification/Inmem_Service.thy ===== *)
theory Inmem_Service
  imports Commit_Service
begin

text \<open>
  The stand-alone in-memory commit service (\<open>impls/inmem/src/lib.rs\<close>): it has no engine, decides inline and
  replays the log of an in-memory bus from a per-bus \<open>ReplayState\<close>.  The two shared hash maps extend the world
  of the in-memory bus.  The lemmas show that a commit returns, that its outcome is the first logged decision,
  and that the replayed policy is the one the engine computes from the same log.
\<close>

section \<open>State\<close>

record replay_state =
  rs_next_position :: int
  rs_policy :: "(int \<times> decider_policy) option"
  rs_pending :: "int option"

definition replay_state_default :: replay_state where
  "replay_state_default = \<lparr>rs_next_position = 0, rs_policy = None, rs_pending = None\<rparr>"

record inmem_world = mem_world +
  iw_policy_state :: "string \<rightharpoonup> versioned_policy_state"
  iw_replay_state :: "string \<rightharpoonup> replay_state"

record ('w, 'p) inmem_service =
  ims_bus :: "'w mem_bus"
  ims_policy_provider :: "string \<Rightarrow> ('w, 'p, versioned_policy_state) eff"

definition inmem_with_policy_provider :: "'w environment \<Rightarrow> (string \<Rightarrow> ('w, 'p, versioned_policy_state) eff) \<Rightarrow> ('w, 'p) inmem_service" where
  "inmem_with_policy_provider env provider = \<lparr>ims_bus = \<lparr>mb_environment = env, mb_ttl = None\<rparr>, ims_policy_provider = provider\<rparr>"

definition inmem_new :: "'w environment \<Rightarrow> ('w, unit) inmem_service" where
  "inmem_new env = inmem_with_policy_provider env (static_config_read static_config_default)"

text \<open>\<open>with_ttl\<close> replaces the bus: the new one starts empty.\<close>
definition inmem_with_ttl :: "nat \<Rightarrow> ('z inmem_world_scheme, 'p) inmem_service \<Rightarrow> 'z inmem_world_scheme
    \<Rightarrow> ('z inmem_world_scheme, 'p) inmem_service \<times> 'z inmem_world_scheme" where
  "inmem_with_ttl ttl svc w =
     (svc\<lparr>ims_bus := \<lparr>mb_environment = mb_environment (ims_bus svc), mb_ttl = Some ttl\<rparr>\<rparr>, w\<lparr>mw_buses := Map.empty\<rparr>)"

section \<open>Payloads\<close>

definition im_decision_payload :: "int \<Rightarrow> bool \<Rightarrow> string \<Rightarrow> payload" where
  "im_decision_payload position approved reason =
     Some (if approved then Commit \<lparr>commit_intention_id = position, commit_reason = reason\<rparr>
           else Abort \<lparr>abort_intention_id = position, abort_reason = reason\<rparr>)"

definition im_intention_to_payload :: "intention_kind \<Rightarrow> int \<Rightarrow> payload" where
  "im_intention_to_payload i policy_version =
     Some (Intention \<lparr>intention_body = Some i, policy_version_constraint = Some (MinimumPolicyVersion policy_version)\<rparr>)"

definition get_decider_policy :: "policy_state \<Rightarrow> decider_policy option" where
  "get_decider_policy state =
     (case pol_decider_policy state of None \<Rightarrow> None | Some raw \<Rightarrow> decider_policy_try_from raw)"

definition logged_outcome :: "bus_entry \<Rightarrow> int \<Rightarrow> commit_intention_outcome option" where
  "logged_outcome entry position =
     (case inner_payload entry of
        Some (Commit c) \<Rightarrow>
          if commit_intention_id c = position
          then Some \<lparr>co_approved = True, co_reason = commit_reason c, co_log_position = position\<rparr> else None
      | Some (Abort a) \<Rightarrow>
          if abort_intention_id a = position
          then Some \<lparr>co_approved = False, co_reason = abort_reason a, co_log_position = position\<rparr> else None
      | _ \<Rightarrow> None)"

section \<open>Replaying an entry\<close>

text \<open>The three non-trivial arms of \<open>ReplayState::process_entry\<close>.\<close>

definition process_policy_batch :: "replay_state \<Rightarrow> policy_batch \<Rightarrow> commit_error + payload option \<times> replay_state" where
  "process_policy_batch st batch =
     (if pb_expected_current_version batch = map_option fst (rs_policy st) \<and>
         (case pb_expected_current_version batch of None \<Rightarrow> True | Some current \<Rightarrow> current < pb_new_version batch)
      then
        (case pb_decider_policy batch of
           Some raw \<Rightarrow>
             (case decider_policy_try_from raw of
                None \<Rightarrow> Inl CommitInternal
              | Some policy \<Rightarrow> Inr (None, st\<lparr>rs_pending := None, rs_policy := Some (pb_new_version batch, policy)\<rparr>))
         | None \<Rightarrow>
             Inr (None, st\<lparr>rs_policy := Some (pb_new_version batch,
               case rs_policy st of None \<Rightarrow> OnByDefault | Some (_, policy) \<Rightarrow> policy)\<rparr>))
      else Inr (None, st))"

definition constraint_met :: "policy_version_constraint option \<Rightarrow> int option \<Rightarrow> bool" where
  "constraint_met c version =
     (case c of
        Some (RequiredPolicyVersion required) \<Rightarrow> version = Some required
      | Some (MinimumPolicyVersion minimum) \<Rightarrow> (case version of None \<Rightarrow> False | Some v \<Rightarrow> minimum \<le> v)
      | None \<Rightarrow> True)"

definition im_process_intention :: "replay_state \<Rightarrow> intention \<Rightarrow> int \<Rightarrow> payload option \<times> replay_state" where
  "im_process_intention st i position =
     (if \<not> constraint_met (policy_version_constraint i) (map_option fst (rs_policy st)) then
        (Some (im_decision_payload position False ''policy version constraint not satisfied''), st)
      else
        (case (case rs_policy st of None \<Rightarrow> OnByDefault | Some (_, policy) \<Rightarrow> policy) of
           OnByDefault \<Rightarrow>
             (Some (im_decision_payload position True ''approved: ON_BY_DEFAULT policy; in-memory service does not run voters''), st)
         | OffByDefault \<Rightarrow>
             (Some (im_decision_payload position False ''denied: OFF_BY_DEFAULT policy; in-memory service does not run voters''), st)
         | FirstBooleanWins \<Rightarrow> (None, st\<lparr>rs_pending := Some position\<rparr>)))"

definition im_process_vote :: "replay_state \<Rightarrow> vote \<Rightarrow> payload option \<times> replay_state" where
  "im_process_vote st v =
     (if rs_pending st = Some (vote_intention_id v) then
        (case abstract_vote v of
           Some (Some (BooleanVote approved)) \<Rightarrow>
             (Some (im_decision_payload (vote_intention_id v) approved
                (if vote_reason v = [] then ''decided by policy'' else vote_reason v)), st\<lparr>rs_pending := None\<rparr>)
         | _ \<Rightarrow> (None, st))
      else (None, st))"

definition im_process_entry :: "replay_state \<Rightarrow> bus_entry \<Rightarrow> int \<Rightarrow> commit_error + payload option \<times> replay_state" where
  "im_process_entry st entry position =
     (case inner_payload entry of
        Some (Control (Some (BaseEngineControl (Some (PolicyBatch batch))))) \<Rightarrow> process_policy_batch st batch
      | Some (Intention i) \<Rightarrow> Inr (im_process_intention st i position)
      | Some (Vote v) \<Rightarrow> Inr (im_process_vote st v)
      | Some (Commit c) \<Rightarrow> Inr (None, if rs_pending st = Some (commit_intention_id c) then st\<lparr>rs_pending := None\<rparr> else st)
      | Some (Abort a) \<Rightarrow> Inr (None, if rs_pending st = Some (abort_intention_id a) then st\<lparr>rs_pending := None\<rparr> else st)
      | _ \<Rightarrow> Inr (None, st))"

section \<open>Replaying the log\<close>

definition append_output :: "('z inmem_world_scheme, 'p) inmem_service \<Rightarrow> string \<Rightarrow> payload \<Rightarrow> ('z inmem_world_scheme, commit_error, unit) eff" where
  "append_output svc bus_id p =
     bindE (map_errE commit_error_from_bus (mem_append (ims_bus svc) \<lparr>ar_bus_id = Some bus_id, ar_payload = Some p\<rparr>)) (\<lambda>_. ret ())"

text \<open>The body of the \<open>for\<close> loop: the entry's effect, and the outcome if it decides the intention.  Indexing
  the map and \<open>expect\<close> panic where the bus has no replay state.\<close>
definition replay_entry :: "('z inmem_world_scheme, 'p) inmem_service \<Rightarrow> string \<Rightarrow> int \<Rightarrow> bus_entry
    \<Rightarrow> ('z inmem_world_scheme, commit_error, int \<times> commit_intention_outcome option) eff" where
  "replay_entry svc bus_id intention_position entry =
     (case entry_header entry of
        None \<Rightarrow> raise CommitInternal
      | Some h \<Rightarrow>
          bindE (asks (\<lambda>w. iw_replay_state w bus_id)) (\<lambda>found.
            case found of
              None \<Rightarrow> raise CommitPanicked
            | Some state \<Rightarrow>
                bindE (if rs_next_position state \<le> log_position h then
                    bindE (liftR (im_process_entry state entry (log_position h))) (\<lambda>(output, next_state).
                    bindE (case output of None \<Rightarrow> ret () | Some p \<Rightarrow> append_output svc bus_id p) (\<lambda>_.
                    bindE (asks (\<lambda>w. iw_replay_state w bus_id)) (\<lambda>now.
                      case now of
                        None \<Rightarrow> raise CommitPanicked
                      | Some current \<Rightarrow>
                          modifyE (\<lambda>w. if rs_next_position current = rs_next_position state
                            then w\<lparr>iw_replay_state := (iw_replay_state w)(bus_id \<mapsto> next_state\<lparr>rs_next_position := log_position h + 1\<rparr>)\<rparr>
                            else w))))
                  else ret ())
                (\<lambda>_. ret (log_position h + 1, logged_outcome entry intention_position))))"

primrec replay_entries :: "('z inmem_world_scheme, 'p) inmem_service \<Rightarrow> string \<Rightarrow> int \<Rightarrow> bus_entry list \<Rightarrow> int
    \<Rightarrow> ('z inmem_world_scheme, commit_error, commit_intention_outcome + int) eff" where
  "replay_entries svc bus_id intention_position [] position = ret (Inr position)"
| "replay_entries svc bus_id intention_position (e # es) position =
     bindE (replay_entry svc bus_id intention_position e) (\<lambda>(next_position, found).
       case found of
         Some out \<Rightarrow> ret (Inl out)
       | None \<Rightarrow> replay_entries svc bus_id intention_position es next_position)"

text \<open>One iteration of \<open>while position < tail\<close>, and the loop.\<close>
definition replay_batch :: "('z inmem_world_scheme, 'p) inmem_service \<Rightarrow> string \<Rightarrow> int \<Rightarrow> int \<Rightarrow> int
    \<Rightarrow> ('z inmem_world_scheme, commit_error, commit_intention_outcome + int) eff" where
  "replay_batch svc bus_id intention_position tail position =
     bindE (map_errE commit_error_from_bus (mem_read_next (ims_bus svc)
         \<lparr>rn_bus_id = Some bus_id, rn_start_log_position = position, rn_end_log_position = tail, rn_max_entries = 64, rn_filter = None\<rparr>))
       (\<lambda>response. replay_entries svc bus_id intention_position (rr_entries response) position)"

partial_function (option) replay_to_tail :: "('z inmem_world_scheme, 'p) inmem_service \<Rightarrow> string \<Rightarrow> int \<Rightarrow> int \<Rightarrow> int
    \<Rightarrow> 'z inmem_world_scheme \<Rightarrow> ((commit_error + commit_intention_outcome + int) \<times> 'z inmem_world_scheme) option" where
  "replay_to_tail svc bus_id intention_position tail position w =
     (if position < tail then
        (case replay_batch svc bus_id intention_position tail position w of
           (Inl e, w') \<Rightarrow> Some (Inl e, w')
         | (Inr (Inl out), w') \<Rightarrow> Some (Inr (Inl out), w')
         | (Inr (Inr position'), w') \<Rightarrow> replay_to_tail svc bus_id intention_position tail position' w')
      else Some (Inr (Inr position), w))"

declare replay_to_tail.simps [code]

text \<open>The abort appended when the log is drained without a decision.\<close>
definition abort_drained :: "('z inmem_world_scheme, 'p) inmem_service \<Rightarrow> string \<Rightarrow> int \<Rightarrow> ('z inmem_world_scheme, commit_error, unit) eff" where
  "abort_drained svc bus_id intention_position =
     bindE (append_output svc bus_id (im_decision_payload intention_position False ''no decision before the log was drained'')) (\<lambda>_.
     bindE (asks (\<lambda>w. iw_replay_state w bus_id)) (\<lambda>found.
       case found of
         None \<Rightarrow> raise CommitPanicked
       | Some state \<Rightarrow>
           modifyE (\<lambda>w. if rs_pending state = Some intention_position
             then w\<lparr>iw_replay_state := (iw_replay_state w)(bus_id \<mapsto> state\<lparr>rs_pending := None\<rparr>)\<rparr> else w)))"

partial_function (option) replay_loop :: "('z inmem_world_scheme, 'p) inmem_service \<Rightarrow> string \<Rightarrow> int \<Rightarrow> int
    \<Rightarrow> 'z inmem_world_scheme \<Rightarrow> ((commit_error + commit_intention_outcome) \<times> 'z inmem_world_scheme) option" where
  "replay_loop svc bus_id intention_position position w =
     (case map_errE commit_error_from_bus (mem_check_tail (ims_bus svc) (Some bus_id)) w of
        (Inl e, w1) \<Rightarrow> Some (Inl e, w1)
      | (Inr tail, w1) \<Rightarrow>
          if tail \<le> position then
            (case abort_drained svc bus_id intention_position w1 of
               (Inl e, w2) \<Rightarrow> Some (Inl e, w2)
             | (Inr _, w2) \<Rightarrow> replay_loop svc bus_id intention_position position w2)
          else
            Option.bind (replay_to_tail svc bus_id intention_position tail position w1) (\<lambda>r.
              case r of
                (Inl e, w2) \<Rightarrow> Some (Inl e, w2)
              | (Inr (Inl out), w2) \<Rightarrow> Some (Inr out, w2)
              | (Inr (Inr position'), w2) \<Rightarrow> replay_loop svc bus_id intention_position position' w2))"

declare replay_loop.simps [code]

text \<open>\<open>entry(..).or_default()\<close>, then the loop from the earlier of the two positions.\<close>
definition im_replay :: "('z inmem_world_scheme, 'p) inmem_service \<Rightarrow> string \<Rightarrow> int
    \<Rightarrow> 'z inmem_world_scheme \<Rightarrow> ((commit_error + commit_intention_outcome) \<times> 'z inmem_world_scheme) option" where
  "im_replay svc bus_id intention_position w =
     (let state = (case iw_replay_state w bus_id of Some st \<Rightarrow> st | None \<Rightarrow> replay_state_default)
      in replay_loop svc bus_id intention_position (min (rs_next_position state) intention_position)
           (w\<lparr>iw_replay_state := (iw_replay_state w)(bus_id \<mapsto> state)\<rparr>))"

section \<open>The service\<close>

definition reconcile_policy :: "('z inmem_world_scheme, 'p) inmem_service \<Rightarrow> string \<Rightarrow> ('z inmem_world_scheme, commit_error, int) eff" where
  "reconcile_policy svc bus_id =
     bindE (map_errE (\<lambda>_. CommitInternal) (ims_policy_provider svc bus_id)) (\<lambda>desired.
     bindE (case get_decider_policy (vps_state desired) of None \<Rightarrow> raise CommitInternal | Some _ \<Rightarrow> ret ()) (\<lambda>_.
     bindE (asks (\<lambda>w. map_option vps_version (iw_policy_state w bus_id))) (\<lambda>expected_current_version.
       if (case expected_current_version of None \<Rightarrow> True | Some version \<Rightarrow> version < vps_version desired) then
         bindE (map_errE commit_error_from_bus (mem_append (ims_bus svc) \<lparr>ar_bus_id = Some bus_id,
             ar_payload = Some (policy_batch_payload \<lparr>pb_decider_policy = pol_decider_policy (vps_state desired), pb_voter_ops = [],
               pb_expected_current_version = expected_current_version, pb_new_version = vps_version desired\<rparr>)\<rparr>)) (\<lambda>_.
         bindE (modifyE (\<lambda>w. w\<lparr>iw_policy_state := (iw_policy_state w)(bus_id \<mapsto> desired)\<rparr>)) (\<lambda>_. ret (vps_version desired)))
       else ret (vps_version desired))))"

definition inmem_create_bus :: "('z inmem_world_scheme, 'p) inmem_service \<Rightarrow> create_bus_command \<Rightarrow> ('z inmem_world_scheme, commit_error, unit) eff" where
  "inmem_create_bus svc request =
     bindE (map_errE (\<lambda>_. CommitInternal) (ims_policy_provider svc (cb_bus_id request))) (\<lambda>initial.
     bindE (case get_decider_policy (vps_state initial) of None \<Rightarrow> raise CommitInternal | Some _ \<Rightarrow> ret ()) (\<lambda>_.
     bindE (map_errE commit_error_from_bus (mem_append (ims_bus svc) \<lparr>ar_bus_id = Some (cb_bus_id request),
         ar_payload = Some (policy_batch_payload \<lparr>pb_decider_policy = pol_decider_policy (vps_state initial),
           pb_voter_ops = map (\<lambda>(i, config). (i, Some (AddOp (Some config)))) (pol_voters (vps_state initial)),
           pb_expected_current_version = None, pb_new_version = vps_version initial\<rparr>)\<rparr>)) (\<lambda>position.
       if position = 0 then
         modifyE (\<lambda>w. if iw_policy_state w (cb_bus_id request) = None
           then w\<lparr>iw_policy_state := (iw_policy_state w)(cb_bus_id request \<mapsto> initial)\<rparr> else w)
       else ret ())))"

definition inmem_commit_intention :: "('z inmem_world_scheme, 'p) inmem_service \<Rightarrow> commit_intention_command
    \<Rightarrow> 'z inmem_world_scheme \<Rightarrow> ((commit_error + commit_intention_outcome) \<times> 'z inmem_world_scheme) option" where
  "inmem_commit_intention svc request w =
     (case bindE (reconcile_policy svc (ci_bus_id request)) (\<lambda>policy_version.
         map_errE commit_error_from_bus (mem_append (ims_bus svc) \<lparr>ar_bus_id = Some (ci_bus_id request),
           ar_payload = Some (im_intention_to_payload (ci_intention request) policy_version)\<rparr>)) w of
        (Inl e, w1) \<Rightarrow> Some (Inl e, w1)
      | (Inr position, w1) \<Rightarrow> im_replay svc (ci_bus_id request) position w1)"

section \<open>The replayed policy is the engine's\<close>

text \<open>A replayed policy and the view that the engine folds from the log.\<close>
definition policy_agrees :: "policy_view \<Rightarrow> (int \<times> decider_policy) option \<Rightarrow> bool" where
  "policy_agrees v p \<longleftrightarrow> pv_version v = map_option fst p \<and>
     (case pv_decider v of
        None \<Rightarrow> p = None \<or> map_option snd p = Some OnByDefault
      | Some vp \<Rightarrow> p \<noteq> None \<and> decider_policy_try_from (vp_policy vp) = map_option snd p)"

definition replayed :: "bus_entry list \<Rightarrow> replay_state \<Rightarrow> bool" where
  "replayed es st \<longleftrightarrow> 0 \<le> rs_next_position st \<and> rs_next_position st \<le> int (length es) \<and>
     (\<forall>check v. replay check es (nat (rs_next_position st)) = Some v \<longrightarrow> policy_agrees v (rs_policy st))"

definition is_decision :: "bus_entry \<Rightarrow> bool" where
  "is_decision e = (case inner_payload e of Some (Commit _) \<Rightarrow> True | Some (Abort _) \<Rightarrow> True | _ \<Rightarrow> False)"

lemma replayed_default: "replayed es replay_state_default"
  by (simp add: replayed_def replay_state_default_def policy_agrees_def initial_view_def)

lemma replayed_append: "replayed es st \<Longrightarrow> replayed (es @ ds) st"
  unfolding replayed_def using replay_prefix[of es "es @ ds"] by (auto simp: nat_le_iff)

lemma batch_agrees:
  assumes "policy_agrees v (rs_policy st)" "process_policy_batch st batch = Inr (out, st')"
    and "(if batch_due v batch then batch_view check v batch pos else Some v) = Some v'"
  shows "policy_agrees v' (rs_policy st')"
proof (cases "batch_due v batch")
  case True
  then have due: "pb_expected_current_version batch = map_option fst (rs_policy st)"
    "case pb_expected_current_version batch of None \<Rightarrow> True | Some c \<Rightarrow> c < pb_new_version batch"
    using assms(1) by (auto simp: batch_due_def policy_agrees_def)
  then show ?thesis
    using assms True
    by (cases "pb_decider_policy batch"; cases "rs_policy st")
      (auto simp: process_policy_batch_def batch_view_def policy_agrees_def split: if_splits option.splits)
next
  case False
  then have "\<not> (pb_expected_current_version batch = map_option fst (rs_policy st) \<and>
      (case pb_expected_current_version batch of None \<Rightarrow> True | Some c \<Rightarrow> c < pb_new_version batch))"
    using assms(1) by (auto simp: batch_due_def policy_agrees_def)
  then have "process_policy_batch st batch = Inr (None, st)" unfolding process_policy_batch_def by (rule if_not_P)
  then show ?thesis using assms False by simp
qed

lemma entry_agrees:
  assumes "policy_agrees v (rs_policy st)" "im_process_entry st e pos = Inr (out, st')" "entry_view check v e pos = Some v'"
  shows "policy_agrees v' (rs_policy st')"
proof (cases "\<exists>batch. inner_payload e = Some (Control (Some (BaseEngineControl (Some (PolicyBatch batch)))))")
  case True
  then obtain batch where "inner_payload e = Some (Control (Some (BaseEngineControl (Some (PolicyBatch batch)))))" by blast
  then show ?thesis using batch_agrees[of v st batch out st' check pos v'] assms
    by (simp add: im_process_entry_def entry_view_def)
next
  case False
  then have "v' = v" "rs_policy st' = rs_policy st"
    using assms(2,3)
    by (auto simp: im_process_entry_def entry_view_def im_process_intention_def im_process_vote_def
        split: option.splits payload_kind.splits control_kind.splits base_engine_control_kind.splits decider_policy.splits if_splits
          vote_type_kind.splits)
  then show ?thesis using assms(1) by simp
qed

lemma process_keeps_position: "im_process_entry st e pos = Inr (out, st') \<Longrightarrow> rs_next_position st' = rs_next_position st"
  by (auto simp: im_process_entry_def process_policy_batch_def im_process_intention_def im_process_vote_def
      split: option.splits payload_kind.splits control_kind.splits base_engine_control_kind.splits decider_policy.splits if_splits
        vote_type_kind.splits)

lemma replayed_process:
  assumes "replayed es st" "rs_next_position st = int k" "k < length es" "im_process_entry st (es ! k) (int k) = Inr (out, st')"
  shows "replayed es (st'\<lparr>rs_next_position := int k + 1\<rparr>)"
proof -
  have "policy_agrees v' (rs_policy st')" if "replay check es (Suc k) = Some v'" for check v'
    using that assms(1,2) entry_agrees[OF _ assms(4)] unfolding replayed_def by (fastforce split: option.splits)
  then show ?thesis using assms(3) by (simp add: replayed_def nat_add_distrib)
qed

lemma output_is_decision:
  assumes "im_process_entry st e pos = Inr (Some p, st')"
  shows "is_decision \<lparr>entry_header = h, entry_payload = Some p\<rparr>"
  using assms
  by (auto simp: im_process_entry_def process_policy_batch_def im_process_intention_def im_process_vote_def is_decision_def
      inner_payload_def im_decision_payload_def
      split: option.splits payload_kind.splits control_kind.splits base_engine_control_kind.splits decider_policy.splits if_splits
        vote_type_kind.splits)

text \<open>A policy batch whose decider policy is no variant: the only entry a replay cannot pass.\<close>
definition malformed :: "bus_entry \<Rightarrow> bool" where
  "malformed e = (case inner_payload e of
     Some (Control (Some (BaseEngineControl (Some (PolicyBatch batch))))) \<Rightarrow>
       (case pb_decider_policy batch of Some raw \<Rightarrow> decider_policy_try_from raw = None | None \<Rightarrow> False)
   | _ \<Rightarrow> False)"

lemma error_malformed: "im_process_entry st e pos = Inl err \<Longrightarrow> malformed e"
  by (auto simp: im_process_entry_def process_policy_batch_def malformed_def
      split: option.splits payload_kind.splits control_kind.splits base_engine_control_kind.splits if_splits)

lemma decision_not_malformed: "is_decision e \<Longrightarrow> \<not> malformed e"
  by (auto simp: is_decision_def malformed_def split: option.splits payload_kind.splits)

lemma decision_no_output: "is_decision e \<Longrightarrow> \<exists>st'. im_process_entry st e pos = Inr (None, st')"
  by (auto simp: is_decision_def im_process_entry_def split: option.splits payload_kind.splits)

section \<open>Replaying entries\<close>

text \<open>A step of the clock or the policy provider that leaves the service's state alone.\<close>
definition untouched_state :: "'z inmem_world_scheme \<Rightarrow> 'z inmem_world_scheme \<Rightarrow> bool" where
  "untouched_state w w' \<longleftrightarrow> mw_buses w' = mw_buses w \<and> iw_policy_state w' = iw_policy_state w \<and> iw_replay_state w' = iw_replay_state w"

definition state_ok :: "string \<Rightarrow> 'z inmem_world_scheme \<Rightarrow> bool" where
  "state_ok b w \<longleftrightarrow> mem_inv w \<and> (\<forall>st. iw_replay_state w b = Some st \<longrightarrow> replayed (mem_log w b) st)"

text \<open>What a replay of bus \<open>b\<close> may do: append decisions \<open>ds\<close> to its log and advance its replay state.\<close>
definition extended :: "string \<Rightarrow> 'z inmem_world_scheme \<Rightarrow> bus_entry list \<Rightarrow> 'z inmem_world_scheme \<Rightarrow> bool" where
  "extended b w ds w' \<longleftrightarrow> mem_log w' = (mem_log w)(b := mem_log w b @ ds) \<and> list_all is_decision ds \<and>
     state_ok b w' \<and> (\<forall>b'. b' \<noteq> b \<longrightarrow> iw_replay_state w' b' = iw_replay_state w b') \<and> iw_policy_state w' = iw_policy_state w"

text \<open>The replay of bus \<open>b\<close> has reached at least position \<open>k\<close>.\<close>
definition reached :: "string \<Rightarrow> nat \<Rightarrow> 'z inmem_world_scheme \<Rightarrow> bool" where
  "reached b k w \<longleftrightarrow> (\<exists>st. iw_replay_state w b = Some st \<and> int k \<le> rs_next_position st)"

lemma replay_state_update [simp]:
  "mem_log (w\<lparr>iw_replay_state := m\<rparr>) = mem_log w" "mem_inv (w\<lparr>iw_replay_state := m\<rparr>) = mem_inv w"
  "mem_log (w\<lparr>iw_policy_state := q\<rparr>) = mem_log w" "mem_inv (w\<lparr>iw_policy_state := q\<rparr>) = mem_inv w"
  by (simp_all add: mem_log_def mem_inv_def fun_eq_iff)

lemma extended_trans: "extended b w ds w1 \<Longrightarrow> extended b w1 ds' w2 \<Longrightarrow> extended b w (ds @ ds') w2"
  by (simp add: extended_def)

lemma extended_refl: "state_ok b w \<Longrightarrow> extended b w [] w"
  by (simp add: extended_def)

text \<open>What the scan of positions \<open>[k, n)\<close> finds: the outcome of the first decision there, or none.\<close>
definition scanned :: "bus_entry list \<Rightarrow> int \<Rightarrow> nat \<Rightarrow> nat \<Rightarrow> commit_intention_outcome + int \<Rightarrow> bool" where
  "scanned es ip k n r = (case r of
     Inl out \<Rightarrow> (\<exists>j \<ge> k. j < n \<and> logged_outcome (es ! j) ip = Some out \<and> (\<forall>i \<ge> k. i < j \<longrightarrow> logged_outcome (es ! i) ip = None))
   | Inr p \<Rightarrow> p = int n \<and> (\<forall>i \<ge> k. i < n \<longrightarrow> logged_outcome (es ! i) ip = None))"

lemma scanned_Suc:
  assumes "scanned es ip (Suc k) n r" "logged_outcome (es ! k) ip = None"
  shows "scanned es ip k n r"
proof -
  have none: "\<forall>i \<ge> k. i < m \<longrightarrow> logged_outcome (es ! i) ip = None" if "\<forall>i \<ge> Suc k. i < m \<longrightarrow> logged_outcome (es ! i) ip = None" for m
    using that assms(2) by (metis le_antisym not_less_eq_eq)
  show ?thesis
  proof (cases r)
    case (Inl out)
    then obtain j where "Suc k \<le> j" "j < n" "logged_outcome (es ! j) ip = Some out" "\<forall>i \<ge> Suc k. i < j \<longrightarrow> logged_outcome (es ! i) ip = None"
      using assms(1) by (auto simp: scanned_def)
    then show ?thesis using Inl none[of j] by (auto simp: scanned_def intro!: exI[of _ j])
  qed (use assms(1) none in \<open>auto simp: scanned_def\<close>)
qed

lemma scanned_prefix:
  assumes "scanned (es @ ds) ip k n r" "n \<le> length es"
  shows "scanned es ip k n r"
  using assms by (auto simp: scanned_def nth_append split: sum.splits)

lemma scanned_join:
  assumes "scanned es ip k n (Inr p)" "scanned es ip n m r" "k \<le> n"
  shows "scanned es ip k m r"
proof -
  have none: "logged_outcome (es ! i) ip = None" if "k \<le> i" "n \<le> i \<Longrightarrow> logged_outcome (es ! i) ip = None" for i
    using that assms(1) by (cases "i < n") (auto simp: scanned_def)
  show ?thesis
  proof (cases r)
    case (Inl out)
    then obtain j where "n \<le> j" "j < m" "logged_outcome (es ! j) ip = Some out" "\<forall>i \<ge> n. i < j \<longrightarrow> logged_outcome (es ! i) ip = None"
      using assms(2) by (auto simp: scanned_def)
    then show ?thesis using Inl none assms(3) by (auto simp: scanned_def intro!: exI[of _ j])
  qed (use assms(2) none in \<open>auto simp: scanned_def\<close>)
qed

lemma scanned_grow: "scanned es ip k n (Inl out) \<Longrightarrow> n \<le> m \<Longrightarrow> scanned es ip k m (Inl out)"
  by (auto simp: scanned_def)

lemma scanned_append: "scanned es ip k n r \<Longrightarrow> n \<le> length es \<Longrightarrow> scanned (es @ ds) ip k n r"
  by (auto simp: scanned_def nth_append split: sum.splits)

text \<open>The result of the loop from position \<open>k\<close>: the first decision from there on, unless the log holds an
  entry that cannot be replayed.\<close>
definition decided :: "string \<Rightarrow> int \<Rightarrow> nat \<Rightarrow> 'z inmem_world_scheme \<Rightarrow> ((commit_error + commit_intention_outcome) \<times> 'z inmem_world_scheme) option \<Rightarrow> bool" where
  "decided b ip k w res \<longleftrightarrow> (\<exists>r w' ds. res = Some (r, w') \<and> extended b w ds w' \<and>
     (\<forall>out. r = Inr out \<longrightarrow> scanned (mem_log w' b) ip k (length (mem_log w' b)) (Inl out)) \<and>
     (\<forall>e. r = Inl e \<longrightarrow> (\<exists>i \<ge> k. i < length (mem_log w b) \<and> malformed (mem_log w b ! i))))"

text \<open>Steps before the replay: they append entries to the bus that can be replayed.\<close>
definition prepared :: "string \<Rightarrow> 'z inmem_world_scheme \<Rightarrow> bus_entry list \<Rightarrow> 'z inmem_world_scheme \<Rightarrow> bool" where
  "prepared b w ds w' \<longleftrightarrow> mem_log w' = (mem_log w)(b := mem_log w b @ ds) \<and> list_all (\<lambda>d. \<not> malformed d) ds \<and> state_ok b w' \<and>
     iw_replay_state w' = iw_replay_state w"

lemma prepared_trans: "prepared b w ds w1 \<Longrightarrow> prepared b w1 ds' w2 \<Longrightarrow> prepared b w (ds @ ds') w2"
  by (simp add: prepared_def)

lemma prepared_untouched: "state_ok b w \<Longrightarrow> untouched_state w w' \<Longrightarrow> prepared b w [] w'"
proof -
  assume ok: "state_ok b w" and un: "untouched_state w w'"
  have "mem_log w' = mem_log w" using un by (intro ext) (simp add: untouched_state_def mem_log_def)
  then show ?thesis using ok un by (simp add: prepared_def untouched_state_def state_ok_def mem_inv_def)
qed

locale inmem_env =
  fixes svc :: "('z inmem_world_scheme, 'p) inmem_service"
  assumes clock: "env_unsafe_wall_time (mb_environment (ims_bus svc)) w = (t, w') \<Longrightarrow> untouched_state w w'"
    and provider: "ims_policy_provider svc b w = (r, w') \<Longrightarrow> untouched_state w w'"
    and no_ttl: "mb_ttl (ims_bus svc) = None"
begin

lemma keeps: "clock_keeps_buses (mb_environment (ims_bus svc))"
  using clock by (auto simp: clock_keeps_buses_def untouched_state_def) (metis prod.collapse)

lemma append_exact:
  assumes "valid_bus b" "mem_inv w"
  obtains w' ts where "mem_append (ims_bus svc) \<lparr>ar_bus_id = Some b, ar_payload = Some p\<rparr> w = (Inr (int (length (mem_log w b))), w')"
    "mem_log w' = (mem_log w)(b := mem_log w b @ [\<lparr>entry_header = Some \<lparr>log_position = int (length (mem_log w b)), rt_timestamp_ms = ts\<rparr>,
       entry_payload = Some p\<rparr>])"
    "mem_inv w'" "iw_policy_state w' = iw_policy_state w" "iw_replay_state w' = iw_replay_state w"
proof (cases rule: mem_append_result[OF keeps, of "\<lparr>ar_bus_id = Some b, ar_payload = Some p\<rparr>" w])
  case (1 e w1)
  then show ?thesis using assms(1) by (auto simp: mem_append_def state_append_def Let_def split: prod.splits)
next
  case (2 b' p' ts at w1)
  obtain wall w0 where wall: "env_unsafe_wall_time (mb_environment (ims_bus svc)) w = (wall, w0)" by fastforce
  have eqs: "iw_policy_state w1 = iw_policy_state w" "iw_replay_state w1 = iw_replay_state w"
    using 2(4) assms(1) wall clock[OF wall] no_ttl
    by (auto simp: mem_append_def mem_check_def untouched_state_def split: prod.splits)
  have "mem_evolves w w1" using movesD[OF mem_append_evolves[OF keeps] 2(4)] .
  then have "mem_inv w1" using assms(2) by (simp add: mem_evolves_def)
  then show ?thesis using 2 eqs by (intro that[of w1 ts]) (auto simp: mem_log_def)
qed

lemma wp_append_output:
  assumes "valid_bus b" "state_ok b w" "\<And>h. is_decision \<lparr>entry_header = h, entry_payload = Some p\<rparr>"
    and "\<And>d w'. extended b w [d] w' \<Longrightarrow> iw_replay_state w' = iw_replay_state w \<Longrightarrow> entry_payload d = Some p \<Longrightarrow> Q () w'"
  shows "wp (append_output svc b p) Q E w"
proof -
  have inv: "mem_inv w" using assms(2) by (simp add: state_ok_def)
  obtain w' ts where call: "mem_append (ims_bus svc) \<lparr>ar_bus_id = Some b, ar_payload = Some p\<rparr> w = (Inr (int (length (mem_log w b))), w')"
    and eff: "mem_log w' = (mem_log w)(b := mem_log w b @ [\<lparr>entry_header = Some \<lparr>log_position = int (length (mem_log w b)), rt_timestamp_ms = ts\<rparr>,
       entry_payload = Some p\<rparr>])"
      "mem_inv w'" "iw_policy_state w' = iw_policy_state w" "iw_replay_state w' = iw_replay_state w"
    using append_exact[OF assms(1) inv, of p] by blast
  let ?d = "\<lparr>entry_header = Some \<lparr>log_position = int (length (mem_log w b)), rt_timestamp_ms = ts\<rparr>, entry_payload = Some p\<rparr>"
  have "extended b w [?d] w'"
    using eff assms(2,3) by (auto simp: extended_def state_ok_def replayed_append)
  from assms(4)[OF this eff(4)] call show ?thesis
    by (simp add: append_output_def wp_rules wp_def[of "mem_append _ _"])
qed

lemma entry_step:
  assumes "valid_bus b" "state_ok b w" "reached b k w" "k < length (mem_log w b)"
  shows "wp (replay_entry svc b ip (mem_log w b ! k))
    (\<lambda>(n, out) w'. \<exists>ds. n = int k + 1 \<and> out = logged_outcome (mem_log w b ! k) ip \<and> extended b w ds w' \<and> reached b (Suc k) w' \<and>
       (is_decision (mem_log w b ! k) \<longrightarrow> ds = []))
    (\<lambda>_ w'. extended b w [] w' \<and> malformed (mem_log w b ! k)) w"
proof -
  let ?e = "mem_log w b ! k"
  obtain h where h: "entry_header ?e = Some h" "log_position h = int k"
    using assms(2,4) unfolding state_ok_def mem_inv_def well_numbered_def by blast
  obtain st where st: "iw_replay_state w b = Some st" "int k \<le> rs_next_position st"
    using assms(3) by (auto simp: reached_def)
  have rep: "replayed (mem_log w b) st" using assms(2) st(1) by (simp add: state_ok_def)
  show ?thesis
  proof (cases "rs_next_position st \<le> int k")
    case False
    then show ?thesis using h st extended_refl[OF assms(2)]
      by (auto simp: replay_entry_def wp_rules reached_def)
  next
    case True
    then have at: "rs_next_position st = int k" using st(2) by simp
    show ?thesis
    proof (cases "im_process_entry st ?e (int k)")
      case (Inl e)
      then have "malformed ?e" by (rule error_malformed)
      then show ?thesis using h st True Inl extended_refl[OF assms(2)] by (simp add: replay_entry_def wp_rules)
    next
      case (Inr r)
      obtain out st' where r: "r = (out, st')" by fastforce
      let ?st = "st'\<lparr>rs_next_position := int k + 1\<rparr>"
      have rep': "replayed (mem_log w b) ?st" by (rule replayed_process[OF rep at assms(4) Inr[unfolded r]])
      have upd: "extended b w ds (w'\<lparr>iw_replay_state := (iw_replay_state w')(b \<mapsto> ?st)\<rparr>)" if "extended b w ds w'" for ds w'
        using that rep' by (auto simp: extended_def state_ok_def replayed_append)
      show ?thesis
      proof (cases out)
        case None
        then show ?thesis using h st True Inr r upd[OF extended_refl[OF assms(2)]]
          by (auto simp: replay_entry_def wp_rules reached_def)
      next
        case (Some p)
        have dec: "is_decision \<lparr>entry_header = h', entry_payload = Some p\<rparr>" for h'
          using output_is_decision Inr r Some by blast
        have "\<not> is_decision ?e" using decision_no_output[of ?e st "int k"] Inr r Some by auto
        then show ?thesis using h st True Inr r Some upd
          by (auto simp: replay_entry_def wp_rules reached_def at intro!: wp_append_output[OF assms(1,2) dec]) (metis upd)
      qed
    qed
  qed
qed

lemma entries_step:
  assumes "valid_bus b" "state_ok b w" "reached b k w" "k \<le> n" "n \<le> length (mem_log w b)"
  shows "wp (replay_entries svc b ip (segment (mem_log w b) (int k) (int n)) (int k))
    (\<lambda>r w'. \<exists>ds. scanned (mem_log w b) ip k n r \<and> extended b w ds w' \<and> reached b k w' \<and> (\<forall>p. r = Inr p \<longrightarrow> reached b n w') \<and>
       ((\<forall>i \<ge> k. i < n \<longrightarrow> is_decision (mem_log w b ! i)) \<longrightarrow> ds = []))
    (\<lambda>_ w'. \<exists>ds. extended b w ds w' \<and> (\<exists>i \<ge> k. i < n \<and> malformed (mem_log w b ! i))) w"
  using assms(2-)
proof (induction "n - k" arbitrary: k w)
  case 0
  then have "segment (mem_log w b) (int k) (int n) = []" "k = n" by (simp_all add: segment_def)
  then show ?case using 0 extended_refl[of b w] by (auto simp: wp_rules scanned_def intro!: exI[of _ "[]"])
next
  case (Suc d)
  then have k: "k < n" "k < length (mem_log w b)" by auto
  let ?e = "mem_log w b ! k"
  have seg: "segment (mem_log w b) (int k) (int n) = ?e # segment (mem_log w b) (int (Suc k)) (int n)"
    using segment_Cons[OF k(1) Suc.prems(4)] .
  show ?case
    unfolding seg replay_entries.simps wp_bindE
  proof (rule wp_mono[OF entry_step[OF assms(1) Suc.prems(1,2) k(2)]], goal_cases)
    case (1 r w1)
    obtain m out where r: "r = (m, out)" by fastforce
    then obtain ds where ds: "m = int k + 1" "out = logged_outcome ?e ip" "extended b w ds w1" "reached b (Suc k) w1"
      "is_decision ?e \<Longrightarrow> ds = []" using 1 by auto
    have log1: "mem_log w1 b = mem_log w b @ ds" and ok1: "state_ok b w1" using ds(3) by (simp_all add: extended_def)
    have r0: "reached b k w1" using ds(4) by (force simp: reached_def)
    show ?case
    proof (cases out)
      case (Some o')
      then have "scanned (mem_log w b) ip k n (Inl o')" using ds(2) k(1) by (auto simp: scanned_def intro!: exI[of _ k])
      then show ?thesis using Some r ds r0 k(1) by (auto simp: wp_rules intro!: exI[of _ ds])
    next
      case None
      have seg1: "segment (mem_log w1 b) (int (Suc k)) (int n) = segment (mem_log w b) (int (Suc k)) (int n)"
        using log1 Suc.prems(4) by (intro segment_prefix) auto
      have "wp (replay_entries svc b ip (segment (mem_log w1 b) (int (Suc k)) (int n)) (int (Suc k)))
        (\<lambda>r w'. \<exists>ds. scanned (mem_log w1 b) ip (Suc k) n r \<and> extended b w1 ds w' \<and> reached b (Suc k) w' \<and> (\<forall>p. r = Inr p \<longrightarrow> reached b n w') \<and>
           ((\<forall>i \<ge> Suc k. i < n \<longrightarrow> is_decision (mem_log w1 b ! i)) \<longrightarrow> ds = []))
        (\<lambda>_ w'. \<exists>ds. extended b w1 ds w' \<and> (\<exists>i \<ge> Suc k. i < n \<and> malformed (mem_log w1 b ! i))) w1"
        by (rule Suc.hyps(1)) (use Suc ok1 ds(4) k log1 in auto)
      moreover have "int (Suc k) = m" using ds(1) by simp
      ultimately have ih: "wp (replay_entries svc b ip (segment (mem_log w b) (int (Suc k)) (int n)) m)
        (\<lambda>r w'. \<exists>ds. scanned (mem_log w1 b) ip (Suc k) n r \<and> extended b w1 ds w' \<and> reached b (Suc k) w' \<and> (\<forall>p. r = Inr p \<longrightarrow> reached b n w') \<and>
           ((\<forall>i \<ge> Suc k. i < n \<longrightarrow> is_decision (mem_log w1 b ! i)) \<longrightarrow> ds = []))
        (\<lambda>_ w'. \<exists>ds. extended b w1 ds w' \<and> (\<exists>i \<ge> Suc k. i < n \<and> malformed (mem_log w1 b ! i))) w1"
        unfolding seg1 by (simp only:)
      have "wp (replay_entries svc b ip (segment (mem_log w b) (int (Suc k)) (int n)) m)
        (\<lambda>r w'. \<exists>ds. scanned (mem_log w b) ip k n r \<and> extended b w ds w' \<and> reached b k w' \<and> (\<forall>p. r = Inr p \<longrightarrow> reached b n w') \<and>
          ((\<forall>i \<ge> k. i < n \<longrightarrow> is_decision (mem_log w b ! i)) \<longrightarrow> ds = []))
        (\<lambda>_ w'. \<exists>ds. extended b w ds w' \<and> (\<exists>i \<ge> k. i < n \<and> malformed (mem_log w b ! i))) w1"
      proof (rule wp_mono[OF ih], goal_cases)
        case (1 r w2)
        then obtain ds' where d: "scanned (mem_log w1 b) ip (Suc k) n r" "extended b w1 ds' w2" "reached b (Suc k) w2"
          "\<forall>p. r = Inr p \<longrightarrow> reached b n w2" "(\<forall>i \<ge> Suc k. i < n \<longrightarrow> is_decision (mem_log w1 b ! i)) \<longrightarrow> ds' = []" by blast
        have "scanned (mem_log w b) ip k n r"
          using scanned_Suc[OF scanned_prefix[OF d(1)[unfolded log1] Suc.prems(4)]] None ds(2) by simp
        moreover have "extended b w (ds @ ds') w2" by (rule extended_trans[OF ds(3) d(2)])
        moreover have "reached b k w2" using d(3) by (force simp: reached_def)
        moreover have "ds @ ds' = []" if "\<forall>i \<ge> k. i < n \<longrightarrow> is_decision (mem_log w b ! i)"
          using that d(5) ds(5) k log1 Suc.prems(4) by (auto simp: nth_append)
        ultimately show ?case using d(4) by blast
      next
        case (2 e w2)
        then obtain ds' i where e: "extended b w1 ds' w2" "Suc k \<le> i" "i < n" "malformed (mem_log w1 b ! i)" by blast
        then have "k \<le> i" "malformed (mem_log w b ! i)" using log1 Suc.prems(4) by (auto simp: nth_append)
        then show ?case using extended_trans[OF ds(3) e(1)] e(3) by blast
      qed
      then show ?thesis using None r by simp
    qed
  next
    case (2 e w1)
    then show ?case using k(1) by blast
  qed
qed

lemma batch_step:
  assumes "valid_bus b" "state_ok b w" "reached b k w" "k < tail" "tail \<le> length (mem_log w b)"
  shows "wp (replay_batch svc b ip (int tail) (int k))
    (\<lambda>r w'. \<exists>n ds. k < n \<and> n \<le> tail \<and> scanned (mem_log w b) ip k n r \<and> extended b w ds w' \<and> (\<forall>p. r = Inr p \<longrightarrow> reached b n w') \<and>
       ((\<forall>i \<ge> k. i < n \<longrightarrow> is_decision (mem_log w b ! i)) \<longrightarrow> ds = []))
    (\<lambda>_ w'. \<exists>ds. extended b w ds w' \<and> (\<exists>i \<ge> k. i < tail \<and> malformed (mem_log w b ! i))) w"
proof -
  let ?req = "\<lparr>rn_bus_id = Some b, rn_start_log_position = int k, rn_end_log_position = int tail, rn_max_entries = 64, rn_filter = None\<rparr>"
  have inv: "mem_inv w" using assms(2) by (simp add: state_ok_def)
  obtain resp where call: "mem_read_next (ims_bus svc) ?req w = (Inr resp, w)"
    using mem_read_next_succeeds[OF no_ttl inv assms(1), of ?req] assms(4,5) by auto
  have law: "int k < rr_next_start_position resp" "rr_next_start_position resp \<le> int tail"
      "rr_entries resp = filter (entry_matches None) (segment (mem_log w b) (int k) (rr_next_start_position resp))"
    using mem_read_next_law[OF keeps inv _ _ _ _ call, of b] assms(4,5) by auto
  define n where "n = nat (rr_next_start_position resp)"
  have n: "rr_next_start_position resp = int n" "k < n" "n \<le> tail" using law by (auto simp: n_def)
  have "entry_matches None e" if "e \<in> set (mem_log w b)" for e
  proof -
    have "entry_payload e \<noteq> None" using that inv unfolding mem_inv_def well_numbered_def in_set_conv_nth by blast
    then show ?thesis by (auto simp: entry_matches_def)
  qed
  then have entries: "rr_entries resp = segment (mem_log w b) (int k) (int n)"
    unfolding law(3) n(1) by (auto simp: filter_id_conv segment_def dest: in_set_takeD in_set_dropD)
  have "wp (replay_entries svc b ip (segment (mem_log w b) (int k) (int n)) (int k))
    (\<lambda>r w'. \<exists>n ds. k < n \<and> n \<le> tail \<and> scanned (mem_log w b) ip k n r \<and> extended b w ds w' \<and> (\<forall>p. r = Inr p \<longrightarrow> reached b n w') \<and>
       ((\<forall>i \<ge> k. i < n \<longrightarrow> is_decision (mem_log w b ! i)) \<longrightarrow> ds = []))
    (\<lambda>_ w'. \<exists>ds. extended b w ds w' \<and> (\<exists>i \<ge> k. i < tail \<and> malformed (mem_log w b ! i))) w"
  proof (rule wp_mono[OF entries_step[OF assms(1-3), of n]], goal_cases)
    case (3 r w')
    then show ?case using n(2,3) by blast
  next
    case (4 e w')
    then show ?case using n(3) order_less_le_trans by blast
  qed (use n assms(5) in auto)
  then show ?thesis using call by (simp add: replay_batch_def wp_rules wp_def[of "mem_read_next _ _"] entries)
qed

lemma to_tail:
  assumes "valid_bus b" "state_ok b w" "reached b k w" "k \<le> tail" "tail \<le> length (mem_log w b)"
  shows "\<exists>r w' ds. replay_to_tail svc b ip (int tail) (int k) w = Some (r, w') \<and> extended b w ds w' \<and>
    (\<forall>e. r = Inl e \<longrightarrow> (\<exists>i \<ge> k. i < tail \<and> malformed (mem_log w b ! i))) \<and>
    (\<forall>x. r = Inr x \<longrightarrow> scanned (mem_log w b) ip k tail x) \<and> (\<forall>p. r = Inr (Inr p) \<longrightarrow> reached b tail w') \<and>
    ((\<forall>i \<ge> k. i < tail \<longrightarrow> is_decision (mem_log w b ! i)) \<longrightarrow> ds = [])"
  using assms(2-)
proof (induction "tail - k" arbitrary: k w rule: less_induct)
  case less
  show ?case
  proof (cases "k < tail")
    case False
    then show ?thesis using less.prems extended_refl[OF less.prems(1)]
      by (subst replay_to_tail.simps) (auto simp: scanned_def intro!: exI[of _ "[]"])
  next
    case True
    obtain r w1 where call: "replay_batch svc b ip (int tail) (int k) w = (r, w1)" by fastforce
    note step = batch_step[OF assms(1) less.prems(1,2) True less.prems(4), of ip, unfolded wp_def call prod.case]
    show ?thesis
    proof (cases "\<exists>p. r = Inr (Inr p)")
      case stop: False
      have eq: "replay_to_tail svc b ip (int tail) (int k) w = Some (r, w1)"
        using stop call True by (subst replay_to_tail.simps) (auto split: sum.splits)
      show ?thesis
      proof (cases r)
        case (Inl e)
        then obtain ds i where "extended b w ds w1" "k \<le> i" "i < tail" "malformed (mem_log w b ! i)" using step by auto
        then show ?thesis using eq Inl decision_not_malformed by blast
      next
        case (Inr x)
        then obtain out where x: "x = Inl out" using stop by (cases x) auto
        then obtain n ds where "n \<le> tail" "scanned (mem_log w b) ip k n x" "extended b w ds w1"
          "(\<forall>i \<ge> k. i < n \<longrightarrow> is_decision (mem_log w b ! i)) \<longrightarrow> ds = []" using step Inr by auto
        then have "scanned (mem_log w b) ip k tail (Inl out)" "(\<forall>i \<ge> k. i < tail \<longrightarrow> is_decision (mem_log w b ! i)) \<longrightarrow> ds = []"
          using scanned_grow[of "mem_log w b" ip k n out tail] x by auto
        then show ?thesis using eq Inr x \<open>extended b w ds w1\<close> by auto
      qed
    next
      case more: True
      then obtain p where r: "r = Inr (Inr p)" by blast
      then obtain n ds where n: "k < n" "n \<le> tail" "scanned (mem_log w b) ip k n (Inr p)"
        "extended b w ds w1" "reached b n w1" "(\<forall>i \<ge> k. i < n \<longrightarrow> is_decision (mem_log w b ! i)) \<longrightarrow> ds = []"
        using step unfolding r sum.case by blast
      have p: "p = int n" using n(3) by (simp add: scanned_def)
      have log1: "mem_log w1 b = mem_log w b @ ds" and ok1: "state_ok b w1" using n(4) by (simp_all add: extended_def)
      have same: "mem_log w1 b ! i = mem_log w b ! i" if "i < tail" for i using that log1 less.prems(4) by (simp add: nth_append)
      have shorter: "tail - n < tail - k" and len1: "tail \<le> length (mem_log w1 b)" using n(1) True less.prems(4) log1 by simp_all
      obtain r2 w2 ds2 where rest: "replay_to_tail svc b ip (int tail) (int n) w1 = Some (r2, w2)" "extended b w1 ds2 w2"
        "\<forall>e. r2 = Inl e \<longrightarrow> (\<exists>i \<ge> n. i < tail \<and> malformed (mem_log w1 b ! i))"
        "\<forall>x. r2 = Inr x \<longrightarrow> scanned (mem_log w1 b) ip n tail x" "\<forall>p. r2 = Inr (Inr p) \<longrightarrow> reached b tail w2"
        "(\<forall>i \<ge> n. i < tail \<longrightarrow> is_decision (mem_log w1 b ! i)) \<longrightarrow> ds2 = []"
        using less.hyps[OF shorter ok1 n(5,2) len1] by blast
      have "replay_to_tail svc b ip (int tail) (int k) w = Some (r2, w2)"
        using call r p rest(1) True by (subst replay_to_tail.simps) simp
      moreover have "extended b w (ds @ ds2) w2" by (rule extended_trans[OF n(4) rest(2)])
      moreover have "\<exists>i \<ge> k. i < tail \<and> malformed (mem_log w b ! i)" if "r2 = Inl e" for e
        using that rest(3) same n(1) by (metis less_imp_le order_trans)
      moreover have "scanned (mem_log w b) ip k tail x" if "r2 = Inr x" for x
      proof -
        have "scanned (mem_log w b) ip n tail x"
          using scanned_prefix[of "mem_log w b" ds ip n tail x] rest(4) that log1 less.prems(4) by simp
        then show ?thesis using scanned_join[OF n(3)] n(1) by simp
      qed
      moreover have "ds @ ds2 = []" if "\<forall>i \<ge> k. i < tail \<longrightarrow> is_decision (mem_log w b ! i)"
        using that n(1,2,6) rest(6) same by auto
      ultimately show ?thesis using rest(5) by blast
    qed
  qed
qed

lemma check_tail_exact: "valid_bus b \<Longrightarrow> mem_check_tail mb (Some b) w = (Inr (int (length (mem_log w b))), w)"
  by (simp add: mem_check_tail_def get_tail_stored mem_log_def)

text \<open>One iteration that scans: the loop ends there, or goes on from the end of the scanned log.\<close>
lemma loop_scan:
  assumes "valid_bus b" "state_ok b w" "reached b k w" "k < length (mem_log w b)"
    and more: "\<And>w' ds. extended b w ds w' \<Longrightarrow> reached b (length (mem_log w b)) w' \<Longrightarrow>
      scanned (mem_log w b) ip k (length (mem_log w b)) (Inr (int (length (mem_log w b)))) \<Longrightarrow>
      ((\<forall>i \<ge> k. i < length (mem_log w b) \<longrightarrow> is_decision (mem_log w b ! i)) \<longrightarrow> ds = []) \<Longrightarrow>
      decided b ip (length (mem_log w b)) w' (replay_loop svc b ip (int (length (mem_log w b))) w')"
  shows "decided b ip k w (replay_loop svc b ip (int k) w)"
proof -
  let ?n = "length (mem_log w b)"
  obtain r w' ds where tail: "replay_to_tail svc b ip (int ?n) (int k) w = Some (r, w')" "extended b w ds w'"
    "\<forall>e. r = Inl e \<longrightarrow> (\<exists>i \<ge> k. i < ?n \<and> malformed (mem_log w b ! i))"
    "\<forall>x. r = Inr x \<longrightarrow> scanned (mem_log w b) ip k ?n x" "\<forall>p. r = Inr (Inr p) \<longrightarrow> reached b ?n w'"
    "(\<forall>i \<ge> k. i < ?n \<longrightarrow> is_decision (mem_log w b ! i)) \<longrightarrow> ds = []"
    using to_tail[OF assms(1-3) less_imp_le[OF assms(4)] order_refl, of ip] by blast
  have log': "mem_log w' b = mem_log w b @ ds" using tail(2) by (simp add: extended_def)
  have loop: "replay_loop svc b ip (int k) w = (case r of
      Inl e \<Rightarrow> Some (Inl e, w') | Inr (Inl out) \<Rightarrow> Some (Inr out, w') | Inr (Inr p) \<Rightarrow> replay_loop svc b ip p w')"
    using tail(1) assms(1,4) by (subst replay_loop.simps) (simp add: map_errE_def check_tail_exact split: sum.split)
  show ?thesis
  proof (cases "\<exists>p. r = Inr (Inr p)")
    case False
    have "scanned (mem_log w' b) ip k (length (mem_log w' b)) (Inl out)" if "r = Inr (Inl out)" for out
      using that tail(4) scanned_grow[OF scanned_append, of "mem_log w b" ip k ?n out] log' by simp
    then show ?thesis using False tail(2,3) unfolding loop decided_def by (auto split: sum.splits)
  next
    case True
    then obtain p where r: "r = Inr (Inr p)" by blast
    have sc: "scanned (mem_log w b) ip k ?n (Inr p)" using tail(4) r by simp
    then have p: "p = int ?n" by (simp add: scanned_def)
    obtain r2 w2 ds2 where rest: "replay_loop svc b ip (int ?n) w' = Some (r2, w2)" "extended b w' ds2 w2"
      "\<forall>out. r2 = Inr out \<longrightarrow> scanned (mem_log w2 b) ip ?n (length (mem_log w2 b)) (Inl out)"
      "\<forall>e. r2 = Inl e \<longrightarrow> (\<exists>i \<ge> ?n. i < length (mem_log w' b) \<and> malformed (mem_log w' b ! i))"
      using more[OF tail(2) _ sc[unfolded p] tail(6)] tail(5) r unfolding decided_def by blast
    have log2: "mem_log w2 b = (mem_log w b @ ds) @ ds2" using rest(2) log' by (simp add: extended_def)
    have no_error: "r2 \<noteq> Inl e" for e
    proof
      assume "r2 = Inl e"
      then obtain i where i: "?n \<le> i" "i < length (mem_log w' b)" "malformed (mem_log w' b ! i)" using rest(4) by blast
      then have "mem_log w' b ! i \<in> set ds" using log' by (auto simp: nth_append)
      then show False using i(3) tail(2) decision_not_malformed by (auto simp: extended_def list_all_iff)
    qed
    have "scanned (mem_log w2 b) ip k (length (mem_log w2 b)) (Inl out)" if "r2 = Inr out" for out
      using scanned_join[OF scanned_append[OF sc order_refl, of "ds @ ds2"], of "length (mem_log w2 b)"] rest(3) that log2 assms(4)
      by simp
    then show ?thesis
      unfolding decided_def loop r p using rest(1) extended_trans[OF tail(2) rest(2)] no_error by auto
  qed
qed

text \<open>The loop ends where the scan is bound to find a decision.\<close>
lemma loop_finds:
  assumes "valid_bus b" "state_ok b w" "reached b k w" "k \<le> j" "j < length (mem_log w b)" "logged_outcome (mem_log w b ! j) ip \<noteq> None"
  shows "decided b ip k w (replay_loop svc b ip (int k) w)"
  by (rule loop_scan[OF assms(1-3)]) (use assms(4-6) in \<open>auto simp: scanned_def\<close>)

lemma loop_drained:
  assumes "valid_bus b" "state_ok b w" "reached b (length (mem_log w b)) w"
  shows "decided b ip (length (mem_log w b)) w (replay_loop svc b ip (int (length (mem_log w b))) w)"
proof -
  let ?n = "length (mem_log w b)" and ?p = "im_decision_payload ip False ''no decision before the log was drained''"
  have dec: "is_decision \<lparr>entry_header = h, entry_payload = Some ?p\<rparr>" for h
    by (simp add: is_decision_def inner_payload_def im_decision_payload_def)
  have "wp (abort_drained svc b ip) (\<lambda>_ w'. \<exists>d. extended b w [d] w' \<and> reached b ?n w' \<and> entry_payload d = Some ?p) (\<lambda>_ _. False) w"
    unfolding abort_drained_def wp_bindE
  proof (rule wp_append_output[OF assms(1,2) dec])
    fix d w' assume e: "extended b w [d] w'" and same: "iw_replay_state w' = iw_replay_state w" and d: "entry_payload d = Some ?p"
    obtain st where st: "iw_replay_state w b = Some st" "int ?n \<le> rs_next_position st" using assms(3) by (auto simp: reached_def)
    have rep: "replayed (mem_log w' b) (st\<lparr>rs_pending := None\<rparr>)"
      using e st(1) same by (auto simp: extended_def state_ok_def replayed_def)
    have "extended b w [d] (w'\<lparr>iw_replay_state := (iw_replay_state w)(b \<mapsto> st\<lparr>rs_pending := None\<rparr>)\<rparr>)"
      using e rep by (auto simp: extended_def state_ok_def)
    then show "wp (asks (\<lambda>w. iw_replay_state w b)) (\<lambda>found. wp (case found of None \<Rightarrow> raise CommitPanicked
         | Some state \<Rightarrow> modifyE (\<lambda>w. if rs_pending state = Some ip
             then w\<lparr>iw_replay_state := (iw_replay_state w)(b \<mapsto> state\<lparr>rs_pending := None\<rparr>)\<rparr> else w))
         (\<lambda>_ w'. \<exists>d. extended b w [d] w' \<and> reached b ?n w' \<and> entry_payload d = Some ?p) (\<lambda>_ _. False)) (\<lambda>_ _. False) w'"
      using e d same st by (auto simp: wp_rules reached_def)
  qed
  then obtain w' d where call: "abort_drained svc b ip w = (Inr (), w')" and w': "extended b w [d] w'" "reached b ?n w'" "entry_payload d = Some ?p"
    by (auto simp: wp_def split: prod.splits sum.splits)
  have ok': "state_ok b w'" and log': "mem_log w' b = mem_log w b @ [d]" using w'(1) by (simp_all add: extended_def)
  have out: "logged_outcome (mem_log w' b ! ?n) ip \<noteq> None"
    using w'(3) log' by (simp add: logged_outcome_def inner_payload_def im_decision_payload_def)
  have "decided b ip ?n w' (replay_loop svc b ip (int ?n) w')"
    by (rule loop_finds[OF assms(1) ok' w'(2) order_refl _ out]) (simp add: log')
  then obtain r w2 ds where rest: "replay_loop svc b ip (int ?n) w' = Some (r, w2)" "extended b w' ds w2"
    "\<forall>out. r = Inr out \<longrightarrow> scanned (mem_log w2 b) ip ?n (length (mem_log w2 b)) (Inl out)"
    "\<forall>e. r = Inl e \<longrightarrow> (\<exists>i \<ge> ?n. i < length (mem_log w' b) \<and> malformed (mem_log w' b ! i))" unfolding decided_def by blast
  have "replay_loop svc b ip (int ?n) w = Some (r, w2)"
    using rest(1) call assms(1) by (subst replay_loop.simps) (simp add: map_errE_def check_tail_exact)
  moreover have "r \<noteq> Inl e" for e
  proof
    assume "r = Inl e"
    then obtain i where "?n \<le> i" "i < length (mem_log w' b)" "malformed (mem_log w' b ! i)" using rest(4) by blast
    then have "malformed d" using log' by (auto simp: nth_append)
    then show False using w'(1) decision_not_malformed by (auto simp: extended_def)
  qed
  ultimately show ?thesis unfolding decided_def using extended_trans[OF w'(1) rest(2)] rest(3) by blast
qed

lemma loop_only_decisions:
  assumes "valid_bus b" "state_ok b w" "reached b k w" "k \<le> length (mem_log w b)"
    and "\<forall>i \<ge> k. i < length (mem_log w b) \<longrightarrow> is_decision (mem_log w b ! i)"
  shows "decided b ip k w (replay_loop svc b ip (int k) w)"
proof (cases "k = length (mem_log w b)")
  case True
  then show ?thesis using loop_drained[OF assms(1,2)] assms(3) by simp
next
  case False
  show ?thesis
  proof (rule loop_scan[OF assms(1-3)])
    fix w' ds assume e: "extended b w ds w'" "reached b (length (mem_log w b)) w'"
      "(\<forall>i \<ge> k. i < length (mem_log w b) \<longrightarrow> is_decision (mem_log w b ! i)) \<longrightarrow> ds = []"
    then have "mem_log w' b = mem_log w b" "state_ok b w'" using assms(5) by (simp_all add: extended_def)
    then show "decided b ip (length (mem_log w b)) w' (replay_loop svc b ip (int (length (mem_log w b))) w')"
      using loop_drained[OF assms(1), of w'] e(2) by simp
  qed (use False assms(4) in simp)
qed

lemma loop_decides:
  assumes "valid_bus b" "state_ok b w" "reached b k w" "k < length (mem_log w b)"
  shows "decided b ip k w (replay_loop svc b ip (int k) w)"
proof (rule loop_scan[OF assms])
  fix w' ds assume e: "extended b w ds w'" "reached b (length (mem_log w b)) w'"
  have log': "mem_log w' b = mem_log w b @ ds" and ds: "list_all is_decision ds" and ok: "state_ok b w'"
    using e(1) by (simp_all add: extended_def)
  have "\<forall>i \<ge> length (mem_log w b). i < length (mem_log w' b) \<longrightarrow> is_decision (mem_log w' b ! i)"
    using ds unfolding log' by (auto simp: nth_append list_all_length)
  then show "decided b ip (length (mem_log w b)) w' (replay_loop svc b ip (int (length (mem_log w b))) w')"
    by (intro loop_only_decisions[OF assms(1) ok e(2)]) (simp_all add: log')
qed

lemma wp_append:
  assumes "valid_bus b" "state_ok b w" "\<And>h. \<not> malformed \<lparr>entry_header = h, entry_payload = Some p\<rparr>"
    and "\<And>d w'. prepared b w [d] w' \<Longrightarrow> entry_payload d = Some p \<Longrightarrow> Q (int (length (mem_log w b))) w'"
  shows "wp (mem_append (ims_bus svc) \<lparr>ar_bus_id = Some b, ar_payload = Some p\<rparr>) Q E w"
proof -
  have inv: "mem_inv w" using assms(2) by (simp add: state_ok_def)
  obtain w' ts where call: "mem_append (ims_bus svc) \<lparr>ar_bus_id = Some b, ar_payload = Some p\<rparr> w = (Inr (int (length (mem_log w b))), w')"
    and eff: "mem_log w' = (mem_log w)(b := mem_log w b @ [\<lparr>entry_header = Some \<lparr>log_position = int (length (mem_log w b)), rt_timestamp_ms = ts\<rparr>,
       entry_payload = Some p\<rparr>])"
      "mem_inv w'" "iw_policy_state w' = iw_policy_state w" "iw_replay_state w' = iw_replay_state w"
    using append_exact[OF assms(1) inv, of p] by blast
  have "prepared b w [\<lparr>entry_header = Some \<lparr>log_position = int (length (mem_log w b)), rt_timestamp_ms = ts\<rparr>, entry_payload = Some p\<rparr>] w'"
    using eff assms(2,3) by (auto simp: prepared_def state_ok_def replayed_append)
  from assms(4)[OF this] call show ?thesis by (simp add: wp_def)
qed

lemma reconcile_step:
  assumes "valid_bus b" "state_ok b w"
  shows "wp (reconcile_policy svc b) (\<lambda>_ w'. \<exists>ds. prepared b w ds w')
    (\<lambda>_ w'. prepared b w [] w' \<and> (\<forall>desired w1. ims_policy_provider svc b w = (Inr desired, w1) \<longrightarrow> get_decider_policy (vps_state desired) = None)) w"
proof -
  obtain r w1 where prov: "ims_policy_provider svc b w = (r, w1)" by fastforce
  have p1: "prepared b w [] w1" by (rule prepared_untouched[OF assms(2) provider[OF prov]])
  then have ok1: "state_ok b w1" by (simp add: prepared_def)
  show ?thesis
  proof (cases "\<exists>desired policy. r = Inr desired \<and> get_decider_policy (vps_state desired) = Some policy")
    case False
    then show ?thesis using prov p1
      by (cases r) (auto simp: reconcile_policy_def wp_rules wp_def[of "ims_policy_provider _ _"] split: option.splits)
  next
    case True
    then obtain desired policy where d: "r = Inr desired" "get_decider_policy (vps_state desired) = Some policy" by blast
    have fine: "\<not> malformed \<lparr>entry_header = h, entry_payload = Some (policy_batch_payload
        \<lparr>pb_decider_policy = pol_decider_policy (vps_state desired), pb_voter_ops = [], pb_expected_current_version = e, pb_new_version = n\<rparr>)\<rparr>" for h e n
      using d(2) by (simp add: malformed_def inner_payload_def policy_batch_payload_def get_decider_policy_def split: option.splits)
    have "\<exists>ds. prepared b w ds (w2\<lparr>iw_policy_state := q\<rparr>)" if "prepared b w1 [x] w2" for x w2 q
      using that prepared_trans[OF p1 that] by (auto simp: prepared_def state_ok_def)
    then show ?thesis using prov p1 d
      by (auto simp: reconcile_policy_def wp_rules wp_def[of "ims_policy_provider _ _"] intro!: wp_append[OF assms(1) ok1 fine])
  qed
qed

lemma replay_decides:
  assumes "valid_bus b" "state_ok b w" "ip < length (mem_log w b)"
  obtains r w' ds k where "im_replay svc b (int ip) w = Some (r, w')" "extended b w ds w'" "k \<le> ip"
    "\<forall>out. r = Inr out \<longrightarrow> scanned (mem_log w' b) (int ip) k (length (mem_log w' b)) (Inl out)"
    "\<forall>e. r = Inl e \<longrightarrow> (\<exists>d \<in> set (mem_log w b). malformed d)"
proof -
  let ?st = "case iw_replay_state w b of Some st \<Rightarrow> st | None \<Rightarrow> replay_state_default"
  let ?w = "w\<lparr>iw_replay_state := (iw_replay_state w)(b \<mapsto> ?st)\<rparr>"
  define k where "k = nat (min (rs_next_position ?st) (int ip))"
  have rep: "replayed (mem_log w b) ?st" using assms(2) by (auto simp: state_ok_def replayed_default split: option.split)
  then have k: "min (rs_next_position ?st) (int ip) = int k" "int k \<le> rs_next_position ?st" "k \<le> ip"
    by (auto simp: k_def replayed_def)
  have ok: "state_ok b ?w" using assms(2) rep by (simp add: state_ok_def)
  have reach: "reached b k ?w" using k(2) by (simp add: reached_def)
  have "decided b (int ip) k ?w (replay_loop svc b (int ip) (int k) ?w)"
    by (rule loop_decides[OF assms(1) ok reach]) (use k(3) assms(3) in simp)
  then obtain r w' ds where res: "replay_loop svc b (int ip) (int k) ?w = Some (r, w')" "extended b ?w ds w'"
    "\<forall>out. r = Inr out \<longrightarrow> scanned (mem_log w' b) (int ip) k (length (mem_log w' b)) (Inl out)"
    "\<forall>e. r = Inl e \<longrightarrow> (\<exists>i \<ge> k. i < length (mem_log w b) \<and> malformed (mem_log w b ! i))"
    unfolding decided_def replay_state_update by blast
  have "im_replay svc b (int ip) w = Some (r, w')" using res(1) k(1) by (simp add: im_replay_def Let_def)
  moreover have "extended b w ds w'" using res(2) by (simp add: extended_def)
  moreover have "\<forall>e. r = Inl e \<longrightarrow> (\<exists>d \<in> set (mem_log w b). malformed d)" using res(4) nth_mem by blast
  ultimately show thesis using that k(3) res(3) by blast
qed

lemma commit_decides:
  assumes "valid_bus (ci_bus_id req)" "state_ok (ci_bus_id req) w"
  obtains r w' ds where "inmem_commit_intention svc req w = Some (r, w')"
    "mem_log w' = (mem_log w)(ci_bus_id req := mem_log w (ci_bus_id req) @ ds)" "state_ok (ci_bus_id req) w'"
    "\<And>b'. b' \<noteq> ci_bus_id req \<Longrightarrow> iw_replay_state w' b' = iw_replay_state w b'"
    "\<And>out. r = Inr out \<Longrightarrow> \<exists>c ip v. c \<le> ip \<and> ip < length (mem_log w' (ci_bus_id req)) \<and>
       entry_payload (mem_log w' (ci_bus_id req) ! ip) = Some (im_intention_to_payload (ci_intention req) v) \<and>
       scanned (mem_log w' (ci_bus_id req)) (int ip) c (length (mem_log w' (ci_bus_id req))) (Inl out)"
    "\<And>e. r = Inl e \<Longrightarrow> (\<exists>d \<in> set (mem_log w (ci_bus_id req)). malformed d) \<or>
       (\<forall>desired w1. ims_policy_provider svc (ci_bus_id req) w = (Inr desired, w1) \<longrightarrow> get_decider_policy (vps_state desired) = None)"
proof -
  let ?b = "ci_bus_id req"
  define m where "m = bindE (reconcile_policy svc ?b) (\<lambda>policy_version.
      map_errE commit_error_from_bus (mem_append (ims_bus svc) \<lparr>ar_bus_id = Some ?b,
        ar_payload = Some (im_intention_to_payload (ci_intention req) policy_version)\<rparr>))"
  have fine: "\<not> malformed \<lparr>entry_header = h, entry_payload = Some (im_intention_to_payload i v)\<rparr>" for h i v
    by (simp add: malformed_def inner_payload_def im_intention_to_payload_def)
  have "wp m (\<lambda>position w'. \<exists>ds d v. prepared ?b w (ds @ [d]) w' \<and> position = int (length (mem_log w ?b) + length ds) \<and>
        entry_payload d = Some (im_intention_to_payload (ci_intention req) v))
     (\<lambda>_ w'. prepared ?b w [] w' \<and> (\<forall>desired w1. ims_policy_provider svc ?b w = (Inr desired, w1) \<longrightarrow> get_decider_policy (vps_state desired) = None)) w"
    unfolding m_def wp_bindE
  proof (rule wp_mono[OF reconcile_step[OF assms]], goal_cases)
    case (1 v w1)
    then obtain ds where ds: "prepared ?b w ds w1" by blast
    then have ok1: "state_ok ?b w1" and log1: "mem_log w1 ?b = mem_log w ?b @ ds" by (simp_all add: prepared_def)
    show ?case
      unfolding wp_map_errE
      by (rule wp_append[OF assms(1) ok1 fine]) (use prepared_trans[OF ds] log1 in \<open>auto intro!: exI[of _ ds]\<close>)
  qed simp
  moreover obtain x w1 where run: "m w = (x, w1)" by fastforce
  ultimately have pre: "case x of
      Inl e \<Rightarrow> prepared ?b w [] w1 \<and> (\<forall>desired w1. ims_policy_provider svc ?b w = (Inr desired, w1) \<longrightarrow> get_decider_policy (vps_state desired) = None)
    | Inr position \<Rightarrow> \<exists>ds d v. prepared ?b w (ds @ [d]) w1 \<and> position = int (length (mem_log w ?b) + length ds) \<and>
        entry_payload d = Some (im_intention_to_payload (ci_intention req) v)"
    unfolding wp_def by (cases x) auto
  show ?thesis
  proof (cases x)
    case (Inl e)
    then have "inmem_commit_intention svc req w = Some (Inl e, w1)" using run by (simp add: inmem_commit_intention_def m_def)
    then show ?thesis by (rule that[of _ _ "[]"]) (use pre Inl in \<open>auto simp: prepared_def\<close>)
  next
    case (Inr position)
    then obtain ds d v where pr: "prepared ?b w (ds @ [d]) w1" and pos: "position = int (length (mem_log w ?b) + length ds)"
      and d: "entry_payload d = Some (im_intention_to_payload (ci_intention req) v)" using pre by auto
    let ?ip = "length (mem_log w ?b) + length ds"
    have ok1: "state_ok ?b w1" and log1: "mem_log w1 ?b = mem_log w ?b @ ds @ [d]" and others: "mem_log w1 = (mem_log w)(?b := mem_log w ?b @ ds @ [d])"
      using pr by (simp_all add: prepared_def)
    obtain r w' ds' k where rep: "im_replay svc ?b (int ?ip) w1 = Some (r, w')" "extended ?b w1 ds' w'" "k \<le> ?ip"
      "\<forall>out. r = Inr out \<longrightarrow> scanned (mem_log w' ?b) (int ?ip) k (length (mem_log w' ?b)) (Inl out)"
      "\<forall>e. r = Inl e \<longrightarrow> (\<exists>d \<in> set (mem_log w1 ?b). malformed d)"
      by (rule replay_decides[OF assms(1) ok1, of ?ip]) (use log1 in auto)
    have log': "mem_log w' = (mem_log w)(?b := mem_log w ?b @ (ds @ d # ds'))" and ok': "state_ok ?b w'"
      using rep(2) others by (simp_all add: extended_def)
    have at: "mem_log w' ?b ! ?ip = d" using log' by (simp add: nth_append)
    have run': "inmem_commit_intention svc req w = Some (r, w')" using run Inr pos rep(1) by (simp add: inmem_commit_intention_def m_def)
    show ?thesis
    proof (rule that[OF run' log' ok'], goal_cases)
      case (1 b')
      then show ?case using rep(2) pr by (simp add: extended_def prepared_def)
    next
      case (2 out)
      then show ?case using rep(3,4) at d log' by (intro exI[of _ k] exI[of _ ?ip] exI[of _ v]) auto
    next
      case (3 e)
      then obtain x where x: "x \<in> set (mem_log w1 ?b)" "malformed x" using rep(5) by blast
      have "list_all (\<lambda>d. \<not> malformed d) (ds @ [d])" using pr by (simp add: prepared_def)
      then show ?case using x log1 by (auto simp: list_all_iff)
    qed
  qed
qed

end

section \<open>Properties\<close>

text \<open>A service whose clock and policy provider leave its state alone, over entries that do not expire.\<close>
definition calm_service :: "('z inmem_world_scheme, 'p) inmem_service \<Rightarrow> bool" where
  "calm_service svc \<longleftrightarrow> mb_ttl (ims_bus svc) = None \<and>
     (\<forall>w. untouched_state w (snd (env_unsafe_wall_time (mb_environment (ims_bus svc)) w))) \<and>
     (\<forall>b w. untouched_state w (snd (ims_policy_provider svc b w)))"

lemma calm_service_env: "calm_service svc \<Longrightarrow> inmem_env svc"
  unfolding calm_service_def inmem_env_def by (metis snd_conv)

lemma sim_static_calm: "calm_service (inmem_new (sim_environment bo))"
  by (simp add: calm_service_def inmem_new_def inmem_with_policy_provider_def sim_environment_def clock_unsafe_wall_time_def
      untouched_state_def static_config_read_def Let_def eff_defs split: option.split)

interpretation static_service: inmem_env "inmem_new (sim_environment bo)" for bo
  by (rule calm_service_env[OF sim_static_calm])

definition proposal_of :: "commit_intention_outcome \<Rightarrow> proposal_outcome" where
  "proposal_of out = \<lparr>po_approved = co_approved out, po_reason = co_reason out, po_log_position = co_log_position out\<rparr>"

lemma entry_outcome_logged: "entry_outcome e ip = map_option proposal_of (logged_outcome e ip)"
  by (auto simp: entry_outcome_def outcome_for_def logged_outcome_def inner_payload_def proposal_of_def
      split: option.splits payload_kind.splits)

lemma logged_outcome_position: "logged_outcome e ip = Some out \<Longrightarrow> co_log_position out = ip"
  by (auto simp: logged_outcome_def split: option.splits payload_kind.splits if_splits)

lemma scanned_first_decision:
  assumes "scanned es ip c (length es) (Inl out)"
  shows "first_decision es (int c) ip (proposal_of out) \<and> co_log_position out = ip"
proof -
  obtain j where j: "c \<le> j" "j < length es" "logged_outcome (es ! j) ip = Some out" "\<forall>i \<ge> c. i < j \<longrightarrow> logged_outcome (es ! i) ip = None"
    using assms by (auto simp: scanned_def)
  then have "undecided es (int c) (int j) ip" by (auto simp: undecided_def entry_outcome_logged)
  then show ?thesis using j logged_outcome_position by (auto simp: first_decision_outcome entry_outcome_logged intro!: exI[of _ j])
qed

text \<open>
  C28. The in-memory service always answers a commit, only appends to the log of the bus, and an outcome it returns
  is the first decision logged for the position of the intention, from some point at or before that position on.
\<close>
theorem inmem_commit_first_decision:
  assumes "calm_service svc" "valid_bus b" "state_ok b w"
  shows "\<exists>r w' ds. inmem_commit_intention svc \<lparr>ci_bus_id = b, ci_intention = i\<rparr> w = Some (r, w') \<and> state_ok b w' \<and>
    mem_log w' = (mem_log w)(b := mem_log w b @ ds) \<and>
    (\<forall>out. r = Inr out \<longrightarrow> (\<exists>c v. 0 \<le> c \<and> c \<le> co_log_position out \<and> co_log_position out < int (length (mem_log w' b)) \<and>
       first_decision (mem_log w' b) c (co_log_position out) (proposal_of out) \<and>
       entry_payload (mem_log w' b ! nat (co_log_position out)) = Some (im_intention_to_payload i v)))"
proof -
  let ?req = "\<lparr>ci_bus_id = b, ci_intention = i\<rparr>"
  obtain r w' ds where run: "inmem_commit_intention svc ?req w = Some (r, w')" "mem_log w' = (mem_log w)(b := mem_log w b @ ds)" "state_ok b w'"
    and out: "\<And>out. r = Inr out \<Longrightarrow> \<exists>c ip v. c \<le> ip \<and> ip < length (mem_log w' b) \<and>
       entry_payload (mem_log w' b ! ip) = Some (im_intention_to_payload i v) \<and>
       scanned (mem_log w' b) (int ip) c (length (mem_log w' b)) (Inl out)"
    by (rule inmem_env.commit_decides[OF calm_service_env[OF assms(1)], of ?req w]) (use assms(2,3) in auto)
  have "\<exists>c v. 0 \<le> c \<and> c \<le> co_log_position x \<and> co_log_position x < int (length (mem_log w' b)) \<and>
       first_decision (mem_log w' b) c (co_log_position x) (proposal_of x) \<and>
       entry_payload (mem_log w' b ! nat (co_log_position x)) = Some (im_intention_to_payload i v)" if "r = Inr x" for x
  proof -
    obtain c ip v where f: "c \<le> ip" "ip < length (mem_log w' b)" "entry_payload (mem_log w' b ! ip) = Some (im_intention_to_payload i v)"
      "scanned (mem_log w' b) (int ip) c (length (mem_log w' b)) (Inl x)" using out[OF \<open>r = Inr x\<close>] by blast
    then show ?thesis using scanned_first_decision[OF f(4)] by (intro exI[of _ "int c"] exI[of _ v]) simp
  qed
  with run show ?thesis by blast
qed

definition empty_inmem_world :: inmem_world where
  "empty_inmem_world = \<lparr>mw_buses = Map.empty, mw_elapsed = 0, mw_noise = [], iw_policy_state = Map.empty, iw_replay_state = Map.empty\<rparr>"

definition step_backoff :: "nat \<Rightarrow> inmem_world \<Rightarrow> nat \<times> inmem_world" where
  "step_backoff n w = (n, w)"

lemma empty_inmem_ok: "state_ok b empty_inmem_world"
  by (simp add: state_ok_def empty_inmem_world_def mem_inv_def mem_log_def stored_def well_numbered_def)

theorem inmem_commit_first_decision_witness:
  "\<exists>r w'. inmem_commit_intention (inmem_new (sim_environment step_backoff)) \<lparr>ci_bus_id = ''bus'', ci_intention = StringIntention ''ls''\<rparr>
     empty_inmem_world = Some (r, w') \<and> state_ok ''bus'' w'"
proof -
  have "valid_bus ''bus''" by code_simp
  from inmem_commit_first_decision[OF sim_static_calm this empty_inmem_ok, of step_backoff "StringIntention ''ls''"] show ?thesis by blast
qed

text \<open>
  C29. On a bus without a malformed policy batch, and with a provider that returns a recognised decider policy,
  every commit succeeds.
\<close>
theorem inmem_commit_succeeds:
  assumes "calm_service svc" "valid_bus b" "state_ok b w" "\<forall>d \<in> set (mem_log w b). \<not> malformed d"
    and "ims_policy_provider svc b w = (Inr desired, w1)" "get_decider_policy (vps_state desired) \<noteq> None"
  shows "\<exists>out w'. inmem_commit_intention svc \<lparr>ci_bus_id = b, ci_intention = i\<rparr> w = Some (Inr out, w')"
proof -
  let ?req = "\<lparr>ci_bus_id = b, ci_intention = i\<rparr>"
  obtain r w' where run: "inmem_commit_intention svc ?req w = Some (r, w')"
    and err: "\<And>e. r = Inl e \<Longrightarrow> (\<exists>d \<in> set (mem_log w b). malformed d) \<or>
       (\<forall>desired w1. ims_policy_provider svc b w = (Inr desired, w1) \<longrightarrow> get_decider_policy (vps_state desired) = None)"
    by (rule inmem_env.commit_decides[OF calm_service_env[OF assms(1)], of ?req w]) (use assms(2,3) in auto)
  have "r \<noteq> Inl e" for e
  proof
    assume "r = Inl e"
    from err[OF this] assms(4) have "ims_policy_provider svc b w = (Inr desired, w1) \<longrightarrow> get_decider_policy (vps_state desired) = None"
      by blast
    then show False using assms(5,6) by simp
  qed
  then show ?thesis using run by (cases r) auto
qed

theorem inmem_commit_succeeds_witness:
  "\<exists>out w'. inmem_commit_intention (inmem_new (sim_environment step_backoff)) \<lparr>ci_bus_id = ''bus'', ci_intention = StringIntention ''ls''\<rparr>
     empty_inmem_world = Some (Inr out, w')"
proof (rule inmem_commit_succeeds[OF sim_static_calm _ empty_inmem_ok])
  show "valid_bus ''bus''" by code_simp
  show "\<forall>d \<in> set (mem_log empty_inmem_world ''bus''). \<not> malformed d"
    by (simp add: mem_log_def empty_inmem_world_def stored_def)
  show "ims_policy_provider (inmem_new (sim_environment step_backoff)) ''bus'' empty_inmem_world =
      (Inr \<lparr>vps_state = \<lparr>pol_decider_policy = Some 1, pol_voters = []\<rparr>, vps_version = STATIC_VERSION\<rparr>, empty_inmem_world)"
    by (simp add: inmem_new_def inmem_with_policy_provider_def static_config_read_def static_config_default_def static_config_new_def
        Let_def eff_defs)
  show "get_decider_policy (vps_state \<lparr>vps_state = \<lparr>pol_decider_policy = Some 1, pol_voters = []\<rparr>, vps_version = STATIC_VERSION\<rparr>) \<noteq> None"
    by code_simp
qed

section \<open>Reachable states and the engine's policy\<close>

text \<open>The states of a service that starts empty: clients create buses and commit intentions, and append to the
  bus the service exposes.\<close>
inductive inmem_reachable :: "('z inmem_world_scheme, 'p) inmem_service \<Rightarrow> 'z inmem_world_scheme \<Rightarrow> bool" for svc where
  start: "mw_buses w = Map.empty \<Longrightarrow> iw_policy_state w = Map.empty \<Longrightarrow> iw_replay_state w = Map.empty \<Longrightarrow> inmem_reachable svc w"
| create: "inmem_reachable svc w \<Longrightarrow> inmem_create_bus svc req w = (r, w') \<Longrightarrow> inmem_reachable svc w'"
| commit: "inmem_reachable svc w \<Longrightarrow> inmem_commit_intention svc creq w = Some (r', w') \<Longrightarrow> inmem_reachable svc w'"
| foreign: "inmem_reachable svc w \<Longrightarrow> mem_append (ims_bus svc) areq w = (r'', w') \<Longrightarrow> inmem_reachable svc w'"

definition keeps_ok :: "'z inmem_world_scheme \<Rightarrow> 'z inmem_world_scheme \<Rightarrow> bool" where
  "keeps_ok w w' \<longleftrightarrow> ((\<forall>b. state_ok b w) \<longrightarrow> (\<forall>b. state_ok b w'))"

lemma keeps_ok_refl_trans: "reflp keeps_ok" "transp keeps_ok"
  by (auto simp: keeps_ok_def intro!: reflpI transpI)

lemma untouched_keeps: "untouched_state w w' \<Longrightarrow> keeps_ok w w'"
  by (simp add: untouched_state_def keeps_ok_def state_ok_def mem_inv_def mem_log_def)

lemma policy_state_keeps: "moves keeps_ok (modifyE (\<lambda>w. w\<lparr>iw_policy_state := f w\<rparr>))"
  by (simp add: moves_def modifyE_def keeps_ok_def state_ok_def)

context inmem_env
begin

lemma append_keeps: "moves keeps_ok (mem_append (ims_bus svc) req)"
  unfolding moves_def
proof
  fix w
  obtain r w' where run: "mem_append (ims_bus svc) req w = (r, w')" by fastforce
  have ev: "mem_evolves w w'" using movesD[OF mem_append_evolves[OF keeps] run] .
  obtain wall w0 where wall: "env_unsafe_wall_time (mb_environment (ims_bus svc)) w = (wall, w0)" by fastforce
  have "iw_replay_state w' = iw_replay_state w"
    using run wall clock[OF wall] no_ttl
    by (auto simp: mem_append_def mem_check_def untouched_state_def split: prod.splits sum.splits)
  moreover have "prefix (mem_log w b) (mem_log w' b)" for b
    using ev by (auto simp: mem_evolves_def mem_log_def map_mono_prefix)
  ultimately show "keeps_ok w (snd (mem_append (ims_bus svc) req w))"
    using ev run by (auto simp: keeps_ok_def state_ok_def mem_evolves_def prefix_def) (metis replayed_append)
qed

lemma provider_keeps: "moves keeps_ok (ims_policy_provider svc b)"
  unfolding moves_def using provider untouched_keeps by (metis surjective_pairing)

lemma reconcile_keeps: "moves keeps_ok (reconcile_policy svc b)"
  unfolding reconcile_policy_def
  by (intro moves_bindE keeps_ok_refl_trans moves_map_errE append_keeps provider_keeps moves_asks policy_state_keeps)
    (auto intro!: moves_bindE moves_map_errE append_keeps policy_state_keeps keeps_ok_refl_trans moves_raise moves_ret split: option.split)

lemma create_keeps: "moves keeps_ok (inmem_create_bus svc req)"
proof -
  have "moves keeps_ok (modifyE (\<lambda>w. if iw_policy_state w b = None then w\<lparr>iw_policy_state := (iw_policy_state w)(b \<mapsto> q)\<rparr> else w))" for b q
    by (simp add: moves_def modifyE_def keeps_ok_def state_ok_def)
  then show ?thesis
    unfolding inmem_create_bus_def
    by (auto intro!: moves_bindE moves_map_errE append_keeps provider_keeps keeps_ok_refl_trans moves_raise moves_ret split: option.split)
qed

lemma commit_keeps:
  assumes "inmem_commit_intention svc req w = Some (r, w')"
  shows "keeps_ok w w'"
proof (cases "valid_bus (ci_bus_id req)")
  case True
  show ?thesis
    unfolding keeps_ok_def
  proof (intro impI allI)
    fix b assume ok: "\<forall>b. state_ok b w"
    then have ok0: "state_ok (ci_bus_id req) w" by blast
    obtain r2 w2 ds where run: "inmem_commit_intention svc req w = Some (r2, w2)"
      "mem_log w2 = (mem_log w)(ci_bus_id req := mem_log w (ci_bus_id req) @ ds)" "state_ok (ci_bus_id req) w2"
      and same: "\<And>b'. b' \<noteq> ci_bus_id req \<Longrightarrow> iw_replay_state w2 b' = iw_replay_state w b'"
      using commit_decides[OF True ok0] by metis
    have "state_ok b w2" using ok run(2,3) same by (cases "b = ci_bus_id req") (auto simp: state_ok_def)
    then show "state_ok b w'" using run(1) assms by simp
  qed
next
  case False
  define m where "m = bindE (reconcile_policy svc (ci_bus_id req)) (\<lambda>policy_version.
      map_errE commit_error_from_bus (mem_append (ims_bus svc) \<lparr>ar_bus_id = Some (ci_bus_id req),
        ar_payload = Some (im_intention_to_payload (ci_intention req) policy_version)\<rparr>))"
  have m: "moves keeps_ok m"
    unfolding m_def by (intro moves_bindE keeps_ok_refl_trans reconcile_keeps moves_map_errE append_keeps)
  obtain x w1 where run: "m w = (x, w1)" by fastforce
  have "\<exists>e. x = Inl e"
    using run False by (auto simp: m_def bindE_def map_errE_def mem_append_def split: prod.splits sum.splits)
  then have "w' = w1" using assms run by (auto simp: inmem_commit_intention_def m_def)
  then show ?thesis using movesD[OF m run] by simp
qed

lemma reachable_ok: "inmem_reachable svc w \<Longrightarrow> state_ok b w"
proof (induction arbitrary: b rule: inmem_reachable.induct)
  case (start w)
  then show ?case by (simp add: state_ok_def mem_inv_def mem_log_def stored_def well_numbered_def)
next
  case (create w req r w')
  then show ?case using movesD[OF create_keeps create(2)] by (simp add: keeps_ok_def)
next
  case (commit w creq r' w')
  then show ?case using commit_keeps[OF commit(2)] by (simp add: keeps_ok_def)
next
  case (foreign w areq r'' w')
  then show ?case using movesD[OF append_keeps foreign(2)] by (simp add: keeps_ok_def)
qed

end

text \<open>
  C30. The two commit services read the same policy from a log: in every reachable state of the in-memory service,
  wherever the engine's fold of the log up to the replayed position is defined, it has the version and the decider
  policy of the replay state.
\<close>
theorem inmem_policy_agrees_with_engine:
  assumes "calm_service svc" "inmem_reachable svc w" "iw_replay_state w b = Some st"
    and "replay check (mem_log w b) (nat (rs_next_position st)) = Some v"
  shows "pv_version v = map_option fst (rs_policy st) \<and>
    (\<forall>vp. pv_decider v = Some vp \<longrightarrow> decider_policy_try_from (vp_policy vp) = map_option snd (rs_policy st))"
  using inmem_env.reachable_ok[OF calm_service_env[OF assms(1)] assms(2), of b] assms(3,4)
  by (auto simp: state_ok_def replayed_def policy_agrees_def split: option.splits)

definition replayed_world :: inmem_world where
  "replayed_world = snd (the (inmem_commit_intention (inmem_new (sim_environment step_backoff))
     \<lparr>ci_bus_id = ''bus'', ci_intention = StringIntention ''ls''\<rparr> empty_inmem_world))"

theorem inmem_policy_agrees_with_engine_witness:
  "\<exists>st v. iw_replay_state replayed_world ''bus'' = Some st \<and>
     replay (\<lambda>c. c) (mem_log replayed_world ''bus'') (nat (rs_next_position st)) = Some v \<and> pv_version v = Some STATIC_VERSION"
proof -
  let ?svc = "inmem_new (sim_environment step_backoff) :: (inmem_world, unit) inmem_service"
  let ?run = "inmem_commit_intention ?svc \<lparr>ci_bus_id = ''bus'', ci_intention = StringIntention ''ls''\<rparr> empty_inmem_world"
  have ok: "?run \<noteq> None" by code_simp
  then have "?run = Some (fst (the ?run), replayed_world)" by (auto simp: replayed_world_def)
  then have reach: "inmem_reachable ?svc replayed_world"
    by (rule inmem_reachable.commit[rotated]) (simp add: inmem_reachable.start empty_inmem_world_def)
  have "map_option (\<lambda>st. map_option pv_version (replay (\<lambda>c. c) (mem_log replayed_world ''bus'') (nat (rs_next_position st))))
      (iw_replay_state replayed_world ''bus'') = Some (Some (Some STATIC_VERSION))" by code_simp
  then obtain st v where st: "iw_replay_state replayed_world ''bus'' = Some st"
    "replay (\<lambda>c. c) (mem_log replayed_world ''bus'') (nat (rs_next_position st)) = Some v" "pv_version v = Some STATIC_VERSION"
    by auto
  from inmem_policy_agrees_with_engine[OF sim_static_calm reach this(1,2)] st show ?thesis by auto
qed

section \<open>A policy that is never adopted\<close>

text \<open>
  When a bus already has entries, its creation does not record the applied version (\<open>late_world_created\<close>).  When the
  provider moves on, the next policy batch is appended with no expected version, which replay ignores, but the service
  counts it as applied: every intention then asks for a version the replay state never reaches.
\<close>
definition fixed_provider :: "int \<Rightarrow> int \<Rightarrow> string \<Rightarrow> (inmem_world, unit, versioned_policy_state) eff" where
  "fixed_provider policy version b = ret \<lparr>vps_state = \<lparr>pol_decider_policy = Some policy, pol_voters = []\<rparr>, vps_version = version\<rparr>"

definition provider_service :: "int \<Rightarrow> (inmem_world, unit) inmem_service" where
  "provider_service version = inmem_with_policy_provider (sim_environment step_backoff) (fixed_provider 1 version)"

definition late_entry :: "int \<Rightarrow> payload \<Rightarrow> stored_entry" where
  "late_entry position p = \<lparr>se_entry = \<lparr>entry_header = Some \<lparr>log_position = position, rt_timestamp_ms = 0\<rparr>, entry_payload = Some p\<rparr>,
     se_written_at = None\<rparr>"

definition version_batch :: "int \<Rightarrow> payload" where
  "version_batch v = policy_batch_payload \<lparr>pb_decider_policy = Some 1, pb_voter_ops = [], pb_expected_current_version = None, pb_new_version = v\<rparr>"

definition late_world :: inmem_world where
  "late_world = empty_inmem_world\<lparr>mw_buses := [''bus'' \<mapsto> [late_entry 0 (Some (AgentInput None)), late_entry 1 (version_batch 1)]]\<rparr>"

lemma late_world_created:
  "inmem_create_bus (provider_service 1) \<lparr>cb_bus_id = ''bus''\<rparr>
     (snd (mem_append (ims_bus (provider_service 1)) \<lparr>ar_bus_id = Some ''bus'', ar_payload = Some (Some (AgentInput None))\<rparr> empty_inmem_world))
   = (Inr (), late_world)"
proof -
  have valid: "valid_bus ''bus''" by code_simp
  show ?thesis
    by (simp add: valid inmem_create_bus_def eff_defs provider_service_def inmem_with_policy_provider_def fixed_provider_def get_decider_policy_def
        decider_policy_try_from_def mem_append_def mem_check_def state_append_def Let_def sim_environment_def clock_unsafe_wall_time_def
        late_world_def late_entry_def version_batch_def empty_inmem_world_def as_millis_def wrap_i64_def)
qed

theorem late_creation_never_adopts:
  "fst (the (inmem_commit_intention (provider_service 2) \<lparr>ci_bus_id = ''bus'', ci_intention = StringIntention ''ls''\<rparr> late_world)) =
   Inr \<lparr>co_approved = False, co_reason = ''policy version constraint not satisfied'', co_log_position = 3\<rparr>"
  by code_simp

end
