(* ===== verification/Write_Once.thy ===== *)
theory Write_Once
  imports Memory_Bus
begin

text \<open>
  Write-once and conditional-write address spaces: the traits and errors of \<open>bus/api/src\<close>
  (\<open>write_once_space.rs\<close>, \<open>tailable_space.rs\<close>, \<open>conditional_write_space.rs\<close>), the in-memory
  write-once space (\<open>bus/impls/writeonce/src/in_memory_write_once_space.rs\<close> and
  \<open>in_memory_write_once_space_state.rs\<close>), the in-memory conditional-write space and the adapter that
  turns a conditional-write space into a write-once one
  (\<open>bus/impls/conditional_write_space/src\<close>).  The locale \<open>wo_space\<close> is the contract of a write-once
  space under interference.

  Addresses are natural numbers: an in-memory map never holds \<open>2 ^ 63\<close> entries, so \<open>max_addr + 1\<close> and
  the casts between \<open>u64\<close> and \<open>i64\<close> are exact for addresses written at the tail.
\<close>

text \<open>Stored values are a type parameter \<open>'v\<close>: they are only produced and read by codecs.  Version tokens are
  byte strings.\<close>
type_synonym bytes = string

section \<open>The traits\<close>

text \<open>\<open>WoPanicked\<close> and \<open>CondPanicked\<close> stand for a call that unwinds.\<close>
datatype write_once_error = AddressAlreadyExists nat | WoTransactionConflict | WoTimeout | WoBackendUnavailable
  | WoInternalError | WoPanicked

datatype tail_error = TailBackendUnavailable | ZeroWindowSize

record ('v, 'w) write_once_space =
  wo_write :: "string \<Rightarrow> nat \<Rightarrow> 'v \<Rightarrow> ('w, write_once_error, unit) eff"
  wo_read :: "string \<Rightarrow> nat \<Rightarrow> ('w, write_once_error, 'v option) eff"
  wo_tail :: "string \<Rightarrow> nat \<Rightarrow> ('w, tail_error, nat) eff"

datatype conditional_write_error = CondTransactionConflict | CondTimeout | CondBackendUnavailable | CondInternalError
  | CondPanicked

record 'v versioned_value =
  vv_version :: bytes
  vv_value :: 'v

record ('v, 'w) conditional_write_space =
  cw_write :: "string \<Rightarrow> nat \<Rightarrow> bytes option \<Rightarrow> 'v \<Rightarrow> ('w, conditional_write_error, bool) eff"
  cw_read :: "string \<Rightarrow> nat \<Rightarrow> ('w, conditional_write_error, 'v versioned_value option) eff"
  cw_tail :: "string \<Rightarrow> nat \<Rightarrow> ('w, tail_error, nat) eff"

section \<open>Entries with an expiry\<close>

text \<open>The two private \<open>Entry\<close> structs differ only in the type of their value.\<close>
record 'a space_entry =
  en_value :: 'a
  en_written_at :: "nat option"

definition entry_is_live :: "'a space_entry \<Rightarrow> ttl_check option \<Rightarrow> bool" where
  "entry_is_live e chk =
     (case (en_written_at e, chk) of (Some t, Some c) \<Rightarrow> ttl_is_live c t | _ \<Rightarrow> True)"

type_synonym 'a space = "(nat \<times> 'a space_entry) list"

definition address_is_live :: "'a space \<Rightarrow> ttl_check option \<Rightarrow> nat \<Rightarrow> bool" where
  "address_is_live space chk address =
     (case map_of space address of Some e \<Rightarrow> entry_is_live e chk | None \<Rightarrow> False)"

definition live_value :: "'a space \<Rightarrow> ttl_check option \<Rightarrow> nat \<Rightarrow> 'a option" where
  "live_value space chk address =
     (case map_of space address of Some e \<Rightarrow> if entry_is_live e chk then Some (en_value e) else None | None \<Rightarrow> None)"

section \<open>The in-memory write-once space\<close>

definition wos_write :: "(string \<rightharpoonup> 'v space) \<Rightarrow> string \<Rightarrow> nat \<Rightarrow> 'v \<Rightarrow> ttl_check option
    \<Rightarrow> (write_once_error + unit) \<times> (string \<rightharpoonup> 'v space)" where
  "wos_write spaces space_id address v chk =
     (let space = (case spaces space_id of Some s \<Rightarrow> s | None \<Rightarrow> []) in
      if address_is_live space chk address then (Inl (AddressAlreadyExists address), spaces(space_id \<mapsto> space))
      else (Inr (), spaces(space_id \<mapsto>
             AList.update address \<lparr>en_value = v, en_written_at = map_option tc_now chk\<rparr> space)))"

definition wos_read :: "(string \<rightharpoonup> 'v space) \<Rightarrow> string \<Rightarrow> nat \<Rightarrow> ttl_check option \<Rightarrow> 'v option" where
  "wos_read spaces space_id address chk =
     (case spaces space_id of None \<Rightarrow> None | Some space \<Rightarrow> live_value space chk address)"

definition wos_tail :: "(string \<rightharpoonup> 'a space) \<Rightarrow> string \<Rightarrow> nat \<Rightarrow> ttl_check option \<Rightarrow> nat" where
  "wos_tail spaces space_id window_size chk =
     (case spaces space_id of
        None \<Rightarrow> 0
      | Some space \<Rightarrow>
          (case filter (address_is_live space chk) (map fst space) of
             [] \<Rightarrow> 0
           | a # as \<Rightarrow>
               let stop = foldl max a as + 1
               in (case find (\<lambda>addr. \<not> address_is_live space chk addr) [stop - window_size ..< stop] of
                     Some addr \<Rightarrow> addr
                   | None \<Rightarrow> stop)))"

text \<open>The world of the in-memory spaces: the clock and both kinds of space.\<close>
record 'v wo_world = mem_world +
  ww_spaces :: "string \<rightharpoonup> 'v space"
  ww_cond :: "string \<rightharpoonup> 'v versioned_value space"

text \<open>\<open>self.ttl.as_ref().map(WallClockTtl::check)\<close>; the environment and lifetime are those of \<open>mem_bus\<close>.\<close>
definition in_memory_write :: "('v, 'z) wo_world_scheme mem_bus \<Rightarrow> string \<Rightarrow> nat \<Rightarrow> 'v
    \<Rightarrow> (('v, 'z) wo_world_scheme, write_once_error, unit) eff" where
  "in_memory_write mb space_id address v w =
     (case mem_check mb w of (chk, w1) \<Rightarrow>
        (case wos_write (ww_spaces w1) space_id address v chk of (r, spaces) \<Rightarrow> (r, w1\<lparr>ww_spaces := spaces\<rparr>)))"

definition in_memory_read :: "('v, 'z) wo_world_scheme mem_bus \<Rightarrow> string \<Rightarrow> nat
    \<Rightarrow> (('v, 'z) wo_world_scheme, write_once_error, 'v option) eff" where
  "in_memory_read mb space_id address w =
     (case mem_check mb w of (chk, w1) \<Rightarrow> (Inr (wos_read (ww_spaces w1) space_id address chk), w1))"

definition in_memory_tail :: "('v, 'z) wo_world_scheme mem_bus \<Rightarrow> string \<Rightarrow> nat \<Rightarrow> (('v, 'z) wo_world_scheme, tail_error, nat) eff" where
  "in_memory_tail mb space_id window_size w =
     (if window_size = 0 then (Inl ZeroWindowSize, w)
      else (case mem_check mb w of (chk, w1) \<Rightarrow> (Inr (wos_tail (ww_spaces w1) space_id window_size chk), w1)))"

definition in_memory_write_once_space :: "('v, 'z) wo_world_scheme mem_bus \<Rightarrow> ('v, ('v, 'z) wo_world_scheme) write_once_space" where
  "in_memory_write_once_space mb =
     \<lparr>wo_write = in_memory_write mb, wo_read = in_memory_read mb, wo_tail = in_memory_tail mb\<rparr>"

section \<open>The in-memory conditional-write space\<close>

text \<open>\<open>u64::to_be_bytes\<close> and \<open>from_be_bytes\<close>; a version that does not have eight bytes panics.\<close>
definition version_from_u64 :: "nat \<Rightarrow> bytes" where
  "version_from_u64 n = map (\<lambda>i. char_of (n div 256 ^ (7 - i) mod 256)) [0..<8]"

definition version_to_u64 :: "bytes \<Rightarrow> nat option" where
  "version_to_u64 v = (if length v = 8 then Some (foldl (\<lambda>acc c. acc * 256 + of_char c) 0 v) else None)"

text \<open>\<open>version_to_u64(&v) + 1\<close> wraps at the width of \<open>u64\<close>.\<close>
definition cond_write :: "('v, 'z) wo_world_scheme mem_bus \<Rightarrow> string \<Rightarrow> nat \<Rightarrow> bytes option \<Rightarrow> 'v
    \<Rightarrow> (('v, 'z) wo_world_scheme, conditional_write_error, bool) eff" where
  "cond_write mb space_id address expected_version v w =
     (case mem_check mb w of (chk, w1) \<Rightarrow>
        let space = (case ww_cond w1 space_id of Some s \<Rightarrow> s | None \<Rightarrow> []);
            w2 = w1\<lparr>ww_cond := (ww_cond w1)(space_id \<mapsto> space)\<rparr>
        in if expected_version \<noteq> map_option vv_version (live_value space chk address) then (Inr False, w2)
           else (case (case expected_version of None \<Rightarrow> Some 0
                       | Some ver \<Rightarrow> map_option (\<lambda>n. (n + 1) mod 2 ^ 64) (version_to_u64 ver)) of
                   None \<Rightarrow> (Inl CondPanicked, w2)
                 | Some next_version \<Rightarrow>
                     (Inr True, w1\<lparr>ww_cond := (ww_cond w1)(space_id \<mapsto> AList.update address
                        \<lparr>en_value = \<lparr>vv_version = version_from_u64 next_version, vv_value = v\<rparr>,
                         en_written_at = map_option tc_now chk\<rparr> space)\<rparr>)))"

definition cond_read :: "('v, 'z) wo_world_scheme mem_bus \<Rightarrow> string \<Rightarrow> nat
    \<Rightarrow> (('v, 'z) wo_world_scheme, conditional_write_error, 'v versioned_value option) eff" where
  "cond_read mb space_id address w =
     (case mem_check mb w of (chk, w1) \<Rightarrow>
        (Inr (case ww_cond w1 space_id of None \<Rightarrow> None | Some space \<Rightarrow> live_value space chk address), w1))"

definition cond_tail :: "('v, 'z) wo_world_scheme mem_bus \<Rightarrow> string \<Rightarrow> nat \<Rightarrow> (('v, 'z) wo_world_scheme, tail_error, nat) eff" where
  "cond_tail mb space_id window_size w =
     (if window_size = 0 then (Inl ZeroWindowSize, w)
      else (case mem_check mb w of (chk, w1) \<Rightarrow> (Inr (wos_tail (ww_cond w1) space_id window_size chk), w1)))"

definition in_memory_conditional_write_space :: "('v, 'z) wo_world_scheme mem_bus \<Rightarrow> ('v, ('v, 'z) wo_world_scheme) conditional_write_space" where
  "in_memory_conditional_write_space mb =
     \<lparr>cw_write = cond_write mb, cw_read = cond_read mb, cw_tail = cond_tail mb\<rparr>"

section \<open>The adapter\<close>

fun map_conditional_write_error :: "conditional_write_error \<Rightarrow> write_once_error" where
  "map_conditional_write_error CondTransactionConflict = WoTransactionConflict"
| "map_conditional_write_error CondTimeout = WoTimeout"
| "map_conditional_write_error CondBackendUnavailable = WoBackendUnavailable"
| "map_conditional_write_error CondInternalError = WoInternalError"
| "map_conditional_write_error CondPanicked = WoPanicked"

definition adapter_write :: "('v, 'w) conditional_write_space \<Rightarrow> string \<Rightarrow> nat \<Rightarrow> 'v \<Rightarrow> ('w, write_once_error, unit) eff" where
  "adapter_write C space_id address v =
     bindE (map_errE map_conditional_write_error (cw_write C space_id address None v))
       (\<lambda>wrote. if wrote then ret () else raise (AddressAlreadyExists address))"

definition adapter_read :: "('v, 'w) conditional_write_space \<Rightarrow> string \<Rightarrow> nat \<Rightarrow> ('w, write_once_error, 'v option) eff" where
  "adapter_read C space_id address =
     bindE (map_errE map_conditional_write_error (cw_read C space_id address)) (\<lambda>v. ret (map_option vv_value v))"

definition write_once_space_adapter :: "('v, 'w) conditional_write_space \<Rightarrow> ('v, 'w) write_once_space" where
  "write_once_space_adapter C = \<lparr>wo_write = adapter_write C, wo_read = adapter_read C, wo_tail = cw_tail C\<rparr>"

section \<open>The contract of a write-once space\<close>

text \<open>
  A written address keeps its value; a write that reports success wrote an empty address at some
  moment of the call, and one that reports an existing address wrote nothing; a read sees some
  moment of the call; over a contiguous space the reported tail lies between the tail before and the
  tail after the call.  \<open>sinv\<close> is the invariant of the implementation.
\<close>

locale wo_space =
  fixes Sp :: "('v, 'w) write_once_space"
    and cells :: "'w \<Rightarrow> string \<Rightarrow> nat \<Rightarrow> 'v option"
    and sinv :: "'w \<Rightarrow> bool"
    and evolves :: "'w \<Rightarrow> 'w \<Rightarrow> bool"
    and writes :: "'w \<Rightarrow> string \<Rightarrow> nat \<Rightarrow> 'v \<Rightarrow> 'w \<Rightarrow> bool"
  assumes evolves_refl: "evolves w w"
    and evolves_trans: "evolves w w1 \<Longrightarrow> evolves w1 w2 \<Longrightarrow> evolves w w2"
    and evolves_sinv: "evolves w w1 \<Longrightarrow> sinv w \<Longrightarrow> sinv w1"
    and evolves_cells: "evolves w w1 \<Longrightarrow> sinv w \<Longrightarrow> cells w s a = Some v \<Longrightarrow> cells w1 s a = Some v"
    and writes_sinv: "writes w s a v w1 \<Longrightarrow> sinv w \<Longrightarrow> cells w s a = None \<Longrightarrow> sinv w1"
    and writes_cells: "writes w s a v w1 \<Longrightarrow> sinv w \<Longrightarrow> cells w1 = (cells w)(s := (cells w s)(a \<mapsto> v))"
    and write_law: "sinv w \<Longrightarrow> wo_write Sp s a v w = (r, w') \<Longrightarrow>
        (evolves w w' \<and> r \<noteq> Inr ()) \<or>
        (\<exists>w1 w2. evolves w w1 \<and> cells w1 s a = None \<and> writes w1 s a v w2 \<and> evolves w2 w' \<and>
           (\<forall>x. r \<noteq> Inl (AddressAlreadyExists x)))"
    and read_law: "sinv w \<Longrightarrow> wo_read Sp s a w = (g, w') \<Longrightarrow>
        \<exists>w1. evolves w w1 \<and> evolves w1 w' \<and> (\<forall>x. g = Inr x \<longrightarrow> x = cells w1 s a)"
    and tail_law: "sinv w \<Longrightarrow> 0 < n \<Longrightarrow> wo_tail Sp s n w = (t, w') \<Longrightarrow>
        evolves w w' \<and> (\<forall>p k k'. t = Inr p \<longrightarrow> dom (cells w s) = {..<k} \<longrightarrow> dom (cells w' s) = {..<k'} \<longrightarrow> k \<le> p \<and> p \<le> k')"

section \<open>The in-memory spaces keep the contract\<close>

text \<open>The contents without expiry, for either kind of value.\<close>
definition space_cells :: "('a \<Rightarrow> 'v) \<Rightarrow> (string \<rightharpoonup> 'a space) \<Rightarrow> string \<Rightarrow> nat \<Rightarrow> 'v option" where
  "space_cells val spaces s a =
     (case spaces s of None \<Rightarrow> None | Some space \<Rightarrow> map_option (val \<circ> en_value) (map_of space a))"

lemma live_without_expiry [simp]:
  "entry_is_live e None" "address_is_live space None a \<longleftrightarrow> map_of space a \<noteq> None"
  "live_value space None a = map_option en_value (map_of space a)"
  by (auto simp: entry_is_live_def address_is_live_def live_value_def split: option.split)

lemma mem_check_no_ttl [simp]: "mb_ttl mb = None \<Longrightarrow> mem_check mb w = (None, w)"
  by (simp add: mem_check_def)

lemma foldl_max_Max: "foldl max (a::nat) as = Max (set (a # as))"
proof (induction as arbitrary: a)
  case (Cons b as)
  then show ?case by (cases "as = []") (auto simp: max.assoc)
qed simp

text \<open>Over a contiguous space the in-memory tail is the number of written addresses.\<close>
lemma wos_tail_contiguous:
  assumes "dom (space_cells val spaces s) = {..<k}" "0 < n"
  shows "wos_tail spaces s n None = k"
proof (cases "spaces s")
  case None
  then have "dom (space_cells val spaces s) = {}" by (auto simp: space_cells_def)
  then show ?thesis using assms(1) None by (simp add: wos_tail_def lessThan_empty_iff[symmetric])
next
  case (Some space)
  have "dom (space_cells val spaces s) = dom (map_of space)" using Some by (auto simp: space_cells_def dom_def)
  then have dom: "dom (map_of space) = {..<k}" using assms(1) by simp
  have live: "filter (address_is_live space None) (map fst space) = map fst space"
    by (auto simp: filter_id_conv map_of_eq_None_iff)
  have keys: "set (map fst space) = {..<k}" using dom by (simp add: dom_map_of_conv_image_fst)
  show ?thesis
  proof (cases space)
    case Nil
    then show ?thesis using Some keys by (auto simp: wos_tail_def lessThan_empty_iff[symmetric])
  next
    case (Cons x xs)
    have "foldl max (fst x) (map fst xs) = Max {..<k}"
      using keys Cons by (simp add: foldl_max_Max)
    moreover have "k \<noteq> 0"
    proof
      assume "k = 0"
      then have "set (map fst space) = {}" unfolding keys by simp
      then show False using Cons by simp
    qed
    then have "{..<k} \<noteq> {}" "Max {..<k} = k - 1" by (auto intro!: Max_eqI)
    ultimately have stop: "foldl max (fst x) (map fst xs) + 1 = k" using \<open>k \<noteq> 0\<close> by simp
    have scan: "find (\<lambda>addr. \<not> address_is_live space None addr) [k - n..<k] = None"
      using dom by (auto simp: find_None_iff dom_def)
    have keys': "filter (address_is_live space None) (map fst space) = fst x # map fst xs"
      unfolding live by (simp add: Cons)
    show ?thesis
      by (simp only: wos_tail_def Some option.case keys' list.case Let_def stop scan)
  qed
qed

text \<open>Spaces that only gain entries; \<open>P\<close> is what the users of the space maintain of its contents.\<close>
definition cells_evolve :: "((string \<Rightarrow> nat \<Rightarrow> 'v option) \<Rightarrow> bool) \<Rightarrow> (string \<Rightarrow> nat \<Rightarrow> 'v option)
    \<Rightarrow> (string \<Rightarrow> nat \<Rightarrow> 'v option) \<Rightarrow> bool" where
  "cells_evolve P c c' \<longleftrightarrow> (\<forall>s. c s \<subseteq>\<^sub>m c' s) \<and> (P c \<longrightarrow> P c')"

lemma cells_evolve_refl [simp]: "cells_evolve P c c"
  by (simp add: cells_evolve_def)

lemma cells_evolve_trans: "cells_evolve P c c1 \<Longrightarrow> cells_evolve P c1 c2 \<Longrightarrow> cells_evolve P c c2"
  unfolding cells_evolve_def by (meson map_le_trans)

definition wom_cells :: "('v, 'z) wo_world_scheme \<Rightarrow> string \<Rightarrow> nat \<Rightarrow> 'v option" where
  "wom_cells w = space_cells id (ww_spaces w)"

definition wom_evolves :: "((string \<Rightarrow> nat \<Rightarrow> 'v option) \<Rightarrow> bool) \<Rightarrow> ('v, 'z) wo_world_scheme \<Rightarrow> ('v, 'z) wo_world_scheme \<Rightarrow> bool" where
  "wom_evolves P w w' = cells_evolve P (wom_cells w) (wom_cells w')"

definition wom_writes :: "('v, 'z) wo_world_scheme \<Rightarrow> string \<Rightarrow> nat \<Rightarrow> 'v \<Rightarrow> ('v, 'z) wo_world_scheme \<Rightarrow> bool" where
  "wom_writes w s a v w' \<longleftrightarrow> wom_cells w' = (wom_cells w)(s := (wom_cells w s)(a \<mapsto> v))"

lemma space_cells_update:
  "space_cells val (spaces(s \<mapsto> AList.update a e (case spaces s of Some sp \<Rightarrow> sp | None \<Rightarrow> []))) =
   (space_cells val spaces)(s := (space_cells val spaces s)(a \<mapsto> val (en_value e)))"
  by (auto simp: space_cells_def fun_eq_iff update_conv' split: option.split)

lemma space_cells_touch [simp]:
  "space_cells val (spaces(s \<mapsto> (case spaces s of Some sp \<Rightarrow> sp | None \<Rightarrow> []))) = space_cells val spaces"
  by (auto simp: space_cells_def fun_eq_iff split: option.split)

lemma wos_write_cases:
  obtains (taken) "wos_write spaces s a v None = (Inl (AddressAlreadyExists a), spaces(s \<mapsto> (case spaces s of Some sp \<Rightarrow> sp | None \<Rightarrow> [])))"
      "space_cells id spaces s a \<noteq> None"
  | (written) "wos_write spaces s a v None = (Inr (), spaces(s \<mapsto> AList.update a \<lparr>en_value = v, en_written_at = None\<rparr>
        (case spaces s of Some sp \<Rightarrow> sp | None \<Rightarrow> [])))" "space_cells id spaces s a = None"
  by (cases "space_cells id spaces s a = None")
    (auto simp: wos_write_def Let_def space_cells_def split: option.splits)

locale memory_wo_space =
  fixes mb :: "('v, 'z) wo_world_scheme mem_bus" and P :: "(string \<Rightarrow> nat \<Rightarrow> 'v option) \<Rightarrow> bool"
  assumes no_ttl: "mb_ttl mb = None"

sublocale memory_wo_space \<subseteq> wo_space "in_memory_write_once_space mb" wom_cells "\<lambda>_. True" "wom_evolves P" wom_writes
proof (standard, goal_cases)
  case (2 w w1 w2)
  then show ?case unfolding wom_evolves_def by (rule cells_evolve_trans)
next
  case (4 w w1 s a v)
  then show ?case by (auto simp: wom_evolves_def cells_evolve_def map_le_def dom_def)
next
  case (7 w s a v r w')
  show ?case
  proof (cases rule: wos_write_cases[of "ww_spaces w" s a v])
    case taken
    then show ?thesis using 7 no_ttl
      by (auto simp: in_memory_write_once_space_def in_memory_write_def wom_evolves_def wom_cells_def)
  next
    case written
    then have "r = Inr ()" "wom_writes w s a v w'" "wom_cells w s a = None"
      using 7 no_ttl
      by (auto simp: in_memory_write_once_space_def in_memory_write_def wom_writes_def wom_cells_def space_cells_update)
    then show ?thesis by (intro disjI2 exI[of _ w] exI[of _ w']) (auto simp: wom_evolves_def)
  qed
next
  case (8 w s a g w')
  then show ?case using no_ttl
    by (intro exI[of _ w]) (auto simp: in_memory_write_once_space_def in_memory_read_def wom_evolves_def wos_read_def
        wom_cells_def space_cells_def split: option.split)
next
  case (9 w n s t w')
  then show ?case using no_ttl wos_tail_contiguous[of id "ww_spaces w" s _ n]
    by (auto simp: in_memory_write_once_space_def in_memory_tail_def wom_evolves_def wom_cells_def lessThan_eq_iff)
qed (auto simp: wom_evolves_def wom_writes_def)

interpretation sim_wo_space: memory_wo_space "\<lparr>mb_environment = env, mb_ttl = None\<rparr>" P for env P
  by standard simp

section \<open>The contract of a conditional-write space, and the adapter\<close>

locale cond_space =
  fixes C :: "('v, 'w) conditional_write_space"
    and vcells :: "'w \<Rightarrow> string \<Rightarrow> nat \<Rightarrow> 'v versioned_value option"
    and evolves :: "'w \<Rightarrow> 'w \<Rightarrow> bool"
    and cwrites :: "'w \<Rightarrow> string \<Rightarrow> nat \<Rightarrow> 'v versioned_value \<Rightarrow> 'w \<Rightarrow> bool"
  assumes evolves_refl: "evolves w w"
    and evolves_trans: "evolves w w1 \<Longrightarrow> evolves w1 w2 \<Longrightarrow> evolves w w2"
    and evolves_dom: "evolves w w1 \<Longrightarrow> vcells w s a \<noteq> None \<Longrightarrow> vcells w1 s a \<noteq> None"
    and cwrites_vcells: "cwrites w s a x w1 \<Longrightarrow> vcells w1 = (vcells w)(s := (vcells w s)(a \<mapsto> x))"
    and cwrite_law: "cw_write C s a expected v w = (r, w') \<Longrightarrow>
        (evolves w w' \<and> r \<noteq> Inr True) \<or>
        (\<exists>w1 w2 ver. evolves w w1 \<and> map_option vv_version (vcells w1 s a) = expected \<and>
           cwrites w1 s a \<lparr>vv_version = ver, vv_value = v\<rparr> w2 \<and> evolves w2 w' \<and> r \<noteq> Inr False)"
    and cread_law: "cw_read C s a w = (g, w') \<Longrightarrow>
        \<exists>w1. evolves w w1 \<and> evolves w1 w' \<and> (\<forall>x. g = Inr x \<longrightarrow> x = vcells w1 s a)"
    and ctail_law: "0 < n \<Longrightarrow> cw_tail C s n w = (t, w') \<Longrightarrow>
        evolves w w' \<and> (\<forall>p k k'. t = Inr p \<longrightarrow> dom (vcells w s) = {..<k} \<longrightarrow> dom (vcells w' s) = {..<k'} \<longrightarrow> k \<le> p \<and> p \<le> k')"

text \<open>A space whose clients only ever write empty addresses, as clients of the adapter do.\<close>
locale cond_space_append_only = cond_space +
  assumes evolves_value: "evolves w w1 \<Longrightarrow> vcells w s a = Some x \<Longrightarrow> \<exists>y. vcells w1 s a = Some y \<and> vv_value y = vv_value x"

definition adapter_cells :: "('w \<Rightarrow> string \<Rightarrow> nat \<Rightarrow> 'v versioned_value option) \<Rightarrow> 'w \<Rightarrow> string \<Rightarrow> nat \<Rightarrow> 'v option" where
  "adapter_cells vc w s a = map_option vv_value (vc w s a)"

lemma adapter_cells_dom: "dom (adapter_cells vc w s) = dom (vc w s)"
  by (auto simp: adapter_cells_def dom_def)

sublocale cond_space_append_only \<subseteq> adapter: wo_space "write_once_space_adapter C" "adapter_cells vcells" "\<lambda>_. True" evolves
  "\<lambda>w s a v w1. \<exists>ver. cwrites w s a \<lparr>vv_version = ver, vv_value = v\<rparr> w1"
proof (standard, goal_cases)
  case (2 w w1 w2)
  then show ?case by (rule evolves_trans)
next
  case (4 w w1 s a v)
  then show ?case using evolves_value by (fastforce simp: adapter_cells_def)
next
  case (6 w s a v w1)
  then obtain ver where "vcells w1 = (vcells w)(s := (vcells w s)(a \<mapsto> \<lparr>vv_version = ver, vv_value = v\<rparr>))"
    using cwrites_vcells by blast
  then show ?case by (auto simp: adapter_cells_def fun_eq_iff)
next
  case (7 w s a v r w')
  obtain r0 where call: "cw_write C s a None v w = (r0, w')"
    and r: "r = (case r0 of Inl e \<Rightarrow> Inl (map_conditional_write_error e) | Inr b \<Rightarrow> if b then Inr () else Inl (AddressAlreadyExists a))"
    using 7(2) by (auto simp: write_once_space_adapter_def adapter_write_def eff_defs split: prod.splits sum.splits if_splits)
  have noAE: "map_conditional_write_error e \<noteq> AddressAlreadyExists x" for e x by (cases e) simp_all
  from cwrite_law[OF call] show ?case
  proof
    assume "\<exists>w1 w2 ver. evolves w w1 \<and> map_option vv_version (vcells w1 s a) = None \<and>
       cwrites w1 s a \<lparr>vv_version = ver, vv_value = v\<rparr> w2 \<and> evolves w2 w' \<and> r0 \<noteq> Inr False"
    then show ?thesis using r noAE by (intro disjI2) (auto simp: adapter_cells_def split: sum.splits)
  qed (use r in \<open>auto split: sum.splits\<close>)
next
  case (8 w s a g w')
  obtain g0 where call: "cw_read C s a w = (g0, w')"
    and g: "g = (case g0 of Inl e \<Rightarrow> Inl (map_conditional_write_error e) | Inr x \<Rightarrow> Inr (map_option vv_value x))"
    using 8(2) by (auto simp: write_once_space_adapter_def adapter_read_def eff_defs split: prod.splits sum.splits)
  from cread_law[OF call] show ?case using g by (auto simp: adapter_cells_def split: sum.splits)
next
  case (9 w n s t w')
  then show ?case
    using ctail_law[of n s w t w'] by (simp add: write_once_space_adapter_def adapter_cells_dom)
qed (auto intro: evolves_refl)

text \<open>The in-memory conditional space; \<open>P\<close> is what its users maintain of the stored bytes.\<close>

definition cond_cells :: "('v, 'z) wo_world_scheme \<Rightarrow> string \<Rightarrow> nat \<Rightarrow> 'v versioned_value option" where
  "cond_cells w s a = (case ww_cond w s of None \<Rightarrow> None | Some space \<Rightarrow> map_option en_value (map_of space a))"

definition cond_evolves :: "((string \<Rightarrow> nat \<Rightarrow> 'v option) \<Rightarrow> bool) \<Rightarrow> ('v, 'z) wo_world_scheme \<Rightarrow> ('v, 'z) wo_world_scheme \<Rightarrow> bool" where
  "cond_evolves P w w' = cells_evolve P (adapter_cells cond_cells w) (adapter_cells cond_cells w')"

definition cond_writes :: "('v, 'z) wo_world_scheme \<Rightarrow> string \<Rightarrow> nat \<Rightarrow> 'v versioned_value \<Rightarrow> ('v, 'z) wo_world_scheme \<Rightarrow> bool" where
  "cond_writes w s a x w' \<longleftrightarrow> cond_cells w' = (cond_cells w)(s := (cond_cells w s)(a \<mapsto> x))"

lemma cond_cells_space: "adapter_cells cond_cells w = space_cells vv_value (ww_cond w)"
  by (auto simp: adapter_cells_def cond_cells_def space_cells_def fun_eq_iff option.map_comp split: option.split)

lemma cond_cells_update:
  "cond_cells (w\<lparr>ww_cond := (ww_cond w)(s \<mapsto> AList.update a e (case ww_cond w s of Some sp \<Rightarrow> sp | None \<Rightarrow> []))\<rparr>) =
   (cond_cells w)(s := (cond_cells w s)(a \<mapsto> en_value e))"
  by (auto simp: cond_cells_def fun_eq_iff update_conv' split: option.split)

lemma cond_live: "map_option en_value (map_of (case ww_cond w s of Some sp \<Rightarrow> sp | None \<Rightarrow> []) a) = cond_cells w s a"
  by (simp add: cond_cells_def split: option.split)

lemma cond_write_cases:
  assumes "mb_ttl mb = None"
  obtains (rejected) r where "cond_write mb s a expected v w = (r, w\<lparr>ww_cond := (ww_cond w)(s \<mapsto> (case ww_cond w s of Some sp \<Rightarrow> sp | None \<Rightarrow> []))\<rparr>)"
      "r \<noteq> Inr True"
  | (written) n w' where "cond_write mb s a expected v w = (Inr True, w')" "map_option vv_version (cond_cells w s a) = expected"
      "cond_writes w s a \<lparr>vv_version = version_from_u64 n, vv_value = v\<rparr> w'"
proof -
  let ?next = "case expected of None \<Rightarrow> Some 0 | Some ver \<Rightarrow> map_option (\<lambda>n. (n + 1) mod 2 ^ 64) (version_to_u64 ver)"
  show ?thesis
  proof (cases "map_option vv_version (cond_cells w s a) = expected")
    case False
    then show ?thesis
      using assms by (intro rejected[of "Inr False"]) (auto simp: cond_write_def Let_def cond_live)
  next
    case True
    show ?thesis
    proof (cases ?next)
      case None
      then show ?thesis
        using assms True by (intro rejected[of "Inl CondPanicked"]) (auto simp: cond_write_def Let_def cond_live)
    next
      case (Some n)
      show ?thesis
        by (rule written[OF _ True, of _ n])
          (use assms True Some in \<open>auto simp: cond_write_def Let_def cond_live cond_writes_def cond_cells_update\<close>)
    qed
  qed
qed

locale memory_cond_space =
  fixes mb :: "('v, 'z) wo_world_scheme mem_bus" and P :: "(string \<Rightarrow> nat \<Rightarrow> 'v option) \<Rightarrow> bool"
  assumes no_ttl: "mb_ttl mb = None"

sublocale memory_cond_space \<subseteq> cond_space_append_only "in_memory_conditional_write_space mb" cond_cells "cond_evolves P" cond_writes
proof (standard, goal_cases)
  case (2 w w1 w2)
  then show ?case unfolding cond_evolves_def by (rule cells_evolve_trans)
next
  case (3 w w1 s a)
  then have "adapter_cells cond_cells w1 s a \<noteq> None"
    unfolding cond_evolves_def cells_evolve_def map_le_def by (metis adapter_cells_def domIff map_option_is_None)
  then show ?case by (simp add: adapter_cells_def)
next
  case (5 s a expected v w r w')
  show ?case
  proof (cases rule: cond_write_cases[OF no_ttl, of s a expected v w])
    case (1 r')
    then show ?thesis using 5
      by (auto simp: in_memory_conditional_write_space_def cond_evolves_def cond_cells_space)
  next
    case (2 n w2)
    then show ?thesis using 5
      by (intro disjI2 exI[of _ w] exI[of _ w']) (auto simp: in_memory_conditional_write_space_def cond_evolves_def)
  qed
next
  case (6 s a w g w')
  then show ?case using no_ttl
    by (intro exI[of _ w]) (auto simp: in_memory_conditional_write_space_def cond_read_def cond_evolves_def cond_cells_def
        split: option.split)
next
  case (7 n s w t w')
  then show ?case using no_ttl wos_tail_contiguous[of vv_value "ww_cond w" s _ n]
    by (auto simp: in_memory_conditional_write_space_def cond_tail_def cond_evolves_def lessThan_eq_iff
        simp flip: cond_cells_space adapter_cells_dom[of cond_cells])
next
  case (8 w w1 s a x)
  then have "adapter_cells cond_cells w s \<subseteq>\<^sub>m adapter_cells cond_cells w1 s"
    "adapter_cells cond_cells w s a = Some (vv_value x)"
    by (simp_all add: cond_evolves_def cells_evolve_def adapter_cells_def)
  then have "adapter_cells cond_cells w1 s a = Some (vv_value x)" by (metis domI map_le_def)
  then show ?case by (auto simp: adapter_cells_def)
qed (auto simp: cond_evolves_def cond_writes_def)

interpretation sim_cond_space: memory_cond_space "\<lparr>mb_environment = env, mb_ttl = None\<rparr>" P for env P
  by standard simp

section \<open>Versions\<close>

lemma version_length [simp]: "length (version_from_u64 n) = 8"
  by (simp add: version_from_u64_def)

lemma be_bytes_fold:
  fixes n :: nat
  shows "foldl (\<lambda>acc c. acc * 256 + of_char c) 0 (map (\<lambda>i. char_of (n div 256 ^ (m - Suc i) mod 256)) [0..<m]) = n mod 256 ^ m"
proof (induction m arbitrary: n)
  case (Suc m)
  have "n div 256 ^ (m - i) = n div 256 div 256 ^ (m - Suc i)" if "i < m" for i
    using that by (metis Suc_diff_Suc div_mult2_eq power_Suc)
  then have "map (\<lambda>i. char_of (n div 256 ^ (m - i))) [0..<m] =
      map (\<lambda>i. char_of (n div 256 div 256 ^ (m - Suc i)) :: char) [0..<m]"
    by auto
  then have "foldl (\<lambda>acc c. acc * 256 + of_char c) 0 (map (\<lambda>i. char_of (n div 256 ^ (Suc m - Suc i) mod 256)) [0..<Suc m]) =
      n div 256 mod 256 ^ m * 256 + n mod 256"
    using Suc.IH[of "n div 256"] by (simp del: map_eq_conv)
  also have "\<dots> = n mod 256 ^ Suc m" using mod_mult2_eq[of n 256 "256 ^ m"] by simp
  finally show ?case .
qed simp

lemma version_roundtrip: "n < 2 ^ 64 \<Longrightarrow> version_to_u64 (version_from_u64 n) = Some n"
  using be_bytes_fold[of n 8] by (simp add: version_to_u64_def version_from_u64_def)

section \<open>Properties\<close>

lemma next_version_differs:
  assumes "version_to_u64 ver = Some n"
  shows "version_from_u64 ((n + 1) mod 2 ^ 64) \<noteq> ver"
proof
  assume eq: "version_from_u64 ((n + 1) mod 2 ^ 64) = ver"
  have "version_to_u64 ver = Some ((n + 1) mod 2 ^ 64)"
    unfolding eq[symmetric] by (rule version_roundtrip) simp
  then have "n = (n + 1) mod 2 ^ 64" using assms by simp
  moreover have "n < 2 ^ 64" using calculation by (metis mod_less_divisor zero_less_numeral zero_less_power)
  ultimately show False by (cases "n + 1 < 2 ^ 64") (simp_all add: mod_if split: if_splits)
qed

text \<open>
  A conditional write is a compare-and-swap: after one that expected some version (or an empty address)
  succeeds, a write with the same expectation is refused and leaves every value as it was.
\<close>
theorem conditional_write_exclusive:
  assumes "mb_ttl mb = None" "cond_write mb s a expected v w = (Inr True, w1)"
  shows "\<exists>w2. cond_write mb s a expected v' w1 = (Inr False, w2) \<and> cond_cells w2 = cond_cells w1 \<and>
    map_option vv_value (cond_cells w1 s a) = Some v"
proof (cases rule: cond_write_cases[OF assms(1), of s a expected v w])
  case (1 r)
  then show ?thesis using assms(2) by simp
next
  case (2 n w')
  let ?next = "case expected of None \<Rightarrow> Some 0 | Some ver \<Rightarrow> map_option (\<lambda>n. (n + 1) mod 2 ^ 64) (version_to_u64 ver)"
  obtain m where m: "?next = Some m"
    and w1: "w1 = w\<lparr>ww_cond := (ww_cond w)(s \<mapsto> AList.update a
        \<lparr>en_value = \<lparr>vv_version = version_from_u64 m, vv_value = v\<rparr>, en_written_at = None\<rparr>
        (case ww_cond w s of Some sp \<Rightarrow> sp | None \<Rightarrow> []))\<rparr>"
    using assms by (auto simp: cond_write_def Let_def split: option.splits if_splits)
  have cells: "cond_cells w1 s a = Some \<lparr>vv_version = version_from_u64 m, vv_value = v\<rparr>"
    unfolding w1 cond_cells_update by simp
  have "expected \<noteq> map_option vv_version (cond_cells w1 s a)"
    unfolding cells using m next_version_differs by (auto split: option.splits)
  then have "cond_write mb s a expected v' w1 =
      (Inr False, w1\<lparr>ww_cond := (ww_cond w1)(s \<mapsto> (case ww_cond w1 s of Some sp \<Rightarrow> sp | None \<Rightarrow> []))\<rparr>)"
    using assms(1) by (simp add: cond_write_def Let_def cond_live)
  moreover have "cond_cells (w1\<lparr>ww_cond := (ww_cond w1)(s \<mapsto> (case ww_cond w1 s of Some sp \<Rightarrow> sp | None \<Rightarrow> []))\<rparr>) = cond_cells w1"
    by (auto simp: cond_cells_def fun_eq_iff split: option.split)
  ultimately show ?thesis using cells by auto
qed

definition no_spaces :: "nat wo_world" where
  "no_spaces = \<lparr>mw_buses = Map.empty, mw_elapsed = 0, mw_noise = [], ww_spaces = Map.empty, ww_cond = Map.empty\<rparr>"

definition no_expiry :: "nat wo_world mem_bus" where
  "no_expiry = \<lparr>mb_environment = sim_environment Pair, mb_ttl = None\<rparr>"

theorem conditional_write_exclusive_witness:
  "\<exists>w2. cond_write no_expiry ''s'' 3 None 8 (snd (cond_write no_expiry ''s'' 3 None 7 no_spaces)) = (Inr False, w2)"
proof -
  have "cond_write no_expiry ''s'' 3 None 7 no_spaces = (Inr True, snd (cond_write no_expiry ''s'' 3 None 7 no_spaces))"
    by (simp add: cond_write_def no_expiry_def no_spaces_def Let_def)
  from conditional_write_exclusive[OF _ this, of 8] show ?thesis by (auto simp: no_expiry_def)
qed

end
