(* ===== verification/Lru.thy ===== *)
theory Lru
  imports Prelude
begin

text \<open>
  The \<open>lru\<close> crate as the repository uses it, as a record of operations over an abstract cache type.
  The locale \<open>lru_cache\<close> states the crate's documented behaviour over the list of cached entries, most
  recently used first; \<open>list_lru\<close> is an implementation that keeps the laws.  The number of entries
  (\<open>lru_len\<close>) serves as the bound of eviction loops.
\<close>

record ('k, 'v, 'c) lru_ops =
  lru_new :: "nat \<Rightarrow> 'c"
  lru_len :: "'c \<Rightarrow> nat"
  lru_peek :: "'k \<Rightarrow> 'c \<Rightarrow> 'v option"
  lru_get :: "'k \<Rightarrow> 'c \<Rightarrow> 'v option \<times> 'c"
  lru_get_or_insert :: "'k \<Rightarrow> 'v \<Rightarrow> 'c \<Rightarrow> 'v \<times> 'c"
  lru_put :: "'k \<Rightarrow> 'v \<Rightarrow> 'c \<Rightarrow> 'c"
  lru_push :: "'k \<Rightarrow> 'v \<Rightarrow> 'c \<Rightarrow> ('k \<times> 'v) option \<times> 'c"
  lru_pop :: "'k \<Rightarrow> 'c \<Rightarrow> 'v option \<times> 'c"
  lru_pop_lru :: "'c \<Rightarrow> ('k \<times> 'v) option \<times> 'c"
  lru_clear :: "'c \<Rightarrow> 'c"

section \<open>The documented behaviour\<close>

definition to_front :: "'k \<Rightarrow> 'v \<Rightarrow> ('k \<times> 'v) list \<Rightarrow> ('k \<times> 'v) list" where
  "to_front k v xs = (k, v) # AList.delete k xs"

text \<open>The entries after a key is inserted into a cache of capacity \<open>n\<close>, and the entry that leaves.\<close>
definition inserted :: "nat \<Rightarrow> 'k \<Rightarrow> 'v \<Rightarrow> ('k \<times> 'v) list \<Rightarrow> ('k \<times> 'v) list" where
  "inserted n k v xs =
     (if map_of xs k \<noteq> None then to_front k v xs
      else if n \<le> length xs then (k, v) # butlast xs
      else (k, v) # xs)"

definition displaced :: "nat \<Rightarrow> 'k \<Rightarrow> ('k \<times> 'v) list \<Rightarrow> ('k \<times> 'v) option" where
  "displaced n k xs =
     (case map_of xs k of
        Some v \<Rightarrow> Some (k, v)
      | None \<Rightarrow> if n \<le> length xs then Some (last xs) else None)"

locale lru_cache =
  fixes L :: "('k, 'v, 'c) lru_ops"
    and items :: "'c \<Rightarrow> ('k \<times> 'v) list"
    and cap :: "'c \<Rightarrow> nat"
    and ok :: "'c \<Rightarrow> bool"
  assumes items_ok: "ok c \<Longrightarrow> distinct (map fst (items c)) \<and> length (items c) \<le> cap c \<and> 0 < cap c"
    and new_law: "0 < n \<Longrightarrow> ok (lru_new L n) \<and> items (lru_new L n) = [] \<and> cap (lru_new L n) = n"
    and len_law: "ok c \<Longrightarrow> lru_len L c = length (items c)"
    and peek_law: "ok c \<Longrightarrow> lru_peek L k c = map_of (items c) k"
    and get_law: "ok c \<Longrightarrow> lru_get L k c = (r, c') \<Longrightarrow> r = map_of (items c) k \<and> ok c' \<and> cap c' = cap c \<and>
        items c' = (case r of None \<Rightarrow> items c | Some v \<Rightarrow> to_front k v (items c))"
    and get_or_insert_law: "ok c \<Longrightarrow> lru_get_or_insert L k v c = (u, c') \<Longrightarrow>
        u = (case map_of (items c) k of Some v' \<Rightarrow> v' | None \<Rightarrow> v) \<and> ok c' \<and> cap c' = cap c \<and>
        items c' = inserted (cap c) k u (items c)"
    and put_law: "ok c \<Longrightarrow> ok (lru_put L k v c) \<and> cap (lru_put L k v c) = cap c \<and>
        items (lru_put L k v c) = inserted (cap c) k v (items c)"
    and push_law: "ok c \<Longrightarrow> lru_push L k v c = (x, c') \<Longrightarrow> x = displaced (cap c) k (items c) \<and> ok c' \<and> cap c' = cap c \<and>
        items c' = inserted (cap c) k v (items c)"
    and pop_law: "ok c \<Longrightarrow> lru_pop L k c = (r, c') \<Longrightarrow> r = map_of (items c) k \<and> ok c' \<and> cap c' = cap c \<and>
        items c' = AList.delete k (items c)"
    and pop_lru_law: "ok c \<Longrightarrow> lru_pop_lru L c = (x, c') \<Longrightarrow> ok c' \<and> cap c' = cap c \<and>
        x = (if items c = [] then None else Some (last (items c))) \<and> items c' = butlast (items c)"
    and clear_law: "ok c \<Longrightarrow> ok (lru_clear L c) \<and> cap (lru_clear L c) = cap c \<and> items (lru_clear L c) = []"

section \<open>A list as a cache\<close>

type_synonym ('k, 'v) lru_list = "nat \<times> ('k \<times> 'v) list"

definition list_lru :: "('k, 'v, ('k, 'v) lru_list) lru_ops" where
  "list_lru =
     \<lparr>lru_new = (\<lambda>n. (n, [])),
      lru_len = (\<lambda>(n, xs). length xs),
      lru_peek = (\<lambda>k (n, xs). map_of xs k),
      lru_get = (\<lambda>k (n, xs). (map_of xs k, (n, case map_of xs k of None \<Rightarrow> xs | Some v \<Rightarrow> to_front k v xs))),
      lru_get_or_insert = (\<lambda>k v (n, xs). case map_of xs k of
          Some v' \<Rightarrow> (v', (n, to_front k v' xs)) | None \<Rightarrow> (v, (n, inserted n k v xs))),
      lru_put = (\<lambda>k v (n, xs). (n, inserted n k v xs)),
      lru_push = (\<lambda>k v (n, xs). (displaced n k xs, (n, inserted n k v xs))),
      lru_pop = (\<lambda>k (n, xs). (map_of xs k, (n, AList.delete k xs))),
      lru_pop_lru = (\<lambda>(n, xs). (if xs = [] then None else Some (last xs), (n, butlast xs))),
      lru_clear = (\<lambda>(n, xs). (n, []))\<rparr>"

definition list_lru_ok :: "('k, 'v) lru_list \<Rightarrow> bool" where
  "list_lru_ok c \<longleftrightarrow> 0 < fst c \<and> distinct (map fst (snd c)) \<and> length (snd c) \<le> fst c"

lemma distinct_map_butlast: "distinct (map f xs) \<Longrightarrow> distinct (map f (butlast xs))"
  by (metis distinct_butlast map_butlast)

lemma length_delete_less: "map_of xs k \<noteq> None \<Longrightarrow> length (AList.delete k xs) < length xs"
  by (induction xs) (auto intro: le_less_trans[OF length_delete_le])

lemma distinct_to_front: "distinct (map fst xs) \<Longrightarrow> distinct (map fst (to_front k v xs))"
  using delete_notin_dom[of k xs] by (simp add: to_front_def distinct_delete)

lemma length_to_front: "map_of xs k = Some u \<Longrightarrow> length (to_front k v xs) \<le> length xs"
  using length_delete_less[of xs k] by (simp add: to_front_def)

lemma length_to_front_member: "(k, u) \<in> set xs \<Longrightarrow> length (to_front k v xs) \<le> length xs"
  using length_to_front[of xs k _ v] weak_map_of_SomeI by metis

lemma inserted_present: "map_of xs k = Some u \<Longrightarrow> inserted n k v xs = to_front k v xs"
  by (simp add: inserted_def)

lemma distinct_inserted: "distinct (map fst xs) \<Longrightarrow> distinct (map fst (inserted n k v xs))"
  by (auto simp: inserted_def distinct_to_front distinct_map_butlast map_of_eq_None_iff dest: in_set_butlastD)

lemma length_inserted:
  assumes "length xs \<le> n" "0 < n"
  shows "length (inserted n k v xs) \<le> n"
  using assms length_to_front[of xs k _ v] by (auto simp: inserted_def)

lemma map_of_inserted: "map_of (inserted n k v xs) k' = Some u \<Longrightarrow> distinct (map fst xs) \<Longrightarrow>
   (k' = k \<and> u = v) \<or> (k' \<noteq> k \<and> map_of xs k' = Some u)"
  by (auto simp: inserted_def to_front_def delete_conv' distinct_map_butlast dest!: map_of_SomeD in_set_butlastD
      split: if_splits)

lemma map_of_inserted_same [simp]: "map_of (inserted n k v xs) k = Some v"
  by (simp add: inserted_def to_front_def)

lemma map_of_to_front: "map_of xs k = Some v \<Longrightarrow> map_of (to_front k v xs) = map_of xs"
  by (auto simp: to_front_def delete_conv' fun_eq_iff)

lemma map_of_butlast_SomeD: "distinct (map fst xs) \<Longrightarrow> map_of (butlast xs) k = Some v \<Longrightarrow> map_of xs k = Some v"
  by (metis distinct_map_butlast in_set_butlastD map_of_SomeD map_of_eq_Some_iff)

interpretation list_lru: lru_cache list_lru snd fst list_lru_ok
proof (standard, goal_cases)
  case (5 c k r c')
  then show ?case
    by (cases "map_of (snd c) k")
      (auto simp: list_lru_def list_lru_ok_def distinct_to_front intro: le_trans[OF length_to_front_member] split: prod.splits)
next
  case (6 c k v r c')
  then show ?case
    by (cases "map_of (snd c) k")
      (auto simp: list_lru_def list_lru_ok_def inserted_present distinct_to_front distinct_inserted length_inserted
        intro: le_trans[OF length_to_front_member] split: prod.splits)
qed (auto simp: list_lru_def list_lru_ok_def distinct_inserted length_inserted distinct_delete
    distinct_map_butlast intro: le_trans[OF length_delete_le])

section \<open>What clients keep of a cache\<close>

context lru_cache
begin

text \<open>An operation keeps every entry it keeps unchanged: nothing is cached that was not put there.\<close>
lemma put_item: "ok c \<Longrightarrow> map_of (items (lru_put L k v c)) k' = Some u \<Longrightarrow> (k' = k \<and> u = v) \<or> map_of (items c) k' = Some u"
  using map_of_inserted put_law items_ok by metis

lemma get_item: "ok c \<Longrightarrow> lru_get L k c = (r, c') \<Longrightarrow> map_of (items c') = map_of (items c)"
  using get_law[of c k r c'] map_of_to_front[of "items c" k] by (auto split: option.splits)

lemma get_or_insert_item:
  assumes "ok c" "lru_get_or_insert L k v c = (r, c')" "map_of (items c') k' = Some u"
  shows "(k' = k \<and> u = r) \<or> map_of (items c) k' = Some u"
  using map_of_inserted get_or_insert_law[OF assms(1,2)] items_ok[OF assms(1)] assms(3) by metis

end

end
