(* ===== verification/Write_Once_Bus.thy ===== *)
theory Write_Once_Bus
  imports Write_Once Lru Retry
begin

text \<open>
  \<open>WriteOnceAgentBus\<close> (\<open>bus/impls/writeonce/src/write_once_agentbus.rs\<close>): a bus whose log is a
  write-once address space.  An append writes at a hinted position and, when the slot is taken,
  looks up the tail and tries again, until a write succeeds or fails for another reason; the loop is
  a \<open>partial_function\<close>, \<open>None\<close> being a run that never leaves it.  The protobuf codec of entries and
  the \<open>lru\<close> crate that holds the position hints are parameters.  The bus keeps its hints beside the
  world of the space.  The theory proves that the bus keeps the \<open>log_bus\<close> contract over every
  write-once space that keeps \<open>wo_space\<close>, while other instances append to the same logs.
\<close>

record 'v entry_codec =
  ec_encode :: "bus_entry \<Rightarrow> 'v"
  ec_decode :: "'v \<Rightarrow> bus_entry option"

record ('c, 'v, 'w) wo_bus =
  wb_space :: "('v, 'w) write_once_space"
  wb_environment :: "'w environment"
  wb_codec :: "'v entry_codec"
  wb_lru :: "(string, nat, 'c) lru_ops"
  wb_blocking_poll_interval :: nat

definition TAIL_WINDOW_SIZE :: nat where "TAIL_WINDOW_SIZE = 1"

definition DEFAULT_BLOCKING_POLL_INTERVAL :: nat where "DEFAULT_BLOCKING_POLL_INTERVAL = from_millis 50"

definition SPACE_PREFIX :: string where "SPACE_PREFIX = ''bus/''"

definition DEFAULT_NEXT_POSITIONS_CACHE_CAPACITY :: nat where "DEFAULT_NEXT_POSITIONS_CACHE_CAPACITY = 100000"

definition prefixed_space_id :: "string \<Rightarrow> string" where
  "prefixed_space_id bus_id = SPACE_PREFIX @ bus_id"

definition tail_error_to_bus :: "tail_error \<Rightarrow> bus_error" where
  "tail_error_to_bus e = Unavailable"

fun read_error_to_bus :: "write_once_error \<Rightarrow> bus_error" where
  "read_error_to_bus WoTimeout = BusTimeout"
| "read_error_to_bus WoBackendUnavailable = Unavailable"
| "read_error_to_bus WoTransactionConflict = Unavailable"
| "read_error_to_bus WoInternalError = Internal"
| "read_error_to_bus (AddressAlreadyExists _) = Internal"
| "read_error_to_bus WoPanicked = Panicked"

definition get_next_position :: "('c, 'v, 'w) wo_bus \<Rightarrow> string \<Rightarrow> 'w \<times> 'c \<Rightarrow> nat \<times> 'w \<times> 'c" where
  "get_next_position B bus_id = (\<lambda>(w, c). case lru_get_or_insert (wb_lru B) bus_id 0 c of (p, c') \<Rightarrow> (p, (w, c')))"

definition set_next_position :: "('c, 'v, 'w) wo_bus \<Rightarrow> string \<Rightarrow> nat \<Rightarrow> 'w \<times> 'c \<Rightarrow> 'w \<times> 'c" where
  "set_next_position B bus_id position = (\<lambda>(w, c). (w, lru_put (wb_lru B) bus_id position c))"

definition write_once_agent_bus_new_with_cache_capacity :: "('v, 'w) write_once_space \<Rightarrow> 'w environment \<Rightarrow> 'v entry_codec
    \<Rightarrow> (string, nat, 'c) lru_ops \<Rightarrow> nat option \<Rightarrow> nat \<Rightarrow> ('c, 'v, 'w) wo_bus \<times> 'c" where
  "write_once_agent_bus_new_with_cache_capacity space env codec lru interval capacity =
     (\<lparr>wb_space = space, wb_environment = env, wb_codec = codec, wb_lru = lru,
       wb_blocking_poll_interval = (case interval of Some i \<Rightarrow> i | None \<Rightarrow> DEFAULT_BLOCKING_POLL_INTERVAL)\<rparr>,
      lru_new lru capacity)"

definition write_once_agent_bus_new :: "('v, 'w) write_once_space \<Rightarrow> 'w environment \<Rightarrow> 'v entry_codec \<Rightarrow> (string, nat, 'c) lru_ops
    \<Rightarrow> nat option \<Rightarrow> ('c, 'v, 'w) wo_bus \<times> 'c" where
  "write_once_agent_bus_new space env codec lru interval =
     write_once_agent_bus_new_with_cache_capacity space env codec lru interval DEFAULT_NEXT_POSITIONS_CACHE_CAPACITY"

definition serialize_entry :: "'v entry_codec \<Rightarrow> payload \<Rightarrow> int \<Rightarrow> int \<Rightarrow> 'v" where
  "serialize_entry codec p position ts =
     ec_encode codec \<lparr>entry_header = Some \<lparr>log_position = position, rt_timestamp_ms = ts\<rparr>, entry_payload = Some p\<rparr>"

definition deserialize_entry :: "'v entry_codec \<Rightarrow> 'v \<Rightarrow> bus_entry option" where
  "deserialize_entry codec b = ec_decode codec b"

section \<open>Operations\<close>

text \<open>The errors of a write after which the loop looks up the tail and tries again.\<close>
fun slot_taken :: "write_once_error \<Rightarrow> bool" where
  "slot_taken (AddressAlreadyExists _) = True"
| "slot_taken WoTransactionConflict = True"
| "slot_taken _ = False"

fun write_error_to_bus :: "write_once_error \<Rightarrow> bus_error" where
  "write_error_to_bus WoTimeout = BusTimeout"
| "write_error_to_bus WoBackendUnavailable = Unavailable"
| "write_error_to_bus WoPanicked = Panicked"
| "write_error_to_bus _ = Internal"

text \<open>One iteration of the loop of \<open>append\<close>: the position written, or the next position to try.\<close>
definition wo_append_attempt :: "('c, 'v, 'w) wo_bus \<Rightarrow> string \<Rightarrow> payload \<Rightarrow> int \<Rightarrow> nat \<Rightarrow> ('w \<times> 'c, bus_error, int + nat) eff" where
  "wo_append_attempt B bus_id p ts position =
     matchE (on_world (wo_write (wb_space B) (prefixed_space_id bus_id) position
               (serialize_entry (wb_codec B) p (int position) ts)))
       (\<lambda>e. if slot_taken e then
              bindE (map_errE tail_error_to_bus (on_world (wo_tail (wb_space B) (prefixed_space_id bus_id) TAIL_WINDOW_SIZE)))
                (\<lambda>new_position. ret (Inr new_position))
            else raise (write_error_to_bus e))
       (\<lambda>_. bindE (modifyE (set_next_position B bus_id (position + 1))) (\<lambda>_. ret (Inl (int position))))"

partial_function (option) wo_append_loop :: "('c, 'v, 'w) wo_bus \<Rightarrow> string \<Rightarrow> payload \<Rightarrow> int \<Rightarrow> nat \<Rightarrow> 'w \<times> 'c
    \<Rightarrow> ((bus_error + int) \<times> 'w \<times> 'c) option" where
  "wo_append_loop B bus_id p ts position s =
     (case wo_append_attempt B bus_id p ts position s of
        (Inl e, s1) \<Rightarrow> Some (Inl e, s1)
      | (Inr (Inl q), s1) \<Rightarrow> Some (Inr q, s1)
      | (Inr (Inr new_position), s1) \<Rightarrow> wo_append_loop B bus_id p ts new_position s1)"

declare wo_append_loop.simps [code]

definition wo_append :: "('c, 'v, 'w) wo_bus \<Rightarrow> append_request \<Rightarrow> 'w \<times> 'c \<Rightarrow> ((bus_error + int) \<times> 'w \<times> 'c) option" where
  "wo_append B req s =
     (case validate_bus_id (ar_bus_id req) of
        Inl e \<Rightarrow> Some (Inl e, s)
      | Inr bus_id \<Rightarrow>
          (case ar_payload req of
             None \<Rightarrow> Some (Inl InvalidArgument, s)
           | Some p \<Rightarrow>
               (case get_next_position B bus_id s of (position, (w1, c1)) \<Rightarrow>
               (case env_unsafe_wall_time (wb_environment B) w1 of (wall, w2) \<Rightarrow>
                  wo_append_loop B bus_id p (wrap_i64 (int (as_millis wall))) position (w2, c1)))))"

text \<open>Reading one slot of \<open>[pos, end)\<close>: a hole is \<open>PositionNotFound\<close>.\<close>
definition read_slot :: "('c, 'v, 'w) wo_bus \<Rightarrow> string \<Rightarrow> nat \<Rightarrow> ('w \<times> 'c, bus_error, 'v) eff" where
  "read_slot B bus_id pos =
     bindE (map_errE read_error_to_bus (on_world (wo_read (wb_space B) (prefixed_space_id bus_id) pos)))
       (\<lambda>slot. case slot of None \<Rightarrow> raise PositionNotFound | Some b \<Rightarrow> ret b)"

text \<open>The stored entry of a slot if it decodes, has a payload and passes the filter.\<close>
definition slot_entry :: "'v entry_codec \<Rightarrow> int list option \<Rightarrow> 'v \<Rightarrow> bus_entry option" where
  "slot_entry codec flt b =
     (case deserialize_entry codec b of
        None \<Rightarrow> None
      | Some e \<Rightarrow> (case entry_payload e of
                     Some p \<Rightarrow> if payload_matches_filter p flt then Some e else None
                   | None \<Rightarrow> None))"

function wo_poll_loop :: "('c, 'v, 'w) wo_bus \<Rightarrow> string \<Rightarrow> nat \<Rightarrow> int list option \<Rightarrow> nat \<Rightarrow> nat \<Rightarrow> bus_entry list
    \<Rightarrow> ('w \<times> 'c, bus_error, poll_response) eff" where
  "wo_poll_loop B bus_id max_entries flt stop pos entries =
     (if pos < stop then
        bindE (read_slot B bus_id pos) (\<lambda>b.
          case slot_entry (wb_codec B) flt b of
            None \<Rightarrow> wo_poll_loop B bus_id max_entries flt stop (pos + 1) entries
          | Some e \<Rightarrow>
              if max_entries \<le> length entries then ret \<lparr>ps_entries = entries, ps_complete = False\<rparr>
              else wo_poll_loop B bus_id max_entries flt stop (pos + 1) (entries @ [e]))
      else ret \<lparr>ps_entries = entries, ps_complete = True\<rparr>)"
  by pat_completeness auto

termination wo_poll_loop
  by (relation "measure (\<lambda>(B, bus_id, m, flt, stop, pos, es). stop - pos)") auto

declare wo_poll_loop.simps [simp del]

definition wo_poll :: "('c, 'v, 'w) wo_bus \<Rightarrow> poll_request \<Rightarrow> ('w \<times> 'c, bus_error, poll_response) eff" where
  "wo_poll B req =
     bindE (liftR (validate_bus_id (pr_bus_id req))) (\<lambda>bus_id.
     let max_entries = min (as_usize (pr_max_entries req)) MAX_POLL_ENTRIES;
         start_position = nat (max (pr_start_log_position req) 0)
     in if pr_filter req = Some [] then ret \<lparr>ps_entries = [], ps_complete = True\<rparr>
        else
          bindE (map_errE tail_error_to_bus (on_world (wo_tail (wb_space B) (prefixed_space_id bus_id) TAIL_WINDOW_SIZE)))
            (\<lambda>end_position.
          bindE (modifyE (set_next_position B bus_id end_position)) (\<lambda>_.
            if end_position = 0 then ret \<lparr>ps_entries = [], ps_complete = True\<rparr>
            else wo_poll_loop B bus_id max_entries (pr_filter req) end_position start_position [])))"

function wo_read_loop :: "('c, 'v, 'w) wo_bus \<Rightarrow> string \<Rightarrow> nat \<Rightarrow> int list option \<Rightarrow> nat \<Rightarrow> nat \<Rightarrow> bus_entry list
    \<Rightarrow> ('w \<times> 'c, bus_error, bus_entry list \<times> nat) eff" where
  "wo_read_loop B bus_id max_entries flt stop pos entries =
     (if pos < stop then
        bindE (read_slot B bus_id pos) (\<lambda>b.
          case slot_entry (wb_codec B) flt b of
            None \<Rightarrow> wo_read_loop B bus_id max_entries flt stop (pos + 1) entries
          | Some e \<Rightarrow>
              if max_entries \<le> length (entries @ [e]) then ret (entries @ [e], pos + 1)
              else wo_read_loop B bus_id max_entries flt stop (pos + 1) (entries @ [e]))
      else ret (entries, stop))"
  by pat_completeness auto

termination wo_read_loop
  by (relation "measure (\<lambda>(B, bus_id, m, flt, stop, pos, es). stop - pos)") auto

declare wo_read_loop.simps [simp del]

definition wo_read_filtered_entries :: "('c, 'v, 'w) wo_bus \<Rightarrow> string \<Rightarrow> nat \<Rightarrow> nat \<Rightarrow> int list option \<Rightarrow> nat
    \<Rightarrow> ('w \<times> 'c, bus_error, bus_entry list \<times> nat) eff" where
  "wo_read_filtered_entries B bus_id start max_entries flt stop =
     (if stop < start then raise Internal
      else if start = stop then ret ([], stop)
      else wo_read_loop B bus_id (min max_entries MAX_POLL_ENTRIES) flt stop start [])"

definition wo_read_next :: "('c, 'v, 'w) wo_bus \<Rightarrow> read_next_request \<Rightarrow> ('w \<times> 'c, bus_error, read_next_response) eff" where
  "wo_read_next B req =
     bindE (liftR (validate_bus_id (rn_bus_id req))) (\<lambda>bus_id.
       if rn_max_entries req \<le> 0 then raise InvalidArgument
       else if rn_start_log_position req < 0 then raise InvalidArgument
       else if rn_end_log_position req < rn_start_log_position req then raise InvalidArgument
       else if rn_filter req = Some [] then raise InvalidArgument
       else
         bindE (wo_read_filtered_entries B bus_id (nat (rn_start_log_position req)) (as_usize (rn_max_entries req))
                  (rn_filter req) (nat (rn_end_log_position req)))
           (\<lambda>(entries, next_start). ret \<lparr>rr_entries = entries, rr_next_start_position = int next_start\<rparr>))"

definition wo_check_tail :: "('c, 'v, 'w) wo_bus \<Rightarrow> string option \<Rightarrow> ('w \<times> 'c, bus_error, int) eff" where
  "wo_check_tail B bid =
     bindE (liftR (validate_bus_id bid)) (\<lambda>bus_id.
     bindE (map_errE tail_error_to_bus (on_world (wo_tail (wb_space B) (prefixed_space_id bus_id) TAIL_WINDOW_SIZE)))
       (\<lambda>tail_position. ret (int tail_position)))"

text \<open>The bus as a record of operations: an append is the value its loop returns.  The lemmas below that
  use the record are about spaces on which the loop returns.\<close>
definition write_once_bus :: "('c, 'v, 'w) wo_bus \<Rightarrow> ('w \<times> 'c) agent_bus" where
  "write_once_bus B = \<lparr>bus_append = (\<lambda>req s. the (wo_append B req s)), bus_poll = wo_poll B,
     bus_read_next = wo_read_next B, bus_check_tail = wo_check_tail B\<rparr>"

definition wo_blocking_poll :: "('c, 'v, 'w) wo_bus \<Rightarrow> blocking_poll_request \<Rightarrow> 'w \<times> 'c
    \<Rightarrow> ((bus_error + blocking_poll_response) \<times> 'w \<times> 'c) option" where
  "wo_blocking_poll B req =
     blocking_poll_default (write_once_bus B) (lift_env (wb_environment B)) req (Some (wb_blocking_poll_interval B)) None"

section \<open>The log of a space\<close>

text \<open>What every user of the space maintains: each bus's addresses are contiguous and hold numbered entries.\<close>
definition log_cells :: "'v entry_codec \<Rightarrow> (string \<Rightarrow> nat \<Rightarrow> 'v option) \<Rightarrow> bool" where
  "log_cells codec c \<longleftrightarrow> (\<forall>b. \<exists>n. dom (c (prefixed_space_id b)) = {..<n} \<and>
     (\<forall>i < n. \<exists>p ts. c (prefixed_space_id b) i = Some (serialize_entry codec p (int i) ts)))"

definition wo_len :: "(string \<Rightarrow> nat \<Rightarrow> 'v option) \<Rightarrow> string \<Rightarrow> nat" where
  "wo_len c b = card (dom (c (prefixed_space_id b)))"

definition wo_log :: "'v entry_codec \<Rightarrow> (string \<Rightarrow> nat \<Rightarrow> 'v option) \<Rightarrow> string \<Rightarrow> bus_entry list" where
  "wo_log codec c b = map (\<lambda>i. the (deserialize_entry codec (the (c (prefixed_space_id b) i)))) [0..<wo_len c b]"

text \<open>What the bus relies on of the protobuf library: an encoded entry decodes to itself.\<close>
definition entry_codec_ok :: "'v entry_codec \<Rightarrow> bool" where
  "entry_codec_ok codec \<longleftrightarrow> (\<forall>e. ec_decode codec (ec_encode codec e) = Some e)"

lemma prefixed_space_id_inject [simp]: "prefixed_space_id b = prefixed_space_id b' \<longleftrightarrow> b = b'"
  by (simp add: prefixed_space_id_def)

lemma length_wo_log [simp]: "length (wo_log codec c b) = wo_len c b"
  by (simp add: wo_log_def)

lemma log_cells_dom: "log_cells codec c \<Longrightarrow> dom (c (prefixed_space_id b)) = {..<wo_len c b}"
  unfolding log_cells_def wo_len_def by (metis card_lessThan)

lemma log_cells_nth:
  assumes "log_cells codec c" "i < wo_len c b"
  obtains p ts where "c (prefixed_space_id b) i = Some (serialize_entry codec p (int i) ts)"
  using assms log_cells_dom[OF assms(1), of b] unfolding log_cells_def by (metis lessThan_eq_iff)

lemma wo_log_nth:
  assumes "entry_codec_ok codec" "i < wo_len c b" "c (prefixed_space_id b) i = Some (serialize_entry codec p (int i) ts)"
  shows "wo_log codec c b ! i = \<lparr>entry_header = Some \<lparr>log_position = int i, rt_timestamp_ms = ts\<rparr>, entry_payload = Some p\<rparr>"
  using assms by (simp add: wo_log_def serialize_entry_def deserialize_entry_def entry_codec_ok_def)

lemma wo_log_numbered:
  assumes "entry_codec_ok codec" "log_cells codec c"
  shows "well_numbered (wo_log codec c b)"
  unfolding well_numbered_def
proof (intro allI impI)
  fix i assume "i < length (wo_log codec c b)"
  then have i: "i < wo_len c b" by simp
  obtain p ts where "c (prefixed_space_id b) i = Some (serialize_entry codec p (int i) ts)"
    using log_cells_nth[OF assms(2) i] .
  from wo_log_nth[OF assms(1) i this]
  show "\<exists>h. entry_header (wo_log codec c b ! i) = Some h \<and> log_position h = int i \<and> entry_payload (wo_log codec c b ! i) \<noteq> None"
    by simp
qed

lemma map_le_len:
  assumes "log_cells codec c" "log_cells codec c'" "c (prefixed_space_id b) \<subseteq>\<^sub>m c' (prefixed_space_id b)"
  shows "wo_len c b \<le> wo_len c' b"
  using map_le_implies_dom_le[OF assms(3)] log_cells_dom[OF assms(1), of b] log_cells_dom[OF assms(2), of b] by simp

lemma wo_log_prefix:
  assumes "log_cells codec c" "log_cells codec c'" "c (prefixed_space_id b) \<subseteq>\<^sub>m c' (prefixed_space_id b)"
  shows "prefix (wo_log codec c b) (wo_log codec c' b)"
proof -
  let ?f = "\<lambda>c i. the (deserialize_entry codec (the (c (prefixed_space_id b) i)))"
  have "[0..<wo_len c' b] = [0..<wo_len c b] @ [wo_len c b..<wo_len c' b]"
    using map_le_len[OF assms] by (metis le_add_diff_inverse upt_add_eq_append zero_le)
  moreover have "map (?f c') [0..<wo_len c b] = map (?f c) [0..<wo_len c b]"
    using assms(3) log_cells_dom[OF assms(1), of b] unfolding map_le_def by auto
  ultimately show ?thesis unfolding wo_log_def by (metis map_append prefixI)
qed

text \<open>Writing a numbered entry at the end of a log keeps the contents well formed.\<close>
lemma log_cells_write:
  assumes "log_cells codec c" "position = wo_len c b"
    and "c' = c(prefixed_space_id b := (c (prefixed_space_id b))(position \<mapsto> serialize_entry codec p (int position) ts))"
  shows "log_cells codec c'" "wo_len c' b = Suc position"
proof -
  have dom: "dom (c' (prefixed_space_id b)) = {..<Suc position}"
    using assms log_cells_dom[OF assms(1), of b] by auto
  then show "wo_len c' b = Suc position" by (simp add: wo_len_def)
  have "\<exists>n. dom (c' (prefixed_space_id b')) = {..<n} \<and>
      (\<forall>i < n. \<exists>p ts. c' (prefixed_space_id b') i = Some (serialize_entry codec p (int i) ts))" for b'
  proof (cases "b' = b")
    case True
    have "\<exists>p ts. c' (prefixed_space_id b) i = Some (serialize_entry codec p (int i) ts)" if i: "i < Suc position" for i
    proof (cases "i = position")
      case False
      then obtain p ts where "c (prefixed_space_id b) i = Some (serialize_entry codec p (int i) ts)"
        using log_cells_nth[OF assms(1), of i b] i assms(2) by auto
      then show ?thesis using False assms(3) by auto
    qed (use assms(3) in auto)
    then show ?thesis using dom True by blast
  qed (use assms(1,3) in \<open>auto simp: log_cells_def\<close>)
  then show "log_cells codec c'" by (simp add: log_cells_def)
qed

section \<open>The bus over a write-once space\<close>

locale wo_bus_env =
  sp: wo_space "wb_space B" cells sinv evolves writes + lru: lru_cache "wb_lru B" items cap lok
  for B :: "('c, 'v, 'w) wo_bus" and cells :: "'w \<Rightarrow> string \<Rightarrow> nat \<Rightarrow> 'v option" and sinv evolves writes
    and items :: "'c \<Rightarrow> (string \<times> nat) list" and cap lok +
  assumes codec_ok: "entry_codec_ok (wb_codec B)"
    and evolves_log_cells: "evolves w w' \<Longrightarrow> sinv w \<Longrightarrow> log_cells (wb_codec B) (cells w) \<Longrightarrow> log_cells (wb_codec B) (cells w')"
    and clock_evolves: "env_unsafe_wall_time (wb_environment B) w = (t, w') \<Longrightarrow> evolves w w'"
begin

text \<open>A position hint never lies beyond the end of its log.\<close>
definition binv :: "'w \<times> 'c \<Rightarrow> bool" where
  "binv s \<longleftrightarrow> sinv (fst s) \<and> log_cells (wb_codec B) (cells (fst s)) \<and> lok (snd s) \<and>
     (\<forall>b p. map_of (items (snd s)) b = Some p \<longrightarrow> p \<le> wo_len (cells (fst s)) b)"

definition bevolves :: "'w \<times> 'c \<Rightarrow> 'w \<times> 'c \<Rightarrow> bool" where
  "bevolves s s' \<longleftrightarrow> (binv s \<longrightarrow> binv s' \<and> (\<forall>b. cells (fst s) (prefixed_space_id b) \<subseteq>\<^sub>m cells (fst s') (prefixed_space_id b)))"

definition blog :: "'w \<times> 'c \<Rightarrow> string \<Rightarrow> bus_entry list" where
  "blog s b = wo_log (wb_codec B) (cells (fst s)) b"

abbreviation len :: "'w \<times> 'c \<Rightarrow> string \<Rightarrow> nat" where
  "len s b \<equiv> wo_len (cells (fst s)) b"

lemma bevolves_refl: "bevolves s s"
  by (simp add: bevolves_def)

lemma bevolves_trans: "bevolves s s1 \<Longrightarrow> bevolves s1 s2 \<Longrightarrow> bevolves s s2"
  unfolding bevolves_def by (meson map_le_trans)

lemma bevolves_len: "binv s \<Longrightarrow> bevolves s s' \<Longrightarrow> len s b \<le> len s' b"
  unfolding bevolves_def binv_def by (meson map_le_len)

lemma world_step:
  assumes "binv (w, h)" "sinv w'" "log_cells (wb_codec B) (cells w')"
    and "\<And>b. cells w (prefixed_space_id b) \<subseteq>\<^sub>m cells w' (prefixed_space_id b)"
  shows "binv (w', h)"
proof -
  have "wo_len (cells w) b \<le> wo_len (cells w') b" for b
    using assms(1,3,4) unfolding binv_def fst_conv by (meson map_le_len)
  then show ?thesis using assms(1-3) by (fastforce simp: binv_def intro: order_trans)
qed

lemma evolves_step: "evolves w w' \<Longrightarrow> bevolves (w, h) (w', h)"
  unfolding bevolves_def
proof (intro impI conjI allI)
  fix b assume e: "evolves w w'" and i: "binv (w, h)"
  then have le: "cells w (prefixed_space_id b) \<subseteq>\<^sub>m cells w' (prefixed_space_id b)" for b
    using sp.evolves_cells[OF e] unfolding binv_def map_le_def by (metis domD fst_conv)
  then show "cells (fst (w, h)) (prefixed_space_id b) \<subseteq>\<^sub>m cells (fst (w', h)) (prefixed_space_id b)" by simp
  show "binv (w', h)"
    using world_step[OF i _ _ le] i sp.evolves_sinv[OF e] evolves_log_cells[OF e] by (simp add: binv_def)
qed

lemma hint_step:
  assumes "binv (w, h)" "p \<le> wo_len (cells w) b"
  shows "binv (w, lru_put (wb_lru B) b p h)"
  using assms lru.put_law[of h b p] lru.put_item[of h b p]
  unfolding binv_def fst_conv snd_conv by metis

text \<open>A write at or before the end of the log either changes nothing of ours or extends the log by the entry.\<close>
lemma write_step:
  assumes "binv (w, h)" "position \<le> wo_len (cells w) b"
    and "wo_write (wb_space B) (prefixed_space_id b) position (serialize_entry (wb_codec B) p (int position) ts) w = (r, w')"
  shows "bevolves (w, h) (w', h)"
    and "r = Inr () \<Longrightarrow> wo_len (cells w) b \<le> position \<and> position < wo_len (cells w') b \<and>
      entry_payload (wo_log (wb_codec B) (cells w') b ! position) = Some p"
proof -
  have sinv: "sinv w" using assms(1) by (simp add: binv_def)
  have "bevolves (w, h) (w', h) \<and> (r = Inr () \<longrightarrow> wo_len (cells w) b \<le> position \<and> position < wo_len (cells w') b \<and>
      entry_payload (wo_log (wb_codec B) (cells w') b ! position) = Some p)"
    using sp.write_law[OF sinv assms(3)]
  proof
    assume "evolves w w' \<and> r \<noteq> Inr ()"
    then show ?thesis using evolves_step by auto
  next
    assume "\<exists>w1 w2. evolves w w1 \<and> cells w1 (prefixed_space_id b) position = None \<and>
       writes w1 (prefixed_space_id b) position (serialize_entry (wb_codec B) p (int position) ts) w2 \<and> evolves w2 w' \<and>
       (\<forall>x. r \<noteq> Inl (AddressAlreadyExists x))"
    then obtain w1 w2 where w1: "evolves w w1" "cells w1 (prefixed_space_id b) position = None"
      and wr: "writes w1 (prefixed_space_id b) position (serialize_entry (wb_codec B) p (int position) ts) w2"
      and w2: "evolves w2 w'" by blast
    have e1: "bevolves (w, h) (w1, h)" using evolves_step[OF w1(1)] .
    then have i1: "binv (w1, h)" using assms(1) by (simp add: bevolves_def)
    then have lc1: "log_cells (wb_codec B) (cells w1)" "sinv w1" by (simp_all add: binv_def)
    have "wo_len (cells w) b \<le> wo_len (cells w1) b" using bevolves_len[OF assms(1) e1, of b] by simp
    moreover have "\<not> position < wo_len (cells w1) b" using w1(2) log_cells_dom[OF lc1(1), of b] by auto
    ultimately have pos: "position = wo_len (cells w1) b" "wo_len (cells w) b \<le> position" using assms(2) by auto
    note c2 = sp.writes_cells[OF wr lc1(2)]
    note lc2 = log_cells_write[OF lc1(1) pos(1) c2]
    have s2: "sinv w2" using sp.writes_sinv[OF wr lc1(2) w1(2)] .
    have "cells w1 (prefixed_space_id b') \<subseteq>\<^sub>m cells w2 (prefixed_space_id b')" for b'
      using c2 w1(2) by (auto simp: map_le_def)
    then have e2: "bevolves (w1, h) (w2, h)"
      using world_step[OF i1 s2 lc2(1)] by (simp add: bevolves_def)
    note e3 = evolves_step[OF w2, of h]
    have i2: "binv (w2, h)" using e2 i1 by (simp add: bevolves_def)
    have "cells w2 (prefixed_space_id b) position = Some (serialize_entry (wb_codec B) p (int position) ts)"
      using c2 by simp
    then have stay: "cells w' (prefixed_space_id b) position = Some (serialize_entry (wb_codec B) p (int position) ts)"
      using sp.evolves_cells[OF w2 s2] by blast
    have "position < wo_len (cells w') b" using bevolves_len[OF i2 e3, of b] lc2(2) by simp
    then show ?thesis
      using bevolves_trans[OF e1 bevolves_trans[OF e2 e3]] pos(2) wo_log_nth[of "wb_codec B" position "cells w'" b p ts, OF codec_ok _ stay] by simp
  qed
  then show "bevolves (w, h) (w', h)"
    and "r = Inr () \<Longrightarrow> wo_len (cells w) b \<le> position \<and> position < wo_len (cells w') b \<and>
      entry_payload (wo_log (wb_codec B) (cells w') b ! position) = Some p" by blast+
qed

lemma tail_step:
  assumes "binv (w, h)" "wo_tail (wb_space B) (prefixed_space_id b) TAIL_WINDOW_SIZE w = (r, w')"
  shows "bevolves (w, h) (w', h)"
    and "r = Inr t \<Longrightarrow> wo_len (cells w) b \<le> t \<and> t \<le> wo_len (cells w') b"
proof -
  have i: "sinv w" "log_cells (wb_codec B) (cells w)" using assms(1) by (simp_all add: binv_def)
  have law: "evolves w w' \<and> (\<forall>p k k'. r = Inr p \<longrightarrow> dom (cells w (prefixed_space_id b)) = {..<k} \<longrightarrow>
      dom (cells w' (prefixed_space_id b)) = {..<k'} \<longrightarrow> k \<le> p \<and> p \<le> k')"
    using sp.tail_law[OF i(1) _ assms(2)] by (simp add: TAIL_WINDOW_SIZE_def)
  then show e: "bevolves (w, h) (w', h)" using evolves_step by blast
  then have "log_cells (wb_codec B) (cells w')" using assms(1) by (simp add: bevolves_def binv_def)
  then show "wo_len (cells w) b \<le> t \<and> t \<le> wo_len (cells w') b" if "r = Inr t"
    using law that log_cells_dom[OF i(2), of b] log_cells_dom[of "wb_codec B" "cells w'" b] by blast
qed

lemma attempt_sound:
  assumes "binv s" "position \<le> len s b"
  shows "wp (wo_append_attempt B b p ts position)
    (\<lambda>r s'. bevolves s s' \<and> (case r of
        Inl q \<Rightarrow> q = int position \<and> len s b \<le> position \<and> position < len s' b \<and> entry_payload (blog s' b ! position) = Some p
      | Inr t \<Rightarrow> t \<le> len s' b))
    (\<lambda>_ s'. bevolves s s') s"
proof -
  obtain w h where s: "s = (w, h)" by fastforce
  let ?v = "serialize_entry (wb_codec B) p (int position) ts"
  obtain r w1 where wr: "wo_write (wb_space B) (prefixed_space_id b) position ?v w = (r, w1)" by fastforce
  note st = write_step[OF assms(1)[unfolded s] assms(2)[unfolded s fst_conv] wr]
  have i1: "binv (w1, h)" using st(1) assms(1) s by (simp add: bevolves_def)
  show ?thesis
  proof (cases r)
    case (Inr u)
    have "binv (w1, lru_put (wb_lru B) b (position + 1) h)" using hint_step[OF i1] st(2) Inr by simp
    then have "bevolves s (w1, lru_put (wb_lru B) b (position + 1) h)" using st(1) s by (simp add: bevolves_def)
    then show ?thesis using Inr st(2) wr s
      by (simp add: wo_append_attempt_def wp_rules wp_def[of "wo_write _ _ _ _"] set_next_position_def blog_def)
  next
    case (Inl e)
    obtain t w2 where tl: "wo_tail (wb_space B) (prefixed_space_id b) TAIL_WINDOW_SIZE w1 = (t, w2)" by fastforce
    note ts = tail_step[OF i1 tl]
    have e2: "bevolves s (w2, h)" using bevolves_trans[OF st(1) ts(1)] s by simp
    show ?thesis using Inl st(1) ts(2) e2 wr tl s
      by (cases t) (simp_all add: wo_append_attempt_def wp_rules wp_def[of "wo_write _ _ _ _"] wp_def[of "wo_tail _ _ _"])
  qed
qed

lemma append_loop_sound:
  assumes "wo_append_loop B b p ts position s = Some (r, s')" "binv s" "position \<le> len s b"
  shows "bevolves s s' \<and> (\<forall>q. r = Inr q \<longrightarrow> int (len s b) \<le> q \<and> q < int (len s' b) \<and> entry_payload (blog s' b ! nat q) = Some p)"
proof -
  define P where "P B' b' p' ts' position s y \<longleftrightarrow> B' = B \<longrightarrow> b' = b \<longrightarrow> p' = p \<longrightarrow> binv s \<longrightarrow> position \<le> len s b \<longrightarrow>
      bevolves s (snd y) \<and> (\<forall>q. fst y = Inr q \<longrightarrow> int (len s b) \<le> q \<and> q < int (len (snd y) b) \<and>
        entry_payload (blog (snd y) b ! nat q) = Some p)"
    for B' b' p' and ts' :: int and position and s :: "'w \<times> 'c" and y :: "(bus_error + int) \<times> 'w \<times> 'c"
  have "P B b p ts position s (r, s')"
  proof (rule wo_append_loop.raw_induct[OF _ assms(1)])
    fix loop B' b' p' ts' position and s :: "'w \<times> 'c" and y
    assume IH: "\<And>B b p ts position s y. loop B b p ts position s = Some y \<Longrightarrow> P B b p ts position s y"
      and body: "(case wo_append_attempt B' b' p' ts' position s of
          (Inl e, s1) \<Rightarrow> Some (Inl e, s1)
        | (Inr (Inl q), s1) \<Rightarrow> Some (Inr q, s1)
        | (Inr (Inr new_position), s1) \<Rightarrow> loop B' b' p' ts' new_position s1) = Some y"
    show "P B' b' p' ts' position s y"
      unfolding P_def
    proof (intro impI)
      assume eqs: "B' = B" "b' = b" "p' = p" and i: "binv s" and pos: "position \<le> len s b"
      obtain r t where step: "wo_append_attempt B b p ts' position s = (r, t)" by (metis surj_pair)
      note sound = attempt_sound[OF i pos, of p ts', unfolded wp_def step prod.case]
      show "bevolves s (snd y) \<and> (\<forall>q. fst y = Inr q \<longrightarrow> int (len s b) \<le> q \<and> q < int (len (snd y) b) \<and>
          entry_payload (blog (snd y) b ! nat q) = Some p)"
      proof (cases "\<exists>np. r = Inr (Inr np)")
        case True
        then obtain np where r: "r = Inr (Inr np)" by blast
        have e: "bevolves s t" "np \<le> len t b" using sound r by simp_all
        have "P B b p ts' np t y" using IH body step r eqs by simp
        then have "bevolves t (snd y) \<and> (\<forall>q. fst y = Inr q \<longrightarrow> int (len t b) \<le> q \<and> q < int (len (snd y) b) \<and>
            entry_payload (blog (snd y) b ! nat q) = Some p)"
          using e i unfolding P_def bevolves_def by blast
        then show ?thesis using bevolves_trans[OF e(1)] bevolves_len[OF i e(1), of b] by fastforce
      next
        case False
        then show ?thesis using body step eqs sound by (auto split: sum.splits)
      qed
    qed
  qed
  then show ?thesis using assms(2,3) by (simp add: P_def)
qed

lemma wo_append_sound:
  assumes "wo_append B req s = Some (r, s')" "binv s"
  shows "bevolves s s' \<and> (\<forall>b p q. r = Inr q \<longrightarrow> req = \<lparr>ar_bus_id = Some b, ar_payload = Some p\<rparr> \<longrightarrow>
    int (len s b) \<le> q \<and> q < int (len s' b) \<and> entry_payload (blog s' b ! nat q) = Some p)"
proof (cases "\<exists>b p. validate_bus_id (ar_bus_id req) = Inr b \<and> ar_payload req = Some p")
  case False
  then show ?thesis
    using assms(1) bevolves_refl by (auto simp: wo_append_def split: sum.splits option.splits if_splits)
next
  case True
  then obtain b p where req: "validate_bus_id (ar_bus_id req) = Inr b" "ar_payload req = Some p" by blast
  obtain w h where s: "s = (w, h)" by fastforce
  obtain pos h1 where hint: "lru_get_or_insert (wb_lru B) b 0 h = (pos, h1)" by fastforce
  obtain wall w2 where wall: "env_unsafe_wall_time (wb_environment B) w = (wall, w2)" by fastforce
  have lok: "lok h" using assms(2) s by (simp add: binv_def)
  note lg = lru.get_or_insert_law[OF lok hint]
  have pos: "pos \<le> wo_len (cells w) b"
    using lg assms(2) s by (auto simp: binv_def split: option.splits)
  then have i1: "binv (w, h1)"
    using lg assms(2) s lru.get_or_insert_item[OF lok hint] unfolding binv_def by (metis fst_conv snd_conv)
  have e: "bevolves s (w2, h1)"
    using evolves_step[OF clock_evolves[OF wall], of h1] i1 s by (simp add: bevolves_def)
  have i2: "binv (w2, h1)" using e assms(2) by (simp add: bevolves_def)
  have lens: "len s b \<le> len (w2, h1) b" by (rule bevolves_len[OF assms(2) e])
  have loop: "wo_append_loop B b p (wrap_i64 (int (as_millis wall))) pos (w2, h1) = Some (r, s')"
    using assms(1) req s hint wall by (simp add: wo_append_def get_next_position_def)
  have "pos \<le> len (w2, h1) b" using pos lens s by simp
  from append_loop_sound[OF loop i2 this] lens
  have "bevolves (w2, h1) s' \<and> (\<forall>q. r = Inr q \<longrightarrow> int (len s b) \<le> q \<and> q < int (len s' b) \<and> entry_payload (blog s' b ! nat q) = Some p)"
    by fastforce
  then show ?thesis using bevolves_trans[OF e] req by (auto split: if_splits)
qed

text \<open>Reading a slot before the end of the log returns the entry there, unless the space fails.\<close>
definition read_fails :: bool where
  "read_fails \<longleftrightarrow> (\<exists>sid a w e w'. sinv w \<and> wo_read (wb_space B) sid a w = (Inl e, w'))"

lemma read_slot_sound:
  assumes "binv s" "pos < len s b"
  shows "wp (read_slot B b pos) (\<lambda>v s'. bevolves s s' \<and> snd s' = snd s \<and>
      slot_entry (wb_codec B) flt v = (if entry_matches flt (blog s b ! pos) then Some (blog s b ! pos) else None))
    (\<lambda>_ s'. bevolves s s' \<and> read_fails) s"
proof -
  obtain w h where s: "s = (w, h)" by fastforce
  have i: "sinv w" "log_cells (wb_codec B) (cells w)" using assms(1) s by (simp_all add: binv_def)
  obtain g w' where call: "wo_read (wb_space B) (prefixed_space_id b) pos w = (g, w')" by fastforce
  obtain w1 where w1: "evolves w w1" "evolves w1 w'" "\<And>x. g = Inr x \<Longrightarrow> x = cells w1 (prefixed_space_id b) pos"
    using sp.read_law[OF i(1) call] by blast
  have e: "bevolves s (w', h)" using bevolves_trans[OF evolves_step[OF w1(1)] evolves_step[OF w1(2)]] s by simp
  obtain p ts where at: "cells w (prefixed_space_id b) pos = Some (serialize_entry (wb_codec B) p (int pos) ts)"
    using log_cells_nth[OF i(2), of pos b] assms(2) s by auto
  then have at1: "cells w1 (prefixed_space_id b) pos = Some (serialize_entry (wb_codec B) p (int pos) ts)"
    using sp.evolves_cells[OF w1(1) i(1)] by blast
  have entry: "blog s b ! pos = \<lparr>entry_header = Some \<lparr>log_position = int pos, rt_timestamp_ms = ts\<rparr>, entry_payload = Some p\<rparr>"
    using wo_log_nth[of "wb_codec B" pos "cells w" b p ts, OF codec_ok _ at] assms(2) s by (simp add: blog_def)
  have "slot_entry (wb_codec B) flt (serialize_entry (wb_codec B) p (int pos) ts) =
      (if entry_matches flt (blog s b ! pos) then Some (blog s b ! pos) else None)"
    unfolding entry using codec_ok
    by (simp add: slot_entry_def deserialize_entry_def serialize_entry_def entry_codec_ok_def entry_matches_def)
  moreover have "read_fails" if "g = Inl x" for x
    using that call i(1) unfolding read_fails_def by blast
  ultimately show ?thesis
    using call e w1(3) at1 s
    by (cases g) (auto simp: read_slot_def wp_rules wp_def[of "wo_read _ _ _"] split: option.split)
qed

lemma blog_stable: "binv s \<Longrightarrow> bevolves s s' \<Longrightarrow> prefix (blog s b) (blog s' b)"
  unfolding bevolves_def binv_def blog_def by (meson wo_log_prefix)

lemma blog_nth_stable: "binv s \<Longrightarrow> bevolves s s' \<Longrightarrow> i < len s b \<Longrightarrow> blog s' b ! i = blog s b ! i"
  using blog_stable[of s s' b] by (auto simp: prefix_def nth_append blog_def)

lemma length_blog [simp]: "length (blog s b) = len s b"
  by (simp add: blog_def)

text \<open>The scan of \<open>read_filtered_entries\<close>.\<close>
lemma read_loop_sound:
  assumes "binv s" "pos \<le> stop" "stop \<le> len s b" "length acc < m"
  shows "wp (wo_read_loop B b m flt stop pos acc)
    (\<lambda>(es, n) s'. bevolves s s' \<and> pos \<le> n \<and> n \<le> stop \<and> (pos < stop \<longrightarrow> pos < n) \<and> length es \<le> m \<and>
       es = acc @ filter (entry_matches flt) (segment (blog s b) (int pos) (int n)))
    (\<lambda>_ s'. bevolves s s' \<and> read_fails) s"
  using assms
proof (induction "stop - pos" arbitrary: pos acc s)
  case 0
  then show ?case
    by (subst wo_read_loop.simps) (simp add: wp_rules bevolves_refl)
next
  case (Suc d)
  have pos: "pos < stop" "pos < len s b" using Suc.hyps(2) Suc.prems by auto
  let ?e = "blog s b ! pos"
  have seg: "segment (blog s b) (int pos) (int n) = ?e # segment (blog s b) (int (Suc pos)) (int n)" if "Suc pos \<le> n" "n \<le> stop" for n
    using that segment_Cons[of pos n "blog s b"] Suc.prems pos by simp
  have IH: "wp (wo_read_loop B b m flt stop (pos + 1) acc')
      (\<lambda>(es, n) s'. bevolves s s' \<and> pos \<le> n \<and> n \<le> stop \<and> (pos < stop \<longrightarrow> pos < n) \<and> length es \<le> m \<and>
         es = acc' @ filter (entry_matches flt) (segment (blog s b) (int (Suc pos)) (int n)))
      (\<lambda>_ s'. bevolves s s' \<and> read_fails) s1"
    if s1: "bevolves s s1" and acc': "length acc' < m" for s1 acc'
  proof -
    have i1: "binv s1" using s1 Suc.prems(1) by (simp add: bevolves_def)
    have pre: "prefix (blog s b) (blog s1 b)" by (rule blog_stable[OF Suc.prems(1) s1])
    have "stop \<le> len s1 b" using bevolves_len[OF Suc.prems(1) s1, of b] Suc.prems(3) by simp
    from Suc.hyps(1)[OF _ i1 _ this acc', of "pos + 1"] Suc.hyps(2) pos(1)
    have "wp (wo_read_loop B b m flt stop (pos + 1) acc')
      (\<lambda>(es, n) s'. bevolves s1 s' \<and> pos + 1 \<le> n \<and> n \<le> stop \<and> (pos + 1 < stop \<longrightarrow> pos + 1 < n) \<and> length es \<le> m \<and>
         es = acc' @ filter (entry_matches flt) (segment (blog s1 b) (int (pos + 1)) (int n)))
      (\<lambda>_ s'. bevolves s1 s' \<and> read_fails) s1" by simp
    then show ?thesis
      by (rule wp_mono) (use Suc.prems(3) in \<open>auto intro: bevolves_trans[OF s1] simp: segment_prefix[OF pre]\<close>)
  qed
  show ?case
  proof (subst wo_read_loop.simps, simp only: pos if_True wp_bindE, rule wp_mono[OF read_slot_sound[OF Suc.prems(1) pos(2), where flt = flt]], goal_cases)
    case (1 v s1)
    then have v: "bevolves s s1" "slot_entry (wb_codec B) flt v = (if entry_matches flt ?e then Some ?e else None)" by blast+
    show ?case
    proof (cases "entry_matches flt ?e")
      case False
      then have none: "slot_entry (wb_codec B) flt v = None" using v(2) by simp
      show ?thesis
        unfolding none option.case by (rule wp_mono[OF IH[OF v(1) Suc.prems(4)]]) (use False seg pos in auto)
    next
      case True
      then have some: "slot_entry (wb_codec B) flt v = Some ?e" using v(2) by simp
      show ?thesis
      proof (cases "m \<le> Suc (length acc)")
        case full: True
        then show ?thesis using v True seg[of "Suc pos"] pos Suc.prems(4) by (simp add: wp_rules)
      next
        case False
        then have room: "length (acc @ [?e]) < m" "(m \<le> length (acc @ [?e])) = False" by simp_all
        show ?thesis
          unfolding some option.case room(2) if_False
          by (rule wp_mono[OF IH[OF v(1) room(1)]]) (use True seg pos in auto)
      qed
    qed
  qed simp
qed

lemma wo_check_tail_sound:
  assumes "wo_check_tail B bid s = (r, s')"
  shows "bevolves s s'" and "binv s \<Longrightarrow> bid = Some b \<Longrightarrow> r = Inr t \<Longrightarrow> int (len s b) \<le> t \<and> t \<le> int (len s' b)"
proof -
  obtain w h where s: "s = (w, h)" by fastforce
  obtain g w' where call: "wo_tail (wb_space B) (prefixed_space_id (the bid)) TAIL_WINDOW_SIZE w = (g, w')" by fastforce
  have eq: "(r, s') = (if bid \<noteq> None \<and> valid_bus (the bid)
      then (case g of Inl e \<Rightarrow> (Inl (tail_error_to_bus e), (w', h)) | Inr t \<Rightarrow> (Inr (int t), (w', h)))
      else (Inl InvalidArgument, s))"
    using assms call s by (cases bid) (auto simp: wo_check_tail_def eff_defs on_world_def split: sum.splits)
  have "binv s \<Longrightarrow> bevolves s (w', h)" using tail_step(1)[of w h "the bid" g w'] call s by blast
  then have "bevolves s (w', h)" by (auto simp: bevolves_def)
  then show "bevolves s s'" using eq bevolves_refl by (auto split: sum.splits if_splits)
  show "int (len s b) \<le> t \<and> t \<le> int (len s' b)" if "binv s" "bid = Some b" "r = Inr t"
    using tail_step(2)[of w h b g w'] that eq call s by (auto split: sum.splits if_splits)
qed

lemma wp_read_next:
  assumes "binv s" "rn_bus_id req = Some b" "0 \<le> rn_start_log_position req"
    and "rn_start_log_position req < rn_end_log_position req" "rn_end_log_position req \<le> int (len s b)"
  shows "wp (wo_read_next B req)
    (\<lambda>resp s'. bevolves s s' \<and> rn_start_log_position req < rr_next_start_position resp \<and>
       rr_next_start_position resp \<le> rn_end_log_position req \<and>
       int (length (rr_entries resp)) \<le> rn_max_entries req \<and>
       rr_entries resp = filter (entry_matches (rn_filter req))
         (segment (blog s b) (rn_start_log_position req) (rr_next_start_position resp)))
    (\<lambda>_ s'. bevolves s s' \<and> (read_fails \<or> \<not> (valid_bus b \<and> 0 < rn_max_entries req \<and> rn_filter req \<noteq> Some []))) s"
proof (cases "valid_bus b \<and> 0 < rn_max_entries req \<and> rn_filter req \<noteq> Some []")
  case False
  then show ?thesis
    using assms by (auto simp: wo_read_next_def wp_rules bevolves_refl)
next
  case True
  define k where "k = nat (rn_start_log_position req)"
  define stop where "stop = nat (rn_end_log_position req)"
  define m where "m = min (nat (rn_max_entries req)) MAX_POLL_ENTRIES"
  have pos: "rn_start_log_position req = int k" "rn_end_log_position req = int stop" "k < stop" "stop \<le> len s b"
    using assms(3-5) by (auto simp: k_def stop_def)
  have "0 < m" "int m \<le> rn_max_entries req" using True by (auto simp: m_def MAX_POLL_ENTRIES_def)
  then show ?thesis
    using True assms(2) pos
    by (simp add: wo_read_next_def wo_read_filtered_entries_def wp_rules flip: m_def)
      (rule wp_mono[OF read_loop_sound[OF assms(1), where acc = "[]" and m = m and flt = "rn_filter req"]], auto simp: wp_rules)
qed

lemma wo_read_next_evolves: "moves bevolves (wo_read_next B req)"
proof (rule movesI_wp)
  fix s
  have slot: "moves bevolves (read_slot B b pos)" for b pos
  proof (rule movesI_wp)
    fix s :: "'w \<times> 'c"
    obtain w h where s: "s = (w, h)" by fastforce
    obtain g w' where call: "wo_read (wb_space B) (prefixed_space_id b) pos w = (g, w')" by fastforce
    have "binv s \<Longrightarrow> bevolves s (w', h)"
      using sp.read_law[OF _ call] evolves_step bevolves_trans s unfolding binv_def by (metis fst_conv)
    then have "bevolves s (w', h)" by (auto simp: bevolves_def)
    then show "wp (read_slot B b pos) (\<lambda>_. bevolves s) (\<lambda>_. bevolves s) s"
      using call s by (cases g) (auto simp: read_slot_def wp_rules wp_def[of "wo_read _ _ _"] split: option.split)
  qed
  have RT: "reflp bevolves" "transp bevolves" using bevolves_refl bevolves_trans by (auto intro: reflpI transpI)
  have loop: "moves bevolves (wo_read_loop B b m flt stop pos acc)" for b m flt stop pos acc
  proof (induction "stop - pos" arbitrary: pos acc)
    case 0
    then show ?case by (subst wo_read_loop.simps) (auto intro: RT)
  next
    case (Suc d)
    then have "moves bevolves (wo_read_loop B b m flt stop (pos + 1) acc')" for acc' by simp
    then show ?case
      by (subst wo_read_loop.simps) (auto intro!: moves_bindE slot RT split: option.split)
  qed
  have "moves bevolves (wo_read_next B req)"
    unfolding wo_read_next_def wo_read_filtered_entries_def
    by (auto intro!: moves_bindE moves_liftR moves_raise moves_ret loop RT)
  then show "wp (wo_read_next B req) (\<lambda>_. bevolves s) (\<lambda>_. bevolves s) s" by (rule moves_wp)
qed

end

section \<open>The append loop returns when the space is settled\<close>

text \<open>A write to the address that a tail query has just returned does not find it taken: nobody else
  writes in between.\<close>
definition settled :: "('v, 'w) write_once_space \<Rightarrow> bool" where
  "settled Sp \<longleftrightarrow> (\<forall>sid w t w1 v e w2. wo_tail Sp sid TAIL_WINDOW_SIZE w = (Inr t, w1) \<longrightarrow>
     wo_write Sp sid t v w1 = (Inl e, w2) \<longrightarrow> \<not> slot_taken e)"

lemma append_loop_returns:
  assumes "settled (wb_space B)"
  shows "wo_append_loop B b p ts position s \<noteq> None"
proof (cases "\<exists>np s1. wo_append_attempt B b p ts position s = (Inr (Inr np), s1)")
  case False
  then show ?thesis
    by (subst wo_append_loop.simps) (auto split: prod.splits sum.splits)
next
  case True
  then obtain np s1 where first: "wo_append_attempt B b p ts position s = (Inr (Inr np), s1)" by blast
  then obtain w h w1 where s1: "s1 = (w1, h)" and tail: "wo_tail (wb_space B) (prefixed_space_id b) TAIL_WINDOW_SIZE w = (Inr np, w1)"
    by (auto simp: wo_append_attempt_def eff_defs on_world_def split: prod.splits sum.splits if_splits)
  have "\<nexists>np' s2. wo_append_attempt B b p ts np s1 = (Inr (Inr np'), s2)"
  proof -
    have "\<not> slot_taken e" if "wo_write (wb_space B) (prefixed_space_id b) np v w1 = (Inl e, w2)" for v e w2
      using assms tail that unfolding settled_def by blast
    then show ?thesis
      unfolding s1 by (auto simp: wo_append_attempt_def eff_defs on_world_def split: prod.splits sum.splits if_splits)
  qed
  then have "wo_append_loop B b p ts np s1 \<noteq> None"
    by (subst wo_append_loop.simps) (auto split: prod.splits sum.splits)
  then show ?thesis using first by (subst wo_append_loop.simps) simp
qed

lemma wo_append_returns:
  assumes "settled (wb_space B)"
  shows "\<exists>r s'. wo_append B req s = Some (r, s')"
proof -
  have "wo_append B req s \<noteq> None"
    using append_loop_returns[OF assms] by (auto simp: wo_append_def split: sum.split option.split prod.split)
  then show ?thesis by auto
qed

locale wo_bus_settled = wo_bus_env +
  assumes settled: "settled (wb_space B)"

sublocale wo_bus_settled \<subseteq> log_bus "write_once_bus B" blog binv bevolves
proof (standard, goal_cases)
  case (2 s s1 s2)
  then show ?case by (rule bevolves_trans)
next
  case (4 s s1 b)
  from blog_stable[OF 4(2,1)] show ?case .
next
  case (6 req)
  show ?case
    unfolding moves_def
  proof
    fix s
    obtain r s' where call: "wo_append B req s = Some (r, s')" using wo_append_returns[OF settled] by blast
    have "binv s \<Longrightarrow> bevolves s s'" using wo_append_sound[OF call] by blast
    then show "bevolves s (snd (bus_append (write_once_bus B) req s))"
      using call by (auto simp: write_once_bus_def bevolves_def)
  qed
next
  case (7 s b p pos s')
  obtain r s2 where "wo_append B \<lparr>ar_bus_id = Some b, ar_payload = Some p\<rparr> s = Some (r, s2)"
    using wo_append_returns[OF settled] by blast
  then show ?case using 7 wo_append_sound[of "\<lparr>ar_bus_id = Some b, ar_payload = Some p\<rparr>" s r s2]
    by (simp add: write_once_bus_def)
next
  case (8 bid)
  show ?case using wo_check_tail_sound(1) by (auto simp: moves_def write_once_bus_def) (metis prod.collapse)
next
  case (9 s b t s')
  then show ?case using wo_check_tail_sound(2)[of "Some b" s "Inr t" s' b t] by (simp add: write_once_bus_def)
next
  case (10 req)
  show ?case using wo_read_next_evolves by (simp add: write_once_bus_def)
next
  case (11 s req b resp s')
  have "wo_read_next B req s = (Inr resp, s')" using 11(6) by (simp add: write_once_bus_def)
  from wp_okD[OF wp_read_next[OF 11(1-4) 11(5)[unfolded length_blog]] this] show ?case by blast
qed (use wo_log_numbered[OF codec_ok] in \<open>auto simp: bevolves_refl bevolves_def blog_def binv_def\<close>)

text \<open>A settled bus over a space whose reads do not fail.\<close>
locale wo_bus_readable = wo_bus_settled +
  assumes reads: "\<not> read_fails"

sublocale wo_bus_readable \<subseteq> readable_log_bus "write_once_bus B" blog binv bevolves
proof (unfold_locales, goal_cases)
  case (1 s b req)
  from wp_read_next[OF 1(1,3-5) 1(6)[unfolded length_blog]] 1(2,7,8) reads show ?case
    by (auto simp: write_once_bus_def wp_def split: prod.splits sum.splits)
qed

context wo_bus_readable
begin

lemma drained:
  assumes "valid_bus b" "flt \<noteq> Some []" "binv s" "0 \<le> start" "start \<le> stop" "stop \<le> int (length (blog s b))" "0 < max_entries" "max_entries < 2 ^ 31"
  shows "\<exists>es c s'. read_range (write_once_bus B) b start stop max_entries flt s = (Inr (es, c), s') \<and> start \<le> c \<and> c \<le> stop \<and>
    es = filter (entry_matches flt) (segment (blog s b) start c) \<and>
    int (length es) \<le> max_entries \<and> (c = stop \<or> int (length es) = max_entries)"
  by (rule read_range_returns[OF assms])

end

section \<open>The in-memory spaces are settled\<close>

lemma wos_tail_free:
  "space_cells val spaces s (wos_tail spaces s TAIL_WINDOW_SIZE None) = None"
proof (cases "spaces s")
  case None
  then show ?thesis by (simp add: space_cells_def)
next
  case (Some space)
  show ?thesis
  proof (cases space)
    case Nil
    then show ?thesis using Some by (simp add: space_cells_def)
  next
    case (Cons x xs)
    let ?m = "foldl max (fst x) (map fst xs)"
    have "filter (address_is_live space None) (map fst space) = map fst space"
      by (auto simp: filter_id_conv map_of_eq_None_iff)
    then have live: "filter (address_is_live space None) (map fst space) = fst x # map fst xs"
      unfolding Cons list.map .
    have m: "?m = Max (fst ` set space)" by (simp add: foldl_max_Max Cons)
    then have mem: "?m \<in> fst ` set space" using Cons by (metis Max_in finite_imageI finite_set image_is_empty list.distinct(1) set_empty)
    then have "find (\<lambda>addr. \<not> address_is_live space None addr) [?m + 1 - 1..<?m + 1] = None"
      by (simp add: map_of_eq_None_iff)
    then have "wos_tail spaces s TAIL_WINDOW_SIZE None = ?m + 1"
      by (simp only: wos_tail_def Some option.case live list.case Let_def TAIL_WINDOW_SIZE_def)
    moreover have "?m + 1 \<notin> fst ` set space"
      unfolding m by (metis Max_ge Suc_eq_plus1 finite_imageI finite_set not_less_eq_eq order_refl)
    ultimately show ?thesis using Some by (simp add: space_cells_def map_of_eq_None_iff)
  qed
qed

lemma memory_space_settled:
  assumes "mb_ttl mb = None"
  shows "settled (in_memory_write_once_space mb)"
  unfolding settled_def
proof (intro allI impI)
  fix sid t v e and w w1 w2 :: "('a, 'b) wo_world_scheme"
  assume tail: "wo_tail (in_memory_write_once_space mb) sid TAIL_WINDOW_SIZE w = (Inr t, w1)"
    and wr: "wo_write (in_memory_write_once_space mb) sid t v w1 = (Inl e, w2)"
  have "space_cells id (ww_spaces w1) sid t = None"
    using tail assms wos_tail_free[of id "ww_spaces w" sid]
    by (auto simp: in_memory_write_once_space_def in_memory_tail_def split: if_splits)
  then show "\<not> slot_taken e"
    using wr assms
    by (cases rule: wos_write_cases[of "ww_spaces w1" sid t v]) (auto simp: in_memory_write_once_space_def in_memory_write_def)
qed

lemma cond_adapter_settled:
  assumes "mb_ttl mb = None"
  shows "settled (write_once_space_adapter (in_memory_conditional_write_space mb))"
  unfolding settled_def
proof (intro allI impI)
  fix sid t v e and w w1 w2 :: "('a, 'b) wo_world_scheme"
  let ?A = "write_once_space_adapter (in_memory_conditional_write_space mb)"
  assume tail: "wo_tail ?A sid TAIL_WINDOW_SIZE w = (Inr t, w1)" and wr: "wo_write ?A sid t v w1 = (Inl e, w2)"
  have "space_cells vv_value (ww_cond w1) sid t = None"
    using tail assms wos_tail_free[of vv_value "ww_cond w" sid]
    by (auto simp: write_once_space_adapter_def in_memory_conditional_write_space_def cond_tail_def split: if_splits)
  then have "cond_cells w1 sid t = None"
    unfolding cond_cells_space[symmetric] by (simp add: adapter_cells_def)
  then have "fst (cond_write mb sid t None v w1) = Inr True"
    using assms by (simp add: cond_write_def Let_def cond_live)
  then show "\<not> slot_taken e"
    using wr by (auto simp: write_once_space_adapter_def adapter_write_def in_memory_conditional_write_space_def eff_defs split: prod.splits sum.splits)
qed

section \<open>Buses over the in-memory spaces\<close>

definition clock_keeps_spaces :: "('v, 'z) wo_world_scheme environment \<Rightarrow> bool" where
  "clock_keeps_spaces env \<longleftrightarrow> (\<forall>w. ww_spaces (snd (env_unsafe_wall_time env w)) = ww_spaces w \<and>
     ww_cond (snd (env_unsafe_wall_time env w)) = ww_cond w)"

lemma clock_wom_evolves: "clock_keeps_spaces env \<Longrightarrow> env_unsafe_wall_time env w = (t, w') \<Longrightarrow> wom_evolves P w w'"
  unfolding clock_keeps_spaces_def by (metis cells_evolve_refl snd_conv wom_cells_def wom_evolves_def)

lemma clock_cond_evolves: "clock_keeps_spaces env \<Longrightarrow> env_unsafe_wall_time env w = (t, w') \<Longrightarrow> cond_evolves P w w'"
  unfolding clock_keeps_spaces_def by (metis cells_evolve_refl cond_cells_space cond_evolves_def snd_conv)

context memory_wo_space
begin

lemma space_axioms: "wo_space (in_memory_write_once_space mb) wom_cells (\<lambda>_. True) (wom_evolves P) wom_writes"
  by (rule wo_space_axioms)

end

context memory_cond_space
begin

lemma adapter_axioms: "wo_space (write_once_space_adapter (in_memory_conditional_write_space mb)) (adapter_cells cond_cells)
    (\<lambda>_. True) (cond_evolves P) (\<lambda>w s a v w1. \<exists>ver. cond_writes w s a \<lparr>vv_version = ver, vv_value = v\<rparr> w1)"
  by (rule adapter.wo_space_axioms)

end

lemma memory_wo_bus_settled:
  assumes "lru_cache L items cap lok" "mb_ttl mb = None" "entry_codec_ok codec" "clock_keeps_spaces env"
  shows "wo_bus_settled \<lparr>wb_space = in_memory_write_once_space mb, wb_environment = env, wb_codec = codec, wb_lru = L,
      wb_blocking_poll_interval = i\<rparr> wom_cells (\<lambda>_. True) (wom_evolves (log_cells codec)) wom_writes items cap lok"
  using assms memory_wo_space.space_axioms[OF memory_wo_space.intro[OF assms(2)]] memory_space_settled[OF assms(2)]
    clock_wom_evolves[OF assms(4), where P = "log_cells codec"]
  by (simp add: wo_bus_settled_def wo_bus_settled_axioms_def wo_bus_env_def wo_bus_env_axioms_def wom_evolves_def cells_evolve_def)

lemma adapter_wo_bus_settled:
  assumes "lru_cache L items cap lok" "mb_ttl mb = None" "entry_codec_ok codec" "clock_keeps_spaces env"
  shows "wo_bus_settled \<lparr>wb_space = write_once_space_adapter (in_memory_conditional_write_space mb), wb_environment = env,
      wb_codec = codec, wb_lru = L, wb_blocking_poll_interval = i\<rparr> (adapter_cells cond_cells) (\<lambda>_. True)
      (cond_evolves (log_cells codec)) (\<lambda>w s a v w1. \<exists>ver. cond_writes w s a \<lparr>vv_version = ver, vv_value = v\<rparr> w1) items cap lok"
  using assms memory_cond_space.adapter_axioms[OF memory_cond_space.intro[OF assms(2)]] cond_adapter_settled[OF assms(2)]
    clock_cond_evolves[OF assms(4), where P = "log_cells codec"]
  by (simp add: wo_bus_settled_def wo_bus_settled_axioms_def wo_bus_env_def wo_bus_env_axioms_def cond_evolves_def cells_evolve_def)

text \<open>A codec that keeps the entries themselves, for the concrete instances.\<close>
definition plain_entry_codec :: "bus_entry entry_codec" where
  "plain_entry_codec = \<lparr>ec_encode = id, ec_decode = Some\<rparr>"

lemma plain_entry_codec_ok: "entry_codec_ok plain_entry_codec"
  by (simp add: entry_codec_ok_def plain_entry_codec_def)

lemma sim_clock_keeps_spaces: "clock_keeps_spaces (sim_environment bo)"
  by (simp add: clock_keeps_spaces_def sim_environment_def clock_unsafe_wall_time_def Let_def)

interpretation mem_wo_bus: wo_bus_settled
  "\<lparr>wb_space = in_memory_write_once_space \<lparr>mb_environment = env, mb_ttl = None\<rparr>, wb_environment = sim_environment bo,
    wb_codec = plain_entry_codec, wb_lru = list_lru, wb_blocking_poll_interval = i\<rparr>"
  wom_cells "\<lambda>_. True" "wom_evolves (log_cells plain_entry_codec)" wom_writes snd fst list_lru_ok
  for env bo i
  by (rule memory_wo_bus_settled[OF list_lru.lru_cache_axioms _ plain_entry_codec_ok sim_clock_keeps_spaces]) simp

interpretation cond_wo_bus: wo_bus_settled
  "\<lparr>wb_space = write_once_space_adapter (in_memory_conditional_write_space \<lparr>mb_environment = env, mb_ttl = None\<rparr>),
    wb_environment = sim_environment bo, wb_codec = plain_entry_codec, wb_lru = list_lru, wb_blocking_poll_interval = i\<rparr>"
  "adapter_cells cond_cells" "\<lambda>_. True" "cond_evolves (log_cells plain_entry_codec)"
  "\<lambda>w s a v w1. \<exists>ver. cond_writes w s a \<lparr>vv_version = ver, vv_value = v\<rparr> w1" snd fst list_lru_ok
  for env bo i
  by (rule adapter_wo_bus_settled[OF list_lru.lru_cache_axioms _ plain_entry_codec_ok sim_clock_keeps_spaces]) simp

section \<open>Properties\<close>

lemma wo_log_write:
  assumes "entry_codec_ok codec" "log_cells codec c" "position = wo_len c b"
    and "c' = c(prefixed_space_id b := (c (prefixed_space_id b))(position \<mapsto> serialize_entry codec p (int position) ts))"
  shows "wo_log codec c' = (wo_log codec c)(b := wo_log codec c b @
    [\<lparr>entry_header = Some \<lparr>log_position = int position, rt_timestamp_ms = ts\<rparr>, entry_payload = Some p\<rparr>])"
proof
  fix b'
  show "wo_log codec c' b' = ((wo_log codec c)(b := wo_log codec c b @
    [\<lparr>entry_header = Some \<lparr>log_position = int position, rt_timestamp_ms = ts\<rparr>, entry_payload = Some p\<rparr>])) b'"
  proof (cases "b' = b")
    case True
    have len: "wo_len c' b = Suc position" using log_cells_write(2)[OF assms(2-4)] .
    have "wo_log codec c' b = map (\<lambda>i. the (deserialize_entry codec (the (c' (prefixed_space_id b) i)))) [0..<position] @
        [the (deserialize_entry codec (the (c' (prefixed_space_id b) position)))]"
      by (simp add: wo_log_def len)
    moreover have "map (\<lambda>i. the (deserialize_entry codec (the (c' (prefixed_space_id b) i)))) [0..<position] = wo_log codec c b"
      using assms(3,4) by (auto simp: wo_log_def)
    ultimately show ?thesis using True assms(1,4)
      by (simp add: deserialize_entry_def serialize_entry_def entry_codec_ok_def)
  qed (use assms(4) in \<open>simp add: wo_log_def wo_len_def\<close>)
qed

lemma attempt_free:
  assumes "mb_ttl mb = None" "wb_space B = in_memory_write_once_space mb" "wom_cells w (prefixed_space_id b) position = None"
  obtains w' where "wo_append_attempt B b p ts position (w, h) =
      (Inr (Inl (int position)), (w', lru_put (wb_lru B) b (position + 1) h))"
    "wom_cells w' = (wom_cells w)(prefixed_space_id b :=
       (wom_cells w (prefixed_space_id b))(position \<mapsto> serialize_entry (wb_codec B) p (int position) ts))"
proof (cases rule: wos_write_cases[of "ww_spaces w" "prefixed_space_id b" position "serialize_entry (wb_codec B) p (int position) ts"])
  case taken
  then show ?thesis using assms(3) by (simp add: wom_cells_def)
next
  case written
  then show ?thesis
    using assms(1,2)
    by (intro that[of "snd (in_memory_write mb (prefixed_space_id b) position (serialize_entry (wb_codec B) p (int position) ts) w)"])
      (simp_all add: wo_append_attempt_def eff_defs on_world_def in_memory_write_once_space_def in_memory_write_def
        set_next_position_def wom_cells_def space_cells_update)
qed

lemma attempt_taken:
  assumes "mb_ttl mb = None" "wb_space B = in_memory_write_once_space mb" "wom_cells w (prefixed_space_id b) position \<noteq> None"
    and "dom (wom_cells w (prefixed_space_id b)) = {..<n}"
  obtains w' where "wo_append_attempt B b p ts position (w, h) = (Inr (Inr n), (w', h))" "wom_cells w' = wom_cells w"
proof (cases rule: wos_write_cases[of "ww_spaces w" "prefixed_space_id b" position "serialize_entry (wb_codec B) p (int position) ts"])
  case taken
  let ?w = "w\<lparr>ww_spaces := (ww_spaces w)(prefixed_space_id b \<mapsto> (case ww_spaces w (prefixed_space_id b) of Some sp \<Rightarrow> sp | None \<Rightarrow> []))\<rparr>"
  have "wom_cells ?w = wom_cells w" by (simp add: wom_cells_def)
  moreover from this have "wos_tail (ww_spaces ?w) (prefixed_space_id b) TAIL_WINDOW_SIZE None = n"
    using wos_tail_contiguous[of id "ww_spaces ?w" "prefixed_space_id b" n TAIL_WINDOW_SIZE] assms(4)
    by (simp add: wom_cells_def TAIL_WINDOW_SIZE_def)
  ultimately show ?thesis
    using assms(1,2) taken
    by (intro that[of ?w]) (simp_all add: wo_append_attempt_def eff_defs on_world_def in_memory_write_once_space_def
        in_memory_write_def in_memory_tail_def TAIL_WINDOW_SIZE_def)
next
  case written
  then show ?thesis using assms(3) by (simp add: wom_cells_def)
qed

text \<open>
  C22. On an in-memory write-once space whose hints do not lie beyond their logs an append always returns, however far behind
  the hint of its bus is: it adds exactly the given payload at the end of the bus's log, numbered with the returned position, and leaves
  every other log alone.  The hints still do not lie beyond their logs, and every log is still without holes: no
  sequence of appends from an empty cache leaves these conditions.
\<close>
theorem write_once_append_at_end:
  assumes "lru_cache L items cap lok" "mb_ttl mb = None" "entry_codec_ok codec" "clock_keeps_spaces env" "valid_bus b"
    and "log_cells codec (wom_cells w)" "lok h" "\<And>b p. map_of (items h) b = Some p \<Longrightarrow> p \<le> wo_len (wom_cells w) b"
  shows "\<exists>ts w' h'. wo_append \<lparr>wb_space = in_memory_write_once_space mb, wb_environment = env, wb_codec = codec, wb_lru = L,
        wb_blocking_poll_interval = i\<rparr> \<lparr>ar_bus_id = Some b, ar_payload = Some p\<rparr> (w, h)
      = Some (Inr (int (wo_len (wom_cells w) b)), (w', h')) \<and>
    wo_log codec (wom_cells w') = (wo_log codec (wom_cells w))(b := wo_log codec (wom_cells w) b @
      [\<lparr>entry_header = Some \<lparr>log_position = int (wo_len (wom_cells w) b), rt_timestamp_ms = ts\<rparr>, entry_payload = Some p\<rparr>]) \<and>
    log_cells codec (wom_cells w') \<and> lok h' \<and> (\<forall>b p. map_of (items h') b = Some p \<longrightarrow> p \<le> wo_len (wom_cells w') b)"
proof -
  let ?B = "\<lparr>wb_space = in_memory_write_once_space mb, wb_environment = env, wb_codec = codec, wb_lru = L, wb_blocking_poll_interval = i\<rparr>"
  let ?n = "wo_len (wom_cells w) b"
  obtain pos h1 where hint: "lru_get_or_insert L b 0 h = (pos, h1)" by fastforce
  have pos: "pos \<le> ?n"
    using lru_cache.get_or_insert_law[OF assms(1,7) hint] assms(8)[of b] by (auto split: option.splits)
  obtain wall w1 where wall: "env_unsafe_wall_time env w = (wall, w1)" by fastforce
  have same: "wom_cells w1 = wom_cells w"
    using assms(4) wall unfolding clock_keeps_spaces_def wom_cells_def by (metis snd_conv)
  define ts where "ts = wrap_i64 (int (as_millis wall))"
  have dom: "dom (wom_cells w (prefixed_space_id b)) = {..<?n}" by (rule log_cells_dom[OF assms(6)])
  have entry: "wo_append ?B \<lparr>ar_bus_id = Some b, ar_payload = Some p\<rparr> (w, h) = wo_append_loop ?B b p ts pos (w1, h1)"
    using assms(5) hint wall by (simp add: wo_append_def get_next_position_def ts_def)
  have land: "\<exists>w' h'. wo_append_loop ?B b p ts ?n (w2, h2) = Some (Inr (int ?n), (w', h')) \<and>
      wo_log codec (wom_cells w') = (wo_log codec (wom_cells w))(b := wo_log codec (wom_cells w) b @
        [\<lparr>entry_header = Some \<lparr>log_position = int ?n, rt_timestamp_ms = ts\<rparr>, entry_payload = Some p\<rparr>])"
    if "wom_cells w2 = wom_cells w" for w2 h2
  proof -
    have free: "wom_cells w2 (prefixed_space_id b) ?n = None" using dom that by auto
    obtain w' where w': "wo_append_attempt ?B b p ts ?n (w2, h2) = (Inr (Inl (int ?n)), (w', lru_put L b (?n + 1) h2))"
      "wom_cells w' = (wom_cells w2)(prefixed_space_id b :=
         (wom_cells w2 (prefixed_space_id b))(?n \<mapsto> serialize_entry codec p (int ?n) ts))"
      by (rule attempt_free[of mb ?B w2 b ?n p ts h2, OF assms(2) _ free]) auto
    have "wo_append_loop ?B b p ts ?n (w2, h2) = Some (Inr (int ?n), (w', lru_put L b (?n + 1) h2))"
      by (subst wo_append_loop.simps) (simp add: w'(1))
    then show ?thesis using wo_log_write[OF assms(3,6) refl, of "wom_cells w'" b p ts] w'(2) that by metis
  qed
  have "\<exists>w' h'. wo_append ?B \<lparr>ar_bus_id = Some b, ar_payload = Some p\<rparr> (w, h) = Some (Inr (int ?n), (w', h')) \<and>
      wo_log codec (wom_cells w') = (wo_log codec (wom_cells w))(b := wo_log codec (wom_cells w) b @
        [\<lparr>entry_header = Some \<lparr>log_position = int ?n, rt_timestamp_ms = ts\<rparr>, entry_payload = Some p\<rparr>])"
  proof (cases "pos = ?n")
    case True
    then show ?thesis using land[OF same, of h1] entry by auto
  next
    case False
    then have taken: "wom_cells w1 (prefixed_space_id b) pos \<noteq> None" using dom pos same by auto
    obtain w2 where "wo_append_attempt ?B b p ts pos (w1, h1) = (Inr (Inr ?n), (w2, h1))" "wom_cells w2 = wom_cells w1"
      by (rule attempt_taken[of mb ?B w1 b pos ?n p ts h1, OF assms(2) _ taken]) (use dom same in auto)
    then show ?thesis using land[of w2 h1] same entry by (subst (asm) wo_append_loop.simps) auto
  qed
  then obtain w' h' where run: "wo_append ?B \<lparr>ar_bus_id = Some b, ar_payload = Some p\<rparr> (w, h) = Some (Inr (int ?n), (w', h'))"
      "wo_log codec (wom_cells w') = (wo_log codec (wom_cells w))(b := wo_log codec (wom_cells w) b @
        [\<lparr>entry_header = Some \<lparr>log_position = int ?n, rt_timestamp_ms = ts\<rparr>, entry_payload = Some p\<rparr>])" by blast
  note env = wo_bus_settled.axioms(1)[OF memory_wo_bus_settled[OF assms(1-4), of i]]
  have "wo_bus_env.binv ?B wom_cells (\<lambda>_. True) items lok (w, h)"
    unfolding wo_bus_env.binv_def[OF env] using assms(6-8) by simp
  then have "wo_bus_env.binv ?B wom_cells (\<lambda>_. True) items lok (w', h')"
    using wo_bus_env.wo_append_sound[OF env run(1)] unfolding wo_bus_env.bevolves_def[OF env] by blast
  then show ?thesis using run unfolding wo_bus_env.binv_def[OF env] by (intro exI[of _ ts] exI[of _ w'] exI[of _ h']) simp
qed

definition empty_wo_world :: "bus_entry wo_world" where
  "empty_wo_world = \<lparr>mw_buses = Map.empty, mw_elapsed = 0, mw_noise = [], ww_spaces = Map.empty, ww_cond = Map.empty\<rparr>"

definition some_backoff :: "nat \<Rightarrow> bus_entry wo_world \<Rightarrow> nat \<times> bus_entry wo_world" where
  "some_backoff u w = (u, w)"

definition demo_wo_bus :: "((string, nat) lru_list, bus_entry, bus_entry wo_world) wo_bus" where
  "demo_wo_bus = \<lparr>wb_space = in_memory_write_once_space \<lparr>mb_environment = sim_environment some_backoff, mb_ttl = None\<rparr>,
     wb_environment = sim_environment some_backoff, wb_codec = plain_entry_codec, wb_lru = list_lru,
     wb_blocking_poll_interval = DEFAULT_BLOCKING_POLL_INTERVAL\<rparr>"

lemma empty_log_cells: "log_cells codec (wom_cells empty_wo_world)" "wo_len (wom_cells empty_wo_world) b = 0"
  by (auto simp: log_cells_def wo_len_def wom_cells_def space_cells_def empty_wo_world_def dom_def intro!: exI[of _ 0])

theorem write_once_append_at_end_witness:
  "\<exists>w' h'. wo_append demo_wo_bus \<lparr>ar_bus_id = Some ''bus'', ar_payload = Some None\<rparr> (empty_wo_world, (2, []))
     = Some (Inr 0, (w', h')) \<and> map entry_payload (wo_log plain_entry_codec (wom_cells w') ''bus'') = [Some None]"
proof -
  have "valid_bus ''bus''" by code_simp
  then show ?thesis
    using write_once_append_at_end[OF list_lru.lru_cache_axioms _ plain_entry_codec_ok sim_clock_keeps_spaces _ empty_log_cells(1),
        of "\<lparr>mb_environment = sim_environment some_backoff, mb_ttl = None\<rparr>" "''bus''" "(2, [])" some_backoff
           DEFAULT_BLOCKING_POLL_INTERVAL None]
    by (auto simp: demo_wo_bus_def empty_log_cells list_lru_ok_def wo_log_def[of _ "wom_cells empty_wo_world"])
qed

lemma memory_wo_bus_readable:
  assumes "lru_cache L items cap lok" "mb_ttl mb = None" "entry_codec_ok codec" "clock_keeps_spaces env"
  shows "wo_bus_readable \<lparr>wb_space = in_memory_write_once_space mb, wb_environment = env, wb_codec = codec, wb_lru = L,
      wb_blocking_poll_interval = i\<rparr> wom_cells (\<lambda>_. True) (wom_evolves (log_cells codec)) wom_writes items cap lok"
proof -
  note settled = memory_wo_bus_settled[OF assms, of i]
  show ?thesis
    unfolding wo_bus_readable_def wo_bus_readable_axioms_def wo_bus_env.read_fails_def[OF wo_bus_settled.axioms(1)[OF settled]]
    using settled assms(2) by (simp add: in_memory_write_once_space_def in_memory_read_def)
qed

text \<open>
  C4. Draining a range of a write-once bus always returns: exactly the matching entries of the log up to the returned
  cursor, stopping short of the end of the range only with as many entries as were asked for.
\<close>
theorem write_once_read_range:
  assumes "lru_cache L items cap lok" "mb_ttl mb = None" "entry_codec_ok codec" "clock_keeps_spaces env" "valid_bus b" "flt \<noteq> Some []"
    and "log_cells codec (wom_cells w)" "lok h" "\<And>b p. map_of (items h) b = Some p \<Longrightarrow> p \<le> wo_len (wom_cells w) b"
    and "0 \<le> start" "start \<le> stop" "stop \<le> int (wo_len (wom_cells w) b)" "0 < max_entries" "max_entries < 2 ^ 31"
  shows "\<exists>es c s'. read_range (write_once_bus \<lparr>wb_space = in_memory_write_once_space mb, wb_environment = env, wb_codec = codec, wb_lru = L,
        wb_blocking_poll_interval = i\<rparr>) b start stop max_entries flt (w, h) = (Inr (es, c), s') \<and> start \<le> c \<and> c \<le> stop \<and>
    es = filter (entry_matches flt) (segment (wo_log codec (wom_cells w) b) start c) \<and>
    int (length es) \<le> max_entries \<and> (c = stop \<or> int (length es) = max_entries)"
proof -
  let ?B = "\<lparr>wb_space = in_memory_write_once_space mb, wb_environment = env, wb_codec = codec, wb_lru = L, wb_blocking_poll_interval = i\<rparr>"
  note env = memory_wo_bus_readable[OF assms(1-4), of i]
  note base = wo_bus_settled.axioms(1)[OF wo_bus_readable.axioms(1)[OF env]]
  have inv: "wo_bus_env.binv ?B wom_cells (\<lambda>_. True) items lok (w, h)"
    unfolding wo_bus_env.binv_def[OF base] using assms(7-9) by simp
  have log: "wo_bus_env.blog ?B wom_cells (w, h) b = wo_log codec (wom_cells w) b"
    unfolding wo_bus_env.blog_def[OF base] by simp
  have "stop \<le> int (length (wo_bus_env.blog ?B wom_cells (w, h) b))" unfolding log using assms(12) by simp
  from wo_bus_readable.drained[OF env assms(5,6) inv assms(10,11) this assms(13,14)] show ?thesis unfolding log .
qed

definition one_entry_wo :: "bus_entry wo_world \<times> (string, nat) lru_list" where
  "one_entry_wo = snd (the (wo_append demo_wo_bus \<lparr>ar_bus_id = Some ''bus'', ar_payload = Some None\<rparr> (empty_wo_world, (2, []))))"

lemma demo_wo_bus_settled:
  "wo_bus_settled demo_wo_bus wom_cells (\<lambda>_. True) (wom_evolves (log_cells plain_entry_codec)) wom_writes snd fst list_lru_ok"
  unfolding demo_wo_bus_def
  by (rule memory_wo_bus_settled[OF list_lru.lru_cache_axioms _ plain_entry_codec_ok sim_clock_keeps_spaces]) simp

lemma one_entry_wo_inv:
  "log_cells plain_entry_codec (wom_cells (fst one_entry_wo)) \<and> list_lru_ok (snd one_entry_wo) \<and>
   (\<forall>b p. map_of (snd (snd one_entry_wo)) b = Some p \<longrightarrow> p \<le> wo_len (wom_cells (fst one_entry_wo)) b) \<and>
   0 < wo_len (wom_cells (fst one_entry_wo)) ''bus''"
proof -
  note env = wo_bus_settled.axioms(1)[OF demo_wo_bus_settled]
  let ?s = "(empty_wo_world, (2, [])) :: bus_entry wo_world \<times> (string, nat) lru_list"
  let ?req = "\<lparr>ar_bus_id = Some ''bus'', ar_payload = Some None\<rparr> :: append_request"
  have inv: "wo_bus_env.binv demo_wo_bus wom_cells (\<lambda>_. True) snd list_lru_ok ?s"
    unfolding wo_bus_env.binv_def[OF env] by (simp add: empty_log_cells list_lru_ok_def demo_wo_bus_def)
  have "map_option fst (wo_append demo_wo_bus ?req ?s) = Some (Inr 0)" by code_simp
  then have call: "wo_append demo_wo_bus ?req ?s = Some (Inr 0, one_entry_wo)"
    by (cases "wo_append demo_wo_bus ?req ?s") (auto simp: one_entry_wo_def)
  have "wo_bus_env.binv demo_wo_bus wom_cells (\<lambda>_. True) snd list_lru_ok one_entry_wo"
    using wo_bus_env.wo_append_sound[OF env call inv] inv unfolding wo_bus_env.bevolves_def[OF env] by blast
  moreover have "0 < wo_len (wom_cells (fst one_entry_wo)) ''bus''"
    using wo_bus_env.wo_append_sound[OF env call inv] by fastforce
  ultimately show ?thesis unfolding wo_bus_env.binv_def[OF env] by (simp add: demo_wo_bus_def)
qed

theorem write_once_read_range_witness:
  "\<exists>es c s'. read_range (write_once_bus demo_wo_bus) ''bus'' 0 1 5 None one_entry_wo = (Inr (es, c), s') \<and> c = 1 \<and>
     es = filter (entry_matches None) (segment (wo_log plain_entry_codec (wom_cells (fst one_entry_wo)) ''bus'') 0 1)"
proof -
  let ?mb = "\<lparr>mb_environment = sim_environment some_backoff, mb_ttl = None\<rparr> :: bus_entry wo_world mem_bus"
  have valid: "valid_bus ''bus''" by code_simp
  have one: "0 \<le> (0::int)" "(0::int) \<le> 1" "1 \<le> int (wo_len (wom_cells (fst one_entry_wo)) ''bus'')" "0 < (5::int)" "(5::int) < 2 ^ 31"
    using one_entry_wo_inv by simp_all
  have hints: "map_of (snd (snd one_entry_wo)) b = Some p \<Longrightarrow> p \<le> wo_len (wom_cells (fst one_entry_wo)) b" for b p
    using one_entry_wo_inv by blast
  have none: "mb_ttl ?mb = None" "None \<noteq> Some []" by simp_all
  have lc: "log_cells plain_entry_codec (wom_cells (fst one_entry_wo))" and lok: "list_lru_ok (snd one_entry_wo)"
    using one_entry_wo_inv by blast+
  from write_once_read_range[OF list_lru.lru_cache_axioms none(1) plain_entry_codec_ok sim_clock_keeps_spaces[of some_backoff]
      valid none(2) lc lok hints one, of DEFAULT_BLOCKING_POLL_INTERVAL]
  obtain es c s' where run: "read_range (write_once_bus demo_wo_bus) ''bus'' 0 1 5 None one_entry_wo = (Inr (es, c), s')"
      "0 \<le> c" "c \<le> 1" "es = filter (entry_matches None) (segment (wo_log plain_entry_codec (wom_cells (fst one_entry_wo)) ''bus'') 0 c)"
      "c = 1 \<or> int (length es) = 5"
    unfolding demo_wo_bus_def[symmetric] prod.collapse by blast
  have "length es \<le> 1" using run(2-4) by (auto simp: segment_def intro!: order_trans[OF length_filter_le])
  then have "c = 1" using run(5) by simp
  with run show ?thesis by blast
qed

end
