(* ===== verification/Caches.thy ===== *)
theory Caches
  imports Write_Once_Bus Storage
begin

text \<open>
  The two caches of the repository, both byte-limited LRU caches in front of a store:
  \<open>CachingWriteOnceSpace\<close> (\<open>bus/impls/writeonce/src/caching_write_once_space.rs\<close>) keeps
  confirmed values of a write-once space and is transparent; \<open>CachingStorage\<close>
  (\<open>logact/commit_service/impls/v1/engine/src/caching_storage.rs\<close>) keeps acknowledged writes of the
  engine's store for one read each and may return a value that others have since replaced.
  The \<open>lru\<close> crate is a parameter, as is the byte length of a value.

  \<open>value_bytes -= n\<close> on a \<open>usize\<close> is written as subtraction of natural numbers; the accounting
  invariant shows that it never goes below zero.
\<close>

section \<open>Byte-limited caches\<close>

text \<open>The fields \<open>values\<close> and \<open>value_bytes\<close> of both \<open>Cache\<close> structs.\<close>
record 'c byte_cache =
  bc_values :: 'c
  bc_value_bytes :: nat

text \<open>
  The eviction loop of \<open>insert\<close>: drop the least recently used entry until a value of \<open>len\<close> bytes
  fits; \<open>False\<close> is the early return on an empty cache.  Every iteration removes an entry, so the
  number of entries plus one bounds the iterations.
\<close>
primrec evict :: "nat \<Rightarrow> ('k, 'x, 'c) lru_ops \<Rightarrow> ('x \<Rightarrow> nat) \<Rightarrow> nat \<Rightarrow> nat \<Rightarrow> 'c byte_cache \<Rightarrow> bool \<times> 'c byte_cache" where
  "evict 0 L sz len max_bytes c = (len \<le> max_bytes - bc_value_bytes c, c)"
| "evict (Suc n) L sz len max_bytes c =
     (if max_bytes - bc_value_bytes c < len then
        (case lru_pop_lru L (bc_values c) of
           (None, vs) \<Rightarrow> (False, c\<lparr>bc_values := vs\<rparr>)
         | (Some (_, removed), vs) \<Rightarrow>
             evict n L sz len max_bytes
               (c\<lparr>bc_values := vs, bc_value_bytes := bc_value_bytes c - sz removed\<rparr>))
      else (True, c))"

text \<open>Adding a value that fits, with the entry the push displaces.\<close>
definition push_value :: "('k, 'x, 'c) lru_ops \<Rightarrow> ('x \<Rightarrow> nat) \<Rightarrow> 'k \<Rightarrow> 'x \<Rightarrow> 'c byte_cache \<Rightarrow> 'c byte_cache" where
  "push_value L sz key x c =
     (case lru_push L key x (bc_values c) of
        (None, vs) \<Rightarrow> c\<lparr>bc_values := vs, bc_value_bytes := bc_value_bytes c + sz x\<rparr>
      | (Some (_, removed), vs) \<Rightarrow>
          c\<lparr>bc_values := vs, bc_value_bytes := bc_value_bytes c + sz x - sz removed\<rparr>)"

definition evict_and_push :: "('k, 'x, 'c) lru_ops \<Rightarrow> ('x \<Rightarrow> nat) \<Rightarrow> nat \<Rightarrow> 'k \<Rightarrow> 'x \<Rightarrow> 'c byte_cache \<Rightarrow> 'c byte_cache" where
  "evict_and_push L sz max_bytes key x c =
     (case evict (Suc (lru_len L (bc_values c))) L sz (sz x) max_bytes c of
        (False, c1) \<Rightarrow> c1
      | (True, c1) \<Rightarrow> push_value L sz key x c1)"

section \<open>The caching write-once space\<close>

record 'v wo_cached_value =
  wcv_value :: 'v
  wcv_expires_at :: "nat option"

record ('c, 'v, 'w) caching_space =
  csp_inner :: "('v, 'w) write_once_space"
  csp_lru :: "(string \<times> nat, 'v wo_cached_value, 'c) lru_ops"
  csp_byte_len :: "'v \<Rightarrow> nat"
  csp_write_ttl :: "(nat \<times> 'w environment) option"
  csp_max_entries :: nat
  csp_max_value_bytes :: nat
  csp_max_entry_value_bytes :: nat

definition DEFAULT_MAX_ENTRY_VALUE_BYTES :: nat where "DEFAULT_MAX_ENTRY_VALUE_BYTES = 64 * 1024"

definition cached_size :: "('c, 'v, 'w) caching_space \<Rightarrow> 'v wo_cached_value \<Rightarrow> nat" where
  "cached_size S x = csp_byte_len S (wcv_value x)"

definition caching_space_new_with_entry_limit :: "('v, 'w) write_once_space \<Rightarrow> (string \<times> nat, 'v wo_cached_value, 'c) lru_ops \<Rightarrow> ('v \<Rightarrow> nat)
    \<Rightarrow> nat \<Rightarrow> nat \<Rightarrow> nat \<Rightarrow> ('c, 'v, 'w) caching_space \<times> 'c byte_cache" where
  "caching_space_new_with_entry_limit inner lru byte_len max_entries max_value_bytes max_entry_value_bytes =
     (\<lparr>csp_inner = inner, csp_lru = lru, csp_byte_len = byte_len, csp_write_ttl = None, csp_max_entries = max_entries,
       csp_max_value_bytes = max_value_bytes, csp_max_entry_value_bytes = max_entry_value_bytes\<rparr>,
      \<lparr>bc_values = lru_new lru (if max_entries = 0 then 1 else max_entries), bc_value_bytes = 0\<rparr>)"

definition caching_space_new :: "('v, 'w) write_once_space \<Rightarrow> (string \<times> nat, 'v wo_cached_value, 'c) lru_ops \<Rightarrow> ('v \<Rightarrow> nat)
    \<Rightarrow> nat \<Rightarrow> nat \<Rightarrow> ('c, 'v, 'w) caching_space \<times> 'c byte_cache" where
  "caching_space_new inner lru byte_len max_entries max_value_bytes =
     caching_space_new_with_entry_limit inner lru byte_len max_entries max_value_bytes DEFAULT_MAX_ENTRY_VALUE_BYTES"

definition with_write_ttl :: "'w environment \<Rightarrow> nat \<Rightarrow> ('c, 'v, 'w) caching_space \<times> 'c byte_cache
    \<Rightarrow> ('c, 'v, 'w) caching_space \<times> 'c byte_cache" where
  "with_write_ttl env ttl = (\<lambda>(S, c).
     (S\<lparr>csp_write_ttl := Some (ttl, env)\<rparr>,
      \<lparr>bc_values = lru_clear (csp_lru S) (bc_values c), bc_value_bytes = 0\<rparr>))"

definition cache_now :: "('c, 'v, 'w) caching_space \<Rightarrow> 'w \<Rightarrow> nat option \<times> 'w" where
  "cache_now S w =
     (case csp_write_ttl S of
        None \<Rightarrow> (None, w)
      | Some (ttl, env) \<Rightarrow> (case env_monotonic_time env w of (now, w') \<Rightarrow> (Some now, w')))"

definition wo_cache_get :: "('c, 'v, 'w) caching_space \<Rightarrow> string \<Rightarrow> nat \<Rightarrow> nat option \<Rightarrow> 'c byte_cache \<Rightarrow> 'v option \<times> 'c byte_cache" where
  "wo_cache_get S space_id address now c =
     (case lru_get (csp_lru S) (space_id, address) (bc_values c) of
        (None, vs) \<Rightarrow> (None, c\<lparr>bc_values := vs\<rparr>)
      | (Some x, vs) \<Rightarrow>
          (if (case (wcv_expires_at x, now) of (Some deadline, Some n) \<Rightarrow> n < deadline | _ \<Rightarrow> True)
           then Some (wcv_value x) else None,
           c\<lparr>bc_values := vs\<rparr>))"

definition wo_cache_insert :: "('c, 'v, 'w) caching_space \<Rightarrow> string \<Rightarrow> nat \<Rightarrow> 'v \<Rightarrow> nat option \<Rightarrow> 'c byte_cache \<Rightarrow> 'c byte_cache" where
  "wo_cache_insert S space_id address v expires_at c =
     (if csp_max_entries S = 0 \<or> csp_max_value_bytes S = 0 \<or> csp_max_entry_value_bytes S = 0 \<or>
         csp_max_value_bytes S < csp_byte_len S v \<or> csp_max_entry_value_bytes S < csp_byte_len S v \<or>
         lru_peek (csp_lru S) (space_id, address) (bc_values c) \<noteq> None
      then c
      else evict_and_push (csp_lru S) (cached_size S) (csp_max_value_bytes S) (space_id, address)
             \<lparr>wcv_value = v, wcv_expires_at = expires_at\<rparr> c)"

definition caching_write :: "('c, 'v, 'w) caching_space \<Rightarrow> string \<Rightarrow> nat \<Rightarrow> 'v \<Rightarrow> ('w \<times> 'c byte_cache, write_once_error, unit) eff" where
  "caching_write S space_id address v = (\<lambda>(w, c).
     case cache_now S w of (now, w1) \<Rightarrow>
       let expires_at = (case (now, csp_write_ttl S) of (Some n, Some (ttl, _)) \<Rightarrow> Some (n + ttl) | _ \<Rightarrow> None)
       in (case wo_write (csp_inner S) space_id address v w1 of
             (Inl e, w2) \<Rightarrow> (Inl e, (w2, c))
           | (Inr _, w2) \<Rightarrow> (Inr (), (w2, wo_cache_insert S space_id address v expires_at c))))"

definition caching_read :: "('c, 'v, 'w) caching_space \<Rightarrow> string \<Rightarrow> nat \<Rightarrow> ('w \<times> 'c byte_cache, write_once_error, 'v option) eff" where
  "caching_read S space_id address = (\<lambda>(w, c).
     case cache_now S w of (now, w1) \<Rightarrow>
       (case wo_cache_get S space_id address now c of
          (Some v, c1) \<Rightarrow> (Inr (Some v), (w1, c1))
        | (None, c1) \<Rightarrow>
            (case wo_read (csp_inner S) space_id address w1 of
               (Inl e, w2) \<Rightarrow> (Inl e, (w2, c1))
             | (Inr None, w2) \<Rightarrow> (Inr None, (w2, c1))
             | (Inr (Some v), w2) \<Rightarrow>
                 (Inr (Some v), (w2, if csp_write_ttl S = None then wo_cache_insert S space_id address v None c1 else c1)))))"

definition caching_tail :: "('c, 'v, 'w) caching_space \<Rightarrow> string \<Rightarrow> nat \<Rightarrow> ('w \<times> 'c byte_cache, tail_error, nat) eff" where
  "caching_tail S space_id window_size = on_world (wo_tail (csp_inner S) space_id window_size)"

definition caching_write_once_space :: "('c, 'v, 'w) caching_space \<Rightarrow> ('v, 'w \<times> 'c byte_cache) write_once_space" where
  "caching_write_once_space S = \<lparr>wo_write = caching_write S, wo_read = caching_read S, wo_tail = caching_tail S\<rparr>"

section \<open>The caching storage\<close>

definition MAX_ENTRY_VALUE_BYTES :: nat where "MAX_ENTRY_VALUE_BYTES = 64 * 1024"

record caching_storage_config =
  csc_ttl :: nat
  csc_max_entries :: nat
  csc_max_value_bytes :: nat

record 'b st_cached_value =
  scv_value :: 'b
  scv_position :: int
  scv_expires_at :: nat

record ('c, 'b, 'w) caching_store =
  cst_inner :: "('b, 'w) storage"
  cst_environment :: "'w environment"
  cst_lru :: "(string, 'b st_cached_value, 'c) lru_ops"
  cst_byte_len :: "'b \<Rightarrow> nat"
  cst_config :: caching_storage_config

definition caching_store_new :: "('b, 'w) storage \<Rightarrow> 'w environment \<Rightarrow> (string, 'b st_cached_value, 'c) lru_ops \<Rightarrow> ('b \<Rightarrow> nat)
    \<Rightarrow> caching_storage_config \<Rightarrow> ('c, 'b, 'w) caching_store \<times> 'c byte_cache" where
  "caching_store_new inner env lru byte_len config =
     (\<lparr>cst_inner = inner, cst_environment = env, cst_lru = lru, cst_byte_len = byte_len, cst_config = config\<rparr>,
      \<lparr>bc_values = lru_new lru (if csc_max_entries config = 0 then 1 else csc_max_entries config), bc_value_bytes = 0\<rparr>)"

definition stored_size :: "('c, 'b, 'w) caching_store \<Rightarrow> 'b st_cached_value \<Rightarrow> nat" where
  "stored_size S x = cst_byte_len S (scv_value x)"

definition st_cache_get :: "('c, 'b, 'w) caching_store \<Rightarrow> string \<Rightarrow> 'c byte_cache \<Rightarrow> 'b st_cached_value option \<times> 'c byte_cache" where
  "st_cache_get S key c =
     (case lru_pop (cst_lru S) key (bc_values c) of
        (None, vs) \<Rightarrow> (None, c\<lparr>bc_values := vs\<rparr>)
      | (Some removed, vs) \<Rightarrow>
          (Some removed, c\<lparr>bc_values := vs, bc_value_bytes := bc_value_bytes c - stored_size S removed\<rparr>))"

definition st_cache_insert :: "('c, 'b, 'w) caching_store \<Rightarrow> string \<Rightarrow> 'b st_cached_value \<Rightarrow> 'c byte_cache \<Rightarrow> 'c byte_cache" where
  "st_cache_insert S key x c =
     (if (case lru_peek (cst_lru S) key (bc_values c) of Some cached \<Rightarrow> scv_position x \<le> scv_position cached | None \<Rightarrow> False)
      then c
      else
        let c1 = snd (st_cache_get S key c) in
        if csc_max_entries (cst_config S) = 0 \<or> csc_max_value_bytes (cst_config S) = 0 \<or>
           csc_max_value_bytes (cst_config S) < stored_size S x \<or> MAX_ENTRY_VALUE_BYTES < stored_size S x
        then c1
        else evict_and_push (cst_lru S) (stored_size S) (csc_max_value_bytes (cst_config S)) key x c1)"

definition caching_get :: "('c, 'b, 'w) caching_store \<Rightarrow> string \<Rightarrow> ('w \<times> 'c byte_cache, storage_error, ('b \<times> int) option) eff" where
  "caching_get S key = (\<lambda>(w, c).
     case st_cache_get S key c of
       (Some cached, c1) \<Rightarrow>
         (case env_monotonic_time (cst_environment S) w of (now, w1) \<Rightarrow>
            if now < scv_expires_at cached then (Inr (Some (scv_value cached, scv_position cached)), (w1, c1))
            else on_world (st_get (cst_inner S) key) (w1, c1))
     | (None, c1) \<Rightarrow> on_world (st_get (cst_inner S) key) (w, c1))"

definition caching_put :: "('c, 'b, 'w) caching_store \<Rightarrow> string \<Rightarrow> 'b \<Rightarrow> int option \<Rightarrow> int \<Rightarrow> ('w \<times> 'c byte_cache, storage_error, bool) eff" where
  "caching_put S key v expected new_position = (\<lambda>(w, c).
     case st_cache_get S key c of (_, c1) \<Rightarrow>
     (case env_monotonic_time (cst_environment S) w of (now, w1) \<Rightarrow>
     (case st_put (cst_inner S) key v expected new_position w1 of (result, w2) \<Rightarrow>
        (result, (w2, if result = Inr True
                      then st_cache_insert S key \<lparr>scv_value = v, scv_position = new_position,
                             scv_expires_at = now + csc_ttl (cst_config S)\<rparr> c1
                      else snd (st_cache_get S key c1))))))"

definition caching_storage :: "('c, 'b, 'w) caching_store \<Rightarrow> ('b, 'w \<times> 'c byte_cache) storage" where
  "caching_storage S = \<lparr>st_get = caching_get S, st_put = caching_put S\<rparr>"

section \<open>Byte accounting\<close>

text \<open>The counted bytes are the bytes of the cached values.\<close>
definition accounted :: "('c \<Rightarrow> ('k \<times> 'x) list) \<Rightarrow> ('x \<Rightarrow> nat) \<Rightarrow> 'c byte_cache \<Rightarrow> bool" where
  "accounted items sz c \<longleftrightarrow> bc_value_bytes c = sum_list (map (sz \<circ> snd) (items (bc_values c)))"

lemma sum_butlast: "xs \<noteq> [] \<Longrightarrow> sum_list (map f xs) = sum_list (map f (butlast xs)) + (f (last xs) :: nat)"
  by (induction xs) auto

lemma sum_delete:
  assumes "map_of xs k = Some x" "distinct (map fst xs)"
  shows "sum_list (map (f \<circ> snd) xs) = sum_list (map (f \<circ> snd) (AList.delete k xs)) + (f x :: nat)"
  using assms by (induction xs) (auto split: if_splits simp: delete_id)

context lru_cache
begin

text \<open>With enough fuel the loop ends by making room, keeps the accounting, and only removes entries.\<close>
lemma evict_sound:
  assumes "ok (bc_values c)" "accounted items sz c" "len \<le> max_bytes" "length (items (bc_values c)) < n"
    and "evict n L sz len max_bytes c = (b, c')"
  shows "b \<and> ok (bc_values c') \<and> cap (bc_values c') = cap (bc_values c) \<and> accounted items sz c' \<and>
    bc_value_bytes c' \<le> bc_value_bytes c \<and> len \<le> max_bytes - bc_value_bytes c' \<and>
    (\<exists>k. items (bc_values c') = take k (items (bc_values c)))"
  using assms
proof (induction n arbitrary: c)
  case (Suc n)
  show ?case
  proof (cases "max_bytes - bc_value_bytes c < len")
    case False
    then show ?thesis using Suc.prems by (auto intro: exI[of _ "length (items (bc_values c))"])
  next
    case True
    obtain x vs where pop: "lru_pop_lru L (bc_values c) = (x, vs)" by fastforce
    note law = pop_lru_law[OF Suc.prems(1) pop]
    have ne: "items (bc_values c) \<noteq> []"
    proof
      assume "items (bc_values c) = []"
      then have "bc_value_bytes c = 0" using Suc.prems(2) by (simp add: accounted_def)
      then show False using True Suc.prems(3) by simp
    qed
    then obtain k r where x: "x = Some (k, r)" and last: "last (items (bc_values c)) = (k, r)"
      using law by (metis surj_pair)
    let ?c1 = "c\<lparr>bc_values := vs, bc_value_bytes := bc_value_bytes c - sz r\<rparr>"
    have acc: "accounted items sz ?c1"
      using Suc.prems(2) sum_butlast[OF ne, of "sz \<circ> snd"] law last by (simp add: accounted_def)
    have rest: "evict n L sz len max_bytes ?c1 = (b, c')"
      using Suc.prems(5) True pop x by simp
    have "length (items (bc_values ?c1)) < n" using law ne Suc.prems(4) by (cases "items (bc_values c)") auto
    then have IH: "b \<and> ok (bc_values c') \<and> cap (bc_values c') = cap (bc_values ?c1) \<and> accounted items sz c' \<and>
        bc_value_bytes c' \<le> bc_value_bytes ?c1 \<and> len \<le> max_bytes - bc_value_bytes c' \<and>
        (\<exists>k. items (bc_values c') = take k (items (bc_values ?c1)))"
      using law acc Suc.prems(3) by (intro Suc.IH[OF _ _ _ _ rest]) auto
    moreover have "\<exists>j. take k (butlast (items (bc_values c))) = take j (items (bc_values c))" for k
      by (metis butlast_conv_take take_take)
    ultimately show ?thesis using law by (auto intro: order_trans)
  qed
qed simp

lemma inserted_sum:
  assumes "distinct (map fst xs)" "length xs \<le> n" "0 < n"
  shows "sum_list (map (sz \<circ> snd) (inserted n k x xs)) +
      (case displaced n k xs of None \<Rightarrow> 0 | Some y \<Rightarrow> sz (snd y)) = sum_list (map (sz \<circ> snd) xs) + (sz x :: nat)"
proof (cases "map_of xs k")
  case (Some y)
  then show ?thesis using sum_delete[OF Some assms(1), of sz] by (simp add: inserted_def displaced_def to_front_def)
next
  case None
  then show ?thesis
    using sum_butlast[of xs "sz \<circ> snd"] assms(2,3) by (auto simp: inserted_def displaced_def)
qed

lemma push_value_sound:
  assumes "ok (bc_values c)" "accounted items sz c"
  shows "ok (bc_values (push_value L sz k x c)) \<and> cap (bc_values (push_value L sz k x c)) = cap (bc_values c) \<and>
    accounted items sz (push_value L sz k x c) \<and>
    bc_value_bytes (push_value L sz k x c) \<le> bc_value_bytes c + sz x \<and>
    items (bc_values (push_value L sz k x c)) = inserted (cap (bc_values c)) k x (items (bc_values c))"
proof -
  obtain r vs where push: "lru_push L k x (bc_values c) = (r, vs)" by fastforce
  note law = push_law[OF assms(1) push]
  have "sum_list (map (sz \<circ> snd) (items vs)) + (case r of None \<Rightarrow> 0 | Some y \<Rightarrow> sz (snd y)) = bc_value_bytes c + sz x"
    using inserted_sum[of "items (bc_values c)" "cap (bc_values c)" sz k x] items_ok[OF assms(1)] law assms(2)
    by (simp add: accounted_def)
  then show ?thesis
    using push law by (auto simp: push_value_def accounted_def split: option.splits)
qed

lemma evict_and_push_sound:
  assumes "ok (bc_values c)" "accounted items sz c" "bc_value_bytes c \<le> max_bytes" "sz x \<le> max_bytes"
  shows "ok (bc_values (evict_and_push L sz max_bytes k x c)) \<and>
    cap (bc_values (evict_and_push L sz max_bytes k x c)) = cap (bc_values c) \<and>
    accounted items sz (evict_and_push L sz max_bytes k x c) \<and>
    bc_value_bytes (evict_and_push L sz max_bytes k x c) \<le> max_bytes \<and>
    map_of (items (bc_values (evict_and_push L sz max_bytes k x c))) k = Some x \<and>
    (\<forall>k' y. map_of (items (bc_values (evict_and_push L sz max_bytes k x c))) k' = Some y \<longrightarrow>
       (k' = k \<and> y = x) \<or> map_of (items (bc_values c)) k' = Some y)"
proof -
  obtain b c1 where ev: "evict (Suc (lru_len L (bc_values c))) L sz (sz x) max_bytes c = (b, c1)" by fastforce
  note e = evict_sound[OF assms(1,2,4) _ ev]
  then have e: "b" "ok (bc_values c1)" "cap (bc_values c1) = cap (bc_values c)" "accounted items sz c1"
      "bc_value_bytes c1 \<le> bc_value_bytes c" "sz x \<le> max_bytes - bc_value_bytes c1"
      "\<exists>j. items (bc_values c1) = take j (items (bc_values c))"
    using len_law[OF assms(1)] by auto
  have eq: "evict_and_push L sz max_bytes k x c = push_value L sz k x c1"
    using ev e(1) by (simp add: evict_and_push_def)
  note p = push_value_sound[OF e(2,4), of k x]
  obtain j where j: "items (bc_values c1) = take j (items (bc_values c))" using e(7) by blast
  have "map_of (items (bc_values c)) k' = Some y" if "map_of (items (bc_values c1)) k' = Some y" for k' y
    using that items_ok[OF assms(1)] unfolding j by (metis in_set_takeD map_of_SomeD map_of_eq_Some_iff)
  then have "\<forall>k' y. map_of (items (bc_values (push_value L sz k x c1))) k' = Some y \<longrightarrow>
       (k' = k \<and> y = x) \<or> map_of (items (bc_values c)) k' = Some y"
    using map_of_inserted items_ok[OF e(2)] p by metis
  then show ?thesis unfolding eq using p e(3,5,6) assms(3,4) by auto
qed

end

section \<open>The caching space keeps the write-once contract\<close>

text \<open>Every cached value is the value of its address.\<close>
definition cache_agrees :: "('c \<Rightarrow> ((string \<times> nat) \<times> 'v wo_cached_value) list) \<Rightarrow> (string \<Rightarrow> nat \<Rightarrow> 'v option) \<Rightarrow> 'c byte_cache \<Rightarrow> bool" where
  "cache_agrees items c cache \<longleftrightarrow>
     (\<forall>s a x. map_of (items (bc_values cache)) (s, a) = Some x \<longrightarrow> c s a = Some (wcv_value x))"

definition cache_bounded :: "('c \<Rightarrow> ((string \<times> nat) \<times> 'v wo_cached_value) list) \<Rightarrow> ('c \<Rightarrow> bool) \<Rightarrow> ('c, 'v, 'w) caching_space \<Rightarrow> 'c byte_cache \<Rightarrow> bool" where
  "cache_bounded items ok S cache \<longleftrightarrow> ok (bc_values cache) \<and> accounted items (cached_size S) cache \<and>
     bc_value_bytes cache \<le> csp_max_value_bytes S"

text \<open>A new cache, and one whose write expiry was just set, satisfy both invariants.\<close>
lemma new_cache_ok:
  assumes "lru_cache lru items cap lok" "caching_space_new_with_entry_limit inner lru byte_len n m e = (S, c)"
  shows "cache_bounded items lok S c" "cache_agrees items cells c"
  using assms(2) lru_cache.new_law[OF assms(1), of "if n = 0 then 1 else n"]
  by (auto simp: caching_space_new_with_entry_limit_def cache_bounded_def cache_agrees_def accounted_def)

lemma with_write_ttl_ok:
  assumes "lru_cache (csp_lru S) items cap lok" "cache_bounded items lok S c" "with_write_ttl env ttl (S, c) = (S', c')"
  shows "cache_bounded items lok S' c'" "cache_agrees items cells c'"
  using assms(2,3) lru_cache.clear_law[OF assms(1), of "bc_values c"]
  by (auto simp: with_write_ttl_def cache_bounded_def cache_agrees_def accounted_def)

locale caching_wo =
  wo_space "csp_inner S" cells sinv evolves writes + lru: lru_cache "csp_lru S" items cap lok
  for S :: "('c, 'v, 'w) caching_space" and cells :: "'w \<Rightarrow> string \<Rightarrow> nat \<Rightarrow> 'v option" and sinv evolves writes
    and items :: "'c \<Rightarrow> ((string \<times> nat) \<times> 'v wo_cached_value) list" and cap lok +
  assumes no_write_ttl: "csp_write_ttl S = None"
begin

definition cells' :: "'w \<times> 'c byte_cache \<Rightarrow> string \<Rightarrow> nat \<Rightarrow> 'v option" where
  "cells' s = cells (fst s)"

definition sinv' :: "'w \<times> 'c byte_cache \<Rightarrow> bool" where
  "sinv' s \<longleftrightarrow> sinv (fst s) \<and> cache_bounded items lok S (snd s) \<and> cache_agrees items (cells (fst s)) (snd s)"

definition evolves' :: "'w \<times> 'c byte_cache \<Rightarrow> 'w \<times> 'c byte_cache \<Rightarrow> bool" where
  "evolves' s s' \<longleftrightarrow> evolves (fst s) (fst s') \<and> (sinv' s \<longrightarrow> sinv' s')"

definition writes' :: "'w \<times> 'c byte_cache \<Rightarrow> string \<Rightarrow> nat \<Rightarrow> 'v \<Rightarrow> 'w \<times> 'c byte_cache \<Rightarrow> bool" where
  "writes' s sid a v s' \<longleftrightarrow> writes (fst s) sid a v (fst s') \<and> snd s' = snd s"

lemma world_evolves': "evolves w w' \<Longrightarrow> evolves' (w, c) (w', c)"
  using evolves_sinv[of w w'] evolves_cells[of w w']
  by (auto simp: evolves'_def sinv'_def cache_agrees_def)

lemma insert_sound:
  assumes "sinv' (w, c)" "cells w sid a = Some v"
  shows "sinv' (w, wo_cache_insert S sid a v None c)"
proof -
  let ?x = "\<lparr>wcv_value = v, wcv_expires_at = None\<rparr>"
  show ?thesis
  proof (cases "wo_cache_insert S sid a v None c = c")
    case False
    then have ins: "wo_cache_insert S sid a v None c = evict_and_push (csp_lru S) (cached_size S) (csp_max_value_bytes S) (sid, a) ?x c"
      and sz: "cached_size S ?x \<le> csp_max_value_bytes S"
      by (auto simp: wo_cache_insert_def cached_size_def split: if_splits)
    have "lok (bc_values c)" "accounted items (cached_size S) c" "bc_value_bytes c \<le> csp_max_value_bytes S"
      using assms(1) by (simp_all add: sinv'_def cache_bounded_def)
    from lru.evict_and_push_sound[OF this sz, of "(sid, a)"] assms show ?thesis
      unfolding ins sinv'_def cache_bounded_def cache_agrees_def by fastforce
  qed (use assms in simp)
qed

lemma get_sound:
  assumes "sinv' (w, c)" "wo_cache_get S sid a None c = (r, c')"
  shows "sinv' (w, c') \<and> (\<forall>v. r = Some v \<longrightarrow> cells w sid a = Some v)"
proof -
  have lok: "lok (bc_values c)" using assms(1) by (simp add: sinv'_def cache_bounded_def)
  obtain g vs where get: "lru_get (csp_lru S) (sid, a) (bc_values c) = (g, vs)" by fastforce
  note law = lru.get_law[OF lok get] and item = lru.get_item[OF lok get]
  have c': "c' = c\<lparr>bc_values := vs\<rparr>" and r: "r = map_option wcv_value g"
    using assms(2) get by (auto simp: wo_cache_get_def split: option.splits)
  have "sum_list (map (cached_size S \<circ> snd) (items vs)) = sum_list (map (cached_size S \<circ> snd) (items (bc_values c)))"
    using law sum_delete[of "items (bc_values c)" "(sid, a)" _ "cached_size S"] lru.items_ok[OF lok]
    by (auto simp: to_front_def split: option.splits)
  then have "sinv' (w, c')"
    using assms(1) law item by (simp add: sinv'_def c' cache_bounded_def accounted_def cache_agrees_def)
  then show ?thesis using assms(1) law r by (auto simp: sinv'_def cache_agrees_def)
qed

lemma cache_now_none [simp]: "cache_now S w = (None, w)"
  by (simp add: cache_now_def no_write_ttl)

lemma caching_write_law:
  assumes "sinv' (w, c)" "caching_write S sid a v (w, c) = (r, s')"
  shows "(evolves' (w, c) s' \<and> r \<noteq> Inr ()) \<or>
    (\<exists>s1 s2. evolves' (w, c) s1 \<and> cells' s1 sid a = None \<and> writes' s1 sid a v s2 \<and> evolves' s2 s' \<and>
       (\<forall>x. r \<noteq> Inl (AddressAlreadyExists x)))"
proof -
  obtain r0 w' where call: "wo_write (csp_inner S) sid a v w = (r0, w')" by fastforce
  have res: "(r, s') = (case r0 of Inl e \<Rightarrow> (Inl e, (w', c)) | Inr _ \<Rightarrow> (Inr (), (w', wo_cache_insert S sid a v None c)))"
    using assms(2) call by (cases r0) (auto simp: caching_write_def Let_def)
  have sinv: "sinv w" using assms(1) by (simp add: sinv'_def)
  from write_law[OF sinv call] show ?thesis
  proof
    assume "evolves w w' \<and> r0 \<noteq> Inr ()"
    then show ?thesis using res world_evolves' by (auto split: sum.splits)
  next
    assume "\<exists>w1 w2. evolves w w1 \<and> cells w1 sid a = None \<and> writes w1 sid a v w2 \<and> evolves w2 w' \<and>
        (\<forall>x. r0 \<noteq> Inl (AddressAlreadyExists x))"
    then obtain w1 w2 where w1: "evolves w w1" "cells w1 sid a = None" "writes w1 sid a v w2" "evolves w2 w'"
        and nae: "\<forall>x. r0 \<noteq> Inl (AddressAlreadyExists x)" by blast
    have s1: "sinv w1" using evolves_sinv[OF w1(1) sinv] .
    have "cells w2 sid a = Some v" using writes_cells[OF w1(3) s1] by simp
    then have at: "cells w' sid a = Some v" using evolves_cells[OF w1(4)] writes_sinv[OF w1(3) s1 w1(2)] by blast
    have "evolves' (w2, c) s'"
      using world_evolves'[OF w1(4), of c] res insert_sound[OF _ at, of c] by (auto simp: evolves'_def split: sum.splits)
    then show ?thesis
      using world_evolves'[OF w1(1), of c] w1(2,3) nae res
      by (intro disjI2 exI[of _ "(w1, c)"] exI[of _ "(w2, c)"]) (auto simp: cells'_def writes'_def split: sum.splits)
  qed
qed

lemma caching_read_law:
  assumes "sinv' (w, c)" "caching_read S sid a (w, c) = (g, s')"
  shows "\<exists>s1. evolves' (w, c) s1 \<and> evolves' s1 s' \<and> (\<forall>x. g = Inr x \<longrightarrow> x = cells' s1 sid a)"
proof -
  obtain r c1 where get: "wo_cache_get S sid a None c = (r, c1)" by fastforce
  note gs = get_sound[OF assms(1) get]
  have e1: "evolves' (w, c) (w, c1)" using gs by (simp add: evolves'_def evolves_refl)
  show ?thesis
  proof (cases r)
    case (Some v)
    then have "g = Inr (Some v)" "s' = (w, c1)" using assms(2) get by (simp_all add: caching_read_def)
    then show ?thesis using e1 gs Some evolves_refl by (intro exI[of _ "(w, c1)"]) (auto simp: cells'_def evolves'_def)
  next
    case None
    obtain g0 w' where call: "wo_read (csp_inner S) sid a w = (g0, w')" by fastforce
    have sinv: "sinv w" using assms(1) by (simp add: sinv'_def)
    obtain w1 where w1: "evolves w w1" "evolves w1 w'" "\<And>x. g0 = Inr x \<Longrightarrow> x = cells w1 sid a"
      using read_law[OF sinv call] by blast
    have res: "g = g0" "s' = (w', case g0 of Inr (Some v) \<Rightarrow> wo_cache_insert S sid a v None c1 | _ \<Rightarrow> c1)"
      using assms(2) get None call no_write_ttl by (auto simp: caching_read_def split: sum.splits option.splits)
    have "sinv' (w', c1) \<Longrightarrow> sinv' s'"
      using res(2) insert_sound[of w' c1 sid a] w1(3) evolves_cells[OF w1(2)] evolves_sinv[OF w1(1) sinv]
      by (auto split: sum.splits option.splits)
    then have "evolves' (w1, c1) s'"
      using world_evolves'[OF w1(2), of c1] res(2) by (auto simp: evolves'_def)
    moreover have "evolves' (w, c) (w1, c1)"
      using e1 world_evolves'[OF w1(1), of c1] evolves_trans by (auto simp: evolves'_def)
    ultimately show ?thesis using w1(3) res(1) by (intro exI[of _ "(w1, c1)"]) (auto simp: cells'_def)
  qed
qed

lemma writes_sinv':
  assumes "writes' s sid a v s1" "sinv' s" "cells' s sid a = None"
  shows "sinv' s1"
proof -
  have w: "writes (fst s) sid a v (fst s1)" "sinv (fst s)" "cells (fst s) sid a = None" "snd s1 = snd s"
    using assms by (auto simp: writes'_def sinv'_def cells'_def)
  have "cache_agrees items (cells (fst s1)) (snd s)"
    using assms(2) w(3) writes_cells[OF w(1,2)] by (fastforce simp: sinv'_def cache_agrees_def)
  then show ?thesis using assms(2) writes_sinv[OF w(1-3)] w(4) by (simp add: sinv'_def)
qed

lemma read_keeps: "sinv' (w, c) \<Longrightarrow> caching_read S sid a (w, c) = (g, s') \<Longrightarrow> sinv' s'"
  using caching_read_law[of w c sid a g s'] by (auto simp: evolves'_def)

lemma write_keeps:
  assumes "sinv' (w, c)" "caching_write S sid a v (w, c) = (r, s')"
  shows "sinv' s'"
  using caching_write_law[OF assms]
proof
  assume "\<exists>s1 s2. evolves' (w, c) s1 \<and> cells' s1 sid a = None \<and> writes' s1 sid a v s2 \<and> evolves' s2 s' \<and>
       (\<forall>x. r \<noteq> Inl (AddressAlreadyExists x))"
  then obtain s1 s2 where s: "evolves' (w, c) s1" "cells' s1 sid a = None" "writes' s1 sid a v s2" "evolves' s2 s'" by blast
  have "sinv' s1" using s(1) assms(1) by (simp add: evolves'_def)
  then have "sinv' s2" using writes_sinv' s(2,3) by blast
  then show ?thesis using s(4) by (simp add: evolves'_def)
qed (use assms(1) in \<open>simp add: evolves'_def\<close>)

end

sublocale caching_wo \<subseteq> cached: wo_space "caching_write_once_space S" cells' sinv' evolves' writes'
proof (standard, goal_cases)
  case (2 s s1 s2)
  then show ?case using evolves_trans by (auto simp: evolves'_def)
next
  case (4 s s1 sid a v)
  then show ?case using evolves_cells by (auto simp: evolves'_def cells'_def sinv'_def)
next
  case (5 s sid a v s1)
  then show ?case by (rule writes_sinv')
next
  case (6 s sid a v s1)
  then show ?case using writes_cells by (auto simp: writes'_def cells'_def sinv'_def)
next
  case (7 s sid a v r s')
  then show ?case using caching_write_law[of "fst s" "snd s" sid a v r s'] by (simp add: caching_write_once_space_def)
next
  case (8 s sid a g s')
  then show ?case using caching_read_law[of "fst s" "snd s" sid a g s'] by (simp add: caching_write_once_space_def)
next
  case (9 s n sid t s')
  obtain w c where s: "s = (w, c)" by fastforce
  obtain w' where call: "wo_tail (csp_inner S) sid n w = (t, w')" and s': "s' = (w', c)"
    using 9(3) s by (auto simp: caching_write_once_space_def caching_tail_def on_world_def split: prod.splits)
  have "sinv w" using 9(1) s by (simp add: sinv'_def)
  from tail_law[OF this 9(2) call] show ?case
    using world_evolves'[of w w' c] s s' by (simp add: cells'_def)
qed (auto simp: evolves'_def evolves_refl)

lemma caching_settled:
  assumes "settled (csp_inner S)" "csp_write_ttl S = None"
  shows "settled (caching_write_once_space S)"
  unfolding settled_def
proof (intro allI impI)
  fix sid t v e s s1 s2
  assume tail: "wo_tail (caching_write_once_space S) sid TAIL_WINDOW_SIZE s = (Inr t, s1)"
    and wr: "wo_write (caching_write_once_space S) sid t v s1 = (Inl e, s2)"
  have "wo_tail (csp_inner S) sid TAIL_WINDOW_SIZE (fst s) = (Inr t, fst s1)"
    using tail by (cases s) (auto simp: caching_write_once_space_def caching_tail_def on_world_def split: prod.splits)
  moreover have "wo_write (csp_inner S) sid t v (fst s1) = (Inl e, fst s2)"
    using wr assms(2)
    by (cases s1) (auto simp: caching_write_once_space_def caching_write_def cache_now_def split: prod.splits sum.splits)
  ultimately show "\<not> slot_taken e" using assms(1) unfolding settled_def by blast
qed

section \<open>What the caching storage returns\<close>

text \<open>The store holds, under a key, the given version or a later one.\<close>
definition behind :: "(string \<Rightarrow> ('b \<times> int) option) \<Rightarrow> string \<Rightarrow> 'b \<Rightarrow> int \<Rightarrow> bool" where
  "behind d k v p \<longleftrightarrow> (\<exists>v' p'. d k = Some (v', p') \<and> p \<le> p' \<and> (p' = p \<longrightarrow> v' = v))"

lemma behind_grows: "behind d k v p \<Longrightarrow> store_grows d d' \<Longrightarrow> behind d' k v p"
  unfolding behind_def store_grows_def by (metis order_antisym order_trans)

lemma behind_now: "d k = Some (v, p) \<Longrightarrow> behind d k v p"
  by (simp add: behind_def)

definition store_cache_ok :: "('c \<Rightarrow> (string \<times> 'b st_cached_value) list) \<Rightarrow> ('c \<Rightarrow> bool) \<Rightarrow> ('c, 'b, 'w) caching_store
    \<Rightarrow> 'c byte_cache \<Rightarrow> bool" where
  "store_cache_ok items ok S c \<longleftrightarrow> ok (bc_values c) \<and> accounted items (stored_size S) c \<and>
     bc_value_bytes c \<le> csc_max_value_bytes (cst_config S)"

definition store_cache_behind :: "('c \<Rightarrow> (string \<times> 'b st_cached_value) list) \<Rightarrow> (string \<Rightarrow> ('b \<times> int) option) \<Rightarrow> 'c byte_cache \<Rightarrow> bool" where
  "store_cache_behind items d c \<longleftrightarrow>
     (\<forall>k x. map_of (items (bc_values c)) k = Some x \<longrightarrow> behind d k (scv_value x) (scv_position x))"

locale caching_st =
  cas_store "cst_inner S" data evolves writes + lru: lru_cache "cst_lru S" items cap lok
  for S :: "('c, 'b, 'w) caching_store" and data :: "'w \<Rightarrow> string \<Rightarrow> ('b \<times> int) option" and evolves writes
    and items :: "'c \<Rightarrow> (string \<times> 'b st_cached_value) list" and cap lok +
  assumes clock_evolves: "env_monotonic_time (cst_environment S) w = (t, w') \<Longrightarrow> evolves w w'"
begin

definition inv :: "'w \<times> 'c byte_cache \<Rightarrow> bool" where
  "inv s \<longleftrightarrow> store_cache_ok items lok S (snd s) \<and> store_cache_behind items (data (fst s)) (snd s)"

lemma inv_grows: "inv (w, c) \<Longrightarrow> store_grows (data w) (data w') \<Longrightarrow> inv (w', c)"
  using behind_grows by (fastforce simp: inv_def store_cache_behind_def)

lemma pop_sound:
  assumes "inv (w, c)" "st_cache_get S k c = (r, c')"
  shows "inv (w, c')" and "r = map_of (items (bc_values c)) k" and "map_of (items (bc_values c')) k = None"
    and "r = Some x \<Longrightarrow> behind (data w) k (scv_value x) (scv_position x)"
proof -
  have lok: "lok (bc_values c)" using assms(1) by (simp add: inv_def store_cache_ok_def)
  obtain g vs where pop: "lru_pop (cst_lru S) k (bc_values c) = (g, vs)" by fastforce
  note law = lru.pop_law[OF lok pop]
  have c': "r = g" "c' = c\<lparr>bc_values := vs, bc_value_bytes := bc_value_bytes c - (case g of None \<Rightarrow> 0 | Some x \<Rightarrow> stored_size S x)\<rparr>"
    using assms(2) pop by (auto simp: st_cache_get_def split: option.splits)
  have "bc_value_bytes c = sum_list (map (stored_size S \<circ> snd) (items vs)) + (case g of None \<Rightarrow> 0 | Some x \<Rightarrow> stored_size S x)"
    using assms(1) law sum_delete[of "items (bc_values c)" k _ "stored_size S"] lru.items_ok[OF lok]
    by (auto simp: inv_def store_cache_ok_def accounted_def map_of_eq_None_iff split: option.splits)
  then show "inv (w, c')"
    using assms(1) law
    by (auto simp: inv_def store_cache_ok_def store_cache_behind_def accounted_def c'(2) delete_conv' split: if_splits)
  show "r = map_of (items (bc_values c)) k" "map_of (items (bc_values c')) k = None"
    using law c' by (simp_all add: delete_conv')
  then show "r = Some x \<Longrightarrow> behind (data w) k (scv_value x) (scv_position x)"
    using assms(1) by (simp add: inv_def store_cache_behind_def)
qed

lemma insert_sound:
  assumes "inv (w, c)" "behind (data w) k (scv_value x) (scv_position x)"
  shows "inv (w, st_cache_insert S k x c)"
proof -
  obtain r c1 where pop: "st_cache_get S k c = (r, c1)" by fastforce
  note p = pop_sound[OF assms(1) pop]
  have ok1: "lok (bc_values c1)" "accounted items (stored_size S) c1" "bc_value_bytes c1 \<le> csc_max_value_bytes (cst_config S)"
    using p(1) by (simp_all add: inv_def store_cache_ok_def)
  consider "st_cache_insert S k x c = c" | "st_cache_insert S k x c = c1"
    | (push) "st_cache_insert S k x c = evict_and_push (cst_lru S) (stored_size S) (csc_max_value_bytes (cst_config S)) k x c1"
        "stored_size S x \<le> csc_max_value_bytes (cst_config S)"
  proof -
    let ?stale = "case lru_peek (cst_lru S) k (bc_values c) of Some cached \<Rightarrow> scv_position x \<le> scv_position cached | None \<Rightarrow> False"
    let ?skip = "csc_max_entries (cst_config S) = 0 \<or> csc_max_value_bytes (cst_config S) = 0 \<or>
        csc_max_value_bytes (cst_config S) < stored_size S x \<or> MAX_ENTRY_VALUE_BYTES < stored_size S x"
    have "st_cache_insert S k x c = (if ?stale then c else if ?skip then c1 else
        evict_and_push (cst_lru S) (stored_size S) (csc_max_value_bytes (cst_config S)) k x c1)"
      using pop by (simp add: st_cache_insert_def Let_def)
    then show ?thesis using that by (cases ?stale; cases ?skip) auto
  qed
  then show ?thesis
  proof cases
    case push
    from lru.evict_and_push_sound[OF ok1 push(2), of k] show ?thesis
      using p(1) assms(2) unfolding push(1) inv_def store_cache_ok_def store_cache_behind_def by fastforce
  qed (use assms p in simp_all)
qed

text \<open>A read returns a version the store has or has passed; it never invents one.\<close>
lemma caching_get_sound:
  assumes "inv (w, c)" "caching_get S k (w, c) = (r, (w', c'))"
  shows "inv (w', c') \<and> (\<forall>v p. r = Inr (Some (v, p)) \<longrightarrow> behind (data w') k v p) \<and> map_of (items (bc_values c')) k = None"
proof -
  obtain cached c1 where pop: "st_cache_get S k c = (cached, c1)" by fastforce
  note p = pop_sound[OF assms(1) pop]
  obtain now w1 where clk: "env_monotonic_time (cst_environment S) w = (now, w1)" by fastforce
  have g1: "store_grows (data w) (data w1)" using evolves_data[OF clock_evolves[OF clk]] .
  have inner: "inv (w', c') \<and> (\<forall>v p. r = Inr (Some (v, p)) \<longrightarrow> behind (data w') k v p) \<and> map_of (items (bc_values c')) k = None"
    if "on_world (st_get (cst_inner S) k) (w0, c1) = (r, (w', c'))" "inv (w0, c1)" for w0
  proof -
    have call: "st_get (cst_inner S) k w0 = (r, w')" "c' = c1" using that(1) by (auto simp: on_world_def split: prod.splits)
    obtain w2 where w2: "evolves w0 w2" "evolves w2 w'" "\<And>x. r = Inr x \<Longrightarrow> x = data w2 k"
      using get_law[OF call(1)] by blast
    have "inv (w', c1)" using that(2) inv_grows evolves_data evolves_trans[OF w2(1,2)] by blast
    moreover have "behind (data w') k v p" if "r = Inr (Some (v, p))" for v p
      using w2(3)[OF that] behind_grows[OF behind_now evolves_data[OF w2(2)]] by metis
    ultimately show ?thesis using call p(3) by blast
  qed
  show ?thesis
  proof (cases cached)
    case None
    then show ?thesis using inner[OF _ p(1)] assms(2) pop by (simp add: caching_get_def)
  next
    case (Some x)
    have "behind (data w1) k (scv_value x) (scv_position x)" using behind_grows[OF p(4)[OF Some] g1] .
    then show ?thesis
      using inner[OF _ inv_grows[OF p(1) g1]] assms(2) pop Some clk inv_grows[OF p(1) g1] p(3)
      by (auto simp: caching_get_def split: if_splits)
  qed
qed

lemma caching_put_sound:
  assumes "inv (w, c)" "caching_put S k v expected n (w, c) = (r, (w', c'))"
  shows "inv (w', c') \<and> (r \<noteq> Inr True \<longrightarrow> map_of (items (bc_values c')) k = None)"
proof -
  obtain cached c1 where pop: "st_cache_get S k c = (cached, c1)" by fastforce
  note p = pop_sound[OF assms(1) pop]
  obtain now w1 where clk: "env_monotonic_time (cst_environment S) w = (now, w1)" by fastforce
  have i1: "inv (w1, c1)" using inv_grows[OF p(1) evolves_data[OF clock_evolves[OF clk]]] .
  obtain r0 w2 where put: "st_put (cst_inner S) k v expected n w1 = (r0, w2)" by fastforce
  have i2: "inv (w2, c1)" using inv_grows[OF i1 put_grows[OF put]] .
  obtain r2 c2 where pop2: "st_cache_get S k c1 = (r2, c2)" by fastforce
  let ?x = "\<lparr>scv_value = v, scv_position = n, scv_expires_at = now + csc_ttl (cst_config S)\<rparr>"
  have res: "r = r0" "w' = w2" "c' = (if r0 = Inr True then st_cache_insert S k ?x c1 else c2)"
    using assms(2) pop clk put pop2 by (simp_all add: caching_put_def split: if_splits)
  show ?thesis
  proof (cases "r0 = Inr True")
    case True
    obtain a b where ab: "writes a k (v, n) b" "evolves b w2" using put_law[OF put] True by blast
    have "behind (data b) k v n" using behind_now[of "data b"] writes_data[OF ab(1)] by simp
    from behind_grows[OF this evolves_data[OF ab(2)]] have "behind (data w2) k v n" .
    then show ?thesis using insert_sound[OF i2, of k ?x] res True by simp
  next
    case False
    then show ?thesis using pop_sound[OF i2 pop2] res by simp
  qed
qed

end

section \<open>Concrete caches\<close>

interpretation mem_caching_space: caching_wo
  "\<lparr>csp_inner = in_memory_write_once_space \<lparr>mb_environment = env, mb_ttl = None\<rparr>, csp_lru = list_lru, csp_byte_len = byte_len,
    csp_write_ttl = None, csp_max_entries = n, csp_max_value_bytes = m, csp_max_entry_value_bytes = e\<rparr>"
  wom_cells "\<lambda>_. True" "wom_evolves P" wom_writes snd fst list_lru_ok
  for env byte_len n m e P
  by (simp add: caching_wo_def caching_wo_axioms_def sim_wo_space.wo_space_axioms list_lru.lru_cache_axioms)

interpretation mem_caching_store: caching_st
  "\<lparr>cst_inner = in_memory_storage, cst_environment = sim_environment bo, cst_lru = list_lru, cst_byte_len = byte_len, cst_config = cfg\<rparr>"
  ew_data data_evolves data_writes snd fst list_lru_ok
  for bo byte_len cfg
  by (auto simp: caching_st_def caching_st_axioms_def mem_store.cas_store_axioms list_lru.lru_cache_axioms
      sim_environment_def clock_monotonic_time_def data_evolves_def store_grows_refl)

text \<open>A write-once bus over a caching space.\<close>

context caching_wo
begin

lemma cached_bus:
  assumes "lru_cache L hitems hcap hlok" "entry_codec_ok codec" "settled (csp_inner S)"
    and "\<And>w w'. evolves w w' \<Longrightarrow> sinv w \<Longrightarrow> log_cells codec (cells w) \<Longrightarrow> log_cells codec (cells w')"
    and "\<And>w t w'. env_unsafe_wall_time env w = (t, w') \<Longrightarrow> evolves w w'"
  shows "wo_bus_settled \<lparr>wb_space = caching_write_once_space S, wb_environment = lift_env env, wb_codec = codec, wb_lru = L,
      wb_blocking_poll_interval = i\<rparr> cells' sinv' evolves' writes' hitems hcap hlok"
proof -
  have "evolves' s s' \<Longrightarrow> sinv' s \<Longrightarrow> log_cells codec (cells' s) \<Longrightarrow> log_cells codec (cells' s')" for s s'
    using assms(4)[of "fst s" "fst s'"] by (simp add: evolves'_def sinv'_def cells'_def)
  moreover have "evolves' s s'" if "env_unsafe_wall_time (lift_env env) s = (t, s')" for s t s'
    using that assms(5) world_evolves' by (cases s) (auto simp: lift_env_def split: prod.splits)
  ultimately show ?thesis
    using assms(1-3) cached.wo_space_axioms caching_settled[OF assms(3) no_write_ttl]
    by (simp add: wo_bus_settled_def wo_bus_settled_axioms_def wo_bus_env_def wo_bus_env_axioms_def)
qed

end

interpretation cached_wo_bus: wo_bus_settled
  "\<lparr>wb_space = caching_write_once_space
      \<lparr>csp_inner = in_memory_write_once_space \<lparr>mb_environment = env, mb_ttl = None\<rparr>, csp_lru = list_lru, csp_byte_len = byte_len,
       csp_write_ttl = None, csp_max_entries = n, csp_max_value_bytes = m, csp_max_entry_value_bytes = e\<rparr>,
    wb_environment = lift_env (sim_environment bo), wb_codec = plain_entry_codec, wb_lru = list_lru, wb_blocking_poll_interval = i\<rparr>"
  mem_caching_space.cells' "mem_caching_space.sinv' env byte_len n m e"
  "mem_caching_space.evolves' env byte_len n m e (log_cells plain_entry_codec)" mem_caching_space.writes' snd fst list_lru_ok
  for env byte_len n m e bo i
  by (rule mem_caching_space.cached_bus[OF list_lru.lru_cache_axioms plain_entry_codec_ok])
    (simp_all add: memory_space_settled wom_evolves_def cells_evolve_def clock_wom_evolves[OF sim_clock_keeps_spaces, unfolded wom_evolves_def cells_evolve_def])

section \<open>Properties\<close>

text \<open>
  C23. The caching space is transparent: whenever the cache agrees with the in-memory space behind it, a read
  through the cache returns what the space would return, and reads and writes keep the agreement.
\<close>
theorem caching_space_transparent:
  assumes "lru_cache (csp_lru S) items cap lok" "mb_ttl mb = None" "csp_inner S = in_memory_write_once_space mb"
    and "csp_write_ttl S = None" "cache_bounded items lok S c" "cache_agrees items (wom_cells w) c"
  shows "fst (caching_read S sid a (w, c)) = fst (in_memory_read mb sid a w) \<and>
    cache_agrees items (wom_cells (fst (snd (caching_read S sid a (w, c))))) (snd (snd (caching_read S sid a (w, c)))) \<and>
    cache_agrees items (wom_cells (fst (snd (caching_write S sid a v (w, c))))) (snd (snd (caching_write S sid a v (w, c))))"
proof -
  have env: "caching_wo S wom_cells (\<lambda>_. True) (wom_evolves (\<lambda>_. True)) wom_writes items cap lok"
    using assms(1-4) memory_wo_space.space_axioms[OF memory_wo_space.intro[OF assms(2)], of "\<lambda>_. True"]
    by (simp add: caching_wo_def caching_wo_axioms_def)
  have inv: "caching_wo.sinv' S wom_cells (\<lambda>_. True) items lok (w, c)"
    unfolding caching_wo.sinv'_def[OF env] using assms(5,6) by simp
  have keeps: "cache_agrees items (wom_cells w') c'" if "caching_wo.sinv' S wom_cells (\<lambda>_. True) items lok (w', c')" for w' c'
    using that unfolding caching_wo.sinv'_def[OF env] by simp
  obtain g w1 c1 where rd: "caching_read S sid a (w, c) = (g, (w1, c1))" by (metis surj_pair)
  obtain r w2 c2 where wr: "caching_write S sid a v (w, c) = (r, (w2, c2))" by (metis surj_pair)
  obtain hit c0 where hit: "wo_cache_get S sid a None c = (hit, c0)" by fastforce
  note get = caching_wo.get_sound[OF env inv hit]
  have "g = Inr (wom_cells w sid a)"
    using rd hit get assms(2-4)
    by (auto simp: caching_read_def cache_now_def in_memory_write_once_space_def in_memory_read_def wos_read_def wom_cells_def
        space_cells_def split: option.splits if_splits)
  moreover have "fst (in_memory_read mb sid a w) = Inr (wom_cells w sid a)"
    using assms(2) by (auto simp: in_memory_read_def wos_read_def wom_cells_def space_cells_def split: option.split)
  moreover have "caching_wo.sinv' S wom_cells (\<lambda>_. True) items lok (w1, c1)"
    using caching_wo.read_keeps[OF env inv rd] .
  moreover have "caching_wo.sinv' S wom_cells (\<lambda>_. True) items lok (w2, c2)"
    using caching_wo.write_keeps[OF env inv wr] .
  ultimately show ?thesis using rd wr keeps by simp
qed

definition demo_caching_space :: "((string \<times> nat, nat wo_cached_value) lru_list, nat, nat wo_world) caching_space" where
  "demo_caching_space = \<lparr>csp_inner = in_memory_write_once_space no_expiry, csp_lru = list_lru, csp_byte_len = id, csp_write_ttl = None,
     csp_max_entries = 2, csp_max_value_bytes = 10, csp_max_entry_value_bytes = 10\<rparr>"

definition demo_cache :: "(string \<times> nat, nat wo_cached_value) lru_list byte_cache" where
  "demo_cache = \<lparr>bc_values = (2, [((''s'', 0), \<lparr>wcv_value = 7, wcv_expires_at = None\<rparr>)]), bc_value_bytes = 7\<rparr>"

definition demo_space_world :: "nat wo_world" where
  "demo_space_world = no_spaces\<lparr>ww_spaces := [''s'' \<mapsto> [(0, \<lparr>en_value = 7, en_written_at = None\<rparr>)]]\<rparr>"

lemma demo_cache_ok: "cache_bounded snd list_lru_ok demo_caching_space demo_cache" "cache_agrees snd (wom_cells demo_space_world) demo_cache"
  by (auto simp: cache_bounded_def list_lru_ok_def demo_cache_def demo_caching_space_def accounted_def cached_size_def
      cache_agrees_def wom_cells_def space_cells_def demo_space_world_def)

theorem caching_space_transparent_witness:
  "fst (caching_read demo_caching_space ''s'' 0 (demo_space_world, demo_cache)) = fst (in_memory_read no_expiry ''s'' 0 demo_space_world)"
proof -
  have "lru_cache (csp_lru demo_caching_space) snd fst list_lru_ok" "mb_ttl no_expiry = None"
    "csp_inner demo_caching_space = in_memory_write_once_space no_expiry" "csp_write_ttl demo_caching_space = None"
    by (simp_all add: demo_caching_space_def no_expiry_def list_lru.lru_cache_axioms)
  from caching_space_transparent[OF this demo_cache_ok] show ?thesis by blast
qed

text \<open>
  C24. The cache of a write-once space stays within its limits: an insertion keeps the byte count equal to the
  bytes of the cached values, which never exceed the limit, and never holds more entries than the capacity,
  whatever has to be evicted.
\<close>
theorem cache_insert_within_limits:
  assumes "lru_cache (csp_lru S) items cap lok" "cache_bounded items lok S c"
  shows "cache_bounded items lok S (wo_cache_insert S sid a v e c) \<and>
    length (items (bc_values (wo_cache_insert S sid a v e c))) \<le> cap (bc_values c)"
proof (cases "wo_cache_insert S sid a v e c = c")
  case True
  then show ?thesis using assms lru_cache.items_ok[OF assms(1), of "bc_values c"] by (simp add: cache_bounded_def)
next
  case False
  let ?x = "\<lparr>wcv_value = v, wcv_expires_at = e\<rparr>"
  from False have ins: "wo_cache_insert S sid a v e c = evict_and_push (csp_lru S) (cached_size S) (csp_max_value_bytes S) (sid, a) ?x c"
    and sz: "cached_size S ?x \<le> csp_max_value_bytes S"
    by (auto simp: wo_cache_insert_def cached_size_def split: if_splits)
  have c: "lok (bc_values c)" "accounted items (cached_size S) c" "bc_value_bytes c \<le> csp_max_value_bytes S"
    using assms(2) by (simp_all add: cache_bounded_def)
  note out = lru_cache.evict_and_push_sound[OF assms(1) c sz, of "(sid, a)"]
  then show ?thesis
    unfolding ins using lru_cache.items_ok[OF assms(1)] by (metis cache_bounded_def)
qed

theorem cache_insert_within_limits_witness:
  "cache_bounded snd list_lru_ok demo_caching_space (wo_cache_insert demo_caching_space ''s'' 1 9 None demo_cache) \<and>
   length (snd (bc_values (wo_cache_insert demo_caching_space ''s'' 1 9 None demo_cache))) \<le> 2"
  using cache_insert_within_limits[of demo_caching_space snd fst list_lru_ok demo_cache "''s''" 1 9 None]
    list_lru.lru_cache_axioms demo_cache_ok
  by (simp add: demo_caching_space_def demo_cache_def)

text \<open>
  The caching storage may answer a read from its cache, but never with a version the store does not have or
  has not passed: the store holds the returned position with the same value, or a later one, and the cached
  value is used for one read only.
\<close>
theorem caching_get_not_ahead:
  assumes "lru_cache (cst_lru S) items cap lok" "cst_inner S = in_memory_storage" "cst_environment S = sim_environment bo"
    and "store_cache_ok items lok S c" "store_cache_behind items (ew_data w) c"
    and "caching_get S k (w, c) = (r, (w', c'))"
  shows "store_cache_ok items lok S c' \<and> store_cache_behind items (ew_data w') c' \<and>
    (\<forall>v p. r = Inr (Some (v, p)) \<longrightarrow> behind (ew_data w') k v p) \<and> map_of (items (bc_values c')) k = None"
proof -
  have env: "caching_st S ew_data data_evolves data_writes items cap lok"
    using assms(1-3) mem_store.cas_store_axioms
    by (auto simp: caching_st_def caching_st_axioms_def sim_environment_def clock_monotonic_time_def data_evolves_def store_grows_refl)
  have inv: "caching_st.inv S ew_data items lok (w, c)"
    unfolding caching_st.inv_def[OF env] using assms(4,5) by simp
  show ?thesis using caching_st.caching_get_sound[OF env inv assms(6)] unfolding caching_st.inv_def[OF env] by simp
qed

definition demo_caching_store :: "((string, nat st_cached_value) lru_list, nat, nat eng_world) caching_store" where
  "demo_caching_store = \<lparr>cst_inner = in_memory_storage, cst_environment = sim_environment Pair, cst_lru = list_lru,
     cst_byte_len = id, cst_config = \<lparr>csc_ttl = 60, csc_max_entries = 2, csc_max_value_bytes = 10\<rparr>\<rparr>"

definition stale_cache :: "(string, nat st_cached_value) lru_list byte_cache" where
  "stale_cache = \<lparr>bc_values = (2, [(''k'', \<lparr>scv_value = 4, scv_position = 2, scv_expires_at = 60\<rparr>)]), bc_value_bytes = 4\<rparr>"

theorem caching_get_not_ahead_witness:
  "\<exists>w' c'. caching_get demo_caching_store ''k'' (one_key_world, stale_cache) = (Inr (Some (4, 2)), (w', c')) \<and> behind (ew_data w') ''k'' 4 2"
proof -
  have "fst (caching_get demo_caching_store ''k'' (one_key_world, stale_cache)) = Inr (Some (4, 2))" by code_simp
  then obtain w' c' where run: "caching_get demo_caching_store ''k'' (one_key_world, stale_cache) = (Inr (Some (4, 2)), (w', c'))"
    by (metis prod.collapse)
  have lru: "lru_cache (cst_lru demo_caching_store) snd fst list_lru_ok"
    and inner: "cst_inner demo_caching_store = in_memory_storage"
    and env: "cst_environment demo_caching_store = sim_environment Pair"
    by (simp_all add: demo_caching_store_def list_lru.lru_cache_axioms)
  have ok: "store_cache_ok snd list_lru_ok demo_caching_store stale_cache"
    and behind: "store_cache_behind snd (ew_data one_key_world) stale_cache"
    by (auto simp: store_cache_ok_def list_lru_ok_def stale_cache_def demo_caching_store_def accounted_def stored_size_def
        store_cache_behind_def behind_def one_key_world_def)
  from caching_get_not_ahead[OF lru inner env ok behind run] run show ?thesis by blast
qed

end
