(* ===== verification/Llm_Voter.thy ===== *)
theory Llm_Voter
  imports Bus_Api "HOL-Library.Sublist"
begin

text \<open>
  The LLM voter (\<open>bus/voters/llm/src/lib.rs\<close>): the prompt it sends, the parser of the model's answer and the
  OpenAI client.  Strings are UTF-8 bytes.  The HTTP library, the environment variables and the decoder of an
  \<open>Any\<close> message are parameters.  A slice that Rust would refuse is \<open>None\<close>.
\<close>

section \<open>Strings\<close>

text \<open>\<open>str::find\<close>: the index of the first occurrence.\<close>
fun str_find :: "string \<Rightarrow> string \<Rightarrow> nat option" where
  "str_find n [] = (if n = [] then Some 0 else None)"
| "str_find n (c # cs) = (if prefix n (c # cs) then Some 0 else map_option Suc (str_find n cs))"

text \<open>\<open>&s[a..b]\<close>\<close>
definition str_slice :: "string \<Rightarrow> nat \<Rightarrow> nat \<Rightarrow> string option" where
  "str_slice s a b = (if a \<le> b \<and> b \<le> length s then Some (take (b - a) (drop a s)) else None)"

definition ascii_lower :: "char \<Rightarrow> char" where
  "ascii_lower c = (let n = (of_char c :: nat) in if 65 \<le> n \<and> n \<le> 90 then char_of (n + 32) else c)"

definition eq_ignore_ascii_case :: "string \<Rightarrow> string \<Rightarrow> bool" where
  "eq_ignore_ascii_case s t = (map ascii_lower s = map ascii_lower t)"

text \<open>\<open>str::trim\<close> removes the characters with the Unicode property \<open>White_Space\<close>, here by their UTF-8 bytes.\<close>
definition white_space :: "nat list list" where
  "white_space = [[9], [10], [11], [12], [13], [32], [0xC2, 0x85], [0xC2, 0xA0], [0xE1, 0x9A, 0x80]] @
     map (\<lambda>i. [0xE2, 0x80, i]) [0x80..<0x8B] @
     [[0xE2, 0x80, 0xA8], [0xE2, 0x80, 0xA9], [0xE2, 0x80, 0xAF], [0xE2, 0x81, 0x9F], [0xE3, 0x80, 0x80]]"

primrec strip_front :: "nat \<Rightarrow> nat list list \<Rightarrow> string \<Rightarrow> string" where
  "strip_front 0 ws s = s"
| "strip_front (Suc n) ws s =
     (case List.find (\<lambda>w. prefix w (map of_char s)) ws of
        None \<Rightarrow> s
      | Some w \<Rightarrow> strip_front n ws (drop (length w) s))"

definition str_trim :: "string \<Rightarrow> string" where
  "str_trim s =
     (let t = strip_front (length s) white_space s
      in rev (strip_front (length t) (map rev white_space) (rev t)))"

definition newline :: string where "newline = [CHR 0x0A]"

section \<open>Parsing the answer\<close>

datatype tag_lookup = NoOpen | NoClose | Content string

text \<open>The text between an opening and a closing tag; \<open>skip\<close> is the length the source writes for the opening tag.\<close>
definition tag_content :: "string \<Rightarrow> string \<Rightarrow> nat \<Rightarrow> string \<Rightarrow> tag_lookup option" where
  "tag_content opening closing skip response =
     (case str_find opening response of
        None \<Rightarrow> Some NoOpen
      | Some start \<Rightarrow>
          (case str_find closing (drop start response) of
             None \<Rightarrow> Some NoClose
           | Some stop \<Rightarrow> map_option Content (str_slice response (start + skip) (start + stop))))"

definition parse_safety_response :: "string \<Rightarrow> (bool \<times> string) option" where
  "parse_safety_response response =
     (case tag_content ''<safe>'' ''</safe>'' 6 response of None \<Rightarrow> None | Some safe \<Rightarrow>
     (case tag_content ''<reason>'' ''</reason>'' 8 response of None \<Rightarrow> None | Some reason \<Rightarrow>
     (case tag_content ''<concerns>'' ''</concerns>'' 10 response of None \<Rightarrow> None | Some concerns \<Rightarrow>
        let is_safe = (case safe of Content s \<Rightarrow> eq_ignore_ascii_case (str_trim s) ''true'' | _ \<Rightarrow> False);
            reason' = (case reason of Content s \<Rightarrow> str_trim s | NoClose \<Rightarrow> ''Could not parse reason'' | NoOpen \<Rightarrow> ''No reason provided'');
            concerns' = (case concerns of Content s \<Rightarrow> str_trim s | _ \<Rightarrow> [])
        in Some (is_safe,
             if concerns' = [] \<or> eq_ignore_ascii_case concerns' ''none'' then reason'
             else reason' @ ''. Concerns: '' @ concerns'))))"

section \<open>The client\<close>

text \<open>What the code uses of an HTTP response: its status, its body as text and the contents of its choices.\<close>
record http_response =
  hr_is_success :: bool
  hr_status :: string
  hr_text :: "string option"
  hr_choices :: "string + string list"

record http_request =
  hq_url :: string
  hq_authorization :: "string option"
  hq_model :: string
  hq_role :: string
  hq_content :: string

type_synonym 'w chat_completion = "string \<Rightarrow> string \<Rightarrow> string \<Rightarrow> ('w, string, string) eff"

definition openai_chat_completion :: "(http_request \<Rightarrow> ('w, string, http_response) eff) \<Rightarrow> string option \<Rightarrow> 'w chat_completion" where
  "openai_chat_completion send api_key model api_endpoint prompt =
     bindE (map_errE (\<lambda>e. ''HTTP request failed: '' @ e) (send
         \<lparr>hq_url = api_endpoint @ ''/chat/completions'', hq_authorization = map_option (\<lambda>key. ''Bearer '' @ key) api_key,
           hq_model = model, hq_role = ''user'', hq_content = prompt\<rparr>))
       (\<lambda>response.
         if \<not> hr_is_success response then
           raise (''API error '' @ hr_status response @ '': '' @ (case hr_text response of Some body \<Rightarrow> body | None \<Rightarrow> ''unknown''))
         else
           (case hr_choices response of
              Inl e \<Rightarrow> raise (''Failed to parse response: '' @ e)
            | Inr choices \<Rightarrow> (case choices of [] \<Rightarrow> raise ''No response from LLM'' | c # _ \<Rightarrow> ret c)))"

section \<open>The voter\<close>

definition DEFAULT_API_ENDPOINT :: string where "DEFAULT_API_ENDPOINT = ''https://api.llama.com/experimental/compat/openai/v1''"

definition DEFAULT_MODEL :: string where "DEFAULT_MODEL = ''Llama-3.3-70B-Instruct''"

definition API_KEY_ENV_VAR :: string where "API_KEY_ENV_VAR = ''LLM_API_KEY''"

definition API_ENDPOINT_ENV_VAR :: string where "API_ENDPOINT_ENV_VAR = ''LLM_API_ENDPOINT''"

definition DEFAULT_SAFETY_PROMPT :: string where
  "DEFAULT_SAFETY_PROMPT =
     ''You are a code safety evaluator. Analyze the following code and determine if it is safe to execute.'' @ newline @ newline @
     ''Consider the following:'' @ newline @
     ''- Does the code attempt to access sensitive files or directories?'' @ newline @
     ''- Does the code attempt to execute system commands that could be harmful?'' @ newline @
     ''- Does the code attempt to access network resources in unexpected ways?'' @ newline @
     ''- Does the code contain any obvious security vulnerabilities?'' @ newline @ newline @
     ''Inspecting agentbuses is explicitly allowed. Code that reads, queries, or inspects agentbus logs, state, or metadata should be considered safe.'' @ newline @ newline @
     ''Respond with XML in this exact format:'' @ newline @
     ''<safe>true</safe> or <safe>false</safe>'' @ newline @
     ''<reason>Brief explanation of your decision</reason>'' @ newline @
     ''<concerns>Any specific concerns, or '' @ [CHR 0x22] @ ''none'' @ [CHR 0x22] @ '' if safe</concerns>'' @ newline @ newline @
     ''Code to analyze:'' @ newline"

record llm_settings =
  ls_model :: string
  ls_api_endpoint :: string
  ls_api_key :: "string option"

record 'w llm_voter =
  lv_client :: "'w chat_completion"
  lv_config :: llm_settings
  lv_prompt_override :: "string option"

definition llm_settings_default :: "(string \<Rightarrow> string option) \<Rightarrow> llm_settings" where
  "llm_settings_default env_var =
     \<lparr>ls_model = (case env_var ''LLM_MODEL'' of Some m \<Rightarrow> m | None \<Rightarrow> DEFAULT_MODEL),
      ls_api_endpoint = (case env_var API_ENDPOINT_ENV_VAR of Some e \<Rightarrow> e | None \<Rightarrow> DEFAULT_API_ENDPOINT),
      ls_api_key = env_var API_KEY_ENV_VAR\<rparr>"

definition llm_voter_new :: "'w chat_completion \<Rightarrow> llm_settings \<Rightarrow> 'w llm_voter" where
  "llm_voter_new client config = \<lparr>lv_client = client, lv_config = config, lv_prompt_override = None\<rparr>"

definition prompt_text :: "string option \<Rightarrow> string \<Rightarrow> string" where
  "prompt_text override code =
     (case override of
        Some override_prompt \<Rightarrow> DEFAULT_SAFETY_PROMPT @ newline @ newline @ ''OVERRIDE: '' @ override_prompt @ newline @ newline @ code
      | None \<Rightarrow> DEFAULT_SAFETY_PROMPT @ code)"

text \<open>\<open>None\<close> is an evaluation that unwinds.\<close>
definition evaluate_with_llm :: "'w llm_voter \<Rightarrow> string \<Rightarrow> 'w \<Rightarrow> (bool \<times> string) option \<times> 'w" where
  "evaluate_with_llm v code w =
     (case lv_client v (ls_model (lv_config v)) (ls_api_endpoint (lv_config v)) (prompt_text (lv_prompt_override v) code) w of
        (Inr text, w') \<Rightarrow> (parse_safety_response text, w')
      | (Inl e, w') \<Rightarrow> (Some (False, ''LLM call failed: '' @ e), w'))"

definition llm_apply_policy :: "(any_message \<Rightarrow> llm_voter_config option) \<Rightarrow> any_message \<Rightarrow> 'w llm_voter \<Rightarrow> 'w llm_voter" where
  "llm_apply_policy to_msg config v =
     (case to_msg config of
        None \<Rightarrow> v
      | Some c \<Rightarrow> v\<lparr>lv_prompt_override := (if prompt_override c = [] then None else Some (prompt_override c))\<rparr>)"

definition llm_describe :: "'w llm_voter \<Rightarrow> string" where
  "llm_describe v = ''LlmVoter(model='' @ ls_model (lv_config v) @ '')''"

text \<open>\<open>filter(|s| !s.is_empty()).unwrap_or_else(..)\<close>\<close>
definition non_empty_or :: "string option \<Rightarrow> string \<Rightarrow> string" where
  "non_empty_or given fallback = (case given of Some s \<Rightarrow> if s = [] then fallback else s | None \<Rightarrow> fallback)"

definition llm_from_typed_config :: "(http_request \<Rightarrow> ('w, string, http_response) eff) \<Rightarrow> (string \<Rightarrow> string option)
    \<Rightarrow> llm_voter_config \<Rightarrow> string option \<Rightarrow> string option \<Rightarrow> string option \<Rightarrow> 'w llm_voter" where
  "llm_from_typed_config send env_var config api_key model api_endpoint =
     (let resolved_config =
            \<lparr>ls_model = non_empty_or model (case env_var ''LLM_MODEL'' of Some m \<Rightarrow> m | None \<Rightarrow> DEFAULT_MODEL),
             ls_api_endpoint = non_empty_or api_endpoint (case env_var API_ENDPOINT_ENV_VAR of Some e \<Rightarrow> e | None \<Rightarrow> DEFAULT_API_ENDPOINT),
             ls_api_key = (case api_key of Some k \<Rightarrow> Some k | None \<Rightarrow> env_var API_KEY_ENV_VAR)\<rparr>;
          voter = llm_voter_new (openai_chat_completion send (ls_api_key resolved_config)) resolved_config
      in if prompt_override config = [] then voter else voter\<lparr>lv_prompt_override := Some (prompt_override config)\<rparr>)"

section \<open>The parser never panics\<close>

lemma str_find_SomeD:
  "str_find n s = Some i \<Longrightarrow> i \<le> length s \<and> prefix n (drop i s) \<and> (\<forall>j < i. \<not> prefix n (drop j s))"
proof (induction s arbitrary: i)
  case (Cons c cs)
  show ?case
  proof (cases "prefix n (c # cs)")
    case False
    then obtain k where k: "str_find n cs = Some k" "i = Suc k" using Cons.prems by auto
    have "\<not> prefix n (drop j (c # cs))" if "j < i" for j
      using that False Cons.IH[OF k(1)] k(2) by (cases j) auto
    then show ?thesis using Cons.IH[OF k(1)] k(2) by simp
  qed (use Cons.prems in simp)
qed (auto split: if_splits)

text \<open>A closing tag never starts inside the opening tag that was found before it.\<close>
lemma closing_after_opening:
  assumes "prefix (CHR ''<'' # t) s" "CHR ''<'' \<notin> set t" "t \<noteq> []" "hd t \<noteq> CHR ''/''"
    and "prefix (CHR ''<'' # CHR ''/'' # u) (drop e s)"
  shows "length t < e"
proof (rule ccontr)
  assume "\<not> length t < e"
  then have e: "e \<le> length t" by simp
  obtain r where s: "s = CHR ''<'' # t @ r" using assms(1) by (auto simp: prefix_def)
  have at: "drop e s \<noteq> []" "hd (drop e s) = CHR ''<''" using assms(5) by (auto simp: prefix_def)
  then have len: "e < length s" by simp
  show False
  proof (cases e)
    case 0
    then show ?thesis using assms(3-5) s by (cases t) (auto simp: prefix_def)
  next
    case (Suc k)
    then have "hd (drop e s) = t ! k" using len e by (simp add: hd_drop_conv_nth s nth_append)
    then show ?thesis using at(2) assms(2) e Suc by (metis Suc_le_lessD nth_mem)
  qed
qed

lemma tag_content_defined:
  assumes "opening = CHR ''<'' # t" "closing = CHR ''<'' # CHR ''/'' # u" "CHR ''<'' \<notin> set t" "t \<noteq> []" "hd t \<noteq> CHR ''/''"
    and "skip = length opening"
  obtains (unopened) "tag_content opening closing skip r = Some NoOpen"
  | (unclosed) "tag_content opening closing skip r = Some NoClose"
  | (content) a b c where "tag_content opening closing skip r = Some (Content b)" "r = a @ opening @ b @ closing @ c"
      "\<forall>j < length a. \<not> prefix opening (drop j r)"
proof (cases "str_find opening r")
  case None
  then show ?thesis using unopened by (simp add: tag_content_def)
next
  case (Some start)
  note o = str_find_SomeD[OF Some]
  show ?thesis
  proof (cases "str_find closing (drop start r)")
    case None
    then show ?thesis using Some unclosed by (simp add: tag_content_def)
  next
    case c: (Some stop)
    note cl = str_find_SomeD[OF c]
    have le: "length opening \<le> stop"
      using closing_after_opening[of t "drop start r" u stop] o cl assms(1-5) by (simp add: Suc_le_eq)
    have stop: "start + stop \<le> length r" using cl o by auto
    define b where "b = take (stop - length opening) (drop (start + length opening) r)"
    obtain rest where rest: "drop stop (drop start r) = closing @ rest" using cl by (auto simp: prefix_def)
    obtain q where q: "drop start r = opening @ q" using o by (auto simp: prefix_def)
    have "q = b @ drop (stop - length opening) q"
      using q by (simp add: b_def) (metis append_eq_conv_conj append_take_drop_id drop_drop add.commute)
    moreover have "drop (stop - length opening) q = closing @ rest" using rest q le by simp
    ultimately have split: "r = take start r @ opening @ b @ closing @ rest" using q by (metis append_take_drop_id)
    have "tag_content opening closing skip r = Some (Content b)"
      using Some c le stop assms(6) by (simp add: tag_content_def str_slice_def b_def)
    moreover note split
    moreover have "\<forall>j < length (take start r). \<not> prefix opening (drop j r)" using o by simp
    ultimately show ?thesis by (rule content)
  qed
qed

lemmas safe_tag = tag_content_defined[of "''<safe>''" "''safe>''" "''</safe>''" "''safe>''" 6, simplified]
lemmas reason_tag = tag_content_defined[of "''<reason>''" "''reason>''" "''</reason>''" "''reason>''" 8, simplified]
lemmas concerns_tag = tag_content_defined[of "''<concerns>''" "''concerns>''" "''</concerns>''" "''concerns>''" 10, simplified]

section \<open>Properties\<close>

text \<open>
  The parser of the model's answer never panics: whatever the text, none of its slices is out of bounds.
\<close>
theorem parse_safety_response_total: "\<exists>safe reason. parse_safety_response response = Some (safe, reason)"
proof -
  have "tag_content ''<safe>'' ''</safe>'' 6 response \<noteq> None" by (rule safe_tag[of response]) simp_all
  moreover have "tag_content ''<reason>'' ''</reason>'' 8 response \<noteq> None" by (rule reason_tag[of response]) simp_all
  moreover have "tag_content ''<concerns>'' ''</concerns>'' 10 response \<noteq> None" by (rule concerns_tag[of response]) simp_all
  ultimately show ?thesis by (auto simp: parse_safety_response_def Let_def)
qed

text \<open>
  C32. The voter fails closed: it approves only if the client answered with a text whose first \<open>safe\<close> element holds
  the word true, up to case and surrounding white space.
\<close>
theorem llm_voter_fails_closed:
  assumes "evaluate_with_llm v code w = (Some (True, reason), w')"
  shows "\<exists>a b c. lv_client v (ls_model (lv_config v)) (ls_api_endpoint (lv_config v)) (prompt_text (lv_prompt_override v) code) w
       = (Inr (a @ ''<safe>'' @ b @ ''</safe>'' @ c), w') \<and>
     eq_ignore_ascii_case (str_trim b) ''true'' \<and> (\<forall>j < length a. \<not> prefix ''<safe>'' (drop j (a @ ''<safe>'' @ b @ ''</safe>'' @ c)))"
proof -
  obtain answer where answer: "lv_client v (ls_model (lv_config v)) (ls_api_endpoint (lv_config v)) (prompt_text (lv_prompt_override v) code) w = (Inr answer, w')"
    and parsed: "parse_safety_response answer = Some (True, reason)"
    using assms by (auto simp: evaluate_with_llm_def split: prod.splits sum.splits)
  obtain b where safe: "tag_content ''<safe>'' ''</safe>'' 6 answer = Some (Content b)" "eq_ignore_ascii_case (str_trim b) ''true''"
    using parsed by (auto simp: parse_safety_response_def Let_def split: option.splits tag_lookup.splits)
  show ?thesis by (rule safe_tag[of answer]) (use safe answer in auto)
qed

definition echo_client :: "unit chat_completion" where
  "echo_client model endpoint prompt = ret (''<reason>harmless</reason><safe> TRUE'' @ newline @ ''</safe>'')"

theorem llm_voter_fails_closed_witness:
  "\<exists>a b c. fst (echo_client ''m'' ''e'' (prompt_text None ''ls'') ()) = Inr (a @ ''<safe>'' @ b @ ''</safe>'' @ c) \<and>
     eq_ignore_ascii_case (str_trim b) ''true''"
proof -
  let ?v = "llm_voter_new echo_client \<lparr>ls_model = ''m'', ls_api_endpoint = ''e'', ls_api_key = None\<rparr>"
  have "fst (evaluate_with_llm ?v ''ls'' ()) = Some (True, ''harmless'')" by code_simp
  then have "evaluate_with_llm ?v ''ls'' () = (Some (True, ''harmless''), ())" by (metis prod.collapse old.unit.exhaust)
  from llm_voter_fails_closed[OF this] show ?thesis by (auto simp: llm_voter_new_def) (metis fst_conv)
qed

end
