(* ===== verification/Grpc_Translation.thy ===== *)
theory Grpc_Translation
  imports Commit_Service
begin

text \<open>
  The conversions between the commit service's commands and its protobuf messages
  (\<open>logact/commit_service/grpc/src/translation.rs\<close>).  A \<open>Status\<close> is kept without its message: every refusal
  is \<open>invalid_argument\<close>.
\<close>

section \<open>Messages and conversions\<close>

record create_bus_request =
  crq_bus_id :: string

record commit_intention_request =
  cir_bus_id :: "string option"
  cir_intention :: "intention option"

record commit_intention_response =
  cip_approved :: bool
  cip_reason :: string
  cip_log_position :: int

text \<open>The codes of a \<open>tonic::Status\<close> that the code of the repository tells apart; every other one is \<open>OtherCode\<close>.\<close>
datatype grpc_code = CodeNotFound | CodeInvalidArgument | CodeDeadlineExceeded | CodeUnavailable | CodeResourceExhausted
  | CodeAborted | CodeDataLoss | CodeInternal | OtherCode

definition create_bus_to_proto :: "create_bus_command \<Rightarrow> create_bus_request" where
  "create_bus_to_proto command = \<lparr>crq_bus_id = cb_bus_id command\<rparr>"

definition create_bus_from_proto :: "create_bus_request \<Rightarrow> create_bus_command" where
  "create_bus_from_proto request = \<lparr>cb_bus_id = crq_bus_id request\<rparr>"

definition commit_request_to_proto :: "commit_intention_command \<Rightarrow> commit_intention_request" where
  "commit_request_to_proto command =
     \<lparr>cir_bus_id = Some (ci_bus_id command),
      cir_intention = Some \<lparr>intention_body = Some (ci_intention command), policy_version_constraint = None\<rparr>\<rparr>"

definition commit_request_from_proto :: "commit_intention_request \<Rightarrow> grpc_code + commit_intention_command" where
  "commit_request_from_proto request =
     (case cir_intention request of
        None \<Rightarrow> Inl CodeInvalidArgument
      | Some i \<Rightarrow>
          if policy_version_constraint i \<noteq> None then Inl CodeInvalidArgument
          else
            (case intention_body i of
               None \<Rightarrow> Inl CodeInvalidArgument
             | Some body \<Rightarrow>
                 (case intention_texts body of
                    Inl _ \<Rightarrow> Inl CodeInvalidArgument
                  | Inr _ \<Rightarrow>
                      (case cir_bus_id request of
                         None \<Rightarrow> Inl CodeInvalidArgument
                       | Some bus_id \<Rightarrow> Inr \<lparr>ci_bus_id = bus_id, ci_intention = body\<rparr>))))"

definition commit_response_to_proto :: "commit_intention_outcome \<Rightarrow> commit_intention_response" where
  "commit_response_to_proto out =
     \<lparr>cip_approved = co_approved out, cip_reason = co_reason out, cip_log_position = co_log_position out\<rparr>"

definition commit_response_from_proto :: "commit_intention_response \<Rightarrow> commit_intention_outcome" where
  "commit_response_from_proto r =
     \<lparr>co_approved = cip_approved r, co_reason = cip_reason r, co_log_position = cip_log_position r\<rparr>"

section \<open>Lemmas\<close>

lemma response_roundtrip [simp]: "commit_response_from_proto (commit_response_to_proto out) = out"
  by (simp add: commit_response_from_proto_def commit_response_to_proto_def)

lemma create_bus_roundtrip [simp]: "create_bus_from_proto (create_bus_to_proto c) = c"
  by (simp add: create_bus_from_proto_def create_bus_to_proto_def)

text \<open>
  A request is accepted exactly when it is the wire form of a command whose intention has texts: what the server
  accepts, it understands as the client meant it, and a client cannot set a policy version constraint.
\<close>
lemma accepted_commit_request:
  "commit_request_from_proto request = Inr command \<longleftrightarrow>
     request = commit_request_to_proto command \<and> (\<exists>ts. intention_texts (ci_intention command) = Inr ts)"
  by (cases request; cases command)
    (auto simp: commit_request_from_proto_def commit_request_to_proto_def split: option.splits sum.splits)

text \<open>
  A commit request is accepted exactly when it is the wire form of the command it is read as and the command's
  intention has at least one action: in particular a client cannot set a policy version constraint.
\<close>
theorem commit_request_wire:
  "commit_request_from_proto request = Inr command \<longleftrightarrow>
     request = commit_request_to_proto command \<and> ci_intention command \<noteq> GroupIntention []"
  unfolding accepted_commit_request by (cases "ci_intention command") auto

end
