(* ===== verification/Observability.thy ===== *)
theory Observability
  imports Memory_Bus
begin

text \<open>
  Metrics, structured rows and the observable bus (\<open>bus/api/src/logger.rs\<close>, \<open>metrics.rs\<close>,
  \<open>bus/impls/observable/src/observable_agent_bus.rs\<close>).  The sinks have a state of their own beside the world of the
  wrapped object, so that a wrapper being transparent is an equality of results and of worlds.  The locale
  \<open>erased_bus\<close> carries the contract of a bus over to everything that erases to it.
\<close>

section \<open>Rows\<close>

datatype log_field_value = LfString string | LfStringVector "string list" | LfI64 int

fun join_comma :: "string list \<Rightarrow> string" where
  "join_comma [] = []"
| "join_comma [s] = s"
| "join_comma (s # ss) = s @ '', '' @ join_comma ss"

fun log_field_display :: "log_field_value \<Rightarrow> string" where
  "log_field_display (LfString v) = v"
| "log_field_display (LfStringVector vs) = ''['' @ join_comma vs @ '']''"
| "log_field_display (LfI64 v) = show_int v"

record log_row =
  lr_latency_ms :: nat
  lr_api_call_name :: string
  lr_error_code :: "string option"
  lr_error_message :: "string option"
  lr_additional_fields :: "(string \<times> log_field_value) list"

definition log_row_default :: log_row where
  "log_row_default = \<lparr>lr_latency_ms = 0, lr_api_call_name = [], lr_error_code = None, lr_error_message = None,
     lr_additional_fields = []\<rparr>"

definition row_latency_ms :: "nat \<Rightarrow> log_row \<Rightarrow> log_row" where
  "row_latency_ms v row = row\<lparr>lr_latency_ms := v\<rparr>"

definition row_api_call_name :: "string \<Rightarrow> log_row \<Rightarrow> log_row" where
  "row_api_call_name v row = row\<lparr>lr_api_call_name := v\<rparr>"

definition row_error_code :: "string \<Rightarrow> log_row \<Rightarrow> log_row" where
  "row_error_code v row = row\<lparr>lr_error_code := Some v\<rparr>"

definition row_error_message :: "string \<Rightarrow> log_row \<Rightarrow> log_row" where
  "row_error_message v row = row\<lparr>lr_error_message := Some v\<rparr>"

definition add_string_field :: "string \<Rightarrow> string \<Rightarrow> log_row \<Rightarrow> log_row" where
  "add_string_field f v row = row\<lparr>lr_additional_fields := lr_additional_fields row @ [(f, LfString v)]\<rparr>"

definition add_string_vector_field :: "string \<Rightarrow> string list \<Rightarrow> log_row \<Rightarrow> log_row" where
  "add_string_vector_field f vs row = row\<lparr>lr_additional_fields := lr_additional_fields row @ [(f, LfStringVector vs)]\<rparr>"

definition add_i64_field :: "string \<Rightarrow> int \<Rightarrow> log_row \<Rightarrow> log_row" where
  "add_i64_field f v row = row\<lparr>lr_additional_fields := lr_additional_fields row @ [(f, LfI64 v)]\<rparr>"

lemmas row_defs = row_latency_ms_def row_api_call_name_def row_error_code_def row_error_message_def
  add_string_field_def add_string_vector_field_def add_i64_field_def log_row_default_def

section \<open>Sinks\<close>

type_synonym tags = "(string \<times> string) list"

definition NO_TAGS :: tags where "NO_TAGS = []"

record 'm metrics =
  record_counter :: "string \<Rightarrow> int \<Rightarrow> tags \<Rightarrow> 'm \<Rightarrow> 'm"
  record_histogram :: "string \<Rightarrow> int \<Rightarrow> tags \<Rightarrow> 'm \<Rightarrow> 'm"

type_synonym 'm logger = "log_row \<Rightarrow> 'm \<Rightarrow> 'm"

definition prefixed_key :: "string \<Rightarrow> string \<Rightarrow> string" where
  "prefixed_key pre key = (if pre = [] then key else pre @ ''.'' @ key)"

definition prefixed_metrics :: "string \<Rightarrow> 'm metrics \<Rightarrow> 'm metrics" where
  "prefixed_metrics pre inner =
     \<lparr>record_counter = (\<lambda>key. record_counter inner (prefixed_key pre key)),
      record_histogram = (\<lambda>key. record_histogram inner (prefixed_key pre key))\<rparr>"

text \<open>The in-memory sinks: metrics and rows, side by side.\<close>
record sinks =
  sk_counters :: "string \<rightharpoonup> int"
  sk_histograms :: "string \<rightharpoonup> int list"
  sk_rows :: "log_row list"

definition empty_sinks :: sinks where
  "empty_sinks = \<lparr>sk_counters = Map.empty, sk_histograms = Map.empty, sk_rows = []\<rparr>"

definition counter_value :: "sinks \<Rightarrow> string \<Rightarrow> int" where
  "counter_value k key = (case sk_counters k key of Some v \<Rightarrow> v | None \<Rightarrow> 0)"

definition histogram_values :: "sinks \<Rightarrow> string \<Rightarrow> int list" where
  "histogram_values k key = (case sk_histograms k key of Some vs \<Rightarrow> vs | None \<Rightarrow> [])"

definition in_memory_metrics :: "sinks metrics" where
  "in_memory_metrics =
     \<lparr>record_counter = (\<lambda>key v _ k. k\<lparr>sk_counters := (sk_counters k)(key \<mapsto> wrap_i64 (counter_value k key + v))\<rparr>),
      record_histogram = (\<lambda>key v _ k. k\<lparr>sk_histograms := (sk_histograms k)(key \<mapsto> histogram_values k key @ [v])\<rparr>)\<rparr>"

definition in_memory_logger :: "sinks logger" where
  "in_memory_logger row k = k\<lparr>sk_rows := sk_rows k @ [row]\<rparr>"

definition noop_metrics :: "'m metrics" where
  "noop_metrics = \<lparr>record_counter = (\<lambda>_ _ _ k. k), record_histogram = (\<lambda>_ _ _ k. k)\<rparr>"

definition noop_logger :: "'m logger" where
  "noop_logger row k = k"

record ('w, 'm) observability =
  ob_metrics :: "'m metrics"
  ob_logger :: "'m logger"
  ob_environment :: "'w environment"

definition recording :: "'w environment \<Rightarrow> ('w, sinks) observability" where
  "recording env = \<lparr>ob_metrics = in_memory_metrics, ob_logger = in_memory_logger, ob_environment = env\<rparr>"

section \<open>A timed call\<close>

definition as_micros :: "nat \<Rightarrow> nat" where
  "as_micros d = d div 1000"

definition latency_micros :: "nat \<Rightarrow> int" where
  "latency_micros elapsed = wrap_i64 (int (as_micros elapsed))"

definition latency_millis :: "nat \<Rightarrow> nat" where
  "latency_millis elapsed = as_millis elapsed mod 2 ^ 64"

text \<open>
  The second half of a call: a panic of the wrapped object unwinds through the wrapper, any other result is timed
  and reported.  Durations saturate at zero, as the difference of naturals does.
\<close>
definition finish_call :: "('w, 'm) observability \<Rightarrow> ('e + 'a \<Rightarrow> bool) \<Rightarrow> ('e + 'a \<Rightarrow> nat \<Rightarrow> 'm \<Rightarrow> 'm) \<Rightarrow> nat
    \<Rightarrow> 'm \<Rightarrow> ('e + 'a) \<times> 'w \<Rightarrow> ('e + 'a) \<times> 'w \<times> 'm" where
  "finish_call ob panics report start k out =
     (case out of (result, w) \<Rightarrow>
        if panics result then (result, (w, k))
        else (case env_monotonic_time (ob_environment ob) w of (stop, w') \<Rightarrow>
          (result, (w', report result (stop - start) k))))"

definition observed :: "('w, 'm) observability \<Rightarrow> ('m \<Rightarrow> 'm) \<Rightarrow> ('e + 'a \<Rightarrow> bool) \<Rightarrow> ('e + 'a \<Rightarrow> nat \<Rightarrow> 'm \<Rightarrow> 'm)
    \<Rightarrow> ('w, 'e, 'a) eff \<Rightarrow> ('w \<times> 'm, 'e, 'a) eff" where
  "observed ob begins panics report operation = (\<lambda>(w, k).
     case env_monotonic_time (ob_environment ob) w of (start, w1) \<Rightarrow>
       finish_call ob panics report start (begins k) (operation w1))"

text \<open>The same for an operation that may not return.\<close>
definition observed_option :: "('w, 'm) observability \<Rightarrow> ('m \<Rightarrow> 'm) \<Rightarrow> ('e + 'a \<Rightarrow> bool) \<Rightarrow> ('e + 'a \<Rightarrow> nat \<Rightarrow> 'm \<Rightarrow> 'm)
    \<Rightarrow> ('w \<Rightarrow> (('e + 'a) \<times> 'w) option) \<Rightarrow> 'w \<times> 'm \<Rightarrow> (('e + 'a) \<times> 'w \<times> 'm) option" where
  "observed_option ob begins panics report operation = (\<lambda>(w, k).
     case env_monotonic_time (ob_environment ob) w of (start, w1) \<Rightarrow>
       map_option (finish_call ob panics report start (begins k)) (operation w1))"

definition panics_with :: "'e \<Rightarrow> 'e + 'a \<Rightarrow> bool" where
  "panics_with e r = (case r of Inl e' \<Rightarrow> e' = e | Inr _ \<Rightarrow> False)"

section \<open>The observable bus\<close>

definition BUS_COMPONENT :: string where "BUS_COMPONENT = ''agent_bus''"

definition bus_base_row :: "string \<Rightarrow> string \<Rightarrow> nat \<Rightarrow> log_row" where
  "bus_base_row call_name bus_id elapsed =
     add_string_field ''resource_id'' bus_id
       (add_string_field ''component'' BUS_COMPONENT
         (row_latency_ms (latency_millis elapsed) (row_api_call_name call_name log_row_default)))"

fun payload_type_name :: "payload \<Rightarrow> string" where
  "payload_type_name (Some (Intention _)) = ''intention''"
| "payload_type_name (Some (Vote _)) = ''vote''"
| "payload_type_name (Some (DeciderPolicy _)) = ''decider_policy''"
| "payload_type_name (Some (Commit _)) = ''commit''"
| "payload_type_name (Some (Abort _)) = ''abort''"
| "payload_type_name (Some (VoterPolicy _)) = ''voter_policy''"
| "payload_type_name (Some (Control _)) = ''control''"
| "payload_type_name (Some (InferenceInput _)) = ''inference_input''"
| "payload_type_name (Some (InferenceOutput _)) = ''inference_output''"
| "payload_type_name (Some (ActionOutput _)) = ''action_output''"
| "payload_type_name (Some (AgentInput _)) = ''agent_input''"
| "payload_type_name (Some (AgentOutput _)) = ''agent_output''"
| "payload_type_name (Some (Mail _)) = ''mail''"
| "payload_type_name None = ''unknown''"

text \<open>\<open>Panicked\<close> stands for unwinding, which is never reported.\<close>
fun bus_error_code :: "bus_error \<Rightarrow> string" where
  "bus_error_code PositionNotFound = ''BusPositionNotFound''"
| "bus_error_code InvalidArgument = ''BusInvalidArgument''"
| "bus_error_code BusTimeout = ''BusTimeout''"
| "bus_error_code Unavailable = ''BusUnavailable''"
| "bus_error_code Internal = ''BusInternal''"
| "bus_error_code Panicked = []"

text \<open>\<open>message\<close> is the text of an error, which the model's errors do not carry.\<close>
definition add_result_status :: "('e \<Rightarrow> string) \<Rightarrow> ('e \<Rightarrow> string) \<Rightarrow> 'e + 'a \<Rightarrow> log_row \<Rightarrow> log_row" where
  "add_result_status code message result row =
     (case result of
        Inr _ \<Rightarrow> add_i64_field ''success'' 1 row
      | Inl e \<Rightarrow> row_error_message (message e) (row_error_code (code e) (add_i64_field ''success'' 0 row)))"

definition count_call :: "('w, 'm) observability \<Rightarrow> string \<Rightarrow> 'm \<Rightarrow> 'm" where
  "count_call ob key = record_counter (ob_metrics ob) key 1 NO_TAGS"

definition measure_value :: "('w, 'm) observability \<Rightarrow> string \<Rightarrow> int \<Rightarrow> 'm \<Rightarrow> 'm" where
  "measure_value ob key v = record_histogram (ob_metrics ob) key v NO_TAGS"

definition count_error :: "('w, 'm) observability \<Rightarrow> string \<Rightarrow> 'e + 'a \<Rightarrow> 'm \<Rightarrow> 'm" where
  "count_error ob key result = (case result of Inl _ \<Rightarrow> count_call ob key | Inr _ \<Rightarrow> id)"

type_synonym bus_message = "bus_error \<Rightarrow> string"

definition observable_append :: "('w, 'm) observability \<Rightarrow> bus_message \<Rightarrow> 'w agent_bus \<Rightarrow> append_request
    \<Rightarrow> ('w \<times> 'm, bus_error, int) eff" where
  "observable_append ob message B req = (\<lambda>(w, k).
     let k0 = count_call ob ''append.agent_bus.num_calls'' k in
     case validate_bus_id (ar_bus_id req) of
       Inl e \<Rightarrow> (Inl e, (w, k0))
     | Inr bus_id \<Rightarrow>
         let payload_type = (case ar_payload req of Some p \<Rightarrow> payload_type_name p | None \<Rightarrow> ''unknown'') in
         observed ob id (panics_with Panicked)
           (\<lambda>result elapsed k.
              let k1 = measure_value ob ''append.agent_bus.latency_us'' (latency_micros elapsed) k;
                  k2 = count_error ob ''append.agent_bus.num_errors'' result k1;
                  row = add_result_status bus_error_code message result
                    (add_string_field ''payload_type'' payload_type (bus_base_row ''append'' bus_id elapsed));
                  row' = (case result of Inr position \<Rightarrow> add_i64_field ''position'' position row | Inl _ \<Rightarrow> row)
              in ob_logger ob row' k2)
           (bus_append B req) (w, k0))"

text \<open>What polls and reads report alike: latency, the number of entries or an error, and the row.\<close>
definition report_entries :: "('w, 'm) observability \<Rightarrow> string \<Rightarrow> bus_message \<Rightarrow> ('a \<Rightarrow> bus_entry list) \<Rightarrow> log_row
    \<Rightarrow> ('a \<Rightarrow> log_row \<Rightarrow> log_row) \<Rightarrow> bus_error + 'a \<Rightarrow> nat \<Rightarrow> 'm \<Rightarrow> 'm" where
  "report_entries ob call_name message entries row extra result elapsed k =
     (let k1 = measure_value ob (call_name @ ''.agent_bus.latency_us'') (latency_micros elapsed) k;
          k2 = (case result of
                  Inr response \<Rightarrow> measure_value ob (call_name @ ''.agent_bus.entries_returned'') (int (length (entries response))) k1
                | Inl _ \<Rightarrow> count_call ob (call_name @ ''.agent_bus.num_errors'') k1);
          row1 = add_result_status bus_error_code message result row;
          row2 = (case result of
                    Inr response \<Rightarrow> extra response (add_i64_field ''entries_returned'' (int (length (entries response))) row1)
                  | Inl _ \<Rightarrow> row1)
      in ob_logger ob row2 k2)"

definition observable_poll :: "('w, 'm) observability \<Rightarrow> bus_message \<Rightarrow> 'w agent_bus \<Rightarrow> poll_request
    \<Rightarrow> ('w \<times> 'm, bus_error, poll_response) eff" where
  "observable_poll ob message B req = (\<lambda>(w, k).
     let k0 = count_call ob ''poll.agent_bus.num_calls'' k in
     case validate_bus_id (pr_bus_id req) of
       Inl e \<Rightarrow> (Inl e, (w, k0))
     | Inr bus_id \<Rightarrow>
         observed ob id (panics_with Panicked)
           (\<lambda>result elapsed. report_entries ob ''poll'' message ps_entries
              (add_i64_field ''max_entries'' (pr_max_entries req)
                (add_i64_field ''position'' (pr_start_log_position req) (bus_base_row ''poll'' bus_id elapsed)))
              (\<lambda>response. add_i64_field ''complete'' (if ps_complete response then 1 else 0)) result elapsed)
           (bus_poll B req) (w, k0))"

definition observable_read_next :: "('w, 'm) observability \<Rightarrow> bus_message \<Rightarrow> 'w agent_bus \<Rightarrow> read_next_request
    \<Rightarrow> ('w \<times> 'm, bus_error, read_next_response) eff" where
  "observable_read_next ob message B req = (\<lambda>(w, k).
     let k0 = count_call ob ''read_next.agent_bus.num_calls'' k in
     case validate_bus_id (rn_bus_id req) of
       Inl e \<Rightarrow> (Inl e, (w, k0))
     | Inr bus_id \<Rightarrow>
         observed ob id (panics_with Panicked)
           (\<lambda>result elapsed. report_entries ob ''read_next'' message rr_entries
              (add_i64_field ''max_entries'' (rn_max_entries req)
                (add_i64_field ''position'' (rn_start_log_position req) (bus_base_row ''read_next'' bus_id elapsed)))
              (\<lambda>response. add_i64_field ''next_position'' (rr_next_start_position response)) result elapsed)
           (bus_read_next B req) (w, k0))"

definition observable_check_tail :: "('w, 'm) observability \<Rightarrow> bus_message \<Rightarrow> 'w agent_bus \<Rightarrow> string option
    \<Rightarrow> ('w \<times> 'm, bus_error, int) eff" where
  "observable_check_tail ob message B bid = (\<lambda>(w, k).
     let k0 = count_call ob ''check_tail.agent_bus.num_calls'' k in
     case validate_bus_id bid of
       Inl e \<Rightarrow> (Inl e, (w, k0))
     | Inr bus_id \<Rightarrow>
         observed ob id (panics_with Panicked)
           (\<lambda>result elapsed k.
              let k1 = measure_value ob ''check_tail.agent_bus.latency_us'' (latency_micros elapsed) k;
                  k2 = count_error ob ''check_tail.agent_bus.num_errors'' result k1;
                  row = add_result_status bus_error_code message result (bus_base_row ''check_tail'' bus_id elapsed);
                  row' = (case result of Inr tail \<Rightarrow> add_i64_field ''tail_position'' tail row | Inl _ \<Rightarrow> row)
              in ob_logger ob row' k2)
           (bus_check_tail B bid) (w, k0))"

definition observable_blocking_poll :: "('w, 'm) observability \<Rightarrow> bus_message
    \<Rightarrow> (blocking_poll_request \<Rightarrow> 'w \<Rightarrow> ((bus_error + blocking_poll_response) \<times> 'w) option)
    \<Rightarrow> blocking_poll_request \<Rightarrow> 'w \<times> 'm \<Rightarrow> ((bus_error + blocking_poll_response) \<times> 'w \<times> 'm) option" where
  "observable_blocking_poll ob message polls req = (\<lambda>(w, k).
     let k0 = count_call ob ''blocking_poll.agent_bus.num_calls'' k in
     case validate_bus_id (bp_bus_id req) of
       Inl e \<Rightarrow> Some (Inl e, (w, k0))
     | Inr bus_id \<Rightarrow>
         observed_option ob id (panics_with Panicked)
           (\<lambda>result elapsed. report_entries ob ''blocking_poll'' message bs_entries
              (add_i64_field ''timeout_ms'' (bp_timeout_ms req)
                (add_i64_field ''max_entries'' (bp_max_entries req)
                  (add_i64_field ''position'' (bp_start_log_position req) (bus_base_row ''blocking_poll'' bus_id elapsed))))
              (\<lambda>response. add_i64_field ''next_position'' (bs_next_start_position response)) result elapsed)
           (polls req) (w, k0))"

definition observable_bus :: "('w, 'm) observability \<Rightarrow> bus_message \<Rightarrow> 'w agent_bus \<Rightarrow> ('w \<times> 'm) agent_bus" where
  "observable_bus ob message B = \<lparr>bus_append = observable_append ob message B, bus_poll = observable_poll ob message B,
     bus_read_next = observable_read_next ob message B, bus_check_tail = observable_check_tail ob message B\<rparr>"

section \<open>Erasing the sinks\<close>

text \<open>
  An operation on a world with sinks erases to an operation on the world when, whatever the sinks hold, it answers as
  that operation and leaves the world as it does.
\<close>
definition erases :: "('w \<times> 'm, 'e, 'a) eff \<Rightarrow> ('w, 'e, 'a) eff \<Rightarrow> bool" where
  "erases m' m \<longleftrightarrow> (\<forall>w k. fst (m' (w, k)) = fst (m w) \<and> fst (snd (m' (w, k))) = snd (m w))"

definition erases_option :: "('w \<times> 'm \<Rightarrow> ('r \<times> 'w \<times> 'm) option) \<Rightarrow> ('w \<Rightarrow> ('r \<times> 'w) option) \<Rightarrow> bool" where
  "erases_option m' m \<longleftrightarrow> (\<forall>w k. map_option (\<lambda>(r, w', k'). (r, w')) (m' (w, k)) = m w)"

definition clock_reads :: "'w environment \<Rightarrow> bool" where
  "clock_reads env \<longleftrightarrow> (\<forall>w. snd (env_monotonic_time env w) = w)"

lemma sim_clock_reads [simp]: "clock_reads (sim_environment bo)"
  by (simp add: clock_reads_def sim_environment_def clock_monotonic_time_def)

lemma erasesI:
  assumes "\<And>w k. \<exists>k'. m' (w, k) = (fst (m w), snd (m w), k')"
  shows "erases m' m"
  unfolding erases_def using assms by (metis fst_conv snd_conv)

lemma erasesD:
  assumes "erases m' m" "m' (w, k) = (r, w', k')"
  shows "m w = (r, w')"
  using assms unfolding erases_def by (metis fst_conv prod.collapse snd_conv)

lemma finish_call_erases:
  assumes "clock_reads (ob_environment ob)"
  shows "\<exists>k'. finish_call ob panics report start k (r, w) = (r, w, k')"
  using assms unfolding clock_reads_def finish_call_def
  by (cases "env_monotonic_time (ob_environment ob) w") (auto, metis snd_conv)

lemma observed_erases:
  assumes "clock_reads (ob_environment ob)"
  shows "\<exists>k'. observed ob begins panics report operation (w, k) = (fst (operation w), snd (operation w), k')"
proof -
  obtain start where start: "env_monotonic_time (ob_environment ob) w = (start, w)"
    using assms unfolding clock_reads_def by (metis prod.collapse)
  show ?thesis using finish_call_erases[OF assms, of panics report start "begins k" "fst (operation w)" "snd (operation w)"]
    by (simp add: observed_def start)
qed

lemma observed_option_erases:
  assumes "clock_reads (ob_environment ob)"
  shows "map_option (\<lambda>(r, w', k'). (r, w')) (observed_option ob begins panics report operation (w, k)) = operation w"
proof -
  obtain start where start: "env_monotonic_time (ob_environment ob) w = (start, w)"
    using assms unfolding clock_reads_def by (metis prod.collapse)
  show ?thesis
  proof (cases "operation w")
    case (Some out)
    then show ?thesis using finish_call_erases[OF assms, of panics report start "begins k" "fst out" "snd out"]
      by (auto simp: observed_option_def start)
  qed (simp add: observed_option_def start)
qed

text \<open>A bus that refuses an invalid bus id before it does anything else.\<close>
definition checks_ids_first :: "'w agent_bus \<Rightarrow> bool" where
  "checks_ids_first B \<longleftrightarrow>
     (\<forall>req e w. validate_bus_id (ar_bus_id req) = Inl e \<longrightarrow> bus_append B req w = (Inl e, w)) \<and>
     (\<forall>req e w. validate_bus_id (pr_bus_id req) = Inl e \<longrightarrow> bus_poll B req w = (Inl e, w)) \<and>
     (\<forall>req e w. validate_bus_id (rn_bus_id req) = Inl e \<longrightarrow> bus_read_next B req w = (Inl e, w)) \<and>
     (\<forall>bid e w. validate_bus_id bid = Inl e \<longrightarrow> bus_check_tail B bid w = (Inl e, w))"

lemma memory_bus_checks_first [simp]: "checks_ids_first (memory_bus mb)"
  by (simp add: checks_ids_first_def memory_bus_def mem_append_def mem_poll_def mem_read_next_def mem_check_tail_def)

definition bus_erases :: "('w \<times> 'm) agent_bus \<Rightarrow> 'w agent_bus \<Rightarrow> bool" where
  "bus_erases B' B \<longleftrightarrow> (\<forall>req. erases (bus_append B' req) (bus_append B req)) \<and> (\<forall>req. erases (bus_poll B' req) (bus_poll B req)) \<and>
     (\<forall>req. erases (bus_read_next B' req) (bus_read_next B req)) \<and> (\<forall>bid. erases (bus_check_tail B' bid) (bus_check_tail B bid))"

lemma observable_bus_erases:
  assumes "clock_reads (ob_environment ob)" "checks_ids_first B"
  shows "bus_erases (observable_bus ob message B) B"
  unfolding bus_erases_def
proof (intro conjI allI erasesI)
  fix w k and areq :: append_request and preq :: poll_request and rreq :: read_next_request and bid :: "string option"
  note c = assms(2)[unfolded checks_ids_first_def]
  show "\<exists>k'. bus_append (observable_bus ob message B) areq (w, k) = (fst (bus_append B areq w), snd (bus_append B areq w), k')"
    using c observed_erases[OF assms(1)] by (auto simp: observable_bus_def observable_append_def Let_def split: sum.split)
  show "\<exists>k'. bus_poll (observable_bus ob message B) preq (w, k) = (fst (bus_poll B preq w), snd (bus_poll B preq w), k')"
    using c observed_erases[OF assms(1)] by (auto simp: observable_bus_def observable_poll_def Let_def split: sum.split)
  show "\<exists>k'. bus_read_next (observable_bus ob message B) rreq (w, k) = (fst (bus_read_next B rreq w), snd (bus_read_next B rreq w), k')"
    using c observed_erases[OF assms(1)] by (auto simp: observable_bus_def observable_read_next_def Let_def split: sum.split)
  show "\<exists>k'. bus_check_tail (observable_bus ob message B) bid (w, k) = (fst (bus_check_tail B bid w), snd (bus_check_tail B bid w), k')"
    using c observed_erases[OF assms(1)] by (auto simp: observable_bus_def observable_check_tail_def Let_def split: sum.split)
qed

section \<open>The contract carries over\<close>

locale erased_bus = log_bus B log inv evolves
  for B :: "'w agent_bus" and log inv evolves +
  fixes B' :: "('w \<times> 'm) agent_bus"
  assumes erased: "bus_erases B' B"
begin

lemma call_erased:
  shows "bus_append B' req1 (w, k) = (r1, w', k') \<Longrightarrow> bus_append B req1 w = (r1, w')"
    and "bus_read_next B' req2 (w, k) = (r2, w', k') \<Longrightarrow> bus_read_next B req2 w = (r2, w')"
    and "bus_check_tail B' bid (w, k) = (r3, w', k') \<Longrightarrow> bus_check_tail B bid w = (r3, w')"
  using erased unfolding bus_erases_def by (blast intro: erasesD)+

lemma moves_erased: "erases m' m \<Longrightarrow> moves evolves m \<Longrightarrow> moves (\<lambda>s s'. evolves (fst s) (fst s')) m'"
  unfolding moves_def erases_def by auto

end

sublocale erased_bus \<subseteq> outer: log_bus B' "log \<circ> fst" "inv \<circ> fst" "\<lambda>s s'. evolves (fst s) (fst s')"
proof (unfold_locales, goal_cases)
  case (1 s)
  show ?case by (rule evolves_refl)
next
  case (2 s s1 s2)
  then show ?case by (blast intro: evolves_trans)
next
  case (3 s s1)
  then show ?case by (auto intro: evolves_inv)
next
  case (4 s s1 b)
  then show ?case by (auto intro: evolves_log)
next
  case (5 s b)
  then show ?case by (auto intro: log_numbered)
next
  case (6 req)
  show ?case using erased append_evolves unfolding bus_erases_def by (blast intro: moves_erased)
next
  case (7 s b p pos s')
  then show ?case using append_law call_erased(1) by (cases s; cases s') fastforce
next
  case (8 bid)
  show ?case using erased tail_evolves unfolding bus_erases_def by (blast intro: moves_erased)
next
  case (9 s b t s')
  then show ?case using tail_law call_erased(3) by (cases s; cases s') fastforce
next
  case (10 req2)
  show ?case using erased read_evolves unfolding bus_erases_def by (blast intro: moves_erased)
next
  case (11 s req2 b resp s')
  obtain w k w' k' where s: "s = (w, k)" "s' = (w', k')" by (cases s; cases s')
  have "bus_read_next B req2 w = (Inr resp, w')" by (rule call_erased(2)[OF 11(6)[unfolded s]])
  from read_law[OF _ 11(2) 11(3) 11(4) _ this] show ?case using 11(1,5) unfolding s o_def fst_conv .
qed

interpretation observed_sim_bus: erased_bus "memory_bus \<lparr>mb_environment = sim_environment bo, mb_ttl = ttl\<rparr>"
  mem_log mem_inv mem_evolves
  "observable_bus (recording (sim_environment bo)) message (memory_bus \<lparr>mb_environment = sim_environment bo, mb_ttl = ttl\<rparr>)"
  for bo ttl message
  by unfold_locales (simp add: observable_bus_erases recording_def)

section \<open>What a call reports\<close>

text \<open>
  One row for the call, with an error code exactly when it failed, one more call counted and one more error when it
  failed.
\<close>
definition reported :: "string \<Rightarrow> string \<Rightarrow> bool \<Rightarrow> sinks \<Rightarrow> sinks \<Rightarrow> bool" where
  "reported call_name component ok k k' \<longleftrightarrow>
     (\<exists>row. sk_rows k' = sk_rows k @ [row] \<and> lr_api_call_name row = call_name \<and> (lr_error_code row = None \<longleftrightarrow> ok) \<and>
        (''success'', LfI64 (if ok then 1 else 0)) \<in> set (lr_additional_fields row)) \<and>
     counter_value k' (call_name @ ''.'' @ component @ ''.num_calls'') =
       wrap_i64 (counter_value k (call_name @ ''.'' @ component @ ''.num_calls'') + 1) \<and>
     counter_value k' (call_name @ ''.'' @ component @ ''.num_errors'') =
       (let n = counter_value k (call_name @ ''.'' @ component @ ''.num_errors'') in if ok then n else wrap_i64 (n + 1))"

definition reports_calls :: "string \<Rightarrow> string \<Rightarrow> 'e \<Rightarrow> ('w \<times> sinks, 'e, 'a) eff \<Rightarrow> bool" where
  "reports_calls call_name component panic operation \<longleftrightarrow>
     (\<forall>w k r w' k'. operation (w, k) = (r, w', k') \<longrightarrow> \<not> panics_with panic r \<longrightarrow> reported call_name component (is_ok r) k k')"

lemma recording_simps [simp]:
  "ob_logger (recording env) = in_memory_logger" "ob_environment (recording env) = env" "ob_metrics (recording env) = in_memory_metrics"
  by (simp_all add: recording_def)

lemma recording_count_call [simp]:
  "count_call (recording env) key k = k\<lparr>sk_counters := (sk_counters k)(key \<mapsto> wrap_i64 (counter_value k key + 1))\<rparr>"
  by (simp add: count_call_def in_memory_metrics_def)

lemma recording_measure [simp]:
  "measure_value (recording env) key v k = k\<lparr>sk_histograms := (sk_histograms k)(key \<mapsto> histogram_values k key @ [v])\<rparr>"
  by (simp add: measure_value_def in_memory_metrics_def)

lemma finish_callD:
  assumes "finish_call ob panics report start k (r0, w0) = (r, w, k')" "\<not> panics r"
  obtains d where "r = r0" "k' = report r d k"
  using assms by (auto simp: finish_call_def split: if_splits prod.splits)

lemma observedD:
  assumes "observed ob begins panics report operation (w, k) = (r, w', k')" "\<not> panics r"
  obtains d where "k' = report r d (begins k)"
proof -
  obtain start w1 where clock: "env_monotonic_time (ob_environment ob) w = (start, w1)" by fastforce
  obtain r0 w0 where "operation w1 = (r0, w0)" by fastforce
  then have "finish_call ob panics report start (begins k) (r0, w0) = (r, w', k')"
    using assms(1) by (simp add: observed_def clock)
  from finish_callD[OF this assms(2)] that show thesis by blast
qed

lemma status_fields [simp]:
  "lr_api_call_name (add_result_status code message r row) = lr_api_call_name row"
  "lr_error_code (add_result_status code message r row) = (if is_ok r then lr_error_code row else Some (code (projl r)))"
  "lr_additional_fields (add_result_status code message r row) =
     lr_additional_fields row @ [(''success'', LfI64 (if is_ok r then 1 else 0))]"
  by (auto simp: add_result_status_def row_defs is_ok_def split: sum.splits)

lemma row_fields [simp]:
  "lr_api_call_name (add_i64_field f v row) = lr_api_call_name row" "lr_error_code (add_i64_field f v row) = lr_error_code row"
  "lr_additional_fields (add_i64_field f v row) = lr_additional_fields row @ [(f, LfI64 v)]"
  "lr_api_call_name (add_string_field f s row) = lr_api_call_name row" "lr_error_code (add_string_field f s row) = lr_error_code row"
  "lr_additional_fields (add_string_field f s row) = lr_additional_fields row @ [(f, LfString s)]"
  "lr_api_call_name (add_string_vector_field f ss row) = lr_api_call_name row"
  "lr_error_code (add_string_vector_field f ss row) = lr_error_code row"
  "lr_additional_fields (add_string_vector_field f ss row) = lr_additional_fields row @ [(f, LfStringVector ss)]"
  by (simp_all add: row_defs)

lemma bus_base_row_fields [simp]:
  "lr_api_call_name (bus_base_row name b d) = name" "lr_error_code (bus_base_row name b d) = None"
  by (simp_all add: bus_base_row_def row_defs)

lemma report_entries_reported:
  assumes "lr_api_call_name row = name" "lr_error_code row = None"
    and "\<And>x y. lr_api_call_name (extra x y) = lr_api_call_name y" "\<And>x y. lr_error_code (extra x y) = lr_error_code y"
    and "\<And>x y. set (lr_additional_fields y) \<subseteq> set (lr_additional_fields (extra x y))"
    and "k' = report_entries (recording env) name message es row extra r d (count_call (recording env) (name @ ''.agent_bus.num_calls'') k)"
  shows "reported name ''agent_bus'' (is_ok r) k k'"
proof (cases r)
  case (Inl e)
  then show ?thesis using assms(1,2)
    by (simp add: assms(6) reported_def report_entries_def in_memory_logger_def counter_value_def Let_def)
next
  case (Inr x)
  define row' where "row' = extra x (add_i64_field ''entries_returned'' (int (length (es x)))
      (add_result_status bus_error_code message r row))"
  have "(''success'', LfI64 1) \<in> set (lr_additional_fields row')"
    using Inr assms(5) unfolding row'_def by fastforce
  moreover have "lr_api_call_name row' = name" "lr_error_code row' = None"
    using Inr by (simp_all add: row'_def assms(1-4))
  moreover have "sk_rows k' = sk_rows k @ [row']"
    using Inr by (simp add: assms(6) report_entries_def in_memory_logger_def row'_def Let_def)
  ultimately show ?thesis using Inr
    by (simp add: assms(6) reported_def report_entries_def in_memory_logger_def counter_value_def Let_def)
qed

section \<open>Properties\<close>

text \<open>
  Observing a bus is transparent: over any bus that checks ids first, every call through the observable bus
  answers as the bus it wraps and leaves its state as it does, whatever the metrics and the logger do.
\<close>
theorem observable_bus_transparent:
  assumes "clock_reads (ob_environment ob)" "checks_ids_first B"
  shows "bus_erases (observable_bus ob message B) B"
  by (rule observable_bus_erases[OF assms])

theorem observable_bus_transparent_witness:
  "\<forall>message. bus_erases (observable_bus (recording (sim_environment unit_backoff)) message
       (memory_bus \<lparr>mb_environment = sim_environment unit_backoff, mb_ttl = None\<rparr>))
     (memory_bus \<lparr>mb_environment = sim_environment unit_backoff, mb_ttl = None\<rparr>)"
  by (intro allI observable_bus_transparent) (simp_all add: recording_def)

text \<open>
  C37. Every call with a valid bus id that returns leaves exactly one row, with an error code exactly when it failed,
  and counts one call and, when it failed, one error.
\<close>
theorem bus_calls_reported:
  assumes "valid_bus b"
  shows "reports_calls ''append'' ''agent_bus'' Panicked (observable_append (recording env) message B \<lparr>ar_bus_id = Some b, ar_payload = p\<rparr>) \<and>
    reports_calls ''poll'' ''agent_bus'' Panicked (observable_poll (recording env) message B
      \<lparr>pr_bus_id = Some b, pr_start_log_position = s, pr_max_entries = n, pr_filter = flt\<rparr>) \<and>
    reports_calls ''read_next'' ''agent_bus'' Panicked (observable_read_next (recording env) message B
      \<lparr>rn_bus_id = Some b, rn_start_log_position = s, rn_end_log_position = e, rn_max_entries = n, rn_filter = flt\<rparr>) \<and>
    reports_calls ''check_tail'' ''agent_bus'' Panicked (observable_check_tail (recording env) message B (Some b))"
proof (intro conjI)
  show "reports_calls ''append'' ''agent_bus'' Panicked (observable_append (recording env) message B \<lparr>ar_bus_id = Some b, ar_payload = p\<rparr>)"
    unfolding reports_calls_def observable_append_def using assms
    by (auto simp: Let_def elim!: observedD)
      (auto simp: reported_def count_error_def in_memory_logger_def counter_value_def split: sum.split)
  show "reports_calls ''check_tail'' ''agent_bus'' Panicked (observable_check_tail (recording env) message B (Some b))"
    unfolding reports_calls_def observable_check_tail_def using assms
    by (auto simp: Let_def elim!: observedD)
      (auto simp: reported_def count_error_def in_memory_logger_def counter_value_def split: sum.split)
  show "reports_calls ''poll'' ''agent_bus'' Panicked (observable_poll (recording env) message B
      \<lparr>pr_bus_id = Some b, pr_start_log_position = s, pr_max_entries = n, pr_filter = flt\<rparr>)"
    unfolding reports_calls_def
  proof (intro allI impI)
    fix w k r w' k'
    assume run: "observable_poll (recording env) message B
      \<lparr>pr_bus_id = Some b, pr_start_log_position = s, pr_max_entries = n, pr_filter = flt\<rparr> (w, k) = (r, w', k')" "\<not> panics_with Panicked r"
    let ?row = "\<lambda>d. add_i64_field ''max_entries'' n (add_i64_field ''position'' s (bus_base_row ''poll'' b d))"
    obtain d where d: "k' = report_entries (recording env) ''poll'' message ps_entries (?row d)
        (\<lambda>x. add_i64_field ''complete'' (if ps_complete x then 1 else 0)) r d (count_call (recording env) (''poll'' @ ''.agent_bus.num_calls'') k)"
      using run assms by (auto simp: observable_poll_def Let_def simp del: recording_count_call elim!: observedD)
    show "reported ''poll'' ''agent_bus'' (is_ok r) k k'"
      by (rule report_entries_reported[OF _ _ _ _ _ d]) auto
  qed
  show "reports_calls ''read_next'' ''agent_bus'' Panicked (observable_read_next (recording env) message B
      \<lparr>rn_bus_id = Some b, rn_start_log_position = s, rn_end_log_position = e, rn_max_entries = n, rn_filter = flt\<rparr>)"
    unfolding reports_calls_def
  proof (intro allI impI)
    fix w k r w' k'
    assume run: "observable_read_next (recording env) message B
      \<lparr>rn_bus_id = Some b, rn_start_log_position = s, rn_end_log_position = e, rn_max_entries = n, rn_filter = flt\<rparr> (w, k) = (r, w', k')"
      "\<not> panics_with Panicked r"
    let ?row = "\<lambda>d. add_i64_field ''max_entries'' n (add_i64_field ''position'' s (bus_base_row ''read_next'' b d))"
    obtain d where d: "k' = report_entries (recording env) ''read_next'' message rr_entries (?row d)
        (\<lambda>x. add_i64_field ''next_position'' (rr_next_start_position x)) r d (count_call (recording env) (''read_next'' @ ''.agent_bus.num_calls'') k)"
      using run assms by (auto simp: observable_read_next_def Let_def simp del: recording_count_call elim!: observedD)
    show "reported ''read_next'' ''agent_bus'' (is_ok r) k k'"
      by (rule report_entries_reported[OF _ _ _ _ _ d]) auto
  qed
qed

definition recorded_append :: "(bus_error + int) \<times> (mem_world \<times> sinks)" where
  "recorded_append = observable_append (recording (sim_environment (\<lambda>n w. (n, w)))) (\<lambda>_. ''error'')
     (memory_bus \<lparr>mb_environment = sim_environment (\<lambda>n w. (n, w)), mb_ttl = None\<rparr>)
     \<lparr>ar_bus_id = Some ''bus'', ar_payload = Some None\<rparr> (\<lparr>mw_buses = Map.empty, mw_elapsed = 0, mw_noise = []\<rparr>, empty_sinks)"

theorem bus_calls_reported_witness: "reported ''append'' ''agent_bus'' True empty_sinks (snd (snd recorded_append))"
proof -
  have valid: "valid_bus ''bus''" by code_simp
  have "fst recorded_append = Inr 0" by code_simp
  then have "recorded_append = (Inr 0, fst (snd recorded_append), snd (snd recorded_append))" by (metis prod.collapse)
  then show ?thesis
    using bus_calls_reported[OF valid, THEN conjunct1, of "sim_environment (\<lambda>n w. (n, w))" "\<lambda>_. ''error''"
        "memory_bus \<lparr>mb_environment = sim_environment (\<lambda>n w. (n, w)), mb_ttl = None\<rparr>" "Some None"]
    unfolding recorded_append_def reports_calls_def by (fastforce simp: panics_with_def)
qed

end
