(* ===== verification/Commit_Svc.thy ===== *)
theory Commit_Svc
  imports Inmem_Service
begin

text \<open>
  The trait \<open>CommitSvc\<close> of \<open>logact/commit_service/api/src/traits.rs\<close> as a record of operations, and its contract as
  the locale \<open>commit_provider\<close>: an outcome is the first decision logged for the intention's own position.  Both
  services of the repository are providers: the service over the engine and the in-memory one.
\<close>

record 'w commit_svc =
  svc_agent_bus :: "'w agent_bus"
  svc_create_bus :: "create_bus_command \<Rightarrow> ('w, commit_error, unit) eff"
  svc_commit_intention :: "commit_intention_command \<Rightarrow> 'w \<Rightarrow> ((commit_error + commit_intention_outcome) \<times> 'w) option"

definition commit_svc_v1 :: "('b, 'w, 'p) commit_service_v1 \<Rightarrow> 'w commit_svc" where
  "commit_svc_v1 cs = \<lparr>svc_agent_bus = cs_bus cs, svc_create_bus = cs_create_bus cs, svc_commit_intention = cs_commit_intention cs\<rparr>"

definition inmem_commit_svc :: "('z inmem_world_scheme, 'p) inmem_service \<Rightarrow> 'z inmem_world_scheme commit_svc" where
  "inmem_commit_svc svc = \<lparr>svc_agent_bus = memory_bus (ims_bus svc), svc_create_bus = inmem_create_bus svc,
     svc_commit_intention = inmem_commit_intention svc\<rparr>"

section \<open>The contract\<close>

text \<open>The log decides an intention as reported, from some point on that is not after the intention.\<close>
definition decided_in_log :: "bus_entry list \<Rightarrow> intention_kind \<Rightarrow> commit_intention_outcome \<Rightarrow> bool" where
  "decided_in_log es i out \<longleftrightarrow>
     (\<exists>c v. 0 \<le> c \<and> c \<le> co_log_position out \<and> co_log_position out < int (length es) \<and>
        first_decision es c (co_log_position out) (proposal_of out) \<and>
        entry_payload (es ! nat (co_log_position out)) =
          Some (Some (Intention \<lparr>intention_body = Some i, policy_version_constraint = Some (MinimumPolicyVersion v)\<rparr>)))"

locale commit_provider =
  fixes svc :: "'w commit_svc"
    and log :: "'w \<Rightarrow> string \<Rightarrow> bus_entry list"
    and good :: "'w \<Rightarrow> bool"
  assumes commit_good: "good w \<Longrightarrow> svc_commit_intention svc req w = Some (r, w') \<Longrightarrow> good w'"
    and create_good: "good w \<Longrightarrow> good (snd (svc_create_bus svc creq w))"
    and append_good: "good w \<Longrightarrow> good (snd (bus_append (svc_agent_bus svc) areq w))"
    and commit_law: "good w \<Longrightarrow> svc_commit_intention svc \<lparr>ci_bus_id = b, ci_intention = i\<rparr> w = Some (Inr out, w') \<Longrightarrow>
        decided_in_log (log w' b) i out"

section \<open>The service over the engine\<close>

text \<open>The service of a node, as \<open>CommitServiceV1\<close> is built from the node's bus and engine.\<close>
definition node_service :: "('b, ('b, 'z) eng_world_scheme) engine_node \<Rightarrow> ('b, 'z) eng_world_scheme commit_svc" where
  "node_service nd = commit_svc_v1
     \<lparr>cs_bus = memory_bus \<lparr>mb_environment = nd_environment nd, mb_ttl = nd_ttl nd\<rparr>, cs_engine = node_engine nd\<rparr>"

context ok_node
begin

lemma append_keeps_good: "node_good nd w \<Longrightarrow> node_good nd (snd (mem_append \<lparr>mb_environment = nd_environment nd, mb_ttl = ttl\<rparr> req w))"
  using moves_memory_bus(1)[of "\<lparr>mb_environment = nd_environment nd, mb_ttl = ttl\<rparr>" nd req] ok
  by (auto simp: moves_def node_rely_def node_good_def mem_evolves_def checkpoints_ok_def node_ok_def)

lemma service_decided:
  assumes "node_good nd w" "svc_commit_intention (node_service nd) \<lparr>ci_bus_id = b, ci_intention = i\<rparr> w = Some (Inr out, w')"
  shows "decided_in_log (mem_log w' b) i out"
proof -
  obtain r where r: "propose_intention (node_engine nd) b (intention_to_payload i) w = Some (r, w')"
    "(case r of Inl e \<Rightarrow> Inl (commit_error_from_engine e)
       | Inr po \<Rightarrow> Inr \<lparr>co_approved = po_approved po, co_reason = po_reason po, co_log_position = po_log_position po\<rparr>) = Inr out"
    using assms(2) by (auto simp: node_service_def commit_svc_v1_def cs_commit_intention_def)
  then obtain po where po: "r = Inr po" "proposal_of out = po" by (cases r) (auto simp: proposal_of_def)
  then show ?thesis
    using propose_outcome[OF assms(1) r(1)[unfolded po(1)]] po(2)
    by (auto simp: decided_in_log_def intention_to_payload_def proposal_of_def)
qed

lemma service_keeps_good:
  assumes "node_good nd w" "svc_commit_intention (node_service nd) req w = Some (r, w')"
  shows "node_good nd w'"
  using assms propose_keeps(1)[OF assms(1)]
  by (auto simp: node_service_def commit_svc_v1_def cs_commit_intention_def)

lemma node_service_provider: "commit_provider (node_service nd) mem_log (node_good nd)"
proof (unfold_locales, goal_cases)
  case (2 w creq)
  then show ?case
    using create_bus_keeps(1)[of w "cb_bus_id creq"]
    by (cases "create_bus (node_engine nd) (cb_bus_id creq) w")
      (auto simp: node_service_def commit_svc_v1_def cs_create_bus_def map_errE_def split: sum.split)
next
  case (3 w areq)
  then show ?case using append_keeps_good by (simp add: node_service_def commit_svc_v1_def memory_bus_def)
qed (use service_keeps_good service_decided in blast)+

end

interpretation sim_service: commit_provider "node_service (sim_node evaluate desired)" mem_log "node_good (sim_node evaluate desired)"
  for evaluate desired
  by (rule sim.node_service_provider)

section \<open>The in-memory service\<close>

context inmem_env
begin

lemma commit_invalid_bus:
  assumes "\<not> valid_bus (ci_bus_id req)"
  shows "inmem_commit_intention svc req w \<noteq> Some (Inr out, w')"
  using assms by (auto simp: inmem_commit_intention_def bindE_def map_errE_def mem_append_def split: prod.splits sum.splits)

lemma inmem_decided:
  assumes "\<forall>b. state_ok b w" "inmem_commit_intention svc \<lparr>ci_bus_id = b, ci_intention = i\<rparr> w = Some (Inr out, w')"
  shows "decided_in_log (mem_log w' b) i out"
proof -
  let ?req = "\<lparr>ci_bus_id = b, ci_intention = i\<rparr>"
  have valid: "valid_bus b" using commit_invalid_bus[of ?req] assms(2) by auto
  obtain r w1 ds where run: "inmem_commit_intention svc ?req w = Some (r, w1)"
    and out: "\<And>out. r = Inr out \<Longrightarrow> \<exists>c ip v. c \<le> ip \<and> ip < length (mem_log w1 b) \<and>
       entry_payload (mem_log w1 b ! ip) = Some (im_intention_to_payload i v) \<and>
       scanned (mem_log w1 b) (int ip) c (length (mem_log w1 b)) (Inl out)"
    by (rule commit_decides[of ?req w]) (use assms(1) valid in auto)
  then obtain c ip v where f: "c \<le> ip" "ip < length (mem_log w' b)" "entry_payload (mem_log w' b ! ip) = Some (im_intention_to_payload i v)"
      "scanned (mem_log w' b) (int ip) c (length (mem_log w' b)) (Inl out)"
    using assms(2) by auto
  then show ?thesis using scanned_first_decision[OF f(4)]
    unfolding decided_in_log_def by (intro exI[of _ "int c"] exI[of _ v]) (simp add: im_intention_to_payload_def)
qed

lemma inmem_service_provider: "commit_provider (inmem_commit_svc svc) mem_log (\<lambda>w. \<forall>b. state_ok b w)"
proof (unfold_locales, goal_cases)
  case (1 w req r w')
  then show ?case using commit_keeps by (auto simp: inmem_commit_svc_def keeps_ok_def)
next
  case (2 w creq)
  then show ?case using create_keeps by (auto simp: inmem_commit_svc_def keeps_ok_def moves_def)
next
  case (3 w areq)
  then show ?case using append_keeps by (auto simp: inmem_commit_svc_def memory_bus_def keeps_ok_def moves_def)
qed (use inmem_decided in \<open>auto simp: inmem_commit_svc_def\<close>)

end

interpretation static_provider: commit_provider "inmem_commit_svc (inmem_new (sim_environment bo))" mem_log "\<lambda>w. \<forall>b. state_ok b w"
  for bo
  by (rule static_service.inmem_service_provider)

end
