(* ===== verification/Entry_View.thy ===== *)
theory Entry_View
  imports Bus_Api
begin

text \<open>
  The view of a log entry that the command line and the HTTP API show: \<open>parse_entry\<close> of
  \<open>bus/api/src/helpers.rs\<close>, the name of the payload's type and its content as a string.  Structured content
  is a JSON value; rendering it (\<open>serde_json\<close>) is the parameter \<open>render\<close>, which sees an object as the
  association list of its fields.
\<close>

section \<open>Definitions\<close>

datatype json = JNull | JBool bool | JInt int | JString string | JArray "json list" | JObject "(string \<times> json) list"

record parsed_entry =
  pe_entry_type :: string
  pe_content :: string

definition json_opt_int :: "int option \<Rightarrow> json" where
  "json_opt_int v = (case v of Some i \<Rightarrow> JInt i | None \<Rightarrow> JNull)"

fun voter_config_type :: "voter_config option \<Rightarrow> string" where
  "voter_config_type (Some (Some (Llm _))) = ''llm''"
| "voter_config_type (Some (Some (RuleBased _))) = ''rule_based''"
| "voter_config_type (Some (Some (Custom any))) = type_url any"
| "voter_config_type _ = ''none''"

definition vote_fields :: "vote \<Rightarrow> (string \<times> json) list" where
  "vote_fields v =
     [(''intention_id'', JInt (vote_intention_id v))] @
     (case abstract_vote v of Some (Some (BooleanVote b)) \<Rightarrow> [(''boolean_vote'', JBool b)] | _ \<Rightarrow> []) @
     (if vote_reason v = [] then [] else [(''reason'', JString (vote_reason v))]) @
     [(''voter_id'', JString (vote_voter_id v))] @
     (case vote_voter_config v of None \<Rightarrow> [] | Some c \<Rightarrow> [(''voter_config_type'', JString (voter_config_type (Some c)))])"

definition voter_op_view :: "voter_op \<Rightarrow> json" where
  "voter_op_view op =
     (case op of
        Some (AddOp c) \<Rightarrow> JObject [(''operation'', JString ''add''), (''config_type'', JString (voter_config_type c))]
      | Some RemoveOp \<Rightarrow> JObject [(''operation'', JString ''remove'')]
      | None \<Rightarrow> JObject [(''operation'', JString ''none'')])"

definition control_view :: "base_engine_control \<Rightarrow> json" where
  "control_view c =
     (let base = (\<lambda>t. [(''control_type'', JString ''base_engine_control''), (''base_engine_control_type'', JString t)])
      in case c of
           Some (AddVoter cfg) \<Rightarrow> JObject (base ''add_voter'' @ [(''config_type'', JString (voter_config_type cfg))])
         | Some (RemoveVoter voter_id) \<Rightarrow> JObject (base ''remove_voter'' @ [(''voter_id'', JString voter_id)])
         | Some (PolicyBatch batch) \<Rightarrow>
             JObject (base ''policy_batch'' @
               [(''expected_current_version'', json_opt_int (pb_expected_current_version batch)),
                (''new_version'', JInt (pb_new_version batch)),
                (''decider_policy'', json_opt_int (pb_decider_policy batch)),
                (''voter_ops'', JObject (map (\<lambda>(voter_id, op). (voter_id, voter_op_view op)) (pb_voter_ops batch)))])
         | None \<Rightarrow> JObject (base ''none''))"

definition mail_view :: "mail \<Rightarrow> json" where
  "mail_view m =
     (case (case mail_content m of
        Some (MailMessage msg) \<Rightarrow> (mm_body msg, mm_message_id msg, [])
      | Some (MailReply r) \<Rightarrow>
          (case mr_message r of
             Some msg \<Rightarrow> (mm_body msg, mm_message_id msg, mr_in_reply_to r)
           | None \<Rightarrow> ([], [], mr_in_reply_to r))
      | None \<Rightarrow> ([], [], [])) of
      (body, msg_id, reply_to) \<Rightarrow>
        JObject [(''from'', JString (sender_agent_id m)), (''content'', JString body), (''message_id'', JString msg_id),
          (''in_reply_to'', JString reply_to)])"

definition string_or_empty :: "string option \<Rightarrow> string" where
  "string_or_empty s = (case s of Some t \<Rightarrow> t | None \<Rightarrow> [])"

definition decision_view :: "int \<Rightarrow> string \<Rightarrow> json" where
  "decision_view intention_id reason = JObject [(''intention_id'', JInt intention_id), (''reason'', JString reason)]"

definition parse_entry :: "(json \<Rightarrow> string) \<Rightarrow> bus_entry \<Rightarrow> parsed_entry" where
  "parse_entry render entry =
     (let parsed = (\<lambda>t content. \<lparr>pe_entry_type = payload_type_as_str t, pe_content = content\<rparr>)
      in case entry_payload entry of
           Some (Some inner) \<Rightarrow>
             (case inner of
                Intention i \<Rightarrow> parsed PT_Intention
                  (case intention_body i of
                     Some (StringIntention s) \<Rightarrow> s
                   | Some (GroupIntention g) \<Rightarrow> render (JObject [(''group_intention'', JArray (map JString g))])
                   | None \<Rightarrow> [])
              | Vote v \<Rightarrow> parsed PT_Vote (render (JObject (vote_fields v)))
              | Commit c \<Rightarrow> parsed PT_Commit (render (decision_view (commit_intention_id c) (commit_reason c)))
              | Abort a \<Rightarrow> parsed PT_Abort (render (decision_view (abort_intention_id a) (abort_reason a)))
              | InferenceInput s \<Rightarrow> parsed PT_InferenceInput (string_or_empty s)
              | InferenceOutput s \<Rightarrow> parsed PT_InferenceOutput (string_or_empty s)
              | ActionOutput ao \<Rightarrow> parsed PT_ActionOutput (string_or_empty (ao_string_action_output ao))
              | AgentInput s \<Rightarrow> parsed PT_AgentInput (string_or_empty s)
              | AgentOutput s \<Rightarrow> parsed PT_AgentOutput (string_or_empty s)
              | VoterPolicy config \<Rightarrow> parsed PT_VoterPolicy
                  (case config of Some any \<Rightarrow> ''type='' @ type_url any | None \<Rightarrow> ''no config'')
              | Control c \<Rightarrow> parsed PT_Control
                  (case c of Some (BaseEngineControl base) \<Rightarrow> render (control_view base) | None \<Rightarrow> [])
              | DeciderPolicy dp \<Rightarrow> parsed PT_DeciderPolicy (show_int dp)
              | Mail m \<Rightarrow> parsed PT_Mail (render (mail_view m)))
         | _ \<Rightarrow> \<lparr>pe_entry_type = ''unknown'', pe_content = []\<rparr>)"

section \<open>Properties\<close>

lemma parse_entry_type:
  "pe_entry_type (parse_entry render \<lparr>entry_header = h, entry_payload = Some (Some k)\<rparr>) = payload_type_as_str t \<longleftrightarrow>
   get_payload_type (Some k) = Some (to_proto_i32 t)"
  by (cases k; cases t; simp add: parse_entry_def Let_def)

text \<open>
  The type name shown for an entry and the number a poll filters by agree: an entry matches a filter exactly when
  the filter holds the number of the type that its shown name parses to, and an entry whose name does not parse
  matches no filter.
\<close>
theorem shown_type_agrees_with_filter:
  "entry_matches (Some types) e \<longleftrightarrow>
     (\<exists>t. payload_type_from_str (pe_entry_type (parse_entry render e)) = Some t \<and> to_proto_i32 t \<in> set types)"
proof (cases "\<exists>k. entry_payload e = Some (Some k)")
  case True
  then obtain h k where e: "e = \<lparr>entry_header = h, entry_payload = Some (Some k)\<rparr>" by (cases e) auto
  show ?thesis
    unfolding e
    by (cases k) (simp_all add: entry_matches_def payload_matches_filter_def parse_entry_def Let_def payload_type_from_str_def)
next
  case False
  then have "entry_payload e = None \<or> entry_payload e = Some None" by (cases "entry_payload e") auto
  then show ?thesis
    by (auto simp: entry_matches_def payload_matches_filter_def parse_entry_def payload_type_from_str_def)
qed

end
