(* ===== verification/Observable_Layers.thy ===== *)
theory Observable_Layers
  imports Observability Commit_Svc Entry_View Write_Once
begin

text \<open>
  The other observability wrappers: of write-once spaces (\<open>bus/impls/writeonce/src/observable_write_once_space.rs\<close>),
  of the engine's storage and applicators (\<open>engine/src/observable_storage.rs\<close>, \<open>observable_applicator.rs\<close>) and of
  commit services (\<open>logact/commit_service/impls/observable\<close>).  Texts of errors, lengths of values and the rendering
  of JSON are arguments.
\<close>

section \<open>Write-once spaces\<close>

definition SPACE_COMPONENT :: string where "SPACE_COMPONENT = ''write_once_space''"

text \<open>The metric key of an operation; \<open>component\<close> is \<open>SPACE_COMPONENT\<close> unless \<open>with_component\<close> sets another.\<close>
definition space_metric_key :: "string \<Rightarrow> string \<Rightarrow> string \<Rightarrow> string" where
  "space_metric_key component operation metric = operation @ ''.'' @ component @ ''.'' @ metric"

definition space_base_row :: "string \<Rightarrow> log_row \<Rightarrow> string \<Rightarrow> string \<Rightarrow> nat \<Rightarrow> log_row" where
  "space_base_row component row call_name space_id elapsed =
     add_string_field ''resource_id'' space_id (add_string_field ''component'' component
       (row_latency_ms (latency_millis elapsed) (row_api_call_name call_name row)))"

fun tail_error_code :: "tail_error \<Rightarrow> string" where
  "tail_error_code TailBackendUnavailable = ''BackendUnavailable''"
| "tail_error_code ZeroWindowSize = ''ZeroWindowSize''"

fun write_once_error_code :: "write_once_error \<Rightarrow> string" where
  "write_once_error_code (AddressAlreadyExists _) = ''AddressAlreadyExists''"
| "write_once_error_code WoTransactionConflict = ''TransactionConflict''"
| "write_once_error_code WoTimeout = ''Timeout''"
| "write_once_error_code WoBackendUnavailable = ''BackendUnavailable''"
| "write_once_error_code WoInternalError = ''InternalError''"
| "write_once_error_code WoPanicked = []"

definition add_tail_result :: "(tail_error \<Rightarrow> string) \<Rightarrow> tail_error + nat \<Rightarrow> log_row \<Rightarrow> log_row" where
  "add_tail_result message result row =
     (case result of
        Inr tail_position \<Rightarrow> add_i64_field ''tail_position'' (wrap_i64 (int tail_position)) (add_i64_field ''success'' 1 row)
      | Inl e \<Rightarrow> row_error_message (message e) (row_error_code (tail_error_code e) (add_i64_field ''success'' 0 row)))"

definition add_write_result :: "(write_once_error \<Rightarrow> string) \<Rightarrow> write_once_error + unit \<Rightarrow> log_row \<Rightarrow> log_row" where
  "add_write_result message = add_result_status write_once_error_code message"

definition observable_space_tail :: "('w, 'm) observability \<Rightarrow> string \<Rightarrow> (tail_error \<Rightarrow> string) \<Rightarrow> ('v, 'w) write_once_space
    \<Rightarrow> string \<Rightarrow> nat \<Rightarrow> ('w \<times> 'm, tail_error, nat) eff" where
  "observable_space_tail ob component message S space_id window_size =
     observed ob (count_call ob (space_metric_key component ''tail'' ''num_calls'')) (\<lambda>_. False)
       (\<lambda>result elapsed k.
          let k1 = measure_value ob (space_metric_key component ''tail'' ''latency_us'') (latency_micros elapsed) k;
              k2 = count_error ob (space_metric_key component ''tail'' ''num_errors'') result k1;
              row = add_i64_field ''window_size'' (wrap_i64 (int window_size)) log_row_default
          in ob_logger ob (add_tail_result message result (space_base_row component row ''tail'' space_id elapsed)) k2)
       (wo_tail S space_id window_size)"

definition observable_space_write :: "('w, 'm) observability \<Rightarrow> string \<Rightarrow> (write_once_error \<Rightarrow> string) \<Rightarrow> ('v \<Rightarrow> nat)
    \<Rightarrow> ('v, 'w) write_once_space \<Rightarrow> string \<Rightarrow> nat \<Rightarrow> 'v \<Rightarrow> ('w \<times> 'm, write_once_error, unit) eff" where
  "observable_space_write ob component message size_of S space_id address value =
     observed ob
       (\<lambda>k. measure_value ob (space_metric_key component ''write'' ''value_bytes'') (wrap_i64 (int (size_of value)))
              (count_call ob (space_metric_key component ''write'' ''num_calls'') k))
       (panics_with WoPanicked)
       (\<lambda>result elapsed k.
          let k1 = measure_value ob (space_metric_key component ''write'' ''latency_us'') (latency_micros elapsed) k;
              k2 = (case result of
                      Inr _ \<Rightarrow> k1
                    | Inl (AddressAlreadyExists _) \<Rightarrow> count_call ob (space_metric_key component ''write'' ''num_conflicts'') k1
                    | Inl _ \<Rightarrow> count_call ob (space_metric_key component ''write'' ''num_errors'') k1);
              row = add_i64_field ''value_bytes'' (wrap_i64 (int (size_of value)))
                      (add_i64_field ''position'' (wrap_i64 (int address)) log_row_default)
          in ob_logger ob (add_write_result message result (space_base_row component row ''write'' space_id elapsed)) k2)
       (wo_write S space_id address value)"

definition observable_space_read :: "('w, 'm) observability \<Rightarrow> string \<Rightarrow> (write_once_error \<Rightarrow> string) \<Rightarrow> ('v \<Rightarrow> nat)
    \<Rightarrow> ('v, 'w) write_once_space \<Rightarrow> string \<Rightarrow> nat \<Rightarrow> ('w \<times> 'm, write_once_error, 'v option) eff" where
  "observable_space_read ob component message size_of S space_id address =
     observed ob (count_call ob (space_metric_key component ''read'' ''num_calls'')) (panics_with WoPanicked)
       (\<lambda>result elapsed k.
          let k1 = measure_value ob (space_metric_key component ''read'' ''latency_us'') (latency_micros elapsed) k;
              k2 = (case result of Inr None \<Rightarrow> count_call ob (space_metric_key component ''read'' ''num_misses'') k1 | _ \<Rightarrow> k1);
              k3 = count_error ob (space_metric_key component ''read'' ''num_errors'') result k2;
              row = space_base_row component (add_i64_field ''position'' (wrap_i64 (int address)) log_row_default)
                      ''read'' space_id elapsed;
              row' = (case result of
                  Inr found \<Rightarrow>
                    (let hit = add_i64_field ''hit'' (if found \<noteq> None then 1 else 0) (add_i64_field ''success'' 1 row)
                     in case found of Some v \<Rightarrow> add_i64_field ''value_bytes'' (wrap_i64 (int (size_of v))) hit | None \<Rightarrow> hit)
                | Inl e \<Rightarrow> row_error_message (message e) (row_error_code (write_once_error_code e) (add_i64_field ''success'' 0 row)))
          in ob_logger ob row' k3)
       (wo_read S space_id address)"

definition observable_space :: "('w, 'm) observability \<Rightarrow> string \<Rightarrow> (tail_error \<Rightarrow> string) \<Rightarrow> (write_once_error \<Rightarrow> string)
    \<Rightarrow> ('v \<Rightarrow> nat) \<Rightarrow> ('v, 'w) write_once_space \<Rightarrow> ('v, 'w \<times> 'm) write_once_space" where
  "observable_space ob component tail_message message size_of S =
     \<lparr>wo_write = observable_space_write ob component message size_of S, wo_read = observable_space_read ob component message size_of S,
      wo_tail = observable_space_tail ob component tail_message S\<rparr>"

section \<open>Storage\<close>

definition storage_detail :: "string \<Rightarrow> string \<Rightarrow> string" where
  "storage_detail key value = key @ '':'' @ value"

definition storage_base_row :: "string \<Rightarrow> string \<Rightarrow> nat \<Rightarrow> log_row" where
  "storage_base_row call_name key elapsed =
     add_string_field ''resource_id'' key (add_string_field ''component'' ''storage''
       (row_latency_ms (latency_millis elapsed) (row_api_call_name call_name log_row_default)))"

fun storage_error_code :: "storage_error \<Rightarrow> string" where
  "storage_error_code TransactionConflict = ''TransactionConflict''"
| "storage_error_code StorageTimeout = ''Timeout''"
| "storage_error_code BackendUnavailable = ''BackendUnavailable''"
| "storage_error_code InternalError = ''InternalError''"

definition add_get_result :: "(storage_error \<Rightarrow> string) \<Rightarrow> ('b \<Rightarrow> nat) \<Rightarrow> storage_error + ('b \<times> int) option \<Rightarrow> log_row \<Rightarrow> log_row" where
  "add_get_result message size_of result row =
     (case result of
        Inr (Some (value, version)) \<Rightarrow>
          add_string_vector_field ''response_context''
            [storage_detail ''found'' ''1'', storage_detail ''version'' (show_int version),
             storage_detail ''value_bytes'' (show_int (int (size_of value)))] (add_i64_field ''success'' 1 row)
      | Inr None \<Rightarrow> add_string_vector_field ''response_context'' [storage_detail ''found'' ''0''] (add_i64_field ''success'' 1 row)
      | Inl e \<Rightarrow> row_error_message (message e) (row_error_code (storage_error_code e) (add_i64_field ''success'' 0 row)))"

definition add_put_result :: "(storage_error \<Rightarrow> string) \<Rightarrow> storage_error + bool \<Rightarrow> log_row \<Rightarrow> log_row" where
  "add_put_result message result row =
     (case result of
        Inr applied \<Rightarrow> add_string_vector_field ''response_context''
            [storage_detail ''applied'' (show_int (if applied then 1 else 0))] (add_i64_field ''success'' 1 row)
      | Inl e \<Rightarrow> row_error_message (message e) (row_error_code (storage_error_code e) (add_i64_field ''success'' 0 row)))"

definition observable_get :: "('w, 'm) observability \<Rightarrow> (storage_error \<Rightarrow> string) \<Rightarrow> ('b \<Rightarrow> nat) \<Rightarrow> ('b, 'w) storage
    \<Rightarrow> string \<Rightarrow> ('w \<times> 'm, storage_error, ('b \<times> int) option) eff" where
  "observable_get ob message size_of S key =
     observed ob (count_call ob ''get.storage.num_calls'') (\<lambda>_. False)
       (\<lambda>result elapsed k.
          let k1 = measure_value ob ''get.storage.latency_us'' (latency_micros elapsed) k;
              k2 = (case result of
                      Inr (Some _) \<Rightarrow> k1
                    | Inr None \<Rightarrow> count_call ob ''get.storage.num_misses'' k1
                    | Inl _ \<Rightarrow> count_call ob ''get.storage.num_errors'' k1)
          in ob_logger ob (add_get_result message size_of result (storage_base_row ''get'' key elapsed)) k2)
       (st_get S key)"

definition observable_put :: "('w, 'm) observability \<Rightarrow> (storage_error \<Rightarrow> string) \<Rightarrow> ('b \<Rightarrow> nat) \<Rightarrow> ('b, 'w) storage
    \<Rightarrow> string \<Rightarrow> 'b \<Rightarrow> int option \<Rightarrow> int \<Rightarrow> ('w \<times> 'm, storage_error, bool) eff" where
  "observable_put ob message size_of S key value expected version =
     observed ob (\<lambda>k. measure_value ob ''put.storage.value_bytes'' (wrap_i64 (int (size_of value))) (count_call ob ''put.storage.num_calls'' k))
       (\<lambda>_. False)
       (\<lambda>result elapsed k.
          let k1 = measure_value ob ''put.storage.latency_us'' (latency_micros elapsed) k;
              k2 = (case result of
                      Inr True \<Rightarrow> k1
                    | Inr False \<Rightarrow> count_call ob ''put.storage.num_cas_rejections'' k1
                    | Inl _ \<Rightarrow> count_call ob ''put.storage.num_errors'' k1);
              row = add_string_vector_field ''request_context''
                [storage_detail ''version'' (show_int version), storage_detail ''value_bytes'' (show_int (int (size_of value))),
                 storage_detail ''expected'' (case expected of None \<Rightarrow> ''absent'' | Some v \<Rightarrow> show_int v)]
                (storage_base_row ''put'' key elapsed)
          in ob_logger ob (add_put_result message result row) k2)
       (st_put S key value expected version)"

definition observable_storage :: "('w, 'm) observability \<Rightarrow> (storage_error \<Rightarrow> string) \<Rightarrow> ('b \<Rightarrow> nat) \<Rightarrow> ('b, 'w) storage
    \<Rightarrow> ('b, 'w \<times> 'm) storage" where
  "observable_storage ob message size_of S =
     \<lparr>st_get = observable_get ob message size_of S, st_put = observable_put ob message size_of S\<rparr>"

section \<open>Applicators\<close>

fun malformed_kind_name :: "malformed_policy_batch_kind \<Rightarrow> string" where
  "malformed_kind_name MP_PolicyBatch = ''PolicyBatch''"
| "malformed_kind_name MP_AddVoter = ''AddVoter''"
| "malformed_kind_name MP_RemoveVoter = ''RemoveVoter''"
| "malformed_kind_name MP_DeciderPolicy = ''DeciderPolicy''"

fun deprecated_kind_name :: "deprecated_operation_kind \<Rightarrow> string" where
  "deprecated_kind_name DO_AddVoter = ''AddVoter''"
| "deprecated_kind_name DO_RemoveVoter = ''RemoveVoter''"
| "deprecated_kind_name DO_SetDeciderPolicy = ''SetDeciderPolicy''"

fun apply_error_code :: "apply_error \<Rightarrow> string" where
  "apply_error_code (StalePosition _ _) = ''StalePosition''"
| "apply_error_code MissingHeader = ''MissingHeader''"
| "apply_error_code InvalidEngineState = ''InvalidEngineState''"
| "apply_error_code (MalformedPolicy _) = ''MalformedPolicy''"
| "apply_error_code (DeprecatedOperation _) = ''DeprecatedOperation''"
| "apply_error_code (ApplyStorage e) = ''Storage'' @ storage_error_code e"
| "apply_error_code (Concurrency e) =
     (case ce_owner e of OwnerEngine \<Rightarrow> ''ConcurrencyEngine'' | OwnerVoter \<Rightarrow> ''ConcurrencyVoter'' | OwnerDecider \<Rightarrow> ''ConcurrencyDecider'')"
| "apply_error_code (ApplyBus e) = bus_error_code e"
| "apply_error_code Backend = ''Backend''"

definition observable_applicator :: "('w, 'm) observability \<Rightarrow> (json \<Rightarrow> string) \<Rightarrow> (apply_error \<Rightarrow> string) \<Rightarrow> string
    \<Rightarrow> 'w applicator \<Rightarrow> ('w \<times> 'm) applicator" where
  "observable_applicator ob render message applicator_kind inner bus_id entry =
     (let tags = [(''applicator_kind'', applicator_kind)];
          payload_type = pe_entry_type (parse_entry render entry)
      in observed ob (record_counter (ob_metrics ob) ''apply.applicator.num_calls'' 1 tags)
           (panics_with (ApplyBus Panicked))
           (\<lambda>result elapsed k.
              let k1 = record_histogram (ob_metrics ob) ''apply.applicator.latency_us'' (latency_micros elapsed) tags k;
                  k2 = (case result of
                          Inl e \<Rightarrow> record_counter (ob_metrics ob) ''apply.applicator.num_errors'' 1
                            [(''applicator_kind'', applicator_kind), (''error_code'', apply_error_code e)] k1
                        | Inr _ \<Rightarrow> k1);
                  row = add_string_field ''payload_type'' payload_type (add_string_field ''resource_id'' bus_id
                    (add_string_field ''component'' applicator_kind
                      (row_latency_ms (latency_millis elapsed) (row_api_call_name ''apply'' log_row_default))));
                  row1 = (case header_position entry of Some position \<Rightarrow> add_i64_field ''log_position'' position row | None \<Rightarrow> row);
                  row2 = (case result of Inl (MalformedPolicy kind) \<Rightarrow> add_string_field ''malformed_policy_kind'' (malformed_kind_name kind) row1
                          | _ \<Rightarrow> row1);
                  row3 = (case result of Inl (DeprecatedOperation kind) \<Rightarrow>
                            add_string_field ''deprecated_operation_kind'' (deprecated_kind_name kind) row2 | _ \<Rightarrow> row2)
              in ob_logger ob (add_result_status apply_error_code message result row3) k2)
           (inner bus_id entry))"

text \<open>\<open>ObservedDeciderFactory\<close>\<close>
definition observed_create_decider :: "('w, 'm) observability \<Rightarrow> (json \<Rightarrow> string) \<Rightarrow> (apply_error \<Rightarrow> string) \<Rightarrow> 'b decider_codec
    \<Rightarrow> ('b, 'w) storage \<Rightarrow> int option \<Rightarrow> decider_policy \<Rightarrow> ('w \<times> 'm) applicator" where
  "observed_create_decider ob render message codec S sid policy =
     observable_applicator ob render message ''decider'' (create_decider codec S sid policy)"

section \<open>Commit services\<close>

definition COMMIT_COMPONENT :: string where "COMMIT_COMPONENT = ''commit_service''"

fun commit_error_code :: "commit_error \<Rightarrow> string" where
  "commit_error_code CommitBusDataLoss = ''CommitBusDataLoss''"
| "commit_error_code CommitInvalidArgument = ''CommitInvalidArgument''"
| "commit_error_code CommitConcurrency = ''CommitConcurrency''"
| "commit_error_code CommitTimeout = ''CommitTimeout''"
| "commit_error_code CommitUnavailable = ''CommitUnavailable''"
| "commit_error_code CommitInternal = ''CommitInternal''"
| "commit_error_code CommitPanicked = []"

definition commit_base_row :: "string \<Rightarrow> nat \<Rightarrow> log_row" where
  "commit_base_row bus_id elapsed =
     add_string_field ''resource_id'' bus_id (add_string_field ''component'' COMMIT_COMPONENT
       (row_latency_ms (latency_millis elapsed) (row_api_call_name ''commit_intention'' log_row_default)))"

definition observable_commit_intention :: "('w, 'm) observability \<Rightarrow> (commit_error \<Rightarrow> string) \<Rightarrow> 'w commit_svc \<Rightarrow> commit_intention_command
    \<Rightarrow> 'w \<times> 'm \<Rightarrow> ((commit_error + commit_intention_outcome) \<times> 'w \<times> 'm) option" where
  "observable_commit_intention ob message svc request =
     observed_option ob (count_call ob ''commit_intention.commit_service.num_calls'') (panics_with CommitPanicked)
       (\<lambda>result elapsed k.
          let k1 = measure_value ob ''commit_intention.commit_service.latency_us'' (latency_micros elapsed) k;
              k2 = count_error ob ''commit_intention.commit_service.num_errors'' result k1;
              row = add_result_status commit_error_code message result (commit_base_row (ci_bus_id request) elapsed);
              row' = (case result of
                  Inr out \<Rightarrow> add_i64_field ''position'' (co_log_position out) (add_string_field ''reason'' (co_reason out)
                      (add_i64_field ''approved'' (if co_approved out then 1 else 0) row))
                | Inl _ \<Rightarrow> row)
          in ob_logger ob row' k2)
       (svc_commit_intention svc request)"

text \<open>The bus and \<open>create_bus\<close> of the wrapped service are handed out as they are; the sinks stand beside them.\<close>
definition beside :: "('w, 'e, 'a) eff \<Rightarrow> ('w \<times> 'm, 'e, 'a) eff" where
  "beside = on_world"

definition bus_beside :: "'w agent_bus \<Rightarrow> ('w \<times> 'm) agent_bus" where
  "bus_beside B = \<lparr>bus_append = beside \<circ> bus_append B, bus_poll = beside \<circ> bus_poll B, bus_read_next = beside \<circ> bus_read_next B,
     bus_check_tail = beside \<circ> bus_check_tail B\<rparr>"

definition observable_commit_svc :: "('w, 'm) observability \<Rightarrow> (commit_error \<Rightarrow> string) \<Rightarrow> 'w commit_svc \<Rightarrow> ('w \<times> 'm) commit_svc" where
  "observable_commit_svc ob message svc = \<lparr>svc_agent_bus = bus_beside (svc_agent_bus svc),
     svc_create_bus = beside \<circ> svc_create_bus svc, svc_commit_intention = observable_commit_intention ob message svc\<rparr>"

section \<open>Erasing the sinks\<close>

lemma erases_observed:
  assumes "clock_reads (ob_environment ob)"
  shows "erases (observed ob begins panics report operation) operation"
  by (rule erasesI) (rule observed_erases[OF assms])

lemma erases_beside: "erases (beside m) m"
  by (simp add: erases_def beside_def on_world_def split: prod.split)

lemmas observable_defs = observable_space_def observable_space_write_def observable_space_read_def observable_space_tail_def
  observable_storage_def observable_get_def observable_put_def observable_applicator_def observable_commit_svc_def
  observable_commit_intention_def

lemma bus_erases_beside: "bus_erases (bus_beside B) B"
  by (simp add: bus_erases_def bus_beside_def erases_beside)

context commit_provider
begin

lemma erased_commit:
  assumes "erases_option m' (svc_commit_intention svc req)" "m' (w, k) = Some (r, w', k')"
  shows "svc_commit_intention svc req w = Some (r, w')"
proof -
  have "map_option (\<lambda>(r, w', k'). (r, w')) (m' (w, k)) = svc_commit_intention svc req w"
    using assms(1) by (simp add: erases_option_def)
  then show ?thesis using assms(2) by simp
qed

lemma erased_provider:
  assumes "\<And>req. erases_option (svc_commit_intention svc' req) (svc_commit_intention svc req)"
    and "\<And>req. erases (svc_create_bus svc' req) (svc_create_bus svc req)"
    and "bus_erases (svc_agent_bus svc') (svc_agent_bus svc)"
  shows "commit_provider svc' (log \<circ> fst) (good \<circ> fst)"
proof (unfold_locales, goal_cases)
  case (1 s req r s')
  then show ?case using erased_commit[OF assms(1)] commit_good by (cases s; cases s') fastforce
next
  case (2 s creq)
  then show ?case using assms(2)[of creq] create_good by (cases s) (auto simp: erases_def)
next
  case (3 s areq)
  then show ?case using assms(3) append_good by (cases s) (auto simp: bus_erases_def erases_def)
next
  case (4 s b i out s')
  then show ?case using erased_commit[OF assms(1)] commit_law by (cases s; cases s') fastforce
qed

lemma observed_provider:
  assumes "clock_reads (ob_environment ob)"
  shows "commit_provider (observable_commit_svc ob message svc) (log \<circ> fst) (good \<circ> fst)"
  by (rule erased_provider)
    (simp_all add: observable_commit_svc_def observable_commit_intention_def erases_option_def observed_option_erases[OF assms]
      erases_beside bus_erases_beside)

end

interpretation observed_sim_service: commit_provider
  "observable_commit_svc (recording (sim_environment bo)) message (node_service (sim_node evaluate desired))"
  "mem_log \<circ> fst" "node_good (sim_node evaluate desired) \<circ> fst" for bo message evaluate desired
  by (rule sim_service.observed_provider) simp

section \<open>Properties\<close>

text \<open>
  A lost compare-and-swap is not an error: its row says success, carries no error code and records that nothing
  was applied; it counts as a rejection and not as an error.
\<close>
theorem cas_rejection_reported:
  assumes "observable_put (recording env) message size_of S key value expected version (w, k) = (Inr False, w', k')"
  shows "(\<exists>row. sk_rows k' = sk_rows k @ [row] \<and> lr_error_code row = None \<and> (''success'', LfI64 1) \<in> set (lr_additional_fields row) \<and>
       (''response_context'', LfStringVector [''applied:0'']) \<in> set (lr_additional_fields row)) \<and>
    counter_value k' ''put.storage.num_cas_rejections'' = wrap_i64 (counter_value k ''put.storage.num_cas_rejections'' + 1) \<and>
    counter_value k' ''put.storage.num_errors'' = counter_value k ''put.storage.num_errors''"
proof -
  have "show_int 0 = ''0''" by code_simp
  then show ?thesis using assms unfolding observable_put_def
    by (auto simp: add_put_result_def storage_detail_def storage_base_row_def in_memory_logger_def counter_value_def row_defs Let_def
        elim!: observedD)
qed

definition contended_store :: "unit eng_world" where
  "contended_store = \<lparr>mw_buses = Map.empty, mw_elapsed = 0, mw_noise = [], ew_data = [''k'' \<mapsto> ((), 3)]\<rparr>"

theorem cas_rejection_reported_witness:
  "\<exists>w' k'. observable_put (recording (sim_environment (\<lambda>n w. (n, w)))) (\<lambda>_. []) (\<lambda>_. 0) in_memory_storage ''k'' () (Some 2) 4
      (contended_store, empty_sinks) = (Inr False, w', k') \<and> counter_value k' ''put.storage.num_cas_rejections'' = 1"
proof -
  let ?run = "observable_put (recording (sim_environment (\<lambda>n w. (n, w)))) (\<lambda>_. []) (\<lambda>_. 0) in_memory_storage ''k'' () (Some 2) 4
      (contended_store, empty_sinks)"
  have "fst ?run = Inr False" by code_simp
  then have run: "?run = (Inr False, fst (snd ?run), snd (snd ?run))" by (metis prod.collapse)
  have "counter_value empty_sinks ''put.storage.num_cas_rejections'' = 0" by (simp add: counter_value_def empty_sinks_def)
  moreover have "wrap_i64 1 = 1" by simp
  ultimately show ?thesis using run cas_rejection_reported[OF run] by (metis add_0)
qed

end
