(* ===== verification/Channels.thy ===== *)
theory Channels
  imports Commit_Svc Write_Once_Bus
begin

text \<open>
  Frontends that hand calls to a worker over a channel: \<open>bus/core/src/channeled_agentbus.rs\<close>,
  \<open>logact/commit_service/core/src/channeled.rs\<close> and \<open>bus/impls/writeonce/src/channeled_write_once_space.rs\<close>.  The
  first two start a task per call, so a call is the wrapped call, or an error when the worker or the task is gone.
  The third serves one message at a time, and is a state machine over its queue.
\<close>

section \<open>A call handed to a worker\<close>

text \<open>
  \<open>alive\<close> says whether the worker still receives.  The reply of a task that panics is dropped, which its caller sees
  as a worker that terminated.
\<close>
definition worker_call :: "('w \<Rightarrow> bool) \<Rightarrow> 'e \<Rightarrow> 'e \<Rightarrow> ('w, 'e, 'a) eff \<Rightarrow> ('w, 'e, 'a) eff" where
  "worker_call alive terminated panic m w =
     (if \<not> alive w then (Inl terminated, w)
      else (case m w of
              (Inl e, w') \<Rightarrow> (Inl (if e = panic then terminated else e), w')
            | (Inr a, w') \<Rightarrow> (Inr a, w')))"

definition channeled_bus :: "('w \<Rightarrow> bool) \<Rightarrow> 'w agent_bus \<Rightarrow> 'w agent_bus" where
  "channeled_bus alive B =
     \<lparr>bus_append = (\<lambda>req. worker_call alive Internal Panicked (bus_append B req)),
      bus_poll = (\<lambda>req. worker_call alive Internal Panicked (bus_poll B req)),
      bus_read_next = (\<lambda>req. worker_call alive Internal Panicked (bus_read_next B req)),
      bus_check_tail = (\<lambda>bid. worker_call alive Internal Panicked (bus_check_tail B bid))\<rparr>"

definition map_result_err :: "('e \<Rightarrow> 'f) \<Rightarrow> 'e + 'a \<Rightarrow> 'f + 'a" where
  "map_result_err g r = (case r of Inl e \<Rightarrow> Inl (g e) | Inr a \<Rightarrow> Inr a)"

definition channeled_blocking_poll :: "('w \<Rightarrow> bool) \<Rightarrow> (blocking_poll_request \<Rightarrow> 'w \<Rightarrow> ((bus_error + blocking_poll_response) \<times> 'w) option)
    \<Rightarrow> blocking_poll_request \<Rightarrow> 'w \<Rightarrow> ((bus_error + blocking_poll_response) \<times> 'w) option" where
  "channeled_blocking_poll alive poll request w =
     (if \<not> alive w then Some (Inl Internal, w)
      else map_option (\<lambda>(r, w'). (map_result_err (\<lambda>e. if e = Panicked then Internal else e) r, w')) (poll request w))"

definition worker_terminated :: commit_error where
  "worker_terminated = CommitUnavailable"

definition channeled_create_bus :: "('w \<Rightarrow> bool) \<Rightarrow> 'w commit_svc \<Rightarrow> create_bus_command \<Rightarrow> ('w, commit_error, unit) eff" where
  "channeled_create_bus alive svc request = worker_call alive worker_terminated CommitPanicked (svc_create_bus svc request)"

definition channeled_commit_intention :: "('w \<Rightarrow> bool) \<Rightarrow> 'w commit_svc \<Rightarrow> commit_intention_command \<Rightarrow> 'w
    \<Rightarrow> ((commit_error + commit_intention_outcome) \<times> 'w) option" where
  "channeled_commit_intention alive svc request w =
     (if \<not> alive w then Some (Inl worker_terminated, w)
      else map_option (\<lambda>(r, w'). (map_result_err (\<lambda>e. if e = CommitPanicked then worker_terminated else e) r, w'))
             (svc_commit_intention svc request w))"

text \<open>\<open>ChanneledCommitService\<close> exposes the bus it was given.\<close>
definition channeled_commit_svc :: "('w \<Rightarrow> bool) \<Rightarrow> 'w agent_bus \<Rightarrow> 'w commit_svc \<Rightarrow> 'w commit_svc" where
  "channeled_commit_svc alive bus svc = \<lparr>svc_agent_bus = bus, svc_create_bus = channeled_create_bus alive svc,
     svc_commit_intention = channeled_commit_intention alive svc\<rparr>"

section \<open>Weakening an operation\<close>

text \<open>
  A call weakens another when each of its runs either fails without touching the world, or changes the world as the
  other does and answers with the same value or some error: what a client may rely on over a channel or a network.
\<close>
definition weaker_run :: "'w \<Rightarrow> ('f + 'a) \<times> 'w \<Rightarrow> ('e + 'a) \<times> 'w \<Rightarrow> bool" where
  "weaker_run w out' out \<longleftrightarrow> (case out' of
     (Inl e, w') \<Rightarrow> w' = w \<or> w' = snd out
   | (Inr a, w') \<Rightarrow> out = (Inr a, w'))"

definition weakens :: "('w, 'f, 'a) eff \<Rightarrow> ('w, 'e, 'a) eff \<Rightarrow> bool" where
  "weakens m' m \<longleftrightarrow> (\<forall>w. weaker_run w (m' w) (m w))"

lemma weakens_refl [simp]: "weakens m m"
  by (simp add: weakens_def weaker_run_def split: prod.split sum.split)

lemma weaker_run_trans: "weaker_run w x y \<Longrightarrow> weaker_run w y z \<Longrightarrow> weaker_run w x z"
  by (cases x; cases y; cases z) (auto simp: weaker_run_def split: sum.splits)

lemma weakens_trans: "weakens m2 m1 \<Longrightarrow> weakens m1 m \<Longrightarrow> weakens m2 m"
  unfolding weakens_def by (blast intro: weaker_run_trans)

lemma weakens_map_err: "weakens m' m \<Longrightarrow> weakens (map_errE g m') m"
  unfolding weakens_def map_errE_def by (fastforce simp: weaker_run_def split: prod.splits sum.splits)

lemma weakens_worker: "weakens (worker_call alive terminated panic m) m"
  by (auto simp: weakens_def weaker_run_def worker_call_def split: prod.split sum.split)

lemma weakensD: "weakens m' m \<Longrightarrow> m' w = (Inr a, w') \<Longrightarrow> m w = (Inr a, w')"
  unfolding weakens_def weaker_run_def by (metis (mono_tags, lifting) case_prod_conv sum.case(2))

lemma weakens_world: "weakens m' m \<Longrightarrow> snd (m' w) = w \<or> snd (m' w) = snd (m w)"
  unfolding weakens_def weaker_run_def by (drule spec[of _ w]) (cases "m' w"; cases "fst (m' w)"; auto)

lemma weakens_moves: "weakens m' m \<Longrightarrow> moves R m \<Longrightarrow> (\<And>w. R w w) \<Longrightarrow> moves R m'"
  unfolding moves_def using weakens_world by metis

definition bus_weakens :: "'w agent_bus \<Rightarrow> 'w agent_bus \<Rightarrow> bool" where
  "bus_weakens B' B \<longleftrightarrow> (\<forall>req. weakens (bus_append B' req) (bus_append B req)) \<and> (\<forall>req. weakens (bus_poll B' req) (bus_poll B req)) \<and>
     (\<forall>req. weakens (bus_read_next B' req) (bus_read_next B req)) \<and> (\<forall>bid. weakens (bus_check_tail B' bid) (bus_check_tail B bid))"

lemma channeled_bus_weakens: "bus_weakens (channeled_bus alive B) B"
  by (simp add: bus_weakens_def channeled_bus_def weakens_worker)

locale weakened_bus = log_bus B log inv evolves
  for B :: "'w agent_bus" and log inv evolves +
  fixes B' :: "'w agent_bus"
  assumes weaker: "bus_weakens B' B"
begin

lemma weaker_call:
  shows "bus_append B' req1 w = (Inr r1, w') \<Longrightarrow> bus_append B req1 w = (Inr r1, w')"
    and "bus_read_next B' req2 w = (Inr r2, w') \<Longrightarrow> bus_read_next B req2 w = (Inr r2, w')"
    and "bus_check_tail B' bid w = (Inr r3, w') \<Longrightarrow> bus_check_tail B bid w = (Inr r3, w')"
  using weaker unfolding bus_weakens_def by (blast intro: weakensD)+

end

sublocale weakened_bus \<subseteq> weaker: log_bus B' log inv evolves
proof (unfold_locales, goal_cases)
  case (1 w)
  show ?case by (rule evolves_refl)
next
  case (2 w w1 w2)
  then show ?case by (rule evolves_trans)
next
  case (3 w w1)
  then show ?case by (rule evolves_inv)
next
  case (4 w w1 b)
  then show ?case by (rule evolves_log)
next
  case (5 w b)
  then show ?case by (rule log_numbered)
next
  case (6 req)
  show ?case using weaker append_evolves evolves_refl unfolding bus_weakens_def by (blast intro: weakens_moves)
next
  case (7 w b p pos w')
  then show ?case using append_law weaker_call(1) by blast
next
  case (8 bid)
  show ?case using weaker tail_evolves evolves_refl unfolding bus_weakens_def by (blast intro: weakens_moves)
next
  case (9 w b t w')
  then show ?case using tail_law weaker_call(3) by blast
next
  case (10 req2)
  show ?case using weaker read_evolves evolves_refl unfolding bus_weakens_def by (blast intro: weakens_moves)
next
  case (11 w req2 b resp w')
  from read_law[OF 11(1-5) weaker_call(2)[OF 11(6)]] show ?case .
qed

interpretation channeled_sim_bus: weakened_bus "memory_bus \<lparr>mb_environment = sim_environment bo, mb_ttl = ttl\<rparr>"
  mem_log mem_inv mem_evolves "channeled_bus alive (memory_bus \<lparr>mb_environment = sim_environment bo, mb_ttl = ttl\<rparr>)"
  for bo ttl alive
  by unfold_locales (rule channeled_bus_weakens)

section \<open>Weakening a commit service\<close>

definition weakens_option :: "('w \<Rightarrow> (('f + 'a) \<times> 'w) option) \<Rightarrow> ('w \<Rightarrow> (('e + 'a) \<times> 'w) option) \<Rightarrow> bool" where
  "weakens_option m' m \<longleftrightarrow> (\<forall>w out'. m' w = Some out' \<longrightarrow>
     (\<exists>e. out' = (Inl e, w)) \<or> (\<exists>out. m w = Some out \<and> weaker_run w out' out))"

definition commit_weakens :: "'w commit_svc \<Rightarrow> 'w commit_svc \<Rightarrow> bool" where
  "commit_weakens svc' svc \<longleftrightarrow> bus_weakens (svc_agent_bus svc') (svc_agent_bus svc) \<and>
     (\<forall>req. weakens (svc_create_bus svc' req) (svc_create_bus svc req)) \<and>
     (\<forall>req. weakens_option (svc_commit_intention svc' req) (svc_commit_intention svc req))"

lemma weakens_optionD:
  assumes "weakens_option m' m" "m' w = Some (r, w')"
  shows "w' = w \<or> (\<exists>r'. m w = Some (r', w'))" "r = Inr a \<Longrightarrow> m w = Some (Inr a, w')"
proof -
  from assms have "(\<exists>e. (r, w') = (Inl e, w)) \<or> (\<exists>out. m w = Some out \<and> weaker_run w (r, w') out)"
    unfolding weakens_option_def by blast
  then show "w' = w \<or> (\<exists>r'. m w = Some (r', w'))" "r = Inr a \<Longrightarrow> m w = Some (Inr a, w')"
    by (cases r; fastforce simp: weaker_run_def)+
qed

context commit_provider
begin

lemma weakened_provider:
  assumes "commit_weakens svc' svc"
  shows "commit_provider svc' log good"
proof (unfold_locales, goal_cases)
  case (1 w req r w')
  then show ?case using assms commit_good weakens_optionD(1) unfolding commit_weakens_def by metis
next
  case (2 w creq)
  then show ?case using assms create_good weakens_world unfolding commit_weakens_def by metis
next
  case (3 w areq)
  then show ?case using assms append_good weakens_world unfolding commit_weakens_def bus_weakens_def by metis
next
  case (4 w b i out w')
  then show ?case using assms commit_law weakens_optionD(2) unfolding commit_weakens_def by metis
qed

end

lemma weaker_run_err: "weaker_run w (map_result_err g r, w') (r, w')"
  by (simp add: weaker_run_def map_result_err_def split: sum.split)

lemma weakens_option_err: "weakens_option m' m \<Longrightarrow> weakens_option (\<lambda>w. map_option (\<lambda>(r, w'). (map_result_err g r, w')) (m' w)) m"
  unfolding weakens_option_def by (fastforce simp: weaker_run_def map_result_err_def split: sum.splits prod.splits)

lemma weakens_option_refl [simp]: "weakens_option m m"
  unfolding weakens_option_def by (simp add: weaker_run_def split: prod.split sum.split)

lemma weakens_option_guard: "weakens_option m' m \<Longrightarrow> weakens_option (\<lambda>w. if c w then Some (Inl (e w), w) else m' w) m"
  by (simp add: weakens_option_def)

lemma weakens_channeled_commit: "weakens_option (channeled_commit_intention alive svc req) (svc_commit_intention svc req)"
  unfolding channeled_commit_intention_def by (intro weakens_option_guard weakens_option_err weakens_option_refl)

lemma channeled_commit_weakens: "bus_weakens bus (svc_agent_bus svc) \<Longrightarrow> commit_weakens (channeled_commit_svc alive bus svc) svc"
  by (auto simp: commit_weakens_def channeled_commit_svc_def channeled_create_bus_def weakens_worker weakens_channeled_commit)

interpretation channeled_sim_service: commit_provider
  "channeled_commit_svc alive (svc_agent_bus (node_service (sim_node evaluate desired))) (node_service (sim_node evaluate desired))"
  mem_log "node_good (sim_node evaluate desired)" for alive evaluate desired
  by (rule sim_service.weakened_provider) (simp add: channeled_commit_weakens bus_weakens_def)

section \<open>The channeled write-once space\<close>

datatype 'v space_message = MsgWrite string nat 'v | MsgRead string nat | MsgTail string nat

datatype 'v space_reply = WriteReply "write_once_error + unit" | ReadReply "write_once_error + 'v option" | TailReply "tail_error + nat"

text \<open>One round of the backend's loop, without the delivery of the reply.\<close>
fun serve_message :: "('v, 'w) write_once_space \<Rightarrow> 'v space_message \<Rightarrow> 'w \<Rightarrow> 'v space_reply \<times> 'w" where
  "serve_message S (MsgWrite space_id address v) w = (case wo_write S space_id address v w of (r, w') \<Rightarrow> (WriteReply r, w'))"
| "serve_message S (MsgRead space_id address) w = (case wo_read S space_id address w of (r, w') \<Rightarrow> (ReadReply r, w'))"
| "serve_message S (MsgTail space_id window_size) w = (case wo_tail S space_id window_size w of (r, w') \<Rightarrow> (TailReply r, w'))"

fun reply_panics :: "'v space_reply \<Rightarrow> bool" where
  "reply_panics (WriteReply r) \<longleftrightarrow> r = Inl WoPanicked"
| "reply_panics (ReadReply r) \<longleftrightarrow> r = Inl WoPanicked"
| "reply_panics (TailReply r) = False"

text \<open>
  The state of frontends and backend: the messages in the channel with the number of their call, the replies sent,
  whether the backend still receives, and the world of the space.
\<close>
record ('v, 'w) space_channel =
  sc_queue :: "(nat \<times> 'v space_message) list"
  sc_replies :: "nat \<rightharpoonup> 'v space_reply"
  sc_open :: bool
  sc_world :: 'w

definition space_channel_new :: "'w \<Rightarrow> ('v, 'w) space_channel" where
  "space_channel_new w = \<lparr>sc_queue = [], sc_replies = Map.empty, sc_open = True, sc_world = w\<rparr>"

definition send_message :: "nat \<Rightarrow> 'v space_message \<Rightarrow> ('v, 'w) space_channel \<Rightarrow> ('v, 'w) space_channel" where
  "send_message i msg c = (if sc_open c then c\<lparr>sc_queue := sc_queue c @ [(i, msg)]\<rparr> else c)"

text \<open>A panic of the space ends the backend, and with it the messages still in the channel.\<close>
definition backend_round :: "('v, 'w) write_once_space \<Rightarrow> ('v, 'w) space_channel \<Rightarrow> ('v, 'w) space_channel" where
  "backend_round S c =
     (case sc_queue c of
        [] \<Rightarrow> c
      | (i, msg) # rest \<Rightarrow>
          (case serve_message S msg (sc_world c) of (r, w') \<Rightarrow>
             if reply_panics r then c\<lparr>sc_queue := [], sc_open := False, sc_world := w'\<rparr>
             else c\<lparr>sc_queue := rest, sc_replies := (sc_replies c)(i \<mapsto> r), sc_world := w'\<rparr>))"

text \<open>Dropping the backend closes the channel.\<close>
definition drop_backend :: "('v, 'w) space_channel \<Rightarrow> ('v, 'w) space_channel" where
  "drop_backend c = c\<lparr>sc_queue := [], sc_open := False\<rparr>"

text \<open>What the caller of call \<open>i\<close> sees: \<open>None\<close> while its message waits.\<close>
definition write_answer :: "('v, 'w) space_channel \<Rightarrow> nat \<Rightarrow> (write_once_error + unit) option" where
  "write_answer c i =
     (case sc_replies c i of
        Some (WriteReply r) \<Rightarrow> Some r
      | _ \<Rightarrow> if sc_open c then None else Some (Inl WoBackendUnavailable))"

definition read_answer :: "('v, 'w) space_channel \<Rightarrow> nat \<Rightarrow> (write_once_error + 'v option) option" where
  "read_answer c i =
     (case sc_replies c i of
        Some (ReadReply r) \<Rightarrow> Some r
      | _ \<Rightarrow> if sc_open c then None else Some (Inl WoBackendUnavailable))"

definition tail_answer :: "('v, 'w) space_channel \<Rightarrow> nat \<Rightarrow> (tail_error + nat) option" where
  "tail_answer c i =
     (case sc_replies c i of
        Some (TailReply r) \<Rightarrow> Some r
      | _ \<Rightarrow> if sc_open c then None else Some (Inl TailBackendUnavailable))"

text \<open>Any frontend may send, the backend may serve, and the backend may go away, in any order.  \<open>sent\<close> is the calls made.\<close>
inductive channel_reachable :: "('v, 'w) write_once_space \<Rightarrow> 'w \<Rightarrow> 'v space_message list \<Rightarrow> ('v, 'w) space_channel \<Rightarrow> bool"
  for S w0 where
  start: "channel_reachable S w0 [] (space_channel_new w0)"
| send: "channel_reachable S w0 sent c \<Longrightarrow> channel_reachable S w0 (sent @ [msg]) (send_message (length sent) msg c)"
| round: "channel_reachable S w0 sent c \<Longrightarrow> channel_reachable S w0 sent (backend_round S c)"
| gone: "channel_reachable S w0 sent c \<Longrightarrow> channel_reachable S w0 sent (drop_backend c)"

text \<open>The calls executed alone, one after the other.\<close>
primrec serve_all :: "('v, 'w) write_once_space \<Rightarrow> 'v space_message list \<Rightarrow> 'w \<Rightarrow> 'v space_reply list \<times> 'w" where
  "serve_all S [] w = ([], w)"
| "serve_all S (m # ms) w = (case serve_message S m w of (r, w1) \<Rightarrow> case serve_all S ms w1 of (rs, w2) \<Rightarrow> (r # rs, w2))"

lemma serve_all_snoc:
  "serve_all S (ms @ [m]) w = (case serve_all S ms w of (rs, w1) \<Rightarrow> case serve_message S m w1 of (r, w2) \<Rightarrow> (rs @ [r], w2))"
  by (induction ms arbitrary: w) (auto split: prod.splits)

lemma serve_all_length [simp]: "length (fst (serve_all S ms w)) = length ms"
  by (induction ms arbitrary: w) (simp_all add: case_prod_beta)

definition in_order :: "('v, 'w) write_once_space \<Rightarrow> 'w \<Rightarrow> 'v space_message list \<Rightarrow> nat \<Rightarrow> ('v, 'w) space_channel \<Rightarrow> bool" where
  "in_order S w0 sent n c \<longleftrightarrow> n \<le> length sent \<and> sc_world c = snd (serve_all S (take n sent) w0) \<and>
     (\<forall>i r. sc_replies c i = Some r \<longrightarrow> i < n \<and> r = fst (serve_all S (take n sent) w0) ! i) \<and>
     (sc_open c \<longrightarrow> (\<forall>i < n. sc_replies c i \<noteq> None) \<and> sc_queue c = zip [n..<length sent] (drop n sent)) \<and>
     (\<not> sc_open c \<longrightarrow> sc_queue c = [])"

lemma in_order_round:
  assumes "in_order S w0 sent n c"
  shows "\<exists>n'. in_order S w0 sent n' (backend_round S c)"
proof (cases "sc_queue c")
  case Nil
  then show ?thesis using assms by (auto simp: backend_round_def)
next
  case (Cons x rest)
  then have o: "sc_open c" "zip [n..<length sent] (drop n sent) = x # rest" using assms by (auto simp: in_order_def)
  then have n: "n < length sent" by (cases "n < length sent") auto
  have split: "[n..<length sent] = n # [Suc n..<length sent]" "drop n sent = sent ! n # drop (Suc n) sent"
    using n by (simp_all add: upt_rec Cons_nth_drop_Suc)
  then have x: "x = (n, sent ! n)" "rest = zip [Suc n..<length sent] (drop (Suc n) sent)" using o(2) by auto
  obtain r w' where serve: "serve_message S (sent ! n) (sc_world c) = (r, w')" by fastforce
  have all: "serve_all S (take (Suc n) sent) w0 = (fst (serve_all S (take n sent) w0) @ [r], w')"
    using serve assms n by (simp add: take_Suc_conv_app_nth serve_all_snoc in_order_def case_prod_beta)
  have after: "backend_round S c = (if reply_panics r then c\<lparr>sc_queue := [], sc_open := False, sc_world := w'\<rparr>
      else c\<lparr>sc_queue := rest, sc_replies := (sc_replies c)(n \<mapsto> r), sc_world := w'\<rparr>)"
    by (simp add: backend_round_def Cons x(1) serve)
  have "fst (serve_all S (take n sent) w0) ! i = fst (serve_all S (take (Suc n) sent) w0) ! i" if "i < n" for i
    using that n all by (simp add: nth_append)
  moreover have "fst (serve_all S (take (Suc n) sent) w0) ! n = r"
    using n all by (simp add: nth_append)
  ultimately have "in_order S w0 sent (Suc n) (backend_round S c)"
    using assms n o(1) all unfolding after in_order_def x(2) by (simp add: less_Suc_eq) (metis less_Suc_eq)
  then show ?thesis by blast
qed

lemma reachable_in_order: "channel_reachable S w0 sent c \<Longrightarrow> \<exists>n. in_order S w0 sent n c"
proof (induction rule: channel_reachable.induct)
  case start
  then show ?case by (auto simp: in_order_def space_channel_new_def)
next
  case (send sent c msg)
  then obtain n where "in_order S w0 sent n c" by blast
  then have "in_order S w0 (sent @ [msg]) n (send_message (length sent) msg c)"
    by (auto simp: in_order_def send_message_def zip_append)
  then show ?case by blast
next
  case (round sent c)
  then obtain n where "in_order S w0 sent n c" by blast
  then show ?case by (rule in_order_round)
next
  case (gone sent c)
  then obtain n where "in_order S w0 sent n c" by blast
  then have "in_order S w0 sent n (drop_backend c)" by (auto simp: in_order_def drop_backend_def)
  then show ?case by blast
qed

section \<open>A write is acknowledged once\<close>

definition window_positive :: "'v space_message \<Rightarrow> bool" where
  "window_positive m \<longleftrightarrow> (\<forall>s n. m = MsgTail s n \<longrightarrow> 0 < n)"

context wo_space
begin

lemma write_keeps_cells:
  assumes "sinv w" "wo_write Sp s a v w = (r, w')"
  shows "sinv w'" "cells w s' a' = Some v' \<Longrightarrow> cells w' s' a' = Some v'" "r = Inr () \<Longrightarrow> cells w s a = None \<and> cells w' s a = Some v"
proof -
  consider (same) "evolves w w'" "r \<noteq> Inr ()"
    | (wrote) w1 w2 where "evolves w w1" "cells w1 s a = None" "writes w1 s a v w2" "evolves w2 w'"
    using write_law[OF assms] by blast
  then have "sinv w' \<and> (cells w s' a' = Some v' \<longrightarrow> cells w' s' a' = Some v') \<and> (r = Inr () \<longrightarrow> cells w s a = None \<and> cells w' s a = Some v)"
  proof cases
    case same
    then show ?thesis using evolves_sinv evolves_cells assms(1) by blast
  next
    case wrote
    have i1: "sinv w1" using evolves_sinv wrote(1) assms(1) by blast
    have i2: "sinv w2" using writes_sinv wrote(2,3) i1 by blast
    have c2: "cells w2 = (cells w1)(s := (cells w1 s)(a \<mapsto> v))" by (rule writes_cells[OF wrote(3) i1])
    have "cells w s a = None" using evolves_cells[OF wrote(1) assms(1)] wrote(2) by (metis option.exhaust option.distinct(1))
    moreover have "cells w' s a = Some v" by (rule evolves_cells[OF wrote(4) i2]) (simp add: c2)
    moreover have "cells w' s' a' = Some v'" if "cells w s' a' = Some v'"
    proof -
      have "cells w1 s' a' = Some v'" by (rule evolves_cells[OF wrote(1) assms(1) that])
      then have "cells w2 s' a' = Some v'" using wrote(2) by (auto simp: c2)
      then show ?thesis by (rule evolves_cells[OF wrote(4) i2])
    qed
    ultimately show ?thesis using evolves_sinv[OF wrote(4) i2] by blast
  qed
  then show "sinv w'" "cells w s' a' = Some v' \<Longrightarrow> cells w' s' a' = Some v'" "r = Inr () \<Longrightarrow> cells w s a = None \<and> cells w' s a = Some v"
    by blast+
qed

lemma serve_keeps_cells:
  assumes "sinv w" "serve_message Sp m w = (r, w')" "window_positive m"
  shows "sinv w'" "cells w s a = Some v \<Longrightarrow> cells w' s a = Some v"
proof -
  have "sinv w' \<and> (cells w s a = Some v \<longrightarrow> cells w' s a = Some v)"
  proof (cases m)
    case (MsgWrite s1 a1 v1)
    then show ?thesis using assms write_keeps_cells(1,2)[OF assms(1)] by (auto split: prod.splits)
  next
    case (MsgRead s1 a1)
    then obtain g where "wo_read Sp s1 a1 w = (g, w')" using assms(2) by (auto split: prod.splits)
    from read_law[OF assms(1) this] have "evolves w w'" using evolves_trans by blast
    then show ?thesis using evolves_sinv evolves_cells assms(1) by blast
  next
    case (MsgTail s1 n1)
    then obtain t where t: "wo_tail Sp s1 n1 w = (t, w')" using assms(2) by (auto split: prod.splits)
    have "0 < n1" using assms(3) MsgTail by (simp add: window_positive_def)
    from tail_law[OF assms(1) this t] have "evolves w w'" by blast
    then show ?thesis using evolves_sinv evolves_cells assms(1) by blast
  qed
  then show "sinv w'" "cells w s a = Some v \<Longrightarrow> cells w' s a = Some v" by blast+
qed

lemma serve_all_taken:
  assumes "sinv w" "cells w s a = Some v" "\<forall>m \<in> set ms. window_positive m" "j < length ms"
  shows "ms ! j = MsgWrite s a v' \<Longrightarrow> fst (serve_all Sp ms w) ! j \<noteq> WriteReply (Inr ())"
    and "ms ! j = MsgRead s a \<Longrightarrow> fst (serve_all Sp ms w) ! j = ReadReply (Inr x) \<Longrightarrow> x = Some v"
proof -
  have "(ms ! j = MsgWrite s a v' \<longrightarrow> fst (serve_all Sp ms w) ! j \<noteq> WriteReply (Inr ())) \<and>
      (ms ! j = MsgRead s a \<longrightarrow> fst (serve_all Sp ms w) ! j = ReadReply (Inr x) \<longrightarrow> x = Some v)"
    using assms
  proof (induction ms arbitrary: w j)
    case (Cons m ms)
    obtain r w1 where m: "serve_message Sp m w = (r, w1)" by fastforce
    show ?case
    proof (cases j)
      case 0
      have "x = Some v" if "wo_read Sp s a w = (Inr x, w1)"
        using read_law[OF Cons.prems(1) that] evolves_cells Cons.prems(1,2) by auto
      then show ?thesis using 0 m write_keeps_cells(3)[OF Cons.prems(1)] Cons.prems(2)
        by (auto split: prod.splits)
    next
      case (Suc j')
      have "sinv w1" "cells w1 s a = Some v"
        using serve_keeps_cells[OF Cons.prems(1) m] Cons.prems(2,3) by auto
      from Cons.IH[OF this, of j'] Cons.prems(3,4) Suc show ?thesis by (simp add: m case_prod_beta)
    qed
  qed simp
  then show "ms ! j = MsgWrite s a v' \<Longrightarrow> fst (serve_all Sp ms w) ! j \<noteq> WriteReply (Inr ())"
    and "ms ! j = MsgRead s a \<Longrightarrow> fst (serve_all Sp ms w) ! j = ReadReply (Inr x) \<Longrightarrow> x = Some v" by blast+
qed

lemma serve_all_once:
  assumes "sinv w" "\<forall>m \<in> set ms. window_positive m" "i < j" "j < length ms"
    and "ms ! i = MsgWrite s a v" "fst (serve_all Sp ms w) ! i = WriteReply (Inr ())"
  shows "ms ! j = MsgWrite s a v' \<Longrightarrow> fst (serve_all Sp ms w) ! j \<noteq> WriteReply (Inr ())"
    and "ms ! j = MsgRead s a \<Longrightarrow> fst (serve_all Sp ms w) ! j = ReadReply (Inr x) \<Longrightarrow> x = Some v"
proof -
  have "(ms ! j = MsgWrite s a v' \<longrightarrow> fst (serve_all Sp ms w) ! j \<noteq> WriteReply (Inr ())) \<and>
      (ms ! j = MsgRead s a \<longrightarrow> fst (serve_all Sp ms w) ! j = ReadReply (Inr x) \<longrightarrow> x = Some v)"
    using assms
  proof (induction ms arbitrary: w i j)
    case (Cons m ms)
    obtain r w1 where m: "serve_message Sp m w = (r, w1)" by fastforce
    have w1: "sinv w1" using serve_keeps_cells(1)[OF Cons.prems(1) m] Cons.prems(2) by simp
    obtain j' where j: "j = Suc j'" using Cons.prems(3) by (cases j) auto
    show ?case
    proof (cases i)
      case 0
      then have "cells w1 s a = Some v"
        using write_keeps_cells(3)[OF Cons.prems(1)] Cons.prems(5,6) m by (auto split: prod.splits)
      from serve_all_taken[OF w1 this, of ms j'] Cons.prems(2,4) show ?thesis by (simp add: j m case_prod_beta)
    next
      case (Suc i')
      from Cons.IH[OF w1, of i' j'] Cons.prems Suc j show ?thesis by (simp add: m case_prod_beta)
    qed
  qed simp
  then show "ms ! j = MsgWrite s a v' \<Longrightarrow> fst (serve_all Sp ms w) ! j \<noteq> WriteReply (Inr ())"
    and "ms ! j = MsgRead s a \<Longrightarrow> fst (serve_all Sp ms w) ! j = ReadReply (Inr x) \<Longrightarrow> x = Some v" by blast+
qed

end


lemma in_order_answers:
  assumes "in_order S w0 sent n c"
  shows "write_answer c i = Some (Inr ()) \<Longrightarrow> i < n \<and> fst (serve_all S (take n sent) w0) ! i = WriteReply (Inr ())"
    and "read_answer c i = Some (Inr x) \<Longrightarrow> i < n \<and> fst (serve_all S (take n sent) w0) ! i = ReadReply (Inr x)"
proof -
  have "sc_replies c i = Some r \<Longrightarrow> i < n \<and> r = fst (serve_all S (take n sent) w0) ! i" for r
    using assms by (auto simp: in_order_def)
  then show "write_answer c i = Some (Inr ()) \<Longrightarrow> i < n \<and> fst (serve_all S (take n sent) w0) ! i = WriteReply (Inr ())"
    and "read_answer c i = Some (Inr x) \<Longrightarrow> i < n \<and> fst (serve_all S (take n sent) w0) ! i = ReadReply (Inr x)"
    by (force simp: write_answer_def read_answer_def split: option.splits space_reply.splits if_splits)+
qed

section \<open>Properties\<close>

text \<open>
  C36. The channeled write-once space is linearizable: whatever the frontends send, whenever the backend serves and
  whether or not it goes away, the world of the space and every reply are those of some first \<open>n\<close> calls executed
  alone, one after the other, in the order in which they were sent; while the channel is open those \<open>n\<close> calls are
  exactly the answered ones.
\<close>
theorem channel_linearizable:
  assumes "channel_reachable S w0 sent c"
  shows "\<exists>n \<le> length sent. sc_world c = snd (serve_all S (take n sent) w0) \<and>
    (\<forall>i r. sc_replies c i = Some r \<longrightarrow> i < n \<and> r = fst (serve_all S (take n sent) w0) ! i) \<and>
    (sc_open c \<longrightarrow> {i. sc_replies c i \<noteq> None} = {..<n})"
proof -
  obtain n where "in_order S w0 sent n c" using reachable_in_order[OF assms] by blast
  then show ?thesis unfolding in_order_def by (intro exI[of _ n]) auto
qed

text \<open>
  Through the channel, an address is written once: when a write is acknowledged to its caller, no later write to
  the same address is acknowledged to any frontend, and every later read that is answered returns the value written,
  even when the backend goes away in between.
\<close>
theorem channel_write_acknowledged_once:
  assumes "channel_reachable (in_memory_write_once_space \<lparr>mb_environment = env, mb_ttl = None\<rparr>) w0 sent c"
    and "\<forall>m \<in> set sent. window_positive m" "i < j" "sent ! i = MsgWrite s a v" "write_answer c i = Some (Inr ())"
  shows "(sent ! j = MsgWrite s a v' \<longrightarrow> write_answer c j \<noteq> Some (Inr ())) \<and>
    (sent ! j = MsgRead s a \<longrightarrow> read_answer c j = Some (Inr x) \<longrightarrow> x = Some v)"
proof -
  let ?S = "in_memory_write_once_space \<lparr>mb_environment = env, mb_ttl = None\<rparr>"
  obtain n where n: "in_order ?S w0 sent n c" using reachable_in_order[OF assms(1)] by blast
  note answers = in_order_answers[OF n]
  have len: "n \<le> length sent" using n by (simp add: in_order_def)
  have windows: "\<forall>m \<in> set (take n sent). window_positive m" using assms(2) by (auto dest: in_set_takeD)
  have i: "fst (serve_all ?S (take n sent) w0) ! i = WriteReply (Inr ())" using answers(1) assms(5) by blast
  have "fst (serve_all ?S (take n sent) w0) ! j \<noteq> WriteReply (Inr ())" if "sent ! j = MsgWrite s a v'" "j < n"
    by (rule sim_wo_space.serve_all_once(1)[OF TrueI windows assms(3) _ _ i])
      (use that assms(3,4) len in simp_all)
  moreover have "x = Some v" if "sent ! j = MsgRead s a" "j < n" "fst (serve_all ?S (take n sent) w0) ! j = ReadReply (Inr x)"
    by (rule sim_wo_space.serve_all_once(2)[OF TrueI windows assms(3) _ _ i _ that(3)])
      (use that assms(3,4) len in simp_all)
  ultimately show ?thesis using answers by blast
qed

definition demo_sent :: "nat space_message list" where
  "demo_sent = [MsgWrite ''s'' 0 7, MsgWrite ''s'' 0 8, MsgRead ''s'' 0]"

definition demo_channel :: "(nat, nat wo_world) space_channel" where
  "demo_channel =
     (let S = in_memory_write_once_space no_expiry;
          c2 = send_message 1 (demo_sent ! 1) (send_message 0 (demo_sent ! 0) (space_channel_new no_spaces))
      in backend_round S (send_message 2 (demo_sent ! 2) (backend_round S (backend_round S c2))))"

lemma demo_channel_reachable: "channel_reachable (in_memory_write_once_space no_expiry) no_spaces demo_sent demo_channel"
proof -
  let ?S = "in_memory_write_once_space no_expiry"
  let ?R = "channel_reachable ?S no_spaces"
  have "?R [demo_sent ! 0] (send_message 0 (demo_sent ! 0) (space_channel_new no_spaces))"
    using channel_reachable.send[OF channel_reachable.start] by fastforce
  from channel_reachable.send[OF this, of "demo_sent ! 1"]
  have "?R [demo_sent ! 0, demo_sent ! 1]
      (send_message 1 (demo_sent ! 1) (send_message 0 (demo_sent ! 0) (space_channel_new no_spaces)))" by simp
  note last = channel_reachable.round[OF channel_reachable.send[OF channel_reachable.round[OF channel_reachable.round[OF this]],
      of "demo_sent ! 2"]]
  have all: "[demo_sent ! 0, demo_sent ! 1] @ [demo_sent ! 2] = demo_sent" "length [demo_sent ! 0, demo_sent ! 1] = 2"
    by (simp_all add: demo_sent_def)
  show ?thesis using last unfolding demo_channel_def Let_def all .
qed

lemma demo_channel_answers:
  "write_answer demo_channel 0 = Some (Inr ())" "write_answer demo_channel 1 = Some (Inl (AddressAlreadyExists 0))"
  "read_answer demo_channel 2 = Some (Inr (Some 7))"
  by code_simp+

lemma channel_linearizable_witness:
  "\<exists>n \<le> length demo_sent. sc_world demo_channel = snd (serve_all (in_memory_write_once_space no_expiry) (take n demo_sent) no_spaces) \<and>
    (\<forall>i r. sc_replies demo_channel i = Some r \<longrightarrow>
       i < n \<and> r = fst (serve_all (in_memory_write_once_space no_expiry) (take n demo_sent) no_spaces) ! i) \<and>
    (sc_open demo_channel \<longrightarrow> {i. sc_replies demo_channel i \<noteq> None} = {..<n})"
  by (rule channel_linearizable[OF demo_channel_reachable])

lemma channel_write_acknowledged_once_witness:
  "read_answer demo_channel 2 = Some (Inr (Some 7)) \<and> write_answer demo_channel 1 \<noteq> Some (Inr ())"
proof -
  note once = channel_write_acknowledged_once[OF demo_channel_reachable[unfolded no_expiry_def], of 0, OF _ _ _ demo_channel_answers(1)]
  have "\<forall>m \<in> set demo_sent. window_positive m" by (simp add: demo_sent_def window_positive_def)
  from once[OF this, of 1 "''s''" 0 7 8] demo_channel_answers(3) show ?thesis by (simp add: demo_sent_def)
qed

end
