(* ===== verification/Bus_Services.thy ===== *)
theory Bus_Services
  imports Memory_Bus Applicators
begin

text \<open>
  The stand-alone services that watch a bus: the decider with its vote trackers
  (\<open>bus/core/src/decider.rs\<close>, \<open>vote_trackers.rs\<close>) and the voter loop (\<open>bus/core/src/voter.rs\<close>).
  Each service keeps its own state beside the world; a call that fails leaves the state
  changes made before the failure.  The bus's blocking poll is the operation the services are given;
  the endless \<open>run\<close> loops around one poll, with their cancellation, are not modelled.
\<close>

section \<open>Vote trackers\<close>

datatype vote_record =
    OnByDefaultTracker "bool option"
  | FirstVoterWinsTracker "bool option" "string option"
  | OffByDefaultTracker "bool option"

fun tracker_register :: "vote_record \<Rightarrow> (bool \<times> string) option \<times> vote_record" where
  "tracker_register (OnByDefaultTracker d) = (Some (True, ''ON_BY_DEFAULT policy''), OnByDefaultTracker (Some True))"
| "tracker_register (FirstVoterWinsTracker d r) = (None, FirstVoterWinsTracker d r)"
| "tracker_register (OffByDefaultTracker d) = (Some (False, ''OFF_BY_DEFAULT policy''), OffByDefaultTracker (Some False))"

definition reason_or_default :: "string option \<Rightarrow> string" where
  "reason_or_default r = (case r of Some s \<Rightarrow> s | None \<Rightarrow> ''No reason provided'')"

fun tracker_apply_vote :: "vote_record \<Rightarrow> vote \<Rightarrow> (bool \<times> string) option \<times> vote_record" where
  "tracker_apply_vote (OnByDefaultTracker d) v = (map_option (\<lambda>b. (b, ''ON_BY_DEFAULT policy'')) d, OnByDefaultTracker d)"
| "tracker_apply_vote (OffByDefaultTracker d) v = (map_option (\<lambda>b. (b, ''OFF_BY_DEFAULT policy'')) d, OffByDefaultTracker d)"
| "tracker_apply_vote (FirstVoterWinsTracker d r) v =
     (case d of
        Some b \<Rightarrow> (Some (b, reason_or_default r), FirstVoterWinsTracker d r)
      | None \<Rightarrow>
          (case abstract_vote v of
             Some (Some (BooleanVote b)) \<Rightarrow>
               (let r' = (if vote_reason v \<noteq> [] then Some (vote_reason v) else r)
                in (Some (b, reason_or_default r'), FirstVoterWinsTracker (Some b) r'))
           | _ \<Rightarrow> (None, FirstVoterWinsTracker d r)))"

definition create_vote_tracker_for_decider_policy :: "int \<Rightarrow> vote_record" where
  "create_vote_tracker_for_decider_policy policy =
     (if policy = decider_policy_as_i32 OnByDefault then OnByDefaultTracker None
      else if policy = decider_policy_as_i32 FirstBooleanWins then FirstVoterWinsTracker None None
      else if policy = decider_policy_as_i32 OffByDefault then OffByDefaultTracker None
      else FirstVoterWinsTracker None None)"

section \<open>The decider\<close>

datatype decider_error = FailedAgentBusCall | UnknownPayloadType int

record intention_state =
  its_vote_tracker :: vote_record
  its_decision_made :: bool

record decider =
  dc_agent_bus_id :: string
  dc_next_log_position :: int
  dc_current_decider_policy :: int
  dc_intention_states :: "int \<rightharpoonup> intention_state"
  dc_vote_tracker_factory :: "int \<Rightarrow> vote_record"

definition decider_new :: "string \<Rightarrow> int \<Rightarrow> (int \<Rightarrow> vote_record) \<Rightarrow> decider" where
  "decider_new agent_bus_id initial_log_position factory =
     \<lparr>dc_agent_bus_id = agent_bus_id, dc_next_log_position = initial_log_position,
      dc_current_decider_policy = decider_policy_as_i32 OnByDefault, dc_intention_states = Map.empty,
      dc_vote_tracker_factory = factory\<rparr>"

definition append_decision :: "'w agent_bus \<Rightarrow> int \<Rightarrow> bool \<Rightarrow> string \<Rightarrow> ('w \<times> decider, decider_error, unit) eff" where
  "append_decision B intention_id is_commit reason = (\<lambda>(w, d).
     case bus_append B \<lparr>ar_bus_id = Some (dc_agent_bus_id d),
            ar_payload = Some (if is_commit
              then Some (Commit \<lparr>commit_intention_id = intention_id, commit_reason = reason\<rparr>)
              else Some (Abort \<lparr>abort_intention_id = intention_id, abort_reason = reason\<rparr>))\<rparr> w of
       (Inl _, w') \<Rightarrow> (Inl FailedAgentBusCall, (w', d))
     | (Inr _, w') \<Rightarrow> (Inr (), (w', d)))"

definition process_intention :: "'w agent_bus \<Rightarrow> int \<Rightarrow> ('w \<times> decider, decider_error, unit) eff" where
  "process_intention B position = (\<lambda>(w, d).
     case tracker_register (dc_vote_tracker_factory d (dc_current_decider_policy d)) of
       (decision, tracker) \<Rightarrow>
         let d' = d\<lparr>dc_intention_states := (dc_intention_states d)(position \<mapsto>
                 \<lparr>its_vote_tracker = tracker, its_decision_made = (decision \<noteq> None)\<rparr>)\<rparr>
         in (case decision of
               Some (is_commit, reason) \<Rightarrow> append_decision B position is_commit reason (w, d')
             | None \<Rightarrow> (Inr (), (w, d'))))"

definition process_vote :: "'w agent_bus \<Rightarrow> vote \<Rightarrow> ('w \<times> decider, decider_error, unit) eff" where
  "process_vote B v = (\<lambda>(w, d).
     case dc_intention_states d (vote_intention_id v) of
       None \<Rightarrow> (Inr (), (w, d))
     | Some st \<Rightarrow>
         if its_decision_made st then (Inr (), (w, d))
         else (case tracker_apply_vote (its_vote_tracker st) v of (decision, tracker) \<Rightarrow>
                 let d' = d\<lparr>dc_intention_states := (dc_intention_states d)(vote_intention_id v \<mapsto>
                       \<lparr>its_vote_tracker = tracker, its_decision_made = (decision \<noteq> None)\<rparr>)\<rparr>
                 in (case decision of
                       Some (is_commit, reason) \<Rightarrow> append_decision B (vote_intention_id v) is_commit reason (w, d')
                     | None \<Rightarrow> (Inr (), (w, d')))))"

definition process_decider_policy :: "int \<Rightarrow> ('w \<times> decider, decider_error, unit) eff" where
  "process_decider_policy policy = modifyE (\<lambda>(w, d). (w, d\<lparr>dc_current_decider_policy := policy\<rparr>))"

definition position_or_zero :: "bus_entry \<Rightarrow> int" where
  "position_or_zero e = (case entry_header e of Some h \<Rightarrow> log_position h | None \<Rightarrow> 0)"

definition decider_process_entry :: "'w agent_bus \<Rightarrow> bus_entry \<Rightarrow> ('w \<times> decider, decider_error, unit) eff" where
  "decider_process_entry B e =
     (let position = position_or_zero e in
      bindE (case entry_payload e of
               None \<Rightarrow> ret ()
             | Some None \<Rightarrow> raise (UnknownPayloadType position)
             | Some (Some p) \<Rightarrow>
                 (case p of
                    Intention _ \<Rightarrow> process_intention B position
                  | Vote v \<Rightarrow> process_vote B v
                  | DeciderPolicy policy \<Rightarrow> process_decider_policy policy
                  | Control _ \<Rightarrow> raise (UnknownPayloadType position)
                  | _ \<Rightarrow> ret ()))
        (\<lambda>_. modifyE (\<lambda>(w, d). (w, d\<lparr>dc_next_log_position := position + 1\<rparr>))))"

definition DECIDER_PAYLOAD_TYPES :: "int list" where
  "DECIDER_PAYLOAD_TYPES = [to_proto_i32 PT_Intention, to_proto_i32 PT_Vote, to_proto_i32 PT_DeciderPolicy,
     to_proto_i32 PT_VoterPolicy, to_proto_i32 PT_Commit, to_proto_i32 PT_Abort]"

type_synonym 'w blocking_poll = "blocking_poll_request \<Rightarrow> 'w \<Rightarrow> ((bus_error + blocking_poll_response) \<times> 'w) option"

text \<open>\<open>timeout_ms\<close> is the timeout already turned into milliseconds; \<open>None\<close> is a poll that never returns.\<close>
definition poll_and_decide :: "'w agent_bus \<Rightarrow> 'w blocking_poll \<Rightarrow> int \<Rightarrow> 'w \<times> decider
    \<Rightarrow> ((decider_error + nat) \<times> 'w \<times> decider) option" where
  "poll_and_decide B poll timeout_ms = (\<lambda>(w, d).
     map_option (\<lambda>(r, w').
         case r of
           Inl _ \<Rightarrow> (Inl FailedAgentBusCall, (w', d))
         | Inr response \<Rightarrow>
             bindE (foldE (\<lambda>_. decider_process_entry B) () (bs_entries response)) (\<lambda>_.
             bindE (modifyE (\<lambda>(w, d). (w, d\<lparr>dc_next_log_position := bs_next_start_position response\<rparr>))) (\<lambda>_.
               ret (length (bs_entries response)))) (w', d))
       (poll \<lparr>bp_bus_id = Some (dc_agent_bus_id d), bp_start_log_position = dc_next_log_position d,
          bp_max_entries = 64, bp_filter = Some DECIDER_PAYLOAD_TYPES, bp_timeout_ms = timeout_ms\<rparr> w))"

section \<open>The voter loop\<close>

text \<open>A \<open>Voter\<close> implementation with its state \<open>'v\<close>.\<close>
record ('v, 'w) voter_ops =
  vo_evaluate :: "'v \<Rightarrow> string \<Rightarrow> string \<Rightarrow> 'w \<Rightarrow> (bool \<times> string) \<times> 'w"
  vo_apply_policy :: "any_message \<Rightarrow> 'v \<Rightarrow> 'v"

record 'v voter_loop =
  vl_agent_bus_id :: string
  vl_next_log_position :: int
  vl_voter :: 'v

definition vl_process_intention :: "'w agent_bus \<Rightarrow> ('v, 'w) voter_ops \<Rightarrow> int \<Rightarrow> intention
    \<Rightarrow> ('w \<times> 'v voter_loop, decider_error, unit) eff" where
  "vl_process_intention B V position i = (\<lambda>(w, l).
     case (case intention_body i of
             Some (StringIntention s) \<Rightarrow> Some s
           | Some (GroupIntention _) \<Rightarrow> None
           | None \<Rightarrow> Some []) of
       None \<Rightarrow> (Inl (UnknownPayloadType position), (w, l))
     | Some code \<Rightarrow>
         (case vo_evaluate V (vl_voter l) (vl_agent_bus_id l) code w of ((is_safe, reason), w1) \<Rightarrow>
            (case bus_append B \<lparr>ar_bus_id = Some (vl_agent_bus_id l),
                   ar_payload = Some (Some (Vote \<lparr>abstract_vote = Some (Some (BooleanVote is_safe)),
                     vote_intention_id = position, vote_voter_config = None, vote_voter_id = [],
                     vote_reason = reason\<rparr>))\<rparr> w1 of
               (Inl _, w2) \<Rightarrow> (Inl FailedAgentBusCall, (w2, l))
             | (Inr _, w2) \<Rightarrow> (Inr (), (w2, l)))))"

definition vl_process_voter_policy :: "('v, 'w) voter_ops \<Rightarrow> any_message option
    \<Rightarrow> ('w \<times> 'v voter_loop, decider_error, unit) eff" where
  "vl_process_voter_policy V config = modifyE (\<lambda>(w, l).
     (w, case config of Some any \<Rightarrow> l\<lparr>vl_voter := vo_apply_policy V any (vl_voter l)\<rparr> | None \<Rightarrow> l))"

definition vl_process_entry :: "'w agent_bus \<Rightarrow> ('v, 'w) voter_ops \<Rightarrow> bus_entry
    \<Rightarrow> ('w \<times> 'v voter_loop, decider_error, unit) eff" where
  "vl_process_entry B V e =
     (let position = position_or_zero e in
      bindE (case entry_payload e of
               None \<Rightarrow> ret ()
             | Some None \<Rightarrow> raise (UnknownPayloadType position)
             | Some (Some p) \<Rightarrow>
                 (case p of
                    Intention i \<Rightarrow> vl_process_intention B V position i
                  | VoterPolicy config \<Rightarrow> vl_process_voter_policy V config
                  | Mail _ \<Rightarrow> ret ()
                  | _ \<Rightarrow> raise (UnknownPayloadType position)))
        (\<lambda>_. modifyE (\<lambda>(w, l). (w, l\<lparr>vl_next_log_position := position + 1\<rparr>))))"

definition poll_and_vote :: "'w agent_bus \<Rightarrow> 'w blocking_poll \<Rightarrow> ('v, 'w) voter_ops \<Rightarrow> int \<Rightarrow> 'w \<times> 'v voter_loop
    \<Rightarrow> ((decider_error + nat) \<times> 'w \<times> 'v voter_loop) option" where
  "poll_and_vote B poll V timeout_ms = (\<lambda>(w, l).
     map_option (\<lambda>(r, w').
         case r of
           Inl _ \<Rightarrow> (Inl FailedAgentBusCall, (w', l))
         | Inr response \<Rightarrow>
             bindE (foldE (\<lambda>_. vl_process_entry B V) () (bs_entries response)) (\<lambda>_.
             bindE (modifyE (\<lambda>(w, l). (w, l\<lparr>vl_next_log_position := bs_next_start_position response\<rparr>))) (\<lambda>_.
               ret (length (bs_entries response)))) (w', l))
       (poll \<lparr>bp_bus_id = Some (vl_agent_bus_id l), bp_start_log_position = vl_next_log_position l,
          bp_max_entries = 1, bp_filter = Some [to_proto_i32 PT_Intention, to_proto_i32 PT_VoterPolicy],
          bp_timeout_ms = timeout_ms\<rparr> w))"

section \<open>What the decider decides\<close>

text \<open>The decisions the decider's state alone determines.\<close>
definition decide_intention :: "decider \<Rightarrow> int \<Rightarrow> decider \<times> (bool \<times> string) option" where
  "decide_intention d position =
     (case tracker_register (dc_vote_tracker_factory d (dc_current_decider_policy d)) of
        (decision, tracker) \<Rightarrow>
          (d\<lparr>dc_intention_states := (dc_intention_states d)(position \<mapsto>
               \<lparr>its_vote_tracker = tracker, its_decision_made = (decision \<noteq> None)\<rparr>)\<rparr>, decision))"

definition decide_vote :: "decider \<Rightarrow> vote \<Rightarrow> decider \<times> (bool \<times> string) option" where
  "decide_vote d v =
     (case dc_intention_states d (vote_intention_id v) of
        None \<Rightarrow> (d, None)
      | Some st \<Rightarrow>
          if its_decision_made st then (d, None)
          else (case tracker_apply_vote (its_vote_tracker st) v of (decision, tracker) \<Rightarrow>
                  (d\<lparr>dc_intention_states := (dc_intention_states d)(vote_intention_id v \<mapsto>
                       \<lparr>its_vote_tracker = tracker, its_decision_made = (decision \<noteq> None)\<rparr>)\<rparr>, decision)))"

text \<open>One entry at a position: the new state and the decision it provokes.\<close>
fun decide_entry :: "decider \<Rightarrow> int \<times> payload_kind \<Rightarrow> decider \<times> (int \<times> bool \<times> string) list" where
  "decide_entry d (pos, Intention _) =
     (case decide_intention d pos of (d', r) \<Rightarrow> (d', case r of Some x \<Rightarrow> [(pos, x)] | None \<Rightarrow> []))"
| "decide_entry d (pos, Vote v) =
     (case decide_vote d v of (d', r) \<Rightarrow> (d', case r of Some x \<Rightarrow> [(vote_intention_id v, x)] | None \<Rightarrow> []))"
| "decide_entry d (pos, DeciderPolicy p) = (d\<lparr>dc_current_decider_policy := p\<rparr>, [])"
| "decide_entry d (pos, _) = (d, [])"

fun decide_all :: "decider \<Rightarrow> (int \<times> payload_kind) list \<Rightarrow> decider \<times> (int \<times> bool \<times> string) list" where
  "decide_all d [] = (d, [])"
| "decide_all d (e # es) =
     (case decide_entry d e of (d1, out) \<Rightarrow>
        (case decide_all (d1\<lparr>dc_next_log_position := fst e + 1\<rparr>) es of (d2, outs) \<Rightarrow> (d2, out @ outs)))"

text \<open>What is known of an intention before the entry at \<open>p\<close>: nothing is tracked from \<open>p\<close> on.\<close>
definition tracks_before :: "decider \<Rightarrow> int \<Rightarrow> bool" where
  "tracks_before d p \<longleftrightarrow> (\<forall>i \<in> dom (dc_intention_states d). i < p)"

definition decided_before :: "decider \<Rightarrow> int set" where
  "decided_before d = {i. \<exists>st. dc_intention_states d i = Some st \<and> its_decision_made st}"

lemma decide_entry_effect:
  assumes "decide_entry d (pos, k) = (d', out)" "tracks_before d pos"
  shows "tracks_before (d'\<lparr>dc_next_log_position := n\<rparr>) (pos + 1)"
    and "decided_before d' = decided_before d \<union> fst ` set out"
    and "fst ` set out \<inter> decided_before d = {}" "length out \<le> 1"
    and "fst ` set out \<subseteq> dom (dc_intention_states d') "
    and "dom (dc_intention_states d') = dom (dc_intention_states d) \<union> (if \<exists>i. k = Intention i then {pos} else {})"
proof -
  have new: "dc_intention_states d pos = None" using assms(2) by (auto simp: tracks_before_def)
  have old: "dc_intention_states d i = Some st \<Longrightarrow> i < pos" for i st using assms(2) by (auto simp: tracks_before_def)
  consider (intention) i where "k = Intention i" | (vote) v where "k = Vote v" | (policy) p where "k = DeciderPolicy p"
    | (other) "d' = d" "out = []" "\<nexists>i. k = Intention i"
    using assms(1) by (cases k) auto
  then have "tracks_before d' (pos + 1) \<and> decided_before d' = decided_before d \<union> fst ` set out \<and>
    fst ` set out \<inter> decided_before d = {} \<and> length out \<le> 1 \<and> fst ` set out \<subseteq> dom (dc_intention_states d') \<and>
    dom (dc_intention_states d') = dom (dc_intention_states d) \<union> (if \<exists>i. k = Intention i then {pos} else {})"
  proof cases
    case intention
    then show ?thesis using assms(1) new
      by (auto simp: decide_intention_def tracks_before_def decided_before_def split: prod.splits option.splits if_splits
          intro: less_imp_le[OF old])
  next
    case vote
    then show ?thesis using assms(1)
      by (auto simp: decide_vote_def tracks_before_def decided_before_def split: prod.splits option.splits if_splits
          intro: less_imp_le[OF old])
  qed (use assms(1) in \<open>auto simp: tracks_before_def decided_before_def intro: less_imp_le[OF old]\<close>)
  then show "tracks_before (d'\<lparr>dc_next_log_position := n\<rparr>) (pos + 1)"
    and "decided_before d' = decided_before d \<union> fst ` set out"
    and "fst ` set out \<inter> decided_before d = {}" "length out \<le> 1"
    and "fst ` set out \<subseteq> dom (dc_intention_states d')"
    and "dom (dc_intention_states d') = dom (dc_intention_states d) \<union> (if \<exists>i. k = Intention i then {pos} else {})"
    unfolding tracks_before_def by (simp, blast+)
qed

text \<open>Over a log with increasing positions every intention is decided at most once, and only
  tracked intentions are decided.\<close>
lemma decide_all_once:
  assumes "decide_all d es = (d', outs)" "tracks_before d p" "sorted_wrt (<) (map fst es)" "\<forall>e \<in> set es. p \<le> fst e"
  shows "distinct (map fst outs) \<and> fst ` set outs \<inter> decided_before d = {} \<and>
    fst ` set outs \<subseteq> dom (dc_intention_states d) \<union> {i. \<exists>x. (i, Intention x) \<in> set es}"
  using assms
proof (induction es arbitrary: d p outs)
  case (Cons e es)
  obtain pos k where e: "e = (pos, k)" by fastforce
  obtain d1 out where step: "decide_entry d (pos, k) = (d1, out)" by fastforce
  obtain rest where rest: "decide_all (d1\<lparr>dc_next_log_position := pos + 1\<rparr>) es = (d', rest)" and outs: "outs = out @ rest"
    using Cons.prems(1) step e by (auto split: prod.splits)
  have "p \<le> pos" using Cons.prems(4) e by simp
  then have "tracks_before d pos" using Cons.prems(2) unfolding tracks_before_def by (meson order_less_le_trans)
  note eff = decide_entry_effect[OF step this]
  have db: "decided_before (d1\<lparr>dc_next_log_position := pos + 1\<rparr>) = decided_before d \<union> fst ` set out"
    using eff(2) by (simp add: decided_before_def)
  have IH: "distinct (map fst rest) \<and> fst ` set rest \<inter> (decided_before d \<union> fst ` set out) = {} \<and>
      fst ` set rest \<subseteq> dom (dc_intention_states d1) \<union> {i. \<exists>x. (i, Intention x) \<in> set es}"
  proof -
    have "sorted_wrt (<) (map fst es)" "\<forall>x \<in> set es. pos + 1 \<le> fst x" using Cons.prems(3) e by auto
    from Cons.IH[OF rest eff(1) this] show ?thesis unfolding db by simp
  qed
  have "distinct (map fst out)" using eff(4) by (cases out) auto
  then show ?case
    using IH eff(3,5,6) outs e by (auto split: if_splits)
qed (simp add: decided_before_def)

section \<open>The decider on the in-memory bus\<close>

definition decision_of :: "int \<times> bool \<times> string \<Rightarrow> payload" where
  "decision_of x = (case x of (i, c, r) \<Rightarrow>
     if c then Some (Commit \<lparr>commit_intention_id = i, commit_reason = r\<rparr>)
     else Some (Abort \<lparr>abort_intention_id = i, abort_reason = r\<rparr>))"

text \<open>The entry at \<open>pos\<close> with a payload the decider's filter lets through.\<close>
definition decider_entry :: "bus_entry \<Rightarrow> int \<times> payload_kind \<Rightarrow> bool" where
  "decider_entry e pk \<longleftrightarrow> header_position e = Some (fst pk) \<and> entry_payload e = Some (Some (snd pk)) \<and>
     (\<forall>c. snd pk \<noteq> Control c)"

lemma mem_append_ok: "valid_bus b \<Longrightarrow> is_ok (fst (mem_append mb \<lparr>ar_bus_id = Some b, ar_payload = Some p\<rparr> w))"
  by (simp add: mem_append_def state_append_ok split: prod.split)

lemma append_decision_mem:
  assumes "clock_keeps_buses (mb_environment mb)" "valid_bus (dc_agent_bus_id d)"
  obtains w' where "append_decision (memory_bus mb) i c r (w, d) = (Inr (), (w', d))"
    "map entry_payload (mem_log w' (dc_agent_bus_id d)) =
       map entry_payload (mem_log w (dc_agent_bus_id d)) @ [Some (decision_of (i, c, r))]"
proof -
  let ?req = "\<lparr>ar_bus_id = Some (dc_agent_bus_id d), ar_payload = Some (decision_of (i, c, r))\<rparr>"
  have eq: "append_decision (memory_bus mb) i c r (w, d) = (case mem_append mb ?req w of
       (Inl _, w') \<Rightarrow> (Inl FailedAgentBusCall, (w', d)) | (Inr _, w') \<Rightarrow> (Inr (), (w', d)))"
    by (simp add: append_decision_def memory_bus_def decision_of_def)
  show ?thesis
  proof (cases rule: mem_append_result[OF assms(1), of ?req w])
    case (1 e w1)
    then show ?thesis using mem_append_ok[OF assms(2), of mb "decision_of (i, c, r)" w] by simp
  next
    case (2 b q ts at w1)
    then show ?thesis using eq by (intro that[of w1]) (simp_all add: mem_log_def)
  qed
qed

lemma decide_entry_bus_id: "decide_entry d pk = (d', out) \<Longrightarrow> dc_agent_bus_id d' = dc_agent_bus_id d"
  by (cases "(d, pk)" rule: decide_entry.cases)
    (auto simp: decide_intention_def decide_vote_def split: prod.splits option.splits if_splits)

lemma decider_process_entry_mem:
  assumes "clock_keeps_buses (mb_environment mb)" "valid_bus (dc_agent_bus_id d)" "decider_entry e pk"
    and "decide_entry d pk = (d', out)"
  obtains w' where "decider_process_entry (memory_bus mb) e (w, d) = (Inr (), (w', d'\<lparr>dc_next_log_position := fst pk + 1\<rparr>))"
    "map entry_payload (mem_log w' (dc_agent_bus_id d)) =
       map entry_payload (mem_log w (dc_agent_bus_id d)) @ map (Some \<circ> decision_of) out"
proof -
  obtain pos k where pk: "pk = (pos, k)" by fastforce
  have e: "position_or_zero e = pos" "entry_payload e = Some (Some k)" "\<And>c. k \<noteq> Control c"
    using assms(3) pk by (auto simp: decider_entry_def header_position_def position_or_zero_def)
  have bid: "dc_agent_bus_id d' = dc_agent_bus_id d" using decide_entry_bus_id[OF assms(4)] .
  show ?thesis
  proof (cases out)
    case Nil
    have "decider_process_entry (memory_bus mb) e (w, d) = (Inr (), (w, d'\<lparr>dc_next_log_position := pos + 1\<rparr>))"
      using assms(4) e pk Nil
      by (cases k) (auto simp: decider_process_entry_def eff_defs process_intention_def process_vote_def
          process_decider_policy_def decide_intention_def decide_vote_def Let_def split: prod.splits option.splits if_splits)
    then show ?thesis using that[of w] Nil pk by simp
  next
    case (Cons x xs)
    obtain i c r where x: "x = (i, c, r)" by (metis surj_pair)
    have xs: "xs = []" using assms(4) pk Cons
      by (cases k) (auto simp: decide_intention_def decide_vote_def split: prod.splits option.splits if_splits)
    obtain w' where w': "append_decision (memory_bus mb) i c r (w, d') = (Inr (), (w', d'))"
      "map entry_payload (mem_log w' (dc_agent_bus_id d)) =
         map entry_payload (mem_log w (dc_agent_bus_id d)) @ [Some (decision_of (i, c, r))]"
      using append_decision_mem[OF assms(1), of d' i c r w] assms(2) bid by metis
    have "decider_process_entry (memory_bus mb) e (w, d) = (Inr (), (w', d'\<lparr>dc_next_log_position := pos + 1\<rparr>))"
      using assms(4) e pk Cons xs x w'(1)
      by (cases k) (auto simp: decider_process_entry_def eff_defs process_intention_def process_vote_def
          process_decider_policy_def decide_intention_def decide_vote_def Let_def split: prod.splits option.splits if_splits)
    then show ?thesis using that[of w'] w'(2) Cons xs x pk by simp
  qed
qed

text \<open>Processing a batch on the in-memory bus appends exactly the decisions of the specification.\<close>
lemma decider_batch_mem:
  assumes "clock_keeps_buses (mb_environment mb)" "valid_bus (dc_agent_bus_id d)" "list_all2 decider_entry es pks"
  shows "\<exists>w'. foldE (\<lambda>_. decider_process_entry (memory_bus mb)) () es (w, d) = (Inr (), (w', fst (decide_all d pks))) \<and>
    map entry_payload (mem_log w' (dc_agent_bus_id d)) =
      map entry_payload (mem_log w (dc_agent_bus_id d)) @ map (Some \<circ> decision_of) (snd (decide_all d pks))"
  using assms(3,2)
proof (induction es pks arbitrary: w d rule: list_all2_induct)
  case Nil
  then show ?case by (simp add: ret_def)
next
  case (Cons e es pk pks)
  obtain d1 out where step: "decide_entry d pk = (d1, out)" by fastforce
  obtain w1 where w1: "decider_process_entry (memory_bus mb) e (w, d) = (Inr (), (w1, d1\<lparr>dc_next_log_position := fst pk + 1\<rparr>))"
    "map entry_payload (mem_log w1 (dc_agent_bus_id d)) =
       map entry_payload (mem_log w (dc_agent_bus_id d)) @ map (Some \<circ> decision_of) out"
    using decider_process_entry_mem[OF assms(1) Cons.prems Cons.hyps(1) step] by metis
  let ?d1 = "d1\<lparr>dc_next_log_position := fst pk + 1\<rparr>"
  have bid: "dc_agent_bus_id ?d1 = dc_agent_bus_id d" using decide_entry_bus_id[OF step] by simp
  from Cons.IH[of ?d1 w1] Cons.prems bid w1 step show ?case
    by (auto simp: bindE_def split: prod.splits)
qed

section \<open>Properties\<close>

text \<open>
  A batch of entries processed by the stand-alone decider on the in-memory bus succeeds, leaves the state of
  the specification \<open>decide_all\<close>, and appends to the log exactly the specification's decisions, in order.
\<close>
theorem decider_batch_refines:
  assumes "clock_keeps_buses (mb_environment mb)" "valid_bus (dc_agent_bus_id d)" "list_all2 decider_entry es pks"
  shows "\<exists>w'. foldE (\<lambda>_. decider_process_entry (memory_bus mb)) () es (w, d) = (Inr (), (w', fst (decide_all d pks))) \<and>
    map entry_payload (mem_log w' (dc_agent_bus_id d)) =
      map entry_payload (mem_log w (dc_agent_bus_id d)) @ map (Some \<circ> decision_of) (snd (decide_all d pks))"
  using decider_batch_mem[OF assms] .

definition numbered_entry :: "int \<times> payload_kind \<Rightarrow> bus_entry" where
  "numbered_entry pk = \<lparr>entry_header = Some \<lparr>log_position = fst pk, rt_timestamp_ms = 0\<rparr>,
     entry_payload = Some (Some (snd pk))\<rparr>"

definition two_votes :: "(int \<times> payload_kind) list" where
  "two_votes = [(0, DeciderPolicy 2), (1, an_intention), (2, yes_vote 1), (3, yes_vote 1)]"

theorem decider_batch_refines_witness:
  "\<exists>w'. foldE (\<lambda>_. decider_process_entry (memory_bus \<lparr>mb_environment = sim_environment unit_backoff, mb_ttl = None\<rparr>)) ()
       (map numbered_entry two_votes) (empty_mem_world, decider_new ''bus'' 0 create_vote_tracker_for_decider_policy) =
     (Inr (), (w', fst (decide_all (decider_new ''bus'' 0 create_vote_tracker_for_decider_policy) two_votes))) \<and>
    map entry_payload (mem_log w' ''bus'') = [Some (Some (Commit \<lparr>commit_intention_id = 1, commit_reason = ''No reason provided''\<rparr>))]"
proof -
  let ?d = "decider_new ''bus'' 0 create_vote_tracker_for_decider_policy"
  have "list_all2 decider_entry (map numbered_entry two_votes) two_votes"
    by (simp add: two_votes_def numbered_entry_def decider_entry_def header_position_def an_intention_def yes_vote_def)
  moreover have "valid_bus ''bus''" by code_simp
  moreover have "snd (decide_all ?d two_votes) = [(1, True, ''No reason provided'')]" by code_simp
  moreover have "map entry_payload (mem_log empty_mem_world ''bus'') = []" by code_simp
  ultimately show ?thesis
    using decider_batch_refines[of "\<lparr>mb_environment = sim_environment unit_backoff, mb_ttl = None\<rparr>" ?d "map numbered_entry two_votes" two_votes empty_mem_world]
    by (simp add: decider_new_def decision_of_def sim_clock_keeps_buses)
qed

text \<open>
  A decider started on a log with increasing positions decides no intention twice, whatever decider
  policies, votes and duplicates the log holds, and decides only positions that hold an intention.
\<close>
theorem decider_decides_once:
  assumes "sorted_wrt (<) (map fst es)" "decide_all (decider_new b p f) es = (d', outs)" "\<forall>e \<in> set es. p \<le> fst e"
  shows "distinct (map fst outs) \<and> fst ` set outs \<subseteq> {i. \<exists>x. (i, Intention x) \<in> set es}"
  using decide_all_once[OF assms(2) _ assms(1,3)]
  by (auto simp: tracks_before_def decider_new_def)

theorem decider_decides_once_witness:
  "distinct (map fst (snd (decide_all (decider_new ''bus'' 0 create_vote_tracker_for_decider_policy) two_votes)))"
  by (rule conjunct1[OF decider_decides_once[where es = two_votes and b = "''bus''" and p = 0 and
        f = create_vote_tracker_for_decider_policy and
        d' = "fst (decide_all (decider_new ''bus'' 0 create_vote_tracker_for_decider_policy) two_votes)"]])
    (simp_all add: two_votes_def)

end
