(* ===== verification/Remote.thy ===== *)
theory Remote
  imports Channels Observability Grpc_Translation Bus_Services
begin

text \<open>
  The gRPC servers and clients: \<open>AgentBusHandler\<close> of \<open>bus/core/src/lib.rs\<close> with \<open>AgentBusClient\<close> of
  \<open>bus/core/src/client.rs\<close>, and the handler and client of \<open>logact/commit_service/grpc/src\<close>.  A \<open>Status\<close> is kept as
  its code.  The network is a parameter: for a call it may report a status before the server has seen the request, or
  lose the reply after the server ran; it runs no request twice, as a unary tonic call is not retried.
\<close>

section \<open>Statuses\<close>

text \<open>A handler's bus is a channeled one, which does not panic; \<open>OtherCode\<close> stands for what tonic would answer.\<close>
fun status_code_from_agent_bus_error :: "bus_error \<Rightarrow> grpc_code" where
  "status_code_from_agent_bus_error PositionNotFound = CodeNotFound"
| "status_code_from_agent_bus_error InvalidArgument = CodeInvalidArgument"
| "status_code_from_agent_bus_error BusTimeout = CodeDeadlineExceeded"
| "status_code_from_agent_bus_error Unavailable = CodeUnavailable"
| "status_code_from_agent_bus_error Internal = CodeInternal"
| "status_code_from_agent_bus_error Panicked = OtherCode"

fun agent_bus_error_from_status :: "grpc_code \<Rightarrow> bus_error" where
  "agent_bus_error_from_status CodeNotFound = PositionNotFound"
| "agent_bus_error_from_status CodeInvalidArgument = InvalidArgument"
| "agent_bus_error_from_status CodeDeadlineExceeded = BusTimeout"
| "agent_bus_error_from_status CodeResourceExhausted = Unavailable"
| "agent_bus_error_from_status CodeUnavailable = Unavailable"
| "agent_bus_error_from_status _ = Internal"

fun commit_status :: "commit_error \<Rightarrow> grpc_code" where
  "commit_status CommitBusDataLoss = CodeDataLoss"
| "commit_status CommitInvalidArgument = CodeInvalidArgument"
| "commit_status CommitConcurrency = CodeAborted"
| "commit_status CommitTimeout = CodeDeadlineExceeded"
| "commit_status CommitUnavailable = CodeUnavailable"
| "commit_status CommitInternal = CodeInternal"
| "commit_status CommitPanicked = OtherCode"

text \<open>The \<open>commit_error\<close> function of the client.\<close>
fun commit_error_from_status :: "grpc_code \<Rightarrow> commit_error" where
  "commit_error_from_status CodeDataLoss = CommitBusDataLoss"
| "commit_error_from_status CodeInvalidArgument = CommitInvalidArgument"
| "commit_error_from_status CodeAborted = CommitConcurrency"
| "commit_error_from_status CodeDeadlineExceeded = CommitTimeout"
| "commit_error_from_status CodeResourceExhausted = CommitUnavailable"
| "commit_error_from_status CodeUnavailable = CommitUnavailable"
| "commit_error_from_status _ = CommitInternal"

lemma bus_error_code: "agent_bus_error_from_status (status_code_from_agent_bus_error e) = (if e = Panicked then Internal else e)"
  by (cases e) auto

lemma commit_error_code: "commit_error_from_status (commit_status e) = (if e = CommitPanicked then CommitInternal else e)"
  by (cases e) auto

section \<open>A call over the network\<close>

record 'w transport =
  tr_before :: "'w \<Rightarrow> grpc_code option"
  tr_after :: "'w \<Rightarrow> grpc_code option"

definition rpc :: "'w transport \<Rightarrow> ('w, grpc_code, 'a) eff \<Rightarrow> ('w, grpc_code, 'a) eff" where
  "rpc tr handler w =
     (case tr_before tr w of
        Some code \<Rightarrow> (Inl code, w)
      | None \<Rightarrow>
          (case handler w of (r, w') \<Rightarrow>
             (case tr_after tr w' of Some code \<Rightarrow> (Inl code, w') | None \<Rightarrow> (r, w'))))"

text \<open>The same for a handler that may not return.\<close>
definition rpc_option :: "'w transport \<Rightarrow> ('w \<Rightarrow> ((grpc_code + 'a) \<times> 'w) option) \<Rightarrow> 'w \<Rightarrow> ((grpc_code + 'a) \<times> 'w) option" where
  "rpc_option tr handler w =
     (case tr_before tr w of
        Some code \<Rightarrow> Some (Inl code, w)
      | None \<Rightarrow> map_option (\<lambda>(r, w'). case tr_after tr w' of Some code \<Rightarrow> (Inl code, w') | None \<Rightarrow> (r, w')) (handler w))"

definition lossless :: "'w transport" where
  "lossless = \<lparr>tr_before = (\<lambda>_. None), tr_after = (\<lambda>_. None)\<rparr>"

section \<open>The bus over the network\<close>

definition handler_append :: "'w agent_bus \<Rightarrow> append_request \<Rightarrow> ('w, grpc_code, int) eff" where
  "handler_append B req = map_errE status_code_from_agent_bus_error (bus_append B req)"

definition handler_poll :: "'w agent_bus \<Rightarrow> poll_request \<Rightarrow> ('w, grpc_code, poll_response) eff" where
  "handler_poll B req = map_errE status_code_from_agent_bus_error (bus_poll B req)"

definition handler_read_next :: "'w agent_bus \<Rightarrow> read_next_request \<Rightarrow> ('w, grpc_code, read_next_response) eff" where
  "handler_read_next B req = map_errE status_code_from_agent_bus_error (bus_read_next B req)"

definition handler_check_tail :: "'w agent_bus \<Rightarrow> string option \<Rightarrow> ('w, grpc_code, int) eff" where
  "handler_check_tail B bid = map_errE status_code_from_agent_bus_error (bus_check_tail B bid)"

definition client_append :: "'w transport \<Rightarrow> 'w agent_bus \<Rightarrow> append_request \<Rightarrow> ('w, bus_error, int) eff" where
  "client_append tr B req w =
     (case validate_bus_id (ar_bus_id req) of
        Inl e \<Rightarrow> (Inl e, w)
      | Inr bus_id \<Rightarrow> map_errE agent_bus_error_from_status (rpc tr (handler_append B req)) w)"

definition client_poll :: "'w transport \<Rightarrow> 'w agent_bus \<Rightarrow> poll_request \<Rightarrow> ('w, bus_error, poll_response) eff" where
  "client_poll tr B req w =
     (case validate_bus_id (pr_bus_id req) of
        Inl e \<Rightarrow> (Inl e, w)
      | Inr bus_id \<Rightarrow> map_errE agent_bus_error_from_status (rpc tr (handler_poll B req)) w)"

definition client_read_next :: "'w transport \<Rightarrow> 'w agent_bus \<Rightarrow> read_next_request \<Rightarrow> ('w, bus_error, read_next_response) eff" where
  "client_read_next tr B req w =
     (case validate_bus_id (rn_bus_id req) of
        Inl e \<Rightarrow> (Inl e, w)
      | Inr bus_id \<Rightarrow> map_errE agent_bus_error_from_status (rpc tr (handler_read_next B req)) w)"

definition client_check_tail :: "'w transport \<Rightarrow> 'w agent_bus \<Rightarrow> string option \<Rightarrow> ('w, bus_error, int) eff" where
  "client_check_tail tr B bid w =
     (case validate_bus_id bid of
        Inl e \<Rightarrow> (Inl e, w)
      | Inr bus_id \<Rightarrow> map_errE agent_bus_error_from_status (rpc tr (handler_check_tail B bid)) w)"

text \<open>\<open>AgentBusClient\<close>, connected to an \<open>AgentBusHandler\<close> over \<open>B\<close>.\<close>
definition agent_bus_client :: "'w transport \<Rightarrow> 'w agent_bus \<Rightarrow> 'w agent_bus" where
  "agent_bus_client tr B = \<lparr>bus_append = client_append tr B, bus_poll = client_poll tr B,
     bus_read_next = client_read_next tr B, bus_check_tail = client_check_tail tr B\<rparr>"

definition handler_blocking_poll :: "'w blocking_poll \<Rightarrow> blocking_poll_request
    \<Rightarrow> 'w \<Rightarrow> ((grpc_code + blocking_poll_response) \<times> 'w) option" where
  "handler_blocking_poll poll req w =
     map_option (\<lambda>(r, w'). (map_result_err status_code_from_agent_bus_error r, w')) (poll req w)"

definition client_blocking_poll :: "'w transport \<Rightarrow> 'w blocking_poll \<Rightarrow> 'w blocking_poll" where
  "client_blocking_poll tr poll req w =
     (case validate_bus_id (bp_bus_id req) of
        Inl e \<Rightarrow> Some (Inl e, w)
      | Inr bus_id \<Rightarrow> map_option (\<lambda>(r, w'). (map_result_err agent_bus_error_from_status r, w'))
                       (rpc_option tr (handler_blocking_poll poll req) w))"

section \<open>The commit service over the network\<close>

definition handler_create_bus :: "'w commit_svc \<Rightarrow> create_bus_request \<Rightarrow> ('w, grpc_code, unit) eff" where
  "handler_create_bus svc request = map_errE commit_status (svc_create_bus svc (create_bus_from_proto request))"

definition handler_commit_intention :: "'w commit_svc \<Rightarrow> commit_intention_request \<Rightarrow> 'w
    \<Rightarrow> ((grpc_code + commit_intention_response) \<times> 'w) option" where
  "handler_commit_intention svc request w =
     (case commit_request_from_proto request of
        Inl code \<Rightarrow> Some (Inl code, w)
      | Inr command \<Rightarrow>
          map_option (\<lambda>(r, w'). (case r of Inl e \<Rightarrow> Inl (commit_status e) | Inr out \<Rightarrow> Inr (commit_response_to_proto out), w'))
            (svc_commit_intention svc command w))"

definition client_create_bus :: "'w transport \<Rightarrow> 'w commit_svc \<Rightarrow> create_bus_command \<Rightarrow> ('w, commit_error, unit) eff" where
  "client_create_bus tr svc command = map_errE commit_error_from_status (rpc tr (handler_create_bus svc (create_bus_to_proto command)))"

definition client_commit_intention :: "'w transport \<Rightarrow> 'w commit_svc \<Rightarrow> commit_intention_command \<Rightarrow> 'w
    \<Rightarrow> ((commit_error + commit_intention_outcome) \<times> 'w) option" where
  "client_commit_intention tr svc command w =
     map_option (\<lambda>(r, w'). (case r of Inl code \<Rightarrow> Inl (commit_error_from_status code)
                                     | Inr response \<Rightarrow> Inr (commit_response_from_proto response), w'))
       (rpc_option tr (handler_commit_intention svc (commit_request_to_proto command)) w)"

text \<open>\<open>GrpcCommitSvcClient\<close>: both clients share the channel.\<close>
definition grpc_commit_svc_client :: "'w transport \<Rightarrow> 'w agent_bus \<Rightarrow> 'w commit_svc \<Rightarrow> 'w commit_svc" where
  "grpc_commit_svc_client tr bus svc = \<lparr>svc_agent_bus = agent_bus_client tr bus,
     svc_create_bus = client_create_bus tr svc, svc_commit_intention = client_commit_intention tr svc\<rparr>"

text \<open>The server of a node: its bus and its service behind channels.\<close>
definition remote_service :: "'w transport \<Rightarrow> ('w \<Rightarrow> bool) \<Rightarrow> 'w commit_svc \<Rightarrow> 'w commit_svc" where
  "remote_service tr alive svc =
     (let bus = channeled_bus alive (svc_agent_bus svc)
      in grpc_commit_svc_client tr bus (channeled_commit_svc alive bus svc))"

section \<open>What the clients keep\<close>

lemma weakens_rpc: "weakens (map_errE g (rpc tr (map_errE f m))) m"
  unfolding weakens_def rpc_def map_errE_def by (auto simp: weaker_run_def split: prod.splits sum.splits option.splits)

lemma weakens_guard: "weakens m' m \<Longrightarrow> weakens (\<lambda>w. case v of Inl e \<Rightarrow> (Inl e, w) | Inr x \<Rightarrow> m' w) m"
  by (cases v) (auto simp: weakens_def weaker_run_def split: prod.splits)

lemma client_bus_weakens: "bus_weakens (agent_bus_client tr B) B"
  unfolding bus_weakens_def agent_bus_client_def
  by (simp add: client_append_def[abs_def] client_poll_def[abs_def] client_read_next_def[abs_def] client_check_tail_def[abs_def]
      handler_append_def handler_poll_def handler_read_next_def handler_check_tail_def weakens_guard weakens_rpc)

lemma bus_weakens_trans: "bus_weakens B2 B1 \<Longrightarrow> bus_weakens B1 B \<Longrightarrow> bus_weakens B2 B"
  unfolding bus_weakens_def by (blast intro: weakens_trans)

interpretation remote_sim_bus: weakened_bus "memory_bus \<lparr>mb_environment = sim_environment bo, mb_ttl = ttl\<rparr>"
  mem_log mem_inv mem_evolves "agent_bus_client tr (channeled_bus alive (memory_bus \<lparr>mb_environment = sim_environment bo, mb_ttl = ttl\<rparr>))"
  for bo ttl alive tr
  by unfold_locales (rule bus_weakens_trans[OF client_bus_weakens channeled_bus_weakens])

lemma request_arrives:
  obtains code where "commit_request_from_proto (commit_request_to_proto command) = Inl code"
  | "commit_request_from_proto (commit_request_to_proto command) = Inr command"
  by (cases "commit_request_from_proto (commit_request_to_proto command)")
    (auto simp: accepted_commit_request commit_request_to_proto_def)

lemma client_commit_weakens_call: "weakens_option (client_commit_intention tr svc command) (svc_commit_intention svc command)"
  unfolding weakens_option_def
proof (intro allI impI)
  fix w out'
  assume call: "client_commit_intention tr svc command w = Some out'"
  show "(\<exists>e. out' = (Inl e, w)) \<or> (\<exists>out. svc_commit_intention svc command w = Some out \<and> weaker_run w out' out)"
  proof (cases rule: request_arrives[of command])
    case 1
    then show ?thesis using call
      by (auto simp: client_commit_intention_def rpc_option_def handler_commit_intention_def split: option.splits)
  next
    case 2
    show ?thesis
    proof (cases "tr_before tr w")
      case None
      then obtain r w' where run: "svc_commit_intention svc command w = Some (r, w')"
        using call 2 by (auto simp: client_commit_intention_def rpc_option_def handler_commit_intention_def)
      then have "weaker_run w out' (r, w')"
        using call 2 None
        by (cases r; cases "tr_after tr w'")
          (auto simp: client_commit_intention_def rpc_option_def handler_commit_intention_def weaker_run_def)
      then show ?thesis using run by blast
    next
      case (Some code)
      then show ?thesis using call by (auto simp: client_commit_intention_def rpc_option_def)
    qed
  qed
qed

lemma client_commit_weakens:
  "bus_weakens bus (svc_agent_bus svc) \<Longrightarrow> commit_weakens (grpc_commit_svc_client tr bus svc) svc"
  unfolding commit_weakens_def grpc_commit_svc_client_def
  by (auto simp: client_create_bus_def handler_create_bus_def weakens_rpc client_commit_weakens_call
      intro: bus_weakens_trans[OF client_bus_weakens])

lemma weakens_option_trans: "weakens_option m2 m1 \<Longrightarrow> weakens_option m1 m \<Longrightarrow> weakens_option m2 m"
  unfolding weakens_option_def
proof (intro allI impI)
  fix w out2
  assume m2: "\<forall>w out'. m2 w = Some out' \<longrightarrow> (\<exists>e. out' = (Inl e, w)) \<or> (\<exists>out. m1 w = Some out \<and> weaker_run w out' out)"
    and m1: "\<forall>w out'. m1 w = Some out' \<longrightarrow> (\<exists>e. out' = (Inl e, w)) \<or> (\<exists>out. m w = Some out \<and> weaker_run w out' out)"
    and run: "m2 w = Some out2"
  from m2 run consider (failed) "\<exists>e. out2 = (Inl e, w)" | (ran) out1 where "m1 w = Some out1" "weaker_run w out2 out1" by blast
  then show "(\<exists>e. out2 = (Inl e, w)) \<or> (\<exists>out. m w = Some out \<and> weaker_run w out2 out)"
  proof cases
    case ran
    from m1 ran(1) consider (refused) e where "out1 = (Inl e, w)" | (served) out where "m w = Some out" "weaker_run w out1 out" by blast
    then show ?thesis
    proof cases
      case refused
      then show ?thesis using ran(2) by (cases out2) (auto simp: weaker_run_def split: sum.splits)
    next
      case served
      then show ?thesis using weaker_run_trans[OF ran(2)] by blast
    qed
  qed blast
qed

lemma commit_weakens_trans: "commit_weakens s2 s1 \<Longrightarrow> commit_weakens s1 s \<Longrightarrow> commit_weakens s2 s"
  unfolding commit_weakens_def by (blast intro: weakens_trans bus_weakens_trans weakens_option_trans)

lemma remote_weakens: "commit_weakens (remote_service tr alive svc) svc"
proof -
  let ?bus = "channeled_bus alive (svc_agent_bus svc)"
  have "commit_weakens (channeled_commit_svc alive ?bus svc) svc"
    by (rule channeled_commit_weakens[OF channeled_bus_weakens])
  moreover have "commit_weakens (grpc_commit_svc_client tr ?bus (channeled_commit_svc alive ?bus svc)) (channeled_commit_svc alive ?bus svc)"
    by (rule client_commit_weakens) (simp add: channeled_commit_svc_def bus_weakens_def)
  ultimately show ?thesis unfolding remote_service_def Let_def by (blast intro: commit_weakens_trans)
qed

context commit_provider
begin

lemmas remote_provider = weakened_provider[OF remote_weakens]

end

interpretation remote_sim_service: commit_provider "remote_service tr alive (node_service (sim_node evaluate desired))"
  mem_log "node_good (sim_node evaluate desired)" for tr alive evaluate desired
  by (rule sim_service.remote_provider)

interpretation remote_inmem_service: commit_provider "remote_service tr alive (inmem_commit_svc (inmem_new (sim_environment bo)))"
  mem_log "\<lambda>w. \<forall>b. state_ok b w" for tr alive bo
  by (rule static_provider.remote_provider)

section \<open>A network that loses nothing\<close>

lemma rpc_lossless [simp]: "rpc lossless handler = handler"
  by (auto simp: rpc_def lossless_def split: prod.split)

lemma remote_call:
  "alive w \<Longrightarrow> map_errE agent_bus_error_from_status (map_errE status_code_from_agent_bus_error (worker_call alive Internal Panicked m)) w =
     (case m w of (r, w') \<Rightarrow> (map_result_err (\<lambda>e. if e = Panicked then Internal else e) r, w'))"
  by (auto simp: map_errE_def worker_call_def map_result_err_def bus_error_code split: prod.split sum.split)

text \<open>An operation that never panics, and refuses an invalid bus id itself, is the same over the network.\<close>
definition panic_to_internal :: "('w, bus_error, 'a) eff \<Rightarrow> ('w, bus_error, 'a) eff" where
  "panic_to_internal m w = (case m w of (r, w') \<Rightarrow> (map_result_err (\<lambda>e. if e = Panicked then Internal else e) r, w'))"

lemma panic_to_internal_guard: "m w = (Inl e, w) \<Longrightarrow> validate_bus_id b = Inl e \<Longrightarrow> panic_to_internal m w = (Inl e, w)"
  by (cases b) (auto simp: panic_to_internal_def map_result_err_def split: if_splits)

definition poll_panic_to_internal :: "'w blocking_poll \<Rightarrow> 'w blocking_poll" where
  "poll_panic_to_internal poll req w =
     map_option (\<lambda>(r, w'). (map_result_err (\<lambda>e. if e = Panicked then Internal else e) r, w')) (poll req w)"

text \<open>A blocking poll that refuses an invalid bus id before anything else happens.\<close>
definition poll_checks_ids :: "'w blocking_poll \<Rightarrow> bool" where
  "poll_checks_ids poll \<longleftrightarrow> (\<forall>req w e. validate_bus_id (bp_bus_id req) = Inl e \<longrightarrow> poll req w = Some (Inl e, w))"

lemma mem_poll_checks_ids: "poll_checks_ids (mem_blocking_poll \<lparr>mb_environment = sim_environment bo, mb_ttl = ttl\<rparr>)"
  unfolding poll_checks_ids_def
proof (intro allI impI)
  fix req :: blocking_poll_request and w :: "'a mem_world_scheme" and e
  assume e: "validate_bus_id (bp_bus_id req) = Inl e"
  then have "e = InvalidArgument" by (auto simp: validate_bus_id_def split: option.splits)
  moreover have "blocking_poll_loop (memory_bus \<lparr>mb_environment = sim_environment bo, mb_ttl = ttl\<rparr>) env req i d w' = Some (Inl e, w')" for env i d w'
    using e by (subst blocking_poll_loop.simps) (simp add: memory_bus_def mem_check_tail_def)
  ultimately show "mem_blocking_poll \<lparr>mb_environment = sim_environment bo, mb_ttl = ttl\<rparr> req w = Some (Inl e, w)"
    by (simp add: mem_blocking_poll_def blocking_poll_default_def Let_def sim_environment_def clock_monotonic_time_def)
qed

text \<open>The blocking poll of the client, of the handler and of the channel, and the poll behind them.\<close>
lemma remote_blocking_poll:
  assumes "poll_checks_ids poll" "alive w"
  shows "client_blocking_poll lossless (channeled_blocking_poll alive poll) req w = poll_panic_to_internal poll req w"
proof (cases "validate_bus_id (bp_bus_id req)")
  case (Inl e)
  moreover from this have "e \<noteq> Panicked" by (auto simp: validate_bus_id_def split: option.splits)
  ultimately show ?thesis using assms(1)
    by (simp add: client_blocking_poll_def poll_panic_to_internal_def poll_checks_ids_def map_result_err_def)
next
  case (Inr b)
  then show ?thesis using assms(2)
    by (cases "poll req w") (auto simp: client_blocking_poll_def rpc_option_def lossless_def handler_blocking_poll_def channeled_blocking_poll_def
        poll_panic_to_internal_def map_result_err_def bus_error_code split: sum.split prod.split)
qed

text \<open>
  C35. Over a network that loses nothing, and while the server's worker runs, each of the five operations of the remote bus,
  the blocking poll included, is the operation of the bus behind it, with the same effect, answer and error category, except that a panic of the bus
  reaches the client as an internal error; the client's own check of the bus id changes nothing.
\<close>
theorem remote_bus_transparent:
  assumes "checks_ids_first B" "poll_checks_ids poll" "alive w"
  shows "bus_append (agent_bus_client lossless (channeled_bus alive B)) areq w = panic_to_internal (bus_append B areq) w \<and>
    bus_poll (agent_bus_client lossless (channeled_bus alive B)) preq w = panic_to_internal (bus_poll B preq) w \<and>
    bus_read_next (agent_bus_client lossless (channeled_bus alive B)) rreq w = panic_to_internal (bus_read_next B rreq) w \<and>
    bus_check_tail (agent_bus_client lossless (channeled_bus alive B)) bid w = panic_to_internal (bus_check_tail B bid) w \<and>
    client_blocking_poll lossless (channeled_blocking_poll alive poll) breq w = poll_panic_to_internal poll breq w"
proof -
  note first = assms(1)[unfolded checks_ids_first_def]
  note defs = agent_bus_client_def channeled_bus_def client_append_def client_poll_def client_read_next_def client_check_tail_def
    handler_append_def handler_poll_def handler_read_next_def handler_check_tail_def
  have "bus_append (agent_bus_client lossless (channeled_bus alive B)) areq w = panic_to_internal (bus_append B areq) w"
    using first panic_to_internal_guard[of "bus_append B areq" w]
    by (auto simp: defs remote_call[of alive w, OF assms(3)] panic_to_internal_def[of _ w, symmetric] split: sum.split)
  moreover have "bus_poll (agent_bus_client lossless (channeled_bus alive B)) preq w = panic_to_internal (bus_poll B preq) w"
    using first panic_to_internal_guard[of "bus_poll B preq" w]
    by (auto simp: defs remote_call[of alive w, OF assms(3)] panic_to_internal_def[of _ w, symmetric] split: sum.split)
  moreover have "bus_read_next (agent_bus_client lossless (channeled_bus alive B)) rreq w = panic_to_internal (bus_read_next B rreq) w"
    using first panic_to_internal_guard[of "bus_read_next B rreq" w]
    by (auto simp: defs remote_call[of alive w, OF assms(3)] panic_to_internal_def[of _ w, symmetric] split: sum.split)
  moreover have "bus_check_tail (agent_bus_client lossless (channeled_bus alive B)) bid w = panic_to_internal (bus_check_tail B bid) w"
    using first panic_to_internal_guard[of "bus_check_tail B bid" w]
    by (auto simp: defs remote_call[of alive w, OF assms(3)] panic_to_internal_def[of _ w, symmetric] split: sum.split)
  ultimately show ?thesis using remote_blocking_poll[of poll alive w, OF assms(2,3)] by blast
qed

theorem remote_bus_transparent_witness:
  "fst (bus_read_next (agent_bus_client lossless (channeled_bus (\<lambda>_. True) (memory_bus \<lparr>mb_environment = sim_environment unit_backoff, mb_ttl = None\<rparr>)))
      \<lparr>rn_bus_id = Some ''bus'', rn_start_log_position = 1, rn_end_log_position = 2, rn_max_entries = 1, rn_filter = None\<rparr>
      (empty_mem_world\<lparr>mw_buses := [''bus'' \<mapsto> []]\<rparr>)) = Inl Internal \<and>
   map_option fst (client_blocking_poll lossless (channeled_blocking_poll (\<lambda>_. True) (mem_blocking_poll \<lparr>mb_environment = sim_environment unit_backoff, mb_ttl = None\<rparr>))
      \<lparr>bp_bus_id = Some ''bus'', bp_start_log_position = 0, bp_max_entries = 1, bp_filter = None, bp_timeout_ms = 70\<rparr> (empty_mem_world\<lparr>mw_buses := [''bus'' \<mapsto> []]\<rparr>)) =
     Some (Inr \<lparr>bs_entries = [], bs_next_start_position = 0\<rparr>)"
proof -
  let ?mb = "\<lparr>mb_environment = sim_environment unit_backoff, mb_ttl = None\<rparr> :: mem_world mem_bus"
  let ?w = "empty_mem_world\<lparr>mw_buses := [''bus'' \<mapsto> []]\<rparr>"
  let ?req = "\<lparr>bp_bus_id = Some ''bus'', bp_start_log_position = 0, bp_max_entries = 1, bp_filter = None, bp_timeout_ms = 70\<rparr>"
  have "fst (panic_to_internal (bus_read_next (memory_bus ?mb) \<lparr>rn_bus_id = Some ''bus'', rn_start_log_position = 1, rn_end_log_position = 2,
      rn_max_entries = 1, rn_filter = None\<rparr>) ?w) = Inl Internal" by code_simp
  moreover have "map_option fst (poll_panic_to_internal (mem_blocking_poll ?mb) ?req ?w) = Some (Inr \<lparr>bs_entries = [], bs_next_start_position = 0\<rparr>)"
    by code_simp
  ultimately show ?thesis
    using remote_bus_transparent[OF memory_bus_checks_first mem_poll_checks_ids, of "\<lambda>_. True" ?w] by simp
qed

end
