(* ===== verification/Hooks.thy ===== *)
theory Hooks
  imports Remote Llm_Voter
begin

text \<open>
  The command line client of the commit service, \<open>logact/commit_service/cli/src\<close>: the hooks of the three agent
  harnesses (\<open>hooks.rs\<close>, \<open>claude_hooks.rs\<close>, \<open>codex_hooks.rs\<close>, \<open>muse_hooks.rs\<close>), the manual commands (\<open>manual.rs\<close>) and
  \<open>run\<close> of \<open>main.rs\<close>.  What a process reads (standard input, the \<open>USER\<close> variable), whether it can connect and write,
  and the JSON parser are parameters; a line written is kept as the value it renders.
\<close>

section \<open>Hook events\<close>

datatype event_kind = SessionStart | UserPromptSubmit | PreToolUse | PostToolUse | PostToolUseFailure | Stop | StopFailure

fun event_label :: "event_kind \<Rightarrow> string" where
  "event_label SessionStart = ''create_bus''"
| "event_label UserPromptSubmit = ''agent_input''"
| "event_label PreToolUse = ''intention''"
| "event_label PostToolUse = ''action_output''"
| "event_label PostToolUseFailure = ''action_output''"
| "event_label Stop = ''agent_output''"
| "event_label StopFailure = ''agent_output''"

datatype prepare_error = InputTimeout | InputError | UserUnset

datatype dispatch_error = CommitCallFailed commit_error | AppendCallFailed bus_error

datatype hook_run_error = HookPrepare prepare_error | HookDispatch dispatch_error | HookOutputFailed

record hook_input =
  hi_session_id :: string
  hi_subagent_id :: "string option"

record prepared_hook =
  ph_user_name :: string
  ph_session_id :: string
  ph_subagent_id :: "string option"
  ph_body :: string

record dispatch_input =
  di_agent_id :: string
  di_body :: string

datatype dispatch_outcome = Recorded | IntentionOutcome bool string

section \<open>Reading the invocation\<close>

text \<open>How the timed read of standard input ends.\<close>
datatype stdin_read = ReadBody string | ReadFailed | ReadTimedOut

text \<open>The process a hook runs in: its input, the \<open>USER\<close> variable, \<open>serde_json\<close>, and whether a line can be written.\<close>
record hook_process =
  hp_stdin :: stdin_read
  hp_user :: "string option"
  hp_parse :: "string \<Rightarrow> hook_input option"
  hp_stdout_open :: bool

fun read_within :: "stdin_read \<Rightarrow> prepare_error + string" where
  "read_within (ReadBody body) = Inr body"
| "read_within ReadFailed = Inl InputError"
| "read_within ReadTimedOut = Inl InputTimeout"

definition prepare_body :: "(string \<Rightarrow> hook_input option) \<Rightarrow> string \<Rightarrow> string \<Rightarrow> prepare_error + prepared_hook" where
  "prepare_body parse user_name body =
     (case parse body of
        None \<Rightarrow> Inl InputError
      | Some input \<Rightarrow> Inr \<lparr>ph_user_name = user_name, ph_session_id = hi_session_id input,
                          ph_subagent_id = hi_subagent_id input, ph_body = body\<rparr>)"

definition prepare :: "hook_process \<Rightarrow> prepare_error + prepared_hook" where
  "prepare hp =
     (case read_within (hp_stdin hp) of
        Inl e \<Rightarrow> Inl e
      | Inr body \<Rightarrow> (case hp_user hp of None \<Rightarrow> Inl UserUnset | Some user_name \<Rightarrow> prepare_body (hp_parse hp) user_name body))"

text \<open>\<open>filter(|value| !value.is_empty())\<close>\<close>
definition nonempty :: "string option \<Rightarrow> string option" where
  "nonempty v = (case v of Some [] \<Rightarrow> None | _ \<Rightarrow> v)"

definition agent_id_prefix :: "string option \<Rightarrow> string" where
  "agent_id_prefix agent_platform = (case nonempty agent_platform of Some platform \<Rightarrow> platform | None \<Rightarrow> ''unknown'')"

definition into_dispatch :: "prepared_hook \<Rightarrow> string \<Rightarrow> prepare_error + dispatch_input" where
  "into_dispatch p prefix_name =
     (case abi_try_new prefix_name (ph_user_name p) (ph_session_id p) (nonempty (ph_subagent_id p)) of
        None \<Rightarrow> Inl InputError
      | Some agent_id \<Rightarrow> Inr \<lparr>di_agent_id = abi_to_string agent_id, di_body = ph_body p\<rparr>)"

section \<open>Dispatch\<close>

definition agent_input_payload :: "string \<Rightarrow> payload_kind option" where
  "agent_input_payload body = Some (AgentInput (Some body))"

definition action_output_payload :: "string \<Rightarrow> payload_kind option" where
  "action_output_payload body = Some (ActionOutput \<lparr>ao_intention_id = -1, ao_string_action_output = Some body\<rparr>)"

definition agent_output_payload :: "string \<Rightarrow> payload_kind option" where
  "agent_output_payload body = Some (AgentOutput (Some body))"

definition pre_tool_use :: "'w commit_svc \<Rightarrow> string \<Rightarrow> string \<Rightarrow> 'w \<Rightarrow> ((dispatch_error + dispatch_outcome) \<times> 'w) option" where
  "pre_tool_use svc agent_id body w =
     map_option (\<lambda>(r, w'). (case r of Inl e \<Rightarrow> Inl (CommitCallFailed e)
                                     | Inr out \<Rightarrow> Inr (IntentionOutcome (co_approved out) (co_reason out)), w'))
       (svc_commit_intention svc \<lparr>ci_bus_id = agent_id, ci_intention = StringIntention body\<rparr> w)"

definition record_event :: "'w agent_bus \<Rightarrow> string \<Rightarrow> payload_kind option \<Rightarrow> ('w, dispatch_error, unit) eff" where
  "record_event B agent_id p w =
     (case bus_append B \<lparr>ar_bus_id = Some agent_id, ar_payload = Some p\<rparr> w of
        (Inl e, w') \<Rightarrow> (Inl (AppendCallFailed e), w')
      | (Inr _, w') \<Rightarrow> (Inr (), w'))"

text \<open>A step that only records, as the arms of \<open>dispatch\<close> use it.\<close>
definition recorded :: "('w, dispatch_error, unit) eff \<Rightarrow> 'w \<Rightarrow> ((dispatch_error + dispatch_outcome) \<times> 'w) option" where
  "recorded m w = (case m w of (Inl e, w') \<Rightarrow> Some (Inl e, w') | (Inr _, w') \<Rightarrow> Some (Inr Recorded, w'))"

fun dispatch :: "'w commit_svc \<Rightarrow> event_kind \<Rightarrow> dispatch_input \<Rightarrow> 'w \<Rightarrow> ((dispatch_error + dispatch_outcome) \<times> 'w) option" where
  "dispatch svc SessionStart d = recorded (map_errE CommitCallFailed (svc_create_bus svc \<lparr>cb_bus_id = di_agent_id d\<rparr>))"
| "dispatch svc UserPromptSubmit d = recorded (record_event (svc_agent_bus svc) (di_agent_id d) (agent_input_payload (di_body d)))"
| "dispatch svc PreToolUse d = pre_tool_use svc (di_agent_id d) (di_body d)"
| "dispatch svc PostToolUse d = recorded (record_event (svc_agent_bus svc) (di_agent_id d) (action_output_payload (di_body d)))"
| "dispatch svc PostToolUseFailure d = recorded (record_event (svc_agent_bus svc) (di_agent_id d) (action_output_payload (di_body d)))"
| "dispatch svc Stop d = recorded (record_event (svc_agent_bus svc) (di_agent_id d) (agent_output_payload (di_body d)))"
| "dispatch svc StopFailure d = recorded (record_event (svc_agent_bus svc) (di_agent_id d) (agent_output_payload (di_body d)))"

text \<open>\<open>enforced\<close> is what the enforcement future resolves to, \<open>None\<close> when it never does.\<close>
definition dispatch_with_enforcement :: "('w \<Rightarrow> ((dispatch_error + dispatch_outcome) \<times> 'w) option) \<Rightarrow> bool option \<Rightarrow> 'w
    \<Rightarrow> ((hook_run_error + dispatch_outcome \<times> bool) \<times> 'w) option" where
  "dispatch_with_enforcement dispatching enforced w =
     (case dispatching w of
        None \<Rightarrow> None
      | Some (Inl e, w') \<Rightarrow> Some (Inl (HookDispatch e), w')
      | Some (Inr outcome, w') \<Rightarrow> map_option (\<lambda>enf. (Inr (outcome, enf), w')) enforced)"

section \<open>The three harnesses\<close>

datatype claude_event = ClaudeSessionStart | ClaudeUserPromptSubmit | ClaudePreToolUse | ClaudePostToolUse
  | ClaudePostToolUseFailure | ClaudeStop | ClaudeStopFailure

fun claude_event_kind :: "claude_event \<Rightarrow> event_kind" where
  "claude_event_kind ClaudeSessionStart = SessionStart"
| "claude_event_kind ClaudeUserPromptSubmit = UserPromptSubmit"
| "claude_event_kind ClaudePreToolUse = PreToolUse"
| "claude_event_kind ClaudePostToolUse = PostToolUse"
| "claude_event_kind ClaudePostToolUseFailure = PostToolUseFailure"
| "claude_event_kind ClaudeStop = Stop"
| "claude_event_kind ClaudeStopFailure = StopFailure"

datatype codex_event = CodexSessionStart | CodexUserPromptSubmit | CodexPreToolUse | CodexPostToolUse | CodexStop

fun codex_event_kind :: "codex_event \<Rightarrow> event_kind" where
  "codex_event_kind CodexSessionStart = SessionStart"
| "codex_event_kind CodexUserPromptSubmit = UserPromptSubmit"
| "codex_event_kind CodexPreToolUse = PreToolUse"
| "codex_event_kind CodexPostToolUse = PostToolUse"
| "codex_event_kind CodexStop = Stop"

datatype muse_event = MuseSessionStart | MuseUserPromptSubmit | MusePreToolUse | MusePostToolUse | MuseStop

fun muse_event_kind :: "muse_event \<Rightarrow> event_kind" where
  "muse_event_kind MuseSessionStart = SessionStart"
| "muse_event_kind MuseUserPromptSubmit = UserPromptSubmit"
| "muse_event_kind MusePreToolUse = PreToolUse"
| "muse_event_kind MusePostToolUse = PostToolUse"
| "muse_event_kind MuseStop = Stop"

definition claude_is_pre_tool_use :: "claude_event \<Rightarrow> bool" where
  "claude_is_pre_tool_use event \<longleftrightarrow> event = ClaudePreToolUse"

definition codex_is_pre_tool_use :: "codex_event \<Rightarrow> bool" where
  "codex_is_pre_tool_use event \<longleftrightarrow> event = CodexPreToolUse"

definition muse_is_pre_tool_use :: "muse_event \<Rightarrow> bool" where
  "muse_is_pre_tool_use event \<longleftrightarrow> event = MusePreToolUse"

definition nonblank :: "string \<Rightarrow> string option" where
  "nonblank v = (let t = str_trim v in if t = [] then None else Some t)"

record claude_output =
  cl_suppress_output :: bool
  cl_hook_event_name :: string
  cl_permission_decision :: string
  cl_permission_decision_reason :: "string option"

definition claude_hook_output :: "dispatch_outcome \<Rightarrow> bool \<Rightarrow> claude_output option" where
  "claude_hook_output outcome enforced =
     (if \<not> enforced then None
      else (case outcome of
              Recorded \<Rightarrow> None
            | IntentionOutcome approved reason \<Rightarrow>
                if approved then None
                else Some \<lparr>cl_suppress_output = True, cl_hook_event_name = ''PreToolUse'', cl_permission_decision = ''ask'',
                  cl_permission_decision_reason = nonblank reason\<rparr>))"

record codex_output =
  cx_hook_event_name :: string
  cx_permission_decision :: string
  cx_permission_decision_reason :: string

definition codex_hook_output :: "dispatch_outcome \<Rightarrow> bool \<Rightarrow> codex_output option" where
  "codex_hook_output outcome enforced =
     (if \<not> enforced then None
      else (case outcome of
              Recorded \<Rightarrow> None
            | IntentionOutcome approved reason \<Rightarrow>
                if approved then None
                else Some \<lparr>cx_hook_event_name = ''PreToolUse'', cx_permission_decision = ''deny'',
                  cx_permission_decision_reason = (case nonblank reason of Some r \<Rightarrow> r | None \<Rightarrow> ''Blocked by AgentBus policy'')\<rparr>))"

record muse_output =
  mu_hook_event_name :: string
  mu_permission_decision :: string
  mu_permission_decision_reason :: string

definition muse_hook_output :: "dispatch_outcome \<Rightarrow> bool \<Rightarrow> muse_output option" where
  "muse_hook_output outcome enforced =
     (if \<not> enforced then None
      else (case outcome of
              Recorded \<Rightarrow> None
            | IntentionOutcome approved reason \<Rightarrow>
                if approved then None
                else Some \<lparr>mu_hook_event_name = ''PreToolUse'', mu_permission_decision = ''deny'',
                  mu_permission_decision_reason = (case nonblank reason of Some r \<Rightarrow> r | None \<Rightarrow> ''Blocked by AgentBus policy'')\<rparr>))"

text \<open>The result of a run and the lines it wrote.  The three \<open>run\<close> functions differ only in event and output types.\<close>
type_synonym ('w, 'o) hook_result = "(((hook_run_error + unit) \<times> 'o list) \<times> 'w) option"

definition hook_run :: "(dispatch_outcome \<Rightarrow> bool \<Rightarrow> 'o option) \<Rightarrow> 'w commit_svc \<Rightarrow> hook_process \<Rightarrow> event_kind \<Rightarrow> string
    \<Rightarrow> bool option \<Rightarrow> 'w \<Rightarrow> ('w, 'o) hook_result" where
  "hook_run hook_output svc hp hook_event prefix_name enforced w =
     (case prepare hp of
        Inl e \<Rightarrow> Some ((Inl (HookPrepare e), []), w)
      | Inr p \<Rightarrow>
          (case into_dispatch p prefix_name of
             Inl e \<Rightarrow> Some ((Inl (HookPrepare e), []), w)
           | Inr d \<Rightarrow>
               (case dispatch_with_enforcement (dispatch svc hook_event d) enforced w of
                  None \<Rightarrow> None
                | Some (Inl e, w') \<Rightarrow> Some ((Inl e, []), w')
                | Some (Inr (outcome, enf), w') \<Rightarrow>
                    (case hook_output outcome enf of
                       None \<Rightarrow> Some ((Inr (), []), w')
                     | Some out \<Rightarrow>
                         if hp_stdout_open hp then Some ((Inr (), [out]), w')
                         else Some ((Inl HookOutputFailed, []), w')))))"

definition claude_run :: "'w commit_svc \<Rightarrow> hook_process \<Rightarrow> claude_event \<Rightarrow> string \<Rightarrow> bool option \<Rightarrow> 'w \<Rightarrow> ('w, claude_output) hook_result" where
  "claude_run svc hp event = hook_run claude_hook_output svc hp (claude_event_kind event)"

definition codex_run :: "'w commit_svc \<Rightarrow> hook_process \<Rightarrow> codex_event \<Rightarrow> string \<Rightarrow> bool option \<Rightarrow> 'w \<Rightarrow> ('w, codex_output) hook_result" where
  "codex_run svc hp event = hook_run codex_hook_output svc hp (codex_event_kind event)"

definition muse_run :: "'w commit_svc \<Rightarrow> hook_process \<Rightarrow> muse_event \<Rightarrow> string \<Rightarrow> bool option \<Rightarrow> 'w \<Rightarrow> ('w, muse_output) hook_result" where
  "muse_run svc hp event = hook_run muse_hook_output svc hp (muse_event_kind event)"

section \<open>The manual commands and the program\<close>

datatype event_arg = ArgAgentInput string | ArgIntention string | ArgActionOutput string | ArgAgentOutput string

record commit_args =
  ca_agent_id :: string
  ca_event :: event_arg

datatype cli_line = ClaudeLine claude_output | CodexLine codex_output | MuseLine muse_output
  | CommittedLine | VerdictLine bool string

datatype cli_error = CliConnect | CliCommit commit_error | CliAppend bus_error | CliRejected | CliHook hook_run_error | CliPrintPanicked

type_synonym 'w cli_result = "(((cli_error + unit) \<times> cli_line list) \<times> 'w) option"

definition run_create_bus :: "'w commit_svc \<Rightarrow> string \<Rightarrow> 'w \<Rightarrow> 'w cli_result" where
  "run_create_bus svc bus_id w =
     (case svc_create_bus svc \<lparr>cb_bus_id = bus_id\<rparr> w of
        (Inl e, w') \<Rightarrow> Some ((Inl (CliCommit e), []), w')
      | (Inr _, w') \<Rightarrow> Some ((Inr (), []), w'))"

text \<open>\<open>println!\<close> panics when standard output is closed.\<close>
definition append_payload :: "'w agent_bus \<Rightarrow> bool \<Rightarrow> string \<Rightarrow> payload_kind option \<Rightarrow> 'w \<Rightarrow> 'w cli_result" where
  "append_payload B stdout_open agent_id p w =
     (case bus_append B \<lparr>ar_bus_id = Some agent_id, ar_payload = Some p\<rparr> w of
        (Inl e, w') \<Rightarrow> Some ((Inl (CliAppend e), []), w')
      | (Inr _, w') \<Rightarrow> if stdout_open then Some ((Inr (), [CommittedLine]), w') else Some ((Inl CliPrintPanicked, []), w'))"

definition manual_run :: "'w commit_svc \<Rightarrow> bool \<Rightarrow> commit_args \<Rightarrow> 'w \<Rightarrow> 'w cli_result" where
  "manual_run svc stdout_open args w =
     (case ca_event args of
        ArgIntention body \<Rightarrow>
          (case svc_commit_intention svc \<lparr>ci_bus_id = ca_agent_id args, ci_intention = StringIntention body\<rparr> w of
             None \<Rightarrow> None
           | Some (Inl e, w') \<Rightarrow> Some ((Inl (CliCommit e), []), w')
           | Some (Inr out, w') \<Rightarrow>
               if \<not> stdout_open then Some ((Inl CliPrintPanicked, []), w')
               else Some ((if co_approved out then Inr () else Inl CliRejected, [VerdictLine (co_approved out) (co_reason out)]), w'))
      | ArgAgentInput body \<Rightarrow> append_payload (svc_agent_bus svc) stdout_open (ca_agent_id args) (agent_input_payload body) w
      | ArgActionOutput body \<Rightarrow> append_payload (svc_agent_bus svc) stdout_open (ca_agent_id args) (action_output_payload body) w
      | ArgAgentOutput body \<Rightarrow> append_payload (svc_agent_bus svc) stdout_open (ca_agent_id args) (agent_output_payload body) w)"

datatype cli_command = CmdCreateBus string | CmdCommit commit_args
  | CmdClaudeHook claude_event | CmdCodexHook codex_event | CmdMuseHook muse_event

definition hook_lines :: "('o \<Rightarrow> cli_line) \<Rightarrow> ('w, 'o) hook_result \<Rightarrow> 'w cli_result" where
  "hook_lines line res = map_option (\<lambda>((r, os), w'). ((map_result_err CliHook r, map line os), w')) res"

definition cli_run :: "'w commit_svc \<Rightarrow> bool \<Rightarrow> hook_process \<Rightarrow> cli_command \<Rightarrow> 'w \<Rightarrow> 'w cli_result" where
  "cli_run svc connects hp cmd w =
     (if \<not> connects then Some ((Inl CliConnect, []), w)
      else (case cmd of
              CmdCreateBus bus_id \<Rightarrow> run_create_bus svc bus_id w
            | CmdCommit args \<Rightarrow> manual_run svc (hp_stdout_open hp) args w
            | CmdClaudeHook event \<Rightarrow> hook_lines ClaudeLine (claude_run svc hp event ''claude_code'' (Some True) w)
            | CmdCodexHook event \<Rightarrow> hook_lines CodexLine (codex_run svc hp event ''codex'' (Some True) w)
            | CmdMuseHook event \<Rightarrow> hook_lines MuseLine (muse_run svc hp event ''muse'' (Some True) w)))"

text \<open>The exit status \<open>main\<close> gives the process: \<open>101\<close> is Rust's for a panic.\<close>
fun exit_status :: "cli_error + unit \<Rightarrow> nat" where
  "exit_status (Inr ()) = 0"
| "exit_status (Inl CliPrintPanicked) = 101"
| "exit_status (Inl _) = 1"

section \<open>What a hook does to the log\<close>

text \<open>The event a successful run of a recording hook leaves on the bus.\<close>
fun recorded_payload :: "event_kind \<Rightarrow> string \<Rightarrow> payload_kind option option" where
  "recorded_payload UserPromptSubmit body = Some (agent_input_payload body)"
| "recorded_payload PostToolUse body = Some (action_output_payload body)"
| "recorded_payload PostToolUseFailure body = Some (action_output_payload body)"
| "recorded_payload Stop body = Some (agent_output_payload body)"
| "recorded_payload StopFailure body = Some (agent_output_payload body)"
| "recorded_payload _ body = None"

text \<open>What a run on this process works on.\<close>
definition hook_target :: "hook_process \<Rightarrow> string \<Rightarrow> dispatch_input option" where
  "hook_target hp prefix_name =
     (case prepare hp of
        Inl _ \<Rightarrow> None
      | Inr p \<Rightarrow> (case into_dispatch p prefix_name of Inl _ \<Rightarrow> None | Inr d \<Rightarrow> Some d))"

lemma hook_run_ok:
  assumes "hook_run render svc hp kind prefix_name enforced w = Some ((Inr (), lines), w')"
  obtains d outcome enf where "hook_target hp prefix_name = Some d" "dispatch svc kind d w = Some (Inr outcome, w')"
    "enforced = Some enf" "lines = (case render outcome enf of None \<Rightarrow> [] | Some out \<Rightarrow> [out])"
  using assms that
  by (fastforce simp: hook_run_def hook_target_def dispatch_with_enforcement_def split: sum.splits option.splits if_splits)

locale hooked_service = commit_provider svc log good + bus: log_bus "svc_agent_bus svc" log inv evolves
  for svc :: "'w commit_svc" and log good inv evolves +
  assumes good_inv: "good w \<Longrightarrow> inv w"
begin

lemma hook_gate_outcome:
  assumes "good w" "dispatch svc PreToolUse d w = Some (Inr outcome, w')"
  shows "\<exists>out. decided_in_log (log w' (di_agent_id d)) (StringIntention (di_body d)) out \<and>
    outcome = IntentionOutcome (co_approved out) (co_reason out)"
proof -
  obtain r where run: "svc_commit_intention svc \<lparr>ci_bus_id = di_agent_id d, ci_intention = StringIntention (di_body d)\<rparr> w = Some (r, w')"
    and r: "(case r of Inl e \<Rightarrow> Inl (CommitCallFailed e) | Inr out \<Rightarrow> Inr (IntentionOutcome (co_approved out) (co_reason out))) = Inr outcome"
    using assms(2) by (auto simp: pre_tool_use_def)
  then obtain out where "r = Inr out" "outcome = IntentionOutcome (co_approved out) (co_reason out)" by (cases r) auto
  then show ?thesis using commit_law[OF assms(1)] run by blast
qed

lemma event_recorded:
  assumes "good w" "dispatch svc kind d w = Some (Inr outcome, w')" "recorded_payload kind (di_body d) = Some p"
  shows "outcome = Recorded \<and> (\<exists>pos. int (length (log w (di_agent_id d))) \<le> int pos \<and> pos < length (log w' (di_agent_id d)) \<and>
    entry_payload (log w' (di_agent_id d) ! pos) = Some p)"
proof -
  have "recorded (record_event (svc_agent_bus svc) (di_agent_id d) p) w = Some (Inr outcome, w')"
    using assms(2,3) by (cases kind) auto
  then obtain pos where "outcome = Recorded"
    "bus_append (svc_agent_bus svc) \<lparr>ar_bus_id = Some (di_agent_id d), ar_payload = Some p\<rparr> w = (Inr pos, w')"
    by (auto simp: recorded_def record_event_def split: prod.splits sum.splits)
  then show ?thesis using bus.append_law[OF good_inv[OF assms(1)]] by (intro conjI exI[of _ "nat pos"]) fastforce+
qed

lemma hook_gate:
  assumes "good w" "hook_run render svc hp PreToolUse prefix_name (Some True) w = Some ((Inr (), lines), w')"
  shows "\<exists>d out. hook_target hp prefix_name = Some d \<and>
    decided_in_log (log w' (di_agent_id d)) (StringIntention (di_body d)) out \<and>
    lines = (case render (IntentionOutcome (co_approved out) (co_reason out)) True of None \<Rightarrow> [] | Some line \<Rightarrow> [line])"
proof -
  obtain d outcome enf where run: "hook_target hp prefix_name = Some d" "dispatch svc PreToolUse d w = Some (Inr outcome, w')"
    "Some True = Some enf" "lines = (case render outcome enf of None \<Rightarrow> [] | Some out \<Rightarrow> [out])"
    by (rule hook_run_ok[OF assms(2)]) blast
  from hook_gate_outcome[OF assms(1) run(2)] obtain out where
    "decided_in_log (log w' (di_agent_id d)) (StringIntention (di_body d)) out"
    "outcome = IntentionOutcome (co_approved out) (co_reason out)" by blast
  then show ?thesis using run by (intro exI[of _ d] exI[of _ out]) simp
qed

lemma hook_records:
  assumes "good w" "hook_run render svc hp kind prefix_name (Some True) w = Some ((Inr (), lines), w')"
    and "kind \<noteq> SessionStart" "kind \<noteq> PreToolUse" "render Recorded True = None"
  shows "\<exists>d p pos. hook_target hp prefix_name = Some d \<and> recorded_payload kind (di_body d) = Some p \<and> lines = [] \<and>
    length (log w (di_agent_id d)) \<le> pos \<and> pos < length (log w' (di_agent_id d)) \<and>
    entry_payload (log w' (di_agent_id d) ! pos) = Some p"
proof -
  obtain d outcome enf where run: "hook_target hp prefix_name = Some d" "dispatch svc kind d w = Some (Inr outcome, w')"
    "Some True = Some enf" "lines = (case render outcome enf of None \<Rightarrow> [] | Some out \<Rightarrow> [out])"
    by (rule hook_run_ok[OF assms(2)]) blast
  obtain p where p: "recorded_payload kind (di_body d) = Some p" using assms(3,4) by (cases kind) auto
  show ?thesis using event_recorded[OF assms(1) run(2) p] run p assms(5) by auto
qed

end

lemma remote_hooked: "hooked_service (remote_service tr alive (node_service (sim_node evaluate desired))) mem_log
    (node_good (sim_node evaluate desired)) mem_inv mem_evolves"
proof -
  have bus: "svc_agent_bus (remote_service tr alive (node_service (sim_node evaluate desired))) =
      agent_bus_client tr (channeled_bus alive (memory_bus \<lparr>mb_environment = sim_environment half_backoff, mb_ttl = None\<rparr>))"
    by (simp add: remote_service_def grpc_commit_svc_client_def node_service_def commit_svc_v1_def sim_node_def Let_def)
  show ?thesis
    unfolding hooked_service_def hooked_service_axioms_def bus
    using remote_sim_service.commit_provider_axioms remote_sim_bus.weaker.log_bus_axioms
    by (auto simp: node_good_def)
qed

interpretation remote_hooks: hooked_service "remote_service tr alive (node_service (sim_node evaluate desired))" mem_log
  "node_good (sim_node evaluate desired)" mem_inv mem_evolves for tr alive evaluate desired
  by (rule remote_hooked)

section \<open>Properties\<close>

text \<open>The prefix and event with which a command runs as a hook.\<close>
fun hook_of :: "cli_command \<Rightarrow> (string \<times> event_kind) option" where
  "hook_of (CmdClaudeHook event) = Some (''claude_code'', claude_event_kind event)"
| "hook_of (CmdCodexHook event) = Some (''codex'', codex_event_kind event)"
| "hook_of (CmdMuseHook event) = Some (''muse'', muse_event_kind event)"
| "hook_of _ = None"

lemma pre_tool_use_labels:
  "event_label (claude_event_kind e1) = ''intention'' \<longleftrightarrow> claude_is_pre_tool_use e1"
  "event_label (codex_event_kind e2) = ''intention'' \<longleftrightarrow> codex_is_pre_tool_use e2"
  "event_label (muse_event_kind e3) = ''intention'' \<longleftrightarrow> muse_is_pre_tool_use e3"
  by ((cases e1; simp add: claude_is_pre_tool_use_def), (cases e2; simp add: codex_is_pre_tool_use_def),
      (cases e3; simp add: muse_is_pre_tool_use_def))

fun permission :: "cli_line \<Rightarrow> string option" where
  "permission (ClaudeLine l) = Some (cl_permission_decision l)"
| "permission (CodexLine l) = Some (cx_permission_decision l)"
| "permission (MuseLine l) = Some (mu_permission_decision l)"
| "permission _ = None"

lemma hook_lines_ok:
  "hook_lines line res = Some ((Inr (), ls), w') \<Longrightarrow> \<exists>os. res = Some ((Inr (), os), w') \<and> ls = map line os"
  by (cases res; cases "fst (fst (the res))") (auto simp: hook_lines_def map_result_err_def)

lemma cli_hook_run:
  assumes "cli_run svc connects hp cmd w = Some ((Inr (), ls), w')" "hook_of cmd = Some (prefix_name, kind)"
  obtains (claude) os where "prefix_name = ''claude_code''" "ls = map ClaudeLine os"
      "hook_run claude_hook_output svc hp kind prefix_name (Some True) w = Some ((Inr (), os), w')"
  | (codex) os where "prefix_name = ''codex''" "ls = map CodexLine os"
      "hook_run codex_hook_output svc hp kind prefix_name (Some True) w = Some ((Inr (), os), w')"
  | (muse) os where "prefix_name = ''muse''" "ls = map MuseLine os"
      "hook_run muse_hook_output svc hp kind prefix_name (Some True) w = Some ((Inr (), os), w')"
proof (cases cmd)
  case (CmdClaudeHook event)
  then show thesis using assms that(1)
    by (auto simp: cli_run_def claude_run_def split: if_splits dest!: hook_lines_ok)
next
  case (CmdCodexHook event)
  then show thesis using assms that(2)
    by (auto simp: cli_run_def codex_run_def split: if_splits dest!: hook_lines_ok)
next
  case (CmdMuseHook event)
  then show thesis using assms that(3)
    by (auto simp: cli_run_def muse_run_def split: if_splits dest!: hook_lines_ok)
qed (use assms(2) in auto)

lemmas hook_outputs = claude_hook_output_def codex_hook_output_def muse_hook_output_def

text \<open>
  C33. The gate is sound end to end.  When the command line client handles a tool use hook over a network that may lose
  requests and replies, against a server that may stop, and exits with success, then the bus named by prefix, user,
  session and subagent holds the hook's body as an intention whose first decision is the one reported: it printed
  nothing and the decision is a commit, or it printed one refusal and the decision is an abort.
\<close>
theorem hook_gate_sound:
  assumes "node_good (sim_node evaluate desired) w" "hook_of cmd = Some (prefix_name, PreToolUse)"
    and "cli_run (remote_service tr alive (node_service (sim_node evaluate desired))) connects hp cmd w = Some ((Inr (), ls), w')"
  shows "\<exists>d out. hook_target hp prefix_name = Some d \<and>
    decided_in_log (mem_log w' (di_agent_id d)) (StringIntention (di_body d)) out \<and>
    map permission ls = (if co_approved out then [] else [Some (if prefix_name = ''claude_code'' then ''ask'' else ''deny'')])"
proof (cases rule: cli_hook_run[OF assms(3,2), case_names claude codex muse])
  case (claude os)
  from remote_hooks.hook_gate[OF assms(1) claude(3)] show ?thesis using claude(1) by (fastforce simp: claude(2) hook_outputs)
next
  case (codex os)
  from remote_hooks.hook_gate[OF assms(1) codex(3)] show ?thesis using codex(1) by (fastforce simp: codex(2) hook_outputs)
next
  case (muse os)
  from remote_hooks.hook_gate[OF assms(1) muse(3)] show ?thesis using muse(1) by (fastforce simp: muse(2) hook_outputs)
qed

text \<open>
  A hook that only records and exits with success has printed nothing and left its body on the bus of its agent, as
  an input, tool output or agent output according to the event, at a position that was free before.
\<close>
theorem hook_records_event:
  assumes "node_good (sim_node evaluate desired) w" "hook_of cmd = Some (prefix_name, kind)" "kind \<noteq> SessionStart" "kind \<noteq> PreToolUse"
    and "cli_run (remote_service tr alive (node_service (sim_node evaluate desired))) connects hp cmd w = Some ((Inr (), ls), w')"
  shows "\<exists>d p pos. hook_target hp prefix_name = Some d \<and> recorded_payload kind (di_body d) = Some p \<and> ls = [] \<and>
    length (mem_log w (di_agent_id d)) \<le> pos \<and> pos < length (mem_log w' (di_agent_id d)) \<and>
    entry_payload (mem_log w' (di_agent_id d) ! pos) = Some p"
proof (cases rule: cli_hook_run[OF assms(5,2), case_names claude codex muse])
  case (claude os)
  from remote_hooks.hook_records[OF assms(1) claude(3) assms(3,4)] show ?thesis by (simp add: claude(2) hook_outputs)
next
  case (codex os)
  from remote_hooks.hook_records[OF assms(1) codex(3) assms(3,4)] show ?thesis by (simp add: codex(2) hook_outputs)
next
  case (muse os)
  from remote_hooks.hook_records[OF assms(1) muse(3) assms(3,4)] show ?thesis by (simp add: muse(2) hook_outputs)
qed

lemma hook_target_parts:
  assumes "hook_target hp prefix_name = Some d"
  obtains user input where "hp_user hp = Some user" "hp_parse hp (di_body d) = Some input"
    "abi_parse (di_agent_id d) = Some \<lparr>abi_namespace = prefix_name, abi_user = user, abi_session_id = hi_session_id input,
      abi_subagent_id = nonempty (hi_subagent_id input)\<rparr>"
  using assms that abi_parse_to_string
  by (fastforce simp: hook_target_def prepare_def prepare_body_def into_dispatch_def dest: abi_try_new_SomeD
      split: option.splits sum.splits)

text \<open>
  Agents do not share a bus by accident: two hook runs that work on the same bus have the same prefix, user,
  session and subagent, whatever characters these contain; an empty subagent counts as none.
\<close>
theorem hook_targets_isolated:
  assumes "hook_target hp1 p1 = Some d1" "hook_target hp2 p2 = Some d2" "di_agent_id d1 = di_agent_id d2"
  shows "p1 = p2 \<and> hp_user hp1 = hp_user hp2 \<and>
    (\<exists>in1 in2. hp_parse hp1 (di_body d1) = Some in1 \<and> hp_parse hp2 (di_body d2) = Some in2 \<and>
       hi_session_id in1 = hi_session_id in2 \<and> nonempty (hi_subagent_id in1) = nonempty (hi_subagent_id in2))"
  using assms by (auto elim!: hook_target_parts)

section \<open>Concrete runs\<close>

definition gate_policy :: versioned_policy_state where
  "gate_policy = \<lparr>vps_state = \<lparr>pol_decider_policy = Some 2,
     pol_voters = [(''v'', Some (Llm \<lparr>prompt_override = []\<rparr>))]\<rparr>, vps_version = 0\<rparr>"

definition gate_node :: "(wire, sim_world) engine_node" where
  "gate_node = sim_node (\<lambda>_ _. (False, '' no '')) gate_policy"

text \<open>A process whose parser takes the whole body for the session id.\<close>
definition demo_process :: "string \<Rightarrow> hook_process" where
  "demo_process body = \<lparr>hp_stdin = ReadBody body, hp_user = Some ''u'',
     hp_parse = (\<lambda>s. Some \<lparr>hi_session_id = s, hi_subagent_id = Some []\<rparr>), hp_stdout_open = True\<rparr>"

definition demo_cli :: "cli_command \<Rightarrow> sim_world cli_result" where
  "demo_cli cmd = cli_run (remote_service lossless (\<lambda>_. True) (node_service gate_node)) True (demo_process ''s1'') cmd sim_world_empty"

lemma demo_gate_result: "map_option (\<lambda>((r, ls), w). (r, map permission ls)) (demo_cli (CmdClaudeHook ClaudePreToolUse)) = Some (Inr (), [Some ''ask''])"
  by code_simp

theorem hook_gate_sound_witness:
  "\<exists>(w' :: sim_world) d out. hook_target (demo_process ''s1'') ''claude_code'' = Some d \<and>
    decided_in_log (mem_log w' (di_agent_id d)) (StringIntention (di_body d)) out \<and> \<not> co_approved out"
proof -
  obtain ls w' where run: "demo_cli (CmdClaudeHook ClaudePreToolUse) = Some ((Inr (), ls), w')" "map permission ls = [Some ''ask'']"
    using demo_gate_result by auto
  have "hook_of (CmdClaudeHook ClaudePreToolUse) = Some (''claude_code'', PreToolUse)" by simp
  from hook_gate_sound[OF sim_world_empty_good this run(1)[unfolded demo_cli_def gate_node_def]]
  obtain d out where "hook_target (demo_process ''s1'') ''claude_code'' = Some d"
    "decided_in_log (mem_log w' (di_agent_id d)) (StringIntention (di_body d)) out"
    "[Some ''ask''] = (if co_approved out then [] else [Some (if ''claude_code'' = ''claude_code'' then ''ask'' else ''deny'')])"
    unfolding run(2) by blast
  then show ?thesis by (intro exI[of _ w'] exI[of _ d] exI[of _ out]) (simp split: if_splits)
qed

lemma hook_run_target:
  assumes "hook_target hp prefix_name = Some d" "dispatch svc kind d w = Some (Inr outcome, w')" "render outcome True = None"
  shows "hook_run render svc hp kind prefix_name (Some True) w = Some ((Inr (), []), w')"
  using assms by (auto simp: hook_run_def hook_target_def dispatch_with_enforcement_def split: sum.splits)

lemma demo_target: "hook_target (demo_process ''s1'') ''codex'' = Some \<lparr>di_agent_id = ''codex.u.s1'', di_body = ''s1''\<rparr>"
  by code_simp

lemma demo_dispatch: "map_option fst (dispatch (remote_service lossless (\<lambda>_. True) (node_service gate_node)) Stop
    \<lparr>di_agent_id = ''codex.u.s1'', di_body = ''s1''\<rparr> sim_world_empty) = Some (Inr Recorded)"
  by code_simp

lemma demo_record_result: "\<exists>w'. demo_cli (CmdCodexHook CodexStop) = Some ((Inr (), []), w')"
proof -
  obtain w' where "dispatch (remote_service lossless (\<lambda>_. True) (node_service gate_node)) Stop
      \<lparr>di_agent_id = ''codex.u.s1'', di_body = ''s1''\<rparr> sim_world_empty = Some (Inr Recorded, w')" using demo_dispatch by auto
  from hook_run_target[OF demo_target this, of codex_hook_output] show ?thesis
    by (simp add: demo_cli_def cli_run_def codex_run_def hook_lines_def map_result_err_def codex_hook_output_def)
qed

theorem hook_records_event_witness:
  "\<exists>(w' :: sim_world) d pos. hook_target (demo_process ''s1'') ''codex'' = Some d \<and> pos < length (mem_log w' (di_agent_id d)) \<and>
    entry_payload (mem_log w' (di_agent_id d) ! pos) = Some (agent_output_payload (di_body d))"
proof -
  obtain w' where run: "demo_cli (CmdCodexHook CodexStop) = Some ((Inr (), []), w')"
    using demo_record_result by auto
  have "hook_of (CmdCodexHook CodexStop) = Some (''codex'', Stop)" by simp
  from hook_records_event[OF sim_world_empty_good this _ _ run[unfolded demo_cli_def gate_node_def]]
  obtain d pos where "hook_target (demo_process ''s1'') ''codex'' = Some d" "pos < length (mem_log w' (di_agent_id d))"
    "entry_payload (mem_log w' (di_agent_id d) ! pos) = Some (agent_output_payload (di_body d))"
    by fastforce
  then show ?thesis by blast
qed

theorem hook_targets_isolated_witness:
  "hook_target (demo_process ''s1'') ''codex'' =
     hook_target ((demo_process ''s1'')\<lparr>hp_parse := \<lambda>s. Some \<lparr>hi_session_id = s, hi_subagent_id = None\<rparr>\<rparr>) ''codex'' \<and>
   nonempty (Some []) = nonempty None"
proof -
  let ?hp1 = "demo_process ''s1''" and ?hp2 = "(demo_process ''s1'')\<lparr>hp_parse := \<lambda>s. Some \<lparr>hi_session_id = s, hi_subagent_id = None\<rparr>\<rparr>"
  let ?d = "\<lparr>di_agent_id = ''codex.u.s1'', di_body = ''s1''\<rparr>"
  have "hook_target ?hp1 ''codex'' = Some ?d" "hook_target ?hp2 ''codex'' = Some ?d" by code_simp+
  from hook_targets_isolated[OF this] this show ?thesis by (auto simp: demo_process_def)
qed

end
