(* ===== verification/Persistent_Spaces.thy ===== *)
theory Persistent_Spaces
  imports Write_Once
begin

text \<open>
  The conditional-write spaces over SQLite (\<open>bus/impls/sqlite/src/sqlite_conditional_write_space.rs\<close>) and over
  DynamoDB (\<open>bus/impls/dynamodb/src/dynamo_conditional_write_space.rs\<close>).  The databases are parameters: one operation
  per statement the code issues, with the documented effect of the statement as the locales \<open>sqlite_engine\<close> and
  \<open>dynamo_table\<close>.
\<close>

section \<open>Versions and addresses\<close>

text \<open>\<open>as i64\<close> on a \<open>u64\<close> and back.\<close>
definition u64_as_i64 :: "nat \<Rightarrow> int" where
  "u64_as_i64 n = wrap_i64 (int n)"

definition i64_as_u64 :: "int \<Rightarrow> nat" where
  "i64_as_u64 x = nat (x mod 2 ^ 64)"

text \<open>\<open>window_size as i64\<close>: negative from \<open>2 ^ 63\<close> on, which SQLite takes for no limit.\<close>
definition limit_as_i64 :: "nat \<Rightarrow> int" where
  "limit_as_i64 n = (if n < 2 ^ 63 then int n else int (n mod 2 ^ 63) - 2 ^ 63)"

definition to_sqlite_address :: "nat \<Rightarrow> conditional_write_error + int" where
  "to_sqlite_address address = (if address < 2 ^ 63 then Inr (int address) else Inl CondInternalError)"

section \<open>The SQLite space\<close>

datatype sql_failure = DatabaseBusy | OtherFailure

text \<open>
  The four statements: \<open>INSERT OR IGNORE\<close> (space, address, version, value), \<open>UPDATE ... WHERE version = ?\<close> (new version,
  value, space, address, version), \<open>SELECT version, val\<close> and \<open>SELECT address ... ORDER BY address DESC LIMIT ?\<close>.
\<close>
record ('v, 'w) sqlite_db =
  db_insert :: "string \<Rightarrow> int \<Rightarrow> int \<Rightarrow> 'v \<Rightarrow> ('w, sql_failure, nat) eff"
  db_update :: "int \<Rightarrow> 'v \<Rightarrow> string \<Rightarrow> int \<Rightarrow> int \<Rightarrow> ('w, sql_failure, nat) eff"
  db_select :: "string \<Rightarrow> int \<Rightarrow> ('w, sql_failure, (int \<times> 'v) list) eff"
  db_addresses :: "string \<Rightarrow> int \<Rightarrow> ('w, sql_failure, int list) eff"

fun sqlite_write_error :: "sql_failure \<Rightarrow> conditional_write_error" where
  "sqlite_write_error DatabaseBusy = CondTransactionConflict"
| "sqlite_write_error OtherFailure = CondBackendUnavailable"

text \<open>The first address of the window below \<open>stop\<close> that is not among the addresses found, or \<open>stop\<close>.\<close>
definition window_gap :: "nat \<Rightarrow> nat list \<Rightarrow> nat \<Rightarrow> nat" where
  "window_gap stop addrs window_size =
     (case find (\<lambda>addr. addr \<notin> set addrs) [stop - window_size ..< stop] of Some addr \<Rightarrow> addr | None \<Rightarrow> stop)"

definition sqlite_tail :: "('v, 'w) sqlite_db \<Rightarrow> string \<Rightarrow> nat \<Rightarrow> ('w, tail_error, nat) eff" where
  "sqlite_tail db space_id window_size w =
     (if window_size = 0 then (Inl ZeroWindowSize, w)
      else (case db_addresses db space_id (limit_as_i64 window_size) w of
              (Inl _, w') \<Rightarrow> (Inl TailBackendUnavailable, w')
            | (Inr addrs, w') \<Rightarrow>
                (Inr (case map i64_as_u64 addrs of
                        [] \<Rightarrow> 0
                      | max_addr # _ \<Rightarrow> window_gap (max_addr + 1) (map i64_as_u64 addrs) window_size), w')))"

definition sqlite_write :: "('v, 'w) sqlite_db \<Rightarrow> string \<Rightarrow> nat \<Rightarrow> bytes option \<Rightarrow> 'v \<Rightarrow> ('w, conditional_write_error, bool) eff" where
  "sqlite_write db space_id address expected_version v w =
     (case to_sqlite_address address of
        Inl e \<Rightarrow> (Inl e, w)
      | Inr addr \<Rightarrow>
          (case expected_version of
             None \<Rightarrow> bindE (map_errE sqlite_write_error (db_insert db space_id addr 0 v)) (\<lambda>n. ret (0 < n)) w
           | Some ver \<Rightarrow>
               (case version_to_u64 ver of
                  None \<Rightarrow> (Inl CondInternalError, w)
                | Some current \<Rightarrow>
                    bindE (map_errE sqlite_write_error
                      (db_update db (u64_as_i64 ((current + 1) mod 2 ^ 64)) v space_id addr (u64_as_i64 current)))
                      (\<lambda>n. ret (0 < n)) w)))"

definition sqlite_read :: "('v, 'w) sqlite_db \<Rightarrow> string \<Rightarrow> nat \<Rightarrow> ('w, conditional_write_error, 'v versioned_value option) eff" where
  "sqlite_read db space_id address w =
     (case to_sqlite_address address of
        Inl _ \<Rightarrow> (Inr None, w)
      | Inr addr \<Rightarrow>
          bindE (map_errE (\<lambda>_. CondBackendUnavailable) (db_select db space_id addr)) (\<lambda>rows.
            ret (case rows of
                   [] \<Rightarrow> None
                 | (ver, v) # _ \<Rightarrow> Some \<lparr>vv_version = version_from_u64 (i64_as_u64 ver), vv_value = v\<rparr>)) w)"

definition sqlite_conditional_write_space :: "('v, 'w) sqlite_db \<Rightarrow> ('v, 'w) conditional_write_space" where
  "sqlite_conditional_write_space db = \<lparr>cw_write = sqlite_write db, cw_read = sqlite_read db, cw_tail = sqlite_tail db\<rparr>"

section \<open>The DynamoDB space\<close>

text \<open>An attribute of an item: a number (\<open>None\<close> when its text is not a \<open>u64\<close>), a blob, or anything else.\<close>
datatype 'v attribute = AttrN "nat option" | AttrB 'v | AttrOther

datatype put_failure = ConditionalCheckFailed | OtherServiceFailure

text \<open>
  \<open>put_item\<close> (space, address, version, value; the condition is \<open>attribute_not_exists(#ver)\<close> for \<open>None\<close> and
  \<open>#ver = n\<close> for \<open>Some n\<close>), \<open>get_item\<close> (the version and value attributes) and one page of \<open>query\<close>, newest first (the
  address attribute of each item).
\<close>
record ('v, 'w) dynamo_client =
  dy_put :: "string \<Rightarrow> nat \<Rightarrow> nat \<Rightarrow> 'v \<Rightarrow> nat option \<Rightarrow> ('w, put_failure, unit) eff"
  dy_get :: "string \<Rightarrow> nat \<Rightarrow> ('w, unit, ('v attribute option \<times> 'v attribute option) option) eff"
  dy_query :: "string \<Rightarrow> int \<Rightarrow> ('w, unit, 'v attribute option list) eff"

definition address_of_attribute :: "'v attribute option \<Rightarrow> nat option" where
  "address_of_attribute x = (case x of Some (AttrN n) \<Rightarrow> n | _ \<Rightarrow> None)"

definition dynamo_tail :: "('v, 'w) dynamo_client \<Rightarrow> string \<Rightarrow> nat \<Rightarrow> ('w, tail_error, nat) eff" where
  "dynamo_tail dy space_id window_size w =
     (if window_size = 0 then (Inl ZeroWindowSize, w)
      else (case dy_query dy space_id (wrap_i32 (int window_size)) w of
              (Inl _, w') \<Rightarrow> (Inl TailBackendUnavailable, w')
            | (Inr items, w') \<Rightarrow>
                (Inr (case List.map_filter address_of_attribute items of
                        [] \<Rightarrow> 0
                      | a # as \<Rightarrow> window_gap (foldl max a as + 1) (a # as) window_size), w')))"

definition dynamo_write :: "('v, 'w) dynamo_client \<Rightarrow> string \<Rightarrow> nat \<Rightarrow> bytes option \<Rightarrow> 'v \<Rightarrow> ('w, conditional_write_error, bool) eff" where
  "dynamo_write dy space_id address expected_version v w =
     (let put = (\<lambda>new_version condition.
            case dy_put dy space_id address new_version v condition w of
              (Inr _, w') \<Rightarrow> (Inr True, w')
            | (Inl ConditionalCheckFailed, w') \<Rightarrow> (Inr False, w')
            | (Inl OtherServiceFailure, w') \<Rightarrow> (Inl CondBackendUnavailable, w'))
      in case expected_version of
           None \<Rightarrow> put 0 None
         | Some ver \<Rightarrow>
             (case version_to_u64 ver of
                None \<Rightarrow> (Inr False, w)
              | Some current \<Rightarrow> put ((current + 1) mod 2 ^ 64) (Some current)))"

definition dynamo_read :: "('v, 'w) dynamo_client \<Rightarrow> string \<Rightarrow> nat \<Rightarrow> ('w, conditional_write_error, 'v versioned_value option) eff" where
  "dynamo_read dy space_id address w =
     (case dy_get dy space_id address w of
        (Inl _, w') \<Rightarrow> (Inl CondBackendUnavailable, w')
      | (Inr None, w') \<Rightarrow> (Inr None, w')
      | (Inr (Some (ver, val)), w') \<Rightarrow>
          (case ver of
             Some (AttrN None) \<Rightarrow> (Inl CondBackendUnavailable, w')
           | Some (AttrN (Some n)) \<Rightarrow>
               (case val of
                  Some (AttrB v) \<Rightarrow> (Inr (Some \<lparr>vv_version = version_from_u64 n, vv_value = v\<rparr>), w')
                | _ \<Rightarrow> (Inr None, w'))
           | _ \<Rightarrow> (Inr None, w')))"

definition dynamo_conditional_write_space :: "('v, 'w) dynamo_client \<Rightarrow> ('v, 'w) conditional_write_space" where
  "dynamo_conditional_write_space dy = \<lparr>cw_write = dynamo_write dy, cw_read = dynamo_read dy, cw_tail = dynamo_tail dy\<rparr>"

section \<open>Lemmas on versions\<close>

lemma i64_u64_roundtrip: "n < 2 ^ 64 \<Longrightarrow> i64_as_u64 (u64_as_i64 n) = n"
  unfolding i64_as_u64_def u64_as_i64_def wrap_i64_def by (simp add: mod_simps)

lemma fold_be_append: "foldl (\<lambda>acc c. acc * 256 + of_char c) (x :: nat) cs =
    x * 256 ^ length cs + foldl (\<lambda>acc c. acc * 256 + of_char c) 0 cs"
proof (induction cs arbitrary: x)
  case (Cons c cs)
  from Cons[of "x * 256 + of_char c"] Cons[of "of_char c"] show ?case by (simp add: algebra_simps)
qed simp

lemma fold_be_bound: "foldl (\<lambda>acc c. acc * 256 + of_char c) (0 :: nat) cs < 256 ^ length cs"
proof (induction cs rule: rev_induct)
  case (snoc c cs)
  have "of_char c < (256 :: nat)" by (rule nat_of_char_less_256)
  moreover have "foldl (\<lambda>acc c. acc * 256 + of_char c) (0 :: nat) cs + 1 \<le> 256 ^ length cs" using snoc by simp
  ultimately have "foldl (\<lambda>acc c. acc * 256 + of_char c) (0 :: nat) cs * 256 + of_char c < 256 ^ length cs * 256" by linarith
  then show ?case by (simp add: mult.commute)
qed simp

lemma version_to_u64_bound: "version_to_u64 v = Some n \<Longrightarrow> n < 2 ^ 64"
  using fold_be_bound[of v] by (auto simp: version_to_u64_def split: if_splits)

lemma be_bytes_inverse:
  "map (\<lambda>i. char_of (foldl (\<lambda>acc c. acc * 256 + of_char c) (0 :: nat) cs div 256 ^ (length cs - Suc i) mod 256)) [0..<length cs] = cs"
proof (induction cs rule: rev_induct)
  case (snoc c cs)
  let ?f = "\<lambda>cs. foldl (\<lambda>acc c. acc * 256 + of_char c) (0 :: nat) cs"
  have c: "of_char c < (256 :: nat)" by (rule nat_of_char_less_256)
  have "?f (cs @ [c]) div 256 ^ (length cs - i) = ?f cs div 256 ^ (length cs - Suc i)" if "i < length cs" for i
  proof -
    have "(256 :: nat) ^ (length cs - i) = 256 * 256 ^ (length cs - Suc i)"
      using that by (metis Suc_diff_Suc power_Suc)
    then have "?f (cs @ [c]) div 256 ^ (length cs - i) = (?f cs * 256 + of_char c) div 256 div 256 ^ (length cs - Suc i)"
      by (simp add: div_mult2_eq)
    then show ?thesis using c by simp
  qed
  then have front: "map (\<lambda>i. char_of (?f (cs @ [c]) div 256 ^ (length cs - i) mod 256)) [0..<length cs] =
      map (\<lambda>i. char_of (?f cs div 256 ^ (length cs - Suc i) mod 256)) [0..<length cs]"
    by (intro map_cong) auto
  have last: "char_of (?f (cs @ [c]) mod 256) = c" using c by simp
  have "[0..<length (cs @ [c])] = [0..<length cs] @ [length cs]" by simp
  then have "map (\<lambda>i. char_of (?f (cs @ [c]) div 256 ^ (length (cs @ [c]) - Suc i) mod 256)) [0..<length (cs @ [c])] =
      map (\<lambda>i. char_of (?f (cs @ [c]) div 256 ^ (length cs - i) mod 256)) [0..<length cs] @ [char_of (?f (cs @ [c]) mod 256)]"
    by (simp del: foldl_append)
  then show ?case unfolding front last snoc .
qed simp

lemma version_inverse: "version_to_u64 v = Some n \<Longrightarrow> version_from_u64 n = v"
  using be_bytes_inverse[of v] by (auto simp: version_to_u64_def version_from_u64_def split: if_splits)

section \<open>What SQLite promises\<close>

text \<open>\<open>ORDER BY address DESC LIMIT lim\<close> over the addresses \<open>D\<close>; a negative limit is none.\<close>
definition newest_addresses :: "int set \<Rightarrow> int \<Rightarrow> int list \<Rightarrow> bool" where
  "newest_addresses D lim as \<longleftrightarrow> sorted_wrt (>) as \<and> set as \<subseteq> D \<and>
     (\<forall>a \<in> D - set as. 0 \<le> lim \<and> lim \<le> int (length as) \<and> (\<forall>b \<in> set as. a < b))"

definition row_set :: "string \<Rightarrow> int \<Rightarrow> int \<times> 'v \<Rightarrow> (string \<Rightarrow> int \<Rightarrow> (int \<times> 'v) option) \<Rightarrow> string \<Rightarrow> int \<Rightarrow> (int \<times> 'v) option" where
  "row_set s a row t = t(s := (t s)(a \<mapsto> row))"

text \<open>
  A statement takes effect at one moment of the call or fails; before and after it other connections may run, as far as
  \<open>evolves\<close> allows.  The table holds what the code can write: addresses and versions that fit an \<open>i64\<close>.
\<close>
locale sqlite_engine =
  fixes db :: "('v, 'w) sqlite_db"
    and table :: "'w \<Rightarrow> string \<Rightarrow> int \<Rightarrow> (int \<times> 'v) option"
    and evolves :: "'w \<Rightarrow> 'w \<Rightarrow> bool"
  assumes evolves_refl: "evolves w w"
    and evolves_trans: "evolves w w1 \<Longrightarrow> evolves w1 w2 \<Longrightarrow> evolves w w2"
    and evolves_rows: "evolves w w1 \<Longrightarrow> table w s a \<noteq> None \<Longrightarrow> table w1 s a \<noteq> None"
    and row_range: "table w s a = Some (ver, v) \<Longrightarrow> 0 \<le> a \<and> a < 2 ^ 63 \<and> - (2 ^ 63) \<le> ver \<and> ver < 2 ^ 63"
    and insert_law: "0 \<le> a \<Longrightarrow> a < 2 ^ 63 \<Longrightarrow> - (2 ^ 63) \<le> ver \<Longrightarrow> ver < 2 ^ 63 \<Longrightarrow> db_insert db s a ver v w = (r, w') \<Longrightarrow>
        (\<exists>w1. evolves w w1 \<and> evolves w1 w' \<and> (\<forall>n. r = Inr n \<longrightarrow> n = 0 \<and> table w1 s a \<noteq> None)) \<or>
        (\<exists>w1 w2. evolves w w1 \<and> table w1 s a = None \<and> table w2 = row_set s a (ver, v) (table w1) \<and> evolves w2 w' \<and> (\<forall>n. r = Inr n \<longrightarrow> n = 1))"
    and update_law: "0 \<le> a \<Longrightarrow> a < 2 ^ 63 \<Longrightarrow> - (2 ^ 63) \<le> new \<Longrightarrow> new < 2 ^ 63 \<Longrightarrow> db_update db new v s a cur w = (r, w') \<Longrightarrow>
        (\<exists>w1. evolves w w1 \<and> evolves w1 w' \<and> (\<forall>n. r = Inr n \<longrightarrow> n = 0 \<and> map_option fst (table w1 s a) \<noteq> Some cur)) \<or>
        (\<exists>w1 w2. evolves w w1 \<and> map_option fst (table w1 s a) = Some cur \<and> table w2 = row_set s a (new, v) (table w1) \<and> evolves w2 w' \<and>
           (\<forall>n. r = Inr n \<longrightarrow> n = 1))"
    and select_law: "db_select db s a w = (g, w') \<Longrightarrow>
        \<exists>w1. evolves w w1 \<and> evolves w1 w' \<and> (\<forall>rows. g = Inr rows \<longrightarrow> rows = (case table w1 s a of None \<Rightarrow> [] | Some row \<Rightarrow> [row]))"
    and addresses_law: "db_addresses db s lim w = (t, w') \<Longrightarrow>
        \<exists>w1. evolves w w1 \<and> evolves w1 w' \<and> (\<forall>as. t = Inr as \<longrightarrow> newest_addresses (dom (table w1 s)) lim as)"

definition sqlite_cells :: "('w \<Rightarrow> string \<Rightarrow> int \<Rightarrow> (int \<times> 'v) option) \<Rightarrow> 'w \<Rightarrow> string \<Rightarrow> nat \<Rightarrow> 'v versioned_value option" where
  "sqlite_cells table w s a =
     map_option (\<lambda>(ver, v). \<lparr>vv_version = version_from_u64 (i64_as_u64 ver), vv_value = v\<rparr>) (table w s (int a))"

lemma sqlite_cells_row_set:
  assumes "table w2 = row_set s (int a) (u64_as_i64 n, v) (table w1)" "n < 2 ^ 64"
  shows "sqlite_cells table w2 = (sqlite_cells table w1)(s := (sqlite_cells table w1 s)(a \<mapsto> \<lparr>vv_version = version_from_u64 n, vv_value = v\<rparr>))"
  using assms by (auto simp: sqlite_cells_def row_set_def fun_eq_iff i64_u64_roundtrip)

lemma i64_as_u64_inj: "- (2 ^ 63) \<le> x \<Longrightarrow> x < 2 ^ 63 \<Longrightarrow> u64_as_i64 (i64_as_u64 x) = x"
  by (auto simp: u64_as_i64_def i64_as_u64_def wrap_i64_def mod_simps)

lemma u64_as_i64_range: "- (2 ^ 63) \<le> u64_as_i64 n" "u64_as_i64 n < 2 ^ 63"
  by (simp_all add: u64_as_i64_def wrap_i64_def)

text \<open>A row has the expected version exactly when the stored number is that of the expected bytes.\<close>
lemma row_version:
  assumes "version_to_u64 ver = Some n" "- (2 ^ 63) \<le> x" "x < 2 ^ 63"
  shows "version_from_u64 (i64_as_u64 x) = ver \<longleftrightarrow> x = u64_as_i64 n"
proof
  have bound: "i64_as_u64 x < 2 ^ 64" unfolding i64_as_u64_def by (simp add: nat_less_iff)
  assume "version_from_u64 (i64_as_u64 x) = ver"
  then have "n = i64_as_u64 x" using assms(1) version_roundtrip[OF bound] by auto
  then show "x = u64_as_i64 n" using i64_as_u64_inj[OF assms(2,3)] by simp
next
  assume "x = u64_as_i64 n"
  then show "version_from_u64 (i64_as_u64 x) = ver"
    using version_inverse[OF assms(1)] i64_u64_roundtrip[OF version_to_u64_bound[OF assms(1)]] by simp
qed

section \<open>The tail of a window\<close>

lemma window_gap_below: "window_gap stop as n \<le> stop"
  by (auto simp: window_gap_def find_Some_iff split: option.split)

lemma window_gap_above:
  assumes "set as \<subseteq> {..<stop}" "distinct as" "{..<k} \<subseteq> D" "k \<le> stop"
    and missed: "\<And>a. a \<in> D \<Longrightarrow> a \<notin> set as \<Longrightarrow> n \<le> length as \<and> (\<forall>b \<in> set as. a < b)"
  shows "k \<le> window_gap stop as n"
proof (cases "find (\<lambda>addr. addr \<notin> set as) [stop - n ..< stop]")
  case None
  then show ?thesis using assms(4) by (simp add: window_gap_def)
next
  case (Some a)
  then have a: "a \<notin> set as" "stop - n \<le> a" "a < stop" by (auto simp: find_Some_iff)
  have "k \<le> a"
  proof (rule ccontr)
    assume "\<not> k \<le> a"
    then have "a \<in> D" using assms(3) by auto
    with missed a(1) have "n \<le> length as" "\<forall>b \<in> set as. a < b" by auto
    then have "set as \<subseteq> {Suc a..<stop}" using assms(1) by (auto simp: Suc_le_eq)
    then have "card (set as) \<le> stop - Suc a" using card_mono[of "{Suc a..<stop}" "set as"] by simp
    then have "length as \<le> stop - Suc a" using assms(2) by (simp add: distinct_card)
    then show False using \<open>n \<le> length as\<close> a by linarith
  qed
  then show ?thesis using Some by (simp add: window_gap_def)
qed

text \<open>The addresses a query found, as \<open>u64\<close>; those of \<open>D\<close> it did not find lie below them.\<close>
lemma newest_as_u64:
  assumes "newest_addresses D (limit_as_i64 n) as" "\<forall>a \<in> D. 0 \<le> a \<and> a < 2 ^ 63" "0 < n"
  shows "sorted_wrt (>) (map i64_as_u64 as)" "set (map i64_as_u64 as) \<subseteq> nat ` D"
    "\<And>a. a \<in> nat ` D \<Longrightarrow> a \<notin> set (map i64_as_u64 as) \<Longrightarrow> n \<le> length as \<and> (\<forall>b \<in> set (map i64_as_u64 as). a < b)"
proof -
  have D: "i64_as_u64 a = nat a" if "a \<in> D" for a
  proof -
    have "0 \<le> a" "a < 2 ^ 64" using assms(2) that by auto
    then show ?thesis by (simp add: i64_as_u64_def)
  qed
  have as: "sorted_wrt (>) as" "set as \<subseteq> D" using assms(1) by (simp_all add: newest_addresses_def)
  have map: "map i64_as_u64 as = map nat as" using as(2) D by (auto intro!: map_cong)
  show "sorted_wrt (>) (map i64_as_u64 as)" unfolding map sorted_wrt_map
  proof (rule sorted_wrt_mono_rel[OF _ as(1)])
    fix x y
    assume xy: "x \<in> set as" "y \<in> set as" "y < x"
    then have "0 \<le> y" using as(2) assms(2) by auto
    then show "nat y < nat x" using xy(3) by simp
  qed
  show "set (map i64_as_u64 as) \<subseteq> nat ` D" unfolding map using as(2) by auto
  fix a
  assume a: "a \<in> nat ` D" "a \<notin> set (map i64_as_u64 as)"
  then obtain x where x: "x \<in> D" "a = nat x" "x \<notin> set as" unfolding map by auto
  then have lim: "0 \<le> limit_as_i64 n" "limit_as_i64 n \<le> int (length as)" "\<forall>b \<in> set as. x < b"
    using assms(1) by (auto simp: newest_addresses_def)
  have "int (n mod 2 ^ 63) < 2 ^ 63" by (simp add: zmod_int)
  then have "limit_as_i64 n = int n" using lim(1) by (auto simp: limit_as_i64_def split: if_splits)
  then show "n \<le> length as \<and> (\<forall>b \<in> set (map i64_as_u64 as). a < b)"
    using lim x assms(2) unfolding map by (fastforce simp: nat_less_eq_zless)
qed

lemma newest_tail:
  assumes "newest_addresses D (limit_as_i64 n) as" "\<forall>a \<in> D. 0 \<le> a \<and> a < 2 ^ 63" "0 < n"
    and "{..<k} \<subseteq> nat ` D" "nat ` D \<subseteq> {..<k'}"
    and "p = (case map i64_as_u64 as of [] \<Rightarrow> 0 | m # _ \<Rightarrow> window_gap (m + 1) (map i64_as_u64 as) n)"
  shows "k \<le> p \<and> p \<le> k'"
proof (cases "map i64_as_u64 as")
  case Nil
  note newest = newest_as_u64[OF assms(1-3)]
  have "nat ` D = {}" using newest(3) Nil assms(3) by auto
  then show ?thesis using assms(4,6) Nil by (simp add: lessThan_empty_iff bot_nat_def)
next
  case (Cons m r)
  note newest = newest_as_u64[OF assms(1-3)]
  have top: "\<forall>b \<in> set (map i64_as_u64 as). b \<le> m" using newest(1) Cons by auto
  have m: "m \<in> nat ` D" using newest(2) Cons by auto
  have below: "a \<le> m" if "a \<in> nat ` D" for a
  proof (cases "a \<in> set (map i64_as_u64 as)")
    case False
    then show ?thesis using newest(3)[OF that] Cons by auto
  qed (use top in auto)
  have "k \<le> m + 1"
  proof (cases k)
    case (Suc j)
    then have "j \<in> nat ` D" using assms(4) by auto
    then show ?thesis using below Suc by auto
  qed simp
  moreover have "distinct (map i64_as_u64 as)"
    using newest(1) by (metis distinct_rev sorted_wrt_rev strict_sorted_iff)
  ultimately have "k \<le> window_gap (m + 1) (map i64_as_u64 as) n"
    by (intro window_gap_above[where D = "nat ` D"]) (use top assms(4) newest(3) in \<open>auto simp: less_Suc_eq_le\<close>)
  moreover have "window_gap (m + 1) (map i64_as_u64 as) n \<le> k'"
    using window_gap_below[of "m + 1" "map i64_as_u64 as" n] m assms(5) by fastforce
  ultimately show ?thesis using assms(6) Cons by simp
qed

section \<open>The SQLite space keeps the contract\<close>

definition sqlite_writes :: "('w \<Rightarrow> string \<Rightarrow> int \<Rightarrow> (int \<times> 'v) option) \<Rightarrow> 'w \<Rightarrow> string \<Rightarrow> nat \<Rightarrow> 'v versioned_value \<Rightarrow> 'w \<Rightarrow> bool" where
  "sqlite_writes table w s a x w1 \<longleftrightarrow> sqlite_cells table w1 = (sqlite_cells table w)(s := (sqlite_cells table w s)(a \<mapsto> x))"

lemma sqlite_cells_dom: "(\<And>a. table w s a \<noteq> None \<Longrightarrow> 0 \<le> a) \<Longrightarrow> dom (sqlite_cells table w s) = nat ` dom (table w s)"
  by (force simp: sqlite_cells_def dom_def image_def)

context sqlite_engine
begin

lemma cells_version: "map_option vv_version (sqlite_cells table w s a) = Some ver \<longleftrightarrow>
    (case version_to_u64 ver of None \<Rightarrow> False | Some n \<Rightarrow> map_option fst (table w s (int a)) = Some (u64_as_i64 n))"
proof (cases "table w s (int a)")
  case None
  then show ?thesis by (simp add: sqlite_cells_def split: option.split)
next
  case (Some row)
  obtain x v where row: "row = (x, v)" by fastforce
  have range: "- (2 ^ 63) \<le> x" "x < 2 ^ 63" using row_range Some row by blast+
  have bytes: "version_to_u64 (version_from_u64 (i64_as_u64 x)) \<noteq> None" by (simp add: version_to_u64_def)
  show ?thesis using Some row row_version[OF _ range, of ver] bytes
    by (auto simp: sqlite_cells_def split: option.split)
qed

lemma sqlite_write_law:
  assumes "sqlite_write db s a expected v w = (r, w')"
  shows "(\<exists>w1. evolves w w1 \<and> evolves w1 w' \<and> r \<noteq> Inr True \<and> (r = Inr False \<longrightarrow> map_option vv_version (sqlite_cells table w1 s a) \<noteq> expected)) \<or>
    (\<exists>w1 w2 ver. evolves w w1 \<and> map_option vv_version (sqlite_cells table w1 s a) = expected \<and>
       ver = (case expected of None \<Rightarrow> version_from_u64 0 | Some e \<Rightarrow> version_from_u64 ((the (version_to_u64 e) + 1) mod 2 ^ 64)) \<and>
       sqlite_writes table w1 s a \<lparr>vv_version = ver, vv_value = v\<rparr> w2 \<and> evolves w2 w' \<and> r \<noteq> Inr False)"
proof -
  have err: ?thesis if "r = Inl e" "w' = w" for e
    using that evolves_refl by (intro disjI1 exI[of _ w]) simp
  consider (big) e where "to_sqlite_address a = Inl e" | (fits) "a < 2 ^ 63" "to_sqlite_address a = Inr (int a)"
    by (cases "a < 2 ^ 63") (simp_all add: to_sqlite_address_def)
  then show ?thesis
  proof cases
    case big
    then have "r = Inl e" "w' = w" using assms by (auto simp: sqlite_write_def)
    then show ?thesis by (rule err)
  next
    case fits
    then have a: "0 \<le> int a" "int a < 2 ^ 63" by (simp_all add: of_nat_less_numeral_power_cancel_iff)
    show ?thesis
    proof (cases expected)
      case None
      obtain r0 where call: "db_insert db s (int a) 0 v w = (r0, w')"
        and r: "r = (case r0 of Inl e \<Rightarrow> Inl (sqlite_write_error e) | Inr n \<Rightarrow> Inr (0 < n))"
        using assms fits None by (auto simp: sqlite_write_def eff_defs split: prod.splits sum.splits)
      have zero: "u64_as_i64 0 = 0" by (simp add: u64_as_i64_def)
      have "- (2 ^ 63) \<le> (0 :: int)" "(0 :: int) < 2 ^ 63" by simp_all
      from insert_law[OF a this call] show ?thesis
      proof (elim disjE exE conjE, goal_cases)
        case (1 w1)
        then show ?thesis using r None by (intro disjI1 exI[of _ w1]) (auto simp: sqlite_cells_def split: sum.splits)
      next
        case (2 w1 w2)
        have "sqlite_writes table w1 s a \<lparr>vv_version = version_from_u64 0, vv_value = v\<rparr> w2"
          unfolding sqlite_writes_def by (rule sqlite_cells_row_set) (simp_all add: 2(3) zero)
        then show ?thesis using 2 r None
          by (intro disjI2 exI[of _ w1] exI[of _ w2]) (auto simp: sqlite_cells_def split: sum.splits)
      qed
    next
      case (Some ver)
      show ?thesis
      proof (cases "version_to_u64 ver")
        case None
        then have "r = Inl CondInternalError" "w' = w" using assms fits Some by (auto simp: sqlite_write_def)
        then show ?thesis by (rule err)
      next
        case (Some n)
        let ?new = "u64_as_i64 ((n + 1) mod 2 ^ 64)"
        obtain r0 where call: "db_update db ?new v s (int a) (u64_as_i64 n) w = (r0, w')"
          and r: "r = (case r0 of Inl e \<Rightarrow> Inl (sqlite_write_error e) | Inr n \<Rightarrow> Inr (0 < n))"
          using assms fits \<open>expected = Some ver\<close> Some by (auto simp: sqlite_write_def eff_defs split: prod.splits sum.splits)
        note cells = cells_version[of _ s a ver, unfolded Some option.case]
        from update_law[OF a u64_as_i64_range call] show ?thesis
        proof (elim disjE exE conjE, goal_cases)
          case (1 w1)
          then show ?thesis using r \<open>expected = Some ver\<close> cells[of w1]
            by (intro disjI1 exI[of _ w1]) (auto split: sum.splits)
        next
          case (2 w1 w2)
          have "sqlite_writes table w1 s a \<lparr>vv_version = version_from_u64 ((n + 1) mod 2 ^ 64), vv_value = v\<rparr> w2"
            unfolding sqlite_writes_def by (rule sqlite_cells_row_set) (simp_all add: 2(3))
          then show ?thesis using 2 r \<open>expected = Some ver\<close> cells[of w1] Some
            by (intro disjI2 exI[of _ w1] exI[of _ w2]) (auto split: sum.splits)
        qed
      qed
    qed
  qed
qed

lemma sqlite_read_law:
  assumes "sqlite_read db s a w = (g, w')"
  shows "\<exists>w1. evolves w w1 \<and> evolves w1 w' \<and> (\<forall>x. g = Inr x \<longrightarrow> x = sqlite_cells table w1 s a)"
proof (cases "a < 2 ^ 63")
  case False
  then have "table w s (int a) = None" using row_range[of w s "int a"] by (cases "table w s (int a)") auto
  then show ?thesis using assms False evolves_refl
    by (intro exI[of _ w]) (auto simp: sqlite_read_def to_sqlite_address_def sqlite_cells_def)
next
  case True
  obtain g0 where call: "db_select db s (int a) w = (g0, w')"
    and g: "g = (case g0 of Inl e \<Rightarrow> Inl CondBackendUnavailable | Inr rows \<Rightarrow> Inr (case rows of [] \<Rightarrow> None
        | (ver, v) # _ \<Rightarrow> Some \<lparr>vv_version = version_from_u64 (i64_as_u64 ver), vv_value = v\<rparr>))"
    using assms True by (auto simp: sqlite_read_def to_sqlite_address_def eff_defs split: prod.splits sum.splits)
  from select_law[OF call] obtain w1 where "evolves w w1" "evolves w1 w'"
    "\<forall>rows. g0 = Inr rows \<longrightarrow> rows = (case table w1 s (int a) of None \<Rightarrow> [] | Some row \<Rightarrow> [row])" by blast
  then show ?thesis using g by (intro exI[of _ w1]) (auto simp: sqlite_cells_def split: sum.splits option.splits)
qed

lemma sqlite_tail_law:
  assumes "0 < n" "sqlite_tail db s n w = (t, w')"
  shows "evolves w w' \<and> (\<forall>p k k'. t = Inr p \<longrightarrow> dom (sqlite_cells table w s) = {..<k} \<longrightarrow> dom (sqlite_cells table w' s) = {..<k'} \<longrightarrow>
    k \<le> p \<and> p \<le> k')"
proof -
  obtain t0 where call: "db_addresses db s (limit_as_i64 n) w = (t0, w')"
    and t: "\<forall>p. t = Inr p \<longrightarrow> (\<exists>as. t0 = Inr as \<and> p = (case map i64_as_u64 as of [] \<Rightarrow> 0
        | m # _ \<Rightarrow> window_gap (m + 1) (map i64_as_u64 as) n))"
    using assms by (auto simp: sqlite_tail_def split: prod.splits sum.splits)
  from addresses_law[OF call] obtain w1 where ev: "evolves w w1" "evolves w1 w'"
    and found: "\<forall>as. t0 = Inr as \<longrightarrow> newest_addresses (dom (table w1 s)) (limit_as_i64 n) as" by blast
  have rows: "\<forall>a \<in> dom (table w1 s). 0 \<le> a \<and> a < 2 ^ 63" using row_range by fastforce
  have cells: "dom (sqlite_cells table w2 s) = nat ` dom (table w2 s)" for w2
    by (rule sqlite_cells_dom) (use row_range in fastforce)
  have grow: "dom (table w s) \<subseteq> dom (table w1 s)" "dom (table w1 s) \<subseteq> dom (table w' s)"
    using evolves_rows[OF ev(1)] evolves_rows[OF ev(2)] by (auto simp: dom_def)
  have "k \<le> p \<and> p \<le> k'" if "t = Inr p" "dom (sqlite_cells table w s) = {..<k}" "dom (sqlite_cells table w' s) = {..<k'}" for p k k'
  proof -
    note given = that
    obtain as where as: "t0 = Inr as" "p = (case map i64_as_u64 as of [] \<Rightarrow> 0 | m # _ \<Rightarrow> window_gap (m + 1) (map i64_as_u64 as) n)"
      using t given(1) by blast
    have "{..<k} \<subseteq> nat ` dom (table w1 s)" "nat ` dom (table w1 s) \<subseteq> {..<k'}"
      using image_mono[OF grow(1), of nat] image_mono[OF grow(2), of nat] given(2,3) unfolding cells by simp_all
    then show ?thesis by (rule newest_tail[OF found[rule_format, OF as(1)] rows assms(1) _ _ as(2)])
  qed
  then show ?thesis using evolves_trans[OF ev] by blast
qed

end

sublocale sqlite_engine \<subseteq> sqlite: cond_space "sqlite_conditional_write_space db" "sqlite_cells table" evolves "sqlite_writes table"
proof (standard, goal_cases)
  case (2 w w1 w2)
  then show ?case by (rule evolves_trans)
next
  case (3 w w1 s a)
  then show ?case using evolves_rows by (auto simp: sqlite_cells_def)
next
  case (5 s a expected v w r w')
  then show ?case using sqlite_write_law[of s a expected v w r w'] evolves_trans
    unfolding sqlite_conditional_write_space_def by (simp (no_asm_use)) blast
next
  case (6 s a w g w')
  then show ?case using sqlite_read_law by (simp add: sqlite_conditional_write_space_def)
next
  case (7 n s w t w')
  then show ?case using sqlite_tail_law by (simp add: sqlite_conditional_write_space_def)
qed (auto simp: sqlite_writes_def evolves_refl)

text \<open>With clients that only write empty addresses, as those of the adapter, the adapted space is a write-once space.\<close>
locale sqlite_append_only = sqlite_engine +
  assumes evolves_row: "evolves w w1 \<Longrightarrow> table w s a = Some (ver, v) \<Longrightarrow> \<exists>ver'. table w1 s a = Some (ver', v)"

sublocale sqlite_append_only \<subseteq> once: cond_space_append_only "sqlite_conditional_write_space db" "sqlite_cells table" evolves "sqlite_writes table"
proof (standard, goal_cases)
  case (1 w w1 s a x)
  then show ?case using evolves_row[OF 1(1)] by (fastforce simp: sqlite_cells_def)
qed

section \<open>A concrete engine\<close>

text \<open>Rows as an association list, without other connections.\<close>
type_synonym 'v sql_rows = "((string \<times> int) \<times> (int \<times> 'v)) list"

definition sim_table :: "'v sql_rows \<Rightarrow> string \<Rightarrow> int \<Rightarrow> (int \<times> 'v) option" where
  "sim_table rows s a =
     (case map_of rows (s, a) of
        None \<Rightarrow> None
      | Some (ver, v) \<Rightarrow> if 0 \<le> a \<and> a < 2 ^ 63 \<and> - (2 ^ 63) \<le> ver \<and> ver < 2 ^ 63 then Some (ver, v) else None)"

definition sim_addresses :: "'v sql_rows \<Rightarrow> string \<Rightarrow> int list" where
  "sim_addresses rows s = rev (sort (remdups (filter (\<lambda>a. sim_table rows s a \<noteq> None) (map (snd \<circ> fst) rows))))"

definition sim_db :: "('v, 'v sql_rows) sqlite_db" where
  "sim_db =
     \<lparr>db_insert = (\<lambda>s a ver v rows. if sim_table rows s a = None then (Inr 1, ((s, a), (ver, v)) # rows) else (Inr 0, rows)),
      db_update = (\<lambda>new v s a cur rows. if map_option fst (sim_table rows s a) = Some cur then (Inr 1, ((s, a), (new, v)) # rows)
         else (Inr 0, rows)),
      db_select = (\<lambda>s a rows. (Inr (case sim_table rows s a of None \<Rightarrow> [] | Some row \<Rightarrow> [row]), rows)),
      db_addresses = (\<lambda>s lim rows. (Inr (if lim < 0 then sim_addresses rows s else take (nat lim) (sim_addresses rows s)), rows))\<rparr>"

lemma sim_table_Cons: "0 \<le> a \<Longrightarrow> a < 2 ^ 63 \<Longrightarrow> - (2 ^ 63) \<le> ver \<Longrightarrow> ver < 2 ^ 63 \<Longrightarrow>
    sim_table (((s, a), (ver, v)) # rows) = row_set s a (ver, v) (sim_table rows)"
  by (auto simp: sim_table_def row_set_def fun_eq_iff)

lemma sim_addresses_newest: "newest_addresses (dom (sim_table rows s)) lim
    (if lim < 0 then sim_addresses rows s else take (nat lim) (sim_addresses rows s))"
proof -
  let ?as = "sim_addresses rows s"
  have found: "a \<in> (snd \<circ> fst) ` set rows" if "sim_table rows s a \<noteq> None" for a
    using that by (force simp: sim_table_def split: option.splits dest: map_of_SomeD)
  have all: "set ?as = dom (sim_table rows s)" using found by (auto simp: sim_addresses_def dom_def)
  have "sorted_wrt (<) (sort (remdups (filter (\<lambda>a. sim_table rows s a \<noteq> None) (map (snd \<circ> fst) rows))))"
    by (simp only: strict_sorted_iff sorted_sort distinct_sort distinct_remdups simp_thms)
  then have desc: "sorted_wrt (>) ?as" unfolding sim_addresses_def by (simp only: sorted_wrt_rev)
  show ?thesis
  proof (cases "lim < 0")
    case True
    then show ?thesis using all desc by (simp add: newest_addresses_def)
  next
    case False
    have split: "?as = take (nat lim) ?as @ drop (nat lim) ?as" by simp
    have below: "a < b" if "b \<in> set (take (nat lim) ?as)" "a \<in> set (drop (nat lim) ?as)" for a b
      using desc that unfolding sorted_wrt_append[of _ "take (nat lim) ?as" "drop (nat lim) ?as", unfolded append_take_drop_id] by blast
    have rest: "a \<in> set (drop (nat lim) ?as)" if "a \<in> set ?as" "a \<notin> set (take (nat lim) ?as)" for a
      using that split by (metis Un_iff set_append)
    have "lim \<le> int (length (take (nat lim) ?as))" if "a \<in> set (drop (nat lim) ?as)" for a
      using that False by (cases "nat lim \<le> length ?as") (auto simp: min_def)
    then show ?thesis using all desc False rest below
      by (auto simp: newest_addresses_def sorted_wrt_take dest: in_set_takeD)
  qed
qed

lemma sim_engine_for:
  assumes refl: "\<And>w. E w w" and trans: "\<And>w w1 w2. E w w1 \<Longrightarrow> E w1 w2 \<Longrightarrow> E w w2"
    and rows: "\<And>w w1 s a. E w w1 \<Longrightarrow> sim_table w s a \<noteq> None \<Longrightarrow> sim_table w1 s a \<noteq> None"
  shows "sqlite_engine sim_db sim_table E"
proof (unfold_locales, goal_cases)
  case (4 w s a ver v)
  then show ?case by (auto simp: sim_table_def split: option.splits if_splits)
next
  case (5 a ver s v w r w')
  show ?case
  proof (cases "sim_table w s a")
    case None
    then show ?thesis using 5 refl sim_table_Cons[OF 5(1-4)]
      by (intro disjI2 exI[of _ w] exI[of _ w']) (auto simp: sim_db_def)
  next
    case (Some row)
    then show ?thesis using 5 refl by (intro disjI1 exI[of _ w]) (auto simp: sim_db_def)
  qed
next
  case (6 a new v s cur w r w')
  show ?case
  proof (cases "map_option fst (sim_table w s a) = Some cur")
    case True
    then show ?thesis using 6 refl sim_table_Cons[OF 6(1-4)]
      by (intro disjI2 exI[of _ w] exI[of _ w']) (auto simp: sim_db_def)
  next
    case False
    then show ?thesis using 6 refl by (intro disjI1 exI[of _ w]) (auto simp: sim_db_def)
  qed
next
  case (7 s a w g w')
  then show ?case using refl by (intro exI[of _ w]) (auto simp: sim_db_def)
next
  case (8 s lim w t w')
  then show ?case using refl sim_addresses_newest[of w s lim] by (intro exI[of _ w]) (auto simp: sim_db_def)
qed (use refl trans rows in blast)+

text \<open>Other connections may write, as long as every row keeps its value.\<close>
definition rows_keep :: "'v sql_rows \<Rightarrow> 'v sql_rows \<Rightarrow> bool" where
  "rows_keep rows rows' \<longleftrightarrow> (\<forall>s a ver v. sim_table rows s a = Some (ver, v) \<longrightarrow> (\<exists>ver'. sim_table rows' s a = Some (ver', v)))"

lemma sim_engine: "sqlite_append_only sim_db sim_table rows_keep"
  unfolding sqlite_append_only_def sqlite_append_only_axioms_def
  by (intro conjI sim_engine_for) (fastforce simp: rows_keep_def)+

interpretation sim_sqlite: sqlite_append_only sim_db sim_table rows_keep
  by (rule sim_engine)

lemma sim_engine_alone: "sqlite_engine sim_db sim_table (\<lambda>w w'. sim_table w' = sim_table w)"
  by (rule sim_engine_for) simp_all

section \<open>The in-memory space as the specification\<close>

lemma cond_write_refused:
  assumes "mb_ttl mb = None" "map_option vv_version (cond_cells m s a) \<noteq> expected"
  shows "\<exists>m'. cond_write mb s a expected v m = (Inr False, m') \<and> cond_cells m' = cond_cells m"
proof -
  let ?sp = "case ww_cond m s of Some sp \<Rightarrow> sp | None \<Rightarrow> []"
  have "cond_write mb s a expected v m = (Inr False, m\<lparr>ww_cond := (ww_cond m)(s \<mapsto> ?sp)\<rparr>)"
    using assms by (simp add: cond_write_def Let_def cond_live eq_commute)
  moreover have "cond_cells (m\<lparr>ww_cond := (ww_cond m)(s \<mapsto> ?sp)\<rparr>) = cond_cells m"
    by (auto simp: cond_cells_def fun_eq_iff split: option.split)
  ultimately show ?thesis by blast
qed

lemma cond_write_done:
  assumes "mb_ttl mb = None" "map_option vv_version (cond_cells m s a) = expected"
    and "(case expected of None \<Rightarrow> Some 0 | Some ver \<Rightarrow> map_option (\<lambda>n. (n + 1) mod 2 ^ 64) (version_to_u64 ver)) = Some n"
  shows "\<exists>m'. cond_write mb s a expected v m = (Inr True, m') \<and>
    cond_cells m' = (cond_cells m)(s := (cond_cells m s)(a \<mapsto> \<lparr>vv_version = version_from_u64 n, vv_value = v\<rparr>))"
  using assms by (simp add: cond_write_def Let_def cond_live cond_cells_update)

text \<open>The in-memory space holds what the table holds.\<close>
definition follows :: "('w \<Rightarrow> string \<Rightarrow> int \<Rightarrow> (int \<times> 'v) option) \<Rightarrow> 'w \<Rightarrow> ('v, 'z) wo_world_scheme \<Rightarrow> bool" where
  "follows table w m \<longleftrightarrow> cond_cells m = sqlite_cells table w"

lemma follows_table: "table w' = table w \<Longrightarrow> follows table w m \<Longrightarrow> follows table w' m"
  by (simp add: follows_def sqlite_cells_def fun_eq_iff)

text \<open>The tail of a set of written addresses: the first hole in the window below the end, or the end.\<close>
definition first_gap :: "nat set \<Rightarrow> nat \<Rightarrow> nat" where
  "first_gap D n = (if D = {} then 0 else
     (case find (\<lambda>a. a \<notin> D) [Max D + 1 - n ..< Max D + 1] of Some a \<Rightarrow> a | None \<Rightarrow> Max D + 1))"

lemma cond_tail_gap:
  assumes "mb_ttl mb = None" "0 < n"
  shows "cond_tail mb s n m = (Inr (first_gap (dom (cond_cells m s)) n), m)"
proof -
  have "wos_tail (ww_cond m) s n None = first_gap (dom (cond_cells m s)) n"
  proof (cases "ww_cond m s")
    case None
    then have "dom (cond_cells m s) = {}" by (simp add: cond_cells_def fun_eq_iff)
    then show ?thesis using None by (simp add: wos_tail_def first_gap_def del: dom_eq_empty_conv)
  next
    case (Some space)
    have "cond_cells m s a \<noteq> None \<longleftrightarrow> a \<in> fst ` set space" for a
      using Some by (simp add: cond_cells_def map_of_eq_None_iff)
    then have dom: "dom (cond_cells m s) = set (map fst space)" by (auto simp: dom_def)
    have live: "filter (address_is_live space None) (map fst space) = map fst space"
      by (auto simp: filter_id_conv map_of_eq_None_iff)
    have hole: "(\<lambda>addr. \<not> address_is_live space None addr) = (\<lambda>a. a \<notin> dom (cond_cells m s))"
      unfolding dom by (auto simp: map_of_eq_None_iff)
    show ?thesis
    proof (cases "map fst space")
      case Nil
      then show ?thesis using Some live dom by (simp add: wos_tail_def first_gap_def)
    next
      case (Cons a as)
      have "foldl max a as = Max (dom (cond_cells m s))" "dom (cond_cells m s) \<noteq> {}"
        unfolding dom Cons by (simp_all only: foldl_max_Max) simp
      then show ?thesis unfolding first_gap_def using Some live Cons hole by (simp add: wos_tail_def Let_def cong: option.case_cong del: upt_Suc)
    qed
  qed
  then show ?thesis using assms by (simp add: cond_tail_def mem_check_def)
qed

lemma newest_gap:
  assumes "newest_addresses D (limit_as_i64 n) as" "\<forall>a \<in> D. 0 \<le> a \<and> a < 2 ^ 63" "0 < n"
  shows "(case map i64_as_u64 as of [] \<Rightarrow> 0 | m # _ \<Rightarrow> window_gap (m + 1) (map i64_as_u64 as) n) = first_gap (nat ` D) n"
proof (cases "map i64_as_u64 as")
  case Nil
  then have "nat ` D = {}" using newest_as_u64(3)[OF assms] assms(3) by auto
  then show ?thesis using Nil by (simp add: first_gap_def)
next
  case (Cons m r)
  let ?as = "map i64_as_u64 as"
  note newest = newest_as_u64[OF assms]
  have top: "\<forall>b \<in> set ?as. b \<le> m" "m \<in> nat ` D" using newest(1,2) Cons by auto
  have below: "a \<le> m" if "a \<in> nat ` D" for a
    using newest(3)[OF that] Cons top(1) by (cases "a \<in> set ?as") auto
  then have max: "Max (nat ` D) = m" using top(2) by (intro Max_eqI) (auto intro: finite_subset[of _ "{..m}"])
  have "distinct ?as" using newest(1) by (metis distinct_rev sorted_wrt_rev strict_sorted_iff)
  then have len: "length as = card (set ?as)" by (metis distinct_card length_map)
  have "a \<in> set ?as \<longleftrightarrow> a \<in> nat ` D" if "a \<in> set [m + 1 - n ..< m + 1]" for a
  proof (rule ccontr)
    assume "(a \<in> set ?as) \<noteq> (a \<in> nat ` D)"
    then have "a \<in> nat ` D" "a \<notin> set ?as" using newest(2) by auto
    note missed = newest(3)[OF this]
    then have "set ?as \<subseteq> {Suc a..m}" using top(1) by (auto simp: Suc_le_eq)
    then have "length as \<le> m - a" using len card_mono[of "{Suc a..m}" "set ?as"] by simp
    moreover have "m - a < n" using that assms(3) by auto
    ultimately show False using missed by linarith
  qed
  then have "find (\<lambda>a. a \<notin> set ?as) [m + 1 - n ..< m + 1] = find (\<lambda>a. a \<notin> nat ` D) [m + 1 - n ..< m + 1]"
    by (intro find_cong) auto
  then have "window_gap (m + 1) ?as n = first_gap (nat ` D) n"
    unfolding window_gap_def first_gap_def max using top(2) by auto
  then show ?thesis using Cons by simp
qed

text \<open>A database error.\<close>
definition database_failed :: "conditional_write_error + 'a \<Rightarrow> bool" where
  "database_failed r \<longleftrightarrow> r = Inl CondTransactionConflict \<or> r = Inl CondBackendUnavailable"

lemma sqlite_write_failed:
  assumes "sqlite_write db s a e v w = (Inl err, w')" "a < 2 ^ 63" "\<forall>ver. e = Some ver \<longrightarrow> length ver = 8"
  shows "database_failed (Inl err :: conditional_write_error + bool)"
proof -
  have "sqlite_write_error f = CondTransactionConflict \<or> sqlite_write_error f = CondBackendUnavailable" for f by (cases f) simp_all
  then show ?thesis using assms
    by (auto simp: sqlite_write_def to_sqlite_address_def version_to_u64_def database_failed_def eff_defs
        split: option.splits prod.splits sum.splits)
qed

context sqlite_engine
begin

lemma write_followed:
  assumes alone: "\<And>w w'. evolves w w' \<longleftrightarrow> table w' = table w" and "mb_ttl mb = None" "follows table w m"
    and call: "sqlite_write db s a e v w = (r, w')" and guards: "a < 2 ^ 63" "\<forall>ver. e = Some ver \<longrightarrow> length ver = 8"
  shows "(\<exists>done m'. cond_write mb s a e v m = (Inr done, m') \<and> follows table w' m' \<and> (r = Inr done \<or> database_failed r)) \<or>
    database_failed r \<and> follows table w' m"
proof -
  have cells: "sqlite_cells table w1 = sqlite_cells table w2" if "table w1 = table w2" for w1 w2
    using that by (simp add: sqlite_cells_def fun_eq_iff)
  have same: "cond_cells m = sqlite_cells table w" using assms(3) by (simp add: follows_def)
  have failed: "database_failed r" if "\<And>x. r \<noteq> Inr x"
  proof (cases r)
    case (Inl err)
    then show ?thesis using sqlite_write_failed[OF call[unfolded Inl] guards] by (simp add: database_failed_def)
  qed (use that in simp)
  from sqlite_write_law[OF call] consider
    (refused) w1 where "table w1 = table w" "table w' = table w1" "r \<noteq> Inr True"
      "r = Inr False \<longrightarrow> map_option vv_version (sqlite_cells table w1 s a) \<noteq> e"
    | (wrote) w1 w2 ver where "table w1 = table w" "map_option vv_version (sqlite_cells table w1 s a) = e"
      "ver = (case e of None \<Rightarrow> version_from_u64 0 | Some e \<Rightarrow> version_from_u64 ((the (version_to_u64 e) + 1) mod 2 ^ 64))"
      "sqlite_writes table w1 s a \<lparr>vv_version = ver, vv_value = v\<rparr> w2" "table w' = table w2" "r \<noteq> Inr False"
    unfolding alone by auto
  then show ?thesis
  proof cases
    case refused
    have stays: "sqlite_cells table w' = sqlite_cells table w" using cells refused(1,2) by metis
    show ?thesis
    proof (cases "r = Inr False")
      case True
      then have "map_option vv_version (cond_cells m s a) \<noteq> e" using same cells[OF refused(1)] refused(4) by simp
      from cond_write_refused[OF assms(2) this, of v] obtain m' where "cond_write mb s a e v m = (Inr False, m')" "cond_cells m' = cond_cells m"
        by blast
      then show ?thesis using True same stays by (auto simp: follows_def)
    next
      case False
      then have "database_failed r" using refused(3) failed by (metis (full_types))
      then show ?thesis using same stays by (simp add: follows_def)
    qed
  next
    case wrote
    have match: "map_option vv_version (cond_cells m s a) = e" using same cells[OF wrote(1)] wrote(2) by simp
    obtain n where n: "(case e of None \<Rightarrow> Some 0 | Some ver \<Rightarrow> map_option (\<lambda>n. (n + 1) mod 2 ^ 64) (version_to_u64 ver)) = Some n"
      "ver = version_from_u64 n"
    proof (cases e)
      case None
      then show ?thesis using that wrote(3) by simp
    next
      case (Some x)
      then show ?thesis using that wrote(3) guards(2) by (simp add: version_to_u64_def)
    qed
    from cond_write_done[OF assms(2) match n(1), of v] obtain m' where m': "cond_write mb s a e v m = (Inr True, m')"
      "cond_cells m' = (cond_cells m)(s := (cond_cells m s)(a \<mapsto> \<lparr>vv_version = version_from_u64 n, vv_value = v\<rparr>))" by blast
    have "sqlite_cells table w' = (sqlite_cells table w)(s := (sqlite_cells table w s)(a \<mapsto> \<lparr>vv_version = version_from_u64 n, vv_value = v\<rparr>))"
      using wrote(4) n(2) cells[OF wrote(1)] cells[OF wrote(5)] by (simp add: sqlite_writes_def)
    then have "follows table w' m'" using same m'(2) by (simp add: follows_def)
    moreover have "r = Inr True \<or> database_failed r" using wrote(6) failed by (metis (full_types))
    ultimately show ?thesis using m'(1) by blast
  qed
qed

lemma read_followed:
  assumes alone: "\<And>w w'. evolves w w' \<longleftrightarrow> table w' = table w" and "mb_ttl mb = None" "follows table w m"
    and "sqlite_read db s a w = (r, w')"
  shows "(cond_read mb s a m = (r, m) \<or> a < 2 ^ 63 \<and> r = Inl CondBackendUnavailable) \<and> follows table w' m"
proof -
  obtain w1 where w1: "table w1 = table w" "table w' = table w1" "\<And>x. r = Inr x \<Longrightarrow> x = sqlite_cells table w1 s a"
    using sqlite_read_law[OF assms(4)] unfolding alone by blast
  have "cond_read mb s a m = (r, m)" if "r = Inr x" for x
  proof -
    have "x = cond_cells m s a" using w1(1,3) assms(3) that by (simp add: follows_def sqlite_cells_def)
    then show ?thesis using assms(2) that by (simp add: cond_read_def cond_cells_def mem_check_def split: option.split)
  qed
  moreover have "a < 2 ^ 63 \<and> r = Inl CondBackendUnavailable" if "r = Inl err" for err
    using assms(4) that by (auto simp: sqlite_read_def to_sqlite_address_def eff_defs split: if_splits prod.splits sum.splits)
  ultimately show ?thesis using follows_table[OF _ assms(3)] w1(1,2) by (cases r) auto
qed

lemma tail_followed:
  assumes alone: "\<And>w w'. evolves w w' \<longleftrightarrow> table w' = table w" and "mb_ttl mb = None" "follows table w m"
    and "sqlite_tail db s n w = (r, w')"
  shows "(cond_tail mb s n m = (r, m) \<or> 0 < n \<and> r = Inl TailBackendUnavailable) \<and> follows table w' m"
proof (cases "n = 0")
  case True
  then show ?thesis using assms(3,4) by (simp add: sqlite_tail_def cond_tail_def)
next
  case False
  obtain t0 where call: "db_addresses db s (limit_as_i64 n) w = (t0, w')"
    and t: "r = (case t0 of Inl e \<Rightarrow> Inl TailBackendUnavailable | Inr as \<Rightarrow> Inr (case map i64_as_u64 as of [] \<Rightarrow> 0
        | m # _ \<Rightarrow> window_gap (m + 1) (map i64_as_u64 as) n))"
    using assms(4) False by (auto simp: sqlite_tail_def split: prod.splits sum.splits)
  from addresses_law[OF call] obtain w1 where w1: "table w1 = table w" "table w' = table w1"
    and found: "\<And>as. t0 = Inr as \<Longrightarrow> newest_addresses (dom (table w1 s)) (limit_as_i64 n) as" unfolding alone by blast
  have rows: "\<forall>a \<in> dom (table w1 s). 0 \<le> a \<and> a < 2 ^ 63" using row_range by fastforce
  have "dom (sqlite_cells table w1 s) = nat ` dom (table w1 s)" by (rule sqlite_cells_dom) (use row_range in fastforce)
  moreover have "cond_cells m = sqlite_cells table w1" using assms(3) w1(1) by (simp add: follows_def sqlite_cells_def fun_eq_iff)
  ultimately have "cond_tail mb s n m = (Inr (first_gap (nat ` dom (table w1 s)) n), m)"
    using cond_tail_gap[OF assms(2)] False by simp
  then show ?thesis using t newest_gap[OF found rows] False follows_table[OF _ assms(3)] w1 by (cases t0) auto
qed

end

section \<open>What DynamoDB promises\<close>

definition item_set :: "string \<Rightarrow> nat \<Rightarrow> nat \<times> 'v \<Rightarrow> (string \<Rightarrow> nat \<Rightarrow> (nat \<times> 'v) option) \<Rightarrow> string \<Rightarrow> nat \<Rightarrow> (nat \<times> 'v) option" where
  "item_set s a item t = t(s := (t s)(a \<mapsto> item))"

text \<open>
  One page of a query, newest first: at most \<open>lim\<close> addresses, none above them missing, and at least one when there is
  one.  A page may end before the limit, as DynamoDB reads at most 1 MB of items for a page.
\<close>
definition query_page :: "nat set \<Rightarrow> nat \<Rightarrow> nat list \<Rightarrow> bool" where
  "query_page D lim as \<longleftrightarrow> sorted_wrt (>) as \<and> set as \<subseteq> D \<and> length as \<le> lim \<and> (as = [] \<longrightarrow> D = {}) \<and>
     (\<forall>a \<in> D - set as. \<forall>b \<in> set as. a < b)"

locale dynamo_table =
  fixes dy :: "('v, 'w) dynamo_client"
    and items :: "'w \<Rightarrow> string \<Rightarrow> nat \<Rightarrow> (nat \<times> 'v) option"
    and evolves :: "'w \<Rightarrow> 'w \<Rightarrow> bool"
  assumes evolves_refl: "evolves w w"
    and evolves_trans: "evolves w w1 \<Longrightarrow> evolves w1 w2 \<Longrightarrow> evolves w w2"
    and evolves_items: "evolves w w1 \<Longrightarrow> items w s a \<noteq> None \<Longrightarrow> items w1 s a \<noteq> None"
    and put_law: "dy_put dy s a new v cond w = (r, w') \<Longrightarrow>
        (\<exists>w1. evolves w w1 \<and> evolves w1 w' \<and> r \<noteq> Inr () \<and> (r = Inl ConditionalCheckFailed \<longrightarrow> map_option fst (items w1 s a) \<noteq> cond)) \<or>
        (\<exists>w1 w2. evolves w w1 \<and> map_option fst (items w1 s a) = cond \<and> items w2 = item_set s a (new, v) (items w1) \<and>
           evolves w2 w' \<and> r \<noteq> Inl ConditionalCheckFailed)"
    and get_law: "dy_get dy s a w = (g, w') \<Longrightarrow>
        \<exists>w1. evolves w w1 \<and> evolves w1 w' \<and>
          (\<forall>x. g = Inr x \<longrightarrow> x = map_option (\<lambda>(n, v). (Some (AttrN (Some n)), Some (AttrB v))) (items w1 s a))"
    and query_law: "0 < lim \<Longrightarrow> dy_query dy s (int lim) w = (t, w') \<Longrightarrow>
        \<exists>w1. evolves w w1 \<and> evolves w1 w' \<and>
          (\<forall>its. t = Inr its \<longrightarrow> (\<exists>as. its = map (\<lambda>a. Some (AttrN (Some a))) as \<and> query_page (dom (items w1 s)) lim as))"

definition dynamo_cells :: "('w \<Rightarrow> string \<Rightarrow> nat \<Rightarrow> (nat \<times> 'v) option) \<Rightarrow> 'w \<Rightarrow> string \<Rightarrow> nat \<Rightarrow> 'v versioned_value option" where
  "dynamo_cells items w s a = map_option (\<lambda>(n, v). \<lparr>vv_version = version_from_u64 n, vv_value = v\<rparr>) (items w s a)"

lemma map_filter_addresses: "List.map_filter address_of_attribute (map (\<lambda>a. Some (AttrN (Some a))) as) = as"
  by (induction as) (simp_all add: address_of_attribute_def map_filter_simps)

lemma descending_max: "sorted_wrt (>) (a # as) \<Longrightarrow> foldl max (a :: nat) as = a"
proof (induction as)
  case (Cons b as)
  then show ?case by simp
qed simp

lemma dynamo_tail_page:
  assumes "0 < n" "n < 2 ^ 31" "dy_query dy s (int n) w = (Inr (map (\<lambda>a. Some (AttrN (Some a))) as), w')" "sorted_wrt (>) as"
  shows "dynamo_tail dy s n w = (Inr (case as of [] \<Rightarrow> 0 | m # _ \<Rightarrow> window_gap (m + 1) as n), w')"
proof -
  have "wrap_i32 (int n) = int n" using assms(2) by (simp add: of_nat_less_numeral_power_cancel_iff)
  then show ?thesis using assms descending_max
    by (cases as) (simp_all add: dynamo_tail_def map_filter_addresses[of "_ # _", simplified] map_filter_simps address_of_attribute_def map_filter_addresses)
qed

context dynamo_table
begin

lemma dynamo_write_law:
  assumes "dynamo_write dy s a expected v w = (r, w')"
  shows "(\<exists>w1. evolves w w1 \<and> evolves w1 w' \<and> r \<noteq> Inr True) \<or>
    (\<exists>w1 w2 n. evolves w w1 \<and> map_option vv_version (dynamo_cells items w1 s a) = expected \<and>
       dynamo_cells items w2 = (dynamo_cells items w1)(s := (dynamo_cells items w1 s)(a \<mapsto> \<lparr>vv_version = version_from_u64 n, vv_value = v\<rparr>)) \<and>
       evolves w2 w' \<and> r \<noteq> Inr False)"
proof -
  have put: ?thesis if call: "dy_put dy s a new v cond w = (r0, w')"
    and r: "r = (case r0 of Inr _ \<Rightarrow> Inr True | Inl ConditionalCheckFailed \<Rightarrow> Inr False | Inl OtherServiceFailure \<Rightarrow> Inl CondBackendUnavailable)"
    and cond: "\<And>w. map_option fst (items w s a) = cond \<Longrightarrow> map_option vv_version (dynamo_cells items w s a) = expected"
    for new cond r0
    using put_law[OF call]
  proof (elim disjE exE conjE, goal_cases)
    case (1 w1)
    then show ?thesis using r by (intro disjI1 exI[of _ w1]) (auto split: sum.splits put_failure.splits)
  next
    case (2 w1 w2)
    have "dynamo_cells items w2 = (dynamo_cells items w1)(s := (dynamo_cells items w1 s)(a \<mapsto> \<lparr>vv_version = version_from_u64 new, vv_value = v\<rparr>))"
      using 2(3) by (auto simp: dynamo_cells_def item_set_def fun_eq_iff)
    then show ?thesis using 2 r cond[of w1]
      by (intro disjI2 exI[of _ w1] exI[of _ w2] exI[of _ new]) (auto split: sum.splits put_failure.splits)
  qed
  show ?thesis
  proof (cases expected)
    case None
    obtain r0 w2 where call: "dy_put dy s a 0 v None w = (r0, w2)" by fastforce
    then have res: "w2 = w'" "r = (case r0 of Inr _ \<Rightarrow> Inr True | Inl ConditionalCheckFailed \<Rightarrow> Inr False | Inl OtherServiceFailure \<Rightarrow> Inl CondBackendUnavailable)"
      using assms(1) None by (auto simp: dynamo_write_def Let_def split: sum.splits put_failure.splits)
    show ?thesis by (rule put[OF call[unfolded res(1)] res(2)]) (simp add: dynamo_cells_def None)
  next
    case (Some ver)
    show ?thesis
    proof (cases "version_to_u64 ver")
      case None
      then show ?thesis using assms(1) Some evolves_refl by (intro disjI1 exI[of _ w]) (auto simp: dynamo_write_def Let_def)
    next
      case v: (Some k)
      obtain r0 w2 where call: "dy_put dy s a ((k + 1) mod 2 ^ 64) v (Some k) w = (r0, w2)" by fastforce
      then have res: "w2 = w'" "r = (case r0 of Inr _ \<Rightarrow> Inr True | Inl ConditionalCheckFailed \<Rightarrow> Inr False | Inl OtherServiceFailure \<Rightarrow> Inl CondBackendUnavailable)"
        using assms(1) Some v by (auto simp: dynamo_write_def Let_def split: sum.splits put_failure.splits)
      have "version_from_u64 k = ver" by (rule version_inverse[OF v])
      then show ?thesis by (intro put[OF call[unfolded res(1)] res(2)]) (auto simp: dynamo_cells_def Some)
    qed
  qed
qed

lemma dynamo_read_law:
  assumes "dynamo_read dy s a w = (g, w')"
  shows "\<exists>w1. evolves w w1 \<and> evolves w1 w' \<and> (\<forall>x. g = Inr x \<longrightarrow> x = dynamo_cells items w1 s a)"
proof -
  obtain g0 where call: "dy_get dy s a w = (g0, w')"
    using assms by (auto simp: dynamo_read_def split: prod.splits sum.splits option.splits attribute.splits)
  from get_law[OF call] obtain w1 where w1: "evolves w w1" "evolves w1 w'"
    "\<forall>x. g0 = Inr x \<longrightarrow> x = map_option (\<lambda>(n, v). (Some (AttrN (Some n)), Some (AttrB v))) (items w1 s a)" by blast
  have "x = dynamo_cells items w1 s a" if "g = Inr x" for x
    using assms call that w1(3) by (cases g0; cases "items w1 s a") (auto simp: dynamo_read_def dynamo_cells_def split: option.splits)
  then show ?thesis using w1 by blast
qed

text \<open>With the window of one that the write-once bus uses, a page is never short, and the tail is right.\<close>
lemma dynamo_tail_law:
  assumes "dynamo_tail dy s 1 w = (Inr p, w')" "dom (items w s) = {..<k}" "dom (items w' s) = {..<k'}"
  shows "k \<le> p \<and> p \<le> k'"
proof -
  obtain t where call: "dy_query dy s (int 1) w = (t, w')" "\<exists>its. t = Inr its"
    using assms(1) by (auto simp: dynamo_tail_def split: prod.splits sum.splits)
  have one: "(0 :: nat) < 1" by simp
  from query_law[OF one call(1)] call(2) obtain w1 as where w1: "evolves w w1" "evolves w1 w'"
    "t = Inr (map (\<lambda>a. Some (AttrN (Some a))) as)" "query_page (dom (items w1 s)) 1 as" by blast
  have page: "sorted_wrt (>) as" "set as \<subseteq> dom (items w1 s)" "as = [] \<longrightarrow> dom (items w1 s) = {}" "length as \<le> 1"
    "\<forall>a \<in> dom (items w1 s) - set as. \<forall>b \<in> set as. a < b" using w1(4) by (simp_all add: query_page_def)
  have p: "p = (case as of [] \<Rightarrow> 0 | m # _ \<Rightarrow> window_gap (m + 1) as 1)"
    using dynamo_tail_page[OF one _ call(1)[unfolded w1(3)] page(1)] assms(1) by simp
  have grow: "{..<k} \<subseteq> dom (items w1 s)" "dom (items w1 s) \<subseteq> {..<k'}"
    using evolves_items[OF w1(1), of s] evolves_items[OF w1(2), of s] assms(2,3) by blast+
  show ?thesis
  proof (cases as)
    case Nil
    then show ?thesis using p page(3) grow(1) by (simp add: lessThan_empty_iff bot_nat_def)
  next
    case (Cons m r)
    then have as: "as = [m]" using page(4) by simp
    have "p = m + 1" using p by (simp add: as window_gap_def)
    moreover have "m \<in> dom (items w1 s)" using page(2) as by simp
    moreover have "k \<le> m + 1"
    proof (rule ccontr)
      assume "\<not> k \<le> m + 1"
      then have "m + 1 \<in> {..<k}" by simp
      then have "m + 1 \<in> dom (items w1 s)" using grow(1) by blast
      then show False using page(5) as by fastforce
    qed
    ultimately show ?thesis using grow(2) by auto
  qed
qed

end

section \<open>A concrete table\<close>

text \<open>Items as an association list, without other clients; a page holds at most \<open>Suc page\<close> items.\<close>
type_synonym 'v items = "((string \<times> nat) \<times> (nat \<times> 'v)) list"

definition sim_items :: "'v items \<Rightarrow> string \<Rightarrow> nat \<Rightarrow> (nat \<times> 'v) option" where
  "sim_items its s a = map_of its (s, a)"

definition item_addresses :: "'v items \<Rightarrow> string \<Rightarrow> nat list" where
  "item_addresses its s = rev (sort (remdups (map (snd \<circ> fst) (filter (\<lambda>it. fst (fst it) = s) its))))"

definition sim_client :: "nat \<Rightarrow> ('v, 'v items) dynamo_client" where
  "sim_client page =
     \<lparr>dy_put = (\<lambda>s a new v cond its. if map_option fst (sim_items its s a) = cond then (Inr (), ((s, a), (new, v)) # its)
         else (Inl ConditionalCheckFailed, its)),
      dy_get = (\<lambda>s a its. (Inr (map_option (\<lambda>(n, v). (Some (AttrN (Some n)), Some (AttrB v))) (sim_items its s a)), its)),
      dy_query = (\<lambda>s lim its. (Inr (map (\<lambda>a. Some (AttrN (Some a))) (take (min (nat lim) (Suc page)) (item_addresses its s))), its))\<rparr>"

lemma item_addresses_page: "0 < n \<Longrightarrow> n \<le> lim \<Longrightarrow> query_page (dom (sim_items its s)) lim (take n (item_addresses its s))"
proof -
  assume n: "0 < n" "n \<le> lim"
  let ?as = "item_addresses its s"
  have all: "set ?as = dom (sim_items its s)"
    by (force simp: item_addresses_def sim_items_def dom_map_of_conv_image_fst dom_def map_of_eq_None_iff)
  have "sorted_wrt (<) (sort (remdups (map (snd \<circ> fst) (filter (\<lambda>it. fst (fst it) = s) its))))"
    by (simp only: strict_sorted_iff sorted_sort distinct_sort distinct_remdups simp_thms)
  then have desc: "sorted_wrt (>) ?as" unfolding item_addresses_def by (simp only: sorted_wrt_rev)
  have below: "a < b" if "b \<in> set (take n ?as)" "a \<in> set (drop n ?as)" for a b
    using desc that unfolding sorted_wrt_append[of _ "take n ?as" "drop n ?as", unfolded append_take_drop_id] by blast
  have rest: "a \<in> set (drop n ?as)" if "a \<in> set ?as" "a \<notin> set (take n ?as)" for a
    using that append_take_drop_id[of n ?as] by (metis Un_iff set_append)
  have "take n ?as = [] \<longrightarrow> dom (sim_items its s) = {}" using n(1) all[symmetric] by simp
  moreover have "\<forall>a \<in> dom (sim_items its s) - set (take n ?as). \<forall>b \<in> set (take n ?as). a < b"
    using below rest all by blast
  moreover have "set (take n ?as) \<subseteq> dom (sim_items its s)" using set_take_subset[of n ?as] all by blast
  ultimately show ?thesis using n(2) desc by (simp add: query_page_def sorted_wrt_take)
qed

definition items_stay :: "'v items \<Rightarrow> 'v items \<Rightarrow> bool" where
  "items_stay its its' \<longleftrightarrow> (\<forall>s a. sim_items its s a \<noteq> None \<longrightarrow> sim_items its' s a \<noteq> None)"

interpretation sim_dynamo: dynamo_table "sim_client page" sim_items items_stay for page
proof (unfold_locales, goal_cases)
  case (4 s a new v cond w r w')
  show ?case
  proof (cases "map_option fst (sim_items w s a) = cond")
    case True
    then have "sim_items w' = item_set s a (new, v) (sim_items w)" "r = Inr ()"
      using 4 by (auto simp: sim_client_def sim_items_def item_set_def fun_eq_iff)
    then show ?thesis using True by (intro disjI2 exI[of _ w] exI[of _ w']) (simp add: items_stay_def)
  next
    case False
    then show ?thesis using 4 by (intro disjI1 exI[of _ w]) (auto simp: sim_client_def items_stay_def)
  qed
next
  case (5 s a w g w')
  then show ?case by (intro exI[of _ w]) (auto simp: sim_client_def items_stay_def)
next
  case (6 lim s w t w')
  then show ?case using item_addresses_page[of "min lim (Suc page)" lim w s]
    by (intro exI[of _ w]) (auto simp: sim_client_def items_stay_def)
qed (auto simp: items_stay_def)

section \<open>Properties\<close>

text \<open>
  C38. When no other connection runs, and the in-memory space without expiry holds what the table holds, the SQLite space
  answers every read and every tail, holes included, as the in-memory space, and every write except two: it refuses an address that
  does not fit a signed 64-bit integer and a version that is not eight bytes long with an internal error, and for such a version the
  in-memory space answers instead that nothing was written.  Otherwise only a database error makes a difference; a write that
  failed has either not happened or happened as in memory.  The in-memory space then still holds what the table holds: the versions
  of rows, as the signed column SQLite keeps them in, count and wrap as the unsigned versions of the in-memory space.
\<close>
theorem sqlite_refines_memory:
  assumes "sqlite_engine db table (\<lambda>w w'. table w' = table w)" "mb_ttl mb = None" "follows table w m"
  shows "(\<forall>r w'. sqlite_write db s a e v w = (r, w') \<longrightarrow>
      (if 2 ^ 63 \<le> a \<or> (\<exists>ver. e = Some ver \<and> length ver \<noteq> 8) then r = Inl CondInternalError \<and> w' = w
       else (\<exists>done m'. cond_write mb s a e v m = (Inr done, m') \<and> follows table w' m' \<and> (r = Inr done \<or> database_failed r)) \<or>
         database_failed r \<and> follows table w' m)) \<and>
    (\<forall>ver. length ver \<noteq> 8 \<longrightarrow> (\<exists>m'. cond_write mb s a (Some ver) v m = (Inr False, m') \<and> follows table w m')) \<and>
    (\<forall>r w'. sqlite_read db s a w = (r, w') \<longrightarrow>
      (cond_read mb s a m = (r, m) \<or> a < 2 ^ 63 \<and> r = Inl CondBackendUnavailable) \<and> follows table w' m) \<and>
    (\<forall>r w'. sqlite_tail db s n w = (r, w') \<longrightarrow>
      (cond_tail mb s n m = (r, m) \<or> 0 < n \<and> r = Inl TailBackendUnavailable) \<and> follows table w' m)"
proof (intro conjI allI impI, goal_cases)
  case (1 r w')
  show ?case
  proof (cases "2 ^ 63 \<le> a \<or> (\<exists>ver. e = Some ver \<and> length ver \<noteq> 8)")
    case True
    then show ?thesis using 1 by (auto simp: sqlite_write_def to_sqlite_address_def version_to_u64_def split: if_splits)
  next
    case False
    then show ?thesis using sqlite_engine.write_followed[OF assms(1) refl assms(2,3) 1] by auto
  qed
next
  case (2 ver)
  have "map_option vv_version (cond_cells m s a) \<noteq> Some ver"
    using sqlite_engine.cells_version[OF assms(1), of w s a ver] assms(3) 2 by (simp add: follows_def version_to_u64_def)
  from cond_write_refused[OF assms(2) this, of v] show ?case using assms(3) by (auto simp: follows_def)
next
  case (3 r w')
  then show ?case using sqlite_engine.read_followed[OF assms(1) refl assms(2,3)] by blast
next
  case (4 r w')
  then show ?case using sqlite_engine.read_followed[OF assms(1) refl assms(2,3)] by blast
next
  case (5 r w')
  then show ?case using sqlite_engine.tail_followed[OF assms(1) refl assms(2,3)] by blast
next
  case (6 r w')
  then show ?case using sqlite_engine.tail_followed[OF assms(1) refl assms(2,3)] by blast
qed

text \<open>
  C39. The tail of the DynamoDB space believes that one page of the query holds the whole window.  A page may end early (at
  1 MB of items): when the addresses are \<open>0 ..< k\<close> and a page is the newest \<open>j\<close> of them, fewer than the window, the first
  address below the page, which is written, is taken for the gap, and the tail comes out as \<open>k - window\<close> in place of \<open>k\<close>.
\<close>
theorem dynamo_tail_short_page:
  assumes "0 < j" "j < n" "n \<le> k" "n < 2 ^ 31"
    and "dy_query dy s (int n) w = (Inr (map (\<lambda>a. Some (AttrN (Some a))) (rev [k - j..<k])), w')"
  shows "query_page {..<k} n (rev [k - j..<k]) \<and> dynamo_tail dy s n w = (Inr (k - n), w')"
proof -
  let ?as = "rev [k - j..<k]"
  have k: "0 < k" using assms(1-3) by simp
  have desc: "sorted_wrt (>) ?as" by (simp only: sorted_wrt_rev) simp
  have first: "?as = (k - 1) # rev [k - j..<k - 1]"
    using assms(1) k by (cases k) (auto simp: upt_Suc)
  have "window_gap (k - 1 + 1) ?as n = k - n"
  proof -
    have "[k - n..<k] = (k - n) # [Suc (k - n)..<k]" using assms(1-3) by (simp add: upt_conv_Cons)
    moreover have "k - n \<notin> set ?as" using assms(1-3) by auto
    ultimately show ?thesis using k by (simp add: window_gap_def)
  qed
  then have "dynamo_tail dy s n w = (Inr (k - n), w')"
    using dynamo_tail_page[OF _ assms(4,5) desc] assms(1,2) first by simp
  moreover have "query_page {..<k} n ?as" using desc assms k by (auto simp: query_page_def)
  ultimately show ?thesis by blast
qed

section \<open>Witnesses\<close>

theorem sqlite_refines_memory_witness:
  "sqlite_write sim_db ''bus'' 0 None (7 :: nat) [] = (Inr True, [((''bus'', 0), (0, 7))]) \<and>
    (\<exists>(m' :: nat wo_world). cond_write no_expiry ''bus'' 0 None 7 no_spaces = (Inr True, m') \<and>
      follows sim_table [((''bus'', 0), (0, 7))] m')"
proof -
  have ttl: "mb_ttl no_expiry = None" by (simp add: no_expiry_def)
  have "follows (sim_table :: nat sql_rows \<Rightarrow> _) [] no_spaces"
    by (simp add: follows_def sqlite_cells_def sim_table_def cond_cells_def no_spaces_def fun_eq_iff)
  moreover have step: "sqlite_write sim_db ''bus'' 0 None (7 :: nat) [] = (Inr True, [((''bus'', 0), (0, 7))])"
    by (simp add: sqlite_write_def to_sqlite_address_def sim_db_def sim_table_def eff_defs)
  moreover note sqlite_refines_memory[OF sim_engine_alone ttl calculation(1), of "''bus''" 0 None 7, THEN conjunct1,
    rule_format, OF step]
  ultimately show ?thesis by (auto simp: database_failed_def)
qed

theorem dynamo_tail_short_page_witness:
  "dynamo_tail (sim_client 0) ''bus'' 2 [((''bus'', 2), (0, ''c'')), ((''bus'', 1), (0, ''b'')), ((''bus'', 0), (0, ''a''))] =
     (Inr 1, [((''bus'', 2), (0, ''c'')), ((''bus'', 1), (0, ''b'')), ((''bus'', 0), (0, ''a''))])"
proof -
  let ?its = "[((''bus'', 2), (0, ''c'')), ((''bus'', 1), (0, ''b'')), ((''bus'', 0), (0, ''a''))] :: string items"
  have "dy_query (sim_client 0) ''bus'' (int 2) ?its = (Inr (map (\<lambda>a. Some (AttrN (Some a))) (rev [3 - 1..<3])), ?its)"
    by (simp add: sim_client_def item_addresses_def upt_rec)
  from dynamo_tail_short_page[OF _ _ _ _ this] show ?thesis by simp
qed

end
