(* ===== verification/Mailbox.thy ===== *)
theory Mailbox
  imports Bus_Services
begin

text \<open>
  The mailbox of an agent (\<open>bus/core/src/mailbox.rs\<close>): it polls its bus for mail and buffers it, dropping the
  oldest when the buffer is full; \<open>check_mail\<close> drains the buffer.  The locale \<open>polled_log\<close> states what a blocking
  poll promises on top of the contract of a bus, and is interpreted for \<open>blocking_poll_default\<close> over any bus.
\<close>

section \<open>The mailbox\<close>

definition MAX_MAIL_BUFFER :: nat where "MAX_MAIL_BUFFER = 10000"

datatype mailbox_error = MailFailedAgentBusCall

record mail_log_entry =
  ml_from :: string
  ml_content :: string
  ml_position :: int
  ml_message_id :: string
  ml_in_reply_to :: string

text \<open>The bus and the environment of the Rust struct are arguments of the operations.\<close>
record mailbox =
  mx_agent_bus_id :: string
  mx_next_log_position :: int
  mx_mail :: "mail_log_entry list"

definition mailbox_new :: "string \<Rightarrow> mailbox" where
  "mailbox_new agent_bus_id = \<lparr>mx_agent_bus_id = agent_bus_id, mx_next_log_position = 0, mx_mail = []\<rparr>"

definition mail_log_entry_of :: "mail \<Rightarrow> int \<Rightarrow> mail_log_entry" where
  "mail_log_entry_of m position =
     (case (case mail_content m of
        Some (MailMessage msg) \<Rightarrow> (mm_body msg, mm_message_id msg, [])
      | Some (MailReply reply) \<Rightarrow>
          (case mr_message reply of
             Some msg \<Rightarrow> (mm_body msg, mm_message_id msg, mr_in_reply_to reply)
           | None \<Rightarrow> ([], [], mr_in_reply_to reply))
      | None \<Rightarrow> ([], [], [])) of
      (body, message_id, in_reply_to) \<Rightarrow>
        \<lparr>ml_from = sender_agent_id m, ml_content = body, ml_position = position, ml_message_id = message_id,
          ml_in_reply_to = in_reply_to\<rparr>)"

definition mailbox_process_entry :: "bus_entry \<Rightarrow> mailbox \<Rightarrow> mailbox" where
  "mailbox_process_entry entry mb =
     (let position = (case entry_header entry of Some h \<Rightarrow> log_position h | None \<Rightarrow> 0)
      in case entry_payload entry of
           Some (Some (Mail m)) \<Rightarrow>
             let buffered = (if MAX_MAIL_BUFFER \<le> length (mx_mail mb) then tl (mx_mail mb) else mx_mail mb)
             in mb\<lparr>mx_mail := buffered @ [mail_log_entry_of m position]\<rparr>
         | _ \<Rightarrow> mb)"

definition poll_and_receive :: "'w blocking_poll \<Rightarrow> nat option \<Rightarrow> 'w \<times> mailbox \<Rightarrow> ((mailbox_error + nat) \<times> 'w \<times> mailbox) option" where
  "poll_and_receive poll timeout = (\<lambda>(w, mb).
     let timeout_ms = (case timeout of Some d \<Rightarrow> wrap_i32 (int (as_millis d)) | None \<Rightarrow> 0)
     in map_option (\<lambda>(r, w').
          case r of
            Inl _ \<Rightarrow> (Inl MailFailedAgentBusCall, (w', mb))
          | Inr response \<Rightarrow>
              (Inr (length (bs_entries response)),
               (w', (fold mailbox_process_entry (bs_entries response) mb)\<lparr>mx_next_log_position := bs_next_start_position response\<rparr>)))
        (poll \<lparr>bp_bus_id = Some (mx_agent_bus_id mb), bp_start_log_position = mx_next_log_position mb, bp_max_entries = 64,
           bp_filter = Some [to_proto_i32 PT_Mail], bp_timeout_ms = timeout_ms\<rparr> w))"

definition check_mail :: "mailbox \<Rightarrow> mail_log_entry list \<times> mailbox" where
  "check_mail mb = (mx_mail mb, mb\<lparr>mx_mail := []\<rparr>)"

definition send_mail :: "'w agent_bus \<Rightarrow> string \<Rightarrow> string \<Rightarrow> string \<Rightarrow> ('w, mailbox_error, unit) eff" where
  "send_mail B bus_id sender content =
     bindE (map_errE (\<lambda>_. MailFailedAgentBusCall) (bus_append B \<lparr>ar_bus_id = Some bus_id,
       ar_payload = Some (Some (Mail \<lparr>sender_agent_id = sender,
         mail_content = Some (MailMessage \<lparr>mm_body = content, mm_message_id = []\<rparr>)\<rparr>))\<rparr>)) (\<lambda>_. ret ())"

section \<open>What a blocking poll promises\<close>

context log_bus
begin

text \<open>A poll is a step of the world; a response holds the matching entries from its start up to its cursor.\<close>
definition polled :: "blocking_poll_request \<Rightarrow> 'w \<Rightarrow> bus_error + blocking_poll_response \<Rightarrow> 'w \<Rightarrow> bool" where
  "polled req w r w' \<longleftrightarrow> evolves w w' \<and>
     (\<forall>resp b. inv w \<longrightarrow> r = Inr resp \<longrightarrow> bp_bus_id req = Some b \<longrightarrow> 0 \<le> bp_start_log_position req \<longrightarrow>
        bp_start_log_position req \<le> int (length (log w b)) \<longrightarrow>
        bp_start_log_position req \<le> bs_next_start_position resp \<and> bs_next_start_position resp \<le> int (length (log w' b)) \<and>
        bs_entries resp = filter (entry_matches (bp_filter req))
          (segment (log w' b) (bp_start_log_position req) (bs_next_start_position resp)))"

lemma polled_error: "evolves w w' \<Longrightarrow> polled req w (Inl e) w'"
  by (simp add: polled_def)

lemma polled_nothing: "evolves w w' \<Longrightarrow>
   polled req w (Inr \<lparr>bs_entries = [], bs_next_start_position = bp_start_log_position req\<rparr>) w'"
  unfolding polled_def using evolves_inv_log(3)[of w w'] by (auto simp: order_trans)

lemma polled_later:
  assumes "evolves w w1" "polled req w1 r w'"
  shows "polled req w r w'"
  unfolding polled_def
proof (intro conjI allI impI)
  show "evolves w w'" using assms evolves_trans by (auto simp: polled_def)
next
  fix resp b
  assume i: "inv w" "r = Inr resp" "bp_bus_id req = Some b" "0 \<le> bp_start_log_position req" "bp_start_log_position req \<le> int (length (log w b))"
  have "bp_start_log_position req \<le> int (length (log w1 b))" using i(5) evolves_inv_log(3)[OF i(1) assms(1), of b] by linarith
  with assms(2) i evolves_inv[OF assms(1) i(1)]
  have "bp_start_log_position req \<le> bs_next_start_position resp \<and> bs_next_start_position resp \<le> int (length (log w' b)) \<and>
     bs_entries resp = filter (entry_matches (bp_filter req))
       (segment (log w' b) (bp_start_log_position req) (bs_next_start_position resp))"
    unfolding polled_def by blast
  then show "bp_start_log_position req \<le> bs_next_start_position resp" "bs_next_start_position resp \<le> int (length (log w' b))"
    "bs_entries resp = filter (entry_matches (bp_filter req))
       (segment (log w' b) (bp_start_log_position req) (bs_next_start_position resp))" by blast+
qed

text \<open>The read of a poll that saw the tail at \<open>n\<close>.\<close>
lemma polled_read:
  assumes "bus_check_tail B (bp_bus_id req) w = (Inr n, w1)" "bp_start_log_position req < n"
    and "bus_read_next B \<lparr>rn_bus_id = bp_bus_id req, rn_start_log_position = bp_start_log_position req, rn_end_log_position = n,
          rn_max_entries = bp_max_entries req, rn_filter = bp_filter req\<rparr> w1 = (Inr rsp, w2)"
  shows "polled req w (Inr \<lparr>bs_entries = rr_entries rsp, bs_next_start_position = rr_next_start_position rsp\<rparr>) w2"
proof -
  let ?read = "\<lparr>rn_bus_id = bp_bus_id req, rn_start_log_position = bp_start_log_position req, rn_end_log_position = n,
          rn_max_entries = bp_max_entries req, rn_filter = bp_filter req\<rparr>"
  have e1: "evolves w w1" and e2: "evolves w1 w2" using movesD[OF tail_evolves assms(1)] movesD[OF read_evolves assms(3)] .
  have "bp_start_log_position req \<le> rr_next_start_position rsp \<and> rr_next_start_position rsp \<le> int (length (log w2 b)) \<and>
      rr_entries rsp = filter (entry_matches (bp_filter req)) (segment (log w2 b) (bp_start_log_position req) (rr_next_start_position rsp))"
    if "inv w" "bp_bus_id req = Some b" "0 \<le> bp_start_log_position req" for b
  proof -
    have i1: "inv w1" using evolves_inv[OF e1 that(1)] .
    have n: "n \<le> int (length (log w1 b))" using tail_law[OF that(1)] assms(1) that(2) by auto
    have law: "bp_start_log_position req < rr_next_start_position rsp" "rr_next_start_position rsp \<le> n"
      "rr_entries rsp = filter (entry_matches (bp_filter req)) (segment (log w1 b) (bp_start_log_position req) (rr_next_start_position rsp))"
      using read_law[OF i1 _ _ _ _ assms(3), of b] that(2,3) assms(2) n by auto
    then have "segment (log w2 b) (bp_start_log_position req) (rr_next_start_position rsp)
        = segment (log w1 b) (bp_start_log_position req) (rr_next_start_position rsp)"
      using segment_prefix[OF evolves_log[OF e2 i1]] n by simp
    then show ?thesis using law n evolves_inv_log(3)[OF i1 e2, of b] by simp
  qed
  then show ?thesis using evolves_trans[OF e1 e2] by (simp add: polled_def)
qed

end

locale polled_log = log_bus +
  fixes poll :: "'a blocking_poll"
  assumes poll_law: "poll req2 w = Some (r, w') \<Longrightarrow> polled req2 w r w'"

text \<open>An environment whose clock and sleeps are steps of the world.\<close>
locale polling_env = log_bus +
  fixes env :: "'a environment"
  assumes time_evolves: "env_monotonic_time env w = (t, w') \<Longrightarrow> evolves w w'"
    and sleep_evolves: "evolves w (env_sleep env d w)"
begin

lemma blocking_poll_loop_sound:
  assumes "blocking_poll_loop B env req interval deadline w = Some (r, w')"
  shows "polled req w r w'"
proof -
  define P where "P B' env' req' i d w y \<longleftrightarrow> B' = B \<longrightarrow> env' = env \<longrightarrow> req' = req \<longrightarrow> polled req w (fst y) (snd y)"
    for B' env' req' and i :: "nat option" and d :: nat and w and y :: "(bus_error + blocking_poll_response) \<times> 'a"
  have "P B env req interval deadline w (r, w')"
  proof (rule blocking_poll_loop.raw_induct[OF _ assms])
    fix loop B' env' req' i d w y
    assume IH: "\<And>B env req i d w y. loop B env req i d w = Some y \<Longrightarrow> P B env req i d w y"
      and body: "(case bus_check_tail B' (bp_bus_id req') w of
        (Inl e, w1) \<Rightarrow> Some (Inl e, w1)
      | (Inr tail, w1) \<Rightarrow>
          if bp_start_log_position req' < tail then
            Some (bindE (bus_read_next B' \<lparr>rn_bus_id = bp_bus_id req',
                    rn_start_log_position = bp_start_log_position req', rn_end_log_position = tail,
                    rn_max_entries = bp_max_entries req', rn_filter = bp_filter req'\<rparr>)
                  (\<lambda>resp. ret \<lparr>bs_entries = rr_entries resp,
                       bs_next_start_position = rr_next_start_position resp\<rparr>) w1)
          else
            (case env_monotonic_time env' w1 of (now, w2) \<Rightarrow>
               if d \<le> now then
                 Some (Inr \<lparr>bs_entries = [], bs_next_start_position = bp_start_log_position req'\<rparr>, w2)
               else loop B' env' req' i d
                      (env_sleep env' (min (case i of Some i \<Rightarrow> i | None \<Rightarrow> DEFAULT_POLL_INTERVAL) (d - now)) w2))) = Some y"
    show "P B' env' req' i d w y"
      unfolding P_def
    proof (intro impI)
      assume eqs: "B' = B" "env' = env" "req' = req"
      obtain t w1 where tail: "bus_check_tail B (bp_bus_id req) w = (t, w1)" by fastforce
      have e1: "evolves w w1" using movesD[OF tail_evolves tail] .
      obtain now w2 where time: "env_monotonic_time env w1 = (now, w2)" by fastforce
      have e2: "evolves w w2" using evolves_trans[OF e1 time_evolves[OF time]] .
      consider (fail) e where "t = Inl e" | (more) n where "t = Inr n" "bp_start_log_position req < n"
        | (none) n where "t = Inr n" "\<not> bp_start_log_position req < n" by (cases t) auto
      then show "polled req w (fst y) (snd y)"
      proof cases
        case fail
        then show ?thesis using body tail eqs polled_error[OF e1] by auto
      next
        case more
        obtain g w3 where rd: "bus_read_next B \<lparr>rn_bus_id = bp_bus_id req, rn_start_log_position = bp_start_log_position req,
          rn_end_log_position = n, rn_max_entries = bp_max_entries req, rn_filter = bp_filter req\<rparr> w1 = (g, w3)" by fastforce
        show ?thesis
        proof (cases g)
          case (Inl e)
          then have "y = (Inl e, w3)" using body tail eqs more rd by (simp add: bindE_def)
          then show ?thesis using polled_error[OF evolves_trans[OF e1 movesD[OF read_evolves rd]]] by simp
        next
          case (Inr rsp)
          then have "y = (Inr \<lparr>bs_entries = rr_entries rsp, bs_next_start_position = rr_next_start_position rsp\<rparr>, w3)"
            using body tail eqs more rd by (simp add: bindE_def ret_def)
          then show ?thesis using polled_read[OF tail[unfolded more(1)] more(2) rd[unfolded Inr]] by simp
        qed
      next
        case none
        show ?thesis
        proof (cases "d \<le> now")
          case True
          then have "y = (Inr \<lparr>bs_entries = [], bs_next_start_position = bp_start_log_position req\<rparr>, w2)"
            using body tail eqs none time by simp
          then show ?thesis using polled_nothing[OF e2] by simp
        next
          case False
          let ?d = "min (case i of Some i \<Rightarrow> i | None \<Rightarrow> DEFAULT_POLL_INTERVAL) (d - now)"
          have "loop B env req i d (env_sleep env ?d w2) = Some y" using body tail eqs none time False by simp
          from IH[OF this] have "polled req (env_sleep env ?d w2) (fst y) (snd y)" unfolding P_def by blast
          then show ?thesis by (rule polled_later[OF evolves_trans[OF e2 sleep_evolves]])
        qed
      qed
    qed
  qed
  then show ?thesis by (simp add: P_def)
qed

lemma blocking_poll_default_sound:
  assumes "blocking_poll_default B env req interval max_ms w = Some (r, w')"
  shows "polled req w r w'"
proof (cases "bp_timeout_ms req < 0 \<or> bp_max_entries req \<le> 0")
  case True
  then show ?thesis using assms polled_error[OF evolves_refl] by (auto simp: blocking_poll_default_def split: if_splits)
next
  case False
  obtain now w1 where time: "env_monotonic_time env w = (now, w1)" by fastforce
  obtain d where loop: "blocking_poll_loop B env req interval d w1 = Some (r, w')"
    using assms False time by (auto simp: blocking_poll_default_def Let_def)
  show ?thesis by (rule polled_later[OF time_evolves[OF time] blocking_poll_loop_sound[OF loop]])
qed

end

sublocale polling_env \<subseteq> polled_log B log inv evolves "\<lambda>req. blocking_poll_default B env req i m" for i m
  by unfold_locales (rule blocking_poll_default_sound)

section \<open>Every mail is received once, in order\<close>

text \<open>The mail of a log, as the mailbox stores it.\<close>
fun mail_of_entry :: "bus_entry \<Rightarrow> mail_log_entry option" where
  "mail_of_entry e = (case entry_payload e of
     Some (Some (Mail m)) \<Rightarrow> Some (mail_log_entry_of m (case entry_header e of Some h \<Rightarrow> log_position h | None \<Rightarrow> 0))
   | _ \<Rightarrow> None)"

definition mails :: "bus_entry list \<Rightarrow> mail_log_entry list" where
  "mails es = List.map_filter mail_of_entry es"

lemma mails_simps [simp]: "mails [] = []" "mails (es @ es') = mails es @ mails es'"
  by (simp_all add: mails_def map_filter_def)

lemma mails_Cons: "mails (e # es) = (case mail_of_entry e of Some m \<Rightarrow> [m] | None \<Rightarrow> []) @ mails es"
  by (simp add: mails_def map_filter_simps split: option.split)

lemma mails_filter: "mails (filter (entry_matches (Some [to_proto_i32 PT_Mail])) es) = mails es"
proof (induction es)
  case (Cons e es)
  have "mail_of_entry e = None" if "\<not> entry_matches (Some [to_proto_i32 PT_Mail]) e"
    using that by (auto simp: entry_matches_def payload_matches_filter_def split: option.splits payload_kind.splits)
  then show ?case using Cons by (auto simp: mails_Cons split: option.split)
qed simp

text \<open>Buffering keeps the newest mail: a suffix of the old buffer and the new mail, whole if it fits.\<close>
lemma process_entry_mail:
  "mx_mail (mailbox_process_entry e mb) =
     (case mail_of_entry e of None \<Rightarrow> mx_mail mb
      | Some m \<Rightarrow> (if MAX_MAIL_BUFFER \<le> length (mx_mail mb) then tl (mx_mail mb) else mx_mail mb) @ [m])"
  "mx_agent_bus_id (mailbox_process_entry e mb) = mx_agent_bus_id mb"
  by (auto simp: mailbox_process_entry_def Let_def split: option.split payload_kind.split)

lemma fold_process_bus_id [simp]: "mx_agent_bus_id (fold mailbox_process_entry es mb) = mx_agent_bus_id mb"
  by (induction es arbitrary: mb) (simp_all add: process_entry_mail)

lemma fold_process_mail:
  assumes "length (mx_mail mb) \<le> MAX_MAIL_BUFFER"
  shows "length (mx_mail (fold mailbox_process_entry es mb)) \<le> MAX_MAIL_BUFFER \<and>
    suffix (mx_mail (fold mailbox_process_entry es mb)) (mx_mail mb @ mails es) \<and>
    (length (mx_mail mb @ mails es) \<le> MAX_MAIL_BUFFER \<longrightarrow> mx_mail (fold mailbox_process_entry es mb) = mx_mail mb @ mails es)"
  using assms
proof (induction es arbitrary: mb)
  case (Cons e es)
  let ?mb = "mailbox_process_entry e mb"
  have len: "length (mx_mail ?mb) \<le> MAX_MAIL_BUFFER"
    using Cons.prems by (auto simp: process_entry_mail MAX_MAIL_BUFFER_def split: option.split)
  have suf: "suffix (mx_mail ?mb) (mx_mail mb @ mails [e])"
    by (auto simp: process_entry_mail mails_Cons split: option.split)
  have whole: "mx_mail ?mb = mx_mail mb @ mails [e]" if "length (mx_mail mb @ mails [e]) \<le> MAX_MAIL_BUFFER"
    using that by (auto simp: process_entry_mail mails_Cons split: option.splits)
  have split: "mails (e # es) = mails [e] @ mails es" using mails_simps(2)[of "[e]" es] by simp
  note IH = Cons.IH[OF len]
  have "suffix (mx_mail ?mb @ mails es) (mx_mail mb @ mails (e # es))"
    using suf unfolding split by (simp flip: append_assoc)
  then have "suffix (mx_mail (fold mailbox_process_entry es ?mb)) (mx_mail mb @ mails (e # es))"
    using IH suffix_order.trans by blast
  moreover have "mx_mail (fold mailbox_process_entry es ?mb) = mx_mail mb @ mails (e # es)"
    if "length (mx_mail mb @ mails (e # es)) \<le> MAX_MAIL_BUFFER"
  proof -
    have "mx_mail ?mb = mx_mail mb @ mails [e]" using that whole unfolding split by simp
    then show ?thesis using that IH unfolding split by simp
  qed
  ultimately show ?case using IH by simp
qed simp

text \<open>The states of a mailbox on bus \<open>b\<close>: it polls, its owner drains it, and other tasks move the world; the list
  is the mail drained so far.\<close>
inductive mailbox_reachable :: "'w blocking_poll \<Rightarrow> ('w \<Rightarrow> 'w \<Rightarrow> bool) \<Rightarrow> 'w \<Rightarrow> string \<Rightarrow> mail_log_entry list \<Rightarrow> 'w \<times> mailbox \<Rightarrow> bool"
  for poll other w0 b where
  start: "mailbox_reachable poll other w0 b [] (w0, mailbox_new b)"
| poll: "mailbox_reachable poll other w0 b taken s \<Longrightarrow> poll_and_receive poll timeout s = Some (r, s') \<Longrightarrow>
    mailbox_reachable poll other w0 b taken s'"
| check: "mailbox_reachable poll other w0 b taken (w, mb) \<Longrightarrow> check_mail mb = (ms, mb') \<Longrightarrow>
    mailbox_reachable poll other w0 b (taken @ ms) (w, mb')"
| other: "mailbox_reachable poll other w0 b taken (w, mb) \<Longrightarrow> other w w' \<Longrightarrow> mailbox_reachable poll other w0 b taken (w', mb)"

text \<open>What the mailbox and its owner have, against the mail of the log up to the cursor.\<close>
definition mailbox_tracks :: "bus_entry list \<Rightarrow> mail_log_entry list \<Rightarrow> mailbox \<Rightarrow> bool" where
  "mailbox_tracks es taken mb \<longleftrightarrow> 0 \<le> mx_next_log_position mb \<and> mx_next_log_position mb \<le> int (length es) \<and>
     (let arrived = mails (segment es 0 (mx_next_log_position mb)) in
        subseq (taken @ mx_mail mb) arrived \<and> suffix (mx_mail mb) arrived \<and> length (mx_mail mb) \<le> MAX_MAIL_BUFFER \<and>
        (length arrived \<le> MAX_MAIL_BUFFER \<longrightarrow> taken @ mx_mail mb = arrived))"

lemma mailbox_tracks_prefix: "mailbox_tracks es taken mb \<Longrightarrow> prefix es es' \<Longrightarrow> mailbox_tracks es' taken mb"
  using segment_prefix[of es es' "mx_next_log_position mb" 0] prefix_length_le[of es es']
  by (auto simp: mailbox_tracks_def Let_def)

lemma mailbox_tracks_receive:
  assumes "mailbox_tracks es taken mb" "mx_next_log_position mb \<le> n" "n \<le> int (length es)"
  shows "mailbox_tracks es taken ((fold mailbox_process_entry
     (filter (entry_matches (Some [to_proto_i32 PT_Mail])) (segment es (mx_next_log_position mb) n)) mb)\<lparr>mx_next_log_position := n\<rparr>)"
proof -
  let ?c = "mx_next_log_position mb" and ?new = "mails (segment es (mx_next_log_position mb) n)"
  let ?es = "filter (entry_matches (Some [to_proto_i32 PT_Mail])) (segment es ?c n)"
  let ?mail = "mx_mail (fold mailbox_process_entry ?es mb)"
  have t: "0 \<le> ?c" "?c \<le> int (length es)" "subseq (taken @ mx_mail mb) (mails (segment es 0 ?c))" "suffix (mx_mail mb) (mails (segment es 0 ?c))"
    "length (mx_mail mb) \<le> MAX_MAIL_BUFFER" "length (mails (segment es 0 ?c)) \<le> MAX_MAIL_BUFFER \<longrightarrow> taken @ mx_mail mb = mails (segment es 0 ?c)"
    using assms(1) by (auto simp: mailbox_tracks_def Let_def)
  have arrived: "mails (segment es 0 n) = mails (segment es 0 ?c) @ ?new"
    using segment_append[of 0 ?c n es] t(1) assms(2) by (metis mails_simps(2) order_refl)
  note f = fold_process_mail[OF t(5), of ?es, unfolded mails_filter]
  have "subseq (taken @ ?mail) (taken @ (mx_mail mb @ ?new))"
    using f suffix_imp_subseq by (meson list_emb_append_mono subseq_order.refl)
  moreover have "subseq (taken @ (mx_mail mb @ ?new)) (mails (segment es 0 n))"
    unfolding arrived using t(3) list_emb_append_mono[of "(=)" "taken @ mx_mail mb" _ ?new ?new] by simp
  ultimately have "subseq (taken @ ?mail) (mails (segment es 0 n))" by (rule subseq_order.trans)
  moreover have "suffix ?mail (mails (segment es 0 n))"
    unfolding arrived using f t(4) by (meson suffix_order.trans same_suffix_suffix)
  moreover have "taken @ ?mail = mails (segment es 0 n)" if "length (mails (segment es 0 n)) \<le> MAX_MAIL_BUFFER"
  proof -
    have old: "length (mails (segment es 0 ?c)) + length ?new \<le> MAX_MAIL_BUFFER" using that unfolding arrived by simp
    then have eq: "taken @ mx_mail mb = mails (segment es 0 ?c)" using t(6) by simp
    then have "length (mx_mail mb) \<le> length (mails (segment es 0 ?c))" by (metis length_append le_add2)
    then have "?mail = mx_mail mb @ ?new" using f old by simp
    then show ?thesis using eq unfolding arrived by (simp flip: append_assoc)
  qed
  ultimately show ?thesis using f t(1) assms(2,3) by (simp add: mailbox_tracks_def Let_def)
qed

context polled_log
begin

lemma receive_step:
  assumes "poll_and_receive poll timeout (w, mb) = Some (r, (w', mb'))" "inv w" "mx_agent_bus_id mb = b"
    and "mailbox_tracks (log w b) taken mb"
  shows "evolves w w' \<and> mx_agent_bus_id mb' = b \<and> mailbox_tracks (log w' b) taken mb'"
proof -
  define req where "req = \<lparr>bp_bus_id = Some b, bp_start_log_position = mx_next_log_position mb, bp_max_entries = 64,
      bp_filter = Some [to_proto_i32 PT_Mail], bp_timeout_ms = (case timeout of Some d \<Rightarrow> wrap_i32 (int (as_millis d)) | None \<Rightarrow> 0)\<rparr>"
  obtain x w1 where call1: "poll req w = Some (x, w1)"
    using assms(1,3) by (auto simp: poll_and_receive_def Let_def req_def)
  then have "w1 = w'" using assms(1,3) by (auto simp: poll_and_receive_def Let_def req_def split: sum.splits)
  note call = call1[unfolded this]
  note law = poll_law[OF call, unfolded polled_def]
  have ev: "evolves w w'" using law by blast
  have tr: "mailbox_tracks (log w' b) taken mb" using mailbox_tracks_prefix[OF assms(4) evolves_log[OF ev assms(2)]] .
  show ?thesis
  proof (cases x)
    case (Inl e)
    then have "mb' = mb" using assms(1,3) call by (auto simp: poll_and_receive_def Let_def req_def)
    then show ?thesis using ev assms(3) tr by simp
  next
    case (Inr resp)
    then have mb': "mb' = (fold mailbox_process_entry (bs_entries resp) mb)\<lparr>mx_next_log_position := bs_next_start_position resp\<rparr>"
      using assms(1,3) call by (auto simp: poll_and_receive_def Let_def req_def)
    have "0 \<le> mx_next_log_position mb" "mx_next_log_position mb \<le> int (length (log w b))" using assms(4) by (simp_all add: mailbox_tracks_def)
    then have r: "mx_next_log_position mb \<le> bs_next_start_position resp" "bs_next_start_position resp \<le> int (length (log w' b))"
      "bs_entries resp = filter (entry_matches (Some [to_proto_i32 PT_Mail])) (segment (log w' b) (mx_next_log_position mb) (bs_next_start_position resp))"
      using law Inr assms(2) by (auto simp: req_def)
    show ?thesis unfolding mb' r(3) using mailbox_tracks_receive[OF tr r(1,2)] ev assms(3) by simp
  qed
qed

lemma mailbox_invariant:
  assumes "mailbox_reachable poll evolves w0 b taken s" "inv w0"
  shows "inv (fst s) \<and> mx_agent_bus_id (snd s) = b \<and> mailbox_tracks (log (fst s) b) taken (snd s)"
  using assms
proof (induction rule: mailbox_reachable.induct)
  case start
  then show ?case by (simp add: mailbox_new_def mailbox_tracks_def Let_def)
next
  case (poll taken s timeout r s')
  obtain w mb w' mb' where s: "s = (w, mb)" "s' = (w', mb')" by fastforce
  have ih: "inv w" "mx_agent_bus_id mb = b" "mailbox_tracks (log w b) taken mb" using poll s by auto
  from receive_step[OF poll.hyps(2)[unfolded s] ih] show ?case using evolves_inv ih(1) s by auto
next
  case (check taken w mb ms mb')
  then show ?case by (auto simp: check_mail_def mailbox_tracks_def Let_def)
next
  case (other taken w mb w')
  then show ?case using evolves_inv[OF other.hyps(2)] mailbox_tracks_prefix[OF _ evolves_log[OF other.hyps(2)]] by auto
qed

end

interpretation mem_polling: polling_env "memory_bus \<lparr>mb_environment = sim_environment bo, mb_ttl = ttl\<rparr>"
  mem_log mem_inv mem_evolves "sim_environment bo" for bo ttl
  by unfold_locales (auto simp: sim_environment_def clock_monotonic_time_def sim_sleep_def advance_to_def intro: mem_evolves_same)

lemma mem_polled_log:
  "polled_log (memory_bus \<lparr>mb_environment = sim_environment bo, mb_ttl = ttl\<rparr>) mem_log mem_inv mem_evolves
     (mem_blocking_poll \<lparr>mb_environment = sim_environment bo, mb_ttl = ttl\<rparr>)"
  using mem_polling.polled_log_axioms[of bo ttl None None] by (simp add: mem_blocking_poll_def[abs_def])

section \<open>Properties\<close>

text \<open>
  C31. However its polls, its owner's drains and other tasks interleave, a mailbox hands out every mail of its log at
  most once and in log order, holds the newest mail and never more than its limit, and misses none unless more mail
  arrived than the buffer holds.
\<close>
theorem mailbox_receives_once:
  assumes "mem_inv w0"
    and "mailbox_reachable (mem_blocking_poll \<lparr>mb_environment = sim_environment bo, mb_ttl = ttl\<rparr>) mem_evolves w0 b taken (w, mb)"
  shows "subseq (taken @ mx_mail mb) (mails (segment (mem_log w b) 0 (mx_next_log_position mb))) \<and>
    suffix (mx_mail mb) (mails (segment (mem_log w b) 0 (mx_next_log_position mb))) \<and> length (mx_mail mb) \<le> MAX_MAIL_BUFFER \<and>
    (length (mails (segment (mem_log w b) 0 (mx_next_log_position mb))) \<le> MAX_MAIL_BUFFER \<longrightarrow>
       taken @ mx_mail mb = mails (segment (mem_log w b) 0 (mx_next_log_position mb)))"
  using polled_log.mailbox_invariant[OF mem_polled_log assms(2,1)] by (simp add: mailbox_tracks_def Let_def)

definition mailed_world :: mem_world where
  "mailed_world = snd (send_mail (memory_bus \<lparr>mb_environment = sim_environment unit_backoff, mb_ttl = None\<rparr>) ''bus'' ''alice'' ''hello'' empty_mem_world)"

theorem mailbox_receives_once_witness:
  "\<exists>w mb. poll_and_receive (mem_blocking_poll \<lparr>mb_environment = sim_environment unit_backoff, mb_ttl = None\<rparr>) None
     (mailed_world, mailbox_new ''bus'') = Some (Inr 1, (w, mb)) \<and>
     suffix (mx_mail mb) (mails (segment (mem_log w ''bus'') 0 (mx_next_log_position mb))) \<and>
     mx_mail mb = [\<lparr>ml_from = ''alice'', ml_content = ''hello'', ml_position = 0, ml_message_id = [], ml_in_reply_to = []\<rparr>]"
proof -
  let ?poll = "mem_blocking_poll \<lparr>mb_environment = sim_environment unit_backoff, mb_ttl = None\<rparr>"
  let ?run = "poll_and_receive ?poll None (mailed_world, mailbox_new ''bus'')"
  have "map_option (\<lambda>(r, w, mb). (r, mx_mail mb)) ?run =
      Some (Inr 1, [\<lparr>ml_from = ''alice'', ml_content = ''hello'', ml_position = 0, ml_message_id = [], ml_in_reply_to = []\<rparr>])" by code_simp
  then obtain w mb where run: "?run = Some (Inr 1, (w, mb))"
    "mx_mail mb = [\<lparr>ml_from = ''alice'', ml_content = ''hello'', ml_position = 0, ml_message_id = [], ml_in_reply_to = []\<rparr>]" by auto
  have ev: "mem_evolves empty_mem_world mailed_world"
  proof -
    have "moves mem_evolves (mem_append \<lparr>mb_environment = sim_environment unit_backoff, mb_ttl = None\<rparr> req)" for req :: append_request
      by (rule mem_append_evolves) (simp add: sim_clock_keeps_buses)
    from movesD[OF this] show ?thesis
      by (auto simp: mailed_world_def send_mail_def eff_defs memory_bus_def split: prod.split sum.split)
  qed
  then have "mem_inv mailed_world" using empty_mem_world_inv by (simp add: mem_evolves_def)
  from mailbox_receives_once[OF this mailbox_reachable.poll[OF mailbox_reachable.start run(1)]] run show ?thesis by blast
qed

end
