(* ===== verification/Gate.thy ===== *)
theory Gate
  imports Mailbox Remote
begin

text \<open>
  The application server: \<open>gate_check\<close> of \<open>bus/core/src/appserver.rs\<close>, which appends an intention and polls for its
  decision until a timeout, and the gRPC adapter \<open>bus/core/src/appserver/grpc.rs\<close> in front of the gate, the mailbox
  and the bus.
\<close>

section \<open>The gate\<close>

record gate_result =
  gr_approved :: bool
  gr_reason :: string
  gr_intention_id :: int

definition GATE_PAYLOAD_TYPES :: "int list" where
  "GATE_PAYLOAD_TYPES = [to_proto_i32 PT_Commit, to_proto_i32 PT_Abort]"

text \<open>The loop over the entries of a response.\<close>
fun gate_scan :: "int \<Rightarrow> bus_entry list \<Rightarrow> gate_result option" where
  "gate_scan intention_id [] = None"
| "gate_scan intention_id (entry # rest) =
     (case entry_payload entry of
        Some (Some (Commit c)) \<Rightarrow>
          if commit_intention_id c = intention_id
          then Some \<lparr>gr_approved = True, gr_reason = commit_reason c, gr_intention_id = intention_id\<rparr>
          else gate_scan intention_id rest
      | Some (Some (Abort a)) \<Rightarrow>
          if abort_intention_id a = intention_id
          then Some \<lparr>gr_approved = False, gr_reason = abort_reason a, gr_intention_id = intention_id\<rparr>
          else gate_scan intention_id rest
      | _ \<Rightarrow> gate_scan intention_id rest)"

definition gate_timed_out :: "int \<Rightarrow> gate_result" where
  "gate_timed_out intention_id = \<lparr>gr_approved = False, gr_reason = ''Gate check timed out'', gr_intention_id = intention_id\<rparr>"

text \<open>\<open>None\<close> is a loop that never ends.\<close>
partial_function (option) gate_loop :: "'w blocking_poll \<Rightarrow> 'w environment \<Rightarrow> string \<Rightarrow> nat \<Rightarrow> nat \<Rightarrow> int \<Rightarrow> int \<Rightarrow> 'w
    \<Rightarrow> ((bus_error + gate_result) \<times> 'w) option" where
  "gate_loop poll env bus_id timeout start intention_id next_position w =
     (case env_monotonic_time env w of (now, w1) \<Rightarrow>
        if timeout < now - start then Some (Inr (gate_timed_out intention_id), w1)
        else
          (case poll \<lparr>bp_bus_id = Some bus_id, bp_start_log_position = next_position, bp_max_entries = 64,
               bp_filter = Some GATE_PAYLOAD_TYPES, bp_timeout_ms = wrap_i32 (int (as_millis (timeout - (now - start))))\<rparr> w1 of
             None \<Rightarrow> None
           | Some (Inl e, w2) \<Rightarrow> Some (Inl e, w2)
           | Some (Inr response, w2) \<Rightarrow>
               (case gate_scan intention_id (bs_entries response) of
                  Some g \<Rightarrow> Some (Inr g, w2)
                | None \<Rightarrow> gate_loop poll env bus_id timeout start intention_id (bs_next_start_position response) w2)))"

declare gate_loop.simps [code]

definition gate_check_for_bus :: "'w agent_bus \<Rightarrow> 'w blocking_poll \<Rightarrow> 'w environment \<Rightarrow> string \<Rightarrow> nat \<Rightarrow> string \<Rightarrow> 'w
    \<Rightarrow> ((bus_error + gate_result) \<times> 'w) option" where
  "gate_check_for_bus B poll env bus_id timeout text_body w =
     (case bus_append B \<lparr>ar_bus_id = Some bus_id, ar_payload = Some (Some (Intention
             \<lparr>intention_body = Some (StringIntention text_body), policy_version_constraint = None\<rparr>))\<rparr> w of
        (Inl e, w1) \<Rightarrow> Some (Inl e, w1)
      | (Inr intention_id, w1) \<Rightarrow>
          (case env_monotonic_time env w1 of (start, w2) \<Rightarrow>
             gate_loop poll env bus_id timeout start intention_id (intention_id + 1) w2))"

text \<open>What \<open>AppServer\<close> holds, without the handles of its background tasks.\<close>
record 'w app_server =
  as_bus :: "'w agent_bus"
  as_poll :: "'w blocking_poll"
  as_bus_id :: string
  as_environment :: "'w environment"
  as_gate_check_timeout :: nat

definition gate_check :: "'w app_server \<Rightarrow> string \<Rightarrow> 'w \<Rightarrow> ((bus_error + gate_result) \<times> 'w) option" where
  "gate_check app = gate_check_for_bus (as_bus app) (as_poll app) (as_environment app) (as_bus_id app) (as_gate_check_timeout app)"

section \<open>The gRPC adapter\<close>

text \<open>A terminated worker and an error of the operation both become an internal status.\<close>
definition channel_call :: "('w \<Rightarrow> bool) \<Rightarrow> ('w \<Rightarrow> (('e + 'a) \<times> 'w) option) \<Rightarrow> 'w \<Rightarrow> ((grpc_code + 'a) \<times> 'w) option" where
  "channel_call alive call w =
     (if \<not> alive w then Some (Inl CodeInternal, w)
      else map_option (\<lambda>(r, w'). (map_result_err (\<lambda>_. CodeInternal) r, w')) (call w))"

definition app_gate :: "('w \<Rightarrow> bool) \<Rightarrow> 'w app_server \<Rightarrow> string \<Rightarrow> 'w \<Rightarrow> ((grpc_code + gate_result) \<times> 'w) option" where
  "app_gate alive app intention_text = channel_call alive (gate_check app intention_text)"

definition app_append :: "('w \<Rightarrow> bool) \<Rightarrow> 'w app_server \<Rightarrow> payload option \<Rightarrow> 'w \<Rightarrow> ((grpc_code + int) \<times> 'w) option" where
  "app_append alive app req_payload w =
     (case req_payload of
        None \<Rightarrow> Some (Inl CodeInvalidArgument, w)
      | Some p \<Rightarrow> channel_call alive (\<lambda>w. Some (bus_append (as_bus app) \<lparr>ar_bus_id = Some (as_bus_id app), ar_payload = Some p\<rparr> w)) w)"

definition app_poll :: "('w \<Rightarrow> bool) \<Rightarrow> 'w app_server \<Rightarrow> int \<Rightarrow> int \<Rightarrow> int list option \<Rightarrow> 'w
    \<Rightarrow> ((grpc_code + poll_response) \<times> 'w) option" where
  "app_poll alive app start max_entries flt =
     channel_call alive (\<lambda>w. Some (bus_poll (as_bus app) \<lparr>pr_bus_id = Some (as_bus_id app), pr_start_log_position = start,
       pr_max_entries = max_entries, pr_filter = flt\<rparr> w))"

record app_mail =
  am_mail :: "mail option"
  am_position :: int

definition mail_to_proto :: "mail_log_entry \<Rightarrow> app_mail" where
  "mail_to_proto m =
     (let msg = \<lparr>mm_body = ml_content m, mm_message_id = ml_message_id m\<rparr>;
          content = (if ml_in_reply_to m = [] then Some (MailMessage msg)
                     else Some (MailReply \<lparr>mr_message = Some msg, mr_in_reply_to = ml_in_reply_to m\<rparr>))
      in \<lparr>am_mail = Some \<lparr>sender_agent_id = ml_from m, mail_content = content\<rparr>, am_position = ml_position m\<rparr>)"

definition app_check_mail :: "bool \<Rightarrow> mailbox \<Rightarrow> (grpc_code + app_mail list) \<times> mailbox" where
  "app_check_mail alive mb =
     (if \<not> alive then (Inl CodeInternal, mb)
      else (case check_mail mb of (messages, mb') \<Rightarrow> (Inr (map mail_to_proto messages), mb')))"

lemma mail_to_proto_entry: "mail_log_entry_of (the (am_mail (mail_to_proto m))) (am_position (mail_to_proto m)) = m"
  by (auto simp: mail_to_proto_def mail_log_entry_of_def Let_def)

section \<open>What a scan finds\<close>

definition gate_outcome :: "gate_result \<Rightarrow> proposal_outcome" where
  "gate_outcome g = \<lparr>po_approved = gr_approved g, po_reason = gr_reason g, po_log_position = gr_intention_id g\<rparr>"

lemma gate_scan_append: "gate_scan i (xs @ ys) = (case gate_scan i xs of Some g \<Rightarrow> Some g | None \<Rightarrow> gate_scan i ys)"
  by (induction xs) (auto split: option.splits payload_kind.splits)

lemma gate_scan_Cons: "gate_scan i (e # es) = (case gate_scan i [e] of Some g \<Rightarrow> Some g | None \<Rightarrow> gate_scan i es)"
  using gate_scan_append[of i "[e]" es] by simp

lemma gate_scan_unmatched: "\<not> entry_matches (Some GATE_PAYLOAD_TYPES) e \<Longrightarrow> gate_scan i [e] = None"
  by (auto simp: entry_matches_def payload_matches_filter_def GATE_PAYLOAD_TYPES_def split: option.splits payload_kind.splits)

lemma gate_scan_filter: "gate_scan i (filter (entry_matches (Some GATE_PAYLOAD_TYPES)) es) = gate_scan i es"
proof (induction es)
  case Nil
  then show ?case by simp
next
  case (Cons e es)
  show ?case
  proof (cases "entry_matches (Some GATE_PAYLOAD_TYPES) e")
    case True
    then have "filter (entry_matches (Some GATE_PAYLOAD_TYPES)) (e # es) = e # filter (entry_matches (Some GATE_PAYLOAD_TYPES)) es" by simp
    then show ?thesis unfolding gate_scan_Cons[of i e es]
      using gate_scan_Cons[of i e "filter (entry_matches (Some GATE_PAYLOAD_TYPES)) es"] Cons by argo
  next
    case False
    then show ?thesis unfolding gate_scan_Cons[of i e es] gate_scan_unmatched[OF False] using Cons by simp
  qed
qed

lemma gate_scan_one: "gate_scan i [e] = Some g \<longleftrightarrow> gr_intention_id g = i \<and> decides e i (gate_outcome g)"
  by (cases g) (auto simp: decides_def gate_outcome_def split: option.splits payload_kind.splits if_splits,
      metis commit.select_convs(2), metis abort.select_convs(2))

lemma gate_scan_one_None: "gate_scan i [e] = None \<longleftrightarrow> (\<forall>out. \<not> decides e i out)"
proof
  assume "gate_scan i [e] = None"
  then show "\<forall>out. \<not> decides e i out"
    by (auto simp: decides_def split: option.splits payload_kind.splits if_splits)
next
  assume none: "\<forall>out. \<not> decides e i out"
  show "gate_scan i [e] = None" using none gate_scan_one by (cases "gate_scan i [e]") auto
qed

lemma gate_scan_first:
  assumes "gate_scan i es = Some g"
  shows "gr_intention_id g = i \<and> first_decision es 0 i (gate_outcome g)"
  using assms
proof (induction es)
  case (Cons e es)
  note split = gate_scan_Cons[of i e es]
  show ?case
  proof (cases "gate_scan i [e]")
    case None
    then have "gate_scan i es = Some g" using Cons.prems split by simp
    from Cons.IH[OF this] obtain n where n: "gr_intention_id g = i" "n < length es" "decides (es ! n) i (gate_outcome g)"
      "\<forall>j < n. \<forall>o'. \<not> decides (es ! j) i o'" by (auto simp: first_decision_def)
    moreover have "\<forall>o'. \<not> decides e i o'" using gate_scan_one_None[THEN iffD1, OF None] .
    ultimately show ?thesis unfolding first_decision_def
      by (intro conjI exI[of _ "Suc n"]) (auto simp: nth_Cons split: nat.split)
  next
    case (Some g')
    then have "gate_scan i [e] = Some g" using Cons.prems split by simp
    then show ?thesis unfolding gate_scan_one first_decision_def by (intro conjI exI[of _ 0]) auto
  qed
qed simp

lemma first_decision_drop:
  assumes "first_decision (drop c es) 0 i out"
  shows "first_decision es (int c) i out"
proof -
  obtain n where n: "n < length (drop c es)" "decides (drop c es ! n) i out" "\<forall>j < n. \<forall>o'. \<not> decides (drop c es ! j) i o'"
    using assms by (auto simp: first_decision_def)
  have "\<not> decides (es ! j) i o'" if "j < c + n" "int c \<le> int j" for j o'
    using n(3)[rule_format, of "j - c" o'] n(1) that by auto
  then show ?thesis unfolding first_decision_def using n(1,2) by (intro exI[of _ "c + n"]) auto
qed

section \<open>The gate over any polled bus\<close>

locale gate_env = polled_log B log inv evolves poll
  for B :: "'w agent_bus" and log inv evolves and poll :: "'w blocking_poll" +
  fixes env :: "'w environment"
  assumes clock_evolves: "env_monotonic_time env w = (t, w') \<Longrightarrow> evolves w w'"
begin

text \<open>The decision found by a run that starts with everything before \<open>n\<close> scanned, or the timeout.\<close>
definition gate_answer :: "string \<Rightarrow> int \<Rightarrow> gate_result \<Rightarrow> 'w \<Rightarrow> bool" where
  "gate_answer b i g w' \<longleftrightarrow> gate_scan i (drop (nat (i + 1)) (log w' b)) = Some g \<or> g = gate_timed_out i"

definition scanned_to :: "string \<Rightarrow> int \<Rightarrow> int \<Rightarrow> 'w \<Rightarrow> bool" where
  "scanned_to b i n w \<longleftrightarrow> inv w \<and> 0 \<le> i \<and> i + 1 \<le> n \<and> n \<le> int (length (log w b)) \<and> gate_scan i (segment (log w b) (i + 1) n) = None"

lemma scanned_to_evolves: "evolves w w1 \<Longrightarrow> scanned_to b i n w \<Longrightarrow> scanned_to b i n w1"
  unfolding scanned_to_def using evolves_inv[of w w1] evolves_log[of w w1 b] segment_prefix[of "log w b" "log w1 b" n "i + 1"]
  by (auto dest: prefix_length_le)

lemma gate_poll:
  assumes "scanned_to b i n w" "poll \<lparr>bp_bus_id = Some b, bp_start_log_position = n, bp_max_entries = 64,
      bp_filter = Some GATE_PAYLOAD_TYPES, bp_timeout_ms = t\<rparr> w = Some (Inr resp, w')"
  shows "evolves w w'" "gate_scan i (bs_entries resp) = Some g \<Longrightarrow> gate_answer b i g w'"
    "gate_scan i (bs_entries resp) = None \<Longrightarrow> scanned_to b i (bs_next_start_position resp) w'"
proof -
  have n: "0 \<le> n" "n \<le> int (length (log w b))" "inv w" "i + 1 \<le> n" "0 \<le> i" using assms(1) by (auto simp: scanned_to_def)
  have p: "evolves w w'" "n \<le> bs_next_start_position resp" "bs_next_start_position resp \<le> int (length (log w' b))"
    "bs_entries resp = filter (entry_matches (Some GATE_PAYLOAD_TYPES)) (segment (log w' b) n (bs_next_start_position resp))"
    using poll_law[OF assms(2)] n unfolding polled_def by auto
  show ev: "evolves w w'" by (rule p(1))
  let ?m = "bs_next_start_position resp"
  have before: "scanned_to b i n w'" by (rule scanned_to_evolves[OF ev assms(1)])
  have "segment (log w' b) (i + 1) ?m = segment (log w' b) (i + 1) n @ segment (log w' b) n ?m"
    by (rule segment_append[symmetric]) (use n p(2) in auto)
  then have scan: "gate_scan i (segment (log w' b) (i + 1) ?m) = gate_scan i (bs_entries resp)"
    using before by (simp add: scanned_to_def gate_scan_append p(4) gate_scan_filter)
  have "drop (nat (i + 1)) (log w' b) = segment (log w' b) (i + 1) ?m @ drop (nat ?m - nat (i + 1)) (drop (nat (i + 1)) (log w' b))"
    by (simp only: segment_def append_take_drop_id)
  then show "gate_scan i (bs_entries resp) = Some g \<Longrightarrow> gate_answer b i g w'"
    unfolding gate_answer_def using scan by (metis gate_scan_append option.simps(5))
  show "gate_scan i (bs_entries resp) = None \<Longrightarrow> scanned_to b i ?m w'"
    using before scan p n by (simp add: scanned_to_def)
qed

lemma gate_loop_sound:
  assumes "gate_loop poll env b timeout start i n w = Some (Inr g, w')" "scanned_to b i n w"
  shows "evolves w w' \<and> gate_answer b i g w'"
proof -
  define P where "P poll' env' b' (to :: nat) (st :: nat) i' n w y \<longleftrightarrow> poll' = poll \<longrightarrow> env' = env \<longrightarrow> scanned_to b' i' n w \<longrightarrow>
      (\<forall>g w'. y = (Inr g, w') \<longrightarrow> evolves w w' \<and> gate_answer b' i' g w')"
    for poll' env' b' to st i' n w and y :: "(bus_error + gate_result) \<times> 'w"
  have "P poll env b timeout start i n w (Inr g, w')"
  proof (rule gate_loop.raw_induct[OF _ assms(1)])
    fix loop poll' env' b' to st i' n w y
    assume IH: "\<And>poll env b to st i n w y. loop poll env b to st i n w = Some y \<Longrightarrow> P poll env b to st i n w y"
      and body: "(case env_monotonic_time env' w of (now, w1) \<Rightarrow>
        if to < now - st then Some (Inr (gate_timed_out i'), w1)
        else
          (case poll' \<lparr>bp_bus_id = Some b', bp_start_log_position = n, bp_max_entries = 64,
               bp_filter = Some GATE_PAYLOAD_TYPES, bp_timeout_ms = wrap_i32 (int (as_millis (to - (now - st))))\<rparr> w1 of
             None \<Rightarrow> None
           | Some (Inl e, w2) \<Rightarrow> Some (Inl e, w2)
           | Some (Inr response, w2) \<Rightarrow>
               (case gate_scan i' (bs_entries response) of
                  Some g \<Rightarrow> Some (Inr g, w2)
                | None \<Rightarrow> loop poll' env' b' to st i' (bs_next_start_position response) w2))) = Some y"
    show "P poll' env' b' to st i' n w y"
      unfolding P_def
    proof (intro impI allI)
      fix g w'
      assume eqs: "poll' = poll" "env' = env" and start: "scanned_to b' i' n w" and y: "y = (Inr g, w')"
      obtain now w1 where time: "env_monotonic_time env w = (now, w1)" by fastforce
      have e1: "evolves w w1" using clock_evolves[OF time] .
      note at1 = scanned_to_evolves[OF e1 start]
      show "evolves w w' \<and> gate_answer b' i' g w'"
      proof (cases "to < now - st")
        case True
        then show ?thesis using body time eqs e1 y by (auto simp: gate_answer_def)
      next
        case False
        let ?req = "\<lparr>bp_bus_id = Some b', bp_start_log_position = n, bp_max_entries = 64,
               bp_filter = Some GATE_PAYLOAD_TYPES, bp_timeout_ms = wrap_i32 (int (as_millis (to - (now - st))))\<rparr>"
        obtain r w2 where call: "poll ?req w1 = Some (r, w2)" using body time eqs False by (auto split: option.splits)
        obtain resp where r: "r = Inr resp" using body time eqs False call y by (cases r) auto
        note law = gate_poll[OF at1 call[unfolded r]]
        have e2: "evolves w w2" using evolves_trans[OF e1 law(1)] .
        show ?thesis
        proof (cases "gate_scan i' (bs_entries resp)")
          case None
          then have "loop poll env b' to st i' (bs_next_start_position resp) w2 = Some y"
            using body time eqs False call r by simp
          from IH[OF this] have "evolves w2 w' \<and> gate_answer b' i' g w'" using law(3)[OF None] y unfolding P_def by blast
          then show ?thesis using evolves_trans[OF e2] by blast
        next
          case (Some g')
          then have "g' = g" "w2 = w'" using body time eqs False call r y by auto
          then show ?thesis using law(2)[OF Some] e2 by blast
        qed
      qed
    qed
  qed
  then show ?thesis using assms(2) by (simp add: P_def)
qed

lemma gate_check_sound:
  assumes "inv w" "gate_check_for_bus B poll env b timeout t w = Some (Inr g, w')"
  shows "evolves w w' \<and> 0 \<le> gr_intention_id g \<and> gr_intention_id g < int (length (log w' b)) \<and>
    entry_payload (log w' b ! nat (gr_intention_id g)) =
      Some (Some (Intention \<lparr>intention_body = Some (StringIntention t), policy_version_constraint = None\<rparr>)) \<and>
    (first_decision (log w' b) (gr_intention_id g + 1) (gr_intention_id g) (gate_outcome g) \<or> g = gate_timed_out (gr_intention_id g))"
proof -
  let ?p = "Some (Intention \<lparr>intention_body = Some (StringIntention t), policy_version_constraint = None\<rparr>)"
  obtain i w1 where app: "bus_append B \<lparr>ar_bus_id = Some b, ar_payload = Some ?p\<rparr> w = (Inr i, w1)"
    using assms(2) by (auto simp: gate_check_for_bus_def split: prod.splits sum.splits)
  obtain start w2 where time: "env_monotonic_time env w1 = (start, w2)" by fastforce
  have loop: "gate_loop poll env b timeout start i (i + 1) w2 = Some (Inr g, w')"
    using assms(2) app time by (simp add: gate_check_for_bus_def)
  have e1: "evolves w w1" using movesD[OF append_evolves app] .
  have e2: "evolves w1 w2" using clock_evolves[OF time] .
  have law: "int (length (log w b)) \<le> i" "i < int (length (log w1 b))" "entry_payload (log w1 b ! nat i) = Some ?p"
    using append_law[OF assms(1) app] by auto
  have i1: "inv w1" using evolves_inv[OF e1 assms(1)] .
  have "scanned_to b i (i + 1) w1" using law(1,2) i1 by (simp add: scanned_to_def)
  from gate_loop_sound[OF loop scanned_to_evolves[OF e2 this]] have ev: "evolves w2 w'" and ans: "gate_answer b i g w'" by blast+
  have pre: "prefix (log w1 b) (log w' b)" using evolves_log[OF evolves_trans[OF e2 ev] i1] .
  then have "log w' b ! nat i = log w1 b ! nat i" "nat i < length (log w' b)"
    using law(1,2) by (auto simp: prefix_def nth_append)
  moreover have "gr_intention_id g = i" using ans gate_scan_first by (auto simp: gate_answer_def gate_timed_out_def)
  moreover have "first_decision (log w' b) (i + 1) i (gate_outcome g) \<or> g = gate_timed_out i"
  proof (cases "g = gate_timed_out i")
    case False
    then have "gate_scan i (drop (nat (i + 1)) (log w' b)) = Some g" using ans by (simp add: gate_answer_def)
    from first_decision_drop[OF gate_scan_first[OF this, THEN conjunct2]] law(1) show ?thesis by (simp add: add_increasing)
  qed simp
  ultimately show ?thesis using law(1,3) evolves_trans[OF e1 evolves_trans[OF e2 ev]] by simp
qed

end

text \<open>
  An environment in which other tasks run while a task sleeps: \<open>others\<close> is what they do, at least a step of the log.
\<close>
definition shared_environment :: "(nat \<Rightarrow> 'z mem_world_scheme \<Rightarrow> nat \<times> 'z mem_world_scheme) \<Rightarrow> ('z mem_world_scheme \<Rightarrow> 'z mem_world_scheme)
    \<Rightarrow> 'z mem_world_scheme environment" where
  "shared_environment bo others = (sim_environment bo)\<lparr>env_sleep := \<lambda>d w. others (sim_sleep d w)\<rparr>"

lemma sim_is_shared: "sim_environment bo = shared_environment bo id"
  by (simp add: shared_environment_def sim_environment_def)

context memory_bus_env
begin

lemma is_log_bus: "log_bus (memory_bus mb) mem_log mem_inv mem_evolves"
  by unfold_locales

end

context polling_env
begin

lemma is_polled: "polled_log B log inv evolves (\<lambda>req. blocking_poll_default B env req i m)"
  by unfold_locales

end

lemma shared_gate_env:
  assumes "\<forall>w. mem_evolves w (others w)"
  shows "gate_env (memory_bus \<lparr>mb_environment = shared_environment bo others, mb_ttl = ttl\<rparr>) mem_log mem_inv mem_evolves
     (mem_blocking_poll \<lparr>mb_environment = shared_environment bo others, mb_ttl = ttl\<rparr>) (shared_environment bo others)"
proof -
  have keeps: "memory_bus_env \<lparr>mb_environment = shared_environment bo others, mb_ttl = ttl\<rparr>"
    by standard (simp add: clock_keeps_buses_def shared_environment_def sim_environment_def clock_unsafe_wall_time_def Let_def)
  have bus: "log_bus (memory_bus \<lparr>mb_environment = shared_environment bo others, mb_ttl = ttl\<rparr>) mem_log mem_inv mem_evolves"
    by (rule memory_bus_env.is_log_bus[OF keeps])
  have time: "mem_evolves w w'" if "env_monotonic_time (shared_environment bo others) w = (t, w')" for w t w'
    using that by (auto simp: shared_environment_def sim_environment_def clock_monotonic_time_def intro: mem_evolves_same)
  have own: "mem_evolves w (sim_sleep d w)" for d and w :: "'a mem_world_scheme"
    by (auto simp: sim_sleep_def advance_to_def intro: mem_evolves_same)
  have sleep: "mem_evolves w (env_sleep (shared_environment bo others) d w)" for d w
    using log_bus.evolves_trans[OF bus, of w "sim_sleep d w" "others (sim_sleep d w)"] assms own by (simp add: shared_environment_def)
  have "polling_env (memory_bus \<lparr>mb_environment = shared_environment bo others, mb_ttl = ttl\<rparr>) mem_log mem_inv mem_evolves
      (shared_environment bo others)"
    unfolding polling_env_def polling_env_axioms_def using bus time sleep by blast
  then have "polled_log (memory_bus \<lparr>mb_environment = shared_environment bo others, mb_ttl = ttl\<rparr>) mem_log mem_inv mem_evolves
      (mem_blocking_poll \<lparr>mb_environment = shared_environment bo others, mb_ttl = ttl\<rparr>)"
    using polling_env.is_polled by (simp add: mem_blocking_poll_def[abs_def])
  then show ?thesis unfolding gate_env_def gate_env_axioms_def using time by blast
qed

interpretation mem_gate: gate_env "memory_bus \<lparr>mb_environment = shared_environment bo id, mb_ttl = ttl\<rparr>" mem_log mem_inv mem_evolves
  "mem_blocking_poll \<lparr>mb_environment = shared_environment bo id, mb_ttl = ttl\<rparr>" "shared_environment bo id" for bo ttl
  by (rule shared_gate_env) (simp add: mem_evolves_same)

lemma gate_timed_out_fields [simp]: "gr_approved (gate_timed_out i) = False" "gr_reason (gate_timed_out i) = ''Gate check timed out''"
  by (simp_all add: gate_timed_out_def)

section \<open>The last millisecond\<close>

text \<open>With less than a millisecond left, the poll is asked to wait for 0 ms and returns at once.\<close>
lemma poll_without_wait:
  assumes "valid_bus b" "int (length (mem_log w b)) \<le> n" "d < 1000000"
  shows "mem_blocking_poll \<lparr>mb_environment = sim_environment bo, mb_ttl = ttl\<rparr>
      \<lparr>bp_bus_id = Some b, bp_start_log_position = n, bp_max_entries = 64, bp_filter = Some GATE_PAYLOAD_TYPES,
       bp_timeout_ms = wrap_i32 (int (as_millis d))\<rparr> w = Some (Inr \<lparr>bs_entries = [], bs_next_start_position = n\<rparr>, w)"
proof -
  have "as_millis d = 0" using assms(3) by (simp add: as_millis_def)
  moreover have "\<not> n < get_tail (mw_buses w) b" using assms(2) by (simp add: get_tail_stored mem_log_def)
  ultimately show ?thesis
    using assms(1)
    by (simp add: mem_blocking_poll_def blocking_poll_default_def DEFAULT_MAX_BLOCKING_TIMEOUT_MS_def sim_environment_def
        clock_monotonic_time_def from_millis_def blocking_poll_loop.simps memory_bus_def mem_check_tail_def as_usize_def)
qed

lemma gate_loop_stuck:
  assumes "valid_bus b" "int (length (mem_log w b)) \<le> n"
    and "mw_elapsed w - start \<le> timeout" "timeout - (mw_elapsed w - start) < 1000000"
  shows "gate_loop (mem_blocking_poll \<lparr>mb_environment = sim_environment bo, mb_ttl = ttl\<rparr>) (sim_environment bo) b timeout start i n w = None"
proof (rule ccontr)
  let ?poll = "mem_blocking_poll \<lparr>mb_environment = sim_environment bo, mb_ttl = ttl\<rparr>"
  define P where "P poll' env' b' to st i' n' w' (y :: (bus_error + gate_result) \<times> 'a mem_world_scheme) \<longleftrightarrow>
      \<not> (poll' = ?poll \<and> env' = sim_environment bo \<and> b' = b \<and> to = timeout \<and> st = start \<and> n' = n \<and> w' = w)"
    for poll' env' b' to st and i' :: int and n' w' y
  assume "gate_loop ?poll (sim_environment bo) b timeout start i n w \<noteq> None"
  then obtain y where "gate_loop ?poll (sim_environment bo) b timeout start i n w = Some y" by blast
  then have "P ?poll (sim_environment bo) b timeout start i n w y"
  proof (rule gate_loop.raw_induct[rotated])
    fix loop poll' env' b' to st i' n' w' y
    assume IH: "\<And>poll env b to st i n w y. loop poll env b to st i n w = Some y \<Longrightarrow> P poll env b to st i n w y"
      and body: "(case env_monotonic_time env' w' of (now, w1) \<Rightarrow>
        if to < now - st then Some (Inr (gate_timed_out i'), w1)
        else
          (case poll' \<lparr>bp_bus_id = Some b', bp_start_log_position = n', bp_max_entries = 64,
               bp_filter = Some GATE_PAYLOAD_TYPES, bp_timeout_ms = wrap_i32 (int (as_millis (to - (now - st))))\<rparr> w1 of
             None \<Rightarrow> None
           | Some (Inl e, w2) \<Rightarrow> Some (Inl e, w2)
           | Some (Inr response, w2) \<Rightarrow>
               (case gate_scan i' (bs_entries response) of
                  Some g \<Rightarrow> Some (Inr g, w2)
                | None \<Rightarrow> loop poll' env' b' to st i' (bs_next_start_position response) w2))) = Some y"
    show "P poll' env' b' to st i' n' w' y"
      unfolding P_def
    proof
      assume eqs: "poll' = ?poll \<and> env' = sim_environment bo \<and> b' = b \<and> to = timeout \<and> st = start \<and> n' = n \<and> w' = w"
      have "env_monotonic_time (sim_environment bo) w = (mw_elapsed w, w)" by (simp add: sim_environment_def clock_monotonic_time_def)
      then have "loop ?poll (sim_environment bo) b timeout start i' n w = Some y"
        using body eqs assms(3) poll_without_wait[OF assms(1,2,4), of bo ttl] by (simp add: not_less[symmetric])
      from IH[OF this] show False by (simp add: P_def)
    qed
  qed
  then show False by (simp add: P_def)
qed

section \<open>Properties\<close>

text \<open>
  C34. A gate check that answers has put its intention into the log of its bus, at the position it names, and its answer
  is the first decision logged for that position after it, with the logged reason; or it denies because time ran out.
  In particular the gate approves only what the log commits first, whatever other tasks append.
\<close>
theorem gate_check_first_decision:
  assumes "\<forall>w. mem_evolves w (others w)" "mem_inv w"
    and "gate_check_for_bus (memory_bus \<lparr>mb_environment = shared_environment bo others, mb_ttl = ttl\<rparr>)
      (mem_blocking_poll \<lparr>mb_environment = shared_environment bo others, mb_ttl = ttl\<rparr>) (shared_environment bo others) b timeout t w
      = Some (Inr g, w')"
  shows "0 \<le> gr_intention_id g \<and> gr_intention_id g < int (length (mem_log w' b)) \<and>
    entry_payload (mem_log w' b ! nat (gr_intention_id g)) =
      Some (Some (Intention \<lparr>intention_body = Some (StringIntention t), policy_version_constraint = None\<rparr>)) \<and>
    (first_decision (mem_log w' b) (gr_intention_id g + 1) (gr_intention_id g) (gate_outcome g) \<or>
     \<not> gr_approved g \<and> gr_reason g = ''Gate check timed out'')"
  using gate_env.gate_check_sound[OF shared_gate_env[OF assms(1)] assms(2,3)] gate_timed_out_fields by metis

definition demo_decider :: "mem_world \<Rightarrow> mem_world" where
  "demo_decider w = snd (mem_append \<lparr>mb_environment = sim_environment unit_backoff, mb_ttl = None\<rparr>
     \<lparr>ar_bus_id = Some ''bus'', ar_payload = Some (Some (Commit \<lparr>commit_intention_id = 0, commit_reason = ''fine''\<rparr>))\<rparr> w)"

definition demo_gate :: "((bus_error + gate_result) \<times> mem_world) option" where
  "demo_gate = (let env = shared_environment unit_backoff demo_decider; mb = \<lparr>mb_environment = env, mb_ttl = None\<rparr>
     in gate_check_for_bus (memory_bus mb) (mem_blocking_poll mb) env ''bus'' 200000000 ''ls'' empty_mem_world)"

lemma demo_decider_evolves: "\<forall>w. mem_evolves w (demo_decider w)"
proof
  fix w
  have "moves mem_evolves (mem_append \<lparr>mb_environment = sim_environment unit_backoff, mb_ttl = None\<rparr> req)" for req :: append_request
    by (rule mem_append_evolves) (simp add: sim_clock_keeps_buses)
  then show "mem_evolves w (demo_decider w)" by (simp add: demo_decider_def moves_def)
qed

lemma demo_gate_answer: "map_option fst demo_gate = Some (Inr \<lparr>gr_approved = True, gr_reason = ''fine'', gr_intention_id = 0\<rparr>)"
  by code_simp

theorem gate_check_first_decision_witness:
  "\<exists>w'. demo_gate = Some (Inr \<lparr>gr_approved = True, gr_reason = ''fine'', gr_intention_id = 0\<rparr>, w') \<and>
     first_decision (mem_log w' ''bus'') 1 0 \<lparr>po_approved = True, po_reason = ''fine'', po_log_position = 0\<rparr>"
proof -
  obtain w' where run: "demo_gate = Some (Inr \<lparr>gr_approved = True, gr_reason = ''fine'', gr_intention_id = 0\<rparr>, w')"
    using demo_gate_answer by auto
  from gate_check_first_decision[OF demo_decider_evolves empty_mem_world_inv run[unfolded demo_gate_def Let_def]]
  have "first_decision (mem_log w' ''bus'') 1 0 \<lparr>po_approved = True, po_reason = ''fine'', po_log_position = 0\<rparr>"
    by (simp add: gate_outcome_def)
  then show ?thesis using run by blast
qed

text \<open>
  C40. The gate's loop stalls in the last millisecond of its timeout: the remaining time rounds down to a poll of 0 ms,
  which returns without waiting, and on a clock that moves only when a task sleeps, as the simulator's, no time passes
  before the loop asks again.
\<close>
theorem gate_stalls_in_last_millisecond:
  assumes "valid_bus b" "int (length (mem_log w b)) \<le> n"
    and "mw_elapsed w - start \<le> timeout" "timeout - (mw_elapsed w - start) < 1000000"
  shows "gate_loop (mem_blocking_poll \<lparr>mb_environment = sim_environment bo, mb_ttl = ttl\<rparr>) (sim_environment bo) b timeout start i n w = None"
  by (rule gate_loop_stuck[OF assms])

theorem gate_stalls_in_last_millisecond_witness:
  "gate_loop (mem_blocking_poll \<lparr>mb_environment = sim_environment unit_backoff, mb_ttl = None\<rparr>) (sim_environment unit_backoff)
     ''bus'' 200000000 0 0 1 (empty_mem_world\<lparr>mw_elapsed := 199500000\<rparr>) = None"
proof -
  have "valid_bus ''bus''" by code_simp
  then show ?thesis
    by (rule gate_stalls_in_last_millisecond) (simp_all add: empty_mem_world_def mem_log_def stored_def)
qed

end
