(* ===== verification/Runtime.thy ===== *)
theory Runtime
  imports Gate
begin

text \<open>
  The background tasks of one bus, as \<open>spawn_bus_runtime\<close> of \<open>bus/core/src/appserver.rs\<close> starts them: a mailbox, a
  decider and any number of voter loops, each in its \<open>run_until_cancelled\<close> loop, beside clients that append.  The tasks
  share the bus and interleave at every await: a task is its state with the batch of entries it still has to process,
  and a step of the runtime is one poll, one entry of one task, or one call of a client.  A poll that waits is a poll
  that returns nothing, asked again later.
\<close>

section \<open>The tasks and their steps\<close>

text \<open>The response a loop is working through: the entries left and the position to poll from next.\<close>
type_synonym batch = "(bus_entry list \<times> int) option"

record ('v, 'w) bus_runtime =
  br_world :: 'w
  br_bus_id :: string
  br_mailbox :: mailbox
  br_decider :: decider
  br_decider_batch :: batch
  br_decider_running :: bool
  br_voters :: "('v voter_loop \<times> batch) list"
  br_running :: bool

definition spawn_bus_runtime :: "string \<Rightarrow> int \<Rightarrow> 'v list \<Rightarrow> 'w \<Rightarrow> ('v, 'w) bus_runtime" where
  "spawn_bus_runtime bus_id start_position initial_voters w =
     \<lparr>br_world = w, br_bus_id = bus_id, br_mailbox = mailbox_new bus_id,
      br_decider = decider_new bus_id start_position create_vote_tracker_for_decider_policy,
      br_decider_batch = None, br_decider_running = True,
      br_voters = map (\<lambda>v. (\<lparr>vl_agent_bus_id = bus_id, vl_next_log_position = start_position, vl_voter = v\<rparr>, None)) initial_voters,
      br_running = True\<rparr>"

text \<open>\<open>DEFAULT_BLOCKING_TIMEOUT\<close>, ten seconds, as the loops pass it on.\<close>
definition LOOP_TIMEOUT_MS :: int where "LOOP_TIMEOUT_MS = 10000"

definition decider_poll_request :: "decider \<Rightarrow> blocking_poll_request" where
  "decider_poll_request d = \<lparr>bp_bus_id = Some (dc_agent_bus_id d), bp_start_log_position = dc_next_log_position d,
     bp_max_entries = 64, bp_filter = Some DECIDER_PAYLOAD_TYPES, bp_timeout_ms = LOOP_TIMEOUT_MS\<rparr>"

definition voter_poll_request :: "'v voter_loop \<Rightarrow> blocking_poll_request" where
  "voter_poll_request l = \<lparr>bp_bus_id = Some (vl_agent_bus_id l), bp_start_log_position = vl_next_log_position l,
     bp_max_entries = 1, bp_filter = Some [to_proto_i32 PT_Intention, to_proto_i32 PT_VoterPolicy], bp_timeout_ms = LOOP_TIMEOUT_MS\<rparr>"

text \<open>One await of the decider's loop; \<open>None\<close> when it has ended or its poll does not return.\<close>
definition decider_turn :: "'w agent_bus \<Rightarrow> 'w blocking_poll \<Rightarrow> ('v, 'w) bus_runtime \<Rightarrow> ('v, 'w) bus_runtime option" where
  "decider_turn B poll s =
     (if \<not> br_running s \<or> \<not> br_decider_running s then None
      else case br_decider_batch s of
        None \<Rightarrow>
          (case poll (decider_poll_request (br_decider s)) (br_world s) of
             None \<Rightarrow> None
           | Some (Inl _, w) \<Rightarrow> Some (s\<lparr>br_world := w, br_decider_running := False\<rparr>)
           | Some (Inr response, w) \<Rightarrow>
               Some (s\<lparr>br_world := w, br_decider_batch := Some (bs_entries response, bs_next_start_position response)\<rparr>))
      | Some ([], n) \<Rightarrow> Some (s\<lparr>br_decider := (br_decider s)\<lparr>dc_next_log_position := n\<rparr>, br_decider_batch := None\<rparr>)
      | Some (entry # rest, n) \<Rightarrow>
          (case decider_process_entry B entry (br_world s, br_decider s) of
             (Inl _, (w, d)) \<Rightarrow> Some (s\<lparr>br_world := w, br_decider := d, br_decider_batch := None, br_decider_running := False\<rparr>)
           | (Inr _, (w, d)) \<Rightarrow> Some (s\<lparr>br_world := w, br_decider := d, br_decider_batch := Some (rest, n)\<rparr>)))"

text \<open>
  One await of a voter's loop.  A failed call ends the round, which is asked again; an entry the voter cannot read is
  skipped.
\<close>
definition voter_turn :: "'w agent_bus \<Rightarrow> 'w blocking_poll \<Rightarrow> ('v, 'w) voter_ops \<Rightarrow> 'v voter_loop \<times> batch \<Rightarrow> 'w
    \<Rightarrow> (('v voter_loop \<times> batch) \<times> 'w) option" where
  "voter_turn B poll V t w =
     (case t of (l, batch) \<Rightarrow>
        (case batch of
           None \<Rightarrow>
             (case poll (voter_poll_request l) w of
                None \<Rightarrow> None
              | Some (Inl _, w') \<Rightarrow> Some ((l, None), w')
              | Some (Inr response, w') \<Rightarrow> Some ((l, Some (bs_entries response, bs_next_start_position response)), w'))
         | Some ([], n) \<Rightarrow> Some ((l\<lparr>vl_next_log_position := n\<rparr>, None), w)
         | Some (entry # rest, n) \<Rightarrow>
             (case vl_process_entry B V entry (w, l) of
                (Inl FailedAgentBusCall, (w', l')) \<Rightarrow> Some ((l', None), w')
              | (Inl (UnknownPayloadType position), (w', l')) \<Rightarrow> Some ((l'\<lparr>vl_next_log_position := position + 1\<rparr>, None), w')
              | (Inr _, (w', l')) \<Rightarrow> Some ((l', Some (rest, n)), w'))))"

text \<open>One round of the mailbox's loop; after an error it sleeps and is asked again.\<close>
definition mailbox_turn :: "'w blocking_poll \<Rightarrow> ('v, 'w) bus_runtime \<Rightarrow> ('v, 'w) bus_runtime option" where
  "mailbox_turn poll s =
     (if br_running s
      then map_option (\<lambda>(_, (w, m)). s\<lparr>br_world := w, br_mailbox := m\<rparr>)
        (poll_and_receive poll (Some 10000000000) (br_world s, br_mailbox s))
      else None)"

text \<open>
  The steps of a runtime.  \<open>clients p\<close> says that some client may append \<open>p\<close>; \<open>idle\<close> is what else happens to the world,
  such as time passing.  Dropping the runtime stops every loop at its next await.
\<close>
inductive runtime_step :: "'w agent_bus \<Rightarrow> 'w blocking_poll \<Rightarrow> ('v, 'w) voter_ops \<Rightarrow> (payload \<Rightarrow> bool) \<Rightarrow> ('w \<Rightarrow> 'w \<Rightarrow> bool)
    \<Rightarrow> ('v, 'w) bus_runtime \<Rightarrow> ('v, 'w) bus_runtime \<Rightarrow> bool"
  for B poll V clients idle where
  decider: "decider_turn B poll s = Some s' \<Longrightarrow> runtime_step B poll V clients idle s s'"
| voter: "br_running s \<Longrightarrow> i < length (br_voters s) \<Longrightarrow> voter_turn B poll V (br_voters s ! i) (br_world s) = Some (t, w) \<Longrightarrow>
    runtime_step B poll V clients idle s (s\<lparr>br_world := w, br_voters := (br_voters s)[i := t]\<rparr>)"
| mailbox: "mailbox_turn poll s = Some s' \<Longrightarrow> runtime_step B poll V clients idle s s'"
| check: "check_mail (br_mailbox s) = (ms, m) \<Longrightarrow> runtime_step B poll V clients idle s (s\<lparr>br_mailbox := m\<rparr>)"
| client: "clients p \<Longrightarrow> bus_append B \<lparr>ar_bus_id = Some b, ar_payload = Some p\<rparr> (br_world s) = (r, w) \<Longrightarrow>
    runtime_step B poll V clients idle s (s\<lparr>br_world := w\<rparr>)"
| idle: "idle (br_world s) w \<Longrightarrow> runtime_step B poll V clients idle s (s\<lparr>br_world := w\<rparr>)"
| stop: "runtime_step B poll V clients idle s (s\<lparr>br_running := False\<rparr>)"

inductive runtime_reachable :: "'w agent_bus \<Rightarrow> 'w blocking_poll \<Rightarrow> ('v, 'w) voter_ops \<Rightarrow> (payload \<Rightarrow> bool) \<Rightarrow> ('w \<Rightarrow> 'w \<Rightarrow> bool)
    \<Rightarrow> ('v, 'w) bus_runtime \<Rightarrow> ('v, 'w) bus_runtime \<Rightarrow> bool"
  for B poll V clients idle s0 where
  start: "runtime_reachable B poll V clients idle s0 s0"
| step: "runtime_reachable B poll V clients idle s0 s \<Longrightarrow> runtime_step B poll V clients idle s s' \<Longrightarrow>
    runtime_reachable B poll V clients idle s0 s'"

section \<open>The decisions a log calls for\<close>

text \<open>The first boolean vote on an intention among the entries after it.\<close>
fun first_boolean_vote :: "int \<Rightarrow> (int \<times> payload_kind) list \<Rightarrow> (bool \<times> string) option" where
  "first_boolean_vote i [] = None"
| "first_boolean_vote i ((_, k) # rest) =
     (case k of
        Vote v \<Rightarrow>
          (case abstract_vote v of
             Some (Some (BooleanVote b)) \<Rightarrow>
               if vote_intention_id v = i
               then Some (b, if vote_reason v = [] then ''No reason provided'' else vote_reason v)
               else first_boolean_vote i rest
           | _ \<Rightarrow> first_boolean_vote i rest)
      | _ \<Rightarrow> first_boolean_vote i rest)"

text \<open>
  What the policy in force at an intention makes of it: at once, or by its first boolean vote.
\<close>
definition policy_decision :: "int \<Rightarrow> int \<Rightarrow> (int \<times> payload_kind) list \<Rightarrow> (bool \<times> string) option" where
  "policy_decision policy i rest =
     (if policy = decider_policy_as_i32 OnByDefault then Some (True, ''ON_BY_DEFAULT policy'')
      else if policy = decider_policy_as_i32 OffByDefault then Some (False, ''OFF_BY_DEFAULT policy'')
      else first_boolean_vote i rest)"

fun called_for :: "int \<Rightarrow> (int \<times> payload_kind) list \<Rightarrow> (int \<times> bool \<times> string) set" where
  "called_for policy [] = {}"
| "called_for policy ((i, k) # rest) =
     (case k of
        Intention _ \<Rightarrow> {(i, x) |x. policy_decision policy i rest = Some x} \<union> called_for policy rest
      | DeciderPolicy p \<Rightarrow> called_for p rest
      | _ \<Rightarrow> called_for policy rest)"

text \<open>The intentions that wait for a vote: tracked, undecided and without a vote so far.\<close>
definition waiting :: "decider \<Rightarrow> int set" where
  "waiting d = {i. \<exists>t. dc_intention_states d i = Some \<lparr>its_vote_tracker = t, its_decision_made = False\<rparr>}"

definition waits_ok :: "decider \<Rightarrow> bool" where
  "waits_ok d \<longleftrightarrow> dc_vote_tracker_factory d = create_vote_tracker_for_decider_policy \<and>
     (\<forall>i st. dc_intention_states d i = Some st \<longrightarrow> \<not> its_decision_made st \<longrightarrow> its_vote_tracker st = FirstVoterWinsTracker None None)"


lemma cursor_irrelevant [simp]:
  "waiting (d\<lparr>dc_next_log_position := n\<rparr>) = waiting d" "waits_ok (d\<lparr>dc_next_log_position := n\<rparr>) = waits_ok d"
  "tracks_before (d\<lparr>dc_next_log_position := n\<rparr>) p = tracks_before d p"
  by (simp_all add: waiting_def waits_ok_def tracks_before_def)

lemma first_boolean_vote_skips:
  "(\<forall>b. abstract_vote v \<noteq> Some (Some (BooleanVote b))) \<or> vote_intention_id v \<noteq> i \<Longrightarrow>
     first_boolean_vote i ((pos, Vote v) # rest) = first_boolean_vote i rest"
  by (auto split: option.split vote_type_kind.split)

text \<open>What one entry does to the policy, to the waiting intentions and to the decisions.\<close>
lemma decide_entry_called:
  assumes "decide_entry d (pos, k) = (d1, out)" "waits_ok d" "tracks_before d pos"
  shows "waits_ok d1 \<and> dc_current_decider_policy d1 = (case k of DeciderPolicy p \<Rightarrow> p | _ \<Rightarrow> dc_current_decider_policy d) \<and>
    set out \<union> called_for (dc_current_decider_policy d1) rest \<union> {(i, x) |i x. i \<in> waiting d1 \<and> first_boolean_vote i rest = Some x}
    = called_for (dc_current_decider_policy d) ((pos, k) # rest) \<union>
      {(i, x) |i x. i \<in> waiting d \<and> first_boolean_vote i ((pos, k) # rest) = Some x}"
proof -
  have fresh: "dc_intention_states d pos = None" using assms(3) by (auto simp: tracks_before_def)
  have factory: "dc_vote_tracker_factory d = create_vote_tracker_for_decider_policy" using assms(2) by (simp add: waits_ok_def)
  consider (intention) i where "k = Intention i" | (vote) v where "k = Vote v" | (policy) p where "k = DeciderPolicy p"
    | (other) "d1 = d" "out = []" "\<nexists>i. k = Intention i" "\<nexists>v. k = Vote v" "\<nexists>p. k = DeciderPolicy p"
    using assms(1) by (cases k) auto
  then show ?thesis
  proof cases
    case intention
    let ?p = "dc_current_decider_policy d"
    have nodup: "pos \<notin> waiting d" using fresh by (simp add: waiting_def)
    consider (on) "?p = decider_policy_as_i32 OnByDefault" | (off) "?p = decider_policy_as_i32 OffByDefault"
      | (wait) "?p \<noteq> decider_policy_as_i32 OnByDefault" "?p \<noteq> decider_policy_as_i32 OffByDefault" by blast
    then show ?thesis
    proof cases
      case on
      then have "waiting d1 = waiting d" using assms(1) fresh intention factory
        by (auto simp: decide_intention_def create_vote_tracker_for_decider_policy_def waiting_def ex_bool_eq split: if_splits)
      then show ?thesis using on assms(1,2) intention factory
        by (auto simp: decide_intention_def create_vote_tracker_for_decider_policy_def waits_ok_def policy_decision_def ex_bool_eq split: if_splits)
    next
      case off
      then have "waiting d1 = waiting d" using assms(1) fresh intention factory
        by (auto simp: decide_intention_def create_vote_tracker_for_decider_policy_def waiting_def ex_bool_eq split: if_splits)
      then show ?thesis using off assms(1,2) intention factory
        by (auto simp: decide_intention_def create_vote_tracker_for_decider_policy_def waits_ok_def policy_decision_def ex_bool_eq split: if_splits)
    next
      case wait
      then have tracker: "create_vote_tracker_for_decider_policy ?p = FirstVoterWinsTracker None None"
        by (auto simp: create_vote_tracker_for_decider_policy_def)
      then have "waiting d1 = insert pos (waiting d)" using assms(1) intention factory
        by (auto simp: decide_intention_def waiting_def)
      then show ?thesis using wait assms(1,2) intention factory tracker
        by (auto simp: decide_intention_def waits_ok_def policy_decision_def split: if_splits)
    qed
  next
    case vote
    show ?thesis
    proof (cases "vote_intention_id v \<in> waiting d")
      case False
      have "its_decision_made st" if "dc_intention_states d (vote_intention_id v) = Some st" for st
        using False that by (cases st) (auto simp: waiting_def)
      then have "d1 = d \<and> out = []" using assms(1) vote
        by (cases "dc_intention_states d (vote_intention_id v)") (auto simp: decide_vote_def)
      moreover have "first_boolean_vote i ((pos, k) # rest) = first_boolean_vote i rest" if "i \<in> waiting d" for i
        unfolding vote by (rule first_boolean_vote_skips) (use that False in blast)
      ultimately show ?thesis using assms(2) vote by (auto simp del: first_boolean_vote.simps)
    next
      case True
      then obtain t where t: "dc_intention_states d (vote_intention_id v) = Some \<lparr>its_vote_tracker = t, its_decision_made = False\<rparr>"
        by (auto simp: waiting_def)
      then have tr: "t = FirstVoterWinsTracker None None" using assms(2) by (force simp: waits_ok_def)
      show ?thesis
      proof (cases "\<exists>b. abstract_vote v = Some (Some (BooleanVote b))")
        case True
        then obtain b where b: "abstract_vote v = Some (Some (BooleanVote b))" by blast
        have "waiting d1 = waiting d - {vote_intention_id v}"
          using assms(1) vote t tr b by (auto simp: decide_vote_def waiting_def Let_def split: if_splits)
        then show ?thesis using assms(1,2) vote t tr b \<open>vote_intention_id v \<in> waiting d\<close>
          by (auto simp: decide_vote_def waits_ok_def reason_or_default_def Let_def split: if_splits)
      next
        case False
        have "(dc_intention_states d)(vote_intention_id v \<mapsto> \<lparr>its_vote_tracker = t, its_decision_made = False\<rparr>) = dc_intention_states d"
          using t by (simp add: fun_upd_idem)
        moreover from False have "tracker_apply_vote t v = (None, t)"
          using tr by (auto split: option.split vote_type_kind.split)
        ultimately have "d1 = d \<and> out = []" using assms(1) vote t by (auto simp: decide_vote_def)
        moreover have "first_boolean_vote i ((pos, k) # rest) = first_boolean_vote i rest" for i
          unfolding vote by (rule first_boolean_vote_skips) (use False in blast)
        ultimately show ?thesis using assms(2) vote by (auto simp del: first_boolean_vote.simps)
      qed
    qed
  next
    case policy
    then show ?thesis using assms(1,2) by (auto simp: waits_ok_def waiting_def)
  next
    case other
    then show ?thesis using assms(2) by (cases k) auto
  qed
qed

text \<open>The decider's decisions over a log are those the log calls for.\<close>
lemma decide_all_called:
  assumes "waits_ok d" "tracks_before d p" "sorted_wrt (<) (map fst es)" "\<forall>e \<in> set es. p \<le> fst e"
  shows "set (snd (decide_all d es)) = called_for (dc_current_decider_policy d) es \<union>
    {(i, x) |i x. i \<in> waiting d \<and> first_boolean_vote i es = Some x}"
  using assms
proof (induction es arbitrary: d p)
  case (Cons e es)
  obtain pos k where e: "e = (pos, k)" by fastforce
  obtain d1 out where step: "decide_entry d (pos, k) = (d1, out)" by fastforce
  have "p \<le> pos" using Cons.prems(4) e by simp
  then have before: "tracks_before d pos" using Cons.prems(2) unfolding tracks_before_def by (meson order_less_le_trans)
  note now = decide_entry_called[OF step Cons.prems(1) before]
  have after: "tracks_before d1 (pos + 1)" using decide_entry_effect(1)[OF step before, of 0] by simp
  have "sorted_wrt (<) (map fst es)" "\<forall>x \<in> set es. pos + 1 \<le> fst x" using Cons.prems(3) e by auto
  then have "set (snd (decide_all (d1\<lparr>dc_next_log_position := pos + 1\<rparr>) es)) = called_for (dc_current_decider_policy d1) es \<union>
      {(i, x) |i x. i \<in> waiting d1 \<and> first_boolean_vote i es = Some x}"
    using Cons.IH[of "d1\<lparr>dc_next_log_position := pos + 1\<rparr>" "pos + 1"] now after by simp
  moreover have "snd (decide_all d (e # es)) = out @ snd (decide_all (d1\<lparr>dc_next_log_position := pos + 1\<rparr>) es)"
    using step e by (simp split: prod.split)
  moreover have "set out \<union> (called_for (dc_current_decider_policy d1) es \<union> {(i, x) |i x. i \<in> waiting d1 \<and> first_boolean_vote i es = Some x}) =
      called_for (dc_current_decider_policy d) (e # es) \<union> {(i, x) |i x. i \<in> waiting d \<and> first_boolean_vote i (e # es) = Some x}"
    using now[of es] unfolding e Un_assoc by blast
  ultimately show ?case by simp
qed simp


lemma decide_entry_cursor: "decide_entry (d\<lparr>dc_next_log_position := n\<rparr>) e =
    (case decide_entry d e of (d', out) \<Rightarrow> (d'\<lparr>dc_next_log_position := n\<rparr>, out))"
  by (cases "(d, e)" rule: decide_entry.cases)
    (auto simp: decide_intention_def decide_vote_def split: prod.split option.split)

lemma decide_all_append: "decide_all d (xs @ ys) =
    (case decide_all d xs of (d1, out) \<Rightarrow> (case decide_all d1 ys of (d2, outs) \<Rightarrow> (d2, out @ outs)))"
  by (induction xs arbitrary: d) (auto split: prod.split)

text \<open>Apart from the cursor, the state after one more entry.\<close>
lemma decide_all_snoc:
  assumes "decide_all d0 xs = (d1, outs)" "d = d1\<lparr>dc_next_log_position := n\<rparr>" "decide_entry d e = (d', out)"
  shows "decide_all d0 (xs @ [e]) = (d'\<lparr>dc_next_log_position := fst e + 1\<rparr>, outs @ out)"
proof -
  obtain x where "decide_entry d1 e = (x, out)" "d' = x\<lparr>dc_next_log_position := n\<rparr>"
    using assms(3) unfolding assms(2) decide_entry_cursor by (auto split: prod.splits)
  then show ?thesis using assms(1) by (simp add: decide_all_append)
qed

section \<open>The log as the decider reads it\<close>

definition watched_entry :: "bus_entry \<Rightarrow> (int \<times> payload_kind) option" where
  "watched_entry e = (if entry_matches (Some DECIDER_PAYLOAD_TYPES) e
     then map_option (\<lambda>k. (position_or_zero e, k)) (Option.bind (entry_payload e) id) else None)"

definition watched :: "bus_entry list \<Rightarrow> (int \<times> payload_kind) list" where
  "watched es = List.map_filter watched_entry es"

lemma watched_simps [simp]: "watched [] = []" "watched (es @ es') = watched es @ watched es'"
  by (simp_all add: watched_def map_filter_def)

lemma watched_none: "\<forall>e \<in> set es. \<not> entry_matches (Some DECIDER_PAYLOAD_TYPES) e \<Longrightarrow> watched es = []"
  by (induction es) (simp_all add: watched_def map_filter_simps watched_entry_def)

lemma entry_matches_kind: "entry_matches (Some DECIDER_PAYLOAD_TYPES) e \<Longrightarrow> \<exists>k. entry_payload e = Some (Some k) \<and> (\<forall>c. k \<noteq> Control c)"
  by (cases "the (entry_payload e)" rule: get_payload_type.cases)
    (auto simp: entry_matches_def payload_matches_filter_def DECIDER_PAYLOAD_TYPES_def split: option.splits)

lemma watched_one:
  assumes "entry_matches (Some DECIDER_PAYLOAD_TYPES) e" "header_position e = Some i"
  obtains k where "watched [e] = [(i, k)]" "decider_entry e (i, k)"
  using entry_matches_kind[OF assms(1)] assms
  by (auto simp: watched_def map_filter_simps watched_entry_def decider_entry_def position_or_zero_def header_position_def
      split: option.splits)

text \<open>The decisions a log holds, in order.\<close>
definition is_decision :: "payload \<Rightarrow> bool" where
  "is_decision p = (case p of Some (Commit _) \<Rightarrow> True | Some (Abort _) \<Rightarrow> True | _ \<Rightarrow> False)"

definition decisions :: "bus_entry list \<Rightarrow> payload list" where
  "decisions es = filter is_decision (List.map_filter entry_payload es)"

lemma decisions_append [simp]: "decisions (es @ es') = decisions es @ decisions es'"
  by (simp add: decisions_def map_filter_def)

lemma decisions_payloads: "map entry_payload es' = map entry_payload es @ map Some ps \<Longrightarrow> decisions es' = decisions es @ filter is_decision ps"
proof -
  have eq: "List.map_filter entry_payload xs = List.map_filter id (map entry_payload xs)" for xs
    by (induction xs) (simp_all add: map_filter_simps split: option.split)
  have "List.map_filter id (map Some ps) = ps" by (induction ps) (simp_all add: map_filter_simps)
  moreover assume "map entry_payload es' = map entry_payload es @ map Some ps"
  ultimately show ?thesis unfolding decisions_def eq by (simp add: map_filter_def)
qed

lemma is_decision_of [simp]: "is_decision (decision_of x)"
  by (cases x) (simp add: is_decision_def decision_of_def)

lemma filter_decisions_of [simp]: "filter is_decision (map decision_of outs) = map decision_of outs"
  by (induction outs) simp_all

lemma watched_sorted:
  assumes "well_numbered es" "0 \<le> p" "p \<le> c" "c \<le> int (length es)"
  shows "sorted_wrt (<) (map fst (watched (segment es p c))) \<and> (\<forall>e \<in> set (watched (segment es p c)). p \<le> fst e \<and> fst e < c)"
  using assms(3,4)
proof (induction "nat (c - p)" arbitrary: c)
  case 0
  then show ?case by (simp add: segment_def)
next
  case (Suc n)
  have c: "p \<le> c - 1" "0 \<le> c - 1" using Suc.hyps(2) assms(2) by simp_all
  let ?i = "nat (c - 1)"
  have "segment es (c - 1) c = [es ! ?i]"
    using segment_Cons[of ?i "nat c" es] c Suc.prems by (simp add: nat_diff_distrib)
  then have split: "segment es p c = segment es p (c - 1) @ [es ! ?i]"
    using segment_append[of p "c - 1" c es] assms(2) c(1) by simp
  have "?i < length es" "int ?i = c - 1" using Suc.prems c by simp_all
  then obtain h where h: "entry_header (es ! ?i) = Some h" "log_position h = c - 1"
    using assms(1) unfolding well_numbered_def by metis
  have "set (watched [es ! ?i]) \<subseteq> {c - 1} \<times> UNIV" "length (watched [es ! ?i]) \<le> 1"
    using h by (auto simp: watched_def map_filter_simps watched_entry_def position_or_zero_def split: option.splits)
  moreover have "n = nat (c - 1 - p)" using Suc.hyps(2) by simp
  then have "sorted_wrt (<) (map fst (watched (segment es p (c - 1)))) \<and> (\<forall>e \<in> set (watched (segment es p (c - 1))). p \<le> fst e \<and> fst e < c - 1)"
    using Suc.hyps(1) c(1) Suc.prems by simp
  ultimately show ?case unfolding split
    using c(1) by (cases "watched [es ! ?i]") (auto simp: sorted_wrt_append)
qed


section \<open>Steps that decide nothing\<close>

text \<open>The logs may grow, but not by a decision.\<close>
definition undecisive :: "'z mem_world_scheme \<Rightarrow> 'z mem_world_scheme \<Rightarrow> bool" where
  "undecisive w w' \<longleftrightarrow> (mem_inv w \<longrightarrow> mem_inv w') \<and>
     (\<forall>b. prefix (mem_log w b) (mem_log w' b) \<and> decisions (mem_log w' b) = decisions (mem_log w b))"

lemma undecisive_refl: "undecisive w w"
  by (simp add: undecisive_def)

lemma undecisive_trans: "undecisive w w1 \<Longrightarrow> undecisive w1 w2 \<Longrightarrow> undecisive w w2"
  unfolding undecisive_def by (metis prefix_order.trans)

lemma undecisive_same_log: "mem_log w' = mem_log w \<Longrightarrow> undecisive w w'"
  by (simp add: undecisive_def mem_inv_def)

lemma undecisive_append:
  assumes "clock_keeps_buses (mb_environment mb)" "mem_append mb \<lparr>ar_bus_id = b, ar_payload = Some p\<rparr> w = (r, w')" "\<not> is_decision p"
  shows "undecisive w w'"
proof (cases rule: mem_append_result[OF assms(1), of "\<lparr>ar_bus_id = b, ar_payload = Some p\<rparr>" w])
  case (1 e w1)
  then show ?thesis using assms(2) by (intro undecisive_same_log) (simp add: mem_log_def stored_def fun_eq_iff)
next
  case (2 b1 q ts at w1)
  have "mem_evolves w w'" using movesD[OF mem_append_evolves[OF assms(1)] assms(2)] .
  moreover have "map entry_payload (mem_log w' b1) = map entry_payload (mem_log w b1) @ map Some [p]"
    and "\<forall>b2. b2 \<noteq> b1 \<longrightarrow> mem_log w' b2 = mem_log w b2" using 2 assms(2) by (auto simp: mem_log_def)
  ultimately show ?thesis
    using assms(3) decisions_payloads[of "mem_log w' b1" "mem_log w b1" "[p]"]
    by (auto simp: undecisive_def mem_evolves_def mem_log_def map_mono_prefix)
qed

lemma poll_loop_keeps_log:
  assumes "blocking_poll_loop (memory_bus \<lparr>mb_environment = sim_environment bo, mb_ttl = ttl\<rparr>) (sim_environment bo) req i d w = Some (r, w')"
  shows "mem_log w' = mem_log w"
proof -
  let ?B = "memory_bus \<lparr>mb_environment = sim_environment bo, mb_ttl = ttl\<rparr>"
  define P where "P B env req i d w y \<longleftrightarrow> B = ?B \<longrightarrow> env = sim_environment bo \<longrightarrow> mem_log (snd y) = mem_log w"
    for B env and req :: blocking_poll_request and i :: "nat option" and d :: nat and w :: "'a mem_world_scheme" and y :: "(bus_error + blocking_poll_response) \<times> 'a mem_world_scheme"
  have "P ?B (sim_environment bo) req i d w (r, w')"
  proof (rule blocking_poll_loop.raw_induct[OF _ assms])
    fix loop B env req i d w y
    assume IH: "\<And>B env req i d w y. loop B env req i d w = Some y \<Longrightarrow> P B env req i d w y"
      and body: "(case bus_check_tail B (bp_bus_id req) w of
        (Inl e, w1) \<Rightarrow> Some (Inl e, w1)
      | (Inr tail, w1) \<Rightarrow>
          if bp_start_log_position req < tail then
            Some (bindE (bus_read_next B \<lparr>rn_bus_id = bp_bus_id req,
                    rn_start_log_position = bp_start_log_position req, rn_end_log_position = tail,
                    rn_max_entries = bp_max_entries req, rn_filter = bp_filter req\<rparr>)
                  (\<lambda>resp. ret \<lparr>bs_entries = rr_entries resp,
                       bs_next_start_position = rr_next_start_position resp\<rparr>) w1)
          else
            (case env_monotonic_time env w1 of (now, w2) \<Rightarrow>
               if d \<le> now then
                 Some (Inr \<lparr>bs_entries = [], bs_next_start_position = bp_start_log_position req\<rparr>, w2)
               else loop B env req i d
                      (env_sleep env (min (case i of Some i \<Rightarrow> i | None \<Rightarrow> DEFAULT_POLL_INTERVAL) (d - now)) w2))) = Some y"
    show "P B env req i d w y"
      unfolding P_def
    proof (intro impI)
      assume eqs: "B = ?B" "env = sim_environment bo"
      have read: "mem_log w2 = mem_log w1" if "bus_read_next ?B q w1 = (x, w2)" for q x and w1 w2 :: "'a mem_world_scheme"
        using that mem_check_buses[of "\<lparr>mb_environment = sim_environment bo, mb_ttl = ttl\<rparr>" w1]
        by (auto simp: memory_bus_def mem_read_next_def mem_log_def sim_clock_keeps_buses split: sum.splits prod.splits if_splits)
      have sleep: "mem_log (env_sleep (sim_environment bo) t w1) = mem_log w1" for t and w1 :: "'a mem_world_scheme"
        by (simp add: sim_environment_def sim_sleep_def advance_to_def mem_log_def fun_eq_iff)
      have time: "env_monotonic_time (sim_environment bo) w1 = (mw_elapsed w1, w1)" for w1 :: "'a mem_world_scheme"
        by (simp add: sim_environment_def clock_monotonic_time_def)
      have again: "mem_log (snd y) = mem_log w" if "loop ?B (sim_environment bo) req i d (env_sleep (sim_environment bo) t w) = Some y" for t
        using IH[OF that] sleep by (simp add: P_def)
      obtain x where tail: "bus_check_tail ?B (bp_bus_id req) w = (x, w)"
        by (cases "validate_bus_id (bp_bus_id req)") (simp_all add: memory_bus_def mem_check_tail_def)
      show "mem_log (snd y) = mem_log w"
        using body again read unfolding eqs tail time
        by (auto simp: bindE_def ret_def split: sum.splits if_splits prod.splits)
    qed
  qed
  then show ?thesis by (simp add: P_def)
qed

lemma poll_keeps_log:
  assumes "mem_blocking_poll \<lparr>mb_environment = sim_environment bo, mb_ttl = ttl\<rparr> req w = Some (r, w')"
  shows "mem_log w' = mem_log w"
  using assms poll_loop_keeps_log[of bo ttl req _ _ w r w']
  by (auto simp: mem_blocking_poll_def blocking_poll_default_def sim_environment_def clock_monotonic_time_def Let_def split: if_splits)


section \<open>The decider keeps up with the log\<close>

lemma segment_split:
  assumes "0 \<le> c" "segment es c n = us @ e # vs"
  shows "segment es c (c + int (length us)) = us" "es ! (nat c + length us) = e"
    "segment es (c + int (length us) + 1) n = vs" "c + int (length us) < n" "nat c + length us < length es"
proof -
  have len: "length us < length (segment es c n)" using assms(2) by simp
  then have n: "nat c + length us < nat n" "nat c + length us < length es" by (auto simp: segment_def)
  have idx: "nat (c + int (length us)) = nat c + length us" "nat (1 + (c + int (length us))) = Suc (nat c + length us)" using assms(1) by simp_all
  have "take (length us) (segment es c n) = us" using assms(2) by simp
  then show "segment es c (c + int (length us)) = us" using n by (simp add: segment_def idx min_def split: if_splits)
  have "segment es c n ! length us = e" using assms(2) by simp
  then show "es ! (nat c + length us) = e" using n by (simp add: segment_def)
  have "drop (Suc (length us)) (segment es c n) = vs" using assms(2) by simp
  then show "segment es (c + int (length us) + 1) n = vs" by (simp add: segment_def idx drop_take add.commute[of _ 1] add.commute[of "length us"])
  show "c + int (length us) < n" "nat c + length us < length es" using n assms(1) by simp_all
qed

text \<open>
  The decider of bus \<open>b\<close> started at \<open>p0\<close> when the bus held the decisions \<open>old\<close> has worked through the log up to \<open>c\<close>:
  its state is that of the fold, and the log holds the decisions of the fold and no other.
\<close>
definition caught_up :: "string \<Rightarrow> int \<Rightarrow> payload list \<Rightarrow> bus_entry list \<Rightarrow> decider \<Rightarrow> int \<Rightarrow> bool" where
  "caught_up b p0 old es d c \<longleftrightarrow> 0 \<le> p0 \<and> p0 \<le> c \<and> c \<le> int (length es) \<and>
     (\<exists>d1 outs n. decide_all (decider_new b p0 create_vote_tracker_for_decider_policy) (watched (segment es p0 c)) = (d1, outs) \<and>
        d = d1\<lparr>dc_next_log_position := n\<rparr> \<and> decisions es = old @ map decision_of outs)"

lemma caught_up_later: "caught_up b p0 old es d c \<Longrightarrow> prefix es es' \<Longrightarrow> decisions es' = decisions es \<Longrightarrow> caught_up b p0 old es' d c"
  using segment_prefix[of es es' c p0] prefix_length_le[of es es'] by (auto simp: caught_up_def)

lemma caught_up_quiet:
  assumes "caught_up b p0 old es d c" "filter (entry_matches (Some DECIDER_PAYLOAD_TYPES)) (segment es c n) = []" "c \<le> n" "n \<le> int (length es)"
  shows "caught_up b p0 old es (d\<lparr>dc_next_log_position := m\<rparr>) n"
proof -
  have "watched (segment es c n) = []" using assms(2) by (intro watched_none) (simp add: filter_empty_conv)
  then have "watched (segment es p0 n) = watched (segment es p0 c)"
    using segment_append[of p0 c n es] assms(1,3) by (auto simp: caught_up_def simp flip: segment_append[of p0 c n es])
  then show ?thesis using assms unfolding caught_up_def by fastforce
qed

lemma caught_up_bus: "caught_up b p0 old es d c \<Longrightarrow> dc_agent_bus_id d = b"
proof -
  have "dc_agent_bus_id (fst (decide_all d0 xs)) = dc_agent_bus_id d0" for d0 xs
  proof (induction xs arbitrary: d0)
    case (Cons x xs)
    obtain d1 out where step: "decide_entry d0 x = (d1, out)" by fastforce
    show ?case using Cons[of "d1\<lparr>dc_next_log_position := fst x + 1\<rparr>"] decide_entry_bus_id[OF step] step by (auto split: prod.split)
  qed simp
  from this[of "decider_new b p0 create_vote_tracker_for_decider_policy"] show "caught_up b p0 old es d c \<Longrightarrow> dc_agent_bus_id d = b"
    by (auto simp: caught_up_def decider_new_def) (metis fst_conv)
qed

lemma decider_process_entry_evolves:
  assumes "clock_keeps_buses (mb_environment mb)" "decider_process_entry (memory_bus mb) e (w, d) = (r, (w', d'))"
  shows "mem_evolves w w'"
proof -
  have app: "mem_evolves w w1" if "append_decision (memory_bus mb) i c x (w, d2) = (r1, (w1, d1))" for i c x d2 r1 and w1 and d1
    using that movesD[OF mem_append_evolves[OF assms(1)]] by (auto simp: append_decision_def memory_bus_def split: prod.splits sum.splits)
  have same: "mem_evolves w w" by (simp add: mem_evolves_same)
  from assms(2) show ?thesis using app same
    by (auto simp: decider_process_entry_def eff_defs Let_def process_intention_def process_vote_def process_decider_policy_def
        split: option.splits payload_kind.splits prod.splits sum.splits if_splits)
qed

text \<open>One entry of the decider's batch: what it appends is what the fold adds.\<close>
lemma caught_up_entry:
  assumes "clock_keeps_buses (mb_environment mb)" "valid_bus b" "mem_inv w" "caught_up b p0 old (mem_log w b) d c"
    and "c \<le> n" "n \<le> int (length (mem_log w b))" "e # rest = filter (entry_matches (Some DECIDER_PAYLOAD_TYPES)) (segment (mem_log w b) c n)"
  obtains w' d' i where "decider_process_entry (memory_bus mb) e (w, d) = (Inr (), (w', d'))" "mem_evolves w w'"
    "caught_up b p0 old (mem_log w' b) d' (i + 1)" "i + 1 \<le> n"
    "rest = filter (entry_matches (Some DECIDER_PAYLOAD_TYPES)) (segment (mem_log w' b) (i + 1) n)"
proof -
  let ?m = "entry_matches (Some DECIDER_PAYLOAD_TYPES)" and ?es = "mem_log w b"
  have c: "0 \<le> c" using assms(4) by (auto simp: caught_up_def)
  obtain us vs where seg: "segment ?es c n = us @ e # vs" "\<forall>u \<in> set us. \<not> ?m u" "?m e" "rest = filter ?m vs"
    using assms(7) by (metis (no_types, lifting) filter_eq_Cons_iff)
  define i where "i = c + int (length us)"
  note split = segment_split[OF c seg(1), folded i_def]
  have i: "c \<le> i" "i < n" "nat i = nat c + length us" using split(4) c by (simp_all add: i_def)
  have "caught_up b p0 old ?es (d\<lparr>dc_next_log_position := 0\<rparr>) i"
    using seg(2) i(1,2) assms(6) by (intro caught_up_quiet[OF assms(4)]) (simp_all add: split(1))
  then obtain d1 outs where fold: "decide_all (decider_new b p0 create_vote_tracker_for_decider_policy) (watched (segment ?es p0 i)) = (d1, outs)"
    and d: "\<exists>n. d\<lparr>dc_next_log_position := 0\<rparr> = d1\<lparr>dc_next_log_position := n\<rparr>" and old: "decisions ?es = old @ map decision_of outs" and p0: "0 \<le> p0" "p0 \<le> i"
    by (auto simp: caught_up_def)
  have "header_position e = Some i"
  proof -
    have "well_numbered ?es" using assms(3) by (simp add: mem_inv_def)
    then obtain h where "entry_header (?es ! nat i) = Some h" "log_position h = int (nat i)"
      using split(5) i(3) unfolding well_numbered_def by metis
    then show ?thesis using split(2) i c by (simp add: header_position_def)
  qed
  from watched_one[OF seg(3) this] obtain k where k: "watched [e] = [(i, k)]" "decider_entry e (i, k)" .
  obtain d2 out where step: "decide_entry d (i, k) = (d2, out)" by fastforce
  have bus: "valid_bus (dc_agent_bus_id d)" "dc_agent_bus_id d = b" using caught_up_bus[OF assms(4)] assms(2) by simp_all
  obtain w' where run: "decider_process_entry (memory_bus mb) e (w, d) = (Inr (), (w', d2\<lparr>dc_next_log_position := i + 1\<rparr>))"
    "map entry_payload (mem_log w' b) = map entry_payload ?es @ map (Some \<circ> decision_of) out"
    using decider_process_entry_mem[OF assms(1) bus(1) k(2) step] bus(2) by auto
  have ev: "mem_evolves w w'" by (rule decider_process_entry_evolves[OF assms(1) run(1)])
  then have pre: "prefix ?es (mem_log w' b)" by (simp add: mem_evolves_def mem_log_def map_mono_prefix)
  have seg': "segment (mem_log w' b) a z = segment ?es a z" if "z \<le> n" for a z
    using segment_prefix[OF pre, of z a] that assms(6) by simp
  have idx: "int (nat i) = i" "int (Suc (nat i)) = i + 1" using i(1) c by simp_all
  have one: "segment ?es i (i + 1) = [e]"
    using segment_Cons[of "nat i" "Suc (nat i)" ?es, unfolded idx] split(2,5) i(3) by simp
  have "segment ?es p0 (i + 1) = segment ?es p0 i @ [e]" using segment_append[of p0 i "i + 1" ?es] p0 one by simp
  then have watched: "watched (segment ?es p0 (i + 1)) = watched (segment ?es p0 i) @ [(i, k)]" using k(1) by simp
  have dd: "d = d1\<lparr>dc_next_log_position := dc_next_log_position d\<rparr>" using d by (cases d; cases d1) auto
  have "decisions (mem_log w' b) = old @ map decision_of (outs @ out)"
    using decisions_payloads[of "mem_log w' b" ?es "map decision_of out"] run(2) old by simp
  then have "caught_up b p0 old (mem_log w' b) (d2\<lparr>dc_next_log_position := i + 1\<rparr>) (i + 1)"
    unfolding caught_up_def using decide_all_snoc[OF fold dd step] watched seg'[of "i + 1" p0] i p0 assms(6) prefix_length_le[OF pre]
    by (auto simp: exI[of _ "i + 1"])
  then show ?thesis using that[OF run(1) ev] i split(3) seg(4) seg'[of n "i + 1"] by simp
qed


section \<open>Every reachable runtime\<close>

definition runtime_ok :: "string \<Rightarrow> int \<Rightarrow> payload list \<Rightarrow> ('v, 'z mem_world_scheme) bus_runtime \<Rightarrow> bool" where
  "runtime_ok b p0 old s \<longleftrightarrow> mem_inv (br_world s) \<and>
     (\<exists>c. caught_up b p0 old (mem_log (br_world s) b) (br_decider s) c \<and>
        (br_decider_running s \<longrightarrow> (case br_decider_batch s of
            None \<Rightarrow> dc_next_log_position (br_decider s) = c
          | Some (q, n) \<Rightarrow> c \<le> n \<and> n \<le> int (length (mem_log (br_world s) b)) \<and>
              q = filter (entry_matches (Some DECIDER_PAYLOAD_TYPES)) (segment (mem_log (br_world s) b) c n))))"

lemma runtime_ok_undecisive:
  assumes "runtime_ok b p0 old s" "undecisive (br_world s) w" "br_decider s' = br_decider s" "br_decider_batch s' = br_decider_batch s"
    "br_decider_running s' = br_decider_running s" "br_world s' = w"
  shows "runtime_ok b p0 old s'"
proof -
  let ?es = "mem_log (br_world s) b"
  have pre: "prefix ?es (mem_log w b)" and dec: "decisions (mem_log w b) = decisions ?es" and inv: "mem_inv w"
    using assms(1,2) by (simp_all add: undecisive_def runtime_ok_def)
  have seg: "segment (mem_log w b) c n = segment ?es c n" if "n \<le> int (length ?es)" for c n
    using segment_prefix[OF pre] that by simp
  from assms(1) obtain c where "caught_up b p0 old ?es (br_decider s) c"
    "br_decider_running s \<longrightarrow> (case br_decider_batch s of None \<Rightarrow> dc_next_log_position (br_decider s) = c
       | Some (q, n) \<Rightarrow> c \<le> n \<and> n \<le> int (length ?es) \<and> q = filter (entry_matches (Some DECIDER_PAYLOAD_TYPES)) (segment ?es c n))"
    by (auto simp: runtime_ok_def)
  then show ?thesis
    using caught_up_later[OF _ pre dec] inv seg prefix_length_le[OF pre] unfolding runtime_ok_def assms(3-6)
    by (intro conjI exI[of _ c]) (auto split: option.splits)
qed

lemma voter_turn_undecisive:
  assumes "clock_keeps_buses (mb_environment mb)" "\<And>req w r w'. poll req w = Some (r, w') \<Longrightarrow> mem_log w' = mem_log w"
    and "\<And>v b t w. mem_log (snd (vo_evaluate V v b t w)) = mem_log w"
    and "voter_turn (memory_bus mb) poll V t w = Some (t', w')"
  shows "undecisive w w'"
proof -
  have evaluate: "undecisive w w1" if "vo_evaluate V v b x w = (y, w1)" for v b x y w1
    using assms(3)[of v b x w] that by (intro undecisive_same_log) simp
  have entry: "undecisive w w1" if "vl_process_entry (memory_bus mb) V e (w, l) = (r, (w1, l1))" for e l r w1 l1
  proof -
    have app: "undecisive w0 w2" if "mem_append mb \<lparr>ar_bus_id = b, ar_payload = Some (Some (Vote v))\<rparr> w0 = (r, w2)" for b v w0 r w2
      using undecisive_append[OF assms(1) that] by (simp add: is_decision_def)
    show ?thesis using that undecisive_refl undecisive_trans[OF evaluate app]
      by (auto simp: vl_process_entry_def eff_defs Let_def vl_process_intention_def vl_process_voter_policy_def memory_bus_def
          split: option.splits payload_kind.splits intention_kind.splits prod.splits sum.splits)
  qed
  have polled: "undecisive w w1" if "poll req w = Some (r, w1)" for req r w1
    by (rule undecisive_same_log[OF assms(2)[OF that]])
  show ?thesis using assms(4) entry polled undecisive_refl
    by (auto simp: voter_turn_def split: prod.splits option.splits list.splits sum.splits decider_error.splits)
qed


context polled_log
begin

lemma poll_entries:
  assumes "poll req w = Some (Inr resp, w')" "inv w" "bp_bus_id req = Some b" "0 \<le> bp_start_log_position req"
    and "bp_start_log_position req \<le> int (length (log w b))"
  shows "bp_start_log_position req \<le> bs_next_start_position resp \<and> bs_next_start_position resp \<le> int (length (log w' b)) \<and>
    bs_entries resp = filter (entry_matches (bp_filter req)) (segment (log w' b) (bp_start_log_position req) (bs_next_start_position resp))"
  using poll_law[OF assms(1)] assms(2-) unfolding polled_def by blast

end

lemma decider_turn_ok:
  assumes "valid_bus b" "runtime_ok b p0 old s"
    and "decider_turn (memory_bus \<lparr>mb_environment = sim_environment bo, mb_ttl = ttl\<rparr>)
      (mem_blocking_poll \<lparr>mb_environment = sim_environment bo, mb_ttl = ttl\<rparr>) s = Some s'"
  shows "runtime_ok b p0 old s'"
proof -
  let ?mb = "\<lparr>mb_environment = sim_environment bo, mb_ttl = ttl\<rparr> :: 'b mem_world_scheme mem_bus"
  let ?m = "entry_matches (Some DECIDER_PAYLOAD_TYPES)" and ?es = "mem_log (br_world s) b" and ?d = "br_decider s"
  have running: "br_decider_running s" using assms(3) by (auto simp: decider_turn_def split: if_splits)
  obtain c where inv: "mem_inv (br_world s)" and c: "caught_up b p0 old ?es ?d c"
    "case br_decider_batch s of None \<Rightarrow> dc_next_log_position ?d = c
       | Some (q, n) \<Rightarrow> c \<le> n \<and> n \<le> int (length ?es) \<and> q = filter ?m (segment ?es c n)"
    using assms(2) running by (auto simp: runtime_ok_def)
  have bus: "dc_agent_bus_id ?d = b" by (rule caught_up_bus[OF c(1)])
  consider (poll) "br_decider_batch s = None" | (finished) n where "br_decider_batch s = Some ([], n)"
    | (entry) e rest n where "br_decider_batch s = Some (e # rest, n)" by (metis list.exhaust option.exhaust surj_pair)
  then show ?thesis
  proof cases
    case poll
    then obtain r w where call: "mem_blocking_poll ?mb (decider_poll_request ?d) (br_world s) = Some (r, w)"
      using assms(3) by (auto simp: decider_turn_def split: if_splits option.splits)
    have log: "mem_log w = mem_log (br_world s)" by (rule poll_keeps_log[OF call])
    have law: "dc_next_log_position ?d \<le> bs_next_start_position resp \<and> bs_next_start_position resp \<le> int (length ?es) \<and>
        bs_entries resp = filter ?m (segment ?es (dc_next_log_position ?d) (bs_next_start_position resp))" if "r = Inr resp" for resp
      using polled_log.poll_entries[OF mem_polled_log call[unfolded that] inv, of b] c poll
      by (auto simp: decider_poll_request_def bus log caught_up_def)
    show ?thesis
    proof (cases r)
      case (Inl e)
      then have "s' = s\<lparr>br_world := w, br_decider_running := False\<rparr>" using assms(3) poll call by (auto simp: decider_turn_def split: if_splits)
      then show ?thesis using c(1) inv by (auto simp: runtime_ok_def log mem_inv_def)
    next
      case (Inr resp)
      then have "s' = s\<lparr>br_world := w, br_decider_batch := Some (bs_entries resp, bs_next_start_position resp)\<rparr>"
        using assms(3) poll call by (auto simp: decider_turn_def split: if_splits)
      then show ?thesis using c inv law[OF Inr] poll by (auto simp: runtime_ok_def log mem_inv_def)
    qed
  next
    case finished
    then have s': "s' = s\<lparr>br_decider := ?d\<lparr>dc_next_log_position := n\<rparr>, br_decider_batch := None\<rparr>"
      using assms(3) by (auto simp: decider_turn_def split: if_splits)
    have "caught_up b p0 old ?es (?d\<lparr>dc_next_log_position := n\<rparr>) n" using c finished by (intro caught_up_quiet[OF c(1)]) auto
    then show ?thesis using inv by (auto simp: runtime_ok_def s')
  next
    case entry
    then have batch: "c \<le> n" "n \<le> int (length ?es)" "e # rest = filter ?m (segment ?es c n)" using c(2) by simp_all
    obtain w' d' i where step: "decider_process_entry (memory_bus ?mb) e (br_world s, ?d) = (Inr (), (w', d'))" "mem_evolves (br_world s) w'"
      "caught_up b p0 old (mem_log w' b) d' (i + 1)" "i + 1 \<le> n" "rest = filter ?m (segment (mem_log w' b) (i + 1) n)"
      by (rule caught_up_entry[of ?mb, OF _ assms(1) inv c(1) batch]) (simp_all add: sim_clock_keeps_buses)
    then have s': "s' = s\<lparr>br_world := w', br_decider := d', br_decider_batch := Some (rest, n)\<rparr>"
      using assms(3) entry by (auto simp: decider_turn_def split: if_splits)
    have "prefix ?es (mem_log w' b)" using step(2) by (simp add: mem_evolves_def mem_log_def map_mono_prefix)
    then have "n \<le> int (length (mem_log w' b))" using batch(2) prefix_length_le by fastforce
    moreover have "mem_inv w'" using step(2) inv by (simp add: mem_evolves_def)
    ultimately show ?thesis using step(3-5) by (auto simp: runtime_ok_def s')
  qed
qed

text \<open>What the tasks of a runtime may rely on: voters do not write to logs, clients append no decisions.\<close>
definition well_behaved :: "('v, 'z mem_world_scheme) voter_ops \<Rightarrow> (payload \<Rightarrow> bool)
    \<Rightarrow> ('z mem_world_scheme \<Rightarrow> 'z mem_world_scheme \<Rightarrow> bool) \<Rightarrow> bool" where
  "well_behaved V clients idle \<longleftrightarrow> (\<forall>v b t w. mem_log (snd (vo_evaluate V v b t w)) = mem_log w) \<and>
     (\<forall>p. clients p \<longrightarrow> \<not> is_decision p) \<and> (\<forall>w w'. idle w w' \<longrightarrow> mem_log w' = mem_log w)"

lemma receive_polls:
  assumes "poll_and_receive poll t (w, mb) = Some (r, (w', m))"
  obtains req x where "poll req w = Some (x, w')"
proof -
  obtain req f where "map_option (\<lambda>(x, w1). f x w1) (poll req w) = Some (r, (w', m))" "\<And>x w1. fst (snd (f x w1)) = w1"
    using assms by (fastforce simp: poll_and_receive_def Let_def split: sum.split)
  then show ?thesis using that by (cases "poll req w") (auto, metis fst_conv snd_conv)
qed

lemma runtime_step_ok:
  assumes "valid_bus b" "well_behaved V clients idle" "runtime_ok b p0 old s"
    and "runtime_step (memory_bus \<lparr>mb_environment = sim_environment bo, mb_ttl = ttl\<rparr>)
      (mem_blocking_poll \<lparr>mb_environment = sim_environment bo, mb_ttl = ttl\<rparr>) V clients idle s s'"
  shows "runtime_ok b p0 old s'"
  using assms(4)
proof cases
  case decider
  then show ?thesis by (rule decider_turn_ok[OF assms(1,3)])
next
  case (voter i t w)
  have "undecisive (br_world s) w"
    by (rule voter_turn_undecisive[OF _ poll_keeps_log _ voter(4)])
      (use assms(2) in \<open>simp_all add: sim_clock_keeps_buses well_behaved_def\<close>)
  then show ?thesis by (rule runtime_ok_undecisive[OF assms(3)]) (simp_all add: voter(1))
next
  case mailbox
  then obtain r w m where turn: "poll_and_receive (mem_blocking_poll \<lparr>mb_environment = sim_environment bo, mb_ttl = ttl\<rparr>) (Some 10000000000)
      (br_world s, br_mailbox s) = Some (r, (w, m))" "s' = s\<lparr>br_world := w, br_mailbox := m\<rparr>"
    by (auto simp: mailbox_turn_def split: if_splits)
  from turn(1) obtain req x where "mem_blocking_poll \<lparr>mb_environment = sim_environment bo, mb_ttl = ttl\<rparr> req (br_world s) = Some (x, w)"
    by (elim receive_polls)
  then have "mem_log w = mem_log (br_world s)" by (rule poll_keeps_log)
  from undecisive_same_log[OF this] show ?thesis by (rule runtime_ok_undecisive[OF assms(3)]) (simp_all add: turn(2))
next
  case (client p b1 r w)
  then have "undecisive (br_world s) w" using assms(2)
    by (intro undecisive_append[of "\<lparr>mb_environment = sim_environment bo, mb_ttl = ttl\<rparr>"])
      (auto simp: memory_bus_def sim_clock_keeps_buses well_behaved_def)
  then show ?thesis by (rule runtime_ok_undecisive[OF assms(3)]) (simp_all add: client(1))
next
  case (idle w)
  then have "undecisive (br_world s) w" using assms(2) by (intro undecisive_same_log) (simp add: well_behaved_def)
  then show ?thesis by (rule runtime_ok_undecisive[OF assms(3)]) (simp_all add: idle(1))
qed (rule runtime_ok_undecisive[OF assms(3) undecisive_refl], simp_all)+

lemma runtime_reachable_ok:
  assumes "runtime_reachable (memory_bus \<lparr>mb_environment = sim_environment bo, mb_ttl = ttl\<rparr>)
      (mem_blocking_poll \<lparr>mb_environment = sim_environment bo, mb_ttl = ttl\<rparr>) V clients idle (spawn_bus_runtime b p0 voters w0) s"
    and "valid_bus b" "well_behaved V clients idle" "mem_inv w0" "0 \<le> p0" "p0 \<le> int (length (mem_log w0 b))"
  shows "runtime_ok b p0 (decisions (mem_log w0 b)) s"
  using assms(1)
proof induction
  case start
  have "caught_up b p0 (decisions (mem_log w0 b)) (mem_log w0 b) (decider_new b p0 create_vote_tracker_for_decider_policy) p0"
    using assms(5,6) by (simp add: caught_up_def) (metis decider.surjective decider.update_convs(2))
  then show ?case using assms(4) by (auto simp: runtime_ok_def spawn_bus_runtime_def decider_new_def)
next
  case (step s s')
  from runtime_step_ok[OF assms(2,3) step.IH step.hyps(2)] show ?case .
qed


section \<open>A round of the loop\<close>

lemma decider_entries_turns:
  assumes "foldE (\<lambda>_. decider_process_entry B) () es (br_world s, br_decider s) = (Inr (), (w, d))"
    and "br_running s" "br_decider_running s" "br_decider_batch s = Some (es, n)"
  shows "(\<lambda>s s'. decider_turn B poll s = Some s')\<^sup>*\<^sup>* s (s\<lparr>br_world := w, br_decider := d, br_decider_batch := Some ([], n)\<rparr>)"
  using assms
proof (induction es arbitrary: s)
  case Nil
  then have "s\<lparr>br_world := w, br_decider := d, br_decider_batch := Some ([], n)\<rparr> = s" by (cases s) (simp add: ret_def)
  then show ?case by simp
next
  case (Cons e es)
  obtain r w1 d1 where step: "decider_process_entry B e (br_world s, br_decider s) = (r, (w1, d1))" by (metis surj_pair)
  then have ok: "r = Inr ()" "foldE (\<lambda>_. decider_process_entry B) () es (w1, d1) = (Inr (), (w, d))"
    using Cons.prems(1) by (auto simp: bindE_def split: sum.splits)
  let ?s = "s\<lparr>br_world := w1, br_decider := d1, br_decider_batch := Some (es, n)\<rparr>"
  have "decider_turn B poll s = Some ?s" using step ok(1) Cons.prems(2-4) by (simp add: decider_turn_def)
  moreover have "(\<lambda>s s'. decider_turn B poll s = Some s')\<^sup>*\<^sup>* ?s (?s\<lparr>br_world := w, br_decider := d, br_decider_batch := Some ([], n)\<rparr>)"
    by (rule Cons.IH) (use ok(2) Cons.prems(2,3) in simp_all)
  ultimately show ?case by (simp add: converse_rtranclp_into_rtranclp)
qed

text \<open>The turns of the decider's loop make up \<open>poll_and_decide\<close>, run without other tasks in between.\<close>
lemma poll_and_decide_turns:
  assumes "poll_and_decide B poll LOOP_TIMEOUT_MS (br_world s, br_decider s) = Some (Inr n, (w, d))"
    and "br_running s" "br_decider_running s" "br_decider_batch s = None"
  shows "(\<lambda>s s'. decider_turn B poll s = Some s')\<^sup>*\<^sup>* s (s\<lparr>br_world := w, br_decider := d\<rparr>)"
proof -
  obtain x w1 where reply: "poll (decider_poll_request (br_decider s)) (br_world s) = Some (x, w1)"
    using assms(1) by (auto simp: poll_and_decide_def decider_poll_request_def)
  then obtain resp where x: "x = Inr resp"
    using assms(1) by (cases x) (auto simp: poll_and_decide_def decider_poll_request_def)
  note call = reply[unfolded x]
  have rest: "bindE (foldE (\<lambda>_. decider_process_entry B) () (bs_entries resp)) (\<lambda>_.
             bindE (modifyE (\<lambda>(w, d). (w, d\<lparr>dc_next_log_position := bs_next_start_position resp\<rparr>))) (\<lambda>_.
               ret (length (bs_entries resp)))) (w1, br_decider s) = (Inr n, (w, d))"
    using assms(1) call by (simp add: poll_and_decide_def decider_poll_request_def)
  obtain d1 where fold: "foldE (\<lambda>_. decider_process_entry B) () (bs_entries resp) (w1, br_decider s) = (Inr (), (w, d1))"
    "d = d1\<lparr>dc_next_log_position := bs_next_start_position resp\<rparr>"
    using rest by (auto simp: bindE_def modifyE_def ret_def split: prod.splits sum.splits)
  let ?s = "s\<lparr>br_world := w1, br_decider_batch := Some (bs_entries resp, bs_next_start_position resp)\<rparr>"
  have "decider_turn B poll s = Some ?s" using call assms(2-4) by (simp add: decider_turn_def)
  moreover have "(\<lambda>s s'. decider_turn B poll s = Some s')\<^sup>*\<^sup>* ?s
      (?s\<lparr>br_world := w, br_decider := d1, br_decider_batch := Some ([], bs_next_start_position resp)\<rparr>)"
    by (rule decider_entries_turns) (use fold(1) assms(2,3) in simp_all)
  moreover have "decider_turn B poll (?s\<lparr>br_world := w, br_decider := d1, br_decider_batch := Some ([], bs_next_start_position resp)\<rparr>) =
      Some (s\<lparr>br_world := w, br_decider := d\<rparr>)" using assms(2-4) fold(2) by (cases s) (simp add: decider_turn_def)
  ultimately show ?thesis by (meson converse_rtranclp_into_rtranclp rtranclp.rtrancl_into_rtrancl)
qed

section \<open>Properties\<close>

lemma decision_of_inject: "decision_of x = decision_of y \<Longrightarrow> x = y"
  by (cases x; cases y) (auto simp: decision_of_def split: if_splits)

text \<open>The fold of the decider, declared.\<close>
lemma caught_up_called:
  assumes "caught_up b p0 old es d c" "well_numbered es"
  obtains outs where "decisions es = old @ map decision_of outs" "distinct (map fst outs)"
    "set outs = called_for (decider_policy_as_i32 OnByDefault) (watched (segment es p0 c))"
proof -
  let ?d = "decider_new b p0 create_vote_tracker_for_decider_policy"
  obtain d1 outs where fold: "decide_all ?d (watched (segment es p0 c)) = (d1, outs)" and log: "decisions es = old @ map decision_of outs"
    and c: "0 \<le> p0" "p0 \<le> c" "c \<le> int (length es)" using assms(1) by (auto simp: caught_up_def)
  have before: "tracks_before ?d p0" and ok: "waits_ok ?d" and none: "waiting ?d = {}" "dc_current_decider_policy ?d = decider_policy_as_i32 OnByDefault"
    by (simp_all add: tracks_before_def waits_ok_def waiting_def decider_new_def)
  have sorted: "sorted_wrt (<) (map fst (watched (segment es p0 c)))" "\<forall>e \<in> set (watched (segment es p0 c)). p0 \<le> fst e"
    using watched_sorted[OF assms(2) c] by auto
  have "distinct (map fst outs)" using decide_all_once[OF fold before sorted] by blast
  moreover have "set outs = called_for (decider_policy_as_i32 OnByDefault) (watched (segment es p0 c))"
    using decide_all_called[OF ok before sorted] fold unfolding none by simp
  ultimately show ?thesis using that log by blast
qed

text \<open>
  C11. However the tasks of a bus and its clients interleave, the decisions on the bus are those that the log calls for
  and no other: beside the decisions it held at the start, it has exactly one for each intention the decider has passed
  that the policy in force decides at once or that has a boolean vote, in that way and for that reason, as long as clients do not append
  decisions themselves.
\<close>
theorem runtime_decides_by_log:
  assumes "valid_bus b" "mem_inv w0" "0 \<le> p0" "p0 \<le> int (length (mem_log w0 b))" "well_behaved V clients idle"
    and "runtime_reachable (memory_bus \<lparr>mb_environment = sim_environment bo, mb_ttl = ttl\<rparr>)
      (mem_blocking_poll \<lparr>mb_environment = sim_environment bo, mb_ttl = ttl\<rparr>) V clients idle (spawn_bus_runtime b p0 voters w0) s"
  shows "\<exists>c outs. p0 \<le> c \<and> c \<le> int (length (mem_log (br_world s) b)) \<and>
    (br_decider_running s \<longrightarrow> br_decider_batch s = None \<longrightarrow> c = dc_next_log_position (br_decider s)) \<and>
    decisions (mem_log (br_world s) b) = decisions (mem_log w0 b) @ map decision_of outs \<and> distinct (map fst outs) \<and>
    set outs = called_for (decider_policy_as_i32 OnByDefault) (watched (segment (mem_log (br_world s) b) p0 c))"
proof -
  have ok: "runtime_ok b p0 (decisions (mem_log w0 b)) s" by (rule runtime_reachable_ok[OF assms(6,1,5,2-4)])
  then obtain c where c: "caught_up b p0 (decisions (mem_log w0 b)) (mem_log (br_world s) b) (br_decider s) c"
    "br_decider_running s \<longrightarrow> br_decider_batch s = None \<longrightarrow> c = dc_next_log_position (br_decider s)" and inv: "mem_inv (br_world s)"
    by (fastforce simp: runtime_ok_def)
  from caught_up_called[OF c(1)] inv obtain outs where "decisions (mem_log (br_world s) b) = decisions (mem_log w0 b) @ map decision_of outs"
    "distinct (map fst outs)" "set outs = called_for (decider_policy_as_i32 OnByDefault) (watched (segment (mem_log (br_world s) b) p0 c))"
    by (auto simp: mem_inv_def)
  then show ?thesis using c by (intro exI[of _ c] exI[of _ outs]) (simp add: caught_up_def)
qed

text \<open>A runtime with one voter, on a bus with one intention.\<close>
definition yes_voter :: "(unit, mem_world) voter_ops" where
  "yes_voter = \<lparr>vo_evaluate = (\<lambda>_ _ _ w. ((True, ''ok''), w)), vo_apply_policy = (\<lambda>_ v. v)\<rparr>"

definition demo_bus :: "mem_world mem_bus" where
  "demo_bus = \<lparr>mb_environment = sim_environment unit_backoff, mb_ttl = None\<rparr>"

definition demo_append :: "payload_kind \<Rightarrow> (unit, mem_world) bus_runtime \<Rightarrow> (unit, mem_world) bus_runtime" where
  "demo_append k s = s\<lparr>br_world := snd (mem_append demo_bus \<lparr>ar_bus_id = Some ''bus'', ar_payload = Some (Some k)\<rparr> (br_world s))\<rparr>"

definition demo_decider_turn :: "(unit, mem_world) bus_runtime \<Rightarrow> (unit, mem_world) bus_runtime" where
  "demo_decider_turn s = (case decider_turn (memory_bus demo_bus) (mem_blocking_poll demo_bus) s of Some s' \<Rightarrow> s' | None \<Rightarrow> s)"

definition demo_runtime :: "(unit, mem_world) bus_runtime" where
  "demo_runtime = (demo_decider_turn ^^ 2) (demo_append an_intention (spawn_bus_runtime ''bus'' 0 [()] empty_mem_world))"

abbreviation demo_reaches :: "(unit, mem_world) bus_runtime \<Rightarrow> bool" where
  "demo_reaches \<equiv> runtime_reachable (memory_bus demo_bus) (mem_blocking_poll demo_bus) yes_voter (\<lambda>p. \<not> is_decision p) (=)
     (spawn_bus_runtime ''bus'' 0 [()] empty_mem_world)"

lemma demo_steps:
  assumes "demo_reaches s"
  shows "demo_reaches (demo_decider_turn s)" "\<not> is_decision (Some k) \<Longrightarrow> demo_reaches (demo_append k s)"
proof -
  note go = runtime_reachable.step[OF assms]
  show "demo_reaches (demo_decider_turn s)"
    using go[OF runtime_step.decider] assms by (auto simp: demo_decider_turn_def split: option.split)
  let ?req = "\<lparr>ar_bus_id = Some ''bus'', ar_payload = Some (Some k)\<rparr>"
  have append: "bus_append (memory_bus demo_bus) ?req (br_world s) = (fst (mem_append demo_bus ?req (br_world s)), snd (mem_append demo_bus ?req (br_world s)))"
    by (simp add: memory_bus_def)
  show "demo_reaches (demo_append k s)" if "\<not> is_decision (Some k)"
    unfolding demo_append_def by (rule go, rule runtime_step.client[OF _ append], rule that)
qed

lemma demo_reached: "demo_reaches demo_runtime"
  unfolding demo_runtime_def
  by (simp add: numeral_eq_Suc) (intro demo_steps runtime_reachable.start; simp add: is_decision_def an_intention_def)

lemma demo_decisions: "decisions (mem_log (br_world demo_runtime) ''bus'') = [Some (Commit \<lparr>commit_intention_id = 0, commit_reason = ''ON_BY_DEFAULT policy''\<rparr>)]"
  by code_simp

theorem runtime_decides_by_log_witness:
  "\<exists>c. called_for (decider_policy_as_i32 OnByDefault) (watched (segment (mem_log (br_world demo_runtime) ''bus'') 0 c)) = {(0, True, ''ON_BY_DEFAULT policy'')}"
proof -
  have "well_behaved yes_voter (\<lambda>p. \<not> is_decision p) (=)" by (simp add: well_behaved_def yes_voter_def)
  moreover have "valid_bus ''bus''" by code_simp
  ultimately obtain c outs where outs: "decisions (mem_log (br_world demo_runtime) ''bus'') = decisions (mem_log empty_mem_world ''bus'') @ map decision_of outs"
    "set outs = called_for (decider_policy_as_i32 OnByDefault) (watched (segment (mem_log (br_world demo_runtime) ''bus'') 0 c))"
    using runtime_decides_by_log[OF _ empty_mem_world_inv order_refl _ _ demo_reached[unfolded demo_bus_def]] by auto
  have "decisions (mem_log empty_mem_world ''bus'') = []" by code_simp
  then have "map decision_of outs = [Some (Commit \<lparr>commit_intention_id = 0, commit_reason = ''ON_BY_DEFAULT policy''\<rparr>)]"
    using outs(1) demo_decisions by simp
  then have "outs = [(0, True, ''ON_BY_DEFAULT policy'')]" by (auto simp: decision_of_def split: prod.splits if_splits)
  then have "called_for (decider_policy_as_i32 OnByDefault) (watched (segment (mem_log (br_world demo_runtime) ''bus'') 0 c)) = {(0, True, ''ON_BY_DEFAULT policy'')}"
    using outs(2) by simp
  then show ?thesis by blast
qed

end
