(* ===== verification/Sqlite_Store.thy ===== *)
theory Sqlite_Store
  imports Persistent_Spaces Policy
begin

text \<open>
  The store of the commit service over SQLite (\<open>logact/commit_service/impls/sqlite/src/lib.rs\<close>) and the initialization
  of the policy register in it (\<open>logact/commit_service/grpc/local_server/src/sqlite_backed_commit_service.rs\<close>).  The
  database is a parameter: one operation per statement, with the documented effect of the statements as the locale
  \<open>sqlite_store_engine\<close>.  The store keeps the contract \<open>cas_store\<close> that the engine relies on.
\<close>

section \<open>The store\<close>

text \<open>
  The three statements: \<open>SELECT value, position\<close>, \<open>INSERT ... ON CONFLICT DO NOTHING\<close> (key, position, value) and
  \<open>UPDATE ... WHERE storage_key = ? AND position = ?\<close> (new position, value, key, position).
\<close>
record ('b, 'w) storage_db =
  sd_select :: "string \<Rightarrow> ('w, sql_failure, ('b \<times> int) list) eff"
  sd_insert :: "string \<Rightarrow> int \<Rightarrow> 'b \<Rightarrow> ('w, sql_failure, nat) eff"
  sd_update :: "int \<Rightarrow> 'b \<Rightarrow> string \<Rightarrow> int \<Rightarrow> ('w, sql_failure, nat) eff"

fun sqlite_storage_error :: "sql_failure \<Rightarrow> storage_error" where
  "sqlite_storage_error DatabaseBusy = TransactionConflict"
| "sqlite_storage_error OtherFailure = BackendUnavailable"

definition sqlite_get :: "('b, 'w) storage_db \<Rightarrow> string \<Rightarrow> ('w, storage_error, ('b \<times> int) option) eff" where
  "sqlite_get db key =
     bindE (map_errE sqlite_storage_error (sd_select db key)) (\<lambda>rows.
       ret (case rows of [] \<Rightarrow> None | row # _ \<Rightarrow> Some row))"

definition sqlite_put :: "('b, 'w) storage_db \<Rightarrow> string \<Rightarrow> 'b \<Rightarrow> int option \<Rightarrow> int \<Rightarrow> ('w, storage_error, bool) eff" where
  "sqlite_put db key v expected new_position w =
     (case expected of
        None \<Rightarrow> bindE (map_errE sqlite_storage_error (sd_insert db key new_position v)) (\<lambda>n. ret (n = 1)) w
      | Some position \<Rightarrow>
          if new_position \<le> position then (Inr False, w)
          else bindE (map_errE sqlite_storage_error (sd_update db new_position v key position)) (\<lambda>n. ret (n = 1)) w)"

definition sqlite_storage :: "('b, 'w) storage_db \<Rightarrow> ('b, 'w) storage" where
  "sqlite_storage db = \<lparr>st_get = sqlite_get db, st_put = sqlite_put db\<rparr>"

section \<open>What SQLite promises\<close>

text \<open>A statement takes effect at one moment of the call or fails, in which case it may or may not have taken effect.\<close>
locale sqlite_store_engine =
  fixes db :: "('b, 'w) storage_db"
    and stored_rows :: "'w \<Rightarrow> string \<Rightarrow> ('b \<times> int) option"
    and evolves :: "'w \<Rightarrow> 'w \<Rightarrow> bool"
  assumes evolves_refl: "evolves w w"
    and evolves_trans: "evolves w w1 \<Longrightarrow> evolves w1 w2 \<Longrightarrow> evolves w w2"
    and evolves_rows: "evolves w w' \<Longrightarrow> store_grows (stored_rows w) (stored_rows w')"
    and select_law: "sd_select db k w = (g, w') \<Longrightarrow>
        \<exists>w1. evolves w w1 \<and> evolves w1 w' \<and> (\<forall>rows. g = Inr rows \<longrightarrow> rows = (case stored_rows w1 k of None \<Rightarrow> [] | Some row \<Rightarrow> [row]))"
    and insert_law: "sd_insert db k n v w = (r, w') \<Longrightarrow>
        (\<exists>w1. evolves w w1 \<and> evolves w1 w' \<and> (\<forall>m. r = Inr m \<longrightarrow> m = 0 \<and> stored_rows w1 k \<noteq> None)) \<or>
        (\<exists>w1 w2. evolves w w1 \<and> stored_rows w1 k = None \<and> stored_rows w2 = (stored_rows w1)(k \<mapsto> (v, n)) \<and> evolves w2 w' \<and>
           (\<forall>m. r = Inr m \<longrightarrow> m = 1))"
    and update_law: "sd_update db n v k p w = (r, w') \<Longrightarrow>
        (\<exists>w1. evolves w w1 \<and> evolves w1 w' \<and> (\<forall>m. r = Inr m \<longrightarrow> m = 0 \<and> map_option snd (stored_rows w1 k) \<noteq> Some p)) \<or>
        (\<exists>w1 w2. evolves w w1 \<and> map_option snd (stored_rows w1 k) = Some p \<and> stored_rows w2 = (stored_rows w1)(k \<mapsto> (v, n)) \<and>
           evolves w2 w' \<and> (\<forall>m. r = Inr m \<longrightarrow> m = 1))"

definition row_writes :: "('w \<Rightarrow> string \<Rightarrow> ('b \<times> int) option) \<Rightarrow> 'w \<Rightarrow> string \<Rightarrow> 'b \<times> int \<Rightarrow> 'w \<Rightarrow> bool" where
  "row_writes stored_rows w k x w' \<longleftrightarrow> stored_rows w' = (stored_rows w)(k \<mapsto> x)"

context sqlite_store_engine
begin

lemma sqlite_get_law:
  assumes "sqlite_get db k w = (g, w')"
  shows "\<exists>w1. evolves w w1 \<and> evolves w1 w' \<and> (\<forall>x. g = Inr x \<longrightarrow> x = stored_rows w1 k)"
proof -
  obtain g0 where call: "sd_select db k w = (g0, w')" "\<forall>x. g = Inr x \<longrightarrow> (\<exists>rows. g0 = Inr rows \<and> x = (case rows of [] \<Rightarrow> None | row # _ \<Rightarrow> Some row))"
    using assms by (auto simp: sqlite_get_def eff_defs split: prod.splits sum.splits)
  from select_law[OF call(1)] obtain w1 where "evolves w w1" "evolves w1 w'"
    "\<forall>rows. g0 = Inr rows \<longrightarrow> rows = (case stored_rows w1 k of None \<Rightarrow> [] | Some row \<Rightarrow> [row])" by blast
  then show ?thesis using call(2) by (intro exI[of _ w1]) (auto split: option.splits)
qed

text \<open>A write happens exactly where a compare-and-swap allows it; a refused one leaves its reason.\<close>
lemma sqlite_put_cases:
  assumes "sqlite_put db k v expected n w = (r, w')"
  obtains (refused) w1 where "evolves w w1" "evolves w1 w'" "\<And>b. r = Inr b \<Longrightarrow> \<not> b \<and> \<not> cas_allowed (stored_rows w1 k) expected n"
  | (written) w1 w2 where "evolves w w1" "cas_allowed (stored_rows w1 k) expected n" "stored_rows w2 = (stored_rows w1)(k \<mapsto> (v, n))"
      "evolves w2 w'" "\<And>b. r = Inr b \<Longrightarrow> b"
proof (cases expected)
  case None
  obtain r0 where call: "sd_insert db k n v w = (r0, w')" "r = map_result_of r0"
    if "map_result_of = (\<lambda>x. case x of Inl e \<Rightarrow> Inl (sqlite_storage_error e) | Inr m \<Rightarrow> Inr (m = 1))" for map_result_of
    using assms None by (cases "sd_insert db k n v w") (auto simp: sqlite_put_def eff_defs split: sum.splits)
  from insert_law[OF call(1)[OF refl]] show ?thesis
  proof (elim disjE exE conjE)
    fix w1 assume "evolves w w1" "evolves w1 w'" "\<forall>m. r0 = Inr m \<longrightarrow> m = 0 \<and> stored_rows w1 k \<noteq> None"
    then show ?thesis using call(2)[OF refl] None by (intro refused[of w1]) (auto simp: cas_allowed_def split: sum.splits)
  next
    fix w1 w2 assume "evolves w w1" "stored_rows w1 k = None" "stored_rows w2 = (stored_rows w1)(k \<mapsto> (v, n))" "evolves w2 w'"
      "\<forall>m. r0 = Inr m \<longrightarrow> m = 1"
    then show ?thesis using call(2)[OF refl] None by (intro written[of w1 w2]) (auto simp: cas_allowed_def split: sum.splits)
  qed
next
  case (Some p)
  show ?thesis
  proof (cases "n \<le> p")
    case True
    then show ?thesis using assms Some evolves_refl by (intro refused[of w]) (auto simp: sqlite_put_def cas_allowed_def)
  next
    case False
    obtain r0 where call: "sd_update db n v k p w = (r0, w')" "r = map_result_of r0"
      if "map_result_of = (\<lambda>x. case x of Inl e \<Rightarrow> Inl (sqlite_storage_error e) | Inr m \<Rightarrow> Inr (m = 1))" for map_result_of
      using assms Some False by (cases "sd_update db n v k p w") (auto simp: sqlite_put_def eff_defs split: sum.splits)
    from update_law[OF call(1)[OF refl]] show ?thesis
    proof (elim disjE exE conjE)
      fix w1 assume "evolves w w1" "evolves w1 w'" "\<forall>m. r0 = Inr m \<longrightarrow> m = 0 \<and> map_option snd (stored_rows w1 k) \<noteq> Some p"
      then show ?thesis using call(2)[OF refl] Some by (intro refused[of w1]) (auto simp: cas_allowed_def split: sum.splits)
    next
      fix w1 w2 assume "evolves w w1" "map_option snd (stored_rows w1 k) = Some p" "stored_rows w2 = (stored_rows w1)(k \<mapsto> (v, n))"
        "evolves w2 w'" "\<forall>m. r0 = Inr m \<longrightarrow> m = 1"
      then show ?thesis using call(2)[OF refl] Some False by (intro written[of w1 w2]) (auto simp: cas_allowed_def split: sum.splits)
    qed
  qed
qed

end

sublocale sqlite_store_engine \<subseteq> store: cas_store "sqlite_storage db" stored_rows evolves "row_writes stored_rows"
proof (standard, goal_cases)
  case (1 w)
  show ?case by (rule evolves_refl)
next
  case (2 w w1 w2)
  then show ?case by (rule evolves_trans)
next
  case (3 w w')
  then show ?case by (rule evolves_rows)
next
  case (4 w k x w')
  then show ?case by (simp add: row_writes_def)
next
  case (5 k w g w')
  then show ?case using sqlite_get_law by (simp add: sqlite_storage_def)
next
  case (6 k v expected n w r w')
  from 6 have "sqlite_put db k v expected n w = (r, w')" by (simp add: sqlite_storage_def)
  then show ?case
  proof (cases rule: sqlite_put_cases)
    case (refused w1)
    then show ?thesis using evolves_trans by blast
  next
    case (written w1 w2)
    then show ?thesis unfolding row_writes_def by blast
  qed
qed

section \<open>Opening the database\<close>

definition POLICY_REGISTER_KEY :: string where
  "POLICY_REGISTER_KEY = ''policy''"

text \<open>The state written for a new database: \<open>PolicyState { decider_policy: OnByDefault, ..Default::default() }\<close>.\<close>
definition initial_policy :: policy_state where
  "initial_policy = \<lparr>pol_decider_policy = Some (decider_policy_as_i32 OnByDefault), pol_voters = []\<rparr>"

definition initialize_policy_register :: "('b, 'w) storage_db \<Rightarrow> 'b policy_codec \<Rightarrow> 'w environment \<Rightarrow> ('w, policy_register_error, unit) eff" where
  "initialize_policy_register db codec env =
     bindE (bootstrap_policy_register_if_absent
              \<lparr>reg_storage = sqlite_storage db, reg_codec = codec, reg_key = POLICY_REGISTER_KEY\<rparr> initial_policy env
              (the default_policy_register_bootstrap_retry_config))
       (\<lambda>_. ret ())"

lemma default_bootstrap_config: "default_policy_register_bootstrap_retry_config \<noteq> None"
  by (simp add: default_policy_register_bootstrap_retry_config_def retry_config_try_new_def from_millis_def)

lemma initial_policy_valid [simp]: "validate_policy_state initial_policy = Inr ()"
  using decider_policy_roundtrip[of OnByDefault] by (simp add: validate_policy_state_def initial_policy_def)

text \<open>What has happened to a row by \<open>w'\<close>: it is there, or nobody here has written anything; a row that was there at the start was left to others.\<close>
definition row_settling :: "('w \<Rightarrow> string \<Rightarrow> 'x option) \<Rightarrow> ('w \<Rightarrow> 'w \<Rightarrow> bool) \<Rightarrow> string \<Rightarrow> 'w \<Rightarrow> 'w \<Rightarrow> bool" where
  "row_settling rows evolves k w w' \<longleftrightarrow>
     (evolves w w' \<or> rows w' k \<noteq> None) \<and> (rows w k \<noteq> None \<longrightarrow> evolves w w')"

context sqlite_store_engine
begin

text \<open>When only this process writes, a put is the put of the in-memory store.\<close>
lemma put_as_in_memory:
  assumes "evolves = (\<lambda>w w'. stored_rows w' = stored_rows w)" "sqlite_put db k v expected n w = (Inr b, w')" "ew_data m = stored_rows w"
  shows "\<exists>m'. in_memory_put k v expected n m = (Inr b, m') \<and> ew_data m' = stored_rows w'"
  using assms(2)
proof (cases rule: sqlite_put_cases)
  case (refused u)
  then have "\<not> b" "\<not> cas_allowed (ew_data m k) expected n" using assms(1,3) by auto
  then have "in_memory_put k v expected n m = (Inr b, m)"
    by (auto simp: in_memory_put_def cas_allowed_def Let_def split: option.splits)
  then show ?thesis using refused assms(1,3) by (intro exI[of _ m]) simp
next
  case (written u u')
  then have "b" "cas_allowed (ew_data m k) expected n" using assms(1,3) by auto
  then have "in_memory_put k v expected n m = (Inr b, m\<lparr>ew_data := (ew_data m)(k \<mapsto> (v, n))\<rparr>)"
    by (auto simp: in_memory_put_def cas_allowed_def Let_def split: option.splits)
  then show ?thesis using written assms(1,3) by (intro exI[of _ "m\<lparr>ew_data := (ew_data m)(k \<mapsto> (v, n))\<rparr>"]) simp
qed

lemma row_stays: "evolves w w' \<Longrightarrow> stored_rows w k \<noteq> None \<Longrightarrow> stored_rows w' k \<noteq> None"
  using evolves_rows by (fastforce simp: store_grows_def)

lemma row_settling_evolves: "row_settling stored_rows evolves k w w1 \<Longrightarrow> evolves w1 w2 \<Longrightarrow> row_settling stored_rows evolves k w w2"
  using evolves_trans row_stays unfolding row_settling_def by blast

lemma insert_settles:
  assumes "sqlite_put db k v None n w1 = (r, w')" "row_settling stored_rows evolves k w w1"
  shows "row_settling stored_rows evolves k w w'" "\<And>b. r = Inr b \<Longrightarrow> stored_rows w' k \<noteq> None"
    "r = Inr True \<Longrightarrow> \<exists>u u'. evolves w u \<and> stored_rows u k = None \<and> stored_rows u' = (stored_rows u)(k \<mapsto> (v, n)) \<and> evolves u' w'"
proof -
  have *: "row_settling stored_rows evolves k w w' \<and> (\<forall>b. r = Inr b \<longrightarrow> stored_rows w' k \<noteq> None) \<and>
    (r = Inr True \<longrightarrow> (\<exists>u u'. evolves w u \<and> stored_rows u k = None \<and> stored_rows u' = (stored_rows u)(k \<mapsto> (v, n)) \<and> evolves u' w'))"
    using assms(1)
  proof (cases rule: sqlite_put_cases)
    case (refused u)
    have "stored_rows w' k \<noteq> None" if "r = Inr b" for b
      using refused(3)[OF that] row_stays[OF refused(2)] by (auto simp: cas_allowed_def)
    moreover have "r \<noteq> Inr True" using refused(3) by blast
    ultimately show ?thesis using row_settling_evolves[OF assms(2)] refused(1,2) evolves_trans by blast
  next
    case (written u u')
    have absent: "stored_rows u k = None" using written(2) by (simp add: cas_allowed_def)
    then have before: "stored_rows w1 k = None" using row_stays[OF written(1), of k] by blast
    then have start: "evolves w u" using assms(2) written(1) evolves_trans unfolding row_settling_def by blast
    then have "stored_rows w k = None" using absent row_stays[of w u k] by blast
    moreover have "stored_rows w' k \<noteq> None" using row_stays[OF written(4)] written(3) by simp
    ultimately show ?thesis using start absent written(3,4) by (auto simp: row_settling_def)
  qed
  then show "row_settling stored_rows evolves k w w'" "\<And>b. r = Inr b \<Longrightarrow> stored_rows w' k \<noteq> None"
    "r = Inr True \<Longrightarrow> \<exists>u u'. evolves w u \<and> stored_rows u k = None \<and> stored_rows u' = (stored_rows u)(k \<mapsto> (v, n)) \<and> evolves u' w'"
    by blast+
qed

text \<open>One attempt of the initialization.\<close>
lemma wp_bootstrap_attempt:
  assumes "row_settling stored_rows evolves POLICY_REGISTER_KEY w u" "reg_storage reg = sqlite_storage db" "reg_key reg = POLICY_REGISTER_KEY"
  shows "wp (matchE (set_policy reg initial_policy None) (\<lambda>e. case e of ConcurrentUpdate _ \<Rightarrow> ret False | _ \<Rightarrow> raise e) (\<lambda>_. ret True))
    (\<lambda>_ w'. row_settling stored_rows evolves POLICY_REGISTER_KEY w w' \<and> stored_rows w' POLICY_REGISTER_KEY \<noteq> None)
    (\<lambda>_ w'. row_settling stored_rows evolves POLICY_REGISTER_KEY w w' \<and> True) u"
proof -
  obtain r u' where put: "sqlite_put db POLICY_REGISTER_KEY (encode_policy (reg_codec reg) initial_policy) None 0 u = (r, u')"
    by (cases "sqlite_put db POLICY_REGISTER_KEY (encode_policy (reg_codec reg) initial_policy) None 0 u")
  have "row_settling stored_rows evolves POLICY_REGISTER_KEY w u'" "\<And>b. r = Inr b \<Longrightarrow> stored_rows u' POLICY_REGISTER_KEY \<noteq> None"
    using insert_settles(1,2)[OF put assms(1)] by blast+
  then show ?thesis
    by (cases r) (auto simp: wp_def set_policy_def eff_defs assms(2,3) sqlite_storage_def put)
qed

lemma initialize_settles:
  assumes "\<And>d u. evolves u (env_sleep env d u)" "\<And>d u. evolves u (snd (env_backoff env d u))"
    and "initialize_policy_register db codec env w = (r, w')"
  shows "row_settling stored_rows evolves POLICY_REGISTER_KEY w w' \<and> (\<forall>x. r = Inr x \<longrightarrow> stored_rows w' POLICY_REGISTER_KEY \<noteq> None)"
proof -
  let ?reg = "\<lparr>reg_storage = sqlite_storage db, reg_codec = codec, reg_key = POLICY_REGISTER_KEY\<rparr>"
  have start: "row_settling stored_rows evolves POLICY_REGISTER_KEY w w"
    by (simp add: row_settling_def evolves_refl)
  have "wp (retry env (the default_policy_register_bootstrap_retry_config)
      (matchE (set_policy ?reg initial_policy None) (\<lambda>e. case e of ConcurrentUpdate _ \<Rightarrow> ret False | _ \<Rightarrow> raise e) (\<lambda>_. ret True)) bootstrap_decide ())
      (\<lambda>_ w'. row_settling stored_rows evolves POLICY_REGISTER_KEY w w' \<and> stored_rows w' POLICY_REGISTER_KEY \<noteq> None)
      (\<lambda>_ w'. row_settling stored_rows evolves POLICY_REGISTER_KEY w w' \<and> True) w"
    by (rule wp_retry[where P = "\<lambda>_ _. True" and I = "row_settling stored_rows evolves POLICY_REGISTER_KEY w", OF start])
      (rule wp_bootstrap_attempt, assumption, simp, simp, (rule row_settling_evolves, assumption, rule assms(1,2))+)
  then have "wp (initialize_policy_register db codec env)
      (\<lambda>_ w'. row_settling stored_rows evolves POLICY_REGISTER_KEY w w' \<and> stored_rows w' POLICY_REGISTER_KEY \<noteq> None)
      (\<lambda>_ w'. row_settling stored_rows evolves POLICY_REGISTER_KEY w w' \<and> True) w"
    unfolding initialize_policy_register_def bootstrap_policy_register_if_absent_def by (simp add: wp_rules)
  then show ?thesis using assms(3) by (auto simp: wp_def split: sum.splits)
qed

end

section \<open>Properties\<close>

text \<open>
  Opening the database never replaces a policy that is there: a start-up that succeeds leaves the register present, and
  whatever the outcome a register present at the start is left to the other processes, the start-up writes nothing.
\<close>
theorem initialize_keeps_policy:
  assumes "sqlite_store_engine db rows evolves" "\<And>d u. evolves u (env_sleep env d u)" "\<And>d u. evolves u (snd (env_backoff env d u))"
    and "initialize_policy_register db codec env w = (r, w')"
  shows "row_settling rows evolves POLICY_REGISTER_KEY w w' \<and> (\<forall>x. r = Inr x \<longrightarrow> rows w' POLICY_REGISTER_KEY \<noteq> None)"
  by (rule sqlite_store_engine.initialize_settles[OF assms])

text \<open>
  With no other process the SQLite store is the in-memory one: \<open>put\<close> gives the same answer and leaves the same data, when the
  statement does not fail.
\<close>
theorem sqlite_put_refines_memory:
  assumes "sqlite_store_engine db rows (\<lambda>w w'. rows w' = rows w)" "sqlite_put db k v expected n w = (Inr b, w')" "ew_data m = rows w"
  shows "\<exists>m'. in_memory_put k v expected n m = (Inr b, m') \<and> ew_data m' = rows w'"
  by (rule sqlite_store_engine.put_as_in_memory[OF assms(1) refl assms(2,3)])

section \<open>A database file in one process\<close>

record 'b store_file =
  sf_rows :: "string \<Rightarrow> ('b \<times> int) option"
  sf_busy :: nat
  sf_elapsed :: nat

text \<open>The next \<open>sf_busy\<close> statements find the database busy.\<close>
definition unless_busy :: "('b store_file \<Rightarrow> 'a \<times> 'b store_file) \<Rightarrow> ('b store_file, sql_failure, 'a) eff" where
  "unless_busy f w =
     (if 0 < sf_busy w then (Inl DatabaseBusy, w\<lparr>sf_busy := sf_busy w - 1\<rparr>) else (case f w of (x, w') \<Rightarrow> (Inr x, w')))"

definition file_db :: "('b, 'b store_file) storage_db" where
  "file_db = \<lparr>
     sd_select = (\<lambda>k. unless_busy (\<lambda>w. (case sf_rows w k of None \<Rightarrow> [] | Some row \<Rightarrow> [row], w))),
     sd_insert = (\<lambda>k n v. unless_busy (\<lambda>w.
        if sf_rows w k = None then (1, w\<lparr>sf_rows := (sf_rows w)(k \<mapsto> (v, n))\<rparr>) else (0, w))),
     sd_update = (\<lambda>n v k p. unless_busy (\<lambda>w.
        if map_option snd (sf_rows w k) = Some p then (1, w\<lparr>sf_rows := (sf_rows w)(k \<mapsto> (v, n))\<rparr>) else (0, w)))\<rparr>"

definition rows_stay :: "'b store_file \<Rightarrow> 'b store_file \<Rightarrow> bool" where
  "rows_stay w w' \<longleftrightarrow> sf_rows w' = sf_rows w"

lemma rows_stay_busy [simp]: "rows_stay w (w\<lparr>sf_busy := n\<rparr>)" "rows_stay w w"
  by (simp_all add: rows_stay_def)

interpretation file_store: sqlite_store_engine file_db sf_rows rows_stay
proof (standard, goal_cases)
  case (4 k w g w')
  then show ?case
    by (intro exI[of _ w]) (auto simp: file_db_def unless_busy_def rows_stay_def split: if_splits)
next
  case (5 k n v w r w')
  show ?case
  proof (cases "sf_busy w = 0 \<and> sf_rows w k = None")
    case True
    then show ?thesis using 5
      by (intro disjI2 exI[of _ w] exI[of _ w']) (auto simp: file_db_def unless_busy_def rows_stay_def)
  next
    case False
    then show ?thesis using 5
      by (intro disjI1 exI[of _ w]) (auto simp: file_db_def unless_busy_def rows_stay_def split: if_splits)
  qed
next
  case (6 n v k p w r w')
  show ?case
  proof (cases "sf_busy w = 0 \<and> map_option snd (sf_rows w k) = Some p")
    case True
    then show ?thesis using 6
      by (intro disjI2 exI[of _ w] exI[of _ w']) (auto simp: file_db_def unless_busy_def rows_stay_def)
  next
    case False
    then show ?thesis using 6
      by (intro disjI1 exI[of _ w]) (auto simp: file_db_def unless_busy_def rows_stay_def split: if_splits)
  qed
qed (auto simp: rows_stay_def store_grows_def)

lemma sole_writer: "sqlite_store_engine file_db sf_rows (\<lambda>w w'. sf_rows w' = sf_rows w)"
  using file_store.sqlite_store_engine_axioms by (simp add: rows_stay_def[abs_def])

definition file_env :: "'b store_file environment" where
  "file_env = \<lparr>env_unsafe_wall_time = (\<lambda>w. (sf_elapsed w, w)), env_monotonic_time = (\<lambda>w. (sf_elapsed w, w)),
     env_sleep = (\<lambda>d w. w\<lparr>sf_elapsed := sf_elapsed w + d\<rparr>), env_backoff = (\<lambda>u w. (u, w))\<rparr>"

definition plain_codec :: "policy_state policy_codec" where
  "plain_codec = \<lparr>encode_policy = id, decode_policy = Some\<rparr>"

definition other_policy :: policy_state where
  "other_policy = \<lparr>pol_decider_policy = Some 2, pol_voters = []\<rparr>"

definition busy_file :: "policy_state store_file" where
  "busy_file = \<lparr>sf_rows = [POLICY_REGISTER_KEY \<mapsto> (other_policy, 5)], sf_busy = 2, sf_elapsed = 0\<rparr>"

text \<open>The database is busy twice, the start-up sleeps 10 and 20 milliseconds, and the policy of generation 5 stays.\<close>
theorem initialize_keeps_policy_witness:
  "\<exists>w'. initialize_policy_register file_db plain_codec file_env busy_file = (Inr (), w') \<and> sf_elapsed w' = 30000000 \<and>
     sf_rows w' POLICY_REGISTER_KEY = Some (other_policy, 5) \<and>
     row_settling sf_rows rows_stay POLICY_REGISTER_KEY busy_file w'"
proof -
  let ?run = "initialize_policy_register file_db plain_codec file_env busy_file"
  have "fst ?run = Inr ()" "sf_elapsed (snd ?run) = 30000000" "sf_rows (snd ?run) POLICY_REGISTER_KEY = Some (other_policy, 5)"
    by code_simp+
  moreover have "row_settling sf_rows rows_stay POLICY_REGISTER_KEY busy_file (snd ?run) \<and>
    (\<forall>x. fst ?run = Inr x \<longrightarrow> sf_rows (snd ?run) POLICY_REGISTER_KEY \<noteq> None)"
    by (rule initialize_keeps_policy[OF file_store.sqlite_store_engine_axioms, where env = file_env]) (auto simp: file_env_def rows_stay_def)
  ultimately show ?thesis by (intro exI[of _ "snd ?run"]) (auto simp: prod_eq_iff)
qed

definition one_row_file :: "nat store_file" where
  "one_row_file = \<lparr>sf_rows = [''k'' \<mapsto> (4, 2)], sf_busy = 0, sf_elapsed = 0\<rparr>"

definition one_row_world :: "nat eng_world" where
  "one_row_world = \<lparr>mw_buses = Map.empty, mw_elapsed = 0, mw_noise = [], ew_data = [''k'' \<mapsto> (4, 2)]\<rparr>"

theorem sqlite_put_refines_memory_witness:
  "sqlite_put file_db ''k'' 7 (Some 2) 3 one_row_file = (Inr True, one_row_file\<lparr>sf_rows := [''k'' \<mapsto> (7, 3)]\<rparr>) \<and>
   (\<exists>m' :: nat eng_world. in_memory_put ''k'' 7 (Some 2) 3 one_row_world = (Inr True, m') \<and> ew_data m' = [''k'' \<mapsto> (7, 3)])"
proof -
  have put: "sqlite_put file_db ''k'' 7 (Some 2) 3 one_row_file = (Inr True, one_row_file\<lparr>sf_rows := [''k'' \<mapsto> (7, 3)]\<rparr>)"
    by (simp add: sqlite_put_def file_db_def unless_busy_def one_row_file_def eff_defs)
  have "\<exists>m'. in_memory_put ''k'' 7 (Some 2) 3 one_row_world = (Inr True, m') \<and> ew_data m' = sf_rows (one_row_file\<lparr>sf_rows := [''k'' \<mapsto> (7, 3)]\<rparr>)"
    by (rule sqlite_put_refines_memory[OF sole_writer put]) (simp add: one_row_world_def one_row_file_def)
  then show ?thesis using put by simp
qed

end
