(* ===== verification/Local_Server.thy ===== *)
theory Local_Server
  imports Bus_Types
begin

text \<open>
  The local server: the private directory, the daemon lock and the Unix-domain socket
  (\<open>logact/commit_service/local_fs/src/lib.rs\<close>, \<open>grpc/local_server/src/socket.rs\<close>) and the server's start and end
  (\<open>server.rs\<close>, \<open>sqlite_backed_commit_service.rs\<close>).  The file system is explicit: nodes with kind and mode, the owner of each
  file lock, the listener of each socket.  Each call of the program is one atomic step of it; before a call takes effect other
  processes may change the file system, and the call may fail, as a schedule says.  The steps of the program itself are kept in a
  ghost list, so that what the program promises to the others can be stated.

  A path is the list of its components, \<open>''/''\<close> first for an absolute one, without a trailing separator.
\<close>

unbundle bit_operations_syntax

section \<open>The file system\<close>

type_synonym path = "string list"

datatype node_kind = Directory | RegularFile | Symlink | SocketNode

record fs_node =
  fn_kind :: node_kind
  fn_mode :: "32 word"

datatype io_error = NotFound | AlreadyExists | ConnectionRefused | OtherIo nat

record file_system =
  fs_nodes :: "path \<Rightarrow> fs_node option"
  fs_lock_owner :: "path \<Rightarrow> nat option"
  fs_listener :: "path \<Rightarrow> nat option"

text \<open>One entry per call: what other processes did since the last call, and the code of the unrelated error the call meets, if any.\<close>
type_synonym schedule = "((file_system \<Rightarrow> file_system) \<times> nat option) list"

record os =
  os_fs :: file_system
  os_schedule :: schedule
  os_steps :: "(file_system \<times> file_system) list"

fun next_turn :: "schedule \<Rightarrow> (file_system \<Rightarrow> file_system) \<times> nat option \<times> schedule" where
  "next_turn [] = (id, None, [])"
| "next_turn ((g, fault) # rest) = (g, fault, rest)"

definition syscall :: "(file_system \<Rightarrow> (io_error + 'a) \<times> file_system) \<Rightarrow> (os, io_error, 'a) eff" where
  "syscall f w =
     (case next_turn (os_schedule w) of (g, fault, rest) \<Rightarrow>
       let fs = g (os_fs w) in
       case fault of
         Some e \<Rightarrow> (Inl (OtherIo e), w\<lparr>os_fs := fs, os_schedule := rest\<rparr>)
       | None \<Rightarrow>
           (case f fs of (r, fs') \<Rightarrow>
              (r, w\<lparr>os_fs := fs', os_schedule := rest, os_steps := os_steps w @ [(fs, fs')]\<rparr>)))"

text \<open>Dropping a value: it cannot fail.\<close>
definition dropping :: "(file_system \<Rightarrow> file_system) \<Rightarrow> (os, 'e, unit) eff" where
  "dropping f w =
     (case next_turn (os_schedule w) of (g, _, rest) \<Rightarrow>
       let fs = g (os_fs w) in
       (Inr (), w\<lparr>os_fs := f fs, os_schedule := rest, os_steps := os_steps w @ [(fs, f fs)]\<rparr>))"

definition symlink_metadata :: "path \<Rightarrow> (os, io_error, fs_node) eff" where
  "symlink_metadata p = syscall (\<lambda>fs. (case fs_nodes fs p of None \<Rightarrow> Inl NotFound | Some n \<Rightarrow> Inr n, fs))"

definition set_node :: "path \<Rightarrow> fs_node option \<Rightarrow> file_system \<Rightarrow> file_system" where
  "set_node p n fs = fs\<lparr>fs_nodes := (fs_nodes fs)(p := n)\<rparr>"

definition make_directory :: "path \<Rightarrow> 32 word \<Rightarrow> (os, io_error, unit) eff" where
  "make_directory p mode = syscall (\<lambda>fs.
     if fs_nodes fs p \<noteq> None then (Inl AlreadyExists, fs)
     else (Inr (), set_node p (Some \<lparr>fn_kind = Directory, fn_mode = mode\<rparr>) fs))"

text \<open>Opening with \<open>create(true)\<close>: a new file gets the mode of the process's mask; directories and sockets cannot be opened.\<close>
definition open_or_create :: "path \<Rightarrow> (os, io_error, unit) eff" where
  "open_or_create p = syscall (\<lambda>fs.
     case fs_nodes fs p of
       None \<Rightarrow> (Inr (), set_node p (Some \<lparr>fn_kind = RegularFile, fn_mode = 0x1A4\<rparr>) fs)
     | Some n \<Rightarrow> (if fn_kind n = Directory \<or> fn_kind n = SocketNode then Inl (OtherIo 0) else Inr (), fs))"

text \<open>\<open>File::try_lock\<close>; \<open>False\<close> is \<open>WouldBlock\<close>.\<close>
definition try_lock :: "nat \<Rightarrow> path \<Rightarrow> (os, io_error, bool) eff" where
  "try_lock me p = syscall (\<lambda>fs.
     if fs_lock_owner fs p \<noteq> None then (Inr False, fs)
     else (Inr True, fs\<lparr>fs_lock_owner := (fs_lock_owner fs)(p := Some me)\<rparr>))"

definition release_lock :: "path \<Rightarrow> (os, 'e, unit) eff" where
  "release_lock p = dropping (\<lambda>fs. fs\<lparr>fs_lock_owner := (fs_lock_owner fs)(p := None)\<rparr>)"

definition connect_socket :: "path \<Rightarrow> (os, io_error, unit) eff" where
  "connect_socket p = syscall (\<lambda>fs.
     (if fs_nodes fs p = None then Inl NotFound else if fs_listener fs p = None then Inl ConnectionRefused else Inr (), fs))"

definition remove_node :: "path \<Rightarrow> file_system \<Rightarrow> file_system" where
  "remove_node p fs = (set_node p None fs)\<lparr>fs_listener := (fs_listener fs)(p := None)\<rparr>"

definition remove_file :: "path \<Rightarrow> (os, io_error, unit) eff" where
  "remove_file p = syscall (\<lambda>fs.
     case fs_nodes fs p of
       None \<Rightarrow> (Inl NotFound, fs)
     | Some n \<Rightarrow> if fn_kind n = Directory then (Inl (OtherIo 1), fs) else (Inr (), remove_node p fs))"

definition bind_listener :: "nat \<Rightarrow> path \<Rightarrow> (os, io_error, unit) eff" where
  "bind_listener me p = syscall (\<lambda>fs.
     if fs_nodes fs p \<noteq> None then (Inl (OtherIo 2), fs)
     else (Inr (), (set_node p (Some \<lparr>fn_kind = SocketNode, fn_mode = 0x1ED\<rparr>) fs)
                      \<lparr>fs_listener := (fs_listener fs)(p := Some me)\<rparr>))"

definition close_listener :: "path \<Rightarrow> (os, 'e, unit) eff" where
  "close_listener p = dropping (\<lambda>fs. fs\<lparr>fs_listener := (fs_listener fs)(p := None)\<rparr>)"

definition set_permissions :: "path \<Rightarrow> 32 word \<Rightarrow> (os, io_error, unit) eff" where
  "set_permissions p mode = syscall (\<lambda>fs.
     case fs_nodes fs p of None \<Rightarrow> (Inl NotFound, fs) | Some n \<Rightarrow> (Inr (), set_node p (Some (n\<lparr>fn_mode := mode\<rparr>)) fs))"

section \<open>The private directory, the lock and the socket\<close>

datatype server_error =
    NoParentDirectory
  | CreateDirectoryFailed io_error
  | InspectDirectoryFailed io_error
  | DirectoryIsSymlink
  | PathIsNotDirectory
  | DirectoryNotPrivate
  | OpenLockFailed io_error
  | AnotherServiceOwnsLock
  | AcquireLockFailed io_error
  | NotASocket
  | AlreadyListening
  | RemoveStaleFailed io_error
  | CannotTellStale io_error
  | InspectSocketFailed io_error
  | BindFailed io_error
  | RestrictSocketFailed io_error "io_error option"
  | OpenDatabaseFailed io_error
  | RestrictDatabaseFailed io_error
  | ServiceFailed
  | ServerFailed
  | CleanupFailed io_error
  | ServerAndCleanupFailed server_error io_error

text \<open>\<open>path.parent().filter(|parent| !parent.as_os_str().is_empty())\<close>\<close>
definition parent_directory :: "path \<Rightarrow> path option" where
  "parent_directory p = (if length p \<le> 1 then None else Some (butlast p))"

definition ensure_private_parent_directory :: "path \<Rightarrow> (os, server_error, unit) eff" where
  "ensure_private_parent_directory p =
     (case parent_directory p of
        None \<Rightarrow> raise NoParentDirectory
      | Some parent \<Rightarrow>
          bindE (matchE (symlink_metadata parent)
                   (\<lambda>e. if e = NotFound then
                          matchE (make_directory parent 0x1C0)
                            (\<lambda>e. if e = AlreadyExists then ret () else raise (CreateDirectoryFailed e))
                            ret
                        else raise (InspectDirectoryFailed e))
                   (\<lambda>_. ret ())) (\<lambda>_.
          bindE (map_errE InspectDirectoryFailed (symlink_metadata parent)) (\<lambda>metadata.
            if fn_kind metadata = Symlink then raise DirectoryIsSymlink
            else if fn_kind metadata \<noteq> Directory then raise PathIsNotDirectory
            else if fn_mode metadata AND 0x3F \<noteq> 0 then raise DirectoryNotPrivate
            else ret ())))"

definition socket_lock_path :: "path \<Rightarrow> path" where
  "socket_lock_path p = butlast p @ [last p @ ''.lock'']"

text \<open>An early return drops the lock that is held.\<close>
definition releasing_on_error :: "path \<Rightarrow> (os, 'e, 'a) eff \<Rightarrow> (os, 'e, 'a) eff" where
  "releasing_on_error lock m = matchE m (\<lambda>e. bindE (release_lock lock) (\<lambda>_. raise e)) ret"

definition prepare_private_unix_socket :: "nat \<Rightarrow> path \<Rightarrow> (os, server_error, unit) eff" where
  "prepare_private_unix_socket me p =
     bindE (ensure_private_parent_directory p) (\<lambda>_.
     bindE (map_errE OpenLockFailed (open_or_create (socket_lock_path p))) (\<lambda>_.
     bindE (map_errE AcquireLockFailed (try_lock me (socket_lock_path p))) (\<lambda>locked.
       if \<not> locked then raise AnotherServiceOwnsLock
       else releasing_on_error (socket_lock_path p)
         (matchE (symlink_metadata p)
            (\<lambda>e. if e = NotFound then ret () else raise (InspectSocketFailed e))
            (\<lambda>metadata.
               if fn_kind metadata \<noteq> SocketNode then raise NotASocket
               else matchE (connect_socket p)
                 (\<lambda>e. if e = ConnectionRefused then map_errE RemoveStaleFailed (remove_file p)
                      else raise (CannotTellStale e))
                 (\<lambda>_. raise AlreadyListening))))))"

definition bind_socket :: "nat \<Rightarrow> path \<Rightarrow> (os, server_error, unit) eff" where
  "bind_socket me p =
     bindE (prepare_private_unix_socket me p) (\<lambda>_.
       releasing_on_error (socket_lock_path p)
         (bindE (map_errE BindFailed (bind_listener me p)) (\<lambda>_.
            matchE (set_permissions p 0x180)
              (\<lambda>error.
                 bindE (close_listener p) (\<lambda>_.
                 matchE (remove_file p)
                   (\<lambda>cleanup_error. raise (RestrictSocketFailed error (Some cleanup_error)))
                   (\<lambda>_. raise (RestrictSocketFailed error None))))
              ret)))"

section \<open>The server\<close>

text \<open>
  \<open>initialized\<close> and \<open>built\<close> are the outcomes of the register initialization (\<open>Sqlite_Store\<close>) and of starting the service in
  process; on the file system both only open the database file.
\<close>
definition create_sqlite_backed_commit_service :: "path \<Rightarrow> server_error + unit \<Rightarrow> server_error + unit \<Rightarrow> (os, server_error, unit) eff" where
  "create_sqlite_backed_commit_service p initialized built =
     bindE (ensure_private_parent_directory p) (\<lambda>_.
     bindE (map_errE OpenDatabaseFailed (open_or_create p)) (\<lambda>_.
     bindE (liftR initialized) (\<lambda>_.
     bindE (map_errE OpenDatabaseFailed (open_or_create p)) (\<lambda>_.
     bindE (map_errE RestrictDatabaseFailed (set_permissions p 0x180)) (\<lambda>_.
       liftR built)))))"

text \<open>Serving changes the file system only by closing the listener when it returns; \<open>served\<close> is its outcome.\<close>
definition serve_with_shutdown :: "path \<Rightarrow> server_error + unit \<Rightarrow> (os, server_error, unit) eff" where
  "serve_with_shutdown p served = bindE (close_listener p) (\<lambda>_. liftR served)"

fun server_outcome :: "server_error + unit \<Rightarrow> io_error + unit \<Rightarrow> server_error + unit" where
  "server_outcome (Inr ()) (Inr ()) = Inr ()"
| "server_outcome (Inr ()) (Inl e) = Inl (CleanupFailed e)"
| "server_outcome (Inl e) (Inr ()) = Inl e"
| "server_outcome (Inl e) (Inl c) = Inl (ServerAndCleanupFailed e c)"

definition try_result :: "('w, 'e, 'a) eff \<Rightarrow> ('w, 'f, 'e + 'a) eff" where
  "try_result m w = (case m w of (r, w') \<Rightarrow> (Inr r, w'))"

definition run_server :: "nat \<Rightarrow> path \<Rightarrow> path \<Rightarrow> server_error + unit \<Rightarrow> server_error + unit \<Rightarrow> server_error + unit
    \<Rightarrow> (os, server_error, unit) eff" where
  "run_server me p sqlite_path initialized built served =
     bindE (create_sqlite_backed_commit_service sqlite_path initialized built) (\<lambda>_.
     bindE (bind_socket me p) (\<lambda>_.
     bindE (try_result (serve_with_shutdown p served)) (\<lambda>server_result.
     bindE (try_result (matchE (remove_file p) (\<lambda>e. if e = NotFound then ret () else raise e) ret)) (\<lambda>cleanup_result.
     bindE (release_lock (socket_lock_path p)) (\<lambda>_.
       liftR (server_outcome server_result cleanup_result))))))"

section \<open>What servers promise each other\<close>

text \<open>What other processes may do: they leave the lock, the socket and its listener of a server that holds the lock.\<close>
definition others_respect :: "nat \<Rightarrow> path \<Rightarrow> file_system \<Rightarrow> file_system \<Rightarrow> bool" where
  "others_respect me p fs fs' \<longleftrightarrow>
     (if fs_lock_owner fs (socket_lock_path p) = Some me
      then fs_lock_owner fs' (socket_lock_path p) = Some me \<and> fs_nodes fs' p = fs_nodes fs p \<and> fs_listener fs' p = fs_listener fs p
      else fs_lock_owner fs' (socket_lock_path p) \<noteq> Some me \<and> (fs_listener fs p \<noteq> Some me \<longrightarrow> fs_listener fs' p \<noteq> Some me))"

text \<open>
  What a server does: it takes the lock only when it is free and releases only its own; it touches the socket path only while it
  holds the lock, and there only to create a socket, to change its own or to remove one nobody else listens on.
\<close>
definition server_respects :: "nat \<Rightarrow> path \<Rightarrow> file_system \<Rightarrow> file_system \<Rightarrow> bool" where
  "server_respects me p fs fs' \<longleftrightarrow>
     (let l = socket_lock_path p in
       (fs_lock_owner fs' l = fs_lock_owner fs l \<or> fs_lock_owner fs l = None \<and> fs_lock_owner fs' l = Some me \<or>
          fs_lock_owner fs l = Some me \<and> fs_lock_owner fs' l = None) \<and>
       (fs_nodes fs' p = fs_nodes fs p \<or>
          fs_lock_owner fs l = Some me \<and>
          (case fs_nodes fs p of None \<Rightarrow> True | Some n \<Rightarrow> fn_kind n = SocketNode \<and> fs_listener fs p \<in> {None, Some me})) \<and>
       (fs_listener fs' p = fs_listener fs p \<or> fs_lock_owner fs l = Some me \<and> fs_listener fs' p \<in> {None, Some me}))"

text \<open>The two fit together: what one server does is allowed to it by every other.\<close>
lemma server_respects_others: "server_respects q p fs fs' \<Longrightarrow> me \<noteq> q \<Longrightarrow> others_respect me p fs fs'"
  by (auto simp: server_respects_def others_respect_def Let_def split: option.splits)

definition respectful :: "nat \<Rightarrow> path \<Rightarrow> os \<Rightarrow> bool" where
  "respectful me p w \<longleftrightarrow>
     (\<forall>(g, _) \<in> set (os_schedule w). \<forall>fs. others_respect me p fs (g fs)) \<and>
     (\<forall>(fs, fs') \<in> set (os_steps w). server_respects me p fs fs')"

definition stable :: "nat \<Rightarrow> path \<Rightarrow> (file_system \<Rightarrow> bool) \<Rightarrow> bool" where
  "stable me p P \<longleftrightarrow> (\<forall>fs fs'. P fs \<longrightarrow> others_respect me p fs fs' \<longrightarrow> P fs')"

text \<open>An assertion about the file system in a respectful run.\<close>
definition seen :: "nat \<Rightarrow> path \<Rightarrow> (file_system \<Rightarrow> bool) \<Rightarrow> os \<Rightarrow> bool" where
  "seen me p P w \<longleftrightarrow> respectful me p w \<and> P (os_fs w)"

lemma others_respect_refl: "others_respect me p fs fs"
  by (simp add: others_respect_def)

lemma next_turn_respects:
  assumes "respectful me p w" "next_turn (os_schedule w) = (g, fault, rest)"
  shows "others_respect me p fs (g fs)" "\<forall>(g, _) \<in> set rest. \<forall>fs. others_respect me p fs (g fs)"
  using assms others_respect_refl by (cases "os_schedule w"; force simp: respectful_def)+

lemma wp_syscall:
  assumes "seen me p P w" "stable me p P"
    and "\<And>fs. P fs \<Longrightarrow> server_respects me p fs (snd (f fs))"
    and "\<And>fs a fs'. P fs \<Longrightarrow> f fs = (Inr a, fs') \<Longrightarrow> Q a fs'"
    and "\<And>fs e fs'. P fs \<Longrightarrow> f fs = (Inl e, fs') \<Longrightarrow> R e fs'" "\<And>fs e. P fs \<Longrightarrow> R (OtherIo e) fs"
  shows "wp (syscall f) (\<lambda>a. seen me p (Q a)) (\<lambda>e. seen me p (R e)) w"
proof -
  obtain g fault rest where turn: "next_turn (os_schedule w) = (g, fault, rest)" by (cases "next_turn (os_schedule w)") auto
  have calm: "respectful me p w" and here: "P (os_fs w)" using assms(1) by (simp_all add: seen_def)
  from next_turn_respects[OF calm turn] assms(2) here
  have now: "P (g (os_fs w))" and rest: "\<forall>(g, _) \<in> set rest. \<forall>fs. others_respect me p fs (g fs)"
    by (auto simp: stable_def)
  obtain r fs' where run: "f (g (os_fs w)) = (r, fs')" by (cases "f (g (os_fs w))")
  have "server_respects me p (g (os_fs w)) fs'" using assms(3)[OF now] run by simp
  then show ?thesis
    using calm now rest assms(4)[OF now] assms(5)[OF now] assms(6)[OF now] run
    by (cases fault; cases r) (auto simp: wp_def syscall_def turn seen_def respectful_def)
qed

lemma wp_dropping:
  assumes "seen me p P w" "stable me p P"
    and "\<And>fs. P fs \<Longrightarrow> server_respects me p fs (f fs)" "\<And>fs. P fs \<Longrightarrow> Q (f fs)"
  shows "wp (dropping f) (\<lambda>_. seen me p Q) E w"
proof -
  obtain g fault rest where turn: "next_turn (os_schedule w) = (g, fault, rest)" by (cases "next_turn (os_schedule w)") auto
  have calm: "respectful me p w" and here: "P (os_fs w)" using assms(1) by (simp_all add: seen_def)
  from next_turn_respects[OF calm turn] assms(2) here
  have now: "P (g (os_fs w))" and rest: "\<forall>(g, _) \<in> set rest. \<forall>fs. others_respect me p fs (g fs)"
    by (auto simp: stable_def)
  then show ?thesis
    using calm assms(3)[OF now] assms(4)[OF now] by (auto simp: wp_def dropping_def turn seen_def respectful_def Let_def)
qed

text \<open>The two situations of a server: it does not hold the lock, or it holds it and knows the socket path.\<close>
definition outside :: "nat \<Rightarrow> path \<Rightarrow> file_system \<Rightarrow> bool" where
  "outside me p fs \<longleftrightarrow> fs_lock_owner fs (socket_lock_path p) \<noteq> Some me \<and> fs_listener fs p \<noteq> Some me"

definition owning :: "nat \<Rightarrow> path \<Rightarrow> fs_node option \<Rightarrow> nat option \<Rightarrow> file_system \<Rightarrow> bool" where
  "owning me p n listener fs \<longleftrightarrow>
     fs_lock_owner fs (socket_lock_path p) = Some me \<and> fs_nodes fs p = n \<and> fs_listener fs p = listener"

lemma stable_outside: "stable me p (outside me p)"
  by (auto simp: stable_def outside_def others_respect_def)

lemma stable_owning: "stable me p (owning me p n l)"
  by (auto simp: stable_def owning_def others_respect_def)

lemma stable_ex: "(\<And>x. stable me p (P x)) \<Longrightarrow> stable me p (\<lambda>fs. \<exists>x. P x fs)"
  unfolding stable_def by blast

lemma lock_path_differs: "p \<noteq> [] \<Longrightarrow> socket_lock_path p \<noteq> p"
proof
  assume "p \<noteq> []" "socket_lock_path p = p"
  then have "last p @ ''.lock'' = last p" by (metis last_snoc socket_lock_path_def)
  then show False by simp
qed

section \<open>Each call, inside and outside the lock\<close>

definition same_socket :: "path \<Rightarrow> file_system \<Rightarrow> file_system \<Rightarrow> bool" where
  "same_socket p fs fs' \<longleftrightarrow> fs_lock_owner fs' (socket_lock_path p) = fs_lock_owner fs (socket_lock_path p) \<and>
     fs_nodes fs' p = fs_nodes fs p \<and> fs_listener fs' p = fs_listener fs p"

lemma same_socket_refl [simp]: "same_socket p fs fs"
  by (simp add: same_socket_def)

lemma same_socket_set_node [simp]: "q \<noteq> p \<Longrightarrow> same_socket p fs (set_node q n fs)"
  by (simp add: same_socket_def set_node_def)

text \<open>What leaves a server outside the lock outside it.\<close>
definition stays_outside :: "nat \<Rightarrow> path \<Rightarrow> os \<Rightarrow> os \<Rightarrow> bool" where
  "stays_outside me p w w' \<longleftrightarrow> (seen me p (outside me p) w \<longrightarrow> seen me p (outside me p) w')"

lemma stays_outside_rt: "reflp (stays_outside me p)" "transp (stays_outside me p)"
  by (auto simp: stays_outside_def reflp_def transp_def)

lemma elsewhere_stays_outside:
  assumes "\<And>fs. same_socket p fs (snd (f fs))"
  shows "moves (stays_outside me p) (syscall f)"
proof -
  have keep: "outside me p fs'" "server_respects me p fs fs'" if "outside me p fs" "f fs = (r, fs')" for fs r fs'
    using that assms[of fs] by (auto simp: outside_def server_respects_def same_socket_def)
  have "wp (syscall f) (\<lambda>_. seen me p (outside me p)) (\<lambda>_. seen me p (outside me p)) w" if "seen me p (outside me p) w" for w
    by (rule wp_syscall[OF that stable_outside]) (use keep in \<open>auto simp: prod_eq_iff\<close>)
  then show ?thesis
    unfolding moves_def stays_outside_def wp_def by (metis (mono_tags, lifting) prod.case_eq_if sum.case_eq_if)
qed

lemma stays_outside_if [intro]:
  "(c \<Longrightarrow> moves (stays_outside me p) m) \<Longrightarrow> (\<not> c \<Longrightarrow> moves (stays_outside me p) n) \<Longrightarrow> moves (stays_outside me p) (if c then m else n)"
  by simp

lemma lookups_stay_outside:
  "moves (stays_outside me p) (symlink_metadata q)"
  "q \<noteq> p \<Longrightarrow> moves (stays_outside me p) (make_directory q m)"
  "q \<noteq> p \<Longrightarrow> moves (stays_outside me p) (open_or_create q)"
  "q \<noteq> p \<Longrightarrow> moves (stays_outside me p) (set_permissions q m)"
  unfolding symlink_metadata_def make_directory_def open_or_create_def set_permissions_def
  by (rule elsewhere_stays_outside, simp split: option.split)+

lemma ensure_stays_outside:
  assumes "parent_directory q \<noteq> Some p"
  shows "moves (stays_outside me p) (ensure_private_parent_directory q)"
proof (cases "parent_directory q")
  case None
  then show ?thesis by (simp add: ensure_private_parent_directory_def moves_raise stays_outside_rt)
next
  case (Some d)
  show ?thesis
    unfolding ensure_private_parent_directory_def Some option.case
    by (intro moves_bindE moves_matchE moves_map_errE moves_ret moves_raise stays_outside_if stays_outside_rt lookups_stay_outside)
      (use assms Some in simp)
qed

lemma create_stays_outside:
  assumes "parent_directory q \<noteq> Some p" "q \<noteq> p"
  shows "moves (stays_outside me p) (create_sqlite_backed_commit_service q i b)"
  unfolding create_sqlite_backed_commit_service_def
  by (intro moves_bindE moves_map_errE moves_liftR stays_outside_rt lookups_stay_outside ensure_stays_outside assms)

lemma wp_stays_outside:
  assumes "moves (stays_outside me p) m" "seen me p (outside me p) w"
  shows "wp m (\<lambda>_. seen me p (outside me p)) (\<lambda>_. seen me p (outside me p)) w"
  by (rule wp_moves[OF assms(1)]) (use assms(2) in \<open>auto simp: stays_outside_def\<close>)

text \<open>Holding the lock without a listener of its own.\<close>
definition holding :: "nat \<Rightarrow> path \<Rightarrow> file_system \<Rightarrow> bool" where
  "holding me p fs \<longleftrightarrow> fs_lock_owner fs (socket_lock_path p) = Some me \<and> fs_listener fs p \<noteq> Some me"

text \<open>Holding the lock with a known node at the socket path.\<close>
definition holding_node :: "nat \<Rightarrow> path \<Rightarrow> fs_node option \<Rightarrow> file_system \<Rightarrow> bool" where
  "holding_node me p n fs \<longleftrightarrow> holding me p fs \<and> fs_nodes fs p = n"

lemmas situation_defs = outside_def holding_def holding_node_def owning_def

lemma stable_holding: "stable me p (holding me p)" "stable me p (holding_node me p n)"
  by (auto simp: stable_def situation_defs others_respect_def)

lemma seen_mono: "seen me p P w \<Longrightarrow> (\<And>fs. P fs \<Longrightarrow> Q fs) \<Longrightarrow> seen me p Q w"
  by (simp add: seen_def)

lemma wp_try_lock:
  "seen me p (outside me p) w \<Longrightarrow>
   wp (try_lock me (socket_lock_path p)) (\<lambda>a. seen me p (if a then holding me p else outside me p)) (\<lambda>_. seen me p (outside me p)) w"
  unfolding try_lock_def
  by (rule wp_syscall[OF _ stable_outside])
    (auto simp: server_respects_def situation_defs Let_def split: if_splits)

lemma wp_release:
  "seen me p (holding_node me p n) w \<Longrightarrow>
   wp (release_lock (socket_lock_path p)) (\<lambda>_. seen me p (\<lambda>fs. outside me p fs \<and> fs_nodes fs p = n)) E w"
  "seen me p (holding me p) w \<Longrightarrow> wp (release_lock (socket_lock_path p)) (\<lambda>_. seen me p (outside me p)) E w"
  unfolding release_lock_def
  by (rule wp_dropping, assumption, rule stable_holding, auto simp: server_respects_def situation_defs Let_def)+

lemma wp_releasing_on_error:
  assumes "wp m Q (\<lambda>_. seen me p (holding me p)) w"
  shows "wp (releasing_on_error (socket_lock_path p) m) Q (\<lambda>_. seen me p (outside me p)) w"
  unfolding releasing_on_error_def wp_rules
  by (rule wp_mono[OF assms]) (auto intro: wp_release(2))

lemma wp_look_at_socket:
  "seen me p (holding me p) w \<Longrightarrow>
   wp (symlink_metadata p) (\<lambda>n. seen me p (holding_node me p (Some n)))
     (\<lambda>e. seen me p (if e = NotFound then holding_node me p None else holding me p)) w"
  unfolding symlink_metadata_def
  by (rule wp_syscall[OF _ stable_holding(1)])
    (auto simp: server_respects_def situation_defs Let_def split: option.splits)

lemma wp_connect:
  "seen me p (holding_node me p (Some n)) w \<Longrightarrow>
   wp (connect_socket p) (\<lambda>_. seen me p (holding me p))
     (\<lambda>e. seen me p (if e = ConnectionRefused then owning me p (Some n) None else holding me p)) w"
  unfolding connect_socket_def
  by (rule wp_syscall[OF _ stable_holding(2)])
    (auto simp: server_respects_def situation_defs Let_def split: if_splits)

lemma wp_remove:
  "seen me p (owning me p n None) w \<Longrightarrow> (case n of None \<Rightarrow> True | Some n \<Rightarrow> fn_kind n = SocketNode) \<Longrightarrow>
   wp (remove_file p) (\<lambda>_. seen me p (owning me p None None))
     (\<lambda>e. seen me p (if e = NotFound then owning me p None None else owning me p n None)) w"
  unfolding remove_file_def
  by (rule wp_syscall[OF _ stable_owning])
    (auto simp: server_respects_def owning_def Let_def remove_node_def set_node_def split: option.splits if_splits)

lemma wp_bind_listener:
  "seen me p (holding_node me p None) w \<Longrightarrow>
   wp (bind_listener me p) (\<lambda>_. seen me p (owning me p (Some \<lparr>fn_kind = SocketNode, fn_mode = 0x1ED\<rparr>) (Some me)))
     (\<lambda>_. seen me p (holding me p)) w"
  unfolding bind_listener_def
  by (rule wp_syscall[OF _ stable_holding(2)])
    (auto simp: server_respects_def situation_defs Let_def set_node_def split: if_splits)

lemma wp_restrict:
  "seen me p (owning me p (Some n) (Some me)) w \<Longrightarrow> fn_kind n = SocketNode \<Longrightarrow>
   wp (set_permissions p m) (\<lambda>_. seen me p (owning me p (Some (n\<lparr>fn_mode := m\<rparr>)) (Some me)))
     (\<lambda>_. seen me p (owning me p (Some n) (Some me))) w"
  unfolding set_permissions_def
  by (rule wp_syscall[OF _ stable_owning])
    (auto simp: server_respects_def owning_def Let_def set_node_def split: option.splits)

lemma wp_close:
  "seen me p (owning me p n l) w \<Longrightarrow> wp (close_listener p) (\<lambda>_. seen me p (owning me p n None)) E w"
  unfolding close_listener_def
  by (rule wp_dropping[OF _ stable_owning]) (auto simp: server_respects_def owning_def Let_def)

section \<open>Preparing, binding and serving\<close>

lemma lock_path_elsewhere:
  assumes "parent_directory p \<noteq> None"
  shows "socket_lock_path p \<noteq> p" "parent_directory p \<noteq> Some p"
proof -
  have "p \<noteq> []" using assms by (auto simp: parent_directory_def)
  then show "socket_lock_path p \<noteq> p" "parent_directory p \<noteq> Some p"
    using lock_path_differs by (auto simp: parent_directory_def dest: arg_cong[where f = length])
qed

text \<open>What the inspection of the socket path, with the lock held, leads to.\<close>
lemma wp_inspect:
  assumes "seen me p (holding me p) w"
  shows "wp (matchE (symlink_metadata p) (\<lambda>e. if e = NotFound then ret () else raise (InspectSocketFailed e))
       (\<lambda>metadata. if fn_kind metadata \<noteq> SocketNode then raise NotASocket
          else matchE (connect_socket p) (\<lambda>e. if e = ConnectionRefused then map_errE RemoveStaleFailed (remove_file p) else raise (CannotTellStale e))
            (\<lambda>_. raise AlreadyListening)))
     (\<lambda>_. seen me p (holding_node me p None)) (\<lambda>_. seen me p (holding me p)) w"
proof -
  have drop: "seen me p (holding me p) u" if "seen me p (holding_node me p n) u \<or> seen me p (owning me p n None) u" for n u
    using that by (auto simp: seen_def situation_defs)
  have remove: "wp (remove_file p) (\<lambda>_. seen me p (holding_node me p None)) (\<lambda>_. seen me p (holding me p)) u"
    if "seen me p (owning me p (Some n) None) u" "fn_kind n = SocketNode" for n u
    by (rule wp_mono[OF wp_remove[OF that(1)]]) (use that(2) in \<open>auto simp: seen_def situation_defs split: if_splits\<close>)
  have probe: "wp (connect_socket p) (\<lambda>_. seen me p (holding me p))
      (\<lambda>e u. if e = ConnectionRefused then wp (remove_file p) (\<lambda>_. seen me p (holding_node me p None)) (\<lambda>_. seen me p (holding me p)) u
             else seen me p (holding me p) u) u"
    if "seen me p (holding_node me p (Some n)) u" "fn_kind n = SocketNode" for n u
    by (rule wp_mono[OF wp_connect[OF that(1)]]) (use remove that(2) in auto)
  show ?thesis
    unfolding wp_rules
    by (rule wp_mono[OF wp_look_at_socket[OF assms]]) (use probe drop in \<open>auto simp: wp_rules split: if_splits\<close>)
qed

lemma wp_prepare:
  assumes "seen me p (outside me p) w"
  shows "wp (prepare_private_unix_socket me p) (\<lambda>_. seen me p (holding_node me p None)) (\<lambda>_. seen me p (outside me p)) w"
proof (cases "parent_directory p")
  case None
  then show ?thesis
    using assms by (simp add: prepare_private_unix_socket_def ensure_private_parent_directory_def wp_rules)
next
  case (Some d)
  then have elsewhere: "socket_lock_path p \<noteq> p" "parent_directory p \<noteq> Some p"
    using lock_path_elsewhere by auto
  note ensure = wp_stays_outside[OF ensure_stays_outside[OF elsewhere(2)]]
    and lockfile = wp_stays_outside[OF lookups_stay_outside(3)[OF elsewhere(1)]]
  show ?thesis
    unfolding prepare_private_unix_socket_def wp_bindE wp_map_errE
    by (rule wp_mono[OF ensure[OF assms]], rule wp_mono[OF lockfile], assumption, rule wp_mono[OF wp_try_lock], assumption)
      (auto simp: wp_raise intro!: wp_releasing_on_error wp_inspect)
qed

definition private_socket :: fs_node where
  "private_socket = \<lparr>fn_kind = SocketNode, fn_mode = 0x180\<rparr>"

lemma wp_bind_socket:
  assumes "seen me p (outside me p) w"
  shows "wp (bind_socket me p) (\<lambda>_. seen me p (owning me p (Some private_socket) (Some me))) (\<lambda>_. seen me p (outside me p)) w"
proof -
  have undo: "wp (bindE (close_listener p) (\<lambda>_. matchE (remove_file p)
        (\<lambda>cleanup_error. raise (RestrictSocketFailed error (Some cleanup_error))) (\<lambda>_. raise (RestrictSocketFailed error None))))
      (Q :: unit \<Rightarrow> os \<Rightarrow> bool) (\<lambda>_. seen me p (holding me p)) u"
    if "seen me p (owning me p (Some n) (Some me)) u" "fn_kind n = SocketNode" for n u error Q
    unfolding wp_rules
    by (rule wp_mono[OF wp_close[OF that(1)]], rule wp_mono[OF wp_remove], assumption)
      (use that(2) in \<open>auto simp: seen_def situation_defs split: if_splits\<close>)
  have restrict: "wp (matchE (set_permissions p 0x180) (\<lambda>error. bindE (close_listener p) (\<lambda>_. matchE (remove_file p)
        (\<lambda>cleanup_error. raise (RestrictSocketFailed error (Some cleanup_error))) (\<lambda>_. raise (RestrictSocketFailed error None)))) ret)
      (\<lambda>_. seen me p (owning me p (Some private_socket) (Some me))) (\<lambda>_. seen me p (holding me p)) u"
    if "seen me p (owning me p (Some \<lparr>fn_kind = SocketNode, fn_mode = 0x1ED\<rparr>) (Some me)) u" for u
    unfolding wp_matchE
    by (rule wp_mono[OF wp_restrict[OF that]]) (auto simp: wp_ret private_socket_def intro!: undo)
  show ?thesis
    unfolding bind_socket_def wp_bindE
    by (rule wp_mono[OF wp_prepare[OF assms]], rule wp_releasing_on_error, unfold wp_bindE wp_map_errE,
        rule wp_mono[OF wp_bind_listener], assumption) (auto intro: restrict)
qed

lemma wp_try_result: "wp (try_result m) Q E = wp m (\<lambda>a. Q (Inr a)) (\<lambda>e. Q (Inl e))"
  by (simp add: wp_def try_result_def fun_eq_iff split: prod.split sum.split)

lemma server_outcome_Ok: "server_outcome a b = Inr () \<longleftrightarrow> a = Inr () \<and> b = Inr ()"
  by (cases "(a, b)" rule: server_outcome.cases) auto

lemma wp_run_server:
  assumes "seen me p (outside me p) w" "q \<noteq> p" "parent_directory q \<noteq> Some p"
  shows "wp (run_server me p q initialized built served)
    (\<lambda>_. seen me p (\<lambda>fs. outside me p fs \<and> fs_nodes fs p = None)) (\<lambda>_. seen me p (outside me p)) w"
proof -
  let ?cleanup = "matchE (remove_file p) (\<lambda>e. if e = NotFound then ret () else raise e) ret"
  let ?exit = "\<lambda>sr cr. bindE (release_lock (socket_lock_path p)) (\<lambda>_. liftR (server_outcome sr cr))"
  have release: "wp (?exit sr cr) (\<lambda>_. seen me p (\<lambda>fs. outside me p fs \<and> fs_nodes fs p = None)) (\<lambda>_. seen me p (outside me p)) u"
    if "seen me p (if is_ok cr then holding_node me p None else holding me p) u" for sr cr u
  proof (cases cr)
    case (Inr c)
    then have "seen me p (holding_node me p None) u" using that by simp
    from wp_release(1)[OF this] show ?thesis
      unfolding wp_rules by (rule wp_mono) (auto simp: seen_def split: sum.split)
  next
    case (Inl e)
    then have "seen me p (holding me p) u" using that by simp
    from wp_release(2)[OF this] show ?thesis
      unfolding wp_rules by (rule wp_mono) (auto simp: Inl server_outcome_Ok split: sum.split)
  qed
  have cleanup: "wp (try_result ?cleanup) (\<lambda>cr. seen me p (if is_ok cr then holding_node me p None else holding me p)) (\<lambda>_ _. False) u"
    if "seen me p (owning me p (Some private_socket) None) u" for u
    unfolding wp_try_result wp_matchE
    by (rule wp_mono[OF wp_remove[OF that]])
      (auto simp: private_socket_def wp_rules seen_def situation_defs split: if_splits)
  have serve: "wp (try_result (serve_with_shutdown p served)) (\<lambda>_. seen me p (owning me p (Some private_socket) None)) (\<lambda>_ _. False) u"
    if "seen me p (owning me p (Some private_socket) (Some me)) u" for u
    unfolding wp_try_result serve_with_shutdown_def wp_rules
    by (rule wp_mono[OF wp_close[OF that]]) (auto split: sum.split)
  show ?thesis
    unfolding run_server_def wp_bindE
    by (rule wp_mono[OF wp_stays_outside[OF create_stays_outside[OF assms(3,2)] assms(1)]],
        rule wp_mono[OF wp_bind_socket], assumption, rule wp_mono[OF serve], assumption, rule wp_mono[OF cleanup], assumption)
      (use release in \<open>auto simp: wp_bindE\<close>)
qed

section \<open>Properties\<close>

text \<open>
  Binding the socket while other servers run: on success the server holds the lock, listens, and the socket is readable and
  writable by its owner only; after a failure it holds neither the lock nor a listener.  On the way it only did what servers promise
  each other: it never touched the socket without the lock, replaced anything but a socket, or removed one that another process listens on.
\<close>
theorem bind_socket_owns:
  assumes "respectful me p w" "outside me p (os_fs w)" "bind_socket me p w = (r, w')"
  shows "respectful me p w' \<and> (if is_ok r then owning me p (Some private_socket) (Some me) (os_fs w') else outside me p (os_fs w'))"
  using wp_bind_socket[of me p w] assms by (cases r) (auto simp: wp_def seen_def)

text \<open>
  C16. A whole run of the server, from the database to the shutdown, keeps that promise at every step, ends without the lock and
  without a listener, and when it reports success the socket is gone.
\<close>
theorem run_server_respects_others:
  assumes "respectful me p w" "outside me p (os_fs w)" "sqlite_path \<noteq> p" "parent_directory sqlite_path \<noteq> Some p"
    and "run_server me p sqlite_path initialized built served w = (r, w')"
  shows "respectful me p w' \<and> outside me p (os_fs w') \<and> (r = Inr () \<longrightarrow> fs_nodes (os_fs w') p = None)"
  using wp_run_server[of me p w sqlite_path initialized built served] assms by (cases r) (auto simp: wp_def seen_def)

text \<open>A directory only its owner can use, with the socket of a server that crashed; meanwhile another process writes a file.\<close>
definition crashed_socket :: path where
  "crashed_socket = [''/'', ''run'', ''s'']"

definition crashed_fs :: file_system where
  "crashed_fs = \<lparr>fs_nodes = [[''/'', ''run''] \<mapsto> \<lparr>fn_kind = Directory, fn_mode = 0x1C0\<rparr>, crashed_socket \<mapsto> private_socket],
     fs_lock_owner = Map.empty, fs_listener = Map.empty\<rparr>"

definition note_written :: "file_system \<Rightarrow> file_system" where
  "note_written = set_node [''/'', ''run'', ''note''] (Some \<lparr>fn_kind = RegularFile, fn_mode = 0x1A4\<rparr>)"

definition crashed_os :: os where
  "crashed_os = \<lparr>os_fs = crashed_fs, os_schedule = [(note_written, None), (id, None), (note_written, None)], os_steps = []\<rparr>"

lemma crashed_respectful: "respectful me crashed_socket crashed_os" "outside me crashed_socket (os_fs crashed_os)"
  by (auto simp: respectful_def crashed_os_def note_written_def set_node_def others_respect_def crashed_socket_def outside_def crashed_fs_def)

theorem bind_socket_owns_witness:
  "\<exists>w'. bind_socket 7 crashed_socket crashed_os = (Inr (), w') \<and> owning 7 crashed_socket (Some private_socket) (Some 7) (os_fs w') \<and>
     fst (bind_socket 8 crashed_socket w') = Inl AnotherServiceOwnsLock"
proof -
  let ?run = "bind_socket 7 crashed_socket crashed_os"
  have ok: "fst ?run = Inr ()" "fst (bind_socket 8 crashed_socket (snd ?run)) = Inl AnotherServiceOwnsLock" by code_simp+
  have "respectful 7 crashed_socket (snd ?run) \<and>
    (if is_ok (fst ?run) then owning 7 crashed_socket (Some private_socket) (Some 7) (os_fs (snd ?run)) else outside 7 crashed_socket (os_fs (snd ?run)))"
    by (rule bind_socket_owns[OF crashed_respectful]) simp
  then show ?thesis using ok by (intro exI[of _ "snd ?run"]) (auto simp: prod_eq_iff)
qed

theorem run_server_respects_others_witness:
  "\<exists>w'. run_server 7 crashed_socket [''/'', ''run'', ''db''] (Inr ()) (Inr ()) (Inr ()) crashed_os = (Inr (), w') \<and>
     length (os_steps w') = 17 \<and> respectful 7 crashed_socket w' \<and> fs_nodes (os_fs w') crashed_socket = None \<and>
     map_option (\<lambda>n. uint (fn_mode n)) (fs_nodes (os_fs w') [''/'', ''run'', ''db'']) = Some 384"
proof -
  let ?run = "run_server 7 crashed_socket [''/'', ''run'', ''db''] (Inr ()) (Inr ()) (Inr ()) crashed_os"
  have ok: "fst ?run = Inr ()" "length (os_steps (snd ?run)) = 17"
    "map_option (\<lambda>n. uint (fn_mode n)) (fs_nodes (os_fs (snd ?run)) [''/'', ''run'', ''db'']) = Some 384" by code_simp+
  have "respectful 7 crashed_socket (snd ?run) \<and> outside 7 crashed_socket (os_fs (snd ?run)) \<and>
    (fst ?run = Inr () \<longrightarrow> fs_nodes (os_fs (snd ?run)) crashed_socket = None)"
    by (rule run_server_respects_others[OF crashed_respectful]) (auto simp: crashed_socket_def parent_directory_def)
  then show ?thesis using ok by (intro exI[of _ "snd ?run"]) (auto simp: prod_eq_iff)
qed

end
