(* ===== verification/Simulator.thy ===== *)
theory Simulator
  imports Memory_Bus "HOL-Library.Multiset"
begin

text \<open>
  The deterministic executor (\<open>bus/simulator/src/lib.rs\<close>): tasks ready to be polled, tasks waiting for a point in time, blocked
  tasks and the queue of wake-ups, run against the logical clock of \<open>Memory_Bus\<close>.  A future is a value of any type; polling it is a
  parameter that returns what is left of it, if it is not finished, and what it did to the executor: spawning tasks, setting
  timers, waking tasks.  The random generator is a parameter with the two draws the executor makes.  Times are nanoseconds.
\<close>

section \<open>Tasks and the executor's state\<close>

record 'f task =
  tk_target :: "nat option"
  tk_sequence :: nat
  tk_future :: 'f

record 'f executor =
  ex_events :: "'f task list"
  ex_sleeps :: "'f task list"
  ex_blocked :: "(nat \<times> 'f task) list"
  ex_wakes :: "nat list"
  ex_next_sequence :: nat

definition empty_executor :: "'f executor" where
  "empty_executor = \<lparr>ex_events = [], ex_sleeps = [], ex_blocked = [], ex_wakes = [], ex_next_sequence = 0\<rparr>"

text \<open>\<open>Task::cmp\<close>: by target time, no time first, then by sequence.\<close>
definition task_before :: "'f task \<Rightarrow> 'f task \<Rightarrow> bool" where
  "task_before a b =
     (case (tk_target a, tk_target b) of
        (None, None) \<Rightarrow> tk_sequence a \<le> tk_sequence b
      | (None, Some _) \<Rightarrow> True
      | (Some _, None) \<Rightarrow> False
      | (Some s, Some t) \<Rightarrow> s < t \<or> s = t \<and> tk_sequence a \<le> tk_sequence b)"

text \<open>The heap of \<open>Reverse\<close> tasks, as the list of its elements in the order they are popped.\<close>
fun heap_push :: "'f task \<Rightarrow> 'f task list \<Rightarrow> 'f task list" where
  "heap_push t [] = [t]"
| "heap_push t (u # us) = (if task_before t u then t # u # us else u # heap_push t us)"

definition executor_spawn :: "'f \<Rightarrow> 'f executor \<Rightarrow> 'f executor" where
  "executor_spawn f ex =
     ex\<lparr>ex_events := ex_events ex @ [\<lparr>tk_target = None, tk_sequence = ex_next_sequence ex, tk_future = f\<rparr>],
        ex_next_sequence := ex_next_sequence ex + 1\<rparr>"

definition executor_spawn_after :: "'f \<Rightarrow> nat \<Rightarrow> nat \<Rightarrow> 'f executor \<Rightarrow> 'f executor" where
  "executor_spawn_after f duration elapsed ex =
     ex\<lparr>ex_sleeps := heap_push \<lparr>tk_target = Some (elapsed + duration), tk_sequence = ex_next_sequence ex, tk_future = f\<rparr> (ex_sleeps ex),
        ex_next_sequence := ex_next_sequence ex + 1\<rparr>"

definition simulator_wake :: "nat \<Rightarrow> 'f executor \<Rightarrow> 'f executor" where
  "simulator_wake sequence ex = ex\<lparr>ex_wakes := ex_wakes ex @ [sequence]\<rparr>"

section \<open>Futures\<close>

datatype 'f action = SpawnTask 'f | SpawnAfter 'f nat | WakeTask nat

text \<open>
  Polling a future with the waker of a task: what is left of it if it is pending, what it did to the executor, and the world
  after it.
\<close>
type_synonym ('f, 'w) poll = "'f \<Rightarrow> nat \<Rightarrow> 'w \<Rightarrow> ('f option \<times> 'f action list) \<times> 'w"

fun apply_action :: "nat \<Rightarrow> 'f action \<Rightarrow> 'f executor \<Rightarrow> 'f executor" where
  "apply_action elapsed (SpawnTask f) ex = executor_spawn f ex"
| "apply_action elapsed (SpawnAfter f d) ex = executor_spawn_after f d elapsed ex"
| "apply_action elapsed (WakeTask sequence) ex = simulator_wake sequence ex"

definition woken :: "'f action list \<Rightarrow> nat list" where
  "woken actions = concat (map (\<lambda>a. case a of WakeTask sequence \<Rightarrow> [sequence] | _ \<Rightarrow> []) actions)"

section \<open>The run loop\<close>

text \<open>A draw of the jitter, in microseconds, and \<open>random_range(0..n)\<close>.\<close>
record 'r sim_rng =
  rng_jitter :: "'r \<Rightarrow> nat \<times> 'r"
  rng_index :: "nat \<Rightarrow> 'r \<Rightarrow> nat \<times> 'r"

text \<open>
  One poll: whether a timer fired, the task, the time, the tasks it woke, and whether it finished.  The list of polls is a ghost.
\<close>
record poll_record =
  pr_timer :: "nat option"
  pr_sequence :: nat
  pr_time :: nat
  pr_wakes :: "nat list"
  pr_finished :: bool

record ('f, 'w, 'r) simulation =
  sm_executor :: "'f executor"
  sm_world :: 'w
  sm_rng :: 'r
  sm_polls :: "poll_record list"

record run_stats =
  rs_polls :: nat
  rs_total_events :: nat
  rs_final_blocked_tasks :: nat

definition wake_task :: "nat \<Rightarrow> 'f executor \<Rightarrow> 'f executor" where
  "wake_task sequence ex =
     (case map_of (ex_blocked ex) sequence of
        None \<Rightarrow> ex
      | Some task \<Rightarrow> ex\<lparr>ex_blocked := AList.delete sequence (ex_blocked ex), ex_events := ex_events ex @ [task]\<rparr>)"

definition process_wakes :: "'f executor \<Rightarrow> 'f executor" where
  "process_wakes ex = foldl (\<lambda>ex sequence. wake_task sequence ex) (ex\<lparr>ex_wakes := []\<rparr>) (ex_wakes ex)"

definition next_event_time :: "'r sim_rng \<Rightarrow> nat \<Rightarrow> 'f executor \<Rightarrow> 'r \<Rightarrow> nat option \<times> 'r" where
  "next_event_time rng elapsed ex r =
     (if ex_events ex = [] then (None, r)
      else case rng_jitter rng r of (jitter_us, r') \<Rightarrow> (Some (elapsed + jitter_us * 1000), r'))"

definition next_sleep_time :: "'f executor \<Rightarrow> nat option" where
  "next_sleep_time ex = (case ex_sleeps ex of [] \<Rightarrow> None | task # _ \<Rightarrow> tk_target task)"

text \<open>\<open>Vec::swap_remove\<close>\<close>
definition swap_remove :: "nat \<Rightarrow> 'a list \<Rightarrow> 'a \<times> 'a list" where
  "swap_remove i xs = (xs ! i, butlast (xs[i := last xs]))"

definition pop_sleep :: "'f executor \<Rightarrow> 'f task \<times> 'f executor" where
  "pop_sleep ex = (hd (ex_sleeps ex), ex\<lparr>ex_sleeps := tl (ex_sleeps ex)\<rparr>)"

definition pick_event :: "'r sim_rng \<Rightarrow> 'f executor \<Rightarrow> 'r \<Rightarrow> 'f task \<times> 'f executor \<times> 'r" where
  "pick_event rng ex r =
     (case rng_index rng (length (ex_events ex)) r of (i, r') \<Rightarrow>
        case swap_remove i (ex_events ex) of (task, rest) \<Rightarrow> (task, ex\<lparr>ex_events := rest\<rparr>, r'))"

text \<open>The task to run next, whether it is a timer, and its time; \<open>None\<close> leaves the loop.\<close>
definition select_task :: "'r sim_rng \<Rightarrow> nat \<Rightarrow> 'f executor \<Rightarrow> 'r \<Rightarrow> ('f task \<times> bool \<times> nat \<times> 'f executor \<times> 'r) option" where
  "select_task rng elapsed ex r =
     (case next_event_time rng elapsed ex r of (event_time, r1) \<Rightarrow>
        case (event_time, next_sleep_time ex) of
          (None, None) \<Rightarrow> None
        | (Some e, Some s) \<Rightarrow>
            if s < e then (case pop_sleep ex of (task, ex') \<Rightarrow> Some (task, True, s, ex', r1))
            else (case pick_event rng ex r1 of (task, ex', r2) \<Rightarrow> Some (task, False, e, ex', r2))
        | (Some e, None) \<Rightarrow> (case pick_event rng ex r1 of (task, ex', r2) \<Rightarrow> Some (task, False, e, ex', r2))
        | (None, Some s) \<Rightarrow> (case pop_sleep ex of (task, ex') \<Rightarrow> Some (task, True, s, ex', r1)))"

definition poll_selected :: "('f, 'z mem_world_scheme) poll \<Rightarrow> 'f task \<Rightarrow> bool \<Rightarrow> nat \<Rightarrow> ('f, 'z mem_world_scheme, 'r) simulation
    \<Rightarrow> ('f, 'z mem_world_scheme, 'r) simulation" where
  "poll_selected poll task timer target s =
     (let w = advance_to target (sm_world s) in
      case poll (tk_future task) (tk_sequence task) w of ((left, actions), w') \<Rightarrow>
        let ex = foldl (\<lambda>ex a. apply_action (mw_elapsed w) a ex) (sm_executor s) actions in
        s\<lparr>sm_world := w',
          sm_executor :=
            (case left of
               None \<Rightarrow> ex
             | Some f \<Rightarrow> ex\<lparr>ex_blocked := AList.update (tk_sequence task) (task\<lparr>tk_future := f\<rparr>) (ex_blocked ex)\<rparr>),
          sm_polls := sm_polls s @ [\<lparr>pr_timer = (if timer then tk_target task else None), pr_sequence = tk_sequence task,
                                      pr_time = mw_elapsed w, pr_wakes = woken actions, pr_finished = (left = None)\<rparr>]\<rparr>)"

text \<open>One iteration; the flag says whether a task was polled.\<close>
definition executor_turn :: "('f, 'z mem_world_scheme) poll \<Rightarrow> 'r sim_rng \<Rightarrow> ('f, 'z mem_world_scheme, 'r) simulation
    \<Rightarrow> bool \<times> ('f, 'z mem_world_scheme, 'r) simulation" where
  "executor_turn poll rng s =
     (let ex = process_wakes (sm_executor s) in
      case select_task rng (mw_elapsed (sm_world s)) ex (sm_rng s) of
        None \<Rightarrow> (False, s\<lparr>sm_executor := ex\<rparr>)
      | Some (task, timer, target, ex', r) \<Rightarrow>
          (True, poll_selected poll task timer target (s\<lparr>sm_executor := ex', sm_rng := r\<rparr>)))"

definition MAX_ITERATIONS :: nat where
  "MAX_ITERATIONS = 100000"

text \<open>\<open>None\<close> is the panic of a run that takes too long.  The first argument is the number of iterations still allowed.\<close>
fun run_loop :: "('f, 'z mem_world_scheme) poll \<Rightarrow> 'r sim_rng \<Rightarrow> nat \<Rightarrow> nat \<Rightarrow> ('f, 'z mem_world_scheme, 'r) simulation
    \<Rightarrow> run_stats option \<times> ('f, 'z mem_world_scheme, 'r) simulation" where
  "run_loop poll rng 0 iteration_count s = (None, s)"
| "run_loop poll rng (Suc left) iteration_count s =
     (case executor_turn poll rng s of
        (False, s') \<Rightarrow>
          (Some \<lparr>rs_polls = iteration_count, rs_total_events = ex_next_sequence (sm_executor s'),
                 rs_final_blocked_tasks = length (ex_blocked (sm_executor s'))\<rparr>, s')
      | (True, s') \<Rightarrow> run_loop poll rng left (iteration_count + 1) s')"

definition executor_run :: "('f, 'z mem_world_scheme) poll \<Rightarrow> 'r sim_rng \<Rightarrow> ('f, 'z mem_world_scheme, 'r) simulation
    \<Rightarrow> run_stats option \<times> ('f, 'z mem_world_scheme, 'r) simulation" where
  "executor_run poll rng s = run_loop poll rng MAX_ITERATIONS 0 s"

text \<open>A simulator on which tasks are spawned and which is then run.\<close>
definition simulator_start :: "'f action list \<Rightarrow> 'z mem_world_scheme \<Rightarrow> 'r \<Rightarrow> ('f, 'z mem_world_scheme, 'r) simulation" where
  "simulator_start actions w r =
     \<lparr>sm_executor = foldl (\<lambda>ex a. apply_action (mw_elapsed w) a ex) empty_executor actions, sm_world = w, sm_rng = r, sm_polls = []\<rparr>"

section \<open>The barrier\<close>

text \<open>\<open>SimulatorBarrier\<close>: a waiter is named by its task; the wake-ups go out in the order of arrival.\<close>
record barrier =
  br_arrived :: nat
  br_senders :: "nat list"

datatype barrier_outcome = Passes "nat list" | Waits

definition barrier_wait :: "nat \<Rightarrow> nat \<Rightarrow> barrier \<Rightarrow> barrier_outcome \<times> barrier" where
  "barrier_wait n me st =
     (let arrived = br_arrived st + 1 in
      if arrived = n then (Passes (br_senders st), \<lparr>br_arrived = 0, br_senders = []\<rparr>)
      else (Waits, \<lparr>br_arrived = arrived, br_senders = br_senders st @ [me]\<rparr>))"

section \<open>Where every task is\<close>

definition seqs :: "'f task list \<Rightarrow> nat list" where
  "seqs ts = map tk_sequence ts"

lemma seqs_simps [simp]: "seqs [] = []" "seqs (t # ts) = tk_sequence t # seqs ts" "seqs (ts @ us) = seqs ts @ seqs us"
  "set (seqs ts) = tk_sequence ` set ts"
  by (simp_all add: seqs_def)

text \<open>The tasks that can still be polled without being woken.\<close>
definition ready :: "'f executor \<Rightarrow> nat list" where
  "ready ex = seqs (ex_events ex) @ seqs (ex_sleeps ex)"

definition blocked :: "'f executor \<Rightarrow> nat list" where
  "blocked ex = seqs (map snd (ex_blocked ex))"

text \<open>Every sequence number given out belongs to exactly one task: ready, blocked, or finished.\<close>
definition conserved :: "'f executor \<Rightarrow> nat list \<Rightarrow> bool" where
  "conserved ex gone \<longleftrightarrow> mset (ready ex) + mset (blocked ex) + mset gone = mset [0..<ex_next_sequence ex]"

definition blocked_ok :: "'f executor \<Rightarrow> bool" where
  "blocked_ok ex \<longleftrightarrow> (\<forall>(k, t) \<in> set (ex_blocked ex). k = tk_sequence t)"

text \<open>Timers are in the order they fire, none of them in the past.\<close>
definition sleeps_ok :: "nat \<Rightarrow> 'f executor \<Rightarrow> bool" where
  "sleeps_ok elapsed ex \<longleftrightarrow> sorted_wrt task_before (ex_sleeps ex) \<and> (\<forall>t \<in> set (ex_sleeps ex). \<exists>x. tk_target t = Some x \<and> elapsed \<le> x)"

lemma task_before_trans: "task_before a b \<Longrightarrow> task_before b c \<Longrightarrow> task_before a c"
  by (auto simp: task_before_def split: option.splits)

lemma task_before_total: "\<not> task_before a b \<Longrightarrow> task_before b a"
  by (auto simp: task_before_def split: option.splits)

lemma heap_push_mset [simp]: "mset (heap_push t ts) = add_mset t (mset ts)"
  by (induction ts) auto

lemma heap_push_set [simp]: "set (heap_push t ts) = insert t (set ts)"
  by (induction ts) auto

lemma heap_push_sorted: "sorted_wrt task_before ts \<Longrightarrow> sorted_wrt task_before (heap_push t ts)"
  by (induction ts) (auto dest: task_before_trans task_before_total)

lemma mset_seqs: "mset (seqs ts) = image_mset tk_sequence (mset ts)"
  by (simp add: seqs_def)

lemma conserved_distinct:
  assumes "conserved ex gone"
  shows "distinct (ready ex)" "distinct (blocked ex)" "distinct gone"
    "set (ready ex) \<inter> set (blocked ex) = {}" "set (ready ex) \<inter> set gone = {}" "set (blocked ex) \<inter> set gone = {}"
    "set (ready ex) \<union> set (blocked ex) \<union> set gone = {..<ex_next_sequence ex}"
proof -
  have m: "mset (ready ex @ blocked ex @ gone) = mset [0..<ex_next_sequence ex]"
    using assms by (simp add: conserved_def add.assoc)
  then have d: "distinct (ready ex @ blocked ex @ gone)" by (metis distinct_upt mset_eq_imp_distinct_iff)
  from m have "set (ready ex @ blocked ex @ gone) = set [0..<ex_next_sequence ex]" by (rule mset_eq_setD)
  then show "set (ready ex) \<union> set (blocked ex) \<union> set gone = {..<ex_next_sequence ex}" by (simp add: Un_assoc atLeast0LessThan)
  from d show "distinct (ready ex)" "distinct (blocked ex)" "distinct gone"
    "set (ready ex) \<inter> set (blocked ex) = {}" "set (ready ex) \<inter> set gone = {}" "set (blocked ex) \<inter> set gone = {}" by auto
qed

lemma alist_update_new: "k \<notin> fst ` set xs \<Longrightarrow> AList.update k v xs = xs @ [(k, v)]"
  by (induction xs) auto

lemma alist_delete_mset:
  "distinct (map fst xs) \<Longrightarrow> map_of xs k = Some v \<Longrightarrow> mset xs = add_mset (k, v) (mset (AList.delete k xs))"
proof (induction xs)
  case (Cons x xs)
  show ?case
  proof (cases "fst x = k")
    case True
    then have "AList.delete k (x # xs) = xs" using Cons.prems(1) by (cases x) (auto simp: AList.delete_eq filter_id_conv rev_image_eqI)
    then show ?thesis using Cons.prems(2) True by (cases x) auto
  next
    case False
    then show ?thesis using Cons by (cases x) auto
  qed
qed simp

lemma blocked_keys: "blocked_ok ex \<Longrightarrow> map fst (ex_blocked ex) = blocked ex"
  unfolding blocked_ok_def blocked_def seqs_def by (induction "ex_blocked ex") (auto simp: blocked_ok_def blocked_def seqs_def)

lemma ready_wakes [simp]: "ready (ex\<lparr>ex_wakes := ks\<rparr>) = ready ex" "blocked (ex\<lparr>ex_wakes := ks\<rparr>) = blocked ex"
  by (simp_all add: ready_def blocked_def)

section \<open>Wake-ups\<close>

text \<open>What the wake-ups leave: nothing is lost, and none of the woken tasks stays blocked.\<close>
definition wakes_into :: "nat set \<Rightarrow> 'f executor \<Rightarrow> 'f executor \<Rightarrow> bool" where
  "wakes_into K ex ex' \<longleftrightarrow>
     ex_sleeps ex' = ex_sleeps ex \<and> ex_next_sequence ex' = ex_next_sequence ex \<and> ex_wakes ex' = ex_wakes ex \<and>
     mset (ready ex') + mset (blocked ex') = mset (ready ex) + mset (blocked ex) \<and> set (ready ex) \<subseteq> set (ready ex') \<and>
     (\<forall>k \<in> K. k \<notin> set (blocked ex'))"

lemma wake_task_into:
  assumes "blocked_ok ex" "distinct (blocked ex)"
  shows "wakes_into {k} ex (wake_task k ex)" "blocked_ok (wake_task k ex)" "distinct (blocked (wake_task k ex))"
    "set (blocked (wake_task k ex)) \<subseteq> set (blocked ex)"
proof -
  have keys: "map fst (ex_blocked ex) = blocked ex" using assms(1) by (rule blocked_keys)
  have *: "wakes_into {k} ex (wake_task k ex) \<and> blocked_ok (wake_task k ex) \<and> distinct (blocked (wake_task k ex)) \<and>
    set (blocked (wake_task k ex)) \<subseteq> set (blocked ex)"
  proof (cases "map_of (ex_blocked ex) k")
    case None
    then have "k \<notin> set (blocked ex)" using keys by (metis list.set_map map_of_eq_None_iff)
    then show ?thesis using None assms by (simp add: wake_task_def wakes_into_def)
  next
    case (Some t)
    let ?b = "AList.delete k (ex_blocked ex)"
    have t: "tk_sequence t = k" using Some assms(1) by (auto simp: blocked_ok_def dest: map_of_SomeD)
    have "mset (ex_blocked ex) = add_mset (k, t) (mset ?b)"
      using alist_delete_mset[OF _ Some] assms(2) keys by simp
    then have m: "image_mset (tk_sequence \<circ> snd) (mset (ex_blocked ex)) = add_mset k (image_mset (tk_sequence \<circ> snd) (mset ?b))"
      using t by simp
    have ok: "blocked_ok (ex\<lparr>ex_blocked := ?b\<rparr>)" using assms(1) by (auto simp: blocked_ok_def AList.delete_eq)
    have "blocked (wake_task k ex) = map fst ?b"
      using blocked_keys[OF ok] by (simp add: blocked_def wake_task_def Some)
    then have out: "k \<notin> set (blocked (wake_task k ex))"
      by (simp add: AList.delete_eq) (auto simp: image_iff)
    have b': "mset (blocked ex) = add_mset k (mset (blocked (wake_task k ex)))"
      using m by (simp add: blocked_def seqs_def wake_task_def Some image_mset.compositionality)
    then have "distinct (blocked (wake_task k ex))"
      using assms(2) out by (metis distinct.simps(2) mset.simps(2) mset_eq_imp_distinct_iff)
    moreover have "set (blocked (wake_task k ex)) \<subseteq> set (blocked ex)"
      using b' by (metis set_mset_mset set_mset_add_mset_insert subset_insertI)
    ultimately show ?thesis
      using ok b' out t by (auto simp: wakes_into_def wake_task_def Some ready_def blocked_ok_def)
  qed
  then show "wakes_into {k} ex (wake_task k ex)" "blocked_ok (wake_task k ex)" "distinct (blocked (wake_task k ex))"
    "set (blocked (wake_task k ex)) \<subseteq> set (blocked ex)" by blast+
qed

lemma wake_all_into:
  fixes ks :: "nat list"
  assumes "blocked_ok ex" "distinct (blocked ex)"
  defines "ex' \<equiv> foldl (\<lambda>ex k. wake_task k ex) ex ks"
  shows "wakes_into (set ks) ex ex' \<and> blocked_ok ex' \<and> distinct (blocked ex') \<and> set (blocked ex') \<subseteq> set (blocked ex)"
  unfolding ex'_def using assms(1,2)
proof (induction ks arbitrary: ex)
  case Nil
  then show ?case by (simp add: wakes_into_def)
next
  case (Cons k ks)
  note one = wake_task_into[OF Cons.prems, of k]
  note rest = Cons.IH[OF one(2,3)]
  have "k \<notin> set (blocked (foldl (\<lambda>ex k. wake_task k ex) (wake_task k ex) ks))"
    using rest one(1) by (auto simp: wakes_into_def)
  then show ?case using rest one by (auto simp: wakes_into_def)
qed

lemma process_wakes_into:
  assumes "blocked_ok ex" "conserved ex gone"
  shows "wakes_into (set (ex_wakes ex)) (ex\<lparr>ex_wakes := []\<rparr>) (process_wakes ex)" "blocked_ok (process_wakes ex)"
    "conserved (process_wakes ex) gone"
proof -
  have "blocked_ok (ex\<lparr>ex_wakes := []\<rparr>)" "distinct (blocked (ex\<lparr>ex_wakes := []\<rparr>))"
    using assms(1) conserved_distinct(2)[OF assms(2)] by (simp_all add: blocked_ok_def blocked_def)
  from wake_all_into[OF this, of "ex_wakes ex"]
  show into: "wakes_into (set (ex_wakes ex)) (ex\<lparr>ex_wakes := []\<rparr>) (process_wakes ex)" and "blocked_ok (process_wakes ex)"
    by (simp_all add: process_wakes_def)
  then show "conserved (process_wakes ex) gone"
    using assms(2) unfolding conserved_def wakes_into_def by simp
qed

section \<open>The task that runs\<close>

definition rng_ok :: "'r sim_rng \<Rightarrow> bool" where
  "rng_ok rng \<longleftrightarrow> (\<forall>n r. 0 < n \<longrightarrow> fst (rng_index rng n r) < n)"

lemma mset_swap_remove:
  assumes "i < length xs"
  shows "mset xs = add_mset (fst (swap_remove i xs)) (mset (snd (swap_remove i xs)))"
proof -
  obtain ys y where xs: "xs = ys @ [y]" using assms by (cases xs rule: rev_cases) auto
  show ?thesis
  proof (cases "i = length ys")
    case True
    then show ?thesis by (simp add: swap_remove_def xs)
  next
    case False
    then have i: "i < length ys" using assms xs by simp
    then have "butlast (xs[i := last xs]) = ys[i := y]" by (simp add: xs list_update_append)
    moreover have "mset (ys[i := y]) = add_mset y (mset ys - {#ys ! i#})" using i by (rule mset_update)
    ultimately show ?thesis using i by (simp add: swap_remove_def xs nth_append)
  qed
qed

lemma next_sleep_first:
  assumes "sleeps_ok elapsed ex" "next_sleep_time ex = Some s"
  shows "\<exists>t ts. ex_sleeps ex = t # ts \<and> tk_target t = Some s \<and> elapsed \<le> s \<and> (\<forall>u \<in> set (t # ts). \<exists>x. tk_target u = Some x \<and> s \<le> x)"
proof -
  obtain t ts where ts: "ex_sleeps ex = t # ts" "tk_target t = Some s"
    using assms(2) by (auto simp: next_sleep_time_def split: list.splits)
  have "\<exists>x. tk_target u = Some x \<and> s \<le> x" if "u \<in> set (t # ts)" for u
  proof -
    obtain x where x: "tk_target u = Some x" using assms(1) ts(1) \<open>u \<in> _\<close> by (auto simp: sleeps_ok_def)
    moreover have "u = t \<or> task_before t u" using assms(1) ts(1) that by (auto simp: sleeps_ok_def)
    ultimately show ?thesis using ts(2) by (auto simp: task_before_def split: option.splits)
  qed
  then show ?thesis using assms(1) ts by (auto simp: sleeps_ok_def)
qed

lemma next_sleep_none: "sleeps_ok elapsed ex \<Longrightarrow> next_sleep_time ex = None \<longleftrightarrow> ex_sleeps ex = []"
  by (auto simp: next_sleep_time_def sleeps_ok_def split: list.splits)

text \<open>The selected task left its queue, the clock passes no timer, and a timer is selected at its time.\<close>
lemma select_task_ok:
  assumes "select_task rng elapsed ex r = Some (task, timer, target, ex', r')" "sleeps_ok elapsed ex" "rng_ok rng"
  shows "mset (ready ex) = add_mset (tk_sequence task) (mset (ready ex'))" "blocked ex' = blocked ex" "ex_blocked ex' = ex_blocked ex"
    "ex_next_sequence ex' = ex_next_sequence ex" "ex_wakes ex' = ex_wakes ex"
    "sleeps_ok (max elapsed target) ex'" "timer \<Longrightarrow> tk_target task = Some target \<and> elapsed \<le> target"
proof -
  have *: "mset (ready ex) = add_mset (tk_sequence task) (mset (ready ex')) \<and> ex_blocked ex' = ex_blocked ex \<and>
    ex_next_sequence ex' = ex_next_sequence ex \<and> ex_wakes ex' = ex_wakes ex \<and>
    sleeps_ok (max elapsed target) ex' \<and> (timer \<longrightarrow> tk_target task = Some target \<and> elapsed \<le> target)"
  proof (cases timer)
    case True
    then have s: "next_sleep_time ex = Some target" and pop: "pop_sleep ex = (task, ex')"
      using assms(1) by (auto simp: select_task_def pop_sleep_def pick_event_def split: prod.splits option.splits if_splits)
    from next_sleep_first[OF assms(2) s] obtain t ts where ts: "ex_sleeps ex = t # ts" "tk_target t = Some target" "elapsed \<le> target"
      "\<forall>u \<in> set (t # ts). \<exists>x. tk_target u = Some x \<and> target \<le> x" by blast
    then show ?thesis using pop assms(2)
      by (auto simp: pop_sleep_def ready_def sleeps_ok_def max_def)
  next
    case False
    then obtain r1 where e: "next_event_time rng elapsed ex r = (Some target, r1)"
      and pick: "pick_event rng ex r1 = (task, ex', r')" and before: "\<And>s. next_sleep_time ex = Some s \<Longrightarrow> target \<le> s"
      using assms(1) by (auto simp: select_task_def pop_sleep_def split: prod.splits option.splits if_splits)
    let ?i = "fst (rng_index rng (length (ex_events ex)) r1)"
    have "ex_events ex \<noteq> []" using e by (auto simp: next_event_time_def split: if_splits prod.splits)
    then have i: "?i < length (ex_events ex)" using assms(3) by (simp add: rng_ok_def)
    have ex': "task = fst (swap_remove ?i (ex_events ex))" "ex' = ex\<lparr>ex_events := snd (swap_remove ?i (ex_events ex))\<rparr>"
      using pick by (auto simp: pick_event_def split: prod.splits)
    have "\<exists>x. tk_target u = Some x \<and> max elapsed target \<le> x" if "u \<in> set (ex_sleeps ex)" for u
    proof (cases "next_sleep_time ex")
      case None
      then show ?thesis using next_sleep_none[OF assms(2)] that by simp
    next
      case (Some s)
      from next_sleep_first[OF assms(2) Some] before[OF Some] that assms(2) show ?thesis
        by (fastforce simp: sleeps_ok_def)
    qed
    then show ?thesis
      using mset_swap_remove[OF i] assms(2) False by (simp add: ex' ready_def mset_seqs sleeps_ok_def)
  qed
  then show "mset (ready ex) = add_mset (tk_sequence task) (mset (ready ex'))" "blocked ex' = blocked ex" "ex_blocked ex' = ex_blocked ex"
    "ex_next_sequence ex' = ex_next_sequence ex" "ex_wakes ex' = ex_wakes ex"
    "sleeps_ok (max elapsed target) ex'" "timer \<Longrightarrow> tk_target task = Some target \<and> elapsed \<le> target"
    by (auto simp: blocked_def)
qed

lemma select_task_none:
  assumes "select_task rng elapsed ex r = None" "sleeps_ok elapsed ex"
  shows "ex_events ex = []" "ex_sleeps ex = []"
  using assms next_sleep_none[OF assms(2)]
  by (auto simp: select_task_def next_event_time_def split: prod.splits option.splits if_splits)

section \<open>The invariant of a run\<close>

text \<open>What a poll does to the executor: new tasks get the next sequence numbers, wake-ups are queued.\<close>
lemma actions_effect:
  fixes elapsed :: nat
  defines "ex' \<equiv> \<lambda>actions ex. foldl (\<lambda>ex a. apply_action elapsed a ex) ex actions"
  shows "ex_blocked (ex' actions ex) = ex_blocked ex \<and> ex_wakes (ex' actions ex) = ex_wakes ex @ woken actions \<and>
    ex_next_sequence ex \<le> ex_next_sequence (ex' actions ex) \<and>
    mset (ready (ex' actions ex)) = mset (ready ex) + mset [ex_next_sequence ex..<ex_next_sequence (ex' actions ex)] \<and>
    (sleeps_ok elapsed ex \<longrightarrow> sleeps_ok elapsed (ex' actions ex))"
  unfolding ex'_def
proof (induction actions arbitrary: ex)
  case Nil
  then show ?case by (simp add: woken_def)
next
  case (Cons a as)
  let ?ex1 = "apply_action elapsed a ex"
  have one: "ex_blocked ?ex1 = ex_blocked ex" "ex_wakes ?ex1 = ex_wakes ex @ woken [a]"
    "sleeps_ok elapsed ex \<Longrightarrow> sleeps_ok elapsed ?ex1"
    by (cases a; auto simp: executor_spawn_def executor_spawn_after_def simulator_wake_def woken_def sleeps_ok_def intro: heap_push_sorted)+
  have grows: "ex_next_sequence ex \<le> ex_next_sequence ?ex1"
    "mset (ready ?ex1) = mset (ready ex) + mset [ex_next_sequence ex..<ex_next_sequence ?ex1]"
    by (cases a; simp add: executor_spawn_def executor_spawn_after_def simulator_wake_def ready_def mset_seqs)+
  note rest = Cons.IH[of ?ex1]
  let ?ex2 = "foldl (\<lambda>ex a. apply_action elapsed a ex) ?ex1 as"
  have "[ex_next_sequence ex..<ex_next_sequence ?ex2] =
    [ex_next_sequence ex..<ex_next_sequence ?ex1] @ [ex_next_sequence ?ex1..<ex_next_sequence ?ex2]"
    using grows(1) rest upt_add_eq_append[of "ex_next_sequence ex" "ex_next_sequence ?ex1" "ex_next_sequence ?ex2 - ex_next_sequence ?ex1"]
    by simp
  moreover have "woken (a # as) = woken [a] @ woken as" by (simp add: woken_def)
  ultimately show ?case using one grows rest by (auto simp del: upt_conv_Cons)
qed

definition finished :: "poll_record list \<Rightarrow> nat list" where
  "finished polls = map pr_sequence (filter pr_finished polls)"

text \<open>The contract of a waker: the wake-up of an unfinished task is followed by a poll of it.\<close>
definition wake_served :: "poll_record list \<Rightarrow> nat \<Rightarrow> nat \<Rightarrow> bool" where
  "wake_served polls i k \<longleftrightarrow>
     (\<exists>j \<le> i. j < length polls \<and> pr_sequence (polls ! j) = k \<and> pr_finished (polls ! j)) \<or>
     (\<exists>j > i. j < length polls \<and> pr_sequence (polls ! j) = k)"

definition accounted :: "('f, 'z mem_world_scheme, 'r) simulation \<Rightarrow> bool" where
  "accounted s \<longleftrightarrow> conserved (sm_executor s) (finished (sm_polls s)) \<and> blocked_ok (sm_executor s) \<and>
     sleeps_ok (mw_elapsed (sm_world s)) (sm_executor s)"

definition on_time :: "('f, 'z mem_world_scheme, 'r) simulation \<Rightarrow> bool" where
  "on_time s \<longleftrightarrow> sorted (map pr_time (sm_polls s)) \<and>
     (\<forall>p \<in> set (sm_polls s). pr_time p \<le> mw_elapsed (sm_world s) \<and> (\<forall>t. pr_timer p = Some t \<longrightarrow> pr_time p = t))"

definition wakes_kept :: "('f, 'z mem_world_scheme, 'r) simulation \<Rightarrow> bool" where
  "wakes_kept s \<longleftrightarrow> (\<forall>i < length (sm_polls s). \<forall>k \<in> set (pr_wakes (sm_polls s ! i)).
     wake_served (sm_polls s) i k \<or> k \<in> set (ex_wakes (sm_executor s)) \<or> k \<in> set (ready (sm_executor s)) \<or>
     ex_next_sequence (sm_executor s) \<le> k)"

definition sim_ok :: "('f, 'z mem_world_scheme, 'r) simulation \<Rightarrow> bool" where
  "sim_ok s \<longleftrightarrow> accounted s \<and> on_time s \<and> wakes_kept s"

text \<open>Polling a future does not move the clock.\<close>
definition keeps_time :: "('f, 'z mem_world_scheme) poll \<Rightarrow> bool" where
  "keeps_time poll \<longleftrightarrow> (\<forall>f k w. mw_elapsed (snd (poll f k w)) = mw_elapsed w)"

lemma wake_served_snoc: "wake_served polls i k \<Longrightarrow> wake_served (polls @ [p]) i k"
  by (auto simp: wake_served_def nth_append less_Suc_eq)

lemma finished_served:
  assumes "k \<in> set (finished polls)"
  shows "wake_served polls i k"
proof -
  obtain j where "j < length polls" "pr_finished (polls ! j)" "pr_sequence (polls ! j) = k"
    using assms by (auto simp: finished_def in_set_conv_nth)
  then show ?thesis by (cases "j \<le> i") (auto simp: wake_served_def not_le)
qed

lemma process_wakes_ok:
  assumes "sim_ok s"
  shows "sim_ok (s\<lparr>sm_executor := process_wakes (sm_executor s)\<rparr>)" "ex_wakes (process_wakes (sm_executor s)) = []"
proof -
  let ?ex = "sm_executor s" and ?ex' = "process_wakes (sm_executor s)"
  have c: "conserved ?ex (finished (sm_polls s))" and b: "blocked_ok ?ex" using assms by (simp_all add: sim_ok_def accounted_def)
  note p = process_wakes_into[OF b c]
  from p(1) have same: "ex_sleeps ?ex' = ex_sleeps ?ex" "ex_next_sequence ?ex' = ex_next_sequence ?ex" "ex_wakes ?ex' = []"
    "set (ready ?ex) \<subseteq> set (ready ?ex')" "\<And>k. k \<in> set (ex_wakes ?ex) \<Longrightarrow> k \<notin> set (blocked ?ex')"
    by (auto simp: wakes_into_def)
  then show "ex_wakes ?ex' = []" by simp
  have woken: "k \<in> set (ready ?ex') \<or> k \<in> set (finished (sm_polls s)) \<or> ex_next_sequence ?ex' \<le> k" if "k \<in> set (ex_wakes ?ex)" for k
  proof (cases "k < ex_next_sequence ?ex'")
    case True
    then have "k \<in> set (ready ?ex') \<union> set (blocked ?ex') \<union> set (finished (sm_polls s))"
      unfolding conserved_distinct(7)[OF p(3)] by simp
    then show ?thesis using same(5)[OF that] by blast
  qed simp
  have "wakes_kept (s\<lparr>sm_executor := ?ex'\<rparr>)"
    unfolding wakes_kept_def
  proof (intro allI impI ballI)
    fix i k assume "i < length (sm_polls (s\<lparr>sm_executor := ?ex'\<rparr>))" "k \<in> set (pr_wakes (sm_polls (s\<lparr>sm_executor := ?ex'\<rparr>) ! i))"
    then have "wake_served (sm_polls s) i k \<or> k \<in> set (ex_wakes ?ex) \<or> k \<in> set (ready ?ex) \<or> ex_next_sequence ?ex \<le> k"
      using assms by (auto simp: sim_ok_def wakes_kept_def)
    then show "wake_served (sm_polls (s\<lparr>sm_executor := ?ex'\<rparr>)) i k \<or> k \<in> set (ex_wakes (sm_executor (s\<lparr>sm_executor := ?ex'\<rparr>))) \<or>
        k \<in> set (ready (sm_executor (s\<lparr>sm_executor := ?ex'\<rparr>))) \<or> ex_next_sequence (sm_executor (s\<lparr>sm_executor := ?ex'\<rparr>)) \<le> k"
      using woken[of k] same(2,4) finished_served[of k "sm_polls s" i] by auto
  qed
  then show "sim_ok (s\<lparr>sm_executor := ?ex'\<rparr>)"
    using assms p same by (simp add: sim_ok_def accounted_def on_time_def sleeps_ok_def)
qed

text \<open>Polling the selected task.\<close>
lemma poll_selected_ok:
  assumes ok: "sim_ok s" and quiet: "ex_wakes (sm_executor s) = []" and laws: "keeps_time poll" "rng_ok rng"
    and sel: "select_task rng (mw_elapsed (sm_world s)) (sm_executor s) (sm_rng s) = Some (task, timer, target, ex', r')"
  shows "sim_ok (poll_selected poll task timer target (s\<lparr>sm_executor := ex', sm_rng := r'\<rparr>))"
proof -
  let ?ex = "sm_executor s" and ?k = "tk_sequence task" and ?polls = "sm_polls s"
  let ?w = "advance_to target (sm_world s)"
  obtain left actions w' where poll: "poll (tk_future task) ?k ?w = ((left, actions), w')" by (metis prod.exhaust)
  let ?exa = "foldl (\<lambda>ex a. apply_action (mw_elapsed ?w) a ex) ex' actions"
  let ?ex2 = "case left of None \<Rightarrow> ?exa | Some f \<Rightarrow> ?exa\<lparr>ex_blocked := AList.update ?k (task\<lparr>tk_future := f\<rparr>) (ex_blocked ?exa)\<rparr>"
  let ?p = "\<lparr>pr_timer = (if timer then tk_target task else None), pr_sequence = ?k, pr_time = mw_elapsed ?w, pr_wakes = woken actions,
    pr_finished = (left = None)\<rparr>"
  define s2 where "s2 = poll_selected poll task timer target (s\<lparr>sm_executor := ex', sm_rng := r'\<rparr>)"
  have s2: "sm_executor s2 = ?ex2" "sm_world s2 = w'" "sm_polls s2 = ?polls @ [?p]"
    by (simp_all add: s2_def poll_selected_def poll Let_def)
  have acc: "conserved ?ex (finished ?polls)" "blocked_ok ?ex" "sleeps_ok (mw_elapsed (sm_world s)) ?ex"
    using ok by (simp_all add: sim_ok_def accounted_def)
  note sel = select_task_ok[OF sel acc(3) laws(2)]
  have elapsed: "mw_elapsed ?w = max (mw_elapsed (sm_world s)) target" by (simp add: advance_to_def max_def)
  have time: "mw_elapsed w' = mw_elapsed ?w" using laws(1) poll by (metis keeps_time_def snd_conv)
  note act = actions_effect[where elapsed = "mw_elapsed ?w" and actions = actions and ex = ex']
  have left_k: "?k \<notin> fst ` set (ex_blocked ?ex)"
  proof -
    have "?k \<in> set (ready ?ex)" using sel(1) by (metis set_mset_mset union_single_eq_member add_mset_add_single)
    then show ?thesis using conserved_distinct(4)[OF acc(1)] blocked_keys[OF acc(2)] by (metis disjoint_iff list.set_map)
  qed
  have blocked2: "ex_blocked ?ex2 = (case left of None \<Rightarrow> ex_blocked ?ex | Some f \<Rightarrow> ex_blocked ?ex @ [(?k, task\<lparr>tk_future := f\<rparr>)])"
    using act sel(3) alist_update_new[OF left_k] by (cases left) simp_all
  have rest2: "ready ?ex2 = ready ?exa" "ex_wakes ?ex2 = ex_wakes ?exa" "ex_next_sequence ?ex2 = ex_next_sequence ?exa"
    "ex_sleeps ?ex2 = ex_sleeps ?exa"
    by (cases left; simp add: ready_def)+
  have wakes2: "ex_wakes ?exa = woken actions" using act sel(5) quiet by simp
  have ready2: "mset (ready ?exa) = mset (ready ex') + mset [ex_next_sequence ?ex..<ex_next_sequence ?exa]"
    and grows: "ex_next_sequence ?ex \<le> ex_next_sequence ?exa" using act sel(4) by simp_all
  have readies: "set (ready ?ex) = insert ?k (set (ready ex'))"
    "set (ready ?exa) = set (ready ex') \<union> {ex_next_sequence ?ex..<ex_next_sequence ?exa}"
    using mset_eq_setD[of "ready ?ex" "?k # ready ex'"] sel(1)
      mset_eq_setD[of "ready ?exa" "ready ex' @ [ex_next_sequence ?ex..<ex_next_sequence ?exa]"] ready2 by simp_all
  have upto: "mset [0..<ex_next_sequence ?exa] = mset [0..<ex_next_sequence ?ex] + mset [ex_next_sequence ?ex..<ex_next_sequence ?exa]"
    using upt_add_eq_append[of 0 "ex_next_sequence ?ex" "ex_next_sequence ?exa - ex_next_sequence ?ex"] grows by (metis le0 le_add_diff_inverse mset_append)
  have "conserved ?ex2 (finished (?polls @ [?p]))"
    using acc(1) sel(1) unfolding conserved_def rest2 ready2 upto blocked_def blocked2
    by (cases left) (simp_all add: finished_def blocked_def ac_simps)
  moreover have "blocked_ok ?ex2"
    using acc(2) unfolding blocked_ok_def blocked2 by (auto split: option.split)
  moreover have "sleeps_ok (mw_elapsed ?w) ?ex2"
    using act sel(6) elapsed rest2(4) by (simp add: sleeps_ok_def)
  moreover have "on_time s2"
    using ok sel(7) elapsed time unfolding sim_ok_def on_time_def s2
    by (auto simp: sorted_append intro: order_trans split: if_splits)
  moreover have "wakes_kept s2"
    unfolding wakes_kept_def s2 rest2
  proof (intro allI impI ballI)
    fix i k assume i: "i < length (?polls @ [?p])" and k: "k \<in> set (pr_wakes ((?polls @ [?p]) ! i))"
    show "wake_served (?polls @ [?p]) i k \<or> k \<in> set (ex_wakes ?exa) \<or> k \<in> set (ready ?exa) \<or> ex_next_sequence ?exa \<le> k"
    proof (cases "i < length ?polls")
      case False
      then show ?thesis using i k wakes2 by (simp add: nth_append)
    next
      case True
      then have "k \<in> set (pr_wakes (?polls ! i))" using k by (simp add: nth_append)
      then have "wake_served ?polls i k \<or> k \<in> set (ready ?ex) \<or> ex_next_sequence ?ex \<le> k"
        using ok quiet True unfolding sim_ok_def wakes_kept_def by fastforce
      moreover have "wake_served (?polls @ [?p]) i ?k" 
        unfolding wake_served_def using True by (intro disjI2 exI[of _ "length ?polls"]) simp
      moreover have "k = ?k \<or> k \<in> set (ready ?exa)" if "k \<in> set (ready ?ex)"
        using that unfolding readies by blast
      moreover have "k \<in> set (ready ?exa) \<or> ex_next_sequence ?exa \<le> k" if "ex_next_sequence ?ex \<le> k"
        using that unfolding readies(2) by (auto simp: not_le)
      ultimately show ?thesis using wake_served_snoc by blast
    qed
  qed
  ultimately show ?thesis
    unfolding s2_def[symmetric] sim_ok_def accounted_def s2 by (simp add: time)
qed

lemma executor_turn_ok:
  assumes "sim_ok s" "keeps_time poll" "rng_ok rng" "executor_turn poll rng s = (busy, s')"
  shows "sim_ok s'" "\<not> busy \<Longrightarrow> ready (sm_executor s') = [] \<and> ex_wakes (sm_executor s') = [] \<and> sm_polls s' = sm_polls s"
    "busy \<Longrightarrow> length (sm_polls s') = length (sm_polls s) + 1"
proof -
  let ?s1 = "s\<lparr>sm_executor := process_wakes (sm_executor s)\<rparr>"
  have ok: "sim_ok ?s1" and quiet: "ex_wakes (sm_executor ?s1) = []" using process_wakes_ok[OF assms(1)] by simp_all
  have *: "sim_ok s' \<and> (\<not> busy \<longrightarrow> ready (sm_executor s') = [] \<and> ex_wakes (sm_executor s') = [] \<and> sm_polls s' = sm_polls s) \<and>
    (busy \<longrightarrow> length (sm_polls s') = length (sm_polls s) + 1)"
  proof (cases "select_task rng (mw_elapsed (sm_world s)) (process_wakes (sm_executor s)) (sm_rng s)")
    case None
    then have "\<not> busy" "s' = ?s1" using assms(4) by (auto simp: executor_turn_def)
    moreover have "ready (sm_executor ?s1) = []"
      using select_task_none[OF None] ok by (simp add: ready_def sim_ok_def accounted_def)
    ultimately show ?thesis using ok quiet by simp
  next
    case (Some c)
    obtain task timer target ex' r where c: "c = (task, timer, target, ex', r)" by (metis prod.exhaust)
    have s': "busy" "s' = poll_selected poll task timer target (?s1\<lparr>sm_executor := ex', sm_rng := r\<rparr>)"
      using assms(4) by (simp_all add: executor_turn_def Some c)
    have "sim_ok s'"
      unfolding s'(2) by (rule poll_selected_ok[OF ok quiet assms(2,3)]) (simp add: Some c)
    then show ?thesis using s' by (auto simp: poll_selected_def Let_def split: prod.split)
  qed
  then show "sim_ok s'" "\<not> busy \<Longrightarrow> ready (sm_executor s') = [] \<and> ex_wakes (sm_executor s') = [] \<and> sm_polls s' = sm_polls s"
    "busy \<Longrightarrow> length (sm_polls s') = length (sm_polls s) + 1" by blast+
qed

section \<open>Runs\<close>

lemma simulator_start_ok: "sim_ok (simulator_start actions w r)"
proof -
  note e = actions_effect[where elapsed = "mw_elapsed w" and actions = actions and ex = empty_executor]
  let ?ex = "foldl (\<lambda>ex a. apply_action (mw_elapsed w) a ex) empty_executor actions"
  have "sleeps_ok (mw_elapsed w) ?ex" using e by (simp add: sleeps_ok_def empty_executor_def)
  moreover have "conserved ?ex []" "blocked_ok ?ex"
    using e by (simp_all add: conserved_def blocked_ok_def blocked_def empty_executor_def ready_def)
  ultimately show ?thesis
    by (simp add: sim_ok_def accounted_def on_time_def wakes_kept_def simulator_start_def finished_def)
qed

lemma run_loop_ok:
  assumes "run_loop poll rng left n s = (res, s')" "sim_ok s" "keeps_time poll" "rng_ok rng"
  shows "sim_ok s' \<and> (case res of
      None \<Rightarrow> length (sm_polls s') = length (sm_polls s) + left
    | Some stats \<Rightarrow> ready (sm_executor s') = [] \<and> ex_wakes (sm_executor s') = [] \<and>
        rs_polls stats + length (sm_polls s) = n + length (sm_polls s') \<and> rs_total_events stats = ex_next_sequence (sm_executor s') \<and>
        rs_final_blocked_tasks stats = length (blocked (sm_executor s')))"
  using assms(1,2)
proof (induction left arbitrary: n s)
  case (Suc left)
  obtain busy s1 where turn: "executor_turn poll rng s = (busy, s1)" by (cases "executor_turn poll rng s")
  note ok = executor_turn_ok[OF Suc.prems(2) assms(3,4) turn]
  show ?case
  proof (cases busy)
    case True
    then have "run_loop poll rng left (n + 1) s1 = (res, s')" using Suc.prems(1) turn by simp
    from Suc.IH[OF this ok(1)] ok(3)[OF True] show ?thesis by (auto split: option.splits)
  next
    case False
    then show ?thesis using Suc.prems(1) turn ok(1) ok(2)[OF False] by (auto simp: blocked_def seqs_def)
  qed
qed simp

lemma executor_run_ok:
  assumes "executor_run poll rng (simulator_start actions w r) = (res, s')" "keeps_time poll" "rng_ok rng"
  shows "sim_ok s'" "res = None \<Longrightarrow> length (sm_polls s') = MAX_ITERATIONS"
    "res = Some stats \<Longrightarrow> ready (sm_executor s') = [] \<and> ex_wakes (sm_executor s') = [] \<and> rs_polls stats = length (sm_polls s') \<and>
       rs_total_events stats = ex_next_sequence (sm_executor s') \<and> rs_final_blocked_tasks stats = length (blocked (sm_executor s'))"
  using run_loop_ok[OF assms(1)[unfolded executor_run_def] simulator_start_ok assms(2,3)]
  by (auto simp: simulator_start_def)

lemma run_loop_more:
  "run_loop poll rng left n s = (Some stats, s') \<Longrightarrow> left \<le> left' \<Longrightarrow> run_loop poll rng left' n s = (Some stats, s')"
proof (induction left arbitrary: n s left')
  case (Suc left)
  then obtain m where "left' = Suc m" "left \<le> m" by (cases left') auto
  then show ?case using Suc by (auto split: prod.splits bool.splits)
qed simp

text \<open>The barrier lets a whole round pass, the earlier waiters in the order they arrived, and is then as new.\<close>
lemma barrier_round:
  assumes "length ids = k" "k < n"
  shows "foldl (\<lambda>st me. snd (barrier_wait n me st)) \<lparr>br_arrived = 0, br_senders = []\<rparr> ids = \<lparr>br_arrived = k, br_senders = ids\<rparr>"
  using assms
proof (induction ids arbitrary: k rule: rev_induct)
  case (snoc x xs)
  then show ?case by (cases k) (simp_all add: barrier_wait_def Let_def)
qed simp

lemma barrier_releases:
  assumes "length ids + 1 = n"
  shows "barrier_wait n me (foldl (\<lambda>st me. snd (barrier_wait n me st)) \<lparr>br_arrived = 0, br_senders = []\<rparr> ids) =
    (Passes ids, \<lparr>br_arrived = 0, br_senders = []\<rparr>)"
  using assms barrier_round[of ids "length ids" n] by (simp add: barrier_wait_def Let_def)

section \<open>Properties\<close>

text \<open>
  C17. No wake-up is lost, however the random choices fall: when a run ends, every wake-up of a spawned task that had not finished was
  followed by a poll of it.
\<close>
theorem no_wakeup_lost:
  assumes "executor_run poll rng (simulator_start actions w r) = (Some stats, s')" "keeps_time poll" "rng_ok rng"
    and "i < length (sm_polls s')" "k \<in> set (pr_wakes (sm_polls s' ! i))" "k < rs_total_events stats"
  shows "wake_served (sm_polls s') i k"
proof -
  have "wakes_kept s'" using executor_run_ok(1)[OF assms(1-3)] by (simp add: sim_ok_def)
  then have "wake_served (sm_polls s') i k \<or> ex_next_sequence (sm_executor s') \<le> k"
    using assms(4,5) executor_run_ok(3)[OF assms(1-3) refl] by (fastforce simp: wakes_kept_def)
  then show ?thesis using assms(6) executor_run_ok(3)[OF assms(1-3) refl] by simp
qed

text \<open>
  C18. Time in a run, even one that is cut off: polls happen in the order of the clock and every timer fires exactly at its target
  time, never early and never late.
\<close>
theorem timers_fire_on_time:
  assumes "executor_run poll rng (simulator_start actions w r) = (res, s')" "keeps_time poll" "rng_ok rng"
  shows "sorted (map pr_time (sm_polls s')) \<and> (\<forall>p \<in> set (sm_polls s'). \<forall>t. pr_timer p = Some t \<longrightarrow> pr_time p = t)"
  using executor_run_ok(1)[OF assms] by (auto simp: sim_ok_def on_time_def)

text \<open>
  C19. A run that ends has accounted for every task spawned: each finished, once, or is one of the blocked tasks reported; nothing
  that could still run is left, and the reported number of polls is theirs.  A run that does not end stops after 100000 polls.
\<close>
theorem run_accounts_for_tasks:
  assumes "executor_run poll rng (simulator_start actions w r) = (res, s')" "keeps_time poll" "rng_ok rng"
  shows "case res of
      None \<Rightarrow> length (sm_polls s') = MAX_ITERATIONS
    | Some stats \<Rightarrow> mset (finished (sm_polls s')) + mset (blocked (sm_executor s')) = mset [0..<rs_total_events stats] \<and>
        rs_final_blocked_tasks stats = length (blocked (sm_executor s')) \<and> rs_polls stats = length (sm_polls s')"
proof (cases res)
  case None
  then show ?thesis using executor_run_ok(2)[OF assms] by simp
next
  case (Some stats)
  from executor_run_ok(1)[OF assms] executor_run_ok(3)[OF assms Some] show ?thesis
    by (simp add: Some sim_ok_def accounted_def conserved_def add.commute)
qed

text \<open>A task that sleeps 50 milliseconds, with the timer that wakes it, and a task that waits for ever.\<close>
definition sleeper_poll :: "(nat, mem_world) poll" where
  "sleeper_poll f k w =
     ((if f = 0 then (Some 2, [SpawnAfter 1 50000000]) else if f = 1 then (None, [WakeTask 0]) else if f = 2 then (None, []) else (Some f, [])), w)"

definition even_rng :: "unit sim_rng" where
  "even_rng = \<lparr>rng_jitter = (\<lambda>r. (100, r)), rng_index = (\<lambda>n r. (0, r))\<rparr>"

definition sleeper_world :: mem_world where
  "sleeper_world = \<lparr>mw_buses = Map.empty, mw_elapsed = 0, mw_noise = []\<rparr>"

definition sleeper_polls :: "poll_record list" where
  "sleeper_polls =
    [\<lparr>pr_timer = None, pr_sequence = 0, pr_time = 100000, pr_wakes = [], pr_finished = False\<rparr>,
     \<lparr>pr_timer = None, pr_sequence = 1, pr_time = 200000, pr_wakes = [], pr_finished = False\<rparr>,
     \<lparr>pr_timer = Some 50100000, pr_sequence = 2, pr_time = 50100000, pr_wakes = [0], pr_finished = True\<rparr>,
     \<lparr>pr_timer = None, pr_sequence = 0, pr_time = 50200000, pr_wakes = [], pr_finished = True\<rparr>]"

lemma sleeper_laws: "keeps_time sleeper_poll" "rng_ok even_rng"
  by (simp_all add: keeps_time_def sleeper_poll_def rng_ok_def even_rng_def)

lemma sleeper_run:
  "\<exists>s'. executor_run sleeper_poll even_rng (simulator_start [SpawnTask 0, SpawnTask 5] sleeper_world ()) =
     (Some \<lparr>rs_polls = 4, rs_total_events = 3, rs_final_blocked_tasks = 1\<rparr>, s') \<and> sm_polls s' = sleeper_polls \<and>
     blocked (sm_executor s') = [1]"
proof -
  let ?start = "simulator_start [SpawnTask 0, SpawnTask 5] sleeper_world ()"
  let ?run = "run_loop sleeper_poll even_rng 5 0 ?start"
  have "fst ?run = Some \<lparr>rs_polls = 4, rs_total_events = 3, rs_final_blocked_tasks = 1\<rparr>" "sm_polls (snd ?run) = sleeper_polls"
    "blocked (sm_executor (snd ?run)) = [1]" by code_simp+
  moreover from this(1) have "run_loop sleeper_poll even_rng MAX_ITERATIONS 0 ?start = ?run"
    using run_loop_more[of sleeper_poll even_rng 5 0 ?start _ "snd ?run" MAX_ITERATIONS] by (simp add: MAX_ITERATIONS_def prod_eq_iff)
  ultimately show ?thesis unfolding executor_run_def by (intro exI[of _ "snd ?run"]) (simp add: prod_eq_iff)
qed

theorem no_wakeup_lost_witness: "0 \<in> set (pr_wakes (sleeper_polls ! 2)) \<and> wake_served sleeper_polls 2 0"
proof -
  obtain s' where run: "executor_run sleeper_poll even_rng (simulator_start [SpawnTask 0, SpawnTask 5] sleeper_world ()) =
     (Some \<lparr>rs_polls = 4, rs_total_events = 3, rs_final_blocked_tasks = 1\<rparr>, s')" "sm_polls s' = sleeper_polls"
    using sleeper_run by blast
  have "wake_served (sm_polls s') 2 0"
    by (rule no_wakeup_lost[OF run(1) sleeper_laws]) (simp_all add: run(2) sleeper_polls_def)
  then show ?thesis by (simp add: run(2) sleeper_polls_def)
qed

theorem timers_fire_on_time_witness:
  "\<exists>res s'. executor_run sleeper_poll even_rng (simulator_start [SpawnTask 0, SpawnTask 5] sleeper_world ()) = (res, s') \<and>
     pr_timer (sm_polls s' ! 2) = Some 50100000 \<and> pr_time (sm_polls s' ! 2) = 50100000 \<and> sorted (map pr_time (sm_polls s'))"
proof -
  obtain s' where run: "executor_run sleeper_poll even_rng (simulator_start [SpawnTask 0, SpawnTask 5] sleeper_world ()) =
     (Some \<lparr>rs_polls = 4, rs_total_events = 3, rs_final_blocked_tasks = 1\<rparr>, s')" "sm_polls s' = sleeper_polls"
    using sleeper_run by blast
  from timers_fire_on_time[OF run(1) sleeper_laws] show ?thesis
    using run by (intro exI) (auto simp: sleeper_polls_def)
qed

theorem run_accounts_for_tasks_witness:
  "\<exists>s'. executor_run sleeper_poll even_rng (simulator_start [SpawnTask 0, SpawnTask 5] sleeper_world ()) =
     (Some \<lparr>rs_polls = 4, rs_total_events = 3, rs_final_blocked_tasks = 1\<rparr>, s') \<and>
     finished (sm_polls s') = [2, 0] \<and> mset (finished (sm_polls s')) + mset (blocked (sm_executor s')) = mset [0, 1, 2]"
proof -
  obtain s' where run: "executor_run sleeper_poll even_rng (simulator_start [SpawnTask 0, SpawnTask 5] sleeper_world ()) =
     (Some \<lparr>rs_polls = 4, rs_total_events = 3, rs_final_blocked_tasks = 1\<rparr>, s')" "sm_polls s' = sleeper_polls"
    using sleeper_run by blast
  have three: "[0..<3] = [0, 1, 2 :: nat]" by code_simp
  have "finished (sm_polls s') = [2, 0]" unfolding run(2) by code_simp
  moreover have "mset (finished (sm_polls s')) + mset (blocked (sm_executor s')) = mset [0, 1, 2]"
    using run_accounts_for_tasks[OF run(1) sleeper_laws] unfolding three[symmetric] by simp
  ultimately show ?thesis using run(1) by blast
qed

end
