(* ===== verification/Buffering.thy ===== *)
theory Buffering
  imports Lru
begin

text \<open>
  The buffering commit service (\<open>logact/commit_service/core/src/buffering.rs\<close>): commits on one bus go through a fair mutex of the
  bus, kept in a bounded LRU cache.  A call joins the mutex of its bus when it is first polled and leaves it when it returns or is
  dropped; the call that holds the mutex is the one inside the inner service.  The mutex and the cache are parameters with their
  documented behaviour.
\<close>

section \<open>The mutex\<close>

text \<open>\<open>LocalMutex\<close> created with \<open>is_fair = true\<close>: \<open>lock\<close>, and dropping the guard or the waiting future.\<close>
record 'm mutex_ops =
  mx_new :: 'm
  mx_lock :: "nat \<Rightarrow> 'm \<Rightarrow> 'm"
  mx_leave :: "nat \<Rightarrow> 'm \<Rightarrow> 'm"
  mx_holder :: "'m \<Rightarrow> nat option"

text \<open>A fair mutex is held by the call that has been at it longest.\<close>
locale fair_mutex =
  fixes M :: "'m mutex_ops"
    and waiters :: "'m \<Rightarrow> nat list"
  assumes new_law: "waiters (mx_new M) = []"
    and lock_law: "waiters (mx_lock M c m) = waiters m @ [c]"
    and leave_law: "waiters (mx_leave M c m) = filter (\<lambda>d. d \<noteq> c) (waiters m)"
    and holder_law: "mx_holder M m = (case waiters m of [] \<Rightarrow> None | c # _ \<Rightarrow> Some c)"

definition list_mutex :: "nat list mutex_ops" where
  "list_mutex = \<lparr>mx_new = [], mx_lock = (\<lambda>c m. m @ [c]), mx_leave = (\<lambda>c. filter (\<lambda>d. d \<noteq> c)),
     mx_holder = (\<lambda>m. case m of [] \<Rightarrow> None | c # _ \<Rightarrow> Some c)\<rparr>"

interpretation list_mutex: fair_mutex list_mutex id
  by standard (simp_all add: list_mutex_def)

section \<open>The queues\<close>

definition MAX_CACHED_BUSES :: nat where
  "MAX_CACHED_BUSES = 1024"

text \<open>
  The cache maps a bus to the name of its mutex; a call in flight keeps its mutex alive, whatever the cache does.
\<close>
record ('m, 'c) commit_queue =
  cq_buses :: 'c
  cq_mutexes :: "nat \<Rightarrow> 'm"
  cq_next_mutex :: nat
  cq_calls :: "nat \<Rightarrow> nat option"

definition commit_queue_new :: "'m mutex_ops \<Rightarrow> (string, nat, 'c) lru_ops \<Rightarrow> ('m, 'c) commit_queue" where
  "commit_queue_new M L =
     \<lparr>cq_buses = lru_new L MAX_CACHED_BUSES, cq_mutexes = (\<lambda>_. mx_new M), cq_next_mutex = 0, cq_calls = Map.empty\<rparr>"

text \<open>The first poll of \<open>run\<close>: \<open>get_or_insert(..).clone()\<close>, then the call is at the lock.\<close>
definition queue_run :: "'m mutex_ops \<Rightarrow> (string, nat, 'c) lru_ops \<Rightarrow> nat \<Rightarrow> string \<Rightarrow> ('m, 'c) commit_queue \<Rightarrow> ('m, 'c) commit_queue" where
  "queue_run M L call bus_id q =
     (case lru_get_or_insert L bus_id (cq_next_mutex q) (cq_buses q) of (m, buses) \<Rightarrow>
        q\<lparr>cq_buses := buses, cq_next_mutex := cq_next_mutex q + 1,
          cq_mutexes := (cq_mutexes q)(m := mx_lock M call (cq_mutexes q m)),
          cq_calls := (cq_calls q)(call \<mapsto> m)\<rparr>)"

text \<open>The call returns, or its future is dropped: the guard, or the place in the queue, is released.\<close>
definition queue_leave :: "'m mutex_ops \<Rightarrow> nat \<Rightarrow> ('m, 'c) commit_queue \<Rightarrow> ('m, 'c) commit_queue" where
  "queue_leave M call q =
     (case cq_calls q call of
        None \<Rightarrow> q
      | Some m \<Rightarrow> q\<lparr>cq_mutexes := (cq_mutexes q)(m := mx_leave M call (cq_mutexes q m)), cq_calls := (cq_calls q)(call := None)\<rparr>)"

text \<open>The calls inside the inner service.\<close>
definition in_service :: "'m mutex_ops \<Rightarrow> ('m, 'c) commit_queue \<Rightarrow> nat \<Rightarrow> bool" where
  "in_service M q call \<longleftrightarrow> (case cq_calls q call of None \<Rightarrow> False | Some m \<Rightarrow> mx_holder M (cq_mutexes q m) = Some call)"

datatype buffering_event = CallArrives nat string | CallLeaves nat

fun buffering_step :: "'m mutex_ops \<Rightarrow> (string, nat, 'c) lru_ops \<Rightarrow> ('m, 'c) commit_queue \<Rightarrow> buffering_event \<Rightarrow> ('m, 'c) commit_queue" where
  "buffering_step M L q (CallArrives call bus_id) = queue_run M L call bus_id q"
| "buffering_step M L q (CallLeaves call) = queue_leave M call q"

definition buffering_run :: "'m mutex_ops \<Rightarrow> (string, nat, 'c) lru_ops \<Rightarrow> buffering_event list \<Rightarrow> ('m, 'c) commit_queue" where
  "buffering_run M L events = foldl (buffering_step M L) (commit_queue_new M L) events"

section \<open>The specification: one queue per bus\<close>

fun bus_queue_step :: "string \<Rightarrow> nat list \<Rightarrow> buffering_event \<Rightarrow> nat list" where
  "bus_queue_step bus calls (CallArrives call bus_id) = (if bus_id = bus then calls @ [call] else calls)"
| "bus_queue_step bus calls (CallLeaves call) = filter (\<lambda>c. c \<noteq> call) calls"

text \<open>The calls of a bus that are in flight, the oldest first.\<close>
definition bus_queue :: "string \<Rightarrow> buffering_event list \<Rightarrow> nat list" where
  "bus_queue bus events = foldl (bus_queue_step bus) [] events"

fun arrivals :: "buffering_event list \<Rightarrow> (nat \<times> string) list" where
  "arrivals [] = []"
| "arrivals (CallArrives call bus # events) = (call, bus) # arrivals events"
| "arrivals (CallLeaves call # events) = arrivals events"

lemma arrivals_append [simp]: "arrivals (xs @ ys) = arrivals xs @ arrivals ys"
  by (induction xs rule: arrivals.induct) simp_all

lemma bus_queue_simps [simp]:
  "bus_queue bus [] = []"
  "bus_queue bus (events @ [CallArrives c b]) = (if b = bus then bus_queue bus events @ [c] else bus_queue bus events)"
  "bus_queue bus (events @ [CallLeaves c]) = filter (\<lambda>d. d \<noteq> c) (bus_queue bus events)"
  by (simp_all add: bus_queue_def)

lemma buffering_run_simps [simp]:
  "buffering_run M L [] = commit_queue_new M L"
  "buffering_run M L (events @ [e]) = buffering_step M L (buffering_run M L events) e"
  by (simp_all add: buffering_run_def)

lemma bus_queue_arrived: "c \<in> set (bus_queue bus events) \<Longrightarrow> (c, bus) \<in> set (arrivals events)"
proof (induction events rule: rev_induct)
  case (snoc e events)
  then show ?case by (cases e) (auto split: if_splits)
qed simp

lemma map_of_inserted_fresh:
  assumes "map_of xs k = None \<Longrightarrow> length xs < n"
  shows "map_of (inserted n k (case map_of xs k of None \<Rightarrow> v | Some u \<Rightarrow> u) xs) =
    (map_of xs)(k \<mapsto> (case map_of xs k of None \<Rightarrow> v | Some u \<Rightarrow> u))"
proof (cases "map_of xs k")
  case None
  then show ?thesis using assms by (simp add: inserted_def)
next
  case (Some u)
  then show ?thesis by (simp add: inserted_present map_of_to_front fun_upd_idem)
qed

text \<open>
  The cached mutexes are the per-bus queues: nothing has been evicted, distinct buses have distinct mutexes, and a call knows its
  own.
\<close>
definition queues_match :: "('m \<Rightarrow> nat list) \<Rightarrow> ('c \<Rightarrow> (string \<times> nat) list) \<Rightarrow> ('m, 'c) commit_queue \<Rightarrow> buffering_event list \<Rightarrow> bool" where
  "queues_match waiters items q events \<longleftrightarrow>
     dom (map_of (items (cq_buses q))) = snd ` set (arrivals events) \<and>
     (\<forall>b m. map_of (items (cq_buses q)) b = Some m \<longrightarrow> waiters (cq_mutexes q m) = bus_queue b events \<and> m < cq_next_mutex q) \<and>
     (\<forall>b b' m. map_of (items (cq_buses q)) b = Some m \<longrightarrow> map_of (items (cq_buses q)) b' = Some m \<longrightarrow> b = b') \<and>
     (\<forall>m \<ge> cq_next_mutex q. waiters (cq_mutexes q m) = []) \<and>
     (\<forall>c m. cq_calls q c = Some m \<longleftrightarrow> (\<exists>b. map_of (items (cq_buses q)) b = Some m \<and> c \<in> set (bus_queue b events)))"

lemma queues_match_arrival:
  assumes M: "fair_mutex M waiters" and L: "lru_cache L items cap ok"
    and match: "queues_match waiters items q events" "ok (cq_buses q)" "cap (cq_buses q) = MAX_CACHED_BUSES"
    and fresh: "c \<notin> fst ` set (arrivals events)" and few: "card (insert b (snd ` set (arrivals events))) \<le> MAX_CACHED_BUSES"
  shows "queues_match waiters items (queue_run M L c b q) (events @ [CallArrives c b]) \<and> ok (cq_buses (queue_run M L c b q)) \<and>
    cap (cq_buses (queue_run M L c b q)) = MAX_CACHED_BUSES"
proof -
  let ?xs = "items (cq_buses q)"
  obtain m buses where call: "lru_get_or_insert L b (cq_next_mutex q) (cq_buses q) = (m, buses)" by force
  note law = lru_cache.get_or_insert_law[OF L match(2) call]
  have m: "m = (case map_of ?xs b of None \<Rightarrow> cq_next_mutex q | Some u \<Rightarrow> u)" using law by (auto split: option.splits)
  have room: "length ?xs < cap (cq_buses q)" if "map_of ?xs b = None"
  proof -
    have "dom (map_of ?xs) = snd ` set (arrivals events)" using match(1) by (simp add: queues_match_def)
    then have keys: "fst ` set ?xs = snd ` set (arrivals events)" by (simp add: dom_map_of_conv_image_fst)
    then have "b \<notin> snd ` set (arrivals events)" using that by (metis map_of_eq_None_iff)
    then have "Suc (card (fst ` set ?xs)) \<le> MAX_CACHED_BUSES" using few keys by (simp add: card_insert_if)
    moreover have "card (fst ` set ?xs) = length ?xs"
      using lru_cache.items_ok[OF L match(2)] distinct_card[of "map fst ?xs"] by simp
    ultimately show ?thesis using match(3) by simp
  qed
  have items: "map_of (items buses) = (map_of ?xs)(b \<mapsto> m)"
    using law map_of_inserted_fresh[OF room, of b "cq_next_mutex q"] m by simp
  let ?q = "queue_run M L c b q"
  have q: "cq_buses ?q = buses" "cq_next_mutex ?q = cq_next_mutex q + 1" "cq_calls ?q = (cq_calls q)(c \<mapsto> m)"
    "cq_mutexes ?q = (cq_mutexes q)(m := mx_lock M c (cq_mutexes q m))"
    by (simp_all add: queue_run_def call)
  have lock: "waiters (mx_lock M c (cq_mutexes q m)) = waiters (cq_mutexes q m) @ [c]" by (rule fair_mutex.lock_law[OF M])
  have absent: "bus_queue b' events = []" if "map_of ?xs b' = None" for b'
  proof -
    have "b' \<notin> snd ` set (arrivals events)" using match(1) that unfolding queues_match_def by (metis domIff)
    then show ?thesis using bus_queue_arrived[of _ b' events] by (metis snd_conv image_eqI list.set_sel(1))
  qed
  have here: "waiters (cq_mutexes q m) = bus_queue b events"
    using m match(1) absent[of b] by (auto simp: queues_match_def split: option.splits)
  have other: "m' \<noteq> m" if "map_of ?xs b' = Some m'" "b' \<noteq> b" for b' m'
    using m match(1) that by (auto simp: queues_match_def split: option.splits)
  have below: "m < cq_next_mutex q + 1" using m match(1) by (auto simp: queues_match_def less_Suc_eq split: option.splits)
  have not_in: "c \<notin> set (bus_queue b' events)" for b' using bus_queue_arrived[of c b' events] fresh by force
  have calls: "cq_calls ?q d = Some m' \<longleftrightarrow>
      (\<exists>b'. map_of (items (cq_buses ?q)) b' = Some m' \<and> d \<in> set (bus_queue b' (events @ [CallArrives c b])))" for d m'
  proof (cases "d = c")
    case True
    then show ?thesis using not_in by (auto simp: q items)
  next
    case False
    have "cq_calls q d = Some m' \<longleftrightarrow> (\<exists>b'. map_of ?xs b' = Some m' \<and> d \<in> set (bus_queue b' events))"
      using match(1) by (simp add: queues_match_def)
    moreover have "d \<in> set (bus_queue b events) \<Longrightarrow> map_of ?xs b = Some m"
      using absent[of b] m by (auto split: option.splits)
    moreover have "map_of ?xs b = Some u \<Longrightarrow> m = u" for u using m by simp
    ultimately have "cq_calls q d = Some m' \<longleftrightarrow> (\<exists>b'. ((map_of ?xs)(b \<mapsto> m)) b' = Some m' \<and> d \<in> set (bus_queue b' events))"
      by (metis fun_upd_apply option.inject)
    moreover have "d \<in> set (bus_queue b' (events @ [CallArrives c b])) \<longleftrightarrow> d \<in> set (bus_queue b' events)" for b'
      using False by simp
    ultimately show ?thesis using False unfolding q items by simp
  qed
  have "queues_match waiters items ?q (events @ [CallArrives c b])"
    unfolding queues_match_def
  proof (intro conjI allI impI calls)
    show "dom (map_of (items (cq_buses ?q))) = snd ` set (arrivals (events @ [CallArrives c b]))"
      using match(1) by (simp add: q items queues_match_def)
  next
    fix b' m' assume "map_of (items (cq_buses ?q)) b' = Some m'"
    then show "waiters (cq_mutexes ?q m') = bus_queue b' (events @ [CallArrives c b])" "m' < cq_next_mutex ?q"
      using match(1) other[of b' m'] here lock below by (auto simp: q items queues_match_def less_Suc_eq split: if_splits)
  next
    fix b1 b2 m' assume "map_of (items (cq_buses ?q)) b1 = Some m'" "map_of (items (cq_buses ?q)) b2 = Some m'"
    then show "b1 = b2" using match(1) other by (auto simp: q items queues_match_def split: if_splits)
  next
    fix m' assume "cq_next_mutex ?q \<le> m'"
    then show "waiters (cq_mutexes ?q m') = []" using match(1) below by (auto simp: q queues_match_def)
  qed
  then show ?thesis using law match(3) by (simp add: q)
qed

lemma queues_match_leave:
  assumes M: "fair_mutex M waiters" and match: "queues_match waiters items q events"
  shows "queues_match waiters items (queue_leave M c q) (events @ [CallLeaves c])"
proof (cases "cq_calls q c")
  case None
  then have "c \<notin> set (bus_queue b events)" for b
    using match bus_queue_arrived[of c b events] by (auto simp: queues_match_def) (metis domD image_eqI option.distinct(1) snd_conv)
  then have "filter (\<lambda>d. d \<noteq> c) (bus_queue b events) = bus_queue b events" for b by (auto simp: filter_id_conv)
  then show ?thesis using match None by (simp add: queue_leave_def queues_match_def)
next
  case (Some m)
  then obtain b where b: "map_of (items (cq_buses q)) b = Some m" "c \<in> set (bus_queue b events)"
    using match by (auto simp: queues_match_def)
  have leave: "waiters (mx_leave M c (cq_mutexes q m)) = filter (\<lambda>d. d \<noteq> c) (waiters (cq_mutexes q m))"
    by (rule fair_mutex.leave_law[OF M])
  have only: "map_of (items (cq_buses q)) b' = Some m' \<Longrightarrow> c \<in> set (bus_queue b' events) \<Longrightarrow> m' = m" for b' m'
  proof -
    assume "map_of (items (cq_buses q)) b' = Some m'" "c \<in> set (bus_queue b' events)"
    then have "cq_calls q c = Some m'" using match unfolding queues_match_def by blast
    then show "m' = m" using Some by simp
  qed
  have keep: "filter (\<lambda>d. d \<noteq> c) (bus_queue b' events) = bus_queue b' events" if "map_of (items (cq_buses q)) b' = Some m'" "m' \<noteq> m" for b' m'
    using only[OF that(1)] that(2) by (auto simp: filter_id_conv)
  have calls: "(if d = c then None else cq_calls q d) = Some m' \<longleftrightarrow>
      (\<exists>b'. map_of (items (cq_buses q)) b' = Some m' \<and> d \<noteq> c \<and> d \<in> set (bus_queue b' events))" for d m'
    using match by (auto simp: queues_match_def)
  show ?thesis
    using match leave keep calls
    by (simp add: queue_leave_def Some queues_match_def fun_upd_def conj_commute)
qed

lemma buffering_run_matches:
  assumes M: "fair_mutex M waiters" and L: "lru_cache L items cap ok"
    and "distinct (map fst (arrivals events))" "card (snd ` set (arrivals events)) \<le> MAX_CACHED_BUSES"
  shows "queues_match waiters items (buffering_run M L events) events \<and> ok (cq_buses (buffering_run M L events)) \<and>
    cap (cq_buses (buffering_run M L events)) = MAX_CACHED_BUSES"
  using assms(3,4)
proof (induction events rule: rev_induct)
  case Nil
  have "0 < MAX_CACHED_BUSES" by (simp add: MAX_CACHED_BUSES_def)
  then show ?case
    using lru_cache.new_law[OF L, of MAX_CACHED_BUSES] fair_mutex.new_law[OF M] by (simp add: queues_match_def commit_queue_new_def)
next
  case (snoc e events)
  have "card (snd ` set (arrivals events)) \<le> card (snd ` set (arrivals (events @ [e])))" by (intro card_mono) auto
  then have IH: "queues_match waiters items (buffering_run M L events) events" "ok (cq_buses (buffering_run M L events))"
    "cap (cq_buses (buffering_run M L events)) = MAX_CACHED_BUSES"
    using snoc by simp_all
  show ?case
  proof (cases e)
    case (CallArrives c b)
    then show ?thesis using queues_match_arrival[OF M L IH, of c b] snoc.prems by simp
  next
    case (CallLeaves c)
    then show ?thesis using queues_match_leave[OF M IH(1), of c] IH(2,3) by (simp add: queue_leave_def split: option.split)
  qed
qed

section \<open>Properties\<close>

text \<open>
  C12. While no more buses are in use than the cache holds, the commits of each bus go through one queue: the call inside the inner
  service is exactly the oldest one of its bus still in flight, for every order of arrivals, returns and dropped calls.
\<close>
theorem commits_run_in_order:
  assumes "fair_mutex M waiters" "lru_cache L items cap ok" "distinct (map fst (arrivals events))"
    and "card (snd ` set (arrivals events)) \<le> MAX_CACHED_BUSES"
  shows "in_service M (buffering_run M L events) call \<longleftrightarrow> (\<exists>bus rest. bus_queue bus events = call # rest)"
proof -
  let ?q = "buffering_run M L events"
  have match: "queues_match waiters items ?q events" using buffering_run_matches[OF assms] by simp
  have head: "mx_holder M (cq_mutexes ?q m) = Some call \<longleftrightarrow> (\<exists>rest. bus_queue b events = call # rest)"
    if "map_of (items (cq_buses ?q)) b = Some m" for b m
    using that match fair_mutex.holder_law[OF assms(1)] by (auto simp: queues_match_def split: list.split)
  show ?thesis
  proof
    assume "in_service M ?q call"
    then obtain m where m: "cq_calls ?q call = Some m" "mx_holder M (cq_mutexes ?q m) = Some call"
      by (auto simp: in_service_def split: option.splits)
    from m(1) obtain b where "map_of (items (cq_buses ?q)) b = Some m" using match by (auto simp: queues_match_def)
    from head[OF this] m(2) show "\<exists>bus rest. bus_queue bus events = call # rest" by blast
  next
    assume "\<exists>bus rest. bus_queue bus events = call # rest"
    then obtain b rest where b: "bus_queue b events = call # rest" by blast
    then have "b \<in> snd ` set (arrivals events)" using bus_queue_arrived[of call b events] by force
    then obtain m where m: "map_of (items (cq_buses ?q)) b = Some m" using match unfolding queues_match_def by (metis domD)
    moreover have "cq_calls ?q call = Some m" using match m b by (auto simp: queues_match_def)
    ultimately show "in_service M ?q call" using head[OF m] b by (simp add: in_service_def)
  qed
qed

text \<open>Three calls on one bus and one on another; the second call of the first bus is dropped while it waits.\<close>
definition four_calls :: "buffering_event list" where
  "four_calls = [CallArrives 1 ''a'', CallArrives 2 ''a'', CallArrives 3 ''a'', CallArrives 4 ''b'', CallLeaves 2]"

theorem commits_run_in_order_witness:
  "bus_queue ''a'' four_calls = [1, 3] \<and> in_service list_mutex (buffering_run list_mutex list_lru four_calls) 1 \<and>
   bus_queue ''a'' (four_calls @ [CallLeaves 1]) = [3] \<and>
   in_service list_mutex (buffering_run list_mutex list_lru (four_calls @ [CallLeaves 1])) 3"
proof -
  have few: "card (snd ` set (arrivals four_calls)) \<le> MAX_CACHED_BUSES" "card (snd ` set (arrivals (four_calls @ [CallLeaves 1]))) \<le> MAX_CACHED_BUSES"
    by (simp_all add: four_calls_def MAX_CACHED_BUSES_def)
  have once: "distinct (map fst (arrivals four_calls))" "distinct (map fst (arrivals (four_calls @ [CallLeaves 1])))"
    by (simp_all add: four_calls_def)
  have queues: "bus_queue ''a'' four_calls = [1, 3]" "bus_queue ''a'' (four_calls @ [CallLeaves 1]) = [3]" by code_simp+
  then show ?thesis
    using commits_run_in_order[OF list_mutex.fair_mutex_axioms list_lru.lru_cache_axioms once(1) few(1), of 1]
      commits_run_in_order[OF list_mutex.fair_mutex_axioms list_lru.lru_cache_axioms once(2) few(2), of 3] by blast
qed

end
