(* ===== verification/Bus_Cli.thy ===== *)
theory Bus_Cli
  imports Mailbox Entry_View Llm_Voter Retry
begin

text \<open>
  The command line of the bus (\<open>bus/cli/src/lib.rs\<close>): what it prints for an entry, its commands, the completion of its
  interactive mode, following the tail, and the interactive loop.  Standard output is a string beside the world of the bus; colours,
  the text of \<open>Debug\<close> for a string and of an error, dates, JSON, the upper-case table of Unicode and the packing of \<open>Any\<close> messages are
  parameters.  Standard error and the command history are left out.
\<close>

section \<open>Texts\<close>

record cli_text =
  ct_paint :: "string \<Rightarrow> string \<Rightarrow> string"
  ct_debug :: "string \<Rightarrow> string"
  ct_timestamp :: "int \<Rightarrow> string option"
  ct_render :: "json \<Rightarrow> string"
  ct_upper :: "string \<Rightarrow> string"
  ct_bus_error :: "bus_error \<Rightarrow> string"
  ct_pack :: "llm_voter_config \<Rightarrow> any_message"
  ct_unpack :: "any_message \<Rightarrow> llm_voter_config option"

definition tab :: string where "tab = [CHR 0x09]"

text \<open>The check mark, in UTF-8.\<close>
definition check_mark :: string where "check_mark = [CHR 0xE2, CHR 0x9C, CHR 0x93]"

definition quote :: string where "quote = [CHR 0x27]"

definition line :: "string \<Rightarrow> string" where "line s = s @ newline"

text \<open>\<open>str::lines\<close>: the carriage return goes only where a newline follows it.\<close>
function str_lines :: "string \<Rightarrow> string list" where
  "str_lines s =
     (if s = [] then []
      else let l = takeWhile (\<lambda>c. c \<noteq> CHR 0x0A) s; rest = dropWhile (\<lambda>c. c \<noteq> CHR 0x0A) s in
        if rest = [] then [l]
        else (if l \<noteq> [] \<and> last l = CHR 0x0D then butlast l else l) # str_lines (tl rest))"
  by pat_completeness auto
termination
proof (relation "measure length")
  fix s l rest :: string
  assume "rest = dropWhile (\<lambda>c. c \<noteq> CHR 0x0A) s" "rest \<noteq> []"
  then have "length rest \<le> length s" "length (tl rest) < length rest" by (simp_all add: length_dropWhile_le)
  then show "(tl rest, s) \<in> measure length" by simp
qed simp

declare str_lines.simps [simp del]

definition decider_policy_name :: "int \<Rightarrow> string" where
  "decider_policy_name p =
     (case decider_policy_try_from p of
        Some OffByDefault \<Rightarrow> ''OFF_BY_DEFAULT''
      | Some OnByDefault \<Rightarrow> ''ON_BY_DEFAULT''
      | Some FirstBooleanWins \<Rightarrow> ''FIRST_BOOLEAN_WINS''
      | None \<Rightarrow> ''Unknown'')"

fun voter_config_description :: "cli_text \<Rightarrow> voter_config \<Rightarrow> string" where
  "voter_config_description T (Some (Llm c)) =
     (if prompt_override c = [] then ''llm'' else ''llm(prompt_override='' @ ct_debug T (prompt_override c) @ '')'')"
| "voter_config_description T (Some (RuleBased c)) = ''rule_based(rules='' @ show_nat (length (rbc_rules c)) @ '')''"
| "voter_config_description T (Some (Custom any)) = ''custom(type_url='' @ type_url any @ '')''"
| "voter_config_description T None = ''none''"

definition format_timestamp :: "cli_text \<Rightarrow> int \<Rightarrow> string" where
  "format_timestamp T ms = (case ct_timestamp T ms of Some s \<Rightarrow> s | None \<Rightarrow> show_int ms @ ''ms'')"

definition on_black :: "cli_text \<Rightarrow> string \<Rightarrow> string" where
  "on_black T s = ct_paint T ''white on black'' s"

text \<open>A text shown line by line, indented.\<close>
definition text_lines :: "cli_text \<Rightarrow> string \<Rightarrow> string" where
  "text_lines T s = concat (map (\<lambda>l. line (tab @ on_black T l)) (str_lines s))"

definition optional_config :: "cli_text \<Rightarrow> voter_config option \<Rightarrow> string" where
  "optional_config T c = (case c of Some c \<Rightarrow> voter_config_description T c | None \<Rightarrow> ''none'')"

fun voter_op_text :: "cli_text \<Rightarrow> string \<times> voter_op \<Rightarrow> string" where
  "voter_op_text T (voter_id, Some (AddOp c)) =
     line (tab @ ''- add_voter voter_id='' @ voter_id @ '' config='' @ optional_config T c)"
| "voter_op_text T (voter_id, Some RemoveOp) = line (tab @ ''- remove_voter voter_id='' @ voter_id)"
| "voter_op_text T (voter_id, None) = line (tab @ ''- voter_op voter_id='' @ voter_id @ '' operation=<empty>'')"

definition policy_batch_text :: "cli_text \<Rightarrow> policy_batch \<Rightarrow> string" where
  "policy_batch_text T batch =
     line (tab @ ''PolicyBatch:'') @
     line (tab @ ''- expected_current_version='' @ show_opt_int (pb_expected_current_version batch)) @
     line (tab @ ''- new_version='' @ show_int (pb_new_version batch)) @
     (case pb_decider_policy batch of None \<Rightarrow> [] | Some p \<Rightarrow> line (tab @ ''- decider_policy='' @ decider_policy_name p)) @
     concat (map (voter_op_text T) (sort_key fst (pb_voter_ops batch)))"

definition base_engine_text :: "cli_text \<Rightarrow> base_engine_control \<Rightarrow> string" where
  "base_engine_text T c =
     (case c of
        Some (AddVoter config) \<Rightarrow> line (tab @ ''BaseEngine: add_voter config='' @ optional_config T config)
      | Some (RemoveVoter voter_id) \<Rightarrow> line (tab @ ''BaseEngine: remove_voter voter_id='' @ voter_id)
      | Some (PolicyBatch batch) \<Rightarrow> policy_batch_text T batch
      | None \<Rightarrow> line (tab @ ''BaseEngine: <empty>''))"

definition optional_lines :: "cli_text \<Rightarrow> string option \<Rightarrow> string" where
  "optional_lines T s = (case s of Some s \<Rightarrow> text_lines T s | None \<Rightarrow> line (tab @ ''<unknown>''))"

definition vote_text :: "cli_text \<Rightarrow> vote \<Rightarrow> string" where
  "vote_text T v =
     (let unknown = ct_paint T ''blue'' ''VOTE:'' @ '' intention_id='' @ show_int (vote_intention_id v) @ '', vote='' @ line ''<unknown>''
      in case abstract_vote v of
           Some (Some (BooleanVote b)) \<Rightarrow>
             (let colour = (if b then ''bright green'' else ''red'') in
              ct_paint T colour ''VOTE:'' @ '' intention_id='' @ show_int (vote_intention_id v) @ '', vote='' @
              line (if b then ''true'' else ''false'') @
              (if vote_reason v = [] then [] else line (tab @ ''Reason: '' @ ct_paint T colour (vote_reason v))) @
              (case vote_voter_config v of None \<Rightarrow> [] | Some c \<Rightarrow> line (tab @ ''Config: '' @ voter_config_description T c)))
         | _ \<Rightarrow> unknown)"

definition mail_body :: "mail \<Rightarrow> string" where
  "mail_body m =
     (case mail_content m of
        Some (MailMessage msg) \<Rightarrow> mm_body msg
      | Some (MailReply r) \<Rightarrow> (case mr_message r of Some msg \<Rightarrow> mm_body msg | None \<Rightarrow> [])
      | None \<Rightarrow> [])"

definition payload_text :: "cli_text \<Rightarrow> bus_entry \<Rightarrow> payload_kind \<Rightarrow> string" where
  "payload_text T entry p =
     (case p of
        Intention i \<Rightarrow>
          line (ct_paint T ''bright cyan'' ''INTENTION:'') @
          (case intention_body i of
             Some (StringIntention s) \<Rightarrow> text_lines T s
           | Some (GroupIntention _) \<Rightarrow> line (tab @ on_black T (pe_content (parse_entry (ct_render T) entry)))
           | None \<Rightarrow> line ''<unknown>'')
      | Vote v \<Rightarrow> vote_text T v
      | Commit c \<Rightarrow>
          line (ct_paint T ''bright green'' ''COMMIT:'' @ '' intention_id='' @ show_int (commit_intention_id c)) @
          line (tab @ ''Reason: '' @ ct_paint T ''bright green'' (commit_reason c))
      | Abort a \<Rightarrow>
          line (ct_paint T ''red'' ''ABORT:'' @ '' intention_id='' @ show_int (abort_intention_id a)) @
          line (tab @ ''Reason: '' @ ct_paint T ''red'' (abort_reason a))
      | DeciderPolicy d \<Rightarrow> line (ct_paint T ''yellow'' ''DECIDER_POLICY:'' @ '' '' @ decider_policy_name d)
      | VoterPolicy config \<Rightarrow>
          ct_paint T ''magenta'' ''VOTER_POLICY:'' @
          (case config of
             Some any \<Rightarrow>
               (case ct_unpack T any of
                  Some c \<Rightarrow> line ('' llm(prompt_override='' @ ct_debug T (prompt_override c) @ '')'')
                | None \<Rightarrow> line ('' type='' @ type_url any))
           | None \<Rightarrow> line '' <no config>'')
      | Control c \<Rightarrow>
          line (ct_paint T ''bright magenta'' ''CONTROL:'') @
          (case c of Some (BaseEngineControl base) \<Rightarrow> base_engine_text T base | None \<Rightarrow> line (tab @ ''<unknown>''))
      | InferenceInput s \<Rightarrow> line (ct_paint T ''bright blue'' ''INFERENCE_INPUT:'') @ optional_lines T s
      | InferenceOutput s \<Rightarrow> line (ct_paint T ''bright blue'' ''INFERENCE_OUTPUT:'') @ optional_lines T s
      | ActionOutput ao \<Rightarrow>
          line (ct_paint T ''bright yellow'' ''ACTION_OUTPUT:'' @ '' intention_id='' @ show_int (ao_intention_id ao)) @
          optional_lines T (ao_string_action_output ao)
      | AgentInput s \<Rightarrow> line (ct_paint T ''bright green'' ''AGENT_INPUT:'') @ optional_lines T s
      | AgentOutput s \<Rightarrow> line (ct_paint T ''bright green'' ''AGENT_OUTPUT:'') @ optional_lines T s
      | Mail m \<Rightarrow>
          line (ct_paint T ''bright cyan'' ''MAIL:'' @ '' from='' @ sender_agent_id m) @ line (tab @ on_black T (mail_body m)))"

text \<open>What \<open>print_entry\<close> prints.\<close>
definition entry_text :: "cli_text \<Rightarrow> bus_entry \<Rightarrow> string" where
  "entry_text T entry =
     (let position = (case entry_header entry of Some h \<Rightarrow> log_position h | None \<Rightarrow> 0);
          ts = (case entry_header entry of Some h \<Rightarrow> rt_timestamp_ms h | None \<Rightarrow> 0)
      in (if 0 < ts then ''[Position '' @ show_int position @ '' @ '' @ format_timestamp T ts @ ''] ''
          else ''[Position '' @ show_int position @ ''] '') @
         (case entry_payload entry of
            Some (Some p) \<Rightarrow> payload_text T entry p
          | _ \<Rightarrow> line (ct_paint T ''bright black'' ''UNKNOWN'')))"

section \<open>The commands\<close>

type_synonym 'w console = "'w \<times> string"

definition say :: "string \<Rightarrow> ('w console, 'e, unit) eff" where
  "say s = (\<lambda>(w, out). (Inr (), (w, out @ s)))"

text \<open>An error is the text that \<open>Display\<close> shows for it.\<close>
definition append_payload :: "'w agent_bus \<Rightarrow> string \<Rightarrow> payload_kind \<Rightarrow> (bus_error \<Rightarrow> string) \<Rightarrow> ('w console, string, int) eff" where
  "append_payload B bus_id p context_text =
     map_errE context_text (on_world (bus_append B \<lparr>ar_bus_id = Some bus_id, ar_payload = Some (Some p)\<rparr>))"

definition append_intention :: "'w agent_bus \<Rightarrow> string \<Rightarrow> string \<Rightarrow> ('w console, string, unit) eff" where
  "append_intention B bus_id text =
     bindE (append_payload B bus_id (Intention \<lparr>intention_body = Some (StringIntention text), policy_version_constraint = None\<rparr>)
              (\<lambda>_. ''Failed to append intention'')) (\<lambda>position.
       say (line (check_mark @ '' Intention appended successfully at log position: '' @ show_int position) @
            line (''  Intention: \"'' @ text @ ''\"'') @ line (''  Agent Bus ID: '' @ bus_id)))"

definition parse_policy :: "cli_text \<Rightarrow> string \<Rightarrow> decider_policy option" where
  "parse_policy T s =
     (let u = ct_upper T s in
      if u = ''OFF_BY_DEFAULT'' \<or> u = ''OFF'' then Some OffByDefault
      else if u = ''ON_BY_DEFAULT'' \<or> u = ''ON'' then Some OnByDefault
      else if u = ''FIRST_BOOLEAN_WINS'' \<or> u = ''FIRST'' then Some FirstBooleanWins
      else None)"

definition append_decider_policy :: "cli_text \<Rightarrow> 'w agent_bus \<Rightarrow> string \<Rightarrow> string \<Rightarrow> ('w console, string, unit) eff" where
  "append_decider_policy T B bus_id text =
     (case parse_policy T text of
        None \<Rightarrow> raise (''Invalid decider policy: '' @ text @ ''. Valid options: OFF_BY_DEFAULT, ON_BY_DEFAULT, FIRST_BOOLEAN_WINS'')
      | Some policy \<Rightarrow>
          bindE (append_payload B bus_id (DeciderPolicy (decider_policy_as_i32 policy)) (\<lambda>_. ''Failed to append policy'')) (\<lambda>position.
            say (line (check_mark @ '' Decider policy appended successfully at log position: '' @ show_int position) @
                 line (''  Decider Policy: '' @ text) @ line (''  Agent Bus ID: '' @ bus_id))))"

definition append_voter_policy :: "cli_text \<Rightarrow> 'w agent_bus \<Rightarrow> string \<Rightarrow> string \<Rightarrow> ('w console, string, unit) eff" where
  "append_voter_policy T B bus_id text =
     bindE (append_payload B bus_id (VoterPolicy (Some (ct_pack T \<lparr>prompt_override = text\<rparr>)))
              (\<lambda>e. ''Failed to append voter policy: '' @ ct_bus_error T e)) (\<lambda>position.
       say (line (check_mark @ '' Voter policy appended successfully at log position: '' @ show_int position) @
            line (''  Prompt Override: \"'' @ text @ ''\"'') @ line (''  Agent Bus ID: '' @ bus_id)))"

definition find_end_position :: "'w agent_bus \<Rightarrow> string \<Rightarrow> ('w console, string, int) eff" where
  "find_end_position B bus_id = map_errE (\<lambda>_. ''Failed to check tail'') (on_world (bus_check_tail B (Some bus_id)))"

definition entries_text :: "cli_text \<Rightarrow> bus_entry list \<Rightarrow> string" where
  "entries_text T es = concat (map (entry_text T) es)"

definition poll_entries :: "cli_text \<Rightarrow> 'w agent_bus \<Rightarrow> string \<Rightarrow> int \<Rightarrow> int \<Rightarrow> int option \<Rightarrow> ('w console, string, unit) eff" where
  "poll_entries T B bus_id start_position max_entries end_position =
     bindE (case end_position of Some e \<Rightarrow> ret e | None \<Rightarrow> find_end_position B bus_id) (\<lambda>tail.
     bindE (map_errE (\<lambda>_. ''Failed to read entries'') (on_world (read_range B bus_id start_position tail max_entries None))) (\<lambda>(entries, _).
       say ((if entries = [] then
               line ''No entries found'' @ line (''  Agent Bus ID: '' @ bus_id) @ line (''  Start Position: '' @ show_int start_position)
             else
               entries_text T entries @ newline @ line (check_mark @ '' Retrieved '' @ show_nat (length entries) @ '' entries'') @
               line (''  Agent Bus ID: '' @ bus_id)) @
            line (''  Tail Position: '' @ show_int tail))))"

definition check_tail :: "'w agent_bus \<Rightarrow> string \<Rightarrow> ('w console, string, unit) eff" where
  "check_tail B bus_id = bindE (find_end_position B bus_id) (\<lambda>tail. say (line (''Tail Position: '' @ show_int tail)))"

definition find_tail :: "cli_text \<Rightarrow> 'w agent_bus \<Rightarrow> string \<Rightarrow> int \<Rightarrow> ('w console, string, int) eff" where
  "find_tail T B bus_id tail_n =
     bindE (find_end_position B bus_id) (\<lambda>tail.
     bindE (poll_entries T B bus_id (max (tail - tail_n) 0) tail_n (Some tail)) (\<lambda>_. ret tail))"

text \<open>
  The loop of \<open>tail_follow\<close>; the argument counts the polls that complete before a key is pressed.  A poll that does not return is
  dropped when the key is pressed.
\<close>
fun follow_loop :: "cli_text \<Rightarrow> 'w blocking_poll \<Rightarrow> string \<Rightarrow> nat \<Rightarrow> int \<Rightarrow> 'w console \<Rightarrow> 'w console" where
  "follow_loop T poll bus_id 0 pos (w, out) = (w, out @ newline @ line ''[Exiting follow mode]'')"
| "follow_loop T poll bus_id (Suc polls) pos (w, out) =
     (case poll \<lparr>bp_bus_id = Some bus_id, bp_start_log_position = pos, bp_max_entries = 100, bp_filter = None, bp_timeout_ms = 500\<rparr> w of
        None \<Rightarrow> (w, out @ newline @ line ''[Exiting follow mode]'')
      | Some (Inl e, w') \<Rightarrow> (w', out @ line (''Error polling: '' @ ct_bus_error T e))
      | Some (Inr resp, w') \<Rightarrow>
          follow_loop T poll bus_id polls (if pos < bs_next_start_position resp then bs_next_start_position resp else pos)
            (w', out @ entries_text T (bs_entries resp)))"

definition tail_follow :: "cli_text \<Rightarrow> 'w agent_bus \<Rightarrow> 'w blocking_poll \<Rightarrow> string \<Rightarrow> int \<Rightarrow> nat \<Rightarrow> ('w console, string, unit) eff" where
  "tail_follow T B poll bus_id tail_n polls =
     bindE (find_tail T B bus_id tail_n) (\<lambda>pos.
     bindE (say (newline @ line ''[Following... Press any key to exit]'')) (\<lambda>_.
       modifyE (follow_loop T poll bus_id polls pos)))"

section \<open>Completion\<close>

text \<open>The bytes of the white-space character a text starts with.\<close>
definition white_space_at :: "string \<Rightarrow> nat list option" where
  "white_space_at s = List.find (\<lambda>w. prefix w (map of_char s)) white_space"

text \<open>\<open>split_whitespace\<close>; the first argument counts the bytes left of a white-space character.\<close>
fun split_whitespace_from :: "nat \<Rightarrow> string \<Rightarrow> string \<Rightarrow> string list" where
  "split_whitespace_from k word [] = (if word = [] then [] else [word])"
| "split_whitespace_from (Suc k) word (c # cs) = split_whitespace_from k word cs"
| "split_whitespace_from 0 word (c # cs) =
     (case white_space_at (c # cs) of
        None \<Rightarrow> split_whitespace_from 0 (word @ [c]) cs
      | Some w \<Rightarrow> (if word = [] then [] else [word]) @ split_whitespace_from (length w - 1) [] cs)"

definition split_whitespace :: "string \<Rightarrow> string list" where
  "split_whitespace s = split_whitespace_from 0 [] s"

definition REPL_COMMANDS :: "string list" where
  "REPL_COMMANDS = [''intention'', ''decider-policy'', ''voter-policy'', ''poll'', ''tail'', ''set-id'', ''help'', ''quit'', ''exit'']"

definition DECIDER_POLICIES :: "string list" where
  "DECIDER_POLICIES = [''OFF_BY_DEFAULT'', ''ON_BY_DEFAULT'', ''FIRST_BOOLEAN_WINS'']"

text \<open>\<open>line.rfind(' ').map(|i| i + 1).unwrap_or(0)\<close>\<close>
definition last_word_start :: "string \<Rightarrow> nat" where
  "last_word_start s = length s - length (takeWhile (\<lambda>c. c \<noteq> CHR '' '') (rev s))"

text \<open>The completions of the text before the cursor, and where they replace it.\<close>
definition complete :: "cli_text \<Rightarrow> string \<Rightarrow> nat \<times> string list" where
  "complete T text =
     (let parts = split_whitespace text in
      if parts = [] \<or> length parts = 1 \<and> \<not> (text \<noteq> [] \<and> last text = CHR '' '') then
        let typed = (case parts of [] \<Rightarrow> [] | p # _ \<Rightarrow> p) in
        (length text - length typed, filter (prefix typed) REPL_COMMANDS)
      else if hd parts = ''decider-policy'' \<and> length parts \<le> 2 then
        let typed = ct_upper T (if 1 < length parts then parts ! 1 else []) in
        (last_word_start text, filter (prefix typed) DECIDER_POLICIES)
      else (length text, []))"

section \<open>The interactive loop\<close>

text \<open>\<open>splitn(2, ' ')\<close>\<close>
definition split_command :: "string \<Rightarrow> string \<times> string option" where
  "split_command s =
     (case dropWhile (\<lambda>c. c \<noteq> CHR '' '') s of
        [] \<Rightarrow> (s, None)
      | _ # rest \<Rightarrow> (takeWhile (\<lambda>c. c \<noteq> CHR '' '') s, Some rest))"

text \<open>\<open>str::parse\<close> for a signed integer of the range \<open>lo..=hi\<close>.\<close>
definition parse_int :: "int \<Rightarrow> int \<Rightarrow> string \<Rightarrow> int option" where
  "parse_int lo hi s =
     (case (case s of
              CHR ''-'' # ds \<Rightarrow> (- 1, ds)
            | CHR ''+'' # ds \<Rightarrow> (1, ds)
            | _ \<Rightarrow> (1 :: int, s)) of
        (sign, ds) \<Rightarrow>
          if ds = [] \<or> \<not> set ds \<subseteq> set digit_chars then None
          else let v = sign * int (read_nat ds) in if lo \<le> v \<and> v \<le> hi then Some v else None)"

definition parse_i64 :: "string \<Rightarrow> int option" where
  "parse_i64 = parse_int (- (2 ^ 63)) (2 ^ 63 - 1)"

definition parse_i16 :: "string \<Rightarrow> int option" where
  "parse_i16 = parse_int (- (2 ^ 15)) (2 ^ 15 - 1)"

definition commands_help :: string where
  "commands_help =
     line ''Commands:'' @
     line ''  intention <text>           - Append a new intention'' @
     line ''  decider-policy <policy>    - Append a decider policy (OFF_BY_DEFAULT, ON_BY_DEFAULT, FIRST_BOOLEAN_WINS)'' @
     line ''  voter-policy <text>        - Append a voter policy prompt override'' @
     line ''  poll <start> <limit>       - Poll entries (both parameters required)'' @
     line ''  tail [-f] [n]              - Show last n entries (default: 10), -f to follow'' @
     line ''  set-id <id>                - Change the current agent bus ID'' @
     line ''  help                       - Show this help'' @
     line ''  quit or exit               - Exit REPL''"

text \<open>\<open>match op().await { Ok(()) => {}, Err(e) => println!("Error: {}", e) }\<close>\<close>
definition reporting :: "('w console, string, 'a) eff \<Rightarrow> ('w console, 'e, unit) eff" where
  "reporting m = matchE m (\<lambda>e. say (line (''Error: '' @ e))) (\<lambda>_. ret ())"

text \<open>
  The arguments of \<open>tail\<close>: the number, whether to follow, and what is printed about the others.  The \<open>continue\<close> of an
  argument that is neither goes on to the next argument.
\<close>
fun tail_args :: "string list \<Rightarrow> int \<Rightarrow> bool \<Rightarrow> string \<Rightarrow> int \<times> bool \<times> string" where
  "tail_args [] tail_n follow said = (tail_n, follow, said)"
| "tail_args (arg # args) tail_n follow said =
     (if arg = ''-f'' then tail_args args tail_n True said
      else case parse_i16 arg of
        Some n \<Rightarrow> tail_args args n follow said
      | None \<Rightarrow> tail_args args tail_n follow (said @ line (''Error: invalid argument '' @ quote @ arg @ quote) @ line ''Usage: tail [-f] [n]''))"

definition repl_poll :: "cli_text \<Rightarrow> 'w agent_bus \<Rightarrow> string \<Rightarrow> string option \<Rightarrow> ('w console, 'e, unit) eff" where
  "repl_poll T B bus_id args =
     (let usage = say (line ''Error: poll requires both start and limit parameters'' @ line ''Usage: poll <start> <limit>'') in
      case args of
        None \<Rightarrow> usage
      | Some a \<Rightarrow>
          (case split_whitespace a of
             start_arg # limit_arg # _ \<Rightarrow>
               (case parse_i64 start_arg of
                  None \<Rightarrow> say (line (''Error: invalid start position '' @ quote @ start_arg @ quote))
                | Some start \<Rightarrow>
                    (case parse_i16 limit_arg of
                       None \<Rightarrow> say (line (''Error: invalid limit '' @ quote @ limit_arg @ quote))
                     | Some limit \<Rightarrow> reporting (poll_entries T B bus_id start limit None)))
           | _ \<Rightarrow> usage))"

definition repl_tail :: "cli_text \<Rightarrow> 'w agent_bus \<Rightarrow> 'w blocking_poll \<Rightarrow> nat \<Rightarrow> string \<Rightarrow> string option \<Rightarrow> ('w console, 'e, unit) eff" where
  "repl_tail T B poll polls bus_id args =
     (case tail_args (case args of None \<Rightarrow> [] | Some a \<Rightarrow> split_whitespace a) 10 False [] of
        (tail_n, follow, said) \<Rightarrow>
          bindE (say said) (\<lambda>_.
            if follow then reporting (tail_follow T B poll bus_id tail_n polls)
            else reporting (find_tail T B bus_id tail_n)))"

text \<open>The commands after which the loop goes on with the same bus.\<close>
definition repl_action :: "cli_text \<Rightarrow> 'w agent_bus \<Rightarrow> 'w blocking_poll \<Rightarrow> nat \<Rightarrow> string \<Rightarrow> string \<Rightarrow> string option \<Rightarrow> ('w console, 'e, unit) eff" where
  "repl_action T B poll polls bus_id command args =
     (if command = ''help'' then say commands_help
      else if command = ''set-id'' then say (line ''Error: set-id requires an ID'' @ line ''Usage: set-id <id>'')
      else if command = ''intention'' then
        (case args of
           None \<Rightarrow> say (line ''Error: intention requires a text string'' @ line ''Usage: intention <text>'')
         | Some a \<Rightarrow> reporting (append_intention B bus_id a))
      else if command = ''decider-policy'' then
        (case args of
           None \<Rightarrow> say (line ''Error: decider-policy requires a policy type'' @ line ''Usage: decider-policy <policy>'' @
                       line ''Valid policies: OFF_BY_DEFAULT, ON_BY_DEFAULT, FIRST_BOOLEAN_WINS'')
         | Some a \<Rightarrow> reporting (append_decider_policy T B bus_id a))
      else if command = ''voter-policy'' then
        (case args of
           None \<Rightarrow> say (line ''Error: voter-policy requires a prompt override text'' @ line ''Usage: voter-policy <text>'')
         | Some a \<Rightarrow> reporting (append_voter_policy T B bus_id a))
      else if command = ''poll'' then repl_poll T B bus_id args
      else if command = ''tail'' then repl_tail T B poll polls bus_id args
      else say (line (''Unknown command: '' @ command) @ line (''Type '' @ quote @ ''help'' @ quote @ '' for available commands'')))"

text \<open>A line that is not blank, already trimmed: whether the loop goes on, and the bus it is on.\<close>
definition repl_command :: "cli_text \<Rightarrow> 'w agent_bus \<Rightarrow> 'w blocking_poll \<Rightarrow> nat \<Rightarrow> string \<Rightarrow> string \<Rightarrow> ('w console, 'e, bool \<times> string) eff" where
  "repl_command T B poll polls bus_id text =
     (case split_command text of (command, args) \<Rightarrow>
        if command = ''quit'' \<or> command = ''exit'' then bindE (say (line ''Goodbye!'')) (\<lambda>_. ret (False, bus_id))
        else if command = ''set-id'' \<and> args \<noteq> None then
          bindE (say (line (check_mark @ '' Current agent bus ID set to: '' @ the args))) (\<lambda>_. ret (True, the args))
        else bindE (repl_action T B poll polls bus_id command args) (\<lambda>_. ret (True, bus_id)))"

text \<open>
  What \<open>readline\<close> returns; a line comes with the number of polls that complete before a key is pressed, should it follow a tail.
\<close>
datatype repl_input = InputLine string nat | InputInterrupted | InputEof | InputFails string

text \<open>The loop over the inputs so far: the bus it is on while it waits for more, \<open>None\<close> when it has ended.\<close>
fun repl_loop :: "cli_text \<Rightarrow> 'w agent_bus \<Rightarrow> 'w blocking_poll \<Rightarrow> repl_input list \<Rightarrow> string \<Rightarrow> ('w console, 'e, string option) eff" where
  "repl_loop T B poll [] bus_id = ret (Some bus_id)"
| "repl_loop T B poll (InputInterrupted # inputs) bus_id = bindE (say (line ''^C'')) (\<lambda>_. repl_loop T B poll inputs bus_id)"
| "repl_loop T B poll (InputEof # inputs) bus_id = bindE (say (line ''Goodbye!'')) (\<lambda>_. ret None)"
| "repl_loop T B poll (InputFails e # inputs) bus_id = bindE (say (line (''Error: '' @ e))) (\<lambda>_. ret None)"
| "repl_loop T B poll (InputLine raw polls # inputs) bus_id =
     (let text = str_trim raw in
      if text = [] then repl_loop T B poll inputs bus_id
      else bindE (repl_command T B poll polls bus_id text) (\<lambda>(going, bus_id).
             if going then repl_loop T B poll inputs bus_id else ret None))"

definition run_repl :: "cli_text \<Rightarrow> 'w agent_bus \<Rightarrow> 'w blocking_poll \<Rightarrow> repl_input list \<Rightarrow> string \<Rightarrow> ('w console, 'e, string option) eff" where
  "run_repl T B poll inputs bus_id =
     bindE (say (line ''AgentBus REPL - Interactive Mode'' @ line (''Agent Bus ID: '' @ bus_id) @ line [] @ commands_help @ line [] @
                 line ''Press Tab for autocomplete'' @ line [])) (\<lambda>_.
       repl_loop T B poll inputs bus_id)"

datatype bus_command =
    CmdIntention string
  | CmdDeciderPolicy string
  | CmdVoterPolicy string
  | CmdPoll int int
  | CmdCheckTail
  | CmdRepl

definition bus_cli_run :: "cli_text \<Rightarrow> 'w agent_bus \<Rightarrow> 'w blocking_poll \<Rightarrow> repl_input list \<Rightarrow> string \<Rightarrow> bus_command \<Rightarrow> ('w console, string, unit) eff" where
  "bus_cli_run T B poll inputs bus_id command =
     (case command of
        CmdIntention text \<Rightarrow> append_intention B bus_id text
      | CmdDeciderPolicy text \<Rightarrow> append_decider_policy T B bus_id text
      | CmdVoterPolicy text \<Rightarrow> append_voter_policy T B bus_id text
      | CmdPoll start limit \<Rightarrow> poll_entries T B bus_id start limit None
      | CmdCheckTail \<Rightarrow> check_tail B bus_id
      | CmdRepl \<Rightarrow> bindE (run_repl T B poll inputs bus_id) (\<lambda>_. ret ()))"

section \<open>Backends\<close>

datatype parsed_backend = BackendMemory | BackendHttp string | BackendSqlite string | BackendOther string

text \<open>\<open>str::split_once\<close>, the part before the first occurrence.\<close>
fun before_first :: "string \<Rightarrow> string \<Rightarrow> string option" where
  "before_first sep [] = (if sep = [] then Some [] else None)"
| "before_first sep (c # cs) = (if prefix sep (c # cs) then Some [] else map_option ((#) c) (before_first sep cs))"

definition parse_backend_url :: "string \<Rightarrow> string + parsed_backend" where
  "parse_backend_url url =
     (case before_first ''://'' url of
        None \<Rightarrow> Inl (''Invalid URL '' @ quote @ url @ quote @ '': expected <scheme>://...'')
      | Some scheme \<Rightarrow>
          if scheme = ''memory'' then Inr BackendMemory
          else if scheme = ''http'' \<or> scheme = ''https'' then Inr (BackendHttp url)
          else if scheme = ''sqlite'' then
            (let path = drop (length ''sqlite://'') url in
             if path = [] then Inl ''sqlite:// requires a file path, e.g. sqlite:///abs/path/to/db'' else Inr (BackendSqlite path))
          else Inr (BackendOther url))"

text \<open>\<open>factory.build\<close> opens the backend or fails with a text.\<close>
definition run_agentbus_url_with_factory ::
  "(parsed_backend \<Rightarrow> string + 'w agent_bus \<times> 'w blocking_poll) \<Rightarrow> cli_text \<Rightarrow> repl_input list \<Rightarrow> string \<Rightarrow> string \<Rightarrow> bus_command
     \<Rightarrow> ('w console, string, unit) eff" where
  "run_agentbus_url_with_factory build T inputs url bus_id command =
     bindE (liftR (parse_backend_url url)) (\<lambda>backend.
       if backend = BackendMemory then
         raise ''memory:// is not supported by the AgentBus CLI. Use sqlite:///abs/path/to/db for local testing.''
       else bindE (liftR (build backend)) (\<lambda>(B, poll). bus_cli_run T B poll inputs bus_id command))"

section \<open>What the commands do\<close>

text \<open>The payload a command appends, and what it prints when the payload is at a position.\<close>
fun command_payload :: "cli_text \<Rightarrow> bus_command \<Rightarrow> payload_kind option" where
  "command_payload T (CmdIntention text) =
     Some (Intention \<lparr>intention_body = Some (StringIntention text), policy_version_constraint = None\<rparr>)"
| "command_payload T (CmdDeciderPolicy text) = map_option (\<lambda>p. DeciderPolicy (decider_policy_as_i32 p)) (parse_policy T text)"
| "command_payload T (CmdVoterPolicy text) = Some (VoterPolicy (Some (ct_pack T \<lparr>prompt_override = text\<rparr>)))"
| "command_payload T _ = None"

fun receipt :: "bus_command \<Rightarrow> string \<Rightarrow> int \<Rightarrow> string" where
  "receipt (CmdIntention text) bus_id position =
     line (check_mark @ '' Intention appended successfully at log position: '' @ show_int position) @
     line (''  Intention: \"'' @ text @ ''\"'') @ line (''  Agent Bus ID: '' @ bus_id)"
| "receipt (CmdDeciderPolicy text) bus_id position =
     line (check_mark @ '' Decider policy appended successfully at log position: '' @ show_int position) @
     line (''  Decider Policy: '' @ text) @ line (''  Agent Bus ID: '' @ bus_id)"
| "receipt (CmdVoterPolicy text) bus_id position =
     line (check_mark @ '' Voter policy appended successfully at log position: '' @ show_int position) @
     line (''  Prompt Override: \"'' @ text @ ''\"'') @ line (''  Agent Bus ID: '' @ bus_id)"
| "receipt _ bus_id position = []"

lemma append_run:
  assumes "command_payload T cmd = Some p" "bus_cli_run T B poll inputs b cmd (w, out) = (Inr (), (w', out'))"
  obtains position where "bus_append B \<lparr>ar_bus_id = Some b, ar_payload = Some (Some p)\<rparr> w = (Inr position, w')"
    "out' = out @ receipt cmd b position"
  using assms
  by (cases cmd)
    (auto simp: bus_cli_run_def append_intention_def append_decider_policy_def append_voter_policy_def append_payload_def say_def eff_defs
      on_world_def split: prod.splits sum.splits option.splits)

text \<open>What \<open>poll_entries\<close> prints.\<close>
definition listing :: "cli_text \<Rightarrow> string \<Rightarrow> int \<Rightarrow> int \<Rightarrow> bus_entry list \<Rightarrow> string" where
  "listing T bus_id start tail entries =
     (if entries = [] then
        line ''No entries found'' @ line (''  Agent Bus ID: '' @ bus_id) @ line (''  Start Position: '' @ show_int start)
      else
        entries_text T entries @ newline @ line (check_mark @ '' Retrieved '' @ show_nat (length entries) @ '' entries'') @
        line (''  Agent Bus ID: '' @ bus_id)) @
     line (''  Tail Position: '' @ show_int tail)"

lemma poll_entries_run:
  assumes "poll_entries T B b start n (Some t) (w, out) = (Inr (), (w', out'))"
  obtains es c where "read_range B b start t n None w = (Inr (es, c), w')" "out' = out @ listing T b start t es"
  using assms
  by (auto simp: poll_entries_def listing_def say_def eff_defs on_world_def split: prod.splits sum.splits)

lemma find_tail_run:
  assumes "find_tail T B b n (w, out) = (Inr t, (w', out'))"
  obtains w1 es c where "bus_check_tail B (Some b) w = (Inr t, w1)"
    "read_range B b (max (t - n) 0) t n None w1 = (Inr (es, c), w')" "out' = out @ listing T b (max (t - n) 0) t es"
proof -
  obtain w1 where tail: "bus_check_tail B (Some b) w = (Inr t, w1)"
    and rest: "poll_entries T B b (max (t - n) 0) n (Some t) (w1, out) = (Inr (), (w', out'))"
    using assms by (auto simp: find_tail_def find_end_position_def eff_defs on_world_def split: prod.splits sum.splits)
  from poll_entries_run[OF rest] that[OF tail] show ?thesis by blast
qed

text \<open>Every entry of a log has a payload, so a read without a filter leaves none out.\<close>
lemma unfiltered:
  assumes "well_numbered es"
  shows "filter (entry_matches None) (segment es a b) = segment es a b"
proof -
  have "entry_matches None e" if "e \<in> set es" for e
    using that assms by (fastforce simp: well_numbered_def in_set_conv_nth entry_matches_def)
  moreover have "set (segment es a b) \<subseteq> set es"
    by (auto simp: segment_def dest: in_set_takeD in_set_dropD)
  ultimately show ?thesis by (auto simp: filter_id_conv)
qed

context log_bus
begin

text \<open>The last entries: exactly those between the start and the tail the command saw.\<close>
lemma find_tail_shows:
  assumes "inv w" "0 < n" "n < 2 ^ 15" "find_tail T B b n (w, out) = (Inr t, (w', out'))"
  shows "out' = out @ listing T b (max (t - n) 0) t (segment (log w' b) (max (t - n) 0) t) \<and>
    int (length (log w b)) \<le> t \<and> t \<le> int (length (log w' b)) \<and> evolves w w'"
proof -
  from find_tail_run[OF assms(4)] obtain w1 es c where tail: "bus_check_tail B (Some b) w = (Inr t, w1)"
    and read: "read_range B b (max (t - n) 0) t n None w1 = (Inr (es, c), w')"
    and out: "out' = out @ listing T b (max (t - n) 0) t es" .
  have e1: "evolves w w1" using movesD[OF tail_evolves tail] .
  have i1: "inv w1" using evolves_inv[OF e1 assms(1)] .
  have e2: "evolves w1 w'" using movesD[OF read_range_loop_evolves read[unfolded read_range_def]] .
  have t: "int (length (log w b)) \<le> t" "t \<le> int (length (log w1 b))" using tail_law[OF assms(1) tail] by auto
  have range: "0 \<le> max (t - n) 0" "max (t - n) 0 \<le> t" "n < 2 ^ 31" using t assms(2,3) by auto
  note sound = read_range_sound[OF i1 range(1,2) t(2) assms(2) range(3) read, unfolded unfiltered[OF log_numbered[OF i1]]]
  have "c = t"
  proof (rule ccontr)
    assume "c \<noteq> t"
    then have "int (length es) = n" "c < t" using sound(2,5) by auto
    moreover have "int (length es) = c - max (t - n) 0"
      using segment_length[of "max (t - n) 0" c "log w1 b"] sound(1,2,3) range(1) t(2) by simp
    ultimately show False by (simp split: if_splits)
  qed
  moreover have "segment (log w' b) (max (t - n) 0) t = segment (log w1 b) (max (t - n) 0) t"
    using segment_prefix[OF evolves_log[OF e2 i1] t(2)] .
  moreover have "t \<le> int (length (log w' b))" using t(2) evolves_inv_log(3)[OF i1 e2, of b] by linarith
  ultimately show ?thesis using sound(3) out t(1) evolves_trans[OF e1 e2] by simp
qed

end

definition follow_ending :: "cli_text \<Rightarrow> string \<Rightarrow> bool" where
  "follow_ending T s \<longleftrightarrow> s = newline @ line ''[Exiting follow mode]'' \<or> (\<exists>e. s = line (''Error polling: '' @ ct_bus_error T e))"

lemma entries_text_append [simp]: "entries_text T (xs @ ys) = entries_text T xs @ entries_text T ys" "entries_text T [] = []"
  by (simp_all add: entries_text_def)

context polled_log
begin

text \<open>Following prints the log from the position on, without gap or repetition.\<close>
lemma follow_shows:
  assumes "inv w" "0 \<le> pos" "pos \<le> int (length (log w b))" "follow_loop T poll b polls pos (w, out) = (w', out')"
  shows "\<exists>e s. pos \<le> e \<and> e \<le> int (length (log w' b)) \<and> out' = out @ entries_text T (segment (log w' b) pos e) @ s \<and> follow_ending T s \<and> evolves w w'"
  using assms
proof (induction polls arbitrary: pos w out)
  case 0
  then show ?case by (intro exI[of _ pos]) (auto simp: follow_ending_def evolves_refl)
next
  case (Suc polls)
  let ?req = "\<lparr>bp_bus_id = Some b, bp_start_log_position = pos, bp_max_entries = 100, bp_filter = None, bp_timeout_ms = 500\<rparr>"
  consider (never) "poll ?req w = None" | (error) e w1 where "poll ?req w = Some (Inl e, w1)"
    | (entries) resp w1 where "poll ?req w = Some (Inr resp, w1)"
    by (cases "poll ?req w") (auto, metis sum.exhaust)
  then show ?case
  proof cases
    case never
    then show ?thesis using Suc.prems by (intro exI[of _ pos]) (auto simp: follow_ending_def evolves_refl)
  next
    case error
    have "evolves w w1" using poll_law[OF error] by (simp add: polled_def)
    moreover have "w' = w1" "out' = out @ line (''Error polling: '' @ ct_bus_error T e)" using Suc.prems(4) error by simp_all
    moreover have "pos \<le> int (length (log w1 b))"
      using Suc.prems(3) evolves_inv_log(3)[OF Suc.prems(1) \<open>evolves w w1\<close>, of b] by linarith
    ultimately show ?thesis by (intro exI[of _ pos]) (auto simp: follow_ending_def)
  next
    case entries
    let ?n = "bs_next_start_position resp"
    have e1: "evolves w w1" and law: "pos \<le> ?n" "?n \<le> int (length (log w1 b))" "bs_entries resp = segment (log w1 b) pos ?n"
      using poll_law[OF entries] Suc.prems(1-3) unfiltered[OF log_numbered[OF evolves_inv[OF _ Suc.prems(1)]]]
      by (simp_all add: polled_def)
    have i1: "inv w1" using evolves_inv[OF e1 Suc.prems(1)] .
    have next_pos: "(if pos < ?n then ?n else pos) = ?n" using law(1) by simp
    have "follow_loop T poll b polls ?n (w1, out @ entries_text T (bs_entries resp)) = (w', out')"
      using Suc.prems(4) entries next_pos by simp
    from Suc.IH[OF i1 _ law(2) this] law(1) Suc.prems(2) obtain e s where
      e: "?n \<le> e" "e \<le> int (length (log w' b))" "out' = (out @ entries_text T (bs_entries resp)) @ entries_text T (segment (log w' b) ?n e) @ s"
      "follow_ending T s" "evolves w1 w'" by auto
    have "segment (log w' b) pos ?n = segment (log w1 b) pos ?n" using segment_prefix[OF evolves_log[OF e(5) i1] law(2)] .
    then have "segment (log w' b) pos e = bs_entries resp @ segment (log w' b) ?n e"
      using segment_append[of pos ?n e "log w' b"] Suc.prems(2) law(1,3) e(1) by simp
    then show ?thesis using e law(1) evolves_trans[OF e1 e(5)] by (intro exI[of _ e] exI[of _ s]) auto
  qed
qed

end

section \<open>What the interactive loop does to the bus\<close>

text \<open>The payload a line appends.\<close>
definition line_payload :: "cli_text \<Rightarrow> string \<Rightarrow> string option \<Rightarrow> payload_kind option" where
  "line_payload T command args =
     (case args of
        None \<Rightarrow> None
      | Some a \<Rightarrow>
          if command = ''intention'' then command_payload T (CmdIntention a)
          else if command = ''decider-policy'' then command_payload T (CmdDeciderPolicy a)
          else if command = ''voter-policy'' then command_payload T (CmdVoterPolicy a)
          else None)"

text \<open>The appends of a session, with the bus each goes to.\<close>
fun session_appends :: "cli_text \<Rightarrow> repl_input list \<Rightarrow> string \<Rightarrow> (string \<times> payload_kind) list" where
  "session_appends T [] bus_id = []"
| "session_appends T (InputInterrupted # inputs) bus_id = session_appends T inputs bus_id"
| "session_appends T (InputEof # inputs) bus_id = []"
| "session_appends T (InputFails e # inputs) bus_id = []"
| "session_appends T (InputLine raw polls # inputs) bus_id =
     (case split_command (str_trim raw) of (command, args) \<Rightarrow>
        if str_trim raw = [] then session_appends T inputs bus_id
        else if command = ''quit'' \<or> command = ''exit'' then []
        else if command = ''set-id'' \<and> args \<noteq> None then session_appends T inputs (the args)
        else (case line_payload T command args of None \<Rightarrow> [] | Some p \<Rightarrow> [(bus_id, p)]) @ session_appends T inputs bus_id)"

definition append_each :: "'w agent_bus \<Rightarrow> (string \<times> payload_kind) list \<Rightarrow> 'w \<Rightarrow> 'w" where
  "append_each B appends w = foldl (\<lambda>w (b, p). snd (bus_append B \<lparr>ar_bus_id = Some b, ar_payload = Some (Some p)\<rparr> w)) w appends"

text \<open>A bus that reads leave as it is.\<close>
definition reads_only :: "'w agent_bus \<Rightarrow> 'w blocking_poll \<Rightarrow> bool" where
  "reads_only B poll \<longleftrightarrow> (\<forall>b. moves (=) (bus_check_tail B b)) \<and> (\<forall>req. moves (=) (bus_read_next B req)) \<and>
     (\<forall>req w r w'. poll req w = Some (r, w') \<longrightarrow> w' = w)"

definition same_world :: "'w console \<Rightarrow> 'w console \<Rightarrow> bool" where
  "same_world s s' \<longleftrightarrow> fst s' = fst s"

lemma same_world_rt: "reflp same_world" "transp same_world"
  by (auto simp: same_world_def reflp_def transp_def)

lemma same_world_on_world: "moves (=) m \<Longrightarrow> moves same_world (on_world m)"
  by (auto simp: moves_def same_world_def on_world_def split: prod.split) (metis snd_conv)

lemma same_world_say: "moves same_world (say s)"
  by (auto simp: moves_def same_world_def say_def split: prod.split)

lemma follow_loop_same: "reads_only B poll \<Longrightarrow> fst (follow_loop T poll b polls pos (w, out)) = w"
proof (induction polls arbitrary: pos w out)
  case (Suc polls)
  then show ?case
    by (auto simp: reads_only_def split: option.split prod.split sum.split)
qed simp

lemmas same_world_steps = moves_bindE moves_matchE moves_map_errE moves_ret same_world_rt same_world_say same_world_on_world

lemma reading_commands_same:
  assumes "reads_only B poll"
  shows "moves same_world (find_end_position B b)" "moves same_world (poll_entries T B b start n e)"
    "moves same_world (find_tail T B b n)" "moves same_world (tail_follow T B poll b n polls)"
proof -
  have tail: "moves (=) (bus_check_tail B (Some b))" and read: "moves (=) (bus_read_next B req)" for req
    using assms by (simp_all add: reads_only_def)
  have range: "moves (=) (read_range B b start stop k flt)" for start stop k flt
    unfolding read_range_def by (rule moves_read_range_loop) (simp_all add: reflp_def transp_def read)
  show e: "moves same_world (find_end_position B b)"
    unfolding find_end_position_def by (intro same_world_steps tail)
  show p: "moves same_world (poll_entries T B b start n e)" for start n e
    unfolding poll_entries_def by (intro same_world_steps range; auto split: option.split intro: same_world_steps e)
  show t: "moves same_world (find_tail T B b n)"
    unfolding find_tail_def by (intro same_world_steps e p)
  have "moves same_world (modifyE (follow_loop T poll b polls pos))" for pos
    using follow_loop_same[OF assms] by (auto simp: moves_def same_world_def modifyE_def)
  then show "moves same_world (tail_follow T B poll b n polls)"
    unfolding tail_follow_def by (intro same_world_steps t)
qed

lemma reporting_same: "moves same_world m \<Longrightarrow> moves same_world (reporting m)"
  unfolding reporting_def by (intro same_world_steps)

text \<open>A computation that succeeds and leaves the bus alone.\<close>
definition quiet :: "('w console, 'e, 'a) eff \<Rightarrow> bool" where
  "quiet m \<longleftrightarrow> moves same_world m \<and> (\<forall>s. \<exists>x. fst (m s) = Inr x)"

lemma quiet_say: "quiet (say s)"
  using same_world_say by (auto simp: quiet_def say_def)

lemma reporting_ok: "fst (reporting m s) = Inr ()"
  by (cases s) (auto simp: reporting_def say_def eff_defs split: prod.split sum.split)

lemma quiet_reporting: "moves same_world m \<Longrightarrow> quiet (reporting m)"
  using reporting_same reporting_ok by (auto simp: quiet_def)

lemma quiet_bindE: "quiet m \<Longrightarrow> (\<And>x. quiet (f x)) \<Longrightarrow> quiet (bindE m f)"
  unfolding quiet_def by (intro conjI same_world_steps allI) (auto simp: bindE_def split: prod.split sum.split, metis fst_conv sum.distinct(1))

lemma quiet_reading:
  assumes "reads_only B poll"
  shows "quiet (repl_poll T B b args)" "quiet (repl_tail T B poll polls b args)"
proof -
  show "quiet (repl_poll T B b args)"
    unfolding repl_poll_def Let_def
    by (auto split: option.split list.split intro: quiet_say quiet_reporting reading_commands_same[OF assms])
  show "quiet (repl_tail T B poll polls b args)"
    unfolding repl_tail_def
    by (auto split: prod.split intro!: quiet_bindE quiet_say quiet_reporting reading_commands_same[OF assms])
qed

lemma go_on:
  assumes "bindE m (\<lambda>_. ret (True, b)) (w, out) = (r, (w', out'))" "\<exists>x. fst (m (w, out)) = Inr x"
  shows "r = Inr (True, b) \<and> w' = fst (snd (m (w, out)))"
  using assms by (auto simp: eff_defs split: prod.splits sum.splits)

lemma go_on_quiet: "bindE m (\<lambda>_. ret (True, b)) (w, out) = (r, (w', out')) \<Longrightarrow> quiet m \<Longrightarrow> r = Inr (True, b) \<and> w' = w"
  using go_on[of m b w out r w' out'] by (simp add: quiet_def moves_def same_world_def)

lemma append_commands_effect:
  defines "each \<equiv> \<lambda>B b p w. append_each B (case p of None \<Rightarrow> [] | Some p \<Rightarrow> [(b, p)]) w"
  shows "fst (snd (reporting (append_intention B b a) (w, out))) =
      each B b (Some (Intention \<lparr>intention_body = Some (StringIntention a), policy_version_constraint = None\<rparr>)) w"
    "fst (snd (reporting (append_decider_policy T B b a) (w, out))) = each B b (command_payload T (CmdDeciderPolicy a)) w"
    "fst (snd (reporting (append_voter_policy T B b a) (w, out))) = each B b (command_payload T (CmdVoterPolicy a)) w"
  by (auto simp: each_def append_each_def reporting_def append_intention_def append_decider_policy_def append_voter_policy_def
      append_payload_def say_def eff_defs on_world_def split: prod.split sum.split option.split)

lemma repl_action_quiet:
  assumes "reads_only B poll" "args = None \<or> command \<noteq> ''intention'' \<and> command \<noteq> ''decider-policy'' \<and> command \<noteq> ''voter-policy''"
  shows "quiet (repl_action T B poll polls b command args)"
  using assms(2) unfolding repl_action_def
  by (elim disjE) (simp_all add: quiet_say quiet_reading[OF assms(1)])

lemma repl_action_effect:
  fixes action :: "('w console, 'e, unit) eff"
  assumes action_def: "action = repl_action T B poll polls b command args" and "reads_only B poll"
  shows "(\<exists>x. fst (action (w, out)) = Inr x) \<and>
    fst (snd (action (w, out))) =
      append_each B (case line_payload T command args of None \<Rightarrow> [] | Some p \<Rightarrow> [(b, p)]) w"
proof (cases "args = None \<or> command \<noteq> ''intention'' \<and> command \<noteq> ''decider-policy'' \<and> command \<noteq> ''voter-policy''")
  case True
  then have "line_payload T command args = None" by (cases args) (simp_all add: line_payload_def)
  moreover have "quiet action" unfolding action_def by (rule repl_action_quiet[OF assms(2) True])
  ultimately show ?thesis by (simp add: quiet_def moves_def same_world_def append_each_def)
next
  case False
  then obtain a where a: "args = Some a" "command = ''intention'' \<or> command = ''decider-policy'' \<or> command = ''voter-policy''" by auto
  from a(2) show ?thesis
    by (elim disjE) (simp_all add: action_def a(1) repl_action_def line_payload_def append_commands_effect reporting_ok)
qed

lemma repl_command_effect:
  assumes "reads_only B poll" "repl_command T B poll polls b text (w, out) = (r, (w', out'))" "split_command text = (command, args)"
  shows "if command = ''quit'' \<or> command = ''exit'' then r = Inr (False, b) \<and> w' = w
    else if command = ''set-id'' \<and> args \<noteq> None then r = Inr (True, the args) \<and> w' = w
    else r = Inr (True, b) \<and> w' = append_each B (case line_payload T command args of None \<Rightarrow> [] | Some p \<Rightarrow> [(b, p)]) w"
proof -
  consider (quit) "command = ''quit'' \<or> command = ''exit''" | (set_id) "\<not> (command = ''quit'' \<or> command = ''exit'')" "command = ''set-id'' \<and> args \<noteq> None"
    | (action) "\<not> (command = ''quit'' \<or> command = ''exit'')" "\<not> (command = ''set-id'' \<and> args \<noteq> None)" by blast
  then show ?thesis
  proof cases
    case quit
    then show ?thesis using assms(2) unfolding repl_command_def assms(3) by (simp add: say_def eff_defs)
  next
    case set_id
    then show ?thesis using assms(2) unfolding repl_command_def assms(3) by (simp add: say_def eff_defs)
  next
    case action
    have "bindE (repl_action T B poll polls b command args) (\<lambda>_. ret (True, b)) (w, out) = (r, (w', out'))"
      using assms(2) action unfolding repl_command_def assms(3) by (simp only: prod.case if_False)
    from go_on[OF this] repl_action_effect[OF refl assms(1)] action show ?thesis by (simp only: if_False) blast
  qed
qed

lemma session_appends_line:
  assumes "split_command (str_trim raw) = (command, args)" "str_trim raw \<noteq> []"
  shows "session_appends T (InputLine raw polls # inputs) b =
    (if command = ''quit'' \<or> command = ''exit'' then []
     else if command = ''set-id'' \<and> args \<noteq> None then session_appends T inputs (the args)
     else (case line_payload T command args of None \<Rightarrow> [] | Some p \<Rightarrow> [(b, p)]) @ session_appends T inputs b)"
  using assms by simp

lemma repl_loop_effect:
  fixes r :: "'e + string option"
  assumes "reads_only B poll" "repl_loop T B poll inputs b (w, out) = (r, (w', out'))"
  shows "w' = append_each B (session_appends T inputs b) w"
  using assms(2)
proof (induction inputs arbitrary: b w out)
  case Nil
  then show ?case by (simp add: append_each_def ret_def)
next
  case (Cons i inputs)
  have cat: "append_each B (xs @ ys) w = append_each B ys (append_each B xs w)" for xs ys w by (simp add: append_each_def)
  show ?case
  proof (cases i)
    case (InputLine raw polls)
    obtain command args where split: "split_command (str_trim raw) = (command, args)" by fastforce
    show ?thesis
    proof (cases "str_trim raw = []")
      case True
      then show ?thesis using Cons InputLine split by (simp add: Let_def)
    next
      case False
      obtain r1 :: "'e + bool \<times> string" and w1 out1 where cmd: "repl_command T B poll polls b (str_trim raw) (w, out) = (r1, (w1, out1))" by (metis prod.exhaust)
      have run: "(case r1 of Inl e \<Rightarrow> (Inl e, (w1, out1)) | Inr (going, c) \<Rightarrow> (if going then repl_loop T B poll inputs c else ret None) (w1, out1)) =
          (r, (w', out'))"
        using Cons.prems False cmd by (cases r1) (auto simp: InputLine Let_def bindE_def)
      note effect = repl_command_effect[OF assms(1) cmd split]
      consider (quit) "command = ''quit'' \<or> command = ''exit''" | (set_id) "\<not> (command = ''quit'' \<or> command = ''exit'')" "command = ''set-id'' \<and> args \<noteq> None"
        | (action) "\<not> (command = ''quit'' \<or> command = ''exit'')" "\<not> (command = ''set-id'' \<and> args \<noteq> None)" by blast
      then show ?thesis
      proof cases
        case quit
        then have "r1 = Inr (False, b)" "w1 = w" using effect by (simp_all only: if_True)
        then show ?thesis using run quit unfolding InputLine session_appends_line[OF split False] by (simp add: ret_def append_each_def)
      next
        case set_id
        then have "r1 = Inr (True, the args)" "w1 = w" using effect by simp_all
        then show ?thesis using run Cons.IH set_id unfolding InputLine session_appends_line[OF split False] by simp
      next
        case action
        then have "r1 = Inr (True, b)" "w1 = append_each B (case line_payload T command args of None \<Rightarrow> [] | Some p \<Rightarrow> [(b, p)]) w"
          using effect by (simp_all only: if_False)
        then show ?thesis using run Cons.IH action unfolding InputLine session_appends_line[OF split False] by (simp only: if_False cat) simp
      qed
    qed
  qed (use Cons in \<open>auto simp: say_def eff_defs append_each_def\<close>)
qed

section \<open>Properties\<close>

text \<open>
  What the command line reports is in the log: when an appending command succeeds, on any bus and whatever other clients append,
  its payload is on the log at exactly the position it prints, beyond the entries there before.
\<close>
theorem reported_append_is_logged:
  assumes "log_bus B log ok evolves" "ok w" "command_payload T cmd = Some p"
    and "bus_cli_run T B poll inputs b cmd (w, out) = (Inr (), (w', out'))"
  shows "\<exists>position. out' = out @ receipt cmd b position \<and> int (length (log w b)) \<le> position \<and>
    position < int (length (log w' b)) \<and> entry_payload (log w' b ! nat position) = Some (Some p)"
proof -
  from append_run[OF assms(3,4)] obtain position where
    append: "bus_append B \<lparr>ar_bus_id = Some b, ar_payload = Some (Some p)\<rparr> w = (Inr position, w')" and out: "out' = out @ receipt cmd b position" .
  from log_bus.append_law[OF assms(1,2) append] out show ?thesis by blast
qed

text \<open>
  C20. \<open>tail -f n\<close> shows a contiguous part of the log: the last \<open>n\<close> entries before the tail it found, then every entry from there up to
  the point where it stopped, each once and in order, whatever is appended in between.
\<close>
theorem tail_follow_shows_log:
  assumes "polled_log B log ok evolves poll" "ok w" "0 < n" "n < 2 ^ 15"
    and "tail_follow T B poll b n polls (w, out) = (Inr (), (w', out'))"
  shows "\<exists>t e ending. 0 \<le> t \<and> t \<le> e \<and> e \<le> int (length (log w' b)) \<and> follow_ending T ending \<and>
    out' = out @ listing T b (max (t - n) 0) t (segment (log w' b) (max (t - n) 0) t) @
      newline @ line ''[Following... Press any key to exit]'' @ entries_text T (segment (log w' b) t e) @ ending"
proof -
  have B: "log_bus B log ok evolves" using assms(1) by (rule polled_log.axioms(1))
  let ?say = "newline @ line ''[Following... Press any key to exit]''"
  obtain t w1 out1 where tail: "find_tail T B b n (w, out) = (Inr t, (w1, out1))"
    and rest: "follow_loop T poll b polls t (w1, out1 @ ?say) = (w', out')"
    using assms(5) by (auto simp: tail_follow_def say_def eff_defs split: prod.splits sum.splits)
  from log_bus.find_tail_shows[OF B assms(2-4) tail]
  have out1: "out1 = out @ listing T b (max (t - n) 0) t (segment (log w1 b) (max (t - n) 0) t)"
    and t: "int (length (log w b)) \<le> t" "t \<le> int (length (log w1 b))" and e1: "evolves w w1" by auto
  have i1: "ok w1" using log_bus.evolves_inv[OF B e1 assms(2)] .
  have "0 \<le> t" using t(1) by linarith
  from polled_log.follow_shows[OF assms(1) i1 this t(2) rest] obtain e s where
    e: "t \<le> e" "e \<le> int (length (log w' b))" "out' = (out1 @ ?say) @ entries_text T (segment (log w' b) t e) @ s" "follow_ending T s" "evolves w1 w'"
    by blast
  have "segment (log w' b) (max (t - n) 0) t = segment (log w1 b) (max (t - n) 0) t"
    using segment_prefix[OF log_bus.evolves_log[OF B e(5) i1] t(2)] .
  then show ?thesis using e out1 \<open>0 \<le> t\<close> by (intro exI[of _ t] exI[of _ e] exI[of _ s]) simp
qed

text \<open>
  C21. An interactive session writes to the bus exactly the payloads of its \<open>intention\<close>, \<open>decider-policy\<close> and \<open>voter-policy\<close> lines, in
  order, each on the bus last chosen by \<open>set-id\<close>, up to the line that ends it; no other line writes anything.
\<close>
theorem session_writes_its_appends:
  fixes r :: "'e + string option"
  assumes "reads_only B poll" "run_repl T B poll inputs b (w, out) = (r, (w', out'))"
  shows "w' = append_each B (session_appends T inputs b) w"
proof -
  from assms(2) obtain out1 where "repl_loop T B poll inputs b (w, out1) = (r, (w', out'))"
    by (auto simp: run_repl_def say_def eff_defs split: prod.splits sum.splits)
  then show ?thesis by (rule repl_loop_effect[OF assms(1)])
qed

text \<open>
  In the interactive mode an argument of \<open>tail\<close> that is neither \<open>-f\<close> nor a number is reported and the command then runs as if the
  argument had not been there.
\<close>
theorem tail_runs_after_bad_argument:
  assumes "split_whitespace args = [arg]" "arg \<noteq> ''-f''" "parse_i16 arg = None"
  shows "repl_tail T B poll polls b (Some args) =
    bindE (say (line (''Error: invalid argument '' @ quote @ arg @ quote) @ line ''Usage: tail [-f] [n]'')) (\<lambda>_. reporting (find_tail T B b 10))"
  using assms by (simp add: repl_tail_def)

lemma parse_int_show:
  assumes "lo \<le> i" "i \<le> hi"
  shows "parse_int lo hi (show_int i) = Some i"
proof -
  have digits: "set (show_nat n) \<subseteq> set digit_chars" "show_nat n \<noteq> []" for n using show_nat_digits by simp_all
  show ?thesis
  proof (cases "i < 0")
    case True
    then show ?thesis using assms digits by (simp add: show_int_def parse_int_def)
  next
    case False
    obtain c cs where n: "show_nat (nat i) = c # cs" using digits(2) by (cases "show_nat (nat i)") auto
    then have "c \<in> set digit_chars" using digits(1)[of "nat i"] by auto
    then have "c \<noteq> CHR ''-''" "c \<noteq> CHR ''+''" by (auto simp: digit_chars_def)
    then have "(case c # cs of CHR ''-'' # ds \<Rightarrow> (- 1 :: int, ds) | CHR ''+'' # ds \<Rightarrow> (1, ds) | _ \<Rightarrow> (1, c # cs)) = (1, c # cs)"
      by (auto split: char.split bool.split)
    then show ?thesis
      using assms digits(1)[of "nat i"] False read_show_nat[of "nat i"] unfolding n show_int_def parse_int_def by simp
  qed
qed

text \<open>
  A position as the command line prints it is read back as that position by the arguments of \<open>poll\<close>, for every \<open>i64\<close>.
\<close>
theorem printed_position_parses:
  assumes "- (2 ^ 63) \<le> i" "i < 2 ^ 63"
  shows "parse_i64 (show_int i) = Some i"
  unfolding parse_i64_def by (rule parse_int_show) (use assms in auto)

text \<open>A word already typed is not replaced when a space follows it: the completion is put after it.\<close>
lemma completion_after_the_word:
  "complete T ''decider-policy ON '' = (18, filter (prefix (ct_upper T ''ON'')) DECIDER_POLICIES)"
  by (simp add: complete_def split_whitespace_def white_space_at_def white_space_def last_word_start_def prefix_def)

section \<open>A session\<close>

theorem printed_position_parses_witness: "parse_i64 (show_int (- (2 ^ 63))) = Some (- (2 ^ 63))"
  by (rule printed_position_parses) simp_all

definition plain_text :: cli_text where
  "plain_text = \<lparr>ct_paint = (\<lambda>_ s. s), ct_debug = (\<lambda>s. ''\"'' @ s @ ''\"''), ct_timestamp = (\<lambda>_. None), ct_render = (\<lambda>_. []),
     ct_upper = id, ct_bus_error = (\<lambda>_. ''error''), ct_pack = (\<lambda>c. \<lparr>type_url = ''llm'', any_bytes = prompt_override c\<rparr>),
     ct_unpack = (\<lambda>any. Some \<lparr>prompt_override = any_bytes any\<rparr>)\<rparr>"

definition plain_mem_bus :: "mem_world mem_bus" where
  "plain_mem_bus = \<lparr>mb_environment = sim_environment unit_backoff, mb_ttl = None\<rparr>"

theorem reported_append_is_logged_witness:
  "\<exists>w' out' position. bus_cli_run plain_text (memory_bus plain_mem_bus) (\<lambda>_ _. None) [] ''bus'' (CmdIntention ''ls'') (empty_mem_world, []) =
       (Inr (), (w', out')) \<and> out' = receipt (CmdIntention ''ls'') ''bus'' position \<and>
     entry_payload (mem_log w' ''bus'' ! nat position) =
       Some (Some (Intention \<lparr>intention_body = Some (StringIntention ''ls''), policy_version_constraint = None\<rparr>))"
proof -
  let ?run = "bus_cli_run plain_text (memory_bus plain_mem_bus) (\<lambda>_ _. None) [] ''bus'' (CmdIntention ''ls'') (empty_mem_world, [])"
  have "fst ?run = Inr ()" by code_simp
  then have run: "?run = (Inr (), (fst (snd ?run), snd (snd ?run)))" by (simp add: prod_eq_iff)
  have bus: "log_bus (memory_bus plain_mem_bus) mem_log mem_inv mem_evolves"
    unfolding plain_mem_bus_def by (rule sim_bus.log_bus_axioms)
  from reported_append_is_logged[OF bus empty_mem_world_inv _ run] run show ?thesis by (metis append_Nil command_payload.simps(1))
qed

lemma mailed_world_inv: "mem_inv mailed_world"
proof -
  have "moves mem_evolves (mem_append \<lparr>mb_environment = sim_environment unit_backoff, mb_ttl = None\<rparr> req)" for req :: append_request
    by (rule mem_append_evolves) (simp add: sim_clock_keeps_buses)
  then have "mem_evolves empty_mem_world mailed_world"
    by (auto simp: mailed_world_def send_mail_def eff_defs memory_bus_def dest: movesD split: prod.split sum.split)
  then show ?thesis using empty_mem_world_inv by (simp add: mem_evolves_def)
qed

theorem tail_follow_shows_log_witness:
  "\<exists>w' out' t e ending. tail_follow plain_text (memory_bus plain_mem_bus) (mem_blocking_poll plain_mem_bus) ''bus'' 5 1 (mailed_world, []) = (Inr (), (w', out')) \<and>
     follow_ending plain_text ending \<and>
     out' = listing plain_text ''bus'' (max (t - 5) 0) t (segment (mem_log w' ''bus'') (max (t - 5) 0) t) @
       newline @ line ''[Following... Press any key to exit]'' @ entries_text plain_text (segment (mem_log w' ''bus'') t e) @ ending"
proof -
  let ?run = "tail_follow plain_text (memory_bus plain_mem_bus) (mem_blocking_poll plain_mem_bus) ''bus'' 5 1 (mailed_world, [])"
  have "fst ?run = Inr ()" by code_simp
  then have run: "?run = (Inr (), (fst (snd ?run), snd (snd ?run)))" by (simp add: prod_eq_iff)
  have bus: "polled_log (memory_bus plain_mem_bus) mem_log mem_inv mem_evolves (mem_blocking_poll plain_mem_bus)"
    unfolding plain_mem_bus_def by (rule mem_polled_log)
  from tail_follow_shows_log[OF bus mailed_world_inv _ _ run] run show ?thesis by fastforce
qed

definition session_inputs :: "repl_input list" where
  "session_inputs = [InputLine ''intention ls'' 0, InputLine ''tail 3'' 0, InputLine ''set-id other'' 0, InputLine '' decider-policy ON '' 0,
     InputLine ''nonsense'' 0, InputInterrupted, InputLine ''quit'' 0, InputLine ''intention never'' 0]"

lemma plain_mem_reads_only: "reads_only (memory_bus plain_mem_bus) (\<lambda>_ _. None)"
  by (auto simp: reads_only_def moves_def memory_bus_def plain_mem_bus_def mem_check_tail_def mem_read_next_def mem_check_def Let_def
      split: option.split sum.split prod.split)

theorem session_writes_its_appends_witness:
  "session_appends plain_text session_inputs ''bus'' =
     [(''bus'', Intention \<lparr>intention_body = Some (StringIntention ''ls''), policy_version_constraint = None\<rparr>), (''other'', DeciderPolicy 1)] \<and>
   fst (snd ((run_repl plain_text (memory_bus plain_mem_bus) (\<lambda>_ _. None) session_inputs ''bus'' :: (mem_world console, unit, string option) eff) (empty_mem_world, []))) =
     append_each (memory_bus plain_mem_bus) (session_appends plain_text session_inputs ''bus'') empty_mem_world"
proof
  show "session_appends plain_text session_inputs ''bus'' =
     [(''bus'', Intention \<lparr>intention_body = Some (StringIntention ''ls''), policy_version_constraint = None\<rparr>), (''other'', DeciderPolicy 1)]" by code_simp
  let ?run = "(run_repl plain_text (memory_bus plain_mem_bus) (\<lambda>_ _. None) session_inputs ''bus'' :: (mem_world console, unit, string option) eff) (empty_mem_world, [])"
  have "?run = (fst ?run, (fst (snd ?run), snd (snd ?run)))" by simp
  from session_writes_its_appends[OF plain_mem_reads_only this]
  show "fst (snd ?run) = append_each (memory_bus plain_mem_bus) (session_appends plain_text session_inputs ''bus'') empty_mem_world" .
qed

theorem tail_runs_after_bad_argument_witness:
  "repl_tail plain_text (memory_bus plain_mem_bus) (\<lambda>_ _. None) 0 ''bus'' (Some ''-5x'') =
    bindE (say (line (''Error: invalid argument '' @ quote @ ''-5x'' @ quote) @ line ''Usage: tail [-f] [n]''))
      (\<lambda>_. reporting (find_tail plain_text (memory_bus plain_mem_bus) ''bus'' 10))"
proof (rule tail_runs_after_bad_argument)
  show "split_whitespace ''-5x'' = [''-5x'']" "''-5x'' \<noteq> ''-f''" "parse_i16 ''-5x'' = None" by code_simp+
qed

end
