(* ===== verification/App_Startup.thy ===== *)
theory App_Startup
  imports Runtime Bus_Cli Rule_Voter Llm_Voter
begin

text \<open>
  How the application server starts: its configuration file (\<open>bus/core/src/config.rs\<close>), the voters built from it
  (\<open>bus/voters/factory\<close>), the command line and the worker of \<open>bin/agentbus_app_server.rs\<close>, \<open>build_and_spawn\<close> of
  \<open>appserver.rs\<close>, and the start of \<open>bin/decider_service.rs\<close>.  The YAML parser, the HTTP library, environment
  variables, the retries of \<open>tokio_retry\<close> and the regex crate are parameters.
\<close>

section \<open>The configuration file\<close>

datatype cfg_rule_action = CfgAllow | CfgDeny

datatype cfg_match_type = CfgExact | CfgSubstring | CfgRegex

datatype rule_subject_entry = EntryExactBusId string | EntryBusIdPrefix string

record rule_entry =
  re_pattern :: string
  re_action :: cfg_rule_action
  re_match_type :: cfg_match_type
  re_reason :: string
  re_subjects :: "rule_subject_entry list"

datatype voter_config_entry =
    EntryLlm string "string option" "string option"
  | EntryRuleBased cfg_rule_action "rule_entry list"

datatype initial_voter_config =
    InitialLlm llm_voter_config "string option" "string option"
  | InitialRuleBased rule_based_voter_config

record app_server_config_file =
  cf_bus_id :: string
  cf_gate_check_timeout_ms :: nat
  cf_blocking_poll_interval_ms :: "nat option"
  cf_voters :: "initial_voter_config list"

record app_server_config =
  ac_bus_id :: string
  ac_gate_check_timeout :: nat
  ac_blocking_poll_interval :: "nat option"

text \<open>
  What the YAML parser finds in a document: the fields that have a default may be missing.  A subject names either an
  exact bus or a prefix.
\<close>

record yaml_rule =
  yr_pattern :: string
  yr_action :: cfg_rule_action
  yr_match_type :: "cfg_match_type option"
  yr_reason :: "string option"
  yr_subjects :: "rule_subject_entry list option"

datatype yaml_voter =
    YamlLlm "string option" "string option" "string option"
  | YamlRuleBased "cfg_rule_action option" "yaml_rule list"

record yaml_config =
  yc_bus_id :: string
  yc_gate_check_timeout_ms :: "nat option"
  yc_blocking_poll_interval_ms :: "nat option"
  yc_voters :: "yaml_voter list option"

definition default_gate_timeout :: nat where "default_gate_timeout = 30000"

fun or_default :: "'a \<Rightarrow> 'a option \<Rightarrow> 'a" where
  "or_default d None = d"
| "or_default d (Some x) = x"

definition rule_entry_deserialize :: "yaml_rule \<Rightarrow> rule_entry" where
  "rule_entry_deserialize y =
     \<lparr>re_pattern = yr_pattern y, re_action = yr_action y, re_match_type = or_default CfgSubstring (yr_match_type y),
      re_reason = or_default [] (yr_reason y), re_subjects = or_default [] (yr_subjects y)\<rparr>"

fun voter_config_entry_deserialize :: "yaml_voter \<Rightarrow> voter_config_entry" where
  "voter_config_entry_deserialize (YamlLlm override model api_endpoint) = EntryLlm (or_default [] override) model api_endpoint"
| "voter_config_entry_deserialize (YamlRuleBased default_action rules) =
     EntryRuleBased (or_default CfgDeny default_action) (map rule_entry_deserialize rules)"

fun rule_action_as_i32 :: "cfg_rule_action \<Rightarrow> int" where
  "rule_action_as_i32 CfgAllow = 1"
| "rule_action_as_i32 CfgDeny = 2"

fun match_type_as_i32 :: "cfg_match_type \<Rightarrow> int" where
  "match_type_as_i32 CfgExact = 1"
| "match_type_as_i32 CfgSubstring = 2"
| "match_type_as_i32 CfgRegex = 3"

fun subject_entry_to_proto :: "rule_subject_entry \<Rightarrow> voter_rule_subject" where
  "subject_entry_to_proto (EntryExactBusId b) = Some (ExactBusId b)"
| "subject_entry_to_proto (EntryBusIdPrefix p) = Some (BusIdPrefix p)"

definition rule_entry_to_proto :: "rule_entry \<Rightarrow> voter_rule" where
  "rule_entry_to_proto r =
     \<lparr>vr_pattern = re_pattern r, vr_action = rule_action_as_i32 (re_action r), vr_match_type = match_type_as_i32 (re_match_type r),
      vr_reason = re_reason r, vr_subjects = map subject_entry_to_proto (re_subjects r)\<rparr>"

fun into_initial_config :: "voter_config_entry \<Rightarrow> initial_voter_config" where
  "into_initial_config (EntryLlm override model api_endpoint) = InitialLlm \<lparr>prompt_override = override\<rparr> model api_endpoint"
| "into_initial_config (EntryRuleBased default_action rules) =
     InitialRuleBased \<lparr>rbc_rules = map rule_entry_to_proto rules, rbc_default_action = rule_action_as_i32 default_action\<rparr>"

definition initial_voter_config_deserialize :: "yaml_voter \<Rightarrow> initial_voter_config" where
  "initial_voter_config_deserialize y = into_initial_config (voter_config_entry_deserialize y)"

definition config_file_deserialize :: "yaml_config \<Rightarrow> app_server_config_file" where
  "config_file_deserialize y =
     \<lparr>cf_bus_id = yc_bus_id y, cf_gate_check_timeout_ms = or_default default_gate_timeout (yc_gate_check_timeout_ms y),
      cf_blocking_poll_interval_ms = yc_blocking_poll_interval_ms y,
      cf_voters = map initial_voter_config_deserialize (or_default [] (yc_voters y))\<rparr>"

text \<open>\<open>serde_yaml\<close> is the parameter: the document of a text, unless it is not one of the expected shape.\<close>
definition from_yaml :: "(string \<Rightarrow> yaml_config option) \<Rightarrow> string \<Rightarrow> string + app_server_config_file" where
  "from_yaml serde yaml =
     (case serde yaml of None \<Rightarrow> Inl ''failed to parse config YAML'' | Some y \<Rightarrow> Inr (config_file_deserialize y))"

definition from_path :: "(string \<Rightarrow> yaml_config option) \<Rightarrow> (string \<Rightarrow> string option) \<Rightarrow> string \<Rightarrow> string + app_server_config_file" where
  "from_path serde read_to_string path =
     (case read_to_string path of
        None \<Rightarrow> Inl (''failed to read config file: '' @ path)
      | Some contents \<Rightarrow> from_yaml serde contents)"

definition into_config :: "app_server_config_file \<Rightarrow> app_server_config \<times> initial_voter_config list" where
  "into_config f =
     (\<lparr>ac_bus_id = cf_bus_id f, ac_gate_check_timeout = from_millis (cf_gate_check_timeout_ms f),
       ac_blocking_poll_interval = map_option from_millis (cf_blocking_poll_interval_ms f)\<rparr>, cf_voters f)"

section \<open>The command line\<close>

record app_server_args =
  aa_agentbus :: string
  aa_config :: "string option"
  aa_bus_id :: "string option"
  aa_gate_check_timeout_ms :: nat
  aa_blocking_poll_interval_ms :: "nat option"
  aa_run_voter :: bool
  aa_voter_api_endpoint :: "string option"
  aa_voter_api_key :: "string option"
  aa_voter_model :: "string option"

text \<open>Either the configuration file or the flags; the first part of \<open>make_app_config\<close>.\<close>
definition make_app_config :: "(string \<Rightarrow> yaml_config option) \<Rightarrow> (string \<Rightarrow> string option) \<Rightarrow> app_server_args
    \<Rightarrow> string + app_server_config \<times> initial_voter_config list" where
  "make_app_config serde read_to_string args =
     (case aa_config args of
        Some path \<Rightarrow> map_sum id into_config (from_path serde read_to_string path)
      | None \<Rightarrow>
          Inr (\<lparr>ac_bus_id = or_default [] (aa_bus_id args), ac_gate_check_timeout = from_millis (aa_gate_check_timeout_ms args),
                ac_blocking_poll_interval = map_option from_millis (aa_blocking_poll_interval_ms args)\<rparr>,
               if aa_run_voter args
               then [InitialLlm \<lparr>prompt_override = []\<rparr> (aa_voter_model args) (aa_voter_api_endpoint args)] else []))"

section \<open>Building the voters\<close>

text \<open>A boxed voter of either kind.\<close>
datatype ('r, 'w) built_voter = BuiltLlm "'w llm_voter" | BuiltRules "'r rule_based_voter"

text \<open>What a voter needs from outside: the HTTP library, the environment variables and the regex crate.\<close>
record ('r, 'w) voter_externals =
  ve_send :: "http_request \<Rightarrow> ('w, string, http_response) eff"
  ve_env_var :: "string \<Rightarrow> string option"
  ve_regex :: "'r regex_engine"

text \<open>\<open>None\<close> is the panic on a rule that does not compile.\<close>
fun build_voter :: "('r, 'w) voter_externals \<Rightarrow> string option \<Rightarrow> initial_voter_config \<Rightarrow> ('r, 'w) built_voter option" where
  "build_voter X api_key (InitialLlm config model api_endpoint) =
     Some (BuiltLlm (llm_from_typed_config (ve_send X) (ve_env_var X) config api_key model api_endpoint))"
| "build_voter X api_key (InitialRuleBased config) =
     (case rbv_from_typed_config (ve_regex X) config of Inl _ \<Rightarrow> None | Inr v \<Rightarrow> Some (BuiltRules v))"

definition factory_build_voters :: "('r, 'w) voter_externals \<Rightarrow> initial_voter_config list \<Rightarrow> string option \<Rightarrow> ('r, 'w) built_voter list option" where
  "factory_build_voters X configs api_key = those (map (build_voter X api_key) configs)"

text \<open>The operations of a boxed voter; \<open>evaluate_with_llm_returns\<close> shows that an evaluation never unwinds.\<close>
fun built_voter_evaluate :: "'r regex_engine \<Rightarrow> ('r, 'w) built_voter \<Rightarrow> string \<Rightarrow> string \<Rightarrow> 'w \<Rightarrow> (bool \<times> string) \<times> 'w" where
  "built_voter_evaluate rx (BuiltLlm v) bus_id text w = (case evaluate_with_llm v text w of (answer, w') \<Rightarrow> (the answer, w'))"
| "built_voter_evaluate rx (BuiltRules v) bus_id text w = (rbv_evaluate rx v \<lparr>vc_bus_id = bus_id, vc_intention = text\<rparr>, w)"

fun built_voter_apply_policy :: "'r regex_engine \<Rightarrow> (any_message \<Rightarrow> llm_voter_config option) \<Rightarrow> (any_message \<Rightarrow> rule_based_voter_config option)
    \<Rightarrow> any_message \<Rightarrow> ('r, 'w) built_voter \<Rightarrow> ('r, 'w) built_voter" where
  "built_voter_apply_policy rx llm_msg rule_msg config (BuiltLlm v) = BuiltLlm (llm_apply_policy llm_msg config v)"
| "built_voter_apply_policy rx llm_msg rule_msg config (BuiltRules v) = BuiltRules (rbv_apply_policy rx rule_msg config v)"

definition built_voter_ops :: "'r regex_engine \<Rightarrow> (any_message \<Rightarrow> llm_voter_config option) \<Rightarrow> (any_message \<Rightarrow> rule_based_voter_config option)
    \<Rightarrow> (('r, 'w) built_voter, 'w) voter_ops" where
  "built_voter_ops rx llm_msg rule_msg =
     \<lparr>vo_evaluate = built_voter_evaluate rx, vo_apply_policy = built_voter_apply_policy rx llm_msg rule_msg\<rparr>"

lemma evaluate_with_llm_returns: "fst (evaluate_with_llm v text w) \<noteq> None"
  using parse_safety_response_total by (fastforce simp: evaluate_with_llm_def split: prod.split sum.split)

section \<open>Starting the server\<close>

text \<open>\<open>build_and_spawn\<close>: the loops of the bus, from its first position, and what the request handlers hold.\<close>
definition build_and_spawn :: "'w agent_bus \<times> 'w blocking_poll \<Rightarrow> app_server_config \<Rightarrow> 'w environment \<Rightarrow> 'v list \<Rightarrow> 'w
    \<Rightarrow> ('v, 'w) bus_runtime \<times> 'w app_server" where
  "build_and_spawn bus config env initial_voters w =
     (spawn_bus_runtime (ac_bus_id config) 0 initial_voters w,
      \<lparr>as_bus = fst bus, as_poll = snd bus, as_bus_id = ac_bus_id config, as_environment = env,
       as_gate_check_timeout = ac_gate_check_timeout config\<rparr>)"

text \<open>
  \<open>run_with_bus\<close> up to the point where it serves: the worker thread opens the backend and builds the voters, and a panic
  of either ends the thread before it hands over the request handler.
\<close>
definition run_with_bus :: "(nat option \<Rightarrow> parsed_backend \<Rightarrow> string + 'w agent_bus \<times> 'w blocking_poll) \<Rightarrow> 'w environment
    \<Rightarrow> (unit \<Rightarrow> 'v list option) \<Rightarrow> parsed_backend \<Rightarrow> app_server_config \<Rightarrow> 'w \<Rightarrow> string + ('v, 'w) bus_runtime \<times> 'w app_server" where
  "run_with_bus build env voter_builder backend config w =
     (case build (ac_blocking_poll_interval config) backend of
        Inl _ \<Rightarrow> Inl ''AppServer worker thread failed to start''
      | Inr bus \<Rightarrow>
          (case voter_builder () of
             None \<Rightarrow> Inl ''AppServer worker thread failed to start''
           | Some initial_voters \<Rightarrow> Inr (build_and_spawn bus config env initial_voters w)))"

definition app_server_main :: "(string \<Rightarrow> yaml_config option) \<Rightarrow> (string \<Rightarrow> string option)
    \<Rightarrow> (nat option \<Rightarrow> parsed_backend \<Rightarrow> string + 'w agent_bus \<times> 'w blocking_poll) \<Rightarrow> 'w environment \<Rightarrow> ('r, 'w) voter_externals
    \<Rightarrow> app_server_args \<Rightarrow> 'w \<Rightarrow> string + (('r, 'w) built_voter, 'w) bus_runtime \<times> 'w app_server" where
  "app_server_main serde read_to_string build env X args w =
     (case parse_backend_url (aa_agentbus args) of
        Inl e \<Rightarrow> Inl e
      | Inr backend \<Rightarrow>
          (case make_app_config serde read_to_string args of
             Inl e \<Rightarrow> Inl e
           | Inr (config, voter_configs) \<Rightarrow>
               run_with_bus build env (\<lambda>_. factory_build_voters X voter_configs (aa_voter_api_key args)) backend config w))"

section \<open>The stand-alone decider\<close>

record decider_service_args =
  ds_agent_bus_id :: string
  ds_host :: "string option"

text \<open>\<open>attempts\<close> is \<open>Retry::start\<close> of \<open>tokio_retry\<close> with its strategy, \<open>debug\<close> the debug text of an error.\<close>
definition wait_for_agentbus_connection :: "(('w, string, int) eff \<Rightarrow> ('w, string, int) eff) \<Rightarrow> (bus_error \<Rightarrow> string) \<Rightarrow> 'w agent_bus \<Rightarrow> string
    \<Rightarrow> ('w, string, unit) eff" where
  "wait_for_agentbus_connection attempts debug B agent_bus_id =
     bindE (attempts (map_errE (\<lambda>e. ''Failed to reach AgentBus: '' @ debug e) (bus_check_tail B (Some agent_bus_id)))) (\<lambda>_. ret ())"

text \<open>\<open>Decider::run\<close> ends with an error or not at all, \<open>None\<close>.\<close>
partial_function (option) decider_run :: "'w agent_bus \<Rightarrow> 'w blocking_poll \<Rightarrow> 'w \<times> decider \<Rightarrow> (decider_error \<times> 'w \<times> decider) option" where
  "decider_run B poll s =
     (case poll_and_decide B poll LOOP_TIMEOUT_MS s of
        None \<Rightarrow> None
      | Some (Inl e, s') \<Rightarrow> Some (e, s')
      | Some (Inr _, s') \<Rightarrow> decider_run B poll s')"

text \<open>\<open>main\<close> of the service when no signal comes: the error it ends with, of the start or of the decider.\<close>
definition decider_service_main :: "(string \<Rightarrow> string + 'w agent_bus \<times> 'w blocking_poll) \<Rightarrow> (('w, string, int) eff \<Rightarrow> ('w, string, int) eff)
    \<Rightarrow> (bus_error \<Rightarrow> string) \<Rightarrow> decider_service_args \<Rightarrow> 'w \<Rightarrow> ((string + decider_error) \<times> 'w) option" where
  "decider_service_main connect attempts debug args w =
     (case ds_host args of
        None \<Rightarrow> Some (Inl ''Service discovery not yet implemented for gRPC. Please use --host to specify a direct connection.'', w)
      | Some host \<Rightarrow>
          (case connect (''http://'' @ host) of
             Inl _ \<Rightarrow> Some (Inl ''Failed to create AgentBus gRPC client'', w)
           | Inr (B, poll) \<Rightarrow>
               (case wait_for_agentbus_connection attempts debug B (ds_agent_bus_id args) w of
                  (Inl e, w1) \<Rightarrow> Some (Inl e, w1)
                | (Inr _, w1) \<Rightarrow>
                    map_option (\<lambda>(e, (w2, _)). (Inr e, w2))
                      (decider_run B poll (w1, decider_new (ds_agent_bus_id args) 0 create_vote_tracker_for_decider_policy)))))"

text \<open>An answer of the retried call is an answer of one of its attempts.\<close>
definition answers_by_attempt :: "(('w, string, int) eff \<Rightarrow> ('w, string, int) eff) \<Rightarrow> bool" where
  "answers_by_attempt attempts \<longleftrightarrow> (\<forall>action w x w'. attempts action w = (Inr x, w') \<longrightarrow> (\<exists>w1. action w1 = (Inr x, w')))"

text \<open>The decider runs only on a bus that has told its tail; from then on the service is the decider from the first position.\<close>
lemma decider_service_waits:
  assumes "answers_by_attempt attempts" "decider_service_main connect attempts debug args w = Some (Inr e, w')"
  obtains host B poll w0 t w1 d where "ds_host args = Some host" "connect (''http://'' @ host) = Inr (B, poll)"
    "bus_check_tail B (Some (ds_agent_bus_id args)) w0 = (Inr t, w1)"
    "decider_run B poll (w1, decider_new (ds_agent_bus_id args) 0 create_vote_tracker_for_decider_policy) = Some (e, w', d)"
proof -
  obtain host B poll u w1 d where start: "ds_host args = Some host" "connect (''http://'' @ host) = Inr (B, poll)"
    "wait_for_agentbus_connection attempts debug B (ds_agent_bus_id args) w = (Inr u, w1)"
    "decider_run B poll (w1, decider_new (ds_agent_bus_id args) 0 create_vote_tracker_for_decider_policy) = Some (e, w', d)"
    using assms(2) by (auto simp: decider_service_main_def split: option.splits sum.splits prod.splits)
  let ?action = "map_errE (\<lambda>e. ''Failed to reach AgentBus: '' @ debug e) (bus_check_tail B (Some (ds_agent_bus_id args)))"
  obtain t where "attempts ?action w = (Inr t, w1)"
    using start(3) by (auto simp: wait_for_agentbus_connection_def bindE_def ret_def split: prod.splits sum.splits)
  then obtain w0 where "?action w0 = (Inr t, w1)" using assms(1) unfolding answers_by_attempt_def by blast
  then have "bus_check_tail B (Some (ds_agent_bus_id args)) w0 = (Inr t, w1)"
    by (auto simp: map_errE_def split: prod.splits sum.splits)
  then show thesis using that start by blast
qed

section \<open>What a configuration file asks for\<close>

text \<open>A subject names a valid bus or prefix; a rule can be used when its subjects do and its regular expression compiles.\<close>
fun subject_entry_ok :: "rule_subject_entry \<Rightarrow> bool" where
  "subject_entry_ok (EntryExactBusId b) = valid_bus b"
| "subject_entry_ok (EntryBusIdPrefix p) = valid_bus p"

fun subject_entry_covers :: "rule_subject_entry \<Rightarrow> string \<Rightarrow> bool" where
  "subject_entry_covers (EntryExactBusId b) bus_id = (bus_id = b)"
| "subject_entry_covers (EntryBusIdPrefix p) bus_id = prefix p bus_id"

definition yaml_rule_ok :: "'r regex_engine \<Rightarrow> yaml_rule \<Rightarrow> bool" where
  "yaml_rule_ok rx y \<longleftrightarrow> list_all subject_entry_ok (or_default [] (yr_subjects y)) \<and>
     (yr_match_type y = Some CfgRegex \<longrightarrow> regex_new rx (yr_pattern y) \<noteq> None)"

text \<open>A rule with subjects acts on the buses they cover only; a rule without a match type looks for its pattern inside the text.\<close>
definition yaml_rule_matches :: "'r regex_engine \<Rightarrow> string \<Rightarrow> string \<Rightarrow> yaml_rule \<Rightarrow> bool" where
  "yaml_rule_matches rx bus_id text y \<longleftrightarrow>
     (case yr_subjects y of Some (s # ss) \<Rightarrow> list_ex (\<lambda>subject. subject_entry_covers subject bus_id) (s # ss) | _ \<Rightarrow> True) \<and>
     (case yr_match_type y of
        Some CfgExact \<Rightarrow> text = yr_pattern y
      | Some CfgRegex \<Rightarrow> (case regex_new rx (yr_pattern y) of Some re \<Rightarrow> regex_is_match rx re text | None \<Rightarrow> False)
      | _ \<Rightarrow> sublist (yr_pattern y) text)"

text \<open>Deny wins; without a rule that matches, the default of the entry, which is to deny.\<close>
definition yaml_verdict :: "'r regex_engine \<Rightarrow> cfg_rule_action option \<Rightarrow> yaml_rule list \<Rightarrow> string \<Rightarrow> string \<Rightarrow> bool" where
  "yaml_verdict rx default_action rules bus_id text \<longleftrightarrow>
     \<not> list_ex (\<lambda>y. yr_action y = CfgDeny \<and> yaml_rule_matches rx bus_id text y) rules \<and>
     (list_ex (\<lambda>y. yr_action y = CfgAllow \<and> yaml_rule_matches rx bus_id text y) rules \<or> default_action = Some CfgAllow)"

section \<open>The voter of an entry\<close>

text \<open>The rule that a rule of the file becomes on its way through the wire form.\<close>
fun action_of :: "cfg_rule_action \<Rightarrow> rule_action" where
  "action_of CfgAllow = Allow"
| "action_of CfgDeny = Deny"

fun match_of :: "cfg_match_type \<Rightarrow> match_type" where
  "match_of CfgExact = Exact"
| "match_of CfgSubstring = Substring"
| "match_of CfgRegex = Regex"

fun subject_of :: "rule_subject_entry \<Rightarrow> rule_subject" where
  "subject_of (EntryExactBusId b) = SubjectExact b"
| "subject_of (EntryBusIdPrefix p) = SubjectPrefix p"

definition rule_of :: "yaml_rule \<Rightarrow> rule" where
  "rule_of y = \<lparr>rule_pattern = yr_pattern y, rule_match_type = match_of (or_default CfgSubstring (yr_match_type y)),
     rule_action = action_of (yr_action y), rule_reason = or_default [] (yr_reason y),
     rule_subjects = map subject_of (or_default [] (yr_subjects y))\<rparr>"

lemma action_of_i32: "rule_action_from_proto (rule_action_as_i32 a) = action_of a"
  by (cases a) (simp_all add: rule_action_from_proto_def)

lemma match_of_i32: "match_type_from_proto (match_type_as_i32 t) = match_of t"
  by (cases t) (simp_all add: match_type_from_proto_def)

lemma subject_of_proto: "rule_subject_try_from (subject_entry_to_proto s) = Inr (subject_of s)"
  by (cases s) (simp_all add: rule_subject_try_from_def)

lemma map_result_map: "(\<And>x. f (g x) = Inr (h x)) \<Longrightarrow> map_result f (map g xs) = Inr (map h xs)"
  by (induction xs) simp_all

lemma rule_of_proto: "rule_try_from (rule_entry_to_proto (rule_entry_deserialize y)) = Inr (rule_of y)"
  by (simp add: rule_try_from_def rule_entry_to_proto_def rule_entry_deserialize_def rule_of_def map_result_map[of rule_subject_try_from subject_entry_to_proto subject_of, OF subject_of_proto]
      action_of_i32 match_of_i32)

lemma subject_of_validate: "rule_subject_validate (subject_of s) = (if subject_entry_ok s then Inr () else Inl InvalidRule)"
  by (cases s) (auto split: option.split)

lemma subjects_validate: "(\<exists>us. map_result rule_subject_validate (map subject_of ss) = Inr us) \<longleftrightarrow> list_all subject_entry_ok ss"
  by (induction ss) (auto simp: subject_of_validate split: sum.splits)

text \<open>A usable rule compiles to a rule that matches as the file says.\<close>
lemma rule_of_compile:
  assumes "yaml_rule_ok rx y"
  obtains re where "rule_compile rx (rule_of y) = Inr \<lparr>cr_rule = rule_of y, cr_regex = re\<rparr>"
    "\<And>ctx. compiled_rule_matches rx \<lparr>cr_rule = rule_of y, cr_regex = re\<rparr> ctx = yaml_rule_matches rx (vc_bus_id ctx) (vc_intention ctx) y"
proof -
  obtain us where us: "map_result rule_subject_validate (map subject_of (or_default [] (yr_subjects y))) = Inr us"
    using assms subjects_validate by (metis yaml_rule_ok_def)
  let ?re = "if yr_match_type y = Some CfgRegex then regex_new rx (yr_pattern y) else None"
  have covers: "rule_subject_matches (subject_of s) b = subject_entry_covers s b" for s b by (cases s) simp_all
  have "rule_compile rx (rule_of y) = Inr \<lparr>cr_rule = rule_of y, cr_regex = ?re\<rparr>"
    using assms us by (cases "yr_match_type y" rule: option.exhaust; cases "the (yr_match_type y)")
      (auto simp: rule_compile_def rule_of_def yaml_rule_ok_def)
  moreover have "compiled_rule_matches rx \<lparr>cr_rule = rule_of y, cr_regex = ?re\<rparr> ctx
      = yaml_rule_matches rx (vc_bus_id ctx) (vc_intention ctx) y" for ctx
    using assms
    by (cases "yr_match_type y"; cases "the (yr_match_type y)"; cases "yr_subjects y"; cases "the (yr_subjects y)")
      (auto simp: compiled_rule_matches_def rule_of_def yaml_rule_matches_def yaml_rule_ok_def covers list_ex_iff split: option.splits)
  ultimately show thesis using that by blast
qed

lemma rule_of_rejected:
  assumes "\<not> yaml_rule_ok rx y"
  shows "\<exists>e. rule_compile rx (rule_of y) = Inl e"
proof (cases "list_all subject_entry_ok (or_default [] (yr_subjects y))")
  case True
  then obtain us where "map_result rule_subject_validate (map subject_of (or_default [] (yr_subjects y))) = Inr us"
    using subjects_validate by metis
  then show ?thesis using assms True by (auto simp: yaml_rule_ok_def rule_compile_def rule_of_def)
next
  case False
  then obtain e where "map_result rule_subject_validate (map subject_of (or_default [] (yr_subjects y))) = Inl e"
    using subjects_validate[of "or_default [] (yr_subjects y)"]
    by (cases "map_result rule_subject_validate (map subject_of (or_default [] (yr_subjects y)))") auto
  then show ?thesis by (simp add: rule_compile_def rule_of_def)
qed

lemma compile_yaml_rules:
  "if list_all (yaml_rule_ok rx) ys
   then \<exists>crs. compile_rules rx (map rule_of ys) = Inr crs \<and>
     (\<forall>ctx a. matching rx ctx (action_of a) crs \<longleftrightarrow> list_ex (\<lambda>y. yr_action y = a \<and> yaml_rule_matches rx (vc_bus_id ctx) (vc_intention ctx) y) ys)
   else \<exists>e. compile_rules rx (map rule_of ys) = Inl e"
proof (induction ys)
  case (Cons y ys)
  show ?case
  proof (cases "yaml_rule_ok rx y")
    case True
    obtain re where re: "rule_compile rx (rule_of y) = Inr \<lparr>cr_rule = rule_of y, cr_regex = re\<rparr>"
      "\<And>ctx. compiled_rule_matches rx \<lparr>cr_rule = rule_of y, cr_regex = re\<rparr> ctx = yaml_rule_matches rx (vc_bus_id ctx) (vc_intention ctx) y"
      using rule_of_compile[OF True] by metis
    have "action_of (yr_action y) = action_of a \<longleftrightarrow> yr_action y = a" for a by (cases a; cases "yr_action y") simp_all
    then have same: "rule_action (rule_of y) = action_of a \<longleftrightarrow> yr_action y = a" for a by (simp add: rule_of_def)
    show ?thesis
    proof (cases "list_all (yaml_rule_ok rx) ys")
      case rest: True
      then obtain crs where crs: "compile_rules rx (map rule_of ys) = Inr crs"
        "\<And>ctx a. matching rx ctx (action_of a) crs \<longleftrightarrow> list_ex (\<lambda>y. yr_action y = a \<and> yaml_rule_matches rx (vc_bus_id ctx) (vc_intention ctx) y) ys"
        using Cons.IH by auto
      have "compile_rules rx (map rule_of (y # ys)) = Inr (\<lparr>cr_rule = rule_of y, cr_regex = re\<rparr> # crs)"
        using re(1) crs(1) by (simp add: compile_rules_def)
      moreover have "matching rx ctx (action_of a) (\<lparr>cr_rule = rule_of y, cr_regex = re\<rparr> # crs) \<longleftrightarrow>
          list_ex (\<lambda>y. yr_action y = a \<and> yaml_rule_matches rx (vc_bus_id ctx) (vc_intention ctx) y) (y # ys)" for ctx a
      proof -
        have "matching rx ctx (action_of a) (\<lparr>cr_rule = rule_of y, cr_regex = re\<rparr> # crs) \<longleftrightarrow>
            (yr_action y = a \<and> yaml_rule_matches rx (vc_bus_id ctx) (vc_intention ctx) y) \<or> matching rx ctx (action_of a) crs"
          using re(2) same by (simp add: matching_def)
        then show ?thesis using crs(2) by simp
      qed
      ultimately show ?thesis using True rest by auto
    next
      case False
      then obtain e where "compile_rules rx (map rule_of ys) = Inl e" using Cons.IH by auto
      then show ?thesis using True False re(1) by (simp add: compile_rules_def)
    qed
  next
    case False
    then show ?thesis using rule_of_rejected[OF False] by (auto simp: compile_rules_def)
  qed
qed (simp add: compile_rules_def matching_def)

lemma build_rules_voter:
  "if list_all (yaml_rule_ok (ve_regex X)) rules
   then \<exists>v. build_voter X api_key (initial_voter_config_deserialize (YamlRuleBased d rules)) = Some (BuiltRules v) \<and>
     (\<forall>b text. fst (rbv_evaluate (ve_regex X) v \<lparr>vc_bus_id = b, vc_intention = text\<rparr>) \<longleftrightarrow> yaml_verdict (ve_regex X) d rules b text)
   else build_voter X api_key (initial_voter_config_deserialize (YamlRuleBased d rules)) = None"
proof -
  let ?rx = "ve_regex X" and ?default = "action_of (or_default CfgDeny d)"
  have "map_result rule_try_from (map rule_entry_to_proto (map rule_entry_deserialize rules)) = Inr (map rule_of rules)"
    using rule_of_proto by (induction rules) simp_all
  then have built: "rbv_from_typed_config ?rx \<lparr>rbc_rules = map rule_entry_to_proto (map rule_entry_deserialize rules),
      rbc_default_action = rule_action_as_i32 (or_default CfgDeny d)\<rparr> = rbv_new_with_default_action ?rx (map rule_of rules) ?default"
    by (simp add: rbv_from_typed_config_def action_of_i32)
  have allow: "?default = Allow \<longleftrightarrow> d = Some CfgAllow" by (cases d; cases "the d") simp_all
  show ?thesis
  proof (cases "list_all (yaml_rule_ok ?rx) rules")
    case True
    then obtain crs where crs: "compile_rules ?rx (map rule_of rules) = Inr crs"
      "\<And>ctx a. matching ?rx ctx (action_of a) crs \<longleftrightarrow>
        list_ex (\<lambda>y. yr_action y = a \<and> yaml_rule_matches ?rx (vc_bus_id ctx) (vc_intention ctx) y) rules"
      using compile_yaml_rules[of ?rx rules] by auto
    let ?v = "\<lparr>rbv_rules = crs, rbv_default_action = ?default\<rparr>"
    have "fst (rbv_evaluate ?rx ?v \<lparr>vc_bus_id = b, vc_intention = t\<rparr>) \<longleftrightarrow> yaml_verdict ?rx d rules b t" for b t
      using evaluate_rules_verdict[of ?rx "\<lparr>vc_bus_id = b, vc_intention = t\<rparr>" crs ?default] crs(2)[of _ CfgDeny] crs(2)[of _ CfgAllow] allow
      by (cases "evaluate_rules ?rx \<lparr>vc_bus_id = b, vc_intention = t\<rparr> crs ?default") (simp add: rbv_evaluate_def yaml_verdict_def)
    then show ?thesis using True built crs(1)
      by (simp add: initial_voter_config_deserialize_def rbv_new_with_default_action_def)
  next
    case False
    then show ?thesis using built compile_yaml_rules[of ?rx rules]
      by (auto simp: initial_voter_config_deserialize_def rbv_new_with_default_action_def)
  qed
qed

fun yaml_voter_ok :: "'r regex_engine \<Rightarrow> yaml_voter \<Rightarrow> bool" where
  "yaml_voter_ok rx (YamlLlm override model api_endpoint) = True"
| "yaml_voter_ok rx (YamlRuleBased d rules) = list_all (yaml_rule_ok rx) rules"

text \<open>The voter an entry of the file asks for.\<close>
fun voter_as_configured :: "('r, 'w) voter_externals \<Rightarrow> yaml_voter \<Rightarrow> ('r, 'w) built_voter \<Rightarrow> bool" where
  "voter_as_configured X (YamlLlm override model api_endpoint) v \<longleftrightarrow>
     (\<exists>lv. v = BuiltLlm lv \<and> lv_prompt_override lv = (if or_default [] override = [] then None else override) \<and>
        (\<forall>m. model = Some m \<and> m \<noteq> [] \<longrightarrow> ls_model (lv_config lv) = m))"
| "voter_as_configured X (YamlRuleBased d rules) v \<longleftrightarrow>
     (\<forall>b text w. \<exists>reason. built_voter_evaluate (ve_regex X) v b text w = ((yaml_verdict (ve_regex X) d rules b text, reason), w))"

lemma build_yaml_voter:
  "if yaml_voter_ok (ve_regex X) y
   then \<exists>v. build_voter X api_key (initial_voter_config_deserialize y) = Some v \<and> voter_as_configured X y v
   else build_voter X api_key (initial_voter_config_deserialize y) = None"
proof (cases y)
  case (YamlLlm override model api_endpoint)
  have "or_default [] override = [] \<or> override = Some (or_default [] override)" by (cases override) simp_all
  then show ?thesis
    by (auto simp: YamlLlm initial_voter_config_deserialize_def llm_from_typed_config_def llm_voter_new_def Let_def non_empty_or_def)
next
  case (YamlRuleBased d rules)
  show ?thesis
  proof (cases "list_all (yaml_rule_ok (ve_regex X)) rules")
    case True
    then obtain v where v: "build_voter X api_key (initial_voter_config_deserialize y) = Some (BuiltRules v)"
      "\<And>b text. fst (rbv_evaluate (ve_regex X) v \<lparr>vc_bus_id = b, vc_intention = text\<rparr>) = yaml_verdict (ve_regex X) d rules b text"
      using build_rules_voter[of X rules api_key d] YamlRuleBased by auto
    have "\<exists>reason. built_voter_evaluate (ve_regex X) (BuiltRules v) b t w = ((yaml_verdict (ve_regex X) d rules b t, reason), w)" for b t w
      using v(2)[of b t] by (cases "rbv_evaluate (ve_regex X) v \<lparr>vc_bus_id = b, vc_intention = t\<rparr>") simp
    then show ?thesis using v(1) True YamlRuleBased by simp
  next
    case False
    then show ?thesis using build_rules_voter[of X rules api_key d] YamlRuleBased by simp
  qed
qed

lemma factory_build_yaml_voters:
  "if list_all (yaml_voter_ok (ve_regex X)) ys
   then \<exists>vs. factory_build_voters X (map initial_voter_config_deserialize ys) api_key = Some vs \<and> list_all2 (voter_as_configured X) ys vs
   else factory_build_voters X (map initial_voter_config_deserialize ys) api_key = None"
proof (induction ys)
  case (Cons y ys)
  show ?case
    using Cons.IH build_yaml_voter[of X y api_key] by (auto simp: factory_build_voters_def split: if_splits)
qed (simp add: factory_build_voters_def)

section \<open>Properties\<close>

text \<open>
  C14. A configuration file starts the server exactly when every rule of every voter can be used; it then runs on the bus the
  file names, from the first position, one voter per entry in the order of the file, each deciding as its entry says, with
  thirty seconds for a gate unless the file gives another time.  Otherwise the server does not start: it never runs
  with a voter missing.
\<close>
theorem server_starts_with_every_voter:
  assumes "aa_config args = Some path" "read_to_string path = Some contents" "serde contents = Some y"
    and "parse_backend_url (aa_agentbus args) = Inr backend"
    and "build (map_option from_millis (yc_blocking_poll_interval_ms y)) backend = Inr bus"
  shows "if list_all (yaml_voter_ok (ve_regex X)) (or_default [] (yc_voters y))
    then \<exists>runtime app. app_server_main serde read_to_string build env X args w = Inr (runtime, app) \<and>
      br_bus_id runtime = yc_bus_id y \<and> as_bus_id app = yc_bus_id y \<and> as_bus app = fst bus \<and> as_poll app = snd bus \<and>
      as_gate_check_timeout app = from_millis (case yc_gate_check_timeout_ms y of Some ms \<Rightarrow> ms | None \<Rightarrow> 30000) \<and>
      list_all2 (\<lambda>entry (l, batch). voter_as_configured X entry (vl_voter l) \<and> vl_agent_bus_id l = yc_bus_id y \<and>
        vl_next_log_position l = 0 \<and> batch = None) (or_default [] (yc_voters y)) (br_voters runtime)
    else app_server_main serde read_to_string build env X args w = Inl ''AppServer worker thread failed to start''"
proof -
  let ?ys = "or_default [] (yc_voters y)"
  have config: "make_app_config serde read_to_string args = Inr (into_config (config_file_deserialize y))"
    using assms(1-3) by (simp add: make_app_config_def from_path_def from_yaml_def)
  have main: "app_server_main serde read_to_string build env X args w =
      (case factory_build_voters X (map initial_voter_config_deserialize ?ys) (aa_voter_api_key args) of
         None \<Rightarrow> Inl ''AppServer worker thread failed to start''
       | Some vs \<Rightarrow> Inr (build_and_spawn bus (fst (into_config (config_file_deserialize y))) env vs w))"
    using assms(4,5) by (simp add: app_server_main_def run_with_bus_def config into_config_def config_file_deserialize_def split: option.split)
  show ?thesis
  proof (cases "list_all (yaml_voter_ok (ve_regex X)) ?ys")
    case True
    then obtain vs where vs: "factory_build_voters X (map initial_voter_config_deserialize ?ys) (aa_voter_api_key args) = Some vs"
      "list_all2 (voter_as_configured X) ?ys vs"
      using factory_build_yaml_voters[of X ?ys "aa_voter_api_key args"] by auto
    have "or_default default_gate_timeout t = (case t of Some ms \<Rightarrow> ms | None \<Rightarrow> 30000)" for t
      by (cases t) (simp_all add: default_gate_timeout_def)
    then show ?thesis using True main vs
      by (simp add: build_and_spawn_def spawn_bus_runtime_def into_config_def config_file_deserialize_def list.rel_map)
  next
    case False
    then show ?thesis using main factory_build_yaml_voters[of X ?ys "aa_voter_api_key args"] by simp
  qed
qed

definition echo_yaml :: yaml_config where
  "echo_yaml = \<lparr>yc_bus_id = ''test-bus'', yc_gate_check_timeout_ms = None, yc_blocking_poll_interval_ms = None,
     yc_voters = Some [YamlRuleBased None
       [\<lparr>yr_pattern = ''rm'', yr_action = CfgDeny, yr_match_type = None, yr_reason = None, yr_subjects = None\<rparr>,
        \<lparr>yr_pattern = ''echo'', yr_action = CfgAllow, yr_match_type = Some CfgExact, yr_reason = None,
          yr_subjects = Some [EntryBusIdPrefix ''test'']\<rparr>]]\<rparr>"

definition plain_externals :: "(string, mem_world) voter_externals" where
  "plain_externals = \<lparr>ve_send = (\<lambda>_. raise []), ve_env_var = (\<lambda>_. None), ve_regex = \<lparr>regex_new = Some, regex_is_match = (\<lambda>re s. re = s)\<rparr>\<rparr>"

definition file_args :: app_server_args where
  "file_args = \<lparr>aa_agentbus = ''memory://'', aa_config = Some ''conf'', aa_bus_id = None, aa_gate_check_timeout_ms = 30000,
     aa_blocking_poll_interval_ms = None, aa_run_voter = False, aa_voter_api_endpoint = None, aa_voter_api_key = None, aa_voter_model = None\<rparr>"

theorem server_starts_with_every_voter_witness:
  "\<exists>runtime app. app_server_main (\<lambda>_. Some echo_yaml) (\<lambda>_. Some [])
       (\<lambda>_ _. Inr (memory_bus \<lparr>mb_environment = sim_environment (\<lambda>d w. (d, w)), mb_ttl = None\<rparr>, \<lambda>_ _. None))
       (sim_environment (\<lambda>d w. (d, w))) plain_externals file_args empty_mem_world = Inr (runtime, app) \<and>
     as_gate_check_timeout app = 30000000000 \<and> length (br_voters runtime) = 1"
proof -
  have ok: "list_all (yaml_voter_ok (ve_regex plain_externals)) (or_default [] (yc_voters echo_yaml))" by code_simp
  have backend: "parse_backend_url (aa_agentbus file_args) = Inr BackendMemory" by code_simp
  show ?thesis
    using server_starts_with_every_voter[of file_args "''conf''" "\<lambda>_. Some []" "[]" "\<lambda>_. Some echo_yaml" echo_yaml BackendMemory
        "\<lambda>_ _. Inr (memory_bus \<lparr>mb_environment = sim_environment (\<lambda>d w. (d, w)), mb_ttl = None\<rparr>, \<lambda>_ _. None)"
        "(memory_bus \<lparr>mb_environment = sim_environment (\<lambda>d w. (d, w)), mb_ttl = None\<rparr>, \<lambda>_ _. None)"
        plain_externals "sim_environment (\<lambda>d w. (d, w))" empty_mem_world] ok backend
    by (auto simp: file_args_def echo_yaml_def from_millis_def dest!: list_all2_lengthD)
qed

end
