(* ===== verification/App_Worker.thy ===== *)
theory App_Worker
  imports Gate
begin

text \<open>
  The worker behind the application server's gRPC handler, \<open>spawn_grpc_worker\<close> of \<open>bus/core/src/appserver/grpc.rs\<close>: it
  takes operations from a channel in order, answers appends, polls and mail checks before it takes the next, and starts
  a task for every gate.  Its tasks, the mailbox and everything else on the bus interleave at every await.
\<close>

section \<open>A gate as a task\<close>

text \<open>A gate between two of its awaits: before its append, or waiting for a decision of its intention.\<close>
datatype gate_phase = GateStarting string | GateWaiting int nat int

definition gate_request :: "'w app_server \<Rightarrow> nat \<Rightarrow> int \<Rightarrow> blocking_poll_request" where
  "gate_request app elapsed next_position =
     \<lparr>bp_bus_id = Some (as_bus_id app), bp_start_log_position = next_position, bp_max_entries = 64,
      bp_filter = Some GATE_PAYLOAD_TYPES, bp_timeout_ms = wrap_i32 (int (as_millis (as_gate_check_timeout app - elapsed)))\<rparr>"

text \<open>Up to the next await, \<open>Inr\<close> the result; \<open>None\<close> is a poll that does not return.\<close>
fun gate_turn :: "'w app_server \<Rightarrow> gate_phase \<Rightarrow> 'w \<Rightarrow> ((gate_phase + bus_error + gate_result) \<times> 'w) option" where
  "gate_turn app (GateStarting intention_text) w =
     (case bus_append (as_bus app) \<lparr>ar_bus_id = Some (as_bus_id app), ar_payload = Some (Some (Intention
             \<lparr>intention_body = Some (StringIntention intention_text), policy_version_constraint = None\<rparr>))\<rparr> w of
        (Inl e, w1) \<Rightarrow> Some (Inr (Inl e), w1)
      | (Inr intention_id, w1) \<Rightarrow>
          (case env_monotonic_time (as_environment app) w1 of (start, w2) \<Rightarrow>
             Some (Inl (GateWaiting intention_id start (intention_id + 1)), w2)))"
| "gate_turn app (GateWaiting intention_id start next_position) w =
     (case env_monotonic_time (as_environment app) w of (now, w1) \<Rightarrow>
        if as_gate_check_timeout app < now - start then Some (Inr (Inr (gate_timed_out intention_id)), w1)
        else
          (case as_poll app (gate_request app (now - start) next_position) w1 of
             None \<Rightarrow> None
           | Some (Inl e, w2) \<Rightarrow> Some (Inr (Inl e), w2)
           | Some (Inr response, w2) \<Rightarrow>
               (case gate_scan intention_id (bs_entries response) of
                  Some g \<Rightarrow> Some (Inr (Inr g), w2)
                | None \<Rightarrow> Some (Inl (GateWaiting intention_id start (bs_next_start_position response)), w2))))"

text \<open>A gate that runs alone is the gate check.\<close>
partial_function (option) gate_alone :: "'w app_server \<Rightarrow> gate_phase \<Rightarrow> 'w \<Rightarrow> ((bus_error + gate_result) \<times> 'w) option" where
  "gate_alone app phase w =
     (case gate_turn app phase w of
        None \<Rightarrow> None
      | Some (Inr r, w') \<Rightarrow> Some (r, w')
      | Some (Inl phase', w') \<Rightarrow> gate_alone app phase' w')"

section \<open>The worker\<close>

datatype app_op = OpGate string | OpCheckMail | OpAppend payload | OpPoll int int "int list option"

datatype app_reply =
    ReplyGate "bus_error + gate_result"
  | ReplyMail "mail_log_entry list"
  | ReplyAppend "bus_error + int"
  | ReplyPoll "bus_error + poll_response"

text \<open>
  An operation is known by its number in the order of the channel.  Of the operations sent, the first \<open>wk_taken\<close> have left
  the channel; \<open>wk_gates\<close> are the gates under way; \<open>wk_waiting\<close> are the callers that still wait for their reply; the
  replies sent so far say whether somebody was there to receive them.
\<close>
record 'w app_worker =
  wk_world :: 'w
  wk_mailbox :: mailbox
  wk_ops :: "app_op list"
  wk_taken :: nat
  wk_gates :: "(nat \<times> gate_phase) list"
  wk_waiting :: "nat set"
  wk_replies :: "(nat \<times> app_reply \<times> bool) list"

definition app_worker_new :: "string \<Rightarrow> 'w \<Rightarrow> 'w app_worker" where
  "app_worker_new bus_id w = \<lparr>wk_world = w, wk_mailbox = mailbox_new bus_id, wk_ops = [], wk_taken = 0, wk_gates = [],
     wk_waiting = {}, wk_replies = []\<rparr>"

lemma app_worker_new_simps [simp]:
  "wk_world (app_worker_new bus_id w) = w" "wk_mailbox (app_worker_new bus_id w) = mailbox_new bus_id" "wk_ops (app_worker_new bus_id w) = []"
  "wk_taken (app_worker_new bus_id w) = 0" "wk_gates (app_worker_new bus_id w) = []" "wk_waiting (app_worker_new bus_id w) = {}"
  "wk_replies (app_worker_new bus_id w) = []"
  by (simp_all add: app_worker_new_def)

text \<open>\<open>let _ = reply.send(result)\<close>\<close>
definition send_reply :: "nat \<Rightarrow> app_reply \<Rightarrow> 'w app_worker \<Rightarrow> 'w app_worker" where
  "send_reply n reply s = s\<lparr>wk_replies := wk_replies s @ [(n, reply, n \<in> wk_waiting s)], wk_waiting := wk_waiting s - {n}\<rparr>"

text \<open>One turn of the worker's loop, on the operation just received.\<close>
fun serve_op :: "'w app_server \<Rightarrow> nat \<Rightarrow> app_op \<Rightarrow> 'w app_worker \<Rightarrow> 'w app_worker" where
  "serve_op app n (OpGate intention_text) s = s\<lparr>wk_gates := wk_gates s @ [(n, GateStarting intention_text)]\<rparr>"
| "serve_op app n OpCheckMail s =
     (case check_mail (wk_mailbox s) of (messages, mb) \<Rightarrow> send_reply n (ReplyMail messages) (s\<lparr>wk_mailbox := mb\<rparr>))"
| "serve_op app n (OpAppend p) s =
     (case bus_append (as_bus app) \<lparr>ar_bus_id = Some (as_bus_id app), ar_payload = Some p\<rparr> (wk_world s) of (r, w) \<Rightarrow>
        send_reply n (ReplyAppend r) (s\<lparr>wk_world := w\<rparr>))"
| "serve_op app n (OpPoll start max_entries flt) s =
     (case bus_poll (as_bus app) \<lparr>pr_bus_id = Some (as_bus_id app), pr_start_log_position = start, pr_max_entries = max_entries,
             pr_filter = flt\<rparr> (wk_world s) of (r, w) \<Rightarrow>
        send_reply n (ReplyPoll r) (s\<lparr>wk_world := w\<rparr>))"

text \<open>
  The steps: a caller sends an operation or goes away, the worker takes the next one, a gate runs to its next await, the
  mailbox polls, and other tasks change the world.
\<close>
inductive worker_step :: "'w app_server \<Rightarrow> ('w \<Rightarrow> 'w \<Rightarrow> bool) \<Rightarrow> 'w app_worker \<Rightarrow> 'w app_worker \<Rightarrow> bool"
  for app other where
  send: "worker_step app other s (s\<lparr>wk_ops := wk_ops s @ [op], wk_waiting := insert (length (wk_ops s)) (wk_waiting s)\<rparr>)"
| leave: "worker_step app other s (s\<lparr>wk_waiting := wk_waiting s - {n}\<rparr>)"
| serve: "wk_taken s < length (wk_ops s) \<Longrightarrow>
    worker_step app other s (serve_op app (wk_taken s) (wk_ops s ! wk_taken s) (s\<lparr>wk_taken := wk_taken s + 1\<rparr>))"
| gate_goes_on: "wk_gates s = gs @ (n, phase) # gs' \<Longrightarrow> gate_turn app phase (wk_world s) = Some (Inl phase', w) \<Longrightarrow>
    worker_step app other s (s\<lparr>wk_world := w, wk_gates := gs @ (n, phase') # gs'\<rparr>)"
| gate_ends: "wk_gates s = gs @ (n, phase) # gs' \<Longrightarrow> gate_turn app phase (wk_world s) = Some (Inr r, w) \<Longrightarrow>
    worker_step app other s (send_reply n (ReplyGate r) (s\<lparr>wk_world := w, wk_gates := gs @ gs'\<rparr>))"
| mailbox: "poll_and_receive (as_poll app) timeout (wk_world s, wk_mailbox s) = Some (r, (w, mb)) \<Longrightarrow>
    worker_step app other s (s\<lparr>wk_world := w, wk_mailbox := mb\<rparr>)"
| other: "other (wk_world s) w \<Longrightarrow> worker_step app other s (s\<lparr>wk_world := w\<rparr>)"

inductive worker_reachable :: "'w app_server \<Rightarrow> ('w \<Rightarrow> 'w \<Rightarrow> bool) \<Rightarrow> 'w \<Rightarrow> 'w app_worker \<Rightarrow> bool"
  for app other w0 where
  start: "worker_reachable app other w0 (app_worker_new (as_bus_id app) w0)"
| step: "worker_reachable app other w0 s \<Longrightarrow> worker_step app other s s' \<Longrightarrow> worker_reachable app other w0 s'"

section \<open>A gate alone is the gate check\<close>

lemma gate_loop_unfold:
  "gate_loop (as_poll app) (as_environment app) (as_bus_id app) (as_gate_check_timeout app) start i n w =
     (case env_monotonic_time (as_environment app) w of (now, w1) \<Rightarrow>
        if as_gate_check_timeout app < now - start then Some (Inr (gate_timed_out i), w1)
        else
          (case as_poll app (gate_request app (now - start) n) w1 of
             None \<Rightarrow> None
           | Some (Inl e, w2) \<Rightarrow> Some (Inl e, w2)
           | Some (Inr response, w2) \<Rightarrow>
               (case gate_scan i (bs_entries response) of
                  Some g \<Rightarrow> Some (Inr g, w2)
                | None \<Rightarrow> gate_loop (as_poll app) (as_environment app) (as_bus_id app) (as_gate_check_timeout app) start i
                    (bs_next_start_position response) w2)))"
  by (subst gate_loop.simps) (simp only: gate_request_def)

text \<open>The ways a turn of a waiting gate can go.\<close>
lemma gate_turn_cases [consumes 1, case_names late failed decided again]:
  assumes "gate_turn app (GateWaiting i start n) w = Some (out, w')"
  obtains (late) now where "env_monotonic_time (as_environment app) w = (now, w')" "as_gate_check_timeout app < now - start"
      "out = Inr (Inr (gate_timed_out i))"
  | (failed) now w1 e where "env_monotonic_time (as_environment app) w = (now, w1)" "\<not> as_gate_check_timeout app < now - start"
      "as_poll app (gate_request app (now - start) n) w1 = Some (Inl e, w')" "out = Inr (Inl e)"
  | (decided) now w1 resp g where "env_monotonic_time (as_environment app) w = (now, w1)" "\<not> as_gate_check_timeout app < now - start"
      "as_poll app (gate_request app (now - start) n) w1 = Some (Inr resp, w')" "gate_scan i (bs_entries resp) = Some g" "out = Inr (Inr g)"
  | (again) now w1 resp where "env_monotonic_time (as_environment app) w = (now, w1)" "\<not> as_gate_check_timeout app < now - start"
      "as_poll app (gate_request app (now - start) n) w1 = Some (Inr resp, w')" "gate_scan i (bs_entries resp) = None"
      "out = Inl (GateWaiting i start (bs_next_start_position resp))"
proof -
  obtain now w1 where time: "env_monotonic_time (as_environment app) w = (now, w1)" by fastforce
  show thesis
  proof (cases "as_gate_check_timeout app < now - start")
    case True
    then show ?thesis using assms time late by simp
  next
    case False
    then obtain r where call: "as_poll app (gate_request app (now - start) n) w1 = Some (r, w')"
      using assms time by (cases "as_poll app (gate_request app (now - start) n) w1") (simp_all split: prod.splits sum.splits option.splits)
    show ?thesis
    proof (cases r)
      case (Inl e)
      then show ?thesis using failed[OF time False] call assms time False by simp
    next
      case (Inr resp)
      show ?thesis
      proof (cases "gate_scan i (bs_entries resp)")
        case None
        then show ?thesis using again[OF time False] call Inr assms time False by simp
      next
        case (Some g)
        then show ?thesis using decided[OF time False] call Inr assms time False by simp
      qed
    qed
  qed
qed

lemma gate_alone_waiting:
  "gate_alone app (GateWaiting i start n) w =
     gate_loop (as_poll app) (as_environment app) (as_bus_id app) (as_gate_check_timeout app) start i n w"
proof (rule option.exhaust[of "gate_alone app (GateWaiting i start n) w"])
  let ?loop = "gate_loop (as_poll app) (as_environment app) (as_bus_id app) (as_gate_check_timeout app)"
  define Q where "Q app' phase w y \<longleftrightarrow> app' = app \<longrightarrow> (\<forall>n. phase = GateWaiting i start n \<longrightarrow> ?loop start i n w = Some y)"
    for app' phase w and y :: "(bus_error + gate_result) \<times> 'a"
  have down: "?loop start i n w = Some y" if "gate_alone app (GateWaiting i start n) w = Some y" for y
  proof -
    have "Q app (GateWaiting i start n) w y"
    proof (rule gate_alone.raw_induct[OF _ that])
      fix alone app' phase w y
      assume IH: "\<And>app phase w y. alone app phase w = Some y \<Longrightarrow> Q app phase w y"
        and body: "(case gate_turn app' phase w of None \<Rightarrow> None | Some (Inl phase', w') \<Rightarrow> alone app' phase' w' | Some (Inr r, w') \<Rightarrow> Some (r, w')) = Some y"
      show "Q app' phase w y"
        unfolding Q_def
      proof (intro impI allI)
        fix n
        assume app: "app' = app" and phase: "phase = GateWaiting i start n"
        obtain out w' where turn: "gate_turn app (GateWaiting i start n) w = Some (out, w')"
          using body app phase by (cases "gate_turn app' phase w") auto
        from turn show "?loop start i n w = Some y"
        proof (cases rule: gate_turn_cases)
          case (again now w1 resp)
          then have "alone app (GateWaiting i start (bs_next_start_position resp)) w' = Some y"
            using body app phase turn by simp
          then show ?thesis using again IH by (subst gate_loop_unfold) (simp add: Q_def)
        qed (use body app phase turn in \<open>(subst gate_loop_unfold, simp)+\<close>)
      qed
    qed
    then show ?thesis by (simp add: Q_def)
  qed
  define P where "P poll' env' b' (to :: nat) st i n w y \<longleftrightarrow> poll' = as_poll app \<longrightarrow> env' = as_environment app \<longrightarrow> b' = as_bus_id app \<longrightarrow>
      to = as_gate_check_timeout app \<longrightarrow> gate_alone app (GateWaiting i st n) w = Some y"
    for poll' env' b' to st i n w and y :: "(bus_error + gate_result) \<times> 'a"
  have up: "gate_alone app (GateWaiting i start n) w = Some y" if "?loop start i n w = Some y" for y
  proof -
    have "P (as_poll app) (as_environment app) (as_bus_id app) (as_gate_check_timeout app) start i n w y"
    proof (rule gate_loop.raw_induct[OF _ that])
      fix loop poll' env' b' to st i n w y
      assume IH: "\<And>poll env b to st i n w y. loop poll env b to st i n w = Some y \<Longrightarrow> P poll env b to st i n w y"
        and body: "(case env_monotonic_time env' w of (now, w1) \<Rightarrow>
        if to < now - st then Some (Inr (gate_timed_out i), w1)
        else
          (case poll' \<lparr>bp_bus_id = Some b', bp_start_log_position = n, bp_max_entries = 64,
               bp_filter = Some GATE_PAYLOAD_TYPES, bp_timeout_ms = wrap_i32 (int (as_millis (to - (now - st))))\<rparr> w1 of
             None \<Rightarrow> None
           | Some (Inl e, w2) \<Rightarrow> Some (Inl e, w2)
           | Some (Inr response, w2) \<Rightarrow>
               (case gate_scan i (bs_entries response) of
                  Some g \<Rightarrow> Some (Inr g, w2)
                | None \<Rightarrow> loop poll' env' b' to st i (bs_next_start_position response) w2))) = Some y"
      show "P poll' env' b' to st i n w y"
        unfolding P_def
      proof (intro impI)
        assume eqs: "poll' = as_poll app" "env' = as_environment app" "b' = as_bus_id app" "to = as_gate_check_timeout app"
        obtain now w1 where time: "env_monotonic_time (as_environment app) w = (now, w1)" by fastforce
        show "gate_alone app (GateWaiting i st n) w = Some y"
        proof (cases "as_gate_check_timeout app < now - st")
          case True
          then show ?thesis using body time eqs by (subst gate_alone.simps) simp
        next
          case False
          then have turn: "(case as_poll app (gate_request app (now - st) n) w1 of
             None \<Rightarrow> None
           | Some (Inl e, w2) \<Rightarrow> Some (Inl e, w2)
           | Some (Inr response, w2) \<Rightarrow>
               (case gate_scan i (bs_entries response) of
                  Some g \<Rightarrow> Some (Inr g, w2)
                | None \<Rightarrow> loop poll' env' b' to st i (bs_next_start_position response) w2)) = Some y"
            using body time eqs by (simp only: gate_request_def prod.case if_False)
          then obtain r w2 where call: "as_poll app (gate_request app (now - st) n) w1 = Some (r, w2)"
            by (cases "as_poll app (gate_request app (now - st) n) w1") auto
          show ?thesis
          proof (cases r)
            case (Inl e)
            then show ?thesis using turn call time False by (subst gate_alone.simps) simp
          next
            case (Inr resp)
            then show ?thesis using turn call time False IH eqs
              by (subst gate_alone.simps) (cases "gate_scan i (bs_entries resp)"; simp add: P_def)
          qed
        qed
      qed
    qed
    then show ?thesis by (simp add: P_def)
  qed
  show ?thesis if "gate_alone app (GateWaiting i start n) w = None"
    using that up by (cases "?loop start i n w") auto
  show ?thesis if "gate_alone app (GateWaiting i start n) w = Some y" for y
    using that down by simp
qed

lemma gate_alone_check: "gate_alone app (GateStarting t) w = gate_check app t w"
  by (subst gate_alone.simps)
    (auto simp: gate_check_def gate_check_for_bus_def gate_alone_waiting split: prod.split sum.split)

section \<open>Every operation is answered once\<close>

definition answered :: "'w app_worker \<Rightarrow> nat list" where
  "answered s = map fst (wk_replies s)"

definition under_way :: "'w app_worker \<Rightarrow> nat list" where
  "under_way s = map fst (wk_gates s)"

text \<open>What has left the channel is answered or a gate under way, once; a caller waits only for what is not answered.\<close>
definition worker_counts :: "'w app_worker \<Rightarrow> bool" where
  "worker_counts s \<longleftrightarrow> wk_taken s \<le> length (wk_ops s) \<and> distinct (answered s @ under_way s) \<and>
     set (answered s @ under_way s) = {..<wk_taken s} \<and> wk_waiting s \<subseteq> {..<length (wk_ops s)} - set (answered s)"

lemma send_reply_simps [simp]:
  "wk_world (send_reply n r s) = wk_world s" "wk_mailbox (send_reply n r s) = wk_mailbox s" "wk_ops (send_reply n r s) = wk_ops s"
  "wk_taken (send_reply n r s) = wk_taken s" "wk_gates (send_reply n r s) = wk_gates s"
  "wk_waiting (send_reply n r s) = wk_waiting s - {n}"
  "wk_replies (send_reply n r s) = wk_replies s @ [(n, r, n \<in> wk_waiting s)]"
  by (simp_all add: send_reply_def)

lemma counts_taken:
  assumes "worker_counts s" "wk_taken s < length (wk_ops s)"
  shows "worker_counts (serve_op app (wk_taken s) op (s\<lparr>wk_taken := wk_taken s + 1\<rparr>))"
proof -
  have new: "wk_taken s \<notin> set (answered s @ under_way s)" using assms(1) by (simp add: worker_counts_def)
  show ?thesis
    using assms new
    by (cases op) (auto simp: worker_counts_def answered_def under_way_def lessThan_Suc split: prod.split)
qed

lemma counts_step:
  assumes "worker_step app other s s'" "worker_counts s"
  shows "worker_counts s'"
  using assms(1)
proof (cases rule: worker_step.cases)
  case (send op)
  have "length (wk_ops s) \<notin> set (answered s @ under_way s)" using assms(2) by (simp add: worker_counts_def)
  then show ?thesis using assms(2) send by (auto simp: worker_counts_def answered_def under_way_def)
next
  case (gate_goes_on gs n phase gs' phase' w)
  then show ?thesis using assms(2) by (simp add: worker_counts_def answered_def under_way_def)
next
  case (gate_ends gs n phase gs' r w)
  then show ?thesis using assms(2) by (auto simp: worker_counts_def answered_def under_way_def)
next
  case serve
  then show ?thesis using counts_taken[OF assms(2)] by simp
qed (use assms(2) in \<open>auto simp: worker_counts_def answered_def under_way_def\<close>)

lemma counts_reachable: "worker_reachable app other w0 s \<Longrightarrow> worker_counts s"
proof (induction rule: worker_reachable.induct)
  case start
  show ?case by (simp add: worker_counts_def app_worker_new_def answered_def under_way_def)
qed (rule counts_step)

section \<open>What the replies say\<close>

text \<open>The mail the worker has handed out, in the order of its replies.\<close>
definition handed_out :: "'w app_worker \<Rightarrow> mail_log_entry list" where
  "handed_out s = concat (map (\<lambda>(n, r, got). case r of ReplyMail ms \<Rightarrow> ms | _ \<Rightarrow> []) (wk_replies s))"

text \<open>A gate's answer: its intention is on the log, and the answer is its first decision there, unless time ran out.\<close>
definition gate_reported :: "bus_entry list \<Rightarrow> string \<Rightarrow> gate_result \<Rightarrow> bool" where
  "gate_reported es t g \<longleftrightarrow> 0 \<le> gr_intention_id g \<and> gr_intention_id g < int (length es) \<and>
     entry_payload (es ! nat (gr_intention_id g)) =
       Some (Some (Intention \<lparr>intention_body = Some (StringIntention t), policy_version_constraint = None\<rparr>)) \<and>
     (first_decision es (gr_intention_id g + 1) (gr_intention_id g) (gate_outcome g) \<or>
      \<not> gr_approved g \<and> gr_reason g = ''Gate check timed out'')"

text \<open>The first matching entries of the log from the start on, up to the limit of a poll, and whether there is no further one.\<close>
definition poll_true :: "bus_entry list \<Rightarrow> int \<Rightarrow> int \<Rightarrow> int list option \<Rightarrow> poll_response \<Rightarrow> bool" where
  "poll_true es start max_entries flt resp \<longleftrightarrow>
     (let m = min (as_usize max_entries) MAX_POLL_ENTRIES; hits = filter (entry_matches flt) (drop (nat start) es)
      in ps_entries resp = take m hits \<and> ps_complete resp = (length hits \<le> m))"

text \<open>A reply that is true of the log at its moment.\<close>
fun reply_true :: "bus_entry list \<Rightarrow> app_op \<Rightarrow> app_reply \<Rightarrow> bool" where
  "reply_true es (OpGate t) (ReplyGate r) \<longleftrightarrow> (\<forall>g. r = Inr g \<longrightarrow> gate_reported es t g)"
| "reply_true es OpCheckMail (ReplyMail ms) \<longleftrightarrow> set ms \<subseteq> set (mails es)"
| "reply_true es (OpAppend p) (ReplyAppend r) \<longleftrightarrow>
     (\<forall>pos. r = Inr pos \<longrightarrow> 0 \<le> pos \<and> pos < int (length es) \<and> entry_payload (es ! nat pos) = Some p)"
| "reply_true es (OpPoll start max_entries flt) (ReplyPoll r) \<longleftrightarrow> (\<forall>resp. r = Inr resp \<longrightarrow> poll_true es start max_entries flt resp)"
| "reply_true es _ _ \<longleftrightarrow> False"

lemma subseq_set: "subseq xs ys \<Longrightarrow> set xs \<subseteq> set ys"
  by (induction xs ys rule: list_emb.induct) auto

lemma prefix_nth_same: "prefix es es' \<Longrightarrow> 0 \<le> i \<Longrightarrow> i < int (length es) \<Longrightarrow> es' ! nat i = es ! nat i \<and> i < int (length es')"
  by (auto simp: prefix_def nth_append)

text \<open>
  The log at the moment of the reply to operation \<open>k\<close> had a length \<open>n\<close>: at least that of the log the worker started with,
  and beyond every append with a smaller number that was answered with a position.
\<close>
definition answered_at :: "nat \<Rightarrow> bus_entry list \<Rightarrow> (nat \<times> app_reply \<times> bool) list \<Rightarrow> nat \<Rightarrow> app_op \<Rightarrow> app_reply \<Rightarrow> bool" where
  "answered_at base es replies k op reply \<longleftrightarrow> (\<exists>n. base \<le> n \<and> n \<le> length es \<and> reply_true (take n es) op reply \<and>
     (\<forall>m pos got. (m, ReplyAppend (Inr pos), got) \<in> set replies \<longrightarrow> m < k \<longrightarrow> pos < int n))"

lemma answered_at_prefix:
  assumes "answered_at base es replies k op reply" "prefix es es'"
  shows "answered_at base es' replies k op reply"
proof -
  obtain n where "base \<le> n" "n \<le> length es" "reply_true (take n es) op reply"
      "\<forall>m pos got. (m, ReplyAppend (Inr pos), got) \<in> set replies \<longrightarrow> m < k \<longrightarrow> pos < int n"
    using assms(1) unfolding answered_at_def by blast
  moreover from this have "take n es' = take n es" "n \<le> length es'" using assms(2) by (auto simp: prefix_def)
  ultimately show ?thesis unfolding answered_at_def by metis
qed

text \<open>A later reply is to an operation that no answered one follows, or no append.\<close>
lemma answered_at_later:
  assumes "answered_at base es replies k op reply" "\<And>pos. r = ReplyAppend (Inr pos) \<Longrightarrow> k \<le> n"
  shows "answered_at base es (replies @ [(n, r, got)]) k op reply"
  using assms unfolding answered_at_def by fastforce

lemma answered_at_append:
  assumes "answered_at base es replies k op (ReplyAppend (Inr pos))"
  shows "pos < int (length es) \<and> (\<exists>p. op = OpAppend p)"
  using assms unfolding answered_at_def by (cases op) auto

text \<open>Appends are logged in the order in which they were sent.\<close>
definition appends_in_order :: "(nat \<times> app_reply \<times> bool) list \<Rightarrow> bool" where
  "appends_in_order replies \<longleftrightarrow> (\<forall>m n pos pos' got got'. (m, ReplyAppend (Inr pos), got) \<in> set replies \<longrightarrow>
     (n, ReplyAppend (Inr pos'), got') \<in> set replies \<longrightarrow> m < n \<longrightarrow> pos < pos')"

lemma handed_out_simps [simp]:
  "handed_out (send_reply n r s) = handed_out s @ (case r of ReplyMail ms \<Rightarrow> ms | _ \<Rightarrow> [])"
  "handed_out (s\<lparr>wk_world := w\<rparr>) = handed_out s" "handed_out (s\<lparr>wk_mailbox := mb\<rparr>) = handed_out s"
  "handed_out (s\<lparr>wk_gates := gs\<rparr>) = handed_out s" "handed_out (s\<lparr>wk_waiting := ns\<rparr>) = handed_out s"
  "handed_out (s\<lparr>wk_ops := ops\<rparr>) = handed_out s" "handed_out (s\<lparr>wk_taken := k\<rparr>) = handed_out s"
  by (simp_all add: handed_out_def)

text \<open>The worker over any polled bus whose \<open>poll\<close> reads the log at some moment.\<close>
locale worker_env = gate_env "as_bus app" log inv evolves "as_poll app" "as_environment app"
  for app :: "'w app_server" and log inv evolves +
  assumes poll_moves: "moves evolves (bus_poll (as_bus app) req3)"
    and poll_reads: "inv w \<Longrightarrow> bus_poll (as_bus app) \<lparr>pr_bus_id = Some bid, pr_start_log_position = start, pr_max_entries = max_entries,
        pr_filter = flt\<rparr> w = (Inr resp, w') \<Longrightarrow>
      \<exists>n. length (log w bid) \<le> n \<and> n \<le> length (log w' bid) \<and> poll_true (take n (log w' bid)) start max_entries flt resp"
begin

abbreviation b :: string where "b \<equiv> as_bus_id app"

definition phase_ok :: "'w \<Rightarrow> app_op \<Rightarrow> gate_phase \<Rightarrow> bool" where
  "phase_ok w op phase \<longleftrightarrow> (\<exists>t. op = OpGate t \<and>
     (case phase of
        GateStarting t' \<Rightarrow> t' = t
      | GateWaiting i start n \<Rightarrow> scanned_to b i n w \<and> entry_payload (log w b ! nat i) =
          Some (Some (Intention \<lparr>intention_body = Some (StringIntention t), policy_version_constraint = None\<rparr>))))"

definition worker_ok :: "nat \<Rightarrow> 'w app_worker \<Rightarrow> bool" where
  "worker_ok base s \<longleftrightarrow> base \<le> length (log (wk_world s) b) \<and> inv (wk_world s) \<and> mx_agent_bus_id (wk_mailbox s) = b \<and>
     mailbox_tracks (log (wk_world s) b) (handed_out s) (wk_mailbox s) \<and>
     (\<forall>(n, phase) \<in> set (wk_gates s). phase_ok (wk_world s) (wk_ops s ! n) phase) \<and>
     (\<forall>(n, r, got) \<in> set (wk_replies s). answered_at base (log (wk_world s) b) (wk_replies s) n (wk_ops s ! n) r) \<and>
     appends_in_order (wk_replies s)"

lemma phase_ok_evolves:
  assumes "phase_ok w op phase" "evolves w w'" "inv w"
  shows "phase_ok w' op phase"
proof (cases phase)
  case (GateWaiting i start n)
  then have at: "scanned_to b i n w" using assms(1) by (auto simp: phase_ok_def)
  then have "log w' b ! nat i = log w b ! nat i"
    using prefix_nth_same[OF evolves_log[OF assms(2,3)], of i b] by (simp add: scanned_to_def)
  then show ?thesis using assms(1) scanned_to_evolves[OF assms(2) at] GateWaiting by (auto simp: phase_ok_def)
qed (use assms(1) in \<open>simp add: phase_ok_def\<close>)

lemma ok_evolves:
  assumes "worker_ok base s" "evolves (wk_world s) w"
  shows "worker_ok base (s\<lparr>wk_world := w\<rparr>)"
proof -
  have i: "inv (wk_world s)" using assms(1) by (simp add: worker_ok_def)
  note pre = evolves_log[OF assms(2) i, of b]
  have "answered_at base (log w b) (wk_replies s) n (wk_ops s ! n) r" if "(n, r, got) \<in> set (wk_replies s)" for n r got
    using assms(1) that answered_at_prefix[OF _ pre] by (fastforce simp: worker_ok_def)
  moreover have "phase_ok w (wk_ops s ! n) phase" if "(n, phase) \<in> set (wk_gates s)" for n phase
    using assms(1) that phase_ok_evolves[OF _ assms(2) i] by (fastforce simp: worker_ok_def)
  moreover have "base \<le> length (log w b)" using assms(1) prefix_length_le[OF pre] by (simp add: worker_ok_def)
  ultimately show ?thesis
    using assms(1) evolves_inv[OF assms(2) i] mailbox_tracks_prefix[OF _ pre]
    by (auto simp: worker_ok_def)
qed

text \<open>A reply that is true of the log at a moment after the appends answered before; an append comes after everything answered.\<close>
lemma ok_reply:
  assumes "worker_ok base s" "answered_at base (log (wk_world s) b) (wk_replies s) n (wk_ops s ! n) r" "\<And>ms. r \<noteq> ReplyMail ms"
    and "\<And>pos m r' got. r = ReplyAppend (Inr pos) \<Longrightarrow> (m, r', got) \<in> set (wk_replies s) \<Longrightarrow>
      m < n \<and> (\<forall>pos'. r' = ReplyAppend (Inr pos') \<longrightarrow> pos' < pos)"
  shows "worker_ok base (send_reply n r s)"
proof -
  let ?es = "log (wk_world s) b" and ?new = "(n, r, n \<in> wk_waiting s)"
  have "appends_in_order (wk_replies s @ [?new])"
    unfolding appends_in_order_def
  proof (intro allI impI)
    fix m k pos pos' got got'
    assume m: "(m, ReplyAppend (Inr pos), got) \<in> set (wk_replies s @ [?new])"
      and k: "(k, ReplyAppend (Inr pos'), got') \<in> set (wk_replies s @ [?new])" and "m < k"
    have old: "pos < pos'" if "(m, ReplyAppend (Inr pos), got) \<in> set (wk_replies s)" "(k, ReplyAppend (Inr pos'), got') \<in> set (wk_replies s)"
      using assms(1) that \<open>m < k\<close> unfolding worker_ok_def appends_in_order_def by blast
    consider "(m, ReplyAppend (Inr pos), got) \<in> set (wk_replies s)" "(k, ReplyAppend (Inr pos'), got') \<in> set (wk_replies s)"
      | "(m, ReplyAppend (Inr pos), got) \<in> set (wk_replies s)" "k = n" "r = ReplyAppend (Inr pos')"
      | "m = n" "r = ReplyAppend (Inr pos)" "(k, ReplyAppend (Inr pos'), got') \<in> set (wk_replies s)"
      using m k \<open>m < k\<close> by auto
    then show "pos < pos'"
    proof cases
      case 3
      then show ?thesis using assms(4)[OF 3(2,3)] \<open>m < k\<close> by simp
    qed (use old assms(4) in blast)+
  qed
  moreover have "handed_out (send_reply n r s) = handed_out s" using assms(3) by (cases r) auto
  moreover have "answered_at base ?es (wk_replies s @ [?new]) k (wk_ops s ! k) r'" if "(k, r', got) \<in> set (wk_replies s)" for k r' got
  proof (rule answered_at_later)
    show "answered_at base ?es (wk_replies s) k (wk_ops s ! k) r'" using assms(1) that by (fastforce simp: worker_ok_def)
    show "k \<le> n" if "r = ReplyAppend (Inr pos)" for pos using assms(4)[OF that \<open>(k, r', got) \<in> set (wk_replies s)\<close>] by simp
  qed
  moreover have "answered_at base ?es (wk_replies s @ [?new]) n (wk_ops s ! n) r"
    by (rule answered_at_later[OF assms(2)]) simp
  ultimately show ?thesis using assms(1) by (auto simp: worker_ok_def)
qed

text \<open>A reply that is true of the log now comes after every append answered before.\<close>
lemma answered_now:
  assumes "worker_ok base s" "reply_true (log (wk_world s) b) op r"
  shows "answered_at base (log (wk_world s) b) (wk_replies s) n op r"
proof -
  have "pos < int (length (log (wk_world s) b))" if "(m, ReplyAppend (Inr pos), got) \<in> set (wk_replies s)" for m pos got
    using assms(1) that answered_at_append by (fastforce simp: worker_ok_def)
  then show ?thesis using assms unfolding answered_at_def worker_ok_def
    by (intro exI[of _ "length (log (wk_world s) b)"]) auto
qed

lemma ok_gate:
  assumes "phase_ok w op phase" "inv w" "gate_turn app phase w = Some (out, w')"
  shows "evolves w w' \<and> (case out of Inl phase' \<Rightarrow> phase_ok w' op phase' | Inr r \<Rightarrow> reply_true (log w' b) op (ReplyGate r))"
proof (cases phase)
  case (GateStarting t')
  then have op: "op = OpGate t'" using assms(1) by (auto simp: phase_ok_def)
  let ?p = "Some (Intention \<lparr>intention_body = Some (StringIntention t'), policy_version_constraint = None\<rparr>)"
  obtain r w1 where call: "bus_append (as_bus app) \<lparr>ar_bus_id = Some b, ar_payload = Some ?p\<rparr> w = (r, w1)" by fastforce
  have e1: "evolves w w1" using movesD[OF append_evolves call] .
  show ?thesis
  proof (cases r)
    case (Inl e)
    then show ?thesis using assms(3) GateStarting call e1 op by auto
  next
    case (Inr i)
    obtain start w2 where time: "env_monotonic_time (as_environment app) w1 = (start, w2)" by fastforce
    have law: "int (length (log w b)) \<le> i" "i < int (length (log w1 b))" "entry_payload (log w1 b ! nat i) = Some ?p"
      using append_law[OF assms(2) call[unfolded Inr]] by auto
    have e2: "evolves w1 w2" using clock_evolves[OF time] .
    have i1: "inv w1" using evolves_inv[OF e1 assms(2)] .
    have "scanned_to b i (i + 1) w1" using law(1,2) i1 by (simp add: scanned_to_def)
    then have "phase_ok w1 op (GateWaiting i start (i + 1))" using law(3) op by (simp add: phase_ok_def)
    from phase_ok_evolves[OF this e2 i1] show ?thesis
      using assms(3) GateStarting call Inr time evolves_trans[OF e1 e2] by auto
  qed
next
  case (GateWaiting i start n)
  then obtain t where op: "op = OpGate t" and at: "scanned_to b i n w"
    and logged: "entry_payload (log w b ! nat i) =
      Some (Some (Intention \<lparr>intention_body = Some (StringIntention t), policy_version_constraint = None\<rparr>))"
    using assms(1) by (auto simp: phase_ok_def)
  have i: "0 \<le> i" "i < int (length (log w b))" using at by (auto simp: scanned_to_def)
  have same: "entry_payload (log w'' b ! nat i) = Some (Some (Intention \<lparr>intention_body = Some (StringIntention t), policy_version_constraint = None\<rparr>))
      \<and> i < int (length (log w'' b))" if "evolves w w''" for w''
    using prefix_nth_same[OF evolves_log[OF that assms(2)] i] logged by simp
  have reported: "gate_reported (log w'' b) t g" if "evolves w w''" "gate_answer b i g w''" for w'' g
  proof (cases "g = gate_timed_out i")
    case True
    then show ?thesis using same[OF that(1)] i(1) by (simp add: gate_reported_def gate_timed_out_def)
  next
    case False
    then have "gate_scan i (drop (nat (i + 1)) (log w'' b)) = Some g" using that(2) by (simp add: gate_answer_def)
    note first = gate_scan_first[OF this]
    then have "first_decision (log w'' b) (int (nat (i + 1))) i (gate_outcome g)" using first_decision_drop by blast
    then show ?thesis using first same[OF that(1)] i(1) by (simp add: gate_reported_def)
  qed
  from assms(3)[unfolded GateWaiting] show ?thesis
  proof (cases rule: gate_turn_cases)
    case (late now)
    then show ?thesis using reported[of w' "gate_timed_out i"] clock_evolves op by (simp add: gate_answer_def)
  next
    case (failed now w1 e)
    then show ?thesis using op clock_evolves poll_law evolves_trans by (fastforce simp: polled_def)
  next
    case (decided now w1 resp g)
    have e1: "evolves w w1" using clock_evolves decided(1) .
    note law = gate_poll[OF scanned_to_evolves[OF e1 at] decided(3)[unfolded gate_request_def]]
    have "evolves w w'" using evolves_trans[OF e1 law(1)] .
    then show ?thesis using reported[OF _ law(2)[OF decided(4)]] op decided(5) by simp
  next
    case (again now w1 resp)
    have e1: "evolves w w1" using clock_evolves again(1) .
    note law = gate_poll[OF scanned_to_evolves[OF e1 at] again(3)[unfolded gate_request_def]]
    have "evolves w w'" using evolves_trans[OF e1 law(1)] .
    then show ?thesis using law(3)[OF again(4)] same op again(5) by (simp add: phase_ok_def)
  qed
qed

lemma ok_serve:
  assumes "worker_ok base s" "worker_counts s" "wk_taken s < length (wk_ops s)"
  shows "worker_ok base (serve_op app (wk_taken s) (wk_ops s ! wk_taken s) (s\<lparr>wk_taken := wk_taken s + 1\<rparr>))"
proof -
  let ?n = "wk_taken s" and ?s = "s\<lparr>wk_taken := wk_taken s + 1\<rparr>" and ?es = "log (wk_world s) b"
  have ok: "worker_ok base ?s" using assms(1) by (simp add: worker_ok_def)
  have i: "inv (wk_world s)" using assms(1) by (simp add: worker_ok_def)
  have before: "m < ?n" if "(m, r, got) \<in> set (wk_replies s)" for m r got
  proof -
    have "m \<in> set (answered s @ under_way s)" using that by (force simp: answered_def)
    then show ?thesis using assms(2) unfolding worker_counts_def by (metis lessThan_iff)
  qed
  have old: "pos < int (length ?es)" if "(m, ReplyAppend (Inr pos), got) \<in> set (wk_replies s)" for m pos got
    using assms(1) that answered_at_append by (fastforce simp: worker_ok_def)
  show ?thesis
  proof (cases "wk_ops s ! ?n")
    case (OpGate t)
    then show ?thesis using ok by (auto simp: worker_ok_def phase_ok_def)
  next
    case OpCheckMail
    let ?mails = "mx_mail (wk_mailbox s)"
    have tracks: "mailbox_tracks ?es (handed_out s) (wk_mailbox s)" using assms(1) by (simp add: worker_ok_def)
    then have "subseq (handed_out s @ ?mails) (mails (segment ?es 0 (mx_next_log_position (wk_mailbox s))))"
      by (simp add: mailbox_tracks_def Let_def)
    then have "set (handed_out s @ ?mails) \<subseteq> set (mails (segment ?es 0 (mx_next_log_position (wk_mailbox s))))"
      by (rule subseq_set)
    moreover have "set (mails (segment ?es 0 c)) \<subseteq> set (mails ?es)" for c
      using mails_simps(2)[of "segment ?es 0 c" "drop (nat c) ?es"] by (simp add: segment_def)
    ultimately have "reply_true ?es (wk_ops s ! ?n) (ReplyMail ?mails)" using OpCheckMail by auto
    then have now: "answered_at base ?es (wk_replies s) ?n (wk_ops s ! ?n) (ReplyMail ?mails)" by (rule answered_now[OF assms(1)])
    have "answered_at base ?es (wk_replies s @ [(?n, ReplyMail ?mails, got)]) k (wk_ops s ! k) r"
      if "(k, r, got') \<in> set (wk_replies s)" for k r got got'
      using that assms(1) by (intro answered_at_later) (fastforce simp: worker_ok_def)+
    moreover have "answered_at base ?es (wk_replies s @ [(?n, ReplyMail ?mails, got)]) ?n OpCheckMail (ReplyMail ?mails)" for got
      using now OpCheckMail by (intro answered_at_later) simp_all
    ultimately show ?thesis using ok OpCheckMail
      by (auto simp: worker_ok_def check_mail_def mailbox_tracks_def Let_def appends_in_order_def)
  next
    case (OpAppend p)
    obtain r w where call: "bus_append (as_bus app) \<lparr>ar_bus_id = Some b, ar_payload = Some p\<rparr> (wk_world s) = (r, w)" by fastforce
    have ev: "evolves (wk_world s) w" using movesD[OF append_evolves call] .
    have pos: "int (length ?es) \<le> pos \<and> pos < int (length (log w b)) \<and> entry_payload (log w b ! nat pos) = Some p"
      if "r = Inr pos" for pos using append_law[OF i call[unfolded that]] .
    have ok': "worker_ok base (?s\<lparr>wk_world := w\<rparr>)" by (rule ok_evolves[OF ok]) (simp add: ev)
    have "worker_ok base (send_reply ?n (ReplyAppend r) (?s\<lparr>wk_world := w\<rparr>))"
    proof (rule ok_reply[OF ok'])
      have "reply_true (log w b) (wk_ops s ! ?n) (ReplyAppend r)"
        using OpAppend pos by (auto intro: order_trans[OF of_nat_0_le_iff])
      then show "answered_at base (log (wk_world (?s\<lparr>wk_world := w\<rparr>)) b) (wk_replies (?s\<lparr>wk_world := w\<rparr>)) ?n (wk_ops (?s\<lparr>wk_world := w\<rparr>) ! ?n) (ReplyAppend r)"
        using answered_now[OF ok'] by simp
    qed (use before old pos in \<open>fastforce+\<close>)
    then show ?thesis using OpAppend call by simp
  next
    case (OpPoll start max_entries flt)
    obtain r w where call: "bus_poll (as_bus app) \<lparr>pr_bus_id = Some b, pr_start_log_position = start, pr_max_entries = max_entries,
        pr_filter = flt\<rparr> (wk_world s) = (r, w)" by fastforce
    have ev: "evolves (wk_world s) w" using movesD[OF poll_moves call] .
    have ok': "worker_ok base (?s\<lparr>wk_world := w\<rparr>)" by (rule ok_evolves[OF ok]) (simp add: ev)
    have "worker_ok base (send_reply ?n (ReplyPoll r) (?s\<lparr>wk_world := w\<rparr>))"
    proof (rule ok_reply[OF ok'])
      show "answered_at base (log (wk_world (?s\<lparr>wk_world := w\<rparr>)) b) (wk_replies (?s\<lparr>wk_world := w\<rparr>)) ?n (wk_ops (?s\<lparr>wk_world := w\<rparr>) ! ?n) (ReplyPoll r)"
      proof (cases r)
        case (Inl e)
        then show ?thesis using answered_now[OF ok', of "wk_ops s ! ?n"] OpPoll by simp
      next
        case (Inr resp)
        from poll_reads[OF i call[unfolded Inr]] obtain n where n: "length ?es \<le> n" "n \<le> length (log w b)"
          "poll_true (take n (log w b)) start max_entries flt resp" by blast
        moreover have "base \<le> n" using n(1) assms(1) by (simp add: worker_ok_def)
        ultimately show ?thesis using OpPoll Inr old unfolding answered_at_def
          by (intro exI[of _ n]) (fastforce intro: order_less_le_trans)
      qed
    qed simp_all
    then show ?thesis using OpPoll call by simp
  qed
qed

lemma ok_step:
  assumes "worker_step app evolves s s'" "worker_ok base s" "worker_counts s"
  shows "worker_ok base s'"
  using assms(1)
proof (cases rule: worker_step.cases)
  case (send op)
  have "n < length (wk_ops s)" if "n \<in> set (answered s @ under_way s)" for n
    using assms(3) that by (auto simp: worker_counts_def)
  then have same: "(wk_ops s @ [op]) ! n = wk_ops s ! n" if "n \<in> set (answered s @ under_way s)" for n
    using that by (simp add: nth_append)
  then have "(wk_ops s @ [op]) ! n = wk_ops s ! n" if "(n, x) \<in> set (wk_gates s)" for n x
    using that by (force simp: under_way_def)
  moreover have "(wk_ops s @ [op]) ! n = wk_ops s ! n" if "(n, x) \<in> set (wk_replies s)" for n x
    using that same by (force simp: answered_def)
  ultimately show ?thesis using assms(2) send by (fastforce simp: worker_ok_def)
next
  case (leave n)
  then show ?thesis using assms(2) by (simp add: worker_ok_def)
next
  case serve
  then show ?thesis using ok_serve[OF assms(2,3)] by simp
next
  case (gate_goes_on gs n phase gs' phase' w)
  have "phase_ok (wk_world s) (wk_ops s ! n) phase" "inv (wk_world s)"
    using assms(2) gate_goes_on(2) by (auto simp: worker_ok_def)
  from ok_gate[OF this gate_goes_on(3)] have g: "evolves (wk_world s) w" "phase_ok w (wk_ops s ! n) phase'" by simp_all
  from ok_evolves[OF assms(2) g(1)] show ?thesis using gate_goes_on g(2) by (auto simp: worker_ok_def)
next
  case (gate_ends gs n phase gs' r w)
  have "phase_ok (wk_world s) (wk_ops s ! n) phase" "inv (wk_world s)"
    using assms(2) gate_ends(2) by (auto simp: worker_ok_def)
  from ok_gate[OF this gate_ends(3)] have g: "evolves (wk_world s) w" "reply_true (log w b) (wk_ops s ! n) (ReplyGate r)" by simp_all
  from ok_evolves[OF assms(2) g(1)] have ok: "worker_ok base (s\<lparr>wk_world := w, wk_gates := gs @ gs'\<rparr>)"
    using gate_ends(2) by (auto simp: worker_ok_def)
  show ?thesis unfolding gate_ends(1) by (rule ok_reply[OF ok answered_now[OF ok]]) (simp_all add: g(2))
next
  case (mailbox timeout r w mb)
  have "inv (wk_world s)" "mx_agent_bus_id (wk_mailbox s) = b" "mailbox_tracks (log (wk_world s) b) (handed_out s) (wk_mailbox s)"
    using assms(2) by (simp_all add: worker_ok_def)
  from receive_step[OF mailbox(2) this] have g: "evolves (wk_world s) w" "mx_agent_bus_id mb = b" "mailbox_tracks (log w b) (handed_out s) mb" by simp_all
  from ok_evolves[OF assms(2) g(1)] show ?thesis using mailbox(1) g(2,3) by (auto simp: worker_ok_def)
next
  case (other w)
  then show ?thesis using ok_evolves[OF assms(2)] by simp
qed

lemma ok_reachable:
  assumes "worker_reachable app evolves w0 s" "inv w0"
  shows "worker_ok (length (log w0 b)) s"
  using assms
proof (induction rule: worker_reachable.induct)
  case start
  have "mailbox_tracks (log w0 b) [] (mailbox_new b)" "mx_agent_bus_id (mailbox_new b) = b"
    by (simp_all add: mailbox_new_def mailbox_tracks_def Let_def)
  moreover have "handed_out (app_worker_new b w0) = []" by (simp add: handed_out_def)
  moreover have "appends_in_order []" by (simp add: appends_in_order_def)
  ultimately show ?case using start by (simp add: worker_ok_def)
next
  case (step s s')
  show ?case by (rule ok_step[OF step.hyps(2) _ counts_reachable[OF step.hyps(1)]]) (use step in blast)
qed

end

lemma mem_poll_evolves:
  assumes "clock_keeps_buses (mb_environment mb)"
  shows "moves mem_evolves (mem_poll mb req)"
  unfolding moves_def mem_poll_def
  using mem_check_buses[OF assms]
  by (auto simp: mem_evolves_same split: sum.split prod.split)

text \<open>A scan that meets no expired entry is the scan without expiry.\<close>
lemma fetch_scan_live: "fetch_scan chk flt m acc ss = Inr x \<Longrightarrow> fetch_scan None flt m acc ss = Inr x"
  by (induction chk flt m acc ss rule: fetch_scan.induct)
    (auto simp: stored_is_live_def[of _ None] split: if_splits option.splits)

lemma state_poll_live:
  assumes "state_poll bs \<lparr>pr_bus_id = Some b, pr_start_log_position = start, pr_max_entries = max_entries, pr_filter = flt\<rparr> chk = Inr resp"
  shows "poll_true (map se_entry (stored bs b)) start max_entries flt resp"
proof -
  let ?req = "\<lparr>pr_bus_id = Some b, pr_start_log_position = start, pr_max_entries = max_entries, pr_filter = flt\<rparr>"
  have "state_poll bs ?req None = Inr resp"
    using assms fetch_scan_live
    by (fastforce simp: state_poll_def fetch_entries_def Let_def split: if_splits option.splits sum.splits)
  then show ?thesis unfolding poll_reference by (auto simp: poll_true_def Let_def split: if_splits)
qed

lemma mem_poll_reads:
  assumes "clock_keeps_buses (mb_environment mb)"
    and "mem_poll mb \<lparr>pr_bus_id = Some b, pr_start_log_position = start, pr_max_entries = max_entries, pr_filter = flt\<rparr> w = (Inr resp, w')"
  shows "poll_true (mem_log w' b) start max_entries flt resp \<and> length (mem_log w b) \<le> length (mem_log w' b)"
proof -
  obtain chk where "state_poll (mw_buses w') \<lparr>pr_bus_id = Some b, pr_start_log_position = start, pr_max_entries = max_entries, pr_filter = flt\<rparr> chk = Inr resp"
    using assms(2) by (auto simp: mem_poll_def split: if_splits prod.splits)
  moreover have "length (mem_log w b) \<le> length (mem_log w' b)"
    using movesD[OF mem_poll_evolves[OF assms(1)] assms(2)] by (auto simp: mem_evolves_def mem_log_def dest: prefix_length_le)
  ultimately show ?thesis using state_poll_live unfolding mem_log_def by blast
qed

text \<open>The application server over the in-memory bus.\<close>
definition memory_app :: "(nat \<Rightarrow> 'z mem_world_scheme \<Rightarrow> nat \<times> 'z mem_world_scheme) \<Rightarrow> nat option \<Rightarrow> string \<Rightarrow> nat
    \<Rightarrow> 'z mem_world_scheme app_server" where
  "memory_app bo ttl bus_id timeout =
     \<lparr>as_bus = memory_bus \<lparr>mb_environment = sim_environment bo, mb_ttl = ttl\<rparr>,
      as_poll = mem_blocking_poll \<lparr>mb_environment = sim_environment bo, mb_ttl = ttl\<rparr>, as_bus_id = bus_id,
      as_environment = sim_environment bo, as_gate_check_timeout = timeout\<rparr>"

lemma memory_app_bus_id [simp]: "as_bus_id (memory_app bo ttl bus_id timeout) = bus_id"
  by (simp add: memory_app_def)

interpretation memory_worker: worker_env "memory_app bo ttl bus_id timeout" mem_log mem_inv mem_evolves
  for bo ttl bus_id timeout
proof -
  have gate: "gate_env (as_bus (memory_app bo ttl bus_id timeout)) mem_log mem_inv mem_evolves (as_poll (memory_app bo ttl bus_id timeout))
      (as_environment (memory_app bo ttl bus_id timeout))"
    using mem_gate.gate_env_axioms by (simp add: memory_app_def sim_is_shared)
  then show "worker_env (memory_app bo ttl bus_id timeout) mem_log mem_inv mem_evolves"
  proof (intro worker_env.intro worker_env_axioms.intro)
    fix w resp w' bid start max_entries flt
    assume "bus_poll (as_bus (memory_app bo ttl bus_id timeout)) \<lparr>pr_bus_id = Some bid, pr_start_log_position = start, pr_max_entries = max_entries,
        pr_filter = flt\<rparr> w = (Inr resp, w')"
    then have "poll_true (mem_log w' bid) start max_entries flt resp \<and> length (mem_log w bid) \<le> length (mem_log w' bid)"
      by (intro mem_poll_reads) (simp_all add: memory_app_def memory_bus_def sim_clock_keeps_buses)
    then show "\<exists>n. length (mem_log w bid) \<le> n \<and> n \<le> length (mem_log w' bid) \<and> poll_true (take n (mem_log w' bid)) start max_entries flt resp"
      by (intro exI[of _ "length (mem_log w' bid)"]) simp
  qed (simp_all add: memory_app_def memory_bus_def mem_poll_evolves sim_clock_keeps_buses)
qed

section \<open>Properties\<close>

text \<open>
  C13. Whatever its callers send and whenever they go away, the worker answers every operation once: what it has taken from
  the channel is answered or a gate under way.  Each answer is true of the log at a moment of the run that comes after all appends
  sent before the operation and answered: an append's payload is at the position it reports; a gate's intention is on the log and its
  answer is the first decision there, or a denial for want of time; a poll returns the first entries from its start on that match its
  filter, up to its limit, and says whether there are more; mail that is handed out is mail of the log.  Appends are at positions in
  the order in which they were sent, and the mail handed out so far is in the order of the log and each at most once.
\<close>
theorem worker_answers_by_log:
  assumes "worker_reachable (memory_app bo ttl bus_id timeout) mem_evolves w0 s" "mem_inv w0"
  shows "distinct (answered s @ under_way s) \<and> set (answered s @ under_way s) = {..<wk_taken s} \<and> wk_taken s \<le> length (wk_ops s) \<and>
    (\<forall>(n, reply, got) \<in> set (wk_replies s). answered_at (length (mem_log w0 bus_id)) (mem_log (wk_world s) bus_id) (wk_replies s) n (wk_ops s ! n) reply) \<and>
    appends_in_order (wk_replies s) \<and> subseq (handed_out s) (mails (mem_log (wk_world s) bus_id))"
proof -
  have counts: "worker_counts s" using counts_reachable[OF assms(1)] .
  have ok: "memory_worker.worker_ok bo ttl bus_id timeout (length (mem_log w0 bus_id)) s" using memory_worker.ok_reachable[OF assms] by simp
  let ?es = "mem_log (wk_world s) bus_id" and ?c = "mx_next_log_position (wk_mailbox s)"
  have "mailbox_tracks ?es (handed_out s) (wk_mailbox s)" using ok by (simp add: memory_worker.worker_ok_def)
  then have tracks: "subseq (handed_out s @ mx_mail (wk_mailbox s)) (mails (segment ?es 0 ?c))" "0 \<le> ?c" "?c \<le> int (length ?es)"
    by (simp_all add: mailbox_tracks_def Let_def)
  have "segment ?es 0 ?c @ drop (nat ?c) ?es = ?es" by (simp add: segment_def)
  then have "mails ?es = mails (segment ?es 0 ?c) @ mails (drop (nat ?c) ?es)" by (metis mails_simps(2))
  then have "subseq (handed_out s) (mails ?es)"
    using tracks(1) by (metis list_emb_append2 list_emb_append_mono subseq_order.dual_order.trans subseq_append' self_append_conv list_emb_Nil)
  then show ?thesis using ok counts by (simp add: memory_worker.worker_ok_def worker_counts_def)
qed

definition demo_app :: "mem_world app_server" where
  "demo_app = memory_app unit_backoff None ''bus'' 200000000"

definition demo_send :: "app_op \<Rightarrow> mem_world app_worker \<Rightarrow> mem_world app_worker" where
  "demo_send op s = s\<lparr>wk_ops := wk_ops s @ [op], wk_waiting := insert (length (wk_ops s)) (wk_waiting s)\<rparr>"

definition demo_serve :: "mem_world app_worker \<Rightarrow> mem_world app_worker" where
  "demo_serve s = serve_op demo_app (wk_taken s) (wk_ops s ! wk_taken s) (s\<lparr>wk_taken := wk_taken s + 1\<rparr>)"

definition demo_receive :: "mem_world app_worker \<Rightarrow> mem_world app_worker" where
  "demo_receive s = (case poll_and_receive (as_poll demo_app) None (wk_world s, wk_mailbox s) of
     Some (r, (w, mb)) \<Rightarrow> s\<lparr>wk_world := w, wk_mailbox := mb\<rparr> | None \<Rightarrow> s)"

definition demo_worker :: "mem_world app_worker" where
  "demo_worker = demo_serve (demo_send OpCheckMail (demo_receive (demo_serve (demo_send
     (OpAppend (Some (Mail \<lparr>sender_agent_id = ''alice'', mail_content = Some (MailMessage \<lparr>mm_body = ''hello'', mm_message_id = []\<rparr>)\<rparr>)))
     (app_worker_new ''bus'' empty_mem_world)))))"

lemma worker_demo_steps:
  assumes "worker_reachable demo_app mem_evolves w0 s"
  shows "worker_reachable demo_app mem_evolves w0 (demo_send op s)"
    and "wk_taken s < length (wk_ops s) \<Longrightarrow> worker_reachable demo_app mem_evolves w0 (demo_serve s)"
    and "worker_reachable demo_app mem_evolves w0 (demo_receive s)"
proof -
  show "worker_reachable demo_app mem_evolves w0 (demo_send op s)"
    unfolding demo_send_def by (rule worker_reachable.step[OF assms worker_step.send])
  show "worker_reachable demo_app mem_evolves w0 (demo_serve s)" if "wk_taken s < length (wk_ops s)"
    unfolding demo_serve_def by (rule worker_reachable.step[OF assms worker_step.serve[OF that]])
  show "worker_reachable demo_app mem_evolves w0 (demo_receive s)"
    using assms worker_reachable.step[OF assms worker_step.mailbox[of demo_app None s]]
    by (auto simp: demo_receive_def split: option.split)
qed

theorem worker_answers_by_log_witness:
  "handed_out demo_worker = [\<lparr>ml_from = ''alice'', ml_content = ''hello'', ml_position = 0, ml_message_id = [], ml_in_reply_to = []\<rparr>] \<and>
   answered demo_worker = [0, 1] \<and> subseq (handed_out demo_worker) (mails (mem_log (wk_world demo_worker) ''bus''))"
proof -
  have start: "worker_reachable demo_app mem_evolves empty_mem_world (app_worker_new ''bus'' empty_mem_world)"
    using worker_reachable.start[of demo_app mem_evolves empty_mem_world] by (simp add: demo_app_def)
  let ?sent = "demo_send (OpAppend (Some (Mail \<lparr>sender_agent_id = ''alice'',
      mail_content = Some (MailMessage \<lparr>mm_body = ''hello'', mm_message_id = []\<rparr>)\<rparr>))) (app_worker_new ''bus'' empty_mem_world)"
  have "wk_taken ?sent < length (wk_ops ?sent)" by (simp add: demo_send_def)
  note served = worker_demo_steps(1)[OF worker_demo_steps(3)[OF worker_demo_steps(2)[OF worker_demo_steps(1)[OF start] this]], of OpCheckMail]
  have "wk_taken (demo_send OpCheckMail (demo_receive (demo_serve ?sent))) < length (wk_ops (demo_send OpCheckMail (demo_receive (demo_serve ?sent))))"
    by code_simp
  from worker_demo_steps(2)[OF served this] have reach: "worker_reachable (memory_app unit_backoff None ''bus'' 200000000) mem_evolves empty_mem_world demo_worker"
    by (simp add: demo_worker_def demo_app_def)
  have "handed_out demo_worker = [\<lparr>ml_from = ''alice'', ml_content = ''hello'', ml_position = 0, ml_message_id = [], ml_in_reply_to = []\<rparr>] \<and>
      answered demo_worker = [0, 1]" by code_simp
  then show ?thesis using worker_answers_by_log[OF reach empty_mem_world_inv] by blast
qed

end
