(* ===== verification/Bus_Factory.thy ===== *)
theory Bus_Factory
  imports Persistent_Spaces Channels Observable_Layers Remote Bus_Cli Caches
begin

text \<open>
  The buses the programs open from a URL: \<open>bus/core/factory\<close>, with the SQLite connection of
  \<open>bus/impls/sqlite/src/sqlite_db.rs\<close> that its SQLite backend shares.  The HTTP transport, the connection of \<open>rusqlite\<close>
  and the table it creates are parameters.
\<close>

section \<open>The shared SQLite connection\<close>

text \<open>A connection behind a mutex; a panic while the lock is held poisons it.\<close>
record 'c sqlite_handle =
  sh_connection :: 'c
  sh_poisoned :: bool

text \<open>What a closure run on the connection does: it returns, or it unwinds.\<close>
datatype 'a attempt = Finished 'a | Unwound

datatype db_error = LockPoisoned | StatementFailed sql_failure | TaskFailed

fun db_error_text :: "(sql_failure \<Rightarrow> string) \<Rightarrow> db_error \<Rightarrow> string" where
  "db_error_text sql_text LockPoisoned = ''SQLite connection lock is poisoned''"
| "db_error_text sql_text (StatementFailed e) = sql_text e"
| "db_error_text sql_text TaskFailed = ''SQLite blocking task failed''"

text \<open>The operations of a \<open>rusqlite\<close> connection used to open one.\<close>
record 'c rusqlite_ops =
  rq_open :: "string \<Rightarrow> sql_failure + 'c"
  rq_busy_timeout :: "nat \<Rightarrow> 'c \<Rightarrow> sql_failure + 'c"
  rq_pragma :: "string \<Rightarrow> string \<Rightarrow> 'c \<Rightarrow> sql_failure + 'c"

definition BUSY_TIMEOUT :: nat where "BUSY_TIMEOUT = 5 * 1000000000"

fun and_then :: "'e + 'a \<Rightarrow> ('a \<Rightarrow> 'e + 'b) \<Rightarrow> 'e + 'b" where
  "and_then (Inl e) f = Inl e"
| "and_then (Inr x) f = f x"

lemma and_then_Inr: "and_then r f = Inr y \<longleftrightarrow> (\<exists>x. r = Inr x \<and> f x = Inr y)"
  by (cases r) simp_all

definition sqlite_db_open :: "'c rusqlite_ops \<Rightarrow> string \<Rightarrow> sql_failure + 'c sqlite_handle" where
  "sqlite_db_open R path =
     and_then (rq_open R path) (\<lambda>conn.
     and_then (rq_busy_timeout R BUSY_TIMEOUT conn) (\<lambda>conn.
     and_then (rq_pragma R ''journal_mode'' ''WAL'' conn) (\<lambda>conn.
     and_then (rq_pragma R ''synchronous'' ''FULL'' conn) (\<lambda>conn.
     Inr \<lparr>sh_connection = conn, sh_poisoned = False\<rparr>))))"

text \<open>\<open>SqliteDb::run\<close>: the guard is dropped before a panic goes on, and the panic fails the blocking task.\<close>
definition db_run :: "('c \<Rightarrow> (sql_failure + 'a) attempt \<times> 'c) \<Rightarrow> ('c sqlite_handle, db_error, 'a) eff" where
  "db_run operation h =
     (if sh_poisoned h then (Inl LockPoisoned, h)
      else (case operation (sh_connection h) of
        (Finished (Inl e), c) \<Rightarrow> (Inl (StatementFailed e), h\<lparr>sh_connection := c\<rparr>)
      | (Finished (Inr x), c) \<Rightarrow> (Inr x, h\<lparr>sh_connection := c\<rparr>)
      | (Unwound, c) \<Rightarrow> (Inl TaskFailed, h\<lparr>sh_connection := c\<rparr>)))"

text \<open>\<open>execute_blocking\<close> holds the guard while the statement runs: a panic, here \<open>Unwound\<close>, poisons the lock.\<close>
definition execute_blocking :: "('c \<Rightarrow> (sql_failure + 'a) attempt \<times> 'c) \<Rightarrow> 'c sqlite_handle \<Rightarrow> (db_error + 'a) attempt \<times> 'c sqlite_handle" where
  "execute_blocking statement h =
     (if sh_poisoned h then (Finished (Inl LockPoisoned), h)
      else (case statement (sh_connection h) of
        (Finished (Inl e), c) \<Rightarrow> (Finished (Inl (StatementFailed e)), h\<lparr>sh_connection := c\<rparr>)
      | (Finished (Inr x), c) \<Rightarrow> (Finished (Inr x), h\<lparr>sh_connection := c\<rparr>)
      | (Unwound, c) \<Rightarrow> (Unwound, \<lparr>sh_connection = c, sh_poisoned = True\<rparr>)))"

text \<open>Whatever the operations before it did, an operation on the blocking pool runs on the connection.\<close>
lemma db_run_keeps_lock: "\<not> sh_poisoned h \<Longrightarrow> \<not> sh_poisoned (snd (db_run operation h))"
  by (auto simp: db_run_def split: prod.split attempt.split sum.split)

primrec run_all :: "('c \<Rightarrow> (sql_failure + 'a) attempt \<times> 'c) list \<Rightarrow> 'c sqlite_handle \<Rightarrow> 'c sqlite_handle" where
  "run_all [] h = h"
| "run_all (operation # operations) h = run_all operations (snd (db_run operation h))"

lemma panics_do_not_poison:
  "sqlite_db_open R path = Inr h \<Longrightarrow> fst (db_run operation (run_all operations h)) \<noteq> Inl LockPoisoned"
proof -
  assume "sqlite_db_open R path = Inr h"
  then have "\<not> sh_poisoned h"
    by (auto simp: sqlite_db_open_def and_then_Inr)
  then have "\<not> sh_poisoned (run_all operations h)"
    by (induction operations arbitrary: h) (simp_all add: db_run_keeps_lock)
  then show ?thesis by (auto simp: db_run_def split: prod.split attempt.split sum.split)
qed

section \<open>The factory\<close>

text \<open>What a worker sets up around its space: whether it is alive, the sinks, the texts and sizes they record, the
  environment, the codec of entries and the cache of hints.\<close>
record ('v, 'w, 'm, 'c) worker_setup =
  ws_alive :: "('w \<times> 'm) \<times> 'c \<Rightarrow> bool"
  ws_observability :: "('w, 'm) observability"
  ws_tail_text :: "tail_error \<Rightarrow> string"
  ws_error_text :: "write_once_error \<Rightarrow> string"
  ws_size_of :: "'v \<Rightarrow> nat"
  ws_environment :: "'w environment"
  ws_codec :: "'v entry_codec"
  ws_lru :: "(string, nat, 'c) lru_ops"

definition worker_bus :: "('v, 'w, 'm, 'c) worker_setup \<Rightarrow> nat option \<Rightarrow> ('v, 'w) write_once_space \<Rightarrow> ('c, 'v, 'w \<times> 'm) wo_bus \<times> 'c" where
  "worker_bus W blocking_poll_interval space =
     write_once_agent_bus_new
       (observable_space (ws_observability W) SPACE_COMPONENT (ws_tail_text W) (ws_error_text W) (ws_size_of W) space)
       (lift_env (ws_environment W)) (ws_codec W) (ws_lru W) blocking_poll_interval"

text \<open>\<open>ChanneledAgentBus::new_in_process\<close> over the write-once bus that the worker builds.\<close>
definition in_process :: "('v, 'w, 'm, 'c) worker_setup \<Rightarrow> nat option \<Rightarrow> ('v, 'w) write_once_space
    \<Rightarrow> (('w \<times> 'm) \<times> 'c) agent_bus \<times> (('w \<times> 'm) \<times> 'c) blocking_poll" where
  "in_process W blocking_poll_interval space =
     (case worker_bus W blocking_poll_interval space of (B, hints) \<Rightarrow>
        (channeled_bus (ws_alive W) (write_once_bus B), channeled_blocking_poll (ws_alive W) (wo_blocking_poll B)))"

text \<open>A handle to one of the three kinds of bus, each with its own world.\<close>
datatype ('a, 'b, 'c) built_bus =
    BuiltMemory "'a agent_bus \<times> 'a blocking_poll"
  | BuiltRemote "'b agent_bus \<times> 'b blocking_poll"
  | BuiltSqlite "'c agent_bus \<times> 'c blocking_poll"

text \<open>
  \<open>CoreAgentBusFactory::build\<close>.  \<open>from_shared\<close> parses an endpoint, \<open>connect\<close> is its channel with the bus behind it,
  \<open>statements\<close> are the statements of a space over an open connection and \<open>create_table\<close> the statement that makes its
  table; \<open>None\<close> is a panic of that statement.
\<close>
definition core_factory_build ::
  "(string \<Rightarrow> string + 'ep) \<Rightarrow> ('ep \<Rightarrow> 'b transport \<times> 'b agent_bus \<times> 'b blocking_poll) \<Rightarrow> ('b \<Rightarrow> bool)
    \<Rightarrow> (sql_failure \<Rightarrow> string) \<Rightarrow> 'd rusqlite_ops \<Rightarrow> ('d \<Rightarrow> (sql_failure + nat) attempt \<times> 'd) \<Rightarrow> ('d sqlite_handle \<Rightarrow> ('v, 'u) sqlite_db)
    \<Rightarrow> ('v, ('v, 'z) wo_world_scheme, 'm, 'c) worker_setup \<Rightarrow> ('v, 'u, 'm, 'c) worker_setup
    \<Rightarrow> nat option \<Rightarrow> parsed_backend
    \<Rightarrow> (string + ((('v, 'z) wo_world_scheme \<times> 'm) \<times> 'c, 'b, ('u \<times> 'm) \<times> 'c) built_bus) option" where
  "core_factory_build from_shared connect alive sql_text R create_table statements M S blocking_poll_interval backend =
     (case backend of
        BackendMemory \<Rightarrow> Some (Inr (BuiltMemory (in_process M blocking_poll_interval
          (in_memory_write_once_space \<lparr>mb_environment = ws_environment M, mb_ttl = None\<rparr>))))
      | BackendHttp grpc_url \<Rightarrow>
          (case from_shared grpc_url of
             Inl e \<Rightarrow> Some (Inl e)
           | Inr endpoint \<Rightarrow>
               (case connect endpoint of (channel, B, poll) \<Rightarrow>
                  Some (Inr (BuiltRemote (channeled_bus alive (agent_bus_client channel B),
                    channeled_blocking_poll alive (client_blocking_poll channel poll))))))
      | BackendSqlite path \<Rightarrow>
          (case sqlite_db_open R path of
             Inl e \<Rightarrow> Some (Inl (sql_text e))
           | Inr db \<Rightarrow>
               (case execute_blocking create_table db of
                  (Unwound, _) \<Rightarrow> None
                | (Finished (Inl e), _) \<Rightarrow> Some (Inl (db_error_text sql_text e))
                | (Finished (Inr _), db) \<Rightarrow> Some (Inr (BuiltSqlite (in_process S blocking_poll_interval
                    (write_once_space_adapter (sqlite_conditional_write_space (statements db))))))))
      | BackendOther url \<Rightarrow>
          Some (Inl (''Unsupported URL '' @ quote @ url @ quote @ ''. Supported schemes: memory://, http://, https://, sqlite://'')))"

section \<open>The observed space keeps the contract\<close>

definition space_erases :: "('v, 'w \<times> 'm) write_once_space \<Rightarrow> ('v, 'w) write_once_space \<Rightarrow> bool" where
  "space_erases S' S \<longleftrightarrow> (\<forall>sid a v. erases (wo_write S' sid a v) (wo_write S sid a v)) \<and> (\<forall>sid a. erases (wo_read S' sid a) (wo_read S sid a)) \<and>
     (\<forall>sid n. erases (wo_tail S' sid n) (wo_tail S sid n))"

lemma observable_space_erases:
  "clock_reads (ob_environment ob) \<Longrightarrow> space_erases (observable_space ob component tail_message message size_of S) S"
  by (simp add: space_erases_def observable_defs Let_def erases_observed)

lemma erased_call: "erases m' m \<Longrightarrow> m' s = (r, s') \<Longrightarrow> m (fst s) = (r, fst s')"
  by (cases s; cases s') (auto dest: erasesD)

locale observed_space = wo_space Sp cells sinv evolves writes
  for Sp :: "('v, 'w) write_once_space" and cells sinv evolves writes +
  fixes Sp' :: "('v, 'w \<times> 'm) write_once_space"
  assumes erased: "space_erases Sp' Sp"

sublocale observed_space \<subseteq> outer: wo_space Sp' "cells \<circ> fst" "sinv \<circ> fst" "\<lambda>s s'. evolves (fst s) (fst s')"
  "\<lambda>s sid a v s'. writes (fst s) sid a v (fst s')"
proof (unfold_locales, goal_cases)
  case (2 s s1 s2)
  then show ?case by (blast intro: evolves_trans)
next
  case (7 s sid a v r s')
  have "wo_write Sp sid a v (fst s) = (r, fst s')" using erased 7(2) unfolding space_erases_def by (blast intro: erased_call)
  from write_law[OF 7(1)[unfolded o_def] this] show ?case
  proof (elim disjE exE, goal_cases)
    case (2 w1 w2)
    then show ?case by (intro disjI2 exI[of _ "(w1, snd s)"] exI[of _ "(w2, snd s)"]) simp
  qed simp
next
  case (8 s sid a g s')
  have "wo_read Sp sid a (fst s) = (g, fst s')" using erased 8(2) unfolding space_erases_def by (blast intro: erased_call)
  from read_law[OF 8(1)[unfolded o_def] this] obtain w1 where "evolves (fst s) w1" "evolves w1 (fst s')" "\<forall>x. g = Inr x \<longrightarrow> x = cells w1 sid a" by blast
  then show ?case by (intro exI[of _ "(w1, snd s)"]) simp
next
  case (9 s n sid t s')
  have "wo_tail Sp sid n (fst s) = (t, fst s')" using erased 9(3) unfolding space_erases_def by (blast intro: erased_call)
  from tail_law[OF 9(1)[unfolded o_def] 9(2) this] show ?case by simp
qed (use evolves_refl evolves_sinv evolves_cells writes_sinv writes_cells in \<open>auto simp: fun_eq_iff\<close>)

context observed_space
begin

lemma is_space: "wo_space Sp' (cells \<circ> fst) (sinv \<circ> fst) (\<lambda>s s'. evolves (fst s) (fst s')) (\<lambda>s sid a v s'. writes (fst s) sid a v (fst s'))"
  by unfold_locales

end

lemma observed_settled:
  assumes "space_erases Sp' Sp" "settled Sp"
  shows "settled Sp'"
  unfolding settled_def
proof (intro allI impI)
  fix sid s t s1 v e s2
  assume "wo_tail Sp' sid TAIL_WINDOW_SIZE s = (Inr t, s1)" "wo_write Sp' sid t v s1 = (Inl e, s2)"
  then have "wo_tail Sp sid TAIL_WINDOW_SIZE (fst s) = (Inr t, fst s1)" "wo_write Sp sid t v (fst s1) = (Inl e, fst s2)"
    using assms(1) unfolding space_erases_def by (blast intro: erased_call)+
  then show "\<not> slot_taken e" using assms(2) unfolding settled_def by blast
qed

interpretation observed_memory_space: observed_space "in_memory_write_once_space \<lparr>mb_environment = env, mb_ttl = None\<rparr>"
  wom_cells "\<lambda>_. True" "wom_evolves P" wom_writes
  "observable_space (recording (sim_environment bo)) SPACE_COMPONENT tail_message message size_of
     (in_memory_write_once_space \<lparr>mb_environment = env, mb_ttl = None\<rparr>)"
  for env P bo tail_message message size_of
  by (simp add: observed_space_def observed_space_axioms_def sim_wo_space.wo_space_axioms observable_space_erases recording_def)

section \<open>A bus keeps what is appended\<close>

text \<open>Any sequence of appends, reads and tail checks on a bus.\<close>
inductive bus_calls :: "'w agent_bus \<Rightarrow> 'w \<Rightarrow> 'w \<Rightarrow> bool" for B where
  none: "bus_calls B w w"
| append: "bus_calls B w w1 \<Longrightarrow> bus_append B areq w1 = (r, w2) \<Longrightarrow> bus_calls B w w2"
| read: "bus_calls B w w1 \<Longrightarrow> bus_read_next B rreq w1 = (g, w2) \<Longrightarrow> bus_calls B w w2"
| tail: "bus_calls B w w1 \<Longrightarrow> bus_check_tail B bid w1 = (t, w2) \<Longrightarrow> bus_calls B w w2"

context log_bus
begin

lemma calls_evolve: "bus_calls B w w' \<Longrightarrow> evolves w w'"
proof (induction rule: bus_calls.induct)
  case (append w w1 areq r w2)
  then show ?case using movesD[OF append_evolves] evolves_trans by metis
next
  case (read w w1 rreq g w2)
  then show ?case using movesD[OF read_evolves] evolves_trans by metis
next
  case (tail w w1 bid t w2)
  then show ?case using movesD[OF tail_evolves] evolves_trans by metis
qed (rule evolves_refl)

text \<open>The position an append returns holds its payload from then on, for every reader of that position.\<close>
lemma kept_append:
  assumes "inv w" "bus_append B \<lparr>ar_bus_id = Some b, ar_payload = Some p\<rparr> w = (Inr pos, w1)" "bus_calls B w1 w2"
    and "bus_read_next B \<lparr>rn_bus_id = Some b, rn_start_log_position = pos, rn_end_log_position = pos + 1, rn_max_entries = m, rn_filter = None\<rparr> w2
      = (Inr resp, w3)"
  shows "map entry_payload (rr_entries resp) = [Some p] \<and> rr_next_start_position resp = pos + 1"
proof -
  have app: "int (length (log w b)) \<le> pos" "pos < int (length (log w1 b))" "entry_payload (log w1 b ! nat pos) = Some p"
    using append_law[OF assms(1,2)] by auto
  have i1: "inv w1" using evolves_inv[OF movesD[OF append_evolves assms(2)] assms(1)] .
  note later = calls_evolve[OF assms(3)]
  have i2: "inv w2" using evolves_inv[OF later i1] .
  have pre: "prefix (log w1 b) (log w2 b)" using evolves_log[OF later i1] .
  then have at: "log w2 b ! nat pos = log w1 b ! nat pos" "pos < int (length (log w2 b))"
    using app(1,2) by (auto simp: prefix_def nth_append)
  have pos: "0 \<le> pos" using app(1) by simp
  have "rr_next_start_position resp = pos + 1 \<and>
      rr_entries resp = filter (entry_matches None) (segment (log w2 b) pos (rr_next_start_position resp))"
    using read_law[OF i2 _ _ _ _ assms(4), of b] pos at(2) by simp
  moreover have "segment (log w2 b) pos (pos + 1) = [log w2 b ! nat pos]"
    using segment_Cons[of "nat pos" "nat pos + 1" "log w2 b"] pos at(2) by (simp add: nat_add_distrib add.commute)
  ultimately show ?thesis using app(3) at(1) by (auto simp: entry_matches_def payload_matches_filter_def)
qed

end

context weakened_bus
begin

lemma is_log_bus: "log_bus B' log inv evolves"
  by unfold_locales

end

context wo_bus_settled
begin

lemma is_log_bus: "log_bus (write_once_bus B) blog binv bevolves"
  by unfold_locales

lemma channeled_is_log_bus: "log_bus (channeled_bus alive (write_once_bus B)) blog binv bevolves"
  by (rule weakened_bus.is_log_bus[of "write_once_bus B"])
    (simp add: weakened_bus_def weakened_bus_axioms_def is_log_bus channeled_bus_weakens)

lemma binv_empty:
  assumes "sinv w" "cells w = (\<lambda>_ _. None)" "lok c" "items c = []"
  shows "binv (w, c)"
  using assms by (auto simp: binv_def log_cells_def)

end

text \<open>The bus a worker builds over a space that keeps the contract.\<close>
lemma worker_bus_settled:
  assumes "wo_space Sp cells sinv evolves writes" "settled Sp" "clock_reads (ob_environment (ws_observability W))"
    and "lru_cache (ws_lru W) items cap lok" "entry_codec_ok (ws_codec W)"
    and "\<And>w w'. evolves w w' \<Longrightarrow> sinv w \<Longrightarrow> log_cells (ws_codec W) (cells w) \<Longrightarrow> log_cells (ws_codec W) (cells w')"
    and "\<And>w t w'. env_unsafe_wall_time (ws_environment W) w = (t, w') \<Longrightarrow> evolves w w'"
  shows "wo_bus_settled (fst (worker_bus W interval Sp)) (cells \<circ> fst) (sinv \<circ> fst) (\<lambda>s s'. evolves (fst s) (fst s'))
    (\<lambda>s sid a v s'. writes (fst s) sid a v (fst s')) items cap lok"
proof -
  let ?Sp = "observable_space (ws_observability W) SPACE_COMPONENT (ws_tail_text W) (ws_error_text W) (ws_size_of W) Sp"
  have erases: "space_erases ?Sp Sp" by (rule observable_space_erases[OF assms(3)])
  then have space: "wo_space ?Sp (cells \<circ> fst) (sinv \<circ> fst) (\<lambda>s s'. evolves (fst s) (fst s')) (\<lambda>s sid a v s'. writes (fst s) sid a v (fst s'))"
    by (intro observed_space.is_space[where Sp = Sp]) (simp add: observed_space_def observed_space_axioms_def assms(1))
  have time: "evolves (fst s) (fst s')" if "env_unsafe_wall_time (lift_env (ws_environment W)) s = (t, s')" for s s' t
    using that assms(7) by (cases s) (fastforce simp: lift_env_def split: prod.splits)
  show ?thesis
    using space observed_settled[OF erases assms(2)] assms(4-6)
    by (auto simp del: split_paired_All intro: time simp: worker_bus_def write_once_agent_bus_new_def write_once_agent_bus_new_with_cache_capacity_def
        wo_bus_settled_def wo_bus_settled_axioms_def wo_bus_env_def wo_bus_env_axioms_def)
qed

section \<open>Properties\<close>

text \<open>
  C15. The bus that \<open>memory://\<close> opens, through its worker, its observability wrapper and its cache of hints, keeps what is
  appended: whatever calls come before and after, a read of the position that an append returned answers its payload.
\<close>
theorem opened_memory_bus_keeps_appends:
  assumes "lru_cache (ws_lru M) items cap lok" "entry_codec_ok (ws_codec M)" "clock_keeps_spaces (ws_environment M)"
    and "clock_reads (ob_environment (ws_observability M))" "ww_spaces w0 = Map.empty"
    and "core_factory_build from_shared connect alive sql_text R create_table statements M S interval BackendMemory = Some (Inr (BuiltMemory (B, poll)))"
    and "bus_calls B ((w0, k), lru_new (ws_lru M) DEFAULT_NEXT_POSITIONS_CACHE_CAPACITY) s"
    and "bus_append B \<lparr>ar_bus_id = Some b, ar_payload = Some p\<rparr> s = (Inr pos, s1)" "bus_calls B s1 s2"
    and "bus_read_next B \<lparr>rn_bus_id = Some b, rn_start_log_position = pos, rn_end_log_position = pos + 1, rn_max_entries = m,
      rn_filter = None\<rparr> s2 = (Inr resp, s3)"
  shows "map entry_payload (rr_entries resp) = [Some p] \<and> rr_next_start_position resp = pos + 1"
proof -
  let ?Sp = "in_memory_write_once_space \<lparr>mb_environment = ws_environment M, mb_ttl = None\<rparr>"
  let ?P = "log_cells (ws_codec M)" and ?hints = "lru_new (ws_lru M) DEFAULT_NEXT_POSITIONS_CACHE_CAPACITY"
  have B: "B = channeled_bus (ws_alive M) (write_once_bus (fst (worker_bus M interval ?Sp)))"
    using assms(6) by (auto simp: core_factory_build_def in_process_def split: prod.splits)
  have settled: "wo_bus_settled (fst (worker_bus M interval ?Sp)) (wom_cells \<circ> fst) ((\<lambda>_. True) \<circ> fst)
      (\<lambda>s s'. wom_evolves ?P (fst s) (fst s')) (\<lambda>s sid a v s'. wom_writes (fst s) sid a v (fst s')) items cap lok"
    by (rule worker_bus_settled[OF sim_wo_space.wo_space_axioms memory_space_settled assms(4,1,2)])
      (auto simp: wom_evolves_def cells_evolve_def dest: clock_wom_evolves[OF assms(3), where P = ?P, unfolded wom_evolves_def cells_evolve_def])
  note log = wo_bus_settled.channeled_is_log_bus[OF settled, of "ws_alive M", folded B]
  have "lok ?hints" "items ?hints = []" using lru_cache.new_law[OF assms(1)] by (simp_all add: DEFAULT_NEXT_POSITIONS_CACHE_CAPACITY_def)
  then have "wo_bus_env.binv (fst (worker_bus M interval ?Sp)) (wom_cells \<circ> fst) ((\<lambda>_. True) \<circ> fst) items lok ((w0, k), ?hints)"
    by (intro wo_bus_settled.binv_empty[OF settled]) (simp_all add: wom_cells_def space_cells_def assms(5) fun_eq_iff)
  from log_bus.evolves_inv[OF log log_bus.calls_evolve[OF log assms(7)] this]
  show ?thesis using log_bus.kept_append[OF log _ assms(8-10)] by blast
qed

definition demo_setup :: "(bus_entry, bus_entry wo_world, sinks, (string, nat) lru_list) worker_setup" where
  "demo_setup = \<lparr>ws_alive = (\<lambda>_. True), ws_observability = recording (sim_environment some_backoff), ws_tail_text = (\<lambda>_. []),
     ws_error_text = (\<lambda>_. []), ws_size_of = (\<lambda>_. 1), ws_environment = sim_environment some_backoff, ws_codec = plain_entry_codec, ws_lru = list_lru\<rparr>"

definition opened_demo_bus :: "((bus_entry wo_world \<times> sinks) \<times> (string, nat) lru_list) agent_bus" where
  "opened_demo_bus = fst (in_process demo_setup None (in_memory_write_once_space \<lparr>mb_environment = ws_environment demo_setup, mb_ttl = None\<rparr>))"

definition opened_demo_state :: "(bus_entry wo_world \<times> sinks) \<times> (string, nat) lru_list" where
  "opened_demo_state = ((empty_wo_world, empty_sinks), lru_new list_lru DEFAULT_NEXT_POSITIONS_CACHE_CAPACITY)"

text \<open>Two entries are appended to the demonstration bus; the position of the first is read back.\<close>
abbreviation append_none :: append_request where
  "append_none \<equiv> \<lparr>ar_bus_id = Some ''bus'', ar_payload = Some None\<rparr>"

abbreviation read_first :: read_next_request where
  "read_first \<equiv> \<lparr>rn_bus_id = Some ''bus'', rn_start_log_position = 0, rn_end_log_position = 0 + 1, rn_max_entries = 5, rn_filter = None\<rparr>"

theorem opened_memory_bus_keeps_appends_witness:
  "\<exists>resp. fst (bus_read_next opened_demo_bus read_first (snd (bus_append opened_demo_bus append_none (snd (bus_append opened_demo_bus append_none opened_demo_state))))) = Inr resp \<and>
     map entry_payload (rr_entries resp) = [Some None] \<and> rr_next_start_position resp = 1"
proof -
  let ?s1 = "snd (bus_append opened_demo_bus append_none opened_demo_state)"
  let ?s2 = "snd (bus_append opened_demo_bus append_none ?s1)"
  have "case bus_append opened_demo_bus append_none opened_demo_state of (r, s1) \<Rightarrow> r = Inr 0 \<and>
      (case bus_append opened_demo_bus append_none s1 of (_, s2) \<Rightarrow> \<not> isl (fst (bus_read_next opened_demo_bus read_first s2)))"
    by code_simp
  then have run: "fst (bus_append opened_demo_bus append_none opened_demo_state) = Inr 0"
      "\<not> isl (fst (bus_read_next opened_demo_bus read_first ?s2))"
    by (simp_all add: split_beta)
  obtain resp where "fst (bus_read_next opened_demo_bus read_first ?s2) = Inr resp" using run by (metis sum.collapse(2))
  then obtain s3 where read: "bus_read_next opened_demo_bus read_first ?s2 = (Inr resp, s3)" by (metis prod.collapse)
  have append: "bus_append opened_demo_bus append_none opened_demo_state = (Inr 0, ?s1)" using run by (simp add: prod_eq_iff)
  have calls: "bus_calls opened_demo_bus ?s1 ?s2" by (rule bus_calls.append[OF bus_calls.none prod.collapse[symmetric]])
  obtain poll where built: "core_factory_build Inl (\<lambda>u. undefined) (\<lambda>_. True) (\<lambda>_. []) undefined undefined undefined demo_setup undefined None
      BackendMemory = Some (Inr (BuiltMemory (opened_demo_bus, poll)))"
    by (simp add: core_factory_build_def opened_demo_bus_def prod_eq_iff)
  have config: "lru_cache (ws_lru demo_setup) snd fst list_lru_ok" "entry_codec_ok (ws_codec demo_setup)"
    "clock_keeps_spaces (ws_environment demo_setup)" "clock_reads (ob_environment (ws_observability demo_setup))"
    "ww_spaces empty_wo_world = Map.empty"
    by (simp_all add: demo_setup_def list_lru.lru_cache_axioms plain_entry_codec_ok sim_clock_keeps_spaces empty_wo_world_def)
  have "bus_calls opened_demo_bus ((empty_wo_world, empty_sinks), lru_new (ws_lru demo_setup) DEFAULT_NEXT_POSITIONS_CACHE_CAPACITY) opened_demo_state"
    by (simp add: opened_demo_state_def demo_setup_def bus_calls.none)
  from opened_memory_bus_keeps_appends[OF config built this append calls read] show ?thesis using read by simp
qed

end
