(* ===== verification/Spec2Isabelle.thy ===== *)
theory Spec2Isabelle
  imports Inmem_Service Caches Llm_Voter Grpc_Translation Observable_Layers Hooks
    Persistent_Spaces Runtime Sqlite_Store Local_Server Simulator Buffering Bus_Cli
    App_Startup App_Worker Bus_Factory
begin

text \<open>
  LogAct lets agents act only through a shared log.  An agent proposes an action as an intention that is appended
  to a bus; voters read the intention and append votes; a decider appends a commit or an abort; the engine drives
  the log and checkpoints how far each of these has come.  The policy of a bus (which decider, which voters) is
  itself changed through the log.  Paths below are under \<open>src/\<close>; \<open>engine/\<close> is
  \<open>logact/commit_service/impls/v1/engine/src/\<close>.

  The parts and their theories.

  \<^item> \<open>Prelude\<close>: the state-passing monad \<open>eff\<close> (a function from a world to a result and a world, the world kept
    on errors too), lemmas on lists, segments and words, the integers of Rust with their casts.
  \<^item> \<open>Bus_Types\<close>: the messages of \<open>bus/proto\<close> as records and datatypes.  A proto field that may be absent is an
    option, a oneof is a datatype.
  \<^item> \<open>Bus_Api\<close>: the bus trait, its payload types and filters, \<open>read_range\<close>, \<open>blocking_poll_default\<close>, bus ids,
    expiry, clocks and the environment trait (\<open>bus/api/src\<close>, \<open>bus/simulator/src/lib.rs\<close>).  The locales \<open>log_bus\<close>,
    \<open>readable_log_bus\<close> and their relatives are the contract of a bus as its clients use it.
  \<^item> \<open>Memory_Bus\<close>: the in-memory bus (\<open>bus/impls/simple\<close>), with an interpretation of the bus locales.
  \<^item> \<open>Write_Once\<close>, \<open>Write_Once_Bus\<close>, \<open>Lru\<close>, \<open>Caches\<close>: write-once and conditional-write spaces, the bus built over
    any write-once space, the caching space in front of one (\<open>bus/impls/writeonce\<close>,
    \<open>bus/impls/conditional_write_space\<close>) and the caching storage of the engine.
  \<^item> \<open>Retry\<close>, \<open>Storage\<close>, \<open>Policy\<close>: bounded retries, the compare-and-swap store with key scopes, the policy register
    and the planner of policy changes.
  \<^item> \<open>Applicators\<close>: engine and decider state, the three deciders, the voter adapter.
  \<^item> \<open>Engine\<close> (the code of \<open>engine/base_engine.rs\<close>), \<open>Engine_Policy\<close> (the policy as a fold of the log, and that the
    engine refines it), \<open>Engine_Drive\<close> (checkpoints and outcomes under interference), \<open>Engine_Node\<close> (the engine of
    a node over the in-memory bus and store), \<open>Engine_Live\<close> (termination and the refinement of the stored decider).
  \<^item> \<open>Rule_Voter\<close>, \<open>Llm_Voter\<close>: the two kinds of voter (\<open>bus/voters\<close>).
  \<^item> \<open>Commit_Service\<close>: the service over the engine, its voter factory and the fixed policy provider;
    \<open>Inmem_Service\<close>: the engine-free service (\<open>logact/commit_service/impls/inmem\<close>); \<open>Grpc_Translation\<close>: commands
    as messages.
  \<^item> \<open>Bus_Services\<close>, \<open>Mailbox\<close>: the stand-alone decider, the voter loop and the mailbox, which poll a bus
    (\<open>bus/core/src\<close>).
  \<^item> \<open>Entry_View\<close>: entries as the command line shows them.
  \<^item> \<open>Persistent_Spaces\<close>: the conditional-write spaces over SQLite and DynamoDB (\<open>bus/impls/sqlite\<close>,
    \<open>bus/impls/dynamodb\<close>), with the databases as locales.
  \<^item> \<open>Observability\<close>, \<open>Observable_Layers\<close>: structured rows and metrics (\<open>bus/api/src/logger.rs\<close>, \<open>metrics.rs\<close>) and the
    wrappers that report the calls of buses, spaces, storages, applicators and commit services.
  \<^item> \<open>Commit_Svc\<close>, \<open>Channels\<close>, \<open>Remote\<close>: the trait of the commit service, calls to a bus, a service or a space over channels,
    and the gRPC servers and clients of the bus and of the commit service.  \<open>commit_provider\<close> is the contract of a
    service that the wrappers keep.
  \<^item> \<open>Hooks\<close>: the command line of the commit service, which the hooks of agent harnesses call
    (\<open>logact/commit_service/cli\<close>).  \<open>Gate\<close>: the application server (\<open>bus/core/src/appserver.rs\<close>);
    \<open>Runtime\<close>: the decider, voter and mailbox loops it runs for a bus, with their cancellation.
  \<^item> \<open>Buffering\<close>: the queues that let the commits of a bus run one at a time
    (\<open>logact/commit_service/core/src/buffering.rs\<close>).
  \<^item> \<open>Sqlite_Store\<close>, \<open>Local_Server\<close>: the store of the commit service over SQLite and the initialization of its policy
    register, and the local server's directory, lock, socket, start and end (\<open>logact/commit_service/impls/sqlite\<close>,
    \<open>local_fs\<close>, \<open>grpc/local_server\<close>).
  \<^item> \<open>Bus_Cli\<close>: the command line of the bus and its interactive mode (\<open>bus/cli/src/lib.rs\<close>).
  \<^item> \<open>Bus_Factory\<close>: the connection of SQLite and the buses that are opened from a URL (\<open>bus/impls/sqlite/src/sqlite_db.rs\<close>,
    \<open>bus/core/factory\<close>): space, observability, write-once bus and worker in one.  \<open>App_Startup\<close>: the configuration file, the voters
    built from it and the starts of the application server and of the stand-alone decider (\<open>bus/core/src/config.rs\<close>,
    \<open>bus/voters/factory\<close>, \<open>bus/core/src/bin\<close>).  \<open>App_Worker\<close>: the worker that serves the calls of the application
    server (\<open>bus/core/src/appserver/grpc.rs\<close>).
  \<^item> \<open>Simulator\<close>: the deterministic executor that runs tasks against the logical clock (\<open>bus/simulator/src/lib.rs\<close>).

  How state and operations correspond.  A Rust trait object is a record of functions (\<open>agent_bus\<close>, \<open>storage\<close>,
  \<open>write_once_space\<close>, \<open>environment\<close>, \<open>applicator\<close>, \<open>voter_factory\<close>) and a struct that implements the trait is a
  definition of that record type.  Shared cells are fields of the world a function takes and returns.  An \<open>async fn\<close>
  is such a function; where the code awaits something that other tasks can interleave with, the model of the engine
  lets an arbitrary step of the environment happen (\<open>Engine_Drive\<close>, \<open>Mailbox\<close>), constrained only to keep the log
  append-only.  Errors are \<open>Inl\<close> of the source's error enum, an \<open>anyhow\<close> error is one constructor without its text,
  and a panic is \<open>None\<close> or a constructor of its own.  Names are those of the source.

  What the lemmas show.  Per component: an invariant and that every operation keeps it, the result of each operation
  on every branch, and where there is a contract, an interpretation of its locale.  Across components: a proposal
  returns the first decision logged for its position whatever else happens, checkpoints equal the
  replay of the log, committing terminates on a node without interference, an intention whose policy constraint is not met gets
  its abort and nothing else, policy changes are ordered by version,
  both deciders refine the fold of the log, both buses keep the same contract, and a blocking poll ends by its deadline.
  The layers between a harness and the engine (hook, client, network, server, worker, engine) compose: a tool use that
  a hook lets pass was committed on the log of its own bus.  The background loops of a bus decide what its log calls for under every
  interleaving; a local server never disturbs another that holds the lock; the executor of the simulator loses no wake-up and fires
  every timer at its time; following a log shows it without gap or repetition.
  The application server starts with exactly the voters its file asks for or not at all, its worker answers every call, of appends, gates, polls and
  mail, once and truly of the log, the SQLite space answers as the in-memory space but for the internal errors with which it refuses
  large addresses and malformed versions, and a bus opened in memory keeps what is appended through all of its layers.

  Loops.  A loop that the code leaves only when the log or the clock lets it is \<open>partial_function (option)\<close>, so not
  returning is \<open>None\<close>, and the theorems state that the result is \<open>Some\<close> under the conditions that ensure it:
  \<open>sync_loop\<close>, \<open>wo_append_loop\<close>, \<open>replay_to_tail\<close>, \<open>replay_loop\<close>, \<open>blocking_poll_loop\<close>.  \<open>decider_run\<close> is meant not to end; its turns are the steps of \<open>Runtime\<close>.  \<open>read_range_loop\<close> and
  \<open>retry_loop\<close> are functions that terminate by their own guards.  Fuel is used twice: eviction
  from a cache runs at most once per entry, and stripping tags from a text at most once per character; in both the fuel
  is that count.

  Parameters.  Codecs of prost (with a decode-after-encode hypothesis where it is used), the lru crate's cache
  (a record of operations with its documented laws as the locale \<open>lru_cache\<close>), the regex crate, the HTTP client and environment variables of the LLM voter, the renderer and
  parser of JSON, the decoder of \<open>Any\<close> messages, the network (which may lose a request or a reply), the statements of
  SQLite and DynamoDB, the connections of \<open>rusqlite\<close>, the document of a YAML text, the retries of \<open>tokio_retry\<close>, the texts of errors, standard input and the user name.  None is given a definition of its own
  outside the witnesses and the interpretations.

  Bounds.  Log positions are unbounded integers in the model where the code uses \<open>i64\<close> and \<open>u64\<close>: they count entries
  of a log in memory.  So are the addresses of spaces, where \<open>dynamo_tail\<close> adds one to the highest address of a space: the
  code's \<open>u64\<close> overflows only in a space with an item at its last address.  Casts that the code makes on values from a request, and the arithmetic of clocks and versions,
  are kept at their width.

  Concurrency.  Where tasks or processes interleave, the order of their steps is explicit: an inductive step relation
  (\<open>Runtime\<close>, \<open>App_Worker\<close>, \<open>Mailbox\<close>, \<open>Channels\<close>), a list of events (\<open>Buffering\<close>), or a schedule of what others do before each call
  (\<open>Local_Server\<close>, with what servers promise each other as a pair of relations that fit together).

  Not modelled: the schemas of databases and their checks; the binaries apart from what they start; the YAML parser and clap; the tonic
  servers, signals and logging; seeds and task handles of the simulator and the test libraries; the real clock.
\<close>

section \<open>Concrete runs\<close>

definition on_policy :: versioned_policy_state where
  "on_policy = \<lparr>vps_state = \<lparr>pol_decider_policy = Some 1, pol_voters = []\<rparr>, vps_version = 0\<rparr>"

definition fbw_policy :: versioned_policy_state where
  "fbw_policy = \<lparr>vps_state = \<lparr>pol_decider_policy = Some 2,
     pol_voters = [(''v1'', Some (Llm \<lparr>prompt_override = []\<rparr>))]\<rparr>, vps_version = 0\<rparr>"

definition ls_only :: "string \<Rightarrow> string \<Rightarrow> bool \<times> string" where
  "ls_only b t = (t = ''ls'', ''only ls is allowed'')"

definition ask :: "string \<Rightarrow> payload" where
  "ask t = Some (Intention \<lparr>intention_body = Some (StringIntention t), policy_version_constraint = None\<rparr>)"

definition demo_run :: "((engine_error + proposal_outcome) \<times> sim_world) option" where
  "demo_run = propose_intention (node_engine (sim_node ls_only fbw_policy)) ''bus'' (ask ''rm'') sim_world_empty"

definition demo_outcome :: proposal_outcome where
  "demo_outcome = \<lparr>po_approved = False, po_reason = ''only ls is allowed'', po_log_position = 1\<rparr>"

lemma demo_run_result: "map_option fst demo_run = Some (Inr demo_outcome)"
  by code_simp

lemma demo_run_eq: "demo_run = Some (Inr demo_outcome, snd (the demo_run))"
proof -
  obtain w where "demo_run = Some (Inr demo_outcome, w)"
    using demo_run_result by auto
  then show ?thesis by (metis option.sel snd_conv)
qed

section \<open>What a proposal returns\<close>

text \<open>
  C1. Whatever other tasks do in between, a proposal that returns an outcome returns the first
  decision logged for its own position from some point at or before that position on, and that
  position holds the proposed intention with the policy version it was proposed under.
\<close>
theorem propose_returns_first_decision:
  assumes "node_ok nd" "node_good nd w"
    and "propose_intention (node_engine nd) b p w = Some (Inr out, w')"
  shows "\<exists>c. 0 \<le> c \<and> c \<le> po_log_position out \<and> po_log_position out < int (length (mem_log w' b)) \<and>
    first_decision (mem_log w' b) c (po_log_position out) out \<and>
    (\<exists>i v. p = Some (Intention i) \<and> entry_payload (mem_log w' b ! nat (po_log_position out)) =
      Some (Some (Intention (i\<lparr>policy_version_constraint := Some (MinimumPolicyVersion v)\<rparr>))))"
  using ok_node.propose_outcome[OF ok_node.intro[OF assms(1)] assms(2,3)] .

theorem propose_returns_first_decision_witness:
  "\<exists>c. 0 \<le> c \<and> c \<le> po_log_position demo_outcome \<and>
    po_log_position demo_outcome < int (length (mem_log (snd (the demo_run)) ''bus'')) \<and>
    first_decision (mem_log (snd (the demo_run)) ''bus'') c (po_log_position demo_outcome) demo_outcome"
  using propose_returns_first_decision[OF sim_node_ok sim_world_empty_good, of ls_only fbw_policy "''bus''" "ask ''rm''"
      demo_outcome "snd (the demo_run)"] demo_run_eq
  unfolding demo_run_def by blast

text \<open>
  C2. A proposal keeps every checkpoint equal to the replay of its log, never shortens or rewrites
  a log and never moves a stored position back, whether it succeeds or fails.
\<close>
theorem propose_keeps_checkpoints:
  assumes "node_ok nd" "node_good nd w"
    and "propose_intention (node_engine nd) b p w = Some (res, w')"
  shows "node_good nd w' \<and> prefix (mem_log w b') (mem_log w' b') \<and> store_grows (ew_data w) (ew_data w')"
  using ok_node.propose_keeps[OF ok_node.intro[OF assms(1)] assms(2,3)] by blast

theorem propose_keeps_checkpoints_witness:
  "node_good (sim_node ls_only fbw_policy) (snd (the demo_run))"
  using propose_keeps_checkpoints[OF sim_node_ok sim_world_empty_good, of ls_only fbw_policy "''bus''" "ask ''rm''"
      "Inr demo_outcome" "snd (the demo_run)"] demo_run_eq
  unfolding demo_run_def by blast

text \<open>
  Creating a bus keeps every checkpoint equal to the replay of its log, never shortens or rewrites a log and
  never moves a stored position back.
\<close>
theorem create_bus_keeps_checkpoints:
  assumes "node_ok nd" "node_good nd w" "create_bus (node_engine nd) b w = (res, w')"
  shows "node_good nd w' \<and> prefix (mem_log w b') (mem_log w' b') \<and> store_grows (ew_data w) (ew_data w')"
  using ok_node.create_bus_keeps[OF ok_node.intro[OF assms(1)] assms(2,3)] by blast

theorem create_bus_keeps_checkpoints_witness: "node_good quiet_node created_once"
  using create_bus_keeps_checkpoints[OF sim_node_ok sim_world_empty_good, of "\<lambda>_ _. (True, [])" quiet_policy "''bus''"]
  unfolding created_once_def quiet_node_def by (metis prod.collapse)

end
